(* ===== verification/Prelude.thy ===== *)
theory Prelude
  imports Main "HOL-Library.Word"
begin

section \<open>Prelude: machine types, limb arrays and little-endian bytes\<close>

text \<open>
  Shared vocabulary of the development: the machine types the C++ sources use
  (\<open>octet\<close>, \<open>mp_limb_t\<close>), the number an array of limbs or a byte buffer stands for, the
  result type of operations that throw, and the generic lemmas on lists, words and modular
  arithmetic that several components share.
\<close>

unbundle bit_operations_syntax

named_theorems limb_simps
  \<open>values of limb arrays under the list operations the limb code uses\<close>
named_theorems z2_simps
  \<open>values of Z2 elements under the operations of Math/Z2k.h\<close>
named_theorems stream_simps
  \<open>effect of octetStream operations on contents, length and read head\<close>
named_theorems share_simps
  \<open>sums over all parties of share operations\<close>

type_synonym octet = "8 word"
type_synonym limb = "64 word"

subsection \<open>Limb arrays\<close>

definition limb_base :: nat where
  "limb_base = 2 ^ 64"

lemma limb_base_pos [simp, intro]: "0 < limb_base"
  by (simp add: limb_base_def)

lemma limb_base_pow_pos [simp]: "0 < limb_base ^ n"
  by simp

lemma limb_base_gt_1 [simp]: "1 < limb_base" "Suc 0 < limb_base"
  by (simp_all add: limb_base_def)

lemma limb_base_neq_0 [simp]: "limb_base \<noteq> 0"
  by (simp add: limb_base_def)

lemma unat_limb_less [simp]: "unat (x :: limb) < limb_base"
  using unsigned_less [of x, where 'a = nat] by (simp add: limb_base_def)

lemma unat_limb_le [simp]: "unat (x :: limb) \<le> limb_base"
  by (rule less_imp_le) simp

lemma unat_of_nat_limb: "unat (of_nat n :: limb) = n mod limb_base"
  by (simp add: unat_of_nat limb_base_def)

lemma unat_add_limb: "unat (x + y :: limb) = (unat x + unat y) mod limb_base"
  by (simp add: unat_word_ariths limb_base_def)

lemma unat_mult_limb: "unat (x * y :: limb) = (unat x * unat y) mod limb_base"
  by (simp add: unat_word_ariths limb_base_def)

lemma unat_limb_mod [simp]: "unat (x :: limb) mod limb_base = unat x"
  by simp

text \<open>An array of limbs, least significant first, as a natural number.\<close>

fun limbs_val :: "limb list \<Rightarrow> nat" where
  "limbs_val [] = 0"
| "limbs_val (x # xs) = unat x + limb_base * limbs_val xs"

lemma limbs_val_append [limb_simps]:
  "limbs_val (xs @ ys) = limbs_val xs + limb_base ^ length xs * limbs_val ys"
  by (induction xs) (simp_all add: algebra_simps)

lemma limbs_val_replicate_0 [limb_simps, simp]: "limbs_val (replicate n 0) = 0"
  by (induction n) simp_all

lemma limbs_val_less: "limbs_val xs < limb_base ^ length xs"
proof (induction xs)
  case (Cons x xs)
  have "unat x + limb_base * limbs_val xs < limb_base * (1 + limbs_val xs)"
    by simp
  also have "\<dots> \<le> limb_base * limb_base ^ length xs"
    using Cons by (intro mult_left_mono) simp_all
  finally show ?case by simp
qed simp

lemma limbs_val_mod_self [simp]:
  "n = length xs \<Longrightarrow> limbs_val xs mod limb_base ^ n = limbs_val xs"
  using limbs_val_less [of xs] by simp

lemma limbs_val_take: "limbs_val (take n xs) = limbs_val xs mod limb_base ^ n"
proof (cases "n \<le> length xs")
  case True
  have "limbs_val xs = limbs_val (take n xs) + limb_base ^ n * limbs_val (drop n xs)"
    using limbs_val_append [of "take n xs" "drop n xs"] True by simp
  moreover have "limbs_val (take n xs) < limb_base ^ n"
    using limbs_val_less [of "take n xs"] True by simp
  ultimately show ?thesis by simp
next
  case False
  then have "limb_base ^ length xs \<le> limb_base ^ n"
    by (intro power_increasing) (simp_all add: Suc_leI)
  then have "limbs_val xs < limb_base ^ n"
    using limbs_val_less [of xs] by (rule order.strict_trans2 [rotated])
  with False show ?thesis by simp
qed

lemma limbs_val_drop: "limbs_val (drop n xs) = limbs_val xs div limb_base ^ n"
proof (cases "n \<le> length xs")
  case True
  have "limbs_val xs = limbs_val (take n xs) + limb_base ^ n * limbs_val (drop n xs)"
    using limbs_val_append [of "take n xs" "drop n xs"] True by simp
  moreover have "limbs_val (take n xs) < limb_base ^ n"
    using limbs_val_less [of "take n xs"] True by simp
  ultimately show ?thesis by simp
next
  case False
  then have "limb_base ^ length xs \<le> limb_base ^ n"
    by (intro power_increasing) (simp_all add: Suc_leI)
  then have "limbs_val xs < limb_base ^ n"
    using limbs_val_less [of xs] by (rule order.strict_trans2 [rotated])
  with False show ?thesis by simp
qed

lemma limbs_val_inject:
  "length xs = length ys \<Longrightarrow> limbs_val xs = limbs_val ys \<longleftrightarrow> xs = ys"
proof (induction xs ys rule: list_induct2)
  case (Cons x xs y ys)
  have "unat x = unat y \<and> limbs_val xs = limbs_val ys"
    if eq: "unat x + limb_base * limbs_val xs = unat y + limb_base * limbs_val ys"
  proof -
    from arg_cong [OF eq, of "\<lambda>n. n mod limb_base"] have "unat x = unat y"
      by simp
    with eq show ?thesis by simp
  qed
  with Cons.IH show ?case
    by (auto simp: word_unat_eq_iff)
qed simp

subsection \<open>Modular arithmetic\<close>

lemma mod_mult_left_pow: "(b::nat) * (a mod b ^ n) = (b * a) mod b ^ Suc n"
  using mult_mod_right [of b a "b ^ n"] by simp

lemma mod_eq_addI: "(a::nat) mod m = a' mod m \<Longrightarrow> b mod m = b' mod m \<Longrightarrow> (a + b) mod m = (a' + b') mod m"
  by (rule mod_add_cong)

lemma sum_list_map_add: "(\<Sum>x\<leftarrow>xs. f x + (g x :: 'a :: comm_monoid_add)) = (\<Sum>x\<leftarrow>xs. f x) + (\<Sum>x\<leftarrow>xs. g x)"
  by (rule sum_list_addf)

subsection \<open>Folding with an index\<close>

lemma fold_upt_Suc: "fold f [0..<Suc n] s = f n (fold f [0..<n] s)"
  by simp

lemma fold_invariant_upt:
  assumes "P 0 s" and "\<And>i s. i < n \<Longrightarrow> P i s \<Longrightarrow> P (Suc i) (f i s)"
  shows "P n (fold f [0..<n] s)"
  using assms
proof (induction n)
  case (Suc n)
  then have "P n (fold f [0..<n] s)" by simp
  with Suc.prems show ?case by simp
qed simp

lemma fold_invariant_from:
  assumes "P m s" and "m \<le> n" and "\<And>i s. m \<le> i \<Longrightarrow> i < n \<Longrightarrow> P i s \<Longrightarrow> P (Suc i) (f i s)"
  shows "P n (fold f [m..<n] s)"
  using assms(2,1,3)
proof (induction rule: dec_induct)
  case (step n)
  then have "P n (fold f [m..<n] s)" by simp
  with step show ?case by simp
qed simp

subsection \<open>Little-endian bytes\<close>

text \<open>The bytes of a value in memory order on a little-endian machine, and back.\<close>

fun le_bytes :: "nat \<Rightarrow> nat \<Rightarrow> octet list" where
  "le_bytes 0 v = []"
| "le_bytes (Suc n) v = of_nat v # le_bytes n (v div 256)"

fun le_val :: "octet list \<Rightarrow> nat" where
  "le_val [] = 0"
| "le_val (b # bs) = unat b + 256 * le_val bs"

lemma length_le_bytes [simp]: "length (le_bytes n v) = n"
  by (induction n arbitrary: v) simp_all

lemma unat_octet_less [simp]: "unat (b :: octet) < 256"
  using unsigned_less [of b, where 'a = nat] by simp

lemma le_val_less: "le_val bs < 256 ^ length bs"
proof (induction bs)
  case (Cons b bs)
  have "unat b + 256 * le_val bs < 256 * (1 + le_val bs)"
    by simp
  also have "\<dots> \<le> 256 * 256 ^ length bs"
    using Cons by (intro mult_left_mono) simp_all
  finally show ?case by simp
qed simp

lemma le_val_le_bytes: "le_val (le_bytes n v) = v mod 256 ^ n"
proof (induction n arbitrary: v)
  case (Suc n)
  have "le_val (le_bytes (Suc n) v) = v mod 256 + 256 * (v div 256 mod 256 ^ n)"
    by (simp add: Suc unat_of_nat)
  also have "\<dots> = v mod (256 * 256 ^ n)"
    by (simp add: mod_mult2_eq add.commute)
  finally show ?case by simp
qed simp

lemma le_bytes_le_val: "n = length bs \<Longrightarrow> le_bytes n (le_val bs) = bs"
proof (induction bs arbitrary: n)
  case (Cons b bs)
  have "of_nat (unat b + 256 * m) = b" for m
  proof -
    have "256 * (of_nat m :: octet) = 0"
      by (simp add: word_unat_eq_iff unat_word_ariths)
    then show ?thesis by simp
  qed
  then show ?case using Cons by simp
qed simp

subsection \<open>Signed words\<close>

lemma sint_uint_cases:
  fixes w :: "'a :: len word"
  shows "sint w = (if uint w < 2 ^ (LENGTH('a) - 1) then uint w else uint w - 2 ^ LENGTH('a))"
proof -
  let ?n = "LENGTH('a) - 1"
  have p: "(2 :: int) * 2 ^ ?n = 2 ^ LENGTH('a)" by (metis Suc_diff_1 len_gt_0 power_Suc)
  have "take_bit (Suc ?n) (uint w) = uint w"
    using unsigned_less [of w, where 'a = int] by (intro take_bit_int_eq_self) simp_all
  then have U: "uint w = 2 ^ ?n * of_bool (bit (uint w) ?n) + take_bit ?n (uint w)"
    by (subst (asm) take_bit_Suc_from_most) simp
  have sint: "sint w = take_bit ?n (uint w) - 2 ^ ?n * of_bool (bit (uint w) ?n)"
  proof -
    have "sint w = signed_take_bit ?n (uint w)" by (simp add: sint_uint)
    also have "\<dots> = take_bit (Suc ?n) (uint w) - 2 ^ Suc ?n * of_bool (bit (uint w) ?n)"
      by (rule signed_take_bit_eq_take_bit_minus)
    also have "take_bit (Suc ?n) (uint w) = 2 ^ ?n * of_bool (bit (uint w) ?n) + take_bit ?n (uint w)"
      by (rule take_bit_Suc_from_most)
    finally show ?thesis using p by simp
  qed
  have t: "0 \<le> take_bit ?n (uint w)" "take_bit ?n (uint w) < 2 ^ ?n"
    by (simp_all only: take_bit_nonnegative take_bit_int_less_exp)
  show ?thesis
  proof (cases "bit (uint w) ?n")
    case True
    then have "uint w = 2 ^ ?n + take_bit ?n (uint w)" "sint w = take_bit ?n (uint w) - 2 ^ ?n"
      using U sint by simp_all
    moreover from this t have "\<not> uint w < 2 ^ ?n" by linarith
    ultimately show ?thesis using p by simp
  next
    case False
    then have "uint w = take_bit ?n (uint w)" "sint w = take_bit ?n (uint w)"
      using U sint by simp_all
    moreover from this t have "uint w < 2 ^ ?n" by linarith
    ultimately show ?thesis by simp
  qed
qed

text \<open>A number that is not too large is the same signed.\<close>

lemma sint_of_nat_small:
  assumes "n < 2 ^ (LENGTH('a) - 1)"
  shows "sint (of_nat n :: 'a :: len word) = int n" "unat (of_nat n :: 'a word) = n"
proof -
  have "(2 :: nat) ^ (LENGTH('a) - 1) < 2 ^ LENGTH('a)" by simp
  then have n: "n < 2 ^ LENGTH('a)" using assms by linarith
  then show u: "unat (of_nat n :: 'a word) = n" unfolding unat_of_nat by (rule mod_less)
  have "uint (of_nat n :: 'a word) = int n" using u by (metis uint_nat)
  moreover have "int n < 2 ^ (LENGTH('a) - 1)" using assms by (metis of_nat_less_iff of_nat_numeral of_nat_power)
  ultimately show "sint (of_nat n :: 'a word) = int n" by (simp add: sint_uint_cases)
qed

subsection \<open>Results of operations that throw\<close>

datatype cpp_error =
    insufficient_data      \<comment> \<open>\<open>std::runtime_error("insufficient data")\<close>\<close>
  | invalid_length
  | invalid_params
  | bad_value
  | division_by_zero
  | runtime_error string
  | mac_fail
  | invalid_commitment
  | broadcast_invalid
  | mismatch_among_parties
  | offline_check_error string
  | not_implemented
  | process_exit           \<comment> \<open>\<open>exit(1)\<close> or \<open>terminate()\<close>\<close>
  | out_of_range           \<comment> \<open>\<open>vector::at\<close>\<close>
  | assertion_failed       \<comment> \<open>\<open>assert\<close>: the process aborts\<close>
  | undefined_behaviour    \<comment> \<open>a read outside the object\<close>
  | processor_error string
  | parse_failure          \<comment> \<open>bytecode that ends within an instruction\<close>
  | length_error           \<comment> \<open>\<open>vector::resize\<close> to an impossible size\<close>
  | memory_overflow        \<comment> \<open>\<open>overflow\<close>: an address outside the memory\<close>
  | arithmetic_trap        \<comment> \<open>a machine division that traps\<close>
  | crash_requested
  | invalid_program

type_synonym 'a result = "cpp_error + 'a"

fun bind_result :: "'a result \<Rightarrow> ('a \<Rightarrow> 'b result) \<Rightarrow> 'b result" where
  "bind_result (Inl e) f = Inl e"
| "bind_result (Inr x) f = f x"

lemma bind_result_Inr_iff:
  "bind_result m f = Inr y \<longleftrightarrow> (\<exists>x. m = Inr x \<and> f x = Inr y)"
  by (cases m) simp_all

lemma bind_result_assoc:
  "bind_result (bind_result m f) g = bind_result m (\<lambda>x. bind_result (f x) g)"
  by (cases m) simp_all

text \<open>A loop whose body can throw.\<close>

fun foldM_result :: "('a \<Rightarrow> 's \<Rightarrow> 's result) \<Rightarrow> 'a list \<Rightarrow> 's \<Rightarrow> 's result" where
  "foldM_result f [] s = Inr s"
| "foldM_result f (x # xs) s = bind_result (f x s) (foldM_result f xs)"

lemma foldM_result_append:
  "foldM_result f (xs @ ys) s = bind_result (foldM_result f xs s) (foldM_result f ys)"
proof (induction xs arbitrary: s)
  case (Cons x xs)
  then show ?case by (cases "f x s") simp_all
qed simp

lemma foldM_result_upt:
  assumes "P 0 s" and "\<And>i s. i < n \<Longrightarrow> P i s \<Longrightarrow> \<exists>s'. f i s = Inr s' \<and> P (Suc i) s'"
  shows "\<exists>s'. foldM_result f [0..<n] s = Inr s' \<and> P n s'"
  using assms
proof (induction n)
  case (Suc n)
  from Suc.IH [OF Suc.prems(1)] Suc.prems(2) obtain t where "foldM_result f [0..<n] s = Inr t" "P n t"
    by (meson less_SucI)
  moreover from Suc.prems(2) [OF _ this(2)] obtain s' where "f n t = Inr s'" "P (Suc n) s'"
    by auto
  ultimately show ?case
    by (simp add: foldM_result_append)
qed simp

text \<open>Operations that wait for input: \<open>None\<close> is a party blocked on a socket that holds too few bytes.\<close>

type_synonym 'a io = "'a result option"

fun bind_io :: "'a io \<Rightarrow> ('a \<Rightarrow> 'b io) \<Rightarrow> 'b io" where
  "bind_io None f = None"
| "bind_io (Some (Inl e)) f = Some (Inl e)"
| "bind_io (Some (Inr x)) f = f x"

lemma bind_io_Inr_iff: "bind_io m f = Some (Inr y) \<longleftrightarrow> (\<exists>x. m = Some (Inr x) \<and> f x = Some (Inr y))"
  by (cases m rule: option.exhaust [case_product sum.exhaust]; cases "the m") auto

fun foldM_io :: "('a \<Rightarrow> 's \<Rightarrow> 's io) \<Rightarrow> 'a list \<Rightarrow> 's \<Rightarrow> 's io" where
  "foldM_io f [] s = Some (Inr s)"
| "foldM_io f (x # xs) s = bind_io (f x s) (foldM_io f xs)"

lemma foldM_io_append: "foldM_io f (xs @ ys) s = bind_io (foldM_io f xs s) (foldM_io f ys)"
proof (induction xs arbitrary: s)
  case (Cons x xs)
  show ?case
  proof (cases "f x s")
    case (Some r)
    then show ?thesis by (cases r) (simp_all add: Cons)
  qed simp
qed simp

lemma foldM_io_upt:
  assumes "P 0 s" and "\<And>i s. i < n \<Longrightarrow> P i s \<Longrightarrow> \<exists>s'. f i s = Some (Inr s') \<and> P (Suc i) s'"
  shows "\<exists>s'. foldM_io f [0..<n] s = Some (Inr s') \<and> P n s'"
  using assms
proof (induction n)
  case (Suc n)
  from Suc.IH [OF Suc.prems(1)] Suc.prems(2) obtain t where "foldM_io f [0..<n] s = Some (Inr t)" "P n t"
    by (meson less_SucI)
  moreover from Suc.prems(2) [OF _ this(2)] obtain s' where "f n t = Some (Inr s')" "P (Suc n) s'"
    by auto
  ultimately show ?case
    by (simp add: foldM_io_append)
qed simp

lemma foldM_io_invariant:
  assumes "foldM_io f [0..<n] s = Some (Inr s')" "P 0 s" "\<And>i s s'. i < n \<Longrightarrow> P i s \<Longrightarrow> f i s = Some (Inr s') \<Longrightarrow> P (Suc i) s'"
  shows "P n s'"
  using assms
proof (induction n arbitrary: s')
  case (Suc n)
  from Suc.prems(1) obtain t where t: "foldM_io f [0..<n] s = Some (Inr t)" "f n t = Some (Inr s')"
    by (auto simp: foldM_io_append bind_io_Inr_iff)
  have "P n t" by (rule Suc.IH [OF t(1) Suc.prems(2)]) (use Suc.prems(3) less_SucI in blast)
  then show ?case using Suc.prems(3) [OF _ _ t(2)] by simp
qed simp

text \<open>A chain of conditions that ends in a result.\<close>

lemma if_Some_E:
  assumes "(if b then Some x else y) = Some z"
  obtains "b" "x = z" | "\<not> b" "y = Some z"
  using assms by (cases b) auto

lemma if_Some_Inr_E:
  assumes "(if b then x else y) = Some (Inr z)"
  obtains "b" "x = Some (Inr z)" | "\<not> b" "y = Some (Inr z)"
  using assms by (cases b) auto

subsection \<open>Random coefficients\<close>

lemma two_power_dvd_product:
  fixes x y :: int
  shows "2 ^ (m + n) dvd x * y \<Longrightarrow> 2 ^ m dvd x \<or> 2 ^ Suc n dvd y"
proof (induction m arbitrary: x)
  case (Suc m)
  show ?case
  proof (cases "even x")
    case True
    then obtain x' where x: "x = 2 * x'" by blast
    then have "2 ^ (m + n) dvd x' * y" using Suc.prems by (simp add: mult.assoc)
    from Suc.IH [OF this] show ?thesis by (auto simp: x)
  next
    case False
    then have "coprime (2 ^ (Suc m + n)) x" by (simp add: coprime_right_2_iff_odd)
    then have "2 ^ (Suc m + n) dvd y" using Suc.prems by (simp only: coprime_dvd_mult_right_iff)
    then have "2 ^ Suc n dvd y" by (rule dvd_trans [rotated]) (simp add: le_imp_power_dvd)
    then show ?thesis ..
  qed
qed simp

text \<open>
  An error that is not a multiple of \<open>2 ^ (n + 1)\<close> is hidden by at most one coefficient, when the ring
  has \<open>n\<close> bits more than the coefficients.
\<close>

lemma coefficient_unique_word:
  fixes a b :: "'s :: len word" and e c :: "'w :: len word"
  assumes "LENGTH('w) = LENGTH('s) + n" "ucast a * e + c = 0" "ucast b * e + c = 0" "\<not> 2 ^ Suc n dvd unat e"
  shows "a = b"
proof -
  let ?d = "int (unat a) - int (unat b)"
  have "ucast a * e = - c" "ucast b * e = - c"
    using assms(2,3) by (simp_all only: eq_neg_iff_add_eq_0)
  then have "(ucast a - ucast b) * e = 0"
    by (simp only: left_diff_distrib) simp
  moreover have "ucast a - ucast b = (of_int ?d :: 'w word)" by simp
  moreover have "e = of_int (int (unat e))" by simp
  ultimately have "(of_int (?d * int (unat e)) :: 'w word) = of_int 0"
    by (metis of_int_mult of_int_0)
  then have "take_bit LENGTH('w) (?d * int (unat e)) = 0"
    by (simp only: word_of_int_eq_iff take_bit_of_0)
  then have "2 ^ (LENGTH('s) + n) dvd ?d * int (unat e)"
    by (simp add: take_bit_eq_0_iff assms(1))
  then have "2 ^ LENGTH('s) dvd ?d \<or> 2 ^ Suc n dvd int (unat e)"
    by (rule two_power_dvd_product)
  moreover have "\<not> 2 ^ Suc n dvd int (unat e)"
  proof
    assume "2 ^ Suc n dvd int (unat e)"
    then have "int (2 ^ Suc n) dvd int (unat e)" by simp
    then have "2 ^ Suc n dvd unat e" by (simp only: int_dvd_int_iff)
    with assms(4) show False by blast
  qed
  ultimately have dvd: "2 ^ LENGTH('s) dvd ?d" by blast
  have "int (unat a) < 2 ^ LENGTH('s)" "int (unat b) < 2 ^ LENGTH('s)" by (simp_all only: of_nat_unat unsigned_less)
  then have lt: "\<bar>?d\<bar> < 2 ^ LENGTH('s)" by (simp only: abs_less_iff) linarith
  have "?d = 0"
  proof (rule ccontr)
    assume "?d \<noteq> 0"
    from dvd_imp_le_int [OF this dvd] have "2 ^ LENGTH('s) \<le> \<bar>?d\<bar>"
      by (simp only: abs_of_nonneg zero_le_power zero_le_numeral)
    with lt show False by linarith
  qed
  then have "unat a = unat b" by linarith
  then show ?thesis by (simp add: word_unat_eq_iff)
qed

subsection \<open>Vectors\<close>

text \<open>\<open>resize\<close> of a vector of values whose default is \<open>z\<close>.\<close>

definition vec_resize :: "'t \<Rightarrow> nat \<Rightarrow> 't list \<Rightarrow> 't list" where
  "vec_resize z n xs = take n xs @ replicate (n - length xs) z"

lemma length_vec_resize [simp]: "length (vec_resize z n xs) = n"
  by (simp add: vec_resize_def)

end
