(* ===== verification/MpnFixed.thy ===== *)
theory MpnFixed
  imports Prelude
begin

section \<open>Fixed-size limb arithmetic (Math/mpn\_fixed.h)\<close>

text \<open>
  The carry-propagating loops of \<open>Math/mpn_fixed.h\<close>, on lists of 64-bit limbs, least
  significant first. A pointer argument is the list of the limbs it points at (possibly more
  than the routine reads); a routine that writes \<open>N\<close> limbs returns these \<open>N\<close> limbs.
  The x86 code path is modelled: the inline assembly \<open>add/adc\<close> and \<open>sub/sbb\<close> chains and the
  compiler intrinsics \<open>_addcarryx_u64\<close>, \<open>_subborrow_u64\<close>, \<open>_mulx_u64\<close>. The fall-backs to
  GMP's \<open>mpn_add_n\<close>, \<open>mpn_sub_n\<close>, \<open>mpn_addmul_1\<close> on other machines are not.
  The lemmas say that every routine computes the sum, difference or product of the numbers
  modulo the power of the base that fits the result.
\<close>

subsection \<open>Intrinsics\<close>

definition addcarryx_u64 :: "bool \<Rightarrow> limb \<Rightarrow> limb \<Rightarrow> limb \<times> bool" where
  "addcarryx_u64 c x y = (x + y + of_bool c, limb_base \<le> unat x + unat y + of_bool c)"

definition subborrow_u64 :: "bool \<Rightarrow> limb \<Rightarrow> limb \<Rightarrow> limb \<times> bool" where
  "subborrow_u64 b x y = (x - y - of_bool b, unat x < unat y + of_bool b)"

definition mulx_u64 :: "limb \<Rightarrow> limb \<Rightarrow> limb \<times> limb" where
  "mulx_u64 x y = (x * y, of_nat ((unat x * unat y) div limb_base))"

lemma addcarryx_u64_val:
  "addcarryx_u64 c x y = (r, c') \<Longrightarrow>
     unat r + limb_base * of_bool c' = unat x + unat y + of_bool c"
proof -
  assume *: "addcarryx_u64 c x y = (r, c')"
  have r: "unat r = (unat x + unat y + of_bool c) mod limb_base"
    using * by (auto simp: addcarryx_u64_def unat_add_limb mod_simps split: if_splits)
  have c: "c' = (limb_base \<le> unat x + unat y + of_bool c)"
    using * by (auto simp: addcarryx_u64_def)
  have "unat x + unat y + of_bool c < 2 * limb_base"
    using unat_limb_less [of x] unat_limb_less [of y] by (cases c) (simp_all del: unat_limb_less)
  then show ?thesis
    unfolding r c by (cases "limb_base \<le> unat x + unat y + of_bool c")
      (simp_all add: le_mod_geq mod_less)
qed

lemma subborrow_u64_val:
  "subborrow_u64 b x y = (r, b') \<Longrightarrow>
     unat r + unat y + of_bool b = unat x + limb_base * of_bool b'"
proof -
  assume *: "subborrow_u64 b x y = (r, b')"
  have r: "r + y + of_bool b = x"
    using * by (auto simp: subborrow_u64_def)
  have b': "b' = (unat x < unat y + of_bool b)"
    using * by (auto simp: subborrow_u64_def)
  have m: "unat x = (unat r + unat y + of_bool b) mod limb_base"
    unfolding r [symmetric] by (cases b) (simp_all add: unat_add_limb mod_simps)
  have "unat r + unat y + of_bool b < 2 * limb_base"
    using unat_limb_less [of r] unat_limb_less [of y] by (cases b) (simp_all del: unat_limb_less)
  then show ?thesis
    unfolding b' m
    by (cases "limb_base \<le> unat r + unat y + of_bool b")
      (use unat_limb_less [of r] in \<open>auto simp: le_mod_geq simp del: unat_limb_less\<close>)
qed

lemma mulx_u64_val:
  "unat (fst (mulx_u64 x y)) + limb_base * unat (snd (mulx_u64 x y)) = unat x * unat y"
proof -
  have "unat x * unat y < limb_base * limb_base"
    by (intro mult_strict_mono) simp_all
  then have "(unat x * unat y) div limb_base < limb_base"
    by (simp add: less_mult_imp_div_less)
  then show ?thesis
    by (simp add: mulx_u64_def unat_mult_limb unat_of_nat_limb)
qed

subsection \<open>Addition\<close>

fun add_loop :: "bool \<Rightarrow> limb list \<Rightarrow> limb list \<Rightarrow> limb list \<times> bool" where
  "add_loop carry (x # xs) (y # ys) =
     (let (r, carry) = addcarryx_u64 carry x y;
          (rs, carry) = add_loop carry xs ys
      in (r # rs, carry))"
| "add_loop carry _ _ = ([], carry)"

definition mpn_add_n_with_carry :: "limb list \<Rightarrow> limb list \<Rightarrow> nat \<Rightarrow> limb list \<times> bool" where
  "mpn_add_n_with_carry x y n = add_loop False (take n x) (take n y)"

definition mpn_add_fixed_n_with_carry :: "nat \<Rightarrow> limb list \<Rightarrow> limb list \<Rightarrow> limb list \<times> bool" where
  "mpn_add_fixed_n_with_carry N x y = mpn_add_n_with_carry x y N"

definition mpn_add_fixed_n :: "nat \<Rightarrow> limb list \<Rightarrow> limb list \<Rightarrow> limb list" where
  "mpn_add_fixed_n N x y =
     (if N = 1 then [x ! 0 + y ! 0]
      else if N = 2 then
        (let (r0, c) = addcarryx_u64 False (x ! 0) (y ! 0);
             (r1, c) = addcarryx_u64 c (x ! 1) (y ! 1)
         in [r0, r1])
      else if N = 4 then
        (let (r0, c) = addcarryx_u64 False (x ! 0) (y ! 0);
             (r1, c) = addcarryx_u64 c (x ! 1) (y ! 1);
             (r2, c) = addcarryx_u64 c (x ! 2) (y ! 2);
             (r3, c) = addcarryx_u64 c (x ! 3) (y ! 3)
         in [r0, r1, r2, r3])
      else fst (mpn_add_fixed_n_with_carry N x y))"

text \<open>\<open>mpn_add_n_use_fixed\<close> dispatches a run-time size to the fixed-size routines.\<close>

definition mpn_add_n_use_fixed :: "limb list \<Rightarrow> limb list \<Rightarrow> nat \<Rightarrow> limb list" where
  "mpn_add_n_use_fixed x y n =
     (if n = 1 then mpn_add_fixed_n 1 x y
      else if n = 2 then mpn_add_fixed_n 2 x y
      else if n = 3 then mpn_add_fixed_n 3 x y
      else if n = 4 then mpn_add_fixed_n 4 x y
      else fst (mpn_add_n_with_carry x y n))"

lemma length_add_loop [simp]: "length (fst (add_loop c xs ys)) = min (length xs) (length ys)"
  by (induction c xs ys rule: add_loop.induct) (auto split: prod.splits)

lemma add_loop_val:
  "length xs = length ys \<Longrightarrow> add_loop c xs ys = (rs, c') \<Longrightarrow>
     limbs_val rs + limb_base ^ length xs * of_bool c' = limbs_val xs + limbs_val ys + of_bool c"
proof (induction c xs ys arbitrary: rs c' rule: add_loop.induct)
  case (1 c x xs y ys)
  obtain r c1 where r: "addcarryx_u64 c x y = (r, c1)" by fastforce
  obtain rs1 c2 where rs1: "add_loop c1 xs ys = (rs1, c2)" by fastforce
  have rs: "rs = r # rs1" "c' = c2" using "1.prems"(2) r rs1 by simp_all
  have "limbs_val rs1 + limb_base ^ length xs * of_bool c2 = limbs_val xs + limbs_val ys + of_bool c1"
    using "1.IH" [OF r [symmetric] refl] rs1 "1.prems"(1) by simp
  then have "limb_base * limbs_val rs1 + limb_base * limb_base ^ length xs * of_bool c2
     = limb_base * limbs_val xs + limb_base * limbs_val ys + limb_base * of_bool c1"
    by (metis (no_types, lifting) distrib_left mult.assoc)
  with addcarryx_u64_val [OF r] show ?case
    by (simp add: rs)
qed simp_all

lemma mpn_add_n_with_carry_val:
  assumes "n \<le> length x" "n \<le> length y" "mpn_add_n_with_carry x y n = (r, c)"
  shows "limbs_val r + limb_base ^ n * of_bool c = limbs_val (take n x) + limbs_val (take n y)"
  using add_loop_val [of "take n x" "take n y" False r c] assms
  by (simp add: mpn_add_n_with_carry_def)

lemma take_2_nth: "2 \<le> length xs \<Longrightarrow> take 2 xs = [xs ! 0, xs ! 1]"
  by (cases xs; cases "tl xs") (auto simp: numeral_eq_Suc)

lemma take_3_nth: "3 \<le> length xs \<Longrightarrow> take 3 xs = [xs ! 0, xs ! 1, xs ! 2]"
  using take_2_nth [of "tl xs"] by (cases xs) (auto simp: numeral_eq_Suc)

lemma take_4_nth: "4 \<le> length xs \<Longrightarrow> take 4 xs = [xs ! 0, xs ! 1, xs ! 2, xs ! 3]"
  using take_3_nth [of "tl xs"] by (cases xs) (auto simp: numeral_eq_Suc)

lemmas take_nths = take_2_nth take_3_nth take_4_nth

lemma mpn_add_fixed_n_loop:
  assumes "N \<le> length x" "N \<le> length y"
  shows "mpn_add_fixed_n N x y = fst (mpn_add_fixed_n_with_carry N x y)"
proof -
  consider "N = 1" | "N = 2" | "N = 4" | "N \<noteq> 1" "N \<noteq> 2" "N \<noteq> 4" by blast
  then show ?thesis
  proof cases
    case 1
    with assms obtain x0 xs y0 ys where "x = x0 # xs" "y = y0 # ys"
      by (cases x; cases y) auto
    with 1 show ?thesis
      by (simp add: mpn_add_fixed_n_def mpn_add_fixed_n_with_carry_def mpn_add_n_with_carry_def
          addcarryx_u64_def)
  next
    case 2
    with assms show ?thesis
      by (simp add: mpn_add_fixed_n_def mpn_add_fixed_n_with_carry_def mpn_add_n_with_carry_def
          take_nths split: prod.splits)
  next
    case 3
    with assms show ?thesis
      by (simp add: mpn_add_fixed_n_def mpn_add_fixed_n_with_carry_def mpn_add_n_with_carry_def
          take_nths split: prod.splits)
  next
    case 4
    then show ?thesis by (simp add: mpn_add_fixed_n_def)
  qed
qed

lemma length_mpn_add_fixed_n [simp]:
  "N \<le> length x \<Longrightarrow> N \<le> length y \<Longrightarrow> length (mpn_add_fixed_n N x y) = N"
  by (simp add: mpn_add_fixed_n_loop mpn_add_fixed_n_with_carry_def mpn_add_n_with_carry_def)

lemma mpn_add_fixed_n_val [limb_simps]:
  assumes "N \<le> length x" "N \<le> length y"
  shows "limbs_val (mpn_add_fixed_n N x y)
       = (limbs_val (take N x) + limbs_val (take N y)) mod limb_base ^ N"
proof -
  obtain r c where r: "mpn_add_n_with_carry x y N = (r, c)" by fastforce
  have *: "limbs_val r + limb_base ^ N * of_bool c = limbs_val (take N x) + limbs_val (take N y)"
    by (rule mpn_add_n_with_carry_val [OF assms r])
  have "length r = N"
    using r assms by (metis fst_conv length_add_loop length_take min.absorb2 min.idem
        mpn_add_n_with_carry_def)
  then have "limbs_val r < limb_base ^ N"
    using limbs_val_less [of r] by simp
  with * have "(limbs_val (take N x) + limbs_val (take N y)) mod limb_base ^ N = limbs_val r"
    by (metis mod_less mod_mult_self2 mult.commute)
  with r assms show ?thesis
    by (simp add: mpn_add_fixed_n_loop mpn_add_fixed_n_with_carry_def)
qed

lemma mpn_add_n_use_fixed_eq:
  "n \<le> length x \<Longrightarrow> n \<le> length y \<Longrightarrow> mpn_add_n_use_fixed x y n = mpn_add_fixed_n n x y"
  by (simp add: mpn_add_n_use_fixed_def mpn_add_fixed_n_loop mpn_add_fixed_n_with_carry_def)

subsection \<open>Subtraction\<close>

fun sub_loop :: "bool \<Rightarrow> limb list \<Rightarrow> limb list \<Rightarrow> limb list \<times> bool" where
  "sub_loop borrow (x # xs) (y # ys) =
     (let (r, borrow) = subborrow_u64 borrow x y;
          (rs, borrow) = sub_loop borrow xs ys
      in (r # rs, borrow))"
| "sub_loop borrow _ _ = ([], borrow)"

definition mpn_sub_n_borrow :: "limb list \<Rightarrow> limb list \<Rightarrow> nat \<Rightarrow> limb list \<times> bool" where
  "mpn_sub_n_borrow x y n = sub_loop False (take n x) (take n y)"

definition mpn_sub_fixed_n :: "nat \<Rightarrow> limb list \<Rightarrow> limb list \<Rightarrow> limb list" where
  "mpn_sub_fixed_n N x y =
     (if N = 1 then [x ! 0 - y ! 0]
      else if N = 2 then
        (let (r0, b) = subborrow_u64 False (x ! 0) (y ! 0);
             (r1, b) = subborrow_u64 b (x ! 1) (y ! 1)
         in [r0, r1])
      else if N = 3 then
        (let (r0, b) = subborrow_u64 False (x ! 0) (y ! 0);
             (r1, b) = subborrow_u64 b (x ! 1) (y ! 1);
             (r2, b) = subborrow_u64 b (x ! 2) (y ! 2)
         in [r0, r1, r2])
      else if N = 4 then
        (let (r0, b) = subborrow_u64 False (x ! 0) (y ! 0);
             (r1, b) = subborrow_u64 b (x ! 1) (y ! 1);
             (r2, b) = subborrow_u64 b (x ! 2) (y ! 2);
             (r3, b) = subborrow_u64 b (x ! 3) (y ! 3)
         in [r0, r1, r2, r3])
      else fst (mpn_sub_n_borrow x y N))"

text \<open>
  The borrow that \<open>mpn_sub_fixed_n_borrow\<close> returns: the generic version returns the borrow
  flag as 0 or 1; the assembly versions for 1 and 2 limbs return \<open>0 - flag\<close>
  (\<open>sbb $0, borrow\<close> on a zeroed register), that is, all ones.
\<close>

definition mpn_sub_fixed_n_borrow :: "nat \<Rightarrow> limb list \<Rightarrow> limb list \<Rightarrow> limb list \<times> limb" where
  "mpn_sub_fixed_n_borrow N x y =
     (if N = 1 then
        (let (r0, b) = subborrow_u64 False (x ! 0) (y ! 0)
         in ([r0], fst (subborrow_u64 b 0 0)))
      else if N = 2 then
        (let (r0, b) = subborrow_u64 False (x ! 0) (y ! 0);
             (r1, b) = subborrow_u64 b (x ! 1) (y ! 1)
         in ([r0, r1], fst (subborrow_u64 b 0 0)))
      else (let (r, b) = mpn_sub_n_borrow x y N in (r, of_bool b)))"

lemma length_sub_loop [simp]: "length (fst (sub_loop c xs ys)) = min (length xs) (length ys)"
  by (induction c xs ys rule: sub_loop.induct) (auto split: prod.splits)

lemma sub_loop_val:
  "length xs = length ys \<Longrightarrow> sub_loop b xs ys = (rs, b') \<Longrightarrow>
     limbs_val rs + limbs_val ys + of_bool b = limbs_val xs + limb_base ^ length xs * of_bool b'"
proof (induction b xs ys arbitrary: rs b' rule: sub_loop.induct)
  case (1 b x xs y ys)
  obtain r b1 where r: "subborrow_u64 b x y = (r, b1)" by fastforce
  obtain rs1 b2 where rs1: "sub_loop b1 xs ys = (rs1, b2)" by fastforce
  have rs: "rs = r # rs1" "b' = b2" using "1.prems"(2) r rs1 by simp_all
  have "limbs_val rs1 + limbs_val ys + of_bool b1 = limbs_val xs + limb_base ^ length xs * of_bool b2"
    using "1.IH" [OF r [symmetric] refl] rs1 "1.prems"(1) by simp
  then have "limb_base * limbs_val rs1 + limb_base * limbs_val ys + limb_base * of_bool b1
     = limb_base * limbs_val xs + limb_base * limb_base ^ length xs * of_bool b2"
    by (metis (no_types, lifting) distrib_left mult.assoc)
  with subborrow_u64_val [OF r] show ?case
    by (simp add: rs)
qed simp_all

lemma mpn_sub_n_borrow_val:
  assumes "n \<le> length x" "n \<le> length y" "mpn_sub_n_borrow x y n = (r, b)"
  shows "limbs_val r + limbs_val (take n y) = limbs_val (take n x) + limb_base ^ n * of_bool b"
  using sub_loop_val [of "take n x" "take n y" False r b] assms
  by (simp add: mpn_sub_n_borrow_def)

lemma mpn_sub_fixed_n_loop:
  assumes "N \<le> length x" "N \<le> length y"
  shows "mpn_sub_fixed_n N x y = fst (mpn_sub_n_borrow x y N)"
proof -
  consider "N = 1" | "N = 2" | "N = 3" | "N = 4" | "N \<notin> {1, 2, 3, 4}" by blast
  then show ?thesis
  proof cases
    case 1
    with assms show ?thesis
      by (cases x; cases y) (simp_all add: mpn_sub_fixed_n_def mpn_sub_n_borrow_def subborrow_u64_def)
  next
    case 2
    with assms show ?thesis
      by (simp add: mpn_sub_fixed_n_def mpn_sub_n_borrow_def take_nths split: prod.splits)
  next
    case 3
    with assms show ?thesis
      by (simp add: mpn_sub_fixed_n_def mpn_sub_n_borrow_def take_nths split: prod.splits)
  next
    case 4
    with assms show ?thesis
      by (simp add: mpn_sub_fixed_n_def mpn_sub_n_borrow_def take_nths split: prod.splits)
  next
    case 5
    then show ?thesis by (simp add: mpn_sub_fixed_n_def)
  qed
qed

lemma length_mpn_sub_n_borrow:
  "N \<le> length x \<Longrightarrow> N \<le> length y \<Longrightarrow> length (fst (mpn_sub_n_borrow x y N)) = N"
  by (simp add: mpn_sub_n_borrow_def)

lemma length_mpn_sub_fixed_n [simp]:
  "N \<le> length x \<Longrightarrow> N \<le> length y \<Longrightarrow> length (mpn_sub_fixed_n N x y) = N"
  by (simp add: mpn_sub_fixed_n_loop length_mpn_sub_n_borrow)

lemma mpn_sub_fixed_n_val [limb_simps]:
  assumes "N \<le> length x" "N \<le> length y"
  shows "limbs_val (mpn_sub_fixed_n N x y)
       = (limbs_val (take N x) + limb_base ^ N - limbs_val (take N y)) mod limb_base ^ N"
proof -
  obtain r b where r: "mpn_sub_n_borrow x y N = (r, b)" by fastforce
  have *: "limbs_val r + limbs_val (take N y) = limbs_val (take N x) + limb_base ^ N * of_bool b"
    by (rule mpn_sub_n_borrow_val [OF assms r])
  have "length r = N"
    using length_mpn_sub_n_borrow [OF assms] r by simp
  then have lr: "limbs_val r < limb_base ^ N"
    using limbs_val_less [of r] by simp
  have "limbs_val (take N x) + limb_base ^ N - limbs_val (take N y)
      = limbs_val r + limb_base ^ N * (1 - of_bool b)"
    using * by (cases b) simp_all
  then have "(limbs_val (take N x) + limb_base ^ N - limbs_val (take N y)) mod limb_base ^ N
      = limbs_val r"
    using lr by simp
  with r assms show ?thesis
    by (simp add: mpn_sub_fixed_n_loop)
qed

text \<open>
  The borrow of the generic version and of the assembly versions agree as a truth value, not
  as a number.
\<close>

lemma mpn_sub_fixed_n_borrow_val:
  assumes "N \<le> length x" "N \<le> length y" "0 < N"
  shows "fst (mpn_sub_fixed_n_borrow N x y) = mpn_sub_fixed_n N x y"
    and "snd (mpn_sub_fixed_n_borrow N x y) \<noteq> 0 \<longleftrightarrow> limbs_val (take N x) < limbs_val (take N y)"
proof -
  obtain r b where r: "mpn_sub_n_borrow x y N = (r, b)" by fastforce
  have val: "limbs_val r + limbs_val (take N y) = limbs_val (take N x) + limb_base ^ N * of_bool b"
    by (rule mpn_sub_n_borrow_val [OF assms(1,2) r])
  have "length r = N"
    using length_mpn_sub_n_borrow [OF assms(1,2)] r by simp
  then have "limbs_val r < limb_base ^ N"
    using limbs_val_less [of r] by simp
  with val have b: "b \<longleftrightarrow> limbs_val (take N x) < limbs_val (take N y)"
    by (cases b) auto
  have N: "mpn_sub_fixed_n_borrow N x y
      = (r, if N = 1 \<or> N = 2 then - of_bool b else of_bool b)"
  proof -
    consider "N = 1" | "N = 2" | "N \<noteq> 1" "N \<noteq> 2" by blast
    then show ?thesis
    proof cases
      case 1
      with assms r show ?thesis
        by (cases x; cases y) (auto simp: mpn_sub_fixed_n_borrow_def mpn_sub_n_borrow_def
            subborrow_u64_def split: prod.splits)
    next
      case 2
      with assms r show ?thesis
        by (auto simp: mpn_sub_fixed_n_borrow_def mpn_sub_n_borrow_def take_nths subborrow_u64_def
            split: prod.splits if_splits)
    next
      case 3
      with r show ?thesis by (simp add: mpn_sub_fixed_n_borrow_def)
    qed
  qed
  show "fst (mpn_sub_fixed_n_borrow N x y) = mpn_sub_fixed_n N x y"
    using N r assms by (simp add: mpn_sub_fixed_n_loop)
  show "snd (mpn_sub_fixed_n_borrow N x y) \<noteq> 0 \<longleftrightarrow> limbs_val (take N x) < limbs_val (take N y)"
    using N b by simp
qed

subsection \<open>Multiplication\<close>

text \<open>\<open>write_at i new buf\<close>: the buffer after the limbs \<open>new\<close> are written at offset \<open>i\<close>.\<close>

definition write_at :: "nat \<Rightarrow> limb list \<Rightarrow> limb list \<Rightarrow> limb list" where
  "write_at i new buf = take i buf @ new @ drop (i + length new) buf"

definition inline_mpn_zero :: "nat \<Rightarrow> limb list" where
  "inline_mpn_zero n = replicate n 0"

definition inline_mpn_copyi :: "limb list \<Rightarrow> nat \<Rightarrow> limb list" where
  "inline_mpn_copyi src n = take n src"

text \<open>
  \<open>mpn_addmul_1_fixed__<L, M, ADD>\<close>: \<open>res + x * y\<close> (or \<open>x * y\<close>) on \<open>L\<close> limbs, where \<open>y\<close>
  has \<open>M\<close> limbs: the low halves of the partial products are added first, then the high
  halves one limb up.
\<close>

definition mpn_addmul_1_fixed_impl ::
  "nat \<Rightarrow> nat \<Rightarrow> bool \<Rightarrow> limb list \<Rightarrow> limb list \<Rightarrow> limb \<Rightarrow> limb list" where
  "mpn_addmul_1_fixed_impl L M ADD res y x =
     (let lower = map (\<lambda>yj. fst (mulx_u64 x yj)) (take M y) @ inline_mpn_zero (L - M);
          higher = map (\<lambda>yj. snd (mulx_u64 x yj)) (take M y) @ inline_mpn_zero (L - M);
          res = (if ADD then mpn_add_fixed_n L lower res else inline_mpn_copyi lower L)
      in take 1 res @ mpn_add_fixed_n (L - 1) higher (drop 1 res))"

definition mpn_mul_1_fixed :: "nat \<Rightarrow> nat \<Rightarrow> limb list \<Rightarrow> limb \<Rightarrow> limb list" where
  "mpn_mul_1_fixed L M y x = mpn_addmul_1_fixed_impl L M False [] y x"

definition mpn_addmul_1_fixed_L :: "nat \<Rightarrow> nat \<Rightarrow> limb list \<Rightarrow> limb list \<Rightarrow> limb \<Rightarrow> limb list" where
  "mpn_addmul_1_fixed_L L M res y x = mpn_addmul_1_fixed_impl L M True res y x"

definition mpn_addmul_1_fixed :: "nat \<Rightarrow> limb list \<Rightarrow> limb list \<Rightarrow> limb \<Rightarrow> limb list" where
  "mpn_addmul_1_fixed M res y x = mpn_addmul_1_fixed_L (M + 1) M res y x"

text \<open>
  \<open>mpn_mul_fixed_<L, N, M>\<close>: the product of \<open>N\<close> and \<open>M\<close> limbs, cut to \<open>L\<close> limbs, with the
  template specialisations for \<open><1,1,1>\<close>, \<open><2,2,2>\<close>, \<open><3,3,3>\<close> and \<open><4,4,2>\<close>. The generic version
  asserts \<open>L \<le> N + M + 2\<close>; a failed assertion is \<open>None\<close>.
\<close>

definition mpn_mul_fixed_generic :: "nat \<Rightarrow> nat \<Rightarrow> nat \<Rightarrow> limb list \<Rightarrow> limb list \<Rightarrow> limb list option" where
  "mpn_mul_fixed_generic L N M x y =
     (if L \<le> N + M + 2 then
        let tmp = fold (\<lambda>i tmp. write_at i (mpn_addmul_1_fixed M (drop i tmp) y (x ! i)) tmp)
                    [0..<N] (inline_mpn_zero (N + M + 2))
        in Some (inline_mpn_copyi tmp L)
      else None)"

definition mpn_mul_fixed_L :: "nat \<Rightarrow> nat \<Rightarrow> nat \<Rightarrow> limb list \<Rightarrow> limb list \<Rightarrow> limb list option" where
  "mpn_mul_fixed_L L N M x y =
     (if (L, N, M) = (1, 1, 1) then Some [x ! 0 * y ! 0]
      else if (L, N, M) = (2, 2, 2) then
        let tmp = mpn_mul_1_fixed 2 2 y (x ! 0);
            tmp = write_at 1 (mpn_addmul_1_fixed_L 1 1 (drop 1 tmp) y (x ! 1)) tmp
        in Some tmp
      else if (L, N, M) = (3, 3, 3) then
        let tmp = inline_mpn_zero 3;
            tmp = write_at 0 (mpn_addmul_1_fixed_L 3 3 tmp y (x ! 0)) tmp;
            tmp = write_at 1 (mpn_addmul_1_fixed_L 2 2 (drop 1 tmp) y (x ! 1)) tmp;
            tmp = write_at 2 (mpn_addmul_1_fixed_L 1 1 (drop 2 tmp) y (x ! 2)) tmp
        in Some tmp
      else if (L, N, M) = (4, 4, 2) then
        let tmp = inline_mpn_zero 4;
            tmp = write_at 0 (mpn_addmul_1_fixed_L 3 2 tmp y (x ! 0)) tmp;
            tmp = write_at 1 (mpn_addmul_1_fixed_L 3 2 (drop 1 tmp) y (x ! 1)) tmp;
            tmp = write_at 2 (mpn_addmul_1_fixed_L 2 2 (drop 2 tmp) y (x ! 2)) tmp;
            tmp = write_at 3 (mpn_addmul_1_fixed_L 1 1 (drop 3 tmp) y (x ! 3)) tmp
        in Some tmp
      else mpn_mul_fixed_generic L N M x y)"

definition mpn_mul_fixed :: "nat \<Rightarrow> nat \<Rightarrow> limb list \<Rightarrow> limb list \<Rightarrow> limb list option" where
  "mpn_mul_fixed N M x y = mpn_mul_fixed_L (N + M) N M x y"

lemma partial_products_val:
  "limbs_val (map (\<lambda>yj. fst (mulx_u64 x yj)) ys) + limb_base * limbs_val (map (\<lambda>yj. snd (mulx_u64 x yj)) ys)
     = unat x * limbs_val ys"
proof (induction ys)
  case (Cons y ys)
  have "limb_base * (limbs_val (map (\<lambda>yj. fst (mulx_u64 x yj)) ys)
      + limb_base * limbs_val (map (\<lambda>yj. snd (mulx_u64 x yj)) ys)) = limb_base * (unat x * limbs_val ys)"
    by (simp only: Cons)
  with mulx_u64_val [of x y] show ?case
    by (simp add: algebra_simps)
qed simp

lemma length_mpn_addmul_1_fixed_impl:
  assumes "1 \<le> M" "M \<le> L" "M \<le> length y" "ADD \<Longrightarrow> L \<le> length res"
  shows "length (mpn_addmul_1_fixed_impl L M ADD res y x) = L"
  using assms by (cases ADD)
    (simp_all add: mpn_addmul_1_fixed_impl_def Let_def inline_mpn_zero_def inline_mpn_copyi_def)

lemma mpn_addmul_1_fixed_impl_val [limb_simps]:
  assumes "1 \<le> M" "M \<le> L" "M \<le> length y" "ADD \<Longrightarrow> L \<le> length res"
  shows "limbs_val (mpn_addmul_1_fixed_impl L M ADD res y x)
       = ((if ADD then limbs_val (take L res) else 0) + unat x * limbs_val (take M y)) mod limb_base ^ L"
proof -
  define lower where "lower = map (\<lambda>yj. fst (mulx_u64 x yj)) (take M y) @ inline_mpn_zero (L - M)"
  define higher where "higher = map (\<lambda>yj. snd (mulx_u64 x yj)) (take M y) @ inline_mpn_zero (L - M)"
  define r where "r = (if ADD then mpn_add_fixed_n L lower res else inline_mpn_copyi lower L)"
  have len: "length lower = L" "length higher = L" "length r = L"
    using assms by (simp_all add: lower_def higher_def r_def inline_mpn_zero_def inline_mpn_copyi_def)
  obtain r0 rs where r_eq: "r = r0 # rs"
    using len(3) assms by (cases r) auto
  have prod: "limbs_val lower + limb_base * limbs_val higher = unat x * limbs_val (take M y)"
    using partial_products_val [of x "take M y"]
    by (simp add: lower_def higher_def inline_mpn_zero_def limbs_val_append)
  have r_val: "limbs_val r = ((if ADD then limbs_val (take L res) else 0) + limbs_val lower) mod limb_base ^ L"
    using assms len by (auto simp: r_def mpn_add_fixed_n_val inline_mpn_copyi_def limbs_val_take add.commute)
  obtain L' where L': "L = Suc L'"
    using assms by (cases L) auto
  have "mpn_addmul_1_fixed_impl L M ADD res y x = take 1 r @ mpn_add_fixed_n (L - 1) higher (drop 1 r)"
    unfolding mpn_addmul_1_fixed_impl_def Let_def lower_def higher_def r_def by (rule refl)
  then have "limbs_val (mpn_addmul_1_fixed_impl L M ADD res y x)
      = unat r0 + limb_base * ((limbs_val higher + limbs_val rs) mod limb_base ^ L')"
    using len r_eq L' by (simp add: mpn_add_fixed_n_val limbs_val_take mod_simps)
  also have "\<dots> = (unat r0 + limb_base * (limbs_val higher + limbs_val rs)) mod limb_base ^ L"
    unfolding L' power_Suc
    by (subst mod_mult2_eq) simp
  also have "\<dots> = (limbs_val r + limb_base * limbs_val higher) mod limb_base ^ L"
    by (simp add: r_eq algebra_simps)
  also have "\<dots> = ((if ADD then limbs_val (take L res) else 0) + (limbs_val lower + limb_base * limbs_val higher)) mod limb_base ^ L"
    unfolding r_val by (simp add: mod_simps add.assoc)
  finally show ?thesis unfolding prod .
qed

text \<open>Adding a product at limb offset \<open>i\<close>, in place.\<close>

lemma write_at_val:
  assumes "i + length new = n" "n \<le> length buf"
  shows "limbs_val (write_at i new buf)
       = limbs_val (take i buf) + limb_base ^ i * limbs_val new + limb_base ^ n * limbs_val (drop n buf)"
  using assms(2) unfolding assms(1) [symmetric]
  by (simp add: write_at_def limbs_val_append power_add algebra_simps)

lemma length_write_at [simp]: "i + length new \<le> length buf \<Longrightarrow> length (write_at i new buf) = length buf"
  by (simp add: write_at_def)

lemma length_mpn_addmul_1_fixed_L [simp]:
  "1 \<le> M \<Longrightarrow> M \<le> L \<Longrightarrow> M \<le> length y \<Longrightarrow> L \<le> length res \<Longrightarrow>
     length (mpn_addmul_1_fixed_L L M res y x) = L"
  by (simp add: mpn_addmul_1_fixed_L_def length_mpn_addmul_1_fixed_impl)

lemma write_at_addmul_val:
  assumes M: "1 \<le> M" "M \<le> L" "M \<le> length y" and L: "i + L \<le> length buf"
  defines "n \<equiv> i + L"
  shows "limbs_val (write_at i (mpn_addmul_1_fixed_L L M (drop i buf) y x) buf)
       = (limbs_val buf mod limb_base ^ n + limb_base ^ i * (unat x * limbs_val (take M y))) mod limb_base ^ n
         + limb_base ^ n * (limbs_val buf div limb_base ^ n)"
proof -
  define t where "t = limbs_val buf"
  define p where "p = unat x * limbs_val (take M y)"
  have len: "length (mpn_addmul_1_fixed_L L M (drop i buf) y x) = L"
    using M L by simp
  have new: "limbs_val (mpn_addmul_1_fixed_L L M (drop i buf) y x)
      = (t div limb_base ^ i + p) mod limb_base ^ L"
    using M L by (simp add: mpn_addmul_1_fixed_L_def mpn_addmul_1_fixed_impl_val limbs_val_take
        limbs_val_drop mod_simps t_def p_def)
  have "limbs_val (write_at i (mpn_addmul_1_fixed_L L M (drop i buf) y x) buf)
      = t mod limb_base ^ i + limb_base ^ i * ((t div limb_base ^ i + p) mod limb_base ^ L)
        + limb_base ^ n * (t div limb_base ^ n)"
    using write_at_val [of i "mpn_addmul_1_fixed_L L M (drop i buf) y x" n buf] len L
    by (simp add: new n_def limbs_val_take limbs_val_drop t_def)
  also have "t mod limb_base ^ i + limb_base ^ i * ((t div limb_base ^ i + p) mod limb_base ^ L)
      = (t mod limb_base ^ i + limb_base ^ i * (t div limb_base ^ i + p)) mod limb_base ^ n"
    unfolding n_def power_add by (subst mod_mult2_eq) simp
  also have "t mod limb_base ^ i + limb_base ^ i * (t div limb_base ^ i + p) = t + limb_base ^ i * p"
    by (simp add: algebra_simps)
  finally show ?thesis
    by (simp add: t_def p_def mod_simps)
qed

lemma write_at_addmul_end:
  assumes "1 \<le> M" "M \<le> L" "M \<le> length y" "i + L = length buf"
  shows "limbs_val (write_at i (mpn_addmul_1_fixed_L L M (drop i buf) y x) buf)
       = (limbs_val buf + limb_base ^ i * (unat x * limbs_val (take M y))) mod limb_base ^ length buf"
  using write_at_addmul_val [of M L y i buf x] limbs_val_less [of buf] assms by simp

lemma write_at_addmul_fits:
  assumes "1 \<le> M" "M \<le> L" "M \<le> length y" "i + L \<le> length buf"
    and "limbs_val buf + limb_base ^ i * (unat x * limbs_val (take M y)) < limb_base ^ (i + L)"
  shows "limbs_val (write_at i (mpn_addmul_1_fixed_L L M (drop i buf) y x) buf)
       = limbs_val buf + limb_base ^ i * (unat x * limbs_val (take M y))"
  using write_at_addmul_val [of M L y i buf x] assms by simp

lemma limbs_val_take_Suc:
  "i < length x \<Longrightarrow> limbs_val (take (Suc i) x) = limbs_val (take i x) + limb_base ^ i * unat (x ! i)"
  by (simp add: take_Suc_conv_app_nth limbs_val_append)

lemma limbs_val_prod_less:
  "limbs_val (take n x) * limbs_val (take m y) < limb_base ^ (n + m)"
proof -
  have "limbs_val (take n x) * limbs_val (take m y) < limb_base ^ n * limb_base ^ m"
    by (intro mult_strict_mono) (simp_all add: limbs_val_take)
  then show ?thesis by (simp add: power_add)
qed

lemma limbs_prod_take_Suc:
  "i < length x \<Longrightarrow> limbs_val (take i x) * v + limb_base ^ i * (unat (x ! i) * v) = limbs_val (take (Suc i) x) * v"
  by (simp add: limbs_val_take_Suc algebra_simps)

text \<open>
  One row of the schoolbook product: where the row fits (\<open>mul_step_fits\<close>), and where it is
  cut at the end of the buffer (\<open>mul_step_end\<close>).
\<close>

lemma mul_step_fits:
  assumes M: "1 \<le> M" "M < L" "M \<le> length y" and i: "i < length x" "i + L \<le> length t"
    and t: "limbs_val t = limbs_val (take i x) * limbs_val (take M y)"
  shows "limbs_val (write_at i (mpn_addmul_1_fixed_L L M (drop i t) y (x ! i)) t)
       = limbs_val (take (Suc i) x) * limbs_val (take M y)"
proof -
  have sum: "limbs_val t + limb_base ^ i * (unat (x ! i) * limbs_val (take M y))
      = limbs_val (take (Suc i) x) * limbs_val (take M y)"
    unfolding t by (rule limbs_prod_take_Suc [OF i(1)])
  have "limb_base ^ (Suc i + M) \<le> limb_base ^ (i + L)"
    using M by (intro power_increasing) (simp_all add: Suc_leI)
  then have "limbs_val (take (Suc i) x) * limbs_val (take M y) < limb_base ^ (i + L)"
    using limbs_val_prod_less [of "Suc i" x M y] by (rule order.strict_trans2 [rotated])
  then show ?thesis
    using write_at_addmul_fits [of M L y i t "x ! i"] M i sum by simp
qed

lemma mod_take_shift:
  assumes "i \<le> n" "n - i \<le> m"
  shows "(limb_base ^ i * (v * limbs_val (take (n - i) y))) mod limb_base ^ n
       = (limb_base ^ i * (v * limbs_val (take m y))) mod limb_base ^ n"
proof -
  have n: "limb_base ^ n = limb_base ^ i * limb_base ^ (n - i)"
    using assms by (simp flip: power_add)
  have "take (n - i) y = take (n - i) (take m y)"
    using assms by simp
  then have "limbs_val (take (n - i) y) = limbs_val (take m y) mod limb_base ^ (n - i)"
    by (metis limbs_val_take)
  then show ?thesis
    unfolding n mult_mod_right [symmetric] by (simp only: mod_mult_right_eq)
qed

lemma mul_step_end:
  assumes M: "1 \<le> M" "M \<le> m" "m \<le> length y" and i: "i < length x" "i + M = length t"
    and t: "limbs_val t = (limbs_val (take i x) * limbs_val (take m y)) mod limb_base ^ length t"
  shows "limbs_val (write_at i (mpn_addmul_1_fixed_L M M (drop i t) y (x ! i)) t)
       = (limbs_val (take (Suc i) x) * limbs_val (take m y)) mod limb_base ^ length t"
proof -
  let ?B = "limb_base ^ length t"
  have "limbs_val (write_at i (mpn_addmul_1_fixed_L M M (drop i t) y (x ! i)) t)
      = (limbs_val t + limb_base ^ i * (unat (x ! i) * limbs_val (take M y))) mod ?B"
    using write_at_addmul_end [of M M y i t "x ! i"] M i by simp
  also have "\<dots> = (limbs_val (take i x) * limbs_val (take m y)
      + limb_base ^ i * (unat (x ! i) * limbs_val (take m y))) mod ?B"
  proof (rule mod_add_cong)
    show "limbs_val t mod ?B = (limbs_val (take i x) * limbs_val (take m y)) mod ?B"
      by (subst t) simp
    show "limb_base ^ i * (unat (x ! i) * limbs_val (take M y)) mod ?B
        = limb_base ^ i * (unat (x ! i) * limbs_val (take m y)) mod ?B"
      using mod_take_shift [of i "length t" m "unat (x ! i)" y] M i(2)
      by (metis add_diff_cancel_left' le_add1)
  qed
  also have "\<dots> = (limbs_val (take (Suc i) x) * limbs_val (take m y)) mod ?B"
    by (simp only: limbs_prod_take_Suc [OF i(1)])
  finally show ?thesis .
qed

definition is_product :: "nat \<Rightarrow> nat \<Rightarrow> nat \<Rightarrow> limb list \<Rightarrow> limb list \<Rightarrow> limb list option \<Rightarrow> bool" where
  "is_product L N M x y res \<longleftrightarrow> (\<exists>r. res = Some r \<and> length r = L \<and>
     limbs_val r = (limbs_val (take N x) * limbs_val (take M y)) mod limb_base ^ L)"

lemma is_productI:
  "res = Some r \<Longrightarrow> length r = L \<Longrightarrow>
     limbs_val r = (limbs_val (take N x) * limbs_val (take M y)) mod limb_base ^ L \<Longrightarrow>
     is_product L N M x y res"
  by (simp add: is_product_def)

lemma mpn_mul_fixed_generic_val:
  assumes "L \<le> N + M + 2" "N \<le> length x" "1 \<le> M" "M \<le> length y"
  shows "is_product L N M x y (mpn_mul_fixed_generic L N M x y)"
proof -
  define f where "f = (\<lambda>i tmp. write_at i (mpn_addmul_1_fixed M (drop i tmp) y (x ! i)) tmp)"
  define tmp where "tmp = fold f [0..<N] (inline_mpn_zero (N + M + 2))"
  have "length tmp = N + M + 2 \<and> limbs_val tmp = limbs_val (take N x) * limbs_val (take M y)"
    unfolding tmp_def
  proof (rule fold_invariant_upt [where P = "\<lambda>i t. length t = N + M + 2 \<and>
          limbs_val t = limbs_val (take i x) * limbs_val (take M y)"])
    fix i t assume "i < N" "length t = N + M + 2 \<and> limbs_val t = limbs_val (take i x) * limbs_val (take M y)"
    then show "length (f i t) = N + M + 2 \<and> limbs_val (f i t) = limbs_val (take (Suc i) x) * limbs_val (take M y)"
      using mul_step_fits [of M "M + 1" y i x t] assms by (simp add: f_def mpn_addmul_1_fixed_def)
  qed (simp add: inline_mpn_zero_def)
  moreover have "mpn_mul_fixed_generic L N M x y = Some (take L tmp)"
    using assms(1) unfolding mpn_mul_fixed_generic_def tmp_def f_def
    by (simp only: Let_def inline_mpn_copyi_def if_True)
  ultimately show ?thesis
    using assms(1) by (intro is_productI [of _ "take L tmp"]) (simp_all add: limbs_val_take)
qed

lemma mpn_mul_fixed_222_val:
  assumes "2 \<le> length x" "2 \<le> length y"
  shows "is_product 2 2 2 x y (mpn_mul_fixed_L 2 2 2 x y)"
proof -
  have nonempty: "x \<noteq> []" using assms by auto
  define t where "t = mpn_mul_1_fixed 2 2 y (x ! 0)"
  define r where "r = write_at 1 (mpn_addmul_1_fixed_L 1 1 (drop 1 t) y (x ! 1)) t"
  have t: "length t = 2" "limbs_val t = (limbs_val (take 1 x) * limbs_val (take 2 y)) mod limb_base ^ 2"
    using assms nonempty limbs_val_take_Suc [of 0 x]
    by (simp_all add: t_def mpn_mul_1_fixed_def length_mpn_addmul_1_fixed_impl
        mpn_addmul_1_fixed_impl_val)
  have "limbs_val r = (limbs_val (take 2 x) * limbs_val (take 2 y)) mod limb_base ^ 2"
    using mul_step_end [of 1 2 y 1 x t] t assms by (simp add: r_def numeral_2_eq_2)
  moreover have "mpn_mul_fixed_L 2 2 2 x y = Some r"
    by (simp add: mpn_mul_fixed_L_def Let_def r_def t_def)
  ultimately show ?thesis
    using t assms by (intro is_productI [of _ r]) (simp_all add: r_def)
qed

lemma mpn_mul_fixed_333_val:
  assumes "3 \<le> length x" "3 \<le> length y"
  shows "is_product 3 3 3 x y (mpn_mul_fixed_L 3 3 3 x y)"
proof -
  have nonempty: "x \<noteq> []" using assms by auto
  define t0 where "t0 = write_at 0 (mpn_addmul_1_fixed_L 3 3 (drop 0 (inline_mpn_zero 3)) y (x ! 0)) (inline_mpn_zero 3)"
  define t1 where "t1 = write_at 1 (mpn_addmul_1_fixed_L 2 2 (drop 1 t0) y (x ! 1)) t0"
  define t2 where "t2 = write_at 2 (mpn_addmul_1_fixed_L 1 1 (drop 2 t1) y (x ! 2)) t1"
  have t0: "length t0 = 3" "limbs_val t0 = (limbs_val (take 1 x) * limbs_val (take 3 y)) mod limb_base ^ 3"
    using mul_step_end [of 3 3 y 0 x "inline_mpn_zero 3"] assms nonempty
    by (simp_all add: t0_def inline_mpn_zero_def)
  have t1: "length t1 = 3" "limbs_val t1 = (limbs_val (take 2 x) * limbs_val (take 3 y)) mod limb_base ^ 3"
    using mul_step_end [of 2 3 y 1 x t0] t0 assms by (simp_all add: t1_def numeral_2_eq_2)
  have "length t2 = 3" "limbs_val t2 = (limbs_val (take 3 x) * limbs_val (take 3 y)) mod limb_base ^ 3"
    using mul_step_end [of 1 3 y 2 x t1] t1 assms by (simp_all add: t2_def flip: numeral_2_eq_2)
  moreover have "mpn_mul_fixed_L 3 3 3 x y = Some t2"
    unfolding t2_def t1_def t0_def by (simp add: mpn_mul_fixed_L_def Let_def)
  ultimately show ?thesis
    by (intro is_productI [of _ t2]) simp_all
qed

lemma mpn_mul_fixed_442_val:
  assumes "4 \<le> length x" "2 \<le> length y"
  shows "is_product 4 4 2 x y (mpn_mul_fixed_L 4 4 2 x y)"
proof -
  have nonempty: "x \<noteq> []" using assms by auto
  define t0 where "t0 = write_at 0 (mpn_addmul_1_fixed_L 3 2 (drop 0 (inline_mpn_zero 4)) y (x ! 0)) (inline_mpn_zero 4)"
  define t1 where "t1 = write_at 1 (mpn_addmul_1_fixed_L 3 2 (drop 1 t0) y (x ! 1)) t0"
  define t2 where "t2 = write_at 2 (mpn_addmul_1_fixed_L 2 2 (drop 2 t1) y (x ! 2)) t1"
  define t3 where "t3 = write_at 3 (mpn_addmul_1_fixed_L 1 1 (drop 3 t2) y (x ! 3)) t2"
  have t0: "length t0 = 4" "limbs_val t0 = limbs_val (take 1 x) * limbs_val (take 2 y)"
    using mul_step_fits [of 2 3 y 0 x "inline_mpn_zero 4"] assms nonempty
    by (simp_all add: t0_def inline_mpn_zero_def)
  have t1: "length t1 = 4" "limbs_val t1 = limbs_val (take 2 x) * limbs_val (take 2 y)"
    using mul_step_fits [of 2 3 y 1 x t0] t0 assms by (simp_all add: t1_def numeral_2_eq_2)
  then have t1': "limbs_val t1 = (limbs_val (take 2 x) * limbs_val (take 2 y)) mod limb_base ^ length t1"
    using limbs_val_less [of t1] by simp
  have t2: "length t2 = 4" "limbs_val t2 = (limbs_val (take 3 x) * limbs_val (take 2 y)) mod limb_base ^ 4"
    using mul_step_end [of 2 2 y 2 x t1] t1 t1' assms by (simp_all add: t2_def flip: numeral_2_eq_2)
  have "length t3 = 4" "limbs_val t3 = (limbs_val (take 4 x) * limbs_val (take 2 y)) mod limb_base ^ 4"
    using mul_step_end [of 1 2 y 3 x t2] t2 assms by (simp_all add: t3_def)
  moreover have "mpn_mul_fixed_L 4 4 2 x y = Some t3"
    unfolding t3_def t2_def t1_def t0_def by (simp add: mpn_mul_fixed_L_def Let_def)
  ultimately show ?thesis
    by (intro is_productI [of _ t3]) simp_all
qed

text \<open>Every specialisation and the generic loop compute the product, cut to \<open>L\<close> limbs.\<close>

lemma mpn_mul_fixed_L_val:
  assumes "L \<le> N + M + 2" "1 \<le> N" "N \<le> length x" "1 \<le> M" "M \<le> length y"
  shows "is_product L N M x y (mpn_mul_fixed_L L N M x y)"
proof -
  consider "(L, N, M) = (1, 1, 1)" | "(L, N, M) = (2, 2, 2)" | "(L, N, M) = (3, 3, 3)"
    | "(L, N, M) = (4, 4, 2)"
    | "(L, N, M) \<noteq> (1, 1, 1)" "(L, N, M) \<noteq> (2, 2, 2)" "(L, N, M) \<noteq> (3, 3, 3)" "(L, N, M) \<noteq> (4, 4, 2)"
    by blast
  then show ?thesis
  proof cases
    case 1
    with assms obtain x0 xs y0 ys where "x = x0 # xs" "y = y0 # ys"
      by (cases x; cases y) auto
    with 1 show ?thesis
      by (intro is_productI [of _ "[x0 * y0]"]) (simp_all add: mpn_mul_fixed_L_def unat_mult_limb)
  next
    case 2
    with assms mpn_mul_fixed_222_val [of x y] show ?thesis by simp
  next
    case 3
    with assms mpn_mul_fixed_333_val [of x y] show ?thesis by simp
  next
    case 4
    with assms mpn_mul_fixed_442_val [of x y] show ?thesis by simp
  next
    case 5
    then have "mpn_mul_fixed_L L N M x y = mpn_mul_fixed_generic L N M x y"
      unfolding mpn_mul_fixed_L_def by (simp only: if_False)
    with mpn_mul_fixed_generic_val assms show ?thesis by simp
  qed
qed

lemma mpn_mul_fixed_val:
  assumes "1 \<le> N" "N \<le> length x" "1 \<le> M" "M \<le> length y"
  shows "\<exists>r. mpn_mul_fixed N M x y = Some r \<and> length r = N + M \<and>
    limbs_val r = limbs_val (take N x) * limbs_val (take M y)"
  using mpn_mul_fixed_L_val [of "N + M" N M x y] assms limbs_val_prod_less [of N x M y]
  by (auto simp: mpn_mul_fixed_def is_product_def)

end
