(* ===== verification/OctetStream.thy ===== *)
theory OctetStream
  imports Prelude
begin

section \<open>Length fields (Networking/data.h) and byte streams (Tools/octetStream)\<close>

text \<open>
  \<open>octetStream\<close> is the buffer every protocol packs its messages into. The state is the
  bytes written so far (\<open>data\<close>, of length \<open>len\<close>), the allocation \<open>mxlen\<close>, the read head
  \<open>ptr\<close>, and the two one-byte buffers for bit packing. \<open>size_t\<close> values are naturals below
  \<open>2 ^ 64\<close>; where the code's addition can wrap around (the bounds check of \<open>consume\<close>) the
  wrap-around is written out. A thrown exception is \<open>Inl\<close>; a read past the buffer that the
  bounds check lets through is \<open>Inl undefined_behaviour\<close>.
\<close>

subsection \<open>Length fields: Networking/data.h\<close>

definition short_memcpy :: "octet list \<Rightarrow> nat \<Rightarrow> octet list result" where
  "short_memcpy src n_bytes =
     (if 1 \<le> n_bytes \<and> n_bytes \<le> 8 then Inr (take n_bytes src) else Inl invalid_length)"

definition encode_length :: "64 word \<Rightarrow> nat \<Rightarrow> octet list result" where
  "encode_length l n_bytes =
     (if 8 < n_bytes then Inl invalid_length
      else if n_bytes < 8 \<and>
          signed_drop_bit (8 * n_bytes) l \<noteq> 0 \<and> signed_drop_bit (8 * n_bytes) l \<noteq> - 1
        then Inl invalid_length
      else short_memcpy (le_bytes 8 (unat l)) n_bytes)"

definition decode_length :: "octet list \<Rightarrow> nat \<Rightarrow> 64 word result" where
  "decode_length buff n_bytes =
     (if 8 < n_bytes then Inl invalid_length
      else bind_result (short_memcpy buff n_bytes) (\<lambda>bs. Inr (of_nat (le_val bs))))"

lemma take_le_bytes: "n \<le> m \<Longrightarrow> take n (le_bytes m v) = le_bytes n v"
proof (induction n arbitrary: m v)
  case (Suc n)
  then show ?case by (cases m) simp_all
qed simp

lemma signed_drop_bit_eq_0_iff:
  assumes "n < 64"
  shows "signed_drop_bit n (l :: 64 word) = 0 \<longleftrightarrow> unat l < 2 ^ n"
proof -
  have "signed_drop_bit n l = 0 \<longleftrightarrow> drop_bit n l = 0"
  proof
    assume s: "signed_drop_bit n l = 0"
    show "drop_bit n l = 0"
    proof (rule bit_eqI)
      fix k
      have "bit (signed_drop_bit n l) k = bit (0 :: 64 word) k" by (simp only: s)
      then show "bit (drop_bit n l) k \<longleftrightarrow> bit (0 :: 64 word) k"
        using assms by (auto simp: bit_signed_drop_bit_iff bit_drop_bit_eq dest: bit_imp_le_length split: if_splits)
          (metis bit_imp_le_length less_diff_conv add.commute len_num1 numeral_le_iff not_le)?
    qed
  next
    assume d: "drop_bit n l = 0"
    have "\<not> bit l (n + k)" for k
      using arg_cong [OF d, of "\<lambda>w. bit w k"] by (simp add: bit_drop_bit_eq)
    from this [of "63 - n"] this show "signed_drop_bit n l = 0"
      using assms by (intro bit_eqI) (simp add: bit_signed_drop_bit_iff)
  qed
  also have "\<dots> \<longleftrightarrow> unat l div 2 ^ n = 0"
    by (simp add: word_unat_eq_iff unat_drop_bit_eq flip: drop_bit_eq_div)
  also have "\<dots> \<longleftrightarrow> unat l < 2 ^ n"
    by (simp add: div_eq_0_iff)
  finally show ?thesis .
qed

lemma encode_length_small:
  assumes "1 \<le> n" "n \<le> 8" "unat l < 256 ^ n"
  shows "encode_length l n = Inr (le_bytes n (unat l))"
proof -
  have "signed_drop_bit (8 * n) l = 0" if "n < 8"
    using that assms(3) signed_drop_bit_eq_0_iff [of "8 * n" l] by (simp add: power_mult)
  with assms(1,2) show ?thesis
    by (auto simp: encode_length_def short_memcpy_def take_le_bytes)
qed

lemma decode_length_encoded:
  "1 \<le> n \<Longrightarrow> n \<le> 8 \<Longrightarrow> v < 256 ^ n \<Longrightarrow> decode_length (le_bytes n v) n = Inr (of_nat v)"
  by (simp add: decode_length_def short_memcpy_def le_val_le_bytes)

subsection \<open>The stream: state\<close>

record bit_buffer =
  bb_n :: nat
  bb_buffer :: octet

record octet_stream =
  os_data :: "octet list"     \<comment> \<open>the \<open>len\<close> bytes behind the write head\<close>
  os_mxlen :: nat
  os_ptr :: nat
  os_wbits :: bit_buffer      \<comment> \<open>\<open>bits[0]\<close>\<close>
  os_rbits :: bit_buffer      \<comment> \<open>\<open>bits[1]\<close>\<close>

definition BitBuffer :: bit_buffer where
  "BitBuffer = \<lparr>bb_n = 0, bb_buffer = 0\<rparr>"

definition os_empty :: octet_stream where
  "os_empty = \<lparr>os_data = [], os_mxlen = 0, os_ptr = 0, os_wbits = BitBuffer, os_rbits = BitBuffer\<rparr>"

definition os_len :: "octet_stream \<Rightarrow> nat" where
  "os_len os = length (os_data os)"

definition os_new :: "nat \<Rightarrow> octet_stream" where
  "os_new maxlen = os_empty\<lparr>os_mxlen := maxlen\<rparr>"

definition os_get_total_length :: "octet_stream \<Rightarrow> nat" where
  "os_get_total_length os = os_len os + 8"

definition os_get_data :: "octet_stream \<Rightarrow> octet list result" where
  "os_get_data os = (if bb_n (os_wbits os) = 0 then Inr (os_data os) else Inl assertion_failed)"

definition os_done :: "octet_stream \<Rightarrow> bool" where
  "os_done os \<longleftrightarrow> os_ptr os = os_len os"

definition os_is_empty :: "octet_stream \<Rightarrow> bool" where
  "os_is_empty os \<longleftrightarrow> os_len os = 0"

definition os_left :: "octet_stream \<Rightarrow> nat" where
  "os_left os = (os_len os + 2 ^ 64 - os_ptr os) mod 2 ^ 64"

definition os_reset_read_head :: "octet_stream \<Rightarrow> octet_stream" where
  "os_reset_read_head os = os\<lparr>os_ptr := 0, os_rbits := (os_rbits os)\<lparr>bb_n := 0\<rparr>\<rparr>"

text \<open>\<open>reset_write_head\<close> sets the count of pending bits to 0 but leaves the bits in the buffer.\<close>

definition os_reset_write_head :: "octet_stream \<Rightarrow> octet_stream" where
  "os_reset_write_head os =
     os_reset_read_head (os\<lparr>os_data := [], os_wbits := (os_wbits os)\<lparr>bb_n := 0\<rparr>\<rparr>)"

definition os_rewind_write_head :: "octet_stream \<Rightarrow> nat \<Rightarrow> octet_stream result" where
  "os_rewind_write_head os num =
     (if num \<le> os_len os then Inr (os\<lparr>os_data := take (os_len os - num) (os_data os)\<rparr>)
      else Inl undefined_behaviour)"

subsection \<open>Allocation\<close>

text \<open>
  A new allocation has the first \<open>l\<close> of the \<open>len\<close> bytes, and \<open>len\<close> stays as it is: with \<open>l < len\<close> the length is then beyond
  the allocation (\<open>os_inv\<close> fails), and the last bytes of \<open>data\<close> here stand for memory that must not be read. The doubling in
  \<open>resize\<close> and the sum in \<open>reserve\<close> are in \<open>size_t\<close> and wrap around.
\<close>

definition os_resize_precise :: "nat \<Rightarrow> octet_stream \<Rightarrow> octet_stream" where
  "os_resize_precise l os = (if l = os_mxlen os then os else os\<lparr>os_mxlen := l\<rparr>)"

definition os_resize :: "nat \<Rightarrow> octet_stream \<Rightarrow> octet_stream" where
  "os_resize l os = (if l < os_mxlen os then os else let l = (2 * l) mod 2 ^ 64 in os_resize_precise l os)"

definition os_resize_min :: "nat \<Rightarrow> octet_stream \<Rightarrow> octet_stream" where
  "os_resize_min l os = (if os_mxlen os < l then os_resize_precise l os else os)"

definition os_reserve :: "nat \<Rightarrow> octet_stream \<Rightarrow> octet_stream" where
  "os_reserve l os =
     (let n = (os_len os + l) mod 2 ^ 64 in if os_mxlen os < n then os_resize_precise n os else os)"

definition os_clear :: "octet_stream \<Rightarrow> octet_stream" where
  "os_clear os = os\<lparr>os_data := [], os_mxlen := 0, os_ptr := 0\<rparr>"

definition os_assign :: "octet_stream \<Rightarrow> octet_stream \<Rightarrow> octet_stream" where
  "os_assign self os =
     (let self = (if os_mxlen self \<le> os_len os then self\<lparr>os_mxlen := os_mxlen os\<rparr> else self)
      in self\<lparr>os_data := os_data os, os_ptr := os_ptr os,
              os_wbits := os_wbits os, os_rbits := os_rbits os\<rparr>)"

definition os_copy :: "octet_stream \<Rightarrow> octet_stream" where
  "os_copy os = \<lparr>os_data = os_data os, os_mxlen = os_mxlen os, os_ptr = os_ptr os,
                 os_wbits = os_wbits os, os_rbits = os_rbits os\<rparr>"

subsection \<open>Appending\<close>

text \<open>
  \<open>append(l)\<close> makes room and returns the pointer that the caller fills; here the caller's
  bytes are the argument. Pending bits are flushed first: \<open>flush_bits\<close> clears the count
  before it calls \<open>store_int<1>\<close>, so the nested \<open>append(1)\<close> does not flush again. A stream in memory is
  shorter than \<open>2 ^ 63\<close> bytes, so that \<open>resize(len + l)\<close> doubles without wrap-around (\<open>os_append_bytes_resize\<close>).
\<close>

definition os_append_bytes :: "octet_stream \<Rightarrow> octet list \<Rightarrow> octet_stream" where
  "os_append_bytes os bs =
     (let l = length bs;
          os = (if os_mxlen os < os_len os + l then os\<lparr>os_mxlen := 2 * (os_len os + l)\<rparr> else os)
      in os\<lparr>os_data := os_data os @ bs\<rparr>)"

lemma os_append_bytes_resize:
  assumes "os_len os + length bs < 2 ^ 63"
  shows "os_append_bytes os bs =
    (let l = length bs; os = (if os_mxlen os < os_len os + l then os_resize (os_len os + l) os else os)
     in os\<lparr>os_data := os_data os @ bs\<rparr>)"
  using assms by (simp add: os_append_bytes_def os_resize_def os_resize_precise_def Let_def)

definition os_flush_bits :: "octet_stream \<Rightarrow> octet_stream" where
  "os_flush_bits os =
     (let os = os\<lparr>os_wbits := (os_wbits os)\<lparr>bb_n := 0\<rparr>\<rparr>;
          os = os_append_bytes os [bb_buffer (os_wbits os)]
      in os\<lparr>os_wbits := (os_wbits os)\<lparr>bb_buffer := 0\<rparr>\<rparr>)"

definition os_append :: "octet_stream \<Rightarrow> octet list \<Rightarrow> octet_stream" where
  "os_append os bs =
     (let os = (if bb_n (os_wbits os) \<noteq> 0 then os_flush_bits os else os)
      in os_append_bytes os bs)"

definition os_append_no_resize :: "octet_stream \<Rightarrow> octet list \<Rightarrow> octet_stream result" where
  "os_append_no_resize os bs =
     (if os_len os + length bs \<le> os_mxlen os then Inr (os\<lparr>os_data := os_data os @ bs\<rparr>)
      else Inl undefined_behaviour)"

definition os_of_bytes :: "octet list \<Rightarrow> octet_stream" where
  "os_of_bytes source = os_append (os_new (length source)) source"

definition os_concat :: "octet_stream \<Rightarrow> octet_stream \<Rightarrow> octet_stream" where
  "os_concat self os = os_append self (os_data os)"

definition os_equals :: "octet_stream \<Rightarrow> octet_stream \<Rightarrow> bool" where
  "os_equals self a = (if os_len self \<noteq> os_len a then False else os_data self = os_data a)"

subsection \<open>Consuming\<close>

text \<open>
  The bounds check is \<open>ptr + l > len\<close> in \<open>size_t\<close>: the sum wraps around. A request so long
  that it wraps passes the check and hands out a pointer to fewer than \<open>l\<close> bytes.
\<close>

definition os_consume :: "octet_stream \<Rightarrow> nat \<Rightarrow> (octet list \<times> octet_stream) result" where
  "os_consume os l =
     (let os = os\<lparr>os_rbits := (os_rbits os)\<lparr>bb_n := 0\<rparr>\<rparr>
      in if os_len os < (os_ptr os + l) mod 2 ^ 64 then Inl insufficient_data
         else if os_len os < os_ptr os + l then Inl undefined_behaviour
         else Inr (take l (drop (os_ptr os) (os_data os)),
                   os\<lparr>os_ptr := (os_ptr os + l) mod 2 ^ 64\<rparr>))"

text \<open>Reading \<open>l\<close> bytes into the buffer of another stream.\<close>

definition os_consume_into :: "octet_stream \<Rightarrow> octet_stream \<Rightarrow> nat \<Rightarrow> (octet_stream \<times> octet_stream) result" where
  "os_consume_into os s l =
     (let s = os_resize l s
      in bind_result (os_consume os l) (\<lambda>(bs, os). Inr (os, s\<lparr>os_data := bs\<rparr>)))"

subsection \<open>Integers\<close>

definition os_store_int :: "octet_stream \<Rightarrow> 64 word \<Rightarrow> nat \<Rightarrow> octet_stream result" where
  "os_store_int os l n_bytes =
     bind_result (encode_length l n_bytes) (\<lambda>bs. Inr (os_append os bs))"

definition os_get_int :: "octet_stream \<Rightarrow> nat \<Rightarrow> (64 word \<times> octet_stream) result" where
  "os_get_int os n_bytes =
     bind_result (os_consume os n_bytes)
       (\<lambda>(bs, os). bind_result (decode_length bs n_bytes) (\<lambda>v. Inr (v, os)))"

text \<open>The compile-time versions, which do not check that the value fits.\<close>

definition os_store_int_N :: "nat \<Rightarrow> octet_stream \<Rightarrow> 64 word \<Rightarrow> octet_stream result" where
  "os_store_int_N N os l =
     (if N \<le> 8 then Inr (os_append os (take N (le_bytes 8 (unat l)))) else Inl assertion_failed)"

definition os_get_int_N :: "nat \<Rightarrow> octet_stream \<Rightarrow> (64 word \<times> octet_stream) result" where
  "os_get_int_N N os =
     (if N \<le> 8 then bind_result (os_consume os N) (\<lambda>(bs, os). Inr (of_nat (le_val bs), os))
      else Inl assertion_failed)"

definition os_store_uint :: "octet_stream \<Rightarrow> 32 word \<Rightarrow> octet_stream result" where
  "os_store_uint os a = os_store_int os (ucast a) 4"

definition os_get_uint :: "octet_stream \<Rightarrow> (32 word \<times> octet_stream) result" where
  "os_get_uint os = bind_result (os_get_int os 4) (\<lambda>(v, os). Inr (ucast v, os))"

definition os_store_size_t :: "octet_stream \<Rightarrow> 64 word \<Rightarrow> octet_stream result" where
  "os_store_size_t os a = os_store_int os a 8"

definition os_get_size_t :: "octet_stream \<Rightarrow> (64 word \<times> octet_stream) result" where
  "os_get_size_t os = os_get_int os 8"

text \<open>A signed \<open>int\<close> is sign-extended to \<open>size_t\<close> before it is encoded on 4 bytes.\<close>

definition os_store_signed :: "octet_stream \<Rightarrow> 32 word \<Rightarrow> octet_stream result" where
  "os_store_signed os l =
     bind_result (encode_length (scast l) 4) (\<lambda>bs. Inr (os_append os bs))"

definition os_get_signed :: "octet_stream \<Rightarrow> (32 word \<times> octet_stream) result" where
  "os_get_signed os = bind_result (os_get_int os 4) (\<lambda>(v, os). Inr (ucast v, os))"

definition os_store_bytes :: "octet_stream \<Rightarrow> octet list \<Rightarrow> octet_stream result" where
  "os_store_bytes os x =
     bind_result (encode_length (of_nat (length x)) 4)
       (\<lambda>bs. Inr (os_append (os_append os bs) x))"

definition os_get_bytes :: "octet_stream \<Rightarrow> nat \<Rightarrow> (octet list \<times> octet_stream) result" where
  "os_get_bytes os l =
     bind_result (os_get_int os 4)
       (\<lambda>(rec_length, os).
          if unat rec_length \<noteq> l then Inl (runtime_error ''unexpected length'')
          else os_consume os l)"

definition os_store_string :: "octet_stream \<Rightarrow> octet list \<Rightarrow> octet_stream result" where
  "os_store_string os str =
     bind_result (os_store_size_t os (of_nat (length str))) (\<lambda>os. Inr (os_append os str))"

definition os_get_string :: "octet_stream \<Rightarrow> (octet list \<times> octet_stream) result" where
  "os_get_string os =
     bind_result (os_get_size_t os) (\<lambda>(size, os). os_consume os (unat size))"

subsection \<open>Bit packing\<close>

definition os_store_bits_N :: "nat \<Rightarrow> octet_stream \<Rightarrow> octet \<Rightarrow> octet_stream" where
  "os_store_bits_N N os a =
     (let os = (if 8 - N < bb_n (os_wbits os) then os_append os [] else os);
          n = bb_n (os_wbits os);
          buffer = bb_buffer (os_wbits os) OR push_bit n (a AND mask N)
      in os\<lparr>os_wbits := \<lparr>bb_n = n + N, bb_buffer = buffer\<rparr>\<rparr>)"

definition os_get_bits_N :: "nat \<Rightarrow> octet_stream \<Rightarrow> (octet \<times> octet_stream) result" where
  "os_get_bits_N N os =
     bind_result
       (if bb_n (os_rbits os) < N
        then bind_result (os_get_int_N 1 os)
               (\<lambda>(v, os). Inr (os\<lparr>os_rbits := \<lparr>bb_n = 8, bb_buffer = ucast v\<rparr>\<rparr>))
        else Inr os)
       (\<lambda>os. let n = bb_n (os_rbits os);
                 res = drop_bit (8 - n) (bb_buffer (os_rbits os)) AND mask N
             in Inr (res, os\<lparr>os_rbits := (os_rbits os)\<lparr>bb_n := n - N\<rparr>\<rparr>))"

definition os_store_bit :: "octet_stream \<Rightarrow> octet \<Rightarrow> octet_stream" where
  "os_store_bit os a = os_store_bits_N 1 os a"

definition os_get_bit :: "octet_stream \<Rightarrow> (octet \<times> octet_stream) result" where
  "os_get_bit os = os_get_bits_N 1 os"

definition os_store_bits :: "octet_stream \<Rightarrow> octet \<Rightarrow> nat \<Rightarrow> octet_stream result" where
  "os_store_bits os a n_bits =
     (if n_bits \<in> {1, 2, 3, 4, 5, 6, 7} then Inr (os_store_bits_N n_bits os a)
      else Inl (runtime_error ''wrong number of bits''))"

definition os_get_bits :: "octet_stream \<Rightarrow> nat \<Rightarrow> (octet \<times> octet_stream) result" where
  "os_get_bits os n_bits =
     (if n_bits \<in> {1, 2, 3, 4, 5, 6, 7} then os_get_bits_N n_bits os
      else Inl (runtime_error ''wrong number of bits''))"

subsection \<open>Vectors and arrays of a packable type\<close>

fun os_store_all ::
  "(octet_stream \<Rightarrow> 'a \<Rightarrow> octet_stream result) \<Rightarrow> octet_stream \<Rightarrow> 'a list \<Rightarrow> octet_stream result" where
  "os_store_all pack os [] = Inr os"
| "os_store_all pack os (x # v) = bind_result (pack os x) (\<lambda>os. os_store_all pack os v)"

fun os_get_all ::
  "(octet_stream \<Rightarrow> ('a \<times> octet_stream) result) \<Rightarrow> nat \<Rightarrow> octet_stream \<Rightarrow> ('a list \<times> octet_stream) result" where
  "os_get_all unpack 0 os = Inr ([], os)"
| "os_get_all unpack (Suc n) os =
     bind_result (unpack os)
       (\<lambda>(x, os). bind_result (os_get_all unpack n os) (\<lambda>(v, os). Inr (x # v, os)))"

definition os_store_vector ::
  "(octet_stream \<Rightarrow> 'a \<Rightarrow> octet_stream result) \<Rightarrow> octet_stream \<Rightarrow> 'a list \<Rightarrow> octet_stream result" where
  "os_store_vector pack os v =
     bind_result (os_store_size_t os (of_nat (length v))) (\<lambda>os. os_store_all pack os v)"

definition os_get_vector ::
  "(octet_stream \<Rightarrow> ('a \<times> octet_stream) result) \<Rightarrow> octet_stream \<Rightarrow> ('a list \<times> octet_stream) result" where
  "os_get_vector unpack os =
     bind_result (os_get_size_t os) (\<lambda>(size, os). os_get_all unpack (unat size) os)"

definition os_get_no_resize ::
  "(octet_stream \<Rightarrow> ('a \<times> octet_stream) result) \<Rightarrow> nat \<Rightarrow> octet_stream \<Rightarrow> ('a list \<times> octet_stream) result" where
  "os_get_no_resize unpack v_size os =
     bind_result (os_get_size_t os)
       (\<lambda>(size, os). if unat size \<noteq> v_size then Inl (runtime_error ''wrong vector length'')
                     else os_get_all unpack v_size os)"

subsection \<open>Files and sockets\<close>

text \<open>
  A file or a socket is the list of bytes not yet read. In a file the length is 8 bytes; on
  a socket it is \<open>LENGTH_SIZE = 4\<close> bytes and goes through \<open>encode_length\<close>, which refuses
  longer messages.
\<close>

definition LENGTH_SIZE :: nat where
  "LENGTH_SIZE = 4"

definition os_output :: "octet_stream \<Rightarrow> octet list \<Rightarrow> octet list" where
  "os_output os s = s @ le_bytes 8 (os_len os) @ os_data os"

definition os_input :: "octet_stream \<Rightarrow> octet list \<Rightarrow> (octet_stream \<times> octet list) result" where
  "os_input os s =
     (if length s < 8 then Inl (runtime_error ''not enough data'')
      else let size = le_val (take 8 s);
               s = drop 8 s;
               os = os_resize_min size os
           in if length s < size then Inl (runtime_error ''not enough data'')
              else Inr (os\<lparr>os_data := take size s\<rparr>, drop size s))"

definition os_Send :: "octet_stream \<Rightarrow> octet list \<Rightarrow> octet list result" where
  "os_Send os socket =
     bind_result (encode_length (of_nat (os_len os)) LENGTH_SIZE)
       (\<lambda>blen. bind_result (os_get_data os) (\<lambda>bytes. Inr (socket @ blen @ bytes)))"

text \<open>\<open>None\<close>: the receiver is still waiting for bytes.\<close>

definition os_Receive :: "octet_stream \<Rightarrow> octet list \<Rightarrow> (octet_stream \<times> octet list) result option" where
  "os_Receive os socket =
     (if length socket < LENGTH_SIZE then None
      else case decode_length (take LENGTH_SIZE socket) LENGTH_SIZE of
             Inl e \<Rightarrow> Some (Inl e)
           | Inr nlen \<Rightarrow>
               let rest = drop LENGTH_SIZE socket;
                   os = os_resize_min (unat nlen) (os\<lparr>os_data := []\<rparr>)
               in if length rest < unat nlen then None
                  else Some (Inr (os_reset_read_head (os\<lparr>os_data := take (unat nlen) rest\<rparr>),
                                  drop (unat nlen) rest)))"

end
