(* ===== verification/OctetCodec.thy ===== *)
theory OctetCodec
  imports OctetStream
begin

section \<open>What the byte stream promises\<close>

text \<open>
  The stream invariant and its preservation by every operation; the effect of appending and
  consuming on the contents; the interface \<open>codec\<close> that a packable type offers to the
  container code (\<open>pack\<close> appends an encoding, \<open>unpack\<close> reads it back), with the round trips
  of vectors and message sequences proved once inside it; the round trip of bit packing.
\<close>

subsection \<open>Invariant\<close>

definition os_inv :: "octet_stream \<Rightarrow> bool" where
  "os_inv os \<longleftrightarrow> os_len os \<le> os_mxlen os \<and> os_ptr os \<le> os_len os
     \<and> bb_n (os_wbits os) \<le> 8 \<and> bb_n (os_rbits os) \<le> 8"

lemmas os_alloc_defs = os_resize_precise_def os_resize_def os_resize_min_def os_reserve_def

lemma os_inv_empty [simp]: "os_inv os_empty" "os_inv (os_new n)"
  by (simp_all add: os_inv_def os_empty_def os_new_def os_len_def BitBuffer_def)

lemma os_inv_alloc:
  "os_inv os \<Longrightarrow> l < 2 ^ 63 \<Longrightarrow> os_inv (os_resize l os)"
  "os_inv os \<Longrightarrow> os_inv (os_resize_min l os)"
  "os_inv os \<Longrightarrow> os_inv (os_reserve l os)"
  by (auto simp: os_inv_def os_alloc_defs os_len_def Let_def)

lemma os_alloc_keeps [simp]:
  "os_data (os_resize l os) = os_data os" "os_ptr (os_resize l os) = os_ptr os"
  "os_wbits (os_resize l os) = os_wbits os" "os_rbits (os_resize l os) = os_rbits os"
  "os_data (os_resize_precise l os) = os_data os" "os_ptr (os_resize_precise l os) = os_ptr os"
  "os_wbits (os_resize_precise l os) = os_wbits os" "os_rbits (os_resize_precise l os) = os_rbits os"
  by (auto simp: os_alloc_defs Let_def)

lemma os_resize_room: "os_inv os \<Longrightarrow> l < 2 ^ 63 \<Longrightarrow> l \<le> os_mxlen (os_resize l os)"
  by (auto simp: os_alloc_defs Let_def)

lemma os_append_bytes_effect:
  assumes "os_len os \<le> os_mxlen os"
  shows "os_data (os_append_bytes os bs) = os_data os @ bs"
    and "os_ptr (os_append_bytes os bs) = os_ptr os"
    and "os_wbits (os_append_bytes os bs) = os_wbits os"
    and "os_rbits (os_append_bytes os bs) = os_rbits os"
    and "os_len (os_append_bytes os bs) \<le> os_mxlen (os_append_bytes os bs)"
  using assms by (auto simp: os_append_bytes_def Let_def os_alloc_defs os_len_def)

text \<open>The bytes that \<open>append\<close> flushes before it writes.\<close>

definition os_pending :: "octet_stream \<Rightarrow> octet list" where
  "os_pending os = (if bb_n (os_wbits os) \<noteq> 0 then [bb_buffer (os_wbits os)] else [])"

lemma os_append_effect [stream_simps]:
  assumes "os_len os \<le> os_mxlen os"
  shows "os_data (os_append os bs) = os_data os @ os_pending os @ bs"
    and "os_ptr (os_append os bs) = os_ptr os"
    and "bb_n (os_wbits (os_append os bs)) = 0"
    and "os_rbits (os_append os bs) = os_rbits os"
    and "os_len (os_append os bs) \<le> os_mxlen (os_append os bs)"
    and "os_wbits (os_append os bs) =
          (if bb_n (os_wbits os) \<noteq> 0 then \<lparr>bb_n = 0, bb_buffer = 0\<rparr> else os_wbits os)"
  using assms os_append_bytes_effect [of os bs]
    os_append_bytes_effect [of "os\<lparr>os_wbits := (os_wbits os)\<lparr>bb_n := 0\<rparr>\<rparr>" "[bb_buffer (os_wbits os)]"]
    os_append_bytes_effect [of "os_flush_bits os" bs]
  by (auto simp: os_append_def os_flush_bits_def os_pending_def Let_def os_len_def)

lemma os_inv_append: "os_inv os \<Longrightarrow> os_inv (os_append os bs)"
  using os_append_effect [of os bs] by (auto simp: os_inv_def os_len_def)

lemma os_inv_heads:
  "os_inv os \<Longrightarrow> os_inv (os_reset_read_head os)"
  "os_inv os \<Longrightarrow> os_inv (os_reset_write_head os)"
  by (auto simp: os_inv_def os_reset_read_head_def os_reset_write_head_def os_len_def)

lemma os_inv_assign: "os_inv self \<Longrightarrow> os_inv os \<Longrightarrow> os_inv (os_assign self os)"
  by (auto simp: os_inv_def os_assign_def os_len_def Let_def)

lemma os_consume_InrD:
  assumes "os_consume os l = Inr (bs, os')"
  shows "os_ptr os + l \<le> os_len os"
    and "bs = take l (drop (os_ptr os) (os_data os))"
    and "os_len os < 2 ^ 64 \<Longrightarrow> os' = os\<lparr>os_rbits := (os_rbits os)\<lparr>bb_n := 0\<rparr>, os_ptr := os_ptr os + l\<rparr>"
  using assms by (auto simp: os_consume_def os_len_def Let_def split: if_splits)

lemma os_inv_consume:
  "os_inv os \<Longrightarrow> os_consume os l = Inr (bs, os') \<Longrightarrow> os_inv os' \<and> length bs = l"
  by (auto simp: os_inv_def os_consume_def Let_def os_len_def split: if_splits
      intro: order.trans [OF mod_less_eq_dividend])

lemma os_inv_store_bits:
  assumes "os_inv os" "1 \<le> N" "N \<le> 8"
  shows "os_inv (os_store_bits_N N os a)"
proof -
  define os1 where "os1 = (if 8 - N < bb_n (os_wbits os) then os_append os [] else os)"
  have "os_inv os1" "bb_n (os_wbits os1) \<le> 8 - N"
    using assms os_append_effect(3) [of os "[]"] os_inv_append [of os "[]"]
    by (auto simp: os1_def os_inv_def)
  then show ?thesis
    using assms(3) by (simp add: os_store_bits_N_def os_inv_def os_len_def Let_def flip: os1_def)
qed

subsection \<open>Reading what was written\<close>

definition os_unread :: "octet_stream \<Rightarrow> octet list" where
  "os_unread os = drop (os_ptr os) (os_data os)"

definition os_ready :: "octet_stream \<Rightarrow> bool" where
  "os_ready os \<longleftrightarrow> os_ptr os \<le> os_len os \<and> os_len os < 2 ^ 64"

text \<open>The stream after \<open>n\<close> bytes were consumed.\<close>

definition os_skip :: "nat \<Rightarrow> octet_stream \<Rightarrow> octet_stream" where
  "os_skip n os = os\<lparr>os_rbits := (os_rbits os)\<lparr>bb_n := 0\<rparr>, os_ptr := os_ptr os + n\<rparr>"

lemma os_skip_skip [simp]: "os_skip m (os_skip n os) = os_skip (n + m) os"
  by (simp add: os_skip_def add.assoc)

lemma os_unread_skip [simp]: "os_unread (os_skip n os) = drop n (os_unread os)"
  by (simp add: os_unread_def os_skip_def add.commute)

lemma os_ready_skip [simp]: "os_ready os \<Longrightarrow> n \<le> length (os_unread os) \<Longrightarrow> os_ready (os_skip n os)"
  by (auto simp: os_ready_def os_skip_def os_unread_def os_len_def)

text \<open>The stream has moved its read head by \<open>n\<close> bytes and is otherwise the same stream.\<close>

definition os_advanced :: "nat \<Rightarrow> octet_stream \<Rightarrow> octet_stream \<Rightarrow> bool" where
  "os_advanced n os os' \<longleftrightarrow> os_data os' = os_data os \<and> os_ptr os' = os_ptr os + n
     \<and> os_mxlen os' = os_mxlen os \<and> os_wbits os' = os_wbits os"

lemma os_advanced_skip [simp]: "os_advanced n os (os_skip n os)"
  by (simp add: os_advanced_def os_skip_def)

lemma os_advanced_refl [simp]: "os_advanced 0 os os"
  by (simp add: os_advanced_def)

lemma os_advanced_trans: "os_advanced m os os1 \<Longrightarrow> os_advanced n os1 os2 \<Longrightarrow> os_advanced (m + n) os os2"
  by (simp add: os_advanced_def)

lemma os_advanced_unread: "os_advanced n os os' \<Longrightarrow> os_unread os' = drop n (os_unread os)"
  by (simp add: os_advanced_def os_unread_def add.commute)

lemma os_advanced_ready:
  "os_advanced n os os' \<Longrightarrow> os_ready os \<Longrightarrow> n \<le> length (os_unread os) \<Longrightarrow> os_ready os'"
  by (auto simp: os_advanced_def os_ready_def os_unread_def os_len_def)

lemma os_consume_unread [stream_simps]:
  assumes "os_ready os" "os_unread os = bs @ rest" "l = length bs"
  shows "os_consume os l = Inr (bs, os_skip l os)"
proof -
  have len: "os_ptr os + l \<le> os_len os"
    using assms by (auto simp: os_ready_def os_unread_def os_len_def
        dest: arg_cong [where f = length])
  moreover have "os_ptr os + l < 2 ^ 64"
    using len assms(1) by (simp add: os_ready_def)
  ultimately show ?thesis
    using assms by (simp add: os_consume_def Let_def os_unread_def os_skip_def os_len_def)
qed

text \<open>A stream can be read to the end of its data and no further, unless the request wraps.\<close>

lemma os_consume_short:
  assumes "os_ready os" "length (os_unread os) < l" "os_ptr os + l < 2 ^ 64"
  shows "os_consume os l = Inl insufficient_data"
  using assms by (simp add: os_consume_def Let_def os_unread_def os_len_def)

subsection \<open>The interface of a packable type\<close>

definition os_extends :: "octet_stream \<Rightarrow> octet list \<Rightarrow> octet_stream \<Rightarrow> bool" where
  "os_extends os bs os' \<longleftrightarrow> os_data os' = os_data os @ bs \<and> os_ptr os' = os_ptr os
     \<and> os_len os' \<le> os_mxlen os' \<and> bb_n (os_wbits os') = 0"

definition os_writable :: "octet_stream \<Rightarrow> bool" where
  "os_writable os \<longleftrightarrow> os_len os \<le> os_mxlen os \<and> bb_n (os_wbits os) = 0"

lemma os_extends_writable: "os_extends os bs os' \<Longrightarrow> os_writable os'"
  by (simp add: os_extends_def os_writable_def)

lemma os_extends_refl: "os_writable os \<Longrightarrow> os_extends os [] os"
  by (simp add: os_extends_def os_writable_def)

lemma os_extends_trans: "os_extends os bs os1 \<Longrightarrow> os_extends os1 cs os2 \<Longrightarrow> os_extends os (bs @ cs) os2"
  by (simp add: os_extends_def)

lemma os_append_extends: "os_writable os \<Longrightarrow> os_extends os bs (os_append os bs)"
  by (simp add: os_writable_def os_extends_def os_append_effect os_pending_def)

locale codec =
  fixes pack :: "octet_stream \<Rightarrow> 'a \<Rightarrow> octet_stream result"
    and unpack :: "octet_stream \<Rightarrow> ('a \<times> octet_stream) result"
    and enc :: "'a \<Rightarrow> octet list"
    and valid :: "'a \<Rightarrow> bool"
  assumes pack_extends: "valid x \<Longrightarrow> os_writable os \<Longrightarrow> \<exists>os'. pack os x = Inr os' \<and> os_extends os (enc x) os'"
    and unpack_enc: "valid x \<Longrightarrow> os_ready os \<Longrightarrow> os_unread os = enc x @ rest \<Longrightarrow>
           \<exists>os'. unpack os = Inr (x, os') \<and> os_advanced (length (enc x)) os os'"
begin

lemma store_all_extends:
  "list_all valid v \<Longrightarrow> os_writable os \<Longrightarrow>
     \<exists>os'. os_store_all pack os v = Inr os' \<and> os_extends os (concat (map enc v)) os'"
proof (induction v arbitrary: os)
  case (Cons x v)
  then obtain os1 where os1: "pack os x = Inr os1" "os_extends os (enc x) os1"
    using pack_extends by fastforce
  with Cons obtain os2 where "os_store_all pack os1 v = Inr os2" "os_extends os1 (concat (map enc v)) os2"
    using os_extends_writable by fastforce
  with os1 show ?case by (auto intro: os_extends_trans)
qed (auto simp: os_extends_refl)

lemma get_all_enc:
  "list_all valid v \<Longrightarrow> os_ready os \<Longrightarrow> os_unread os = concat (map enc v) @ rest \<Longrightarrow> n = length v \<Longrightarrow>
     \<exists>os'. os_get_all unpack n os = Inr (v, os') \<and> os_advanced (length (concat (map enc v))) os os'"
proof (induction v arbitrary: os n)
  case (Cons x v)
  then obtain os1 where os1: "unpack os = Inr (x, os1)" "os_advanced (length (enc x)) os os1"
    using unpack_enc [of x os "concat (map enc v) @ rest"] by auto
  have "\<exists>os2. os_get_all unpack (length v) os1 = Inr (v, os2) \<and>
      os_advanced (length (concat (map enc v))) os1 os2"
  proof (rule Cons.IH)
    show "os_ready os1"
      using os_advanced_ready [OF os1(2)] Cons.prems by simp
    show "os_unread os1 = concat (map enc v) @ rest"
      using os_advanced_unread [OF os1(2)] Cons.prems by simp
  qed (use Cons.prems in simp_all)
  with os1 Cons.prems show ?case by (auto intro: os_advanced_trans)
qed simp

text \<open>What is packed behind the contents of a stream is read back from there, to the last byte.\<close>

lemma write_read:
  assumes "valid x" "os_writable os" "os_len os + length (enc x) < 2 ^ 64"
  shows "\<exists>os' os''. pack os x = Inr os' \<and> take (os_len os) (os_data os') = os_data os
    \<and> unpack (os'\<lparr>os_ptr := os_len os\<rparr>) = Inr (x, os'') \<and> os_done os''"
proof -
  obtain os' where os': "pack os x = Inr os'" "os_extends os (enc x) os'"
    using pack_extends assms by blast
  let ?r = "os'\<lparr>os_ptr := os_len os\<rparr>"
  have data: "os_data os' = os_data os @ enc x" using os'(2) by (simp add: os_extends_def)
  then have r: "os_ready ?r" "os_unread ?r = enc x @ []"
    using assms(3) by (simp_all add: os_ready_def os_unread_def os_len_def)
  obtain os'' where "unpack ?r = Inr (x, os'')" "os_advanced (length (enc x)) ?r os''"
    using unpack_enc [OF assms(1) r] by blast
  with os'(1) data show ?thesis
    by (simp add: os_advanced_def os_done_def os_len_def)
qed

text \<open>A vector of packable elements is packable.\<close>

lemma codec_array:
  "codec (os_store_all pack) (os_get_all unpack n) (\<lambda>v. concat (map enc v))
     (\<lambda>v. list_all valid v \<and> length v = n)"
proof
  fix v :: "'a list" and os rest
  assume v: "list_all valid v \<and> length v = n"
  { assume "os_writable os"
    with v show "\<exists>os'. os_store_all pack os v = Inr os' \<and> os_extends os (concat (map enc v)) os'"
      by (intro store_all_extends) auto }
  { assume "os_ready os" "os_unread os = concat (map enc v) @ rest"
    with v show "\<exists>os'. os_get_all unpack n os = Inr (v, os')
        \<and> os_advanced (length (concat (map enc v))) os os'"
      by (intro get_all_enc) auto }
qed

end

subsection \<open>Integers and strings\<close>

lemma os_store_size_t_eq: "os_store_size_t os a = Inr (os_append os (le_bytes 8 (unat a)))"
proof -
  have "encode_length a 8 = Inr (le_bytes 8 (unat a))"
    using unsigned_less [of a, where 'a = nat] by (intro encode_length_small) simp_all
  then show ?thesis by (simp add: os_store_size_t_def os_store_int_def)
qed

lemma os_get_int_enc:
  assumes "os_ready os" "os_unread os = le_bytes n v @ rest" "1 \<le> n" "n \<le> 8" "v < 256 ^ n"
  shows "os_get_int os n = Inr (of_nat v, os_skip n os)"
  using assms os_consume_unread [of os "le_bytes n v" rest n]
  by (simp add: os_get_int_def decode_length_encoded)

interpretation size_t_codec: codec os_store_size_t os_get_size_t "\<lambda>a. le_bytes 8 (unat a)" "\<lambda>_. True"
proof
  fix a :: "64 word" and os rest
  { assume "os_writable os"
    then show "\<exists>os'. os_store_size_t os a = Inr os' \<and> os_extends os (le_bytes 8 (unat a)) os'"
      by (simp add: os_store_size_t_eq os_append_extends) }
  { assume "os_ready os" "os_unread os = le_bytes 8 (unat a) @ rest"
    moreover have "unat a < 256 ^ 8"
      using unsigned_less [of a, where 'a = nat] by simp
    ultimately show "\<exists>os'. os_get_size_t os = Inr (a, os')
        \<and> os_advanced (length (le_bytes 8 (unat a))) os os'"
      by (simp add: os_get_size_t_def os_get_int_enc) }
qed

text \<open>The encoding of a vector: its length on 8 bytes, then its elements.\<close>

definition enc_vector :: "('a \<Rightarrow> octet list) \<Rightarrow> 'a list \<Rightarrow> octet list" where
  "enc_vector enc v = le_bytes 8 (length v) @ concat (map enc v)"

context codec begin

lemma codec_vector:
  "codec (os_store_vector pack) (os_get_vector unpack) (enc_vector enc)
     (\<lambda>v. list_all valid v \<and> length v < 2 ^ 64)"
proof
  fix v :: "'a list" and os rest
  assume v: "list_all valid v \<and> length v < 2 ^ 64"
  then have len: "unat (of_nat (length v) :: 64 word) = length v"
    by (simp add: unat_of_nat)
  { assume "os_writable os"
    then have 1: "os_extends os (le_bytes 8 (length v)) (os_append os (le_bytes 8 (length v)))"
      by (rule os_append_extends)
    obtain os' where "os_store_all pack (os_append os (le_bytes 8 (length v))) v = Inr os'"
      "os_extends (os_append os (le_bytes 8 (length v))) (concat (map enc v)) os'"
      using store_all_extends [OF _ os_extends_writable [OF 1], of v] v by blast
    then show "\<exists>os'. os_store_vector pack os v = Inr os' \<and> os_extends os (enc_vector enc v) os'"
      using os_extends_trans [OF 1] len
      by (auto simp: os_store_vector_def enc_vector_def os_store_size_t_eq) }
  { assume os: "os_ready os" "os_unread os = enc_vector enc v @ rest"
    then obtain os1 where os1: "os_get_size_t os = Inr (of_nat (length v), os1)" "os_advanced 8 os os1"
      using size_t_codec.unpack_enc [of os "of_nat (length v)" "concat (map enc v) @ rest"] len
      by (auto simp: enc_vector_def)
    have "os_ready os1" "os_unread os1 = concat (map enc v) @ rest"
      using os_advanced_ready [OF os1(2)] os_advanced_unread [OF os1(2)] os
      by (simp_all add: enc_vector_def)
    then obtain os2 where "os_get_all unpack (length v) os1 = Inr (v, os2)"
      "os_advanced (length (concat (map enc v))) os1 os2"
      using get_all_enc [of v os1 rest "length v"] v by auto
    then show "\<exists>os'. os_get_vector unpack os = Inr (v, os') \<and> os_advanced (length (enc_vector enc v)) os os'"
      using os1 len os_advanced_trans [OF os1(2)]
      by (auto simp: os_get_vector_def enc_vector_def) }
qed

text \<open>A vector read with \<open>get_no_resize\<close> must have the announced size.\<close>

lemma get_no_resize_enc:
  assumes "list_all valid v" "length v < 2 ^ 64" "os_ready os" "os_unread os = enc_vector enc v @ rest"
  shows "n = length v \<Longrightarrow> \<exists>os'. os_get_no_resize unpack n os = Inr (v, os')"
    and "n \<noteq> length v \<Longrightarrow> os_get_no_resize unpack n os = Inl (runtime_error ''wrong vector length'')"
proof -
  have len: "unat (of_nat (length v) :: 64 word) = length v"
    using assms(2) by (simp add: unat_of_nat)
  obtain os1 where os1: "os_get_size_t os = Inr (of_nat (length v), os1)" "os_advanced 8 os os1"
    using size_t_codec.unpack_enc [of os "of_nat (length v)" "concat (map enc v) @ rest"] len assms
    by (auto simp: enc_vector_def)
  have "os_ready os1" "os_unread os1 = concat (map enc v) @ rest"
    using os_advanced_ready [OF os1(2)] os_advanced_unread [OF os1(2)] assms
    by (simp_all add: enc_vector_def)
  then have "\<exists>os2. os_get_all unpack (length v) os1 = Inr (v, os2)"
    using get_all_enc [of v os1 rest "length v"] assms by auto
  with os1 len show "n = length v \<Longrightarrow> \<exists>os'. os_get_no_resize unpack n os = Inr (v, os')"
    and "n \<noteq> length v \<Longrightarrow> os_get_no_resize unpack n os = Inl (runtime_error ''wrong vector length'')"
    by (auto simp: os_get_no_resize_def)
qed

end

interpretation string_codec: codec os_store_string os_get_string
  "\<lambda>str. le_bytes 8 (length str) @ str" "\<lambda>str. length str < 2 ^ 64"
proof
  fix str :: "octet list" and os rest
  assume len: "length str < 2 ^ 64"
  then have n: "unat (of_nat (length str) :: 64 word) = length str"
    by (simp add: unat_of_nat)
  { assume "os_writable os"
    then have 1: "os_extends os (le_bytes 8 (length str)) (os_append os (le_bytes 8 (length str)))"
      by (rule os_append_extends)
    from os_extends_trans [OF 1 os_append_extends [OF os_extends_writable [OF 1]], of str]
    show "\<exists>os'. os_store_string os str = Inr os' \<and> os_extends os (le_bytes 8 (length str) @ str) os'"
      using n by (simp add: os_store_string_def os_store_size_t_eq) }
  { assume os: "os_ready os" "os_unread os = (le_bytes 8 (length str) @ str) @ rest"
    then have 1: "os_get_size_t os = Inr (of_nat (length str), os_skip 8 os)"
      using len by (simp add: os_get_size_t_def os_get_int_enc)
    have "os_consume (os_skip 8 os) (length str) = Inr (str, os_skip (length str) (os_skip 8 os))"
      using os by (intro os_consume_unread [where rest = rest]) simp_all
    then show "\<exists>os'. os_get_string os = Inr (str, os')
        \<and> os_advanced (length (le_bytes 8 (length str) @ str)) os os'"
      using 1 n by (simp add: os_get_string_def) }
qed

end
