(* ===== verification/Z2k.thy ===== *)
theory Z2k
  imports MpnFixed OctetCodec
begin

section \<open>The rings of integers modulo \<open>2 ^ K\<close> (Math/Z2k)\<close>

text \<open>
  An element of \<open>Z2<K>\<close> is its limb array \<open>a\<close>; the template parameter \<open>K\<close> is the first
  argument of every operation. \<open>z2_wf K a\<close> is the normal form the class keeps: \<open>N_WORDS\<close>
  limbs, no bit at or above \<open>K\<close>. Not every constructor and reader establishes it (\<open>z2_of_limb\<close>,
  \<open>z2_of_long\<close> and \<open>z2_unpack\<close> do not mask the top limb), so the lemmas about the arithmetic
  ask for the number of limbs only and say that the result is in normal form.
  GMP's limb routines, which are not part of the repository, are the argument \<open>G\<close> of the
  operations that call them; what GMP documents about them is the locale \<open>gmp_mpn\<close>.
\<close>

subsection \<open>GMP's limb routines\<close>

record gmp =
  mpn_lshift :: "limb list \<Rightarrow> nat \<Rightarrow> limb list"
  mpn_rshift :: "limb list \<Rightarrow> nat \<Rightarrow> limb list"
  mpn_and_n :: "limb list \<Rightarrow> limb list \<Rightarrow> limb list"
  mpn_xor_n :: "limb list \<Rightarrow> limb list \<Rightarrow> limb list"
  mpn_ior_n :: "limb list \<Rightarrow> limb list \<Rightarrow> limb list"
  mpn_cmp :: "limb list \<Rightarrow> limb list \<Rightarrow> int"

locale gmp_mpn =
  fixes G :: gmp
  assumes lshift_length: "0 < n \<Longrightarrow> n < 64 \<Longrightarrow> length (mpn_lshift G xs n) = length xs"
    and lshift_val: "0 < n \<Longrightarrow> n < 64 \<Longrightarrow>
      limbs_val (mpn_lshift G xs n) = (limbs_val xs * 2 ^ n) mod limb_base ^ length xs"
    and rshift_length: "0 < n \<Longrightarrow> n < 64 \<Longrightarrow> length (mpn_rshift G xs n) = length xs"
    and rshift_val: "0 < n \<Longrightarrow> n < 64 \<Longrightarrow> limbs_val (mpn_rshift G xs n) = limbs_val xs div 2 ^ n"
    and and_n: "length xs = length ys \<Longrightarrow> mpn_and_n G xs ys = map2 (AND) xs ys"
    and xor_n: "length xs = length ys \<Longrightarrow> mpn_xor_n G xs ys = map2 (XOR) xs ys"
    and ior_n: "length xs = length ys \<Longrightarrow> mpn_ior_n G xs ys = map2 (OR) xs ys"
    and cmp: "length xs = length ys \<Longrightarrow> sgn (mpn_cmp G xs ys) = sgn (int (limbs_val xs) - int (limbs_val ys))"

subsection \<open>Limbs in memory\<close>

text \<open>The bytes of a limb array, and the array that bytes in memory are read as.\<close>

definition bytes_of_limbs :: "limb list \<Rightarrow> octet list" where
  "bytes_of_limbs xs = concat (map (\<lambda>x. le_bytes 8 (unat x)) xs)"

definition limbs_of_bytes :: "nat \<Rightarrow> octet list \<Rightarrow> limb list" where
  "limbs_of_bytes n bs = map (\<lambda>i. of_nat (le_val (take 8 (drop (8 * i) bs)))) [0..<n]"

text \<open>\<open>memcpy(dst, src, n)\<close> into a limb array.\<close>

definition limbs_memcpy :: "limb list \<Rightarrow> octet list \<Rightarrow> nat \<Rightarrow> limb list" where
  "limbs_memcpy dst src n = limbs_of_bytes (length dst) (take n src @ drop n (bytes_of_limbs dst))"

subsection \<open>Constants and constructors\<close>

type_synonym z2 = "limb list"

definition N_LIMB_BITS :: nat where
  "N_LIMB_BITS = 64"

definition z2_N_WORDS :: "nat \<Rightarrow> nat" where
  "z2_N_WORDS K = ((K + 7) div 8 + 8 - 1) div 8"

definition z2_N_BYTES :: "nat \<Rightarrow> nat" where
  "z2_N_BYTES K = (K + 7) div 8"

definition z2_UPPER_MASK :: "nat \<Rightarrow> limb" where
  "z2_UPPER_MASK K = drop_bit (N_LIMB_BITS - 1 - (K - 1) mod N_LIMB_BITS) (- 1)"

definition z2_normalize :: "nat \<Rightarrow> z2 \<Rightarrow> z2" where
  "z2_normalize K a = a[z2_N_WORDS K - 1 := a ! (z2_N_WORDS K - 1) AND z2_UPPER_MASK K]"

definition z2_zero :: "nat \<Rightarrow> z2" where
  "z2_zero K = replicate (z2_N_WORDS K) 0"

definition z2_one :: "nat \<Rightarrow> z2" where
  "z2_one K = (z2_zero K)[0 := 1]"

definition z2_of_limb :: "nat \<Rightarrow> limb \<Rightarrow> z2" where
  "z2_of_limb K x = (z2_zero K)[0 := x]"

definition z2_of_long :: "nat \<Rightarrow> 64 word \<Rightarrow> z2" where
  "z2_of_long K x =
     (let a = z2_of_limb K x
      in if 64 < K \<and> x <s 0
         then take 1 a @ limbs_memcpy (drop 1 a) (replicate (z2_N_BYTES K - 8) 0xff) (z2_N_BYTES K - 8)
         else a)"

definition z2_of_int :: "nat \<Rightarrow> 32 word \<Rightarrow> z2" where
  "z2_of_int K x = z2_normalize K (z2_of_long K (scast x))"

definition z2_assign :: "nat \<Rightarrow> z2 \<Rightarrow> octet list \<Rightarrow> z2" where
  "z2_assign K a buffer = z2_normalize K (limbs_memcpy a buffer (z2_N_BYTES K))"

definition z2_of_buffer :: "nat \<Rightarrow> octet list \<Rightarrow> z2" where
  "z2_of_buffer K buffer = z2_assign K (z2_zero K) buffer"

definition z2_of_z2 :: "nat \<Rightarrow> nat \<Rightarrow> z2 \<Rightarrow> z2" where
  "z2_of_z2 K L x =
     z2_normalize K (limbs_memcpy (z2_zero K) (bytes_of_limbs x) (min (z2_N_BYTES K) (z2_N_BYTES L)))"

text \<open>From GMP's integer: \<open>_mp_size\<close> (negative for a negative number) and the limbs of the magnitude.\<close>

definition z2_of_bigint :: "nat \<Rightarrow> int \<Rightarrow> limb list \<Rightarrow> z2" where
  "z2_of_bigint K mp_size mp_d =
     (let a = limbs_memcpy (z2_zero K) (bytes_of_limbs mp_d) (min (z2_N_BYTES K) (8 * nat \<bar>mp_size\<bar>));
          a = (if mp_size < 0
               then (let res = mpn_sub_fixed_n (z2_N_WORDS K) (z2_zero K) a
                     in res[z2_N_WORDS K - 1 := res ! (z2_N_WORDS K - 1) AND z2_UPPER_MASK K])
               else a)
      in z2_normalize K a)"

subsection \<open>Reading bits\<close>

definition z2_get_limb :: "z2 \<Rightarrow> nat \<Rightarrow> limb" where
  "z2_get_limb a i = a ! i"

definition z2_get_bit :: "nat \<Rightarrow> z2 \<Rightarrow> nat \<Rightarrow> bool" where
  "z2_get_bit K a i =
     (if i < K then (1 AND drop_bit (i mod N_LIMB_BITS) (a ! (i div N_LIMB_BITS))) \<noteq> 0 else False)"

subsection \<open>Arithmetic\<close>

definition z2_lazy_add :: "nat \<Rightarrow> z2 \<Rightarrow> z2 \<Rightarrow> z2" where
  "z2_lazy_add K a other = mpn_add_fixed_n (z2_N_WORDS K) a other"

definition z2_add :: "nat \<Rightarrow> z2 \<Rightarrow> z2 \<Rightarrow> z2" where
  "z2_add K a other = z2_normalize K (z2_lazy_add K a other)"

definition z2_sub :: "nat \<Rightarrow> z2 \<Rightarrow> z2 \<Rightarrow> z2" where
  "z2_sub K a other =
     (let res = mpn_sub_fixed_n (z2_N_WORDS K) a other
      in res[z2_N_WORDS K - 1 := res ! (z2_N_WORDS K - 1) AND z2_UPPER_MASK K])"

definition z2_add_assign :: "nat \<Rightarrow> z2 \<Rightarrow> z2 \<Rightarrow> z2" where
  "z2_add_assign K a other =
     (let a = mpn_add_fixed_n (z2_N_WORDS K) other a
      in a[z2_N_WORDS K - 1 := a ! (z2_N_WORDS K - 1) AND z2_UPPER_MASK K])"

definition z2_sub_assign :: "nat \<Rightarrow> z2 \<Rightarrow> z2 \<Rightarrow> z2" where
  "z2_sub_assign K a other = z2_sub K a other"

text \<open>\<open>Z2<K>::Mul<L, M, LAZY>\<close>; \<open>None\<close> is the failed assertion of the limb product.\<close>

definition z2_Mul :: "nat \<Rightarrow> nat \<Rightarrow> nat \<Rightarrow> bool \<Rightarrow> z2 \<Rightarrow> z2 \<Rightarrow> z2 option" where
  "z2_Mul K L M LAZY x y =
     map_option (\<lambda>res. if LAZY then res else z2_normalize K res)
       (mpn_mul_fixed_L (z2_N_WORDS K) (z2_N_WORDS L) (z2_N_WORDS M) x y)"

definition z2_mult :: "nat \<Rightarrow> nat \<Rightarrow> z2 \<Rightarrow> z2 \<Rightarrow> z2 option" where
  "z2_mult K L a other = z2_Mul (if L < K then K else L) K L False a other"

definition z2_mult_assign :: "nat \<Rightarrow> z2 \<Rightarrow> z2 \<Rightarrow> z2 option" where
  "z2_mult_assign K a other = z2_mult K K a other"

definition z2_lazy_mul :: "nat \<Rightarrow> z2 \<Rightarrow> z2 \<Rightarrow> z2 option" where
  "z2_lazy_mul K a other = z2_Mul K K K True a other"

definition z2_mult_bool :: "nat \<Rightarrow> z2 \<Rightarrow> bool \<Rightarrow> z2" where
  "z2_mult_bool K a other = (if other then a else z2_zero K)"

definition z2_mult_int :: "nat \<Rightarrow> z2 \<Rightarrow> 32 word \<Rightarrow> z2 option" where
  "z2_mult_int K a other = z2_mult K K a (z2_of_int K other)"

definition z2_divide :: "z2 \<Rightarrow> z2 \<Rightarrow> z2 result" where
  "z2_divide a other = Inl division_by_zero"

subsection \<open>Bitwise operations and shifts\<close>

definition z2_and :: "gmp \<Rightarrow> z2 \<Rightarrow> z2 \<Rightarrow> z2" where
  "z2_and G a other = mpn_and_n G a other"

definition z2_xor :: "gmp \<Rightarrow> z2 \<Rightarrow> z2 \<Rightarrow> z2" where
  "z2_xor G a other = mpn_xor_n G a other"

definition z2_ior :: "gmp \<Rightarrow> z2 \<Rightarrow> z2 \<Rightarrow> z2" where
  "z2_ior G a other = mpn_ior_n G a other"

definition z2_equal :: "gmp \<Rightarrow> z2 \<Rightarrow> z2 \<Rightarrow> bool" where
  "z2_equal G a other \<longleftrightarrow> mpn_cmp G a other = 0"

definition z2_shl :: "gmp \<Rightarrow> nat \<Rightarrow> z2 \<Rightarrow> nat \<Rightarrow> z2" where
  "z2_shl G K a i =
     (let n_limb_shift = i div N_LIMB_BITS;
          res = map (\<lambda>j. if n_limb_shift \<le> j then a ! (j - n_limb_shift) else 0) [0..<z2_N_WORDS K];
          n_inside_shift = i mod N_LIMB_BITS;
          res = (if z2_N_WORDS K = 1 then res[0 := push_bit n_inside_shift (res ! 0)]
                 else if 0 < n_inside_shift then mpn_lshift G res n_inside_shift else res)
      in res[z2_N_WORDS K - 1 := res ! (z2_N_WORDS K - 1) AND z2_UPPER_MASK K])"

definition z2_shr :: "gmp \<Rightarrow> nat \<Rightarrow> z2 \<Rightarrow> nat \<Rightarrow> z2" where
  "z2_shr G K a i =
     (let n_limb_shift = i div N_LIMB_BITS;
          res = map (\<lambda>j. if j < z2_N_WORDS K - n_limb_shift then a ! (j + n_limb_shift) else 0) [0..<z2_N_WORDS K];
          n_inside_shift = i mod N_LIMB_BITS
      in if z2_N_WORDS K = 1 then res[0 := drop_bit n_inside_shift (res ! 0)]
         else if 0 < n_inside_shift then mpn_rshift G res n_inside_shift else res)"

definition z2_power_of_two :: "gmp \<Rightarrow> nat \<Rightarrow> bool \<Rightarrow> nat \<Rightarrow> z2" where
  "z2_power_of_two G K b e = z2_shl G K (z2_of_int K (of_bool b)) e"

definition z2_is_zero :: "gmp \<Rightarrow> nat \<Rightarrow> z2 \<Rightarrow> bool" where
  "z2_is_zero G K a \<longleftrightarrow> z2_equal G a (z2_zero K)"

definition z2_is_one :: "gmp \<Rightarrow> nat \<Rightarrow> z2 \<Rightarrow> bool" where
  "z2_is_one G K a \<longleftrightarrow> z2_equal G a (z2_of_int K 1)"

definition z2_is_bit :: "gmp \<Rightarrow> nat \<Rightarrow> z2 \<Rightarrow> bool" where
  "z2_is_bit G K a \<longleftrightarrow> z2_is_zero G K a \<or> z2_is_one G K a"

subsection \<open>Inverse and square root\<close>

text \<open>The loops of \<open>invert\<close> and \<open>sqrRoot\<close>; \<open>None\<close> is a failed assertion in \<open>Mul\<close>.\<close>

definition z2_invert_step :: "gmp \<Rightarrow> nat \<Rightarrow> z2 \<Rightarrow> nat \<Rightarrow> z2 \<Rightarrow> z2 option" where
  "z2_invert_step G K a i res =
     Option.bind (z2_Mul K K K False a res)
       (\<lambda>p. Some (z2_add_assign K res
          (z2_shl G K (z2_of_int K (of_bool (z2_get_bit K (z2_sub K (z2_of_int K 1) p) i))) i)))"

definition z2_invert :: "gmp \<Rightarrow> nat \<Rightarrow> z2 \<Rightarrow> z2 result" where
  "z2_invert G K a =
     (if \<not> z2_get_bit K a 0 then Inl division_by_zero
      else case fold (\<lambda>i res. Option.bind res (z2_invert_step G K a i)) [0..<K] (Some (z2_of_int K 1)) of
             None \<Rightarrow> Inl assertion_failed
           | Some res \<Rightarrow> Inr res)"

definition z2_sqrRoot_step :: "gmp \<Rightarrow> nat \<Rightarrow> z2 \<Rightarrow> nat \<Rightarrow> z2 \<Rightarrow> z2 option" where
  "z2_sqrRoot_step G K a i res =
     Option.bind (z2_Mul K K K False res res)
       (\<lambda>p. Some (z2_add_assign K res
          (z2_shl G K (z2_of_int K (of_bool (z2_get_bit K (z2_sub K a p) (i + 1)))) i)))"

definition z2_sqrRoot :: "gmp \<Rightarrow> nat \<Rightarrow> z2 \<Rightarrow> z2 result" where
  "z2_sqrRoot G K a =
     (if (a ! 0) mod 8 \<noteq> 1 then Inl assertion_failed
      else case fold (\<lambda>i res. Option.bind res (z2_sqrRoot_step G K a i)) [0..<K - 1] (Some (z2_of_int K 1)) of
             None \<Rightarrow> Inl assertion_failed
           | Some res \<Rightarrow> Inr res)"

subsection \<open>Packing, random elements\<close>

definition z2_pack :: "nat \<Rightarrow> octet_stream \<Rightarrow> z2 \<Rightarrow> octet_stream result" where
  "z2_pack K os a = Inr (os_append os (take (z2_N_BYTES K) (bytes_of_limbs a)))"

text \<open>\<open>unpack\<close> overwrites the first \<open>N_BYTES\<close> bytes of the element and does not normalise.\<close>

definition z2_unpack :: "nat \<Rightarrow> z2 \<Rightarrow> octet_stream \<Rightarrow> (z2 \<times> octet_stream) result" where
  "z2_unpack K a os =
     bind_result (os_consume os (z2_N_BYTES K))
       (\<lambda>(bs, os). Inr (limbs_memcpy a bs (z2_N_BYTES K), os))"

text \<open>\<open>octetStream::get<Z2<K>>()\<close>: a fresh element, then \<open>unpack\<close>.\<close>

definition z2_get :: "nat \<Rightarrow> octet_stream \<Rightarrow> (z2 \<times> octet_stream) result" where
  "z2_get K os = z2_unpack K (z2_zero K) os"

text \<open>The octets the generator supplies are the argument \<open>rnd\<close>.\<close>

definition z2_randomize :: "nat \<Rightarrow> z2 \<Rightarrow> octet list \<Rightarrow> z2" where
  "z2_randomize K a rnd = z2_normalize K (limbs_memcpy a rnd (z2_N_BYTES K))"

definition z2_randomize_part :: "nat \<Rightarrow> z2 \<Rightarrow> nat \<Rightarrow> octet list \<Rightarrow> z2 result" where
  "z2_randomize_part K a n rnd =
     (if K \<le> n then Inr (z2_randomize K a rnd)
      else if n = 0 then Inl undefined_behaviour
      else let a = limbs_memcpy (z2_zero K) rnd ((n + 7) div 8);
               top = (n + 63) div 64 - 1
           in Inr (a[top := a ! top AND drop_bit (N_LIMB_BITS - 1 - (n - 1) mod N_LIMB_BITS) (- 1)]))"

definition z2_reqbl :: "nat \<Rightarrow> int \<Rightarrow> unit result" where
  "z2_reqbl K n =
     (if n < 0 \<and> int K \<noteq> - n then Inl (processor_error ''Program compiled for rings of other length'')
      else if 0 < n then Inl (processor_error ''Program compiled for fields not rings'')
      else Inr ())"

subsection \<open>Signed elements\<close>

definition signed_z2_negative :: "nat \<Rightarrow> z2 \<Rightarrow> bool" where
  "signed_z2_negative K a \<longleftrightarrow>
     (a ! (z2_N_WORDS K - 1)) AND push_bit ((K - 1) mod N_LIMB_BITS) 1 \<noteq> 0"

definition signed_z2_of_signed :: "nat \<Rightarrow> nat \<Rightarrow> z2 \<Rightarrow> z2" where
  "signed_z2_of_signed K L other =
     (let a = z2_of_z2 K L other;
          a = (if L < K \<and> signed_z2_negative L other
               then (let a = a[z2_N_WORDS L - 1 := a ! (z2_N_WORDS L - 1) OR NOT (z2_UPPER_MASK L)]
                     in take (z2_N_WORDS L) a @ replicate (z2_N_WORDS K - z2_N_WORDS L) (- 1))
               else a)
      in z2_normalize K a)"

definition signed_z2_less :: "nat \<Rightarrow> z2 \<Rightarrow> z2 \<Rightarrow> bool" where
  "signed_z2_less K a other \<longleftrightarrow> signed_z2_negative K (z2_sub K a other)"

definition signed_z2_uminus :: "nat \<Rightarrow> z2 \<Rightarrow> z2" where
  "signed_z2_uminus K a = z2_sub K (z2_zero K) a"

definition signed_z2_abs :: "nat \<Rightarrow> z2 \<Rightarrow> z2" where
  "signed_z2_abs K x = (if signed_z2_negative K x then signed_z2_uminus K x else x)"

end
