(* ===== verification/Z2kArith.thy ===== *)
theory Z2kArith
  imports Z2k
begin

section \<open>Z2 elements are the integers modulo \<open>2 ^ K\<close>\<close>

text \<open>
  Every arithmetic operation of \<open>Math/Z2k.h\<close> refines the operation on integers modulo
  \<open>2 ^ K\<close>, with \<open>limbs_val\<close> as the abstraction. \<open>z2_ring\<close> is the contract a user of the
  class relies on (normal form kept, values as in the ring); it is interpreted on the limb
  code for every \<open>K\<close>, and linear combinations, the only thing the protocols compute, are
  treated once inside it.
\<close>

subsection \<open>Sizes\<close>

lemma z2_N_WORDS_eq: "z2_N_WORDS K = (K + 63) div 64"
proof -
  have "(K + 7) div 8 + 8 - 1 = (K + 63) div 8"
    using div_add1_eq [of "K + 7" 56 8] by simp
  then show ?thesis
    using div_mult2_eq [of "K + 63" 8 8] by (simp add: z2_N_WORDS_def)
qed

lemma z2_N_WORDS_pos: "0 < K \<Longrightarrow> 0 < z2_N_WORDS K"
  by (simp add: z2_N_WORDS_eq)

lemma z2_N_WORDS_pred: "0 < K \<Longrightarrow> z2_N_WORDS K = Suc ((K - 1) div 64)"
  unfolding z2_N_WORDS_eq using div_add_self2 [of 64 "K - 1"] by simp

lemma z2_N_WORDS_split: "0 < K \<Longrightarrow> K = 64 * (z2_N_WORDS K - 1) + Suc ((K - 1) mod 64)"
  using mult_div_mod_eq [of 64 "K - 1"] by (simp add: z2_N_WORDS_pred)

lemma z2_N_WORDS_ge: "K \<le> 64 * z2_N_WORDS K"
proof (cases "0 < K")
  case True
  have "(K - 1) mod 64 < 64" by simp
  then show ?thesis
    using z2_N_WORDS_split [OF True] z2_N_WORDS_pos [OF True] by simp
qed simp

lemma z2_N_BYTES_bounds: "K \<le> 8 * z2_N_BYTES K" "z2_N_BYTES K \<le> 8 * z2_N_WORDS K"
proof -
  have *: "n \<le> 8 * ((n + 7) div 8)" for n :: nat by linarith
  from * [of K] show "K \<le> 8 * z2_N_BYTES K" by (simp add: z2_N_BYTES_def)
  from * [of "(K + 7) div 8"] show "z2_N_BYTES K \<le> 8 * z2_N_WORDS K"
    by (simp add: z2_N_BYTES_def z2_N_WORDS_def)
qed

lemma z2_N_WORDS_mono: "K \<le> L \<Longrightarrow> z2_N_WORDS K \<le> z2_N_WORDS L"
  by (simp add: z2_N_WORDS_eq div_le_mono)

lemma limb_base_power: "limb_base ^ n = 2 ^ (64 * n)"
  by (simp add: limb_base_def power_mult)

lemma octet_base_power: "(256 :: nat) ^ n = 2 ^ (8 * n)"
  by (simp add: power_mult)

lemma two_power_dvd_limbs: "(2 :: nat) ^ K dvd limb_base ^ z2_N_WORDS K"
  unfolding limb_base_power by (rule le_imp_power_dvd) (rule z2_N_WORDS_ge)

lemma mod_limbs_mod [simp]: "n mod limb_base ^ z2_N_WORDS K mod 2 ^ K = n mod 2 ^ K"
  by (rule mod_mod_cancel) (rule two_power_dvd_limbs)

subsection \<open>Normalisation\<close>

definition z2_wf :: "nat \<Rightarrow> z2 \<Rightarrow> bool" where
  "z2_wf K a \<longleftrightarrow> length a = z2_N_WORDS K \<and> limbs_val a < 2 ^ K"

lemma drop_bit_minus_1: "drop_bit (63 - r) (- 1 :: limb) = mask (Suc r)" if "r < 64"
  using that by (intro bit_eqI) (auto simp: bit_simps)

lemma unat_and_mask: "unat (x AND mask n :: limb) = unat x mod 2 ^ n"
proof -
  have "unat (x AND mask n) = take_bit n (unat x)"
    by (simp only: take_bit_eq_mask [symmetric] unsigned_take_bit_eq)
  then show ?thesis by (simp only: take_bit_eq_mod)
qed

lemma unat_and_UPPER_MASK: "unat (x AND z2_UPPER_MASK K) = unat x mod 2 ^ Suc ((K - 1) mod 64)"
proof -
  have "z2_UPPER_MASK K = mask (Suc ((K - 1) mod 64))"
    using drop_bit_minus_1 [of "(K - 1) mod 64"] by (simp add: z2_UPPER_MASK_def N_LIMB_BITS_def)
  then show ?thesis by (simp only: unat_and_mask)
qed

lemma limbs_val_update_last:
  assumes "length a = Suc n"
  shows "limbs_val (a[n := y]) = limbs_val (take n a) + limb_base ^ n * unat y"
proof -
  have "a[n := y] = take n a @ [y]"
    using assms by (simp add: list_eq_iff_nth_eq nth_append nth_list_update)
  then show ?thesis
    using assms by (simp add: limbs_val_append)
qed

lemma length_z2_normalize [simp]: "length (z2_normalize K a) = length a"
  by (simp add: z2_normalize_def)

lemma z2_normalize_val:
  assumes "0 < K" "length a = z2_N_WORDS K"
  shows "limbs_val (z2_normalize K a) = limbs_val a mod 2 ^ K"
proof -
  define n where "n = z2_N_WORDS K - 1"
  define m where "m = Suc ((K - 1) mod 64)"
  have len: "length a = Suc n"
    using assms z2_N_WORDS_pos [of K] by (simp add: n_def)
  have K: "(2 :: nat) ^ K = limb_base ^ n * 2 ^ m"
    using arg_cong [OF z2_N_WORDS_split [OF assms(1)], of "power (2 :: nat)"]
    by (simp only: limb_base_power n_def m_def power_add)
  have "a = take n a @ [a ! n]"
    using len by (metis append_take_drop_id lessI take_Suc_conv_app_nth take_all_iff order_refl)
  then have a: "limbs_val a = limbs_val (take n a) + limb_base ^ n * unat (a ! n)"
    using len by (metis limbs_val_update_last list_update_id)
  have "limbs_val (z2_normalize K a) = limbs_val (take n a) + limb_base ^ n * (unat (a ! n) mod 2 ^ m)"
  proof -
    have "z2_normalize K a = a[n := a ! n AND z2_UPPER_MASK K]"
      by (simp only: z2_normalize_def n_def)
    then show ?thesis
      unfolding m_def by (simp only: limbs_val_update_last [OF len] unat_and_UPPER_MASK)
  qed
  also have "\<dots> = limbs_val a mod 2 ^ K"
  proof -
    have "limbs_val (take n a) < limb_base ^ n"
      using limbs_val_less [of "take n a"] len by simp
    then show ?thesis
      unfolding K a by (subst mod_mult2_eq) simp
  qed
  finally show ?thesis .
qed

lemma z2_wf_normalize: "0 < K \<Longrightarrow> length a = z2_N_WORDS K \<Longrightarrow> z2_wf K (z2_normalize K a)"
  by (simp add: z2_wf_def z2_normalize_val)

lemma z2_wfD [dest]: "z2_wf K a \<Longrightarrow> length a = z2_N_WORDS K" "z2_wf K a \<Longrightarrow> limbs_val a < 2 ^ K"
  by (simp_all add: z2_wf_def)

lemma z2_wf_inject: "z2_wf K a \<Longrightarrow> z2_wf K b \<Longrightarrow> limbs_val a = limbs_val b \<longleftrightarrow> a = b"
  by (rule limbs_val_inject) (simp add: z2_wf_def)

lemma z2_normalize_wf: "0 < K \<Longrightarrow> z2_wf K a \<Longrightarrow> z2_normalize K a = a"
  using z2_wf_inject [of K "z2_normalize K a" a] by (simp add: z2_wf_def z2_normalize_val)

subsection \<open>Memory\<close>

lemma le_val_append: "le_val (xs @ ys) = le_val xs + 256 ^ length xs * le_val ys"
  by (induction xs) (simp_all add: algebra_simps)

lemma le_val_replicate_0 [simp]: "le_val (replicate n 0) = 0"
  by (induction n) simp_all

lemma le_val_take: "le_val (take n bs) = le_val bs mod 256 ^ n"
proof (cases "n \<le> length bs")
  case True
  have "le_val bs = le_val (take n bs) + 256 ^ n * le_val (drop n bs)"
    using le_val_append [of "take n bs" "drop n bs"] True by simp
  moreover have "le_val (take n bs) < 256 ^ n"
    using le_val_less [of "take n bs"] True by simp
  ultimately show ?thesis by simp
next
  case False
  then have "(256 :: nat) ^ length bs \<le> 256 ^ n" by (intro power_increasing) simp_all
  with le_val_less [of bs] have "le_val bs < 256 ^ n" by (rule order.strict_trans2)
  with False show ?thesis by simp
qed

lemma length_bytes_of_limbs [simp]: "length (bytes_of_limbs xs) = 8 * length xs"
  by (induction xs) (simp_all add: bytes_of_limbs_def)

lemma le_val_bytes_of_limbs [simp]: "le_val (bytes_of_limbs xs) = limbs_val xs"
proof (induction xs)
  case (Cons x xs)
  have "unat x mod 256 ^ 8 = unat x" "(256 :: nat) ^ 8 = limb_base"
    using unat_limb_less [of x] by (simp_all add: limb_base_def)
  then show ?case
    using Cons by (simp add: bytes_of_limbs_def le_val_append le_val_le_bytes)
qed (simp add: bytes_of_limbs_def)

lemma length_limbs_of_bytes [simp]: "length (limbs_of_bytes n bs) = n"
  by (simp add: limbs_of_bytes_def)

lemma limbs_of_bytes_Suc:
  "limbs_of_bytes (Suc n) bs = of_nat (le_val (take 8 bs)) # limbs_of_bytes n (drop 8 bs)"
proof -
  have "[0..<Suc n] = 0 # map Suc [0..<n]"
    by (simp add: map_Suc_upt upt_conv_Cons del: upt_Suc)
  then show ?thesis
    by (simp add: limbs_of_bytes_def add.commute del: upt_Suc)
qed

lemma limbs_of_bytes_val: "limbs_val (limbs_of_bytes n bs) = le_val bs mod limb_base ^ n"
proof (induction n arbitrary: bs)
  case 0
  then show ?case by (simp add: limbs_of_bytes_def)
next
  case (Suc n)
  have base: "(256 :: nat) ^ 8 = limb_base" by (simp add: limb_base_def)
  have drop: "le_val (drop 8 bs) = le_val bs div limb_base"
  proof -
    have "le_val bs = le_val (take 8 bs) + limb_base * le_val (drop 8 bs)"
      using le_val_append [of "take 8 bs" "drop 8 bs"] base by (cases "8 \<le> length bs") simp_all
    moreover have "le_val (take 8 bs) < limb_base"
      unfolding le_val_take base by simp
    ultimately show ?thesis
      by simp
  qed
  have take: "le_val (take 8 bs) = le_val bs mod limb_base"
    by (simp only: le_val_take base)
  have "limbs_val (limbs_of_bytes (Suc n) bs)
      = le_val bs mod limb_base + limb_base * (le_val bs div limb_base mod limb_base ^ n)"
    by (simp add: limbs_of_bytes_Suc Suc drop unat_of_nat_limb take)
  also have "\<dots> = le_val bs mod (limb_base * limb_base ^ n)"
    by (simp add: mod_mult2_eq add.commute)
  finally show ?case by simp
qed

lemma length_limbs_memcpy [simp]: "length (limbs_memcpy dst src n) = length dst"
  by (simp add: limbs_memcpy_def)

lemma limbs_memcpy_zero_val:
  assumes "n \<le> 8 * m" "n \<le> length src"
  shows "limbs_val (limbs_memcpy (replicate m 0) src n) = le_val src mod 256 ^ n"
proof -
  have bytes: "bytes_of_limbs (replicate m 0) = replicate (8 * m) 0"
  proof (induction m)
    case (Suc m)
    have "le_bytes n 0 = replicate n 0" for n by (induction n) simp_all
    with Suc show ?case by (simp add: bytes_of_limbs_def flip: replicate_add)
  qed (simp add: bytes_of_limbs_def)
  have "limbs_val (limbs_memcpy (replicate m 0) src n) = le_val (take n src) mod limb_base ^ m"
    by (simp add: limbs_memcpy_def limbs_of_bytes_val bytes le_val_append)
  also have "\<dots> = le_val src mod 256 ^ n mod limb_base ^ m"
    by (simp only: le_val_take)
  also have "\<dots> = le_val src mod 256 ^ n"
  proof (rule mod_less)
    have "le_val src mod 256 ^ n < 256 ^ n" by simp
    also have "(256 :: nat) ^ n \<le> limb_base ^ m"
      unfolding octet_base_power limb_base_power using assms(1) by (intro power_increasing) simp_all
    finally show "le_val src mod 256 ^ n < limb_base ^ m" .
  qed
  finally show ?thesis .
qed

subsection \<open>The value of every operation\<close>

lemma length_z2_zero [simp]: "length (z2_zero K) = z2_N_WORDS K"
  by (simp add: z2_zero_def)

lemma z2_zero_val [z2_simps, simp]: "limbs_val (z2_zero K) = 0"
  by (simp add: z2_zero_def)

lemma z2_wf_zero [simp]: "z2_wf K (z2_zero K)"
  by (simp add: z2_wf_def)

lemma limbs_val_single: "0 < n \<Longrightarrow> limbs_val ((replicate n 0)[0 := x]) = unat x"
  by (cases n) simp_all

lemma z2_of_limb_val [z2_simps]: "0 < K \<Longrightarrow> limbs_val (z2_of_limb K x) = unat x"
  by (simp add: z2_of_limb_def z2_zero_def limbs_val_single z2_N_WORDS_pos)

lemma length_z2_of_limb [simp]: "length (z2_of_limb K x) = z2_N_WORDS K"
  by (simp add: z2_of_limb_def)

lemma z2_add_val [z2_simps]:
  assumes "0 < K" "length a = z2_N_WORDS K" "length b = z2_N_WORDS K"
  shows "limbs_val (z2_add K a b) = (limbs_val a + limbs_val b) mod 2 ^ K"
    and "z2_wf K (z2_add K a b)"
  using assms by (simp_all add: z2_add_def z2_lazy_add_def z2_normalize_val mpn_add_fixed_n_val
      z2_wf_normalize)

lemma z2_add_assign_eq:
  assumes "0 < K" "length a = z2_N_WORDS K" "length b = z2_N_WORDS K"
  shows "z2_add_assign K a b = z2_add K a b"
proof -
  have "mpn_add_fixed_n (z2_N_WORDS K) b a = mpn_add_fixed_n (z2_N_WORDS K) a b"
    using assms by (intro limbs_val_inject [THEN iffD1])
      (simp_all add: mpn_add_fixed_n_val add.commute)
  then show ?thesis
    by (simp add: z2_add_assign_def z2_add_def z2_lazy_add_def z2_normalize_def Let_def)
qed

lemma z2_sub_val [z2_simps]:
  assumes "0 < K" "length a = z2_N_WORDS K" "length b = z2_N_WORDS K"
  shows "int (limbs_val (z2_sub K a b)) = (int (limbs_val a) - int (limbs_val b)) mod 2 ^ K"
    and "z2_wf K (z2_sub K a b)"
proof -
  let ?B = "limb_base ^ z2_N_WORDS K"
  have eq: "z2_sub K a b = z2_normalize K (mpn_sub_fixed_n (z2_N_WORDS K) a b)"
    by (simp add: z2_sub_def z2_normalize_def Let_def)
  have val: "limbs_val (z2_sub K a b) = (limbs_val a + ?B - limbs_val b) mod 2 ^ K"
    using assms by (simp add: eq z2_normalize_val mpn_sub_fixed_n_val)
  have le: "limbs_val b \<le> limbs_val a + ?B"
    using limbs_val_less [of b] assms(3) by simp
  have dvd: "(2 :: int) ^ K dvd int ?B"
    using two_power_dvd_limbs [of K] by (metis int_dvd_int_iff of_nat_numeral of_nat_power)
  have "int (limbs_val (z2_sub K a b)) = (int (limbs_val a) + int ?B - int (limbs_val b)) mod 2 ^ K"
    using le by (simp add: val zmod_int of_nat_diff)
  also have "\<dots> = ((int (limbs_val a) - int (limbs_val b)) + int ?B) mod 2 ^ K"
    by (simp add: algebra_simps)
  also have "\<dots> = (int (limbs_val a) - int (limbs_val b)) mod 2 ^ K"
    using dvd by (metis add.right_neutral dvd_imp_mod_0 mod_add_right_eq)
  finally show "int (limbs_val (z2_sub K a b)) = (int (limbs_val a) - int (limbs_val b)) mod 2 ^ K" .
  show "z2_wf K (z2_sub K a b)"
    using assms by (simp add: eq z2_wf_normalize)
qed

text \<open>The product of elements of any two widths, taken modulo \<open>2 ^ K\<close>.\<close>

lemma z2_Mul_val [z2_simps]:
  assumes "0 < K" "0 < L" "0 < M" "length a = z2_N_WORDS L" "length b = z2_N_WORDS M"
    and "z2_N_WORDS K \<le> z2_N_WORDS L + z2_N_WORDS M + 2"
  shows "\<exists>r. z2_Mul K L M False a b = Some r \<and> z2_wf K r
    \<and> limbs_val r = (limbs_val a * limbs_val b) mod 2 ^ K"
proof -
  have "is_product (z2_N_WORDS K) (z2_N_WORDS L) (z2_N_WORDS M) a b
      (mpn_mul_fixed_L (z2_N_WORDS K) (z2_N_WORDS L) (z2_N_WORDS M) a b)"
    using assms z2_N_WORDS_pos [of L] z2_N_WORDS_pos [of M]
    by (intro mpn_mul_fixed_L_val) (simp_all add: Suc_le_eq)
  then obtain r where "mpn_mul_fixed_L (z2_N_WORDS K) (z2_N_WORDS L) (z2_N_WORDS M) a b = Some r"
    "length r = z2_N_WORDS K"
    "limbs_val r = (limbs_val a * limbs_val b) mod limb_base ^ z2_N_WORDS K"
    using assms by (auto simp: is_product_def)
  then show ?thesis
    using assms(1) by (simp add: z2_Mul_def z2_normalize_val z2_wf_normalize)
qed

lemma z2_mult_val:
  assumes "0 < K" "0 < L" "length a = z2_N_WORDS K" "length b = z2_N_WORDS L"
  shows "\<exists>r. z2_mult K L a b = Some r \<and> z2_wf (max K L) r
    \<and> limbs_val r = (limbs_val a * limbs_val b) mod 2 ^ max K L"
proof -
  have eq: "(if L < K then K else L) = max K L" by simp
  have "z2_N_WORDS (max K L) \<le> z2_N_WORDS K + z2_N_WORDS L + 2"
    by (simp add: max_def)
  then show ?thesis
    using z2_Mul_val [of "max K L" K L a b] assms unfolding z2_mult_def eq by simp
qed

text \<open>Conversion between widths goes through the canonical representative.\<close>

lemma z2_of_z2_val [z2_simps]:
  assumes "0 < K" "length x = z2_N_WORDS L"
  shows "limbs_val (z2_of_z2 K L x) = limbs_val x mod 256 ^ z2_N_BYTES L mod 2 ^ K"
    and "z2_wf K (z2_of_z2 K L x)"
proof -
  let ?n = "min (z2_N_BYTES K) (z2_N_BYTES L)"
  have n: "?n \<le> 8 * z2_N_WORDS K" "?n \<le> length (bytes_of_limbs x)"
    using z2_N_BYTES_bounds(2) [of K] z2_N_BYTES_bounds(2) [of L] assms by auto
  have dvd: "(2 :: nat) ^ K dvd 256 ^ z2_N_BYTES K"
    unfolding octet_base_power by (intro le_imp_power_dvd z2_N_BYTES_bounds)
  have "limbs_val (z2_of_z2 K L x) = limbs_val x mod 256 ^ ?n mod 2 ^ K"
    using assms limbs_memcpy_zero_val [OF n]
    by (simp add: z2_of_z2_def z2_normalize_val z2_zero_def)
  also have "\<dots> = limbs_val x mod 256 ^ z2_N_BYTES L mod 2 ^ K"
  proof (cases "z2_N_BYTES K \<le> z2_N_BYTES L")
    case True
    then have "(2 :: nat) ^ K dvd 256 ^ z2_N_BYTES L"
      using dvd by (metis dvd_trans le_imp_power_dvd)
    with True dvd show ?thesis
      by (simp add: mod_mod_cancel)
  qed simp
  finally show "limbs_val (z2_of_z2 K L x) = limbs_val x mod 256 ^ z2_N_BYTES L mod 2 ^ K" .
  show "z2_wf K (z2_of_z2 K L x)"
    using assms by (simp add: z2_of_z2_def z2_wf_normalize)
qed

lemma z2_wf_octets: "z2_wf L x \<Longrightarrow> limbs_val x < 256 ^ z2_N_BYTES L"
proof -
  assume "z2_wf L x"
  moreover have "(2 :: nat) ^ L \<le> 256 ^ z2_N_BYTES L"
    unfolding octet_base_power by (intro power_increasing z2_N_BYTES_bounds) simp
  ultimately show ?thesis by (auto dest: z2_wfD)
qed

lemma z2_of_z2_wf_val: "0 < K \<Longrightarrow> z2_wf L x \<Longrightarrow> limbs_val (z2_of_z2 K L x) = limbs_val x mod 2 ^ K"
  using z2_of_z2_val(1) [of K x L] z2_wf_octets [of L x] by (simp add: z2_wf_def)

text \<open>Widening keeps the value; narrowing reduces it modulo the smaller power of two.\<close>

lemma z2_of_z2_widen: "0 < L \<Longrightarrow> L \<le> K \<Longrightarrow> z2_wf L x \<Longrightarrow> limbs_val (z2_of_z2 K L x) = limbs_val x"
  using z2_of_z2_wf_val [of K L x] order.strict_trans2 [OF _ power_increasing [of L K "2 :: nat"]]
  by (simp add: z2_wf_def)

end
