(* ===== verification/Z2kBits.thy ===== *)
theory Z2kBits
  imports Z2kArith
begin

section \<open>Bits, shifts and comparison of Z2 elements\<close>

text \<open>
  What \<open>get_bit\<close>, the shifts and the comparison of \<open>Math/Z2k.h\<close> compute, given GMP's documented
  contract (\<open>gmp_mpn\<close>), and a reference \<open>gmp_ref\<close> that satisfies the contract.
\<close>

subsection \<open>Bits\<close>

lemma bit_limbs_val:
  "i < 64 * length a \<Longrightarrow> bit (limbs_val a) i \<longleftrightarrow> bit (a ! (i div 64)) (i mod 64)"
proof (induction a arbitrary: i)
  case (Cons x a)
  show ?case
  proof (cases "i < 64")
    case True
    have "take_bit 64 (limbs_val (x # a)) = unat x"
      unfolding take_bit_eq_mod limb_base_def [symmetric] by simp
    then have "bit (limbs_val (x # a)) i \<longleftrightarrow> bit (unat x) i"
      using True by (metis bit_take_bit_iff)
    then show ?thesis
      using True by (simp add: bit_unsigned_iff)
  next
    case False
    then obtain j where j: "i = 64 + j" by (metis le_iff_add not_le)
    have "drop_bit 64 (limbs_val (x # a)) = limbs_val a"
      unfolding drop_bit_eq_div limb_base_def [symmetric] by simp
    then have "bit (limbs_val (x # a)) i \<longleftrightarrow> bit (limbs_val a) j"
      unfolding j by (metis bit_drop_bit_eq comp_apply)
    moreover have "(64 + j) div 64 = Suc (j div 64)"
      using div_add_self1 [of 64 j] by simp
    ultimately show ?thesis
      using Cons by (simp add: j)
  qed
qed simp

lemma and_1_drop_bit: "1 AND drop_bit m (x :: limb) \<noteq> 0 \<longleftrightarrow> bit x m"
  by (simp add: and.commute [of 1] and_one_eq bit_iff_odd_drop_bit flip: odd_iff_mod_2_eq_one)

lemma z2_get_bit_eq [z2_simps]:
  "length a = z2_N_WORDS K \<Longrightarrow> i < K \<Longrightarrow> z2_get_bit K a i \<longleftrightarrow> bit (limbs_val a) i"
  using bit_limbs_val [of i a] z2_N_WORDS_ge [of K]
  by (simp add: z2_get_bit_def N_LIMB_BITS_def and_1_drop_bit)

lemma z2_get_bit_high: "K \<le> i \<Longrightarrow> \<not> z2_get_bit K a i"
  by (simp add: z2_get_bit_def)

subsection \<open>Shifts\<close>

lemma limb_shift_left_val:
  assumes "length a = n"
  shows "limbs_val (map (\<lambda>j. if s \<le> j then a ! (j - s) else 0) [0..<n]) = (limb_base ^ s * limbs_val a) mod limb_base ^ n"
proof (cases "s \<le> n")
  case True
  have "map (\<lambda>j. if s \<le> j then a ! (j - s) else 0) [0..<n] = replicate s 0 @ take (n - s) a"
    using True assms by (intro nth_equalityI) (auto simp: nth_append)
  moreover have "limb_base ^ n = limb_base ^ s * limb_base ^ (n - s)"
    using True by (simp flip: power_add)
  ultimately show ?thesis
    using assms by (simp only: limbs_val_append limbs_val_take limbs_val_replicate_0 length_replicate
        mult_mod_right add_0)
next
  case False
  then have "map (\<lambda>j. if s \<le> j then a ! (j - s) else 0) [0..<n] = replicate n 0"
    by (intro nth_equalityI) auto
  moreover have "limb_base ^ n dvd limb_base ^ s * limbs_val a"
    using False by (intro dvd_mult2 le_imp_power_dvd) simp
  ultimately show ?thesis by simp
qed

lemma limb_shift_right_val:
  assumes "length a = n"
  shows "limbs_val (map (\<lambda>j. if j < n - s then a ! (j + s) else 0) [0..<n]) = limbs_val a div limb_base ^ s"
proof -
  have "map (\<lambda>j. if j < n - s then a ! (j + s) else 0) [0..<n] = drop s a @ replicate (min s n) 0"
  proof (rule nth_equalityI)
    fix i assume "i < length (map (\<lambda>j. if j < n - s then a ! (j + s) else 0) [0..<n])"
    moreover from this have "i - (n - s) < min s n" if "n - s \<le> i"
      using that by (auto simp: min_def)
    ultimately show "map (\<lambda>j. if j < n - s then a ! (j + s) else 0) [0..<n] ! i = (drop s a @ replicate (min s n) 0) ! i"
      using assms by (simp add: nth_append add.commute)
  qed (use assms in auto)
  then show ?thesis
    by (simp add: limbs_val_append limbs_val_drop)
qed

lemma unat_push_bit_limb: "unat (push_bit n x :: limb) = (unat x * 2 ^ n) mod limb_base"
proof -
  have "unat (push_bit n x) = take_bit LENGTH(64) (push_bit n (unat x))"
    by (rule unsigned_push_bit_eq)
  then show ?thesis
    unfolding take_bit_eq_mod push_bit_eq_mult limb_base_def by simp
qed

lemma unat_drop_bit_limb: "unat (drop_bit n x :: limb) = unat x div 2 ^ n"
proof -
  have "unat (drop_bit n x) = drop_bit n (take_bit LENGTH(64) (unat x))"
    by (rule unsigned_drop_bit_eq)
  also have "take_bit LENGTH(64) (unat x) = unat x"
    using unsigned_less [of x, where 'a = nat] by (intro take_bit_nat_eq_self) simp
  finally show ?thesis
    unfolding drop_bit_eq_div .
qed

context gmp_mpn begin

lemma z2_shl_val:
  assumes "0 < K" "length a = z2_N_WORDS K"
  shows "limbs_val (z2_shl G K a i) = (limbs_val a * 2 ^ i) mod 2 ^ K" and "z2_wf K (z2_shl G K a i)"
proof -
  define s where "s = i div 64"
  define r where "r = i mod 64"
  define n where "n = z2_N_WORDS K"
  define l where "l = map (\<lambda>j. if s \<le> j then a ! (j - s) else 0) [0..<n]"
  define m where "m = (if n = 1 then l[0 := push_bit r (l ! 0)]
    else if 0 < r then mpn_lshift G l r else l)"
  have r: "r < 64" and i: "i = 64 * s + r" by (simp_all add: r_def s_def)
  have len: "length l = n" by (simp add: l_def)
  have l: "limbs_val l = (limb_base ^ s * limbs_val a) mod limb_base ^ n"
    using limb_shift_left_val [of a n s] assms by (simp add: l_def n_def)
  have m: "length m = n \<and> limbs_val m = (limbs_val l * 2 ^ r) mod limb_base ^ n"
  proof (cases "n = 1")
    case True
    then obtain x where "l = [x]" using len by (cases l) auto
    with True show ?thesis by (simp add: m_def unat_push_bit_limb)
  next
    case False
    then show ?thesis
      using len r lshift_length [of r l] lshift_val [of r l] limbs_val_less [of l]
      by (simp add: m_def)
  qed
  have eq: "z2_shl G K a i = z2_normalize K m"
    unfolding z2_shl_def z2_normalize_def N_LIMB_BITS_def Let_def m_def l_def n_def r_def s_def ..
  have "limbs_val (z2_shl G K a i) = ((limb_base ^ s * limbs_val a) mod limb_base ^ n * 2 ^ r) mod limb_base ^ n mod 2 ^ K"
    using m assms by (simp add: eq z2_normalize_val n_def l)
  also have "\<dots> = (limb_base ^ s * limbs_val a * 2 ^ r) mod 2 ^ K"
    by (simp only: mod_mult_left_eq n_def mod_limbs_mod)
  also have "limb_base ^ s * limbs_val a * 2 ^ r = limbs_val a * 2 ^ i"
    by (simp add: i limb_base_power power_add)
  finally show "limbs_val (z2_shl G K a i) = (limbs_val a * 2 ^ i) mod 2 ^ K" .
  show "z2_wf K (z2_shl G K a i)"
    using m assms by (simp add: eq z2_wf_normalize n_def)
qed

lemma z2_shr_val:
  assumes "0 < K" "length a = z2_N_WORDS K"
  shows "limbs_val (z2_shr G K a i) = limbs_val a div 2 ^ i" and "length (z2_shr G K a i) = z2_N_WORDS K"
proof -
  define s where "s = i div 64"
  define r where "r = i mod 64"
  define n where "n = z2_N_WORDS K"
  define l where "l = map (\<lambda>j. if j < n - s then a ! (j + s) else 0) [0..<n]"
  have r: "r < 64" and i: "i = 64 * s + r" by (simp_all add: r_def s_def)
  have len: "length l = n" by (simp add: l_def)
  have l: "limbs_val l = limbs_val a div limb_base ^ s"
    using limb_shift_right_val [of a n s] assms by (simp add: l_def n_def)
  have eq: "z2_shr G K a i = (if n = 1 then l[0 := drop_bit r (l ! 0)]
      else if 0 < r then mpn_rshift G l r else l)"
    unfolding z2_shr_def N_LIMB_BITS_def Let_def l_def n_def r_def s_def ..
  have "length (z2_shr G K a i) = n \<and> limbs_val (z2_shr G K a i) = limbs_val l div 2 ^ r"
  proof (cases "n = 1")
    case True
    then obtain x where "l = [x]" using len by (cases l) auto
    with True show ?thesis
      by (simp add: eq unat_drop_bit_limb)
  next
    case False
    then show ?thesis
      using len r rshift_length [of r l] rshift_val [of r l]
      by (simp add: eq)
  qed
  moreover have "limbs_val l div 2 ^ r = limbs_val a div 2 ^ i"
    by (simp add: l i limb_base_power power_add div_mult2_eq)
  ultimately show "limbs_val (z2_shr G K a i) = limbs_val a div 2 ^ i" "length (z2_shr G K a i) = z2_N_WORDS K"
    by (simp_all add: n_def)
qed

lemma z2_shr_wf: "0 < K \<Longrightarrow> z2_wf K a \<Longrightarrow> z2_wf K (z2_shr G K a i)"
  using z2_shr_val [of K a i] by (auto simp: z2_wf_def intro: order.strict_trans1 [OF div_le_dividend])

lemma z2_equal_iff: "length a = length b \<Longrightarrow> z2_equal G a b \<longleftrightarrow> a = b"
  using cmp [of a b] limbs_val_inject [of a b] sgn_0_0 [of "mpn_cmp G a b"]
    sgn_0_0 [of "int (limbs_val a) - int (limbs_val b)"]
  by (simp add: z2_equal_def)

end

subsection \<open>A reference for GMP\<close>

text \<open>Limb routines that satisfy GMP's contract, for concrete instances.\<close>

definition limbs_of_nat :: "nat \<Rightarrow> nat \<Rightarrow> limb list" where
  "limbs_of_nat n v = map (\<lambda>i. of_nat (v div limb_base ^ i)) [0..<n]"

definition gmp_ref :: gmp where
  "gmp_ref = \<lparr>mpn_lshift = (\<lambda>xs n. limbs_of_nat (length xs) (limbs_val xs * 2 ^ n)),
     mpn_rshift = (\<lambda>xs n. limbs_of_nat (length xs) (limbs_val xs div 2 ^ n)),
     mpn_and_n = map2 (AND), mpn_xor_n = map2 (XOR), mpn_ior_n = map2 (OR),
     mpn_cmp = (\<lambda>xs ys. sgn (int (limbs_val xs) - int (limbs_val ys)))\<rparr>"

lemma length_limbs_of_nat [simp]: "length (limbs_of_nat n v) = n"
  by (simp add: limbs_of_nat_def)

lemma limbs_of_nat_val [simp]: "limbs_val (limbs_of_nat n v) = v mod limb_base ^ n"
proof (induction n arbitrary: v)
  case (Suc n)
  have upt: "[0..<Suc n] = 0 # map Suc [0..<n]"
    by (simp add: map_Suc_upt upt_conv_Cons del: upt_Suc)
  have "limbs_of_nat (Suc n) v = of_nat v # limbs_of_nat n (v div limb_base)"
    unfolding limbs_of_nat_def upt by (simp add: div_mult2_eq)
  then have "limbs_val (limbs_of_nat (Suc n) v) = v mod limb_base + limb_base * (v div limb_base mod limb_base ^ n)"
    by (simp add: Suc unat_of_nat_limb)
  then show ?case by (simp add: mod_mult2_eq add.commute)
qed (simp add: limbs_of_nat_def)

interpretation gref: gmp_mpn gmp_ref
proof
  fix xs :: "limb list" and n :: nat
  have "limbs_val xs div 2 ^ n < limb_base ^ length xs"
    using limbs_val_less [of xs] by (rule order.strict_trans1 [OF div_le_dividend])
  then show "limbs_val (mpn_rshift gmp_ref xs n) = limbs_val xs div 2 ^ n"
    by (simp add: gmp_ref_def)
qed (simp_all add: gmp_ref_def)

end
