(* ===== verification/Z2kRing.thy ===== *)
theory Z2kRing
  imports Z2kBits
begin

section \<open>Z2 as a ring: constants, inverse, square root, packing\<close>

text \<open>
  The constants, Newton-free bitwise inverse and square root of \<open>Math/Z2k.hpp\<close>, packing through
  the stream interface, and the two abstractions a user of the class relies on: the contract
  \<open>residue_ring\<close> (normal form kept, values modulo \<open>m\<close>), interpreted on the limb code for every
  \<open>K\<close>, and the map \<open>z2_word\<close> to machine words of width \<open>K\<close>, a ring isomorphism.
\<close>

subsection \<open>Constants\<close>

lemma length_z2_of_long [simp]: "0 < K \<Longrightarrow> length (z2_of_long K x) = z2_N_WORDS K"
  using z2_N_WORDS_pos [of K] by (simp add: z2_of_long_def Let_def Suc_leI)

lemma z2_of_int_bool [z2_simps]:
  assumes "0 < K"
  shows "limbs_val (z2_of_int K (of_bool b)) = of_bool b" "z2_wf K (z2_of_int K (of_bool b))"
proof -
  have "1 < (2 :: nat) ^ K" using assms by (intro one_less_power) simp_all
  moreover have "\<not> scast (of_bool b :: 32 word) <s (0 :: 64 word)"
    by (cases b) (simp_all add: word_sless_alt)
  moreover have "unat (scast (of_bool b :: 32 word) :: 64 word) = of_bool b"
    by (cases b) simp_all
  ultimately show "limbs_val (z2_of_int K (of_bool b)) = of_bool b"
    using assms by (simp add: z2_of_int_def z2_normalize_val z2_of_long_def z2_of_limb_val)
  show "z2_wf K (z2_of_int K (of_bool b))"
    using assms by (simp add: z2_of_int_def z2_wf_normalize)
qed

lemma z2_of_int_1 [z2_simps]:
  "0 < K \<Longrightarrow> limbs_val (z2_of_int K 1) = 1" "0 < K \<Longrightarrow> z2_wf K (z2_of_int K 1)"
  using z2_of_int_bool [of K True] by simp_all

subsection \<open>Inverse\<close>

lemma bit_mod_2_power: "i < K \<Longrightarrow> bit (x mod 2 ^ K :: int) i \<longleftrightarrow> bit x i"
  by (simp flip: take_bit_eq_mod add: bit_take_bit_iff)

lemma bit_multiple: "bit (2 ^ i * q :: int) i \<longleftrightarrow> odd q"
  by (simp add: bit_iff_odd)

lemma bit_multiple_less: "j < i \<Longrightarrow> 2 ^ i dvd (x :: int) \<Longrightarrow> \<not> bit x j"
  by (auto simp: bit_iff_odd power_add dest!: less_imp_Suc_add elim!: dvdE)

lemma first_limb_mod_8:
  assumes "0 < length a"
  shows "(a ! 0) mod 8 = 1 \<longleftrightarrow> limbs_val a mod 8 = 1"
proof -
  obtain x xs where a: "a = x # xs" using assms by (cases a) auto
  have "limb_base * limbs_val xs mod 8 = 0"
    by (simp add: limb_base_def mod_mult_left_eq [symmetric])
  then have "limbs_val a mod 8 = unat x mod 8"
    by (simp add: a mod_add_right_eq [symmetric])
  then show ?thesis by (simp add: a word_unat_eq_iff unat_mod)
qed

text \<open>One more bit of the inverse: the residual \<open>1 - A r\<close> gains a factor of two.\<close>

lemma invert_step_arith:
  fixes A r :: int
  assumes "odd A" "2 ^ i dvd 1 - A * r"
  shows "2 ^ Suc i dvd 1 - A * (r + of_bool (bit (1 - A * r) i) * 2 ^ i)"
proof -
  obtain q where q: "1 - A * r = 2 ^ i * q" using assms(2) by blast
  have "1 - A * (r + of_bool (bit (1 - A * r) i) * 2 ^ i) = 2 ^ i * (q - A * of_bool (odd q))"
    unfolding q bit_multiple using q by (simp add: algebra_simps)
  moreover have "even (q - A * of_bool (odd q))"
    using assms(1) by simp
  ultimately show ?thesis
    by (simp add: mult_dvd_mono mult.commute)
qed

text \<open>One more bit of the square root: the residual \<open>A - r\<^sup>2\<close> gains a factor of two.\<close>

lemma sqrRoot_step_arith:
  fixes A r :: int
  assumes "odd r" "2 ^ max 3 (Suc i) dvd A - r * r"
  defines "r' \<equiv> r + of_bool (bit (A - r * r) (Suc i)) * 2 ^ i"
  shows "odd r' \<and> 2 ^ max 3 (Suc (Suc i)) dvd A - r' * r'"
proof (cases "i < 2")
  case True
  then have "\<not> bit (A - r * r) (Suc i)"
    using assms(2) by (intro bit_multiple_less [where i = 3]) simp_all
  moreover have "max 3 (Suc (Suc i)) = 3" "max 3 (Suc i) = 3" using True by simp_all
  ultimately show ?thesis using assms by simp
next
  case False
  then obtain j where j: "i = j + 2" by (metis add.commute le_Suc_ex not_less)
  have "(2 :: int) ^ Suc i dvd A - r * r"
    using assms(2) by (rule dvd_trans [rotated]) (simp add: le_imp_power_dvd)
  then obtain q where q: "A - r * r = 2 ^ Suc i * q" by blast
  define b :: int where "b = of_bool (odd q)"
  have r': "r' = r + b * 2 ^ i"
    unfolding r'_def q bit_multiple b_def ..
  have "A - r' * r' = 2 ^ Suc i * (q - r * b - 2 ^ Suc j * (b * b))"
    using q unfolding r' by (simp add: algebra_simps j power_add)
  moreover have "even (q - r * b - 2 ^ Suc j * (b * b))"
    using assms(1) by (simp add: b_def)
  ultimately have "2 ^ Suc i * 2 dvd A - r' * r'"
    by (simp only:) (rule mult_dvd_mono, simp_all)
  moreover have "max 3 (Suc (Suc i)) = Suc (Suc i)" using False by simp
  moreover have "odd r'" using assms(1) by (simp add: r' j)
  ultimately show ?thesis by (simp add: mult.commute)
qed

context gmp_mpn begin

lemma z2_shl_bit_val:
  assumes "i < K"
  shows "limbs_val (z2_shl G K (z2_of_int K (of_bool b)) i) = of_bool b * 2 ^ i"
    "length (z2_shl G K (z2_of_int K (of_bool b)) i) = z2_N_WORDS K"
proof -
  have "of_bool b * (2 :: nat) ^ i < 2 ^ K" using assms by simp
  then show "limbs_val (z2_shl G K (z2_of_int K (of_bool b)) i) = of_bool b * 2 ^ i"
    "length (z2_shl G K (z2_of_int K (of_bool b)) i) = z2_N_WORDS K"
    using assms z2_shl_val [of K "z2_of_int K (of_bool b)" i] z2_of_int_bool [of K b]
    by (auto simp: z2_wf_def)
qed

text \<open>The step both loops share: add bit \<open>j\<close> of \<open>x - a \<cdot> y\<close> at position \<open>i\<close> of \<open>res\<close>.\<close>

lemma z2_bit_step:
  assumes K: "0 < K" and len: "length x = z2_N_WORDS K" "length y = z2_N_WORDS K" "length z = z2_N_WORDS K"
    "length res = z2_N_WORDS K" and ij: "i < K" "j < K"
  shows "\<exists>p r. z2_Mul K K K False y z = Some p
     \<and> z2_add_assign K res (z2_shl G K (z2_of_int K (of_bool (z2_get_bit K (z2_sub K x p) j))) i) = r
     \<and> z2_wf K r
     \<and> int (limbs_val r) = (int (limbs_val res) + of_bool (bit (int (limbs_val x) - int (limbs_val y) * int (limbs_val z)) j) * 2 ^ i) mod 2 ^ K"
proof -
  obtain p where p: "z2_Mul K K K False y z = Some p" "z2_wf K p"
    "limbs_val p = (limbs_val y * limbs_val z) mod 2 ^ K"
    using z2_Mul_val [OF K K K len(2,3)] by auto
  have sub: "length (z2_sub K x p) = z2_N_WORDS K"
    "int (limbs_val (z2_sub K x p)) = (int (limbs_val x) - int (limbs_val y) * int (limbs_val z)) mod 2 ^ K"
    using z2_sub_val [OF K len(1) z2_wfD(1) [OF p(2)]] p(3)
    by (auto simp: zmod_int mod_simps)
  have "z2_get_bit K (z2_sub K x p) j \<longleftrightarrow> bit (int (limbs_val (z2_sub K x p))) j"
    using z2_get_bit_eq [OF sub(1) ij(2)] by (simp add: bit_of_nat_iff_bit)
  then have bit: "z2_get_bit K (z2_sub K x p) j
      \<longleftrightarrow> bit (int (limbs_val x) - int (limbs_val y) * int (limbs_val z)) j"
    by (simp only: sub(2) bit_mod_2_power [OF ij(2)])
  show ?thesis
    using p(1) z2_add_val [OF K len(4) z2_shl_bit_val(2) [OF ij(1)]]
      z2_add_assign_eq [OF K len(4) z2_shl_bit_val(2) [OF ij(1)]]
    by (auto simp: bit z2_shl_bit_val(1) [OF ij(1)] zmod_int)
qed

lemma dvd_diff_mod: "i \<le> K \<Longrightarrow> (2 :: int) ^ i dvd x - A * (r mod 2 ^ K) \<longleftrightarrow> 2 ^ i dvd x - A * r"
proof -
  assume "i \<le> K"
  then have "(2 :: int) ^ i dvd A * (2 ^ K * (r div 2 ^ K))"
    by (simp add: le_imp_power_dvd)
  moreover have "x - A * (r mod 2 ^ K) = x - A * r + A * (2 ^ K * (r div 2 ^ K))"
    by (simp add: minus_mult_div_eq_mod [symmetric] algebra_simps)
  ultimately show ?thesis by (metis dvd_add_left_iff)
qed

lemma z2_invert_val:
  assumes K: "0 < K" and len: "length a = z2_N_WORDS K" and "odd (limbs_val a)"
  shows "\<exists>r. z2_invert G K a = Inr r \<and> z2_wf K r \<and> (limbs_val a * limbs_val r) mod 2 ^ K = 1"
proof -
  let ?A = "int (limbs_val a)"
  define P where "P i res \<longleftrightarrow> (\<exists>r. res = Some r \<and> z2_wf K r \<and> 2 ^ i dvd 1 - ?A * int (limbs_val r))"
    for i and res :: "z2 option"
  have "P K (fold (\<lambda>i res. Option.bind res (z2_invert_step G K a i)) [0..<K] (Some (z2_of_int K 1)))"
  proof (rule fold_invariant_upt)
    show "P 0 (Some (z2_of_int K 1))"
      using K by (simp add: P_def z2_of_int_1)
  next
    fix i res assume i: "i < K" and "P i res"
    then obtain r where r: "res = Some r" "z2_wf K r" "2 ^ i dvd 1 - ?A * int (limbs_val r)"
      by (auto simp: P_def)
    obtain p r' where r': "z2_Mul K K K False a r = Some p"
      "z2_add_assign K r (z2_shl G K (z2_of_int K (of_bool (z2_get_bit K (z2_sub K (z2_of_int K 1) p) i))) i) = r'"
      "z2_wf K r'"
      "int (limbs_val r') = (int (limbs_val r) + of_bool (bit (int (limbs_val (z2_of_int K 1)) - ?A * int (limbs_val r)) i) * 2 ^ i) mod 2 ^ K"
      using z2_bit_step [of K "z2_of_int K 1" a r r i i] K len i r(2) z2_of_int_1(2) [of K]
      by (auto simp: z2_wf_def)
    have "2 ^ Suc i dvd 1 - ?A * int (limbs_val r')"
      unfolding r'(4) using i z2_of_int_1(1) [OF K] invert_step_arith [OF _ r(3)] assms(3)
      by (subst dvd_diff_mod) simp_all
    then show "P (Suc i) (Option.bind res (z2_invert_step G K a i))"
      using r(1) r'(1-3) by (simp add: P_def z2_invert_step_def)
  qed
  then obtain r where r: "fold (\<lambda>i res. Option.bind res (z2_invert_step G K a i)) [0..<K] (Some (z2_of_int K 1)) = Some r"
    "z2_wf K r" "2 ^ K dvd 1 - ?A * int (limbs_val r)"
    by (auto simp: P_def)
  have "z2_get_bit K a 0"
    using z2_get_bit_eq [OF len K] assms(3) by (simp add: bit_0)
  with r(1) have "z2_invert G K a = Inr r"
    by (simp add: z2_invert_def)
  moreover have "int (limbs_val a * limbs_val r) mod 2 ^ K = 1 mod 2 ^ K"
    using r(3) by (metis dvd_minus_iff minus_diff_eq mod_eq_dvd_iff of_nat_mult)
  then have "int ((limbs_val a * limbs_val r) mod 2 ^ K) = int 1"
    using K by (simp add: zmod_int)
  then have "(limbs_val a * limbs_val r) mod 2 ^ K = 1"
    by (simp only: of_nat_eq_iff)
  ultimately show ?thesis using r(2) by auto
qed

lemma z2_invert_even:
  "0 < K \<Longrightarrow> length a = z2_N_WORDS K \<Longrightarrow> even (limbs_val a) \<Longrightarrow> z2_invert G K a = Inl division_by_zero"
  using z2_get_bit_eq [of a K 0] by (simp add: z2_invert_def bit_0)

lemma z2_sqrRoot_val:
  assumes K: "0 < K" and len: "length a = z2_N_WORDS K" and "limbs_val a mod 8 = 1"
  shows "\<exists>r. z2_sqrRoot G K a = Inr r \<and> z2_wf K r
    \<and> (limbs_val r * limbs_val r) mod 2 ^ K = limbs_val a mod 2 ^ K"
proof -
  let ?A = "int (limbs_val a)"
  define P where "P i res \<longleftrightarrow> (\<exists>r s. res = Some r \<and> z2_wf K r \<and> int (limbs_val r) mod 2 ^ K = s mod 2 ^ K
      \<and> odd s \<and> 2 ^ max 3 (Suc i) dvd ?A - s * s)"
    for i and res :: "z2 option"
  have "P (K - 1) (fold (\<lambda>i res. Option.bind res (z2_sqrRoot_step G K a i)) [0..<K - 1] (Some (z2_of_int K 1)))"
  proof (rule fold_invariant_upt)
    have "int (limbs_val a) mod 8 = int 1"
      using arg_cong [OF assms(3), of int] by (simp add: zmod_int)
    then have "8 dvd ?A - 1" using mod_eq_dvd_iff [of ?A 8 1] by simp
    then have "2 ^ max 3 (Suc 0) dvd ?A - 1 * 1" by simp
    then show "P 0 (Some (z2_of_int K 1))"
      using K z2_of_int_1 [OF K] unfolding P_def
      by (intro exI [where x = "z2_of_int K 1"] exI [where x = 1]) simp_all
  next
    fix i res assume i: "i < K - 1" and "P i res"
    then obtain r s where r: "res = Some r" "z2_wf K r" "int (limbs_val r) mod 2 ^ K = s mod 2 ^ K"
      "odd s" "2 ^ max 3 (Suc i) dvd ?A - s * s"
      by (auto simp: P_def)
    from i have iK: "i < K" "Suc i < K" by simp_all
    obtain p r' where r': "z2_Mul K K K False r r = Some p"
      "z2_add_assign K r (z2_shl G K (z2_of_int K (of_bool (z2_get_bit K (z2_sub K a p) (i + 1)))) i) = r'"
      "z2_wf K r'"
      "int (limbs_val r') = (int (limbs_val r) + of_bool (bit (?A - int (limbs_val r) * int (limbs_val r)) (Suc i)) * 2 ^ i) mod 2 ^ K"
      using z2_bit_step [of K a r r r i "Suc i"] K len iK r(2)
      by (auto simp: z2_wf_def)
    have "(?A - int (limbs_val r) * int (limbs_val r)) mod 2 ^ K = (?A - s * s) mod 2 ^ K"
      using r(3) by (intro mod_diff_cong mod_mult_cong) simp_all
    then have bit: "bit (?A - int (limbs_val r) * int (limbs_val r)) (Suc i) \<longleftrightarrow> bit (?A - s * s) (Suc i)"
      using bit_mod_2_power [OF iK(2)] by metis
    have "int (limbs_val r') mod 2 ^ K = (s + of_bool (bit (?A - s * s) (Suc i)) * 2 ^ i) mod 2 ^ K"
      unfolding r'(4) bit mod_mod_trivial using r(3) by (intro mod_add_cong) simp_all
    then show "P (Suc i) (Option.bind res (z2_sqrRoot_step G K a i))"
      using r(1) r'(1-3) sqrRoot_step_arith [OF r(4,5)] unfolding P_def
      by (intro exI [where x = r'] exI [where x = "s + of_bool (bit (?A - s * s) (Suc i)) * 2 ^ i"])
        (simp add: z2_sqrRoot_step_def)
  qed
  then obtain r s where r: "fold (\<lambda>i res. Option.bind res (z2_sqrRoot_step G K a i)) [0..<K - 1] (Some (z2_of_int K 1)) = Some r"
    "z2_wf K r" "int (limbs_val r) mod 2 ^ K = s mod 2 ^ K" "2 ^ max 3 (Suc (K - 1)) dvd ?A - s * s"
    by (auto simp: P_def)
  have "(2 :: int) ^ K dvd ?A - s * s"
    using r(4) K by (intro dvd_trans [OF le_imp_power_dvd r(4)]) simp
  then have "?A mod 2 ^ K = s * s mod 2 ^ K"
    by (simp add: mod_eq_dvd_iff)
  also have "\<dots> = int (limbs_val r) * int (limbs_val r) mod 2 ^ K"
    using r(3) by (intro mod_mult_cong) simp_all
  finally have "int (limbs_val a mod 2 ^ K) = int ((limbs_val r * limbs_val r) mod 2 ^ K)"
    by (simp add: zmod_int)
  then have "(limbs_val r * limbs_val r) mod 2 ^ K = limbs_val a mod 2 ^ K"
    by (simp only: of_nat_eq_iff)
  moreover have "(a ! 0) mod 8 = 1"
    using first_limb_mod_8 [of a] len z2_N_WORDS_pos [OF K] assms(3) by simp
  ultimately show ?thesis
    using r(1,2) by (simp add: z2_sqrRoot_def)
qed

text \<open>Any other input aborts in the assertion.\<close>

lemma z2_sqrRoot_other:
  assumes "0 < K" "length a = z2_N_WORDS K" "limbs_val a mod 8 \<noteq> 1"
  shows "z2_sqrRoot G K a = Inl assertion_failed"
  using first_limb_mod_8 [of a] assms z2_N_WORDS_pos [of K] by (simp add: z2_sqrRoot_def)

end

subsection \<open>Packing\<close>

lemma length_z2_bytes: "z2_N_BYTES K \<le> 8 * z2_N_WORDS K"
  by (rule z2_N_BYTES_bounds)

lemma limbs_memcpy_take [simp]: "limbs_memcpy a (take n src @ rest) n = limbs_memcpy a src n" if "n \<le> length src"
  using that by (simp add: limbs_memcpy_def)

lemma z2_pack_extends:
  "os_writable os \<Longrightarrow> \<exists>os'. z2_pack K os a = Inr os' \<and> os_extends os (take (z2_N_BYTES K) (bytes_of_limbs a)) os'"
  by (simp add: z2_pack_def os_append_extends)

text \<open>What \<open>get<Z2<K>>\<close> reads: the little-endian value of the next \<open>N_BYTES\<close> bytes.\<close>

lemma z2_get_unread:
  assumes "os_ready os" "z2_N_BYTES K \<le> length (os_unread os)"
  shows "\<exists>a. z2_get K os = Inr (a, os_skip (z2_N_BYTES K) os) \<and> length a = z2_N_WORDS K
    \<and> limbs_val a = le_val (take (z2_N_BYTES K) (os_unread os))"
proof -
  let ?n = "z2_N_BYTES K"
  have "os_consume os ?n = Inr (take ?n (os_unread os), os_skip ?n os)"
    using assms os_consume_unread [of os "take ?n (os_unread os)" "drop ?n (os_unread os)" ?n] by simp
  then show ?thesis
    using assms limbs_memcpy_zero_val [OF length_z2_bytes, of K "take ?n (os_unread os)"]
    by (simp add: z2_get_def z2_unpack_def z2_zero_def le_val_take)
qed

lemma z2_get_short:
  "os_ready os \<Longrightarrow> length (os_unread os) < z2_N_BYTES K \<Longrightarrow> os_ptr os + z2_N_BYTES K < 2 ^ 64
    \<Longrightarrow> z2_get K os = Inl insufficient_data"
  by (simp add: z2_get_def z2_unpack_def os_consume_short)

interpretation z2_codec: codec "z2_pack K" "z2_get K" "\<lambda>a. take (z2_N_BYTES K) (bytes_of_limbs a)" "z2_wf K" for K
proof
  fix a os rest
  assume a: "z2_wf K a"
  show "\<exists>os'. z2_pack K os a = Inr os' \<and> os_extends os (take (z2_N_BYTES K) (bytes_of_limbs a)) os'"
    if "os_writable os"
    using that by (rule z2_pack_extends)
  have len: "length (take (z2_N_BYTES K) (bytes_of_limbs a)) = z2_N_BYTES K"
    using a length_z2_bytes [of K] by (auto simp: z2_wf_def)
  { assume os: "os_ready os" "os_unread os = take (z2_N_BYTES K) (bytes_of_limbs a) @ rest"
    then obtain b where b: "z2_get K os = Inr (b, os_skip (z2_N_BYTES K) os)" "length b = z2_N_WORDS K"
      "limbs_val b = le_val (take (z2_N_BYTES K) (os_unread os))"
      using z2_get_unread [of os K] len by auto
    have "limbs_val b = limbs_val a"
      using b(3) os(2) len z2_wf_octets [OF a] by (simp add: le_val_take)
    then have "b = a"
      using a b(2) by (simp add: limbs_val_inject z2_wf_def)
    with b len show "\<exists>os'. z2_get K os = Inr (a, os')
        \<and> os_advanced (length (take (z2_N_BYTES K) (bytes_of_limbs a))) os os'"
      by simp }
qed

lemma length_enc_vector_z2:
  "list_all (z2_wf K) v \<Longrightarrow>
    length (enc_vector (\<lambda>a. take (z2_N_BYTES K) (bytes_of_limbs a)) v) = 8 + length v * z2_N_BYTES K"
  using length_z2_bytes [of K] by (induction v) (auto simp: enc_vector_def z2_wfD min_def)

subsection \<open>The contract of the class\<close>

locale residue_ring =
  fixes m :: nat
    and wf :: "'a \<Rightarrow> bool"
    and val :: "'a \<Rightarrow> nat"
    and zero :: 'a
    and add sub :: "'a \<Rightarrow> 'a \<Rightarrow> 'a"
    and mul :: "'a \<Rightarrow> 'a \<Rightarrow> 'a option"
  assumes val_less: "wf a \<Longrightarrow> val a < m"
    and val_inject: "wf a \<Longrightarrow> wf b \<Longrightarrow> val a = val b \<Longrightarrow> a = b"
    and zero_wf: "wf zero" and zero_val: "val zero = 0"
    and add_wf: "wf a \<Longrightarrow> wf b \<Longrightarrow> wf (add a b)"
    and add_val: "wf a \<Longrightarrow> wf b \<Longrightarrow> val (add a b) = (val a + val b) mod m"
    and sub_wf: "wf a \<Longrightarrow> wf b \<Longrightarrow> wf (sub a b)"
    and sub_val: "wf a \<Longrightarrow> wf b \<Longrightarrow> int (val (sub a b)) = (int (val a) - int (val b)) mod int m"
    and mul_ok: "wf a \<Longrightarrow> wf b \<Longrightarrow> \<exists>r. mul a b = Some r \<and> wf r \<and> val r = (val a * val b) mod m"
begin

lemma add_comm: "wf a \<Longrightarrow> wf b \<Longrightarrow> add a b = add b a"
  by (intro val_inject) (simp_all add: add_wf add_val add.commute)

lemma add_assoc: "wf a \<Longrightarrow> wf b \<Longrightarrow> wf c \<Longrightarrow> add (add a b) c = add a (add b c)"
  by (intro val_inject) (simp_all add: add_wf add_val mod_simps add.assoc)

lemma add_zero: "wf a \<Longrightarrow> add a zero = a"
  by (intro val_inject) (simp_all add: add_wf add_val zero_wf zero_val val_less)

lemma add_sub_cancel:
  assumes "wf a" "wf b"
  shows "sub (add a b) b = a" "add (sub a b) b = a"
proof -
  have "int (val (sub (add a b) b)) = int (val a)"
    using assms val_less [OF assms(1)] by (simp add: add_wf sub_val add_val zmod_int mod_simps)
  then show "sub (add a b) b = a"
    using assms by (intro val_inject) (simp_all add: add_wf sub_wf)
  have "int (val (add (sub a b) b)) = int (val a)"
    using assms val_less [OF assms(1)] by (simp add: add_val sub_wf zmod_int sub_val mod_simps)
  then show "add (sub a b) b = a"
    using assms by (intro val_inject) (simp_all add: add_wf sub_wf)
qed

lemma mul_comm:
  assumes "wf a" "wf b" shows "mul a b = mul b a"
proof -
  obtain r s where "mul a b = Some r" "wf r" "val r = (val a * val b) mod m"
    "mul b a = Some s" "wf s" "val s = (val b * val a) mod m"
    using mul_ok [OF assms] mul_ok [OF assms(2,1)] by auto
  then show ?thesis using val_inject [of r s] by (simp add: mult.commute)
qed

lemma mul_add_distrib:
  assumes "wf a" "wf b" "wf c"
  shows "\<exists>p q. mul a c = Some p \<and> mul b c = Some q \<and> mul (add a b) c = Some (add p q)"
proof -
  obtain p q r where "mul a c = Some p" "wf p" "val p = (val a * val c) mod m"
    "mul b c = Some q" "wf q" "val q = (val b * val c) mod m"
    "mul (add a b) c = Some r" "wf r" "val r = (val (add a b) * val c) mod m"
    using mul_ok [OF assms(1,3)] mul_ok [OF assms(2,3)] mul_ok [OF add_wf [OF assms(1,2)] assms(3)] by auto
  then show ?thesis
    using assms val_inject [of r "add p q"]
    by (simp add: add_wf add_val mod_simps algebra_simps)
qed

lemma sum_val:
  assumes "list_all wf xs" "wf a"
  shows "wf (foldl add a xs) \<and> val (foldl add a xs) = (val a + sum_list (map val xs)) mod m"
  using assms
proof (induction xs arbitrary: a)
  case (Cons x xs)
  then show ?case
    using Cons.IH [of "add a x"] by (simp add: add_wf add_val mod_simps add.assoc)
qed (simp add: val_less)

end

interpretation z2: residue_ring "2 ^ Suc K" "z2_wf (Suc K)" limbs_val "z2_zero (Suc K)"
  "z2_add (Suc K)" "z2_sub (Suc K)" "z2_mult (Suc K) (Suc K)" for K
proof
  fix a b
  assume "z2_wf (Suc K) a" "z2_wf (Suc K) b"
  then have "length a = z2_N_WORDS (Suc K)" "length b = z2_N_WORDS (Suc K)"
    by (simp_all add: z2_wf_def)
  then show "z2_wf (Suc K) (z2_add (Suc K) a b)" "z2_wf (Suc K) (z2_sub (Suc K) a b)"
    "limbs_val (z2_add (Suc K) a b) = (limbs_val a + limbs_val b) mod 2 ^ Suc K"
    "int (limbs_val (z2_sub (Suc K) a b)) = (int (limbs_val a) - int (limbs_val b)) mod int (2 ^ Suc K)"
    "\<exists>r. z2_mult (Suc K) (Suc K) a b = Some r \<and> z2_wf (Suc K) r \<and> limbs_val r = (limbs_val a * limbs_val b) mod 2 ^ Suc K"
    using z2_add_val [of "Suc K" a b] z2_sub_val [of "Suc K" a b] z2_mult_val [of "Suc K" "Suc K" a b]
    by simp_all
qed (auto simp: z2_wf_inject)

subsection \<open>Words of width \<open>K\<close>\<close>

text \<open>The element as a word of width \<open>K\<close>; on normal forms this is an isomorphism of rings.\<close>

definition z2_word :: "z2 \<Rightarrow> 'k :: len word" where
  "z2_word a = of_nat (limbs_val a)"

lemma z2_word_inject:
  "z2_wf LENGTH('k) a \<Longrightarrow> z2_wf LENGTH('k) b \<Longrightarrow> (z2_word a :: 'k :: len word) = z2_word b \<longleftrightarrow> a = b"
  by (auto simp: z2_word_def word_of_nat_eq_iff take_bit_eq_mod z2_wf_def limbs_val_inject)

lemma unat_z2_word: "unat (z2_word a :: 'k :: len word) = limbs_val a mod 2 ^ LENGTH('k)"
  by (simp add: z2_word_def unat_of_nat)

lemma z2_word_mod: "limbs_val r = n mod 2 ^ LENGTH('k) \<Longrightarrow> (z2_word r :: 'k :: len word) = of_nat n"
  by (simp add: z2_word_def word_of_nat_eq_iff take_bit_eq_mod)

lemma z2_word_zero [simp]: "z2_word (z2_zero K) = 0"
  by (simp add: z2_word_def)

lemma z2_word_add:
  "length a = z2_N_WORDS LENGTH('k) \<Longrightarrow> length b = z2_N_WORDS LENGTH('k) \<Longrightarrow>
    (z2_word (z2_add LENGTH('k) a b) :: 'k :: len word) = z2_word a + z2_word b"
  by (subst z2_word_mod [OF z2_add_val(1)]) (simp_all add: z2_word_def)

lemma z2_word_sub:
  assumes "length a = z2_N_WORDS LENGTH('k)" "length b = z2_N_WORDS LENGTH('k)"
  shows "(z2_word (z2_sub LENGTH('k) a b) :: 'k :: len word) = z2_word a - z2_word b"
proof -
  have "(of_int (int (limbs_val (z2_sub LENGTH('k) a b))) :: 'k word) = of_int (int (limbs_val a) - int (limbs_val b))"
    using z2_sub_val(1) [of "LENGTH('k)" a b] assms by (simp add: word_of_int_eq_iff take_bit_eq_mod del: of_int_of_nat_eq of_int_diff)
  then show ?thesis by (simp add: z2_word_def)
qed

lemma z2_word_mult:
  assumes "length a = z2_N_WORDS LENGTH('k)" "length b = z2_N_WORDS LENGTH('k)"
  shows "\<exists>r. z2_mult LENGTH('k) LENGTH('k) a b = Some r \<and> z2_wf LENGTH('k) r \<and>
    (z2_word r :: 'k :: len word) = z2_word a * z2_word b"
  using z2_mult_val [of "LENGTH('k)" "LENGTH('k)" a b] assms
  by (auto dest!: z2_word_mod simp: z2_word_def)

context gmp_mpn begin

lemma z2_word_shl:
  "length a = z2_N_WORDS LENGTH('k) \<Longrightarrow> (z2_word (z2_shl G LENGTH('k) a i) :: 'k :: len word) = push_bit i (z2_word a)"
  by (subst z2_word_mod [OF z2_shl_val(1)]) (simp_all add: z2_word_def push_bit_eq_mult)

end

subsection \<open>Words on the wire\<close>

text \<open>
  The element of a word, and its \<open>pack\<close> and \<open>get\<close>. Reading takes the value modulo \<open>2 ^ K\<close>: the
  callers add, subtract or multiply what they read, which is the same for the representative
  that \<open>unpack\<close> leaves unmasked.
\<close>

definition z2_of_word :: "'k :: len word \<Rightarrow> z2" where
  "z2_of_word w = limbs_of_nat (z2_N_WORDS LENGTH('k)) (unat w)"

lemma z2_of_word_wf [simp]: "z2_wf LENGTH('k) (z2_of_word (w :: 'k :: len word))"
  and z2_of_word_val [simp]: "limbs_val (z2_of_word (w :: 'k :: len word)) = unat w"
proof -
  have "unat w < 2 ^ LENGTH('k)" using unsigned_less [of w, where 'a = nat] by simp
  moreover from this have "unat w < limb_base ^ z2_N_WORDS LENGTH('k)"
    using order.strict_trans2 [OF _ dvd_imp_le [OF two_power_dvd_limbs [of "LENGTH('k)"] limb_base_pow_pos]] by blast
  ultimately show "z2_wf LENGTH('k) (z2_of_word w)" "limbs_val (z2_of_word w) = unat w"
    by (simp_all add: z2_of_word_def z2_wf_def)
qed

lemma z2_word_of_word [simp]: "z2_word (z2_of_word w) = w"
  by (simp add: z2_word_def)

definition zw_pack :: "octet_stream \<Rightarrow> 'k :: len word \<Rightarrow> octet_stream result" where
  "zw_pack os w = z2_pack LENGTH('k) os (z2_of_word w)"

definition zw_get :: "octet_stream \<Rightarrow> ('k :: len word \<times> octet_stream) result" where
  "zw_get os = bind_result (z2_get LENGTH('k) os) (\<lambda>(a, os). Inr (z2_word a, os))"

lemma take_bytes_of_limbs: "z2_wf K a \<Longrightarrow> take (z2_N_BYTES K) (bytes_of_limbs a) = le_bytes (z2_N_BYTES K) (limbs_val a)"
proof -
  assume a: "z2_wf K a"
  have "length (take (z2_N_BYTES K) (bytes_of_limbs a)) = z2_N_BYTES K"
    using a length_z2_bytes [of K] by (auto simp: z2_wf_def)
  moreover have "le_val (take (z2_N_BYTES K) (bytes_of_limbs a)) = limbs_val a"
    using z2_wf_octets [OF a] by (simp add: le_val_take)
  ultimately show ?thesis by (metis le_bytes_le_val)
qed

interpretation zw_codec: codec "zw_pack :: _ \<Rightarrow> 'k :: len word \<Rightarrow> _" zw_get
  "\<lambda>w. le_bytes (z2_N_BYTES LENGTH('k)) (unat w)" "\<lambda>_. True"
proof
  fix w :: "'k word" and os rest
  let ?K = "LENGTH('k)"
  have enc: "take (z2_N_BYTES ?K) (bytes_of_limbs (z2_of_word w)) = le_bytes (z2_N_BYTES ?K) (unat w)"
    by (simp add: take_bytes_of_limbs)
  show "os_writable os \<Longrightarrow> \<exists>os'. zw_pack os w = Inr os' \<and> os_extends os (le_bytes (z2_N_BYTES ?K) (unat w)) os'"
    using z2_codec.pack_extends [of ?K "z2_of_word w" os] by (simp add: zw_pack_def enc)
  show "os_ready os \<Longrightarrow> os_unread os = le_bytes (z2_N_BYTES ?K) (unat w) @ rest \<Longrightarrow>
      \<exists>os'. zw_get os = Inr (w, os') \<and> os_advanced (length (le_bytes (z2_N_BYTES ?K) (unat w))) os os'"
    using z2_codec.unpack_enc [of ?K "z2_of_word w" os rest] by (auto simp: zw_get_def enc)
qed

text \<open>The converting constructor on words is the zero extension or truncation.\<close>

lemma z2_word_of_z2:
  assumes "z2_wf LENGTH('l) x"
  shows "(z2_word (z2_of_z2 LENGTH('k) LENGTH('l) x) :: 'k :: len word) = ucast (z2_word x :: 'l :: len word)"
proof -
  have "take_bit LENGTH('l) (limbs_val x) = limbs_val x"
    using assms by (intro take_bit_nat_eq_self) auto
  then have "ucast (z2_word x :: 'l word) = (of_nat (limbs_val x) :: 'k word)"
    by (simp add: z2_word_def unsigned_of_nat)
  then show ?thesis
    using z2_of_z2_wf_val [of "LENGTH('k)" "LENGTH('l)" x] assms
    by (simp add: z2_word_mod [where n = "limbs_val x"])
qed

end
