(* ===== verification/Prng.thy ===== *)
theory Prng
  imports Z2kRing
begin

section \<open>The pseudo-random generator (Tools/random)\<close>

text \<open>
  \<open>class PRNG\<close>: AES-128 in counter mode over a buffer of \<open>PIPELINES\<close> blocks. The block cipher
  (the processor's instructions or the tables of \<open>Tools/aes.cpp\<close>) is the argument \<open>E\<close>, a
  function of key and block; the number of pipelines, 8 or 1 depending on the platform, is the
  argument \<open>pl\<close>. Operations that reach \<open>hash\<close> can fail its assertion, so they return a
  result. The lemmas show that the buffered generator is a cursor over one key stream, whatever
  the sizes of the requests, and what the derived samplers return.
\<close>

subsection \<open>State and seeding\<close>

type_synonym block_cipher = "octet list \<Rightarrow> octet list \<Rightarrow> octet list"

definition AES_BLK_SIZE :: nat where
  "AES_BLK_SIZE = 16"

definition SEED_SIZE :: nat where
  "SEED_SIZE = AES_BLK_SIZE"

definition RAND_SIZE :: "nat \<Rightarrow> nat" where
  "RAND_SIZE pl = pl * AES_BLK_SIZE"

record prng =
  pr_seed :: "octet list"
  pr_state :: "octet list"
  pr_random :: "octet list"
  pr_key :: "octet list"
  pr_cnt :: nat
  pr_n_cached_bits :: nat
  pr_cached_bits :: limb
  pr_initialized :: bool

text \<open>The constructor leaves \<open>seed\<close>, \<open>state\<close> and \<open>random\<close> as they are in memory.\<close>

definition prng_new :: "octet list \<Rightarrow> octet list \<Rightarrow> octet list \<Rightarrow> prng" where
  "prng_new seed state random =
     \<lparr>pr_seed = seed, pr_state = state, pr_random = random, pr_key = [], pr_cnt = 0,
      pr_n_cached_bits = 0, pr_cached_bits = 0, pr_initialized = False\<rparr>"

text \<open>Block \<open>i\<close> of a buffer.\<close>

definition aes_block :: "octet list \<Rightarrow> nat \<Rightarrow> octet list" where
  "aes_block buf i = take AES_BLK_SIZE (drop (i * AES_BLK_SIZE) buf)"

definition prng_hash :: "block_cipher \<Rightarrow> nat \<Rightarrow> prng \<Rightarrow> prng result" where
  "prng_hash E pl G =
     (if \<not> pr_initialized G then Inl assertion_failed
      else Inr (G\<lparr>pr_random := concat (map (\<lambda>i. E (pr_key G) (aes_block (pr_state G) i)) [0..<pl]),
                  pr_cnt := 0\<rparr>))"

definition prng_InitSeed :: "block_cipher \<Rightarrow> nat \<Rightarrow> prng \<Rightarrow> prng result" where
  "prng_InitSeed E pl G =
     prng_hash E pl
       (G\<lparr>pr_initialized := True, pr_key := pr_seed G,
          pr_state := concat (map (\<lambda>i. of_nat i # replicate (AES_BLK_SIZE - 1) 0) [0..<pl])\<rparr>)"

definition prng_SetSeed :: "block_cipher \<Rightarrow> nat \<Rightarrow> octet list \<Rightarrow> prng \<Rightarrow> prng result" where
  "prng_SetSeed E pl inp G = prng_InitSeed E pl (G\<lparr>pr_seed := take SEED_SIZE inp\<rparr>)"

text \<open>\<open>ReSeed\<close> takes its seed from the operating system, the argument \<open>entropy\<close>.\<close>

definition prng_ReSeed :: "block_cipher \<Rightarrow> nat \<Rightarrow> octet list \<Rightarrow> prng \<Rightarrow> prng result" where
  "prng_ReSeed E pl entropy G = prng_InitSeed E pl (G\<lparr>pr_seed := take SEED_SIZE entropy\<rparr>)"

text \<open>One counter block: the low word advances by \<open>PIPELINES\<close>, the high word when it becomes zero.\<close>

definition prng_incr_block :: "nat \<Rightarrow> octet list \<Rightarrow> octet list" where
  "prng_incr_block pl b =
     (let s0 = of_nat (le_val (take 8 b)) + of_nat pl :: limb;
          s1 = of_nat (le_val (drop 8 b)) :: limb;
          s1 = (if s0 = 0 then s1 + 1 else s1)
      in le_bytes 8 (unat s0) @ le_bytes 8 (unat s1))"

definition prng_next :: "block_cipher \<Rightarrow> nat \<Rightarrow> prng \<Rightarrow> prng result" where
  "prng_next E pl G =
     prng_hash E pl
       (G\<lparr>pr_state := concat (map (\<lambda>i. prng_incr_block pl (aes_block (pr_state G) i)) [0..<pl])\<rparr>)"

subsection \<open>Bytes\<close>

definition prng_get_uchar :: "block_cipher \<Rightarrow> nat \<Rightarrow> prng \<Rightarrow> (octet \<times> prng) result" where
  "prng_get_uchar E pl G =
     bind_result (if RAND_SIZE pl \<le> pr_cnt G then prng_next E pl G else Inr G)
       (\<lambda>G. Inr (pr_random G ! pr_cnt G, G\<lparr>pr_cnt := pr_cnt G + 1\<rparr>))"

lemma prng_hash_cnt: "prng_hash E pl G = Inr G' \<Longrightarrow> pr_cnt G' = 0"
  by (auto simp: prng_hash_def split: if_splits)

lemma prng_next_cnt: "prng_next E pl G = Inr G' \<Longrightarrow> pr_cnt G' = 0"
  by (auto simp: prng_next_def dest: prng_hash_cnt)

text \<open>
  The copy loop of \<open>get_octets\<close>. The buffer is not empty and \<open>cnt\<close> does not pass its end, or
  the source would read outside it.
\<close>

function (sequential) prng_get_octets ::
  "block_cipher \<Rightarrow> nat \<Rightarrow> prng \<Rightarrow> nat \<Rightarrow> (octet list \<times> prng) result" where
  "prng_get_octets E pl G len =
     (if len = 0 then Inr ([], G)
      else if pl = 0 \<or> RAND_SIZE pl < pr_cnt G then Inl undefined_behaviour
      else (let step = min len (RAND_SIZE pl - pr_cnt G);
                bs = take step (drop (pr_cnt G) (pr_random G));
                G1 = G\<lparr>pr_cnt := pr_cnt G + step\<rparr>
            in if pr_cnt G1 = RAND_SIZE pl
               then (case prng_next E pl G1 of
                       Inl e \<Rightarrow> Inl e
                     | Inr G2 \<Rightarrow> (case prng_get_octets E pl G2 (len - step) of
                                   Inl e \<Rightarrow> Inl e | Inr (cs, G3) \<Rightarrow> Inr (bs @ cs, G3)))
               else (case prng_get_octets E pl G1 (len - step) of
                       Inl e \<Rightarrow> Inl e | Inr (cs, G3) \<Rightarrow> Inr (bs @ cs, G3))))"
  by pat_completeness auto

termination
  by (relation "measures [\<lambda>(E, pl, G, len). len, \<lambda>(E, pl, G, len). if pr_cnt G = RAND_SIZE pl then 1 else 0]")
    (auto simp: RAND_SIZE_def AES_BLK_SIZE_def dest!: prng_next_cnt)

declare prng_get_octets.simps [simp del]

text \<open>\<open>get_octets<L>\<close>: a copy when the buffer holds more than \<open>L\<close> bytes, the loop otherwise.\<close>

definition prng_get_octets_L :: "block_cipher \<Rightarrow> nat \<Rightarrow> nat \<Rightarrow> prng \<Rightarrow> (octet list \<times> prng) result" where
  "prng_get_octets_L E pl L G =
     (if L < RAND_SIZE pl - pr_cnt G
      then Inr (take L (drop (pr_cnt G) (pr_random G)), G\<lparr>pr_cnt := pr_cnt G + L\<rparr>)
      else prng_get_octets E pl G L)"

text \<open>\<open>SetSeed(PRNG&)\<close>: the seed is drawn from another generator.\<close>

definition prng_SetSeed_from :: "block_cipher \<Rightarrow> nat \<Rightarrow> prng \<Rightarrow> prng \<Rightarrow> (prng \<times> prng) result" where
  "prng_SetSeed_from E pl src G =
     bind_result (prng_get_octets E pl src SEED_SIZE)
       (\<lambda>(tmp, src). bind_result (prng_SetSeed E pl tmp G) (\<lambda>G. Inr (G, src)))"

definition prng_get_word :: "block_cipher \<Rightarrow> nat \<Rightarrow> prng \<Rightarrow> (limb \<times> prng) result" where
  "prng_get_word E pl G =
     bind_result (prng_get_octets_L E pl 8 G) (\<lambda>(bs, G). Inr (of_nat (le_val bs), G))"

definition prng_get_bit :: "block_cipher \<Rightarrow> nat \<Rightarrow> prng \<Rightarrow> (bool \<times> prng) result" where
  "prng_get_bit E pl G =
     bind_result
       (if pr_n_cached_bits G = 0
        then bind_result (prng_get_word E pl G)
               (\<lambda>(w, G). Inr (G\<lparr>pr_cached_bits := w, pr_n_cached_bits := 64\<rparr>))
        else Inr G)
       (\<lambda>G. let n = pr_n_cached_bits G - 1
            in Inr ((drop_bit n (pr_cached_bits G)) AND 1 = 1, G\<lparr>pr_n_cached_bits := n\<rparr>))"

definition prng_get_doubleword :: "block_cipher \<Rightarrow> nat \<Rightarrow> prng \<Rightarrow> (octet list \<times> prng) result" where
  "prng_get_doubleword E pl G =
     bind_result (if RAND_SIZE pl < pr_cnt G + 16 then prng_next E pl G else Inr G)
       (\<lambda>G. Inr (take 16 (drop (pr_cnt G) (pr_random G)), G\<lparr>pr_cnt := pr_cnt G + 16\<rparr>))"

subsection \<open>Integers\<close>

definition prng_get_uint :: "block_cipher \<Rightarrow> nat \<Rightarrow> prng \<Rightarrow> (32 word \<times> prng) result" where
  "prng_get_uint E pl G =
     bind_result (if RAND_SIZE pl < pr_cnt G + 4 then prng_next E pl G else Inr G)
       (\<lambda>G. let a = (\<lambda>i. ucast (pr_random G ! (pr_cnt G + i)) :: 32 word)
            in Inr (a 0 + push_bit 8 (a 1) + push_bit 16 (a 2) + push_bit 24 (a 3),
                    G\<lparr>pr_cnt := pr_cnt G + 4\<rparr>))"

text \<open>
  The rejection test of \<open>get_uint(int upper)\<close>: \<open>int(r - reduced + (upper - 1)) > bound\<close> with
  unsigned arithmetic and a conversion to \<open>int\<close>. The loop need not end, so it is
  \<open>partial_function\<close>; the value \<open>None\<close> is a loop that never accepts.
\<close>

definition get_uint_rejects :: "32 word \<Rightarrow> 32 word \<Rightarrow> bool" where
  "get_uint_rejects upper r \<longleftrightarrow>
     (if upper \<le>s 128 then 256 else 0) <s r - r mod upper + (upper - 1)"

definition prng_uint_draw :: "block_cipher \<Rightarrow> nat \<Rightarrow> bool \<Rightarrow> prng \<Rightarrow> (32 word \<times> prng) result" where
  "prng_uint_draw E pl use_char G =
     (if use_char then bind_result (prng_get_uchar E pl G) (\<lambda>(b, G). Inr (ucast b, G))
      else prng_get_uint E pl G)"

partial_function (option) prng_uint_loop ::
  "block_cipher \<Rightarrow> nat \<Rightarrow> 32 word \<Rightarrow> prng \<Rightarrow> (32 word \<times> prng) result option" where
  "prng_uint_loop E pl upper G =
     (case prng_uint_draw E pl (upper \<le>s 128) G of
        Inl e \<Rightarrow> Some (Inl e)
      | Inr (r, G) \<Rightarrow> if get_uint_rejects upper r then prng_uint_loop E pl upper G
                      else Some (Inr (r mod upper, G)))"

definition prng_get_uint_upper ::
  "block_cipher \<Rightarrow> nat \<Rightarrow> 32 word \<Rightarrow> prng \<Rightarrow> (32 word \<times> prng) result option" where
  "prng_get_uint_upper E pl upper G =
     (if upper \<le>s 0 then Some (Inl (runtime_error ''Must be positive''))
      else if upper AND (upper - 1) = 0
      then Some (bind_result (prng_uint_draw E pl (upper <s 255) G) (\<lambda>(r, G). Inr (r mod upper, G)))
      else prng_uint_loop E pl upper G)"

text \<open>What is drawn below a bound is below it.\<close>

lemma prng_uint_loop_less: "prng_uint_loop E pl u G = Some y \<Longrightarrow> 0 < u \<longrightarrow> (\<forall>r G'. y = Inr (r, G') \<longrightarrow> r < u)"
proof (rule prng_uint_loop.raw_induct [where P = "\<lambda>E pl u G y. 0 < u \<longrightarrow> (\<forall>r G'. y = Inr (r, G') \<longrightarrow> r < u)"])
  fix f :: "block_cipher \<Rightarrow> nat \<Rightarrow> 32 word \<Rightarrow> prng \<Rightarrow> (32 word \<times> prng) result option" and E pl u G y
  assume IH: "\<And>E pl u G y. f E pl u G = Some y \<Longrightarrow> 0 < u \<longrightarrow> (\<forall>r G'. y = Inr (r, G') \<longrightarrow> r < u)"
    and body: "(case prng_uint_draw E pl (u \<le>s 128) G of Inl e \<Rightarrow> Some (Inl e)
      | Inr (r, G) \<Rightarrow> if get_uint_rejects u r then f E pl u G else Some (Inr (r mod u, G))) = Some y"
  then show "0 < u \<longrightarrow> (\<forall>r G'. y = Inr (r, G') \<longrightarrow> r < u)"
    by (auto simp: word_mod_less_divisor split: sum.splits prod.splits if_splits)
qed

lemma prng_get_uint_upper_less:
  assumes "prng_get_uint_upper E pl upper G = Some (Inr (r, G'))"
  shows "r < upper"
proof -
  have up: "0 < upper" if "\<not> upper \<le>s 0" using that by (metis signed.order.refl word_gt_0)
  show ?thesis
    using assms up prng_uint_loop_less [of E pl upper G "Inr (r, G')"]
    by (auto simp: prng_get_uint_upper_def bind_result_Inr_iff word_mod_less_divisor split: if_splits)
qed

text \<open>\<open>get(bigint&, n_bits, positive)\<close>.\<close>

definition prng_get_bigint :: "block_cipher \<Rightarrow> nat \<Rightarrow> nat \<Rightarrow> bool \<Rightarrow> prng \<Rightarrow> (int \<times> prng) result" where
  "prng_get_bigint E pl n_bits positive G =
     (if n_bits = 0 then Inl assertion_failed
      else let n_bytes = (n_bits + 7) div 8
      in bind_result (prng_get_octets E pl G n_bytes)
        (\<lambda>(bs, G). let m = (if 0 < n_bits mod 8 then push_bit (n_bits mod 8) 1 - 1 else - 1) :: octet;
                       bs = bs[n_bytes - 1 := bs ! (n_bytes - 1) AND m];
                       res = int (le_val bs)
           in if positive then Inr (res, G)
              else bind_result (prng_get_bit E pl G) (\<lambda>(b, G). Inr (if b then - res else res, G))))"

text \<open>
  \<open>randomBnd\<close> on arbitrary-precision integers gives up after 1002 draws, on the last one even if
  it is in range. \<open>numBits\<close> (GMP's size in base 2) of the bound is the argument \<open>nb\<close>.
\<close>

function prng_randomBnd_loop ::
  "block_cipher \<Rightarrow> nat \<Rightarrow> nat \<Rightarrow> int \<Rightarrow> nat \<Rightarrow> prng \<Rightarrow> (int \<times> prng) result" where
  "prng_randomBnd_loop E pl nb B i G =
     (case prng_get_bigint E pl nb True G of
        Inl e \<Rightarrow> Inl e
      | Inr (x, G) \<Rightarrow> if 1000 < i then Inl (runtime_error ''bounded randomness error'')
                      else if B \<le> x then prng_randomBnd_loop E pl nb B (i + 1) G
                      else Inr (x, G))"
  by pat_completeness auto

termination
  by (relation "measure (\<lambda>(E, pl, nb, B, i, G). 1001 - i)") auto

declare prng_randomBnd_loop.simps [simp del]

definition prng_randomBnd ::
  "block_cipher \<Rightarrow> nat \<Rightarrow> nat \<Rightarrow> int \<Rightarrow> bool \<Rightarrow> prng \<Rightarrow> (int \<times> prng) result" where
  "prng_randomBnd E pl nb B positive G =
     bind_result (prng_randomBnd_loop E pl nb B 0 G)
       (\<lambda>(x, G). if positive then Inr (x, G)
                 else bind_result (prng_get_bit E pl G) (\<lambda>(b, G). Inr (if b then - x else x, G)))"

text \<open>
  \<open>randomBnd\<close> on limb arrays draws until the masked value is below the bound; 16 and 32 bytes go
  to the version with the size as a template argument.
\<close>

definition prng_limbs_draw :: "block_cipher \<Rightarrow> nat \<Rightarrow> nat \<Rightarrow> prng \<Rightarrow> (octet list \<times> prng) result" where
  "prng_limbs_draw E pl n_bytes G =
     (if n_bytes = 16 \<or> n_bytes = 32 then prng_get_octets_L E pl n_bytes G else prng_get_octets E pl G n_bytes)"

partial_function (option) prng_randomBnd_limbs_loop ::
  "gmp \<Rightarrow> block_cipher \<Rightarrow> nat \<Rightarrow> nat \<Rightarrow> limb list \<Rightarrow> limb list \<Rightarrow> limb \<Rightarrow> prng \<Rightarrow> (limb list \<times> prng) result option" where
  "prng_randomBnd_limbs_loop M E pl n_bytes res B msk G =
     (case prng_limbs_draw E pl n_bytes G of
        Inl e \<Rightarrow> Some (Inl e)
      | Inr (bs, G) \<Rightarrow>
          let n_limbs = (n_bytes + 8 - 1) div 8;
              res = limbs_memcpy res bs n_bytes;
              res = res[n_limbs - 1 := res ! (n_limbs - 1) AND msk]
          in if 0 \<le> mpn_cmp M (take n_limbs res) B then prng_randomBnd_limbs_loop M E pl n_bytes res B msk G
             else Some (Inr (res, G)))"

definition prng_randomBnd_limbs ::
  "gmp \<Rightarrow> block_cipher \<Rightarrow> nat \<Rightarrow> nat \<Rightarrow> limb list \<Rightarrow> limb list \<Rightarrow> limb \<Rightarrow> prng \<Rightarrow> (limb list \<times> prng) result option" where
  "prng_randomBnd_limbs M E pl n_bytes res B msk G =
     (if n_bytes = 0 then Some (Inl assertion_failed)
      else prng_randomBnd_limbs_loop M E pl n_bytes res B msk G)"

subsection \<open>Ring elements\<close>

text \<open>\<open>get<Z2<K>>\<close>: a fresh element, then \<open>randomize\<close>.\<close>

definition prng_get_z2 :: "block_cipher \<Rightarrow> nat \<Rightarrow> nat \<Rightarrow> prng \<Rightarrow> (z2 \<times> prng) result" where
  "prng_get_z2 E pl K G =
     bind_result (prng_get_octets_L E pl (z2_N_BYTES K) G)
       (\<lambda>(bs, G). Inr (z2_randomize K (z2_zero K) bs, G))"

end
