(* ===== verification/PrngStream.thy ===== *)
theory PrngStream
  imports Prng
begin

section \<open>The generator is a cursor over one key stream\<close>

text \<open>
  \<open>prng_at E pl key k G\<close>: the generator \<open>G\<close> stands at byte \<open>k\<close> of the key stream of \<open>key\<close>. Seeding
  establishes it at 0 and every read of \<open>n\<close> bytes returns the bytes \<open>k .. k + n - 1\<close> and moves
  to \<open>k + n\<close>, so what a sequence of reads returns does not depend on how it is cut.
\<close>

subsection \<open>Concatenations of blocks\<close>

lemma length_concat_blocks: "(\<And>i. i < n \<Longrightarrow> length (f i) = m) \<Longrightarrow> length (concat (map f [0..<n])) = n * m"
  by (induction n) simp_all

lemma take_drop_concat_blocks:
  assumes "\<And>i. i < n \<Longrightarrow> length (f i) = m" "j < n"
  shows "take m (drop (j * m) (concat (map f [0..<n]))) = f j"
proof -
  have "[0..<n] = [0..<j] @ j # [Suc j..<n]"
    using assms(2) by (metis append_Cons append_Nil less_imp_le_nat upt_conv_Cons upt_add_eq_append le_add_diff_inverse zero_le)
  then have "concat (map f [0..<n]) = concat (map f [0..<j]) @ f j @ concat (map f [Suc j..<n])"
    by simp
  moreover have "length (concat (map f [0..<j])) = j * m" "length (f j) = m"
    using assms by (auto intro!: length_concat_blocks)
  ultimately show ?thesis by simp
qed

lemma nth_concat_blocks:
  assumes "\<And>i. i < n \<Longrightarrow> length (f i) = m" "j < n * m"
  shows "concat (map f [0..<n]) ! j = f (j div m) ! (j mod m)"
proof -
  have m: "0 < m" using assms(2) by (cases m) simp_all
  have j: "j div m < n" using assms(2) m by (simp add: less_mult_imp_div_less)
  have "concat (map f [0..<n]) ! j = drop (j div m * m) (concat (map f [0..<n])) ! (j mod m)"
  proof -
    have "j div m * m \<le> length (concat (map f [0..<n]))"
      using length_concat_blocks [of n f m, OF assms(1)] assms(2) div_times_less_eq_dividend [of j m] by linarith
    then show ?thesis by simp
  qed
  also have "\<dots> = take m (drop (j div m * m) (concat (map f [0..<n]))) ! (j mod m)"
    using m by simp
  also have "\<dots> = f (j div m) ! (j mod m)"
    using take_drop_concat_blocks [OF assms(1) j] by simp
  finally show ?thesis .
qed

subsection \<open>Key stream\<close>

definition ctr_block :: "nat \<Rightarrow> octet list" where
  "ctr_block n = le_bytes 8 n @ replicate 8 0"

definition keystream :: "block_cipher \<Rightarrow> octet list \<Rightarrow> nat \<Rightarrow> octet" where
  "keystream E key k = E key (ctr_block (k div 16)) ! (k mod 16)"

text \<open>What the block cipher promises: blocks are mapped to blocks.\<close>

definition cipher_ok :: "block_cipher \<Rightarrow> bool" where
  "cipher_ok E \<longleftrightarrow> (\<forall>k b. length b = AES_BLK_SIZE \<longrightarrow> length (E k b) = AES_BLK_SIZE)"

definition prng_at :: "block_cipher \<Rightarrow> nat \<Rightarrow> octet list \<Rightarrow> nat \<Rightarrow> prng \<Rightarrow> bool" where
  "prng_at E pl key k G \<longleftrightarrow>
     (\<exists>n. (n + 1) * pl \<le> 2 ^ 64 \<and> k = n * RAND_SIZE pl + pr_cnt G \<and> pr_cnt G \<le> RAND_SIZE pl
       \<and> pr_initialized G \<and> pr_key G = key
       \<and> pr_state G = concat (map (\<lambda>i. ctr_block (n * pl + i)) [0..<pl])
       \<and> pr_random G = concat (map (\<lambda>i. E key (ctr_block (n * pl + i))) [0..<pl]))"

lemma length_ctr_block [simp]: "length (ctr_block n) = 16"
  by (simp add: ctr_block_def)

lemma aes_block_ctr:
  "i < pl \<Longrightarrow> aes_block (concat (map (\<lambda>i. ctr_block (n * pl + i)) [0..<pl])) i = ctr_block (n * pl + i)"
  unfolding aes_block_def AES_BLK_SIZE_def by (rule take_drop_concat_blocks) simp_all

lemma prng_hash_blocks:
  assumes "pr_initialized G" "pr_state G = concat (map c [0..<pl])" "\<And>i. length (c i) = 16"
  shows "prng_hash E pl G = Inr (G\<lparr>pr_random := concat (map (\<lambda>i. E (pr_key G) (c i)) [0..<pl]), pr_cnt := 0\<rparr>)"
proof -
  have "aes_block (pr_state G) i = c i" if "i < pl" for i
    unfolding aes_block_def AES_BLK_SIZE_def assms(2)
    using that assms(3) by (intro take_drop_concat_blocks)
  then have eq: "map (\<lambda>i. E (pr_key G) (aes_block (pr_state G) i)) [0..<pl] = map (\<lambda>i. E (pr_key G) (c i)) [0..<pl]"
    by simp
  show ?thesis
    using assms(1) unfolding prng_hash_def eq by simp
qed

lemma le_bytes_0: "le_bytes n 0 = replicate n 0"
  by (induction n) simp_all

lemma ctr_block_small: "i < 256 \<Longrightarrow> ctr_block i = of_nat i # replicate 15 0"
proof -
  assume "i < 256"
  then have "le_bytes (Suc 7) i = of_nat i # replicate 7 0"
    by (simp only: le_bytes.simps div_less le_bytes_0)
  then show ?thesis
    by (simp add: ctr_block_def flip: replicate_add)
qed

text \<open>The counter of a block advances by \<open>PIPELINES\<close> as long as the low word does not wrap.\<close>

lemma prng_incr_ctr: "c + pl < 2 ^ 64 \<Longrightarrow> 0 < pl \<Longrightarrow> prng_incr_block pl (ctr_block c) = ctr_block (c + pl)"
proof -
  assume c: "c + pl < 2 ^ 64" and pl: "0 < pl"
  have low: "le_val (take 8 (ctr_block c)) = c"
    using c by (simp add: ctr_block_def le_val_le_bytes)
  have un: "unat (of_nat c + of_nat pl :: limb) = c + pl"
    using c unfolding of_nat_add [symmetric] unat_of_nat by simp
  then have nz: "(of_nat c + of_nat pl :: limb) \<noteq> 0"
    using pl by (metis add_is_0 less_numeral_extra(3) unat_0)
  have high: "le_val (drop 8 (ctr_block c)) = 0"
    by (simp add: ctr_block_def)
  show ?thesis
    unfolding prng_incr_block_def low high Let_def un by (simp add: nz ctr_block_def le_bytes_0)
qed

lemma prng_InitSeed_at:
  assumes "0 < pl" "pl \<le> 256"
  shows "\<exists>G'. prng_InitSeed E pl G = Inr G' \<and> prng_at E pl (pr_seed G) 0 G'"
proof -
  have ctr: "of_nat i # replicate 15 0 = ctr_block i" if "i < pl" for i
    using that assms(2) ctr_block_small [of i] by simp
  have state: "concat (map (\<lambda>i. of_nat i # replicate (AES_BLK_SIZE - 1) 0) [0..<pl]) = concat (map ctr_block [0..<pl])"
    unfolding AES_BLK_SIZE_def by (intro arg_cong [where f = concat] map_cong refl) (simp add: ctr)
  have "prng_InitSeed E pl G = Inr
      (G\<lparr>pr_initialized := True, pr_key := pr_seed G, pr_state := concat (map ctr_block [0..<pl]),
        pr_random := concat (map (\<lambda>i. E (pr_seed G) (ctr_block i)) [0..<pl]), pr_cnt := 0\<rparr>)"
    unfolding prng_InitSeed_def state by (subst prng_hash_blocks [where c = ctr_block]) simp_all
  moreover have "prng_at E pl (pr_seed G) 0
      (G\<lparr>pr_initialized := True, pr_key := pr_seed G, pr_state := concat (map ctr_block [0..<pl]),
        pr_random := concat (map (\<lambda>i. E (pr_seed G) (ctr_block i)) [0..<pl]), pr_cnt := 0\<rparr>)"
    unfolding prng_at_def using assms by (intro exI [where x = 0]) simp
  ultimately show ?thesis by simp
qed

lemma prng_next_at:
  assumes "prng_at E pl key k G" "pr_cnt G = RAND_SIZE pl" "0 < pl" "k div 16 + pl \<le> 2 ^ 64"
  shows "\<exists>G'. prng_next E pl G = Inr G' \<and> prng_at E pl key k G' \<and> pr_cnt G' = 0"
proof -
  from assms(1) obtain n where n: "k = n * RAND_SIZE pl + pr_cnt G" "pr_initialized G" "pr_key G = key"
    "pr_state G = concat (map (\<lambda>i. ctr_block (n * pl + i)) [0..<pl])"
    by (auto simp: prng_at_def)
  have k: "k div 16 = (n + 1) * pl"
  proof -
    have "k = (n + 1) * pl * 16"
      using assms(2) n(1) by (simp add: RAND_SIZE_def AES_BLK_SIZE_def algebra_simps)
    then show ?thesis by simp
  qed
  have "prng_incr_block pl (aes_block (pr_state G) i) = ctr_block ((n + 1) * pl + i)" if "i < pl" for i
  proof -
    have "n * pl + i + pl < 2 ^ 64"
      using that assms(4) unfolding k by (simp add: algebra_simps)
    then have "prng_incr_block pl (ctr_block (n * pl + i)) = ctr_block (n * pl + i + pl)"
      using assms(3) by (rule prng_incr_ctr)
    moreover have "n * pl + i + pl = (n + 1) * pl + i" by (simp add: algebra_simps)
    ultimately show ?thesis unfolding n(4) aes_block_ctr [OF that] by simp
  qed
  then have state: "concat (map (\<lambda>i. prng_incr_block pl (aes_block (pr_state G) i)) [0..<pl])
      = concat (map (\<lambda>i. ctr_block ((n + 1) * pl + i)) [0..<pl])"
    by (intro arg_cong [where f = concat] map_cong) simp_all
  have "(n + 1 + 1) * pl \<le> 2 ^ 64" using assms(4) k by (simp add: algebra_simps)
  then have "prng_at E pl key k
      (G\<lparr>pr_state := concat (map (\<lambda>i. ctr_block ((n + 1) * pl + i)) [0..<pl]),
        pr_random := concat (map (\<lambda>i. E key (ctr_block ((n + 1) * pl + i))) [0..<pl]), pr_cnt := 0\<rparr>)"
    unfolding prng_at_def using n(1-3) assms(2) by (intro exI [where x = "n + 1"]) (simp add: algebra_simps)
  moreover have "prng_next E pl G = Inr (G\<lparr>pr_state := concat (map (\<lambda>i. ctr_block ((n + 1) * pl + i)) [0..<pl]),
        pr_random := concat (map (\<lambda>i. E key (ctr_block ((n + 1) * pl + i))) [0..<pl]), pr_cnt := 0\<rparr>)"
    unfolding prng_next_def state using n(2,3)
    by (subst prng_hash_blocks [where c = "\<lambda>i. ctr_block ((n + 1) * pl + i)"]) simp_all
  ultimately show ?thesis by simp
qed

text \<open>The bytes in the buffer are the key stream.\<close>

lemma prng_at_random:
  assumes "prng_at E pl key k G" "\<And>b. length b = 16 \<Longrightarrow> length (E key b) = 16"
    "step \<le> RAND_SIZE pl - pr_cnt G"
  shows "take step (drop (pr_cnt G) (pr_random G)) = map (keystream E key) [k..<k + step]"
    and "prng_at E pl key (k + step) (G\<lparr>pr_cnt := pr_cnt G + step\<rparr>)"
proof -
  from assms(1) obtain n where n: "(n + 1) * pl \<le> 2 ^ 64" "k = n * RAND_SIZE pl + pr_cnt G" "pr_cnt G \<le> RAND_SIZE pl"
    "pr_initialized G" "pr_key G = key"
    "pr_state G = concat (map (\<lambda>i. ctr_block (n * pl + i)) [0..<pl])"
    "pr_random G = concat (map (\<lambda>i. E key (ctr_block (n * pl + i))) [0..<pl])"
    by (auto simp: prng_at_def)
  have len: "length (pr_random G) = RAND_SIZE pl"
    unfolding n(7) RAND_SIZE_def AES_BLK_SIZE_def using assms(2) by (intro length_concat_blocks) simp
  show "take step (drop (pr_cnt G) (pr_random G)) = map (keystream E key) [k..<k + step]"
  proof (rule nth_equalityI)
    show "length (take step (drop (pr_cnt G) (pr_random G))) = length (map (keystream E key) [k..<k + step])"
      using len assms(3) by simp
  next
    fix i assume "i < length (take step (drop (pr_cnt G) (pr_random G)))"
    then have i: "i < step" "pr_cnt G + i < pl * 16"
      using len assms(3) n(3) unfolding RAND_SIZE_def AES_BLK_SIZE_def length_take length_drop by linarith+
    have "pr_random G ! (pr_cnt G + i) = E key (ctr_block (n * pl + (pr_cnt G + i) div 16)) ! ((pr_cnt G + i) mod 16)"
      unfolding n(7) using assms(2) i(2) by (intro nth_concat_blocks) simp_all
    also have "\<dots> = keystream E key (k + i)"
    proof -
      have ki: "k + i = 16 * (n * pl) + (pr_cnt G + i)"
        using n(2) by (simp add: RAND_SIZE_def AES_BLK_SIZE_def)
      have "(k + i) div 16 = n * pl + (pr_cnt G + i) div 16" unfolding ki by simp
      moreover have "(k + i) mod 16 = (pr_cnt G + i) mod 16" unfolding ki by (rule mod_mult_self4)
      ultimately show ?thesis by (simp add: keystream_def)
    qed
    finally show "take step (drop (pr_cnt G) (pr_random G)) ! i = map (keystream E key) [k..<k + step] ! i"
      using i len assms(3) by simp
  qed
  show "prng_at E pl key (k + step) (G\<lparr>pr_cnt := pr_cnt G + step\<rparr>)"
    using n assms(3) unfolding prng_at_def by (intro exI [where x = n]) auto
qed

subsection \<open>Reading\<close>

text \<open>The loop of \<open>get_octets\<close>. The bound says that the 64-bit counter does not wrap.\<close>

lemma prng_get_octets_at:
  assumes "prng_at E pl key k G" "\<And>b. length b = 16 \<Longrightarrow> length (E key b) = 16"
    "0 < pl" "(k + len) div 16 + pl \<le> 2 ^ 64"
  shows "\<exists>G'. prng_get_octets E pl G len = Inr (map (keystream E key) [k..<k + len], G')
    \<and> prng_at E pl key (k + len) G'"
  using assms
proof (induction E pl G len arbitrary: k rule: prng_get_octets.induct)
  case (1 E pl G len)
  have cnt: "pr_cnt G \<le> RAND_SIZE pl" using "1.prems"(1) by (auto simp: prng_at_def)
  show ?case
  proof (cases "len = 0")
    case True
    then show ?thesis using "1.prems"(1) by (simp add: prng_get_octets.simps)
  next
    case False
    define step where "step = min len (RAND_SIZE pl - pr_cnt G)"
    define G1 where "G1 = G\<lparr>pr_cnt := pr_cnt G + step\<rparr>"
    define bs where "bs = take step (drop (pr_cnt G) (pr_random G))"
    have ok: "\<not> (pl = 0 \<or> RAND_SIZE pl < pr_cnt G)" using cnt "1.prems"(3) by simp
    have bs: "bs = map (keystream E key) [k..<k + step]" and G1: "prng_at E pl key (k + step) G1"
      using prng_at_random [OF "1.prems"(1,2), of step] by (simp_all add: bs_def G1_def step_def)
    have le: "step \<le> len" by (simp add: step_def)
    have split: "map (keystream E key) [k..<k + len]
        = bs @ map (keystream E key) [k + step..<k + step + (len - step)]"
      unfolding bs using le upt_add_eq_append [of k "k + step" "len - step"] by simp
    have eq: "prng_get_octets E pl G len =
        (if pr_cnt G1 = RAND_SIZE pl
         then (case prng_next E pl G1 of Inl e \<Rightarrow> Inl e
               | Inr G2 \<Rightarrow> (case prng_get_octets E pl G2 (len - step) of
                             Inl e \<Rightarrow> Inl e | Inr (cs, G3) \<Rightarrow> Inr (bs @ cs, G3)))
         else (case prng_get_octets E pl G1 (len - step) of
                 Inl e \<Rightarrow> Inl e | Inr (cs, G3) \<Rightarrow> Inr (bs @ cs, G3)))"
      using False ok unfolding step_def G1_def bs_def
      by (subst prng_get_octets.simps) (simp only: Let_def if_False)
    have bound: "(k + step + (len - step)) div 16 + pl \<le> 2 ^ 64" using "1.prems"(4) le by simp
    show ?thesis
    proof (cases "pr_cnt G1 = RAND_SIZE pl")
      case True
      have "(k + step) div 16 \<le> (k + len) div 16" using le by (simp add: div_le_mono)
      then obtain G2 where G2: "prng_next E pl G1 = Inr G2" "prng_at E pl key (k + step) G2"
        using prng_next_at [OF G1 True "1.prems"(3)] "1.prems"(4) by auto
      from "1.IH"(1) [OF False ok step_def bs_def G1_def True G2(1) G2(2) "1.prems"(2,3) bound] G2(1) True
      show ?thesis unfolding eq split using le by auto
    next
      case F: False
      from "1.IH"(2) [OF False ok step_def bs_def G1_def F G1 "1.prems"(2,3) bound] F
      show ?thesis unfolding eq split using le by auto
    qed
  qed
qed

text \<open>The compile-time variant reads the same bytes.\<close>

lemma prng_get_octets_L_at:
  assumes "prng_at E pl key k G" "\<And>b. length b = 16 \<Longrightarrow> length (E key b) = 16"
    "0 < pl" "(k + len) div 16 + pl \<le> 2 ^ 64"
  shows "\<exists>G'. prng_get_octets_L E pl len G = Inr (map (keystream E key) [k..<k + len], G')
    \<and> prng_at E pl key (k + len) G'"
  using prng_get_octets_at [OF assms] prng_at_random [OF assms(1,2), of len]
  by (auto simp: prng_get_octets_L_def)

lemma prng_SetSeed_at:
  "0 < pl \<Longrightarrow> pl \<le> 256 \<Longrightarrow> \<exists>G'. prng_SetSeed E pl inp G = Inr G' \<and> prng_at E pl (take SEED_SIZE inp) 0 G'"
  using prng_InitSeed_at [of pl E "G\<lparr>pr_seed := take SEED_SIZE inp\<rparr>"] by (simp add: prng_SetSeed_def)

text \<open>A sequence of \<open>get<Z2<K>>\<close> calls reads consecutive elements off the key stream.\<close>

definition keystream_z2 :: "block_cipher \<Rightarrow> octet list \<Rightarrow> nat \<Rightarrow> nat \<Rightarrow> z2" where
  "keystream_z2 E key K k = z2_randomize K (z2_zero K) (map (keystream E key) [k..<k + z2_N_BYTES K])"

lemma prng_get_z2_at:
  assumes "prng_at E pl key k G" "\<And>b. length b = 16 \<Longrightarrow> length (E key b) = 16"
    "0 < pl" "(k + z2_N_BYTES K) div 16 + pl \<le> 2 ^ 64"
  shows "\<exists>G'. prng_get_z2 E pl K G = Inr (keystream_z2 E key K k, G') \<and> prng_at E pl key (k + z2_N_BYTES K) G'"
  using prng_get_octets_L_at [OF assms] by (auto simp: prng_get_z2_def keystream_z2_def)

lemma keystream_z2_val:
  "0 < K \<Longrightarrow> limbs_val (keystream_z2 E key K k) = le_val (map (keystream E key) [k..<k + z2_N_BYTES K]) mod 2 ^ K"
  "0 < K \<Longrightarrow> z2_wf K (keystream_z2 E key K k)"
proof -
  assume K: "0 < K"
  let ?bs = "map (keystream E key) [k..<k + z2_N_BYTES K]"
  have "le_val ?bs < 256 ^ length ?bs" by (rule le_val_less)
  then have "le_val ?bs < 256 ^ z2_N_BYTES K" by simp
  then show "limbs_val (keystream_z2 E key K k) = le_val ?bs mod 2 ^ K"
    using K limbs_memcpy_zero_val [OF z2_N_BYTES_bounds(2), of K ?bs]
    by (simp add: keystream_z2_def z2_randomize_def z2_normalize_val z2_zero_def)
  show "z2_wf K (keystream_z2 E key K k)"
    using K by (simp add: keystream_z2_def z2_randomize_def z2_wf_normalize)
qed

subsection \<open>What the samplers return\<close>

lemma le_val_update_last:
  assumes "length a = Suc n"
  shows "le_val (a[n := y]) = le_val (take n a) + 256 ^ n * unat y"
proof -
  have "a[n := y] = take n a @ [y]"
    using assms by (simp add: list_eq_iff_nth_eq nth_append nth_list_update)
  then show ?thesis
    using assms by (simp add: le_val_append)
qed

lemma unat_and_octet_mask: "r < 8 \<Longrightarrow> unat (b AND (push_bit r 1 - 1) :: octet) = unat b mod 2 ^ r"
proof -
  have "unat (b AND mask r) = take_bit r (unat b)"
    by (simp only: take_bit_eq_mask [symmetric] unsigned_take_bit_eq)
  moreover have "(push_bit r 1 - 1 :: octet) = mask r"
    by (simp add: mask_eq_exp_minus_1 push_bit_eq_mult)
  ultimately show ?thesis by (simp add: take_bit_eq_mod)
qed

text \<open>Masking the top byte keeps the low \<open>n_bits\<close> bits.\<close>

lemma le_val_mask_top:
  assumes "0 < n_bits" "n = (n_bits + 7) div 8" "length bs = n"
  shows "le_val (bs[n - 1 := bs ! (n - 1) AND
      (if 0 < n_bits mod 8 then push_bit (n_bits mod 8) 1 - 1 else - 1)]) = le_val bs mod 2 ^ n_bits"
proof -
  define m where "m = n - 1"
  define r where "r = (if 0 < n_bits mod 8 then n_bits mod 8 else 8)"
  have n: "n = Suc m" "n_bits = 8 * m + r"
  proof -
    define q t where "q = n_bits div 8" and "t = n_bits mod 8"
    have qt: "n_bits = 8 * q + t" "t < 8" by (simp_all add: q_def t_def)
    have "(n_bits + 7) div 8 = q + (if 0 < t then 1 else 0)"
      using qt div_mult_self4 [of 8 q "t + 7"] by (auto simp: add.assoc div_nat_eqI)
    then show "n = Suc m" "n_bits = 8 * m + r"
      using assms(1,2) qt unfolding m_def r_def t_def [symmetric]
      by (auto split: if_splits)
  qed
  have len: "length bs = Suc m" using assms(3) n by simp
  have "bs = take m bs @ [bs ! m]"
    using len by (metis append_take_drop_id lessI take_Suc_conv_app_nth take_all_iff order_refl)
  then have a: "le_val bs = le_val (take m bs) + 256 ^ m * unat (bs ! m)"
    using len by (metis le_val_update_last list_update_id)
  have top: "unat (bs ! m AND (if 0 < n_bits mod 8 then push_bit (n_bits mod 8) 1 - 1 else - 1)) = unat (bs ! m) mod 2 ^ r"
  proof (cases "0 < n_bits mod 8")
    case True
    then show ?thesis using unat_and_octet_mask [of "n_bits mod 8" "bs ! m"] by (simp add: r_def)
  next
    case False
    then show ?thesis using unat_octet_less [of "bs ! m"] by (simp add: r_def)
  qed
  have "le_val (take m bs) < 256 ^ m"
    using le_val_less [of "take m bs"] len by simp
  moreover have "(2 :: nat) ^ n_bits = 256 ^ m * 2 ^ r"
    by (simp only: n(2) power_add octet_base_power)
  ultimately have "le_val bs mod 2 ^ n_bits = le_val (take m bs) + 256 ^ m * (unat (bs ! m) mod 2 ^ r)"
    unfolding a by (simp add: mod_mult2_eq)
  then show ?thesis
    using le_val_update_last [OF len] top by (simp add: n(1))
qed

lemma prng_get_bigint_at:
  assumes "prng_at E pl key k G" "\<And>b. length b = 16 \<Longrightarrow> length (E key b) = 16"
    "0 < pl" "(k + (n_bits + 7) div 8) div 16 + pl \<le> 2 ^ 64" "0 < n_bits"
  shows "\<exists>G'. prng_get_bigint E pl n_bits True G =
      Inr (int (le_val (map (keystream E key) [k..<k + (n_bits + 7) div 8]) mod 2 ^ n_bits), G')
    \<and> prng_at E pl key (k + (n_bits + 7) div 8) G'"
proof -
  let ?n = "(n_bits + 7) div 8" and ?bs = "map (keystream E key) [k..<k + (n_bits + 7) div 8]"
  obtain G' where "prng_get_octets E pl G ?n = Inr (?bs, G')" "prng_at E pl key (k + ?n) G'"
    using prng_get_octets_at [OF assms(1-4)] by blast
  moreover have "length ?bs = ?n" "n_bits \<noteq> 0" using assms(5) by simp_all
  ultimately show ?thesis
    unfolding prng_get_bigint_def Let_def using le_val_mask_top [OF assms(5) refl, of ?bs]
    by (simp only: bind_result.simps prod.case if_False if_True simp_thms) auto
qed

lemma prng_get_bigint_nonneg: "prng_get_bigint E pl n_bits True G = Inr (x, G') \<Longrightarrow> 0 \<le> x"
  by (auto simp: prng_get_bigint_def Let_def bind_result_Inr_iff split: if_splits)

lemma prng_randomBnd_loop_range:
  "prng_randomBnd_loop E pl nb B i G = Inr (x, G') \<Longrightarrow> 0 \<le> x \<and> x < B"
proof (induction E pl nb B i G rule: prng_randomBnd_loop.induct)
  case (1 E pl nb B i G)
  obtain y H where y: "prng_get_bigint E pl nb True G = Inr (y, H)" "\<not> 1000 < i"
    "if B \<le> y then prng_randomBnd_loop E pl nb B (i + 1) H = Inr (x, G') else x = y"
    using "1.prems" by (subst (asm) prng_randomBnd_loop.simps) (auto split: sum.splits if_splits)
  show ?case
  proof (cases "B \<le> y")
    case True
    with y(3) "1.IH" [OF y(1) refl y(2) True] show ?thesis by simp
  next
    case False
    with y(3) prng_get_bigint_nonneg [OF y(1)] show ?thesis by simp
  qed
qed

text \<open>The first draw below the bound among the first 1001 is what the loop returns.\<close>

definition bigint_draw :: "block_cipher \<Rightarrow> octet list \<Rightarrow> nat \<Rightarrow> nat \<Rightarrow> nat \<Rightarrow> nat" where
  "bigint_draw E key k nb j =
     le_val (map (keystream E key) [k + j * ((nb + 7) div 8)..<k + (j + 1) * ((nb + 7) div 8)]) mod 2 ^ nb"

lemma prng_randomBnd_loop_first:
  assumes "prng_at E pl key k G" "\<And>b. length b = 16 \<Longrightarrow> length (E key b) = 16" "0 < pl" "0 < nb"
    "(k + (j + 1) * ((nb + 7) div 8)) div 16 + pl \<le> 2 ^ 64"
    "\<And>i. i < j \<Longrightarrow> B \<le> int (bigint_draw E key k nb i)" "int (bigint_draw E key k nb j) < B" "i + j \<le> 1000"
  shows "\<exists>G'. prng_randomBnd_loop E pl nb B i G = Inr (int (bigint_draw E key k nb j), G')"
  using assms
proof (induction j arbitrary: k G i)
  case 0
  then obtain G' where "prng_get_bigint E pl nb True G = Inr (int (bigint_draw E key k nb 0), G')"
    using prng_get_bigint_at [of E pl key k G nb] by (auto simp: bigint_draw_def)
  with 0 show ?case by (subst prng_randomBnd_loop.simps) simp
next
  case (Suc j)
  let ?n = "(nb + 7) div 8"
  have "k + ?n \<le> k + (Suc j + 1) * ?n" by simp
  then have "(k + ?n) div 16 \<le> (k + (Suc j + 1) * ?n) div 16" by (rule div_le_mono)
  then have "(k + ?n) div 16 + pl \<le> 2 ^ 64" using Suc.prems(5) by linarith
  then obtain H where H: "prng_get_bigint E pl nb True G = Inr (int (bigint_draw E key k nb 0), H)"
    "prng_at E pl key (k + ?n) H"
    using prng_get_bigint_at [OF Suc.prems(1-3) _ Suc.prems(4)] by (auto simp: bigint_draw_def)
  have shift: "bigint_draw E key (k + ?n) nb i = bigint_draw E key k nb (Suc i)" for i
    by (simp add: bigint_draw_def algebra_simps)
  have "\<exists>G'. prng_randomBnd_loop E pl nb B (i + 1) H = Inr (int (bigint_draw E key (k + ?n) nb j), G')"
  proof (rule Suc.IH [OF H(2) Suc.prems(2-4)])
    show "(k + ?n + (j + 1) * ?n) div 16 + pl \<le> 2 ^ 64" using Suc.prems(5) by (simp add: algebra_simps)
    show "B \<le> int (bigint_draw E key (k + ?n) nb i)" if "i < j" for i
      using Suc.prems(6) [of "Suc i"] that by (simp add: shift)
    show "int (bigint_draw E key (k + ?n) nb j) < B" using Suc.prems(7) by (simp add: shift)
    show "i + 1 + j \<le> 1000" using Suc.prems(8) by simp
  qed
  with H(1) Suc.prems(6) [of 0] Suc.prems(8) show ?case
    by (subst prng_randomBnd_loop.simps) (simp add: shift)
qed

subsection \<open>Uniformity of bounded integers\<close>

lemma sint_32: "sint (w :: 32 word) = (if uint w < 2 ^ 31 then uint w else uint w - 2 ^ 32)"
  using sint_uint_cases [of w] by simp

lemma sless_32: "(0 :: 32 word) <s w \<longleftrightarrow> 0 < unat w \<and> unat w < 2 ^ 31"
proof -
  have "int (unat w) < 2 ^ 32" using unsigned_less [of w, where 'a = int] by simp
  moreover have "0 <s w \<longleftrightarrow> 0 < int (unat w) \<and> int (unat w) < 2 ^ 31"
    using calculation by (auto simp: word_sless_alt sint_32)
  ultimately show ?thesis
    by (metis of_nat_0_less_iff of_nat_less_iff of_nat_numeral of_nat_power)
qed

text \<open>The last value of the block of \<open>upper\<close> values that \<open>r\<close> lies in, before the wrap-around.\<close>

definition block_end :: "32 word \<Rightarrow> 32 word \<Rightarrow> nat" where
  "block_end upper r = unat r div unat upper * unat upper + (unat upper - 1)"

lemma unat_block_end: "0 < unat u \<Longrightarrow> unat (r - r mod u + (u - 1)) = block_end u r mod 2 ^ 32"
proof -
  assume u: "0 < unat u"
  have "r - r mod u = of_nat (unat (r div u)) * of_nat (unat u)"
    by (simp add: minus_mod_eq_div_mult)
  then have "r - r mod u = of_nat (unat r div unat u * unat u)"
    by (simp only: unat_div of_nat_mult)
  moreover have "u - 1 = of_nat (unat u - 1)"
    using u by simp
  ultimately have "r - r mod u + (u - 1) = of_nat (block_end u r)"
    by (simp add: block_end_def)
  then show ?thesis by (simp add: unat_of_nat)
qed

definition get_uint_accepts :: "32 word \<Rightarrow> 32 word \<Rightarrow> bool" where
  "get_uint_accepts upper r \<longleftrightarrow> \<not> get_uint_rejects upper r"

lemma get_uint_accepts_wide:
  assumes "128 <s u"
  shows "get_uint_accepts u r \<longleftrightarrow> block_end u r mod 2 ^ 32 = 0 \<or> 2 ^ 31 \<le> block_end u r mod 2 ^ 32"
proof -
  have "0 < int (unat u)"
    using assms by (auto simp: word_sless_alt sint_32 split: if_splits)
  moreover have "\<not> u \<le>s 128"
    using assms by (simp add: word_sless_alt word_sle_eq)
  ultimately have u: "\<not> u \<le>s 128" "0 < unat u" by linarith+
  then show ?thesis
    by (auto simp: get_uint_accepts_def get_uint_rejects_def sless_32 unat_block_end)
qed

text \<open>
  Unless \<open>upper\<close> divides \<open>2 ^ 32 + 1\<close>, a draw is accepted only together with its whole block.
\<close>

lemma get_uint_accepts_block_end:
  assumes "128 <s u" "\<not> unat u dvd 2 ^ 32 + 1" "get_uint_accepts u r"
  shows "block_end u r < 2 ^ 32"
proof (rule ccontr)
  assume ge: "\<not> block_end u r < 2 ^ 32"
  have u: "128 < int (unat u)" "int (unat u) < 2 ^ 31"
    using assms(1) unsigned_less [of u, where 'a = int] by (auto simp: word_sless_alt sint_32 split: if_splits)
  have u31: "unat u < 2 ^ 31"
    using u(2) by (metis of_nat_less_iff of_nat_numeral of_nat_power)
  let ?q = "unat r div unat u"
  have "?q * unat u \<le> unat r" by (simp add: div_times_less_eq_dividend)
  moreover have "unat r < 2 ^ 32" using unsigned_less [of r, where 'a = nat] by simp
  ultimately have lt: "block_end u r < 2 ^ 32 + 2 ^ 31"
    using u31 unfolding block_end_def by linarith
  with ge have "block_end u r mod 2 ^ 32 = block_end u r - 2 ^ 32"
    by (simp add: mod_if)
  with assms(1,3) lt ge have "block_end u r = 2 ^ 32"
    by (auto simp: get_uint_accepts_wide)
  then have "(?q + 1) * unat u = 2 ^ 32 + 1"
    using u by (simp add: block_end_def)
  then show False using assms(2) by (metis dvd_triv_right)
qed

definition get_uint_shift :: "32 word \<Rightarrow> 32 word \<Rightarrow> 32 word \<Rightarrow> 32 word" where
  "get_uint_shift u v r = of_nat (unat r div unat u * unat u + unat v)"

lemma get_uint_shift_accepted:
  assumes "128 <s u" "\<not> unat u dvd 2 ^ 32 + 1" "get_uint_accepts u r" "v < u"
  shows "get_uint_accepts u (get_uint_shift u v r)" "get_uint_shift u v r mod u = v"
    and "get_uint_shift u (r mod u) (get_uint_shift u v r) = r"
proof -
  let ?r = "get_uint_shift u v r"
  have v: "unat v < unat u" using assms(4) by (simp add: word_less_nat_alt)
  have "unat r div unat u * unat u + unat v < 2 ^ 32"
    using get_uint_accepts_block_end [OF assms(1-3)] v by (simp add: block_end_def)
  then have r: "unat ?r = unat r div unat u * unat u + unat v"
    unfolding get_uint_shift_def unat_of_nat by simp
  then have div: "unat ?r div unat u = unat r div unat u" and "unat ?r mod unat u = unat v"
    using v by simp_all
  then show "?r mod u = v" by (simp add: word_unat_eq_iff unat_mod)
  have "block_end u ?r = block_end u r" by (simp add: block_end_def div)
  then show "get_uint_accepts u ?r"
    using assms(1,3) by (simp add: get_uint_accepts_wide)
  have "get_uint_shift u (r mod u) ?r = of_nat (unat ?r div unat u * unat u + unat (r mod u))"
    by (rule get_uint_shift_def)
  then show "get_uint_shift u (r mod u) ?r = r"
    by (simp only: div unat_mod div_mult_mod_eq of_nat_unat ucast_id)
qed

lemma get_uint_uniform_le:
  assumes "128 <s u" "\<not> unat u dvd 2 ^ 32 + 1" "v < u"
  shows "card {r. get_uint_accepts u r \<and> r mod u = w} \<le> card {r. get_uint_accepts u r \<and> r mod u = v}"
proof (rule card_inj_on_le)
  show "inj_on (get_uint_shift u v) {r. get_uint_accepts u r \<and> r mod u = w}"
    by (rule inj_on_inverseI [where g = "get_uint_shift u w"])
      (use get_uint_shift_accepted(3) [OF assms(1,2) _ assms(3)] in auto)
  show "get_uint_shift u v ` {r. get_uint_accepts u r \<and> r mod u = w} \<subseteq> {r. get_uint_accepts u r \<and> r mod u = v}"
    using get_uint_shift_accepted(1,2) [OF assms(1,2) _ assms(3)] by auto
qed simp

subsection \<open>Limits\<close>

text \<open>
  \<open>641\<close> divides \<open>2 ^ 32 + 1\<close>, and the incomplete last block is accepted: the residue 640 is
  drawn less often than the residue 0.
\<close>

lemma get_uint_641: "card {r. get_uint_accepts 641 r \<and> r mod 641 = 640} < card {r. get_uint_accepts 641 r \<and> r mod 641 = 0}"
proof -
  let ?A = "\<lambda>v. {r. get_uint_accepts 641 r \<and> r mod 641 = v}"
  have acc: "get_uint_accepts 641 r \<longleftrightarrow> block_end 641 r mod 2 ^ 32 = 0 \<or> 2 ^ 31 \<le> block_end 641 r mod 2 ^ 32" for r
    by (rule get_uint_accepts_wide) (simp add: word_sless_alt sint_32)
  have last: "4294966656 \<in> ?A 0"
    by (simp add: acc block_end_def word_unat_eq_iff unat_mod)
  have r: "640 \<le> unat r" "unat (r - 640) = unat r - 640" "(unat r - 640) mod 641 = 0"
    "(unat r - 640) div 641 = unat r div 641" if "r \<in> ?A 640" for r
  proof -
    have m: "unat r mod 641 = 640" using that by (simp add: word_unat_eq_iff unat_mod)
    then show le: "640 \<le> unat r" using mod_less_eq_dividend [of "unat r" 641] by simp
    then show "unat (r - 640) = unat r - 640" by (simp add: unat_sub word_le_nat_alt)
    have "unat r - 640 = 641 * (unat r div 641)"
      using m mult_div_mod_eq [of 641 "unat r"] by simp
    then show "(unat r - 640) mod 641 = 0" "(unat r - 640) div 641 = unat r div 641" by simp_all
  qed
  have "(\<lambda>r. r - 640) ` ?A 640 \<subseteq> ?A 0 - {4294966656}"
  proof
    fix s assume "s \<in> (\<lambda>r. r - 640) ` ?A 640"
    then obtain r where s: "s = r - 640" and rA: "r \<in> ?A 640" by auto
    note r' = r [OF rA]
    have "block_end 641 s = block_end 641 r"
      by (simp add: block_end_def s r'(2,4))
    moreover have "s mod 641 = 0" by (simp add: word_unat_eq_iff unat_mod s r'(2,3))
    moreover have "s \<noteq> 4294966656"
    proof
      assume "s = 4294966656"
      then have "unat r - 640 = 4294966656" using r'(2) s by simp
      moreover have "unat r < 2 ^ 32" using unsigned_less [of r, where 'a = nat] by simp
      ultimately show False by simp
    qed
    ultimately show "s \<in> ?A 0 - {4294966656}" using rA by (simp add: acc)
  qed
  then have "card (?A 640) \<le> card (?A 0 - {4294966656})"
    by (intro card_inj_on_le [where f = "\<lambda>r. r - 640"]) (simp_all add: inj_on_def)
  also have "\<dots> < card (?A 0)"
    using last by (intro card_Diff1_less) simp_all
  finally show ?thesis .
qed

text \<open>A generator that was never seeded hands out the uninitialised buffer without an error.\<close>

lemma prng_unseeded:
  "L < RAND_SIZE pl \<Longrightarrow> prng_get_octets_L E pl L (prng_new seed state random) =
     Inr (take L random, (prng_new seed state random)\<lparr>pr_cnt := L\<rparr>)"
  by (simp add: prng_get_octets_L_def prng_new_def)

text \<open>With several pipelines the carry into the high word is lost for every block but the first.\<close>

lemma prng_incr_no_carry:
  assumes "0 < i" "i < pl" "pl < 2 ^ 64"
  shows "prng_incr_block pl (le_bytes 8 (2 ^ 64 - pl + i) @ replicate 8 0) = ctr_block i"
proof -
  let ?c = "2 ^ 64 - pl + i"
  have low: "le_val (take 8 (le_bytes 8 ?c @ replicate 8 0)) = ?c"
    using assms by (simp add: le_val_le_bytes)
  have high: "le_val (drop 8 (le_bytes 8 ?c @ replicate 8 0)) = 0" by simp
  have "?c + pl = 2 ^ 64 + i" using assms by simp
  then have s: "(of_nat ?c + of_nat pl :: limb) = of_nat i"
    unfolding of_nat_add [symmetric] by (simp add: word_of_nat_eq_iff take_bit_eq_mod)
  have i: "unat (of_nat i :: limb) = i" using assms by (simp add: unat_of_nat)
  then have "(of_nat i :: limb) \<noteq> 0" using assms by (metis neq0_conv unat_0)
  then show ?thesis
    unfolding prng_incr_block_def low high Let_def s i by (simp add: i ctr_block_def le_bytes_0)
qed

end
