(* ===== verification/Row.thy ===== *)
theory Row
  imports PrngStream
begin

section \<open>Vectors of ring elements and their messages (OT/Row, Networking/Player)\<close>

text \<open>
  \<open>Row<T>\<close> is the list of its \<open>rows\<close>, for the ring elements as words. The lazily evaluated sums
  \<open>DeferredPlus\<close> and \<open>DeferredMinus\<close> are modelled by the vector their \<open>operator[]\<close> yields and the
  assertion of their constructor. A channel between two players is the list of bytes written
  to the socket and not yet read.
\<close>

subsection \<open>Rows\<close>

type_synonym 'a row = "'a list"

definition row_add_assign :: "'a :: plus row \<Rightarrow> 'a row \<Rightarrow> 'a row result" where
  "row_add_assign rows other =
     (if length rows \<noteq> length other then Inl invalid_length
      else Inr (map (\<lambda>i. rows ! i + other ! i) [0..<length rows]))"

definition row_sub_assign :: "'a :: minus row \<Rightarrow> 'a row \<Rightarrow> 'a row result" where
  "row_sub_assign rows other =
     (if length rows \<noteq> length other then Inl invalid_length
      else Inr (map (\<lambda>i. rows ! i - other ! i) [0..<length rows]))"

definition row_mult_assign :: "'a :: times row \<Rightarrow> 'a \<Rightarrow> 'a row" where
  "row_mult_assign rows other = map (\<lambda>x. x * other) rows"

definition row_mult :: "'a :: times row \<Rightarrow> 'a \<Rightarrow> 'a row" where
  "row_mult rows other = (let res = rows in row_mult_assign res other)"

definition deferred_plus :: "'a :: plus row \<Rightarrow> 'a row \<Rightarrow> 'a row result" where
  "deferred_plus x y =
     (if length x \<noteq> length y then Inl assertion_failed
      else Inr (map (\<lambda>i. x ! i + y ! i) [0..<length x]))"

definition deferred_minus :: "'a :: minus row \<Rightarrow> 'a row \<Rightarrow> 'a row result" where
  "deferred_minus x y =
     (if length x \<noteq> length y then Inl assertion_failed
      else Inr (map (\<lambda>i. x ! i - y ! i) [0..<length x]))"

definition row_shl :: "'k :: len word row \<Rightarrow> nat \<Rightarrow> 'k word row result" where
  "row_shl rows i =
     (if z2_N_BYTES LENGTH('k) * 8 \<le> i then Inl invalid_params
      else Inr (map (\<lambda>x. push_bit i x) rows))"

fun row_randomize :: "block_cipher \<Rightarrow> nat \<Rightarrow> nat \<Rightarrow> prng \<Rightarrow> ('k :: len word row \<times> prng) result" where
  "row_randomize E pl 0 G = Inr ([], G)"
| "row_randomize E pl (Suc n) G =
     bind_result (prng_get_z2 E pl LENGTH('k) G)
       (\<lambda>(x, G). bind_result (row_randomize E pl n G) (\<lambda>(xs, G). Inr (z2_word x # xs, G)))"

definition row_pack :: "octet_stream \<Rightarrow> 'k :: len word row \<Rightarrow> octet_stream result" where
  "row_pack os rows =
     bind_result (os_store_size_t os (of_nat (length rows))) (\<lambda>os. os_store_all zw_pack os rows)"

definition row_unpack :: "octet_stream \<Rightarrow> ('k :: len word row \<times> octet_stream) result" where
  "row_unpack os =
     bind_result (os_get_size_t os) (\<lambda>(size, os). os_get_all zw_get (unat size) os)"

text \<open>A packed row is read back, for rows of any length that fits the length prefix.\<close>

lemma row_pack_eq: "row_pack = os_store_vector zw_pack"
  by (simp add: fun_eq_iff row_pack_def os_store_vector_def)

lemma row_unpack_eq: "row_unpack = os_get_vector zw_get"
  by (simp add: fun_eq_iff row_unpack_def os_get_vector_def)

definition enc_row :: "'k :: len word row \<Rightarrow> octet list" where
  "enc_row = enc_vector (\<lambda>w. le_bytes (z2_N_BYTES LENGTH('k)) (unat w))"

lemma length_enc_row: "length (enc_row (r :: 'k :: len word row)) = 8 + length r * z2_N_BYTES LENGTH('k)"
  by (induction r) (simp_all add: enc_row_def enc_vector_def)

interpretation row_codec: codec "row_pack :: _ \<Rightarrow> 'k :: len word row \<Rightarrow> _" row_unpack enc_row
  "\<lambda>r. length r < 2 ^ 64"
proof -
  have "codec row_pack row_unpack enc_row (\<lambda>r :: 'k word row. list_all (\<lambda>_. True) r \<and> length r < 2 ^ 64)"
    unfolding row_pack_eq row_unpack_eq enc_row_def by (rule zw_codec.codec_vector)
  then show "codec row_pack row_unpack enc_row (\<lambda>r :: 'k word row. length r < 2 ^ 64)"
    by (simp add: list_all_iff)
qed

text \<open>A row drawn from a seeded generator is a row of the key stream.\<close>

definition keystream_row :: "block_cipher \<Rightarrow> octet list \<Rightarrow> nat \<Rightarrow> nat \<Rightarrow> 'k :: len word row" where
  "keystream_row E key k n =
     map (\<lambda>i. z2_word (keystream_z2 E key LENGTH('k) (k + i * z2_N_BYTES LENGTH('k)))) [0..<n]"

lemma row_randomize_at:
  assumes "prng_at E pl key k G" "\<And>b. length b = 16 \<Longrightarrow> length (E key b) = 16"
    "0 < pl" "(k + n * z2_N_BYTES LENGTH('k)) div 16 + pl \<le> 2 ^ 64"
  shows "\<exists>G'. row_randomize E pl n G = Inr (keystream_row E key k n :: 'k :: len word row, G')
    \<and> prng_at E pl key (k + n * z2_N_BYTES LENGTH('k)) G'"
  using assms
proof (induction n arbitrary: k G)
  case (Suc n)
  let ?b = "z2_N_BYTES LENGTH('k)"
  have "(k + ?b) div 16 \<le> (k + Suc n * ?b) div 16" by (intro div_le_mono) simp
  then obtain H where H: "prng_get_z2 E pl LENGTH('k) G = Inr (keystream_z2 E key LENGTH('k) k, H)"
    "prng_at E pl key (k + ?b) H"
    using prng_get_z2_at [OF Suc.prems(1-3), of "LENGTH('k)"] Suc.prems(4) by auto
  have "(k + ?b + n * ?b) div 16 + pl \<le> 2 ^ 64" using Suc.prems(4) by (simp add: algebra_simps)
  from Suc.IH [OF H(2) Suc.prems(2,3) this] obtain G' where G':
    "row_randomize E pl n H = Inr (keystream_row E key (k + ?b) n :: 'k word row, G')"
    "prng_at E pl key (k + ?b + n * ?b) G'" by auto
  have "keystream_row E key k (Suc n) = (z2_word (keystream_z2 E key LENGTH('k) k) :: 'k word) # keystream_row E key (k + ?b) n"
    unfolding keystream_row_def upt_conv_Cons [OF zero_less_Suc]
    by (simp add: map_Suc_upt [symmetric] comp_def algebra_simps del: upt_Suc)
  with H(1) G' show ?case by (simp add: algebra_simps)
qed (simp add: keystream_row_def)

lemma length_keystream_row [simp]: "length (keystream_row E key k n) = n"
  by (simp add: keystream_row_def)

subsection \<open>Sockets\<close>

definition player_send_to :: "octet_stream \<Rightarrow> octet list \<Rightarrow> octet list result" where
  "player_send_to os socket = os_Send os socket"

definition player_receive_player :: "octet_stream \<Rightarrow> octet list \<Rightarrow> (octet_stream \<times> octet list) result option" where
  "player_receive_player os socket = os_Receive (os_reset_write_head os) socket"

text \<open>The bytes of one message on the socket.\<close>

definition frame :: "octet list \<Rightarrow> octet list" where
  "frame bs = le_bytes LENGTH_SIZE (length bs) @ bs"

lemma player_send_frame:
  assumes "os_writable os" "os_len os < 2 ^ 32"
  shows "player_send_to os socket = Inr (socket @ frame (os_data os))"
proof -
  have "unat (of_nat (os_len os) :: 64 word) = os_len os"
    using assms(2) by (simp add: unat_of_nat)
  then have "encode_length (of_nat (os_len os)) LENGTH_SIZE = Inr (le_bytes LENGTH_SIZE (os_len os))"
    using encode_length_small [of LENGTH_SIZE "of_nat (os_len os)"] assms(2) by (simp add: LENGTH_SIZE_def)
  then show ?thesis
    using assms(1) by (simp add: player_send_to_def os_Send_def os_get_data_def frame_def os_writable_def os_len_def)
qed

text \<open>Lengths between \<open>2 ^ 32\<close> and the sign bit do not fit the length field.\<close>

lemma player_send_long:
  assumes "2 ^ 32 \<le> os_len os" "os_len os < 2 ^ 63"
  shows "player_send_to os socket = Inl invalid_length"
proof -
  let ?l = "of_nat (os_len os) :: 64 word"
  have u: "unat ?l = os_len os" using assms(2) by (simp add: unat_of_nat)
  have "signed_drop_bit 32 ?l \<noteq> 0"
    using signed_drop_bit_eq_0_iff [of 32 ?l] assms(1) by (simp add: u)
  moreover have "signed_drop_bit 32 ?l \<noteq> - 1"
  proof
    assume "signed_drop_bit 32 ?l = - 1"
    then have "bit (signed_drop_bit 32 ?l) 63" by simp
    then have "bit ?l 63" by (simp add: bit_signed_drop_bit_iff del: of_nat_unat)
    then have "bit (unat ?l) 63" by (simp add: bit_unsigned_iff del: u)
    then show False using assms(2) by (simp only: u bit_iff_odd) simp
  qed
  ultimately show ?thesis
    by (simp add: player_send_to_def os_Send_def encode_length_def LENGTH_SIZE_def)
qed

lemma player_receive_frame:
  assumes "length bs < 2 ^ 32"
  shows "\<exists>os'. player_receive_player os (frame bs @ rest) = Some (Inr (os', rest))
    \<and> os_data os' = bs \<and> os_ready os' \<and> os_unread os' = bs \<and> os_len os' \<le> os_mxlen os' \<and> os_ptr os' = 0"
proof -
  have dec: "decode_length (take LENGTH_SIZE (frame bs @ rest)) LENGTH_SIZE = Inr (of_nat (length bs))"
    using decode_length_encoded [of LENGTH_SIZE "length bs"] assms by (simp add: frame_def LENGTH_SIZE_def)
  have len: "unat (of_nat (length bs) :: 64 word) = length bs"
    using assms by (simp add: unat_of_nat)
  have drop: "drop LENGTH_SIZE (frame bs @ rest) = bs @ rest" "\<not> length (frame bs @ rest) < LENGTH_SIZE"
    by (simp_all add: frame_def)
  show ?thesis
    unfolding player_receive_player_def os_Receive_def dec drop Let_def
    using drop(2) assms
    by (simp add: len os_reset_read_head_def os_alloc_defs os_ready_def os_unread_def os_len_def)
qed

lemma os_reset_write_head_writable [simp]:
  "os_writable (os_reset_write_head os)" "os_data (os_reset_write_head os) = []"
  by (simp_all add: os_writable_def os_reset_write_head_def os_reset_read_head_def os_len_def)

end
