(* ===== verification/AlphaVole.thy ===== *)
theory AlphaVole
  imports AlphaPre
begin

section \<open>The vector OLE is correct for every number of merged rounds\<close>

text \<open>
  Invariants of the sender's and the receiver's loop: which rows are still buffered, which
  messages are on the wire, and the partial sums. \<open>key l c\<close> is the key of generator \<open>c\<close> of bit
  \<open>l\<close>; the sender uses both, the receiver the one its key bit selects.
\<close>

subsection \<open>Rounds and messages\<close>

definition vole_t :: "block_cipher \<Rightarrow> (nat \<Rightarrow> bool \<Rightarrow> octet list) \<Rightarrow> nat \<Rightarrow> nat \<Rightarrow> bool \<Rightarrow> z_k2s row" where
  "vole_t E key n l c = keystream_row E (key l c) 0 n"

definition vole_u :: "block_cipher \<Rightarrow> (nat \<Rightarrow> bool \<Rightarrow> octet list) \<Rightarrow> z_k2s row \<Rightarrow> nat \<Rightarrow> z_k2s row" where
  "vole_u E key vx l =
     map (\<lambda>j. vx ! j + vole_t E key (length vx) l True ! j + vole_t E key (length vx) l False ! j) [0..<length vx]"

definition vole_groups :: "nat \<Rightarrow> nat" where
  "vole_groups mr = (S_BITS - 1) div mr + 1"

definition vole_msg :: "nat \<Rightarrow> (nat \<Rightarrow> octet list) \<Rightarrow> nat \<Rightarrow> octet list" where
  "vole_msg mr e g = concat (map e [g * mr..<min ((g + 1) * mr) S_BITS])"

definition vole_wire :: "nat \<Rightarrow> (nat \<Rightarrow> octet list) \<Rightarrow> nat \<Rightarrow> nat \<Rightarrow> octet list" where
  "vole_wire mr e g h = concat (map (\<lambda>g. frame (vole_msg mr e g)) [g..<h])"

definition vole_sum :: "nat \<Rightarrow> (nat \<Rightarrow> z_k2s row) \<Rightarrow> nat \<Rightarrow> z_k2s row" where
  "vole_sum n f i = map (\<lambda>j. \<Sum>l<i. push_bit l (f l ! j)) [0..<n]"

definition vole_keys_from ::
  "block_cipher \<Rightarrow> nat \<Rightarrow> (nat \<Rightarrow> bool \<Rightarrow> octet list) \<Rightarrow> nat \<Rightarrow> vole_prngs \<Rightarrow> bool" where
  "vole_keys_from E pl key i ps \<longleftrightarrow>
     length ps = S_BITS \<and> (\<forall>l c. i \<le> l \<longrightarrow> l < S_BITS \<longrightarrow> prng_at E pl (key l c) 0 (vole_prng ps l c))"

lemma vole_prng_update_nth:
  "i < length ps \<Longrightarrow> vole_prng (vole_prng_update ps i c G) l d =
     (if l = i then (if c = d then G else vole_prng ps i d) else vole_prng ps l d)"
  by (auto simp: vole_prng_def vole_prng_update_def nth_list_update)

lemma length_vole_prng_update [simp]: "length (vole_prng_update ps i c G) = length ps"
  by (simp add: vole_prng_update_def)

lemma vole_keys_update:
  assumes "vole_keys_from E pl key i ps" "i < S_BITS"
  shows "vole_keys_from E pl key (Suc i) (vole_prng_update ps i c G)"
    and "prng_at E pl (key i (\<not> c)) 0 (vole_prng (vole_prng_update ps i c G) i (\<not> c))"
    and "vole_keys_from E pl key (Suc i) (vole_prng_update (vole_prng_update ps i d H) i c G)"
  using assms by (simp_all add: vole_keys_from_def vole_prng_update_nth)

lemma vole_sum_0 [simp]: "vole_sum n f 0 = replicate n 0"
  by (simp add: vole_sum_def map_replicate_const)

lemma vole_sum_Suc:
  assumes "length (f i) = n"
  shows "row_add_assign (vole_sum n f i) (map (push_bit i) (f i)) = Inr (vole_sum n f (Suc i))"
  using assms by (simp add: row_add_assign_def vole_sum_def)

lemma row_shl_ok: "i < S_BITS \<Longrightarrow> row_shl (r :: z_k2s row) i = Inr (map (push_bit i) r)"
  by (simp add: row_shl_def S_BITS_def z2_N_BYTES_def)

lemma deferred_plus_ok: "length y = length x \<Longrightarrow> deferred_plus x y = Inr (map (\<lambda>i. x ! i + y ! i) [0..<length x])"
  by (simp add: deferred_plus_def)

lemma deferred_minus_ok: "length y = length x \<Longrightarrow> deferred_minus x y = Inr (map (\<lambda>i. x ! i - y ! i) [0..<length x])"
  by (simp add: deferred_minus_def)

lemma length_vole_t [simp]: "length (vole_t E key n l c) = n"
  by (simp add: vole_t_def)

lemma length_vole_u [simp]: "length (vole_u E key vx l) = length vx"
  by (simp add: vole_u_def)

lemma div_Suc_group: "0 < (mr :: nat) \<Longrightarrow> i mod mr = mr - 1 \<Longrightarrow> Suc i = (i div mr + 1) * mr"
  using mult_div_mod_eq [of mr i] by (simp add: algebra_simps)

lemma div_Suc_same: "0 < (mr :: nat) \<Longrightarrow> i mod mr \<noteq> mr - 1 \<Longrightarrow> Suc i div mr = i div mr"
  by (auto simp: div_Suc mod_Suc)

lemma group_less: "0 < (mr :: nat) \<Longrightarrow> i < (i div mr + 1) * mr"
  using dividend_less_div_times [of mr i] by (simp add: algebra_simps)

lemma vole_msg_length:
  assumes "\<And>l. length (e l) = b" shows "length (vole_msg mr e g) \<le> min mr S_BITS * b"
proof -
  have "length (concat (map e [i..<j])) = (j - i) * b" for i j
    using assms by (simp add: length_concat comp_def sum_list_triv)
  moreover have "min ((g + 1) * mr) S_BITS - g * mr \<le> min mr S_BITS" by auto
  ultimately show ?thesis by (simp add: vole_msg_def)
qed

lemma vole_wire_Cons:
  "g < h \<Longrightarrow> vole_wire mr e g h = frame (vole_msg mr e g) @ vole_wire mr e (g + 1) h"
  by (simp add: vole_wire_def upt_conv_Cons)

subsection \<open>Sender\<close>

definition vole_send_inv ::
  "block_cipher \<Rightarrow> nat \<Rightarrow> nat \<Rightarrow> (nat \<Rightarrow> bool \<Rightarrow> octet list) \<Rightarrow> z_k2s row \<Rightarrow> octet list \<Rightarrow> nat \<Rightarrow> vole_state \<Rightarrow> bool" where
  "vole_send_inv E pl mr key vx ch i s \<longleftrightarrow>
     vole_keys_from E pl key i (vs_prngs s) \<and> os_writable (vs_os s)
     \<and> os_data (vs_os s) = (if i = S_BITS then [] else concat (map (\<lambda>l. enc_row (vole_u E key vx l)) [i div mr * mr..<i]))
     \<and> vs_channel s = ch @ vole_wire mr (\<lambda>l. enc_row (vole_u E key vx l)) 0 (if i = S_BITS then vole_groups mr else i div mr)
     \<and> vs_res s = vole_sum (length vx) (\<lambda>l. vole_t E key (length vx) l False) i"

lemma vole_row_at:
  assumes "prng_at E pl k 0 G" "cipher_ok E" "0 < pl" "n + pl \<le> 2 ^ 64"
  shows "\<exists>G'. row_randomize E pl n G = Inr (keystream_row E k 0 n :: z_k2s row, G')"
  using row_randomize_at [OF assms(1) _ assms(3), of n, where 'k = 127] assms(2,4)
  by (auto simp: z2_N_BYTES_def cipher_ok_def AES_BLK_SIZE_def)

lemma vole_send_round_inv:
  assumes i: "i < S_BITS" and inv: "vole_send_inv E pl mr key vx ch i s"
    and E: "cipher_ok E" and pl: "0 < pl" and mr: "0 < mr"
    and n: "length vx + pl \<le> 2 ^ 64" "min mr S_BITS * (8 + length vx * 16) < 2 ^ 32"
  shows "\<exists>s'. vole_send_round E pl mr vx i s = Inr s' \<and> vole_send_inv E pl mr key vx ch (Suc i) s'"
proof -
  let ?n = "length vx" and ?e = "\<lambda>l. enc_row (vole_u E key vx l)"
  let ?t = "\<lambda>c. vole_t E key (length vx) i c"
  have ps: "vole_keys_from E pl key i (vs_prngs s)" and os: "os_writable (vs_os s)"
    and data: "os_data (vs_os s) = concat (map ?e [i div mr * mr..<i])"
    and chan: "vs_channel s = ch @ vole_wire mr ?e 0 (i div mr)"
    and res: "vs_res s = vole_sum ?n (\<lambda>l. vole_t E key ?n l False) i"
    using inv i by (simp_all add: vole_send_inv_def)
  obtain G0 where G0: "row_randomize E pl ?n (vole_prng (vs_prngs s) i False) = Inr (?t False, G0)"
    using vole_row_at [OF _ E pl n(1)] ps i unfolding vole_keys_from_def vole_t_def by blast
  define ps1 where "ps1 = vole_prng_update (vs_prngs s) i False G0"
  obtain G1 where G1: "row_randomize E pl ?n (vole_prng ps1 i True) = Inr (?t True, G1)"
    using vole_row_at [OF _ E pl n(1)] vole_keys_update(2) [OF ps i, of False G0]
    unfolding vole_t_def ps1_def by auto
  define ps2 where "ps2 = vole_prng_update ps1 i True G1"
  have ps2: "vole_keys_from E pl key (Suc i) ps2"
    unfolding ps2_def ps1_def by (rule vole_keys_update(3) [OF ps i])
  have b: "length (?e l) = 8 + ?n * 16" for l
    by (simp add: length_enc_row z2_N_BYTES_def)
  have n64: "?n < 2 ^ 64" using n(1) pl by linarith
  obtain os' where os': "row_pack (vs_os s) (vole_u E key vx i) = Inr os'" "os_extends (vs_os s) (?e i) os'"
    using row_codec.pack_extends [of "vole_u E key vx i" "vs_os s"] os n64 by auto
  have data': "os_data os' = concat (map ?e [i div mr * mr..<Suc i])"
    using os'(2) data by (simp add: os_extends_def div_times_less_eq_dividend)
  have os'w: "os_writable os'" using os'(2) by (rule os_extends_writable)
  have d: "deferred_plus vx (?t True) = Inr (map (\<lambda>j. vx ! j + ?t True ! j) [0..<?n])"
    "deferred_plus (map (\<lambda>j. vx ! j + ?t True ! j) [0..<?n]) (?t False) = Inr (vole_u E key vx i)"
    by (simp_all add: deferred_plus_def vole_u_def)
  have sum: "row_add_assign (vs_res s) (map (push_bit i) (?t False)) = Inr (vole_sum ?n (\<lambda>l. vole_t E key ?n l False) (Suc i))"
    unfolding res by (rule vole_sum_Suc) simp
  have round: "vole_send_round E pl mr vx i s =
      (if vole_flush mr i
       then bind_result (player_send_to os' (vs_channel s)) (\<lambda>ch. Inr (s\<lparr>vs_prngs := ps2, vs_os := os_reset_write_head os',
              vs_res := vole_sum ?n (\<lambda>l. vole_t E key ?n l False) (Suc i), vs_channel := ch\<rparr>))
       else Inr (s\<lparr>vs_prngs := ps2, vs_os := os', vs_res := vole_sum ?n (\<lambda>l. vole_t E key ?n l False) (Suc i)\<rparr>))"
    unfolding vole_send_round_def
    by (simp add: G0 G1 d os' row_shl_ok [OF i] sum Let_def flip: ps1_def ps2_def)
  show ?thesis
  proof (cases "vole_flush mr i")
    case False
    then have ne: "i mod mr \<noteq> mr - 1" "Suc i \<noteq> S_BITS" by (auto simp: vole_flush_def)
    show ?thesis
      unfolding round using False ne ps2 os'w data' chan div_Suc_same [OF mr ne(1)]
      by (simp add: vole_send_inv_def)
  next
    case True
    have msg: "os_data os' = vole_msg mr ?e (i div mr)"
    proof (cases "i mod mr = mr - 1")
      case True
      then show ?thesis
        using div_Suc_group [OF mr True] i by (simp add: data' vole_msg_def)
    next
      case False
      then have "Suc i = S_BITS" using True by (simp add: vole_flush_def S_BITS_def)
      moreover from this have "S_BITS \<le> (i div mr + 1) * mr" using group_less [OF mr, of i] by linarith
      ultimately show ?thesis by (simp add: data' vole_msg_def)
    qed
    have "length (vole_msg mr ?e (i div mr)) < 2 ^ 32"
      using vole_msg_length [of ?e, OF b] n(2) by (rule order.strict_trans1)
    then have send: "player_send_to os' (vs_channel s) = Inr (vs_channel s @ frame (vole_msg mr ?e (i div mr)))"
      using player_send_frame [OF os'w] msg by (simp add: os_len_def)
    have groups: "(if Suc i = S_BITS then vole_groups mr else Suc i div mr) = Suc (i div mr)"
    proof (cases "Suc i = S_BITS")
      case True
      then show ?thesis by (simp add: vole_groups_def flip: True)
    next
      case False
      then have "i mod mr = mr - 1" using True by (auto simp: vole_flush_def S_BITS_def)
      from div_Suc_group [OF mr this] show ?thesis using False mr by simp
    qed
    have empty: "(if Suc i = S_BITS then [] else concat (map ?e [Suc i div mr * mr..<Suc i])) = []"
    proof (cases "Suc i = S_BITS")
      case False
      then have "i mod mr = mr - 1" using True by (auto simp: vole_flush_def S_BITS_def)
      from div_Suc_group [OF mr this] show ?thesis using False mr by simp
    qed simp
    have "vole_send_round E pl mr vx i s = Inr (s\<lparr>vs_prngs := ps2, vs_os := os_reset_write_head os',
        vs_res := vole_sum ?n (\<lambda>l. vole_t E key ?n l False) (Suc i),
        vs_channel := vs_channel s @ frame (vole_msg mr ?e (i div mr))\<rparr>)"
      using round True send by simp
    then show ?thesis
      unfolding vole_send_inv_def groups empty using ps2 by (simp add: chan vole_wire_def)
  qed
qed

subsection \<open>Receiver\<close>

definition vole_a ::
  "block_cipher \<Rightarrow> (nat \<Rightarrow> bool \<Rightarrow> octet list) \<Rightarrow> z_k2s row \<Rightarrow> z_s \<Rightarrow> nat \<Rightarrow> z_k2s row" where
  "vole_a E key vx alpha l =
     (if bit alpha l then map (\<lambda>j. vole_u E key vx l ! j - vole_t E key (length vx) l True ! j) [0..<length vx]
      else vole_t E key (length vx) l False)"

lemma length_vole_a [simp]: "length (vole_a E key vx alpha l) = length vx"
  by (simp add: vole_a_def)

definition vole_recv_inv ::
  "block_cipher \<Rightarrow> nat \<Rightarrow> nat \<Rightarrow> (nat \<Rightarrow> bool \<Rightarrow> octet list) \<Rightarrow> z_k2s row \<Rightarrow> z_s \<Rightarrow> octet list \<Rightarrow> nat \<Rightarrow> vole_state \<Rightarrow> bool" where
  "vole_recv_inv E pl mr key vx alpha rest i s \<longleftrightarrow>
     vole_keys_from E pl key i (vs_prngs s) \<and> os_ready (vs_os s)
     \<and> os_unread (vs_os s) = concat (map (\<lambda>l. enc_row (vole_u E key vx l)) [i..<min ((i div mr + 1) * mr) S_BITS])
     \<and> vs_channel s = vole_wire mr (\<lambda>l. enc_row (vole_u E key vx l)) (i div mr + 1) (vole_groups mr) @ rest
     \<and> vs_res s = vole_sum (length vx) (vole_a E key vx alpha) i"

lemma vole_recv_round_inv:
  assumes i: "i < S_BITS" and inv: "vole_recv_inv E pl mr key vx alpha rest i s"
    and E: "cipher_ok E" and pl: "0 < pl" and mr: "0 < mr"
    and n: "length vx + pl \<le> 2 ^ 64" "min mr S_BITS * (8 + length vx * 16) < 2 ^ 32"
  shows "\<exists>s'. vole_recv_round E pl mr (length vx) alpha i s = Some (Inr s')
    \<and> vole_recv_inv E pl mr key vx alpha rest (Suc i) s'"
proof -
  let ?n = "length vx" and ?e = "\<lambda>l. enc_row (vole_u E key vx l)"
  let ?c = "bit alpha i" and ?M = "min ((i div mr + 1) * mr) S_BITS"
  have ps: "vole_keys_from E pl key i (vs_prngs s)" and os: "os_ready (vs_os s)"
    and unread: "os_unread (vs_os s) = concat (map ?e [i..<?M])"
    and chan: "vs_channel s = vole_wire mr ?e (i div mr + 1) (vole_groups mr) @ rest"
    and res: "vs_res s = vole_sum ?n (vole_a E key vx alpha) i"
    using inv by (simp_all add: vole_recv_inv_def)
  obtain G where G: "row_randomize E pl ?n (vole_prng (vs_prngs s) i ?c) = Inr (vole_t E key ?n i ?c, G)"
    using vole_row_at [OF _ E pl n(1)] ps i unfolding vole_keys_from_def vole_t_def by blast
  define ps1 where "ps1 = vole_prng_update (vs_prngs s) i ?c G"
  have ps1: "vole_keys_from E pl key (Suc i) ps1"
    unfolding ps1_def by (rule vole_keys_update(1) [OF ps i])
  have b: "length (?e l) = 8 + ?n * 16" for l
    by (simp add: length_enc_row z2_N_BYTES_def)
  have n64: "?n < 2 ^ 64" using n(1) pl by linarith
  have M: "i < ?M" using i group_less [OF mr, of i] by simp
  then have unread': "os_unread (vs_os s) = ?e i @ concat (map ?e [Suc i..<?M])"
    unfolding unread by (simp add: upt_conv_Cons)
  obtain os' where os': "row_unpack (vs_os s) = Inr (vole_u E key vx i, os')"
    "os_advanced (length (?e i)) (vs_os s) os'"
    using row_codec.unpack_enc [OF _ os unread'] n64 by auto
  have os'r: "os_ready os'" "os_unread os' = concat (map ?e [Suc i..<?M])"
    using os_advanced_ready [OF os'(2) os] os_advanced_unread [OF os'(2)] unread' by simp_all
  have a: "(if ?c then deferred_minus (vole_u E key vx i) (vole_t E key ?n i ?c) else Inr (vole_t E key ?n i ?c))
      = Inr (vole_a E key vx alpha i)"
    by (simp add: vole_a_def deferred_minus_ok)
  have sum: "row_add_assign (vs_res s) (map (push_bit i) (vole_a E key vx alpha i)) = Inr (vole_sum ?n (vole_a E key vx alpha) (Suc i))"
    unfolding res by (rule vole_sum_Suc) simp
  have round: "vole_recv_round E pl mr ?n alpha i s =
      (if i mod mr = mr - 1 \<and> i \<noteq> S_BITS - 1
       then bind_io (player_receive_player (os_reset_write_head os') (vs_channel s)) (\<lambda>(os, ch).
              Some (Inr (s\<lparr>vs_prngs := ps1, vs_os := os, vs_res := vole_sum ?n (vole_a E key vx alpha) (Suc i), vs_channel := ch\<rparr>)))
       else Some (Inr (s\<lparr>vs_prngs := ps1, vs_os := os', vs_res := vole_sum ?n (vole_a E key vx alpha) (Suc i)\<rparr>)))"
    unfolding vole_recv_round_def Let_def
    by (simp add: G os' a row_shl_ok [OF i] sum flip: ps1_def)
  show ?thesis
  proof (cases "i mod mr = mr - 1 \<and> i \<noteq> S_BITS - 1")
    case True
    then have Suc: "Suc i = (i div mr + 1) * mr" "Suc i < S_BITS"
      using div_Suc_group [OF mr] i by (blast, linarith)
    have div: "Suc i div mr = i div mr + 1"
      unfolding Suc(1) using mr by (intro nonzero_mult_div_cancel_right) simp
    have "Suc i div mr \<le> (S_BITS - 1) div mr" using Suc(2) by (intro div_le_mono) simp
    then have "i div mr + 1 < vole_groups mr" unfolding div vole_groups_def by simp
    then have "vole_wire mr ?e (i div mr + 1) (vole_groups mr)
        = frame (vole_msg mr ?e (i div mr + 1)) @ vole_wire mr ?e (i div mr + 1 + 1) (vole_groups mr)"
      by (rule vole_wire_Cons)
    moreover have "length (vole_msg mr ?e (i div mr + 1)) < 2 ^ 32"
      using vole_msg_length [of ?e, OF b] n(2) by (rule order.strict_trans1)
    moreover note player_receive_frame [OF this, of "os_reset_write_head os'"
        "vole_wire mr ?e (i div mr + 1 + 1) (vole_groups mr) @ rest"]
    ultimately obtain os'' where os'': "player_receive_player (os_reset_write_head os') (vs_channel s)
        = Some (Inr (os'', vole_wire mr ?e (i div mr + 1 + 1) (vole_groups mr) @ rest))"
      "os_ready os''" "os_unread os'' = vole_msg mr ?e (i div mr + 1)"
      using chan by auto
    have "vole_msg mr ?e (i div mr + 1) = concat (map ?e [Suc i..<min ((Suc i div mr + 1) * mr) S_BITS])"
      by (simp only: vole_msg_def div Suc(1) [symmetric])
    then show ?thesis
      unfolding round vole_recv_inv_def using True os'' ps1 div by simp
  next
    case False
    have "[Suc i..<?M] = [Suc i..<min ((Suc i div mr + 1) * mr) S_BITS]
        \<and> vole_wire mr ?e (i div mr + 1) (vole_groups mr) = vole_wire mr ?e (Suc i div mr + 1) (vole_groups mr)"
    proof (cases "i mod mr = mr - 1")
      case True
      then have "Suc i = S_BITS" using False by (auto simp: S_BITS_def)
      moreover from this have "S_BITS - 1 = i" by simp
      then have "vole_groups mr = i div mr + 1" by (simp only: vole_groups_def)
      moreover have "i div mr \<le> Suc i div mr" by (simp add: div_le_mono)
      ultimately show ?thesis by (simp add: vole_wire_def)
    next
      case False
      then show ?thesis by (simp add: div_Suc_same [OF mr])
    qed
    then show ?thesis
      unfolding round vole_recv_inv_def using False os'r ps1 chan by auto
  qed
qed

subsection \<open>The whole exchange\<close>

definition vole_key :: "nat \<Rightarrow> bool \<Rightarrow> octet list" where
  "vole_key l c = (if c then vole_seed1 else vole_seed0)"

lemma vole_prng_fake_keys:
  assumes "length ps = S_BITS" "0 < pl" "pl \<le> 256"
  shows "\<exists>ps'. vole_prng_fake E pl ps = Inr ps' \<and> vole_keys_from E pl vole_key 0 ps'"
proof -
  define P where "P i ps \<longleftrightarrow> length ps = S_BITS
      \<and> (\<forall>l c. l < i \<longrightarrow> prng_at E pl (vole_key l c) 0 (vole_prng ps l c))" for i and ps :: vole_prngs
  have "\<exists>ps'. vole_prng_fake E pl ps = Inr ps' \<and> P S_BITS ps'"
    unfolding vole_prng_fake_def
  proof (rule foldM_result_upt)
    show "P 0 ps" using assms(1) by (simp add: P_def)
  next
    fix i ps assume i: "i < S_BITS" and P: "P i ps"
    have upd: "length ps = S_BITS \<Longrightarrow> vole_prng (ps[i := (G0, G1)]) l c
        = (if l = i then (if c then G1 else G0) else vole_prng ps l c)" for ps G0 G1 l c
      using i by (simp add: vole_prng_def nth_list_update)
    have key: "prng_at E pl vole_seed0 0 G0 \<Longrightarrow> prng_at E pl vole_seed1 0 G1 \<Longrightarrow>
        prng_at E pl (vole_key l c) 0 (if c then G1 else G0)" for G0 G1 l c
      by (simp add: vole_key_def)
    have seed: "take SEED_SIZE vole_seed0 = vole_seed0" "take SEED_SIZE vole_seed1 = vole_seed1"
      by (simp_all add: vole_seed0_def vole_seed1_def SEED_SIZE_def AES_BLK_SIZE_def)
    obtain G0 G1 where G: "prng_SetSeed E pl vole_seed0 (fst (ps ! i)) = Inr G0" "prng_at E pl vole_seed0 0 G0"
      "prng_SetSeed E pl vole_seed1 (snd (ps ! i)) = Inr G1" "prng_at E pl vole_seed1 0 G1"
      using prng_SetSeed_at [OF assms(2,3)] seed by metis
    then show "\<exists>ps'. bind_result (prng_SetSeed E pl vole_seed0 (fst (ps ! i)))
         (\<lambda>G0. bind_result (prng_SetSeed E pl vole_seed1 (snd (ps ! i)))
           (\<lambda>G1. Inr (ps[i := (G0, G1)]))) = Inr ps' \<and> P (Suc i) ps'"
      using P i upd [of ps G0 G1] key [of G0 G1 i] by (auto simp: P_def less_Suc_eq)
  qed
  then show ?thesis by (auto simp: P_def vole_keys_from_def)
qed

lemma sum_bits_ucast: "(\<Sum>l<S_BITS. push_bit l (of_bool (bit (alpha :: z_s) l))) = (ucast alpha :: z_k2s)"
proof -
  have "take_bit S_BITS (ucast alpha :: z_k2s) = ucast alpha"
    by (rule bit_word_eqI) (auto simp: bit_simps S_BITS_def dest: bit_imp_le_length)
  moreover have "(\<Sum>l<S_BITS. push_bit l (of_bool (bit alpha l)) :: z_k2s) = (\<Sum>l = 0..<S_BITS. push_bit l (of_bool (bit (ucast alpha :: z_k2s) l)))"
    by (intro sum.cong) (auto simp: S_BITS_def bit_simps)
  ultimately show ?thesis by (simp only: take_bit_sum)
qed

text \<open>The two sums differ by the key times the input.\<close>

lemma vole_sums:
  assumes "j < length vx"
  shows "vole_sum (length vx) (vole_a E key vx alpha) S_BITS ! j
    = vole_sum (length vx) (\<lambda>l. vole_t E key (length vx) l False) S_BITS ! j + ucast alpha * vx ! j"
proof -
  let ?t = "\<lambda>l. vole_t E key (length vx) l False ! j"
  have "vole_a E key vx alpha l ! j = ?t l + of_bool (bit alpha l) * vx ! j" for l
    using assms by (simp add: vole_a_def vole_u_def)
  then have "push_bit l (vole_a E key vx alpha l ! j)
      = push_bit l (?t l) + push_bit l (of_bool (bit alpha l)) * vx ! j" for l
    by (simp add: push_bit_eq_mult algebra_simps)
  then have "(\<Sum>l<S_BITS. push_bit l (vole_a E key vx alpha l ! j))
      = (\<Sum>l<S_BITS. push_bit l (?t l)) + (\<Sum>l<S_BITS. push_bit l (of_bool (bit alpha l))) * vx ! j"
    by (simp add: sum.distrib sum_distrib_right)
  then show ?thesis
    using assms by (simp add: vole_sum_def sum_bits_ucast)
qed

lemma vole_send_run:
  assumes "length ps = S_BITS" "length output = length x" and E: "cipher_ok E" "0 < pl" "pl \<le> 256" "0 < mr"
    and n: "length x + pl \<le> 2 ^ 64" "min mr S_BITS * (8 + length x * 16) < 2 ^ 32"
  shows "vole_send_simu E pl mr ps ch output x =
    Inr (vole_sum (length x) (\<lambda>l. vole_t E vole_key (length x) l False) S_BITS,
      ch @ vole_wire mr (\<lambda>l. enc_row (vole_u E vole_key (map ucast x) l)) 0 (vole_groups mr))"
proof -
  let ?vx = "map ucast x :: z_k2s row"
  obtain ps' where ps': "vole_prng_fake E pl ps = Inr ps'" "vole_keys_from E pl vole_key 0 ps'"
    using vole_prng_fake_keys [OF assms(1) E(2,3)] by blast
  let ?s = "\<lparr>vs_prngs = ps', vs_os = os_reserve (length x * 18) os_empty, vs_res = replicate (length x) 0, vs_channel = ch\<rparr>"
  have os: "os_writable (os_reserve n os_empty)" "os_data (os_reserve n os_empty) = []" for n
    using os_inv_alloc(3) [OF os_inv_empty(1)]
    by (auto simp: os_writable_def os_inv_def os_alloc_defs os_empty_def os_len_def BitBuffer_def Let_def)
  have "\<exists>s'. foldM_result (vole_send_round E pl mr ?vx) [0..<S_BITS] ?s = Inr s'
      \<and> vole_send_inv E pl mr vole_key ?vx ch S_BITS s'"
  proof (rule foldM_result_upt)
    show "vole_send_inv E pl mr vole_key ?vx ch 0 ?s"
      using ps'(2) os by (simp add: vole_send_inv_def vole_wire_def S_BITS_def)
  next
    fix i s assume "i < S_BITS" "vole_send_inv E pl mr vole_key ?vx ch i s"
    then show "\<exists>s'. vole_send_round E pl mr ?vx i s = Inr s' \<and> vole_send_inv E pl mr vole_key ?vx ch (Suc i) s'"
      using E n by (intro vole_send_round_inv) simp_all
  qed
  then obtain s' where s': "foldM_result (vole_send_round E pl mr ?vx) [0..<S_BITS] ?s = Inr s'"
    "vole_send_inv E pl mr vole_key ?vx ch S_BITS s'" by blast
  have vx: "map (\<lambda>i. ucast (x ! i)) [0..<length x] = ?vx"
    by (intro nth_equalityI) simp_all
  have out: "map (\<lambda>i. vs_res s' ! i) [0..<length x] = vs_res s'"
    using s'(2) by (intro nth_equalityI) (simp_all add: vole_send_inv_def vole_sum_def)
  show ?thesis
    unfolding vole_send_simu_def Let_def ps'(1) bind_result.simps vx s'(1) out
    using s'(2) assms(2) by (simp add: vole_send_inv_def)
qed

lemma vole_recv_run:
  assumes "length ps = S_BITS" "length output = length x" and E: "cipher_ok E" "0 < pl" "pl \<le> 256" "0 < mr"
    and n: "length x + pl \<le> 2 ^ 64" "min mr S_BITS * (8 + length x * 16) < 2 ^ 32"
  shows "vole_recv_simu E pl mr ps
      (vole_wire mr (\<lambda>l. enc_row (vole_u E vole_key (map ucast x) l)) 0 (vole_groups mr) @ rest) output alpha =
    Some (Inr (vole_sum (length x) (vole_a E vole_key (map ucast x) alpha) S_BITS, rest))"
proof -
  let ?vx = "map ucast x :: z_k2s row" and ?e = "\<lambda>l. enc_row (vole_u E vole_key (map ucast x) l)"
  obtain ps' where ps': "vole_prng_fake E pl ps = Inr ps'" "vole_keys_from E pl vole_key 0 ps'"
    using vole_prng_fake_keys [OF assms(1) E(2,3)] by blast
  let ?os = "os_reset_write_head (os_reserve (length output * 18) os_empty)"
  have wire: "vole_wire mr ?e 0 (vole_groups mr) @ rest
      = frame (vole_msg mr ?e 0) @ vole_wire mr ?e (0 + 1) (vole_groups mr) @ rest"
    by (subst vole_wire_Cons) (simp_all add: vole_groups_def)
  have b: "length (?e l) = 8 + length x * 16" for l
    by (simp add: length_enc_row z2_N_BYTES_def)
  have "length (vole_msg mr ?e 0) < 2 ^ 32"
    using vole_msg_length [of ?e, OF b] n(2) by (rule order.strict_trans1)
  then obtain os where os: "player_receive_player ?os (vole_wire mr ?e 0 (vole_groups mr) @ rest)
      = Some (Inr (os, vole_wire mr ?e (0 + 1) (vole_groups mr) @ rest))"
    "os_ready os" "os_unread os = vole_msg mr ?e 0"
    unfolding wire using player_receive_frame by blast
  let ?s = "\<lparr>vs_prngs = ps', vs_os = os, vs_res = replicate (length output) 0,
      vs_channel = vole_wire mr ?e (0 + 1) (vole_groups mr) @ rest\<rparr>"
  have "\<exists>s'. foldM_io (vole_recv_round E pl mr (length ?vx) alpha) [0..<S_BITS] ?s = Some (Inr s')
      \<and> vole_recv_inv E pl mr vole_key ?vx alpha rest S_BITS s'"
  proof (rule foldM_io_upt)
    show "vole_recv_inv E pl mr vole_key ?vx alpha rest 0 ?s"
      using ps'(2) os assms(2) by (simp add: vole_recv_inv_def vole_msg_def)
  next
    fix i s assume "i < S_BITS" "vole_recv_inv E pl mr vole_key ?vx alpha rest i s"
    then show "\<exists>s'. vole_recv_round E pl mr (length ?vx) alpha i s = Some (Inr s')
        \<and> vole_recv_inv E pl mr vole_key ?vx alpha rest (Suc i) s'"
      using E n by (intro vole_recv_round_inv) simp_all
  qed
  then obtain s' where s': "foldM_io (vole_recv_round E pl mr (length output) alpha) [0..<S_BITS] ?s = Some (Inr s')"
    "vole_recv_inv E pl mr vole_key ?vx alpha rest S_BITS s'" using assms(2) by auto
  have out: "map (\<lambda>i. vs_res s' ! i) [0..<length output] = vs_res s'"
    using s'(2) assms(2) by (intro nth_equalityI) (simp_all add: vole_recv_inv_def vole_sum_def)
  have last: "vole_wire mr ?e (S_BITS div mr + 1) (vole_groups mr) = []"
    using div_le_mono [of "S_BITS - 1" S_BITS mr] by (simp add: vole_wire_def vole_groups_def)
  show ?thesis
    unfolding vole_recv_simu_def Let_def ps'(1) bind_io.simps os(1) prod.case s'(1) out
    using s'(2) last by (simp add: vole_recv_inv_def)
qed

end
