(* ===== verification/AlphaInput.thy ===== *)
theory AlphaInput
  imports AlphaVole
begin

section \<open>AlphaFL: input commitment and consistency check (Alpha/alpha-client.cpp, alpha-server.cpp)\<close>

text \<open>
  The client and the two servers of one input commitment, in the honest-majority (mode 0) and
  dishonest-majority (mode 1) variants, and the servers' consistency check. The sources draw
  \<open>x0\<close>, \<open>m0\<close> and \<open>alpha\<close> from stubs that return constants where their comments ask for shared
  generators. Each handler is therefore split in two definitions that map to the same lines: one
  takes these values as arguments, the other calls the stubs.
  A socket is the list of bytes written and not read; operations that wait return \<open>io\<close> values.
\<close>

subsection \<open>Messages of pairs\<close>

definition pack_pair :: "octet_stream \<Rightarrow> z_ks \<times> z_k2s \<Rightarrow> octet_stream result" where
  "pack_pair os p = bind_result (zw_pack os (fst p)) (\<lambda>os. zw_pack os (snd p))"

definition get_pair :: "octet_stream \<Rightarrow> ((z_ks \<times> z_k2s) \<times> octet_stream) result" where
  "get_pair os = bind_result (zw_get os) (\<lambda>(x, os). bind_result (zw_get os) (\<lambda>(m, os). Inr ((x, m), os)))"

locale codec_pair =
  a: codec pack_a unpack_a enc_a valid_a + b: codec pack_b unpack_b enc_b valid_b
  for pack_a :: "octet_stream \<Rightarrow> 'a \<Rightarrow> octet_stream result" and unpack_a enc_a valid_a
  and pack_b :: "octet_stream \<Rightarrow> 'b \<Rightarrow> octet_stream result" and unpack_b enc_b valid_b
begin

lemma codec_prod:
  "codec (\<lambda>os p. bind_result (pack_a os (fst p)) (\<lambda>os. pack_b os (snd p)))
     (\<lambda>os. bind_result (unpack_a os) (\<lambda>(x, os). bind_result (unpack_b os) (\<lambda>(y, os). Inr ((x, y), os))))
     (\<lambda>p. enc_a (fst p) @ enc_b (snd p)) (\<lambda>p. valid_a (fst p) \<and> valid_b (snd p))"
proof
  fix p :: "'a \<times> 'b" and os rest
  assume v: "valid_a (fst p) \<and> valid_b (snd p)"
  { assume "os_writable os"
    then obtain os1 where 1: "pack_a os (fst p) = Inr os1" "os_extends os (enc_a (fst p)) os1"
      using a.pack_extends v by blast
    obtain os2 where 2: "pack_b os1 (snd p) = Inr os2" "os_extends os1 (enc_b (snd p)) os2"
      using b.pack_extends v os_extends_writable [OF 1(2)] by blast
    from 1 2 show "\<exists>os'. bind_result (pack_a os (fst p)) (\<lambda>os. pack_b os (snd p)) = Inr os'
        \<and> os_extends os (enc_a (fst p) @ enc_b (snd p)) os'"
      by (auto intro: os_extends_trans) }
  { assume os: "os_ready os" "os_unread os = (enc_a (fst p) @ enc_b (snd p)) @ rest"
    then obtain os1 where 1: "unpack_a os = Inr (fst p, os1)" "os_advanced (length (enc_a (fst p))) os os1"
      using a.unpack_enc [of "fst p" os "enc_b (snd p) @ rest"] v by auto
    have "os_ready os1" "os_unread os1 = enc_b (snd p) @ rest"
      using os_advanced_ready [OF 1(2)] os_advanced_unread [OF 1(2)] os by simp_all
    then obtain os2 where 2: "unpack_b os1 = Inr (snd p, os2)" "os_advanced (length (enc_b (snd p))) os1 os2"
      using b.unpack_enc v by blast
    from 1 2 show "\<exists>os'. bind_result (unpack_a os) (\<lambda>(x, os). bind_result (unpack_b os) (\<lambda>(y, os). Inr ((x, y), os))) = Inr (p, os')
        \<and> os_advanced (length (enc_a (fst p) @ enc_b (snd p))) os os'"
      using os_advanced_trans [OF 1(2) 2(2)] by simp }
qed

end

interpretation zw_pair: codec_pair
  "zw_pack :: _ \<Rightarrow> z_ks \<Rightarrow> _" zw_get "\<lambda>w. le_bytes (z2_N_BYTES LENGTH(64)) (unat w)" "\<lambda>_. True"
  "zw_pack :: _ \<Rightarrow> z_k2s \<Rightarrow> _" zw_get "\<lambda>w. le_bytes (z2_N_BYTES LENGTH(127)) (unat w)" "\<lambda>_. True"
  by unfold_locales

definition enc_pair :: "z_ks \<times> z_k2s \<Rightarrow> octet list" where
  "enc_pair p = le_bytes 8 (unat (fst p)) @ le_bytes 16 (unat (snd p))"

interpretation pair_codec: codec pack_pair get_pair enc_pair "\<lambda>_. True"
proof -
  have "pack_pair = (\<lambda>os p. bind_result (zw_pack os (fst p)) (\<lambda>os. zw_pack os (snd p)))"
    "get_pair = (\<lambda>os. bind_result (zw_get os) (\<lambda>(x, os). bind_result (zw_get os) (\<lambda>(y, os). Inr ((x, y), os))))"
    "enc_pair = (\<lambda>p. le_bytes (z2_N_BYTES LENGTH(64)) (unat (fst p)) @ le_bytes (z2_N_BYTES LENGTH(127)) (unat (snd p)))"
    by (simp_all add: fun_eq_iff pack_pair_def get_pair_def enc_pair_def z2_N_BYTES_def)
  then show "codec pack_pair get_pair enc_pair (\<lambda>_. True)"
    using zw_pair.codec_prod by simp
qed

subsection \<open>Client\<close>

text \<open>Steps 2 to 4 of \<open>input_commit_honest\<close>: tag every input under \<open>alpha\<close>, send server 1 its shares.\<close>

definition client_commit_honest_with ::
  "block_cipher \<Rightarrow> nat \<Rightarrow> prng \<Rightarrow> z_s \<Rightarrow> z_s \<Rightarrow> z_ks list \<Rightarrow> z_ks list \<Rightarrow> z_ks \<Rightarrow> z_k2s list \<Rightarrow> z_k2s \<Rightarrow>
    octet list \<Rightarrow> octet list result" where
  "client_commit_honest_with E pl local_prng alpha0 alpha1 x x0 xt0 m0 mt0 channel =
     (let x_len = length x;
          alpha = ucast alpha0 + ucast alpha1 :: z_k2s
      in bind_result (prng_get_z2 E pl LENGTH(64) local_prng) (\<lambda>(r, _).
      let xt1 = z2_word r :: z_ks;
          x1 = map (\<lambda>i. x ! i - x0 ! i) [0..<x_len];
          xt = ucast xt0 + ucast xt1 :: z_k2s;
          m = map (\<lambda>i. (ucast (x0 ! i) + ucast (x1 ! i)) * alpha) [0..<x_len];
          m1 = map (\<lambda>i. m ! i - m0 ! i) [0..<x_len];
          mt = xt * alpha;
          mt1 = mt - mt0;
          os = os_reset_write_head os_empty
      in bind_result (os_store_all pack_pair os (map (\<lambda>i. (x1 ! i, m1 ! i)) [0..<x_len])) (\<lambda>os.
         bind_result (zw_pack os xt1) (\<lambda>os.
         bind_result (zw_pack os mt1) (\<lambda>os. player_send_to os channel)))))"

definition client_commit_honest ::
  "block_cipher \<Rightarrow> nat \<Rightarrow> prng \<Rightarrow> z_ks list \<Rightarrow> z_ks list \<Rightarrow> z_k2s list \<Rightarrow> octet list \<Rightarrow> octet list result" where
  "client_commit_honest E pl local_prng x x0 m0 channel =
     client_commit_honest_with E pl local_prng (get_alpha 0) (get_alpha 1) x
       (get_x0_vec x0) (get_x0 0) (get_m0_vec m0) (get_m0 0) channel"

text \<open>\<open>input_commit_dishonest\<close>: a vector OLE with server 0 tags the inputs; server 1 gets shares.\<close>

definition client_commit_dishonest_with ::
  "block_cipher \<Rightarrow> nat \<Rightarrow> nat \<Rightarrow> prng \<Rightarrow> vole_prngs \<Rightarrow> z_ks list \<Rightarrow> z_ks list \<Rightarrow> z_ks \<Rightarrow> z_k2s list \<Rightarrow>
    octet list \<Rightarrow> octet list \<Rightarrow> (octet list \<times> octet list) result" where
  "client_commit_dishonest_with E pl mr local_prng prngs x x0 xt0 b1 channel0 channel1 =
     (let x_len = length x;
          x1 = map (\<lambda>i. x ! i - x0 ! i) [0..<x_len]
      in bind_result (prng_get_z2 E pl LENGTH(64) local_prng) (\<lambda>(r, _).
      let xt1 = z2_word r :: z_ks;
          xt = xt0 + xt1;
          xv = x @ [xt]
      in bind_result (vole_send_simu E pl mr prngs channel0 b1 xv) (\<lambda>(b1, channel0).
      let os = os_reset_write_head os_empty
      in bind_result (os_store_all pack_pair os (map (\<lambda>i. (x1 ! i, b1 ! i)) [0..<x_len])) (\<lambda>os.
         bind_result (zw_pack os xt1) (\<lambda>os.
         bind_result (zw_pack os (b1 ! x_len)) (\<lambda>os.
         bind_result (player_send_to os channel1) (\<lambda>channel1. Inr (channel0, channel1))))))))"

definition client_commit_dishonest ::
  "block_cipher \<Rightarrow> nat \<Rightarrow> nat \<Rightarrow> prng \<Rightarrow> vole_prngs \<Rightarrow> z_ks list \<Rightarrow> z_ks list \<Rightarrow> z_k2s list \<Rightarrow>
    octet list \<Rightarrow> octet list \<Rightarrow> (octet list \<times> octet list) result" where
  "client_commit_dishonest E pl mr local_prng prngs x x0 b1 channel0 channel1 =
     client_commit_dishonest_with E pl mr local_prng prngs x (get_x0_vec x0) (get_x0 0) b1 channel0 channel1"

subsection \<open>Servers\<close>

text \<open>Steps 5 and 6 of the check: one random combination of the values, one of the tags.\<close>

definition check_v :: "z_s list \<Rightarrow> z_ks list \<Rightarrow> z_ks \<Rightarrow> z_k2s \<Rightarrow> z_k2s" where
  "check_v r x xt v = fold (\<lambda>i v. v + ucast (r ! i) * ucast (x ! i)) [0..<length x] (v + ucast xt)"

definition check_d :: "z_s list \<Rightarrow> z_k2s list \<Rightarrow> nat \<Rightarrow> z_k2s \<Rightarrow> z_k2s \<Rightarrow> z_k2s" where
  "check_d r m x_len mt d = fold (\<lambda>i d. d + m ! i * ucast (r ! i)) [0..<x_len] (d + mt)"

definition get_pairs :: "nat \<Rightarrow> octet list \<Rightarrow> ((z_ks \<times> z_k2s) list \<times> (z_ks \<times> z_k2s) \<times> octet list) io" where
  "get_pairs x_len channel =
     bind_io (player_receive_player os_empty channel) (\<lambda>(os, channel).
     bind_io (Some (os_get_all get_pair x_len os)) (\<lambda>(ps, os).
     bind_io (Some (zw_get os)) (\<lambda>(xt, os).
     bind_io (Some (zw_get os)) (\<lambda>(mt, os). Some (Inr (ps, (xt, mt), channel))))))"

text \<open>\<open>input_commit_honest\<close> of a server: its shares of values and tags, and the sums of the check.\<close>

definition server_commit_honest_with ::
  "nat \<Rightarrow> z_ks list \<Rightarrow> z_ks \<Rightarrow> z_k2s list \<Rightarrow> z_k2s \<Rightarrow> nat \<Rightarrow> z_s list \<Rightarrow> z_k2s \<Rightarrow> z_k2s \<Rightarrow> octet list \<Rightarrow>
    (z_ks list \<times> z_k2s list \<times> z_k2s \<times> z_k2s) io" where
  "server_commit_honest_with my_num x0 xt0 m0 mt0 x_len r v d channel =
     bind_io (if my_num = 0 then Some (Inr (x0, xt0, m0, mt0))
              else bind_io (get_pairs x_len channel)
                     (\<lambda>(ps, (xt, mt), _). Some (Inr (map fst ps, xt, map snd ps, mt))))
       (\<lambda>(x, xt, m, mt). Some (Inr (x, m, check_v r x xt v, check_d r m (length x) mt d)))"

definition server_commit_honest ::
  "nat \<Rightarrow> z_ks list \<Rightarrow> z_k2s list \<Rightarrow> z_s list \<Rightarrow> z_k2s \<Rightarrow> z_k2s \<Rightarrow> octet list \<Rightarrow>
    (z_ks list \<times> z_k2s list \<times> z_k2s \<times> z_k2s) io" where
  "server_commit_honest my_num x m r v d channel =
     server_commit_honest_with my_num (get_x0_vec x) (get_x0 0) (get_m0_vec m) (get_m0 0) (length x) r v d channel"

text \<open>
  \<open>input_commit_dishonest\<close> of a server. \<open>ab0\<close> is the outcome of the vector OLE between the servers
  (\<open>b0\<close> on server 0, \<open>a0\<close> on server 1), \<open>ab1\<close> the buffer of the one with the client.
\<close>

definition server_commit_dishonest_with ::
  "block_cipher \<Rightarrow> nat \<Rightarrow> nat \<Rightarrow> nat \<Rightarrow> vole_prngs \<Rightarrow> z_s \<Rightarrow> z_ks list \<Rightarrow> z_ks \<Rightarrow> z_k2s list \<Rightarrow> z_k2s list \<Rightarrow>
    nat \<Rightarrow> z_s list \<Rightarrow> z_k2s \<Rightarrow> z_k2s \<Rightarrow> octet list \<Rightarrow> (z_ks list \<times> z_k2s list \<times> z_k2s \<times> z_k2s) io" where
  "server_commit_dishonest_with E pl mr my_num prngs alpha x0 xt0 ab0 ab1 x_len r v d channel =
     bind_io (if my_num = 0
              then bind_io (vole_recv_simu E pl mr prngs channel ab1 alpha)
                     (\<lambda>(ab1, _). Some (Inr (x0, xt0,
                        map (\<lambda>i. ab1 ! i - ab0 ! i) [0..<x_len], ab1 ! x_len - ab0 ! x_len)))
              else bind_io (get_pairs x_len channel)
                     (\<lambda>(ps, (xt, bt), _). Some (Inr (map fst ps, xt,
                        map (\<lambda>i. ucast (fst (ps ! i)) * ucast alpha + ab0 ! i - snd (ps ! i)) [0..<x_len],
                        ucast xt * ucast alpha + ab0 ! x_len - bt))))
       (\<lambda>(x, xt, m, mt). Some (Inr (x, m, check_v r x xt v, check_d r m (length x) mt d)))"

definition server_commit_dishonest ::
  "block_cipher \<Rightarrow> nat \<Rightarrow> nat \<Rightarrow> nat \<Rightarrow> vole_prngs \<Rightarrow> z_s \<Rightarrow> z_ks list \<Rightarrow> z_k2s list \<Rightarrow> z_k2s list \<Rightarrow>
    z_s list \<Rightarrow> z_k2s \<Rightarrow> z_k2s \<Rightarrow> octet list \<Rightarrow> (z_ks list \<times> z_k2s list \<times> z_k2s \<times> z_k2s) io" where
  "server_commit_dishonest E pl mr my_num prngs alpha x ab0 ab1 r v d channel =
     (let x0 = (if my_num = 0 then get_x0_vec x else x);
          xt = get_x0 0;
          ab0 = (if my_num = 0 then vole_send_fake ab0 (x0 @ [xt]) else vole_recv_fake ab0 alpha)
      in server_commit_dishonest_with E pl mr my_num prngs alpha x0 xt ab0 ab1 (length x) r v d channel)"

subsection \<open>Consistency check\<close>

text \<open>
  \<open>consistency_check_all\<close>: the check values of all clients in two rounds. The result lists \<open>zr\<close> and
  the clients reported as failed.
\<close>

definition consistency_check_all ::
  "z_s \<Rightarrow> z_k2s list \<Rightarrow> z_k2s list \<Rightarrow> octet list \<Rightarrow> octet list \<Rightarrow>
    (z_k2s list \<times> nat list \<times> octet list \<times> octet list) io" where
  "consistency_check_all alpha vl d channel_in channel_out =
     (let tot_cli = length vl in
     bind_io (Some (os_store_all zw_pack (os_reset_write_head os_empty) vl)) (\<lambda>os.
     bind_io (Some (player_send_to os channel_out)) (\<lambda>channel_out.
     bind_io (player_receive_player os channel_in) (\<lambda>(os, channel_in).
     bind_io (Some (os_get_all zw_get tot_cli os)) (\<lambda>(vr, os).
     let vr = map (\<lambda>i. vr ! i + vl ! i) [0..<tot_cli];
         zl = map (\<lambda>i. d ! i - vr ! i * ucast alpha) [0..<tot_cli] in
     bind_io (Some (os_store_all zw_pack (os_reset_write_head os) zl)) (\<lambda>os.
     bind_io (Some (player_send_to os channel_out)) (\<lambda>channel_out.
     bind_io (player_receive_player os channel_in) (\<lambda>(os, channel_in).
     bind_io (Some (os_get_all zw_get tot_cli os)) (\<lambda>(zr, os).
     let zr = map (\<lambda>i. zr ! i + zl ! i) [0..<tot_cli] in
     Some (Inr (zr, filter (\<lambda>i. zr ! i \<noteq> 0) [0..<tot_cli], channel_in, channel_out)))))))))))"

text \<open>\<open>consistency_check_one\<close>: the same for one client, drawing the coefficients itself.\<close>

definition consistency_check_one ::
  "block_cipher \<Rightarrow> nat \<Rightarrow> prng \<Rightarrow> z_s \<Rightarrow> z_ks list \<Rightarrow> z_ks \<Rightarrow> z_k2s list \<Rightarrow> z_k2s \<Rightarrow> octet list \<Rightarrow> octet list \<Rightarrow>
    (z_k2s \<times> bool \<times> prng \<times> octet list \<times> octet list) io" where
  "consistency_check_one E pl RS alpha x xt m mt channel_in channel_out =
     bind_io (Some (row_randomize E pl (length x) RS)) (\<lambda>(r :: z_s list, RS).
     let vl = fold (\<lambda>i vl. vl + ucast (r ! i) * ucast (x ! i)) [0..<length x] (ucast xt);
         d = fold (\<lambda>i d. d + m ! i * ucast (r ! i)) [0..<length x] mt in
     bind_io (Some (zw_pack (os_reset_write_head os_empty) vl)) (\<lambda>os.
     bind_io (Some (player_send_to os channel_out)) (\<lambda>channel_out.
     bind_io (player_receive_player os channel_in) (\<lambda>(os, channel_in).
     bind_io (Some (zw_get os)) (\<lambda>(v, os).
     let v = v + vl;
         zl = d - v * ucast alpha :: z_k2s in
     bind_io (Some (zw_pack (os_reset_write_head os) zl)) (\<lambda>os.
     bind_io (Some (player_send_to os channel_out)) (\<lambda>channel_out.
     bind_io (player_receive_player os channel_in) (\<lambda>(os, channel_in).
     bind_io (Some (zw_get os)) (\<lambda>(z, os).
     let z = z + zl in
     Some (Inr (z, z \<noteq> 0, RS, channel_in, channel_out)))))))))))"

end
