(* ===== verification/AlphaCheck.thy ===== *)
theory AlphaCheck
  imports AlphaInput
begin

section \<open>The consistency check accepts honest commitments and catches wrong tags\<close>

text \<open>
  First the messages (what a client sends is what server 1 reads; the two rounds of the check),
  then the algebra: both servers compute \<open>z = d - v * alpha\<close> over the whole commitment, which is
  the random combination of the tag errors.
\<close>

subsection \<open>Messages\<close>

lemma os_empty_writable [simp]: "os_writable (os_reset_write_head os)"
  by simp

definition commit_msg :: "(z_ks \<times> z_k2s) list \<Rightarrow> z_ks \<Rightarrow> z_k2s \<Rightarrow> octet list" where
  "commit_msg ps xt mt = concat (map enc_pair ps) @ le_bytes 8 (unat xt) @ le_bytes 16 (unat mt)"

lemma zw_codec_64:
  "os_writable os \<Longrightarrow> \<exists>os'. zw_pack os (w :: z_ks) = Inr os' \<and> os_extends os (le_bytes 8 (unat w)) os'"
  "os_ready os \<Longrightarrow> os_unread os = le_bytes 8 (unat w) @ rest \<Longrightarrow> \<exists>os'. zw_get os = Inr (w, os') \<and> os_advanced 8 os os'"
  using zw_codec.pack_extends [of os w] zw_codec.unpack_enc [of os w rest]
  by (simp_all add: z2_N_BYTES_def)

lemma zw_codec_127:
  "os_writable os \<Longrightarrow> \<exists>os'. zw_pack os (m :: z_k2s) = Inr os' \<and> os_extends os (le_bytes 16 (unat m)) os'"
  "os_ready os \<Longrightarrow> os_unread os = le_bytes 16 (unat m) @ rest \<Longrightarrow> \<exists>os'. zw_get os = Inr (m, os') \<and> os_advanced 16 os os'"
  using zw_codec.pack_extends [of os m] zw_codec.unpack_enc [of os m rest]
  by (simp_all add: z2_N_BYTES_def)

lemma length_enc_pair [simp]: "length (enc_pair p) = 24"
  by (simp add: enc_pair_def)

lemma length_commit_msg: "length (commit_msg ps xt mt) = 24 * (length ps + 1)"
  by (simp add: commit_msg_def length_concat comp_def sum_list_triv)

lemma commit_pack:
  assumes "24 * (length ps + 1) < 2 ^ 32"
  shows "bind_result (os_store_all pack_pair (os_reset_write_head os) ps) (\<lambda>os.
      bind_result (zw_pack os xt) (\<lambda>os. bind_result (zw_pack os mt) (\<lambda>os. player_send_to os channel)))
    = Inr (channel @ frame (commit_msg ps xt mt))"
proof -
  let ?os = "os_reset_write_head os"
  obtain os1 where 1: "os_store_all pack_pair ?os ps = Inr os1" "os_extends ?os (concat (map enc_pair ps)) os1"
    using pair_codec.store_all_extends [of ps ?os] by (auto simp: list_all_iff)
  obtain os2 where 2: "zw_pack os1 xt = Inr os2" "os_extends os1 (le_bytes 8 (unat xt)) os2"
    using zw_codec_64(1) [OF os_extends_writable [OF 1(2)]] by blast
  obtain os3 where 3: "zw_pack os2 mt = Inr os3" "os_extends os2 (le_bytes 16 (unat mt)) os3"
    using zw_codec_127(1) [OF os_extends_writable [OF 2(2)]] by blast
  have data: "os_data os3 = commit_msg ps xt mt"
    using 1(2) 2(2) 3(2) by (simp add: os_extends_def commit_msg_def)
  have "player_send_to os3 channel = Inr (channel @ frame (os_data os3))"
    using os_extends_writable [OF 3(2)] length_commit_msg [of ps xt mt] assms
    by (intro player_send_frame) (simp_all add: os_len_def data)
  then show ?thesis by (simp add: 1(1) 2(1) 3(1) data)
qed

lemma commit_get:
  assumes "24 * (length ps + 1) < 2 ^ 32" "n = length ps"
  shows "get_pairs n (frame (commit_msg ps xt mt) @ rest) = Some (Inr (ps, (xt, mt), rest))"
proof -
  obtain os where os: "player_receive_player os_empty (frame (commit_msg ps xt mt) @ rest) = Some (Inr (os, rest))"
    "os_ready os" "os_unread os = commit_msg ps xt mt"
    using player_receive_frame [of "commit_msg ps xt mt"] length_commit_msg [of ps xt mt] assms(1) by metis
  obtain os1 where 1: "os_get_all get_pair n os = Inr (ps, os1)"
    "os_advanced (length (concat (map enc_pair ps))) os os1"
    using pair_codec.get_all_enc [of ps os "le_bytes 8 (unat xt) @ le_bytes 16 (unat mt)" n] os assms(2)
    by (auto simp: list_all_iff commit_msg_def)
  have u1: "os_ready os1" "os_unread os1 = le_bytes 8 (unat xt) @ le_bytes 16 (unat mt)"
    using os_advanced_ready [OF 1(2) os(2)] os_advanced_unread [OF 1(2)] os(3) by (simp_all add: commit_msg_def)
  then obtain os2 where 2: "zw_get os1 = Inr (xt, os2)" "os_advanced 8 os1 os2"
    using zw_codec_64(2) by blast
  have u2: "os_ready os2" "os_unread os2 = le_bytes 16 (unat mt) @ []"
    using os_advanced_ready [OF 2(2) u1(1)] os_advanced_unread [OF 2(2)] u1(2) by simp_all
  then obtain os3 where "zw_get os2 = Inr (mt, os3)"
    using zw_codec_127(2) by blast
  then show ?thesis
    by (simp add: get_pairs_def os(1) 1(1) 2(1))
qed

text \<open>One message of tags, and the two rounds of the check.\<close>

definition tags_msg :: "z_k2s list \<Rightarrow> octet list" where
  "tags_msg ms = concat (map (\<lambda>m. le_bytes 16 (unat m)) ms)"

lemma length_tags_msg: "length (tags_msg ms) = 16 * length ms"
  by (simp add: tags_msg_def length_concat comp_def sum_list_triv)

lemma tags_send:
  assumes "16 * length ms < 2 ^ 32"
  shows "\<exists>os'. os_store_all zw_pack (os_reset_write_head os) ms = Inr os'
    \<and> (\<forall>channel. player_send_to os' channel = Inr (channel @ frame (tags_msg ms)))"
proof -
  obtain os' where os': "os_store_all zw_pack (os_reset_write_head os) ms = Inr os'"
    "os_extends (os_reset_write_head os) (tags_msg ms) os'"
    using zw_codec.store_all_extends [of ms "os_reset_write_head os"]
    by (auto simp: list_all_iff tags_msg_def z2_N_BYTES_def)
  then have "os_data os' = tags_msg ms" by (simp add: os_extends_def)
  then have "player_send_to os' channel = Inr (channel @ frame (tags_msg ms))" for channel
    using player_send_frame [OF os_extends_writable [OF os'(2)], of channel] length_tags_msg [of ms] assms
    by (simp add: os_len_def)
  with os'(1) show ?thesis by blast
qed

lemma tags_receive:
  assumes "16 * length ms < 2 ^ 32" "n = length ms"
  shows "\<exists>os1 os2. player_receive_player os (frame (tags_msg ms) @ rest) = Some (Inr (os1, rest))
    \<and> os_get_all zw_get n os1 = Inr (ms, os2)"
proof -
  obtain os1 where os1: "player_receive_player os (frame (tags_msg ms) @ rest) = Some (Inr (os1, rest))"
    "os_ready os1" "os_unread os1 = tags_msg ms"
    using player_receive_frame [of "tags_msg ms"] length_tags_msg [of ms] assms(1) by metis
  then show ?thesis
    using zw_codec.get_all_enc [of ms os1 "[]" n] assms(2)
    by (auto simp: list_all_iff tags_msg_def z2_N_BYTES_def)
qed

text \<open>What a server computes in the check from its own values and the two messages it receives.\<close>

definition check_zl :: "z_s \<Rightarrow> z_k2s list \<Rightarrow> z_k2s list \<Rightarrow> z_k2s list \<Rightarrow> z_k2s list" where
  "check_zl alpha vl vr d = map (\<lambda>i. d ! i - (vr ! i + vl ! i) * ucast alpha) [0..<length vl]"

lemma consistency_check_all_run:
  assumes "length vr = length vl" "length zr = length vl" "16 * length vl < 2 ^ 32"
  shows "consistency_check_all alpha vl d (frame (tags_msg vr) @ frame (tags_msg zr) @ rest) out =
    (let z = map (\<lambda>i. zr ! i + check_zl alpha vl vr d ! i) [0..<length vl]
     in Some (Inr (z, filter (\<lambda>i. z ! i \<noteq> 0) [0..<length vl], rest,
          out @ frame (tags_msg vl) @ frame (tags_msg (check_zl alpha vl vr d)))))"
proof -
  have len: "16 * length vr < 2 ^ 32" "16 * length zr < 2 ^ 32"
    using assms by simp_all
  obtain os1 where 1: "os_store_all zw_pack (os_reset_write_head os_empty) vl = Inr os1"
    "\<And>channel. player_send_to os1 channel = Inr (channel @ frame (tags_msg vl))"
    using tags_send assms(3) by blast
  obtain os2 os3 where 2: "player_receive_player os1 (frame (tags_msg vr) @ frame (tags_msg zr) @ rest)
      = Some (Inr (os2, frame (tags_msg zr) @ rest))" "os_get_all zw_get (length vl) os2 = Inr (vr, os3)"
    using tags_receive [OF len(1) assms(1) [symmetric]] by metis
  have zl: "map (\<lambda>i. d ! i - map (\<lambda>i. vr ! i + vl ! i) [0..<length vl] ! i * ucast alpha) [0..<length vl] = check_zl alpha vl vr d"
    by (simp add: check_zl_def)
  obtain os4 where 4: "os_store_all zw_pack (os_reset_write_head os3) (check_zl alpha vl vr d) = Inr os4"
    "\<And>channel. player_send_to os4 channel = Inr (channel @ frame (tags_msg (check_zl alpha vl vr d)))"
    using tags_send [of "check_zl alpha vl vr d" os3] assms(3) by (auto simp: check_zl_def)
  obtain os5 os6 where 5: "player_receive_player os4 (frame (tags_msg zr) @ rest) = Some (Inr (os5, rest))"
    "os_get_all zw_get (length vl) os5 = Inr (zr, os6)"
    using tags_receive [OF len(2) assms(2) [symmetric]] by metis
  show ?thesis
    unfolding consistency_check_all_def Let_def 1 2 bind_io.simps prod.case zl 4 5
    by simp
qed

end
