(* ===== verification/AlphaProtocol.thy ===== *)
theory AlphaProtocol
  imports AlphaCheck
begin

section \<open>AlphaFL end to end\<close>

text \<open>
  The client and the two servers together. \<open>tag_error\<close> is the amount by which the shares of a tag
  differ from the shared value times the key; the check value \<open>z\<close> is its random combination.
\<close>

subsection \<open>The check sums\<close>

lemma fold_plus_upt: "fold (\<lambda>i s. s + f i) [0..<n] a = a + (\<Sum>i<n. f i :: 'a :: comm_monoid_add)"
  by (induction n) (simp_all add: ac_simps)

lemma check_v_sum: "check_v r x xt v = v + ucast xt + (\<Sum>i<length x. ucast (r ! i) * ucast (x ! i))"
  by (simp add: check_v_def fold_plus_upt)

lemma check_d_sum: "check_d r m n mt d = d + mt + (\<Sum>i<n. m ! i * ucast (r ! i))"
  by (simp add: check_d_def fold_plus_upt)

definition key_sum :: "z_s \<Rightarrow> z_s \<Rightarrow> z_k2s" where
  "key_sum alpha0 alpha1 = ucast alpha0 + ucast alpha1"

definition tag_error :: "z_s \<Rightarrow> z_s \<Rightarrow> z_ks \<Rightarrow> z_ks \<Rightarrow> z_k2s \<Rightarrow> z_k2s \<Rightarrow> z_k2s" where
  "tag_error alpha0 alpha1 x0 x1 m0 m1 = m0 + m1 - (ucast x0 + ucast x1) * key_sum alpha0 alpha1"

text \<open>The value both servers obtain for one client.\<close>

definition check_z ::
  "z_s \<Rightarrow> z_s \<Rightarrow> z_s list \<Rightarrow> z_ks list \<Rightarrow> z_ks \<Rightarrow> z_k2s list \<Rightarrow> z_k2s \<Rightarrow> z_ks list \<Rightarrow> z_ks \<Rightarrow> z_k2s list \<Rightarrow> z_k2s \<Rightarrow> z_k2s" where
  "check_z alpha0 alpha1 r x0 xt0 m0 mt0 x1 xt1 m1 mt1 =
     check_d r m0 (length x0) mt0 0 + check_d r m1 (length x1) mt1 0
     - (check_v r x0 xt0 0 + check_v r x1 xt1 0) * key_sum alpha0 alpha1"

lemma check_z_errors:
  assumes "length x1 = length x0"
  shows "check_z alpha0 alpha1 r x0 xt0 m0 mt0 x1 xt1 m1 mt1 =
    tag_error alpha0 alpha1 xt0 xt1 mt0 mt1
    + (\<Sum>i<length x0. ucast (r ! i) * tag_error alpha0 alpha1 (x0 ! i) (x1 ! i) (m0 ! i) (m1 ! i))"
  by (simp add: check_z_def check_d_sum check_v_sum assms tag_error_def sum_distrib_right
      sum_subtractf sum.distrib sum_distrib_left algebra_simps)

lemma check_z_cong:
  "length x1 = length x0 \<Longrightarrow> \<forall>i<length x0. tag_error alpha0 alpha1 (x0 ! i) (x1 ! i) (m0 ! i) (m1 ! i) = 0 \<Longrightarrow>
   tag_error alpha0 alpha1 xt0 xt1 mt0 mt1 = 0 \<Longrightarrow> check_z alpha0 alpha1 r x0 xt0 m0 mt0 x1 xt1 m1 mt1 = 0"
  by (simp add: check_z_errors)

subsection \<open>Both servers\<close>

text \<open>The two servers' runs of the check, each reading what the other writes.\<close>

lemma consistency_check_both:
  fixes alpha0 alpha1 :: z_s
  assumes "length v1 = length v0" "length d0 = length v0" "length d1 = length v0" "16 * length v0 < 2 ^ 32"
  defines "z \<equiv> map (\<lambda>i. d0 ! i + d1 ! i - (v0 ! i + v1 ! i) * key_sum alpha0 alpha1) [0..<length v0]"
  defines "failed \<equiv> filter (\<lambda>i. z ! i \<noteq> 0) [0..<length v0]"
  shows "\<exists>w0 w1. consistency_check_all alpha0 v0 d0 (w1 @ rest0) out0 = Some (Inr (z, failed, rest0, out0 @ w0))
    \<and> consistency_check_all alpha1 v1 d1 (w0 @ rest1) out1 = Some (Inr (z, failed, rest1, out1 @ w1))"
proof -
  let ?zl0 = "check_zl alpha0 v0 v1 d0" and ?zl1 = "check_zl alpha1 v1 v0 d1"
  have z: "map (\<lambda>i. ?zl1 ! i + ?zl0 ! i) [0..<length v0] = z" "map (\<lambda>i. ?zl0 ! i + ?zl1 ! i) [0..<length v1] = z"
    using assms(1) by (simp_all add: z_def check_zl_def key_sum_def algebra_simps)
  have len: "length ?zl1 = length v0" "length ?zl0 = length v1" "length v0 = length v1" "16 * length v1 < 2 ^ 32"
    using assms by (simp_all add: check_zl_def)
  have "consistency_check_all alpha0 v0 d0 (frame (tags_msg v1) @ frame (tags_msg ?zl1) @ rest0) out0
      = Some (Inr (z, failed, rest0, out0 @ frame (tags_msg v0) @ frame (tags_msg ?zl0)))"
    unfolding consistency_check_all_run [OF assms(1) len(1) assms(4)] Let_def z failed_def ..
  moreover have "consistency_check_all alpha1 v1 d1 (frame (tags_msg v0) @ frame (tags_msg ?zl0) @ rest1) out1
      = Some (Inr (z, failed, rest1, out1 @ frame (tags_msg v1) @ frame (tags_msg ?zl1)))"
    unfolding consistency_check_all_run [OF len(3) len(2) len(4)] Let_def z failed_def len(3) ..
  ultimately show ?thesis
    by (intro exI [where x = "frame (tags_msg v0) @ frame (tags_msg ?zl0)"]
        exI [where x = "frame (tags_msg v1) @ frame (tags_msg ?zl1)"]) simp
qed

subsection \<open>Honest majority\<close>

text \<open>
  The mask of the client comes from a generator that was never seeded: it is the first eight bytes
  of its uninitialised buffer \<open>buf\<close>.
\<close>

definition garbage_mask :: "octet list \<Rightarrow> z_ks" where
  "garbage_mask buf = z2_word (z2_randomize 64 (z2_zero 64) (take 8 buf))"

lemma local_prng_mask:
  "0 < pl \<Longrightarrow> \<exists>a G. prng_get_z2 E pl 64 (prng_new seed st buf) = Inr (a, G) \<and> z2_word a = garbage_mask buf"
  using prng_unseeded [of 8 pl E seed st buf]
  by (simp add: prng_get_z2_def z2_N_BYTES_def RAND_SIZE_def AES_BLK_SIZE_def garbage_mask_def)

text \<open>What the client sends.\<close>

lemma honest_client:
  fixes alpha0 alpha1 :: z_s
  assumes "24 * (length x + 1) < 2 ^ 32" "0 < pl"
  shows "client_commit_honest_with E pl (prng_new seed st buf) alpha0 alpha1 x x0 xt0 m0 mt0 channel
    = Inr (channel @ frame (commit_msg
        (map (\<lambda>i. (x ! i - x0 ! i, (ucast (x0 ! i) + ucast (x ! i - x0 ! i)) * key_sum alpha0 alpha1 - m0 ! i)) [0..<length x])
        (garbage_mask buf) ((ucast xt0 + ucast (garbage_mask buf)) * key_sum alpha0 alpha1 - mt0)))"
proof -
  obtain a G where a: "prng_get_z2 E pl 64 (prng_new seed st buf) = Inr (a, G)" "z2_word a = garbage_mask buf"
    using local_prng_mask assms(2) by blast
  define x1 where "x1 = map (\<lambda>i. x ! i - x0 ! i) [0..<length x]"
  define m where "m = map (\<lambda>i. (ucast (x0 ! i) + ucast (x1 ! i)) * key_sum alpha0 alpha1) [0..<length x]"
  define m1 where "m1 = map (\<lambda>i. m ! i - m0 ! i) [0..<length x]"
  let ?ps = "map (\<lambda>i. (x1 ! i, m1 ! i)) [0..<length x]"
  have ps: "24 * (length ?ps + 1) < 2 ^ 32" using assms(1) by simp
  have "client_commit_honest_with E pl (prng_new seed st buf) alpha0 alpha1 x x0 xt0 m0 mt0 channel
    = Inr (channel @ frame (commit_msg ?ps (garbage_mask buf) ((ucast xt0 + ucast (garbage_mask buf)) * key_sum alpha0 alpha1 - mt0)))"
    unfolding client_commit_honest_with_def Let_def
    using commit_pack [OF ps, of os_empty "garbage_mask buf" "(ucast xt0 + ucast (garbage_mask buf)) * key_sum alpha0 alpha1 - mt0" channel]
    by (simp add: a x1_def m_def m1_def key_sum_def cong: map_cong)
  moreover have "?ps = map (\<lambda>i. (x ! i - x0 ! i, (ucast (x0 ! i) + ucast (x ! i - x0 ! i)) * key_sum alpha0 alpha1 - m0 ! i)) [0..<length x]"
    by (simp add: x1_def m_def m1_def)
  ultimately show ?thesis by (simp only:)
qed

lemma garbage_mask_bytes:
  assumes "8 \<le> length buf"
  shows "le_bytes 8 (unat (garbage_mask buf)) = take 8 buf"
proof -
  have len: "length (take 8 buf) = 8" using assms by simp
  have "z2_N_BYTES 64 \<le> 8 * z2_N_WORDS 64" by (rule length_z2_bytes)
  note mem = limbs_memcpy_zero_val [OF this, of "take 8 buf"]
  have "limbs_val (z2_randomize 64 (z2_zero 64) (take 8 buf)) = le_val (take 8 buf) mod 2 ^ 64"
    using mem len by (simp add: z2_randomize_def z2_normalize_val z2_zero_def z2_N_BYTES_def)
  then have "unat (garbage_mask buf) = le_val (take 8 buf)"
    using le_val_less [of "take 8 buf"] len by (simp add: garbage_mask_def z2_word_def unat_of_nat)
  then show ?thesis using le_bytes_le_val [of 8 "take 8 buf"] len by simp
qed

lemma length_enc_pairs: "length (concat (map enc_pair ps)) = 24 * length ps"
  by (induction ps) simp_all

lemma commit_msg_mask:
  "length ps = n \<Longrightarrow> length (frame (commit_msg ps xt mt)) = 4 + 24 * (n + 1)
    \<and> take 8 (drop (4 + 24 * n) (frame (commit_msg ps xt mt))) = le_bytes 8 (unat xt)"
  using length_enc_pairs [of ps] by (simp add: frame_def commit_msg_def LENGTH_SIZE_def del: length_concat map_map)

lemma honest_client_mask:
  fixes alpha0 alpha1 :: z_s
  assumes "24 * (length x + 1) < 2 ^ 32" "0 < pl" "8 \<le> length buf"
  shows "\<exists>w. client_commit_honest_with E pl (prng_new seed st buf) alpha0 alpha1 x x0 xt0 m0 mt0 channel = Inr (channel @ w)
    \<and> length w = 4 + 24 * (length x + 1) \<and> take 8 (drop (4 + 24 * length x) w) = take 8 buf"
  unfolding honest_client [OF assms(1,2)]
  using garbage_mask_bytes [OF assms(3)] commit_msg_mask [of _ "length x" "garbage_mask buf"] by auto

lemma honest_commitment:
  fixes alpha0 alpha1 :: z_s
  assumes len: "length x0 = length x" "length m0 = length x" and n: "24 * (length x + 1) < 2 ^ 32" "0 < pl"
  defines "A \<equiv> key_sum alpha0 alpha1"
  shows "\<exists>w x1 xt1 m1 mt1 v0 d0 v1 d1.
      client_commit_honest_with E pl (prng_new seed st buf) alpha0 alpha1 x x0 xt0 m0 mt0 channel = Inr (channel @ w)
    \<and> server_commit_honest_with 0 x0 xt0 m0 mt0 (length x) r 0 0 ch0 = Some (Inr (x0, m0, v0, d0))
    \<and> server_commit_honest_with 1 y0 yt0 n0 nt0 (length x) r 0 0 (w @ rest) = Some (Inr (x1, m1, v1, d1))
    \<and> length x1 = length x
    \<and> (\<forall>i<length x. x0 ! i + x1 ! i = x ! i \<and> tag_error alpha0 alpha1 (x0 ! i) (x1 ! i) (m0 ! i) (m1 ! i) = 0)
    \<and> d0 + d1 - (v0 + v1) * A = check_z alpha0 alpha1 r x0 xt0 m0 mt0 x1 xt1 m1 mt1
    \<and> d0 + d1 = (v0 + v1) * A"
proof -
  let ?n = "length x" and ?xt1 = "garbage_mask buf"
  define x1 where "x1 = map (\<lambda>i. x ! i - x0 ! i) [0..<?n]"
  define m where "m = map (\<lambda>i. (ucast (x0 ! i) + ucast (x1 ! i)) * A) [0..<?n]"
  define m1 where "m1 = map (\<lambda>i. m ! i - m0 ! i) [0..<?n]"
  define mt1 where "mt1 = (ucast xt0 + ucast ?xt1) * A - mt0"
  let ?ps = "map (\<lambda>i. (x1 ! i, m1 ! i)) [0..<?n]"
  let ?w = "frame (commit_msg ?ps ?xt1 mt1)"
  have ps: "24 * (length ?ps + 1) < 2 ^ 32" "?n = length ?ps" using n by simp_all
  have client: "client_commit_honest_with E pl (prng_new seed st buf) alpha0 alpha1 x x0 xt0 m0 mt0 channel = Inr (channel @ ?w)"
  proof -
    have "?ps = map (\<lambda>i. (x ! i - x0 ! i, (ucast (x0 ! i) + ucast (x ! i - x0 ! i)) * key_sum alpha0 alpha1 - m0 ! i)) [0..<?n]"
      by (simp add: x1_def m_def m1_def A_def)
    then show ?thesis unfolding honest_client [OF n] by (simp only: mt1_def A_def)
  qed
  have fs: "map fst ?ps = x1" "map snd ?ps = m1"
    by (auto intro: nth_equalityI simp: x1_def m1_def)
  have lx1: "length x1 = ?n" by (simp add: x1_def)
  have s1: "server_commit_honest_with 1 y0 yt0 n0 nt0 ?n r 0 0 (?w @ rest)
      = Some (Inr (x1, m1, check_v r x1 ?xt1 0, check_d r m1 ?n mt1 0))"
    unfolding server_commit_honest_with_def
    unfolding commit_get [OF ps] by (simp only: bind_io.simps prod.case fs lx1 if_False one_neq_zero)
  have s0: "server_commit_honest_with 0 x0 xt0 m0 mt0 ?n r 0 0 ch0
      = Some (Inr (x0, m0, check_v r x0 xt0 0, check_d r m0 ?n mt0 0))"
    by (simp add: server_commit_honest_with_def len)
  have e: "tag_error alpha0 alpha1 (x0 ! i) (x1 ! i) (m0 ! i) (m1 ! i) = 0" "x0 ! i + x1 ! i = x ! i" if "i < ?n" for i
    using that by (simp_all add: tag_error_def m1_def m_def A_def x1_def)
  have et: "tag_error alpha0 alpha1 xt0 ?xt1 mt0 mt1 = 0"
    by (simp add: tag_error_def mt1_def A_def)
  have z: "check_z alpha0 alpha1 r x0 xt0 m0 mt0 x1 ?xt1 m1 mt1 = 0"
    using e et by (intro check_z_cong) (simp_all add: x1_def len)
  have zz: "check_d r m0 ?n mt0 0 + check_d r m1 ?n mt1 0 - (check_v r x0 xt0 0 + check_v r x1 ?xt1 0) * A
      = check_z alpha0 alpha1 r x0 xt0 m0 mt0 x1 ?xt1 m1 mt1"
    by (simp add: check_z_def len x1_def A_def)
  show ?thesis
    using client s0 s1 e zz z x1_def
    by (intro exI [where x = ?w] exI [where x = x1] exI [where x = ?xt1] exI [where x = m1] exI [where x = mt1] exI conjI)
      (assumption | simp)+
qed

subsection \<open>Soundness\<close>

text \<open>A tag error that is not a multiple of \<open>2 ^ 65\<close> is hidden by at most one coefficient.\<close>

lemma coefficient_unique:
  fixes a b :: z_s and e c :: z_k2s
  assumes "ucast a * e + c = 0" "ucast b * e + c = 0" "\<not> 2 ^ 65 dvd unat e"
  shows "a = b"
  using coefficient_unique_word [of 64 a e c b] assms by simp

lemma check_z_update:
  assumes "length x1 = length x0" "length r = length x0" "i < length x0"
  shows "\<exists>c. \<forall>a. check_z alpha0 alpha1 (r[i := a]) x0 xt0 m0 mt0 x1 xt1 m1 mt1
    = ucast a * tag_error alpha0 alpha1 (x0 ! i) (x1 ! i) (m0 ! i) (m1 ! i) + c"
proof -
  let ?e = "\<lambda>j. tag_error alpha0 alpha1 (x0 ! j) (x1 ! j) (m0 ! j) (m1 ! j)"
  let ?c = "tag_error alpha0 alpha1 xt0 xt1 mt0 mt1 + (\<Sum>j\<in>{..<length x0} - {i}. ucast (r ! j) * ?e j)"
  have "check_z alpha0 alpha1 (r[i := a]) x0 xt0 m0 mt0 x1 xt1 m1 mt1 = ucast a * ?e i + ?c" for a
  proof -
    have "(\<Sum>j<length x0. ucast (r[i := a] ! j) * ?e j) = ucast (r[i := a] ! i) * ?e i
        + (\<Sum>j\<in>{..<length x0} - {i}. ucast (r[i := a] ! j) * ?e j)"
      using assms(3) by (intro sum.remove) simp_all
    also have "(\<Sum>j\<in>{..<length x0} - {i}. ucast (r[i := a] ! j) * ?e j)
        = (\<Sum>j\<in>{..<length x0} - {i}. ucast (r ! j) * ?e j)"
      by (intro sum.cong) auto
    finally show ?thesis
      using assms by (simp add: check_z_errors algebra_simps)
  qed
  then show ?thesis by blast
qed

subsection \<open>Dishonest majority\<close>

lemma ucast_add_sub:
  fixes x y :: z_ks
  shows "ucast y + ucast (x - y) = (ucast x :: z_k2s) + of_bool (unat x < unat y) * 2 ^ 64"
proof -
  have u: "ucast w = (of_nat (unat w) :: z_k2s)" for w :: z_ks
    by simp
  have x: "unat x < 2 ^ 64" "unat y < 2 ^ 64"
    using unsigned_less [of x, where 'a = nat] unsigned_less [of y, where 'a = nat] by simp_all
  have "unat y + unat (x - y) = unat x + of_bool (unat x < unat y) * 2 ^ 64"
  proof (cases "unat x < unat y")
    case True
    then show ?thesis using x by (simp add: unat_sub_if')
  next
    case False
    then show ?thesis by (simp add: unat_sub_if')
  qed
  then have "(of_nat (unat y + unat (x - y)) :: z_k2s) = of_nat (unat x + of_bool (unat x < unat y) * 2 ^ 64)"
    by (rule arg_cong)
  then show ?thesis by (simp add: u [symmetric] del: of_nat_unat)
qed

text \<open>
  The vector OLE between the servers gives \<open>a0 = b0 + alpha1 * x0\<close> (index \<open>length x0\<close> for the mask).
\<close>

definition server_ole :: "z_s \<Rightarrow> z_ks list \<Rightarrow> z_ks \<Rightarrow> z_k2s list \<Rightarrow> z_k2s list \<Rightarrow> bool" where
  "server_ole alpha1 x0 xt0 a0 b0 \<longleftrightarrow> length a0 = length x0 + 1 \<and> length b0 = length x0 + 1
     \<and> (\<forall>i\<le>length x0. a0 ! i = b0 ! i + ucast alpha1 * ucast ((x0 @ [xt0]) ! i))"

lemma dishonest_tag:
  fixes m0 :: "'a :: comm_ring_1"
  assumes "m0 = b + A0 * X - b0" "m1 = X1 * A1 + (b0 + A1 * X0) - b" "X = X0 + X1 - c"
  shows "m0 + m1 - (X0 + X1) * (A0 + A1) = - (A0 * c)"
  unfolding assms by (simp add: algebra_simps)

text \<open>What the servers and the client compute in the dishonest-majority commitment.\<close>

lemma dishonest_commitment:
  fixes alpha0 alpha1 :: z_s and buf :: "octet list"
  assumes E: "cipher_ok E" "0 < pl" "pl \<le> 256" "0 < mr"
    and len: "length x0 = length x" "length b1 = length x + 1" "length ab1 = length x + 1"
      "length psC = S_BITS" "length psS = S_BITS"
    and n: "length x + 1 + pl \<le> 2 ^ 64" "min mr S_BITS * (24 + length x * 16) < 2 ^ 32" "24 * (length x + 1) < 2 ^ 32"
    and ole: "server_ole alpha1 x0 xt0 a0 b0"
  defines "xt1 \<equiv> garbage_mask buf"
  shows "\<exists>w0 w1 x1 m0 mt0 m1 mt1 v0 d0 v1 d1.
      client_commit_dishonest_with E pl mr (prng_new seed st buf) psC x x0 xt0 b1 ch0 ch1 = Inr (ch0 @ w0, ch1 @ w1)
    \<and> server_commit_dishonest_with E pl mr 0 psS alpha0 x0 xt0 b0 ab1 (length x) r 0 0 (w0 @ rest0) = Some (Inr (x0, m0, v0, d0))
    \<and> server_commit_dishonest_with E pl mr 1 ps1 alpha1 y0 yt0 a0 ab (length x) r 0 0 (w1 @ rest1) = Some (Inr (x1, m1, v1, d1))
    \<and> length x1 = length x
    \<and> d0 + d1 - (v0 + v1) * key_sum alpha0 alpha1 = check_z alpha0 alpha1 r x0 xt0 m0 mt0 x1 xt1 m1 mt1
    \<and> (\<forall>i<length x. x0 ! i + x1 ! i = x ! i
        \<and> tag_error alpha0 alpha1 (x0 ! i) (x1 ! i) (m0 ! i) (m1 ! i)
          = - (ucast alpha0 * of_bool (unat (x ! i) < unat (x0 ! i)) * 2 ^ 64))
    \<and> tag_error alpha0 alpha1 xt0 xt1 mt0 mt1
        = - (ucast alpha0 * of_bool (unat (xt0 + xt1) < unat xt0) * 2 ^ 64)"
proof -
  let ?n = "length x" and ?xv = "x @ [xt0 + xt1]"
  let ?vx = "map ucast ?xv :: z_k2s row"
  obtain a G where a: "prng_get_z2 E pl 64 (prng_new seed st buf) = Inr (a, G)" "z2_word a = xt1"
    using local_prng_mask E(2) unfolding xt1_def by blast
  define b where "b = vole_sum (length ?xv) (\<lambda>l. vole_t E vole_key (length ?xv) l False) S_BITS"
  define a1 where "a1 = vole_sum (length ?xv) (vole_a E vole_key ?vx alpha0) S_BITS"
  define w0 where "w0 = vole_wire mr (\<lambda>l. enc_row (vole_u E vole_key ?vx l)) 0 (vole_groups mr)"
  have nv: "length ?xv + pl \<le> 2 ^ 64" "min mr S_BITS * (8 + length ?xv * 16) < 2 ^ 32"
    using n by (simp_all add: algebra_simps)
  have send: "vole_send_simu E pl mr psC ch0 b1 ?xv = Inr (b, ch0 @ w0)"
    unfolding b_def w0_def using len E nv by (intro vole_send_run) simp_all
  have recv: "vole_recv_simu E pl mr psS (w0 @ rest0) ab1 alpha0 = Some (Inr (a1, rest0))"
    unfolding a1_def w0_def using len E nv by (intro vole_recv_run) simp_all
  have a1: "a1 ! i = b ! i + ucast alpha0 * ucast (?xv ! i)" if "i \<le> ?n" for i
    using vole_sums [of i ?vx E vole_key alpha0] that unfolding a1_def b_def length_map
    by (simp add: nth_map del: map_append)
  define x1 where "x1 = map (\<lambda>i. x ! i - x0 ! i) [0..<?n]"
  let ?ps = "map (\<lambda>i. (x1 ! i, b ! i)) [0..<?n]"
  let ?w1 = "frame (commit_msg ?ps xt1 (b ! ?n))"
  have ps: "24 * (length ?ps + 1) < 2 ^ 32" "?n = length ?ps" using n by simp_all
  have client: "client_commit_dishonest_with E pl mr (prng_new seed st buf) psC x x0 xt0 b1 ch0 ch1 = Inr (ch0 @ w0, ch1 @ ?w1)"
  proof -
    have "bind_result (os_store_all pack_pair (os_reset_write_head os_empty) ?ps) (\<lambda>os.
         bind_result (zw_pack os xt1) (\<lambda>os. bind_result (zw_pack os (b ! ?n)) (\<lambda>os.
         bind_result (player_send_to os ch1) (\<lambda>channel1. Inr (ch0 @ w0, channel1))))) = Inr (ch0 @ w0, ch1 @ ?w1)"
      using commit_pack [OF ps(1), of os_empty xt1 "b ! ?n" ch1]
      by (auto simp: bind_result_Inr_iff)
    then show ?thesis
      by (simp add: client_commit_dishonest_with_def Let_def a send x1_def)
  qed
  define m0 where "m0 = map (\<lambda>i. a1 ! i - b0 ! i) [0..<?n]"
  define mt0 where "mt0 = a1 ! ?n - b0 ! ?n"
  define m1 where "m1 = map (\<lambda>i. ucast (x1 ! i) * ucast alpha1 + a0 ! i - b ! i) [0..<?n]"
  define mt1 where "mt1 = ucast xt1 * ucast alpha1 + a0 ! ?n - b ! ?n"
  have fs: "map fst ?ps = x1" "map (\<lambda>i. ucast (fst (?ps ! i)) * ucast alpha1 + a0 ! i - snd (?ps ! i)) [0..<?n] = m1"
    by (auto intro: nth_equalityI simp: x1_def m1_def)
  have lx1: "length x1 = ?n" by (simp add: x1_def)
  have s0: "server_commit_dishonest_with E pl mr 0 psS alpha0 x0 xt0 b0 ab1 ?n r 0 0 (w0 @ rest0)
      = Some (Inr (x0, m0, check_v r x0 xt0 0, check_d r m0 ?n mt0 0))"
    by (simp add: server_commit_dishonest_with_def recv len m0_def mt0_def)
  have s1: "server_commit_dishonest_with E pl mr 1 ps1 alpha1 y0 yt0 a0 ab ?n r 0 0 (?w1 @ rest1)
      = Some (Inr (x1, m1, check_v r x1 xt1 0, check_d r m1 ?n mt1 0))"
    unfolding server_commit_dishonest_with_def commit_get [OF ps]
    by (simp only: bind_io.simps prod.case fs lx1 if_False one_neq_zero mt1_def)
  have a0: "a0 ! i = b0 ! i + ucast alpha1 * ucast ((x0 @ [xt0]) ! i)" if "i \<le> ?n" for i
    using ole that len by (simp add: server_ole_def)
  have e: "tag_error alpha0 alpha1 (x0 ! i) (x1 ! i) (m0 ! i) (m1 ! i)
      = - (ucast alpha0 * of_bool (unat (x ! i) < unat (x0 ! i)) * 2 ^ 64)" if i: "i < ?n" for i
  proof -
    have "ucast (x0 ! i) + ucast (x1 ! i) = (ucast (x ! i) :: z_k2s) + of_bool (unat (x ! i) < unat (x0 ! i)) * 2 ^ 64"
      using i ucast_add_sub [of "x0 ! i" "x ! i"] by (simp only: x1_def nth_map length_upt nth_upt) simp
    then have c: "ucast (x ! i) = (ucast (x0 ! i) + ucast (x1 ! i) :: z_k2s) - of_bool (unat (x ! i) < unat (x0 ! i)) * 2 ^ 64"
      by (simp only: eq_diff_eq)
    have "m0 ! i = b ! i + ucast alpha0 * ucast (x ! i) - b0 ! i"
      using i a1 [of i] by (simp add: m0_def nth_append)
    moreover have "m1 ! i = ucast (x1 ! i) * ucast alpha1 + (b0 ! i + ucast alpha1 * ucast (x0 ! i)) - b ! i"
      using i a0 [of i] len by (simp add: m1_def nth_append)
    ultimately show ?thesis
      unfolding tag_error_def key_sum_def mult.assoc by (rule dishonest_tag) (rule c)
  qed
  have et: "tag_error alpha0 alpha1 xt0 xt1 mt0 mt1
      = - (ucast alpha0 * of_bool (unat (xt0 + xt1) < unat xt0) * 2 ^ 64)"
  proof -
    have "ucast xt0 + ucast xt1 = (ucast (xt0 + xt1) :: z_k2s) + of_bool (unat (xt0 + xt1) < unat xt0) * 2 ^ 64"
      using ucast_add_sub [of xt0 "xt0 + xt1"] by simp
    then have c: "ucast (xt0 + xt1) = (ucast xt0 + ucast xt1 :: z_k2s) - of_bool (unat (xt0 + xt1) < unat xt0) * 2 ^ 64"
      by (simp only: eq_diff_eq)
    have "mt0 = b ! ?n + ucast alpha0 * ucast (xt0 + xt1) - b0 ! ?n"
      using a1 [of ?n] by (simp add: mt0_def)
    moreover have "mt1 = ucast xt1 * ucast alpha1 + (b0 ! ?n + ucast alpha1 * ucast xt0) - b ! ?n"
      using a0 [of ?n] len(1) [symmetric] by (simp add: mt1_def)
    ultimately show ?thesis
      unfolding tag_error_def key_sum_def mult.assoc by (rule dishonest_tag) (rule c)
  qed
  have zz: "check_d r m0 ?n mt0 0 + check_d r m1 ?n mt1 0 - (check_v r x0 xt0 0 + check_v r x1 xt1 0) * key_sum alpha0 alpha1
      = check_z alpha0 alpha1 r x0 xt0 m0 mt0 x1 xt1 m1 mt1"
    by (simp add: check_z_def len lx1)
  have x: "x0 ! i + x1 ! i = x ! i" if "i < ?n" for i
    using that by (simp add: x1_def)
  show ?thesis
    using client s0 s1 lx1 zz e x et by blast
qed

end
