(* ===== verification/OctetBits.thy ===== *)
theory OctetBits
  imports OctetCodec
begin

section \<open>Bit packing of octetStream is a round trip\<close>

text \<open>
  Groups of one to eight bits are packed into bytes by \<open>store_bits\<close> and read back by
  \<open>get_bits\<close>. Writer and reader decide on their own where a new byte starts, from their own
  bit counters; the lemmas show that the two decisions agree for any sequence of group sizes
  when the writer starts with a clean bit buffer.
\<close>

fun os_store_groups :: "octet_stream \<Rightarrow> (nat \<times> octet) list \<Rightarrow> octet_stream" where
  "os_store_groups os [] = os"
| "os_store_groups os ((N, a) # gs) = os_store_groups (os_store_bits_N N os a) gs"

fun os_get_groups :: "octet_stream \<Rightarrow> nat list \<Rightarrow> (octet list \<times> octet_stream) result" where
  "os_get_groups os [] = Inr ([], os)"
| "os_get_groups os (N # Ns) =
     bind_result (os_get_bits_N N os)
       (\<lambda>(a, os). bind_result (os_get_groups os Ns) (\<lambda>(as, os). Inr (a # as, os)))"

definition os_bits_clean :: "octet_stream \<Rightarrow> bool" where
  "os_bits_clean os \<longleftrightarrow> os_len os \<le> os_mxlen os \<and> bb_n (os_wbits os) \<le> 8
     \<and> bb_buffer (os_wbits os) AND mask (bb_n (os_wbits os)) = bb_buffer (os_wbits os)"

text \<open>The bytes of the finished stream: pending bits flushed by an empty append.\<close>

definition os_finish :: "octet_stream \<Rightarrow> octet list" where
  "os_finish os = os_data (os_append os [])"

lemma os_finish_eq: "os_len os \<le> os_mxlen os \<Longrightarrow> os_finish os = os_data os @ os_pending os"
  by (simp add: os_finish_def os_append_effect)

lemma os_bits_clean_flush: "os_bits_clean os \<Longrightarrow> os_bits_clean (os_append os [])"
  using os_append_effect [of os "[]"] by (auto simp: os_bits_clean_def)

lemma mask_group: "(a AND mask N :: octet) AND mask N = a AND mask N"
  by (simp add: bit_eq_iff bit_simps)

lemma buffer_extend:
  fixes b a :: octet
  assumes "b AND mask n = b"
  shows "(b OR push_bit n (a AND mask N)) AND mask (n + N) = b OR push_bit n (a AND mask N)"
    and "(b OR push_bit n (a AND mask N)) AND mask n = b"
proof -
  have b: "bit b k \<Longrightarrow> k < n" for k
    using assms by (metis bit_and_iff bit_mask_iff)
  show "(b OR push_bit n (a AND mask N)) AND mask (n + N) = b OR push_bit n (a AND mask N)"
    by (intro bit_eqI) (auto simp: bit_simps intro: trans_less_add1 dest: b)
  show "(b OR push_bit n (a AND mask N)) AND mask n = b"
    using b by (intro bit_eqI) (auto simp: bit_simps)
qed

lemma read_group:
  fixes b a F :: octet
  assumes "b AND mask n = b" "F AND mask (n + N) = b OR push_bit n (a AND mask N)" "n + N \<le> 8"
  shows "drop_bit n F AND mask N = a AND mask N"
proof (rule bit_eqI)
  fix k assume "possible_bit TYPE(octet) k"
  have b: "bit b k \<Longrightarrow> k < n" for k
    using assms(1) by (metis bit_and_iff bit_mask_iff)
  show "bit (drop_bit n F AND mask N) k \<longleftrightarrow> bit (a AND mask N) k"
  proof (cases "k < N")
    case True
    have "bit (F AND mask (n + N)) (n + k) = bit (b OR push_bit n (a AND mask N)) (n + k)"
      by (simp only: assms(2))
    moreover have "\<not> bit b (n + k)"
      using b by fastforce
    ultimately show ?thesis
      using True assms(3) by (auto simp: bit_simps)
  qed (simp add: bit_simps)
qed

subsection \<open>One write step\<close>

text \<open>The stream as \<open>store_bits\<close> sees it after its flush decision.\<close>

definition os_pre_store :: "nat \<Rightarrow> octet_stream \<Rightarrow> octet_stream" where
  "os_pre_store N os = (if 8 - N < bb_n (os_wbits os) then os_append os [] else os)"

lemma os_store_bits_step:
  assumes "os_bits_clean os" "1 \<le> N" "N \<le> 8"
  defines "os1 \<equiv> os_pre_store N os"
  shows "os_bits_clean os1" and "bb_n (os_wbits os1) + N \<le> 8"
    and "os_data (os_store_bits_N N os a) = os_data os1"
    and "bb_n (os_wbits (os_store_bits_N N os a)) = bb_n (os_wbits os1) + N"
    and "bb_buffer (os_wbits (os_store_bits_N N os a))
          = bb_buffer (os_wbits os1) OR push_bit (bb_n (os_wbits os1)) (a AND mask N)"
    and "os_bits_clean (os_store_bits_N N os a)"
proof -
  show 1: "os_bits_clean os1"
    using assms by (auto simp: os1_def os_pre_store_def os_bits_clean_flush)
  show 2: "bb_n (os_wbits os1) + N \<le> 8"
    using assms os_append_effect(3) [of os "[]"]
    by (auto simp: os1_def os_pre_store_def os_bits_clean_def)
  have eq: "os_store_bits_N N os a = os1\<lparr>os_wbits := \<lparr>bb_n = bb_n (os_wbits os1) + N,
      bb_buffer = bb_buffer (os_wbits os1) OR push_bit (bb_n (os_wbits os1)) (a AND mask N)\<rparr>\<rparr>"
    by (simp add: os_store_bits_N_def os1_def os_pre_store_def Let_def)
  show "os_data (os_store_bits_N N os a) = os_data os1"
    "bb_n (os_wbits (os_store_bits_N N os a)) = bb_n (os_wbits os1) + N"
    "bb_buffer (os_wbits (os_store_bits_N N os a))
       = bb_buffer (os_wbits os1) OR push_bit (bb_n (os_wbits os1)) (a AND mask N)"
    by (simp_all add: eq)
  show "os_bits_clean (os_store_bits_N N os a)"
    using 1 2 buffer_extend(1) [of "bb_buffer (os_wbits os1)" "bb_n (os_wbits os1)" a N]
    by (simp add: eq os_bits_clean_def os_len_def)
qed

text \<open>
  The finished stream starts with what is written now; the byte under construction keeps its
  low bits.
\<close>

lemma os_store_groups_prefix:
  "os_bits_clean os \<Longrightarrow> \<forall>(N, a) \<in> set gs. 1 \<le> N \<and> N \<le> 8 \<Longrightarrow>
     take (os_len os) (os_finish (os_store_groups os gs)) = os_data os
     \<and> (0 < bb_n (os_wbits os) \<longrightarrow> os_len os < length (os_finish (os_store_groups os gs))
          \<and> os_finish (os_store_groups os gs) ! os_len os AND mask (bb_n (os_wbits os))
              = bb_buffer (os_wbits os))"
proof (induction gs arbitrary: os)
  case Nil
  then show ?case
    by (simp add: os_finish_eq os_bits_clean_def os_len_def os_pending_def)
next
  case (Cons g gs)
  obtain N a where g: "g = (N, a)" by fastforce
  note clean = Cons.prems(1) and Ns = Cons.prems(2)
  define os1 where "os1 = os_pre_store N os"
  define os2 where "os2 = os_store_bits_N N os a"
    let ?F = "os_finish (os_store_groups os2 gs)"
    have N: "1 \<le> N" "N \<le> 8" and gs: "\<forall>(N, a) \<in> set gs. 1 \<le> N \<and> N \<le> 8"
      using Ns g by auto
    note step = os_store_bits_step(3-6) [OF clean N, of a, folded os1_def os2_def]
    have pre: "take (os_len os1) ?F = os_data os1"
      using Cons.IH [OF step(4) gs] step(1) by (simp add: os_len_def)
    have byte: "os_len os1 < length ?F"
      "?F ! os_len os1 AND mask (bb_n (os_wbits os1) + N) = bb_buffer (os_wbits os2)"
      using Cons.IH [OF step(4) gs] step(1,2) N by (simp_all add: os_len_def)
    have "take (os_len os) ?F = os_data os \<and> (0 < bb_n (os_wbits os) \<longrightarrow> os_len os < length ?F
          \<and> ?F ! os_len os AND mask (bb_n (os_wbits os)) = bb_buffer (os_wbits os))"
    proof (cases "8 - N < bb_n (os_wbits os)")
      case True
      then have "os_data os1 = os_data os @ [bb_buffer (os_wbits os)]"
        using clean by (simp add: os1_def os_pre_store_def os_append_effect os_pending_def os_bits_clean_def)
      with pre have F: "take (Suc (os_len os)) ?F = os_data os @ [bb_buffer (os_wbits os)]"
        by (simp add: os_len_def)
      then have "os_len os < length ?F"
        by (metis length_append_singleton length_take min.cobounded2 min_def not_less_eq_eq os_len_def
            linorder_not_le min.absorb2 Suc_n_not_le_n nat_le_linear)
      with F have "take (os_len os) ?F = os_data os" "?F ! os_len os = bb_buffer (os_wbits os)"
        by (simp_all add: take_Suc_conv_app_nth os_len_def)
      with \<open>os_len os < length ?F\<close> clean show ?thesis by (simp add: os_bits_clean_def)
    next
      case False
      then have os1: "os1 = os" by (simp add: os1_def os_pre_store_def)
      have "?F ! os_len os AND mask (bb_n (os_wbits os)) = bb_buffer (os_wbits os)"
      proof -
        have "?F ! os_len os AND mask (bb_n (os_wbits os))
            = (?F ! os_len os AND mask (bb_n (os_wbits os) + N)) AND mask (bb_n (os_wbits os))"
          by (intro bit_eqI) (auto simp: bit_simps)
        also have "\<dots> = bb_buffer (os_wbits os)"
          using byte(2) step(3) clean buffer_extend(2) by (simp add: os1 os_bits_clean_def)
        finally show ?thesis .
      qed
      with pre byte(1) show ?thesis by (simp add: os1)
    qed
  then show ?case by (simp add: g os2_def)
qed

subsection \<open>Reading the groups back\<close>

lemma octet_ucast_ucast [simp]: "ucast (ucast (x :: octet) :: 64 word) = x"
  by (rule bit_eqI) (simp add: bit_simps)

lemma os_get_bits_refill:
  assumes "bb_n (os_rbits r) < N" "N \<le> 8" "os_ptr r < length (os_data r)" "length (os_data r) < 2 ^ 64"
  shows "\<exists>r'. os_get_bits_N N r = Inr (os_data r ! os_ptr r AND mask N, r')
     \<and> os_data r' = os_data r \<and> os_ptr r' = Suc (os_ptr r)
     \<and> os_rbits r' = \<lparr>bb_n = 8 - N, bb_buffer = os_data r ! os_ptr r\<rparr>"
proof -
  have "os_consume r 1 = Inr ([os_data r ! os_ptr r], os_skip 1 r)"
    using assms by (intro os_consume_unread [where rest = "drop (Suc (os_ptr r)) (os_data r)"])
      (simp_all add: os_ready_def os_unread_def os_len_def Cons_nth_drop_Suc)
  then have "os_get_int_N 1 r = Inr (of_nat (unat (os_data r ! os_ptr r)), os_skip 1 r)"
    by (simp add: os_get_int_N_def)
  with assms show ?thesis
    by (simp add: os_get_bits_N_def Let_def os_skip_def)
qed

lemma os_get_bits_same_byte:
  assumes "N \<le> bb_n (os_rbits r)"
  shows "os_get_bits_N N r = Inr (drop_bit (8 - bb_n (os_rbits r)) (bb_buffer (os_rbits r)) AND mask N,
     r\<lparr>os_rbits := (os_rbits r)\<lparr>bb_n := bb_n (os_rbits r) - N\<rparr>\<rparr>)"
  using assms by (simp add: os_get_bits_N_def Let_def)

text \<open>The reader \<open>r\<close> has reached the point of the finished stream where the writer \<open>w\<close> stands.\<close>

definition os_in_step :: "octet_stream \<Rightarrow> octet_stream \<Rightarrow> bool" where
  "os_in_step w r \<longleftrightarrow>
     (if bb_n (os_wbits w) = 0 then os_ptr r = os_len w \<and> bb_n (os_rbits r) = 0
      else os_ptr r = Suc (os_len w) \<and> bb_n (os_rbits r) = 8 - bb_n (os_wbits w)
         \<and> bb_buffer (os_rbits r) = os_data r ! os_len w)"

lemma os_groups_in_step:
  "os_bits_clean w \<Longrightarrow> \<forall>(N, a) \<in> set gs. 1 \<le> N \<and> N \<le> 8 \<Longrightarrow>
     os_data r = os_finish (os_store_groups w gs) \<Longrightarrow> length (os_data r) < 2 ^ 64 \<Longrightarrow>
     os_in_step w r \<Longrightarrow>
     \<exists>r'. os_get_groups r (map fst gs) = Inr (map (\<lambda>(N, a). a AND mask N) gs, r')"
proof (induction gs arbitrary: w r)
  case Nil
  then show ?case by simp
next
  case (Cons g gs)
  obtain N a where g: "g = (N, a)" by fastforce
  have N: "1 \<le> N" "N \<le> 8" and gs: "\<forall>(N, a) \<in> set gs. 1 \<le> N \<and> N \<le> 8"
    using Cons.prems(2) g by auto
  note clean = Cons.prems(1) and len = Cons.prems(4)
  define w1 where "w1 = os_pre_store N w"
  define w2 where "w2 = os_store_bits_N N w a"
  note pre = os_store_bits_step(1,2) [OF clean N, folded w1_def]
    and step = os_store_bits_step(3-6) [OF clean N, of a, folded w1_def w2_def]
  have F: "os_data r = os_finish (os_store_groups w2 gs)"
    using Cons.prems(3) by (simp add: g w2_def)
  have byte: "os_len w1 < length (os_data r)"
    "os_data r ! os_len w1 AND mask (bb_n (os_wbits w1) + N) = bb_buffer (os_wbits w2)"
    using os_store_groups_prefix [OF step(4) gs] step(1,2) N by (simp_all add: F os_len_def)
  have "\<exists>r'. os_get_bits_N N r = Inr (a AND mask N, r') \<and> os_data r' = os_data r \<and> os_in_step w2 r'"
  proof (cases "bb_n (os_wbits w1) = 0")
    case True
    have "bb_n (os_rbits r) < N \<and> os_ptr r = os_len w1"
      using Cons.prems(5) True N clean
      by (auto simp: os_in_step_def w1_def os_pre_store_def os_append_effect os_bits_clean_def
          os_pending_def os_len_def split: if_splits)
    moreover have "os_data r ! os_len w1 AND mask N = a AND mask N"
      using byte(2) step(3) True pre(1) by (simp add: os_bits_clean_def)
    ultimately show ?thesis
      using os_get_bits_refill [of r N] byte(1) len N step(1,2) True
      by (auto simp: os_in_step_def os_len_def)
  next
    case False
    then have w1: "w1 = w" and n: "bb_n (os_wbits w) \<le> 8 - N"
      using os_append_effect(3) [of w "[]"] clean
      by (auto simp: w1_def os_pre_store_def os_bits_clean_def split: if_splits)
    have r: "os_ptr r = Suc (os_len w)" "bb_n (os_rbits r) = 8 - bb_n (os_wbits w)"
      "bb_buffer (os_rbits r) = os_data r ! os_len w"
      using Cons.prems(5) False by (simp_all add: os_in_step_def w1)
    have "drop_bit (bb_n (os_wbits w)) (os_data r ! os_len w) AND mask N = a AND mask N"
      using read_group [of "bb_buffer (os_wbits w)" "bb_n (os_wbits w)" "os_data r ! os_len w" N a]
        byte(2) step(3) pre by (simp add: w1 os_bits_clean_def)
    then show ?thesis
      using os_get_bits_same_byte [of N r] r n False step(1,2) N
      by (simp add: os_in_step_def w1 os_len_def)
  qed
  then obtain r' where r': "os_get_bits_N N r = Inr (a AND mask N, r')" "os_data r' = os_data r"
    "os_in_step w2 r'" by blast
  with Cons.IH [OF step(4) gs, of r'] F len show ?case
    by (auto simp: g)
qed

text \<open>A stream written from a clean state is read back from where the writer started.\<close>

lemma os_groups_roundtrip:
  assumes "os_bits_clean w" "bb_n (os_wbits w) = 0" "\<forall>(N, a) \<in> set gs. 1 \<le> N \<and> N \<le> 8"
    and "os_data r = os_finish (os_store_groups w gs)" "length (os_data r) < 2 ^ 64"
    and "os_ptr r = os_len w" "bb_n (os_rbits r) = 0"
  shows "\<exists>r'. os_get_groups r (map fst gs) = Inr (map (\<lambda>(N, a). a AND mask N) gs, r')"
proof -
  have "os_in_step w r"
    using assms(2,6,7) by (simp add: os_in_step_def)
  with assms os_groups_in_step [of w gs r] show ?thesis by blast
qed

end
