(* ===== verification/OctetOps.thy ===== *)
theory OctetOps
  imports OctetCodec
begin

section \<open>Sequences of operations on a stream (Tools/octetStream)\<close>

text \<open>
  The operations of \<open>octetStream\<close> that change the stream as a datatype, so that what holds after every one of them holds
  after every sequence of calls: the stream invariant, under the conditions on the arguments that \<open>op_ok\<close> states. The
  operations on vectors and arrays are sequences of these; \<open>octetStream::exchange\<close> is in theory Exchanger.
\<close>

subsection \<open>Operations\<close>

datatype stream_op =
    Reset_read_head | Reset_write_head | Rewind_write_head nat
  | Resize nat | Resize_precise nat | Resize_min nat | Reserve nat | Clear | Assign octet_stream
  | Append "octet list" | Append_no_resize "octet list" | Flush_bits | Concat octet_stream
  | Consume nat | Consume_to octet_stream nat | Consume_from octet_stream nat
  | Store_int "64 word" nat | Get_int nat | Store_int_N "64 word" nat | Get_int_N nat
  | Store_uint "32 word" | Get_uint | Store_size_t "64 word" | Get_size_t | Store_signed "32 word" | Get_signed
  | Store_bytes "octet list" | Get_bytes nat | Store_string "octet list" | Get_string
  | Store_bit octet | Get_bit | Store_bits octet nat | Get_bits nat | Store_bits_N octet nat | Get_bits_N nat
  | Input "octet list" | Receive "octet list"

text \<open>The stream when the operation returns; \<open>None\<close> where it throws, is undefined or still waits for bytes.\<close>

definition returned :: "octet_stream result \<Rightarrow> octet_stream option" where
  "returned r = (case r of Inl _ \<Rightarrow> None | Inr os \<Rightarrow> Some os)"

definition returned_with :: "('a \<times> octet_stream) result \<Rightarrow> octet_stream option" where
  "returned_with r = (case r of Inl _ \<Rightarrow> None | Inr (_, os) \<Rightarrow> Some os)"

definition returned_first :: "(octet_stream \<times> 'a) result \<Rightarrow> octet_stream option" where
  "returned_first r = (case r of Inl _ \<Rightarrow> None | Inr (os, _) \<Rightarrow> Some os)"

fun os_do :: "stream_op \<Rightarrow> octet_stream \<Rightarrow> octet_stream option" where
  "os_do Reset_read_head os = Some (os_reset_read_head os)"
| "os_do Reset_write_head os = Some (os_reset_write_head os)"
| "os_do (Rewind_write_head num) os = returned (os_rewind_write_head os num)"
| "os_do (Resize l) os = Some (os_resize l os)"
| "os_do (Resize_precise l) os = Some (os_resize_precise l os)"
| "os_do (Resize_min l) os = Some (os_resize_min l os)"
| "os_do (Reserve l) os = Some (os_reserve l os)"
| "os_do Clear os = Some (os_clear os)"
| "os_do (Assign a) os = Some (os_assign os a)"
| "os_do (Append bs) os = Some (os_append os bs)"
| "os_do (Append_no_resize bs) os = returned (os_append_no_resize os bs)"
| "os_do Flush_bits os = Some (os_flush_bits os)"
| "os_do (Concat a) os = Some (os_concat os a)"
| "os_do (Consume l) os = returned_with (os_consume os l)"
| "os_do (Consume_to s l) os = returned_first (os_consume_into os s l)"
| "os_do (Consume_from a l) os = returned_with (os_consume_into a os l)"
| "os_do (Store_int v n) os = returned (os_store_int os v n)"
| "os_do (Get_int n) os = returned_with (os_get_int os n)"
| "os_do (Store_int_N v n) os = returned (os_store_int_N n os v)"
| "os_do (Get_int_N n) os = returned_with (os_get_int_N n os)"
| "os_do (Store_uint v) os = returned (os_store_uint os v)"
| "os_do Get_uint os = returned_with (os_get_uint os)"
| "os_do (Store_size_t v) os = returned (os_store_size_t os v)"
| "os_do Get_size_t os = returned_with (os_get_size_t os)"
| "os_do (Store_signed v) os = returned (os_store_signed os v)"
| "os_do Get_signed os = returned_with (os_get_signed os)"
| "os_do (Store_bytes bs) os = returned (os_store_bytes os bs)"
| "os_do (Get_bytes l) os = returned_with (os_get_bytes os l)"
| "os_do (Store_string bs) os = returned (os_store_string os bs)"
| "os_do Get_string os = returned_with (os_get_string os)"
| "os_do (Store_bit a) os = Some (os_store_bit os a)"
| "os_do Get_bit os = returned_with (os_get_bit os)"
| "os_do (Store_bits a n) os = returned (os_store_bits os a n)"
| "os_do (Get_bits n) os = returned_with (os_get_bits os n)"
| "os_do (Store_bits_N a n) os = Some (os_store_bits_N n os a)"
| "os_do (Get_bits_N n) os = returned_with (os_get_bits_N n os)"
| "os_do (Input s) os = returned_first (os_input os s)"
| "os_do (Receive s) os = (case os_Receive os s of None \<Rightarrow> None | Some r \<Rightarrow> returned_first r)"

text \<open>
  The conditions on the arguments: what is cut off at the end has not been read, an allocation holds the contents, a size
  can be doubled, an input is not shorter than what has been read, as the read head stays, and a group of bits fits a byte.
\<close>

fun op_ok :: "stream_op \<Rightarrow> octet_stream \<Rightarrow> bool" where
  "op_ok (Rewind_write_head num) os \<longleftrightarrow> os_ptr os + num \<le> os_len os"
| "op_ok (Resize l) os \<longleftrightarrow> l < os_mxlen os \<or> os_len os \<le> (2 * l) mod 2 ^ 64"
| "op_ok (Resize_precise l) os \<longleftrightarrow> os_len os \<le> l"
| "op_ok (Input s) os \<longleftrightarrow> os_ptr os \<le> le_val (take 8 s)"
| "op_ok (Assign a) os \<longleftrightarrow> os_inv a"
| "op_ok (Consume_from a l) os \<longleftrightarrow> os_inv a \<and> os_len a < 2 ^ 63 \<and> os_ptr os \<le> l"
| "op_ok (Store_bits_N a n) os \<longleftrightarrow> 1 \<le> n \<and> n \<le> 8"
| "op_ok (Get_bits_N n) os \<longleftrightarrow> 1 \<le> n \<and> n \<le> 8"
| "op_ok _ os \<longleftrightarrow> True"

text \<open>The operations that can break the invariant with other arguments.\<close>

fun op_cuts :: "stream_op \<Rightarrow> bool" where
  "op_cuts (Rewind_write_head num) \<longleftrightarrow> True" | "op_cuts (Resize l) \<longleftrightarrow> True" | "op_cuts (Resize_precise l) \<longleftrightarrow> True"
| "op_cuts (Input s) \<longleftrightarrow> True" | "op_cuts _ \<longleftrightarrow> False"

fun os_run :: "stream_op list \<Rightarrow> octet_stream \<Rightarrow> octet_stream option" where
  "os_run [] os = Some os"
| "os_run (op # ops) os = (case os_do op os of None \<Rightarrow> None | Some os \<Rightarrow> os_run ops os)"

fun ops_ok :: "stream_op list \<Rightarrow> octet_stream \<Rightarrow> bool" where
  "ops_ok [] os \<longleftrightarrow> True"
| "ops_ok (op # ops) os \<longleftrightarrow> op_ok op os \<and> (case os_do op os of None \<Rightarrow> True | Some os \<Rightarrow> os_len os < 2 ^ 63 \<and> ops_ok ops os)"

subsection \<open>The invariant\<close>

lemma returned_eq [simp]:
  "returned r = Some os' \<longleftrightarrow> r = Inr os'" "returned_with p = Some os' \<longleftrightarrow> (\<exists>x. p = Inr (x, os'))"
  "returned_first f = Some os' \<longleftrightarrow> (\<exists>y. f = Inr (os', y))"
  by (auto simp: returned_def returned_with_def returned_first_def split: sum.splits)

lemma os_inv_flush: "os_inv os \<Longrightarrow> os_inv (os_flush_bits os)"
  using os_append_bytes_effect [of "os\<lparr>os_wbits := (os_wbits os)\<lparr>bb_n := 0\<rparr>\<rparr>" "[bb_buffer (os_wbits os)]"]
  by (auto simp: os_flush_bits_def os_inv_def os_len_def Let_def)

lemma os_inv_store:
  assumes "os_inv os"
  shows "os_store_int os v n = Inr os' \<Longrightarrow> os_inv os'" "os_store_int_N n os v = Inr os' \<Longrightarrow> os_inv os'"
    "os_store_signed os u = Inr os' \<Longrightarrow> os_inv os'" "os_store_bytes os bs = Inr os' \<Longrightarrow> os_inv os'"
  using assms
  by (auto simp: os_store_int_def os_store_int_N_def os_store_signed_def os_store_bytes_def bind_result_Inr_iff os_inv_append split: if_splits)

lemma os_inv_get:
  assumes "os_inv os"
  shows "os_get_int os n = Inr (v, os') \<Longrightarrow> os_inv os'" "os_get_int_N n os = Inr (v, os') \<Longrightarrow> os_inv os'"
  using assms os_inv_consume
  by (auto simp: os_get_int_def os_get_int_N_def bind_result_Inr_iff split: if_splits)

lemma os_inv_get_bytes:
  assumes "os_inv os" "os_get_bytes os l = Inr (bs, os')"
  shows "os_inv os'"
proof -
  obtain v os1 where "os_get_int os 4 = Inr (v, os1)" "os_consume os1 l = Inr (bs, os')"
    using assms(2) by (auto simp: os_get_bytes_def bind_result_Inr_iff split: if_splits)
  then show ?thesis using os_inv_get(1) [OF assms(1)] os_inv_consume by blast
qed

lemma os_inv_get_string:
  assumes "os_inv os" "os_get_string os = Inr (bs, os')"
  shows "os_inv os'"
proof -
  obtain v os1 where "os_get_int os 8 = Inr (v, os1)" "os_consume os1 (unat v) = Inr (bs, os')"
    using assms(2) by (auto simp: os_get_string_def os_get_size_t_def bind_result_Inr_iff)
  then show ?thesis using os_inv_get(1) [OF assms(1)] os_inv_consume by blast
qed

lemma os_inv_get_bits:
  assumes "os_inv os" "os_get_bits_N N os = Inr (v, os')"
  shows "os_inv os'"
proof -
  obtain os1 where os1: "os_inv os1" "os' = os1\<lparr>os_rbits := (os_rbits os1)\<lparr>bb_n := bb_n (os_rbits os1) - N\<rparr>\<rparr>"
  proof (cases "bb_n (os_rbits os) < N")
    case True
    then obtain w os2 where "os_get_int_N 1 os = Inr (w, os2)"
      "os' = os2\<lparr>os_rbits := \<lparr>bb_n = 8 - N, bb_buffer = ucast w\<rparr>\<rparr>"
      using assms(2) by (auto simp: os_get_bits_N_def bind_result_Inr_iff Let_def)
    with os_inv_get(2) [OF assms(1)] show ?thesis
      by (intro that [of "os2\<lparr>os_rbits := \<lparr>bb_n = 8, bb_buffer = ucast w\<rparr>\<rparr>"]) (auto simp: os_inv_def os_len_def)
  next
    case False
    with assms show ?thesis by (intro that [of os]) (auto simp: os_get_bits_N_def Let_def)
  qed
  then show ?thesis by (auto simp: os_inv_def os_len_def)
qed

lemma os_inv_receive:
  assumes "os_inv os" "os_Receive os s = Some (Inr (os', rest))"
  shows "os_inv os'"
  using assms
  by (auto simp: os_Receive_def os_inv_def os_len_def os_reset_read_head_def os_alloc_defs Let_def split: if_splits sum.splits)

lemma os_inv_consume_into:
  assumes "os_inv a" "os_inv os" "os_consume_into a os l = Inr (a', os')"
  shows "os_inv a'" "os_len a < 2 ^ 63 \<Longrightarrow> os_ptr os \<le> l \<Longrightarrow> os_inv os'"
proof -
  obtain bs where c: "os_consume a l = Inr (bs, a')" and os': "os' = (os_resize l os)\<lparr>os_data := bs\<rparr>"
    using assms(3) by (auto simp: os_consume_into_def Let_def bind_result_Inr_iff)
  show "os_inv a'" using os_inv_consume [OF assms(1) c] by blast
  assume "os_len a < 2 ^ 63" "os_ptr os \<le> l"
  moreover have "length bs = l" "os_ptr a + l \<le> os_len a" using os_inv_consume [OF assms(1) c] os_consume_InrD(1) [OF c] by auto
  ultimately show "os_inv os'"
    using assms(2) os_resize_room [OF assms(2), of l] by (simp add: os' os_inv_def os_len_def)
qed

text \<open>Exactly the conditions of \<open>op_ok\<close> for the operations that can cut off contents.\<close>

lemma os_do_cuts: "os_inv os \<Longrightarrow> os_do op os = Some os' \<Longrightarrow> op_cuts op \<Longrightarrow> os_inv os' \<longleftrightarrow> op_ok op os"
  by (cases op) (auto simp: os_rewind_write_head_def os_input_def os_inv_def os_len_def os_alloc_defs Let_def split: if_splits)

fun op_stores :: "stream_op \<Rightarrow> bool" where
  "op_stores (Store_int v n) \<longleftrightarrow> True" | "op_stores (Store_int_N v n) \<longleftrightarrow> True" | "op_stores (Store_uint u) \<longleftrightarrow> True"
| "op_stores (Store_size_t v) \<longleftrightarrow> True" | "op_stores (Store_signed u) \<longleftrightarrow> True" | "op_stores (Store_bytes bs) \<longleftrightarrow> True"
| "op_stores (Store_string bs) \<longleftrightarrow> True" | "op_stores (Store_bit a) \<longleftrightarrow> True" | "op_stores (Store_bits a n) \<longleftrightarrow> True"
| "op_stores (Store_bits_N a n) \<longleftrightarrow> True" | "op_stores _ \<longleftrightarrow> False"

fun op_gets :: "stream_op \<Rightarrow> bool" where
  "op_gets (Get_int n) \<longleftrightarrow> True" | "op_gets (Get_int_N n) \<longleftrightarrow> True" | "op_gets Get_uint \<longleftrightarrow> True" | "op_gets Get_size_t \<longleftrightarrow> True"
| "op_gets Get_signed \<longleftrightarrow> True" | "op_gets (Get_bytes n) \<longleftrightarrow> True" | "op_gets Get_string \<longleftrightarrow> True" | "op_gets Get_bit \<longleftrightarrow> True"
| "op_gets (Get_bits n) \<longleftrightarrow> True" | "op_gets (Get_bits_N n) \<longleftrightarrow> True" | "op_gets (Consume n) \<longleftrightarrow> True" | "op_gets _ \<longleftrightarrow> False"

lemma os_do_inv_store:
  assumes "os_inv os" "os_do op os = Some os'" "op_ok op os" "op_stores op"
  shows "os_inv os'"
  using assms(2-4) os_inv_store [OF assms(1)]
  by (cases op) (auto simp: assms(1) os_store_uint_def os_store_size_t_def os_store_string_def bind_result_Inr_iff os_store_bit_def os_store_bits_def
    os_inv_append os_inv_store_bits split: if_splits)

lemma os_do_inv_get:
  assumes "os_inv os" "os_do op os = Some os'" "op_gets op"
  shows "os_inv os'"
  using assms(2,3) os_inv_get [OF assms(1)] os_inv_get_bytes [OF assms(1)] os_inv_get_string [OF assms(1)] os_inv_get_bits [OF assms(1)]
    os_inv_consume [OF assms(1)]
  by (cases op) (auto simp: os_get_uint_def os_get_size_t_def os_get_signed_def bind_result_Inr_iff os_get_bit_def os_get_bits_def split: if_splits)

lemma os_do_inv:
  assumes "os_inv os" "os_do op os = Some os'" "op_ok op os"
  shows "os_inv os'"
proof (cases "op_cuts op")
  case False
  note store = os_do_inv_store [OF assms] and get = os_do_inv_get [OF assms(1,2)]
  show ?thesis
  proof (cases op)
    case (Append_no_resize bs)
    then show ?thesis using assms by (auto simp: os_append_no_resize_def os_inv_def os_len_def split: if_splits)
  next
    case Clear
    then show ?thesis using assms by (auto simp: os_clear_def os_inv_def os_len_def)
  next
    case (Consume_to s l)
    then show ?thesis using assms os_inv_consume [OF assms(1)] by (auto simp: os_consume_into_def Let_def bind_result_Inr_iff)
  next
    case (Consume_from a l)
    then show ?thesis using assms os_inv_consume_into(2) [of a os l] by auto
  next
    case (Receive s)
    then show ?thesis using assms os_inv_receive by (auto split: option.splits)
  qed (use assms False store get in \<open>auto simp: os_inv_alloc os_inv_heads os_inv_assign os_inv_append os_inv_flush os_concat_def\<close>)
qed (use assms os_do_cuts in blast)

lemma os_run_inv: "os_inv os \<Longrightarrow> ops_ok ops os \<Longrightarrow> os_run ops os = Some os' \<Longrightarrow> os_inv os'"
  by (induction ops arbitrary: os) (auto split: option.splits intro: os_do_inv)

end
