(* ===== verification/Zp.thy ===== *)
theory Zp
  imports PrngStream
begin

section \<open>Prime fields in Montgomery form (Math/Zp_Data, Math/modp)\<close>

text \<open>
  \<open>zp_data\<close> is \<open>class Zp_Data\<close>, the constants of one modulus. The operations work on arrays of
  \<open>t\<close> limbs, the part of \<open>modp_<L>\<close> they read and write. GMP's multi-limb routines that the
  sources call are the arguments \<open>G\<close> and \<open>A\<close>, and GMP's inverse modulo a power of the base and its
  primality test are arguments of \<open>zp_init\<close>.
\<close>

subsection \<open>GMP\<close>

record gmp_arith =
  mpn_mul_1 :: "limb list \<Rightarrow> limb \<Rightarrow> limb list \<times> limb"
  mpn_addmul_1 :: "limb list \<Rightarrow> limb list \<Rightarrow> limb \<Rightarrow> limb list \<times> limb"
  mpn_sub_n :: "limb list \<Rightarrow> limb list \<Rightarrow> limb list \<times> limb"
  mpn_sub :: "limb list \<Rightarrow> limb list \<Rightarrow> limb list \<times> limb"
  mpn_mul_n :: "limb list \<Rightarrow> limb list \<Rightarrow> limb list"
  mpn_rem :: "limb list \<Rightarrow> limb list \<Rightarrow> limb list"
  mpn_gcdext :: "limb list \<Rightarrow> limb list \<Rightarrow> limb list \<times> int"

locale gmp_arith_ok =
  fixes A :: gmp_arith
  assumes mul_1: "mpn_mul_1 A xs y = (r, c) \<Longrightarrow>
      length r = length xs \<and> limbs_val r + limb_base ^ length xs * unat c = limbs_val xs * unat y"
    and addmul_1: "length zs = length xs \<Longrightarrow> mpn_addmul_1 A zs xs y = (r, c) \<Longrightarrow>
      length r = length xs \<and> limbs_val r + limb_base ^ length xs * unat c = limbs_val zs + limbs_val xs * unat y"
    and sub_n: "length ys = length xs \<Longrightarrow> mpn_sub_n A xs ys = (r, c) \<Longrightarrow>
      length r = length xs \<and> int (limbs_val r) = int (limbs_val xs) - int (limbs_val ys) + int (limb_base ^ length xs) * int (unat c)"
    and sub: "length ys \<le> length xs \<Longrightarrow> mpn_sub A xs ys = (r, c) \<Longrightarrow>
      length r = length xs \<and> int (limbs_val r) = int (limbs_val xs) - int (limbs_val ys) + int (limb_base ^ length xs) * int (unat c)"
    and mul_n: "length ys = length xs \<Longrightarrow>
      length (mpn_mul_n A xs ys) = 2 * length xs \<and> limbs_val (mpn_mul_n A xs ys) = limbs_val xs * limbs_val ys"
    and rem: "0 < limbs_val ds \<Longrightarrow>
      length (mpn_rem A xs ds) = length ds \<and> limbs_val (mpn_rem A xs ds) = limbs_val xs mod limbs_val ds"
    and gcdext: "0 < limbs_val xs \<Longrightarrow> limbs_val xs < limbs_val ys \<Longrightarrow> length ys = length xs \<Longrightarrow>
      coprime (limbs_val xs) (limbs_val ys) \<Longrightarrow> mpn_gcdext A xs ys = (r, sz) \<Longrightarrow>
      length r = length xs \<and> nat \<bar>sz\<bar> \<le> length xs \<and> limbs_val (take (nat \<bar>sz\<bar>) r) < limbs_val ys
      \<and> (sgn sz * int (limbs_val (take (nat \<bar>sz\<bar>) r)) * int (limbs_val xs)) mod int (limbs_val ys) = 1 mod int (limbs_val ys)"

subsection \<open>The constants of a modulus\<close>

definition MAX_MOD_SZ :: nat where
  "MAX_MOD_SZ = 11"

record zp_data =
  zp_montgomery :: bool
  zp_R :: "limb list"
  zp_R2 :: "limb list"
  zp_R3 :: "limb list"
  zp_pi :: limb
  zp_prA :: "limb list"
  zp_t :: nat
  zp_overhang :: limb
  zp_pr :: nat
  zp_pr_half :: nat
  zp_mask :: limb
  zp_pr_byte_length :: nat
  zp_pr_bit_length :: nat

definition zp_new :: zp_data where
  "zp_new = \<lparr>zp_montgomery = False, zp_R = [], zp_R2 = [], zp_R3 = [], zp_pi = 0, zp_prA = [], zp_t = 0,
     zp_overhang = 0, zp_pr = 0, zp_pr_half = 0, zp_mask = 0, zp_pr_byte_length = 0, zp_pr_bit_length = 0\<rparr>"

text \<open>The limbs and bits of a GMP integer.\<close>

fun mpz_size :: "nat \<Rightarrow> nat" where
  "mpz_size n = (if n = 0 then 0 else Suc (mpz_size (n div limb_base)))"

declare mpz_size.simps [simp del]

definition mpz_limbs :: "nat \<Rightarrow> limb list" where
  "mpz_limbs n = limbs_of_nat (mpz_size n) n"

fun numBits :: "nat \<Rightarrow> nat" where
  "numBits n = (if n = 0 then 0 else Suc (numBits (n div 2)))"

declare numBits.simps [simp del]

definition numBytes :: "nat \<Rightarrow> nat" where
  "numBytes n = (numBits n + 7) div 8"

text \<open>An array of \<open>n\<close> limbs, zeroed, then overwritten from the front.\<close>

definition zero_copy :: "nat \<Rightarrow> limb list \<Rightarrow> limb list" where
  "zero_copy n xs = write_at 0 xs (inline_mpn_zero n)"

text \<open>
  \<open>probPrime\<close> and \<open>mpz_invert\<close> are GMP's. A second initialisation with the same prime is allowed,
  with another it is an error. The state is the object with its lock; the result has the exception, if one is thrown, and
  the state that is left, in which the lock is still held then. \<open>None\<close>: the call waits for the lock.
\<close>

definition zp_init ::
  "(nat \<Rightarrow> bool) \<Rightarrow> (nat \<Rightarrow> nat \<Rightarrow> nat) \<Rightarrow> nat \<Rightarrow> bool \<Rightarrow> bool \<times> zp_data \<Rightarrow> (cpp_error option \<times> bool \<times> zp_data) option" where
  "zp_init probPrime mpz_invert p mont LZ =
     (let (locked, Z) = LZ in
      if locked then None
      else let locked = True in Some (
      if zp_pr Z \<noteq> 0 \<and> (zp_pr Z \<noteq> p \<or> mont \<noteq> zp_montgomery Z)
      then (Some (runtime_error ''Zp_Data instance already initialized''), locked, Z)
      else if \<not> probPrime p then (Some (runtime_error ''is not a prime''), locked, Z)
      else
        let k = numBits p;
            t = mpz_size p;
            Z = Z\<lparr>zp_pr := p, zp_pr_half := p div 2,
                  zp_mask := push_bit ((k - 1) mod 64) 1 - 1,
                  zp_pr_byte_length := numBytes p, zp_pr_bit_length := k,
                  zp_overhang := drop_bit (63 - (k - 1) mod 64) (- 1),
                  zp_montgomery := mont, zp_t := t\<rparr>
        in if MAX_MOD_SZ < t then (Some (runtime_error ''max_mod_sz_too_small''), locked, Z)
           else
             let Z = (if mont then
                        let r = 2 ^ (t * 64);
                            pp = r - mpz_invert p r;
                            r = r mod p;
                            r2 = (r * r) mod p;
                            r3 = (r2 * r) mod p
                        in Z\<lparr>zp_pi := of_nat (pp mod limb_base),
                             zp_R := zero_copy MAX_MOD_SZ (mpz_limbs r),
                             zp_R2 := zero_copy MAX_MOD_SZ (mpz_limbs r2),
                             zp_R3 := zero_copy MAX_MOD_SZ (mpz_limbs r3)\<rparr>
                      else Z)
             in (None, False, Z\<lparr>zp_prA := zero_copy (MAX_MOD_SZ + 1) (take t (mpz_limbs p))\<rparr>)))"

subsection \<open>Addition and subtraction\<close>

text \<open>
  The template parameter of \<open>Add\<close> and \<open>Sub\<close> selects the versions for a size known at compile time;
  0 is the version for any size. The versions of \<open>Add\<close> for one and two limbs are those for GCC on
  x86-64, which read the carry flag.
\<close>

definition zp_Add_0 :: "gmp \<Rightarrow> zp_data \<Rightarrow> limb list \<Rightarrow> limb list \<Rightarrow> limb list" where
  "zp_Add_0 G Z x y =
     (let (ans, carry) = mpn_add_n_with_carry x y (zp_t Z)
      in if carry \<or> 0 \<le> mpn_cmp G ans (take (zp_t Z) (zp_prA Z))
         then fst (mpn_sub_n_borrow ans (zp_prA Z) (zp_t Z)) else ans)"

definition zp_Add_1 :: "gmp \<Rightarrow> zp_data \<Rightarrow> limb list \<Rightarrow> limb list \<Rightarrow> limb list" where
  "zp_Add_1 G Z x y =
     (let (ans, carry) = addcarryx_u64 False (x ! 0) (y ! 0)
      in if carry \<or> 0 \<le> mpn_cmp G [ans] (take 1 (zp_prA Z)) then [ans - zp_prA Z ! 0] else [ans])"

definition u128_of_limbs :: "limb list \<Rightarrow> 128 word" where
  "u128_of_limbs xs = of_nat (limbs_val (take 2 xs))"

definition limbs_of_u128 :: "128 word \<Rightarrow> limb list" where
  "limbs_of_u128 w = limbs_of_nat 2 (unat w)"

definition zp_Add_2 :: "zp_data \<Rightarrow> limb list \<Rightarrow> limb list \<Rightarrow> limb list" where
  "zp_Add_2 Z x y =
     (let a = u128_of_limbs x;
          b = u128_of_limbs y;
          p = u128_of_limbs (zp_prA Z);
          c = a + b;
          carry = 2 ^ 128 \<le> unat a + unat b
      in limbs_of_u128 (if carry \<or> p \<le> c then c - p else c))"

definition zp_Add_T :: "gmp \<Rightarrow> nat \<Rightarrow> zp_data \<Rightarrow> limb list \<Rightarrow> limb list \<Rightarrow> limb list" where
  "zp_Add_T G T Z x y =
     (let (ans, carry) = mpn_add_fixed_n_with_carry T x y
      in if carry \<or> 0 \<le> mpn_cmp G ans (take T (zp_prA Z))
         then fst (mpn_sub_n_borrow ans (zp_prA Z) T) else ans)"

definition zp_Add :: "gmp \<Rightarrow> zp_data \<Rightarrow> limb list \<Rightarrow> limb list \<Rightarrow> limb list" where
  "zp_Add G Z x y =
     (if zp_t Z = 1 then zp_Add_1 G Z x y
      else if zp_t Z = 2 then zp_Add_2 Z x y
      else if zp_t Z \<in> {3, 4, 5} then zp_Add_T G (zp_t Z) Z x y
      else zp_Add_0 G Z x y)"

definition zp_Sub_T :: "nat \<Rightarrow> zp_data \<Rightarrow> limb list \<Rightarrow> limb list \<Rightarrow> limb list" where
  "zp_Sub_T T Z x y =
     (let (tmp, borrow) = mpn_sub_fixed_n_borrow T x y
      in if borrow \<noteq> 0 then mpn_add_fixed_n T tmp (zp_prA Z) else inline_mpn_copyi tmp T)"

definition zp_Sub_0 :: "zp_data \<Rightarrow> limb list \<Rightarrow> limb list \<Rightarrow> limb list" where
  "zp_Sub_0 Z x y =
     (let (ans, borrow) = mpn_sub_n_borrow x y (zp_t Z)
      in if borrow then fst (mpn_add_n_with_carry ans (zp_prA Z) (zp_t Z)) else ans)"

definition zp_Sub :: "zp_data \<Rightarrow> limb list \<Rightarrow> limb list \<Rightarrow> limb list" where
  "zp_Sub Z x y =
     (if zp_t Z \<in> {1, 2, 3, 4, 5} then zp_Sub_T (zp_t Z) Z x y else zp_Sub_0 Z x y)"

subsection \<open>Montgomery multiplication\<close>

text \<open>
  \<open>Mont_Mult_<T>\<close>: the loop interleaves one row of the product with one multiple of the modulus
  that clears the lowest remaining limb. \<open>ans\<close> holds \<open>2 T + 1\<close> limbs.
\<close>

definition mont_round :: "nat \<Rightarrow> zp_data \<Rightarrow> limb list \<Rightarrow> limb list \<Rightarrow> nat \<Rightarrow> limb list \<Rightarrow> limb list" where
  "mont_round T Z x y i ans =
     (let u = (ans ! i + x ! i * y ! 0) * zp_pi Z;
          ans = write_at i (mpn_addmul_1_fixed_L (T + 2) T (drop i ans) y (x ! i)) ans
      in write_at i (mpn_addmul_1_fixed_L (T + 2) (T + 1) (drop i ans) (zp_prA Z) u) ans)"

definition zp_Mont_Mult_T :: "gmp \<Rightarrow> nat \<Rightarrow> zp_data \<Rightarrow> limb list \<Rightarrow> limb list \<Rightarrow> limb list" where
  "zp_Mont_Mult_T G T Z x y =
     (let u = x ! 0 * y ! 0 * zp_pi Z;
          ans = mpn_mul_1_fixed (T + 1) T y (x ! 0) @ inline_mpn_zero T;
          ans = write_at 0 (mpn_addmul_1_fixed_L (T + 2) (T + 1) ans (zp_prA Z) u) ans;
          ans = fold (mont_round T Z x y) [1..<T] ans
      in if 0 \<le> mpn_cmp G (take (T + 1) (drop T ans)) (take (T + 1) (zp_prA Z))
         then mpn_sub_fixed_n T (drop T ans) (zp_prA Z)
         else inline_mpn_copyi (drop T ans) T)"

text \<open>\<open>Mont_Mult(z, x, y, t)\<close>, the version on GMP's routines; \<open>ans\<close> is built up as it is written.\<close>

definition mont_round_gmp ::
  "gmp_arith \<Rightarrow> nat \<Rightarrow> zp_data \<Rightarrow> limb list \<Rightarrow> limb list \<Rightarrow> nat \<Rightarrow> limb list \<Rightarrow> limb list" where
  "mont_round_gmp A t Z x yy i ans =
     (let u = (ans ! i + x ! i * yy ! 0) * zp_pi Z;
          (row, c) = mpn_addmul_1 A (take (t + 1) (drop i ans)) yy (x ! i);
          ans = take i ans @ row @ [c];
          (row, c') = mpn_addmul_1 A (take (t + 1) (drop i ans)) (take (t + 1) (zp_prA Z)) u
      in take i ans @ row @ [c + c'])"

definition zp_Mont_Mult_gmp :: "gmp \<Rightarrow> gmp_arith \<Rightarrow> zp_data \<Rightarrow> limb list \<Rightarrow> limb list \<Rightarrow> nat \<Rightarrow> limb list" where
  "zp_Mont_Mult_gmp G A Z x y t =
     (let yy = take t y @ [0];
          u = x ! 0 * y ! 0 * zp_pi Z;
          (row, c) = mpn_mul_1 A (take t y) (x ! 0);
          (row, c) = mpn_addmul_1 A (row @ [c]) (take (t + 1) (zp_prA Z)) u;
          ans = fold (mont_round_gmp A t Z x yy) [1..<t] (row @ [c])
      in if 0 \<le> mpn_cmp G (take (t + 1) (drop t ans)) (take (t + 1) (zp_prA Z))
         then fst (mpn_sub_n A (take t (drop t ans)) (take t (zp_prA Z)))
         else inline_mpn_copyi (drop t ans) t)"

text \<open>
  \<open>Mont_Mult\<close>: with BMI2 the fixed-size version for the sizes of \<open>Mont_Mult_switch\<close>, otherwise the
  version on GMP's routines.
\<close>

definition zp_Mont_Mult :: "gmp \<Rightarrow> gmp_arith \<Rightarrow> bool \<Rightarrow> zp_data \<Rightarrow> limb list \<Rightarrow> limb list \<Rightarrow> limb list" where
  "zp_Mont_Mult G A bmi2 Z x y =
     (if bmi2 \<and> 1 \<le> zp_t Z \<and> zp_t Z \<le> 10 then zp_Mont_Mult_T G (zp_t Z) Z x y
      else zp_Mont_Mult_gmp G A Z x y (zp_t Z))"

definition zp_Mont_Mult_max ::
  "gmp \<Rightarrow> gmp_arith \<Rightarrow> bool \<Rightarrow> zp_data \<Rightarrow> limb list \<Rightarrow> limb list \<Rightarrow> nat \<Rightarrow> limb list option" where
  "zp_Mont_Mult_max G A bmi2 Z x y max_t =
     (if zp_t Z \<le> max_t then Some (zp_Mont_Mult G A bmi2 Z x y) else None)"

subsection \<open>Field elements\<close>

text \<open>The template parameter \<open>L\<close> of \<open>modp_<L>\<close> bounds the size; \<open>None\<close> is a failed assertion.\<close>

type_synonym modp = "limb list"

definition modp_assignZero :: "zp_data \<Rightarrow> modp" where
  "modp_assignZero Z = inline_mpn_zero (zp_t Z)"

definition modp_assignOne :: "zp_data \<Rightarrow> modp" where
  "modp_assignOne Z =
     (if zp_montgomery Z then take (zp_t Z) (zp_R Z) else (modp_assignZero Z)[0 := 1])"

definition modp_isZero :: "zp_data \<Rightarrow> modp \<Rightarrow> bool" where
  "modp_isZero Z ans \<longleftrightarrow> list_all (\<lambda>i. ans ! i = 0) [0..<zp_t Z]"

definition modp_isOne :: "gmp \<Rightarrow> zp_data \<Rightarrow> modp \<Rightarrow> bool" where
  "modp_isOne G Z x \<longleftrightarrow>
     (if zp_montgomery Z then mpn_cmp G x (take (zp_t Z) (zp_R Z)) = 0
      else x ! 0 = 1 \<and> list_all (\<lambda>i. x ! i = 0) [1..<zp_t Z])"

definition modp_areEqual :: "gmp \<Rightarrow> zp_data \<Rightarrow> modp \<Rightarrow> modp \<Rightarrow> bool" where
  "modp_areEqual G Z x y \<longleftrightarrow> mpn_cmp G x y = 0"

definition modp_Add :: "gmp \<Rightarrow> zp_data \<Rightarrow> modp \<Rightarrow> modp \<Rightarrow> modp" where
  "modp_Add G Z x y = zp_Add G Z x y"

definition modp_Sub :: "zp_data \<Rightarrow> modp \<Rightarrow> modp \<Rightarrow> modp" where
  "modp_Sub Z x y = zp_Sub Z x y"

definition modp_Negate :: "gmp_arith \<Rightarrow> zp_data \<Rightarrow> modp \<Rightarrow> modp" where
  "modp_Negate A Z x =
     (if modp_isZero Z x then x else fst (mpn_sub_n A (take (zp_t Z) (zp_prA Z)) x))"

definition modp_Mul :: "gmp \<Rightarrow> gmp_arith \<Rightarrow> bool \<Rightarrow> nat \<Rightarrow> zp_data \<Rightarrow> modp \<Rightarrow> modp \<Rightarrow> modp option" where
  "modp_Mul G A bmi2 L Z x y =
     (if zp_montgomery Z then zp_Mont_Mult_max G A bmi2 Z x y L
      else Some (mpn_rem A (mpn_mul_n A x y) (take (zp_t Z) (zp_prA Z))))"

definition modp_Sqr :: "gmp \<Rightarrow> gmp_arith \<Rightarrow> bool \<Rightarrow> zp_data \<Rightarrow> modp \<Rightarrow> modp" where
  "modp_Sqr G A bmi2 Z x =
     (if zp_montgomery Z then zp_Mont_Mult G A bmi2 Z x x
      else mpn_rem A (mpn_mul_n A x x) (take (zp_t Z) (zp_prA Z)))"

text \<open>The integer an element stands for; \<open>reduce\<close> only trims leading zero limbs.\<close>

definition modp_to_bigint :: "gmp \<Rightarrow> gmp_arith \<Rightarrow> bool \<Rightarrow> zp_data \<Rightarrow> modp \<Rightarrow> nat" where
  "modp_to_bigint G A bmi2 Z x =
     limbs_val (if zp_montgomery Z
                then zp_Mont_Mult G A bmi2 Z x ((inline_mpn_zero (zp_t Z))[0 := 1])
                else inline_mpn_copyi x (zp_t Z))"

definition modp_convert :: "gmp \<Rightarrow> gmp_arith \<Rightarrow> bool \<Rightarrow> zp_data \<Rightarrow> limb list \<Rightarrow> bool \<Rightarrow> modp result" where
  "modp_convert G A bmi2 Z source negative =
     (if zp_t Z < length source then Inl assertion_failed
      else let x = (if negative then fst (mpn_sub A (take (zp_t Z) (zp_prA Z)) source)
                    else source @ inline_mpn_zero (zp_t Z - length source))
           in Inr (if zp_montgomery Z then zp_Mont_Mult G A bmi2 Z x (take (zp_t Z) (zp_R2 Z)) else x))"

text \<open>\<open>xx %= pr\<close> in C++ keeps the sign of \<open>xx\<close>.\<close>

definition modp_convert_destroy :: "gmp \<Rightarrow> gmp_arith \<Rightarrow> bool \<Rightarrow> zp_data \<Rightarrow> int \<Rightarrow> modp result" where
  "modp_convert_destroy G A bmi2 Z xx =
     (let m = nat \<bar>xx\<bar> mod zp_pr Z
      in modp_convert G A bmi2 Z (mpz_limbs m) (xx < 0 \<and> m \<noteq> 0))"

definition to_modp_mpz :: "gmp \<Rightarrow> gmp_arith \<Rightarrow> bool \<Rightarrow> zp_data \<Rightarrow> int \<Rightarrow> modp result" where
  "to_modp_mpz G A bmi2 Z x =
     (if x = 0 then Inr (modp_assignZero Z)
      else if x = 1 then Inr (modp_assignOne Z)
      else modp_convert_destroy G A bmi2 Z x)"

definition to_modp_int :: "gmp \<Rightarrow> gmp_arith \<Rightarrow> bool \<Rightarrow> zp_data \<Rightarrow> 32 word \<Rightarrow> modp result" where
  "to_modp_int G A bmi2 Z x =
     (let p0 = zp_prA Z ! 0;
          mont = (\<lambda>ans. if zp_montgomery Z then zp_Mont_Mult G A bmi2 Z ans (take (zp_t Z) (zp_R2 Z)) else ans);
          ans = inline_mpn_zero (zp_t Z)
      in if 0 \<le>s x then Inr (mont (ans[0 := if zp_t Z = 1 then scast x mod p0 else scast x]))
         else if zp_t Z = 1 then Inr (mont (ans[0 := (p0 + scast x) mod p0]))
         else to_modp_mpz G A bmi2 Z (int (zp_pr Z) + sint x))"

definition modp_Inv :: "gmp \<Rightarrow> gmp_arith \<Rightarrow> bool \<Rightarrow> nat \<Rightarrow> zp_data \<Rightarrow> modp \<Rightarrow> modp option" where
  "modp_Inv G A bmi2 L Z x =
     (let t = zp_t Z;
          (s, sz) = mpn_gcdext A x (take t (zp_prA Z));
          ans = (if sz < 0 then fst (mpn_sub A (take t (zp_prA Z)) (take (nat (- sz)) s))
                 else take (nat sz) s @ inline_mpn_zero (t - nat sz))
      in if zp_montgomery Z then zp_Mont_Mult_max G A bmi2 Z ans (take t (zp_R3 Z)) L else Some ans)"

text \<open>\<open>Power(ans, x, bigint exp)\<close>: square and multiply, from the low bit.\<close>

fun modp_power_loop :: "gmp \<Rightarrow> gmp_arith \<Rightarrow> bool \<Rightarrow> nat \<Rightarrow> zp_data \<Rightarrow> nat \<Rightarrow> modp \<Rightarrow> modp \<Rightarrow> modp option" where
  "modp_power_loop G A bmi2 L Z e t ans =
     (if e = 0 then Some ans
      else Option.bind (if odd e then modp_Mul G A bmi2 L Z ans t else Some ans)
             (modp_power_loop G A bmi2 L Z (e div 2) (modp_Sqr G A bmi2 Z t)))"

declare modp_power_loop.simps [simp del]

definition modp_Power :: "gmp \<Rightarrow> gmp_arith \<Rightarrow> bool \<Rightarrow> nat \<Rightarrow> zp_data \<Rightarrow> modp \<Rightarrow> int \<Rightarrow> modp result" where
  "modp_Power G A bmi2 L Z x exp =
     (if exp = 1 then Inr x
      else if exp = 0 then Inr (modp_assignOne Z)
      else if exp < 0 then Inl not_implemented
      else case modp_power_loop G A bmi2 L Z (nat exp) x (modp_assignOne Z) of
             None \<Rightarrow> Inl assertion_failed | Some r \<Rightarrow> Inr r)"

definition modp_pack :: "zp_data \<Rightarrow> octet_stream \<Rightarrow> modp \<Rightarrow> octet_stream result" where
  "modp_pack Z os x = Inr (os_append os (take (zp_t Z * 8) (bytes_of_limbs x)))"

definition modp_unpack :: "zp_data \<Rightarrow> octet_stream \<Rightarrow> (modp \<times> octet_stream) result" where
  "modp_unpack Z os =
     bind_result (os_consume os (zp_t Z * 8))
       (\<lambda>(bs, os). Inr (limbs_of_bytes (zp_t Z) bs, os))"

definition modp_randomize ::
  "gmp \<Rightarrow> block_cipher \<Rightarrow> nat \<Rightarrow> zp_data \<Rightarrow> prng \<Rightarrow> (modp \<times> prng) result option" where
  "modp_randomize G E pl Z R =
     prng_randomBnd_limbs G E pl (zp_pr_byte_length Z) (inline_mpn_zero (zp_t Z)) (take (zp_t Z) (zp_prA Z))
       (zp_overhang Z) R"

end
