(* ===== verification/ZpArith.thy ===== *)
theory ZpArith
  imports Zp
begin

section \<open>Montgomery arithmetic is arithmetic modulo the prime\<close>

text \<open>
  \<open>zp_wf\<close> is what initialisation establishes and every operation needs. Both Montgomery
  multiplications satisfy \<open>mont_spec\<close>; with \<open>modp_val\<close>, the value \<open>to_bigint\<close> returns, the
  operations on elements are the operations modulo the prime, and the class satisfies the
  contract \<open>residue_ring\<close> that \<open>Z2<K>\<close> also satisfies.
\<close>

subsection \<open>Well-formed constants and elements\<close>

definition zp_wf :: "zp_data \<Rightarrow> bool" where
  "zp_wf Z \<longleftrightarrow> 0 < zp_t Z \<and> zp_t Z \<le> MAX_MOD_SZ \<and> 1 < zp_pr Z \<and> zp_pr Z < limb_base ^ zp_t Z
     \<and> length (zp_prA Z) = MAX_MOD_SZ + 1 \<and> limbs_val (zp_prA Z) = zp_pr Z
     \<and> (zp_montgomery Z \<longrightarrow> odd (zp_pr Z) \<and> (unat (zp_pi Z) * zp_pr Z + 1) mod limb_base = 0
        \<and> length (zp_R Z) = MAX_MOD_SZ \<and> limbs_val (zp_R Z) = limb_base ^ zp_t Z mod zp_pr Z
        \<and> length (zp_R2 Z) = MAX_MOD_SZ \<and> limbs_val (zp_R2 Z) = (limb_base ^ zp_t Z) ^ 2 mod zp_pr Z
        \<and> length (zp_R3 Z) = MAX_MOD_SZ \<and> limbs_val (zp_R3 Z) = (limb_base ^ zp_t Z) ^ 3 mod zp_pr Z)"

definition modp_wf :: "zp_data \<Rightarrow> modp \<Rightarrow> bool" where
  "modp_wf Z x \<longleftrightarrow> length x = zp_t Z \<and> limbs_val x < zp_pr Z"

lemma modp_wfD [dest]: "modp_wf Z x \<Longrightarrow> length x = zp_t Z" "modp_wf Z x \<Longrightarrow> limbs_val x < zp_pr Z"
  by (simp_all add: modp_wf_def)

lemma zp_prA_take:
  assumes "zp_wf Z" "zp_t Z \<le> n" "n \<le> MAX_MOD_SZ + 1"
  shows "limbs_val (take n (zp_prA Z)) = zp_pr Z" "length (take n (zp_prA Z)) = n"
proof -
  have "limb_base ^ zp_t Z \<le> limb_base ^ n"
    using assms(2) by (intro power_increasing) (simp_all add: Suc_leI)
  moreover have "zp_pr Z < limb_base ^ zp_t Z"
    using assms(1) by (simp add: zp_wf_def)
  ultimately have "zp_pr Z < limb_base ^ n" by (rule order.strict_trans2 [rotated])
  then show "limbs_val (take n (zp_prA Z)) = zp_pr Z" "length (take n (zp_prA Z)) = n"
    using assms by (simp_all add: limbs_val_take zp_wf_def)
qed

text \<open>A table of constants cut to \<open>t\<close> limbs.\<close>

lemma limbs_val_take_small: "limbs_val xs < limb_base ^ n \<Longrightarrow> limbs_val (take n xs) = limbs_val xs"
  by (simp add: limbs_val_take)

subsection \<open>Clearing a limb\<close>

lemma limb_of_val: "i < length ans \<Longrightarrow> limbs_val ans div limb_base ^ i mod limb_base = unat (ans ! i)"
proof -
  assume i: "i < length ans"
  then have "limbs_val (drop i ans) = unat (ans ! i) + limb_base * limbs_val (drop (Suc i) ans)"
    by (simp flip: Cons_nth_drop_Suc)
  then show ?thesis by (simp add: limbs_val_drop [symmetric])
qed

lemma mont_clear:
  fixes B :: nat
  assumes "(q * p + 1) mod B = 0" "w mod B = w' mod B"
  shows "(w + (w' * q) mod B * p) mod B = 0"
proof -
  have "(w + (w' * q) mod B * p) mod B = (w' + w' * q * p) mod B"
    using assms(2) by (intro mod_add_cong) (simp_all add: mod_mult_left_eq)
  also have "\<dots> = (w' * (q * p + 1)) mod B"
    by (simp add: algebra_simps)
  also have "\<dots> = 0" using assms(1) by (metis dvd_mult mod_eq_0_iff_dvd)
  finally show ?thesis .
qed

text \<open>One round of the Montgomery loop, on values.\<close>

lemma mont_round_arith:
  fixes V U x y p B :: nat
  assumes dvd: "B ^ i dvd V" and u: "(q * p + 1) mod B = 0"
    and w: "u = ((V div B ^ i + x * y) * q) mod B" and B: "2 < B" and y: "y < p" and p: "p \<le> B ^ T"
    and V: "V = X * y + U * p" and X: "X + B ^ i * x < B ^ (i + 1)" and U: "U < B ^ i"
  shows "B ^ (i + 1) dvd V + B ^ i * (x * y) + B ^ i * (u * p)"
    and "V + B ^ i * (x * y) + B ^ i * (u * p) = (X + B ^ i * x) * y + (U + B ^ i * u) * p"
    and "U + B ^ i * u < B ^ (i + 1)"
    and "V + B ^ i * (x * y) + B ^ i * (u * p) < B ^ (i + 1) * (2 * p)"
    and "V + B ^ i * (x * y) + B ^ i * (u * p) < B ^ (i + T + 2)"
proof -
  have B0: "0 < B" using B by simp
  have Vi: "V = B ^ i * (V div B ^ i)" using dvd by simp
  have "(V div B ^ i + x * y + u * p) mod B = 0"
    unfolding w by (rule mont_clear [OF u]) simp
  then have "B dvd V div B ^ i + x * y + u * p" by (simp add: mod_eq_0_iff_dvd)
  then have "B ^ i * B dvd B ^ i * (V div B ^ i + x * y + u * p)" by (rule mult_dvd_mono [OF dvd_refl])
  moreover have "B ^ i * (V div B ^ i + x * y + u * p) = V + B ^ i * (x * y) + B ^ i * (u * p)"
    using Vi by (simp add: algebra_simps)
  ultimately show "B ^ (i + 1) dvd V + B ^ i * (x * y) + B ^ i * (u * p)"
    by (simp only: power_add power_one_right)
  show eq: "V + B ^ i * (x * y) + B ^ i * (u * p) = (X + B ^ i * x) * y + (U + B ^ i * u) * p"
    unfolding V by (simp add: algebra_simps)
  have "u < B" unfolding w using B0 by simp
  then have "B ^ i * (u + 1) \<le> B ^ i * B" by (intro mult_left_mono) simp_all
  then show U': "U + B ^ i * u < B ^ (i + 1)" using U by (simp add: algebra_simps)
  have "(X + B ^ i * x) * y \<le> B ^ (i + 1) * p" using X y by (intro mult_mono) simp_all
  moreover have "(U + B ^ i * u) * p < B ^ (i + 1) * p" using U' y by simp
  ultimately show lt: "V + B ^ i * (x * y) + B ^ i * (u * p) < B ^ (i + 1) * (2 * p)"
    unfolding eq by (simp add: algebra_simps)
  have "B ^ (i + 1) * (2 * p) \<le> B ^ (i + 1) * (B * B ^ T)"
    using B p by (intro mult_left_mono mult_mono) simp_all
  also have "\<dots> = B ^ (i + T + 2)" by (simp add: power_add mult.assoc mult.commute mult.left_commute)
  finally show "V + B ^ i * (x * y) + B ^ i * (u * p) < B ^ (i + T + 2)" using lt by linarith
qed

definition mont_spec :: "zp_data \<Rightarrow> limb list \<Rightarrow> limb list \<Rightarrow> limb list \<Rightarrow> bool" where
  "mont_spec Z x y z \<longleftrightarrow> modp_wf Z z
     \<and> (limbs_val z * limb_base ^ zp_t Z) mod zp_pr Z = (limbs_val x * limbs_val y) mod zp_pr Z"

text \<open>The partial product after \<open>i\<close> rounds.\<close>

definition mont_inv :: "zp_data \<Rightarrow> limb list \<Rightarrow> limb list \<Rightarrow> nat \<Rightarrow> nat \<Rightarrow> bool" where
  "mont_inv Z x y i V \<longleftrightarrow> limb_base ^ i dvd V \<and> (\<exists>U < limb_base ^ i. V = limbs_val (take i x) * limbs_val y + U * zp_pr Z)
     \<and> V < limb_base ^ i * (2 * zp_pr Z)"

lemma limb_base_gt_2: "2 < limb_base"
  by (simp add: limb_base_def)

text \<open>The multiplier the code computes from one limb is the one the invariant needs.\<close>

lemma mont_u:
  assumes "i < length ans" "y \<noteq> []"
  shows "unat ((ans ! i + xi * y ! 0) * q)
    = ((limbs_val ans div limb_base ^ i + unat xi * limbs_val y) * unat q) mod limb_base"
proof -
  have "limbs_val y mod limb_base = unat (y ! 0)"
    using limb_of_val [of 0 y] assms(2) by simp
  moreover have "limbs_val ans div limb_base ^ i mod limb_base = unat (ans ! i)"
    using assms(1) by (rule limb_of_val)
  ultimately have eq: "(unat (ans ! i) + unat xi * unat (y ! 0)) mod limb_base
      = (limbs_val ans div limb_base ^ i + unat xi * limbs_val y) mod limb_base"
    by (intro mod_add_cong mod_mult_cong) simp_all
  have "unat (ans ! i + xi * y ! 0) = (unat (ans ! i) + unat xi * unat (y ! 0)) mod limb_base"
    by (simp only: unat_add_limb unat_mult_limb mod_add_right_eq)
  then show ?thesis
    by (simp only: unat_mult_limb eq mod_mult_left_eq)
qed

lemma mont_inv_step:
  assumes Z: "zp_wf Z" "zp_montgomery Z" and V: "mont_inv Z x y i V" and i: "i < length x"
    and y: "limbs_val y < zp_pr Z"
    and u: "u = ((V div limb_base ^ i + unat (x ! i) * limbs_val y) * unat (zp_pi Z)) mod limb_base"
  defines "V' \<equiv> V + limb_base ^ i * (unat (x ! i) * limbs_val y) + limb_base ^ i * (u * zp_pr Z)"
  shows "mont_inv Z x y (Suc i) V'" "V' < limb_base ^ (i + zp_t Z + 2)"
proof -
  obtain U where U: "U < limb_base ^ i" "V = limbs_val (take i x) * limbs_val y + U * zp_pr Z"
    using V by (auto simp: mont_inv_def)
  have X: "limbs_val (take i x) + limb_base ^ i * unat (x ! i) = limbs_val (take (Suc i) x)"
    using limbs_val_take_Suc [OF i] by simp
  have "limbs_val (take (Suc i) x) < limb_base ^ (i + 1)"
    by (simp add: limbs_val_take)
  note arith = mont_round_arith [of limb_base i V "unat (zp_pi Z)" "zp_pr Z" u "unat (x ! i)" "limbs_val y" "zp_t Z"
      "limbs_val (take i x)" U]
  have prems: "limb_base ^ i dvd V" "(unat (zp_pi Z) * zp_pr Z + 1) mod limb_base = 0" "zp_pr Z \<le> limb_base ^ zp_t Z"
    "limbs_val (take i x) + limb_base ^ i * unat (x ! i) < limb_base ^ (i + 1)"
    using V Z X \<open>limbs_val (take (Suc i) x) < limb_base ^ (i + 1)\<close> by (auto simp: mont_inv_def zp_wf_def)
  note r = arith [OF prems(1,2) u limb_base_gt_2 y prems(3) U(2) prems(4) U(1)]
  show "V' < limb_base ^ (i + zp_t Z + 2)" unfolding V'_def by (rule r(5))
  have "V' = limbs_val (take (Suc i) x) * limbs_val y + (U + limb_base ^ i * u) * zp_pr Z"
    unfolding V'_def X [symmetric] by (rule r(2))
  then show "mont_inv Z x y (Suc i) V'"
    using r(1,3,4) unfolding mont_inv_def V'_def Suc_eq_plus1 by blast
qed

lemma mont_inv_0: "zp_wf Z \<Longrightarrow> mont_inv Z x y 0 0"
  by (auto simp: mont_inv_def zp_wf_def)

text \<open>After \<open>t\<close> rounds, one conditional subtraction gives the result.\<close>

lemma mont_final:
  assumes Z: "zp_wf Z" and V: "mont_inv Z x y (zp_t Z) V" and x: "length x = zp_t Z"
  defines "q \<equiv> V div limb_base ^ zp_t Z"
  shows "q < 2 * zp_pr Z" "(q * limb_base ^ zp_t Z) mod zp_pr Z = (limbs_val x * limbs_val y) mod zp_pr Z"
    and "zp_pr Z \<le> q \<Longrightarrow> ((q - zp_pr Z) * limb_base ^ zp_t Z) mod zp_pr Z = (limbs_val x * limbs_val y) mod zp_pr Z"
proof -
  have Vq: "V = q * limb_base ^ zp_t Z" using V by (simp add: q_def mont_inv_def)
  then show "q < 2 * zp_pr Z" using V by (simp add: mont_inv_def mult.commute)
  obtain U where "V = limbs_val x * limbs_val y + U * zp_pr Z"
    using V x by (auto simp: mont_inv_def)
  then show 1: "(q * limb_base ^ zp_t Z) mod zp_pr Z = (limbs_val x * limbs_val y) mod zp_pr Z"
    using Vq by (metis mod_mult_self1)
  assume "zp_pr Z \<le> q"
  then have "q * limb_base ^ zp_t Z = (q - zp_pr Z) * limb_base ^ zp_t Z + zp_pr Z * limb_base ^ zp_t Z"
    by (simp flip: add_mult_distrib)
  with 1 show "((q - zp_pr Z) * limb_base ^ zp_t Z) mod zp_pr Z = (limbs_val x * limbs_val y) mod zp_pr Z"
    by (metis mod_mult_self2)
qed

subsection \<open>The fixed-size version\<close>

lemma mont_round_inv:
  assumes Z: "zp_wf Z" "zp_montgomery Z" and len: "length ans = 2 * zp_t Z + 1" "length x = zp_t Z" "length y = zp_t Z"
    and y: "limbs_val y < zp_pr Z" and i: "i < zp_t Z" and V: "mont_inv Z x y i (limbs_val ans)"
  shows "length (mont_round (zp_t Z) Z x y i ans) = 2 * zp_t Z + 1"
    and "mont_inv Z x y (Suc i) (limbs_val (mont_round (zp_t Z) Z x y i ans))"
proof -
  let ?T = "zp_t Z" and ?p = "zp_prA Z"
  define u where "u = (ans ! i + x ! i * y ! 0) * zp_pi Z"
  define ans1 where "ans1 = write_at i (mpn_addmul_1_fixed_L (?T + 2) ?T (drop i ans) y (x ! i)) ans"
  have T: "1 \<le> ?T" "?T \<le> MAX_MOD_SZ" "length ?p = MAX_MOD_SZ + 1" using Z by (auto simp: zp_wf_def)
  have p: "limbs_val (take (?T + 1) ?p) = zp_pr Z"
    using zp_prA_take [OF Z(1), of "?T + 1"] T by simp
  have "y \<noteq> []" using len T by auto
  then have u: "unat u = ((limbs_val ans div limb_base ^ i + unat (x ! i) * limbs_val y) * unat (zp_pi Z)) mod limb_base"
    unfolding u_def using len i by (intro mont_u) simp_all
  note step = mont_inv_step [OF Z V _ y u]
  have i': "i < length x" using i len by simp
  have len1: "length ans1 = length ans" using len T i by (simp add: ans1_def)
  have v1: "limbs_val ans1 = limbs_val ans + limb_base ^ i * (unat (x ! i) * limbs_val y)"
    unfolding ans1_def using write_at_addmul_fits [of ?T "?T + 2" y i ans "x ! i"] len T i step(2) [OF i']
    by simp
  have v2: "limbs_val (write_at i (mpn_addmul_1_fixed_L (?T + 2) (?T + 1) (drop i ans1) ?p u) ans1)
      = limbs_val ans1 + limb_base ^ i * (unat u * zp_pr Z)"
    using write_at_addmul_fits [of "?T + 1" "?T + 2" ?p i ans1 u] len1 len T i step(2) [OF i'] p
    by (simp add: v1)
  have eq: "mont_round ?T Z x y i ans = write_at i (mpn_addmul_1_fixed_L (?T + 2) (?T + 1) (drop i ans1) ?p u) ans1"
    unfolding mont_round_def Let_def ans1_def u_def ..
  show "length (mont_round ?T Z x y i ans) = 2 * ?T + 1"
    unfolding eq using len1 len T i by simp
  show "mont_inv Z x y (Suc i) (limbs_val (mont_round ?T Z x y i ans))"
    unfolding eq v2 v1 by (rule step(1) [OF i'])
qed

lemma mod_sub_once: "(p :: nat) \<le> q \<Longrightarrow> q - p < B \<Longrightarrow> p < B \<Longrightarrow> (q mod B + B - p) mod B = q - p"
proof -
  assume *: "p \<le> q" "q - p < B" "p < B"
  then have "(q mod B + B - p) mod B = (q mod B + (B - p)) mod B" by simp
  also have "\<dots> = (q + (B - p)) mod B" by (simp only: mod_add_left_eq)
  also have "q + (B - p) = (q - p) + B" using * by simp
  finally show ?thesis using * by (simp only: mod_add_self2 mod_less)
qed

text \<open>The final conditional subtraction.\<close>

lemma mont_finish:
  assumes Z: "zp_wf Z" and len: "length ans = 2 * zp_t Z + 1" "length x = zp_t Z"
    and V: "mont_inv Z x y (zp_t Z) (limbs_val ans)"
    and z: "zp_pr Z \<le> limbs_val (drop (zp_t Z) ans) \<Longrightarrow> length z = zp_t Z \<and> limbs_val z = limbs_val (drop (zp_t Z) ans) - zp_pr Z"
      "limbs_val (drop (zp_t Z) ans) < zp_pr Z \<Longrightarrow> z = take (zp_t Z) (drop (zp_t Z) ans)"
  shows "mont_spec Z x y z"
proof -
  let ?q = "limbs_val ans div limb_base ^ zp_t Z"
  have q: "limbs_val (drop (zp_t Z) ans) = ?q" by (rule limbs_val_drop)
  note f = mont_final [OF Z V len(2)]
  show ?thesis
  proof (cases "zp_pr Z \<le> ?q")
    case True
    then show ?thesis using z(1) f(1) f(3) [OF True] by (simp add: mont_spec_def modp_wf_def q)
  next
    case False
    have "?q < limb_base ^ zp_t Z" using False Z by (simp add: zp_wf_def)
    then show ?thesis using False z(2) f(2) len by (simp add: mont_spec_def modp_wf_def q limbs_val_take)
  qed
qed

context gmp_mpn begin

lemma cmp_ge_iff: "length xs = length ys \<Longrightarrow> 0 \<le> mpn_cmp G xs ys \<longleftrightarrow> limbs_val ys \<le> limbs_val xs"
  using cmp [of xs ys] by (auto simp: sgn_if split: if_splits)

lemma zp_Mont_Mult_T_spec:
  assumes Z: "zp_wf Z" "zp_montgomery Z" and x: "length x = zp_t Z" and y: "modp_wf Z y"
  shows "mont_spec Z x y (zp_Mont_Mult_T G (zp_t Z) Z x y)"
proof -
  let ?T = "zp_t Z" and ?p = "zp_prA Z"
  define u where "u = x ! 0 * y ! 0 * zp_pi Z"
  define a0 where "a0 = mpn_mul_1_fixed (?T + 1) ?T y (x ! 0) @ inline_mpn_zero ?T"
  define a1 where "a1 = write_at 0 (mpn_addmul_1_fixed_L (?T + 2) (?T + 1) a0 ?p u) a0"
  define ans where "ans = fold (mont_round ?T Z x y) [1..<?T] a1"
  have T: "1 \<le> ?T" "?T \<le> MAX_MOD_SZ" "length ?p = MAX_MOD_SZ + 1" using Z by (auto simp: zp_wf_def)
  have ly: "length y = ?T" "limbs_val y < zp_pr Z" using y by auto
  have p: "limbs_val (take (?T + 1) ?p) = zp_pr Z" "limbs_val (take ?T ?p) = zp_pr Z"
    using zp_prA_take [OF Z(1), of "?T + 1"] zp_prA_take [OF Z(1), of ?T] T by simp_all
  have "unat ((replicate 1 0 ! 0 + x ! 0 * y ! 0) * zp_pi Z)
      = ((limbs_val (replicate 1 0) div limb_base ^ 0 + unat (x ! 0) * limbs_val y) * unat (zp_pi Z)) mod limb_base"
    using ly T by (intro mont_u) auto
  then have u: "unat u = ((0 div limb_base ^ 0 + unat (x ! 0) * limbs_val y) * unat (zp_pi Z)) mod limb_base"
    by (simp add: u_def)
  have x0: "0 < length x" using x T by simp
  note step = mont_inv_step [OF Z mont_inv_0 [OF Z(1)] x0 ly(2) u]
  have "unat (x ! 0) * limbs_val y < limb_base ^ (?T + 1)"
  proof -
    have "unat (x ! 0) * limbs_val y < limb_base * limb_base ^ ?T"
      using limbs_val_less [of y] ly by (intro mult_strict_mono) simp_all
    then show ?thesis by simp
  qed
  then have a0: "limbs_val a0 = unat (x ! 0) * limbs_val y" "length a0 = 2 * ?T + 1"
    using ly T mpn_addmul_1_fixed_impl_val [of ?T "?T + 1" y False "[]" "x ! 0"]
      length_mpn_addmul_1_fixed_impl [of ?T "?T + 1" y False "[]" "x ! 0"]
    by (simp_all add: a0_def mpn_mul_1_fixed_def limbs_val_append inline_mpn_zero_def)
  have a1: "length a1 = 2 * ?T + 1" "limbs_val a1 = unat (x ! 0) * limbs_val y + unat u * zp_pr Z"
    using a0 T p(1) step(2) write_at_addmul_fits [of "?T + 1" "?T + 2" ?p 0 a0 u]
    by (simp_all add: a1_def)
  have inv1: "length a1 = 2 * ?T + 1 \<and> mont_inv Z x y 1 (limbs_val a1)"
    using step(1) a1 by simp
  have "length ans = 2 * ?T + 1 \<and> mont_inv Z x y ?T (limbs_val ans)"
    unfolding ans_def
    by (rule fold_invariant_from [where P = "\<lambda>i a. length a = 2 * ?T + 1 \<and> mont_inv Z x y i (limbs_val a)"])
      (use inv1 T mont_round_inv [OF Z _ x ly] in auto)
  then have ans: "length ans = 2 * ?T + 1" "mont_inv Z x y ?T (limbs_val ans)" by simp_all
  let ?q = "limbs_val (drop ?T ans)"
  have pT: "zp_pr Z < limb_base ^ ?T" using Z by (simp add: zp_wf_def)
  have q2: "?q < 2 * zp_pr Z" using mont_final(1) [OF Z(1) ans(2) x] by (simp add: limbs_val_drop)
  have cmp: "0 \<le> mpn_cmp G (take (?T + 1) (drop ?T ans)) (take (?T + 1) ?p) \<longleftrightarrow> zp_pr Z \<le> ?q"
    using ans(1) T p by (subst cmp_ge_iff) simp_all
  have sub: "limbs_val (mpn_sub_fixed_n ?T (drop ?T ans) ?p) = ?q - zp_pr Z" if "zp_pr Z \<le> ?q"
    using that ans(1) T p pT q2 mod_sub_once [of "zp_pr Z" ?q "limb_base ^ ?T"]
    by (simp add: mpn_sub_fixed_n_val limbs_val_take)
  have "zp_Mont_Mult_T G ?T Z x y =
     (if 0 \<le> mpn_cmp G (take (?T + 1) (drop ?T ans)) (take (?T + 1) ?p)
      then mpn_sub_fixed_n ?T (drop ?T ans) ?p else take ?T (drop ?T ans))"
    unfolding zp_Mont_Mult_T_def Let_def ans_def a1_def a0_def u_def inline_mpn_copyi_def ..
  then have "zp_Mont_Mult_T G ?T Z x y =
     (if zp_pr Z \<le> ?q then mpn_sub_fixed_n ?T (drop ?T ans) ?p else take ?T (drop ?T ans))"
    unfolding cmp .
  then show ?thesis
    using ans T by (intro mont_finish [OF Z(1) ans(1) x ans(2)]) (auto simp: sub)
qed

end

subsection \<open>The version on GMP's routines\<close>

context gmp_arith_ok begin

text \<open>One \<open>mpn_addmul_1\<close> on the top \<open>m\<close> limbs of \<open>ans\<close>, with the carry in a new limb.\<close>

lemma addmul_top:
  assumes "mpn_addmul_1 A (take m (drop i ans)) ys u = (row, c)" "length ans = i + m" "length ys = m"
  shows "length row = m" "limbs_val (take i ans @ row @ [c]) = limbs_val ans + limb_base ^ i * (unat u * limbs_val ys)"
proof -
  have zs: "take m (drop i ans) = drop i ans" using assms(2) by simp
  have r: "length row = m" "limbs_val row + limb_base ^ m * unat c = limbs_val (drop i ans) + limbs_val ys * unat u"
    using addmul_1 [of "drop i ans" ys u row c] assms by (simp_all add: zs)
  then show "length row = m" by simp
  have "limbs_val (take i ans @ row @ [c]) = limbs_val (take i ans) + limb_base ^ i * (limbs_val row + limb_base ^ m * unat c)"
    using r(1) assms(2) by (simp add: limbs_val_append)
  also have "\<dots> = (limbs_val (take i ans) + limb_base ^ i * limbs_val (drop i ans)) + limb_base ^ i * (unat u * limbs_val ys)"
    unfolding r(2) by (simp add: algebra_simps)
  also have "limbs_val (take i ans) + limb_base ^ i * limbs_val (drop i ans) = limbs_val ans"
    using limbs_val_append [of "take i ans" "drop i ans"] assms(2) by simp
  finally show "limbs_val (take i ans @ row @ [c]) = limbs_val ans + limb_base ^ i * (unat u * limbs_val ys)" .
qed

lemma mont_round_gmp_inv:
  assumes Z: "zp_wf Z" "zp_montgomery Z" and len: "length ans = zp_t Z + i + 1" "length x = zp_t Z" "length y = zp_t Z"
    and y: "limbs_val y < zp_pr Z" and i: "i < zp_t Z" and V: "mont_inv Z x y i (limbs_val ans)"
  shows "length (mont_round_gmp A (zp_t Z) Z x (y @ [0]) i ans) = zp_t Z + Suc i + 1
    \<and> mont_inv Z x y (Suc i) (limbs_val (mont_round_gmp A (zp_t Z) Z x (y @ [0]) i ans))"
proof -
  let ?t = "zp_t Z" and ?p = "take (zp_t Z + 1) (zp_prA Z)"
  define u where "u = (ans ! i + x ! i * y ! 0) * zp_pi Z"
  have T: "1 \<le> ?t" "?t \<le> MAX_MOD_SZ" using Z by (auto simp: zp_wf_def)
  have p: "limbs_val ?p = zp_pr Z" "length ?p = ?t + 1"
    using zp_prA_take [OF Z(1), of "?t + 1"] T by simp_all
  have yy: "limbs_val (y @ [0]) = limbs_val y" "length (y @ [0]) = ?t + 1" "(y @ [0]) ! 0 = y ! 0"
    using len T by (simp_all add: limbs_val_append nth_append)
  have "y \<noteq> []" using len T by auto
  then have u: "unat u = ((limbs_val ans div limb_base ^ i + unat (x ! i) * limbs_val y) * unat (zp_pi Z)) mod limb_base"
    unfolding u_def using len i by (intro mont_u) simp_all
  have i': "i < length x" using i len by simp
  note step = mont_inv_step [OF Z V i' y u]
  obtain row c where r: "mpn_addmul_1 A (take (?t + 1) (drop i ans)) (y @ [0]) (x ! i) = (row, c)" by fastforce
  define ans1 where "ans1 = take i ans @ row @ [c]"
  have a1: "length row = ?t + 1" "limbs_val ans1 = limbs_val ans + limb_base ^ i * (unat (x ! i) * limbs_val y)"
    using addmul_top [OF r] len yy by (simp_all add: ans1_def)
  have z: "take (?t + 1) (drop i ans1) = row" "take i ans1 = take i ans"
    using a1(1) len by (simp_all add: ans1_def)
  obtain row' c' where r': "mpn_addmul_1 A row ?p u = (row', c')" by fastforce
  have a2: "length row' = ?t + 1" "limbs_val row' + limb_base ^ (?t + 1) * unat c' = limbs_val row + zp_pr Z * unat u"
    using addmul_1 [OF _ r'] p a1(1) by simp_all
  have split: "limbs_val ans1 = limbs_val (take i ans) + limb_base ^ i * (limbs_val row + limb_base ^ (?t + 1) * unat c)"
    using a1(1) len by (simp add: ans1_def limbs_val_append)
  have total: "limbs_val (take i ans) + limb_base ^ i * (limbs_val row' + limb_base ^ (?t + 1) * (unat c + unat c'))
      = limbs_val ans + limb_base ^ i * (unat (x ! i) * limbs_val y) + limb_base ^ i * (unat u * zp_pr Z)"
  proof -
    have "limb_base ^ i * (limbs_val row' + limb_base ^ (?t + 1) * unat c') = limb_base ^ i * (limbs_val row + zp_pr Z * unat u)"
      by (simp only: a2(2))
    then show ?thesis using split unfolding a1(2) by (simp add: algebra_simps)
  qed
  have "limb_base ^ (i + ?t + 1) * (unat c + unat c') < limb_base ^ (i + ?t + 2)"
    using step(2) unfolding total [symmetric] by (simp add: power_add algebra_simps)
  then have "limb_base ^ (i + ?t + 1) * (unat c + unat c') < limb_base ^ (i + ?t + 1) * limb_base"
    by (simp add: power_add algebra_simps)
  then have "unat c + unat c' < limb_base" by simp
  then have c: "unat (c + c') = unat c + unat c'" by (simp add: unat_add_limb)
  have eq: "mont_round_gmp A ?t Z x (y @ [0]) i ans = take i ans @ row' @ [c + c']"
    unfolding mont_round_gmp_def Let_def yy(3) r prod.case ans1_def [symmetric] z u_def [symmetric] r' ..
  have v: "limbs_val (take i ans @ row' @ [c + c'])
      = limbs_val ans + limb_base ^ i * (unat (x ! i) * limbs_val y) + limb_base ^ i * (unat u * zp_pr Z)"
    unfolding total [symmetric] using len a2(1) by (simp add: limbs_val_append c)
  show ?thesis
    unfolding eq v using step(1) a2(1) len by simp
qed

lemma zp_Mont_Mult_gmp_spec:
  assumes G: "gmp_mpn G" and Z: "zp_wf Z" "zp_montgomery Z" and x: "length x = zp_t Z" and y: "modp_wf Z y"
  shows "mont_spec Z x y (zp_Mont_Mult_gmp G A Z x y (zp_t Z))"
proof -
  let ?t = "zp_t Z" and ?p = "take (zp_t Z + 1) (zp_prA Z)"
  define u where "u = x ! 0 * y ! 0 * zp_pi Z"
  have T: "1 \<le> ?t" "?t \<le> MAX_MOD_SZ" using Z by (auto simp: zp_wf_def)
  have ly: "length y = ?t" "limbs_val y < zp_pr Z" using y by auto
  have p: "limbs_val ?p = zp_pr Z" "length ?p = ?t + 1" "limbs_val (take ?t (zp_prA Z)) = zp_pr Z" "length (take ?t (zp_prA Z)) = ?t"
    using zp_prA_take [OF Z(1), of "?t + 1"] zp_prA_take [OF Z(1), of ?t] T by simp_all
  obtain row c where r: "mpn_mul_1 A y (x ! 0) = (row, c)" by fastforce
  have r1: "length row = ?t" "limbs_val (row @ [c]) = unat (x ! 0) * limbs_val y"
    using mul_1 [OF r] ly by (simp_all add: limbs_val_append mult.commute)
  obtain row' c' where r': "mpn_addmul_1 A (row @ [c]) ?p u = (row', c')" by fastforce
  have r2: "length row' = ?t + 1" "limbs_val (row' @ [c']) = unat (x ! 0) * limbs_val y + unat u * zp_pr Z"
    using addmul_1 [OF _ r'] r1 p by (simp_all add: limbs_val_append mult.commute)
  define ans where "ans = fold (mont_round_gmp A ?t Z x (y @ [0])) [1..<?t] (row' @ [c'])"
  have "unat ((replicate 1 0 ! 0 + x ! 0 * y ! 0) * zp_pi Z)
      = ((limbs_val (replicate 1 0) div limb_base ^ 0 + unat (x ! 0) * limbs_val y) * unat (zp_pi Z)) mod limb_base"
    using ly T by (intro mont_u) auto
  then have u: "unat u = ((0 div limb_base ^ 0 + unat (x ! 0) * limbs_val y) * unat (zp_pi Z)) mod limb_base"
    by (simp add: u_def)
  have x0: "0 < length x" using x T by simp
  note step = mont_inv_step [OF Z mont_inv_0 [OF Z(1)] x0 ly(2) u]
  have inv1: "length (row' @ [c']) = ?t + 1 + 1 \<and> mont_inv Z x y 1 (limbs_val (row' @ [c']))"
    using step(1) r2 by simp
  have "length ans = ?t + ?t + 1 \<and> mont_inv Z x y ?t (limbs_val ans)"
    unfolding ans_def
    by (rule fold_invariant_from [where P = "\<lambda>i a. length a = ?t + i + 1 \<and> mont_inv Z x y i (limbs_val a)"])
      (use inv1 T mont_round_gmp_inv [OF Z _ x ly] in auto)
  then have ans: "length ans = 2 * ?t + 1" "mont_inv Z x y ?t (limbs_val ans)" by simp_all
  let ?q = "limbs_val (drop ?t ans)"
  have pT: "zp_pr Z < limb_base ^ ?t" using Z by (simp add: zp_wf_def)
  have q2: "?q < 2 * zp_pr Z" using mont_final(1) [OF Z(1) ans(2) x] by (simp add: limbs_val_drop)
  have cmp: "0 \<le> mpn_cmp G (take (?t + 1) (drop ?t ans)) ?p \<longleftrightarrow> zp_pr Z \<le> ?q"
    using ans(1) T p by (subst gmp_mpn.cmp_ge_iff [OF G]) simp_all
  obtain s b where sb: "mpn_sub_n A (take ?t (drop ?t ans)) (take ?t (zp_prA Z)) = (s, b)" by fastforce
  have s: "length s = ?t" "int (limbs_val s) = int (?q mod limb_base ^ ?t) - int (zp_pr Z) + int (limb_base ^ ?t) * int (unat b)"
    using sub_n [OF _ sb] p ans(1) by (simp_all add: limbs_val_take)
  have sub: "limbs_val s = ?q - zp_pr Z" if "zp_pr Z \<le> ?q"
  proof -
    have "int (limbs_val s) mod int (limb_base ^ ?t) = (int ?q - int (zp_pr Z)) mod int (limb_base ^ ?t)"
      unfolding s(2) by (simp add: zmod_int mod_simps)
    also have "int ?q - int (zp_pr Z) = int (?q - zp_pr Z)" using that by simp
    finally have "limbs_val s mod limb_base ^ ?t = (?q - zp_pr Z) mod limb_base ^ ?t"
      by (simp only: zmod_int [symmetric] of_nat_eq_iff)
    moreover have "?q - zp_pr Z < limb_base ^ ?t" using pT q2 by simp
    ultimately show ?thesis using s(1) by simp
  qed
  have ty: "take ?t y = y" using ly by simp
  have "zp_Mont_Mult_gmp G A Z x y ?t =
     (if 0 \<le> mpn_cmp G (take (?t + 1) (drop ?t ans)) ?p
      then fst (mpn_sub_n A (take ?t (drop ?t ans)) (take ?t (zp_prA Z))) else take ?t (drop ?t ans))"
    unfolding zp_Mont_Mult_gmp_def Let_def ty r prod.case u_def [symmetric] r' ans_def inline_mpn_copyi_def ..
  then have "zp_Mont_Mult_gmp G A Z x y ?t = (if zp_pr Z \<le> ?q then s else take ?t (drop ?t ans))"
    unfolding cmp sb by simp
  then show ?thesis
    using s(1) sub by (intro mont_finish [OF Z(1) ans(1) x ans(2)]) auto
qed

lemma zp_Mont_Mult_spec:
  assumes "gmp_mpn G" "zp_wf Z" "zp_montgomery Z" "length x = zp_t Z" "modp_wf Z y"
  shows "mont_spec Z x y (zp_Mont_Mult G A bmi2 Z x y)"
  using zp_Mont_Mult_gmp_spec [OF assms] gmp_mpn.zp_Mont_Mult_T_spec [OF assms]
  by (simp add: zp_Mont_Mult_def)

end

subsection \<open>Elements and the residues they stand for\<close>

definition zp_r :: "zp_data \<Rightarrow> nat" where
  "zp_r Z = (if zp_montgomery Z then limb_base ^ zp_t Z else 1)"

definition modp_rep :: "zp_data \<Rightarrow> modp \<Rightarrow> nat \<Rightarrow> bool" where
  "modp_rep Z x v \<longleftrightarrow> modp_wf Z x \<and> v < zp_pr Z \<and> limbs_val x = (v * zp_r Z) mod zp_pr Z"

lemma nat_mod_eq_dvd: "(a :: nat) mod p = b mod p \<longleftrightarrow> int p dvd int a - int b"
  by (metis mod_eq_dvd_iff of_nat_eq_iff zmod_int)

lemma mod_cancel:
  fixes a b r p :: nat
  assumes "coprime r p" "(a * r) mod p = (b * r) mod p"
  shows "a mod p = b mod p"
proof -
  have "int p dvd (int a - int b) * int r"
    using assms(2) by (simp add: nat_mod_eq_dvd left_diff_distrib)
  moreover have "coprime (int p) (int r)"
    using assms(1) by (simp add: coprime_commute)
  ultimately have "int p dvd int a - int b"
    by (simp add: coprime_dvd_mult_left_iff)
  then show ?thesis by (simp add: nat_mod_eq_dvd)
qed

lemma coprime_limb_base: "odd p \<Longrightarrow> coprime limb_base p"
  unfolding limb_base_def by (simp only: coprime_power_left_iff coprime_left_2_iff_odd) simp

lemma zp_r_coprime: "zp_wf Z \<Longrightarrow> coprime (zp_r Z) (zp_pr Z)"
  using coprime_limb_base [of "zp_pr Z"] by (simp add: zp_r_def zp_wf_def)

lemma modp_repI:
  "zp_wf Z \<Longrightarrow> modp_wf Z x \<Longrightarrow> limbs_val x mod zp_pr Z = (v * zp_r Z) mod zp_pr Z \<Longrightarrow> modp_rep Z x (v mod zp_pr Z)"
  by (auto simp: modp_rep_def modp_wf_def zp_wf_def mod_mult_left_eq)

lemma modp_repD:
  assumes "modp_rep Z x v"
  shows "modp_wf Z x" "v < zp_pr Z" "limbs_val x mod zp_pr Z = (v * zp_r Z) mod zp_pr Z" "length x = zp_t Z"
    "limbs_val x < zp_pr Z"
  using assms by (auto simp: modp_rep_def)

lemma modp_rep_unique:
  assumes "zp_wf Z" "modp_rep Z x v" "modp_rep Z x w"
  shows "v = w"
  using mod_cancel [OF zp_r_coprime [OF assms(1)], of v w] assms by (simp add: modp_rep_def)

lemma modp_rep_inject: "modp_rep Z x v \<Longrightarrow> modp_rep Z y v \<Longrightarrow> x = y"
  using limbs_val_inject [of x y] by (simp add: modp_rep_def modp_wf_def)

lemma modp_rep_mont:
  assumes "zp_wf Z" "zp_montgomery Z" "mont_spec Z x y z" "limbs_val x mod zp_pr Z = (a * zp_r Z) mod zp_pr Z"
    "limbs_val y mod zp_pr Z = (b * zp_r Z) mod zp_pr Z"
  shows "modp_rep Z z ((a * b) mod zp_pr Z)"
proof (rule modp_repI [OF assms(1)])
  show "modp_wf Z z" using assms(3) by (simp add: mont_spec_def)
  have r: "zp_r Z = limb_base ^ zp_t Z" using assms(2) by (simp add: zp_r_def)
  have "(limbs_val z * zp_r Z) mod zp_pr Z = (limbs_val x * limbs_val y) mod zp_pr Z"
    using assms(3) by (simp add: mont_spec_def r)
  also have "\<dots> = (a * zp_r Z * (b * zp_r Z)) mod zp_pr Z"
    by (rule mod_mult_cong [OF assms(4,5)])
  also have "\<dots> = (a * b * zp_r Z * zp_r Z) mod zp_pr Z"
    by (simp add: ac_simps)
  finally show "limbs_val z mod zp_pr Z = (a * b * zp_r Z) mod zp_pr Z"
    by (rule mod_cancel [OF zp_r_coprime [OF assms(1)]])
qed

subsection \<open>Addition\<close>

text \<open>Every version subtracts the modulus from the sum when it has been reached.\<close>

definition reduced_sum :: "zp_data \<Rightarrow> limb list \<Rightarrow> limb list \<Rightarrow> limb list \<Rightarrow> bool" where
  "reduced_sum Z x y z \<longleftrightarrow> length z = zp_t Z \<and>
     limbs_val z = (if zp_pr Z \<le> limbs_val x + limbs_val y then limbs_val x + limbs_val y - zp_pr Z
                    else limbs_val x + limbs_val y)"

lemma reduced_sum_rep:
  assumes "zp_wf Z" "modp_rep Z x a" "modp_rep Z y b" "reduced_sum Z x y z"
  shows "modp_rep Z z ((a + b) mod zp_pr Z)"
proof (rule modp_repI [OF assms(1)])
  have lt: "limbs_val x < zp_pr Z" "limbs_val y < zp_pr Z"
    using assms(2,3) by (auto dest: modp_repD)
  with assms(4) show "modp_wf Z z"
    by (auto simp: reduced_sum_def modp_wf_def)
  have "limbs_val z mod zp_pr Z = (limbs_val x + limbs_val y) mod zp_pr Z"
    using assms(4) by (auto simp: reduced_sum_def le_mod_geq)
  also have "\<dots> = (a * zp_r Z + b * zp_r Z) mod zp_pr Z"
    using modp_repD(3) [OF assms(2)] modp_repD(3) [OF assms(3)] by (rule mod_add_cong)
  finally show "limbs_val z mod zp_pr Z = ((a + b) * zp_r Z) mod zp_pr Z"
    by (simp add: add_mult_distrib)
qed

context gmp_mpn begin

lemma zp_Add_T_sum:
  assumes Z: "zp_wf Z" and x: "modp_wf Z x" and y: "modp_wf Z y"
  shows "reduced_sum Z x y (zp_Add_T G (zp_t Z) Z x y)" "reduced_sum Z x y (zp_Add_0 G Z x y)"
proof -
  let ?t = "zp_t Z" and ?p = "zp_prA Z" and ?s = "limbs_val x + limbs_val y"
  have T: "1 \<le> ?t" "?t \<le> MAX_MOD_SZ" "length ?p = MAX_MOD_SZ + 1" "zp_pr Z < limb_base ^ ?t"
    using Z by (auto simp: zp_wf_def)
  have p: "limbs_val (take ?t ?p) = zp_pr Z"
    using zp_prA_take [OF Z, of ?t] T by simp
  obtain ans c where s: "mpn_add_n_with_carry x y ?t = (ans, c)" by fastforce
  have sum: "limbs_val ans + limb_base ^ ?t * of_bool c = ?s"
    using mpn_add_n_with_carry_val [OF _ _ s] x y by (auto dest!: modp_wfD(1))
  have "length (fst (mpn_add_n_with_carry x y ?t)) = ?t"
    using x y unfolding mpn_add_n_with_carry_def length_add_loop by (simp add: modp_wf_def)
  then have len: "length ans = ?t" by (simp add: s)
  have ans: "limbs_val ans = ?s mod limb_base ^ ?t"
    unfolding sum [symmetric] using len by simp
  have lt: "?s < 2 * zp_pr Z" using x y by (auto dest!: modp_wfD(2))
  have cond: "c \<or> 0 \<le> mpn_cmp G ans (take ?t ?p) \<longleftrightarrow> zp_pr Z \<le> ?s"
  proof (cases c)
    case True
    then have "limb_base ^ ?t \<le> ?s" using sum by simp
    with True T show ?thesis by simp
  next
    case False
    with sum p len T show ?thesis by (subst cmp_ge_iff) simp_all
  qed
  have sub: "limbs_val (fst (mpn_sub_n_borrow ans ?p ?t)) = ?s - zp_pr Z" if "zp_pr Z \<le> ?s"
    unfolding mpn_sub_fixed_n_loop [symmetric, of ?t ans ?p, simplified len, OF order_refl order.trans [OF T(2)], simplified T(3), simplified]
    using that len T p lt mod_sub_once [of "zp_pr Z" ?s "limb_base ^ ?t"]
    by (simp add: mpn_sub_fixed_n_val ans)
  have len': "length (fst (mpn_sub_n_borrow ans ?p ?t)) = ?t"
    using len T by (simp add: length_mpn_sub_n_borrow)
  have "zp_Add_0 G Z x y = (if zp_pr Z \<le> ?s then fst (mpn_sub_n_borrow ans ?p ?t) else ans)"
    unfolding zp_Add_0_def s Let_def prod.case cond ..
  then show "reduced_sum Z x y (zp_Add_0 G Z x y)"
    using sub len len' T lt ans by (simp add: reduced_sum_def)
  then show "reduced_sum Z x y (zp_Add_T G ?t Z x y)"
    by (simp add: zp_Add_T_def zp_Add_0_def mpn_add_fixed_n_with_carry_def)
qed

lemma zp_Add_1_eq:
  assumes "zp_wf Z" "modp_wf Z x" "modp_wf Z y" "zp_t Z = 1"
  shows "zp_Add_1 G Z x y = zp_Add_0 G Z x y"
proof -
  obtain a b where x: "x = [a]" "y = [b]"
    using assms(2-4) by (auto simp: modp_wf_def length_Suc_conv)
  obtain p ps where p: "zp_prA Z = p # ps"
    using assms(1) by (cases "zp_prA Z") (auto simp: zp_wf_def)
  show ?thesis
    by (auto simp: zp_Add_1_def zp_Add_0_def x p assms(4) mpn_add_n_with_carry_def mpn_sub_n_borrow_def
        subborrow_u64_def split: prod.splits)
qed

lemma zp_Add_2_sum:
  assumes Z: "zp_wf Z" and x: "modp_wf Z x" and y: "modp_wf Z y" and t: "zp_t Z = 2"
  shows "reduced_sum Z x y (zp_Add_2 Z x y)"
proof -
  let ?s = "limbs_val x + limbs_val y"
  have B: "limb_base ^ 2 = 2 ^ 128" by (simp add: limb_base_def)
  have lt: "limbs_val x < zp_pr Z" "limbs_val y < zp_pr Z" "zp_pr Z < 2 ^ 128"
    using x y Z t B by (auto simp: zp_wf_def dest!: modp_wfD(2))
  have p: "limbs_val (take 2 (zp_prA Z)) = zp_pr Z"
    using zp_prA_take [OF Z, of 2] t by (simp add: MAX_MOD_SZ_def)
  have lx: "take 2 x = x" "take 2 y = y" using x y t by auto
  have u: "unat (u128_of_limbs x) = limbs_val x" "unat (u128_of_limbs y) = limbs_val y"
    "unat (u128_of_limbs (zp_prA Z)) = zp_pr Z"
    using lt by (simp_all add: u128_of_limbs_def lx p unat_of_nat)
  have c: "unat (u128_of_limbs x + u128_of_limbs y) = ?s mod 2 ^ 128"
    by (simp add: unat_word_ariths u)
  have cond: "2 ^ 128 \<le> unat (u128_of_limbs x) + unat (u128_of_limbs y) \<or> u128_of_limbs (zp_prA Z) \<le> u128_of_limbs x + u128_of_limbs y
      \<longleftrightarrow> zp_pr Z \<le> ?s"
    using lt unfolding word_le_nat_alt c u by (cases "?s < 2 ^ 128") auto
  have sub: "unat (u128_of_limbs x + u128_of_limbs y - u128_of_limbs (zp_prA Z)) = ?s - zp_pr Z" if "zp_pr Z \<le> ?s"
  proof -
    have "u128_of_limbs x + u128_of_limbs y - u128_of_limbs (zp_prA Z) = of_nat (?s - zp_pr Z)"
      unfolding u128_of_limbs_def lx p of_nat_diff [OF that] of_nat_add ..
    moreover have "?s - zp_pr Z < 2 ^ 128" using lt by linarith
    ultimately show ?thesis by (simp add: unat_of_nat)
  qed
  show ?thesis
    unfolding zp_Add_2_def Let_def cond reduced_sum_def limbs_of_u128_def
    using lt by (simp add: t sub c B)
qed

lemma zp_Add_rep:
  assumes "zp_wf Z" "modp_rep Z x a" "modp_rep Z y b"
  shows "modp_rep Z (zp_Add G Z x y) ((a + b) mod zp_pr Z)"
proof (rule reduced_sum_rep [OF assms])
  show "reduced_sum Z x y (zp_Add G Z x y)"
    using zp_Add_T_sum [of Z x y] zp_Add_1_eq [of Z x y] zp_Add_2_sum [of Z x y] assms
    by (simp add: zp_Add_def modp_rep_def)
qed

end

subsection \<open>Subtraction and negation\<close>

text \<open>Every version adds the modulus when the difference is negative.\<close>

lemma zp_Sub_val:
  assumes Z: "zp_wf Z" and x: "modp_wf Z x" and y: "modp_wf Z y"
  shows "length (zp_Sub Z x y) = zp_t Z"
    and "limbs_val (zp_Sub Z x y) = (if limbs_val x < limbs_val y then limbs_val x + zp_pr Z - limbs_val y else limbs_val x - limbs_val y)"
proof -
  let ?t = "zp_t Z" and ?p = "zp_prA Z" and ?d = "mpn_sub_fixed_n (zp_t Z) x y"
  let ?v = "if limbs_val x < limbs_val y then limbs_val x + zp_pr Z - limbs_val y else limbs_val x - limbs_val y"
  have T: "1 \<le> ?t" "?t \<le> MAX_MOD_SZ" "length ?p = MAX_MOD_SZ + 1" "zp_pr Z < limb_base ^ ?t"
    using Z by (auto simp: zp_wf_def)
  have p: "limbs_val (take ?t ?p) = zp_pr Z"
    using zp_prA_take [OF Z, of ?t] T by simp
  have l: "length x = ?t" "length y = ?t" "limbs_val x < zp_pr Z" "limbs_val y < zp_pr Z" using x y by auto
  obtain r b where s: "mpn_sub_n_borrow x y ?t = (r, b)" by fastforce
  have r: "r = ?d" using s l mpn_sub_fixed_n_loop [of ?t x y] by simp
  have sum: "limbs_val ?d + limbs_val y = limbs_val x + limb_base ^ ?t * of_bool b"
    using mpn_sub_n_borrow_val [OF _ _ s] l by (simp add: r)
  have lt: "limbs_val ?d < limb_base ^ ?t" using limbs_val_less [of ?d] l by simp
  have b: "b \<longleftrightarrow> limbs_val x < limbs_val y" using sum lt by (cases b) auto
  have fixed: "mpn_sub_fixed_n_borrow ?t x y = (?d, snd (mpn_sub_fixed_n_borrow ?t x y))"
    "snd (mpn_sub_fixed_n_borrow ?t x y) \<noteq> 0 \<longleftrightarrow> limbs_val x < limbs_val y"
    using mpn_sub_fixed_n_borrow_val [of ?t x y] l T by (simp_all add: prod_eq_iff)
  have add: "mpn_add_fixed_n ?t ?d ?p = fst (mpn_add_n_with_carry ?d ?p ?t)"
    using mpn_add_fixed_n_loop [of ?t ?d ?p] l T by (simp add: mpn_add_fixed_n_with_carry_def)
  have sel: "zp_Sub Z x y = (if limbs_val x < limbs_val y then mpn_add_fixed_n ?t ?d ?p else ?d)"
  proof (cases "?t \<in> {1, 2, 3, 4, 5}")
    case True
    have "zp_Sub_T ?t Z x y = (if limbs_val x < limbs_val y then mpn_add_fixed_n ?t ?d ?p else ?d)"
      unfolding zp_Sub_T_def by (subst fixed(1)) (simp add: fixed(2) inline_mpn_copyi_def l)
    with True show ?thesis by (simp only: zp_Sub_def if_True)
  next
    case False
    have "zp_Sub_0 Z x y = (if limbs_val x < limbs_val y then mpn_add_fixed_n ?t ?d ?p else ?d)"
      by (simp add: zp_Sub_0_def s r b add)
    with False show ?thesis by (simp only: zp_Sub_def if_False)
  qed
  show "length (zp_Sub Z x y) = ?t" using sel l T by simp
  show "limbs_val (zp_Sub Z x y) = ?v"
  proof (cases "limbs_val x < limbs_val y")
    case True
    then have d: "limbs_val ?d + limbs_val y = limbs_val x + limb_base ^ ?t" using sum b by simp
    have "limbs_val (mpn_add_fixed_n ?t ?d ?p) = (limbs_val ?d + zp_pr Z) mod limb_base ^ ?t"
      using l T p by (simp add: mpn_add_fixed_n_val)
    also have "limbs_val ?d + zp_pr Z = (limbs_val x + zp_pr Z - limbs_val y) + limb_base ^ ?t"
      using d l by simp
    also have "\<dots> mod limb_base ^ ?t = limbs_val x + zp_pr Z - limbs_val y"
      using True l T by (simp only: mod_add_self2) simp
    finally show ?thesis using True by (simp add: sel)
  next
    case False
    then show ?thesis using sum b by (simp add: sel)
  qed
qed

lemma zp_Sub_rep:
  assumes Z: "zp_wf Z" and x: "modp_rep Z x a" and y: "modp_rep Z y b"
  shows "modp_rep Z (zp_Sub Z x y) ((a + (zp_pr Z - b)) mod zp_pr Z)"
proof (rule modp_repI [OF Z])
  have lt: "limbs_val x < zp_pr Z" "limbs_val y < zp_pr Z" "b < zp_pr Z" and wf: "modp_wf Z x" "modp_wf Z y"
    using x y by (auto dest: modp_repD)
  note v = zp_Sub_val [OF Z wf]
  show "modp_wf Z (zp_Sub Z x y)" using v lt by (auto simp: modp_wf_def)
  have "(limbs_val (zp_Sub Z x y) + limbs_val y) mod zp_pr Z = limbs_val x mod zp_pr Z"
    using v(2) lt by auto
  then have "int (zp_pr Z) dvd int (limbs_val (zp_Sub Z x y)) + int (limbs_val y) - int (limbs_val x)"
    by (simp add: nat_mod_eq_dvd)
  moreover have "int (zp_pr Z) dvd int (limbs_val x) - int a * int (zp_r Z)"
    "int (zp_pr Z) dvd int (limbs_val y) - int b * int (zp_r Z)"
    using modp_repD(3) [OF x] modp_repD(3) [OF y] by (simp_all add: nat_mod_eq_dvd)
  ultimately have "int (zp_pr Z) dvd (int (limbs_val (zp_Sub Z x y)) + int (limbs_val y) - int (limbs_val x))
      + (int (limbs_val x) - int a * int (zp_r Z)) - (int (limbs_val y) - int b * int (zp_r Z))
      - int (zp_pr Z) * int (zp_r Z)"
    by (rule dvd_diff [OF dvd_diff [OF dvd_add] dvd_triv_left])
  also have "\<dots> = int (limbs_val (zp_Sub Z x y)) - int ((a + (zp_pr Z - b)) * zp_r Z)"
    using lt(3) by (simp only: of_nat_mult of_nat_add of_nat_diff less_imp_le) (simp add: algebra_simps)
  finally show "limbs_val (zp_Sub Z x y) mod zp_pr Z = ((a + (zp_pr Z - b)) * zp_r Z) mod zp_pr Z"
    by (simp only: nat_mod_eq_dvd)
qed

lemma modp_isZero_iff: "length x = zp_t Z \<Longrightarrow> modp_isZero Z x \<longleftrightarrow> limbs_val x = 0"
proof -
  assume len: "length x = zp_t Z"
  have "modp_isZero Z x \<longleftrightarrow> (\<forall>i<length x. x ! i = 0)"
    by (auto simp: modp_isZero_def len list_all_iff)
  also have "\<dots> \<longleftrightarrow> x = replicate (length x) 0"
    by (auto simp: list_eq_iff_nth_eq)
  also have "\<dots> \<longleftrightarrow> limbs_val x = 0"
    using limbs_val_inject [of x "replicate (length x) 0"] by simp
  finally show ?thesis .
qed

context gmp_arith_ok begin

lemma modp_Negate_rep:
  assumes Z: "zp_wf Z" and x: "modp_rep Z x a"
  shows "modp_rep Z (modp_Negate A Z x) ((zp_pr Z - a) mod zp_pr Z)"
proof (cases "limbs_val x = 0")
  case True
  have "modp_rep Z x 0" using x True by (auto simp: modp_rep_def)
  then have "a = 0" using modp_rep_unique [OF Z x] by simp
  then show ?thesis
    using x True modp_isZero_iff [of x Z] modp_repD(4) [OF x] by (simp add: modp_Negate_def)
next
  case False
  let ?p = "take (zp_t Z) (zp_prA Z)"
  have p: "limbs_val ?p = zp_pr Z" "length ?p = zp_t Z"
    using zp_prA_take [OF Z, of "zp_t Z"] Z by (simp_all add: zp_wf_def)
  have lt: "limbs_val x < zp_pr Z" "length x = zp_t Z" "a < zp_pr Z" "zp_pr Z < limb_base ^ zp_t Z"
    using x Z by (auto dest: modp_repD simp: zp_wf_def)
  obtain r b where r: "mpn_sub_n A ?p x = (r, b)" by fastforce
  have v: "length r = zp_t Z" "int (limbs_val r) = int (zp_pr Z) - int (limbs_val x) + int (limb_base ^ zp_t Z) * int (unat b)"
    using sub_n [OF _ r] p lt by simp_all
  have "int (limbs_val r) mod int (limb_base ^ zp_t Z) = (int (zp_pr Z) - int (limbs_val x)) mod int (limb_base ^ zp_t Z)"
    unfolding v(2) by simp
  also have "int (zp_pr Z) - int (limbs_val x) = int (zp_pr Z - limbs_val x)" using lt by (simp add: of_nat_diff)
  finally have rv: "limbs_val r = zp_pr Z - limbs_val x"
    using v(1) lt by (simp only: zmod_int [symmetric] of_nat_eq_iff) simp
  have eq: "modp_Negate A Z x = r"
    using False lt modp_isZero_iff [of x Z] by (simp add: modp_Negate_def r)
  have "int (zp_pr Z) dvd int (limbs_val x) - int a * int (zp_r Z)"
    using modp_repD(3) [OF x] by (simp add: nat_mod_eq_dvd)
  then have "int (zp_pr Z) dvd int (zp_pr Z) - (int (limbs_val x) - int a * int (zp_r Z)) - int (zp_pr Z) * int (zp_r Z)"
    by (rule dvd_diff [OF dvd_diff [OF dvd_refl] dvd_triv_left])
  also have "\<dots> = int (zp_pr Z - limbs_val x) - int ((zp_pr Z - a) * zp_r Z)"
    using lt by (simp add: of_nat_diff algebra_simps)
  finally have "limbs_val r mod zp_pr Z = ((zp_pr Z - a) * zp_r Z) mod zp_pr Z"
    unfolding rv by (simp only: nat_mod_eq_dvd)
  moreover have "modp_wf Z r" using v(1) rv lt False by (simp add: modp_wf_def)
  ultimately show ?thesis unfolding eq using Z by (intro modp_repI)
qed

subsection \<open>Multiplication\<close>

lemma modp_Mul_rep:
  assumes G: "gmp_mpn G" and Z: "zp_wf Z" "zp_t Z \<le> L" and x: "modp_rep Z x a" and y: "modp_rep Z y b"
  shows "\<exists>z. modp_Mul G A bmi2 L Z x y = Some z \<and> modp_rep Z z ((a * b) mod zp_pr Z)"
    and "modp_rep Z (modp_Sqr G A bmi2 Z x) ((a * a) mod zp_pr Z)"
proof -
  let ?p = "take (zp_t Z) (zp_prA Z)"
  have p: "limbs_val ?p = zp_pr Z" "length ?p = zp_t Z" "0 < zp_pr Z"
    using zp_prA_take [OF Z(1), of "zp_t Z"] Z by (simp_all add: zp_wf_def)
  have rem: "modp_rep Z (mpn_rem A (mpn_mul_n A u v) ?p) ((c * d) mod zp_pr Z)"
    if "\<not> zp_montgomery Z" "modp_rep Z u c" "modp_rep Z v d" for u v c d
  proof (rule modp_repI [OF Z(1)])
    have l: "limbs_val (mpn_rem A (mpn_mul_n A u v) ?p) = (limbs_val u * limbs_val v) mod zp_pr Z"
      "length (mpn_rem A (mpn_mul_n A u v) ?p) = zp_t Z"
      using rem [of ?p "mpn_mul_n A u v"] mul_n [of v u] p modp_repD(4) [OF that(2)] modp_repD(4) [OF that(3)] by simp_all
    then show "modp_wf Z (mpn_rem A (mpn_mul_n A u v) ?p)" using p by (simp add: modp_wf_def)
    show "limbs_val (mpn_rem A (mpn_mul_n A u v) ?p) mod zp_pr Z = (c * d * zp_r Z) mod zp_pr Z"
      using that by (simp add: l modp_rep_def zp_r_def)
  qed
  have mont: "modp_rep Z (zp_Mont_Mult G A bmi2 Z u v) ((c * d) mod zp_pr Z)"
    if "zp_montgomery Z" "modp_rep Z u c" "modp_rep Z v d" for u v c d
    by (rule modp_rep_mont [OF Z(1) that(1) zp_Mont_Mult_spec [OF G Z(1) that(1) modp_repD(4) [OF that(2)]
          modp_repD(1) [OF that(3)]] modp_repD(3) [OF that(2)] modp_repD(3) [OF that(3)]])
  show "\<exists>z. modp_Mul G A bmi2 L Z x y = Some z \<and> modp_rep Z z ((a * b) mod zp_pr Z)"
    using rem [OF _ x y] mont [OF _ x y] Z(2) by (simp add: modp_Mul_def zp_Mont_Mult_max_def)
  show "modp_rep Z (modp_Sqr G A bmi2 Z x) ((a * a) mod zp_pr Z)"
    using rem [OF _ x x] mont [OF _ x x] by (simp add: modp_Sqr_def)
qed

end

subsection \<open>Initialisation\<close>

lemma mpz_size_0 [simp]: "mpz_size 0 = 0"
  by (subst mpz_size.simps) simp

lemma mpz_size_bounds: "0 < n \<Longrightarrow> n < limb_base ^ mpz_size n \<and> 0 < mpz_size n"
proof (induction n rule: mpz_size.induct)
  case (1 n)
  show ?case
  proof (cases "n div limb_base = 0")
    case True
    then have "n < limb_base" by (simp add: div_eq_0_iff)
    then show ?thesis using True 1 by (simp add: mpz_size.simps [of n] mpz_size.simps [of 0])
  next
    case False
    then have "n div limb_base < limb_base ^ mpz_size (n div limb_base)" using 1 by simp
    then have "n < limb_base * limb_base ^ mpz_size (n div limb_base)"
      by (simp add: div_less_iff_less_mult mult.commute)
    then show ?thesis using 1 by (simp add: mpz_size.simps [of n])
  qed
qed

lemma mpz_size_mono: "m \<le> n \<Longrightarrow> mpz_size m \<le> mpz_size n"
proof (induction n arbitrary: m rule: mpz_size.induct)
  case (1 n)
  show ?case
  proof (cases "m = 0")
    case False
    then have "mpz_size (m div limb_base) \<le> mpz_size (n div limb_base)"
      using 1 by (intro "1.IH") (auto intro: div_le_mono)
    then show ?thesis using False 1 by (simp add: mpz_size.simps [of n] mpz_size.simps [of m])
  qed (simp add: mpz_size.simps)
qed

lemma mpz_limbs_val: "limbs_val (mpz_limbs n) = n" "length (mpz_limbs n) = mpz_size n"
  using mpz_size_bounds [of n] by (cases "n = 0"; simp add: mpz_limbs_def)+

lemma zero_copy_val:
  assumes "length xs \<le> n"
  shows "limbs_val (zero_copy n xs) = limbs_val xs" "length (zero_copy n xs) = n"
  using assms by (simp_all add: zero_copy_def write_at_def inline_mpn_zero_def limbs_val_append)

text \<open>What GMP's inverse promises for an odd prime: it is the inverse.\<close>

definition inverts :: "(nat \<Rightarrow> nat \<Rightarrow> nat) \<Rightarrow> nat \<Rightarrow> bool" where
  "inverts mpz_invert p \<longleftrightarrow>
     (\<forall>k. 0 < k \<longrightarrow> mpz_invert p (2 ^ k) < 2 ^ k \<and> (mpz_invert p (2 ^ k) * p) mod 2 ^ k = 1)"

lemma zp_init_wf:
  assumes p: "1 < p" "probPrime p" "mpz_size p \<le> MAX_MOD_SZ" and new: "zp_pr Z0 = 0 \<or> zp_pr Z0 = p \<and> zp_montgomery Z0 = mont"
    and odd: "mont \<Longrightarrow> odd p \<and> inverts mpz_invert p"
  shows "\<exists>Z. zp_init probPrime mpz_invert p mont (False, Z0) = Some (None, False, Z) \<and> zp_wf Z \<and> zp_pr Z = p \<and> zp_montgomery Z = mont
    \<and> zp_t Z = mpz_size p \<and> zp_pr_byte_length Z = numBytes p"
proof -
  let ?t = "mpz_size p" and ?r = "2 ^ (mpz_size p * 64) :: nat"
  define Z1 where "Z1 = Z0\<lparr>zp_pr := p, zp_pr_half := p div 2,
                  zp_mask := push_bit ((numBits p - 1) mod 64) 1 - 1,
                  zp_pr_byte_length := numBytes p, zp_pr_bit_length := numBits p,
                  zp_overhang := drop_bit (63 - (numBits p - 1) mod 64) (- 1),
                  zp_montgomery := mont, zp_t := ?t\<rparr>"
  define Z2 where "Z2 = (if mont then
      Z1\<lparr>zp_pi := of_nat ((?r - mpz_invert p ?r) mod limb_base),
         zp_R := zero_copy MAX_MOD_SZ (mpz_limbs (?r mod p)),
         zp_R2 := zero_copy MAX_MOD_SZ (mpz_limbs (((?r mod p) * (?r mod p)) mod p)),
         zp_R3 := zero_copy MAX_MOD_SZ (mpz_limbs ((((?r mod p) * (?r mod p)) mod p * (?r mod p)) mod p))\<rparr> else Z1)"
  define Z where "Z = Z2\<lparr>zp_prA := zero_copy (MAX_MOD_SZ + 1) (take ?t (mpz_limbs p))\<rparr>"
  have eq: "zp_init probPrime mpz_invert p mont (False, Z0) = Some (None, False, Z)"
    using p new unfolding zp_init_def Let_def Z_def Z2_def Z1_def by auto
  have t: "0 < ?t" "p < limb_base ^ ?t" using mpz_size_bounds [of p] p by simp_all
  have r: "?r = limb_base ^ ?t" unfolding limb_base_def power_mult [symmetric] by (simp only: mult.commute)
  have small: "limbs_val (zero_copy MAX_MOD_SZ (mpz_limbs (n mod p))) = n mod p"
    "length (zero_copy MAX_MOD_SZ (mpz_limbs (n mod p))) = MAX_MOD_SZ" for n
  proof -
    have "mpz_size (n mod p) \<le> ?t" using p by (intro mpz_size_mono) simp
    then show "limbs_val (zero_copy MAX_MOD_SZ (mpz_limbs (n mod p))) = n mod p"
      "length (zero_copy MAX_MOD_SZ (mpz_limbs (n mod p))) = MAX_MOD_SZ"
      using p(3) by (simp_all add: zero_copy_val mpz_limbs_val)
  qed
  have prA: "zp_prA Z = zero_copy (MAX_MOD_SZ + 1) (mpz_limbs p)"
    by (simp add: Z_def mpz_limbs_val)
  have base: "zp_pr Z = p" "zp_t Z = ?t" "zp_montgomery Z = mont" "zp_pr_byte_length Z = numBytes p"
    by (simp_all add: Z_def Z2_def Z1_def)
  have mont: "odd p \<and> (unat (zp_pi Z) * p + 1) mod limb_base = 0
      \<and> length (zp_R Z) = MAX_MOD_SZ \<and> limbs_val (zp_R Z) = limb_base ^ ?t mod p
      \<and> length (zp_R2 Z) = MAX_MOD_SZ \<and> limbs_val (zp_R2 Z) = (limb_base ^ ?t) ^ 2 mod p
      \<and> length (zp_R3 Z) = MAX_MOD_SZ \<and> limbs_val (zp_R3 Z) = (limb_base ^ ?t) ^ 3 mod p" if mont
  proof -
    have inv: "mpz_invert p ?r < ?r" "(mpz_invert p ?r * p) mod ?r = 1" and "odd p"
      using odd [OF that] t by (simp_all add: inverts_def)
    have pi: "zp_pi Z = of_nat ((?r - mpz_invert p ?r) mod limb_base)"
      using that by (simp add: Z_def Z2_def)
    have "limb_base dvd ?r" unfolding r using t by (simp add: dvd_power)
    have "((?r - mpz_invert p ?r) * p + mpz_invert p ?r * p) mod limb_base = 0"
      using inv(1) \<open>limb_base dvd ?r\<close> by (simp flip: add_mult_distrib)
    moreover have "(mpz_invert p ?r * p) mod limb_base = 1 mod limb_base"
      using inv(2) \<open>limb_base dvd ?r\<close> by (metis mod_mod_cancel)
    ultimately have "((?r - mpz_invert p ?r) * p + 1) mod limb_base = 0"
      by (metis mod_add_right_eq)
    then have "(unat (zp_pi Z) * p + 1) mod limb_base = 0"
      unfolding pi by (simp add: unat_of_nat_limb) (metis mod_Suc_eq mod_mult_left_eq)
    moreover have "zp_R Z = zero_copy MAX_MOD_SZ (mpz_limbs (?r mod p))"
      "zp_R2 Z = zero_copy MAX_MOD_SZ (mpz_limbs (((?r mod p) * (?r mod p)) mod p))"
      "zp_R3 Z = zero_copy MAX_MOD_SZ (mpz_limbs ((((?r mod p) * (?r mod p)) mod p * (?r mod p)) mod p))"
      using that by (simp_all add: Z_def Z2_def)
    ultimately show ?thesis
      using \<open>odd p\<close> by (simp only: small) (simp add: r mod_simps power2_eq_square power3_eq_cube)
  qed
  have "zp_wf Z"
    unfolding zp_wf_def base using t p mont by (simp add: prA zero_copy_val mpz_limbs_val)
  with eq base show ?thesis by blast
qed

end
