(* ===== verification/ZpField.thy ===== *)
theory ZpField
  imports ZpArith
begin

section \<open>Elements of the field: conversions, powers, inverses, packing\<close>

text \<open>
  On top of \<open>ZpArith\<close>: what the conversions from and to integers give, in both representations;
  \<open>Power\<close> and \<open>Inv\<close>; the byte format. A reference for GMP's arithmetic routines shows that their
  contract can be met, and \<open>modp_residue_ring\<close> that the class satisfies the contract \<open>residue_ring\<close> that \<open>Z2<K>\<close> also
  satisfies.
\<close>

subsection \<open>A reference for GMP's arithmetic\<close>

definition limbs_split :: "nat \<Rightarrow> nat \<Rightarrow> limb list \<times> limb" where
  "limbs_split n v = (limbs_of_nat n v, of_nat (v div limb_base ^ n))"

definition limbs_diff :: "nat \<Rightarrow> nat \<Rightarrow> nat \<Rightarrow> limb list \<times> limb" where
  "limbs_diff n a b = (if a < b then (limbs_of_nat n (a + limb_base ^ n - b), 1) else (limbs_of_nat n (a - b), 0))"

definition gmp_arith_ref :: gmp_arith where
  "gmp_arith_ref = \<lparr>
     mpn_mul_1 = (\<lambda>xs y. limbs_split (length xs) (limbs_val xs * unat y)),
     mpn_addmul_1 = (\<lambda>zs xs y. limbs_split (length xs) (limbs_val zs + limbs_val xs * unat y)),
     mpn_sub_n = (\<lambda>xs ys. limbs_diff (length xs) (limbs_val xs) (limbs_val ys)),
     mpn_sub = (\<lambda>xs ys. limbs_diff (length xs) (limbs_val xs) (limbs_val ys)),
     mpn_mul_n = (\<lambda>xs ys. limbs_of_nat (2 * length xs) (limbs_val xs * limbs_val ys)),
     mpn_rem = (\<lambda>xs ds. limbs_of_nat (length ds) (limbs_val xs mod limbs_val ds)),
     mpn_gcdext = (\<lambda>xs ys. (limbs_of_nat (length xs)
        (nat (fst (bezw (limbs_val xs) (limbs_val ys)) mod int (limbs_val ys))), int (length xs)))\<rparr>"

lemma limbs_split_ok:
  assumes "limbs_split n v = (r, c)" "v < limb_base ^ n * limb_base"
  shows "length r = n \<and> limbs_val r + limb_base ^ n * unat c = v"
proof -
  have "v div limb_base ^ n < limb_base"
    using assms(2) by (simp add: less_mult_imp_div_less mult.commute)
  then show ?thesis
    using assms(1) by (auto simp: limbs_split_def unat_of_nat_limb)
qed

lemma limbs_diff_ok:
  assumes "limbs_diff n a b = (r, c)" "a < limb_base ^ n" "b < limb_base ^ n"
  shows "length r = n \<and> int (limbs_val r) = int a - int b + int (limb_base ^ n) * int (unat c)"
proof (cases "a < b")
  case True
  then have "a + limb_base ^ n - b < limb_base ^ n" using assms by linarith
  then show ?thesis using True assms by (auto simp: limbs_diff_def of_nat_diff)
next
  case False
  then show ?thesis using assms by (auto simp: limbs_diff_def of_nat_diff)
qed

lemma limbs_val_less': "length xs = n \<Longrightarrow> limbs_val xs < limb_base ^ n"
  using limbs_val_less [of xs] by simp

lemma addmul_fits:
  assumes "a < b" "c < b" "(y :: nat) < B"
  shows "a + c * y < b * B"
proof -
  have "a + c * y \<le> (b - 1) + (b - 1) * (B - 1)"
    using assms by (intro add_mono mult_mono) auto
  also have "\<dots> = (b - 1) * B"
    using assms(3) by (cases B) simp_all
  also have "\<dots> < b * B" using assms by simp
  finally show ?thesis .
qed

lemma bezw_inverse:
  assumes "coprime x y" "0 < (y :: nat)"
  shows "(fst (bezw x y) mod int y * int x) mod int y = 1 mod int y"
proof -
  have "fst (bezw x y) * int x + snd (bezw x y) * int y = 1"
    using bezw_aux [of x y] assms(1) by simp
  then have "fst (bezw x y) * int x = 1 + int y * (- snd (bezw x y))"
    by (simp add: algebra_simps)
  then have "(fst (bezw x y) * int x) mod int y = 1 mod int y"
    by (simp only: mod_mult_self2)
  then show ?thesis by (simp add: mod_simps)
qed

interpretation garef: gmp_arith_ok gmp_arith_ref
proof
  fix xs ys zs ds :: "limb list" and y c :: limb and r :: "limb list" and sz :: int
  note fits = addmul_fits [OF _ limbs_val_less [of xs] unat_limb_less [of y]]
  show "length r = length xs \<and> limbs_val r + limb_base ^ length xs * unat c = limbs_val xs * unat y"
    if "mpn_mul_1 gmp_arith_ref xs y = (r, c)"
    using that fits [of 0] by (intro limbs_split_ok) (simp_all add: gmp_arith_ref_def)
  show "length r = length xs \<and> limbs_val r + limb_base ^ length xs * unat c = limbs_val zs + limbs_val xs * unat y"
    if "length zs = length xs" "mpn_addmul_1 gmp_arith_ref zs xs y = (r, c)"
    using that fits [OF limbs_val_less' [OF that(1)]] by (intro limbs_split_ok) (simp_all add: gmp_arith_ref_def)
  show "length r = length xs \<and> int (limbs_val r) = int (limbs_val xs) - int (limbs_val ys) + int (limb_base ^ length xs) * int (unat c)"
    if "length ys = length xs" "mpn_sub_n gmp_arith_ref xs ys = (r, c)"
    using that by (intro limbs_diff_ok limbs_val_less') (simp_all add: gmp_arith_ref_def)
  show "length r = length xs \<and> int (limbs_val r) = int (limbs_val xs) - int (limbs_val ys) + int (limb_base ^ length xs) * int (unat c)"
    if "length ys \<le> length xs" "mpn_sub gmp_arith_ref xs ys = (r, c)"
  proof (rule limbs_diff_ok [OF _ limbs_val_less])
    have "limb_base ^ length ys \<le> limb_base ^ length xs"
      using that(1) by (intro power_increasing) (simp_all add: Suc_leI)
    with limbs_val_less [of ys] show "limbs_val ys < limb_base ^ length xs" by (rule order.strict_trans2)
    show "limbs_diff (length xs) (limbs_val xs) (limbs_val ys) = (r, c)"
      using that(2) by (simp add: gmp_arith_ref_def)
  qed
  show "length (mpn_mul_n gmp_arith_ref xs ys) = 2 * length xs
      \<and> limbs_val (mpn_mul_n gmp_arith_ref xs ys) = limbs_val xs * limbs_val ys"
    if "length ys = length xs"
  proof -
    have "limbs_val xs * limbs_val ys < limb_base ^ length xs * limb_base ^ length xs"
      by (intro mult_strict_mono' limbs_val_less limbs_val_less' that) simp_all
    then show ?thesis by (simp add: gmp_arith_ref_def mult_2 power_add)
  qed
  show "length (mpn_rem gmp_arith_ref xs ds) = length ds \<and> limbs_val (mpn_rem gmp_arith_ref xs ds) = limbs_val xs mod limbs_val ds"
    if "0 < limbs_val ds"
  proof -
    have "limbs_val xs mod limbs_val ds < limb_base ^ length ds"
      using that limbs_val_less [of ds] by (intro order.strict_trans [OF mod_less_divisor]) auto
    then show ?thesis by (simp add: gmp_arith_ref_def)
  qed
  show "length r = length xs \<and> nat \<bar>sz\<bar> \<le> length xs \<and> limbs_val (take (nat \<bar>sz\<bar>) r) < limbs_val ys
      \<and> (sgn sz * int (limbs_val (take (nat \<bar>sz\<bar>) r)) * int (limbs_val xs)) mod int (limbs_val ys) = 1 mod int (limbs_val ys)"
    if "0 < limbs_val xs" "limbs_val xs < limbs_val ys" "length ys = length xs"
      "coprime (limbs_val xs) (limbs_val ys)" "mpn_gcdext gmp_arith_ref xs ys = (r, sz)"
  proof -
    let ?s = "fst (bezw (limbs_val xs) (limbs_val ys)) mod int (limbs_val ys)"
    have s: "0 \<le> ?s" "?s < int (limbs_val ys)" using that by simp_all
    have "nat ?s < limb_base ^ length xs"
      using s that(3) limbs_val_less [of ys] by simp
    moreover have "xs \<noteq> []" using that(1) by auto
    ultimately show ?thesis
      using that s bezw_inverse [OF that(4)] by (auto simp: gmp_arith_ref_def nat_less_iff)
  qed
qed

subsection \<open>Conversions\<close>

lemma zp_wf_table:
  assumes "zp_wf Z" "length xs = MAX_MOD_SZ" "limbs_val xs = v mod zp_pr Z"
  shows "modp_wf Z (take (zp_t Z) xs)" "limbs_val (take (zp_t Z) xs) = v mod zp_pr Z"
proof -
  have "v mod zp_pr Z < zp_pr Z" "zp_pr Z < limb_base ^ zp_t Z" using assms(1) by (simp_all add: zp_wf_def)
  then have "v mod zp_pr Z < limb_base ^ zp_t Z" by (rule order.strict_trans)
  then show "limbs_val (take (zp_t Z) xs) = v mod zp_pr Z"
    using assms(3) by (simp add: limbs_val_take)
  then show "modp_wf Z (take (zp_t Z) xs)"
    using assms by (simp add: modp_wf_def zp_wf_def)
qed

lemma length_inline_mpn_zero [simp]: "length (inline_mpn_zero n) = n"
  by (simp add: inline_mpn_zero_def)

lemma limbs_val_set_0: "0 < n \<Longrightarrow> limbs_val ((inline_mpn_zero n)[0 := w]) = unat w"
  by (cases n) (simp_all add: inline_mpn_zero_def)

lemma modp_assignZero_rep: "zp_wf Z \<Longrightarrow> modp_rep Z (modp_assignZero Z) 0"
  by (simp add: modp_assignZero_def inline_mpn_zero_def modp_rep_def modp_wf_def zp_wf_def)

lemma modp_assignOne_rep: "zp_wf Z \<Longrightarrow> modp_rep Z (modp_assignOne Z) 1"
proof (cases "zp_montgomery Z")
  case True
  assume Z: "zp_wf Z"
  have R: "length (zp_R Z) = MAX_MOD_SZ" "limbs_val (zp_R Z) = limb_base ^ zp_t Z mod zp_pr Z"
    using Z True by (simp_all add: zp_wf_def)
  show ?thesis
    using True Z zp_wf_table [OF Z R] by (simp add: modp_assignOne_def modp_rep_def zp_r_def zp_wf_def)
next
  case False
  assume "zp_wf Z"
  with False show ?thesis
    by (simp add: modp_assignOne_def modp_assignZero_def limbs_val_set_0 modp_rep_def modp_wf_def zp_wf_def zp_r_def)
qed

lemma mpz_size_ge: "0 < n \<Longrightarrow> limb_base ^ (mpz_size n - 1) \<le> n"
proof (induction n rule: mpz_size.induct)
  case (1 n)
  show ?case
  proof (cases "n div limb_base = 0")
    case True
    then show ?thesis using 1 by (simp add: mpz_size.simps [of n])
  next
    case False
    then have "limb_base ^ (mpz_size (n div limb_base) - 1) \<le> n div limb_base" using 1 by simp
    then have "limb_base * limb_base ^ (mpz_size (n div limb_base) - 1) \<le> n"
      by (simp add: less_eq_div_iff_mult_less_eq mult.commute)
    moreover have "0 < mpz_size (n div limb_base)" using False mpz_size_bounds by simp
    ultimately show ?thesis using 1 by (simp add: mpz_size.simps [of n] power_eq_if)
  qed
qed

context gmp_arith_ok begin

text \<open>Multiplying by \<open>R^2\<close> enters the Montgomery form, multiplying by 1 leaves it.\<close>

lemma mont_enter:
  assumes "gmp_mpn G" "zp_wf Z" "zp_montgomery Z" "length x = zp_t Z"
  shows "modp_rep Z (zp_Mont_Mult G A bmi2 Z x (take (zp_t Z) (zp_R2 Z))) (limbs_val x mod zp_pr Z)"
proof -
  let ?r = "limb_base ^ zp_t Z" and ?y = "take (zp_t Z) (zp_R2 Z)" and ?p = "zp_pr Z"
  have R2: "length (zp_R2 Z) = MAX_MOD_SZ" "limbs_val (zp_R2 Z) = ?r ^ 2 mod ?p"
    using assms(2,3) by (simp_all add: zp_wf_def)
  note y = zp_wf_table [OF assms(2) R2]
  let ?z = "zp_Mont_Mult G A bmi2 Z x ?y"
  have z: "modp_wf Z ?z" "(limbs_val ?z * ?r) mod ?p = (limbs_val x * limbs_val ?y) mod ?p"
    using zp_Mont_Mult_spec [OF assms y(1)] by (simp_all add: mont_spec_def)
  have r: "zp_r Z = ?r" using assms(3) by (simp add: zp_r_def)
  have "(limbs_val ?z * ?r) mod ?p = (limbs_val x * ?r * ?r) mod ?p"
    unfolding z(2) y(2) by (simp add: mod_simps power2_eq_square mult.assoc)
  then have "limbs_val ?z mod ?p = (limbs_val x * zp_r Z) mod ?p"
    using mod_cancel [OF zp_r_coprime [OF assms(2)], of "limbs_val ?z" "limbs_val x * ?r"] by (simp add: r)
  then show ?thesis by (intro modp_repI assms z)
qed

lemma modp_to_bigint_rep:
  assumes "gmp_mpn G" "zp_wf Z" "modp_rep Z x v"
  shows "modp_to_bigint G A bmi2 Z x = v"
proof (cases "zp_montgomery Z")
  case True
  let ?one = "(inline_mpn_zero (zp_t Z))[0 := 1 :: limb]"
  have one: "modp_wf Z ?one" "limbs_val ?one = 1"
    using assms(2) by (simp_all add: modp_wf_def limbs_val_set_0 zp_wf_def)
  let ?z = "zp_Mont_Mult G A bmi2 Z x ?one"
  have z: "modp_wf Z ?z" "(limbs_val ?z * limb_base ^ zp_t Z) mod zp_pr Z = limbs_val x mod zp_pr Z"
    using zp_Mont_Mult_spec [OF assms(1,2) True modp_repD(4) [OF assms(3)] one(1), of bmi2]
    by (simp_all add: mont_spec_def one(2))
  have r: "zp_r Z = limb_base ^ zp_t Z" using True by (simp add: zp_r_def)
  have "(limbs_val ?z * zp_r Z) mod zp_pr Z = (v * zp_r Z) mod zp_pr Z"
    unfolding r z(2) using modp_repD(3) [OF assms(3)] by (simp only: r)
  then have "limbs_val ?z mod zp_pr Z = v mod zp_pr Z"
    by (rule mod_cancel [OF zp_r_coprime [OF assms(2)]])
  then have "limbs_val ?z = v"
    unfolding mod_less [OF modp_wfD(2) [OF z(1)]] mod_less [OF modp_repD(2) [OF assms(3)]] .
  with True show ?thesis by (simp add: modp_to_bigint_def)
next
  case False
  then show ?thesis
    using assms(3) by (simp add: modp_to_bigint_def modp_rep_def modp_wf_def zp_r_def inline_mpn_copyi_def)
qed

lemma modp_convert_pos_rep:
  assumes "gmp_mpn G" "zp_wf Z" "length s \<le> zp_t Z" "limbs_val s < zp_pr Z"
  shows "\<exists>z. modp_convert G A bmi2 Z s False = Inr z \<and> modp_rep Z z (limbs_val s)"
proof -
  let ?x = "s @ inline_mpn_zero (zp_t Z - length s)"
  have x: "length ?x = zp_t Z" "limbs_val ?x = limbs_val s"
    using assms(3) by (simp_all add: inline_mpn_zero_def limbs_val_append)
  have "modp_rep Z ?x (limbs_val s)" if "\<not> zp_montgomery Z"
    using that x assms by (simp add: modp_rep_def modp_wf_def zp_r_def)
  then show ?thesis
    using mont_enter [OF assms(1,2) _ x(1), unfolded x(2), of bmi2] assms(3,4) by (auto simp: modp_convert_def Let_def)
qed

lemma modp_convert_neg_rep:
  assumes "gmp_mpn G" "zp_wf Z" "length s \<le> zp_t Z" "0 < limbs_val s" "limbs_val s < zp_pr Z"
  shows "\<exists>z. modp_convert G A bmi2 Z s True = Inr z \<and> modp_rep Z z (zp_pr Z - limbs_val s)"
proof -
  let ?p = "take (zp_t Z) (zp_prA Z)"
  have p: "limbs_val ?p = zp_pr Z" "length ?p = zp_t Z" "zp_pr Z < limb_base ^ zp_t Z"
    using zp_prA_take [OF assms(2), of "zp_t Z"] assms(2) by (simp_all add: zp_wf_def)
  obtain r b where r: "mpn_sub A ?p s = (r, b)" by fastforce
  have v: "length r = zp_t Z" "int (limbs_val r) = int (zp_pr Z) - int (limbs_val s) + int (limb_base ^ zp_t Z) * int (unat b)"
    using sub [OF _ r] p assms(3) by simp_all
  have "int (limbs_val r) mod int (limb_base ^ zp_t Z) = int (zp_pr Z - limbs_val s) mod int (limb_base ^ zp_t Z)"
    unfolding v(2) using assms(5) by (simp add: of_nat_diff)
  then have rv: "limbs_val r = zp_pr Z - limbs_val s"
    using v(1) p(3) by (simp only: zmod_int [symmetric] of_nat_eq_iff) simp
  have "modp_rep Z r (zp_pr Z - limbs_val s)" if "\<not> zp_montgomery Z"
    using that v(1) rv assms by (simp add: modp_rep_def modp_wf_def zp_r_def)
  then show ?thesis
    using mont_enter [OF assms(1,2) _ v(1)] assms rv by (simp add: modp_convert_def r)
qed

lemma nat_mod_neg:
  assumes "x < 0" "0 < p" "m = nat \<bar>x\<bar> mod p"
  shows "nat (x mod int p) = (if m = 0 then 0 else p - m)"
proof -
  have x: "x = - int (nat \<bar>x\<bar>)" using assms(1) by simp
  have "x mod int p = (if int m = 0 then 0 else int p - int m)"
    unfolding assms(3) zmod_int by (subst x) (simp only: zmod_zminus1_eq_if)
  moreover have "m < p" using assms by simp
  ultimately show ?thesis by (auto simp: nat_diff_distrib)
qed

lemma modp_convert_destroy_rep:
  assumes "gmp_mpn G" "zp_wf Z"
  shows "\<exists>z. modp_convert_destroy G A bmi2 Z x = Inr z \<and> modp_rep Z z (nat (x mod int (zp_pr Z)))"
proof -
  define m where "m = nat \<bar>x\<bar> mod zp_pr Z"
  have p: "1 < zp_pr Z" "zp_pr Z < limb_base ^ zp_t Z" using assms(2) by (simp_all add: zp_wf_def)
  have m: "m < zp_pr Z" using p by (simp add: m_def)
  have "mpz_size m \<le> zp_t Z"
  proof (cases "m = 0")
    case False
    have "limb_base ^ (mpz_size m - 1) \<le> m" using False by (intro mpz_size_ge) simp
    then have "limb_base ^ (mpz_size m - 1) < limb_base ^ zp_t Z" using m p by linarith
    then have "mpz_size m - 1 < zp_t Z" by (simp add: power_strict_increasing_iff)
    then show ?thesis by linarith
  qed simp
  note pos = modp_convert_pos_rep [OF assms, of "mpz_limbs m" bmi2, unfolded mpz_limbs_val, OF this m]
    and neg = modp_convert_neg_rep [OF assms, of "mpz_limbs m" bmi2, unfolded mpz_limbs_val, OF this _ m]
  show ?thesis
  proof (cases "x < 0")
    case True
    have "nat (x mod int (zp_pr Z)) = (if m = 0 then 0 else zp_pr Z - m)"
      using True p by (intro nat_mod_neg) (simp_all add: m_def)
    with True pos neg show ?thesis
      unfolding modp_convert_destroy_def Let_def m_def [symmetric] by (cases "m = 0") auto
  next
    case False
    then have "nat (x mod int (zp_pr Z)) = m" by (simp add: nat_mod_distrib m_def)
    with False pos show ?thesis
      unfolding modp_convert_destroy_def Let_def m_def [symmetric] by auto
  qed
qed

lemma to_modp_mpz_rep:
  assumes "gmp_mpn G" "zp_wf Z"
  shows "\<exists>z. to_modp_mpz G A bmi2 Z x = Inr z \<and> modp_rep Z z (nat (x mod int (zp_pr Z)))"
  using assms modp_convert_destroy_rep [OF assms, of bmi2 x] modp_assignZero_rep [of Z] modp_assignOne_rep [of Z]
  by (auto simp: to_modp_mpz_def zp_wf_def)

lemma unat_limb_of_int: "unat (word_of_int k :: limb) = nat (k mod 2 ^ 64)"
  by (simp add: unat_eq_nat_uint uint_word_of_int)

text \<open>
  From an \<open>int\<close>. For a modulus of one limb a negative argument is reduced by a single addition of
  the modulus: an argument below \<open>- p\<close> wraps around and stands for another residue.
\<close>

lemma to_modp_int_rep:
  assumes "gmp_mpn G" "zp_wf Z" "zp_t Z = mpz_size (zp_pr Z)"
  shows "\<exists>z. to_modp_int G A bmi2 Z x = Inr z
    \<and> modp_rep Z z (nat ((if zp_t Z = 1 \<and> sint x + int (zp_pr Z) < 0 then sint x + 2 ^ 64 else sint x) mod int (zp_pr Z)))"
proof -
  define v where "v = sint x"
  have v: "- (2 ^ 31) \<le> v" "v < 2 ^ 31"
    using sint_range_size [of x] by (simp_all add: v_def word_size)
  have sc: "scast x = (word_of_int v :: limb)" by (simp add: v_def)
  have p: "1 < zp_pr Z" "zp_pr Z < limb_base ^ zp_t Z" "0 < zp_t Z" using assms(2) by (simp_all add: zp_wf_def)
  let ?set = "\<lambda>w. (inline_mpn_zero (zp_t Z))[0 := w :: limb]"
  let ?mont = "\<lambda>ans. if zp_montgomery Z then zp_Mont_Mult G A bmi2 Z ans (take (zp_t Z) (zp_R2 Z)) else ans"
  have mont: "modp_rep Z (?mont (?set w)) (unat w mod zp_pr Z)" if "unat w < zp_pr Z" for w
    using that mont_enter [OF assms(1,2), of "?set w" bmi2] p
    by (simp add: limbs_val_set_0 modp_rep_def modp_wf_def zp_r_def)
  show ?thesis
  proof (cases "zp_t Z = 1")
    case True
    let ?p0 = "zp_prA Z ! 0"
    have pB: "zp_pr Z < 2 ^ 64" using p True by (simp add: limb_base_def)
    have p0: "unat ?p0 = zp_pr Z"
      using zp_prA_take [OF assms(2), of 1] True by (cases "zp_prA Z") (auto simp: MAX_MOD_SZ_def)
    show ?thesis
    proof (cases "0 \<le>s x")
      case pos: True
      then have v0: "0 \<le> v" by (simp add: v_def word_sle_eq)
      have u: "unat (word_of_int v :: limb) = nat v"
        using v v0 by (simp add: unat_limb_of_int)
      have m: "unat (word_of_int v mod ?p0) = nat v mod zp_pr Z"
        by (simp add: unat_mod u p0)
      have "to_modp_int G A bmi2 Z x = Inr (?mont (?set (word_of_int v mod ?p0)))"
        using pos True by (simp add: to_modp_int_def Let_def sc)
      moreover have "modp_rep Z (?mont (?set (word_of_int v mod ?p0))) (nat v mod zp_pr Z)"
        using mont [of "word_of_int v mod ?p0"] p by (simp only: m) simp
      ultimately have "\<exists>z. to_modp_int G A bmi2 Z x = Inr z \<and> modp_rep Z z (nat v mod zp_pr Z)" by blast
      then show ?thesis using v0 by (simp add: v_def [symmetric] nat_mod_distrib)
    next
      case neg: False
      then have v0: "v < 0" by (simp add: v_def word_sle_eq)
      let ?q = "(if v + int (zp_pr Z) < 0 then v + 2 ^ 64 else v) mod int (zp_pr Z)"
      let ?s = "if v + int (zp_pr Z) < 0 then v + int (zp_pr Z) + 2 ^ 64 else v + int (zp_pr Z)"
      have "?p0 = word_of_int (int (zp_pr Z))"
        by (simp flip: p0)
      then have "?p0 + word_of_int v = word_of_int (v + int (zp_pr Z))"
        by (simp add: wi_hom_add add.commute)
      then have "unat (?p0 + word_of_int v) = nat ((v + int (zp_pr Z)) mod 2 ^ 64)"
        by (simp only: unat_limb_of_int)
      also have "(v + int (zp_pr Z)) mod 2 ^ 64 = ?s mod 2 ^ 64" by simp
      also have "\<dots> = ?s" using v v0 pB by (intro mod_pos_pos_trivial) auto
      finally have "unat ((?p0 + word_of_int v) mod ?p0) = nat ?s mod zp_pr Z"
        by (simp only: unat_mod p0)
      also have "\<dots> = nat (?s mod int (zp_pr Z))"
        using v pB by (simp add: nat_mod_distrib)
      also have "?s mod int (zp_pr Z) = ?q"
        using mod_add_self2 [of "v + 2 ^ 64" "int (zp_pr Z)"] by (auto simp: ac_simps)
      finally have m: "unat ((?p0 + word_of_int v) mod ?p0) = nat ?q" .
      moreover have "nat ?q < zp_pr Z" using p by (simp add: nat_less_iff)
      ultimately have "modp_rep Z (?mont (?set ((?p0 + word_of_int v) mod ?p0))) (nat ?q)"
        using mont [of "(?p0 + word_of_int v) mod ?p0"] by (simp only: m) simp
      moreover have "to_modp_int G A bmi2 Z x = Inr (?mont (?set ((?p0 + word_of_int v) mod ?p0)))"
        using neg True by (simp add: to_modp_int_def Let_def sc)
      ultimately show ?thesis unfolding v_def [symmetric] using True by auto
    qed
  next
    case False
    show ?thesis
    proof (cases "0 \<le>s x")
      case pos: True
      then have v0: "0 \<le> v" by (simp add: v_def word_sle_eq)
      have u: "unat (word_of_int v :: limb) = nat v"
        using v v0 by (simp add: unat_limb_of_int)
      have "limb_base ^ 1 \<le> limb_base ^ (mpz_size (zp_pr Z) - 1)"
        using False assms(3) p(3) by (intro power_increasing) (simp_all add: Suc_leI)
      also have "\<dots> \<le> zp_pr Z" using p by (intro mpz_size_ge) simp
      finally have "nat v < zp_pr Z" using v by (simp add: limb_base_def)
      then show ?thesis
        using mont [of "word_of_int v"] pos False v0
        by (simp add: to_modp_int_def Let_def sc u v_def [symmetric] nat_mod_distrib)
    next
      case neg: False
      then show ?thesis
        using to_modp_mpz_rep [OF assms(1,2), of bmi2 "int (zp_pr Z) + sint x"] False
        by (simp add: to_modp_int_def Let_def)
    qed
  qed
qed

subsection \<open>Powers and inverses\<close>

lemma modp_power_loop_rep:
  assumes G: "gmp_mpn G" and Z: "zp_wf Z" "zp_t Z \<le> L"
  shows "modp_rep Z t v \<Longrightarrow> modp_rep Z ans w \<Longrightarrow>
    \<exists>z. modp_power_loop G A bmi2 L Z e t ans = Some z \<and> modp_rep Z z ((w * v ^ e) mod zp_pr Z)"
proof (induction e arbitrary: t ans v w rule: less_induct)
  case (less e)
  show ?case
  proof (cases "e = 0")
    case True
    then show ?thesis using less.prems modp_repD(2) [OF less.prems(2)]
      by (simp add: modp_power_loop.simps [of _ _ _ _ _ 0])
  next
    case False
    note sqr = modp_Mul_rep(2) [OF G Z less.prems(1,1)]
    obtain ans' w' where step: "(if odd e then modp_Mul G A bmi2 L Z ans t else Some ans) = Some ans'"
      "modp_rep Z ans' (w' mod zp_pr Z)" "w' * (v * v) ^ (e div 2) = w * v ^ e"
    proof (cases "odd e")
      case True
      obtain z where "modp_Mul G A bmi2 L Z ans t = Some z" "modp_rep Z z ((w * v) mod zp_pr Z)"
        using modp_Mul_rep(1) [OF G Z less.prems(2,1)] by blast
      moreover have "w * v * (v * v) ^ (e div 2) = w * v ^ e"
      proof -
        have "v ^ e = v ^ Suc (2 * (e div 2))" using True by simp
        then show ?thesis by (simp add: power_mult power2_eq_square)
      qed
      ultimately show ?thesis using that [of z "w * v"] True by simp
    next
      case even: False
      have "v ^ e = v ^ (2 * (e div 2))" using even by simp
      then show ?thesis
        using that [of ans w] even less.prems(2) modp_repD(2) [OF less.prems(2)]
        by (simp add: power_mult power2_eq_square)
    qed
    have half: "e div 2 < e" using False by simp
    obtain z where z: "modp_power_loop G A bmi2 L Z (e div 2) (modp_Sqr G A bmi2 Z t) ans' = Some z"
      "modp_rep Z z ((w' mod zp_pr Z * ((v * v) mod zp_pr Z) ^ (e div 2)) mod zp_pr Z)"
      using less.IH [OF half sqr step(2)] by blast
    have "(w' mod zp_pr Z * ((v * v) mod zp_pr Z) ^ (e div 2)) mod zp_pr Z = (w * v ^ e) mod zp_pr Z"
      unfolding step(3) [symmetric] by (rule mod_mult_cong [OF mod_mod_trivial power_mod])
    with z step(1) False show ?thesis
      by (subst modp_power_loop.simps) simp
  qed
qed

lemma modp_Power_rep:
  assumes "gmp_mpn G" "zp_wf Z" "zp_t Z \<le> L" "modp_rep Z x v"
  shows "\<exists>z. modp_Power G A bmi2 L Z x (int e) = Inr z \<and> modp_rep Z z (v ^ e mod zp_pr Z)"
proof -
  obtain z where z: "modp_power_loop G A bmi2 L Z e x (modp_assignOne Z) = Some z"
    "modp_rep Z z ((1 * v ^ e) mod zp_pr Z)"
    using modp_power_loop_rep [OF assms(1-4) modp_assignOne_rep [OF assms(2)]] by blast
  have "modp_rep Z x (v ^ 1 mod zp_pr Z)" "modp_rep Z (modp_assignOne Z) (v ^ 0 mod zp_pr Z)"
    using assms modp_assignOne_rep [OF assms(2)] modp_repD(2) [OF assms(4)] by (simp_all add: zp_wf_def)
  with z show ?thesis by (auto simp: modp_Power_def)
qed

lemma sgn_limbs:
  assumes "(sgn sz * int s * int x) mod int p = 1 mod int p" "s < p" "1 < p" "y = (if sz < 0 then p - s else s)" "sz = 0 \<longrightarrow> s = 0"
  shows "(y * x) mod p = 1" "sz < 0 \<longrightarrow> 0 < s"
proof -
  have "int y mod int p = (sgn sz * int s) mod int p"
    using assms by (auto simp: sgn_if of_nat_diff mod_simps)
  then have "(int y * int x) mod int p = (sgn sz * int s * int x) mod int p"
    by (metis mod_mult_left_eq)
  then have "int ((y * x) mod p) = 1" using assms(1,3) by (simp add: zmod_int)
  then show "(y * x) mod p = 1" by simp
  show "sz < 0 \<longrightarrow> 0 < s" using assms(1,3) by (cases "s = 0") auto
qed

lemma gcdext_inverse:
  assumes Z: "zp_wf Z" and x: "modp_wf Z x" "0 < limbs_val x" "coprime (limbs_val x) (zp_pr Z)"
    and gcd: "mpn_gcdext A x (take (zp_t Z) (zp_prA Z)) = (s, sz)"
  defines "ans \<equiv> (if sz < 0 then fst (mpn_sub A (take (zp_t Z) (zp_prA Z)) (take (nat (- sz)) s))
                  else take (nat sz) s @ inline_mpn_zero (zp_t Z - nat sz))"
  shows "modp_wf Z ans" "(limbs_val ans * limbs_val x) mod zp_pr Z = 1"
proof -
  let ?p = "take (zp_t Z) (zp_prA Z)" and ?s = "limbs_val (take (nat \<bar>sz\<bar>) s)"
  have p: "limbs_val ?p = zp_pr Z" "length ?p = zp_t Z" "zp_pr Z < limb_base ^ zp_t Z" "1 < zp_pr Z"
    using zp_prA_take [OF Z, of "zp_t Z"] Z by (simp_all add: zp_wf_def)
  have len: "length s = zp_t Z" "nat \<bar>sz\<bar> \<le> zp_t Z" "?s < zp_pr Z"
    and inv: "(sgn sz * int ?s * int (limbs_val x)) mod int (zp_pr Z) = 1 mod int (zp_pr Z)"
    using gcdext [OF _ _ _ _ gcd] x p by (simp_all add: modp_wf_def)
  have inv': "(y * limbs_val x) mod zp_pr Z = 1" "sz < 0 \<longrightarrow> 0 < ?s"
    if "y = (if sz < 0 then zp_pr Z - ?s else ?s)" for y
    using sgn_limbs [OF inv len(3) p(4) that] by simp_all
  have "length ans = zp_t Z \<and> limbs_val ans = (if sz < 0 then zp_pr Z - ?s else ?s)"
  proof (cases "sz < 0")
    case True
    obtain r b where r: "mpn_sub A ?p (take (nat (- sz)) s) = (r, b)" by fastforce
    have v: "length r = zp_t Z" "int (limbs_val r) = int (zp_pr Z) - int ?s + int (limb_base ^ zp_t Z) * int (unat b)"
      using sub [OF _ r] p len True by simp_all
    have "int (limbs_val r) mod int (limb_base ^ zp_t Z) = int (zp_pr Z - ?s) mod int (limb_base ^ zp_t Z)"
      unfolding v(2) using len(3) by (simp add: of_nat_diff)
    moreover have "zp_pr Z - ?s < limb_base ^ zp_t Z" using p(3) by linarith
    ultimately have "limbs_val r = zp_pr Z - ?s"
      using v(1) by (simp only: zmod_int [symmetric] of_nat_eq_iff) simp
    with True v(1) show ?thesis by (simp add: ans_def r)
  next
    case False
    then show ?thesis using len by (simp add: ans_def inline_mpn_zero_def limbs_val_append)
  qed
  with inv' len(3) show "modp_wf Z ans" "(limbs_val ans * limbs_val x) mod zp_pr Z = 1"
    by (auto simp: modp_wf_def)
qed

lemma modp_Inv_rep:
  assumes G: "gmp_mpn G" and Z: "zp_wf Z" "zp_t Z \<le> L" and x: "modp_rep Z x v" "coprime v (zp_pr Z)"
  shows "\<exists>z w. modp_Inv G A bmi2 L Z x = Some z \<and> modp_rep Z z w \<and> (v * w) mod zp_pr Z = 1"
proof -
  let ?P = "zp_pr Z" and ?r = "zp_r Z"
  have P: "1 < ?P" using Z by (simp add: zp_wf_def)
  have xv: "limbs_val x = (v * ?r) mod ?P" using x(1) by (simp add: modp_rep_def)
  have "coprime (v * ?r) ?P" using x(2) zp_r_coprime [OF Z(1)] by simp
  then have cop: "coprime (limbs_val x) ?P" using P unfolding xv by (simp add: coprime_mod_left_iff)
  then have pos: "0 < limbs_val x" using P by (cases "limbs_val x = 0") auto
  obtain s sz where gcd: "mpn_gcdext A x (take (zp_t Z) (zp_prA Z)) = (s, sz)" by fastforce
  define ans where "ans = (if sz < 0 then fst (mpn_sub A (take (zp_t Z) (zp_prA Z)) (take (nat (- sz)) s))
                  else take (nat sz) s @ inline_mpn_zero (zp_t Z - nat sz))"
  have ans: "modp_wf Z ans" "(limbs_val ans * limbs_val x) mod ?P = 1"
    using gcdext_inverse [OF Z(1) modp_repD(1) [OF x(1)] pos cop gcd] by (simp_all add: ans_def)
  have key: "(limbs_val ans * ?r * v) mod ?P = 1"
    using ans(2) unfolding xv by (simp add: mod_simps ac_simps)
  show ?thesis
  proof (cases "zp_montgomery Z")
    case False
    then have "modp_rep Z ans (limbs_val ans)" using ans(1) by (simp add: modp_rep_def zp_r_def modp_wf_def)
    moreover have "modp_Inv G A bmi2 L Z x = Some ans"
      using False unfolding modp_Inv_def Let_def by (simp add: gcd ans_def)
    moreover have "(v * limbs_val ans) mod ?P = 1" using key False by (simp add: zp_r_def mult.commute)
    ultimately show ?thesis by blast
  next
    case True
    have r: "?r = limb_base ^ zp_t Z" using True by (simp add: zp_r_def)
    have R3: "length (zp_R3 Z) = MAX_MOD_SZ" "limbs_val (zp_R3 Z) = ?r ^ 3 mod ?P"
      using Z True by (simp_all add: zp_wf_def r)
    let ?y = "take (zp_t Z) (zp_R3 Z)" and ?z = "zp_Mont_Mult G A bmi2 Z ans (take (zp_t Z) (zp_R3 Z))"
    note y = zp_wf_table [OF Z(1) R3]
    have z: "modp_wf Z ?z" "(limbs_val ?z * ?r) mod ?P = (limbs_val ans * ?r ^ 3) mod ?P"
      using zp_Mont_Mult_spec [OF G Z(1) True modp_wfD(1) [OF ans(1)] y(1), of bmi2]
      by (simp_all add: mont_spec_def r y(2) mod_simps)
    let ?w = "(limbs_val ans * ?r) mod ?P"
    have "(limbs_val ?z * ?r) mod ?P = (limbs_val ans * ?r * ?r * ?r) mod ?P"
      using z(2) by (simp add: power3_eq_cube mult.assoc)
    then have "limbs_val ?z mod ?P = (limbs_val ans * ?r * ?r) mod ?P"
      by (rule mod_cancel [OF zp_r_coprime [OF Z(1)]])
    then have "modp_rep Z ?z ?w" by (intro modp_repI Z z)
    moreover have "modp_Inv G A bmi2 L Z x = Some ?z"
      using True Z(2) unfolding modp_Inv_def Let_def by (simp add: gcd ans_def zp_Mont_Mult_max_def)
    moreover have "(v * ?w) mod ?P = 1" using key by (simp add: mod_simps ac_simps)
    ultimately show ?thesis by blast
  qed
qed

end

subsection \<open>The contract of the class\<close>

lemma modp_wf_rep:
  assumes "zp_wf Z" "modp_wf Z x"
  shows "\<exists>v. modp_rep Z x v"
proof -
  let ?p = "zp_pr Z" and ?r = "zp_r Z"
  have p: "0 < ?p" using assms(1) by (simp add: zp_wf_def)
  let ?i = "nat (fst (bezw ?r ?p) mod int ?p)"
  have "int ((?i * ?r) mod ?p) = int (1 mod ?p)"
    using bezw_inverse [OF zp_r_coprime [OF assms(1)] p] p by (simp add: zmod_int)
  then have i: "(?i * ?r) mod ?p = 1 mod ?p" by (simp only: of_nat_eq_iff)
  have "(limbs_val x * ?i * ?r) mod ?p = limbs_val x mod ?p"
    unfolding mult.assoc mod_mult_right_eq [of _ "?i * ?r", symmetric] i by (simp add: mod_simps)
  then have "modp_rep Z x ((limbs_val x * ?i) mod ?p)"
    using assms by (intro modp_repI) simp_all
  then show ?thesis by blast
qed

context gmp_arith_ok begin

lemma modp_residue_ring:
  assumes G: "gmp_mpn G" and Z: "zp_wf Z" "zp_t Z \<le> L"
  shows "residue_ring (zp_pr Z) (modp_wf Z) (modp_to_bigint G A bmi2 Z) (modp_assignZero Z)
    (modp_Add G Z) (modp_Sub Z) (modp_Mul G A bmi2 L Z)"
proof
  note val = modp_to_bigint_rep [OF G Z(1)]
  { fix a assume "modp_wf Z a"
    then obtain v where "modp_rep Z a v" using modp_wf_rep [OF Z(1)] by blast
    then show "modp_to_bigint G A bmi2 Z a < zp_pr Z" using val modp_repD(2) by simp }
  { fix a b assume "modp_wf Z a" "modp_wf Z b" "modp_to_bigint G A bmi2 Z a = modp_to_bigint G A bmi2 Z b"
    moreover from this obtain v w where "modp_rep Z a v" "modp_rep Z b w" using modp_wf_rep [OF Z(1)] by blast
    ultimately show "a = b" using val modp_rep_inject by simp }
  note zero = modp_assignZero_rep [OF Z(1)]
  show "modp_wf Z (modp_assignZero Z)" "modp_to_bigint G A bmi2 Z (modp_assignZero Z) = 0"
    using zero val [OF zero] by (simp_all add: modp_rep_def)
  fix a b assume "modp_wf Z a" "modp_wf Z b"
  then obtain v w where a: "modp_rep Z a v" and b: "modp_rep Z b w" using modp_wf_rep [OF Z(1)] by blast
  have vw: "v < zp_pr Z" "w < zp_pr Z" using a b by (auto dest: modp_repD)
  have add: "modp_rep Z (modp_Add G Z a b) ((v + w) mod zp_pr Z)"
    using gmp_mpn.zp_Add_rep [OF G Z(1) a b] by (simp add: modp_Add_def)
  then show "modp_wf Z (modp_Add G Z a b)"
    "modp_to_bigint G A bmi2 Z (modp_Add G Z a b)
      = (modp_to_bigint G A bmi2 Z a + modp_to_bigint G A bmi2 Z b) mod zp_pr Z"
    using val [OF add] val [OF a] val [OF b] by (simp_all add: modp_rep_def)
  have sub: "modp_rep Z (modp_Sub Z a b) ((v + (zp_pr Z - w)) mod zp_pr Z)"
    using zp_Sub_rep [OF Z(1) a b] by (simp add: modp_Sub_def)
  have "int ((v + (zp_pr Z - w)) mod zp_pr Z) = (int v - int w) mod int (zp_pr Z)"
    using vw mod_add_self2 [of "int v - int w" "int (zp_pr Z)"]
    by (simp add: zmod_int of_nat_diff algebra_simps)
  then show "int (modp_to_bigint G A bmi2 Z (modp_Sub Z a b))
      = (int (modp_to_bigint G A bmi2 Z a) - int (modp_to_bigint G A bmi2 Z b)) mod int (zp_pr Z)"
    using val [OF sub] val [OF a] val [OF b] by simp
  show "modp_wf Z (modp_Sub Z a b)" using sub by (simp add: modp_rep_def)
  obtain z where z: "modp_Mul G A bmi2 L Z a b = Some z" "modp_rep Z z ((v * w) mod zp_pr Z)"
    using modp_Mul_rep(1) [OF G Z a b] by blast
  then show "\<exists>r. modp_Mul G A bmi2 L Z a b = Some r \<and> modp_wf Z r
      \<and> modp_to_bigint G A bmi2 Z r = (modp_to_bigint G A bmi2 Z a * modp_to_bigint G A bmi2 Z b) mod zp_pr Z"
    using val [OF z(2)] val [OF a] val [OF b] by (auto simp: modp_rep_def)
qed

end

subsection \<open>The byte format\<close>

text \<open>Elements are packed as they are stored, in Montgomery form.\<close>

interpretation modp_codec: codec "modp_pack Z" "modp_unpack Z" bytes_of_limbs "\<lambda>x. length x = zp_t Z" for Z
proof
  fix x :: modp and os rest
  assume x: "length x = zp_t Z"
  show "\<exists>os'. modp_pack Z os x = Inr os' \<and> os_extends os (bytes_of_limbs x) os'" if "os_writable os"
    using os_append_extends [OF that, of "bytes_of_limbs x"] x by (simp add: modp_pack_def mult.commute)
  { assume os: "os_ready os" "os_unread os = bytes_of_limbs x @ rest"
    have "limbs_val (limbs_of_bytes (zp_t Z) (bytes_of_limbs x)) = limbs_val x"
      using x by (simp add: limbs_of_bytes_val)
    then have "limbs_of_bytes (zp_t Z) (bytes_of_limbs x) = x"
      using x by (simp add: limbs_val_inject)
    then show "\<exists>os'. modp_unpack Z os = Inr (x, os') \<and> os_advanced (length (bytes_of_limbs x)) os os'"
      using os_consume_unread [OF os, of "zp_t Z * 8"] x by (simp add: modp_unpack_def mult.commute) }
qed

subsection \<open>Concrete constants\<close>

text \<open>An inverse as \<open>mpz_invert\<close> computes it, and the constants of the field of 11 elements.\<close>

definition mpz_invert_ref :: "nat \<Rightarrow> nat \<Rightarrow> nat" where
  "mpz_invert_ref p n = nat (fst (bezw p n) mod int n)"

lemma inverts_ref: "odd p \<Longrightarrow> inverts mpz_invert_ref p"
proof -
  assume p: "odd p"
  have "mpz_invert_ref p (2 ^ k) < 2 ^ k \<and> (mpz_invert_ref p (2 ^ k) * p) mod 2 ^ k = 1" if "0 < k" for k
  proof -
    let ?s = "fst (bezw p (2 ^ k)) mod int (2 ^ k)"
    have s: "0 \<le> ?s" "?s < 2 ^ k" by simp_all
    have cop: "coprime p (2 ^ k)" using p by (simp add: coprime_power_right_iff)
    have "(1 :: nat) < 2 ^ k" using that one_less_power [of "2 :: nat" k] by simp
    then have "int ((nat ?s * p) mod 2 ^ k) = int 1"
      using bezw_inverse [OF cop] s(1) that by (simp add: zmod_int)
    moreover have "nat ?s < 2 ^ k" using s by (simp add: nat_less_iff)
    ultimately show ?thesis by (simp only: mpz_invert_ref_def of_nat_eq_iff)
  qed
  then show ?thesis by (simp add: inverts_def)
qed

definition zp_eleven :: zp_data where
  "zp_eleven = \<lparr>zp_montgomery = True, zp_R = zero_copy MAX_MOD_SZ [5], zp_R2 = zero_copy MAX_MOD_SZ [3],
     zp_R3 = zero_copy MAX_MOD_SZ [4], zp_pi = 15092790605762360413, zp_prA = zero_copy (MAX_MOD_SZ + 1) [11], zp_t = 1,
     zp_overhang = 15, zp_pr = 11, zp_pr_half = 5, zp_mask = 7, zp_pr_byte_length = 1, zp_pr_bit_length = 4\<rparr>"

lemma zp_eleven_wf: "zp_wf zp_eleven"
  by (simp add: zp_wf_def zp_eleven_def zero_copy_val MAX_MOD_SZ_def limb_base_def)

lemma zp_eleven_simps [simp]: "zp_t zp_eleven = 1" "zp_pr zp_eleven = 11" "zp_montgomery zp_eleven"
  by (simp_all add: zp_eleven_def)

lemma zp_eleven_rep: "modp_rep zp_eleven [4] 3" "modp_rep zp_eleven [9] 4"
  by (simp_all add: modp_rep_def modp_wf_def zp_r_def limb_base_def)

subsection \<open>Properties\<close>

text \<open>C16: \<open>Zp_Data::init\<close> succeeds for every accepted prime of at most 11 limbs (for Montgomery representation an odd one) on
  a fresh object and on one initialised with the same prime and representation: it establishes the invariant of the class, the
  Montgomery constants included, and gives the lock back. On an object initialised with another prime or representation, and for
  a number the primality test rejects, it throws and leaves the constants as they were; for a prime that is too long it throws
  after it has written some of them. In all three cases the lock stays held, and every later call waits for ever.\<close>

theorem zp_init_invariant:
  assumes "1 < p" "mont \<Longrightarrow> odd p \<and> inverts mpz_invert p"
  shows "((zp_pr Z = 0 \<or> zp_pr Z = p \<and> zp_montgomery Z = mont) \<and> probPrime p \<and> mpz_size p \<le> MAX_MOD_SZ \<longrightarrow>
      (\<exists>Z'. zp_init probPrime mpz_invert p mont (False, Z) = Some (None, False, Z') \<and> zp_wf Z' \<and> zp_pr Z' = p
        \<and> zp_montgomery Z' = mont \<and> zp_t Z' = mpz_size p \<and> zp_pr_byte_length Z' = numBytes p))
    \<and> (zp_pr Z \<noteq> 0 \<and> (zp_pr Z \<noteq> p \<or> mont \<noteq> zp_montgomery Z) \<or> \<not> probPrime p \<longrightarrow>
        (\<exists>e. zp_init probPrime mpz_invert p mont (False, Z) = Some (Some e, True, Z)))
    \<and> (MAX_MOD_SZ < mpz_size p \<longrightarrow> (\<exists>e Z'. zp_init probPrime mpz_invert p mont (False, Z) = Some (Some e, True, Z')))
    \<and> zp_init probPrime mpz_invert p mont (True, Z) = None"
proof -
  note ok = zp_init_wf [of p probPrime Z mont mpz_invert]
  have "zp_pr Z \<noteq> 0 \<and> (zp_pr Z \<noteq> p \<or> mont \<noteq> zp_montgomery Z) \<or> \<not> probPrime p \<Longrightarrow>
      \<exists>e. zp_init probPrime mpz_invert p mont (False, Z) = Some (Some e, True, Z)"
    "MAX_MOD_SZ < mpz_size p \<Longrightarrow> \<exists>e Z'. zp_init probPrime mpz_invert p mont (False, Z) = Some (Some e, True, Z')"
    "zp_init probPrime mpz_invert p mont (True, Z) = None"
    by (auto simp: zp_init_def Let_def)
  with ok assms show ?thesis by blast
qed

theorem zp_init_invariant_witness:
  "(\<exists>Z'. zp_init (\<lambda>p. p = 11) mpz_invert_ref 11 True (False, zp_new) = Some (None, False, Z') \<and> zp_wf Z' \<and> zp_pr Z' = 11 \<and> zp_montgomery Z')
    \<and> (\<exists>e. zp_init (\<lambda>p. p = 11) mpz_invert_ref 11 False (False, zp_eleven) = Some (Some e, True, zp_eleven))"
proof -
  have "mpz_size 11 \<le> MAX_MOD_SZ"
    by (simp add: mpz_size.simps [of 11] limb_base_def MAX_MOD_SZ_def)
  then show ?thesis
    using zp_init_invariant [of 11 True mpz_invert_ref zp_new "\<lambda>p. p = 11"] inverts_ref [of 11]
      zp_init_invariant [of 11 False mpz_invert_ref zp_eleven "\<lambda>p. p = 11"]
    by (auto simp: zp_new_def)
qed

text \<open>C17: The two Montgomery multiplications, the fixed-size loop used with BMI2 and the one on GMP's routines,
  return the same element, the one with \<open>z * 2 ^ (64 t) = x * y\<close> modulo the prime.\<close>

theorem mont_mult_correct:
  assumes "gmp_mpn G" "gmp_arith_ok A" "zp_wf Z" "zp_montgomery Z" "length x = zp_t Z" "modp_wf Z y"
  shows "zp_Mont_Mult_T G (zp_t Z) Z x y = zp_Mont_Mult_gmp G A Z x y (zp_t Z)
    \<and> modp_wf Z (zp_Mont_Mult_T G (zp_t Z) Z x y)
    \<and> (limbs_val (zp_Mont_Mult_T G (zp_t Z) Z x y) * 2 ^ (64 * zp_t Z)) mod zp_pr Z
        = (limbs_val x * limbs_val y) mod zp_pr Z"
proof -
  have B: "limb_base ^ zp_t Z = 2 ^ (64 * zp_t Z)" by (simp add: limb_base_def power_mult)
  let ?T = "zp_Mont_Mult_T G (zp_t Z) Z x y" and ?g = "zp_Mont_Mult_gmp G A Z x y (zp_t Z)"
  have T: "mont_spec Z x y ?T" and g: "mont_spec Z x y ?g"
    using gmp_mpn.zp_Mont_Mult_T_spec [OF assms(1,3-6)] gmp_arith_ok.zp_Mont_Mult_gmp_spec [OF assms(2,1,3-6)]
    by simp_all
  have "coprime (limb_base ^ zp_t Z) (zp_pr Z)"
    using zp_r_coprime [OF assms(3)] assms(4) by (simp add: zp_r_def)
  moreover have "(limbs_val ?T * limb_base ^ zp_t Z) mod zp_pr Z = (limbs_val ?g * limb_base ^ zp_t Z) mod zp_pr Z"
    using T g by (simp add: mont_spec_def)
  ultimately have "limbs_val ?T mod zp_pr Z = limbs_val ?g mod zp_pr Z" by (rule mod_cancel)
  then have "?T = ?g"
    using T g limbs_val_inject [of ?T ?g] by (simp add: mont_spec_def modp_wf_def)
  with T show ?thesis by (simp add: mont_spec_def B)
qed

theorem mont_mult_correct_witness:
  "zp_Mont_Mult_T gmp_ref (zp_t zp_eleven) zp_eleven [4] [9] = zp_Mont_Mult_gmp gmp_ref gmp_arith_ref zp_eleven [4] [9] (zp_t zp_eleven)
    \<and> modp_wf zp_eleven (zp_Mont_Mult_T gmp_ref (zp_t zp_eleven) zp_eleven [4] [9])
    \<and> (limbs_val (zp_Mont_Mult_T gmp_ref (zp_t zp_eleven) zp_eleven [4] [9]) * 2 ^ (64 * zp_t zp_eleven)) mod zp_pr zp_eleven
        = (limbs_val [4] * limbs_val [9]) mod zp_pr zp_eleven"
  by (rule mont_mult_correct [OF gref.gmp_mpn_axioms garef.gmp_arith_ok_axioms zp_eleven_wf]) (simp_all add: modp_wf_def)

text \<open>C18: The operations on field elements are arithmetic modulo the prime, in both representations: if \<open>x\<close> and
  \<open>y\<close> stand for \<open>a\<close> and \<open>b\<close>, the results of \<open>Add\<close>, \<open>Sub\<close>, \<open>Negate\<close>, \<open>Mul\<close> and \<open>Sqr\<close> stand for the sum, the
  difference, the negation, the product and the square; \<open>to_bigint\<close> reads the residue an element stands for.\<close>

theorem field_operations:
  assumes "gmp_mpn G" "gmp_arith_ok A" "zp_wf Z" "zp_t Z \<le> L" "modp_rep Z x a" "modp_rep Z y b"
  shows "modp_rep Z (modp_Add G Z x y) ((a + b) mod zp_pr Z)
    \<and> modp_rep Z (modp_Sub Z x y) ((a + (zp_pr Z - b)) mod zp_pr Z)
    \<and> modp_rep Z (modp_Negate A Z x) ((zp_pr Z - a) mod zp_pr Z)
    \<and> (\<exists>z. modp_Mul G A bmi2 L Z x y = Some z \<and> modp_rep Z z ((a * b) mod zp_pr Z))
    \<and> modp_rep Z (modp_Sqr G A bmi2 Z x) ((a * a) mod zp_pr Z)
    \<and> modp_to_bigint G A bmi2 Z x = a"
  using gmp_mpn.zp_Add_rep [OF assms(1,3,5,6)] zp_Sub_rep [OF assms(3,5,6)]
    gmp_arith_ok.modp_Negate_rep [OF assms(2,3,5)] gmp_arith_ok.modp_Mul_rep [OF assms(2,1,3-6)]
    gmp_arith_ok.modp_to_bigint_rep [OF assms(2,1,3,5)]
  by (simp add: modp_Add_def modp_Sub_def)

theorem field_operations_witness:
  "modp_rep zp_eleven (modp_Add gmp_ref zp_eleven [4] [9]) ((3 + 4) mod zp_pr zp_eleven)
    \<and> modp_rep zp_eleven (modp_Sub zp_eleven [4] [9]) ((3 + (zp_pr zp_eleven - 4)) mod zp_pr zp_eleven)
    \<and> (\<exists>z. modp_Mul gmp_ref gmp_arith_ref False 2 zp_eleven [4] [9] = Some z \<and> modp_rep zp_eleven z ((3 * 4) mod zp_pr zp_eleven))"
  using field_operations [OF gref.gmp_mpn_axioms garef.gmp_arith_ok_axioms zp_eleven_wf _ zp_eleven_rep(1) zp_eleven_rep(2), of 2 False]
  by simp

text \<open>\<open>Power\<close> computes powers modulo the prime for every exponent that is not negative, and \<open>Inv\<close> returns
  an element whose product with the argument stands for 1, for every invertible argument.\<close>

theorem field_power_inverse:
  assumes "gmp_mpn G" "gmp_arith_ok A" "zp_wf Z" "zp_t Z \<le> L" "modp_rep Z x v" "coprime v (zp_pr Z)"
  shows "(\<exists>z. modp_Power G A bmi2 L Z x (int e) = Inr z \<and> modp_rep Z z (v ^ e mod zp_pr Z))
    \<and> (\<exists>z w. modp_Inv G A bmi2 L Z x = Some z \<and> modp_rep Z z w \<and> (v * w) mod zp_pr Z = 1)"
  using gmp_arith_ok.modp_Power_rep [OF assms(2,1,3-5)] gmp_arith_ok.modp_Inv_rep [OF assms(2,1,3-6)] by blast

theorem field_power_inverse_witness:
  "(\<exists>z. modp_Power gmp_ref gmp_arith_ref True 1 zp_eleven [4] (int 5) = Inr z \<and> modp_rep zp_eleven z (3 ^ 5 mod zp_pr zp_eleven))
    \<and> (\<exists>z w. modp_Inv gmp_ref gmp_arith_ref True 1 zp_eleven [4] = Some z \<and> modp_rep zp_eleven z w \<and> (3 * w) mod zp_pr zp_eleven = 1)"
proof -
  have "coprime 3 (11 :: nat)" by (simp add: coprime_iff_gcd_eq_1 gcd_non_0_nat)
  then show ?thesis
    using field_power_inverse [OF gref.gmp_mpn_axioms garef.gmp_arith_ok_axioms zp_eleven_wf _ zp_eleven_rep(1), of 1 True 5]
    by simp
qed

text \<open>Conversion from an integer and back is reduction modulo the prime: \<open>to_modp\<close> of any integer stands for its
  residue. For an \<open>int\<close> the same holds except that for a modulus of one limb an argument below \<open>- p\<close> wraps
  around and stands for the residue of \<open>2 ^ 64 + x\<close>.\<close>

theorem field_conversions:
  assumes "gmp_mpn G" "gmp_arith_ok A" "zp_wf Z" "zp_t Z = mpz_size (zp_pr Z)"
  shows "(\<exists>z. to_modp_mpz G A bmi2 Z n = Inr z \<and> modp_wf Z z \<and> int (modp_to_bigint G A bmi2 Z z) = n mod int (zp_pr Z))
    \<and> (\<exists>z. to_modp_int G A bmi2 Z x = Inr z \<and> modp_wf Z z \<and> int (modp_to_bigint G A bmi2 Z z)
        = (if zp_t Z = 1 \<and> sint x < - int (zp_pr Z) then 2 ^ 64 + sint x else sint x) mod int (zp_pr Z))"
proof -
  note val = gmp_arith_ok.modp_to_bigint_rep [OF assms(2,1,3)]
  have p: "0 < zp_pr Z" using assms(3) by (simp add: zp_wf_def)
  obtain z where z: "to_modp_mpz G A bmi2 Z n = Inr z" "modp_rep Z z (nat (n mod int (zp_pr Z)))"
    using gmp_arith_ok.to_modp_mpz_rep [OF assms(2,1,3)] by blast
  obtain y where y: "to_modp_int G A bmi2 Z x = Inr y"
    "modp_rep Z y (nat ((if zp_t Z = 1 \<and> sint x + int (zp_pr Z) < 0 then sint x + 2 ^ 64 else sint x) mod int (zp_pr Z)))"
    using gmp_arith_ok.to_modp_int_rep [OF assms(2,1,3,4)] by blast
  have neg: "sint x + int (zp_pr Z) < 0 \<longleftrightarrow> sint x < - int (zp_pr Z)" by linarith
  show ?thesis
    using z(1) val [OF z(2), of bmi2] modp_repD(1) [OF z(2)] y(1) val [OF y(2), of bmi2] modp_repD(1) [OF y(2)] p
    by (auto simp: neg add.commute)
qed

theorem field_conversions_witness:
  "(\<exists>z. to_modp_mpz gmp_ref gmp_arith_ref True zp_eleven (- 30) = Inr z \<and> int (modp_to_bigint gmp_ref gmp_arith_ref True zp_eleven z) = 3)
    \<and> (\<exists>z. to_modp_int gmp_ref gmp_arith_ref True zp_eleven (- 30) = Inr z \<and> int (modp_to_bigint gmp_ref gmp_arith_ref True zp_eleven z) = 8)"
proof -
  have "zp_t zp_eleven = mpz_size (zp_pr zp_eleven)"
    by (simp add: mpz_size.simps [of 11] limb_base_def)
  moreover have "sint (- 30 :: 32 word) = - 30" by simp
  ultimately show ?thesis
    using field_conversions [OF gref.gmp_mpn_axioms garef.gmp_arith_ok_axioms zp_eleven_wf, of True "- 30" "- 30"]
    by auto
qed

end
