(* ===== verification/Exchanger.thy ===== *)
theory Exchanger
  imports Row
begin

section \<open>Sending and receiving at the same time (Networking/Exchanger.h)\<close>

text \<open>
  \<open>Exchanger\<close> interleaves a send and a receive on non-blocking sockets, so that two parties that
  send each other long messages do not wait for each other. The two streams may be the same one:
  then the bytes received overwrite the bytes sent, and the code receives only as much as it has
  sent. What the operating system decides in a round, how many bytes the send accepts and how
  many received bytes are there, is an argument of \<open>exch_round\<close>.
\<close>

subsection \<open>State\<close>

text \<open>
  \<open>ex_src\<close> is the memory behind \<open>data\<close>, \<open>ex_buf\<close> the allocation of the receiving stream; when
  \<open>ex_same\<close>, \<open>data\<close> points into that allocation, until it is released (\<open>ex_stale\<close>). \<open>ex_in\<close> are the
  bytes that will still arrive, \<open>ex_out\<close> those handed to the sending socket.
\<close>

record exchanger =
  ex_same :: bool
  ex_stale :: bool
  ex_src :: "octet list"
  ex_buf :: "octet list"
  ex_slen :: nat            \<comment> \<open>\<open>receive_stream.len\<close>\<close>
  ex_in :: "octet list"
  ex_out :: "octet list"
  ex_sent :: nat
  ex_received :: nat
  ex_length_received :: bool
  ex_new_len :: nat
  ex_len :: nat

text \<open>The bytes \<open>data\<close> points to; \<open>None\<close> after the allocation was released.\<close>

definition ex_data :: "exchanger \<Rightarrow> octet list option" where
  "ex_data X = (if \<not> ex_same X then Some (ex_src X) else if ex_stale X then None else Some (ex_buf X))"

text \<open>
  The constructor. \<open>buf\<close> is the allocation of the receiving stream, which begins with its contents.
\<close>

definition exch_init :: "octet_stream \<Rightarrow> octet_stream \<Rightarrow> bool \<Rightarrow> octet list \<Rightarrow> octet list \<Rightarrow> octet list \<Rightarrow> exchanger result" where
  "exch_init send_stream receive_stream same buf out inp =
     (let len = os_len send_stream
      in bind_result (os_get_data send_stream) (\<lambda>data.
         bind_result (encode_length (of_nat len) LENGTH_SIZE) (\<lambda>blen.
           Inr \<lparr>ex_same = same, ex_stale = False, ex_src = data, ex_buf = buf, ex_slen = os_len receive_stream,
             ex_in = inp, ex_out = out @ blen, ex_sent = 0, ex_received = 0, ex_length_received = False,
             ex_new_len = 0, ex_len = len\<rparr>)))"

subsection \<open>One round\<close>

definition exch_send :: "nat \<Rightarrow> exchanger \<Rightarrow> exchanger result" where
  "exch_send accepted X =
     (if ex_sent X < ex_len X then
        case ex_data X of
          None \<Rightarrow> Inl undefined_behaviour
        | Some data \<Rightarrow>
            let newly_sent = min accepted (ex_len X - ex_sent X)
            in Inr (X\<lparr>ex_out := ex_out X @ take newly_sent (drop (ex_sent X) data),
                      ex_sent := ex_sent X + newly_sent\<rparr>)
      else Inr X)"

definition ex_to_receive :: "exchanger \<Rightarrow> nat" where
  "ex_to_receive X =
     (if ex_sent X = ex_len X \<or> \<not> ex_same X then ex_new_len X - ex_received X
      else if ex_received X < ex_sent X then ex_sent X - ex_received X
      else 0)"

text \<open>\<open>n\<close> bytes from the socket to the receiving buffer.\<close>

definition ex_take :: "nat \<Rightarrow> exchanger \<Rightarrow> exchanger" where
  "ex_take n X =
     X\<lparr>ex_buf := take (ex_received X) (ex_buf X) @ take n (ex_in X) @ drop (ex_received X + n) (ex_buf X),
       ex_in := drop n (ex_in X), ex_received := ex_received X + n\<rparr>"

definition exch_receive :: "bool \<Rightarrow> nat \<Rightarrow> exchanger \<Rightarrow> exchanger option" where
  "exch_receive block available X =
     (let to_receive = ex_to_receive X
      in if to_receive = 0 then Some X
         else if ex_sent X < ex_len X \<or> \<not> block then
           Some (ex_take (min (min available (length (ex_in X))) to_receive) X)
         else if length (ex_in X) < to_receive then None
         else Some (ex_take to_receive X))"

text \<open>\<open>receive_stream.resize(max(new_len, len))\<close>; a new allocation holds the contents of the stream.\<close>

definition ex_resize :: "nat \<Rightarrow> exchanger \<Rightarrow> exchanger" where
  "ex_resize l X =
     (if l < length (ex_buf X) then X
      else X\<lparr>ex_buf := take (min (ex_slen X) (2 * l)) (ex_buf X) @ replicate (2 * l - ex_slen X) 0, ex_stale := True\<rparr>)"

definition exch_receive_length :: "bool \<Rightarrow> nat \<Rightarrow> exchanger \<Rightarrow> exchanger io" where
  "exch_receive_length block available X =
     (let there = (if ex_sent X < ex_len X \<or> \<not> block then min available (length (ex_in X)) else length (ex_in X))
      in if there < LENGTH_SIZE then (if ex_sent X < ex_len X \<or> \<not> block then Some (Inr X) else None)
         else case decode_length (take LENGTH_SIZE (ex_in X)) LENGTH_SIZE of
                Inl e \<Rightarrow> Some (Inl e)
              | Inr new_len \<Rightarrow>
                  Some (Inr (ex_resize (max (unat new_len) (ex_len X))
                    (X\<lparr>ex_in := drop LENGTH_SIZE (ex_in X), ex_new_len := unat new_len, ex_length_received := True\<rparr>))))"

definition ex_more :: "exchanger \<Rightarrow> bool" where
  "ex_more X \<longleftrightarrow> ex_received X < ex_new_len X \<or> ex_sent X < ex_len X \<or> \<not> ex_length_received X"

definition exch_round :: "bool \<Rightarrow> nat \<Rightarrow> nat \<Rightarrow> exchanger \<Rightarrow> (bool \<times> exchanger) io" where
  "exch_round block accepted available X =
     bind_io (Some (exch_send accepted X)) (\<lambda>X.
     bind_io (if ex_received X < ex_new_len X then map_option Inr (exch_receive block available X)
              else if \<not> ex_length_received X then exch_receive_length block available X
              else Some (Inr X))
       (\<lambda>X. Some (Inr (ex_more X, X))))"

text \<open>
  \<open>while (exchanger.round())\<close>, over the choices of the operating system; \<open>None\<close> when they run out.
  The destructor leaves the message in the receiving stream.
\<close>

fun exch_loop :: "bool \<Rightarrow> (nat \<times> nat) list \<Rightarrow> exchanger \<Rightarrow> exchanger io" where
  "exch_loop block [] X = None"
| "exch_loop block ((accepted, available) # cs) X =
     bind_io (exch_round block accepted available X)
       (\<lambda>(more, X). if more then exch_loop block cs X else Some (Inr X))"

definition ex_result :: "exchanger \<Rightarrow> octet_stream \<Rightarrow> octet_stream" where
  "ex_result X os = os_reset_read_head (os\<lparr>os_data := take (ex_new_len X) (ex_buf X), os_mxlen := length (ex_buf X)\<rparr>)"

definition os_exchange :: "(nat \<times> nat) list \<Rightarrow> octet_stream \<Rightarrow> octet_stream \<Rightarrow> bool \<Rightarrow> octet list
    \<Rightarrow> octet list \<Rightarrow> octet list \<Rightarrow> (octet_stream \<times> octet list \<times> octet list) io" where
  "os_exchange cs send_stream receive_stream same buf out inp =
     bind_io (Some (exch_init send_stream receive_stream same buf out inp)) (\<lambda>X.
     bind_io (exch_loop True cs X) (\<lambda>X.
       Some (Inr (ex_result X receive_stream, ex_out X, ex_in X))))"

subsection \<open>The invariant\<close>

text \<open>
  \<open>msg\<close> is the message to send, \<open>peer\<close> the message of the other side, \<open>rest\<close> what comes behind it.
  In place, nothing not yet sent has been overwritten, provided that the allocation is large enough
  for both messages and that nothing follows a message of the other side that is shorter.
\<close>

definition exch_inv :: "octet list \<Rightarrow> octet list \<Rightarrow> octet list \<Rightarrow> octet list \<Rightarrow> exchanger \<Rightarrow> bool" where
  "exch_inv msg out peer rest X \<longleftrightarrow>
     ex_len X = length msg \<and> ex_sent X \<le> ex_len X \<and> ex_received X \<le> ex_new_len X \<and> ex_slen X \<le> length (ex_buf X)
     \<and> ex_out X = out @ le_bytes LENGTH_SIZE (length msg) @ take (ex_sent X) msg
     \<and> (if ex_length_received X
        then ex_new_len X = length peer \<and> length peer \<le> length (ex_buf X)
          \<and> ex_in X = drop (ex_received X) peer @ rest \<and> take (ex_received X) (ex_buf X) = take (ex_received X) peer
        else ex_new_len X = 0 \<and> ex_in X = le_bytes LENGTH_SIZE (length peer) @ peer @ rest)
     \<and> (if ex_same X
        then \<not> ex_stale X \<and> (length msg \<le> length peer \<or> rest = []) \<and> max (length peer) (length msg) < length (ex_buf X)
          \<and> (ex_sent X < ex_len X \<longrightarrow> ex_received X \<le> ex_sent X
              \<and> drop (ex_sent X) (take (length msg) (ex_buf X)) = drop (ex_sent X) msg)
        else ex_src X = msg)"

lemma drop_mono_eq: "drop m xs = drop m ys \<Longrightarrow> m \<le> n \<Longrightarrow> drop n xs = drop n ys"
  by (metis drop_drop le_add_diff_inverse2)

lemma exch_send_inv:
  assumes "exch_inv msg out peer rest X"
  shows "\<exists>X'. exch_send k X = Inr X' \<and> exch_inv msg out peer rest X'
    \<and> X' = X\<lparr>ex_out := ex_out X', ex_sent := min (ex_sent X + k) (ex_len X)\<rparr>"
proof (cases "ex_sent X < ex_len X")
  case False
  then have "ex_sent X = ex_len X" using assms by (simp add: exch_inv_def)
  with False assms show ?thesis by (auto simp: exch_send_def)
next
  case True
  define n where "n = min k (ex_len X - ex_sent X)"
  obtain data where data: "ex_data X = Some data" "drop (ex_sent X) (take (length msg) data) = drop (ex_sent X) msg"
  proof (cases "ex_same X")
    case same: True
    with assms True show ?thesis by (intro that [of "ex_buf X"]) (simp_all add: exch_inv_def ex_data_def)
  next
    case False
    with assms show ?thesis by (intro that [of msg]) (simp_all add: exch_inv_def ex_data_def)
  qed
  have n: "ex_sent X + n \<le> length msg" "ex_sent X + n = min (ex_sent X + k) (ex_len X)"
    using assms True by (simp_all add: exch_inv_def n_def)
  have "take n (drop (ex_sent X) data) = take n (drop (ex_sent X) (take (length msg) data))"
    unfolding drop_take using n(1) by (simp add: min_absorb1)
  then have bytes: "take n (drop (ex_sent X) data) = take n (drop (ex_sent X) msg)"
    by (simp only: data(2))
  let ?X = "X\<lparr>ex_out := ex_out X @ take n (drop (ex_sent X) data), ex_sent := ex_sent X + n\<rparr>"
  have "exch_send k X = Inr ?X" using True data(1) by (simp add: exch_send_def Let_def n_def)
  moreover have "exch_inv msg out peer rest ?X"
    using assms n(1) True unfolding bytes
    by (auto simp: exch_inv_def take_add intro: drop_mono_eq)
  ultimately show ?thesis using n(2) by auto
qed

lemma ex_take_inv:
  assumes X: "exch_inv msg out peer rest X" and L: "ex_length_received X"
    and n: "ex_received X + n \<le> length peer" "n \<le> ex_to_receive X"
  shows "exch_inv msg out peer rest (ex_take n X)"
proof -
  let ?r = "ex_received X" and ?b = "ex_buf X"
  have P: "ex_new_len X = length peer" "length peer \<le> length ?b" "ex_in X = drop ?r peer @ rest" "take ?r ?b = take ?r peer"
    using X L by (simp_all add: exch_inv_def)
  let ?b' = "take ?r ?b @ take n (ex_in X) @ drop (?r + n) ?b"
  have b': "?b' = take (?r + n) peer @ drop (?r + n) ?b"
    using P n(1) by (simp add: take_add)
  have same: "ex_received X + n \<le> ex_sent X \<and> drop (ex_sent X) (take (length msg) ?b') = drop (ex_sent X) msg"
    if "ex_same X" "ex_sent X < ex_len X"
  proof -
    have s: "?r \<le> ex_sent X" "drop (ex_sent X) (take (length msg) ?b) = drop (ex_sent X) msg"
      using X that by (simp_all add: exch_inv_def)
    have le: "?r + n \<le> ex_sent X"
      using n(2) that s(1) by (auto simp: ex_to_receive_def split: if_splits)
    have "drop (ex_sent X) ?b' = drop (ex_sent X) ?b"
      unfolding b' using le n(1) P(2) by simp
    then have "drop (ex_sent X) (take (length msg) ?b') = drop (ex_sent X) (take (length msg) ?b)"
      by (simp only: drop_take)
    then show ?thesis using le s(2) by simp
  qed
  have len: "length ?b' = length ?b" unfolding b' using n(1) P(2) by simp
  have "take (?r + n) ?b' = take (?r + n) peer" unfolding b' using n(1) by simp
  moreover have "drop n (ex_in X) = drop (?r + n) peer @ rest"
    using P(3) n(1) by (simp add: add.commute)
  ultimately show ?thesis
    using X L P(1) n(1) len same unfolding exch_inv_def ex_take_def by (auto split: if_splits)
qed

lemma ex_resize_inv:
  assumes X: "exch_inv msg out peer rest X" and L: "\<not> ex_length_received X" and short: "length peer < 2 ^ 32"
  shows "exch_inv msg out peer rest (ex_resize (max (length peer) (ex_len X))
    (X\<lparr>ex_in := peer @ rest, ex_new_len := length peer, ex_length_received := True\<rparr>))"
  using X L by (auto simp: exch_inv_def ex_resize_def)

subsection \<open>Every exchange ends\<close>

text \<open>The work left: bytes to send, bytes to receive, and the length field.\<close>

definition ex_measure :: "octet list \<Rightarrow> exchanger \<Rightarrow> nat" where
  "ex_measure peer X = (ex_len X - ex_sent X)
     + (if ex_length_received X then ex_new_len X - ex_received X else Suc (length peer))"

lemma exch_receive_inv:
  assumes X: "exch_inv msg out peer rest X" and L: "ex_length_received X" "ex_received X < ex_new_len X"
  shows "\<exists>X'. exch_receive True k X = Some X' \<and> exch_inv msg out peer rest X'
    \<and> ex_measure peer X' \<le> ex_measure peer X \<and> (ex_sent X = ex_len X \<longrightarrow> ex_measure peer X' < ex_measure peer X)"
proof -
  have P: "ex_new_len X = length peer" "ex_in X = drop (ex_received X) peer @ rest" "ex_sent X \<le> ex_len X" "ex_len X = length msg"
    using X L by (simp_all add: exch_inv_def)
  have take: "exch_inv msg out peer rest (ex_take n X)" "ex_measure peer (ex_take n X) = ex_measure peer X - n"
    if "ex_received X + n \<le> length peer" "n \<le> ex_to_receive X" for n
    using ex_take_inv [OF X L(1) that] that P(1) L(1) by (simp_all add: ex_measure_def ex_take_def)
  show ?thesis
  proof (cases "ex_sent X = ex_len X")
    case True
    then have t: "ex_to_receive X = length peer - ex_received X" by (simp add: ex_to_receive_def P)
    then have "exch_receive True k X = Some (ex_take (length peer - ex_received X) X)"
      using True P L by (simp add: exch_receive_def Let_def)
    moreover have "ex_measure peer X - (length peer - ex_received X) < ex_measure peer X"
      using L P(1) by (simp add: ex_measure_def)
    ultimately show ?thesis using take [of "length peer - ex_received X"] t L P(1) by auto
  next
    case False
    let ?n = "min (min k (length (ex_in X))) (ex_to_receive X)"
    have "ex_received X + ?n \<le> length peer"
    proof (cases "ex_same X \<and> rest \<noteq> []")
      case True
      then have "length msg \<le> length peer" using X by (auto simp: exch_inv_def)
      moreover have "ex_to_receive X \<le> ex_sent X - ex_received X"
        using True False by (auto simp: ex_to_receive_def)
      moreover have "ex_sent X < length msg" using False P by simp
      ultimately show ?thesis using L P(1) by linarith
    next
      case no: False
      show ?thesis
      proof (cases "ex_same X")
        case True
        then have "length (ex_in X) = length peer - ex_received X" using no P(2) by simp
        then show ?thesis using L P(1) by linarith
      next
        case different: False
        then have "ex_to_receive X = length peer - ex_received X" by (simp add: ex_to_receive_def P(1))
        then show ?thesis using L P(1) by linarith
      qed
    qed
    moreover have "exch_receive True k X = Some (if ex_to_receive X = 0 then X else ex_take ?n X)"
      using False P(3) by (simp add: exch_receive_def Let_def)
    ultimately show ?thesis using take [of ?n] X False by auto
  qed
qed

lemma exch_receive_length_inv:
  assumes X: "exch_inv msg out peer rest X" and L: "\<not> ex_length_received X" and short: "length peer < 2 ^ 32"
  shows "\<exists>X'. exch_receive_length True k X = Some (Inr X') \<and> exch_inv msg out peer rest X'
    \<and> ex_measure peer X' \<le> ex_measure peer X
    \<and> (ex_sent X = ex_len X \<longrightarrow> ex_measure peer X' < ex_measure peer X)"
proof -
  let ?Y = "ex_resize (max (length peer) (ex_len X))
    (X\<lparr>ex_in := peer @ rest, ex_new_len := length peer, ex_length_received := True\<rparr>)"
  have inp: "ex_in X = le_bytes LENGTH_SIZE (length peer) @ peer @ rest" using X L by (simp add: exch_inv_def)
  have r0: "ex_received X = 0" using X L by (simp add: exch_inv_def)
  have "decode_length (le_bytes LENGTH_SIZE (length peer)) LENGTH_SIZE = Inr (of_nat (length peer))"
    using short by (intro decode_length_encoded) (simp_all add: LENGTH_SIZE_def)
  moreover have "unat (of_nat (length peer) :: 64 word) = length peer"
    using short by (simp add: unat_of_nat)
  ultimately have step: "exch_receive_length True k X = (if ex_sent X < ex_len X \<and> min k (length (ex_in X)) < LENGTH_SIZE
      then Some (Inr X) else Some (Inr ?Y))"
    by (simp add: exch_receive_length_def Let_def inp)
  have "exch_inv msg out peer rest ?Y" by (rule ex_resize_inv [OF X L short])
  moreover have "ex_measure peer ?Y < ex_measure peer X"
    using L by (simp add: ex_measure_def ex_resize_def r0)
  ultimately show ?thesis using X unfolding step by auto
qed

lemma exch_round_inv:
  assumes X: "exch_inv msg out peer rest X" and short: "length peer < 2 ^ 32"
  shows "\<exists>X'. exch_round True k a X = Some (Inr (ex_more X', X')) \<and> exch_inv msg out peer rest X'
    \<and> ex_measure peer X' \<le> ex_measure peer X \<and> (0 < k \<longrightarrow> ex_more X \<longrightarrow> ex_measure peer X' < ex_measure peer X)"
proof -
  obtain X1 where X1: "exch_send k X = Inr X1" "exch_inv msg out peer rest X1"
    "X1 = X\<lparr>ex_out := ex_out X1, ex_sent := min (ex_sent X + k) (ex_len X)\<rparr>"
    using exch_send_inv [OF X] by blast
  have f: "ex_sent X1 = min (ex_sent X + k) (ex_len X)" "ex_len X1 = ex_len X" "ex_received X1 = ex_received X"
    "ex_new_len X1 = ex_new_len X" "ex_length_received X1 = ex_length_received X"
    by (subst X1(3), simp)+
  have m1: "ex_measure peer X1 \<le> ex_measure peer X" "0 < k \<longrightarrow> ex_sent X < ex_len X \<longrightarrow> ex_measure peer X1 < ex_measure peer X"
    using f by (auto simp: ex_measure_def)
  have s1: "ex_sent X1 \<le> ex_len X1" using X1(2) by (simp add: exch_inv_def)
  have len: "ex_received X1 < ex_new_len X1 \<longrightarrow> ex_length_received X1" using X1(2) by (auto simp: exch_inv_def split: if_splits)
  let ?step = "if ex_received X1 < ex_new_len X1 then map_option Inr (exch_receive True a X1)
              else if \<not> ex_length_received X1 then exch_receive_length True a X1 else Some (Inr X1)"
  have "\<exists>X'. ?step = Some (Inr X') \<and> exch_inv msg out peer rest X' \<and> ex_measure peer X' \<le> ex_measure peer X1
      \<and> ((ex_received X1 < ex_new_len X1 \<or> \<not> ex_length_received X1) \<longrightarrow> ex_sent X1 = ex_len X1 \<longrightarrow> ex_measure peer X' < ex_measure peer X1)"
  proof -
    consider "ex_received X1 < ex_new_len X1" | "\<not> ex_received X1 < ex_new_len X1" "\<not> ex_length_received X1"
      | "\<not> ex_received X1 < ex_new_len X1" "ex_length_received X1" by blast
    then show ?thesis
    proof cases
      case 1
      then show ?thesis using exch_receive_inv [OF X1(2), of a] len by auto
    next
      case 2
      then show ?thesis using exch_receive_length_inv [OF X1(2) _ short, of a] by auto
    next
      case 3
      then show ?thesis using X1(2) by auto
    qed
  qed
  then obtain X' where X': "?step = Some (Inr X')" "exch_inv msg out peer rest X'" "ex_measure peer X' \<le> ex_measure peer X1"
    "(ex_received X1 < ex_new_len X1 \<or> \<not> ex_length_received X1) \<longrightarrow> ex_sent X1 = ex_len X1 \<longrightarrow> ex_measure peer X' < ex_measure peer X1"
    by blast
  have "exch_round True k a X = bind_io ?step (\<lambda>X. Some (Inr (ex_more X, X)))"
    by (simp add: exch_round_def X1(1))
  then have "exch_round True k a X = Some (Inr (ex_more X', X'))" by (simp only: X'(1) bind_io.simps)
  moreover have "ex_measure peer X' < ex_measure peer X" if "0 < k" "ex_more X"
  proof (cases "ex_sent X < ex_len X")
    case True
    then show ?thesis using m1(2) that X'(3) by linarith
  next
    case False
    then have "ex_sent X1 = ex_len X1" using f X by (simp add: exch_inv_def)
    moreover have "ex_received X1 < ex_new_len X1 \<or> \<not> ex_length_received X1"
      using that(2) False f by (auto simp: ex_more_def)
    ultimately show ?thesis using X'(4) m1(1) by linarith
  qed
  ultimately show ?thesis using X' m1 by (meson le_trans)
qed

lemma exch_loop_inv:
  assumes "exch_inv msg out peer rest X" "length peer < 2 ^ 32" "list_all (\<lambda>(k, a). 0 < k) cs" "ex_measure peer X \<le> length cs" "ex_more X"
  shows "\<exists>X'. exch_loop True cs X = Some (Inr X') \<and> exch_inv msg out peer rest X' \<and> \<not> ex_more X'"
  using assms
proof (induction cs arbitrary: X)
  case Nil
  then show ?case by (auto simp: ex_measure_def ex_more_def exch_inv_def split: if_splits)
next
  case (Cons c cs)
  obtain k a where c: "c = (k, a)" by fastforce
  obtain X1 where X1: "exch_round True k a X = Some (Inr (ex_more X1, X1))" "exch_inv msg out peer rest X1"
    "ex_measure peer X1 < ex_measure peer X"
    using exch_round_inv [OF Cons.prems(1,2), of k a] Cons.prems(3,5) c by auto
  show ?case
  proof (cases "ex_more X1")
    case True
    then show ?thesis using X1 Cons.IH [OF X1(2) Cons.prems(2)] Cons.prems(3,4) c by auto
  next
    case False
    then show ?thesis using X1 c by auto
  qed
qed

lemma exch_done:
  assumes "exch_inv msg out peer rest X" "\<not> ex_more X"
  shows "ex_out X = out @ le_bytes LENGTH_SIZE (length msg) @ msg" "ex_in X = rest"
    "os_data (ex_result X os) = peer" "os_ptr (ex_result X os) = 0"
  using assms by (auto simp: exch_inv_def ex_more_def ex_result_def os_reset_read_head_def split: if_splits)

lemma exch_init_eq:
  assumes "bb_n (os_wbits os) = 0" "os_len os < 2 ^ 32"
  shows "exch_init os r same buf out inp = Inr \<lparr>ex_same = same, ex_stale = False, ex_src = os_data os, ex_buf = buf,
    ex_slen = os_len r, ex_in = inp, ex_out = out @ le_bytes LENGTH_SIZE (os_len os), ex_sent = 0, ex_received = 0,
    ex_length_received = False, ex_new_len = 0, ex_len = os_len os\<rparr>"
proof -
  have "unat (of_nat (os_len os) :: 64 word) = os_len os" using assms(2) by (simp add: unat_of_nat)
  then have "encode_length (of_nat (os_len os)) LENGTH_SIZE = Inr (le_bytes LENGTH_SIZE (os_len os))"
    using assms(2) encode_length_small [of LENGTH_SIZE "of_nat (os_len os)"] by (simp add: LENGTH_SIZE_def)
  with assms(1) show ?thesis by (simp add: exch_init_def os_get_data_def Let_def)
qed

subsection \<open>Properties\<close>

text \<open>C19: Exchanging messages always ends and delivers both: whatever part of a message the sockets accept and
  deliver in each round, as long as each send makes progress, after at most one round per byte and one for the length
  the peer has been sent the whole message, the receiving stream holds the peer's message, and nothing behind it has
  been read. In place this needs an allocation larger than both messages, and that nothing follows a shorter message
  of the peer.\<close>

theorem exchange_completes:
  assumes "bb_n (os_wbits os) = 0" "os_len os < 2 ^ 32" "length peer < 2 ^ 32" "os_len r \<le> length buf"
    and "list_all (\<lambda>(k, a). 0 < k) cs" "os_len os + Suc (length peer) \<le> length cs"
    and "same \<Longrightarrow> r = os \<and> take (os_len os) buf = os_data os \<and> max (length peer) (os_len os) < length buf
      \<and> (os_len os \<le> length peer \<or> rest = [])"
  shows "\<exists>os'. os_exchange cs os r same buf out (frame peer @ rest) = Some (Inr (os', out @ frame (os_data os), rest))
    \<and> os_data os' = peer \<and> os_ptr os' = 0"
proof -
  define X where "X = \<lparr>ex_same = same, ex_stale = False, ex_src = os_data os, ex_buf = buf,
    ex_slen = os_len r, ex_in = frame peer @ rest, ex_out = out @ le_bytes LENGTH_SIZE (os_len os), ex_sent = 0, ex_received = 0,
    ex_length_received = False, ex_new_len = 0, ex_len = os_len os\<rparr>"
  have X: "exch_init os r same buf out (frame peer @ rest) = Inr X"
    using exch_init_eq [OF assms(1,2)] by (simp add: X_def)
  have "exch_inv (os_data os) out peer rest X"
    using assms(4,7) by (auto simp: exch_inv_def X_def os_len_def frame_def)
  moreover have "ex_measure peer X \<le> length cs" "ex_more X"
    using assms(6) by (simp_all add: ex_measure_def X_def ex_more_def)
  ultimately obtain X' where X': "exch_loop True cs X = Some (Inr X')" "exch_inv (os_data os) out peer rest X'" "\<not> ex_more X'"
    using exch_loop_inv assms(3,5) by blast
  show ?thesis
    using exch_done [OF X'(2,3)] X'(1) unfolding os_exchange_def X by (simp add: frame_def)
qed

theorem exchange_completes_witness:
  "\<exists>os'. os_exchange [(1, 0), (2, 9), (1, 9), (5, 0), (1, 1), (1, 1)] (os_of_bytes [1, 2, 3]) (os_of_bytes [1, 2, 3]) True
      [1, 2, 3, 0, 0] [] (frame [7, 8] @ []) = Some (Inr (os', [] @ frame (os_data (os_of_bytes [1, 2, 3])), []))
    \<and> os_data os' = [7, 8] \<and> os_ptr os' = 0"
  by (rule exchange_completes) (simp_all add: os_of_bytes_def os_append_def os_append_bytes_def os_empty_def os_new_def os_len_def
      BitBuffer_def os_resize_def os_resize_precise_def)

text \<open>An exchange in place is unsafe when the allocation is not larger than both messages: if the first send is
  partial and the peer's length arrives, the stream is reallocated and the next round sends from the released memory.\<close>

theorem exchange_in_place_unsafe:
  assumes "bb_n (os_wbits os) = 0" "os_len os < 2 ^ 32" "length peer < 2 ^ 32"
    and "k < os_len os" "LENGTH_SIZE \<le> a" "length buf \<le> max (length peer) (os_len os)"
  shows "os_exchange ((k, a) # c # cs) os os True buf out (frame peer @ rest) = Some (Inl undefined_behaviour)"
proof -
  obtain k' a' where c: "c = (k', a')" by fastforce
  have "decode_length (le_bytes LENGTH_SIZE (length peer)) LENGTH_SIZE = Inr (of_nat (length peer))"
    using assms(3) by (intro decode_length_encoded) (simp_all add: LENGTH_SIZE_def)
  moreover have "unat (of_nat (length peer) :: 64 word) = length peer"
    using assms(3) by (simp add: unat_of_nat)
  moreover have "\<not> max (length peer) (os_len os) < length buf" using assms(6) by (simp only: not_less)
  moreover have "\<not> min a (LENGTH_SIZE + (length peer + length rest)) < LENGTH_SIZE" using assms(5) by simp
  ultimately show ?thesis
    unfolding os_exchange_def exch_init_eq [OF assms(1,2)] c
    using assms(4)
    by (simp add: exch_round_def exch_send_def ex_data_def exch_receive_length_def Let_def frame_def ex_resize_def ex_more_def
        del: max_less_iff_conj)
qed

theorem exchange_in_place_unsafe_witness:
  "os_exchange ((1, 4) # (1, 1) # []) (os_of_bytes [1, 2, 3]) (os_of_bytes [1, 2, 3]) True [1, 2, 3] [] (frame [4, 5, 6] @ [])
    = Some (Inl undefined_behaviour)"
  by (rule exchange_in_place_unsafe) (simp_all add: os_of_bytes_def os_append_def os_append_bytes_def os_empty_def os_new_def os_len_def
      BitBuffer_def os_resize_def os_resize_precise_def LENGTH_SIZE_def)

text \<open>In place, a shorter message of the peer followed by another one: the first byte of the length of the
  next message is taken for the end of the first.\<close>

lemma exchange_in_place_overread:
  assumes "os = os_of_bytes [1, 2, 3, 4]"
  shows "\<exists>os'. os_exchange [(2, 4), (1, 9), (1, 9)] os os True [1, 2, 3, 4, 0] [] (frame [7] @ frame [8, 9])
      = Some (Inr (os', frame [1, 2, 3, 4], drop 2 (frame [8, 9]))) \<and> os_data os' = [7]"
proof -
  have os: "bb_n (os_wbits os) = 0" "os_len os < 2 ^ 32" "os_len os = 4" "os_data os = [1, 2, 3, 4]"
    unfolding assms by (simp_all add: os_of_bytes_def os_append_def os_append_bytes_def os_empty_def os_new_def os_len_def
      BitBuffer_def os_resize_def os_resize_precise_def)
  have dec: "decode_length (le_bytes 4 (Suc 0)) 4 = Inr 1"
    using decode_length_encoded [of 4 1] by simp
  have four: "Suc (Suc (Suc (Suc 0))) = 4" by simp
  show ?thesis
    unfolding os_exchange_def exch_init_eq [OF os(1,2)] os(3,4)
    by (simp add: exch_round_def exch_send_def ex_data_def exch_receive_def exch_receive_length_def dec
        Let_def frame_def ex_resize_def ex_more_def ex_take_def ex_to_receive_def ex_result_def os_reset_read_head_def LENGTH_SIZE_def four
        numeral_2_eq_2)
qed

end
