(* ===== verification/Players.thy ===== *)
theory Players
  imports Exchanger
begin

section \<open>Players and broadcasts (Networking/Player)\<close>

text \<open>
  One party's side of the communication with all the others. What the other parties send is the
  argument \<open>rcv\<close>, one byte string for each of them; the exchange of two messages on a pair of
  sockets is \<open>Exchanger\<close>. Sockets, statistics and timers are not part of the state.
\<close>

subsection \<open>Numbering\<close>

text \<open>The remainder of C keeps the sign of the dividend.\<close>

definition c_rem :: "int \<Rightarrow> int \<Rightarrow> int" where
  "c_rem i n = sgn i * (\<bar>i\<bar> mod \<bar>n\<bar>)"

definition positive_modulo :: "int \<Rightarrow> int \<Rightarrow> int" where
  "positive_modulo i n = c_rem (c_rem i n + n) n"

lemma c_rem_mod: "c_rem i n mod n = i mod n"
proof (cases "i < 0")
  case True
  have "\<bar>i\<bar> mod \<bar>n\<bar> mod n = \<bar>i\<bar> mod n" by (simp add: mod_mod_cancel)
  then have "(- (\<bar>i\<bar> mod \<bar>n\<bar>)) mod n = (- \<bar>i\<bar>) mod n" by (metis mod_minus_eq)
  with True show ?thesis by (simp add: c_rem_def sgn_if)
next
  case False
  then show ?thesis by (cases "i = 0") (simp_all add: c_rem_def sgn_if mod_mod_cancel)
qed

lemma c_rem_nonneg: "0 \<le> i \<Longrightarrow> 0 < n \<Longrightarrow> c_rem i n = i mod n"
  by (cases "i = 0") (simp_all add: c_rem_def sgn_if)

lemma positive_modulo_mod: "0 < n \<Longrightarrow> positive_modulo i n = i mod n"
proof -
  assume n: "0 < n"
  have "\<bar>c_rem i n\<bar> < n" using n by (simp add: c_rem_def sgn_if abs_mult)
  then have "0 \<le> c_rem i n + n" by linarith
  then have "positive_modulo i n = (c_rem i n + n) mod n"
    using n unfolding positive_modulo_def by (intro c_rem_nonneg)
  then show ?thesis by (simp add: c_rem_mod)
qed

record player =
  pl_num :: nat
  pl_count :: nat
  pl_ctx :: "octet list"     \<comment> \<open>what the hash context of broadcasts has been fed\<close>

definition get_offset :: "player \<Rightarrow> nat \<Rightarrow> int" where
  "get_offset P other_player = positive_modulo (int other_player - int (pl_num P)) (int (pl_count P))"

definition get_player :: "player \<Rightarrow> int \<Rightarrow> nat" where
  "get_player P offset = nat (positive_modulo (offset + int (pl_num P)) (int (pl_count P)))"

lemma get_player_eq: "0 < pl_count P \<Longrightarrow> int (get_player P offset) = (offset + int (pl_num P)) mod int (pl_count P)"
  by (simp add: get_player_def positive_modulo_mod)

lemma get_player_less: "0 < pl_count P \<Longrightarrow> get_player P offset < pl_count P"
  by (simp add: get_player_def positive_modulo_mod nat_less_iff)

text \<open>Offsets name every other player exactly once.\<close>

lemma get_player_offset: "pl_num P < pl_count P \<Longrightarrow> i < pl_count P \<Longrightarrow> get_player P (get_offset P i) = i"
  by (simp add: get_player_def get_offset_def positive_modulo_mod mod_simps)

subsection \<open>Sending to all\<close>

text \<open>The messages sent, with their receivers, in order.\<close>

type_synonym outbox = "(nat \<times> octet_stream) list"

definition send_all :: "player \<Rightarrow> octet_stream \<Rightarrow> outbox" where
  "send_all P os = map (\<lambda>i. (i, os)) (filter (\<lambda>i. i \<noteq> pl_num P) [0..<pl_count P])"

definition send_relative_one :: "player \<Rightarrow> int \<Rightarrow> octet_stream \<Rightarrow> nat \<times> octet_stream" where
  "send_relative_one P offset os = (nat (positive_modulo (int (pl_num P) + offset) (int (pl_count P))), os)"

definition send_relative :: "player \<Rightarrow> octet_stream list \<Rightarrow> outbox result" where
  "send_relative P os =
     (if length os + 1 \<noteq> pl_count P then Inl assertion_failed
      else Inr (map (\<lambda>offset. send_relative_one P (int offset) (os ! (offset - 1))) [1..<pl_count P]))"

text \<open>A message that has arrived, in the stream it is received into.\<close>

definition os_arrive :: "octet_stream \<Rightarrow> octet list \<Rightarrow> octet_stream" where
  "os_arrive os bs = os_reset_read_head ((os_resize_min (length bs) ((os_reset_write_head os)\<lparr>os_data := []\<rparr>))\<lparr>os_data := bs\<rparr>)"

definition receive_all :: "player \<Rightarrow> (nat \<Rightarrow> octet list) \<Rightarrow> octet_stream list \<Rightarrow> octet_stream list" where
  "receive_all P rcv os = map (\<lambda>j. if j \<noteq> pl_num P then os_arrive (os ! j) (rcv j) else os ! j) [0..<pl_count P]"

definition receive_relative :: "player \<Rightarrow> (nat \<Rightarrow> octet list) \<Rightarrow> octet_stream list \<Rightarrow> octet_stream list result" where
  "receive_relative P rcv os =
     (if length os + 1 \<noteq> pl_count P then Inl assertion_failed
      else Inr (map (\<lambda>offset. os_arrive (os ! (offset - 1))
             (rcv (nat (positive_modulo (int (pl_num P) + int offset) (int (pl_count P)))))) [1..<pl_count P]))"

subsection \<open>Broadcasts\<close>

text \<open>A message received while sending \<open>src\<close>: the exchange resizes for the longer of the two.\<close>

definition os_exchanged :: "octet_stream \<Rightarrow> octet_stream \<Rightarrow> octet list \<Rightarrow> octet_stream" where
  "os_exchanged src os bs = os_reset_read_head ((os_resize (max (length bs) (os_len src)) os)\<lparr>os_data := bs\<rparr>)"

text \<open>Sending to the player at an offset and receiving from the one at the opposite offset.\<close>

definition pass_around :: "player \<Rightarrow> (nat \<Rightarrow> octet list) \<Rightarrow> octet_stream \<Rightarrow> octet_stream \<Rightarrow> int \<Rightarrow> octet_stream result" where
  "pass_around P rcv os to_receive offset =
     bind_result (os_get_data os) (\<lambda>_.
     bind_result (encode_length (of_nat (os_len os)) LENGTH_SIZE) (\<lambda>_.
       Inr (os_exchanged os to_receive (rcv (get_player P (- offset))))))"

definition receive_relative_one :: "player \<Rightarrow> (nat \<Rightarrow> octet list) \<Rightarrow> int \<Rightarrow> octet_stream \<Rightarrow> octet_stream" where
  "receive_relative_one P rcv offset os =
     os_arrive os (rcv (nat (positive_modulo (int (pl_num P) + offset) (int (pl_count P)))))"

definition Broadcast_Receive_no_stats ::
  "player \<Rightarrow> (nat \<Rightarrow> octet list) \<Rightarrow> octet_stream list \<Rightarrow> octet_stream list result" where
  "Broadcast_Receive_no_stats P rcv os =
     (if length os \<noteq> pl_count P then Inl (runtime_error ''player numbers don't match'')
      else if pl_count P \<le> 1 then Inr os
      else let mine = os ! pl_num P
           in bind_result (os_get_data mine) (\<lambda>_.
              bind_result (encode_length (of_nat (os_len mine)) LENGTH_SIZE) (\<lambda>_.
                Inr (map (\<lambda>i. if i = pl_num P then mine else os_exchanged mine (os ! i) (rcv i)) [0..<pl_count P]))))"

definition unchecked_broadcast ::
  "player \<Rightarrow> (nat \<Rightarrow> octet list) \<Rightarrow> octet_stream list \<Rightarrow> octet_stream list result" where
  "unchecked_broadcast P rcv os = Broadcast_Receive_no_stats P rcv os"

text \<open>\<open>Broadcast_Receive\<close> also feeds every message to the hash context.\<close>

definition Broadcast_Receive ::
  "player \<Rightarrow> (nat \<Rightarrow> octet list) \<Rightarrow> octet_stream list \<Rightarrow> (octet_stream list \<times> player) result" where
  "Broadcast_Receive P rcv os =
     bind_result (unchecked_broadcast P rcv os) (\<lambda>os.
     bind_result (foldM_result (\<lambda>o' ctx. bind_result (os_get_data o') (\<lambda>bs. Inr (ctx @ bs))) os (pl_ctx P)) (\<lambda>ctx.
       Inr (os, P\<lparr>pl_ctx := ctx\<rparr>)))"

text \<open>
  \<open>Check_Broadcast\<close>: the parties compare the hashes of everything broadcast since the last check.
  The count of bytes hashed has 32 bits; the check is skipped when it is 0.
\<close>

definition Check_Broadcast ::
  "(octet list \<Rightarrow> octet list) \<Rightarrow> player \<Rightarrow> (nat \<Rightarrow> octet list) \<Rightarrow> player result" where
  "Check_Broadcast H P rcv =
     (if (of_nat (length (pl_ctx P)) :: 32 word) = 0 then Inr P
      else
        let h = (replicate (pl_count P) os_empty)[pl_num P := os_concat os_empty (os_of_bytes (H (pl_ctx P)))]
        in bind_result (unchecked_broadcast P rcv h) (\<lambda>h.
             if list_all (\<lambda>i. i \<noteq> pl_num P \<longrightarrow> os_equals (h ! i) (h ! pl_num P)) [0..<pl_count P]
             then Inr (P\<lparr>pl_ctx := []\<rparr>) else Inl broadcast_invalid))"

text \<open>\<open>send_receive_all\<close>: \<open>channels ! i ! j\<close> tells whether \<open>i\<close> sends to \<open>j\<close>.\<close>

definition send_receive_step ::
  "player \<Rightarrow> bool list list \<Rightarrow> octet_stream list \<Rightarrow> (nat \<Rightarrow> octet list) \<Rightarrow> nat
    \<Rightarrow> outbox \<times> octet_stream list \<Rightarrow> outbox \<times> octet_stream list" where
  "send_receive_step P channels to_send rcv offset s =
     (let (sent, to_receive) = s;
          receive_from = get_player P (- int offset);
          send_to = get_player P (int offset);
          receive = channels ! receive_from ! pl_num P
      in if channels ! pl_num P ! send_to then
           (sent @ [(send_to, to_send ! send_to)],
            if receive then to_receive[receive_from := os_exchanged (to_send ! send_to) (to_receive ! receive_from) (rcv receive_from)]
            else to_receive)
         else if receive then (sent, to_receive[receive_from := os_arrive (to_receive ! receive_from) (rcv receive_from)])
         else (sent, to_receive))"

definition send_receive_all ::
  "player \<Rightarrow> bool list list \<Rightarrow> octet_stream list \<Rightarrow> (nat \<Rightarrow> octet list) \<Rightarrow> octet_stream list \<Rightarrow> outbox \<times> octet_stream list" where
  "send_receive_all P channels to_send rcv to_receive =
     fold (send_receive_step P channels to_send rcv) [1..<pl_count P]
       ([], take (pl_count P) to_receive @ replicate (pl_count P - length to_receive) os_empty)"

text \<open>Two players: \<open>os[0]\<close> is sent, \<open>os[1]\<close> received.\<close>

definition send_receive_player :: "octet list \<Rightarrow> octet_stream list \<Rightarrow> octet_stream list" where
  "send_receive_player rcv os = [os ! 0, os_exchanged (os ! 0) (os ! 1) rcv]"

definition TwoParty_Broadcast_Receive :: "nat \<Rightarrow> octet list \<Rightarrow> octet_stream list \<Rightarrow> octet_stream list" where
  "TwoParty_Broadcast_Receive me rcv os =
     (let os2 = send_receive_player rcv [os ! me, os_empty] in os[1 - me := os2 ! 1])"

subsection \<open>What a broadcast delivers\<close>

lemma os_exchanged_simps [simp]:
  "os_data (os_exchanged s os bs) = bs" "os_ptr (os_exchanged s os bs) = 0" "os_len (os_exchanged s os bs) = length bs"
  by (simp_all add: os_exchanged_def os_reset_read_head_def os_len_def)

lemma os_exchanged_bits [simp]: "os_wbits (os_exchanged s os bs) = os_wbits os"
  by (simp add: os_exchanged_def os_reset_read_head_def os_resize_def os_resize_precise_def Let_def)

lemma encode_length_ok: "n < 2 ^ 32 \<Longrightarrow> encode_length (of_nat n) LENGTH_SIZE = Inr (le_bytes LENGTH_SIZE n)"
  using encode_length_small [of LENGTH_SIZE "of_nat n"] by (simp add: LENGTH_SIZE_def unat_of_nat)

lemma Broadcast_Receive_no_stats_ok:
  assumes "length os = pl_count P" "pl_num P < pl_count P" "bb_n (os_wbits (os ! pl_num P)) = 0" "os_len (os ! pl_num P) < 2 ^ 32"
  shows "\<exists>os'. Broadcast_Receive_no_stats P rcv os = Inr os' \<and> length os' = pl_count P \<and> os' ! pl_num P = os ! pl_num P
    \<and> (\<forall>i<pl_count P. i \<noteq> pl_num P \<longrightarrow> os_data (os' ! i) = rcv i \<and> os_ptr (os' ! i) = 0 \<and> os_wbits (os' ! i) = os_wbits (os ! i)
        \<and> os' ! i = os_exchanged (os ! pl_num P) (os ! i) (rcv i))"
proof (cases "pl_count P \<le> 1")
  case True
  then show ?thesis using assms by (auto simp: Broadcast_Receive_no_stats_def)
next
  case False
  then show ?thesis
    using assms encode_length_ok [of "os_len (os ! pl_num P)"]
    by (auto simp: Broadcast_Receive_no_stats_def Let_def os_get_data_def)
qed

lemma foldM_get_data:
  "list_all (\<lambda>o'. bb_n (os_wbits o') = 0) os \<Longrightarrow>
    foldM_result (\<lambda>o' ctx. bind_result (os_get_data o') (\<lambda>bs. Inr (ctx @ bs))) os c = Inr (c @ concat (map os_data os))"
  by (induction os arbitrary: c) (simp_all add: os_get_data_def)

lemma Broadcast_Receive_ok:
  assumes "length os = pl_count P" "pl_num P < pl_count P" "list_all (\<lambda>o'. bb_n (os_wbits o') = 0) os"
    "os_len (os ! pl_num P) < 2 ^ 32"
  shows "\<exists>os'. Broadcast_Receive P rcv os = Inr (os', P\<lparr>pl_ctx := pl_ctx P @ concat (map os_data os')\<rparr>)
    \<and> length os' = pl_count P \<and> os' ! pl_num P = os ! pl_num P \<and> list_all (\<lambda>o'. bb_n (os_wbits o') = 0) os'
    \<and> (\<forall>i<pl_count P. i \<noteq> pl_num P \<longrightarrow> os_data (os' ! i) = rcv i \<and> os_ptr (os' ! i) = 0)"
proof -
  have mine: "bb_n (os_wbits (os ! pl_num P)) = 0" using assms by (simp add: list_all_length)
  obtain os' where os': "Broadcast_Receive_no_stats P rcv os = Inr os'" "length os' = pl_count P" "os' ! pl_num P = os ! pl_num P"
    "\<forall>i<pl_count P. i \<noteq> pl_num P \<longrightarrow> os_data (os' ! i) = rcv i \<and> os_ptr (os' ! i) = 0 \<and> os_wbits (os' ! i) = os_wbits (os ! i)"
    using Broadcast_Receive_no_stats_ok [OF assms(1,2) mine assms(4), of rcv] by blast
  have bits: "list_all (\<lambda>o'. bb_n (os_wbits o') = 0) os'"
    unfolding list_all_length
  proof (intro allI impI)
    fix i assume "i < length os'"
    then show "bb_n (os_wbits (os' ! i)) = 0"
      using os' assms mine by (cases "i = pl_num P") (simp_all add: list_all_length)
  qed
  then show ?thesis
    using os' foldM_get_data [OF bits] by (auto simp: Broadcast_Receive_def unchecked_broadcast_def)
qed

lemma pass_around_ok:
  "bb_n (os_wbits os) = 0 \<Longrightarrow> os_len os < 2 ^ 32 \<Longrightarrow>
    pass_around P rcv os to_receive offset = Inr (os_exchanged os to_receive (rcv (get_player P (- offset))))"
  by (simp add: pass_around_def os_get_data_def encode_length_ok)

end
