(* ===== verification/Commit.thy ===== *)
theory Commit
  imports Players
begin

section \<open>Commitments (Tools/Commit, Tools/Subroutines)\<close>

text \<open>
  The hash-based commitment scheme and the protocols on it: committing and opening vectors of
  streams, the shared random seed, the shared random value, the challenge. The hash functions of
  libsodium are the argument \<open>H\<close>, random bytes of the operating system are the arguments
  \<open>rnd\<close> and \<open>entropy\<close>. Everything here is one party's side; \<open>rcv\<close> is what the other parties send
  in a round.
\<close>

type_synonym hash = "octet list \<Rightarrow> octet list"

definition generichash_BYTES_MIN :: nat where
  "generichash_BYTES_MIN = 16"

text \<open>\<open>octetStream::hash\<close>: a fresh stream of the length of the hash.\<close>

definition os_hash :: "hash \<Rightarrow> octet_stream \<Rightarrow> octet_stream" where
  "os_hash H os = (os_new generichash_BYTES_MIN)\<lparr>os_data := H (os_data os)\<rparr>"

definition os_append_random :: "octet list \<Rightarrow> octet_stream \<Rightarrow> nat \<Rightarrow> octet_stream" where
  "os_append_random rnd os num = os_append os (take num rnd)"

subsection \<open>Commit and Open\<close>

text \<open>The commitment and the opening; the latter is appended to the argument \<open>opn\<close>.\<close>

definition Commit :: "hash \<Rightarrow> octet list \<Rightarrow> octet_stream \<Rightarrow> octet_stream \<Rightarrow> 32 word \<Rightarrow> (octet_stream \<times> octet_stream) result" where
  "Commit H rnd opn message send_player =
     bind_result (os_store_signed opn send_player) (\<lambda>opn.
     bind_result (os_get_data message) (\<lambda>bytes.
       let opn = os_append opn bytes;
           opn = os_append_random rnd opn SEED_SIZE
       in Inr (os_hash H opn, opn)))"

definition BYTES_TO_INT :: "octet list \<Rightarrow> 32 word" where
  "BYTES_TO_INT buff =
     ucast (buff ! 0) + 256 * ucast (buff ! 1) + 65536 * ucast (buff ! 2) + 16777216 * ucast (buff ! 3)"

text \<open>
  An opening shorter than the player number is read outside its contents; one shorter than the
  number and the random bytes makes the length of the message wrap around.
\<close>

definition Open :: "hash \<Rightarrow> octet_stream \<Rightarrow> octet_stream \<Rightarrow> octet_stream \<Rightarrow> 32 word \<Rightarrow> (bool \<times> octet_stream) result" where
  "Open H message comm opn send_player =
     bind_result (os_get_data opn) (\<lambda>open_bytes.
       if length open_bytes < 4 then Inl undefined_behaviour
       else if \<not> (os_equals (os_hash H opn) comm \<and> BYTES_TO_INT open_bytes = send_player) then Inr (False, message)
       else if os_len opn < SEED_SIZE + 4 then Inl undefined_behaviour
       else Inr (True, os_append (os_reset_write_head message) (take (os_len opn - SEED_SIZE - 4) (drop 4 open_bytes))))"

text \<open>\<open>Open\<close>, with \<open>throw invalid_commitment()\<close> where it returns false.\<close>

definition Open_or_throw :: "hash \<Rightarrow> octet_stream \<Rightarrow> octet_stream \<Rightarrow> octet_stream \<Rightarrow> nat \<Rightarrow> octet_stream result" where
  "Open_or_throw H message comm opn i =
     bind_result (Open H message comm opn (of_nat i)) (\<lambda>(ok, message). if ok then Inr message else Inl invalid_commitment)"

subsection \<open>Commitment, AllCommitments\<close>

record commitment =
  cm_send_player :: "32 word"
  cm_comm :: octet_stream
  cm_open :: octet_stream

definition commitment_commit_with :: "hash \<Rightarrow> commitment \<Rightarrow> octet_stream \<Rightarrow> octet_stream \<Rightarrow> commitment result" where
  "commitment_commit_with H C message opn =
     bind_result (os_get_data message) (\<lambda>m. bind_result (os_get_data opn) (\<lambda>r.
       Inr (C\<lparr>cm_comm := os_append (os_reset_write_head (os_resize_precise 32 (cm_comm C)))
               (H (le_bytes 4 (unat (cm_send_player C)) @ m @ r))\<rparr>)))"

definition commitment_commit :: "hash \<Rightarrow> octet list \<Rightarrow> commitment \<Rightarrow> octet_stream \<Rightarrow> commitment result" where
  "commitment_commit H rnd C message =
     (let opn = os_append_random rnd (os_reset_write_head (cm_open C)) SEED_SIZE
      in commitment_commit_with H (C\<lparr>cm_open := opn\<rparr>) message opn)"

definition commitment_check :: "hash \<Rightarrow> commitment \<Rightarrow> octet_stream \<Rightarrow> octet_stream \<Rightarrow> octet_stream \<Rightarrow> commitment result" where
  "commitment_check H C message comm opn =
     bind_result (commitment_commit_with H C message opn)
       (\<lambda>C. if os_equals comm (cm_comm C) then Inr C else Inl invalid_commitment)"

record all_commitments =
  ac_player :: player
  ac_comms :: "octet_stream list"
  ac_opens :: "octet_stream list"
  ac_messages :: "octet_stream list"

definition all_commitments_new :: "player \<Rightarrow> all_commitments" where
  "all_commitments_new P = \<lparr>ac_player = P, ac_comms = replicate (pl_count P) os_empty,
     ac_opens = replicate (pl_count P) os_empty, ac_messages = []\<rparr>"

definition all_commit :: "hash \<Rightarrow> octet list \<Rightarrow> (nat \<Rightarrow> octet list) \<Rightarrow> octet_stream \<Rightarrow> all_commitments \<Rightarrow> all_commitments result" where
  "all_commit H rnd rcv message A =
     (let me = pl_num (ac_player A)
      in bind_result (commitment_commit H rnd \<lparr>cm_send_player = of_nat me, cm_comm = os_empty, cm_open = os_empty\<rparr> message) (\<lambda>mine.
         bind_result (Broadcast_Receive (ac_player A) rcv ((ac_comms A)[me := cm_comm mine])) (\<lambda>(comms, P).
           Inr (A\<lparr>ac_player := P, ac_comms := comms, ac_opens := (ac_opens A)[me := cm_open mine]\<rparr>))))"

definition all_open :: "(nat \<Rightarrow> octet list) \<Rightarrow> all_commitments \<Rightarrow> all_commitments result" where
  "all_open rcv A =
     bind_result (Broadcast_Receive (ac_player A) rcv (ac_opens A)) (\<lambda>(opens, P).
       Inr (A\<lparr>ac_player := P, ac_opens := opens\<rparr>))"

definition all_commit_and_open ::
  "hash \<Rightarrow> octet list \<Rightarrow> (nat \<Rightarrow> octet list) \<Rightarrow> (nat \<Rightarrow> octet list) \<Rightarrow> octet_stream \<Rightarrow> all_commitments \<Rightarrow> all_commitments result" where
  "all_commit_and_open H rnd rcv1 rcv2 message A = bind_result (all_commit H rnd rcv1 message A) (all_open rcv2)"

definition all_check :: "hash \<Rightarrow> nat \<Rightarrow> octet_stream \<Rightarrow> all_commitments \<Rightarrow> all_commitments result" where
  "all_check H player message A =
     bind_result (commitment_check H \<lparr>cm_send_player = of_nat player, cm_comm = os_empty, cm_open = os_empty\<rparr>
         message (ac_comms A ! player) (ac_opens A ! player)) (\<lambda>_. Inr A)"

definition all_check_relative :: "hash \<Rightarrow> nat \<Rightarrow> octet_stream \<Rightarrow> all_commitments \<Rightarrow> all_commitments result" where
  "all_check_relative H diff message A =
     (let P = ac_player A in all_check H ((pl_num P + pl_count P - diff) mod pl_count P) message A)"

text \<open>
  Opening with the messages: the loop that checks them is \<open>for (int i = 0; i != P.my_num(); i++)\<close>.
\<close>

definition all_open_message ::
  "hash \<Rightarrow> (nat \<Rightarrow> octet list) \<Rightarrow> (nat \<Rightarrow> octet list) \<Rightarrow> octet_stream \<Rightarrow> all_commitments \<Rightarrow> all_commitments result" where
  "all_open_message H rcvm rcvo message A =
     (let P = ac_player A;
          messages = (take (pl_count P) (ac_messages A) @ replicate (pl_count P - length (ac_messages A)) os_empty)[pl_num P := message]
      in bind_result (Broadcast_Receive P rcvm messages) (\<lambda>(messages, P).
         bind_result (all_open rcvo (A\<lparr>ac_player := P, ac_messages := messages\<rparr>)) (\<lambda>A.
           foldM_result (\<lambda>i A. all_check H i (ac_messages A ! i) A) [0..<pl_num P] A)))"

subsection \<open>Commit and open among all parties\<close>

definition own_slot :: "player \<Rightarrow> octet_stream \<Rightarrow> octet_stream list" where
  "own_slot P os = (replicate (pl_count P) os_empty)[pl_num P := os]"

text \<open>What every protocol below starts with: commit, exchange the commitments, exchange the openings.\<close>

definition commit_round ::
  "hash \<Rightarrow> octet list \<Rightarrow> (nat \<Rightarrow> octet list) \<Rightarrow> (nat \<Rightarrow> octet list) \<Rightarrow> octet_stream \<Rightarrow> player
    \<Rightarrow> (octet_stream list \<times> octet_stream list \<times> player) result" where
  "commit_round H rnd rcvc rcvo message P =
     bind_result (Commit H rnd os_empty message (of_nat (pl_num P))) (\<lambda>(comm, opn).
     bind_result (Broadcast_Receive P rcvc (own_slot P comm)) (\<lambda>(Comm_data, P).
     bind_result (Broadcast_Receive P rcvo (own_slot P opn)) (\<lambda>(Open_data, P).
       Inr (Comm_data, Open_data, P))))"

text \<open>Opening the data of every other party, in order.\<close>

definition open_others :: "hash \<Rightarrow> player \<Rightarrow> octet_stream list \<Rightarrow> octet_stream list \<Rightarrow> octet_stream list \<Rightarrow> octet_stream list result" where
  "open_others H P Comm_data Open_data datas =
     foldM_result (\<lambda>i datas. if i \<noteq> pl_num P
         then bind_result (Open_or_throw H (datas ! i) (Comm_data ! i) (Open_data ! i) i) (\<lambda>m. Inr (datas[i := m]))
         else Inr datas) [0..<pl_count P] datas"

text \<open>The coordinator only orders concurrent threads.\<close>

definition Commit_And_Open_streams ::
  "hash \<Rightarrow> octet list \<Rightarrow> (nat \<Rightarrow> octet list) \<Rightarrow> (nat \<Rightarrow> octet list) \<Rightarrow> player \<Rightarrow> octet_stream list
    \<Rightarrow> (octet_stream list \<times> player) result" where
  "Commit_And_Open_streams H rnd rcvc rcvo P datas =
     bind_result (commit_round H rnd rcvc rcvo (datas ! pl_num P) P) (\<lambda>(Comm_data, Open_data, P).
     bind_result (open_others H P Comm_data Open_data datas) (\<lambda>datas. Inr (datas, P)))"

text \<open>The version for values of any type with \<open>pack\<close> and \<open>unpack\<close>: each value replaces the own one too.\<close>

definition Commit_And_Open ::
  "(octet_stream \<Rightarrow> 'a \<Rightarrow> octet_stream result) \<Rightarrow> (octet_stream \<Rightarrow> ('a \<times> octet_stream) result) \<Rightarrow> hash \<Rightarrow> octet list
    \<Rightarrow> (nat \<Rightarrow> octet list) \<Rightarrow> (nat \<Rightarrow> octet list) \<Rightarrow> player \<Rightarrow> 'a \<Rightarrow> ('a list \<times> player) result" where
  "Commit_And_Open pack unpack H rnd rcvc rcvo P mine =
     bind_result (pack os_empty mine) (\<lambda>os.
     bind_result (Commit_And_Open_streams H rnd rcvc rcvo P (own_slot P os)) (\<lambda>(datas, P).
     bind_result (foldM_result (\<lambda>i data. bind_result (unpack (datas ! i)) (\<lambda>(v, _). Inr (data @ [v]))) [0..<pl_count P] [])
       (\<lambda>data. Inr (data, P))))"

subsection \<open>The vector versions\<close>

text \<open>\<open>num_runs\<close> commitments in a row; \<open>rcv i\<close> is what arrives in run \<open>i\<close>.\<close>

definition Commit_runs ::
  "hash \<Rightarrow> (nat \<Rightarrow> octet list) \<Rightarrow> (nat \<Rightarrow> nat \<Rightarrow> octet list) \<Rightarrow> octet_stream list \<Rightarrow> player \<Rightarrow> nat
    \<Rightarrow> octet_stream list list \<times> octet_stream list
    \<Rightarrow> ((octet_stream list list \<times> octet_stream list) \<times> player) result" where
  "Commit_runs H rnd rcv data P num_runs s =
     foldM_result (\<lambda>i ((Comm_data, Open_data), P).
         bind_result (Commit H (rnd i) (Open_data ! i) (data ! i) (of_nat (pl_num P))) (\<lambda>(comm, opn).
         bind_result (Broadcast_Receive P (rcv i)
             ((take (pl_count P) (Comm_data ! i) @ replicate (pl_count P - length (Comm_data ! i)) os_empty)[pl_num P := comm])) (\<lambda>(comms, P).
           Inr ((Comm_data[i := comms], Open_data[i := opn]), P)))) [0..<num_runs] (s, P)"

text \<open>
  Opening the runs that \<open>wanted\<close> names, all but \<open>dont\<close> or those flagged by \<open>open\<close>. The vector of openings is
  kept from run to run.
\<close>

definition Open_runs ::
  "hash \<Rightarrow> (nat \<Rightarrow> bool) \<Rightarrow> (nat \<Rightarrow> nat \<Rightarrow> octet list) \<Rightarrow> octet_stream list list \<Rightarrow> octet_stream list \<Rightarrow> player \<Rightarrow> nat
    \<Rightarrow> octet_stream list list \<Rightarrow> (octet_stream list list \<times> player) result" where
  "Open_runs H wanted rcv Comm_data My_Open_data P num_runs data =
     bind_result (foldM_result (\<lambda>i (data, Open_data, P).
         if wanted i then
           bind_result (Broadcast_Receive P (rcv i) (Open_data[pl_num P := My_Open_data ! i])) (\<lambda>(Open_data, P).
           bind_result (open_others H P (Comm_data ! i) Open_data (data ! i)) (\<lambda>di.
             Inr (data[i := di], Open_data, P)))
         else Inr (data, Open_data, P)) [0..<num_runs] (data, replicate (pl_count P) os_empty, P))
       (\<lambda>(data, _, P). Inr (data, P))"

definition Open_dont ::
  "hash \<Rightarrow> int \<Rightarrow> (nat \<Rightarrow> nat \<Rightarrow> octet list) \<Rightarrow> octet_stream list list \<Rightarrow> octet_stream list \<Rightarrow> player \<Rightarrow> nat
    \<Rightarrow> octet_stream list list \<Rightarrow> (octet_stream list list \<times> player) result" where
  "Open_dont H dont = Open_runs H (\<lambda>i. int i \<noteq> dont)"

definition Open_flagged ::
  "hash \<Rightarrow> int list \<Rightarrow> (nat \<Rightarrow> nat \<Rightarrow> octet list) \<Rightarrow> octet_stream list list \<Rightarrow> octet_stream list \<Rightarrow> player \<Rightarrow> nat
    \<Rightarrow> octet_stream list list \<Rightarrow> (octet_stream list list \<times> player) result" where
  "Open_flagged H open_flags = Open_runs H (\<lambda>i. open_flags ! i = 1)"

subsection \<open>Challenge, seed and random value\<close>

text \<open>Each party draws a number below \<open>num_runs\<close> and commits to it; the challenge is the sum of all, modulo \<open>num_runs\<close>.\<close>

definition Commit_To_Challenge ::
  "hash \<Rightarrow> octet list \<Rightarrow> (nat \<Rightarrow> octet list) \<Rightarrow> player \<Rightarrow> 32 word
    \<Rightarrow> (32 word list \<times> octet_stream list \<times> octet_stream list \<times> player) result" where
  "Commit_To_Challenge H rnd rcv P e_mine =
     bind_result (os_store_uint os_empty e_mine) (\<lambda>ee.
     bind_result (Commit H rnd os_empty ee (of_nat (pl_num P))) (\<lambda>(comm, opn).
     bind_result (Broadcast_Receive P rcv (own_slot P comm)) (\<lambda>(Comm_e, P).
       Inr ((replicate (pl_count P) 0)[pl_num P := e_mine], Comm_e, own_slot P opn, P))))"

text \<open>\<open>ee\<close> is one stream for all parties; \<open>int\<close> arithmetic wraps like the unsigned operands it is mixed with.\<close>

definition Open_Challenge ::
  "hash \<Rightarrow> (nat \<Rightarrow> octet list) \<Rightarrow> 32 word list \<Rightarrow> octet_stream list \<Rightarrow> octet_stream list \<Rightarrow> player \<Rightarrow> 32 word
    \<Rightarrow> (32 word \<times> 32 word list \<times> octet_stream list \<times> player) result" where
  "Open_Challenge H rcv e Open_e Comm_e P num_runs =
     bind_result (Broadcast_Receive P rcv Open_e) (\<lambda>(Open_e, P).
     bind_result (foldM_result (\<lambda>i (challenge, ee, e).
         bind_result
           (if i \<noteq> pl_num P then
              bind_result (Open_or_throw H ee (Comm_e ! i) (Open_e ! i) i) (\<lambda>ee.
              bind_result (os_get_uint ee) (\<lambda>(v, ee). Inr (ee, e[i := v])))
            else Inr (ee, e))
           (\<lambda>(ee, e). Inr (challenge + e ! i, ee, e))) [0..<pl_count P] (0, os_empty, e))
       (\<lambda>(challenge, _, e). if num_runs = 0 then Inl undefined_behaviour
          else Inr (word_of_int (c_rem (sint challenge) (sint num_runs)), e, Open_e, P)))"

text \<open>\<open>get_octetStream\<close> of the generator.\<close>

fun prng_get_uchars :: "block_cipher \<Rightarrow> nat \<Rightarrow> nat \<Rightarrow> prng \<Rightarrow> (octet list \<times> prng) result" where
  "prng_get_uchars E pl 0 G = Inr ([], G)"
| "prng_get_uchars E pl (Suc n) G =
     bind_result (prng_get_uchar E pl G) (\<lambda>(b, G).
     bind_result (prng_get_uchars E pl n G) (\<lambda>(bs, G). Inr (b # bs, G)))"

definition prng_get_octetStream :: "block_cipher \<Rightarrow> nat \<Rightarrow> octet_stream \<Rightarrow> nat \<Rightarrow> prng \<Rightarrow> (octet_stream \<times> prng) result" where
  "prng_get_octetStream E pl ans len G =
     bind_result (prng_get_uchars E pl len G) (\<lambda>(bs, G).
       Inr ((os_resize len ans)\<lparr>os_data := bs, os_ptr := 0\<rparr>, G))"

text \<open>
  \<open>Create_Random_Seed\<close> from the own contribution \<open>mine\<close>. A contribution shorter than the seed is read
  outside its contents.
\<close>

definition seed_step :: "hash \<Rightarrow> player \<Rightarrow> nat \<Rightarrow> octet_stream \<Rightarrow> octet_stream list \<Rightarrow> octet_stream list \<Rightarrow> nat \<Rightarrow> octet list
    \<Rightarrow> octet list result" where
  "seed_step H P len mine Comm_e Open_e i seed =
     bind_result (if i \<noteq> pl_num P then Open_or_throw H os_empty (Comm_e ! i) (Open_e ! i) i else Inr mine) (\<lambda>e.
     bind_result (os_get_data e) (\<lambda>bytes.
       if length bytes < len then Inl undefined_behaviour else Inr (map2 (XOR) seed (take len bytes))))"

definition Create_Random_Seed_with ::
  "hash \<Rightarrow> octet list \<Rightarrow> (nat \<Rightarrow> octet list) \<Rightarrow> (nat \<Rightarrow> octet list) \<Rightarrow> octet_stream \<Rightarrow> player \<Rightarrow> nat
    \<Rightarrow> (octet list \<times> player) result" where
  "Create_Random_Seed_with H rnd rcvc rcvo mine P len =
     bind_result (commit_round H rnd rcvc rcvo mine P) (\<lambda>(Comm_e, Open_e, P).
     bind_result (foldM_result (seed_step H P len mine Comm_e Open_e) [0..<pl_count P] (replicate len 0)) (\<lambda>seed.
       Inr (seed, P)))"

definition Create_Random_Seed ::
  "block_cipher \<Rightarrow> nat \<Rightarrow> octet list \<Rightarrow> prng \<Rightarrow> hash \<Rightarrow> octet list \<Rightarrow> (nat \<Rightarrow> octet list) \<Rightarrow> (nat \<Rightarrow> octet list)
    \<Rightarrow> player \<Rightarrow> nat \<Rightarrow> (octet list \<times> player) result" where
  "Create_Random_Seed E pl entropy G H rnd rcvc rcvo P len =
     bind_result (prng_ReSeed E pl entropy G) (\<lambda>G.
     bind_result (prng_get_octetStream E pl os_empty len G) (\<lambda>(mine, G).
       Create_Random_Seed_with H rnd rcvc rcvo mine P len))"

text \<open>\<open>Create_Random\<close>: the sum of one random value of each party.\<close>

definition Create_Random ::
  "(octet_stream \<Rightarrow> 'a \<Rightarrow> octet_stream result) \<Rightarrow> (octet_stream \<Rightarrow> ('a \<times> octet_stream) result) \<Rightarrow> ('a \<Rightarrow> 'a \<Rightarrow> 'a) \<Rightarrow> 'a
    \<Rightarrow> hash \<Rightarrow> octet list \<Rightarrow> (nat \<Rightarrow> octet list) \<Rightarrow> (nat \<Rightarrow> octet list) \<Rightarrow> 'a \<Rightarrow> player \<Rightarrow> ('a \<times> player) result" where
  "Create_Random pack unpack add zero H rnd rcvc rcvo mine P =
     bind_result (pack os_empty mine) (\<lambda>ee.
     bind_result (commit_round H rnd rcvc rcvo ee P) (\<lambda>(Comm_e, Open_e, P).
     bind_result (foldM_result (\<lambda>i (ans, ee).
         if i \<noteq> pl_num P then
           bind_result (Open_or_throw H ee (Comm_e ! i) (Open_e ! i) i) (\<lambda>ee.
           bind_result (unpack ee) (\<lambda>(v, ee). Inr (add ans v, ee)))
         else Inr (add ans mine, ee)) [0..<pl_count P] (zero, ee))
       (\<lambda>(ans, _). Inr (ans, P))))"

text \<open>Fresh generators, one for each run, and commitments to their seeds.\<close>

definition Commit_To_Seeds ::
  "block_cipher \<Rightarrow> nat \<Rightarrow> (nat \<Rightarrow> octet list) \<Rightarrow> prng list \<Rightarrow> hash \<Rightarrow> (nat \<Rightarrow> octet list) \<Rightarrow> (nat \<Rightarrow> nat \<Rightarrow> octet list)
    \<Rightarrow> player \<Rightarrow> nat \<Rightarrow> (prng list \<times> octet_stream list \<times> (octet_stream list list \<times> octet_stream list) \<times> player) result" where
  "Commit_To_Seeds E pl entropy Gs H rnd rcv P num_runs =
     bind_result (foldM_result (\<lambda>i (Gs, seeds). bind_result (prng_ReSeed E pl (entropy i) (Gs ! i)) (\<lambda>G.
           Inr (Gs[i := G], seeds @ [os_append (os_reset_write_head os_empty) (take SEED_SIZE (pr_seed G))])))
         [0..<num_runs] (Gs, [])) (\<lambda>(Gs, seeds).
     bind_result (Commit_runs H rnd rcv seeds P num_runs
         (replicate num_runs (replicate (pl_count P) os_empty), replicate num_runs os_empty)) (\<lambda>(s, P).
       Inr (Gs, seeds, s, P)))"

subsection \<open>Bundle\<close>

definition bundle_compare :: "player \<Rightarrow> (nat \<Rightarrow> octet list) \<Rightarrow> octet_stream list \<Rightarrow> octet_stream list result" where
  "bundle_compare P rcv b =
     bind_result (unchecked_broadcast P rcv b) (\<lambda>b.
       if list_all (\<lambda>os. os_equals os (b ! pl_num P)) b then Inr b else Inl mismatch_among_parties)"

definition bundle_reset :: "octet_stream list \<Rightarrow> octet_stream list" where
  "bundle_reset b = map os_reset_write_head b"

subsection \<open>Opening what was committed\<close>

text \<open>The opening of a message: player number, message, random bytes.\<close>

definition opening_of :: "nat \<Rightarrow> octet list \<Rightarrow> octet list \<Rightarrow> octet list" where
  "opening_of i m rnd = le_bytes 4 i @ m @ rnd"

lemma bits_append [simp]: "bb_n (os_wbits os) = 0 \<Longrightarrow> bb_n (os_wbits (os_append os bs)) = 0"
  by (simp add: os_append_def os_append_bytes_def os_resize_def os_resize_precise_def Let_def)

lemma os_append_data: "bb_n (os_wbits os) = 0 \<Longrightarrow> os_len os \<le> os_mxlen os \<Longrightarrow> os_data (os_append os bs) = os_data os @ bs"
  using os_append_extends [of os bs] by (simp add: os_extends_def os_writable_def)

lemma os_writable_empty [simp]: "os_writable os_empty"
  by (simp add: os_writable_def os_empty_def BitBuffer_def os_len_def)

lemma os_writable_reset: "os_writable (os_reset_write_head os)"
  by (simp add: os_writable_def os_reset_write_head_def os_reset_read_head_def os_len_def)

lemma os_reset_bits [simp]: "bb_n (os_wbits (os_reset_write_head os)) = 0"
  by (simp add: os_reset_write_head_def os_reset_read_head_def)

lemma os_append_reset_data [simp]: "os_data (os_append (os_reset_write_head os) bs) = bs"
  using os_append_extends [OF os_writable_reset, of os bs]
  by (simp add: os_extends_def os_reset_write_head_def os_reset_read_head_def)

lemma os_store_signed_nat: "n < 2 ^ 31 \<Longrightarrow> os_store_signed os (of_nat n) = Inr (os_append os (le_bytes 4 n))"
proof -
  assume n: "n < 2 ^ 31"
  have "sint (of_nat n :: 32 word) = int n"
    using n by (simp add: signed_of_nat signed_take_bit_int_eq_self)
  then have "(scast (of_nat n :: 32 word) :: 64 word) = of_nat n"
    by (subst scast_eq) simp
  then have "unat (scast (of_nat n :: 32 word) :: 64 word) = n"
    using n by (simp add: unat_of_nat)
  then have "encode_length (scast (of_nat n :: 32 word)) 4 = Inr (le_bytes 4 n)"
    using n encode_length_small [of 4 "scast (of_nat n :: 32 word)"] by simp
  then show ?thesis by (simp add: os_store_signed_def)
qed

lemma opening_of_take: "take 4 (opening_of i m rnd) = le_bytes 4 i" "drop 4 (opening_of i m rnd) = m @ rnd"
  "length (opening_of i m rnd) = 4 + length m + length rnd"
  by (simp_all add: opening_of_def)

lemma BYTES_TO_INT_val:
  assumes "4 \<le> length buff"
  shows "BYTES_TO_INT buff = of_nat (le_val (take 4 buff))"
proof -
  have t: "take 4 buff = [buff ! 0, buff ! 1, buff ! 2, buff ! 3]"
    using assms by (intro nth_equalityI) (auto simp: less_Suc_eq numeral_eq_Suc)
  have u: "(ucast (b :: octet) :: 32 word) = of_nat (unat b)" for b
    by (simp add: word_unat_eq_iff unat_of_nat unsigned_ucast_eq take_bit_nat_eq_self)
  show ?thesis
    unfolding t BYTES_TO_INT_def u by (simp only: le_val.simps of_nat_add of_nat_mult of_nat_numeral) (simp add: algebra_simps)
qed

lemma Commit_ok:
  assumes "n < 2 ^ 31" "bb_n (os_wbits m) = 0" "length rnd = SEED_SIZE"
  shows "\<exists>comm opn. Commit H rnd os_empty m (of_nat n) = Inr (comm, opn) \<and> os_data comm = H (os_data opn)
    \<and> os_data opn = opening_of n (os_data m) rnd \<and> bb_n (os_wbits comm) = 0 \<and> bb_n (os_wbits opn) = 0"
proof -
  let ?o1 = "os_append os_empty (le_bytes 4 n)" and ?o2 = "os_append (os_append os_empty (le_bytes 4 n)) (os_data m)"
  have e1: "os_extends os_empty (le_bytes 4 n) ?o1" by (rule os_append_extends [OF os_writable_empty])
  have e2: "os_extends ?o1 (os_data m) ?o2" by (rule os_append_extends [OF os_extends_writable [OF e1]])
  have e3: "os_extends ?o2 rnd (os_append ?o2 rnd)" by (rule os_append_extends [OF os_extends_writable [OF e2]])
  have "os_extends os_empty ((le_bytes 4 n @ os_data m) @ rnd) (os_append ?o2 rnd)"
    by (rule os_extends_trans [OF os_extends_trans [OF e1 e2] e3])
  moreover have "Commit H rnd os_empty m (of_nat n) = Inr (os_hash H (os_append ?o2 rnd), os_append ?o2 rnd)"
    using assms by (simp add: Commit_def os_store_signed_nat os_get_data_def os_append_random_def Let_def)
  ultimately show ?thesis
    by (simp add: os_extends_def opening_of_def os_empty_def os_hash_def os_new_def BitBuffer_def)
qed

lemma Open_ok:
  assumes "n < 2 ^ 31" "bb_n (os_wbits opn) = 0" "os_data opn = opening_of n bs rnd" "length rnd = SEED_SIZE"
    "os_data comm = H (os_data opn)" "length (H (os_data opn)) = generichash_BYTES_MIN"
  shows "Open_or_throw H message comm opn n = Inr (os_append (os_reset_write_head message) bs)"
proof -
  have "BYTES_TO_INT (os_data opn) = of_nat n"
    using assms(1,3) by (simp add: BYTES_TO_INT_val opening_of_take le_val_le_bytes)
  moreover have "os_equals (os_hash H opn) comm"
    using assms(5) by (simp add: os_equals_def os_hash_def os_len_def)
  ultimately show ?thesis
    using assms by (simp add: Open_or_throw_def Open_def os_get_data_def os_len_def opening_of_take)
qed

lemma os_of_bytes_simps [simp]: "os_data (os_of_bytes bs) = bs" "bb_n (os_wbits (os_of_bytes bs)) = 0"
  using os_append_extends [of "os_new (length bs)" bs]
  by (simp_all add: os_of_bytes_def os_extends_def os_writable_def os_new_def os_empty_def BitBuffer_def os_len_def)

subsection \<open>All parties honest\<close>

text \<open>
  What party \<open>i\<close> sends when it commits to \<open>ms i\<close> with random bytes \<open>rs i\<close>: first the commitment, then
  the opening. \<open>commit_setup\<close> collects the conditions: lengths of messages, random bytes and hashes.
\<close>

definition comm_msg :: "hash \<Rightarrow> (nat \<Rightarrow> octet list) \<Rightarrow> (nat \<Rightarrow> octet list) \<Rightarrow> nat \<Rightarrow> octet list" where
  "comm_msg H ms rs i = H (opening_of i (ms i) (rs i))"

definition open_msg :: "(nat \<Rightarrow> octet list) \<Rightarrow> (nat \<Rightarrow> octet list) \<Rightarrow> nat \<Rightarrow> octet list" where
  "open_msg ms rs i = opening_of i (ms i) (rs i)"

definition commit_setup :: "hash \<Rightarrow> (nat \<Rightarrow> octet list) \<Rightarrow> (nat \<Rightarrow> octet list) \<Rightarrow> player \<Rightarrow> bool" where
  "commit_setup H ms rs P \<longleftrightarrow> pl_num P < pl_count P \<and> pl_count P < 2 ^ 31
     \<and> (\<forall>i<pl_count P. length (rs i) = SEED_SIZE \<and> length (ms i) + 20 < 2 ^ 32) \<and> (\<forall>bs. length (H bs) = generichash_BYTES_MIN)"

lemma own_slot_simps [simp]: "length (own_slot P os) = pl_count P"
  "pl_num P < pl_count P \<Longrightarrow> own_slot P os ! pl_num P = os"
  by (simp_all add: own_slot_def)

lemma own_slot_bits: "bb_n (os_wbits os) = 0 \<Longrightarrow> list_all (\<lambda>o'. bb_n (os_wbits o') = 0) (own_slot P os)"
  by (auto simp: list_all_iff own_slot_def os_empty_def BitBuffer_def dest!: subsetD [OF set_update_subset_insert])

lemma Broadcast_own_slot:
  assumes "pl_num P < pl_count P" "bb_n (os_wbits os) = 0" "os_len os < 2 ^ 32" "os_data os = rcv (pl_num P)"
  shows "\<exists>v c. Broadcast_Receive P rcv (own_slot P os) = Inr (v, P\<lparr>pl_ctx := c\<rparr>) \<and> length v = pl_count P
    \<and> (\<forall>i<pl_count P. os_data (v ! i) = rcv i \<and> bb_n (os_wbits (v ! i)) = 0)"
proof -
  obtain v where v: "Broadcast_Receive P rcv (own_slot P os) = Inr (v, P\<lparr>pl_ctx := pl_ctx P @ concat (map os_data v)\<rparr>)"
    "length v = pl_count P" "v ! pl_num P = os" "list_all (\<lambda>o'. bb_n (os_wbits o') = 0) v"
    "\<forall>i<pl_count P. i \<noteq> pl_num P \<longrightarrow> os_data (v ! i) = rcv i \<and> os_ptr (v ! i) = 0"
    using Broadcast_Receive_ok [OF own_slot_simps(1) assms(1) own_slot_bits [OF assms(2)], of rcv] assms by auto
  then have "os_data (v ! i) = rcv i \<and> bb_n (os_wbits (v ! i)) = 0" if "i < pl_count P" for i
    using that assms(4) by (cases "i = pl_num P") (auto simp: list_all_length)
  with v show ?thesis by blast
qed

lemma commit_round_ok:
  assumes S: "commit_setup H ms rs P" and m: "bb_n (os_wbits m) = 0" "os_data m = ms (pl_num P)"
  shows "\<exists>Comm Opn c. commit_round H (rs (pl_num P)) (comm_msg H ms rs) (open_msg ms rs) m P = Inr (Comm, Opn, P\<lparr>pl_ctx := c\<rparr>)
    \<and> (\<forall>i<pl_count P. os_data (Comm ! i) = comm_msg H ms rs i \<and> os_data (Opn ! i) = open_msg ms rs i
        \<and> bb_n (os_wbits (Opn ! i)) = 0)"
proof -
  let ?me = "pl_num P"
  have S': "?me < pl_count P" "?me < 2 ^ 31" "length (rs ?me) = SEED_SIZE" "length (ms ?me) + 20 < 2 ^ 32"
    "\<And>bs. length (H bs) = generichash_BYTES_MIN"
    using S by (auto simp: commit_setup_def)
  obtain comm opn where C: "Commit H (rs ?me) os_empty m (of_nat ?me) = Inr (comm, opn)" "os_data comm = H (os_data opn)"
    "os_data opn = opening_of ?me (ms ?me) (rs ?me)" "bb_n (os_wbits comm) = 0" "bb_n (os_wbits opn) = 0"
    using Commit_ok [OF S'(2) m(1) S'(3), of H, unfolded m(2)] by blast
  have len: "os_len comm < 2 ^ 32" "os_len opn < 2 ^ 32"
    using C(2,3) S'(3-5) by (simp_all add: os_len_def opening_of_take generichash_BYTES_MIN_def SEED_SIZE_def AES_BLK_SIZE_def)
  obtain Comm c1 where 1: "Broadcast_Receive P (comm_msg H ms rs) (own_slot P comm) = Inr (Comm, P\<lparr>pl_ctx := c1\<rparr>)"
    "\<forall>i<pl_count P. os_data (Comm ! i) = comm_msg H ms rs i"
    using Broadcast_own_slot [OF S'(1) C(4) len(1), of "comm_msg H ms rs"] C(2,3) by (auto simp: comm_msg_def)
  let ?P = "P\<lparr>pl_ctx := c1\<rparr>"
  obtain Opn c2 where 2: "Broadcast_Receive ?P (open_msg ms rs) (own_slot ?P opn) = Inr (Opn, ?P\<lparr>pl_ctx := c2\<rparr>)"
    "\<forall>i<pl_count P. os_data (Opn ! i) = open_msg ms rs i \<and> bb_n (os_wbits (Opn ! i)) = 0"
    using Broadcast_own_slot [of ?P opn "open_msg ms rs"] S'(1) C(3,5) len(2) by (auto simp: open_msg_def)
  show ?thesis
    using C(1) 1 2 by (simp add: commit_round_def) (rule exI, rule refl)
qed

lemma Open_honest:
  assumes "commit_setup H ms rs P" "i < pl_count P" "os_data comm = comm_msg H ms rs i" "os_data opn = open_msg ms rs i"
    "bb_n (os_wbits opn) = 0"
  shows "Open_or_throw H message comm opn i = Inr (os_append (os_reset_write_head message) (ms i))"
  using assms by (intro Open_ok) (auto simp: commit_setup_def comm_msg_def open_msg_def)

lemma open_others_ok:
  assumes S: "commit_setup H ms rs P" and d: "length datas = pl_count P"
    and O: "\<forall>i<pl_count P. os_data (Comm ! i) = comm_msg H ms rs i \<and> os_data (Opn ! i) = open_msg ms rs i \<and> bb_n (os_wbits (Opn ! i)) = 0"
  shows "open_others H P Comm Opn datas
    = Inr (map (\<lambda>i. if i = pl_num P then datas ! i else os_append (os_reset_write_head (datas ! i)) (ms i)) [0..<pl_count P])"
proof -
  let ?new = "\<lambda>i. if i = pl_num P then datas ! i else os_append (os_reset_write_head (datas ! i)) (ms i)"
  have "\<exists>d'. foldM_result (\<lambda>i datas. if i \<noteq> pl_num P
         then bind_result (Open_or_throw H (datas ! i) (Comm ! i) (Opn ! i) i) (\<lambda>m. Inr (datas[i := m]))
         else Inr datas) [0..<pl_count P] datas = Inr d'
      \<and> d' = map ?new [0..<pl_count P] @ drop (pl_count P) datas"
  proof (rule foldM_result_upt)
    show "datas = map ?new [0..<0] @ drop 0 datas" by simp
  next
    fix i s assume i: "i < pl_count P" and s: "s = map ?new [0..<i] @ drop i datas"
    then have si: "s ! i = datas ! i" "drop i datas = datas ! i # drop (Suc i) datas"
      using d by (simp_all add: nth_append Cons_nth_drop_Suc)
    show "\<exists>s'. (if i \<noteq> pl_num P then bind_result (Open_or_throw H (s ! i) (Comm ! i) (Opn ! i) i) (\<lambda>m. Inr (s[i := m])) else Inr s) = Inr s'
        \<and> s' = map ?new [0..<Suc i] @ drop (Suc i) datas"
    proof (cases "i = pl_num P")
      case True
      then show ?thesis using s si by simp
    next
      case False
      have "Open_or_throw H (s ! i) (Comm ! i) (Opn ! i) i = Inr (os_append (os_reset_write_head (s ! i)) (ms i))"
        using O i by (intro Open_honest [OF S i]) auto
      with False s si show ?thesis by (simp add: list_update_append)
    qed
  qed
  with d show ?thesis by (simp add: open_others_def)
qed

lemma Commit_And_Open_streams_ok:
  assumes S: "commit_setup H ms rs P" and d: "length datas = pl_count P"
    and mine: "bb_n (os_wbits (datas ! pl_num P)) = 0" "os_data (datas ! pl_num P) = ms (pl_num P)"
  shows "\<exists>c. Commit_And_Open_streams H (rs (pl_num P)) (comm_msg H ms rs) (open_msg ms rs) P datas
    = Inr (map (\<lambda>i. if i = pl_num P then datas ! i else os_append (os_reset_write_head (datas ! i)) (ms i)) [0..<pl_count P],
           P\<lparr>pl_ctx := c\<rparr>)"
proof -
  obtain Comm Opn c where R: "commit_round H (rs (pl_num P)) (comm_msg H ms rs) (open_msg ms rs) (datas ! pl_num P) P
      = Inr (Comm, Opn, P\<lparr>pl_ctx := c\<rparr>)"
    "\<forall>i<pl_count P. os_data (Comm ! i) = comm_msg H ms rs i \<and> os_data (Opn ! i) = open_msg ms rs i \<and> bb_n (os_wbits (Opn ! i)) = 0"
    using commit_round_ok [OF S mine] by blast
  have S': "commit_setup H ms rs (P\<lparr>pl_ctx := c\<rparr>)" using S by (simp add: commit_setup_def)
  show ?thesis
    using R(1) open_others_ok [OF S', of datas Comm Opn] d R(2)
    by (simp add: Commit_And_Open_streams_def) (rule exI, rule refl)
qed

text \<open>Values of any packable type: every party ends with the list of all values.\<close>

context codec begin

lemma unpack_all:
  assumes "\<And>i. i < n \<Longrightarrow> valid (vs i) \<and> os_ready (datas ! i) \<and> os_unread (datas ! i) = enc (vs i)"
  shows "foldM_result (\<lambda>i data. bind_result (unpack (datas ! i)) (\<lambda>(v, _). Inr (data @ [v]))) [0..<n] [] = Inr (map vs [0..<n])"
proof -
  have "\<exists>s. foldM_result (\<lambda>i data. bind_result (unpack (datas ! i)) (\<lambda>(v, _). Inr (data @ [v]))) [0..<n] [] = Inr s
      \<and> s = map vs [0..<n]"
  proof (rule foldM_result_upt)
    fix i s assume i: "i < n" and s: "s = map vs [0..<i]"
    obtain os' where "unpack (datas ! i) = Inr (vs i, os')"
      using unpack_enc [of "vs i" "datas ! i" "[]"] assms [OF i] by auto
    with s show "\<exists>s'. bind_result (unpack (datas ! i)) (\<lambda>(v, _). Inr (s @ [v])) = Inr s' \<and> s' = map vs [0..<Suc i]"
      by simp
  qed simp
  then show ?thesis by simp
qed

lemma Commit_And_Open_ok:
  assumes S: "commit_setup H (\<lambda>i. enc (vs i)) rs P" and v: "\<forall>i<pl_count P. valid (vs i)"
  shows "\<exists>c. Commit_And_Open pack unpack H (rs (pl_num P)) (comm_msg H (\<lambda>i. enc (vs i)) rs) (open_msg (\<lambda>i. enc (vs i)) rs) P (vs (pl_num P))
    = Inr (map vs [0..<pl_count P], P\<lparr>pl_ctx := c\<rparr>)"
proof -
  let ?ms = "\<lambda>i. enc (vs i)"
  have me: "pl_num P < pl_count P" using S by (simp add: commit_setup_def)
  obtain os where os: "pack os_empty (vs (pl_num P)) = Inr os" "os_extends os_empty (?ms (pl_num P)) os"
    using pack_extends [OF _ os_writable_empty] v me by blast
  have osd: "os_data os = ?ms (pl_num P)" "bb_n (os_wbits os) = 0" "os_ptr os = 0"
    using os(2) by (simp_all add: os_extends_def os_empty_def)
  let ?datas = "map (\<lambda>i. if i = pl_num P then own_slot P os ! i else os_append (os_reset_write_head (own_slot P os ! i)) (?ms i)) [0..<pl_count P]"
  obtain c where C: "Commit_And_Open_streams H (rs (pl_num P)) (comm_msg H ?ms rs) (open_msg ?ms rs) P (own_slot P os)
      = Inr (?datas, P\<lparr>pl_ctx := c\<rparr>)"
    using Commit_And_Open_streams_ok [OF S, of "own_slot P os"] me osd by auto
  have "valid (vs i) \<and> os_ready (?datas ! i) \<and> os_unread (?datas ! i) = enc (vs i)" if i: "i < pl_count P" for i
  proof -
    have len: "length (?ms i) < 2 ^ 64" using S i by (auto simp: commit_setup_def)
    have "os_data (?datas ! i) = ?ms i \<and> os_ptr (?datas ! i) = 0"
    proof (cases "i = pl_num P")
      case True
      with osd me show ?thesis by simp
    next
      case False
      have "os_extends (os_reset_write_head (own_slot P os ! i)) (?ms i) (os_append (os_reset_write_head (own_slot P os ! i)) (?ms i))"
        by (rule os_append_extends [OF os_writable_reset])
      with False i show ?thesis by (simp add: os_extends_def os_reset_write_head_def os_reset_read_head_def)
    qed
    with v i len show ?thesis by (simp add: os_ready_def os_unread_def os_len_def)
  qed
  from unpack_all [of "pl_count P" vs ?datas, OF this] C os(1)
  show ?thesis by (simp add: Commit_And_Open_def) (rule exI, rule refl)
qed

end

text \<open>What the own contribution and the openings of the others add to the seed.\<close>

definition seed_xor :: "nat \<Rightarrow> (nat \<Rightarrow> octet list) \<Rightarrow> nat \<Rightarrow> octet list" where
  "seed_xor n ms len = fold (\<lambda>i seed. map2 (XOR) seed (ms i)) [0..<n] (replicate len 0)"

lemma foldM_result_Inr:
  assumes "\<And>i s. i < n \<Longrightarrow> f i s = Inr (g i s)"
  shows "foldM_result f [0..<n] s = Inr (fold g [0..<n] s)"
proof -
  have "\<exists>s'. foldM_result f [0..<n] s = Inr s' \<and> s' = fold g [0..<n] s"
    using assms by (intro foldM_result_upt [where P = "\<lambda>i s'. s' = fold g [0..<i] s"]) simp_all
  then show ?thesis by simp
qed

lemma Create_Random_Seed_with_ok:
  assumes S: "commit_setup H ms rs P" and len: "\<forall>i<pl_count P. length (ms i) = len"
    and mine: "bb_n (os_wbits mine) = 0" "os_data mine = ms (pl_num P)"
  shows "\<exists>c. Create_Random_Seed_with H (rs (pl_num P)) (comm_msg H ms rs) (open_msg ms rs) mine P len
    = Inr (seed_xor (pl_count P) ms len, P\<lparr>pl_ctx := c\<rparr>)"
proof -
  obtain Comm Opn c where R: "commit_round H (rs (pl_num P)) (comm_msg H ms rs) (open_msg ms rs) mine P = Inr (Comm, Opn, P\<lparr>pl_ctx := c\<rparr>)"
    "\<forall>i<pl_count P. os_data (Comm ! i) = comm_msg H ms rs i \<and> os_data (Opn ! i) = open_msg ms rs i \<and> bb_n (os_wbits (Opn ! i)) = 0"
    using commit_round_ok [OF S mine] by blast
  let ?P = "P\<lparr>pl_ctx := c\<rparr>"
  have S': "commit_setup H ms rs ?P" using S by (simp add: commit_setup_def)
  have step: "seed_step H ?P len mine Comm Opn i seed = Inr (map2 (XOR) seed (ms i))" if "i < pl_count P" for i seed
  proof (cases "i = pl_num P")
    case True
    with mine len that show ?thesis by (simp add: seed_step_def os_get_data_def)
  next
    case False
    have "Open_or_throw H os_empty (Comm ! i) (Opn ! i) i = Inr (os_append (os_reset_write_head os_empty) (ms i))"
      using R(2) that by (intro Open_honest [OF S']) auto
    with False len that show ?thesis
      by (simp add: seed_step_def os_get_data_def)
  qed
  show ?thesis
    using R(1) foldM_result_Inr [of "pl_count P" "seed_step H ?P len mine Comm Opn", OF step]
    by (simp add: Create_Random_Seed_with_def seed_xor_def) (rule exI, rule refl)
qed

subsection \<open>Whatever the other parties send\<close>

lemma Open_InrD:
  assumes "Open H message comm opn p = Inr (True, m)"
  shows "H (os_data opn) = os_data comm" "BYTES_TO_INT (os_data opn) = p" "SEED_SIZE + 4 \<le> length (os_data opn)"
    "os_data m = take (length (os_data opn) - SEED_SIZE - 4) (drop 4 (os_data opn))"
  using assms by (auto simp: Open_def os_get_data_def os_equals_def os_hash_def os_len_def split: if_splits)

lemma Open_or_throw_InrD:
  "Open_or_throw H message comm opn i = Inr m \<Longrightarrow> Open H message comm opn (of_nat i) = Inr (True, m)"
  by (auto simp: Open_or_throw_def bind_result_Inr_iff split: if_splits)

lemma Broadcast_Receive_InrD:
  assumes "Broadcast_Receive P rcv os = Inr (v, P')" "i < pl_count P" "i \<noteq> pl_num P" "pl_num P < pl_count P"
  shows "os_data (v ! i) = rcv i"
  using assms by (auto simp: Broadcast_Receive_def unchecked_broadcast_def Broadcast_Receive_no_stats_def bind_result_Inr_iff Let_def
      split: if_splits)

lemma Broadcast_Receive_player:
  assumes "Broadcast_Receive P rcv os = Inr (v, P')"
  shows "pl_num P' = pl_num P" "pl_count P' = pl_count P"
  using assms by (auto simp: Broadcast_Receive_def bind_result_Inr_iff)

lemma foldM_result_InrD:
  assumes "foldM_result f [0..<n] s = Inr s'" "P 0 s"
    and "\<And>i s s'. i < n \<Longrightarrow> P i s \<Longrightarrow> f i s = Inr s' \<Longrightarrow> P (Suc i) s'"
  shows "P n s'"
  using assms
proof (induction n arbitrary: s')
  case (Suc n)
  obtain t where t: "foldM_result f [0..<n] s = Inr t" "f n t = Inr s'"
    using Suc.prems(1) by (auto simp: foldM_result_append bind_result_Inr_iff)
  then have "P n t" using Suc by simp
  then show ?case using Suc.prems(3) [of n t s'] t(2) by simp
qed simp

lemma open_others_InrD:
  assumes "open_others H P Comm Opn datas = Inr datas'" "length datas = pl_count P" "i < pl_count P" "i \<noteq> pl_num P"
  shows "\<exists>message. Open H message (Comm ! i) (Opn ! i) (of_nat i) = Inr (True, datas' ! i)"
proof -
  have "length datas' = length datas \<and> (\<forall>i<pl_count P. i \<noteq> pl_num P \<longrightarrow>
      (\<exists>message. Open H message (Comm ! i) (Opn ! i) (of_nat i) = Inr (True, datas' ! i)))"
  proof (rule foldM_result_InrD [OF assms(1) [unfolded open_others_def],
        where P = "\<lambda>k d. length d = length datas \<and> (\<forall>i<k. i \<noteq> pl_num P \<longrightarrow>
          (\<exists>message. Open H message (Comm ! i) (Opn ! i) (of_nat i) = Inr (True, d ! i)))"])
    fix k d d'
    assume k: "k < pl_count P" and d: "length d = length datas \<and> (\<forall>i<k. i \<noteq> pl_num P \<longrightarrow>
          (\<exists>message. Open H message (Comm ! i) (Opn ! i) (of_nat i) = Inr (True, d ! i)))"
      and step: "(if k \<noteq> pl_num P then bind_result (Open_or_throw H (d ! k) (Comm ! k) (Opn ! k) k) (\<lambda>m. Inr (d[k := m]))
         else Inr d) = Inr d'"
    show "length d' = length datas \<and> (\<forall>i<Suc k. i \<noteq> pl_num P \<longrightarrow>
          (\<exists>message. Open H message (Comm ! i) (Opn ! i) (of_nat i) = Inr (True, d' ! i)))"
    proof (cases "k = pl_num P")
      case True
      with d step show ?thesis by (auto simp: less_Suc_eq)
    next
      case False
      then obtain m where m: "Open_or_throw H (d ! k) (Comm ! k) (Opn ! k) k = Inr m" "d' = d[k := m]"
        using step by (auto simp: bind_result_Inr_iff)
      then show ?thesis
        using d k assms(2) Open_or_throw_InrD [OF m(1)] by (auto simp: less_Suc_eq nth_list_update)
    qed
  qed simp
  with assms(3,4) show ?thesis by blast
qed

subsection \<open>Properties\<close>

text \<open>Commit and open among all parties: when all are honest, every party ends with the message of every party.\<close>

theorem commit_and_open_agree:
  assumes "commit_setup H ms rs P" "length datas = pl_count P" "bb_n (os_wbits (datas ! pl_num P)) = 0"
    "os_data (datas ! pl_num P) = ms (pl_num P)"
  shows "\<exists>datas' c. Commit_And_Open_streams H (rs (pl_num P)) (comm_msg H ms rs) (open_msg ms rs) P datas = Inr (datas', P\<lparr>pl_ctx := c\<rparr>)
    \<and> length datas' = pl_count P \<and> (\<forall>i<pl_count P. os_data (datas' ! i) = ms i)"
  using Commit_And_Open_streams_ok [OF assms] assms(1,4) by (auto simp: commit_setup_def)

theorem commit_and_open_agree_witness:
  "\<exists>datas' c. Commit_And_Open_streams (\<lambda>bs. replicate 16 (of_nat (length bs))) (replicate SEED_SIZE 7)
      (comm_msg (\<lambda>bs. replicate 16 (of_nat (length bs))) (\<lambda>i. [of_nat i]) (\<lambda>i. replicate SEED_SIZE 7))
      (open_msg (\<lambda>i. [of_nat i]) (\<lambda>i. replicate SEED_SIZE 7)) \<lparr>pl_num = 1, pl_count = 3, pl_ctx = []\<rparr> [os_empty, os_of_bytes [1], os_empty]
      = Inr (datas', \<lparr>pl_num = 1, pl_count = 3, pl_ctx = []\<rparr>\<lparr>pl_ctx := c\<rparr>)
    \<and> length datas' = pl_count \<lparr>pl_num = 1, pl_count = 3, pl_ctx = []\<rparr> \<and> (\<forall>i<3. os_data (datas' ! i) = [of_nat i])"
  using commit_and_open_agree [of "\<lambda>bs. replicate 16 (of_nat (length bs))" "\<lambda>i. [of_nat i]" "\<lambda>i. replicate SEED_SIZE 7"
      "\<lparr>pl_num = 1, pl_count = 3, pl_ctx = []\<rparr>" "[os_empty, os_of_bytes [1], os_empty]"]
  by (simp add: commit_setup_def generichash_BYTES_MIN_def)

text \<open>C20: Whatever the other parties send, commit and open fails or returns, for every other party, a message whose
  opening hashes to the commitment received before the own message was opened, and whose opening names that party.\<close>

theorem commit_and_open_sound:
  assumes "Commit_And_Open_streams H rnd rcvc rcvo P datas = Inr (datas', P')" "length datas = pl_count P"
    "pl_num P < pl_count P" "i < pl_count P" "i \<noteq> pl_num P"
  shows "H (rcvo i) = rcvc i \<and> BYTES_TO_INT (rcvo i) = of_nat i \<and> SEED_SIZE + 4 \<le> length (rcvo i)
    \<and> os_data (datas' ! i) = take (length (rcvo i) - SEED_SIZE - 4) (drop 4 (rcvo i))"
proof -
  obtain comm opn Comm P1 Opn where R: "Broadcast_Receive P rcvc (own_slot P comm) = Inr (Comm, P1)"
    "Broadcast_Receive P1 rcvo (own_slot P1 opn) = Inr (Opn, P')" "open_others H P' Comm Opn datas = Inr datas'"
    using assms(1) by (auto simp: Commit_And_Open_streams_def commit_round_def bind_result_Inr_iff)
  note P = Broadcast_Receive_player [OF R(1)] Broadcast_Receive_player [OF R(2)]
  have "os_data (Comm ! i) = rcvc i" "os_data (Opn ! i) = rcvo i"
    using Broadcast_Receive_InrD [OF R(1)] Broadcast_Receive_InrD [OF R(2)] assms(3-5) P by simp_all
  moreover obtain message where "Open H message (Comm ! i) (Opn ! i) (of_nat i) = Inr (True, datas' ! i)"
    using open_others_InrD [OF R(3)] assms(2-5) P by auto
  ultimately show ?thesis using Open_InrD by metis
qed

theorem commit_and_open_sound_witness:
  "\<exists>datas' P'. Commit_And_Open_streams (\<lambda>bs. replicate 16 (of_nat (length bs))) (replicate SEED_SIZE 7)
      (comm_msg (\<lambda>bs. replicate 16 (of_nat (length bs))) (\<lambda>i. [9]) (\<lambda>i. replicate SEED_SIZE 7))
      (open_msg (\<lambda>i. [9]) (\<lambda>i. replicate SEED_SIZE 7))
      \<lparr>pl_num = 0, pl_count = 2, pl_ctx = []\<rparr> [os_of_bytes [9], os_empty] = Inr (datas', P') \<and> os_data (datas' ! 1) = [9]"
proof -
  let ?H = "\<lambda>bs. replicate 16 (of_nat (length bs)) :: octet list" and ?P = "\<lparr>pl_num = 0, pl_count = 2, pl_ctx = []\<rparr>"
  have "\<exists>datas' P'. Commit_And_Open_streams ?H (replicate SEED_SIZE 7) (comm_msg ?H (\<lambda>i. [9]) (\<lambda>i. replicate SEED_SIZE 7))
      (open_msg (\<lambda>i. [9]) (\<lambda>i. replicate SEED_SIZE 7)) ?P [os_of_bytes [9], os_empty] = Inr (datas', P')"
    using Commit_And_Open_streams_ok [of ?H "\<lambda>i. [9]" "\<lambda>i. replicate SEED_SIZE 7" ?P "[os_of_bytes [9], os_empty]"]
    by (auto simp: commit_setup_def generichash_BYTES_MIN_def)
  then obtain d P' where "Commit_And_Open_streams ?H (replicate SEED_SIZE 7) (comm_msg ?H (\<lambda>i. [9]) (\<lambda>i. replicate SEED_SIZE 7))
      (open_msg (\<lambda>i. [9]) (\<lambda>i. replicate SEED_SIZE 7)) ?P [os_of_bytes [9], os_empty] = Inr (d, P')" by blast
  from this commit_and_open_sound [OF this, of 1] show ?thesis
    by (auto simp: open_msg_def opening_of_take)
qed

text \<open>The commitment is binding: two accepted openings of one commitment that show different messages or different
  senders are a collision of the hash function.\<close>

theorem commit_binding:
  assumes "Open H x comm opn1 p1 = Inr (True, m1)" "Open H y comm opn2 p2 = Inr (True, m2)"
    "os_data m1 \<noteq> os_data m2 \<or> p1 \<noteq> p2"
  shows "os_data opn1 \<noteq> os_data opn2 \<and> H (os_data opn1) = H (os_data opn2)"
  using Open_InrD [OF assms(1)] Open_InrD [OF assms(2)] assms(3) by auto

theorem commit_binding_witness:
  "os_data (os_of_bytes (opening_of 1 [5] (replicate SEED_SIZE 7))) \<noteq> os_data (os_of_bytes (opening_of 1 [6] (replicate SEED_SIZE 7)))"
proof -
  let ?H = "\<lambda>_ :: octet list. replicate 16 0 :: octet list" and ?c = "os_of_bytes (replicate 16 0)"
  let ?o = "\<lambda>b. os_of_bytes (opening_of 1 [b] (replicate SEED_SIZE 7))"
  have "Open ?H os_empty ?c (?o b) (of_nat 1) = Inr (True, os_append (os_reset_write_head os_empty) [b])" for b
    by (rule Open_or_throw_InrD, rule Open_ok [where rnd = "replicate SEED_SIZE 7"]) (simp_all add: generichash_BYTES_MIN_def)
  note o = this
  have "os_data (?o 5) \<noteq> os_data (?o 6) \<and> ?H (os_data (?o 5)) = ?H (os_data (?o 6))"
    by (rule commit_binding [OF o o]) simp
  then show ?thesis by (rule conjunct1)
qed

text \<open>The random seed: when all parties are honest, all compute the same seed, the exclusive or of the contributions.\<close>

theorem random_seed_agree:
  assumes "commit_setup H ms rs P" "\<forall>i<pl_count P. length (ms i) = len" "bb_n (os_wbits mine) = 0" "os_data mine = ms (pl_num P)"
  shows "\<exists>c. Create_Random_Seed_with H (rs (pl_num P)) (comm_msg H ms rs) (open_msg ms rs) mine P len
    = Inr (seed_xor (pl_count P) ms len, P\<lparr>pl_ctx := c\<rparr>)"
  by (rule Create_Random_Seed_with_ok [OF assms])

theorem random_seed_agree_witness:
  "\<exists>c. Create_Random_Seed_with (\<lambda>bs. replicate 16 (of_nat (length bs))) (replicate SEED_SIZE 7)
      (comm_msg (\<lambda>bs. replicate 16 (of_nat (length bs))) (\<lambda>i. [of_nat i, 3]) (\<lambda>i. replicate SEED_SIZE 7))
      (open_msg (\<lambda>i. [of_nat i, 3]) (\<lambda>i. replicate SEED_SIZE 7)) (os_of_bytes [2, 3]) \<lparr>pl_num = 2, pl_count = 3, pl_ctx = []\<rparr> 2
    = Inr (seed_xor 3 (\<lambda>i. [of_nat i, 3]) 2, \<lparr>pl_num = 2, pl_count = 3, pl_ctx = []\<rparr>\<lparr>pl_ctx := c\<rparr>)"
  using random_seed_agree [of "\<lambda>bs. replicate 16 (of_nat (length bs))" "\<lambda>i. [of_nat i, 3]" "\<lambda>i. replicate SEED_SIZE 7"
      "\<lparr>pl_num = 2, pl_count = 3, pl_ctx = []\<rparr>" 2 "os_of_bytes [2, 3]"]
  by (simp add: commit_setup_def generichash_BYTES_MIN_def)

end
