(* ===== verification/TreeSum.thy ===== *)
theory TreeSum
  imports Commit
begin

section \<open>Summing and broadcasting along a tree (Protocols/MAC_Check.h, TreeSum)\<close>

text \<open>
  \<open>TreeSum::run\<close> adds the values of all parties and gives every party the sums. In each summing
  phase the parties beyond the first \<open>sum_players\<close> send their values to one of these; when one
  party is left, the sums are passed down a tree of arity \<open>max_broadcast\<close>. The model is one
  party's side; \<open>rcv\<close> gives the bytes the others send, for each phase and sender. Then the parties
  are put together: what each receives is what the others send.
\<close>

subsection \<open>Phases\<close>

text \<open>The number of parties left after a phase. The second guard never holds for the arity in use.\<close>

definition tree_next :: "nat \<Rightarrow> nat \<Rightarrow> nat" where
  "tree_next opening_sum sum_players = (sum_players + opening_sum - 2) div opening_sum"

function tree_phases :: "nat \<Rightarrow> nat \<Rightarrow> (nat \<times> nat) list" where
  "tree_phases opening_sum last_sum_players =
     (let sum_players = tree_next opening_sum last_sum_players
      in if sum_players = 0 \<or> last_sum_players \<le> sum_players then []
         else (sum_players, last_sum_players) # tree_phases opening_sum sum_players)"
  by pat_completeness auto

termination
  by (relation "measure snd") auto

declare tree_phases.simps [simp del]

definition tree_arity :: "nat \<Rightarrow> nat \<Rightarrow> nat" where
  "tree_arity n k = (if k < 2 then n else k)"

text \<open>The loop over the relative numbers of the senders of a party.\<close>

function relative_senders :: "nat \<Rightarrow> nat \<Rightarrow> nat \<Rightarrow> nat list" where
  "relative_senders relative_sender sum_players last_sum_players =
     (if relative_sender < last_sum_players \<and> 0 < sum_players
      then relative_sender # relative_senders (relative_sender + sum_players) sum_players last_sum_players else [])"
  by pat_completeness auto

termination
  by (relation "measure (\<lambda>(r, s, l). l - r)") auto

declare relative_senders.simps [simp del]

definition relative_num :: "player \<Rightarrow> nat \<Rightarrow> nat" where
  "relative_num P base_player = nat (positive_modulo (int (pl_num P) - int base_player) (int (pl_count P)))"

definition absolute_num :: "player \<Rightarrow> nat \<Rightarrow> nat \<Rightarrow> nat" where
  "absolute_num P base_player r = nat (positive_modulo (int base_player + int r) (int (pl_count P)))"

subsection \<open>Packing with lengths\<close>

text \<open>\<open>use_lengths ? lengths[i] : -1\<close>\<close>

definition tree_lengths :: "int list \<Rightarrow> 'a list \<Rightarrow> int list" where
  "tree_lengths lengths values = (if length values = length lengths then lengths else replicate (length values) (- 1))"

fun pack_values :: "(int \<Rightarrow> octet_stream \<Rightarrow> 'a \<Rightarrow> octet_stream result) \<Rightarrow> int list \<Rightarrow> octet_stream \<Rightarrow> 'a list \<Rightarrow> octet_stream result" where
  "pack_values pack lens os [] = Inr os"
| "pack_values pack lens os (v # vs) = bind_result (pack (hd lens) os v) (\<lambda>os. pack_values pack (tl lens) os vs)"

text \<open>Unpacking as many values as there are; \<open>f\<close> combines the value in place and the one received.\<close>

fun unpack_values ::
  "(int \<Rightarrow> octet_stream \<Rightarrow> ('a \<times> octet_stream) result) \<Rightarrow> ('a \<Rightarrow> 'a \<Rightarrow> 'a) \<Rightarrow> int list \<Rightarrow> octet_stream \<Rightarrow> 'a list
    \<Rightarrow> ('a list \<times> octet_stream) result" where
  "unpack_values unpack f lens os [] = Inr ([], os)"
| "unpack_values unpack f lens os (v # vs) =
     bind_result (unpack (hd lens) os) (\<lambda>(t, os).
     bind_result (unpack_values unpack f (tl lens) os vs) (\<lambda>(ws, os). Inr (f v t # ws, os)))"

subsection \<open>One party\<close>

text \<open>\<open>add_openings\<close>\<close>

definition add_openings ::
  "(int \<Rightarrow> octet_stream \<Rightarrow> ('a \<times> octet_stream) result) \<Rightarrow> ('a \<Rightarrow> 'a \<Rightarrow> 'a) \<Rightarrow> int list \<Rightarrow> player \<Rightarrow> nat
    \<Rightarrow> (nat \<Rightarrow> octet list) \<Rightarrow> nat \<times> nat \<Rightarrow> 'a list \<Rightarrow> 'a list result" where
  "add_openings unpack add lens P send_player rcv ph values =
     (let (sum_players, last_sum_players) = ph;
          senders = map (absolute_num P send_player)
            (relative_senders (relative_num P send_player + sum_players) sum_players last_sum_players)
      in foldM_result (\<lambda>sender values. map_sum id fst (unpack_values unpack add lens (os_arrive os_empty (rcv sender)) values))
           senders values)"

text \<open>One summing phase: send up the tree, or receive and add.\<close>

definition tree_phase ::
  "(int \<Rightarrow> octet_stream \<Rightarrow> 'a \<Rightarrow> octet_stream result) \<Rightarrow> (int \<Rightarrow> octet_stream \<Rightarrow> ('a \<times> octet_stream) result)
    \<Rightarrow> ('a \<Rightarrow> 'a \<Rightarrow> 'a) \<Rightarrow> int list \<Rightarrow> player \<Rightarrow> nat \<Rightarrow> (nat \<times> nat \<Rightarrow> nat \<Rightarrow> octet list) \<Rightarrow> nat \<times> nat
    \<Rightarrow> 'a list \<times> octet_stream \<times> outbox \<Rightarrow> ('a list \<times> octet_stream \<times> outbox) result" where
  "tree_phase pack unpack add lens P base_player rcv ph s =
     (let (values, os, sent) = s;
          (sum_players, last_sum_players) = ph;
          r = relative_num P base_player
      in bind_result
           (if sum_players \<le> r \<and> r < last_sum_players then
              bind_result (pack_values pack lens os values) (\<lambda>os.
                Inr (os, sent @ [(absolute_num P base_player (r mod sum_players), os)]))
            else Inr (os, sent)) (\<lambda>(os, sent).
         bind_result
           (if r < sum_players then add_openings unpack add lens P base_player (rcv ph) ph values else Inr values)
           (\<lambda>values. Inr (values, os, sent))))"

text \<open>\<open>ReceiveValues\<close>: the message stays in \<open>os\<close>, the values replace the own ones.\<close>

definition ReceiveValues ::
  "(int \<Rightarrow> octet_stream \<Rightarrow> ('a \<times> octet_stream) result) \<Rightarrow> int list \<Rightarrow> octet list \<Rightarrow> octet_stream \<Rightarrow> 'a list
    \<Rightarrow> ('a list \<times> octet_stream) result" where
  "ReceiveValues unpack lens bs os values =
     (let os = os_arrive os bs
      in bind_result (unpack_values unpack (\<lambda>_ t. t) lens os values) (\<lambda>(values, os'). Inr (values, os')))"

definition tree_children :: "player \<Rightarrow> nat \<Rightarrow> nat \<Rightarrow> nat list" where
  "tree_children P base_player max_broadcast =
     (let r = relative_num P base_player
      in map (\<lambda>i. (base_player + i) mod pl_count P)
           (filter (\<lambda>i. i < pl_count P) (if pl_num P = base_player then [1..<max_broadcast]
              else map (\<lambda>i. r * max_broadcast + i) [0..<max_broadcast])))"

text \<open>
  \<open>start\<close> and \<open>finish\<close>: the sums, the values handed to \<open>AddToValues\<close>, and the messages sent.
\<close>

definition tree_start_finish ::
  "(int \<Rightarrow> octet_stream \<Rightarrow> 'a \<Rightarrow> octet_stream result) \<Rightarrow> (int \<Rightarrow> octet_stream \<Rightarrow> ('a \<times> octet_stream) result)
    \<Rightarrow> ('a \<Rightarrow> 'a \<Rightarrow> 'a) \<Rightarrow> nat \<Rightarrow> nat \<Rightarrow> nat \<Rightarrow> int list \<Rightarrow> player
    \<Rightarrow> (nat \<times> nat \<Rightarrow> nat \<Rightarrow> octet list) \<Rightarrow> (nat \<Rightarrow> octet list) \<Rightarrow> octet_stream \<Rightarrow> 'a list \<Rightarrow> ('a list \<times> 'a list \<times> outbox) result" where
  "tree_start_finish pack unpack add base_player opening_sum max_broadcast lengths P rcv rcvb os values =
     (let n = pl_count P;
          opening_sum = tree_arity n opening_sum;
          max_broadcast = tree_arity n max_broadcast;
          r = relative_num P base_player;
          lens = tree_lengths lengths values
      in bind_result (foldM_result (tree_phase pack unpack add lens P base_player rcv) (tree_phases opening_sum n)
             (values, os_reset_write_head os, [])) (\<lambda>(values, os, sent).
         if pl_num P = base_player then
           bind_result (pack_values pack lens (os_reset_write_head os) values) (\<lambda>os.
             Inr (values, values, sent @ map (\<lambda>i. (i, os)) (tree_children P base_player max_broadcast)))
         else
           bind_result (ReceiveValues unpack lens (rcvb ((base_player + r div max_broadcast) mod n)) os values) (\<lambda>(values, os).
             Inr (values, values,
                  sent @ (if r * max_broadcast < n then map (\<lambda>i. (i, os)) (tree_children P base_player max_broadcast) else [])))))"

text \<open>\<open>run\<close> on a vector and on one value.\<close>

definition tree_sum ::
  "(int \<Rightarrow> octet_stream \<Rightarrow> 'a \<Rightarrow> octet_stream result) \<Rightarrow> (int \<Rightarrow> octet_stream \<Rightarrow> ('a \<times> octet_stream) result)
    \<Rightarrow> ('a \<Rightarrow> 'a \<Rightarrow> 'a) \<Rightarrow> nat \<Rightarrow> nat \<Rightarrow> nat \<Rightarrow> int list \<Rightarrow> player
    \<Rightarrow> (nat \<times> nat \<Rightarrow> nat \<Rightarrow> octet list) \<Rightarrow> (nat \<Rightarrow> octet list) \<Rightarrow> octet_stream \<Rightarrow> 'a list \<Rightarrow> ('a list \<times> 'a list \<times> outbox) result" where
  "tree_sum pack unpack add base_player opening_sum max_broadcast lengths P rcv rcvb os values =
     (if values = [] then Inr ([], [], [])
      else tree_start_finish pack unpack add base_player opening_sum max_broadcast lengths P rcv rcvb os values)"

definition tree_sum_one ::
  "(int \<Rightarrow> octet_stream \<Rightarrow> 'a \<Rightarrow> octet_stream result) \<Rightarrow> (int \<Rightarrow> octet_stream \<Rightarrow> ('a \<times> octet_stream) result)
    \<Rightarrow> ('a \<Rightarrow> 'a \<Rightarrow> 'a) \<Rightarrow> nat \<Rightarrow> nat \<Rightarrow> nat \<Rightarrow> int list \<Rightarrow> player
    \<Rightarrow> (nat \<times> nat \<Rightarrow> nat \<Rightarrow> octet list) \<Rightarrow> (nat \<Rightarrow> octet list) \<Rightarrow> octet_stream \<Rightarrow> 'a \<Rightarrow> ('a \<times> outbox) result" where
  "tree_sum_one pack unpack add base_player opening_sum max_broadcast lengths P rcv rcvb os value =
     bind_result (tree_sum pack unpack add base_player opening_sum max_broadcast lengths P rcv rcvb os [value])
       (\<lambda>(values, _, sent). Inr (hd values, sent))"

subsection \<open>The numbers of parties\<close>

lemma tree_next_less: "2 \<le> k \<Longrightarrow> 1 \<le> m \<Longrightarrow> tree_next k m < m"
proof -
  assume k: "2 \<le> k" "1 \<le> m"
  then obtain j where j: "k = j + 2" by (metis add.commute le_Suc_ex)
  obtain i where i: "m = i + 1" using k by (metis add.commute le_Suc_ex)
  have "m + k - 2 < m * k" by (simp add: i j algebra_simps)
  then show ?thesis unfolding tree_next_def by (rule less_mult_imp_div_less)
qed

lemma tree_next_pos: "2 \<le> m \<Longrightarrow> 1 \<le> k \<Longrightarrow> 1 \<le> tree_next k m"
  by (simp add: tree_next_def Suc_le_eq div_greater_zero_iff)

lemma tree_next_1: "1 \<le> k \<Longrightarrow> tree_next k 1 = 0"
  by (simp add: tree_next_def)

text \<open>The loop stops with one party left.\<close>

lemma tree_phases_unfold:
  assumes "2 \<le> k" "1 \<le> m"
  shows "tree_phases k m = (if m = 1 then [] else (tree_next k m, m) # tree_phases k (tree_next k m))"
proof (cases "m = 1")
  case True
  then show ?thesis using tree_next_1 [of k] assms by (subst tree_phases.simps) (simp add: Let_def)
next
  case False
  then have "2 \<le> m" using assms by simp
  with False show ?thesis
    using tree_next_less [OF assms] tree_next_pos [of m k] assms by (subst tree_phases.simps) (simp add: Let_def)
qed

lemma relative_senders_eq:
  "0 < s \<Longrightarrow> relative_senders r s l = filter (\<lambda>i. i mod s = r mod s) [r..<l]"
proof (induction r s l rule: relative_senders.induct)
  case (1 r s l)
  show ?case
  proof (cases "r < l")
    case True
    have "filter (\<lambda>i. i mod s = r mod s) [Suc r..<l] = filter (\<lambda>i. i mod s = r mod s) [r + s..<l]"
    proof (cases "r + s \<le> l")
      case le: True
      have "[Suc r..<l] = [Suc r..<r + s] @ [r + s..<l]"
        using 1(2) le by (metis Suc_leI less_add_same_cancel1 upt_add_eq_append le_Suc_ex)
      moreover have "filter (\<lambda>i. i mod s = r mod s) [Suc r..<r + s] = []"
      proof -
        have "i mod s \<noteq> r mod s" if "Suc r \<le> i" "i < r + s" for i
        proof
          assume eq: "i mod s = r mod s"
          then have "s dvd i - r" using that by (simp add: mod_eq_dvd_iff_nat)
          then show False using that by (auto dest!: dvd_imp_le)
        qed
        then show ?thesis by (auto simp: filter_empty_conv)
      qed
      ultimately show ?thesis by simp
    next
      case False
      have "i mod s \<noteq> r mod s" if "Suc r \<le> i" "i < l" for i
      proof
        assume eq: "i mod s = r mod s"
        then have "s dvd i - r" using that by (simp add: mod_eq_dvd_iff_nat)
        then show False using that False by (auto dest!: dvd_imp_le)
      qed
      then show ?thesis using False by (auto simp: filter_empty_conv)
    qed
    then show ?thesis
      using 1 True by (subst relative_senders.simps) (simp add: upt_conv_Cons)
  next
    case False
    then show ?thesis by (subst relative_senders.simps) simp
  qed
qed

lemma set_relative_senders: "0 < s \<Longrightarrow> set (relative_senders r s l) = {i. r \<le> i \<and> i < l \<and> i mod s = r mod s}"
  by (auto simp: relative_senders_eq)

lemma sorted_relative_senders: "0 < s \<Longrightarrow> distinct (relative_senders r s l)"
  by (simp add: relative_senders_eq)

subsection \<open>What the phases compute\<close>

text \<open>The values of all parties, by relative number, and one phase of all parties together.\<close>

definition tree_step :: "nat \<times> nat \<Rightarrow> (nat \<Rightarrow> 'a :: comm_monoid_add list) \<Rightarrow> nat \<Rightarrow> 'a list" where
  "tree_step ph W r =
     (let (s, l) = ph in if r < s then foldl (map2 (+)) (W r) (map W (relative_senders (r + s) s l)) else W r)"

lemma length_foldl_map2: "\<forall>w \<in> set ws. length w = length v \<Longrightarrow> length (foldl (map2 f) v ws) = length v"
  by (induction ws arbitrary: v) simp_all

lemma length_tree_step: "(\<And>r. length (W r) = m) \<Longrightarrow> length (tree_step ph W r) = m"
  by (cases ph) (simp add: tree_step_def Let_def length_foldl_map2)

lemma nth_foldl_map2:
  "\<forall>w \<in> set ws. length w = length v \<Longrightarrow> i < length v \<Longrightarrow> foldl (map2 (+)) v ws ! i = v ! i + (\<Sum>w\<leftarrow>ws. w ! i)"
  by (induction ws arbitrary: v) (simp_all add: add.assoc)

text \<open>A phase keeps the sum over the parties that are left.\<close>

lemma tree_step_sum:
  assumes len: "\<And>r. length (W r) = m" and i: "i < m" and s: "0 < s" "s < l"
  shows "(\<Sum>r < s. tree_step (s, l) W r ! i) = (\<Sum>r < l. W r ! i)"
proof -
  let ?S = "\<lambda>r. {j. r + s \<le> j \<and> j < l \<and> j mod s = r mod s}"
  have step: "tree_step (s, l) W r ! i = W r ! i + (\<Sum>j \<in> ?S r. W j ! i)" if "r < s" for r
  proof -
    have "tree_step (s, l) W r ! i = W r ! i + (\<Sum>w\<leftarrow>map W (relative_senders (r + s) s l). w ! i)"
      using that len i unfolding tree_step_def by (simp add: Let_def) (subst nth_foldl_map2; simp add: len)
    also have "(\<Sum>w\<leftarrow>map W (relative_senders (r + s) s l). w ! i) = (\<Sum>j \<in> set (relative_senders (r + s) s l). W j ! i)"
      using sorted_relative_senders [OF s(1)] by (simp add: sum_list_distinct_conv_sum_set comp_def)
    finally show ?thesis by (simp add: set_relative_senders [OF s(1)])
  qed
  have "{s..<l} = (\<Union>r \<in> {..<s}. ?S r)"
  proof (intro set_eqI iffI)
    fix j assume j: "j \<in> {s..<l}"
    have "j mod s < s" using s by simp
    moreover have "s * 1 \<le> s * (j div s)"
      using j s by (intro mult_left_mono) (simp_all add: Suc_le_eq div_greater_zero_iff)
    then have "j mod s + s \<le> j" using mod_mult_div_eq [of j s] by linarith
    ultimately show "j \<in> (\<Union>r \<in> {..<s}. ?S r)" using j by (intro UN_I [of "j mod s"]) simp_all
  qed auto
  moreover have "(\<Sum>j \<in> (\<Union>r \<in> {..<s}. ?S r). W j ! i) = (\<Sum>r \<in> {..<s}. \<Sum>j \<in> ?S r. W j ! i)"
    by (rule sum.UNION_disjoint) auto
  ultimately have "(\<Sum>r < s. W r ! i) + (\<Sum>r \<in> {..<s}. \<Sum>j \<in> ?S r. W j ! i) = (\<Sum>r < s. W r ! i) + (\<Sum>j \<in> {s..<l}. W j ! i)"
    by simp
  also have "\<dots> = (\<Sum>r < l. W r ! i)"
    using s by (simp add: lessThan_atLeast0 sum.atLeastLessThan_concat)
  finally show ?thesis by (simp add: step sum.distrib)
qed

definition tree_run :: "(nat \<times> nat) list \<Rightarrow> (nat \<Rightarrow> 'a :: comm_monoid_add list) \<Rightarrow> nat \<Rightarrow> 'a list" where
  "tree_run phs W = fold tree_step phs W"

lemma length_tree_run: "(\<And>r. length (W r) = m) \<Longrightarrow> length (tree_run phs W r) = m"
  by (induction phs arbitrary: W) (simp_all add: tree_run_def length_tree_step)

lemma tree_run_sum:
  assumes "2 \<le> k" "1 \<le> l" "\<And>r. length (W r) = m" "i < m"
  shows "tree_run (tree_phases k l) W 0 ! i = (\<Sum>r < l. W r ! i)"
  using assms(2,3)
proof (induction l arbitrary: W rule: less_induct)
  case (less l)
  show ?case
  proof (cases "l = 1")
    case True
    then show ?thesis using tree_phases_unfold [OF assms(1), of 1] by (simp add: tree_run_def)
  next
    case False
    let ?s = "tree_next k l"
    have s: "?s < l" "1 \<le> ?s" using tree_next_less [OF assms(1) less.prems(1)] tree_next_pos [of l k] False less.prems(1) assms(1) by simp_all
    have "tree_run (tree_phases k l) W 0 = tree_run (tree_phases k ?s) (tree_step (?s, l) W) 0"
      using False tree_phases_unfold [OF assms(1) less.prems(1)] by (simp add: tree_run_def)
    moreover have "length (tree_step (?s, l) W r) = m" for r
      by (intro length_tree_step less.prems)
    ultimately have "tree_run (tree_phases k l) W 0 ! i = (\<Sum>r < ?s. tree_step (?s, l) W r ! i)"
      using less.IH [OF s(1) s(2)] by simp
    also have "\<dots> = (\<Sum>r < l. W r ! i)"
      using s by (intro tree_step_sum [OF less.prems(2) assms(4)]) simp_all
    finally show ?thesis .
  qed
qed

subsection \<open>Values that are packed with a length\<close>

text \<open>The encoding of a vector of values.\<close>

fun enc_values :: "(int \<Rightarrow> 'a \<Rightarrow> octet list) \<Rightarrow> int list \<Rightarrow> 'a list \<Rightarrow> octet list" where
  "enc_values enc lens [] = []"
| "enc_values enc lens (v # vs) = enc (hd lens) v @ enc_values enc (tl lens) vs"

locale len_codec =
  fixes pack :: "int \<Rightarrow> octet_stream \<Rightarrow> 'a \<Rightarrow> octet_stream result"
    and unpack :: "int \<Rightarrow> octet_stream \<Rightarrow> ('a \<times> octet_stream) result"
    and enc :: "int \<Rightarrow> 'a \<Rightarrow> octet list"
  assumes codec: "codec (pack l) (unpack l) (enc l) (\<lambda>_. True)"
begin

lemma pack_values_extends:
  "os_writable os \<Longrightarrow> \<exists>os'. pack_values pack lens os vs = Inr os' \<and> os_extends os (enc_values enc lens vs) os'"
proof (induction vs arbitrary: os lens)
  case (Cons v vs)
  obtain os1 where 1: "pack (hd lens) os v = Inr os1" "os_extends os (enc (hd lens) v) os1"
    using codec.pack_extends [OF codec] Cons.prems by blast
  obtain os2 where "pack_values pack (tl lens) os1 vs = Inr os2" "os_extends os1 (enc_values enc (tl lens) vs) os2"
    using Cons.IH [OF os_extends_writable [OF 1(2)]] by blast
  with 1 show ?case by (auto intro: os_extends_trans)
qed (simp add: os_extends_refl)

lemma unpack_values_enc:
  "length ws = length vs \<Longrightarrow> os_ready os \<Longrightarrow> os_unread os = enc_values enc lens vs
    \<Longrightarrow> \<exists>os'. unpack_values unpack f lens os ws = Inr (map2 f ws vs, os')
      \<and> os_advanced (length (enc_values enc lens vs)) os os'"
proof (induction ws vs arbitrary: os lens rule: list_induct2)
  case (Cons w ws v vs)
  obtain os1 where 1: "unpack (hd lens) os = Inr (v, os1)" "os_advanced (length (enc (hd lens) v)) os os1"
    using codec.unpack_enc [OF codec _ Cons.prems(1), of "hd lens" v "enc_values enc (tl lens) vs"] Cons.prems(2) by auto
  have "os_ready os1" "os_unread os1 = enc_values enc (tl lens) vs"
    using os_advanced_ready [OF 1(2) Cons.prems(1)] os_advanced_unread [OF 1(2)] Cons.prems(2) by simp_all
  then obtain os2 where "unpack_values unpack f (tl lens) os1 ws = Inr (map2 f ws vs, os2)"
    "os_advanced (length (enc_values enc (tl lens) vs)) os1 os2"
    using Cons.IH by blast
  with 1 show ?case by (auto intro: os_advanced_trans)
qed simp

lemma unpack_values_arrive:
  assumes "length ws = length vs" "length (enc_values enc lens vs) < 2 ^ 64"
  shows "\<exists>os'. unpack_values unpack f lens (os_arrive os (enc_values enc lens vs)) ws = Inr (map2 f ws vs, os')
    \<and> os_data os' = enc_values enc lens vs"
proof -
  have "os_ready (os_arrive os (enc_values enc lens vs))"
    "os_unread (os_arrive os (enc_values enc lens vs)) = enc_values enc lens vs"
    using assms(2) by (simp_all add: os_arrive_def os_ready_def os_unread_def os_reset_read_head_def os_len_def)
  from unpack_values_enc [OF assms(1) this] show ?thesis
    by (auto simp: os_advanced_def os_arrive_def os_reset_read_head_def)
qed

end

interpretation zw_len_codec: len_codec "\<lambda>_. zw_pack :: _ \<Rightarrow> 'k :: len word \<Rightarrow> _" "\<lambda>_. zw_get"
  "\<lambda>_ w. le_bytes (z2_N_BYTES LENGTH('k)) (unat w)"
  by unfold_locales

subsection \<open>The phases of one party\<close>

lemma absolute_num_eq: "0 < pl_count P \<Longrightarrow> absolute_num P b r = (b + r) mod pl_count P"
  by (simp add: absolute_num_def positive_modulo_mod nat_mod_distrib nat_add_distrib)

lemma relative_num_eq:
  assumes "pl_num P < pl_count P" "b < pl_count P"
  shows "relative_num P b = (pl_num P + pl_count P - b) mod pl_count P"
proof -
  have "int ((pl_num P + pl_count P - b) mod pl_count P) = (int (pl_num P) - int b + int (pl_count P)) mod int (pl_count P)"
    using assms by (simp add: zmod_int of_nat_diff algebra_simps)
  then show ?thesis using assms by (simp add: relative_num_def positive_modulo_mod)
qed

lemma relative_num_less: "pl_num P < pl_count P \<Longrightarrow> b < pl_count P \<Longrightarrow> relative_num P b < pl_count P"
  by (simp add: relative_num_eq)

lemma absolute_relative: "pl_num P < pl_count P \<Longrightarrow> b < pl_count P \<Longrightarrow> absolute_num P b (relative_num P b) = pl_num P"
  by (simp add: relative_num_eq absolute_num_eq mod_simps)

lemma tree_run_Cons: "tree_run (ph # phs) W = tree_run phs (tree_step ph W)"
  by (simp add: tree_run_def)

lemma tree_step_outside: "s \<le> r \<Longrightarrow> tree_step (s, l) W r = W r"
  by (simp add: tree_step_def)

lemma tree_run_outside:
  assumes "2 \<le> k"
  shows "1 \<le> l \<Longrightarrow> l \<le> r \<Longrightarrow> tree_run (tree_phases k l) W r = W r"
proof (induction l arbitrary: W rule: less_induct)
  case (less l)
  show ?case
  proof (cases "l = 1")
    case True
    then show ?thesis using tree_phases_unfold [OF assms, of 1] by (simp add: tree_run_def)
  next
    case False
    have s: "tree_next k l < l" "1 \<le> tree_next k l"
      using tree_next_less [OF assms less.prems(1)] tree_next_pos [of l k] False less.prems(1) assms by simp_all
    then have "tree_run (tree_phases k (tree_next k l)) (tree_step (tree_next k l, l) W) r = tree_step (tree_next k l, l) W r"
      using less.prems(2) by (intro less.IH) simp_all
    with s less.prems show ?thesis
      using False tree_phases_unfold [OF assms less.prems(1)] by (simp add: tree_run_Cons tree_step_outside)
  qed
qed

text \<open>Adding what a list of senders sends.\<close>

context len_codec begin

lemma add_all:
  "\<forall>r \<in> set rs. rcv (f r) = enc_values enc lens (W r) \<and> length (W r) = length vs \<and> length (enc_values enc lens (W r)) < 2 ^ 64
    \<Longrightarrow> foldM_result (\<lambda>sender values. map_sum id fst (unpack_values unpack add lens (os_arrive os_empty (rcv sender)) values))
      (map f rs) vs = Inr (foldl (map2 add) vs (map W rs))"
proof (induction rs arbitrary: vs)
  case (Cons r rs)
  then obtain os' where "unpack_values unpack add lens (os_arrive os_empty (rcv (f r))) vs = Inr (map2 add vs (W r), os')"
    using unpack_values_arrive [of vs "W r" lens add os_empty] by auto
  with Cons show ?case by simp
qed simp

end

text \<open>
  A party sends the value it has after all phases, in the one phase in which its number drops out. What
  \<open>tree_sends\<close> says of the messages \<open>out\<close>: that message goes to the party up the tree.
\<close>

definition tree_sends :: "nat \<Rightarrow> nat \<Rightarrow> player \<Rightarrow> nat \<Rightarrow> octet list \<Rightarrow> outbox \<Rightarrow> bool" where
  "tree_sends k l P b bytes out \<longleftrightarrow>
     (let r = relative_num P b in if 0 < r \<and> r < l
      then \<exists>(s, m) \<in> set (tree_phases k l). \<exists>o'. s \<le> r \<and> r < m \<and> os_data o' = bytes \<and> out = [(absolute_num P b (r mod s), o')]
      else out = [])"

lemma tree_phases_run:
  assumes C: "len_codec pack unpack enc" and k: "2 \<le> k" and P: "pl_num P < pl_count P" "b < pl_count P"
  shows "1 \<le> l \<Longrightarrow> l \<le> pl_count P \<Longrightarrow> (\<And>j. length (W j) = m) \<Longrightarrow> os_writable os
    \<Longrightarrow> (\<And>j. j < l \<Longrightarrow> length (enc_values enc lens (tree_run (tree_phases k l) W j)) < 2 ^ 64)
    \<Longrightarrow> (\<And>ph j. j < l \<Longrightarrow> rcv ph (absolute_num P b j) = enc_values enc lens (tree_run (tree_phases k l) W j))
    \<Longrightarrow> \<exists>os' out. foldM_result (tree_phase pack unpack (+) lens P b rcv) (tree_phases k l) (W (relative_num P b), os, sent)
        = Inr (tree_run (tree_phases k l) W (relative_num P b), os', sent @ out) \<and> os_writable os'
      \<and> tree_sends k l P b (os_data os @ enc_values enc lens (tree_run (tree_phases k l) W (relative_num P b))) out"
proof (induction l arbitrary: W os sent rule: less_induct)
  case (less l)
  let ?r = "relative_num P b"
  show ?case
  proof (cases "l = 1")
    case True
    then show ?thesis
      using tree_phases_unfold [OF k, of 1] less.prems(4) by (auto simp: tree_run_def tree_sends_def Let_def)
  next
    case False
    define s where "s = tree_next k l"
    have s: "s < l" "1 \<le> s"
      using tree_next_less [OF k less.prems(1)] tree_next_pos [of l k] False less.prems(1) k by (simp_all add: s_def)
    have phs: "tree_phases k l = (s, l) # tree_phases k s"
      using False tree_phases_unfold [OF k less.prems(1)] by (simp add: s_def)
    let ?W = "tree_step (s, l) W"
    have T: "tree_run (tree_phases k l) W = tree_run (tree_phases k s) ?W" by (simp add: phs tree_run_Cons)
    have T_out: "tree_run (tree_phases k l) W j = W j" if "s \<le> j" for j
      using tree_run_outside [OF k s(2) that, of ?W] that by (simp add: T tree_step_outside)
    have W: "length (?W j) = m" for j by (intro length_tree_step less.prems(3))
    have IH: "\<exists>os' out. foldM_result (tree_phase pack unpack (+) lens P b rcv) (tree_phases k s) (?W ?r, os0, sent0)
        = Inr (tree_run (tree_phases k l) W ?r, os', sent0 @ out) \<and> os_writable os'
      \<and> tree_sends k s P b (os_data os0 @ enc_values enc lens (tree_run (tree_phases k l) W ?r)) out"
      if "os_writable os0" for os0 sent0
      unfolding T by (rule less.IH [OF s(1) s(2) _ W that]) (use s less.prems(2,5,6) in \<open>simp_all add: T\<close>)
    consider "?r < s" | "s \<le> ?r" "?r < l" | "l \<le> ?r" by linarith
    then show ?thesis
    proof cases
      case 1
      let ?rs = "relative_senders (?r + s) s l"
      have "add_openings unpack (+) lens P b (rcv (s, l)) (s, l) (W ?r) = Inr (?W ?r)"
      proof -
        have "rcv (s, l) (absolute_num P b j) = enc_values enc lens (W j) \<and> length (W j) = length (W ?r)
            \<and> length (enc_values enc lens (W j)) < 2 ^ 64" if "j \<in> set ?rs" for j
        proof -
          have "s \<le> j" "j < l" using that set_relative_senders [of s "?r + s" l] s by auto
          with T_out [of j] less.prems(5) [of j] less.prems(6) [of j "(s, l)"] less.prems(3) show ?thesis by simp
        qed
        then show ?thesis
          using len_codec.add_all [OF C, of ?rs "rcv (s, l)" "absolute_num P b" lens W "W ?r" "(+)"] 1
          by (simp add: add_openings_def tree_step_def)
      qed
      then have "tree_phase pack unpack (+) lens P b rcv (s, l) (W ?r, os, sent) = Inr (?W ?r, os, sent)"
        using 1 by (simp add: tree_phase_def Let_def)
      moreover obtain os' out where "foldM_result (tree_phase pack unpack (+) lens P b rcv) (tree_phases k s) (?W ?r, os, sent)
          = Inr (tree_run (tree_phases k l) W ?r, os', sent @ out)" "os_writable os'"
        "tree_sends k s P b (os_data os @ enc_values enc lens (tree_run (tree_phases k l) W ?r)) out"
        using IH [OF less.prems(4)] by blast
      ultimately show ?thesis
        using 1 s by (intro exI [of _ os'] exI [of _ out]) (auto simp: phs tree_sends_def Let_def)
    next
      case 2
      obtain o' where o': "pack_values pack lens os (W ?r) = Inr o'" "os_extends os (enc_values enc lens (W ?r)) o'"
        using len_codec.pack_values_extends [OF C less.prems(4)] by blast
      have "tree_phase pack unpack (+) lens P b rcv (s, l) (W ?r, os, sent)
          = Inr (?W ?r, o', sent @ [(absolute_num P b (?r mod s), o')])"
        using 2 o'(1) by (simp add: tree_phase_def Let_def tree_step_outside)
      moreover obtain os' out where "foldM_result (tree_phase pack unpack (+) lens P b rcv) (tree_phases k s)
            (?W ?r, o', sent @ [(absolute_num P b (?r mod s), o')])
          = Inr (tree_run (tree_phases k l) W ?r, os', (sent @ [(absolute_num P b (?r mod s), o')]) @ out)" "os_writable os'"
        "tree_sends k s P b (os_data o' @ enc_values enc lens (tree_run (tree_phases k l) W ?r)) out"
        using IH [OF os_extends_writable [OF o'(2)]] by blast
      moreover from this have "out = []" using 2 by (simp add: tree_sends_def Let_def)
      ultimately show ?thesis
        using 2 s o'(2) T_out [OF 2(1)]
        by (intro exI [of _ os'] exI [of _ "[(absolute_num P b (?r mod s), o')]"]) (auto simp: phs tree_sends_def Let_def os_extends_def)
    next
      case 3
      have "tree_phase pack unpack (+) lens P b rcv (s, l) (W ?r, os, sent) = Inr (?W ?r, os, sent)"
        using 3 s by (simp add: tree_phase_def Let_def tree_step_outside)
      moreover obtain os' out where "foldM_result (tree_phase pack unpack (+) lens P b rcv) (tree_phases k s) (?W ?r, os, sent)
          = Inr (tree_run (tree_phases k l) W ?r, os', sent @ out)" "os_writable os'"
        "tree_sends k s P b (os_data os @ enc_values enc lens (tree_run (tree_phases k l) W ?r)) out"
        using IH [OF less.prems(4)] by blast
      ultimately show ?thesis
        using 3 s by (intro exI [of _ os'] exI [of _ out]) (auto simp: phs tree_sends_def Let_def)
    qed
  qed
qed

subsection \<open>The result\<close>

text \<open>What party \<open>i\<close> has summed up when it sends, and the sums.\<close>

definition tree_partial :: "nat \<Rightarrow> nat \<Rightarrow> nat \<Rightarrow> (nat \<Rightarrow> 'a :: comm_monoid_add list) \<Rightarrow> nat \<Rightarrow> 'a list" where
  "tree_partial opening_sum n b v i =
     tree_run (tree_phases (tree_arity n opening_sum) n) (\<lambda>r. v ((b + r) mod n)) ((i + n - b) mod n)"

definition tree_total :: "nat \<Rightarrow> nat \<Rightarrow> (nat \<Rightarrow> 'a :: comm_monoid_add list) \<Rightarrow> 'a list" where
  "tree_total n m v = map (\<lambda>i. \<Sum>j < n. v j ! i) [0..<m]"

lemma tree_phases_1: "1 \<le> k \<Longrightarrow> tree_phases k 1 = []"
  using tree_next_1 [of k] by (subst tree_phases.simps) (simp add: Let_def)

lemma tree_phases_arity:
  assumes "1 \<le> n"
  obtains k' where "2 \<le> k'" "tree_phases (tree_arity n k) n = tree_phases k' n"
proof (cases "n = 1")
  case True
  then have "tree_phases (tree_arity n k) n = []" "tree_phases 2 n = []"
    using tree_phases_1 [of "tree_arity n k"] tree_phases_1 [of 2] by (simp_all add: tree_arity_def)
  then show ?thesis using that [of 2] by simp
next
  case False
  then have "2 \<le> tree_arity n k" using assms by (simp add: tree_arity_def)
  then show ?thesis using that by blast
qed

lemma sum_shift:
  assumes "b < (n :: nat)"
  shows "(\<Sum>r < n. f ((b + r) mod n)) = (\<Sum>j < n. f j)"
proof -
  have "inj_on (\<lambda>r. (b + r) mod n) {..<n}"
  proof (rule inj_onI)
    fix x y assume *: "x \<in> {..<n}" "y \<in> {..<n}" "(b + x) mod n = (b + y) mod n"
    have shift: "((b + z) mod n + (n - b)) mod n = z mod n" for z
      using assms by (simp only: mod_add_left_eq) simp
    have "x mod n = y mod n" using shift [of x] shift [of y] *(3) by simp
    then show "x = y" using * by simp
  qed
  moreover have "(\<lambda>r. (b + r) mod n) ` {..<n} \<subseteq> {..<n}" using assms by auto
  ultimately have "bij_betw (\<lambda>r. (b + r) mod n) {..<n} {..<n}"
    by (simp add: bij_betw_def endo_inj_surj)
  then show ?thesis by (rule sum.reindex_bij_betw)
qed

lemma length_tree_partial: "(\<And>j. length (v j) = m) \<Longrightarrow> length (tree_partial k n b v i) = m"
  unfolding tree_partial_def by (rule length_tree_run)

text \<open>The base player has the sums.\<close>

lemma tree_partial_base:
  assumes "b < n" "\<And>j. length (v j) = m"
  shows "tree_partial k n b v b = tree_total n m v"
proof (rule nth_equalityI)
  show "length (tree_partial k n b v b) = length (tree_total n m v)"
    using length_tree_partial [of v m] assms by (simp add: tree_total_def)
  fix i assume "i < length (tree_partial k n b v b)"
  then have i: "i < m" using length_tree_partial [of v m] assms by simp
  obtain k' where k': "2 \<le> k'" "tree_phases (tree_arity n k) n = tree_phases k' n"
    using tree_phases_arity [of n k] assms(1) by auto
  have "tree_partial k n b v b ! i = (\<Sum>r < n. v ((b + r) mod n) ! i)"
    using tree_run_sum [OF k'(1) _ _ i, of n "\<lambda>r. v ((b + r) mod n)"] assms by (simp add: tree_partial_def k'(2))
  also have "\<dots> = (\<Sum>j < n. v j ! i)" by (rule sum_shift [OF assms(1)])
  finally show "tree_partial k n b v b ! i = tree_total n m v ! i" using i by (simp add: tree_total_def)
qed

text \<open>
  Passing the sums down: the players a party sends to are the ones that wait for its message.
\<close>

lemma relative_absolute_mod: "b < n \<Longrightarrow> r < n \<Longrightarrow> ((b + r) mod n + n - b) mod n = (r :: nat)"
proof -
  assume *: "b < n" "r < n"
  then have "((b + r) mod n + (n - b)) mod n = (b + r + (n - b)) mod n" by (simp only: mod_add_left_eq)
  with * show ?thesis by simp
qed

lemma tree_children_parent:
  assumes P: "pl_num P < pl_count P" "b < pl_count P" and d: "2 \<le> d" and c: "pl_num C < pl_count P" "pl_count C = pl_count P" "pl_num C \<noteq> b"
  shows "pl_num C \<in> set (tree_children P b d) \<longleftrightarrow> (b + relative_num C b div d) mod pl_count P = pl_num P"
proof -
  let ?n = "pl_count P" and ?c = "relative_num C b" and ?r = "relative_num P b"
  have c_less: "?c < ?n" using relative_num_less [of C b] c P by simp
  have c_abs: "(b + ?c) mod ?n = pl_num C" using absolute_relative [of C b] absolute_num_eq [of C b] c P by simp
  have r_abs: "(b + ?r) mod ?n = pl_num P" using absolute_relative [of P b] absolute_num_eq [of P b] P by simp
  have inj: "x = y" if "(b + x) mod ?n = (b + y) mod ?n" "x < ?n" "y < ?n" for x y
    by (metis relative_absolute_mod P(2) that)
  have c_pos: "0 < ?c" using c_abs c(3) P(2) by (cases "?c = 0") auto
  have div_less: "?c div d < ?n" using c_less by (meson div_le_dividend le_less_trans)
  have r_less: "?r < ?n" by (rule relative_num_less [OF P])
  have r0: "?r = 0 \<longleftrightarrow> pl_num P = b"
  proof
    assume "?r = 0" then show "pl_num P = b" using r_abs P(2) by simp
  next
    assume "pl_num P = b" then show "?r = 0" using P by (simp add: relative_num_eq)
  qed
  have "pl_num C \<in> set (tree_children P b d) \<longleftrightarrow> ?c \<in> (if pl_num P = b then {1..<d} else {?r * d..<?r * d + d})"
    (is "?A \<longleftrightarrow> ?B")
  proof
    assume ?A
    then obtain i where i: "i < ?n" "pl_num C = (b + i) mod ?n"
      "i \<in> (if pl_num P = b then {1..<d} else {?r * d..<?r * d + d})"
      by (auto simp: tree_children_def Let_def split: if_splits)
    then have "i = ?c" using inj [of i ?c] c_abs c_less by simp
    with i show ?B by simp
  next
    assume B: ?B
    have "?c \<in> set (if pl_num P = b then [1..<d] else map (\<lambda>i. ?r * d + i) [0..<d])"
    proof (cases "pl_num P = b")
      case False
      then have "?r * d \<le> ?c" "?c - ?r * d < d" using B by auto
      then have "?c \<in> (\<lambda>i. ?r * d + i) ` {0..<d}" by (intro image_eqI [of _ _ "?c - ?r * d"]) auto
      with False show ?thesis by simp
    qed (use B in simp)
    then show ?A
      using c_less c_abs unfolding tree_children_def Let_def set_map set_filter by (intro image_eqI [of _ _ ?c]) (simp_all only: mem_Collect_eq)
  qed
  also have "\<dots> \<longleftrightarrow> ?c div d = ?r"
  proof (cases "pl_num P = b")
    case True
    with r0 have "?r = 0" by simp
    then show ?thesis using True c_pos d by (auto simp: div_eq_0_iff)
  next
    case False
    have "?r * d \<le> ?c \<and> ?c < ?r * d + d" if r: "?c div d = ?r"
      unfolding r [symmetric] using d dividend_less_div_times [of d ?c] by (simp add: add.commute)
    moreover have "?c div d = ?r" if "?r * d \<le> ?c \<and> ?c < ?r * d + d"
      using that by (intro div_nat_eqI) (simp_all add: mult.commute)
    ultimately have "?c div d = ?r \<longleftrightarrow> ?r * d \<le> ?c \<and> ?c < ?r * d + d" by blast
    with False show ?thesis by simp
  qed
  also have "\<dots> \<longleftrightarrow> (b + ?c div d) mod ?n = pl_num P"
    using inj [of "?c div d" ?r] r_abs div_less r_less by auto
  finally show ?thesis .
qed

text \<open>
  What an honest run looks like: the same number of values at every party, the partial sums from below
  and the sums from above as messages.
\<close>

definition tree_honest ::
  "(int \<Rightarrow> 'a :: comm_monoid_add \<Rightarrow> octet list) \<Rightarrow> nat \<Rightarrow> nat \<Rightarrow> int list \<Rightarrow> player \<Rightarrow> nat \<Rightarrow> (nat \<Rightarrow> 'a list)
    \<Rightarrow> (nat \<times> nat \<Rightarrow> nat \<Rightarrow> octet list) \<Rightarrow> (nat \<Rightarrow> octet list) \<Rightarrow> bool" where
  "tree_honest enc opening_sum b lens P m v rcv rcvb \<longleftrightarrow>
     pl_num P < pl_count P \<and> b < pl_count P \<and> 0 < m \<and> (\<forall>j. length (v j) = m)
     \<and> (\<forall>vs. length vs = m \<longrightarrow> length (enc_values enc lens vs) < 2 ^ 64)
     \<and> (\<forall>ph j. rcv ph j = enc_values enc lens (tree_partial opening_sum (pl_count P) b v j))
     \<and> (\<forall>j. rcvb j = enc_values enc lens (tree_total (pl_count P) m v))"

lemma tree_partial_relative:
  assumes "b < n" "r < n"
  shows "tree_partial k n b v ((b + r) mod n) = tree_run (tree_phases (tree_arity n k) n) (\<lambda>r. v ((b + r) mod n)) r"
  using relative_absolute_mod [OF assms] by (simp add: tree_partial_def)

lemma os_reset_data: "os_data (os_reset_write_head os) = []"
  by (simp add: os_reset_write_head_def os_reset_read_head_def)

lemma map2_snd: "length xs = length ys \<Longrightarrow> map2 (\<lambda>_ t. t) xs ys = ys"
  by (induction xs ys rule: list_induct2) simp_all

lemma tree_sum_ok:
  assumes C: "len_codec pack unpack enc" and H: "tree_honest enc k b (tree_lengths lengths (v (pl_num P))) P m v rcv rcvb"
  shows "\<exists>up down. tree_sum pack unpack (+) b k d lengths P rcv rcvb os (v (pl_num P))
      = Inr (tree_total (pl_count P) m v, tree_total (pl_count P) m v,
          up @ map (\<lambda>i. (i, down)) (tree_children P b (tree_arity (pl_count P) d)))
    \<and> tree_sends (tree_arity (pl_count P) k) (pl_count P) P b
        (enc_values enc (tree_lengths lengths (v (pl_num P))) (tree_partial k (pl_count P) b v (pl_num P))) up
    \<and> os_data down = enc_values enc (tree_lengths lengths (v (pl_num P))) (tree_total (pl_count P) m v)"
proof -
  let ?n = "pl_count P" and ?lens = "tree_lengths lengths (v (pl_num P))" and ?r = "relative_num P b"
  let ?W = "\<lambda>r. v ((b + r) mod ?n)" and ?d = "tree_arity ?n d"
  have P: "pl_num P < ?n" "b < ?n" and m: "0 < m" and len: "\<And>j. length (v j) = m"
    and small: "\<And>vs. length vs = m \<Longrightarrow> length (enc_values enc ?lens vs) < 2 ^ 64"
    and rcv: "\<And>ph j. rcv ph j = enc_values enc ?lens (tree_partial k ?n b v j)"
    and rcvb: "\<And>j. rcvb j = enc_values enc ?lens (tree_total ?n m v)"
    using H unfolding tree_honest_def by blast+
  obtain k' where k': "2 \<le> k'" "tree_phases (tree_arity ?n k) ?n = tree_phases k' ?n"
    using tree_phases_arity [of ?n k] P by auto
  have partial: "tree_run (tree_phases k' ?n) ?W r = tree_partial k ?n b v ((b + r) mod ?n)" if "r < ?n" for r
    using tree_partial_relative [OF P(2) that, of k v] by (simp add: k'(2))
  have r: "?r < ?n" by (rule relative_num_less [OF P])
  have abs: "(b + ?r) mod ?n = pl_num P" using absolute_relative [OF P] absolute_num_eq [of P b] P by simp
  have sm: "length (enc_values enc ?lens (tree_run (tree_phases k' ?n) ?W j)) < 2 ^ 64" for j
    by (intro small length_tree_run len)
  have rc: "rcv ph (absolute_num P b j) = enc_values enc ?lens (tree_run (tree_phases k' ?n) ?W j)" if "j < ?n" for ph j
    using that P by (simp add: rcv partial absolute_num_eq)
  obtain os1 up where run: "foldM_result (tree_phase pack unpack (+) ?lens P b rcv) (tree_phases k' ?n)
        (?W ?r, os_reset_write_head os, []) = Inr (tree_run (tree_phases k' ?n) ?W ?r, os1, [] @ up)" "os_writable os1"
    and up: "tree_sends k' ?n P b (os_data (os_reset_write_head os) @ enc_values enc ?lens (tree_run (tree_phases k' ?n) ?W ?r)) up"
    using tree_phases_run [OF C k'(1) P, of ?n ?W m "os_reset_write_head os" ?lens rcv "[]", OF _ _ len os_writable_reset sm rc] P
    by auto
  have up': "tree_sends (tree_arity ?n k) ?n P b (enc_values enc ?lens (tree_partial k ?n b v (pl_num P))) up"
    using up unfolding tree_sends_def k'(2) by (simp only: partial [OF r] abs os_reset_data append_Nil)
  have total_len: "length (tree_total ?n m v) = m" by (simp add: tree_total_def)
  have nonempty: "v (pl_num P) \<noteq> []" using m len [of "pl_num P"] by auto
  show ?thesis
  proof (cases "pl_num P = b")
    case True
    obtain down where "pack_values pack ?lens (os_reset_write_head os1) (tree_total ?n m v) = Inr down"
      "os_extends (os_reset_write_head os1) (enc_values enc ?lens (tree_total ?n m v)) down"
      using len_codec.pack_values_extends [OF C os_writable_reset] by blast
    with True show ?thesis
      using run nonempty up' tree_partial_base [OF P(2) len, of k] abs
      by (intro exI [of _ up] exI [of _ down])
        (simp add: tree_sum_def tree_start_finish_def Let_def k'(2) partial [OF r] os_extends_def os_reset_write_head_def os_reset_read_head_def)
  next
    case False
    obtain down where "unpack_values unpack (\<lambda>_ t. t) ?lens (os_arrive os1 (enc_values enc ?lens (tree_total ?n m v)))
        (tree_partial k ?n b v (pl_num P)) = Inr (tree_total ?n m v, down)"
      "os_data down = enc_values enc ?lens (tree_total ?n m v)"
      using len_codec.unpack_values_arrive [OF C, of "tree_partial k ?n b v (pl_num P)" "tree_total ?n m v" ?lens "\<lambda>_ t. t" os1]
        small [OF total_len] total_len length_tree_partial [of v m, OF len] by (auto simp: map2_snd)
    moreover have "tree_children P b ?d = []" if "\<not> ?r * ?d < ?n"
      using that False by (simp add: tree_children_def Let_def filter_empty_conv)
    ultimately show ?thesis
      using False run nonempty up' abs
      by (intro exI [of _ up] exI [of _ down])
        (simp add: tree_sum_def tree_start_finish_def Let_def k'(2) partial [OF r] ReceiveValues_def rcvb)
  qed
qed



end
