(* ===== verification/Share.thy ===== *)
theory Share
  imports TreeSum
begin

section \<open>Additive shares, with and without MAC (Protocols/Share, Protocols/SemiShare)\<close>

text \<open>
  A share of one party: the classes \<open>Share_\<close> (a share and a share of its MAC, both \<open>SemiShare\<close>) and
  \<open>SemiShare\<close> (an element of the ring itself), over any commutative ring. What the shares of all parties
  together stand for is \<open>additive\<close> and \<open>authentic\<close>; the locale \<open>linear_sharing\<close> is the interface that
  protocols on shares rely on.
\<close>

subsection \<open>PointerVector (Tools/PointerVector.h)\<close>

text \<open>A vector and the index of the next element; \<open>operator[]\<close> is \<open>at\<close>, which throws.\<close>

record 'a pointer_vector =
  pv_data :: "'a list"
  pv_i :: nat

definition pv_new :: "'a pointer_vector" where
  "pv_new = \<lparr>pv_data = [], pv_i = 0\<rparr>"

definition pv_of_vector :: "'a list \<Rightarrow> 'a pointer_vector" where
  "pv_of_vector other = \<lparr>pv_data = other, pv_i = 0\<rparr>"

definition pv_reset :: "'a pointer_vector \<Rightarrow> 'a pointer_vector" where
  "pv_reset v = v\<lparr>pv_i := 0\<rparr>"

definition pv_clear :: "'a pointer_vector \<Rightarrow> 'a pointer_vector" where
  "pv_clear v = pv_reset (v\<lparr>pv_data := []\<rparr>)"

definition pv_push_back :: "'a \<Rightarrow> 'a pointer_vector \<Rightarrow> 'a pointer_vector" where
  "pv_push_back x v = v\<lparr>pv_data := pv_data v @ [x]\<rparr>"

definition pv_next :: "'a pointer_vector \<Rightarrow> ('a \<times> 'a pointer_vector) result" where
  "pv_next v = (if pv_i v < length (pv_data v) then Inr (pv_data v ! pv_i v, v\<lparr>pv_i := pv_i v + 1\<rparr>) else Inl out_of_range)"

text \<open>\<open>skip\<close> returns a pointer, here the rest of the vector it points to.\<close>

definition pv_skip :: "nat \<Rightarrow> 'a pointer_vector \<Rightarrow> 'a list \<times> 'a pointer_vector" where
  "pv_skip n v = (drop (pv_i v + n) (pv_data v), v\<lparr>pv_i := pv_i v + n\<rparr>)"

definition pv_left :: "'a pointer_vector \<Rightarrow> nat" where
  "pv_left v = length (pv_data v) - pv_i v"

text \<open>Reading \<open>n\<close> elements in a row.\<close>

fun pv_take :: "nat \<Rightarrow> 'a pointer_vector \<Rightarrow> ('a list \<times> 'a pointer_vector) result" where
  "pv_take 0 v = Inr ([], v)"
| "pv_take (Suc n) v = bind_result (pv_next v) (\<lambda>(x, v). bind_result (pv_take n v) (\<lambda>(xs, v). Inr (x # xs, v)))"

lemma pv_take_left:
  "n \<le> pv_left v \<Longrightarrow> pv_take n v = Inr (take n (drop (pv_i v) (pv_data v)), v\<lparr>pv_i := pv_i v + n\<rparr>)"
proof (induction n arbitrary: v)
  case (Suc n)
  then have "pv_i v < length (pv_data v)" by (simp add: pv_left_def)
  then show ?case
    using Suc.IH [of "v\<lparr>pv_i := pv_i v + 1\<rparr>"] Suc.prems
    by (simp add: pv_next_def pv_left_def Cons_nth_drop_Suc [symmetric])
qed simp

subsection \<open>SemiShare\<close>

text \<open>\<open>SPDZ::assign\<close>: player 0 holds the constant.\<close>

definition semi_assign :: "'a :: zero \<Rightarrow> nat \<Rightarrow> 'a" where
  "semi_assign other my_num = (if my_num = 0 then other else 0)"

definition semi_constant :: "'a :: zero \<Rightarrow> nat \<Rightarrow> 'a" where
  "semi_constant other my_num = semi_assign other my_num"

definition semi_threshold :: "nat \<Rightarrow> nat" where
  "semi_threshold nplayers = nplayers - 1"

subsection \<open>Share\<close>

datatype 'a share = Share (get_share: 'a) (get_mac: 'a)

definition set_share :: "'a \<Rightarrow> 'a share \<Rightarrow> 'a share" where
  "set_share aa S = Share aa (get_mac S)"

definition set_mac :: "'a \<Rightarrow> 'a share \<Rightarrow> 'a share" where
  "set_mac aa S = Share (get_share S) aa"

definition share_add :: "'a :: plus share \<Rightarrow> 'a share \<Rightarrow> 'a share" where
  "share_add S1 S2 = Share (get_share S1 + get_share S2) (get_mac S1 + get_mac S2)"

definition share_sub :: "'a :: minus share \<Rightarrow> 'a share \<Rightarrow> 'a share" where
  "share_sub S1 S2 = Share (get_share S1 - get_share S2) (get_mac S1 - get_mac S2)"

definition share_mul :: "'a :: times share \<Rightarrow> 'a \<Rightarrow> 'a share" where
  "share_mul S aa = Share (get_share S * aa) (aa * get_mac S)"

text \<open>\<open>operator/\<close>, by the division \<open>dv\<close> of the elements, which may throw.\<close>

definition share_div :: "('a \<Rightarrow> 'a \<Rightarrow> 'a result) \<Rightarrow> 'a share \<Rightarrow> 'a \<Rightarrow> 'a share result" where
  "share_div dv S x =
     bind_result (dv (get_share S) x) (\<lambda>a. bind_result (dv (get_mac S) x) (\<lambda>mac. Inr (Share a mac)))"

definition share_assign_zero :: "'a :: zero share" where
  "share_assign_zero = Share 0 0"

definition share_assign :: "'a :: comm_ring_1 \<Rightarrow> nat \<Rightarrow> 'a \<Rightarrow> 'a share" where
  "share_assign aa my_num alphai = Share (semi_constant aa my_num) (aa * alphai)"

definition share_constant :: "'a :: comm_ring_1 \<Rightarrow> nat \<Rightarrow> 'a \<Rightarrow> 'a share" where
  "share_constant aa my_num alphai = share_assign aa my_num alphai"

text \<open>Converting copy; \<open>cv\<close> is the conversion of the elements.\<close>

definition share_convert :: "('b \<Rightarrow> 'a) \<Rightarrow> 'b share \<Rightarrow> 'a share" where
  "share_convert cv S = Share (cv (get_share S)) (cv (get_mac S))"

text \<open>From a buffer; \<open>get\<close> is \<open>T::assign\<close>, \<open>sz\<close> is \<open>T::size()\<close>.\<close>

definition share_of_buffer :: "(octet list \<Rightarrow> 'a) \<Rightarrow> nat \<Rightarrow> octet list \<Rightarrow> 'a share" where
  "share_of_buffer get sz buffer = Share (get buffer) (get (drop sz buffer))"

definition share_shl :: "'k :: len word share \<Rightarrow> nat \<Rightarrow> 'k word share" where
  "share_shl S i = share_mul S (push_bit i 1)"

definition share_shr :: "'k :: len word share \<Rightarrow> nat \<Rightarrow> 'k word share" where
  "share_shr S i = Share (drop_bit i (get_share S)) (drop_bit i (get_mac S))"

definition share_randomize :: "(prng \<Rightarrow> ('a \<times> prng) result) \<Rightarrow> prng \<Rightarrow> ('a share \<times> prng) result" where
  "share_randomize draw G = bind_result (draw G) (\<lambda>(a, G). bind_result (draw G) (\<lambda>(mac, G). Inr (Share a mac, G)))"

text \<open>Without the flag \<open>full\<close> the MAC is neither sent nor changed.\<close>

definition share_pack :: "(octet_stream \<Rightarrow> 'a \<Rightarrow> octet_stream result) \<Rightarrow> bool \<Rightarrow> octet_stream \<Rightarrow> 'a share \<Rightarrow> octet_stream result" where
  "share_pack pack full os S =
     bind_result (pack os (get_share S)) (\<lambda>os. if full then pack os (get_mac S) else Inr os)"

definition share_unpack ::
  "(octet_stream \<Rightarrow> ('a \<times> octet_stream) result) \<Rightarrow> bool \<Rightarrow> octet_stream \<Rightarrow> 'a share \<Rightarrow> ('a share \<times> octet_stream) result" where
  "share_unpack unpack full os S =
     bind_result (unpack os) (\<lambda>(a, os).
       if full then bind_result (unpack os) (\<lambda>(mac, os). Inr (Share a mac, os)) else Inr (set_share a S, os))"

text \<open>Shares are a group; \<open>operator+\<close>, \<open>operator-\<close> and \<open>assign_zero\<close> are its operations.\<close>

instantiation share :: (ab_group_add) ab_group_add
begin

definition zero_share :: "'a share" where
  "zero_share = share_assign_zero"

definition plus_share :: "'a share \<Rightarrow> 'a share \<Rightarrow> 'a share" where
  "plus_share = share_add"

definition minus_share :: "'a share \<Rightarrow> 'a share \<Rightarrow> 'a share" where
  "minus_share = share_sub"

definition uminus_share :: "'a share \<Rightarrow> 'a share" where
  "uminus_share S = share_sub share_assign_zero S"

instance
  by intro_classes (simp_all add: zero_share_def plus_share_def minus_share_def uminus_share_def
      share_add_def share_sub_def share_assign_zero_def algebra_simps)

end

lemma get_share_simps [simp]:
  "get_share (S + S') = get_share S + get_share S'" "get_mac (S + S') = get_mac S + get_mac S'"
  "get_share (S - S') = get_share S - get_share S'" "get_mac (S - S') = get_mac S - get_mac S'"
  "get_share 0 = 0" "get_mac 0 = 0"
  by (simp_all add: plus_share_def minus_share_def zero_share_def share_add_def share_sub_def share_assign_zero_def)

lemma get_share_mul [simp]: "get_share (share_mul S x) = get_share S * x" "get_mac (share_mul S x) = x * get_mac S"
  by (simp_all add: share_mul_def)

lemma get_share_constant [simp]:
  "get_share (share_constant x i a) = semi_constant x i" "get_mac (share_constant x i a) = x * a"
  by (simp_all add: share_constant_def share_assign_def)

subsection \<open>What shares stand for\<close>

text \<open>The interface of a linear secret sharing among \<open>n\<close> parties; \<open>holds f x\<close>: the shares \<open>f\<close> stand for \<open>x\<close>.\<close>

locale linear_sharing =
  fixes n :: nat
    and holds :: "(nat \<Rightarrow> 's) \<Rightarrow> 'a :: comm_ring_1 \<Rightarrow> bool"
    and add sub :: "'s \<Rightarrow> 's \<Rightarrow> 's"
    and mul :: "'s \<Rightarrow> 'a \<Rightarrow> 's"
    and const :: "'a \<Rightarrow> nat \<Rightarrow> 's"
  assumes holds_add: "holds f x \<Longrightarrow> holds g y \<Longrightarrow> holds (\<lambda>i. add (f i) (g i)) (x + y)"
    and holds_sub: "holds f x \<Longrightarrow> holds g y \<Longrightarrow> holds (\<lambda>i. sub (f i) (g i)) (x - y)"
    and holds_mul: "holds f x \<Longrightarrow> holds (\<lambda>i. mul (f i) c) (c * x)"
    and holds_const: "0 < n \<Longrightarrow> holds (const c) c"
begin

text \<open>The product of two shared values, from a shared triple and the two opened differences.\<close>

lemma holds_beaver:
  assumes "0 < n" "holds f x" "holds g y" "holds a u" "holds b v" "holds c (u * v)"
  shows "holds (\<lambda>i. add (add (add (c i) (mul (b i) (x - u))) (mul (a i) (y - v))) (const ((x - u) * (y - v)) i)) (x * y)"
proof -
  have "holds (\<lambda>i. add (add (add (c i) (mul (b i) (x - u))) (mul (a i) (y - v))) (const ((x - u) * (y - v)) i))
      (u * v + (x - u) * v + (y - v) * u + (x - u) * (y - v))"
    using assms by (intro holds_add holds_mul holds_const)
  moreover have "u * v + (x - u) * v + (y - v) * u + (x - u) * (y - v) = x * y" by (simp add: algebra_simps)
  ultimately show ?thesis by simp
qed

end

text \<open>Additive shares.\<close>

definition additive :: "nat \<Rightarrow> (nat \<Rightarrow> 'a :: comm_monoid_add) \<Rightarrow> 'a \<Rightarrow> bool" where
  "additive n f x \<longleftrightarrow> (\<Sum>i < n. f i) = x"

lemma sum_semi_constant: "0 < n \<Longrightarrow> (\<Sum>i < n. semi_constant (x :: 'a :: comm_monoid_add) i) = x"
  by (simp add: semi_constant_def semi_assign_def)

interpretation semi: linear_sharing n "additive n" "(+)" "(-) :: 'a :: comm_ring_1 \<Rightarrow> 'a \<Rightarrow> 'a" "(*)" semi_constant for n
  by unfold_locales
    (auto simp: additive_def sum.distrib sum_subtractf sum_semi_constant mult.commute simp flip: sum_distrib_left)

text \<open>Shares with MAC: the shares add up to the value, the MACs to the value times the key, whose shares are \<open>alphas\<close>.\<close>

definition authentic :: "nat \<Rightarrow> (nat \<Rightarrow> 'a :: comm_ring_1) \<Rightarrow> (nat \<Rightarrow> 'a share) \<Rightarrow> 'a \<Rightarrow> bool" where
  "authentic n alphas f x \<longleftrightarrow> (\<Sum>i < n. get_share (f i)) = x \<and> (\<Sum>i < n. get_mac (f i)) = x * (\<Sum>i < n. alphas i)"

interpretation spdz: linear_sharing n "authentic n alphas" "(+)" "(-)" share_mul "\<lambda>c i. share_constant c i (alphas i)"
  for n and alphas :: "nat \<Rightarrow> 'a :: comm_ring_1"
  by unfold_locales
    (auto simp: authentic_def sum.distrib sum_subtractf sum_semi_constant algebra_simps simp flip: sum_distrib_left sum_distrib_right)

end
