(* ===== verification/MacCheck.thy ===== *)
theory MacCheck
  imports Share
begin

section \<open>Opening values and checking MACs (Protocols/MAC_Check, MAC_Check_Base, SemiMC)\<close>

text \<open>
  The opening protocols: \<open>MAC_Check_Base\<close> with its virtual methods as a record of functions,
  \<open>Tree_MAC_Check\<close> and \<open>Direct_MAC_Check\<close> with what they keep for the check, the check of SPDZ and
  the one of SPDZ2k, and \<open>SemiMC\<close> without a check. The state is one party's; what the others send in a
  round is an argument. Timers and the coordinator, which orders concurrent threads, are not modelled.
\<close>

definition POPEN_MAX :: nat where
  "POPEN_MAX = 1000000"

subsection \<open>State\<close>

text \<open>\<open>'s\<close> is the type of shares, \<open>'a\<close> the type of values and MACs.\<close>

record ('s, 'a) mac_check =
  mc_alphai :: 'a
  mc_secrets :: "'s pointer_vector"
  mc_values :: "'a pointer_vector"
  mc_values_opened :: nat
  mc_base_player :: nat
  mc_opening_sum :: nat
  mc_max_broadcast :: nat
  mc_lengths :: "int list"
  mc_popen_cnt :: nat
  mc_macs :: "'a list"
  mc_vals :: "'a list"
  mc_oss :: "octet_stream list"
  mc_open_counter :: nat
  mc_random_elements :: "'s list"

definition tree_mac_check_new :: "'a \<Rightarrow> nat \<Rightarrow> nat \<Rightarrow> nat \<Rightarrow> ('s, 'a) mac_check" where
  "tree_mac_check_new ai opening_sum max_broadcast send_player =
     \<lparr>mc_alphai = ai, mc_secrets = pv_new, mc_values = pv_new, mc_values_opened = 0, mc_base_player = send_player,
      mc_opening_sum = opening_sum, mc_max_broadcast = max_broadcast, mc_lengths = [], mc_popen_cnt = 0, mc_macs = [],
      mc_vals = [], mc_oss = [], mc_open_counter = 0, mc_random_elements = []\<rparr>"

subsection \<open>MAC_Check_Base\<close>

text \<open>The virtual methods.\<close>

record ('s, 'a) mc_ops =
  op_init_open :: "nat \<Rightarrow> ('s, 'a) mac_check \<Rightarrow> ('s, 'a) mac_check"
  op_prepare_open :: "'s \<Rightarrow> int \<Rightarrow> ('s, 'a) mac_check \<Rightarrow> ('s, 'a) mac_check result"
  op_exchange :: "player \<Rightarrow> ('s, 'a) mac_check \<Rightarrow> (('s, 'a) mac_check \<times> player) result"
  op_Check :: "player \<Rightarrow> ('s, 'a) mac_check \<Rightarrow> (('s, 'a) mac_check \<times> player) result"

definition base_init_open :: "nat \<Rightarrow> ('s, 'a) mac_check \<Rightarrow> ('s, 'a) mac_check" where
  "base_init_open n mc = mc\<lparr>mc_secrets := pv_clear (mc_secrets mc), mc_values := pv_clear (mc_values mc)\<rparr>"

definition base_prepare_open :: "'s \<Rightarrow> int \<Rightarrow> ('s, 'a) mac_check \<Rightarrow> ('s, 'a) mac_check result" where
  "base_prepare_open secret n_bits mc = Inr (mc\<lparr>mc_secrets := pv_push_back secret (mc_secrets mc)\<rparr>)"

definition finalize_raw :: "('s, 'a) mac_check \<Rightarrow> ('a \<times> ('s, 'a) mac_check) result" where
  "finalize_raw mc = bind_result (pv_next (mc_values mc)) (\<lambda>(x, v). Inr (x, mc\<lparr>mc_values := v\<rparr>))"

definition finalize_open :: "('a \<Rightarrow> 'c) \<Rightarrow> ('s, 'a) mac_check \<Rightarrow> ('c \<times> ('s, 'a) mac_check) result" where
  "finalize_open cv mc = bind_result (finalize_raw mc) (\<lambda>(x, mc). Inr (cv x, mc))"

text \<open>The two pointers returned enclose the next \<open>n\<close> values.\<close>

definition finalize_several :: "nat \<Rightarrow> ('s, 'a) mac_check \<Rightarrow> ('a list \<times> ('s, 'a) mac_check) result" where
  "finalize_several n mc =
     (if pv_left (mc_values mc) < n then Inl assertion_failed
      else let (from, v) = pv_skip 0 (mc_values mc);
               (upto, v) = pv_skip n v
           in Inr (take (length from - length upto) from, mc\<lparr>mc_values := v\<rparr>))"

definition POpen_Begin ::
  "('s, 'a) mc_ops \<Rightarrow> 's list \<Rightarrow> player \<Rightarrow> ('s, 'a) mac_check \<Rightarrow> (('s, 'a) mac_check \<times> player) result" where
  "POpen_Begin ops S P mc =
     bind_result (foldM_result (\<lambda>secret. op_prepare_open ops secret (- 1)) S (op_init_open ops (length S) mc))
       (\<lambda>mc. op_exchange ops P mc)"

fun finalize_all :: "nat \<Rightarrow> ('s, 'a) mac_check \<Rightarrow> ('a list \<times> ('s, 'a) mac_check) result" where
  "finalize_all 0 mc = Inr ([], mc)"
| "finalize_all (Suc n) mc =
     bind_result (finalize_raw mc) (\<lambda>(x, mc). bind_result (finalize_all n mc) (\<lambda>(xs, mc). Inr (x # xs, mc)))"

definition POpen_End :: "'s list \<Rightarrow> ('s, 'a) mac_check \<Rightarrow> ('a list \<times> ('s, 'a) mac_check) result" where
  "POpen_End S mc = finalize_all (length S) mc"

definition POpen ::
  "('s, 'a) mc_ops \<Rightarrow> 's list \<Rightarrow> player \<Rightarrow> ('s, 'a) mac_check \<Rightarrow> ('a list \<times> ('s, 'a) mac_check \<times> player) result" where
  "POpen ops S P mc =
     bind_result (POpen_Begin ops S P mc) (\<lambda>(mc, P).
     bind_result (POpen_End S mc) (\<lambda>(values, mc). Inr (values, mc, P)))"

definition POpen_one ::
  "('s, 'a) mc_ops \<Rightarrow> 's \<Rightarrow> player \<Rightarrow> ('s, 'a) mac_check \<Rightarrow> ('a \<times> ('s, 'a) mac_check \<times> player) result" where
  "POpen_one ops secret P mc = bind_result (POpen ops [secret] P mc) (\<lambda>(opened, mc, P). Inr (opened ! 0, mc, P))"

definition CheckFor ::
  "('s, 'a) mc_ops \<Rightarrow> ('a \<Rightarrow> 'c) \<Rightarrow> 'a \<Rightarrow> 's list \<Rightarrow> player \<Rightarrow> ('s, 'a) mac_check \<Rightarrow> (('s, 'a) mac_check \<times> player) result" where
  "CheckFor ops clear value shares P mc =
     bind_result (POpen ops shares P mc) (\<lambda>(opened, mc, P).
       if list_all (\<lambda>check. clear value = clear check) opened then op_Check ops P mc
       else Inl (offline_check_error ''CheckFor''))"

subsection \<open>Tree_MAC_Check\<close>

definition tree_init_open :: "nat \<Rightarrow> ('s, 'a) mac_check \<Rightarrow> ('s, 'a) mac_check" where
  "tree_init_open n mc = mc\<lparr>mc_secrets := pv_clear (mc_secrets mc), mc_values := pv_clear (mc_values mc)\<rparr>"

definition tree_prepare_open :: "bool \<Rightarrow> 'a share \<Rightarrow> int \<Rightarrow> ('a share, 'a) mac_check \<Rightarrow> ('a share, 'a) mac_check result" where
  "tree_prepare_open invertible secret n_bits mc =
     (if \<not> invertible then Inl assertion_failed
      else Inr (mc\<lparr>mc_values := pv_push_back (get_share secret) (mc_values mc), mc_macs := mc_macs mc @ [get_mac secret]\<rparr>))"

definition WaitingForCheck :: "('s, 'a) mac_check \<Rightarrow> nat" where
  "WaitingForCheck mc = max (length (mc_macs mc)) (length (mc_vals mc))"

definition AddToValues :: "'a list \<Rightarrow> ('s, 'a) mac_check \<Rightarrow> ('s, 'a) mac_check" where
  "AddToValues values mc = mc\<lparr>mc_vals := mc_vals mc @ values\<rparr>"

definition CheckIfNeeded ::
  "(player \<Rightarrow> ('s, 'a) mac_check \<Rightarrow> (('s, 'a) mac_check \<times> player) result) \<Rightarrow> player \<Rightarrow> ('s, 'a) mac_check
    \<Rightarrow> (('s, 'a) mac_check \<times> player) result" where
  "CheckIfNeeded Check P mc = (if POPEN_MAX \<le> WaitingForCheck mc then Check P mc else Inr (mc, P))"

text \<open>\<open>exchange\<close>: the summation tree on the values.\<close>

definition tree_exchange ::
  "(int \<Rightarrow> octet_stream \<Rightarrow> 'a :: plus \<Rightarrow> octet_stream result) \<Rightarrow> (int \<Rightarrow> octet_stream \<Rightarrow> ('a \<times> octet_stream) result)
    \<Rightarrow> (nat \<times> nat \<Rightarrow> nat \<Rightarrow> octet list) \<Rightarrow> (nat \<Rightarrow> octet list)
    \<Rightarrow> (player \<Rightarrow> ('s, 'a) mac_check \<Rightarrow> (('s, 'a) mac_check \<times> player) result) \<Rightarrow> player \<Rightarrow> ('s, 'a) mac_check
    \<Rightarrow> (('s, 'a) mac_check \<times> player) result" where
  "tree_exchange pack unpack rcv rcvb Check P mc =
     bind_result (tree_sum pack unpack (+) (mc_base_player mc) (mc_opening_sum mc) (mc_max_broadcast mc) (mc_lengths mc)
         P rcv rcvb os_empty (pv_data (mc_values mc))) (\<lambda>(values, added, sent).
       let mc = AddToValues added (mc\<lparr>mc_values := (mc_values mc)\<lparr>pv_data := values\<rparr>\<rparr>);
           mc = mc\<lparr>mc_values_opened := mc_values_opened mc + length values, mc_popen_cnt := mc_popen_cnt mc + length values\<rparr>
       in CheckIfNeeded Check P mc)"

definition AddToCheck ::
  "(player \<Rightarrow> ('a share, 'a) mac_check \<Rightarrow> (('a share, 'a) mac_check \<times> player) result) \<Rightarrow> 'a share \<Rightarrow> 'a \<Rightarrow> player
    \<Rightarrow> ('a share, 'a) mac_check \<Rightarrow> (('a share, 'a) mac_check \<times> player) result" where
  "AddToCheck Check share value P mc =
     CheckIfNeeded Check P (mc\<lparr>mc_macs := mc_macs mc @ [get_mac share], mc_vals := mc_vals mc @ [value],
       mc_popen_cnt := mc_popen_cnt mc + 1\<rparr>)"

text \<open>The destructor ends the process if anything is left to check.\<close>

definition tree_mac_check_destroy :: "('s, 'a) mac_check \<Rightarrow> unit result" where
  "tree_mac_check_destroy mc = (if 0 < WaitingForCheck mc then Inl process_exit else Inr ())"

subsection \<open>MAC_Check_\<close>

text \<open>
  What a check gets from the template arguments and the environment: the block cipher, the hash, the
  state of the fresh generators, the random bytes, the messages of the others in the two rounds of the
  random seed and of the final commitment, the packing and the random elements.
\<close>

record ('u, 'a) check_env =
  ce_E :: block_cipher
  ce_pl :: nat
  ce_H :: hash
  ce_entropy :: "octet list"
  ce_G :: prng
  ce_rnd_seed :: "octet list"
  ce_rcvc_seed :: "nat \<Rightarrow> octet list"
  ce_rcvo_seed :: "nat \<Rightarrow> octet list"
  ce_rnd :: "octet list"
  ce_rcvc :: "nat \<Rightarrow> octet list"
  ce_rcvo :: "nat \<Rightarrow> octet list"
  ce_pack :: "octet_stream \<Rightarrow> 'a \<Rightarrow> octet_stream result"
  ce_unpack :: "octet_stream \<Rightarrow> ('a \<times> octet_stream) result"
  ce_randomize :: "prng \<Rightarrow> ('u \<times> prng) result"

definition check_field_size :: "nat \<Rightarrow> nat \<Rightarrow> unit result" where
  "check_field_size length_T security_parameter =
     (if length_T < security_parameter
      then Inl (runtime_error ''Field too small for chosen security. Increase size with -lgp or decrease security with -S'')
      else Inr ())"

text \<open>Adding what the others committed to for one value, in the order of the parties.\<close>

definition delta_step :: "('u, 'a :: comm_ring_1) check_env \<Rightarrow> player \<Rightarrow> 'a \<Rightarrow> octet_stream list \<Rightarrow> octet_stream list result" where
  "delta_step env P delta bundle =
     bind_result (foldM_result (\<lambda>i (delta, bundle). if i \<noteq> pl_num P
           then bind_result (ce_unpack env (bundle ! i)) (\<lambda>(v, os). Inr (delta + v, bundle[i := os]))
           else Inr (delta, bundle)) [0..<pl_count P] (delta, bundle))
       (\<lambda>(delta, bundle). if delta \<noteq> 0 then Inl mac_fail else Inr bundle)"

definition mac_deltas :: "('s, 'a :: comm_ring_1) mac_check \<Rightarrow> 'a list" where
  "mac_deltas mc = map (\<lambda>i. mc_vals mc ! i * mc_alphai mc - mc_macs mc ! i) [0..<mc_popen_cnt mc]"

definition check_each :: "('u, 'a :: comm_ring_1) check_env \<Rightarrow> player \<Rightarrow> ('s, 'a) mac_check \<Rightarrow> player result" where
  "check_each env P mc =
     bind_result (foldM_result (\<lambda>delta os. ce_pack env os delta) (mac_deltas mc) os_empty) (\<lambda>mine.
     bind_result (Commit_And_Open_streams (ce_H env) (ce_rnd env) (ce_rcvc env) (ce_rcvo env) P (own_slot P mine)) (\<lambda>(bundle, P).
     bind_result (foldM_result (delta_step env P) (mac_deltas mc) bundle) (\<lambda>_. Inr P)))"

text \<open>The shared seed and a generator on it.\<close>

definition check_prng :: "('u, 'a) check_env \<Rightarrow> player \<Rightarrow> (prng \<times> player) result" where
  "check_prng env P =
     bind_result (Create_Random_Seed (ce_E env) (ce_pl env) (ce_entropy env) (ce_G env) (ce_H env) (ce_rnd_seed env)
         (ce_rcvc_seed env) (ce_rcvo_seed env) P SEED_SIZE) (\<lambda>(seed, P).
     bind_result (prng_SetSeed (ce_E env) (ce_pl env) seed (ce_G env)) (\<lambda>G. Inr (G, P)))"

definition check_combined :: "('a, 'a :: comm_ring_1) check_env \<Rightarrow> player \<Rightarrow> ('s, 'a) mac_check \<Rightarrow> player result" where
  "check_combined env P mc =
     bind_result (check_prng env P) (\<lambda>(G, P).
     bind_result (foldM_result (\<lambda>i (a, gami, G). bind_result (ce_randomize env G) (\<lambda>(h, G).
           Inr (a + mc_vals mc ! i * h, gami + h * mc_macs mc ! i, G))) [0..<mc_popen_cnt mc] (0, 0, G)) (\<lambda>(a, gami, G).
     bind_result (Commit_And_Open (ce_pack env) (ce_unpack env) (ce_H env) (ce_rnd env) (ce_rcvc env) (ce_rcvo env) P
         (gami - mc_alphai mc * a)) (\<lambda>(tau, P).
       if foldl (+) 0 tau \<noteq> 0 then Inl mac_fail else Inr P)))"

definition mac_check_erase :: "('s, 'a) mac_check \<Rightarrow> ('s, 'a) mac_check" where
  "mac_check_erase mc = mc\<lparr>mc_vals := drop (mc_popen_cnt mc) (mc_vals mc), mc_macs := drop (mc_popen_cnt mc) (mc_macs mc),
     mc_popen_cnt := 0\<rparr>"

text \<open>\<open>Check\<close>; an index past the stored values or MACs is not checked.\<close>

definition mac_check_Check ::
  "bool \<Rightarrow> nat \<Rightarrow> nat \<Rightarrow> bool \<Rightarrow> ('a, 'a :: comm_ring_1) check_env \<Rightarrow> player \<Rightarrow> ('s, 'a) mac_check
    \<Rightarrow> (('s, 'a) mac_check \<times> player) result" where
  "mac_check_Check invertible length_T security_parameter coordinator env P mc =
     (if \<not> invertible then Inl assertion_failed
      else bind_result (check_field_size length_T security_parameter) (\<lambda>_.
        if WaitingForCheck mc = 0 then Inr (mc, P)
        else if mc_popen_cnt mc < length (mc_macs mc) \<or> \<not> coordinator then Inl assertion_failed
        else if length (mc_vals mc) < mc_popen_cnt mc \<or> length (mc_macs mc) < mc_popen_cnt mc then Inl undefined_behaviour
        else bind_result (if mc_popen_cnt mc < 10 then check_each env P mc else check_combined env P mc) (\<lambda>P.
          Inr (mac_check_erase mc, P))))"

subsection \<open>MAC_Check_Z2k\<close>

text \<open>A mask: the last one set, else one of the preprocessing, the argument \<open>prep\<close>, else the process ends.\<close>

definition get_random_element ::
  "'a :: zero share option \<Rightarrow> ('a share, 'a) mac_check \<Rightarrow> ('a share \<times> ('a share, 'a) mac_check) result" where
  "get_random_element prep mc =
     (if mc_random_elements mc \<noteq> [] then Inr (last (mc_random_elements mc), mc\<lparr>mc_random_elements := butlast (mc_random_elements mc)\<rparr>)
      else case prep of Some r \<Rightarrow> Inr (r, mc) | None \<Rightarrow> Inl process_exit)"

definition set_random_element :: "'s \<Rightarrow> ('s, 'a) mac_check \<Rightarrow> ('s, 'a) mac_check" where
  "set_random_element r mc = mc\<lparr>mc_random_elements := mc_random_elements mc @ [r]\<rparr>"

definition z2k_prepare_open_no_mask :: "'a share \<Rightarrow> ('a share, 'a) mac_check \<Rightarrow> ('a share, 'a) mac_check" where
  "z2k_prepare_open_no_mask secret mc =
     mc\<lparr>mc_values := pv_push_back (get_share secret) (mc_values mc), mc_macs := mc_macs mc @ [get_mac secret]\<rparr>"

text \<open>\<open>k\<close> is the number of bits of the values, \<open>N_BITS\<close> of \<open>clear\<close>.\<close>

definition z2k_prepare_open ::
  "nat \<Rightarrow> 'w :: len word share option \<Rightarrow> 'w word share \<Rightarrow> int \<Rightarrow> ('w word share, 'w word) mac_check
    \<Rightarrow> ('w word share, 'w word) mac_check result" where
  "z2k_prepare_open k prep secret n_bits mc =
     bind_result (get_random_element prep mc) (\<lambda>(r, mc).
       Inr (z2k_prepare_open_no_mask (share_add secret (share_shl r k)) mc))"

text \<open>The check; the state is cleared before the exception. \<open>cv\<close> embeds the coefficients, of fewer bits, in the ring.\<close>

definition z2k_Check ::
  "('u \<Rightarrow> 'a) \<Rightarrow> bool \<Rightarrow> ('u, 'a :: comm_ring_1) check_env \<Rightarrow> player \<Rightarrow> ('s, 'a) mac_check
    \<Rightarrow> (('s, 'a) mac_check \<times> player) result" where
  "z2k_Check cv coordinator env P mc =
     (if WaitingForCheck mc = 0 then Inr (mc, P)
      else bind_result (check_prng env P) (\<lambda>(G, P).
        if length (mc_vals mc) < mc_popen_cnt mc \<or> length (mc_macs mc) < mc_popen_cnt mc then Inl undefined_behaviour
        else bind_result (foldM_result (\<lambda>i (y, mj, G). bind_result (ce_randomize env G) (\<lambda>(chi, G).
             Inr (y + mc_vals mc ! i * cv chi, mj + cv chi * mc_macs mc ! i, G))) [0..<mc_popen_cnt mc] (0, 0, G)) (\<lambda>(y, mj, G).
        if \<not> coordinator then Inl assertion_failed
        else bind_result (Commit_And_Open (ce_pack env) (ce_unpack env) (ce_H env) (ce_rnd env) (ce_rcvc env) (ce_rcvo env) P
             (mj - mc_alphai mc * y)) (\<lambda>(zjs, P).
          if foldl (+) 0 zjs \<noteq> 0 then Inl mac_fail else Inr (mac_check_erase mc, P)))))"

subsection \<open>Direct_MAC_Check\<close>

definition direct_add_openings ::
  "(octet_stream \<Rightarrow> ('a :: plus \<times> octet_stream) result) \<Rightarrow> 'a list \<Rightarrow> player \<Rightarrow> octet_stream list
    \<Rightarrow> ('a list \<times> octet_stream list) result" where
  "direct_add_openings unpack values P os =
     (if length os \<noteq> pl_count P then Inl assertion_failed
      else foldM_result (\<lambda>value (vs, os).
         bind_result (foldM_result (\<lambda>j (v, os). if j \<noteq> pl_num P
             then bind_result (unpack (os ! j)) (\<lambda>(t, o'). Inr (v + t, os[j := o']))
             else Inr (v, os)) [0..<pl_count P] (value, os)) (\<lambda>(v, os). Inr (vs @ [v], os))) values ([], os))"

definition pre_exchange ::
  "(octet_stream \<Rightarrow> 'a \<Rightarrow> octet_stream result) \<Rightarrow> nat \<Rightarrow> player \<Rightarrow> ('s, 'a) mac_check \<Rightarrow> ('s, 'a) mac_check result" where
  "pre_exchange pack sz P mc =
     (let oss = take (pl_count P) (mc_oss mc) @ replicate (pl_count P - length (mc_oss mc)) os_empty;
          os = os_reserve (length (pv_data (mc_values mc)) * sz) (os_reset_write_head (oss ! pl_num P))
      in bind_result (foldM_result (\<lambda>x os. pack os x) (pv_data (mc_values mc)) os) (\<lambda>os.
         Inr (mc\<lparr>mc_oss := oss[pl_num P := os]\<rparr>)))"

definition direct_exchange ::
  "(octet_stream \<Rightarrow> 'a :: plus \<Rightarrow> octet_stream result) \<Rightarrow> (octet_stream \<Rightarrow> ('a \<times> octet_stream) result) \<Rightarrow> nat \<Rightarrow> (nat \<Rightarrow> octet list)
    \<Rightarrow> (player \<Rightarrow> ('s, 'a) mac_check \<Rightarrow> (('s, 'a) mac_check \<times> player) result) \<Rightarrow> player \<Rightarrow> ('s, 'a) mac_check
    \<Rightarrow> (('s, 'a) mac_check \<times> player) result" where
  "direct_exchange pack unpack sz rcv Check P mc =
     bind_result (pre_exchange pack sz P mc) (\<lambda>mc.
     bind_result (unchecked_broadcast P rcv (mc_oss mc)) (\<lambda>oss.
     bind_result (direct_add_openings unpack (pv_data (mc_values mc)) P oss) (\<lambda>(values, oss).
       let mc = AddToValues values (mc\<lparr>mc_oss := oss, mc_open_counter := mc_open_counter mc + 1,
             mc_values := (mc_values mc)\<lparr>pv_data := values\<rparr>\<rparr>)
       in CheckIfNeeded Check P (mc\<lparr>mc_popen_cnt := mc_popen_cnt mc + length values\<rparr>))))"

subsection \<open>SemiMC and DirectSemiMC\<close>

definition semi_init_open :: "nat \<Rightarrow> ('a, 'a) mac_check \<Rightarrow> ('a, 'a) mac_check" where
  "semi_init_open n mc = (base_init_open n mc)\<lparr>mc_lengths := []\<rparr>"

definition semi_prepare_open :: "'a \<Rightarrow> int \<Rightarrow> ('a, 'a) mac_check \<Rightarrow> ('a, 'a) mac_check result" where
  "semi_prepare_open secret n_bits mc =
     Inr (mc\<lparr>mc_values := pv_push_back secret (mc_values mc), mc_lengths := mc_lengths mc @ [n_bits]\<rparr>)"

definition semi_exchange ::
  "(int \<Rightarrow> octet_stream \<Rightarrow> 'a :: plus \<Rightarrow> octet_stream result) \<Rightarrow> (int \<Rightarrow> octet_stream \<Rightarrow> ('a \<times> octet_stream) result)
    \<Rightarrow> (nat \<times> nat \<Rightarrow> nat \<Rightarrow> octet list) \<Rightarrow> (nat \<Rightarrow> octet list) \<Rightarrow> player \<Rightarrow> ('a, 'a) mac_check
    \<Rightarrow> (('a, 'a) mac_check \<times> player) result" where
  "semi_exchange pack unpack rcv rcvb P mc =
     bind_result (tree_sum pack unpack (+) (mc_base_player mc) (mc_opening_sum mc) (mc_max_broadcast mc) (mc_lengths mc)
         P rcv rcvb os_empty (pv_data (mc_values mc))) (\<lambda>(values, added, sent).
       Inr (mc\<lparr>mc_values := (mc_values mc)\<lparr>pv_data := values\<rparr>\<rparr>, P))"

definition direct_semi_exchange ::
  "(int \<Rightarrow> octet_stream \<Rightarrow> 'a :: plus \<Rightarrow> octet_stream result) \<Rightarrow> (int \<Rightarrow> octet_stream \<Rightarrow> ('a \<times> octet_stream) result)
    \<Rightarrow> (nat \<Rightarrow> octet list) \<Rightarrow> player \<Rightarrow> ('a, 'a) mac_check \<Rightarrow> (('a, 'a) mac_check \<times> player) result" where
  "direct_semi_exchange pack unpack rcv P mc =
     (let values = pv_data (mc_values mc); lens = mc_lengths mc
      in if length values \<noteq> length lens then Inl assertion_failed
         else bind_result (pack_values pack lens (os_reserve (length values) os_empty) values) (\<lambda>mine.
              bind_result (unchecked_broadcast P rcv (own_slot P mine)) (\<lambda>oss.
              bind_result (foldM_result (\<lambda>i (values, oss).
                  foldM_result (\<lambda>j (values, oss). if j \<noteq> pl_num P
                      then bind_result (unpack (lens ! i) (oss ! j)) (\<lambda>(t, o'). Inr (values[i := values ! i + t], oss[j := o']))
                      else Inr (values, oss)) [0..<pl_count P] (values, oss)) [0..<length lens] (values, oss)) (\<lambda>(values, oss).
                Inr (mc\<lparr>mc_values := (mc_values mc)\<lparr>pv_data := values\<rparr>\<rparr>, P)))))"

definition direct_semi_POpen ::
  "(int \<Rightarrow> octet_stream \<Rightarrow> 'a :: plus \<Rightarrow> octet_stream result) \<Rightarrow> (int \<Rightarrow> octet_stream \<Rightarrow> ('a \<times> octet_stream) result)
    \<Rightarrow> (nat \<Rightarrow> octet list) \<Rightarrow> 'a list \<Rightarrow> player \<Rightarrow> ('a, 'a) mac_check \<Rightarrow> ('a list \<times> ('a, 'a) mac_check \<times> player) result" where
  "direct_semi_POpen pack unpack rcv S P mc =
     bind_result (foldM_result (\<lambda>secret. semi_prepare_open secret (- 1)) S
         (mc\<lparr>mc_values := pv_clear (mc_values mc), mc_lengths := []\<rparr>)) (\<lambda>mc.
     bind_result (direct_semi_exchange pack unpack rcv P mc) (\<lambda>(mc, P). Inr (pv_data (mc_values mc), mc, P)))"

definition direct_semi_POpen_Begin :: "(octet_stream \<Rightarrow> 'a \<Rightarrow> octet_stream result) \<Rightarrow> 'a list \<Rightarrow> player \<Rightarrow> ('a list \<times> outbox) result" where
  "direct_semi_POpen_Begin pack S P =
     bind_result (foldM_result (\<lambda>x os. pack os x) S os_empty) (\<lambda>os. Inr (S, send_all P os))"

definition direct_semi_POpen_End ::
  "(octet_stream \<Rightarrow> ('a :: plus \<times> octet_stream) result) \<Rightarrow> (nat \<Rightarrow> octet list) \<Rightarrow> 'a list \<Rightarrow> player \<Rightarrow> 'a list result" where
  "direct_semi_POpen_End unpack rcv values P =
     bind_result (direct_add_openings unpack values P (receive_all P rcv (replicate (pl_count P) os_empty))) (\<lambda>(values, _). Inr values)"

end
