(* ===== verification/MacCheckProofs.thy ===== *)
theory MacCheckProofs
  imports MacCheck
begin

section \<open>What the MAC checks decide\<close>

text \<open>
  The checks of \<open>MacCheck\<close> among parties that take part honestly in the random seed and the commitments:
  what passes, that authentic values pass, and which errors are detected.
\<close>

subsection \<open>The shared generator\<close>

lemma prng_get_uchar_at:
  assumes "prng_at E pl key k G" "\<And>b. length b = 16 \<Longrightarrow> length (E key b) = 16" "0 < pl" "k div 16 + pl \<le> 2 ^ 64"
  shows "\<exists>G'. prng_get_uchar E pl G = Inr (keystream E key k, G') \<and> prng_at E pl key (Suc k) G'"
proof -
  have one: "prng_at E pl key k H \<Longrightarrow> pr_cnt H < RAND_SIZE pl
      \<Longrightarrow> pr_random H ! pr_cnt H = keystream E key k \<and> prng_at E pl key (Suc k) (H\<lparr>pr_cnt := pr_cnt H + 1\<rparr>)" for H
  proof -
    assume H: "prng_at E pl key k H" "pr_cnt H < RAND_SIZE pl"
    from H(1) obtain n where "k = n * RAND_SIZE pl + pr_cnt H"
      "pr_random H = concat (map (\<lambda>i. E key (ctr_block (n * pl + i))) [0..<pl])"
      by (auto simp: prng_at_def)
    then have "length (pr_random H) = RAND_SIZE pl"
      using length_concat_blocks [of pl "\<lambda>i. E key (ctr_block (n * pl + i))" 16] assms(2) by (simp add: RAND_SIZE_def AES_BLK_SIZE_def)
    then have "take 1 (drop (pr_cnt H) (pr_random H)) = [pr_random H ! pr_cnt H]"
      using H(2) by (simp add: take_Suc hd_drop_conv_nth)
    then show ?thesis
      using prng_at_random [OF H(1) assms(2), of 1] H(2) by simp
  qed
  show ?thesis
  proof (cases "RAND_SIZE pl \<le> pr_cnt G")
    case True
    then have "pr_cnt G = RAND_SIZE pl" using assms(1) by (auto simp: prng_at_def)
    then obtain G1 where G1: "prng_next E pl G = Inr G1" "prng_at E pl key k G1" "pr_cnt G1 = 0"
      using prng_next_at [OF assms(1) _ assms(3,4)] by blast
    then show ?thesis
      using one [OF G1(2)] True assms(3) by (simp add: prng_get_uchar_def RAND_SIZE_def AES_BLK_SIZE_def)
  next
    case False
    then show ?thesis using one [OF assms(1)] by (simp add: prng_get_uchar_def)
  qed
qed

lemma prng_get_uchars_at:
  assumes "\<And>b. length b = 16 \<Longrightarrow> length (E key b) = 16" "0 < pl"
  shows "prng_at E pl key k G \<Longrightarrow> (k + n) div 16 + pl \<le> 2 ^ 64
    \<Longrightarrow> \<exists>G'. prng_get_uchars E pl n G = Inr (map (keystream E key) [k..<k + n], G') \<and> prng_at E pl key (k + n) G'"
proof (induction n arbitrary: k G)
  case (Suc n)
  have "k div 16 \<le> (k + Suc n) div 16" by (rule div_le_mono) simp
  then obtain G1 where G1: "prng_get_uchar E pl G = Inr (keystream E key k, G1)" "prng_at E pl key (Suc k) G1"
    using prng_get_uchar_at [OF Suc.prems(1) assms] Suc.prems(2) by auto
  obtain G2 where "prng_get_uchars E pl n G1 = Inr (map (keystream E key) [Suc k..<Suc k + n], G2)" "prng_at E pl key (Suc k + n) G2"
    using Suc.IH [OF G1(2)] Suc.prems(2) by auto
  moreover have "[k..<k + Suc n] = k # [Suc k..<Suc k + n]" by (simp add: upt_conv_Cons del: upt_Suc)
  ultimately show ?case using G1 by (simp del: upt_Suc)
qed simp

text \<open>
  Honest rounds for a check: \<open>ss\<close> are the contributions to the seed, \<open>ms\<close> the messages of the final
  commitment, \<open>ra\<close> and \<open>rb\<close> the random bytes of the commitments.
\<close>

definition seed_honest ::
  "('u, 'a) check_env \<Rightarrow> (nat \<Rightarrow> octet list) \<Rightarrow> (nat \<Rightarrow> octet list) \<Rightarrow> player \<Rightarrow> bool" where
  "seed_honest env ss rs P \<longleftrightarrow>
     commit_setup (ce_H env) ss rs P \<and> (\<forall>i<pl_count P. length (ss i) = SEED_SIZE)
     \<and> ss (pl_num P) = map (keystream (ce_E env) (take SEED_SIZE (ce_entropy env))) [0..<SEED_SIZE]
     \<and> ce_rnd_seed env = rs (pl_num P) \<and> ce_rcvc_seed env = comm_msg (ce_H env) ss rs \<and> ce_rcvo_seed env = open_msg ss rs
     \<and> cipher_ok (ce_E env) \<and> 0 < ce_pl env \<and> ce_pl env \<le> 256"

definition final_honest ::
  "('u, 'a) check_env \<Rightarrow> (nat \<Rightarrow> octet list) \<Rightarrow> (nat \<Rightarrow> octet list) \<Rightarrow> player \<Rightarrow> bool" where
  "final_honest env ms rs P \<longleftrightarrow>
     commit_setup (ce_H env) ms rs P \<and> ce_rnd env = rs (pl_num P) \<and> ce_rcvc env = comm_msg (ce_H env) ms rs
     \<and> ce_rcvo env = open_msg ms rs"

lemma check_prng_ok:
  assumes S: "seed_honest env ss rs P"
  shows "\<exists>G c. check_prng env P = Inr (G, P\<lparr>pl_ctx := c\<rparr>)
    \<and> prng_SetSeed (ce_E env) (ce_pl env) (seed_xor (pl_count P) ss SEED_SIZE) (ce_G env) = Inr G
    \<and> prng_at (ce_E env) (ce_pl env) (take SEED_SIZE (seed_xor (pl_count P) ss SEED_SIZE)) 0 G"
proof -
  let ?E = "ce_E env" and ?pl = "ce_pl env" and ?key = "take SEED_SIZE (ce_entropy env)"
  have pl: "0 < ?pl" "?pl \<le> 256" and E: "\<And>key b. length b = 16 \<Longrightarrow> length (?E key b) = 16"
    and C: "commit_setup (ce_H env) ss rs P" "\<forall>i<pl_count P. length (ss i) = SEED_SIZE"
    and me: "ss (pl_num P) = map (keystream ?E ?key) [0..<SEED_SIZE]"
    and msgs: "ce_rnd_seed env = rs (pl_num P)" "ce_rcvc_seed env = comm_msg (ce_H env) ss rs" "ce_rcvo_seed env = open_msg ss rs"
    using S by (simp_all add: seed_honest_def cipher_ok_def AES_BLK_SIZE_def)
  obtain G1 where G1: "prng_ReSeed ?E ?pl (ce_entropy env) (ce_G env) = Inr G1" "prng_at ?E ?pl ?key 0 G1"
    using prng_InitSeed_at [OF pl, of ?E "(ce_G env)\<lparr>pr_seed := ?key\<rparr>"] by (auto simp: prng_ReSeed_def)
  have "0 + SEED_SIZE div 16 + ?pl \<le> 2 ^ 64" using pl by (simp add: SEED_SIZE_def AES_BLK_SIZE_def)
  then obtain G2 where G2: "prng_get_uchars ?E ?pl SEED_SIZE G1 = Inr (map (keystream ?E ?key) [0..<SEED_SIZE], G2)"
    using prng_get_uchars_at [OF E pl(1) G1(2), of SEED_SIZE] by auto
  let ?mine = "(os_resize SEED_SIZE os_empty)\<lparr>os_data := map (keystream ?E ?key) [0..<SEED_SIZE], os_ptr := 0\<rparr>"
  have mine: "bb_n (os_wbits ?mine) = 0" "os_data ?mine = ss (pl_num P)"
    by (simp_all add: me os_resize_def os_resize_precise_def Let_def os_empty_def BitBuffer_def)
  obtain c where "Create_Random_Seed_with (ce_H env) (rs (pl_num P)) (comm_msg (ce_H env) ss rs) (open_msg ss rs) ?mine P SEED_SIZE
      = Inr (seed_xor (pl_count P) ss SEED_SIZE, P\<lparr>pl_ctx := c\<rparr>)"
    using Create_Random_Seed_with_ok [OF C mine] by blast
  then have "Create_Random_Seed ?E ?pl (ce_entropy env) (ce_G env) (ce_H env) (ce_rnd_seed env) (ce_rcvc_seed env) (ce_rcvo_seed env) P SEED_SIZE
      = Inr (seed_xor (pl_count P) ss SEED_SIZE, P\<lparr>pl_ctx := c\<rparr>)"
    using G1(1) G2 by (simp add: Create_Random_Seed_def prng_get_octetStream_def msgs)
  moreover obtain G where "prng_SetSeed ?E ?pl (seed_xor (pl_count P) ss SEED_SIZE) (ce_G env) = Inr G"
    "prng_at ?E ?pl (take SEED_SIZE (seed_xor (pl_count P) ss SEED_SIZE)) 0 G"
    using prng_SetSeed_at [OF pl] by blast
  ultimately show ?thesis by (auto simp: check_prng_def)
qed

subsection \<open>Random combinations\<close>

fun draws :: "(prng \<Rightarrow> ('u \<times> prng) result) \<Rightarrow> nat \<Rightarrow> prng \<Rightarrow> ('u list \<times> prng) result" where
  "draws rz 0 G = Inr ([], G)"
| "draws rz (Suc n) G =
     bind_result (rz G) (\<lambda>(h, G). bind_result (draws rz n G) (\<lambda>(hs, G). Inr (h # hs, G)))"

lemma length_draws: "draws rz n G = Inr (hs, G') \<Longrightarrow> length hs = n"
  by (induction n arbitrary: G hs) (auto simp: bind_result_Inr_iff)

lemma combination_from:
  "draws rz n G = Inr (hs, G') \<Longrightarrow>
    foldM_result (\<lambda>i (y, mj, G). bind_result (rz G) (\<lambda>(h, G). Inr (y + v i * cv h, mj + cv h * m i, G))) [k..<k + n] (y, mj, G)
    = Inr (y + (\<Sum>i < n. v (k + i) * cv (hs ! i)), mj + (\<Sum>i < n. (cv (hs ! i) :: 'a :: comm_ring_1) * m (k + i)), G')"
proof (induction n arbitrary: k G hs y mj)
  case (Suc n)
  obtain h G1 hs' where h: "rz G = Inr (h, G1)" "draws rz n G1 = Inr (hs', G')" "hs = h # hs'"
    using Suc.prems by (auto simp: bind_result_Inr_iff)
  have "[k..<k + Suc n] = k # [Suc k..<Suc k + n]" by (simp add: upt_conv_Cons del: upt_Suc)
  then show ?case
    using Suc.IH [OF h(2), of "Suc k" "y + v k * cv h" "mj + cv h * m k"]
    by (simp add: h(1,3) sum.lessThan_Suc_shift add.assoc del: upt_Suc sum.lessThan_Suc)
qed simp

lemma combination:
  "draws rz n G = Inr (hs, G') \<Longrightarrow>
    foldM_result (\<lambda>i (y, mj, G). bind_result (rz G) (\<lambda>(h, G). Inr (y + v i * cv h, mj + cv h * m i, G))) [0..<n] (0, 0, G)
    = Inr (\<Sum>i < n. v i * cv (hs ! i), \<Sum>i < n. (cv (hs ! i) :: 'a :: comm_ring_1) * m i, G')"
  using combination_from [of rz n G hs G' v cv m 0 0 0] by simp

lemma foldl_sum: "foldl (+) x (map z [0..<n]) = x + (\<Sum>j < n. z j :: 'a :: comm_monoid_add)"
  by (induction n) (simp_all add: add.assoc)

text \<open>
  The error of a value: by how much the MACs, \<open>M\<close> of the parties, differ from the value times the key,
  \<open>A\<close> of the parties.
\<close>

definition mac_error :: "nat \<Rightarrow> (nat \<Rightarrow> 'a :: comm_ring_1) \<Rightarrow> (nat \<Rightarrow> 'a list) \<Rightarrow> 'a list \<Rightarrow> nat \<Rightarrow> 'a" where
  "mac_error n A M vals i = (\<Sum>j < n. M j ! i) - vals ! i * (\<Sum>j < n. A j)"

text \<open>What a party contributes to the final sum, and the sum.\<close>

definition mac_share_error :: "('u \<Rightarrow> 'a :: comm_ring_1) \<Rightarrow> 'u list \<Rightarrow> nat \<Rightarrow> 'a \<Rightarrow> 'a list \<Rightarrow> 'a list \<Rightarrow> 'a" where
  "mac_share_error cv hs n alpha macs vals =
     (\<Sum>i < n. cv (hs ! i) * macs ! i) - alpha * (\<Sum>i < n. vals ! i * cv (hs ! i))"

lemma sum_mac_share_error:
  "(\<Sum>j < n. mac_share_error cv hs m (A j) (M j) vals) = (\<Sum>i < m. cv (hs ! i) * mac_error n A M vals i)"
proof -
  have "(\<Sum>j < n. mac_share_error cv hs m (A j) (M j) vals)
      = (\<Sum>j < n. \<Sum>i < m. cv (hs ! i) * M j ! i) - (\<Sum>j < n. A j) * (\<Sum>i < m. vals ! i * cv (hs ! i))"
    by (simp add: mac_share_error_def sum_subtractf sum_distrib_right)
  also have "(\<Sum>j < n. \<Sum>i < m. cv (hs ! i) * M j ! i) = (\<Sum>i < m. cv (hs ! i) * (\<Sum>j < n. M j ! i))"
    by (subst sum.swap) (simp add: sum_distrib_left)
  also have "a * (\<Sum>i < m. vals ! i * cv (hs ! i)) = (\<Sum>i < m. cv (hs ! i) * (vals ! i * a))" for a
    by (simp add: sum_distrib_left mult_ac)
  finally show ?thesis by (simp add: mac_error_def sum_subtractf right_diff_distrib)
qed

subsection \<open>The check of SPDZ2k\<close>

text \<open>The state at a check: as many values and MACs as are counted.\<close>

definition mac_check_ready :: "('s, 'a) mac_check \<Rightarrow> bool" where
  "mac_check_ready mc \<longleftrightarrow> length (mc_vals mc) = mc_popen_cnt mc \<and> length (mc_macs mc) = mc_popen_cnt mc"

lemma z2k_Check_ok:
  assumes C: "codec (ce_pack env) (ce_unpack env) enc (\<lambda>_. True)"
    and S: "seed_honest env ss ra P" "final_honest env (\<lambda>j. enc (z j)) rb P"
    and mc: "mac_check_ready mc" "0 < mc_popen_cnt mc"
    and G: "prng_SetSeed (ce_E env) (ce_pl env) (seed_xor (pl_count P) ss SEED_SIZE) (ce_G env) = Inr G"
      "draws (ce_randomize env) (mc_popen_cnt mc) G = Inr (hs, G')"
    and z: "z (pl_num P) = mac_share_error cv hs (mc_popen_cnt mc) (mc_alphai mc) (mc_macs mc) (mc_vals mc)"
  shows "\<exists>c. z2k_Check cv True env P mc
    = (if (\<Sum>j < pl_count P. z j) = 0 then Inr (mac_check_erase mc, P\<lparr>pl_ctx := c\<rparr>) else Inl mac_fail)"
proof -
  obtain c where c: "check_prng env P = Inr (G, P\<lparr>pl_ctx := c\<rparr>)"
    using check_prng_ok [OF S(1)] G(1) by auto
  let ?P = "P\<lparr>pl_ctx := c\<rparr>"
  have S2: "commit_setup (ce_H env) (\<lambda>j. enc (z j)) rb ?P" and env: "ce_rnd env = rb (pl_num P)"
    "ce_rcvc env = comm_msg (ce_H env) (\<lambda>j. enc (z j)) rb" "ce_rcvo env = open_msg (\<lambda>j. enc (z j)) rb"
    using S(2) by (simp_all add: final_honest_def commit_setup_def)
  obtain c' where "Commit_And_Open (ce_pack env) (ce_unpack env) (ce_H env) (rb (pl_num P))
      (comm_msg (ce_H env) (\<lambda>j. enc (z j)) rb) (open_msg (\<lambda>j. enc (z j)) rb) ?P (z (pl_num P))
      = Inr (map z [0..<pl_count P], ?P\<lparr>pl_ctx := c'\<rparr>)"
    using codec.Commit_And_Open_ok [OF C S2] by auto
  moreover have "WaitingForCheck mc \<noteq> 0" using mc by (auto simp: WaitingForCheck_def mac_check_ready_def)
  ultimately show ?thesis
    using mc combination [OF G(2), of "\<lambda>i. mc_vals mc ! i" cv "\<lambda>i. mc_macs mc ! i"] foldl_sum [of 0 z "pl_count P"]
    by (simp add: z2k_Check_def c env mac_check_ready_def z mac_share_error_def) (intro impI exI, rule refl)
qed

subsection \<open>The check of SPDZ\<close>

lemma check_combined_ok:
  assumes C: "codec (ce_pack env) (ce_unpack env) enc (\<lambda>_. True)"
    and S: "seed_honest env ss ra P" "final_honest env (\<lambda>j. enc (z j)) rb P"
    and G: "prng_SetSeed (ce_E env) (ce_pl env) (seed_xor (pl_count P) ss SEED_SIZE) (ce_G env) = Inr G"
      "draws (ce_randomize env) (mc_popen_cnt mc) G = Inr (hs, G')"
    and z: "z (pl_num P) = mac_share_error id hs (mc_popen_cnt mc) (mc_alphai mc) (mc_macs mc) (mc_vals mc)"
  shows "\<exists>c. check_combined env P mc = (if (\<Sum>j < pl_count P. z j) = 0 then Inr (P\<lparr>pl_ctx := c\<rparr>) else Inl mac_fail)"
proof -
  obtain c where c: "check_prng env P = Inr (G, P\<lparr>pl_ctx := c\<rparr>)"
    using check_prng_ok [OF S(1)] G(1) by auto
  let ?P = "P\<lparr>pl_ctx := c\<rparr>"
  have S2: "commit_setup (ce_H env) (\<lambda>j. enc (z j)) rb ?P" and env: "ce_rnd env = rb (pl_num P)"
    "ce_rcvc env = comm_msg (ce_H env) (\<lambda>j. enc (z j)) rb" "ce_rcvo env = open_msg (\<lambda>j. enc (z j)) rb"
    using S(2) by (simp_all add: final_honest_def commit_setup_def)
  obtain c' where "Commit_And_Open (ce_pack env) (ce_unpack env) (ce_H env) (rb (pl_num P))
      (comm_msg (ce_H env) (\<lambda>j. enc (z j)) rb) (open_msg (\<lambda>j. enc (z j)) rb) ?P (z (pl_num P))
      = Inr (map z [0..<pl_count P], ?P\<lparr>pl_ctx := c'\<rparr>)"
    using codec.Commit_And_Open_ok [OF C S2] by auto
  then show ?thesis
    using combination [OF G(2), of "\<lambda>i. mc_vals mc ! i" id "\<lambda>i. mc_macs mc ! i"] foldl_sum [of 0 z "pl_count P"]
    by (simp add: check_combined_def c env z mac_share_error_def) (intro impI exI, rule refl)
qed

text \<open>Few values: every party commits to one difference for each value.\<close>

lemma delta_loop:
  assumes C: "codec pack unpack enc (\<lambda>_. True)" and len: "length bundle = n"
    and B: "\<forall>j<n. j \<noteq> me \<longrightarrow> os_ready (bundle ! j) \<and> os_unread (bundle ! j) = enc (d j) @ rest j"
  shows "\<exists>b. foldM_result (\<lambda>i (delta, bundle). if i \<noteq> me
        then bind_result (unpack (bundle ! i)) (\<lambda>(v, os). Inr (delta + v, bundle[i := os])) else Inr (delta, bundle))
      [0..<n] (delta, bundle) = Inr (delta + (\<Sum>j \<in> {..<n} - {me}. d j :: 'a :: comm_ring_1), b)
    \<and> length b = n \<and> (\<forall>j<n. j \<noteq> me \<longrightarrow> os_ready (b ! j) \<and> os_unread (b ! j) = rest j)"
proof -
  let ?P = "\<lambda>k (delta', b). delta' = delta + (\<Sum>j \<in> {..<k} - {me}. d j) \<and> length b = n
      \<and> (\<forall>j<n. j \<noteq> me \<longrightarrow> os_ready (b ! j) \<and> os_unread (b ! j) = (if j < k then rest j else enc (d j) @ rest j))"
  have "\<exists>s'. foldM_result (\<lambda>i (delta, bundle). if i \<noteq> me
        then bind_result (unpack (bundle ! i)) (\<lambda>(v, os). Inr (delta + v, bundle[i := os])) else Inr (delta, bundle))
      [0..<n] (delta, bundle) = Inr s' \<and> ?P n s'"
  proof (rule foldM_result_upt [where P = ?P])
    show "?P 0 (delta, bundle)" using B len by simp
  next
    fix k s assume k: "k < n" and s: "?P k s"
    obtain dl b where db: "s = (dl, b)" by fastforce
    show "\<exists>s'. (case s of (delta, bundle) \<Rightarrow> if k \<noteq> me
        then bind_result (unpack (bundle ! k)) (\<lambda>(v, os). Inr (delta + v, bundle[k := os])) else Inr (delta, bundle)) = Inr s' \<and> ?P (Suc k) s'"
    proof (cases "k = me")
      case True
      then have "{..<Suc k} - {me} = {..<k} - {me}" by auto
      with s db True show ?thesis by (auto simp: less_Suc_eq)
    next
      case False
      have bk: "os_ready (b ! k)" "os_unread (b ! k) = enc (d k) @ rest k" using s db k False by auto
      then obtain o' where o': "unpack (b ! k) = Inr (d k, o')" "os_advanced (length (enc (d k))) (b ! k) o'"
        using codec.unpack_enc [OF C] by blast
      have "os_ready o'" "os_unread o' = rest k"
        using os_advanced_ready [OF o'(2) bk(1)] os_advanced_unread [OF o'(2)] bk(2) by simp_all
      moreover have "{..<Suc k} - {me} = insert k ({..<k} - {me})" using False by auto
      ultimately show ?thesis
        using s db k False o'(1) by (auto simp: nth_list_update less_Suc_eq add_ac)
    qed
  qed
  then show ?thesis by auto
qed

lemma sum_but_one: "me < (n :: nat) \<Longrightarrow> d me + (\<Sum>j \<in> {..<n} - {me}. d j) = (\<Sum>j < n. d j :: 'a :: comm_monoid_add)"
  using sum.remove [of "{..<n}" me d, OF finite_lessThan] by simp

lemma delta_steps:
  assumes C: "codec (ce_pack env) (ce_unpack env) enc (\<lambda>_. True)" and me: "pl_num P < pl_count P"
  shows "length bun = pl_count P
    \<Longrightarrow> \<forall>j<pl_count P. j \<noteq> pl_num P \<longrightarrow> os_ready (bun ! j) \<and> os_unread (bun ! j) = concat (map enc (map (D j) ks))
    \<Longrightarrow> (\<exists>b. foldM_result (delta_step env P) (map (D (pl_num P)) ks) bun
      = (if \<forall>i \<in> set ks. (\<Sum>j < pl_count P. D j i) = 0 then Inr b else Inl mac_fail))"
proof (induction ks arbitrary: bun)
  case (Cons i ks)
  let ?n = "pl_count P" and ?me = "pl_num P"
  obtain b where b: "foldM_result (\<lambda>i (delta, bundle). if i \<noteq> ?me
        then bind_result (ce_unpack env (bundle ! i)) (\<lambda>(v, os). Inr (delta + v, bundle[i := os])) else Inr (delta, bundle))
      [0..<?n] (D ?me i, bun) = Inr (D ?me i + (\<Sum>j \<in> {..<?n} - {?me}. D j i), b)"
    "length b = ?n" "\<forall>j<?n. j \<noteq> ?me \<longrightarrow> os_ready (b ! j) \<and> os_unread (b ! j) = concat (map enc (map (D j) ks))"
    using delta_loop [OF C Cons.prems(1), of ?me "\<lambda>j. D j i" "\<lambda>j. concat (map enc (map (D j) ks))" "D ?me i"] Cons.prems(2)
    by auto
  then have "delta_step env P (D ?me i) bun = (if (\<Sum>j < ?n. D j i) = 0 then Inr b else Inl mac_fail)"
    by (simp add: delta_step_def sum_but_one [OF me, of "\<lambda>j. D j i"])
  with Cons.IH [OF b(2,3)] show ?case by auto
qed simp

lemma check_each_ok:
  assumes C: "codec (ce_pack env) (ce_unpack env) enc (\<lambda>_. True)"
    and S: "final_honest env (\<lambda>j. concat (map enc (map (D j) [0..<mc_popen_cnt mc]))) rs P"
    and D: "map (D (pl_num P)) [0..<mc_popen_cnt mc] = mac_deltas mc"
  shows "\<exists>c. check_each env P mc
    = (if \<forall>i<mc_popen_cnt mc. (\<Sum>j < pl_count P. D j i) = 0 then Inr (P\<lparr>pl_ctx := c\<rparr>) else Inl mac_fail)"
proof -
  let ?n = "pl_count P" and ?me = "pl_num P" and ?ms = "\<lambda>j. concat (map enc (map (D j) [0..<mc_popen_cnt mc]))"
  have me: "?me < ?n" and S2: "commit_setup (ce_H env) ?ms rs P" and env: "ce_rnd env = rs ?me"
    "ce_rcvc env = comm_msg (ce_H env) ?ms rs" "ce_rcvo env = open_msg ?ms rs"
    using S by (simp_all add: final_honest_def commit_setup_def)
  have pack_fold: "foldM_result (\<lambda>delta os. ce_pack env os delta) v os = os_store_all (ce_pack env) os v" for v os
  proof (induction v arbitrary: os)
    case (Cons x v)
    then show ?case by (cases "ce_pack env os x") simp_all
  qed simp
  obtain mine where mine: "foldM_result (\<lambda>delta os. ce_pack env os delta) (mac_deltas mc) os_empty = Inr mine"
    "os_extends os_empty (?ms ?me) mine"
    using codec.store_all_extends [OF C, of "mac_deltas mc" os_empty] D by (auto simp: pack_fold list_all_iff)
  have slot: "length (own_slot P mine) = ?n" "bb_n (os_wbits (own_slot P mine ! ?me)) = 0" "os_data (own_slot P mine ! ?me) = ?ms ?me"
    using mine(2) me by (simp_all add: os_extends_def os_empty_def)
  let ?b = "map (\<lambda>i. if i = ?me then own_slot P mine ! i else os_append (os_reset_write_head (own_slot P mine ! i)) (?ms i)) [0..<?n]"
  obtain c where c: "Commit_And_Open_streams (ce_H env) (rs ?me) (comm_msg (ce_H env) ?ms rs) (open_msg ?ms rs) P (own_slot P mine)
      = Inr (?b, P\<lparr>pl_ctx := c\<rparr>)"
    using Commit_And_Open_streams_ok [OF S2 slot] by auto
  let ?P = "P\<lparr>pl_ctx := c\<rparr>"
  have "os_ready (?b ! j) \<and> os_unread (?b ! j) = ?ms j" if j: "j < ?n" "j \<noteq> ?me" for j
  proof -
    have "os_extends (os_reset_write_head (own_slot P mine ! j)) (?ms j) (os_append (os_reset_write_head (own_slot P mine ! j)) (?ms j))"
      by (rule os_append_extends [OF os_writable_reset])
    moreover have "length (?ms j) < 2 ^ 64" using S2 j by (auto simp: commit_setup_def)
    ultimately show ?thesis
      using j by (simp add: os_extends_def os_ready_def os_unread_def os_len_def os_reset_write_head_def os_reset_read_head_def)
  qed
  then obtain b where b: "foldM_result (delta_step env ?P) (mac_deltas mc) ?b
      = (if \<forall>i \<in> set [0..<mc_popen_cnt mc]. (\<Sum>j < ?n. D j i) = 0 then Inr b else Inl mac_fail)"
    using delta_steps [OF C, of ?P ?b D "[0..<mc_popen_cnt mc]"] me D by auto
  have "check_each env P mc = bind_result (foldM_result (delta_step env ?P) (mac_deltas mc) ?b) (\<lambda>_. Inr ?P)"
    unfolding check_each_def mine(1) env bind_result.simps c prod.case ..
  then show ?thesis unfolding b by (intro exI [of _ c]) auto
qed

subsection \<open>What the checks decide\<close>

text \<open>
  All parties follow the check, with keys \<open>A\<close>, MACs \<open>M\<close> and the values they opened; \<open>hs\<close> are the
  coefficients drawn from the shared seed.
\<close>

definition check_run ::
  "('u \<Rightarrow> 'a) \<Rightarrow> ('u, 'a :: comm_ring_1) check_env \<Rightarrow> ('a \<Rightarrow> octet list) \<Rightarrow> (nat \<Rightarrow> octet list) \<Rightarrow> (nat \<Rightarrow> octet list)
    \<Rightarrow> (nat \<Rightarrow> octet list) \<Rightarrow> (nat \<Rightarrow> 'a) \<Rightarrow> (nat \<Rightarrow> 'a list) \<Rightarrow> 'u list \<Rightarrow> player \<Rightarrow> ('s, 'a) mac_check \<Rightarrow> bool" where
  "check_run cv env enc ss ra rb A M hs P mc \<longleftrightarrow>
     codec (ce_pack env) (ce_unpack env) enc (\<lambda>_. True) \<and> mac_check_ready mc
     \<and> mc_alphai mc = A (pl_num P) \<and> mc_macs mc = M (pl_num P) \<and> seed_honest env ss ra P
     \<and> final_honest env (\<lambda>j. enc (mac_share_error cv hs (mc_popen_cnt mc) (A j) (M j) (mc_vals mc))) rb P
     \<and> (\<exists>G G'. prng_SetSeed (ce_E env) (ce_pl env) (seed_xor (pl_count P) ss SEED_SIZE) (ce_G env) = Inr G
          \<and> draws (ce_randomize env) (mc_popen_cnt mc) G = Inr (hs, G'))"

lemma mac_check_erase_0: "mc_popen_cnt mc = 0 \<Longrightarrow> mac_check_erase mc = mc"
  by (simp add: mac_check_erase_def)

lemma pl_ctx_same: "\<exists>c. P = P\<lparr>pl_ctx := c\<rparr>"
  by (rule exI [of _ "pl_ctx P"]) simp

lemma z2k_Check_decides:
  assumes "check_run cv env enc ss ra rb A M hs P mc"
  shows "\<exists>c. z2k_Check cv True env P mc
    = (if (\<Sum>i < mc_popen_cnt mc. cv (hs ! i) * mac_error (pl_count P) A M (mc_vals mc) i) = 0
       then Inr (mac_check_erase mc, P\<lparr>pl_ctx := c\<rparr>) else Inl mac_fail)"
proof (cases "mc_popen_cnt mc = 0")
  case True
  then have "WaitingForCheck mc = 0"
    using assms by (simp add: check_run_def mac_check_ready_def WaitingForCheck_def)
  then show ?thesis
    using True pl_ctx_same [of P] by (simp add: z2k_Check_def mac_check_erase_0)
next
  case False
  let ?z = "\<lambda>j. mac_share_error cv hs (mc_popen_cnt mc) (A j) (M j) (mc_vals mc)"
  obtain G G' where G: "prng_SetSeed (ce_E env) (ce_pl env) (seed_xor (pl_count P) ss SEED_SIZE) (ce_G env) = Inr G"
    "draws (ce_randomize env) (mc_popen_cnt mc) G = Inr (hs, G')"
    using assms by (auto simp: check_run_def)
  have "\<exists>c. z2k_Check cv True env P mc
    = (if (\<Sum>j < pl_count P. ?z j) = 0 then Inr (mac_check_erase mc, P\<lparr>pl_ctx := c\<rparr>) else Inl mac_fail)"
    using assms False by (intro z2k_Check_ok [where enc = enc and ra = ra and rb = rb, OF _ _ _ _ _ G]) (simp_all add: check_run_def)
  then show ?thesis by (simp only: sum_mac_share_error)
qed

definition check_run_each ::
  "('u, 'a :: comm_ring_1) check_env \<Rightarrow> ('a \<Rightarrow> octet list) \<Rightarrow> (nat \<Rightarrow> octet list)
    \<Rightarrow> (nat \<Rightarrow> 'a) \<Rightarrow> (nat \<Rightarrow> 'a list) \<Rightarrow> player \<Rightarrow> ('s, 'a) mac_check \<Rightarrow> bool" where
  "check_run_each env enc rs A M P mc \<longleftrightarrow>
     codec (ce_pack env) (ce_unpack env) enc (\<lambda>_. True) \<and> mac_check_ready mc
     \<and> mc_alphai mc = A (pl_num P) \<and> mc_macs mc = M (pl_num P)
     \<and> final_honest env (\<lambda>j. concat (map enc (map (\<lambda>i. mc_vals mc ! i * A j - M j ! i) [0..<mc_popen_cnt mc]))) rs P"

lemma mac_check_each_decides:
  assumes R: "check_run_each env enc rs A M P mc" and cnt: "mc_popen_cnt mc < 10" and len: "sec \<le> len"
  shows "\<exists>c. mac_check_Check True len sec True env P mc
    = (if \<forall>i < mc_popen_cnt mc. mac_error (pl_count P) A M (mc_vals mc) i = 0
       then Inr (mac_check_erase mc, P\<lparr>pl_ctx := c\<rparr>) else Inl mac_fail)"
proof (cases "mc_popen_cnt mc = 0")
  case True
  then have "WaitingForCheck mc = 0"
    using R by (simp add: check_run_each_def mac_check_ready_def WaitingForCheck_def)
  then show ?thesis
    using True len pl_ctx_same [of P] by (simp add: mac_check_Check_def check_field_size_def mac_check_erase_0)
next
  case False
  let ?D = "\<lambda>j i. mc_vals mc ! i * A j - M j ! i"
  have ready: "mac_check_ready mc" using R by (simp add: check_run_each_def)
  have "map (?D (pl_num P)) [0..<mc_popen_cnt mc] = mac_deltas mc"
    using R by (simp add: check_run_each_def mac_deltas_def)
  then obtain c where c: "check_each env P mc = (if \<forall>i<mc_popen_cnt mc. (\<Sum>j < pl_count P. ?D j i) = 0
      then Inr (P\<lparr>pl_ctx := c\<rparr>) else Inl mac_fail)"
    using check_each_ok [of env enc ?D mc rs P] R by (auto simp: check_run_each_def)
  have "(\<Sum>j < pl_count P. ?D j i) = - mac_error (pl_count P) A M (mc_vals mc) i" for i
    by (simp add: mac_error_def sum_subtractf sum_distrib_left)
  then show ?thesis
    using c False cnt len ready
    by (auto simp: mac_check_Check_def check_field_size_def mac_check_ready_def WaitingForCheck_def)
qed

lemma mac_check_combined_decides:
  assumes R: "check_run id env enc ss ra rb A M hs P mc" and cnt: "10 \<le> mc_popen_cnt mc" and len: "sec \<le> len"
  shows "\<exists>c. mac_check_Check True len sec True env P mc
    = (if (\<Sum>i < mc_popen_cnt mc. hs ! i * mac_error (pl_count P) A M (mc_vals mc) i) = 0
       then Inr (mac_check_erase mc, P\<lparr>pl_ctx := c\<rparr>) else Inl mac_fail)"
proof -
  let ?z = "\<lambda>j. mac_share_error id hs (mc_popen_cnt mc) (A j) (M j) (mc_vals mc)"
  obtain G G' where G: "prng_SetSeed (ce_E env) (ce_pl env) (seed_xor (pl_count P) ss SEED_SIZE) (ce_G env) = Inr G"
    "draws (ce_randomize env) (mc_popen_cnt mc) G = Inr (hs, G')"
    using R by (auto simp: check_run_def)
  have "\<exists>c. check_combined env P mc = (if (\<Sum>j < pl_count P. ?z j) = 0 then Inr (P\<lparr>pl_ctx := c\<rparr>) else Inl mac_fail)"
    using R by (intro check_combined_ok [where enc = enc and ra = ra and rb = rb, OF _ _ _ G]) (simp_all add: check_run_def)
  then obtain c where "check_combined env P mc
      = (if (\<Sum>i < mc_popen_cnt mc. hs ! i * mac_error (pl_count P) A M (mc_vals mc) i) = 0 then Inr (P\<lparr>pl_ctx := c\<rparr>) else Inl mac_fail)"
    by (auto simp: sum_mac_share_error)
  then show ?thesis
    using R cnt len
    by (auto simp: mac_check_Check_def check_field_size_def check_run_def mac_check_ready_def WaitingForCheck_def)
qed

end
