(* ===== verification/Opening.thy ===== *)
theory Opening
  imports MacCheckProofs
begin

section \<open>Opening authenticated values\<close>

text \<open>
  \<open>POpen\<close> with the methods of \<open>Tree_MAC_Check\<close> among honest parties: the values opened, and that what is kept
  for the check stays authentic.
\<close>

definition tree_ops ::
  "bool \<Rightarrow> (int \<Rightarrow> octet_stream \<Rightarrow> 'a :: plus \<Rightarrow> octet_stream result) \<Rightarrow> (int \<Rightarrow> octet_stream \<Rightarrow> ('a \<times> octet_stream) result)
    \<Rightarrow> (nat \<times> nat \<Rightarrow> nat \<Rightarrow> octet list) \<Rightarrow> (nat \<Rightarrow> octet list)
    \<Rightarrow> (player \<Rightarrow> ('a share, 'a) mac_check \<Rightarrow> (('a share, 'a) mac_check \<times> player) result) \<Rightarrow> ('a share, 'a) mc_ops" where
  "tree_ops invertible pack unpack rcv rcvb Check =
     \<lparr>op_init_open = tree_init_open, op_prepare_open = tree_prepare_open invertible,
      op_exchange = tree_exchange pack unpack rcv rcvb Check, op_Check = Check\<rparr>"

text \<open>The state after opening the shares \<open>S\<close> to the values \<open>xs\<close>.\<close>

definition mc_opened :: "'a share list \<Rightarrow> 'a list \<Rightarrow> ('a share, 'a) mac_check \<Rightarrow> ('a share, 'a) mac_check" where
  "mc_opened S xs mc = mc\<lparr>mc_secrets := pv_new, mc_values := pv_of_vector xs, mc_values_opened := mc_values_opened mc + length xs,
     mc_popen_cnt := mc_popen_cnt mc + length xs, mc_macs := mc_macs mc @ map get_mac S, mc_vals := mc_vals mc @ xs\<rparr>"

lemma pv_clear_new: "pv_clear v = pv_new"
  by (simp add: pv_clear_def pv_reset_def pv_new_def)

lemma prepare_all:
  "foldM_result (\<lambda>secret. tree_prepare_open True secret b) S mc
    = Inr (mc\<lparr>mc_values := (mc_values mc)\<lparr>pv_data := pv_data (mc_values mc) @ map get_share S\<rparr>, mc_macs := mc_macs mc @ map get_mac S\<rparr>)"
  by (induction S arbitrary: mc) (simp_all add: tree_prepare_open_def pv_push_back_def)

lemma finalize_all_take:
  "finalize_all n mc = bind_result (pv_take n (mc_values mc)) (\<lambda>(xs, v). Inr (xs, mc\<lparr>mc_values := v\<rparr>))"
proof (induction n arbitrary: mc)
  case (Suc n)
  show ?case
  proof (cases "pv_next (mc_values mc)")
    case (Inr r)
    obtain x v where r: "r = (x, v)" by fastforce
    show ?thesis
      using Suc [of "mc\<lparr>mc_values := v\<rparr>"] by (cases "pv_take n v") (auto simp: finalize_raw_def Inr r)
  qed (simp add: finalize_raw_def)
qed simp

lemma pv_take_all: "n = length xs \<Longrightarrow> pv_take n (pv_of_vector xs) = Inr (xs, \<lparr>pv_data = xs, pv_i = n\<rparr>)"
  by (simp add: pv_take_left pv_left_def pv_of_vector_def)

text \<open>
  One round of openings: \<open>f j\<close> are the shares of party \<open>j\<close>. The messages are those of an honest run of the
  summation tree, and no check is due.
\<close>

definition open_honest ::
  "(int \<Rightarrow> 'a :: comm_ring_1 \<Rightarrow> octet list) \<Rightarrow> player \<Rightarrow> (nat \<Rightarrow> 'a share list) \<Rightarrow> (nat \<times> nat \<Rightarrow> nat \<Rightarrow> octet list)
    \<Rightarrow> (nat \<Rightarrow> octet list) \<Rightarrow> ('a share, 'a) mac_check \<Rightarrow> bool" where
  "open_honest enc P f rcv rcvb mc \<longleftrightarrow>
     tree_honest enc (mc_opening_sum mc) (mc_base_player mc) (replicate (length (f 0)) (- 1)) P (length (f 0))
       (\<lambda>j. map get_share (f j)) rcv rcvb
     \<and> mc_lengths mc = [] \<and> mac_check_ready mc \<and> mc_popen_cnt mc + length (f 0) < POPEN_MAX"

lemma POpen_Begin_ok:
  assumes C: "len_codec pack unpack enc" and H: "open_honest enc P f rcv rcvb mc"
  shows "POpen_Begin (tree_ops True pack unpack rcv rcvb Check) (f (pl_num P)) P mc
    = Inr (mc_opened (f (pl_num P)) (tree_total (pl_count P) (length (f 0)) (\<lambda>j. map get_share (f j))) mc, P)"
proof -
  let ?S = "f (pl_num P)" and ?v = "\<lambda>j. map get_share (f j)" and ?m = "length (f 0)"
  let ?total = "tree_total (pl_count P) ?m ?v"
  have T: "tree_honest enc (mc_opening_sum mc) (mc_base_player mc) (replicate ?m (- 1)) P ?m ?v rcv rcvb"
    and mc: "mc_lengths mc = []" "mac_check_ready mc" "mc_popen_cnt mc + ?m < POPEN_MAX"
    using H by (simp_all add: open_honest_def)
  have len: "length (f j) = ?m" for j using T by (simp add: tree_honest_def)
  have m: "0 < ?m" using T by (simp add: tree_honest_def)
  have lens: "tree_lengths [] (?v (pl_num P)) = replicate ?m (- 1)"
    using m len [of "pl_num P"] by (simp add: tree_lengths_def)
  obtain sent where sent: "tree_sum pack unpack (+) (mc_base_player mc) (mc_opening_sum mc) (mc_max_broadcast mc) [] P rcv rcvb os_empty
      (?v (pl_num P)) = Inr (?total, ?total, sent)"
    using tree_sum_ok [OF C, of "mc_opening_sum mc" "mc_base_player mc" "[]" ?v P ?m rcv rcvb "mc_max_broadcast mc" os_empty] T lens
    by auto
  have tl: "length ?total = ?m" by (simp add: tree_total_def)
  show ?thesis
    using sent mc len [of "pl_num P"] tl
    by (simp add: POpen_Begin_def tree_ops_def tree_init_open_def prepare_all tree_exchange_def pv_clear_new pv_new_def
        AddToValues_def CheckIfNeeded_def WaitingForCheck_def mac_check_ready_def mc_opened_def pv_of_vector_def Let_def)
qed

lemma POpen_ok:
  assumes "len_codec pack unpack enc" "open_honest enc P f rcv rcvb mc"
  shows "POpen (tree_ops True pack unpack rcv rcvb Check) (f (pl_num P)) P mc
    = (let xs = tree_total (pl_count P) (length (f 0)) (\<lambda>j. map get_share (f j))
       in Inr (xs, (mc_opened (f (pl_num P)) xs mc)\<lparr>mc_values := \<lparr>pv_data = xs, pv_i = length xs\<rparr>\<rparr>, P))"
proof -
  let ?xs = "tree_total (pl_count P) (length (f 0)) (\<lambda>j. map get_share (f j))"
  have "length (f (pl_num P)) = length (f 0)" using assms(2) by (simp add: open_honest_def tree_honest_def)
  then have "length (f (pl_num P)) = length ?xs" by (simp add: tree_total_def)
  then show ?thesis
    using POpen_Begin_ok [OF assms, of Check] pv_take_all [of "length (f (pl_num P))" ?xs]
    by (simp add: POpen_def POpen_End_def finalize_all_take Let_def mc_opened_def)
qed

text \<open>The states of all parties: the same values in front of the check, and no error in any of them.\<close>

definition states_authentic :: "nat \<Rightarrow> (nat \<Rightarrow> 'a :: comm_ring_1) \<Rightarrow> (nat \<Rightarrow> ('s, 'a) mac_check) \<Rightarrow> bool" where
  "states_authentic n A MC \<longleftrightarrow>
     (\<forall>j<n. mac_check_ready (MC j) \<and> mc_alphai (MC j) = A j \<and> mc_vals (MC j) = mc_vals (MC 0)
        \<and> mc_popen_cnt (MC j) = mc_popen_cnt (MC 0))
     \<and> (\<forall>i < mc_popen_cnt (MC 0). mac_error n A (\<lambda>j. mc_macs (MC j)) (mc_vals (MC 0)) i = 0)"

lemma states_authentic_opened:
  assumes S: "states_authentic n A MC" "0 < n" and len: "\<And>j. length (f j) = length (f 0)"
    and auth: "\<forall>i<length (f 0). authentic n A (\<lambda>j. f j ! i) (xs ! i)" and xs: "length xs = length (f 0)"
  shows "states_authentic n A (\<lambda>j. mc_opened (f j) xs (MC j))"
proof -
  let ?c = "mc_popen_cnt (MC 0)"
  have all: "mac_check_ready (MC j) \<and> mc_alphai (MC j) = A j \<and> mc_vals (MC j) = mc_vals (MC 0) \<and> mc_popen_cnt (MC j) = ?c"
    if "j < n" for j
    using S(1) that unfolding states_authentic_def by blast
  then have macs: "length (mc_macs (MC j)) = ?c" and same: "mc_vals (MC j) = mc_vals (MC 0)" "mc_popen_cnt (MC j) = ?c" if "j < n" for j
    using that unfolding mac_check_ready_def by metis+
  have vals: "length (mc_vals (MC 0)) = ?c"
    using all [OF S(2)] by (simp only: mac_check_ready_def)
  have err: "mac_error n A (\<lambda>j. mc_macs (MC j) @ map get_mac (f j)) (mc_vals (MC 0) @ xs) i = 0" if i: "i < ?c + length xs" for i
  proof (cases "i < ?c")
    case True
    then have "(\<Sum>j < n. (mc_macs (MC j) @ map get_mac (f j)) ! i) = (\<Sum>j < n. mc_macs (MC j) ! i)"
      by (intro sum.cong) (simp_all add: nth_append macs)
    moreover have "mac_error n A (\<lambda>j. mc_macs (MC j)) (mc_vals (MC 0)) i = 0" using S(1) True by (simp add: states_authentic_def)
    ultimately show ?thesis using True vals by (simp add: mac_error_def nth_append)
  next
    case False
    then have k: "i - ?c < length (f 0)" using i xs by simp
    have "(\<Sum>j < n. (mc_macs (MC j) @ map get_mac (f j)) ! i) = (\<Sum>j < n. get_mac (f j ! (i - ?c)))"
    proof (rule sum.cong [OF refl])
      fix j assume "j \<in> {..<n}"
      moreover have "i - ?c < length (f j)" using k len [of j] by simp
      ultimately show "(mc_macs (MC j) @ map get_mac (f j)) ! i = get_mac (f j ! (i - ?c))"
        using False macs by (simp add: nth_append)
    qed
    also have "\<dots> = xs ! (i - ?c) * (\<Sum>j < n. A j)" using auth k by (simp add: authentic_def)
    finally show ?thesis using False vals by (simp add: mac_error_def nth_append)
  qed
  have "mac_check_ready (mc_opened (f j) xs (MC j)) \<and> mc_alphai (mc_opened (f j) xs (MC j)) = A j
      \<and> mc_vals (mc_opened (f j) xs (MC j)) = mc_vals (MC 0) @ xs \<and> mc_popen_cnt (mc_opened (f j) xs (MC j)) = ?c + length xs"
    if j: "j < n" for j
    using all [OF j] macs [OF j] same [OF j] len [of j] xs vals by (simp add: mac_check_ready_def mc_opened_def)
  then show ?thesis
    unfolding states_authentic_def
  proof (intro conjI allI impI)
    fix i assume "i < mc_popen_cnt (mc_opened (f 0) xs (MC 0))"
    then show "mac_error n A (\<lambda>j. mc_macs (mc_opened (f j) xs (MC j))) (mc_vals (mc_opened (f 0) xs (MC 0))) i = 0"
      using err [of i] by (simp add: mc_opened_def)
  qed (use S(2) in \<open>simp_all\<close>)
qed

lemma tree_total_authentic:
  assumes "\<forall>i<m. authentic n A (\<lambda>j. f j ! i) (xs ! i)" "length xs = m" "\<And>j. length (f j) = m"
  shows "tree_total n m (\<lambda>j. map get_share (f j)) = xs"
  using assms by (intro nth_equalityI) (simp_all add: tree_total_def authentic_def)

end
