(* ===== verification/Beaver.thy ===== *)
theory Beaver
  imports Opening
begin

section \<open>Beaver multiplication (Protocols/Beaver, ProtocolBase, SPDZ)\<close>

text \<open>
  The multiplication protocol on triples: one round masks the factors, opens the differences, and
  combines them with the triples. The opening protocol is the record of methods of \<open>MAC_Check_Base\<close>;
  the triples the preprocessing returns are arguments. The operations of the shares are arguments
  too, named as in the interface \<open>linear_sharing\<close>.
\<close>

subsection \<open>ProtocolBase\<close>

record 's protocol_base =
  pb_random :: "'s list"
  pb_counter :: int
  pb_bit_counter :: int
  pb_dot_counter :: int
  pb_rounds :: int

definition protocol_base_new :: "'s protocol_base" where
  "protocol_base_new = \<lparr>pb_random = [], pb_counter = 0, pb_bit_counter = 0, pb_dot_counter = 0, pb_rounds = 0\<rparr>"

definition add_mul :: "int \<Rightarrow> int \<Rightarrow> ('s, 'z) protocol_base_scheme \<Rightarrow> ('s, 'z) protocol_base_scheme" where
  "add_mul default_length n st =
     st\<lparr>pb_counter := pb_counter st + 1, pb_bit_counter := pb_bit_counter st + (if n < 0 then default_length else n)\<rparr>"

text \<open>\<open>buffer_random\<close> is virtual; it fills \<open>random\<close>.\<close>

definition pb_get_random ::
  "(('s, 'z) protocol_base_scheme \<Rightarrow> ('s, 'z) protocol_base_scheme result) \<Rightarrow> ('s, 'z) protocol_base_scheme
    \<Rightarrow> ('s \<times> ('s, 'z) protocol_base_scheme) result" where
  "pb_get_random buffer_random st =
     bind_result (if pb_random st = [] then buffer_random st else Inr st) (\<lambda>st.
       if pb_random st = [] then Inl assertion_failed
       else Inr (last (pb_random st), st\<lparr>pb_random := butlast (pb_random st)\<rparr>))"

text \<open>A sum of products, by the virtual \<open>finalize_mul\<close>.\<close>

definition pb_finalize_dotprod ::
  "('s \<Rightarrow> 's \<Rightarrow> 's) \<Rightarrow> 's \<Rightarrow> (('s, 'z) protocol_base_scheme \<Rightarrow> ('s \<times> ('s, 'z) protocol_base_scheme) result) \<Rightarrow> nat
    \<Rightarrow> ('s, 'z) protocol_base_scheme \<Rightarrow> ('s \<times> ('s, 'z) protocol_base_scheme) result" where
  "pb_finalize_dotprod add zero finalize_mul len st =
     foldM_result (\<lambda>_ (res, st). bind_result (finalize_mul st) (\<lambda>(x, st). Inr (add res x, st))) [0..<len]
       (zero, st\<lparr>pb_counter := pb_counter st + int len, pb_dot_counter := pb_dot_counter st + 1\<rparr>)"

subsection \<open>Beaver\<close>

text \<open>The iterators \<open>it\<close> and \<open>triple\<close> are indices; \<open>ready\<close> tells whether \<open>init\<close> has set the two pointers.\<close>

record ('s, 'a) beaver = "'s protocol_base" +
  bv_shares :: "'s list"
  bv_opened :: "'a list"
  bv_triples :: "('s \<times> 's \<times> 's) list"
  bv_lengths :: "int list"
  bv_it :: nat
  bv_triple :: nat
  bv_ready :: bool

definition beaver_new :: "('s, 'a) beaver" where
  "beaver_new = protocol_base.extend protocol_base_new
     \<lparr>bv_shares = [], bv_opened = [], bv_triples = [], bv_lengths = [], bv_it = 0, bv_triple = 0, bv_ready = False\<rparr>"

definition beaver_init :: "('s, 'a) beaver \<Rightarrow> ('s, 'a) beaver" where
  "beaver_init st = st\<lparr>bv_ready := True\<rparr>"

definition beaver_init_mul :: "('s, 'a) beaver \<Rightarrow> ('s, 'a) beaver result" where
  "beaver_init_mul st =
     (if \<not> bv_ready st then Inl assertion_failed
      else Inr (st\<lparr>bv_shares := [], bv_opened := [], bv_triples := [], bv_lengths := []\<rparr>))"

definition beaver_branch :: "('s, 'a) beaver \<Rightarrow> ('s, 'a) beaver result" where
  "beaver_branch st = beaver_init_mul (beaver_new\<lparr>bv_ready := bv_ready st\<rparr>)"

text \<open>\<open>t\<close> is what \<open>prep->get_triple\<close> returns.\<close>

definition beaver_prepare_mul ::
  "('s \<Rightarrow> 's \<Rightarrow> 's) \<Rightarrow> 's \<times> 's \<times> 's \<Rightarrow> 's \<Rightarrow> 's \<Rightarrow> int \<Rightarrow> ('s, 'a) beaver \<Rightarrow> ('s, 'a) beaver" where
  "beaver_prepare_mul sub t x y n st =
     (case t of (t0, t1, t2) \<Rightarrow>
       st\<lparr>bv_triples := bv_triples st @ [t], bv_shares := bv_shares st @ [sub x t0, sub y t1], bv_lengths := bv_lengths st @ [n]\<rparr>)"

definition beaver_exchange ::
  "('s, 'a) mc_ops \<Rightarrow> player \<Rightarrow> ('s, 'a) beaver \<Rightarrow> ('s, 'a) mac_check
    \<Rightarrow> (('s, 'a) beaver \<times> ('s, 'a) mac_check \<times> player) result" where
  "beaver_exchange ops P st mc =
     (if length (bv_shares st) \<noteq> 2 * length (bv_lengths st) then Inl assertion_failed
      else
        bind_result (foldM_result (\<lambda>i. op_prepare_open ops (bv_shares st ! i) (bv_lengths st ! (i div 2))) [0..<length (bv_shares st)]
            (op_init_open ops (length (bv_shares st)) mc)) (\<lambda>mc.
        bind_result (op_exchange ops P mc) (\<lambda>(mc, P).
        bind_result (finalize_all (length (bv_shares st)) mc) (\<lambda>(xs, mc).
          Inr (st\<lparr>bv_opened := bv_opened st @ xs, bv_it := 0, bv_triple := 0\<rparr>, mc, P)))))"

definition beaver_start_exchange ::
  "('s, 'a) mc_ops \<Rightarrow> player \<Rightarrow> ('s, 'a) beaver \<Rightarrow> ('s, 'a) mac_check \<Rightarrow> (('s, 'a) mac_check \<times> player) result" where
  "beaver_start_exchange ops P st mc = POpen_Begin ops (bv_shares st) P mc"

definition beaver_stop_exchange ::
  "('s, 'a) beaver \<Rightarrow> ('s, 'a) mac_check \<Rightarrow> (('s, 'a) beaver \<times> ('s, 'a) mac_check) result" where
  "beaver_stop_exchange st mc =
     bind_result (POpen_End (bv_shares st) mc) (\<lambda>(opened, mc).
       Inr (st\<lparr>bv_opened := opened, bv_it := 0, bv_triple := 0\<rparr>, mc))"

text \<open>The third element of the triple is updated in place.\<close>

definition beaver_finalize_mul ::
  "('s \<Rightarrow> 's \<Rightarrow> 's) \<Rightarrow> ('s \<Rightarrow> 'a \<Rightarrow> 's) \<Rightarrow> ('a :: times \<Rightarrow> 's) \<Rightarrow> int \<Rightarrow> int \<Rightarrow> ('s, 'a) beaver \<Rightarrow> ('s \<times> ('s, 'a) beaver) result" where
  "beaver_finalize_mul add mul constant default_length n st =
     (if length (bv_opened st) < bv_it st + 2 \<or> length (bv_triples st) \<le> bv_triple st then Inl undefined_behaviour
      else
        let st = add_mul default_length n st;
            (t0, t1, tmp) = bv_triples st ! bv_triple st;
            masked0 = bv_opened st ! bv_it st;
            masked1 = bv_opened st ! (bv_it st + 1);
            tmp = add tmp (mul t1 masked0);
            tmp = add tmp (mul t0 masked1);
            tmp = add tmp (constant (masked0 * masked1))
        in Inr (tmp, st\<lparr>bv_it := bv_it st + 2, bv_triples := (bv_triples st)[bv_triple st := (t0, t1, tmp)],
                 bv_triple := bv_triple st + 1\<rparr>))"

definition beaver_check ::
  "('s, 'a) mc_ops \<Rightarrow> player \<Rightarrow> ('s, 'a) beaver \<Rightarrow> ('s, 'a) mac_check \<Rightarrow> (('s, 'a) mac_check \<times> player) result" where
  "beaver_check ops P st mc = (if \<not> bv_ready st then Inl assertion_failed else op_Check ops P mc)"

text \<open>\<open>SPDZ2k::exchange\<close>: the differences are masked already, so a zero is set as the mask of each.\<close>

definition spdz2k_exchange ::
  "('w :: len word share, 'w word) mc_ops \<Rightarrow> player \<Rightarrow> ('w word share, 'w word) beaver \<Rightarrow> ('w word share, 'w word) mac_check
    \<Rightarrow> (('w word share, 'w word) beaver \<times> ('w word share, 'w word) mac_check \<times> player) result" where
  "spdz2k_exchange ops P st mc =
     beaver_exchange ops P st (fold (\<lambda>_. set_random_element share_assign_zero) [0..<length (bv_shares st)] mc)"

text \<open>\<open>ProtocolBase::multiply\<close>: one round for many products; \<open>ts\<close> are the triples.\<close>

fun prepare_pairs :: "('s \<Rightarrow> 's \<Rightarrow> 's) \<Rightarrow> ('s \<times> 's \<times> 's) list \<Rightarrow> ('s \<times> 's) list \<Rightarrow> ('s, 'a) beaver \<Rightarrow> ('s, 'a) beaver" where
  "prepare_pairs sub (t # ts) ((x, y) # xys) st = prepare_pairs sub ts xys (beaver_prepare_mul sub t x y (- 1) st)"
| "prepare_pairs sub _ _ st = st"

fun finalize_products ::
  "('s \<Rightarrow> 's \<Rightarrow> 's) \<Rightarrow> ('s \<Rightarrow> 'a \<Rightarrow> 's) \<Rightarrow> ('a :: times \<Rightarrow> 's) \<Rightarrow> int \<Rightarrow> nat \<Rightarrow> ('s, 'a) beaver \<Rightarrow> ('s list \<times> ('s, 'a) beaver) result" where
  "finalize_products add mul constant dl 0 st = Inr ([], st)"
| "finalize_products add mul constant dl (Suc n) st =
     bind_result (beaver_finalize_mul add mul constant dl (- 1) st) (\<lambda>(z, st).
     bind_result (finalize_products add mul constant dl n st) (\<lambda>(zs, st). Inr (z # zs, st)))"

definition beaver_multiply ::
  "('s, 'a :: times) mc_ops \<Rightarrow> ('s \<Rightarrow> 's \<Rightarrow> 's) \<Rightarrow> ('s \<Rightarrow> 's \<Rightarrow> 's) \<Rightarrow> ('s \<Rightarrow> 'a \<Rightarrow> 's) \<Rightarrow> ('a \<Rightarrow> 's) \<Rightarrow> int
    \<Rightarrow> ('s \<times> 's \<times> 's) list \<Rightarrow> ('s \<times> 's) list \<Rightarrow> player \<Rightarrow> ('s, 'a) beaver \<Rightarrow> ('s, 'a) mac_check
    \<Rightarrow> ('s list \<times> ('s, 'a) beaver \<times> ('s, 'a) mac_check \<times> player) result" where
  "beaver_multiply ops add sub mul constant dl ts xys P st mc =
     bind_result (beaver_init_mul (beaver_init st)) (\<lambda>st.
     bind_result (beaver_exchange ops P (prepare_pairs sub ts xys st) mc) (\<lambda>(st, mc, P).
     bind_result (finalize_products add mul constant dl (length xys) st) (\<lambda>(zs, st). Inr (zs, st, mc, P))))"

subsection \<open>One round\<close>

lemma foldM_result_nth: "foldM_result (\<lambda>i. g (S ! i)) [0..<length S] s = foldM_result g S s"
proof -
  have "foldM_result (\<lambda>i. g (S ! i)) is' s = foldM_result g (map ((!) S) is') s" for is'
  proof (induction is' arbitrary: s)
    case (Cons i is')
    then show ?case by (cases "g (S ! i) s") simp_all
  qed simp
  then show ?thesis by (simp add: map_nth)
qed

text \<open>The differences that are opened for one product.\<close>

definition masks :: "('s \<Rightarrow> 's \<Rightarrow> 's) \<Rightarrow> 's \<times> 's \<times> 's \<Rightarrow> 's \<times> 's \<Rightarrow> 's list" where
  "masks sub t xy = [sub (fst xy) (fst t), sub (snd xy) (fst (snd t))]"

lemma prepare_pairs_eq:
  "length ts = length xys \<Longrightarrow> prepare_pairs sub ts xys st =
     st\<lparr>bv_triples := bv_triples st @ ts, bv_shares := bv_shares st @ concat (map2 (masks sub) ts xys),
       bv_lengths := bv_lengths st @ replicate (length xys) (- 1)\<rparr>"
proof (induction ts xys arbitrary: st rule: list_induct2)
  case (Cons t ts xy xys)
  then show ?case by (cases xy; cases t) (simp add: beaver_prepare_mul_def masks_def)
qed simp

lemma length_masks: "length ts = length xys \<Longrightarrow> length (concat (map2 (masks sub) ts xys)) = 2 * length xys"
  by (induction ts xys rule: list_induct2) (simp_all add: masks_def)

lemma masks_nth:
  "length ts = length xys \<Longrightarrow> k < length xys \<Longrightarrow>
    concat (map2 (masks sub) ts xys) ! (2 * k) = sub (fst (xys ! k)) (fst (ts ! k))
    \<and> concat (map2 (masks sub) ts xys) ! (2 * k + 1) = sub (snd (xys ! k)) (fst (snd (ts ! k)))"
proof (induction ts xys arbitrary: k rule: list_induct2)
  case (Cons t ts xy xys)
  then show ?case by (cases k) (simp_all add: masks_def)
qed simp

text \<open>What a product is computed as.\<close>

definition beaver_product :: "('s \<Rightarrow> 's \<Rightarrow> 's) \<Rightarrow> ('s \<Rightarrow> 'a \<Rightarrow> 's) \<Rightarrow> ('a :: times \<Rightarrow> 's) \<Rightarrow> 's \<times> 's \<times> 's \<Rightarrow> 'a \<Rightarrow> 'a \<Rightarrow> 's" where
  "beaver_product add mul constant t d e =
     add (add (add (snd (snd t)) (mul (fst (snd t)) d)) (mul (fst t) e)) (constant (d * e))"

lemma finalize_products_eq:
  "length (bv_opened st) = 2 * length (bv_triples st) \<Longrightarrow> bv_it st = 2 * k \<Longrightarrow> bv_triple st = k \<Longrightarrow> k + n \<le> length (bv_triples st)
    \<Longrightarrow> \<exists>st'. finalize_products add mul constant dl n st
      = Inr (map (\<lambda>i. beaver_product add mul constant (bv_triples st ! i) (bv_opened st ! (2 * i)) (bv_opened st ! (2 * i + 1))) [k..<k + n], st')"
proof (induction n arbitrary: st k)
  case (Suc n)
  obtain t0 t1 t2 where t: "bv_triples st ! k = (t0, t1, t2)" by (metis prod_cases3)
  let ?z = "beaver_product add mul constant (bv_triples st ! k) (bv_opened st ! (2 * k)) (bv_opened st ! (2 * k + 1))"
  obtain st1 where st1: "beaver_finalize_mul add mul constant dl (- 1) st = Inr (?z, st1)"
    "bv_opened st1 = bv_opened st" "bv_triples st1 = (bv_triples st)[k := (t0, t1, ?z)]" "bv_it st1 = 2 * Suc k" "bv_triple st1 = Suc k"
    using Suc.prems t by (simp add: beaver_finalize_mul_def add_mul_def beaver_product_def Let_def)
  obtain st' where "finalize_products add mul constant dl n st1
      = Inr (map (\<lambda>i. beaver_product add mul constant (bv_triples st1 ! i) (bv_opened st1 ! (2 * i)) (bv_opened st1 ! (2 * i + 1))) [Suc k..<Suc k + n], st')"
    using Suc.IH [of st1 "Suc k"] Suc.prems st1 by auto
  moreover have "[k..<k + Suc n] = k # [Suc k..<Suc k + n]" by (simp add: upt_conv_Cons del: upt_Suc)
  ultimately show ?case
    using st1 by (simp add: st1 nth_list_update del: upt_Suc)
qed simp

text \<open>The round with the methods of \<open>Tree_MAC_Check\<close>.\<close>

lemma prepare_opens:
  "foldM_result (\<lambda>i. tree_prepare_open True (S ! i) (b i)) [0..<length S] mc
    = foldM_result (\<lambda>secret. tree_prepare_open True secret (- 1)) S mc"
proof -
  have "(\<lambda>i. tree_prepare_open True (S ! i) (b i)) = (\<lambda>i. tree_prepare_open True (S ! i) (- 1))"
    by (simp add: tree_prepare_open_def fun_eq_iff)
  then show ?thesis using foldM_result_nth [of "\<lambda>secret. tree_prepare_open True secret (- 1)" S mc] by simp
qed

lemma beaver_exchange_ok:
  assumes C: "len_codec pack unpack enc" and H: "open_honest enc P f rcv rcvb mc"
    and sh: "bv_shares st = f (pl_num P)" "length (f (pl_num P)) = 2 * length (bv_lengths st)"
  shows "beaver_exchange (tree_ops True pack unpack rcv rcvb Check) P st mc
    = (let xs = tree_total (pl_count P) (length (f 0)) (\<lambda>j. map get_share (f j))
       in Inr (st\<lparr>bv_opened := bv_opened st @ xs, bv_it := 0, bv_triple := 0\<rparr>,
            (mc_opened (f (pl_num P)) xs mc)\<lparr>mc_values := \<lparr>pv_data = xs, pv_i = length xs\<rparr>\<rparr>, P))"
proof -
  let ?xs = "tree_total (pl_count P) (length (f 0)) (\<lambda>j. map get_share (f j))"
  have "length (f (pl_num P)) = length (f 0)" using H by (simp add: open_honest_def tree_honest_def)
  then have len: "length (f (pl_num P)) = length ?xs" by (simp add: tree_total_def)
  have "bind_result (foldM_result (\<lambda>i. tree_prepare_open True (f (pl_num P) ! i) (bv_lengths st ! (i div 2))) [0..<length (f (pl_num P))]
        (tree_init_open (length (f (pl_num P))) mc)) (\<lambda>mc. tree_exchange pack unpack rcv rcvb Check P mc)
      = Inr (mc_opened (f (pl_num P)) ?xs mc, P)"
    unfolding prepare_opens [where b = "\<lambda>i. bv_lengths st ! (i div 2)"]
    using POpen_Begin_ok [OF C H, of Check] by (simp add: POpen_Begin_def tree_ops_def)
  then show ?thesis
    using len sh pv_take_all [of "length ?xs" ?xs]
    by (simp add: beaver_exchange_def tree_ops_def finalize_all_take Let_def mc_opened_def bind_result_assoc [symmetric])
qed

lemma states_authentic_values:
  "states_authentic n A (\<lambda>j. (MC j)\<lparr>mc_values := v\<rparr>) = states_authentic n A MC"
  by (simp add: states_authentic_def mac_check_ready_def)

text \<open>
  All parties multiply: \<open>X j\<close> are the pairs of shares of party \<open>j\<close>, \<open>T j\<close> its triples, which stand for the factors
  \<open>x k\<close>, \<open>y k\<close> and the triples of \<open>a k\<close>, \<open>b k\<close> and their product.
\<close>

definition beaver_inputs ::
  "nat \<Rightarrow> (nat \<Rightarrow> 'a :: comm_ring_1) \<Rightarrow> nat \<Rightarrow> (nat \<Rightarrow> ('a share \<times> 'a share) list) \<Rightarrow> (nat \<Rightarrow> ('a share \<times> 'a share \<times> 'a share) list)
    \<Rightarrow> (nat \<Rightarrow> 'a) \<Rightarrow> (nat \<Rightarrow> 'a) \<Rightarrow> (nat \<Rightarrow> 'a) \<Rightarrow> (nat \<Rightarrow> 'a) \<Rightarrow> bool" where
  "beaver_inputs n A m X T x y a b \<longleftrightarrow> (\<forall>j. length (X j) = m \<and> length (T j) = m)
     \<and> (\<forall>k<m. authentic n A (\<lambda>j. fst (X j ! k)) (x k) \<and> authentic n A (\<lambda>j. snd (X j ! k)) (y k)
          \<and> authentic n A (\<lambda>j. fst (T j ! k)) (a k) \<and> authentic n A (\<lambda>j. fst (snd (T j ! k))) (b k)
          \<and> authentic n A (\<lambda>j. snd (snd (T j ! k))) (a k * b k))"

lemma beaver_multiply_ok:
  assumes C: "len_codec pack unpack enc" and n: "0 < n" and S: "states_authentic n A MC"
    and I: "beaver_inputs n A m X T x y a b"
    and H: "\<And>j. j < n \<Longrightarrow> open_honest enc \<lparr>pl_num = j, pl_count = n, pl_ctx = c j\<rparr> (\<lambda>j. concat (map2 (masks (-)) (T j) (X j))) rcv rcvb (MC j)"
  shows "\<exists>Z MC'. (\<forall>j<n. \<exists>st'. beaver_multiply (tree_ops True pack unpack rcv rcvb Check) (+) (-) share_mul
        (\<lambda>v. share_constant v j (A j)) dl (T j) (X j) \<lparr>pl_num = j, pl_count = n, pl_ctx = c j\<rparr> (st j) (MC j)
        = Inr (Z j, st', MC' j, \<lparr>pl_num = j, pl_count = n, pl_ctx = c j\<rparr>))
    \<and> (\<forall>k<m. authentic n A (\<lambda>j. Z j ! k) (x k * y k)) \<and> states_authentic n A MC'"
proof -
  let ?f = "\<lambda>j. concat (map2 (masks (-)) (T j) (X j))"
  have len: "length (X j) = m" "length (T j) = m" for j using I by (simp_all add: beaver_inputs_def)
  have flen: "length (?f j) = 2 * m" for j using length_masks [of "T j" "X j"] len by simp
  define xs where "xs = tree_total n (2 * m) (\<lambda>j. map get_share (?f j))"
  have xlen: "length xs = 2 * m" by (simp add: xs_def tree_total_def)
  have mask: "authentic n A (\<lambda>j. ?f j ! (2 * k)) (x k - a k)" "authentic n A (\<lambda>j. ?f j ! (2 * k + 1)) (y k - b k)" if "k < m" for k
  proof -
    have "?f j ! (2 * k) = fst (X j ! k) - fst (T j ! k)" "?f j ! (2 * k + 1) = snd (X j ! k) - fst (snd (T j ! k))" for j
      using masks_nth [of "T j" "X j" k "(-)"] len that by simp_all
    then show "authentic n A (\<lambda>j. ?f j ! (2 * k)) (x k - a k)" "authentic n A (\<lambda>j. ?f j ! (2 * k + 1)) (y k - b k)"
      using I that by (simp_all only: beaver_inputs_def spdz.holds_sub)
  qed
  have half: "i = 2 * (i div 2) \<or> i = 2 * (i div 2) + 1" for i :: nat by presburger
  define w where "w = (\<lambda>i. if even i then x (i div 2) - a (i div 2) else y (i div 2) - b (i div 2))"
  have auth: "authentic n A (\<lambda>j. ?f j ! i) (w i)" if "i < 2 * m" for i
    using mask [of "i div 2"] half [of i] that by (cases "even i") (auto simp: w_def elim!: evenE oddE)
  have xw: "xs = map w [0..<2 * m]"
    unfolding xs_def by (rule tree_total_authentic [where A = A]) (use auth flen in simp_all)
  have opened: "xs ! (2 * k) = x k - a k" "xs ! (2 * k + 1) = y k - b k" if "k < m" for k
    using that by (simp_all add: xw w_def)
  let ?Z = "\<lambda>j. map (\<lambda>k. beaver_product (+) share_mul (\<lambda>v. share_constant v j (A j)) (T j ! k) (xs ! (2 * k)) (xs ! (2 * k + 1))) [0..<m]"
  let ?MC = "\<lambda>j. (mc_opened (?f j) xs (MC j))\<lparr>mc_values := \<lparr>pv_data = xs, pv_i = length xs\<rparr>\<rparr>"
  have run: "\<exists>st'. beaver_multiply (tree_ops True pack unpack rcv rcvb Check) (+) (-) share_mul
        (\<lambda>v. share_constant v j (A j)) dl (T j) (X j) \<lparr>pl_num = j, pl_count = n, pl_ctx = c j\<rparr> (st j) (MC j)
        = Inr (?Z j, st', ?MC j, \<lparr>pl_num = j, pl_count = n, pl_ctx = c j\<rparr>)" if j: "j < n" for j
  proof -
    let ?P = "\<lparr>pl_num = j, pl_count = n, pl_ctx = c j\<rparr>"
    obtain st0 where st0: "beaver_init_mul (beaver_init (st j)) = Inr st0"
      "bv_shares st0 = []" "bv_triples st0 = []" "bv_lengths st0 = []" "bv_opened st0 = []"
      by (simp add: beaver_init_mul_def beaver_init_def)
    let ?st1 = "prepare_pairs (-) (T j) (X j) st0"
    have st1: "bv_shares ?st1 = ?f j" "bv_triples ?st1 = T j" "length (bv_lengths ?st1) = m" "bv_opened ?st1 = []"
      using prepare_pairs_eq [of "T j" "X j" "(-)" st0] st0 len by simp_all
    have ex: "beaver_exchange (tree_ops True pack unpack rcv rcvb Check) ?P ?st1 (MC j)
        = Inr (?st1\<lparr>bv_opened := xs, bv_it := 0, bv_triple := 0\<rparr>, ?MC j, ?P)"
      using beaver_exchange_ok [OF C H [OF j], of ?st1 Check] st1 flen by (simp add: xs_def Let_def)
    obtain st' where "finalize_products (+) share_mul (\<lambda>v. share_constant v j (A j)) dl m (?st1\<lparr>bv_opened := xs, bv_it := 0, bv_triple := 0\<rparr>)
        = Inr (?Z j, st')"
      using finalize_products_eq [of "?st1\<lparr>bv_opened := xs, bv_it := 0, bv_triple := 0\<rparr>" 0 m "(+)" share_mul
          "\<lambda>v. share_constant v j (A j)" dl] st1 xlen len by auto
    then show ?thesis
      using st0 ex len by (simp add: beaver_multiply_def)
  qed
  have prod: "authentic n A (\<lambda>j. ?Z j ! k) (x k * y k)" if "k < m" for k
    using spdz.holds_beaver [of n A "\<lambda>j. fst (X j ! k)" "x k" "\<lambda>j. snd (X j ! k)" "y k" "\<lambda>j. fst (T j ! k)" "a k"
        "\<lambda>j. fst (snd (T j ! k))" "b k" "\<lambda>j. snd (snd (T j ! k))"] I n that opened [OF that]
    by (simp add: beaver_inputs_def beaver_product_def)
  have "states_authentic n A (\<lambda>j. mc_opened (?f j) xs (MC j))"
    using states_authentic_opened [OF S n, of ?f xs] auth flen xlen by (simp add: xw)
  then have "states_authentic n A ?MC" by (simp add: states_authentic_values)
  with run prod show ?thesis by (intro exI [of _ ?Z] exI [of _ ?MC]) blast
qed

end
