(* ===== verification/Replicated.thy ===== *)
theory Replicated
  imports Beaver
begin

section \<open>Replicated secret sharing among three parties (Protocols/Replicated, Rep3Share, Math/FixedVec)\<close>

text \<open>
  A share of the semi-honest three-party protocol is a vector of two ring elements: the value is the sum
  of three summands, and party \<open>i\<close> holds summands \<open>i\<close> and \<open>i - 1\<close>. The theory has the share type, the
  multiplication, dot products, random shares and the setting up of the pairwise generators, each party's
  side first, then the three parties together. The generators are read through \<open>draw n_bits G\<close>; what two
  parties need of a generator they share is the locale \<open>shared_source\<close>.
\<close>

subsection \<open>FixedVec\<close>

text \<open>The vector \<open>v\<close> of \<open>L\<close> elements is a list of this length.\<close>

type_synonym 'a fixed_vec = "'a list"

definition fv_fill :: "nat \<Rightarrow> 'a \<Rightarrow> 'a fixed_vec" where
  "fv_fill L other = replicate L other"

definition fv_convert :: "('b \<Rightarrow> 'a) \<Rightarrow> 'b fixed_vec \<Rightarrow> 'a fixed_vec" where
  "fv_convert cv other = map cv other"

definition fv_assign_zero :: "nat \<Rightarrow> 'a :: zero fixed_vec" where
  "fv_assign_zero L = fv_fill L 0"

definition fv_add :: "'a :: plus fixed_vec \<Rightarrow> 'a fixed_vec \<Rightarrow> 'a fixed_vec" where
  "fv_add x y = map2 (+) x y"

definition fv_sub :: "'a :: minus fixed_vec \<Rightarrow> 'a fixed_vec \<Rightarrow> 'a fixed_vec" where
  "fv_sub x y = map2 (-) x y"

definition fv_mul :: "'a :: times fixed_vec \<Rightarrow> 'a fixed_vec \<Rightarrow> 'a fixed_vec" where
  "fv_mul x y = map2 (*) x y"

definition fv_negate :: "'a :: uminus fixed_vec \<Rightarrow> 'a fixed_vec" where
  "fv_negate x = map uminus x"

definition fv_equal :: "'a fixed_vec \<Rightarrow> 'a fixed_vec \<Rightarrow> bool" where
  "fv_equal v x \<longleftrightarrow> list_all2 (=) v x"

definition fv_is_zero :: "'a :: zero fixed_vec \<Rightarrow> bool" where
  "fv_is_zero v \<longleftrightarrow> fv_equal v (fv_fill (length v) 0)"

definition fv_is_one :: "'a :: one fixed_vec \<Rightarrow> bool" where
  "fv_is_one v \<longleftrightarrow> fv_equal v (fv_fill (length v) 1)"

definition fv_xor :: "'k :: len word fixed_vec \<Rightarrow> 'k word fixed_vec \<Rightarrow> 'k word fixed_vec" where
  "fv_xor v other = map2 (XOR) v other"

definition fv_and :: "'k :: len word fixed_vec \<Rightarrow> 'k word fixed_vec \<Rightarrow> 'k word fixed_vec" where
  "fv_and v other = map2 (AND) v other"

definition fv_not :: "'k :: len word fixed_vec \<Rightarrow> 'k word fixed_vec" where
  "fv_not v = map (\<lambda>x. NOT x) v"

definition fv_shl :: "'k :: len word fixed_vec \<Rightarrow> nat \<Rightarrow> 'k word fixed_vec" where
  "fv_shl v i = map (push_bit i) v"

definition fv_shr :: "'k :: len word fixed_vec \<Rightarrow> nat \<Rightarrow> 'k word fixed_vec" where
  "fv_shr v i = map (drop_bit i) v"

definition fv_get_bit :: "'k :: len word fixed_vec \<Rightarrow> nat \<Rightarrow> 'k word fixed_vec" where
  "fv_get_bit v i = fv_and (fv_shr v i) (fv_fill (length v) 1)"

text \<open>A vector has an element: \<open>L\<close> is at least 1.\<close>

definition fv_sum :: "'a :: plus fixed_vec \<Rightarrow> 'a" where
  "fv_sum v = foldl (+) (hd v) (tl v)"

text \<open>By the lazy addition \<open>lz\<close> of the elements.\<close>

definition fv_lazy_sum :: "('a \<Rightarrow> 'a \<Rightarrow> 'a) \<Rightarrow> 'a fixed_vec \<Rightarrow> 'a result" where
  "fv_lazy_sum lz v =
     (if length v \<le> 1 then Inl assertion_failed else Inr (foldl lz (lz (v ! 0) (v ! 1)) (drop 2 v)))"

text \<open>Random vectors, by \<open>T::randomize\<close>.\<close>

fun fv_randomize :: "nat \<Rightarrow> ('g \<Rightarrow> ('a \<times> 'g) result) \<Rightarrow> 'g \<Rightarrow> ('a fixed_vec \<times> 'g) result" where
  "fv_randomize 0 draw G = Inr ([], G)"
| "fv_randomize (Suc L) draw G =
     bind_result (draw G) (\<lambda>(x, G). bind_result (fv_randomize L draw G) (\<lambda>(xs, G). Inr (x # xs, G)))"

text \<open>Random summands of \<open>sum\<close>; the first is determined by the others.\<close>

definition fv_randomize_to_sum ::
  "nat \<Rightarrow> ('g \<Rightarrow> ('a :: comm_ring_1 \<times> 'g) result) \<Rightarrow> 'a \<Rightarrow> 'g \<Rightarrow> ('a fixed_vec \<times> 'g) result" where
  "fv_randomize_to_sum L draw s G =
     bind_result (fv_randomize (L - 1) draw G) (\<lambda>(xs, G). Inr ((s - foldl (+) 0 xs) # xs, G))"

definition fv_pack :: "(octet_stream \<Rightarrow> 'a \<Rightarrow> octet_stream result) \<Rightarrow> octet_stream \<Rightarrow> 'a fixed_vec \<Rightarrow> octet_stream result" where
  "fv_pack pack os v = os_store_all pack os v"

definition fv_unpack ::
  "nat \<Rightarrow> (octet_stream \<Rightarrow> ('a \<times> octet_stream) result) \<Rightarrow> octet_stream \<Rightarrow> ('a fixed_vec \<times> octet_stream) result" where
  "fv_unpack L unpack os = os_get_all unpack L os"

lemma fv_pair:
  "fv_add [a, b] [c, d] = [a + c, b + d]" "fv_sub [a', b'] [c', d'] = [a' - c', b' - d']"
  "fv_sum [x, y] = x + y"
  by (simp_all add: fv_add_def fv_sub_def fv_sum_def)

lemma length_fv [simp]:
  "length (fv_fill L a) = L" "length (fv_add x y) = min (length x) (length y)" "length (fv_sub x y) = min (length x) (length y)"
  "length (fv_mul x y) = min (length x) (length y)"
  by (simp_all add: fv_fill_def fv_add_def fv_sub_def fv_mul_def)

lemma nth_fv [simp]:
  "i < L \<Longrightarrow> fv_fill L a ! i = a"
  "i < length x \<Longrightarrow> i < length y \<Longrightarrow> fv_add x y ! i = x ! i + y ! i"
  "i < length v \<Longrightarrow> i < length w \<Longrightarrow> fv_sub v w ! i = v ! i - w ! i"
  "i < length p \<Longrightarrow> i < length q \<Longrightarrow> fv_mul p q ! i = p ! i * q ! i"
  by (simp_all add: fv_fill_def fv_add_def fv_sub_def fv_mul_def)

lemma foldl_plus: "foldl (+) a xs = a + sum_list (xs :: 'a :: comm_monoid_add list)"
  by (induction xs arbitrary: a) (simp_all add: ac_simps)

lemma fv_sum_sum_list: "v \<noteq> [] \<Longrightarrow> fv_sum v = sum_list (v :: 'a :: comm_monoid_add list)"
  by (cases v) (simp_all add: fv_sum_def foldl_plus)

lemma length_fv_randomize: "fv_randomize L draw G = Inr (xs, G') \<Longrightarrow> length xs = L"
  by (induction L arbitrary: G xs G') (auto simp: bind_result_Inr_iff)

text \<open>The summands drawn for a value add up to it.\<close>

lemma fv_randomize_to_sum_sum:
  "0 < L \<Longrightarrow> fv_randomize_to_sum L draw s G = Inr (v, G') \<Longrightarrow> length v = L \<and> fv_sum v = s"
  by (auto simp: fv_randomize_to_sum_def bind_result_Inr_iff fv_sum_sum_list foldl_plus
      dest!: length_fv_randomize)

subsection \<open>Rep3Share\<close>

type_synonym 'a rep3 = "'a fixed_vec"

definition rep_threshold :: nat where
  "rep_threshold = 1"

text \<open>Without \<open>full\<close> only the first element is sent; the receiver has no use for the flag.\<close>

definition rep_pack :: "(octet_stream \<Rightarrow> 'a \<Rightarrow> octet_stream result) \<Rightarrow> bool \<Rightarrow> octet_stream \<Rightarrow> 'a fixed_vec \<Rightarrow> octet_stream result" where
  "rep_pack pack full os v = (if full then fv_pack pack os v else pack os (v ! 0))"

definition rep_unpack ::
  "nat \<Rightarrow> (octet_stream \<Rightarrow> ('a \<times> octet_stream) result) \<Rightarrow> bool \<Rightarrow> octet_stream \<Rightarrow> ('a fixed_vec \<times> octet_stream) result" where
  "rep_unpack L unpack full os = (if full then fv_unpack L unpack os else Inl assertion_failed)"

text \<open>\<open>Replicated::assign\<close>: summand 0 is the value, held by parties 0 and 1.\<close>

definition rep3_assign :: "'a :: zero \<Rightarrow> nat \<Rightarrow> 'a rep3" where
  "rep3_assign value my_num =
     (let share = fv_assign_zero 2 in if my_num < 2 then share[my_num := value] else share)"

definition rep3_constant :: "'a :: zero \<Rightarrow> nat \<Rightarrow> 'a rep3" where
  "rep3_constant value my_num = rep3_assign value my_num"

text \<open>The part of the product that a party can compute; the lazy operations are those of the ring.\<close>

definition rep3_local_mul :: "'a :: comm_ring_1 rep3 \<Rightarrow> 'a rep3 \<Rightarrow> 'a" where
  "rep3_local_mul self other =
     (let a = self ! 0 * fv_sum other; b = self ! 1 * other ! 0 in a + b)"

text \<open>What the shares of the three parties stand for. Party \<open>i + 1\<close> holds the first summand of party \<open>i\<close> as its second.\<close>

definition next3 :: "nat \<Rightarrow> nat" where
  "next3 i = (i + 1) mod 3"

definition prev3 :: "nat \<Rightarrow> nat" where
  "prev3 i = (i + 2) mod 3"

lemma all_three: "(\<forall>i < 3. P i) \<longleftrightarrow> P 0 \<and> P 1 \<and> P (2 :: nat)"
  by (auto simp: numeral_3_eq_3 less_Suc_eq numeral_2_eq_2)

lemma next3_simps [simp]: "next3 0 = 1" "next3 1 = 2" "next3 (Suc 0) = 2" "next3 2 = 0" "prev3 0 = 2" "prev3 1 = 0" "prev3 (Suc 0) = 0" "prev3 2 = 1"
  by (simp_all add: next3_def prev3_def)

lemma next3_cases:
  "i < 3 \<Longrightarrow> (i = 0 \<and> next3 i = 1 \<and> prev3 i = 2) \<or> (i = 1 \<and> next3 i = 2 \<and> prev3 i = 0) \<or> (i = 2 \<and> next3 i = 0 \<and> prev3 i = 1)"
proof -
  assume "i < 3"
  then have "i = 0 \<or> i = 1 \<or> i = 2" by linarith
  then show ?thesis by auto
qed

definition replicated3 :: "(nat \<Rightarrow> 'a :: comm_monoid_add rep3) \<Rightarrow> 'a \<Rightarrow> bool" where
  "replicated3 f x \<longleftrightarrow> (\<forall>i < 3. length (f i) = 2 \<and> f (next3 i) ! 1 = f i ! 0) \<and> f 0 ! 0 + f 1 ! 0 + f 2 ! 0 = x"

lemma replicated3_iff:
  "replicated3 f x \<longleftrightarrow> length (f 0) = 2 \<and> length (f 1) = 2 \<and> length (f 2) = 2
     \<and> f 1 ! 1 = f 0 ! 0 \<and> f 2 ! 1 = f 1 ! 0 \<and> f 0 ! 1 = f 2 ! 0 \<and> f 0 ! 0 + f 1 ! 0 + f 2 ! 0 = x"
  unfolding replicated3_def all_three by auto

lemma replicated3_sum: "replicated3 f x \<Longrightarrow> i < 3 \<Longrightarrow> fv_sum (f i) + f (next3 i) ! 0 = x"
proof -
  assume "replicated3 f x" "i < 3"
  moreover from \<open>i < 3\<close> have "i = 0 \<or> i = 1 \<or> i = 2" by linarith
  moreover have "fv_sum v = v ! 0 + v ! 1" if "length v = 2" for v :: "'a list"
    using that by (cases v; cases "tl v") (auto simp: fv_sum_def)
  ultimately show ?thesis by (auto simp: replicated3_iff ac_simps)
qed

interpretation rep3: linear_sharing 3 "replicated3 :: _ \<Rightarrow> 'a :: comm_ring_1 \<Rightarrow> bool" fv_add fv_sub
  "\<lambda>v c. fv_mul v (fv_fill 2 c)" rep3_constant
  by unfold_locales
    (auto simp: replicated3_iff rep3_constant_def rep3_assign_def fv_assign_zero_def fv_fill_def numeral_2_eq_2 algebra_simps)

lemma fv_sum_two: "length v = 2 \<Longrightarrow> fv_sum v = v ! 0 + v ! 1"
  by (cases v; cases "tl v") (auto simp: fv_sum_def)

text \<open>The local products add up to the product.\<close>

lemma local_mul_sum:
  assumes "replicated3 f x" "replicated3 g y"
  shows "rep3_local_mul (f 0) (g 0) + rep3_local_mul (f 1) (g 1) + rep3_local_mul (f 2) (g 2) = x * y"
proof -
  have "rep3_local_mul (f i) (g i) = f i ! 0 * (g i ! 0 + g i ! 1) + f i ! 1 * g i ! 0" if "i < 3" for i
    using that assms(2) by (simp add: rep3_local_mul_def fv_sum_two replicated3_def)
  moreover have "x = f 0 ! 0 + f 1 ! 0 + f 2 ! 0" "y = g 0 ! 0 + g 1 ! 0 + g 2 ! 0"
    using assms by (auto simp: replicated3_iff)
  ultimately show ?thesis
    using assms by (simp add: replicated3_iff algebra_simps)
qed

subsection \<open>The pairwise generators (ReplicatedBase)\<close>

text \<open>
  Every party seeds its generator 0 from the operating system and sends the seed to the next party, whose
  generator 1 it becomes. \<open>encrypted\<close> tells whether the channels are; \<open>insecure\<close> ends the program.
\<close>

definition replicated_base ::
  "block_cipher \<Rightarrow> nat \<Rightarrow> bool \<Rightarrow> player \<Rightarrow> octet list \<Rightarrow> (nat \<Rightarrow> octet list) \<Rightarrow> prng \<Rightarrow> prng
    \<Rightarrow> ((nat \<times> octet_stream) \<times> prng \<times> prng) result" where
  "replicated_base E pl encrypted P entropy rcv G0 G1 =
     (if pl_count P \<noteq> 3 then Inl assertion_failed
      else if \<not> encrypted then Inl process_exit
      else
        bind_result (prng_ReSeed E pl entropy G0) (\<lambda>G0.
          let os = os_append os_empty (take SEED_SIZE (pr_seed G0));
              sent = send_relative_one P 1 os;
              os = receive_relative_one P rcv (- 1) os
          in if os_len os < SEED_SIZE then Inl undefined_behaviour
             else bind_result (prng_SetSeed E pl (os_data os) G1) (\<lambda>G1. Inr (sent, G0, G1))))"

text \<open>New generators seeded from given ones, which move on.\<close>

definition replicated_base_from ::
  "block_cipher \<Rightarrow> nat \<Rightarrow> prng \<times> prng \<Rightarrow> prng \<times> prng \<Rightarrow> ((prng \<times> prng) \<times> prng \<times> prng) result" where
  "replicated_base_from E pl prngs new =
     bind_result (prng_SetSeed_from E pl (fst prngs) (fst new)) (\<lambda>(n0, p0).
     bind_result (prng_SetSeed_from E pl (snd prngs) (snd new)) (\<lambda>(n1, p1). Inr ((n0, n1), p0, p1)))"

definition replicated_branch :: "block_cipher \<Rightarrow> nat \<Rightarrow> prng \<times> prng \<Rightarrow> prng \<times> prng \<Rightarrow> ((prng \<times> prng) \<times> prng \<times> prng) result" where
  "replicated_branch E pl prngs new = replicated_base_from E pl prngs new"

subsection \<open>The protocol of one party\<close>

record 'a replicated = "'a rep3 protocol_base" +
  rp_prng0 :: prng
  rp_prng1 :: prng
  rp_os0 :: octet_stream
  rp_os1 :: octet_stream
  rp_add_shares :: "'a pointer_vector"
  rp_dotprod_share :: 'a

definition replicated_new :: "prng \<times> prng \<Rightarrow> 'a :: zero replicated" where
  "replicated_new prngs = protocol_base.extend protocol_base_new
     \<lparr>rp_prng0 = fst prngs, rp_prng1 = snd prngs, rp_os0 = os_empty, rp_os1 = os_empty, rp_add_shares = pv_new,
      rp_dotprod_share = 0\<rparr>"

definition replicated_init_mul :: "'a replicated \<Rightarrow> 'a replicated" where
  "replicated_init_mul st =
     st\<lparr>rp_os0 := os_reset_write_head (rp_os0 st), rp_os1 := os_reset_write_head (rp_os1 st),
        rp_add_shares := pv_clear (rp_add_shares st)\<rparr>"

text \<open>The summand is masked by a difference of pairwise randomness; \<open>n\<close> is a number of bits.\<close>

definition replicated_prepare_reshare ::
  "(int \<Rightarrow> octet_stream \<Rightarrow> 'a \<Rightarrow> octet_stream result) \<Rightarrow> (int \<Rightarrow> prng \<Rightarrow> ('a :: comm_ring_1 \<times> prng) result)
    \<Rightarrow> 'a \<Rightarrow> int \<Rightarrow> 'a replicated \<Rightarrow> 'a replicated result" where
  "replicated_prepare_reshare pack draw share n st =
     bind_result (draw n (rp_prng0 st)) (\<lambda>(tmp0, G0).
     bind_result (draw n (rp_prng1 st)) (\<lambda>(tmp1, G1).
       let add_share = share + tmp0 - tmp1
       in bind_result (pack n (rp_os0 st) add_share) (\<lambda>os0.
            Inr (st\<lparr>rp_prng0 := G0, rp_prng1 := G1, rp_os0 := os0, rp_add_shares := pv_push_back add_share (rp_add_shares st)\<rparr>))))"

definition replicated_prepare_mul ::
  "(int \<Rightarrow> octet_stream \<Rightarrow> 'a \<Rightarrow> octet_stream result) \<Rightarrow> (int \<Rightarrow> prng \<Rightarrow> ('a :: comm_ring_1 \<times> prng) result)
    \<Rightarrow> 'a rep3 \<Rightarrow> 'a rep3 \<Rightarrow> int \<Rightarrow> 'a replicated \<Rightarrow> 'a replicated result" where
  "replicated_prepare_mul pack draw x y n st = replicated_prepare_reshare pack draw (rep3_local_mul x y) n st"

definition replicated_exchange :: "player \<Rightarrow> (nat \<Rightarrow> octet list) \<Rightarrow> 'a replicated \<Rightarrow> 'a replicated result" where
  "replicated_exchange P rcv st =
     (let os0 = os_append (rp_os0 st) []
      in bind_result (if 0 < os_len os0 then pass_around P rcv os0 (rp_os1 st) 1 else Inr (rp_os1 st)) (\<lambda>os1.
           Inr (st\<lparr>rp_os0 := os0, rp_os1 := os1, pb_rounds := pb_rounds st + 1\<rparr>)))"

definition replicated_start_exchange :: "player \<Rightarrow> 'a replicated \<Rightarrow> (nat \<times> octet_stream) \<times> 'a replicated" where
  "replicated_start_exchange P st =
     (let os0 = os_append (rp_os0 st) []
      in (send_relative_one P 1 os0, st\<lparr>rp_os0 := os0, pb_rounds := pb_rounds st + 1\<rparr>))"

definition replicated_stop_exchange :: "player \<Rightarrow> (nat \<Rightarrow> octet list) \<Rightarrow> 'a replicated \<Rightarrow> 'a replicated" where
  "replicated_stop_exchange P rcv st = st\<lparr>rp_os1 := receive_relative_one P rcv (- 1) (rp_os1 st)\<rparr>"

definition replicated_finalize_mul ::
  "(int \<Rightarrow> octet_stream \<Rightarrow> ('a \<times> octet_stream) result) \<Rightarrow> int \<Rightarrow> int \<Rightarrow> 'a replicated \<Rightarrow> ('a rep3 \<times> 'a replicated) result" where
  "replicated_finalize_mul unpack default_length n st =
     (let st = add_mul default_length n st
      in bind_result (pv_next (rp_add_shares st)) (\<lambda>(r0, v).
         bind_result (unpack n (rp_os1 st)) (\<lambda>(r1, os1).
           Inr ([r0, r1], st\<lparr>rp_add_shares := v, rp_os1 := os1\<rparr>))))"

definition replicated_init_dotprod :: "'a :: zero replicated \<Rightarrow> 'a replicated" where
  "replicated_init_dotprod st = (replicated_init_mul st)\<lparr>rp_dotprod_share := 0\<rparr>"

definition replicated_prepare_dotprod :: "'a :: comm_ring_1 rep3 \<Rightarrow> 'a rep3 \<Rightarrow> 'a replicated \<Rightarrow> 'a replicated" where
  "replicated_prepare_dotprod x y st = st\<lparr>rp_dotprod_share := rp_dotprod_share st + rep3_local_mul x y\<rparr>"

definition replicated_next_dotprod ::
  "(int \<Rightarrow> octet_stream \<Rightarrow> 'a \<Rightarrow> octet_stream result) \<Rightarrow> (int \<Rightarrow> prng \<Rightarrow> ('a :: comm_ring_1 \<times> prng) result)
    \<Rightarrow> 'a replicated \<Rightarrow> 'a replicated result" where
  "replicated_next_dotprod pack draw st =
     bind_result (replicated_prepare_reshare pack draw (rp_dotprod_share st) (- 1) st) (\<lambda>st. Inr (st\<lparr>rp_dotprod_share := 0\<rparr>))"

definition replicated_finalize_dotprod ::
  "(int \<Rightarrow> octet_stream \<Rightarrow> ('a \<times> octet_stream) result) \<Rightarrow> int \<Rightarrow> 'a replicated \<Rightarrow> ('a rep3 \<times> 'a replicated) result" where
  "replicated_finalize_dotprod unpack default_length st =
     replicated_finalize_mul unpack default_length (- 1) (st\<lparr>pb_dot_counter := pb_dot_counter st + 1\<rparr>)"

definition replicated_get_random :: "(int \<Rightarrow> prng \<Rightarrow> ('a \<times> prng) result) \<Rightarrow> 'a replicated \<Rightarrow> ('a rep3 \<times> 'a replicated) result" where
  "replicated_get_random draw st =
     bind_result (draw (- 1) (rp_prng0 st)) (\<lambda>(r0, G0).
     bind_result (draw (- 1) (rp_prng1 st)) (\<lambda>(r1, G1). Inr ([r0, r1], st\<lparr>rp_prng0 := G0, rp_prng1 := G1\<rparr>)))"

text \<open>By \<open>randomize_part\<close>.\<close>

definition replicated_randoms ::
  "(int \<Rightarrow> prng \<Rightarrow> ('a \<times> prng) result) \<Rightarrow> int \<Rightarrow> 'a replicated \<Rightarrow> ('a rep3 \<times> 'a replicated) result" where
  "replicated_randoms draw_part n_bits st =
     bind_result (draw_part n_bits (rp_prng0 st)) (\<lambda>(r0, G0).
     bind_result (draw_part n_bits (rp_prng1 st)) (\<lambda>(r1, G1). Inr ([r0, r1], st\<lparr>rp_prng0 := G0, rp_prng1 := G1\<rparr>)))"

text \<open>\<open>ProtocolBase::multiply\<close> and \<open>ProtocolBase::mul\<close> with the methods above, split at the exchange.\<close>

definition rep_prepare_all ::
  "(int \<Rightarrow> octet_stream \<Rightarrow> 'a \<Rightarrow> octet_stream result) \<Rightarrow> (int \<Rightarrow> prng \<Rightarrow> ('a :: comm_ring_1 \<times> prng) result)
    \<Rightarrow> ('a rep3 \<times> 'a rep3) list \<Rightarrow> 'a replicated \<Rightarrow> 'a replicated result" where
  "rep_prepare_all pack draw xys st = foldM_result (\<lambda>(x, y). replicated_prepare_mul pack draw x y (- 1)) xys st"

fun rep_finalize_all ::
  "(int \<Rightarrow> octet_stream \<Rightarrow> ('a \<times> octet_stream) result) \<Rightarrow> int \<Rightarrow> nat \<Rightarrow> 'a replicated \<Rightarrow> ('a rep3 list \<times> 'a replicated) result" where
  "rep_finalize_all unpack dl 0 st = Inr ([], st)"
| "rep_finalize_all unpack dl (Suc n) st =
     bind_result (replicated_finalize_mul unpack dl (- 1) st) (\<lambda>(z, st).
     bind_result (rep_finalize_all unpack dl n st) (\<lambda>(zs, st). Inr (z # zs, st)))"

definition rep_multiply ::
  "(int \<Rightarrow> octet_stream \<Rightarrow> 'a \<Rightarrow> octet_stream result) \<Rightarrow> (int \<Rightarrow> octet_stream \<Rightarrow> ('a \<times> octet_stream) result)
    \<Rightarrow> (int \<Rightarrow> prng \<Rightarrow> ('a :: comm_ring_1 \<times> prng) result) \<Rightarrow> int \<Rightarrow> player \<Rightarrow> (nat \<Rightarrow> octet list)
    \<Rightarrow> ('a rep3 \<times> 'a rep3) list \<Rightarrow> 'a replicated \<Rightarrow> ('a rep3 list \<times> 'a replicated) result" where
  "rep_multiply pack unpack draw dl P rcv xys st =
     bind_result (rep_prepare_all pack draw xys (replicated_init_mul st)) (\<lambda>st.
     bind_result (replicated_exchange P rcv st) (rep_finalize_all unpack dl (length xys)))"

end
