(* ===== verification/Rep3Run.thy ===== *)
theory Rep3Run
  imports Replicated
begin

section \<open>The three parties of the replicated protocol together\<close>

text \<open>
  Parties that follow the protocol: their pairwise generators return the same values, what each receives
  is what the previous party sends. \<open>shared_source\<close> is what two parties need of a generator they share;
  \<open>linked m G H\<close>: the two copies return the same values for \<open>m\<close> more requests. It is interpreted on the
  generators of \<open>Tools/random\<close> reading ring elements.
\<close>

subsection \<open>Shared generators\<close>

locale shared_source =
  fixes draw :: "int \<Rightarrow> prng \<Rightarrow> ('a :: comm_ring_1 \<times> prng) result"
    and linked :: "nat \<Rightarrow> prng \<Rightarrow> prng \<Rightarrow> bool"
  assumes linked_draw: "linked (Suc m) G H \<Longrightarrow> \<exists>x G' H'. draw n G = Inr (x, G') \<and> draw n H = Inr (x, H') \<and> linked m G' H'"

text \<open>Generator 0 of every party and generator 1 of the next one.\<close>

definition parties_linked :: "(nat \<Rightarrow> prng \<Rightarrow> prng \<Rightarrow> bool) \<Rightarrow> nat \<Rightarrow> (nat \<Rightarrow> ('a, 'z) replicated_scheme) \<Rightarrow> bool" where
  "parties_linked linked m S \<longleftrightarrow> (\<forall>i < 3. linked m (rp_prng0 (S i)) (rp_prng1 (S (next3 i))))"

lemma parties_linked_iff:
  "parties_linked linked m S \<longleftrightarrow> linked m (rp_prng0 (S 0)) (rp_prng1 (S 1)) \<and> linked m (rp_prng0 (S 1)) (rp_prng1 (S 2))
     \<and> linked m (rp_prng0 (S 2)) (rp_prng1 (S 0))"
  unfolding parties_linked_def all_three by simp

text \<open>The states after drawing \<open>r i\<close> from the generator that parties \<open>i\<close> and \<open>i + 1\<close> share.\<close>

context shared_source begin

lemma all_draw:
  assumes "parties_linked linked (Suc m) S"
  shows "\<exists>r G0 G1. (\<forall>i < 3. draw n (rp_prng0 (S i)) = Inr (r i, G0 i) \<and> draw n (rp_prng1 (S i)) = Inr (r (prev3 i), G1 i)
    \<and> linked m (G0 i) (G1 (next3 i)))"
proof -
  from assms obtain r0 g0 h1 r1 g1 h2 r2 g2 h0 where
    "draw n (rp_prng0 (S 0)) = Inr (r0, g0)" "draw n (rp_prng1 (S 1)) = Inr (r0, h1)" "linked m g0 h1"
    "draw n (rp_prng0 (S 1)) = Inr (r1, g1)" "draw n (rp_prng1 (S 2)) = Inr (r1, h2)" "linked m g1 h2"
    "draw n (rp_prng0 (S 2)) = Inr (r2, g2)" "draw n (rp_prng1 (S 0)) = Inr (r2, h0)" "linked m g2 h0"
    unfolding parties_linked_iff using linked_draw by metis
  then show ?thesis
    unfolding all_three
    by (intro exI [of _ "\<lambda>i. if i = 0 then r0 else if i = 1 then r1 else r2"] exI [of _ "\<lambda>i. if i = 0 then g0 else if i = 1 then g1 else g2"]
        exI [of _ "\<lambda>i. if i = 0 then h0 else if i = 1 then h1 else h2"]) simp
qed

text \<open>Every summand is masked by the difference of the two values drawn.\<close>

lemma all_reshare:
  assumes C: "codec (pack n) unpack enc (\<lambda>_. True)" and L: "parties_linked linked (Suc m) S" and W: "\<forall>i < 3. os_writable (rp_os0 (S i))"
  shows "\<exists>r S'. (\<forall>i < 3. replicated_prepare_reshare pack draw (v i) n (S i) = Inr (S' i)
        \<and> rp_add_shares (S' i) = pv_push_back (v i + r i - r (prev3 i)) (rp_add_shares (S i))
        \<and> rp_os1 (S' i) = rp_os1 (S i) \<and> rp_dotprod_share (S' i) = rp_dotprod_share (S i)
        \<and> os_extends (rp_os0 (S i)) (enc (v i + r i - r (prev3 i))) (rp_os0 (S' i)))
      \<and> parties_linked linked m S'"
proof -
  obtain r G0 G1 where D: "\<And>i. i < 3 \<Longrightarrow> draw n (rp_prng0 (S i)) = Inr (r i, G0 i)"
    "\<And>i. i < 3 \<Longrightarrow> draw n (rp_prng1 (S i)) = Inr (r (prev3 i), G1 i)" "\<And>i. i < 3 \<Longrightarrow> linked m (G0 i) (G1 (next3 i))"
    using all_draw [OF L, of n] by blast
  define z where "z = (\<lambda>i. v i + r i - r (prev3 i))"
  have "\<forall>i. \<exists>os. i < 3 \<longrightarrow> pack n (rp_os0 (S i)) (z i) = Inr os \<and> os_extends (rp_os0 (S i)) (enc (z i)) os"
    using codec.pack_extends [OF C] W by blast
  then obtain OS where OS: "\<And>i. i < 3 \<Longrightarrow> pack n (rp_os0 (S i)) (z i) = Inr (OS i)" "\<And>i. i < 3 \<Longrightarrow> os_extends (rp_os0 (S i)) (enc (z i)) (OS i)"
    by metis
  let ?S' = "\<lambda>i. (S i)\<lparr>rp_prng0 := G0 i, rp_prng1 := G1 i, rp_os0 := OS i, rp_add_shares := pv_push_back (z i) (rp_add_shares (S i))\<rparr>"
  have "\<forall>i < 3. replicated_prepare_reshare pack draw (v i) n (S i) = Inr (?S' i)"
    using D(1,2) OS(1) by (simp add: replicated_prepare_reshare_def Let_def z_def)
  then show ?thesis
    using OS(2) D(3) by (intro exI [of _ r] exI [of _ ?S']) (simp add: parties_linked_def z_def)
qed

lemma all_prepare:
  assumes C: "codec (pack (- 1)) unpack enc (\<lambda>_. True)"
  shows "parties_linked linked (m + n) S \<Longrightarrow> (\<forall>i < 3. os_writable (rp_os0 (S i)) \<and> length (X i) = m)
    \<Longrightarrow> \<exists>Z S'. (\<forall>i < 3. rep_prepare_all pack draw (X i) (S i) = Inr (S' i) \<and> length (Z i) = m
          \<and> rp_add_shares (S' i) = (rp_add_shares (S i))\<lparr>pv_data := pv_data (rp_add_shares (S i)) @ Z i\<rparr>
          \<and> rp_os1 (S' i) = rp_os1 (S i) \<and> os_extends (rp_os0 (S i)) (concat (map enc (Z i))) (rp_os0 (S' i)))
        \<and> (\<forall>k < m. Z 0 ! k + Z 1 ! k + Z 2 ! k = (\<Sum>i\<leftarrow>[0, 1, 2]. rep3_local_mul (fst (X i ! k)) (snd (X i ! k))))
        \<and> parties_linked linked n S'"
proof (induction m arbitrary: X S)
  case 0
  then show ?case
    by (intro exI [of _ "\<lambda>_. []"] exI [of _ S]) (simp add: rep_prepare_all_def os_extends_refl)
next
  case (Suc m)
  let ?v = "\<lambda>i. rep3_local_mul (fst (hd (X i))) (snd (hd (X i)))"
  have X: "X i = (fst (hd (X i)), snd (hd (X i))) # tl (X i)" if "i < 3" for i
    using Suc.prems(2) that by (cases "X i") auto
  have Xk: "X i ! 0 = hd (X i) \<and> X i ! Suc k = tl (X i) ! k" if "i < 3" for i k
    using X [OF that] by (metis nth_Cons_0 nth_Cons_Suc list.sel(1))
  obtain r S1 where S1: "\<And>i. i < 3 \<Longrightarrow> replicated_prepare_reshare pack draw (?v i) (- 1) (S i) = Inr (S1 i)"
    "\<And>i. i < 3 \<Longrightarrow> rp_add_shares (S1 i) = pv_push_back (?v i + r i - r (prev3 i)) (rp_add_shares (S i))"
    "\<And>i. i < 3 \<Longrightarrow> rp_os1 (S1 i) = rp_os1 (S i)"
    "\<And>i. i < 3 \<Longrightarrow> os_extends (rp_os0 (S i)) (enc (?v i + r i - r (prev3 i))) (rp_os0 (S1 i))"
    and L1: "parties_linked linked (m + n) S1"
    using all_reshare [where pack = pack and n = "- 1", OF C, of "m + n" S ?v] Suc.prems by auto
  have "\<forall>i < 3. os_writable (rp_os0 (S1 i)) \<and> length (tl (X i)) = m"
    using os_extends_writable [OF S1(4)] Suc.prems(2) by simp
  from Suc.IH [OF L1 this] obtain Z S' where Z: "\<And>i. i < 3 \<Longrightarrow> rep_prepare_all pack draw (tl (X i)) (S1 i) = Inr (S' i)"
    "\<And>i. i < 3 \<Longrightarrow> length (Z i) = m"
    "\<And>i. i < 3 \<Longrightarrow> rp_add_shares (S' i) = (rp_add_shares (S1 i))\<lparr>pv_data := pv_data (rp_add_shares (S1 i)) @ Z i\<rparr>"
    "\<And>i. i < 3 \<Longrightarrow> rp_os1 (S' i) = rp_os1 (S1 i)"
    "\<And>i. i < 3 \<Longrightarrow> os_extends (rp_os0 (S1 i)) (concat (map enc (Z i))) (rp_os0 (S' i))"
    and sum: "\<forall>k < m. Z 0 ! k + Z 1 ! k + Z 2 ! k = (\<Sum>i\<leftarrow>[0, 1, 2]. rep3_local_mul (fst (tl (X i) ! k)) (snd (tl (X i) ! k)))"
    and L': "parties_linked linked n S'" by blast
  let ?Z = "\<lambda>i. (?v i + r i - r (prev3 i)) # Z i"
  have "rep_prepare_all pack draw (X i) (S i) = Inr (S' i)" if "i < 3" for i
    using S1(1) [OF that] Z(1) [OF that] by (subst X [OF that]) (simp add: rep_prepare_all_def replicated_prepare_mul_def split_beta)
  moreover have "rp_add_shares (S' i) = (rp_add_shares (S i))\<lparr>pv_data := pv_data (rp_add_shares (S i)) @ ?Z i\<rparr>" if "i < 3" for i
    using S1(2) [OF that] Z(3) [OF that] by (simp add: pv_push_back_def)
  moreover have "os_extends (rp_os0 (S i)) (concat (map enc (?Z i))) (rp_os0 (S' i))" if "i < 3" for i
    using os_extends_trans [OF S1(4) Z(5)] that by simp
  moreover have "?Z 0 ! k + ?Z 1 ! k + ?Z 2 ! k = (\<Sum>i\<leftarrow>[0, 1, 2]. rep3_local_mul (fst (X i ! k)) (snd (X i ! k)))" if "k < Suc m" for k
    using that sum Xk [of 0] Xk [of 1] Xk [of 2] by (cases k) (simp_all add: algebra_simps)
  ultimately show ?case
    using S1(3) Z(2,4) L' by (intro exI [of _ ?Z] exI [of _ S']) simp
qed

end

text \<open>Reading the products: the own summands and those that the previous party sent.\<close>

lemma finalize_all_rep:
  assumes C: "codec (pack (- 1)) (unpack (- 1)) enc (\<lambda>_. True)"
  shows "os_ready (rp_os1 st) \<Longrightarrow> os_unread (rp_os1 st) = concat (map enc ws) \<Longrightarrow> length ws \<le> pv_left (rp_add_shares st)
    \<Longrightarrow> \<exists>st'. rep_finalize_all unpack dl (length ws) st
        = Inr (map2 (\<lambda>a b. [a, b]) (take (length ws) (drop (pv_i (rp_add_shares st)) (pv_data (rp_add_shares st)))) ws, st')
      \<and> rp_prng0 st' = rp_prng0 st \<and> rp_prng1 st' = rp_prng1 st"
proof (induction ws arbitrary: st)
  case (Cons w ws)
  let ?v = "rp_add_shares st"
  have v: "pv_i ?v < length (pv_data ?v)" using Cons.prems(3) by (simp add: pv_left_def)
  obtain os1 where os1: "unpack (- 1) (rp_os1 st) = Inr (w, os1)" "os_advanced (length (enc w)) (rp_os1 st) os1"
    using codec.unpack_enc [OF C _ Cons.prems(1), of w "concat (map enc ws)"] Cons.prems(2) by auto
  let ?st1 = "(add_mul dl (- 1) st)\<lparr>rp_add_shares := ?v\<lparr>pv_i := pv_i ?v + 1\<rparr>, rp_os1 := os1\<rparr>"
  have "os_ready os1" "os_unread os1 = concat (map enc ws)"
    using os_advanced_ready [OF os1(2) Cons.prems(1)] os_advanced_unread [OF os1(2)] Cons.prems(2) by simp_all
  moreover have "length ws \<le> pv_left (rp_add_shares ?st1)"
    using Cons.prems(3) by (simp add: pv_left_def add_mul_def)
  ultimately obtain st' where st': "rep_finalize_all unpack dl (length ws) ?st1
      = Inr (map2 (\<lambda>a b. [a, b]) (take (length ws) (drop (pv_i ?v + 1) (pv_data ?v))) ws, st')"
    "rp_prng0 st' = rp_prng0 st" "rp_prng1 st' = rp_prng1 st"
    using Cons.IH [of ?st1] by (auto simp: add_mul_def)
  have "replicated_finalize_mul unpack dl (- 1) st = Inr ([pv_data ?v ! pv_i ?v, w], ?st1)"
    using v os1(1) by (simp add: replicated_finalize_mul_def pv_next_def Let_def add_mul_def)
  moreover have "drop (pv_i ?v) (pv_data ?v) = pv_data ?v ! pv_i ?v # drop (pv_i ?v + 1) (pv_data ?v)"
    using v by (simp add: Cons_nth_drop_Suc)
  ultimately show ?case using st' by simp
qed simp

text \<open>What a party sends when it multiplies.\<close>

definition rep_message ::
  "(int \<Rightarrow> octet_stream \<Rightarrow> 'a \<Rightarrow> octet_stream result) \<Rightarrow> (int \<Rightarrow> prng \<Rightarrow> ('a :: comm_ring_1 \<times> prng) result)
    \<Rightarrow> ('a rep3 \<times> 'a rep3) list \<Rightarrow> 'a replicated \<Rightarrow> octet list" where
  "rep_message pack draw xys st =
     (case rep_prepare_all pack draw xys (replicated_init_mul st) of
        Inl e \<Rightarrow> [] | Inr st \<Rightarrow> os_data (os_append (rp_os0 st) []))"

lemma get_player_three: "get_player \<lparr>pl_num = i, pl_count = 3, pl_ctx = c\<rparr> (- 1) = prev3 i"
proof -
  have "int (get_player \<lparr>pl_num = i, pl_count = 3, pl_ctx = c\<rparr> (- 1)) = (- 1 + int i) mod 3"
    by (simp add: get_player_eq)
  also have "\<dots> = int (prev3 i)" unfolding prev3_def by (simp add: zmod_int) presburger
  finally show ?thesis by simp
qed

lemma get_player_three_next: "get_player \<lparr>pl_num = i, pl_count = 3, pl_ctx = c\<rparr> 1 = next3 i"
proof -
  have "int (get_player \<lparr>pl_num = i, pl_count = 3, pl_ctx = c\<rparr> 1) = (1 + int i) mod 3" by (simp add: get_player_eq)
  also have "\<dots> = int (next3 i)" unfolding next3_def by (simp add: zmod_int add.commute)
  finally show ?thesis by simp
qed

lemma init_mul_writable [simp]: "os_writable (rp_os0 (replicated_init_mul st))" "os_data (rp_os0 (replicated_init_mul st)) = []"
  by (simp_all add: replicated_init_mul_def os_writable_def os_reset_write_head_def os_reset_read_head_def os_len_def)

lemma init_mul_shares [simp]: "rp_add_shares (replicated_init_mul st) = pv_new"
  by (simp add: replicated_init_mul_def pv_clear_def pv_reset_def pv_new_def)

lemma os_ready_exchanged [simp]: "length bs < 2 ^ 64 \<Longrightarrow> os_ready (os_exchanged s os bs)" "os_unread (os_exchanged s os bs) = bs"
  by (simp_all add: os_ready_def os_unread_def)

text \<open>The exchange: the stream read afterwards holds what was received, or is empty when nothing was sent.\<close>

lemma replicated_exchange_ok:
  assumes "os_writable (rp_os0 st)" "os_data (rp_os0 st) = bs" "length bs < 2 ^ 32"
    "bs = [] \<Longrightarrow> rp_os1 st = os_reset_write_head os \<and> rcv (get_player P (- 1)) = []"
    "length (rcv (get_player P (- 1))) < 2 ^ 64"
  shows "\<exists>os0 os1. replicated_exchange P rcv st = Inr (st\<lparr>rp_os0 := os0, rp_os1 := os1, pb_rounds := pb_rounds st + 1\<rparr>)
    \<and> os_ready os1 \<and> os_unread os1 = rcv (get_player P (- 1))"
proof -
  let ?os0 = "os_append (rp_os0 st) []"
  have os0: "os_data ?os0 = bs" "bb_n (os_wbits ?os0) = 0"
    using os_append_extends [OF assms(1), of "[]"] assms(2) by (simp_all add: os_extends_def)
  show ?thesis
  proof (cases "bs = []")
    case True
    have "os_ready (os_reset_write_head os)" "os_unread (os_reset_write_head os) = []"
      by (simp_all add: os_ready_def os_unread_def os_reset_write_head_def os_reset_read_head_def os_len_def)
    moreover have "replicated_exchange P rcv st = Inr (st\<lparr>rp_os0 := ?os0, rp_os1 := rp_os1 st, pb_rounds := pb_rounds st + 1\<rparr>)"
      using True os0 by (simp add: replicated_exchange_def Let_def os_len_def)
    ultimately show ?thesis using True assms(4) by metis
  next
    case False
    have "replicated_exchange P rcv st = Inr (st\<lparr>rp_os0 := ?os0,
        rp_os1 := os_exchanged ?os0 (rp_os1 st) (rcv (get_player P (- 1))), pb_rounds := pb_rounds st + 1\<rparr>)"
      using False os0 assms(3) by (simp add: replicated_exchange_def Let_def os_len_def pass_around_ok)
    then show ?thesis using assms(5) os_ready_exchanged by metis
  qed
qed

context shared_source begin

lemma all_multiply:
  assumes C: "codec (pack (- 1)) (unpack (- 1)) enc (\<lambda>_. True)" and L: "parties_linked linked (m + n) S"
    and X: "\<And>i. i < 3 \<Longrightarrow> length (X i) = m"
    and V: "\<And>k. k < m \<Longrightarrow> replicated3 (\<lambda>i. fst (X i ! k)) (x k)" "\<And>k. k < m \<Longrightarrow> replicated3 (\<lambda>i. snd (X i ! k)) (y k)"
    and len: "\<And>z. length (enc z) = w" "m * w < 2 ^ 32"
  shows "\<exists>Z S'. (\<forall>i < 3. rep_multiply pack unpack draw dl \<lparr>pl_num = i, pl_count = 3, pl_ctx = c i\<rparr>
        (\<lambda>j. rep_message pack draw (X j) (S j)) (X i) (S i) = Inr (Z i, S' i) \<and> length (Z i) = m)
    \<and> (\<forall>k < m. replicated3 (\<lambda>i. Z i ! k) (x k * y k)) \<and> parties_linked linked n S'"
proof -
  let ?rcv = "\<lambda>j. rep_message pack draw (X j) (S j)" and ?P = "\<lambda>i. \<lparr>pl_num = i, pl_count = 3, pl_ctx = c i\<rparr>"
  let ?S0 = "\<lambda>i. replicated_init_mul (S i)"
  have "parties_linked linked (m + n) ?S0"
    using L by (simp add: parties_linked_def replicated_init_mul_def)
  moreover have "\<forall>i < 3. os_writable (rp_os0 (?S0 i)) \<and> length (X i) = m" using X by simp
  ultimately obtain A S1 where S1: "\<And>i. i < 3 \<Longrightarrow> rep_prepare_all pack draw (X i) (?S0 i) = Inr (S1 i)"
    "\<And>i. i < 3 \<Longrightarrow> length (A i) = m" "\<And>i. i < 3 \<Longrightarrow> rp_add_shares (S1 i) = pv_new\<lparr>pv_data := A i\<rparr>"
    "\<And>i. i < 3 \<Longrightarrow> rp_os1 (S1 i) = rp_os1 (?S0 i)" "\<And>i. i < 3 \<Longrightarrow> os_extends (rp_os0 (?S0 i)) (concat (map enc (A i))) (rp_os0 (S1 i))"
    and sum: "\<forall>k < m. A 0 ! k + A 1 ! k + A 2 ! k = (\<Sum>i\<leftarrow>[0, 1, 2]. rep3_local_mul (fst (X i ! k)) (snd (X i ! k)))"
    and L1: "parties_linked linked n S1"
    using all_prepare [where pack = pack, OF C, of m n ?S0 X] by (auto simp: pv_new_def)
  have rcv: "?rcv i = concat (map enc (A i))" if "i < 3" for i
    using S1(1) [OF that] os_append_extends [OF os_extends_writable [OF S1(5)], of i "[]"] S1(5) [OF that] that
    by (simp add: rep_message_def os_extends_def)
  define Z where "Z = (\<lambda>i. map2 (\<lambda>a b. [a, b]) (A i) (A (prev3 i)))"
  have run: "\<exists>S'. rep_multiply pack unpack draw dl (?P i) ?rcv (X i) (S i) = Inr (Z i, S')
      \<and> rp_prng0 S' = rp_prng0 (S1 i) \<and> rp_prng1 S' = rp_prng1 (S1 i)" if i: "i < 3" for i
  proof -
    have p: "prev3 i < 3" by (simp add: prev3_def)
    have w: "os_writable (rp_os0 (S1 i))" "os_data (rp_os0 (S1 i)) = concat (map enc (A i))"
      using os_extends_writable [OF S1(5) [OF i]] S1(5) [OF i] by (simp_all add: os_extends_def)
    have n: "length (concat (map enc (A j))) = m * w" if "j < 3" for j
      using S1(2) [OF that] len(1) by (simp add: length_concat comp_def sum_list_triv)
    have R: "?rcv (get_player (?P i) (- 1)) = concat (map enc (A (prev3 i)))"
      using rcv [OF p] by (simp add: get_player_three)
    have "concat (map enc (A (prev3 i))) = []" if "concat (map enc (A i)) = []"
      using that n [OF i] n [OF p] by (metis length_0_conv)
    moreover have "rp_os1 (S1 i) = os_reset_write_head (rp_os1 (S i))"
      using S1(4) [OF i] by (simp add: replicated_init_mul_def)
    ultimately obtain os0 os1 where os1: "replicated_exchange (?P i) ?rcv (S1 i)
        = Inr ((S1 i)\<lparr>rp_os0 := os0, rp_os1 := os1, pb_rounds := pb_rounds (S1 i) + 1\<rparr>)"
      "os_ready os1" "os_unread os1 = concat (map enc (A (prev3 i)))"
      using replicated_exchange_ok [OF w, of "rp_os1 (S i)" ?rcv "?P i"] n [OF i] n [OF p] len(2) by (auto simp: R)
    let ?S2 = "(S1 i)\<lparr>rp_os0 := os0, rp_os1 := os1, pb_rounds := pb_rounds (S1 i) + 1\<rparr>"
    have sh: "rp_add_shares ?S2 = \<lparr>pv_data = A i, pv_i = 0\<rparr>"
      using S1(3) [OF i] by (simp add: pv_new_def)
    have "\<exists>S'. rep_finalize_all unpack dl (length (A (prev3 i))) ?S2
        = Inr (map2 (\<lambda>a b. [a, b]) (take (length (A (prev3 i))) (drop 0 (A i))) (A (prev3 i)), S')
      \<and> rp_prng0 S' = rp_prng0 ?S2 \<and> rp_prng1 S' = rp_prng1 ?S2"
      using finalize_all_rep [where pack = pack and unpack = unpack, OF C, of ?S2 "A (prev3 i)" dl] os1(2,3) S1(2) [OF i] S1(2) [OF p]
      unfolding sh by (simp add: pv_left_def)
    then obtain S' where "rep_finalize_all unpack dl (length (A (prev3 i))) ?S2 = Inr (Z i, S')"
      "rp_prng0 S' = rp_prng0 (S1 i)" "rp_prng1 S' = rp_prng1 (S1 i)"
      using S1(2) [OF i] S1(2) [OF p] by (auto simp: Z_def)
    then show ?thesis
      using S1(1) [OF i] os1(1) S1(2) [OF p] X [OF i] by (simp add: rep_multiply_def)
  qed
  then have "\<forall>i. \<exists>S'. i < 3 \<longrightarrow> rep_multiply pack unpack draw dl (?P i) ?rcv (X i) (S i) = Inr (Z i, S')
      \<and> rp_prng0 S' = rp_prng0 (S1 i) \<and> rp_prng1 S' = rp_prng1 (S1 i)" by blast
  from choice [OF this] obtain S' where S': "\<And>i. i < 3 \<Longrightarrow> rep_multiply pack unpack draw dl (?P i) ?rcv (X i) (S i) = Inr (Z i, S' i)"
    "\<And>i. i < 3 \<Longrightarrow> rp_prng0 (S' i) = rp_prng0 (S1 i)" "\<And>i. i < 3 \<Longrightarrow> rp_prng1 (S' i) = rp_prng1 (S1 i)"
    by blast
  have "length (Z i) = m" if "i < 3" for i
    using S1(2) that by (simp add: Z_def prev3_def)
  moreover have "replicated3 (\<lambda>i. Z i ! k) (x k * y k)" if k: "k < m" for k
  proof -
    have "Z i ! k = [A i ! k, A (prev3 i) ! k]" if "i < 3" for i
      using S1(2) that k by (simp add: Z_def prev3_def)
    moreover have "A 0 ! k + A 1 ! k + A 2 ! k = x k * y k"
      using sum k local_mul_sum [OF V(1) [OF k] V(2) [OF k]] by (simp add: add.assoc)
    ultimately show ?thesis by (simp add: replicated3_iff)
  qed
  moreover have "parties_linked linked n S'"
    using L1 S'(2,3) by (simp add: parties_linked_def next3_def)
  ultimately show ?thesis using S'(1) by blast
qed

end

end
