(* ===== verification/Rep3Input.thy ===== *)
theory Rep3Input
  imports Rep3Run
begin

section \<open>Input of replicated shares (Protocols/ReplicatedInput, Processor/Input)\<close>

text \<open>
  A party shares an input with one message: summand \<open>i\<close> is drawn from the generator it shares with the next
  party, summand \<open>i - 1\<close> makes up for the input and is sent to the previous party; the last summand is 0. The
  input object has generators of its own, branched from the protocol's. The reading of inputs from files and
  terminals and the instructions of the virtual machine are not modelled.
\<close>

text \<open>\<open>ri_base_os\<close> is \<open>InputBase::os\<close>, \<open>ri_os\<close> the vector of the same name in the class itself.\<close>

record 'a rep_input =
  ri_P :: player
  ri_shares :: "'a rep3 pointer_vector"
  ri_os :: "octet_stream list"
  ri_prng0 :: prng
  ri_prng1 :: prng
  ri_expect :: "bool list"
  ri_base_os :: "octet_stream list"
  ri_values_input :: nat

definition input_base_reset :: "nat \<Rightarrow> octet_stream list \<Rightarrow> octet_stream list" where
  "input_base_reset player os =
     (let os = os @ replicate (max (length os) (player + 1) - length os) os_empty
      in os[player := os_reset_write_head (os ! player)])"

definition rep_input_reset :: "nat \<Rightarrow> 'a rep_input \<Rightarrow> 'a rep_input result" where
  "rep_input_reset player st =
     (let st = st\<lparr>ri_base_os := input_base_reset player (ri_base_os st)\<rparr>
      in if pl_count (ri_P st) \<noteq> 3 then Inl assertion_failed
         else let st = (if player = pl_num (ri_P st)
                then st\<lparr>ri_shares := pv_clear (ri_shares st),
                  ri_os := map os_reset_write_head (take 2 (ri_os st) @ replicate (2 - length (ri_os st)) os_empty)\<rparr>
                else st)
              in Inr (st\<lparr>ri_expect := (ri_expect st)[player := False]\<rparr>))"

text \<open>\<open>InputBase::reset_all\<close>\<close>

definition rep_input_reset_all :: "player \<Rightarrow> 'a rep_input \<Rightarrow> 'a rep_input result" where
  "rep_input_reset_all P st =
     foldM_result rep_input_reset [0..<pl_count P]
       (st\<lparr>ri_base_os := take (pl_count P) (ri_base_os st) @ replicate (pl_count P - length (ri_base_os st)) os_empty\<rparr>)"

text \<open>With the generators \<open>prngs\<close> that the branch of the protocol has.\<close>

definition rep_input_new :: "player \<Rightarrow> prng \<times> prng \<Rightarrow> 'a rep_input result" where
  "rep_input_new P prngs =
     rep_input_reset_all P \<lparr>ri_P = P, ri_shares = pv_new, ri_os = [], ri_prng0 = fst prngs, ri_prng1 = snd prngs,
       ri_expect = replicate (pl_count P) False, ri_base_os = [], ri_values_input = 0\<rparr>"

definition rep_input_add_mine ::
  "(int \<Rightarrow> octet_stream \<Rightarrow> 'a \<Rightarrow> octet_stream result) \<Rightarrow> (int \<Rightarrow> prng \<Rightarrow> ('a :: comm_ring_1 \<times> prng) result)
    \<Rightarrow> 'a \<Rightarrow> int \<Rightarrow> 'a rep_input \<Rightarrow> 'a rep_input result" where
  "rep_input_add_mine pack draw x n_bits st =
     bind_result (draw n_bits (ri_prng0 st)) (\<lambda>(r, G).
     bind_result (pack n_bits (ri_os st ! 1) (x - r)) (\<lambda>os1.
       Inr (st\<lparr>ri_prng0 := G, ri_shares := pv_push_back [r, x - r] (ri_shares st), ri_os := (ri_os st)[1 := os1],
         ri_values_input := ri_values_input st + 1\<rparr>)))"

definition rep_input_add_other :: "nat \<Rightarrow> 'a rep_input \<Rightarrow> 'a rep_input" where
  "rep_input_add_other player st = st\<lparr>ri_expect := (ri_expect st)[player := True]\<rparr>"

text \<open>\<open>InputBase::add_from_all\<close>\<close>

definition rep_input_add_from_all ::
  "(int \<Rightarrow> octet_stream \<Rightarrow> 'a \<Rightarrow> octet_stream result) \<Rightarrow> (int \<Rightarrow> prng \<Rightarrow> ('a :: comm_ring_1 \<times> prng) result)
    \<Rightarrow> 'a \<Rightarrow> int \<Rightarrow> 'a rep_input \<Rightarrow> 'a rep_input result" where
  "rep_input_add_from_all pack draw x n_bits st =
     foldM_result (\<lambda>i st. if i = pl_num (ri_P st) then rep_input_add_mine pack draw x n_bits st
       else Inr (rep_input_add_other i st)) [0..<pl_count (ri_P st)] st"

definition rep_input_send_mine :: "'a rep_input \<Rightarrow> (outbox \<times> 'a rep_input) result" where
  "rep_input_send_mine st =
     (let os = map (\<lambda>x. os_append x []) (ri_os st)
      in bind_result (send_relative (ri_P st) os) (\<lambda>sent. Inr (sent, st\<lparr>ri_os := os\<rparr>)))"

text \<open>What is sent goes to the previous party.\<close>

definition rep_input_exchange :: "(nat \<Rightarrow> octet list) \<Rightarrow> 'a rep_input \<Rightarrow> 'a rep_input result" where
  "rep_input_exchange rcv st =
     (let P = ri_P st;
          os = map (\<lambda>x. os_append x []) (ri_os st);
          from = get_player P 1;
          receive = ri_expect st ! from;
          send = (os_len (os ! 1) \<noteq> 0);
          dest = ri_base_os st ! from
      in bind_result
           (if send then
              if receive then pass_around P rcv (os ! 1) dest (- 1)
              else bind_result (encode_length (of_nat (os_len (os ! 1))) LENGTH_SIZE) (\<lambda>_. Inr dest)
            else Inr (if receive then os_arrive dest (rcv from) else dest)) (\<lambda>dest.
         Inr (st\<lparr>ri_os := os, ri_base_os := (ri_base_os st)[from := dest]\<rparr>)))"

text \<open>\<open>PrepLessInput::finalize_mine\<close>\<close>

definition rep_input_finalize_mine :: "'a rep_input \<Rightarrow> ('a rep3 \<times> 'a rep_input) result" where
  "rep_input_finalize_mine st = bind_result (pv_next (ri_shares st)) (\<lambda>(s, v). Inr (s, st\<lparr>ri_shares := v\<rparr>))"

definition rep_input_finalize_other ::
  "(int \<Rightarrow> octet_stream \<Rightarrow> ('a :: zero \<times> octet_stream) result) \<Rightarrow> (int \<Rightarrow> prng \<Rightarrow> ('a \<times> prng) result)
    \<Rightarrow> nat \<Rightarrow> int \<Rightarrow> 'a rep_input \<Rightarrow> ('a rep3 \<times> 'a rep_input) result" where
  "rep_input_finalize_other unpack draw player n_bits st =
     (let offset = int player - int (pl_num (ri_P st))
      in if offset = 1 \<or> offset = - 2 then
           bind_result (unpack n_bits (ri_base_os st ! player)) (\<lambda>(t, os).
             Inr ([t, 0], st\<lparr>ri_base_os := (ri_base_os st)[player := os]\<rparr>))
         else bind_result (draw n_bits (ri_prng1 st)) (\<lambda>(t, G). Inr ([0, t], st\<lparr>ri_prng1 := G\<rparr>)))"

text \<open>\<open>InputBase::finalize\<close>\<close>

definition rep_input_finalize ::
  "(int \<Rightarrow> octet_stream \<Rightarrow> ('a :: zero \<times> octet_stream) result) \<Rightarrow> (int \<Rightarrow> prng \<Rightarrow> ('a \<times> prng) result)
    \<Rightarrow> nat \<Rightarrow> int \<Rightarrow> 'a rep_input \<Rightarrow> ('a rep3 \<times> 'a rep_input) result" where
  "rep_input_finalize unpack draw player n_bits st =
     (if player = pl_num (ri_P st) then rep_input_finalize_mine st
      else rep_input_finalize_other unpack draw player n_bits st)"

subsection \<open>A round of inputs of one party\<close>

text \<open>
  Player \<open>p\<close> inputs the values \<open>xs\<close>; the others expect them. What is sent and what every party ends with.
\<close>

fun rep_input_prepare ::
  "(int \<Rightarrow> octet_stream \<Rightarrow> 'a \<Rightarrow> octet_stream result) \<Rightarrow> (int \<Rightarrow> prng \<Rightarrow> ('a :: comm_ring_1 \<times> prng) result)
    \<Rightarrow> nat \<Rightarrow> 'a list \<Rightarrow> 'a rep_input \<Rightarrow> 'a rep_input result" where
  "rep_input_prepare pack draw p [] st = Inr st"
| "rep_input_prepare pack draw p (x # xs) st =
     bind_result (if p = pl_num (ri_P st) then rep_input_add_mine pack draw x (- 1) st else Inr (rep_input_add_other p st))
       (rep_input_prepare pack draw p xs)"

fun rep_input_collect ::
  "(int \<Rightarrow> octet_stream \<Rightarrow> ('a :: zero \<times> octet_stream) result) \<Rightarrow> (int \<Rightarrow> prng \<Rightarrow> ('a \<times> prng) result)
    \<Rightarrow> nat \<Rightarrow> nat \<Rightarrow> 'a rep_input \<Rightarrow> ('a rep3 list \<times> 'a rep_input) result" where
  "rep_input_collect unpack draw p 0 st = Inr ([], st)"
| "rep_input_collect unpack draw p (Suc n) st =
     bind_result (rep_input_finalize unpack draw p (- 1) st) (\<lambda>(s, st).
     bind_result (rep_input_collect unpack draw p n st) (\<lambda>(ss, st). Inr (s # ss, st)))"

subsection \<open>The parties together\<close>

definition fresh_input :: "nat \<Rightarrow> 'a rep_input \<Rightarrow> bool" where
  "fresh_input i st \<longleftrightarrow> pl_num (ri_P st) = i \<and> pl_count (ri_P st) = 3 \<and> ri_shares st = pv_new
     \<and> length (ri_os st) = 2 \<and> os_writable (ri_os st ! 1) \<and> os_data (ri_os st ! 1) = []
     \<and> ri_expect st = replicate 3 False \<and> length (ri_base_os st) = 3
     \<and> (\<forall>j < 3. os_ready (ri_base_os st ! j) \<and> os_unread (ri_base_os st ! j) = [])"

lemma reset_streams:
  "os_writable (os_reset_write_head os)" "os_data (os_reset_write_head os) = []" "os_ready (os_reset_write_head os)"
  "os_unread (os_reset_write_head os) = []"
  by (simp_all add: os_writable_def os_ready_def os_unread_def os_reset_write_head_def os_reset_read_head_def os_len_def)

lemma upt_three: "[0..<3] = [0, 1, 2 :: nat]"
  by (simp add: upt_rec)

lemma rep_input_new_fresh:
  assumes "pl_num P < 3" "pl_count P = 3"
  shows "\<exists>st. rep_input_new P prngs = Inr st \<and> fresh_input (pl_num P) st \<and> ri_prng0 st = fst prngs \<and> ri_prng1 st = snd prngs"
proof -
  from assms(1) consider "pl_num P = 0" | "pl_num P = 1" | "pl_num P = 2" by linarith
  then show ?thesis
    using assms(2)
    by cases (simp_all add: rep_input_new_def rep_input_reset_all_def upt_three rep_input_reset_def input_base_reset_def Let_def
        fresh_input_def All_less_Suc reset_streams numeral_3_eq_3 numeral_2_eq_2 pv_clear_def pv_reset_def pv_new_def)
qed

context shared_source begin

lemma prepare_mine:
  assumes C: "codec (pack (- 1)) unpack enc (\<lambda>_. True)"
  shows "linked (length xs + n) (ri_prng0 st) H \<Longrightarrow> length (ri_os st) = 2 \<Longrightarrow> os_writable (ri_os st ! 1)
    \<Longrightarrow> \<exists>rs st'. length rs = length xs \<and> rep_input_prepare pack draw (pl_num (ri_P st)) xs st = Inr st'
      \<and> ri_P st' = ri_P st \<and> ri_expect st' = ri_expect st \<and> ri_base_os st' = ri_base_os st \<and> length (ri_os st') = 2
      \<and> ri_shares st' = (ri_shares st)\<lparr>pv_data := pv_data (ri_shares st) @ map2 (\<lambda>r x. [r, x - r]) rs xs\<rparr>
      \<and> os_extends (ri_os st ! 1) (concat (map enc (map2 (\<lambda>r x. x - r) rs xs))) (ri_os st' ! 1)
      \<and> (\<exists>H'. fv_randomize (length xs) (draw (- 1)) H = Inr (rs, H') \<and> linked n (ri_prng0 st') H')"
proof (induction xs arbitrary: st H)
  case Nil
  then show ?case by (simp add: os_extends_refl)
next
  case (Cons x xs)
  obtain r G' H' where r: "draw (- 1) (ri_prng0 st) = Inr (r, G')" "draw (- 1) H = Inr (r, H')" "linked (length xs + n) G' H'"
    using linked_draw [of "length xs + n" "ri_prng0 st" H "- 1"] Cons.prems(1) by auto
  obtain os1 where os1: "pack (- 1) (ri_os st ! 1) (x - r) = Inr os1" "os_extends (ri_os st ! 1) (enc (x - r)) os1"
    using codec.pack_extends [OF C] Cons.prems(3) by blast
  let ?st1 = "st\<lparr>ri_prng0 := G', ri_shares := pv_push_back [r, x - r] (ri_shares st), ri_os := (ri_os st)[1 := os1],
      ri_values_input := ri_values_input st + 1\<rparr>"
  have "linked (length xs + n) (ri_prng0 ?st1) H'" "length (ri_os ?st1) = 2" "os_writable (ri_os ?st1 ! 1)"
    using r(3) Cons.prems(2) os_extends_writable [OF os1(2)] by simp_all
  from Cons.IH [OF this] obtain rs st' H'' where IH: "length rs = length xs"
    "rep_input_prepare pack draw (pl_num (ri_P ?st1)) xs ?st1 = Inr st'"
    "ri_P st' = ri_P ?st1" "ri_expect st' = ri_expect ?st1" "ri_base_os st' = ri_base_os ?st1" "length (ri_os st') = 2"
    "ri_shares st' = (ri_shares ?st1)\<lparr>pv_data := pv_data (ri_shares ?st1) @ map2 (\<lambda>r x. [r, x - r]) rs xs\<rparr>"
    "os_extends (ri_os ?st1 ! 1) (concat (map enc (map2 (\<lambda>r x. x - r) rs xs))) (ri_os st' ! 1)"
    "fv_randomize (length xs) (draw (- 1)) H' = Inr (rs, H'')" "linked n (ri_prng0 st') H''" by blast
  have "os_extends (ri_os st ! 1) (enc (x - r) @ concat (map enc (map2 (\<lambda>r x. x - r) rs xs))) (ri_os st' ! 1)"
    using os_extends_trans [OF os1(2)] IH(8) Cons.prems(2) by simp
  then show ?case
    using IH r os1 by (intro exI [of _ "r # rs"] exI [of _ st']) (simp add: rep_input_add_mine_def pv_push_back_def)
qed

end

lemma prepare_other:
  "p \<noteq> pl_num (ri_P st) \<Longrightarrow> rep_input_prepare pack draw p ys st
    = Inr (st\<lparr>ri_expect := if ys = [] then ri_expect st else (ri_expect st)[p := True]\<rparr>)"
proof (induction ys arbitrary: st)
  case (Cons y ys)
  then show ?case using Cons.IH [of "rep_input_add_other p st"] by (simp add: rep_input_add_other_def)
qed simp

lemma collect_mine:
  "n \<le> pv_left (ri_shares st) \<Longrightarrow> \<exists>st'. rep_input_collect unpack draw (pl_num (ri_P st)) n st
      = Inr (take n (drop (pv_i (ri_shares st)) (pv_data (ri_shares st))), st')
    \<and> ri_prng0 st' = ri_prng0 st \<and> ri_prng1 st' = ri_prng1 st"
proof (induction n arbitrary: st)
  case (Suc n)
  let ?v = "ri_shares st"
  have v: "pv_i ?v < length (pv_data ?v)" using Suc.prems by (simp add: pv_left_def)
  have "n \<le> pv_left (ri_shares (st\<lparr>ri_shares := ?v\<lparr>pv_i := pv_i ?v + 1\<rparr>\<rparr>))" using Suc.prems by (simp add: pv_left_def)
  from Suc.IH [OF this] v show ?case
    by (auto simp: rep_input_finalize_def rep_input_finalize_mine_def pv_next_def Cons_nth_drop_Suc [symmetric])
qed simp

lemma collect_stream:
  assumes C: "codec (pack (- 1)) (unpack (- 1)) enc (\<lambda>_. True)"
    and off: "int p - int (pl_num (ri_P st)) = 1 \<or> int p - int (pl_num (ri_P st)) = - 2"
  shows "os_ready (ri_base_os st ! p) \<Longrightarrow> os_unread (ri_base_os st ! p) = concat (map enc ts) \<Longrightarrow> p < length (ri_base_os st)
    \<Longrightarrow> \<exists>st'. rep_input_collect unpack draw p (length ts) st = Inr (map (\<lambda>t. [t, 0]) ts, st')
      \<and> ri_prng0 st' = ri_prng0 st \<and> ri_prng1 st' = ri_prng1 st"
  using off
proof (induction ts arbitrary: st)
  case (Cons t ts)
  obtain os1 where 1: "unpack (- 1) (ri_base_os st ! p) = Inr (t, os1)" "os_advanced (length (enc t)) (ri_base_os st ! p) os1"
    using codec.unpack_enc [OF C _ Cons.prems(1), of t "concat (map enc ts)"] Cons.prems(2) by auto
  let ?st1 = "st\<lparr>ri_base_os := (ri_base_os st)[p := os1]\<rparr>"
  have "os_ready (ri_base_os ?st1 ! p)" "os_unread (ri_base_os ?st1 ! p) = concat (map enc ts)" "p < length (ri_base_os ?st1)"
    using os_advanced_ready [OF 1(2) Cons.prems(1)] os_advanced_unread [OF 1(2)] Cons.prems(2,3) by simp_all
  then obtain st' where "rep_input_collect unpack draw p (length ts) ?st1 = Inr (map (\<lambda>t. [t, 0]) ts, st')"
    "ri_prng0 st' = ri_prng0 st" "ri_prng1 st' = ri_prng1 st"
    using Cons.IH [of ?st1] Cons.prems(4) by auto
  moreover have "p \<noteq> pl_num (ri_P st)" using Cons.prems(4) by auto
  ultimately show ?case
    using 1(1) Cons.prems(4) by (simp add: rep_input_finalize_def rep_input_finalize_other_def Let_def)
qed simp

lemma collect_draw:
  assumes off: "p \<noteq> pl_num (ri_P st)" "int p - int (pl_num (ri_P st)) \<noteq> 1" "int p - int (pl_num (ri_P st)) \<noteq> - 2"
  shows "fv_randomize n (draw (- 1)) (ri_prng1 st) = Inr (rs, H)
    \<Longrightarrow> \<exists>st'. rep_input_collect unpack draw p n st = Inr (map (\<lambda>t. [0, t]) rs, st') \<and> ri_prng0 st' = ri_prng0 st \<and> ri_prng1 st' = H"
  using off
proof (induction n arbitrary: st rs)
  case (Suc n)
  obtain r G rs' where r: "draw (- 1) (ri_prng1 st) = Inr (r, G)" "fv_randomize n (draw (- 1)) G = Inr (rs', H)" "rs = r # rs'"
    using Suc.prems(1) by (auto simp: bind_result_Inr_iff)
  from Suc.IH [of "st\<lparr>ri_prng1 := G\<rparr>" rs'] r Suc.prems(2-4) show ?case
    by (auto simp: rep_input_finalize_def rep_input_finalize_other_def Let_def)
qed simp

text \<open>One round: scheduling the inputs of player \<open>p\<close>, the exchange, and the shares.\<close>

definition rep_input_round ::
  "(int \<Rightarrow> octet_stream \<Rightarrow> 'a \<Rightarrow> octet_stream result) \<Rightarrow> (int \<Rightarrow> octet_stream \<Rightarrow> ('a \<times> octet_stream) result)
    \<Rightarrow> (int \<Rightarrow> prng \<Rightarrow> ('a :: comm_ring_1 \<times> prng) result) \<Rightarrow> nat \<Rightarrow> (nat \<Rightarrow> octet list) \<Rightarrow> 'a list \<Rightarrow> 'a rep_input
    \<Rightarrow> ('a rep3 list \<times> 'a rep_input) result" where
  "rep_input_round pack unpack draw p rcv xs st =
     bind_result (rep_input_prepare pack draw p xs st) (\<lambda>st.
     bind_result (rep_input_exchange rcv st) (rep_input_collect unpack draw p (length xs)))"

definition rep_input_message ::
  "(int \<Rightarrow> octet_stream \<Rightarrow> 'a \<Rightarrow> octet_stream result) \<Rightarrow> (int \<Rightarrow> prng \<Rightarrow> ('a :: comm_ring_1 \<times> prng) result)
    \<Rightarrow> nat \<Rightarrow> 'a list \<Rightarrow> 'a rep_input \<Rightarrow> octet list" where
  "rep_input_message pack draw p xs st =
     (case rep_input_prepare pack draw p xs st of Inl e \<Rightarrow> [] | Inr st \<Rightarrow> os_data (os_append (ri_os st ! 1) []))"

lemma get_player_next: "pl_num P = i \<Longrightarrow> pl_count P = 3 \<Longrightarrow> get_player P 1 = next3 i"
  by (cases P) (simp add: get_player_three_next)

lemma fresh_input_expect: "fresh_input i st \<Longrightarrow> j < 3 \<Longrightarrow> \<not> ri_expect st ! j"
  by (simp add: fresh_input_def)

lemma os_arrive_ready [simp]: "length bs < 2 ^ 64 \<Longrightarrow> os_ready (os_arrive os bs)" "os_unread (os_arrive os bs) = bs"
  by (simp_all add: os_arrive_def os_ready_def os_unread_def os_reset_read_head_def os_len_def)

text \<open>The previous player, who receives the other summands.\<close>

lemma round_stream:
  assumes C: "codec (pack (- 1)) (unpack (- 1)) enc (\<lambda>_. True)" and F: "fresh_input i st" and i: "i < 3" "next3 i = p"
    and R: "rcv p = concat (map enc ts)" "length (rcv p) < 2 ^ 64" "length ys = length ts"
  shows "\<exists>st'. rep_input_round pack unpack draw p rcv ys st = Inr (map (\<lambda>t. [t, 0]) ts, st')"
proof -
  have st: "pl_num (ri_P st) = i" "pl_count (ri_P st) = 3" "length (ri_os st) = 2" "os_writable (ri_os st ! 1)"
    "os_data (ri_os st ! 1) = []" "length (ri_base_os st) = 3" "ri_expect st = replicate 3 False"
    "\<And>j. j < 3 \<Longrightarrow> os_ready (ri_base_os st ! j) \<and> os_unread (ri_base_os st ! j) = []"
    using F by (simp_all add: fresh_input_def)
  have p: "p < 3" "p \<noteq> i" "int p - int i = 1 \<or> int p - int i = - 2"
    using next3_cases [OF i(1)] i(2) by auto
  let ?st1 = "st\<lparr>ri_expect := if ys = [] then ri_expect st else (ri_expect st)[p := True]\<rparr>"
  let ?os = "map (\<lambda>x. os_append x []) (ri_os st)"
  have os: "os_len (?os ! 1) = 0"
    using os_append_extends [OF st(4), of "[]"] st(3,5) by (simp add: os_extends_def os_len_def)
  have e: "ri_expect ?st1 ! p = (ys \<noteq> [])" using st(7) p(1) by simp
  let ?dest = "if ys = [] then ri_base_os st ! p else os_arrive (ri_base_os st ! p) (rcv p)"
  have x: "rep_input_exchange rcv ?st1 = Inr (?st1\<lparr>ri_os := ?os, ri_base_os := (ri_base_os st)[p := ?dest]\<rparr>)"
    using os e get_player_next [OF st(1,2)] i(2) by (simp add: rep_input_exchange_def Let_def)
  let ?st2 = "?st1\<lparr>ri_os := ?os, ri_base_os := (ri_base_os st)[p := ?dest]\<rparr>"
  have "os_ready ?dest" "os_unread ?dest = concat (map enc ts)"
    using st(8) [OF p(1)] R by auto
  then obtain st' where "rep_input_collect unpack draw p (length ts) ?st2 = Inr (map (\<lambda>t. [t, 0]) ts, st')"
    using collect_stream [where pack = pack and unpack = unpack, OF C, of p ?st2 ts draw] p st(1,6) by auto
  moreover have "rep_input_prepare pack draw p ys st = Inr ?st1"
    using prepare_other [of p st pack draw ys] st(1) p(2) by simp
  ultimately show ?thesis using x R(3) by (simp add: rep_input_round_def)
qed

text \<open>The next player, who draws the own summands from the shared generator.\<close>

lemma round_draw:
  assumes F: "fresh_input i st" and i: "i < 3" "next3 p = i" "p < 3"
    and D: "fv_randomize (length ys) (draw (- 1)) (ri_prng1 st) = Inr (rs, H)"
  shows "\<exists>st'. rep_input_round pack unpack draw p rcv ys st = Inr (map (\<lambda>t. [0, t]) rs, st') \<and> ri_prng1 st' = H"
proof -
  have st: "pl_num (ri_P st) = i" "pl_count (ri_P st) = 3" "length (ri_os st) = 2" "os_writable (ri_os st ! 1)"
    "os_data (ri_os st ! 1) = []" "ri_expect st = replicate 3 False"
    using F by (simp_all add: fresh_input_def)
  have p: "p \<noteq> i" "int p - int i \<noteq> 1" "int p - int i \<noteq> - 2" "next3 i < 3" "next3 i \<noteq> p"
    using next3_cases [OF i(3)] i(2) by auto
  let ?st1 = "st\<lparr>ri_expect := if ys = [] then ri_expect st else (ri_expect st)[p := True]\<rparr>"
  let ?os = "map (\<lambda>x. os_append x []) (ri_os st)"
  have os: "os_len (?os ! 1) = 0"
    using os_append_extends [OF st(4), of "[]"] st(3,5) by (simp add: os_extends_def os_len_def)
  have e: "\<not> ri_expect ?st1 ! next3 i" using st(6) p(4,5) by simp
  have x: "rep_input_exchange rcv ?st1 = Inr (?st1\<lparr>ri_os := ?os, ri_base_os := ri_base_os st\<rparr>)"
    using os e get_player_next [OF st(1,2)] by (simp add: rep_input_exchange_def Let_def)
  have "rep_input_prepare pack draw p ys st = Inr ?st1"
    using prepare_other [of p st pack draw ys] st(1) p(1) by simp
  moreover obtain st' where "rep_input_collect unpack draw p (length ys) (?st1\<lparr>ri_os := ?os, ri_base_os := ri_base_os st\<rparr>)
      = Inr (map (\<lambda>t. [0, t]) rs, st')" "ri_prng1 st' = H"
    using collect_draw [of p "?st1\<lparr>ri_os := ?os, ri_base_os := ri_base_os st\<rparr>" "length ys" draw rs H unpack] D p(1-3) st(1) by auto
  ultimately show ?thesis using x by (simp add: rep_input_round_def)
qed

text \<open>The player whose inputs they are.\<close>

context shared_source begin

lemma round_mine:
  assumes C: "codec (pack (- 1)) (unpack (- 1)) enc (\<lambda>_. True)" and F: "fresh_input p st" and p: "p < 3"
    and L: "linked (length xs + n) (ri_prng0 st) H" and len: "\<And>z. length (enc z) = w" "length xs * w < 2 ^ 32"
  shows "\<exists>rs H' st'. length rs = length xs \<and> fv_randomize (length xs) (draw (- 1)) H = Inr (rs, H') \<and> linked n (ri_prng0 st') H'
    \<and> rep_input_round pack unpack draw p rcv xs st = Inr (map2 (\<lambda>r x. [r, x - r]) rs xs, st')
    \<and> rep_input_message pack draw p xs st = concat (map enc (map2 (\<lambda>r x. x - r) rs xs))"
proof -
  have st: "pl_num (ri_P st) = p" "pl_count (ri_P st) = 3" "ri_shares st = pv_new" "length (ri_os st) = 2" "os_writable (ri_os st ! 1)"
    "os_data (ri_os st ! 1) = []"
    using F by (simp_all add: fresh_input_def)
  obtain rs st1 H' where P: "length rs = length xs" "rep_input_prepare pack draw p xs st = Inr st1"
    "ri_P st1 = ri_P st" "ri_expect st1 = ri_expect st" "ri_base_os st1 = ri_base_os st" "length (ri_os st1) = 2"
    "ri_shares st1 = (ri_shares st)\<lparr>pv_data := pv_data (ri_shares st) @ map2 (\<lambda>r x. [r, x - r]) rs xs\<rparr>"
    "os_extends (ri_os st ! 1) (concat (map enc (map2 (\<lambda>r x. x - r) rs xs))) (ri_os st1 ! 1)"
    "fv_randomize (length xs) (draw (- 1)) H = Inr (rs, H')" "linked n (ri_prng0 st1) H'"
    using prepare_mine [where pack = pack and unpack = "unpack (- 1)", OF C L st(4,5)] unfolding st(1) by blast
  let ?bs = "concat (map enc (map2 (\<lambda>r x. x - r) rs xs))"
  have bs: "length ?bs = length xs * w"
    using P(1) len(1) by (simp add: length_concat comp_def split_beta sum_list_triv)
  let ?os = "map (\<lambda>x. os_append x []) (ri_os st1)"
  have os: "os_data (?os ! 1) = ?bs" "bb_n (os_wbits (?os ! 1)) = 0"
    using os_append_extends [OF os_extends_writable [OF P(8)], of "[]"] P(6,8) st(6) by (simp_all add: os_extends_def)
  have e: "\<not> ri_expect st1 ! get_player (ri_P st1) 1"
    using fresh_input_expect [OF F] P(3,4) get_player_next [OF st(1,2)] by (simp add: next3_def)
  have "encode_length (of_nat (os_len (?os ! 1))) LENGTH_SIZE = Inr (le_bytes LENGTH_SIZE (os_len (?os ! 1)))"
    using os bs len(2) by (intro encode_length_ok) (simp add: os_len_def)
  then obtain st2 where X: "rep_input_exchange rcv st1 = Inr st2"
    "ri_P st2 = ri_P st1" "ri_shares st2 = ri_shares st1" "ri_prng0 st2 = ri_prng0 st1"
    using e by (cases "os_len (?os ! 1) = 0") (simp_all add: rep_input_exchange_def Let_def)
  have sh: "ri_shares st2 = \<lparr>pv_data = map2 (\<lambda>r x. [r, x - r]) rs xs, pv_i = 0\<rparr>"
    using X(3) P(7) st(3) by (simp add: pv_new_def)
  have "length xs \<le> pv_left (ri_shares st2)" using P(1) by (simp add: sh pv_left_def)
  then obtain st' where "rep_input_collect unpack draw p (length xs) st2 = Inr (map2 (\<lambda>r x. [r, x - r]) rs xs, st')"
    "ri_prng0 st' = ri_prng0 st2"
    using collect_mine [of "length xs" st2 unpack draw] X(2) P(1,3) st(1) by (auto simp: sh)
  moreover have "rep_input_message pack draw p xs st = ?bs"
    using P(2,6) os(1) by (simp add: rep_input_message_def)
  ultimately show ?thesis
    using P(1,2,9,10) X by (intro exI [of _ rs] exI [of _ H'] exI [of _ st']) (simp add: rep_input_round_def)
qed

text \<open>All three: the shares of the inputs of player \<open>p\<close>.\<close>

lemma all_input:
  assumes C: "codec (pack (- 1)) (unpack (- 1)) enc (\<lambda>_. True)" and F: "\<And>i. i < 3 \<Longrightarrow> fresh_input i (S i)" and p: "p < 3"
    and L: "linked (length xs + n) (ri_prng0 (S p)) (ri_prng1 (S (next3 p)))"
    and len: "\<And>z. length (enc z) = w" "length xs * w < 2 ^ 32" "\<And>i. i < 3 \<Longrightarrow> length (ys i) = length xs" "ys p = xs"
    and R: "rcv p = rep_input_message pack draw p xs (S p)"
  shows "\<exists>Z S'. (\<forall>i < 3. rep_input_round pack unpack draw p rcv (ys i) (S i) = Inr (Z i, S' i))
    \<and> (\<forall>k < length xs. replicated3 (\<lambda>i. Z i ! k) (xs ! k)) \<and> linked n (ri_prng0 (S' p)) (ri_prng1 (S' (next3 p)))"
proof -
  have i: "next3 p < 3" "prev3 p < 3" "next3 (prev3 p) = p" "next3 p \<noteq> p" "prev3 p \<noteq> p" "prev3 p \<noteq> next3 p"
    "\<And>i. i < 3 \<Longrightarrow> i = p \<or> i = next3 p \<or> i = prev3 p"
    using next3_cases [OF p] by auto
  obtain rs H' S1 where 1: "length rs = length xs" "fv_randomize (length xs) (draw (- 1)) (ri_prng1 (S (next3 p))) = Inr (rs, H')"
    "linked n (ri_prng0 S1) H'" "rep_input_round pack unpack draw p rcv xs (S p) = Inr (map2 (\<lambda>r x. [r, x - r]) rs xs, S1)"
    "rep_input_message pack draw p xs (S p) = concat (map enc (map2 (\<lambda>r x. x - r) rs xs))"
    using round_mine [where pack = pack and unpack = unpack and rcv = rcv, OF C F [OF p] p L len(1,2)] by blast
  note m = trans [OF R 1(5)]
  obtain S2 where 2: "rep_input_round pack unpack draw p rcv (ys (next3 p)) (S (next3 p)) = Inr (map (\<lambda>t. [0, t]) rs, S2)" "ri_prng1 S2 = H'"
    using round_draw [OF F [OF i(1)] i(1) refl p, of "ys (next3 p)" draw rs H' pack unpack rcv] 1(2) len(3) [OF i(1)] by auto
  have b: "length (rcv p) < 2 ^ 64"
    unfolding m using 1(1) len(1,2) by (simp add: length_concat comp_def split_beta sum_list_triv)
  obtain S3 where 3: "rep_input_round pack unpack draw p rcv (ys (prev3 p)) (S (prev3 p))
      = Inr (map (\<lambda>t. [t, 0]) (map2 (\<lambda>r x. x - r) rs xs), S3)"
    using round_stream [where pack = pack and unpack = unpack and draw = draw and rcv = rcv and p = p, OF C F [OF i(2)] i(2,3) m b, of "ys (prev3 p)"]
      len(3) [OF i(2)] 1(1) by auto
  let ?Z = "\<lambda>i. if i = p then map2 (\<lambda>r x. [r, x - r]) rs xs else if i = next3 p then map (\<lambda>t. [0, t]) rs
      else map (\<lambda>t. [t, 0]) (map2 (\<lambda>r x. x - r) rs xs)"
  let ?S' = "\<lambda>i. if i = p then S1 else if i = next3 p then S2 else S3"
  have "\<forall>i < 3. rep_input_round pack unpack draw p rcv (ys i) (S i) = Inr (?Z i, ?S' i)"
  proof (intro allI impI)
    fix j :: nat assume "j < 3"
    from i(7) [OF this] 1(4) 2(1) 3 i(4-6) len(4)
    show "rep_input_round pack unpack draw p rcv (ys j) (S j) = Inr (?Z j, ?S' j)" by auto
  qed
  moreover have "replicated3 (\<lambda>i. ?Z i ! k) (xs ! k)" if "k < length xs" for k
  proof -
    have "p = 0 \<or> p = 1 \<or> p = 2" using p by linarith
    then show ?thesis using that 1(1) by (auto simp: replicated3_iff)
  qed
  moreover have "linked n (ri_prng0 (?S' p)) (ri_prng1 (?S' (next3 p)))" using 1(3) 2(2) i(4) by simp
  ultimately show ?thesis by (intro exI [of _ ?Z] exI [of _ ?S'] conjI) blast+
qed

end

end
