(* ===== verification/Rep3Trunc.thy ===== *)
theory Rep3Trunc
  imports Rep3Input
begin

section \<open>Probabilistic truncation of replicated shares (Replicated::trunc_pr, Processor/TruncPrTuple.h)\<close>

text \<open>
  \<open>trunc_pr\<close> divides shared values by a power of two, with an error of at most one in the last place. With a
  big gap between the values and the ring, two parties truncate their summands and one masks its result;
  otherwise the value is opened under a mask, and the carry out of the lower bits is computed with a
  multiplication. The shifts of \<open>SignedZ2\<close> are the logical ones of \<open>Z2\<close>. The registers are the list \<open>S\<close>. The
  counters for statistics are not modelled.
\<close>

subsection \<open>TruncPrTuple\<close>

record trunc_tuple =
  tt_dest_base :: nat
  tt_source_base :: nat
  tt_k :: int
  tt_m :: int
  tt_n_shift :: int

definition trunc_tuple_new :: "nat \<Rightarrow> nat \<Rightarrow> nat \<Rightarrow> int \<Rightarrow> int \<Rightarrow> trunc_tuple result" where
  "trunc_tuple_new N_BITS dest_base source_base k m =
     (if m < k \<and> 0 < k \<and> m < int N_BITS
      then Inr \<lparr>tt_dest_base = dest_base, tt_source_base = source_base, tt_k = k, tt_m = m, tt_n_shift = int N_BITS - 1 - k\<rparr>
      else Inl assertion_failed)"

text \<open>Shifts by a negative amount are undefined.\<close>

definition word_shl :: "'k :: len word \<Rightarrow> int \<Rightarrow> 'k word result" where
  "word_shl x i = (if i < 0 then Inl undefined_behaviour else Inr (push_bit (nat i) x))"

definition word_shr :: "'k :: len word \<Rightarrow> int \<Rightarrow> 'k word result" where
  "word_shr x i = (if i < 0 then Inl undefined_behaviour else Inr (drop_bit (nat i) x))"

definition tt_upper :: "trunc_tuple \<Rightarrow> 'k :: len word \<Rightarrow> 'k word result" where
  "tt_upper t msk = bind_result (word_shl msk (tt_n_shift t + 1)) (\<lambda>x. word_shr x (tt_n_shift t + tt_m t + 1))"

definition tt_msb :: "trunc_tuple \<Rightarrow> 'k :: len word \<Rightarrow> 'k word result" where
  "tt_msb t msk = bind_result (word_shl msk (tt_n_shift t)) (\<lambda>x. word_shr x (int LENGTH('k) - 1))"

text \<open>\<open>TruncPrTupleWithGap\<close>; \<open>trunc_error\<close> is the option.\<close>

definition big_gap :: "nat \<Rightarrow> int \<Rightarrow> trunc_tuple \<Rightarrow> bool" where
  "big_gap N_BITS trunc_error t \<longleftrightarrow> tt_k t \<le> int N_BITS - trunc_error"

definition small_gap :: "nat \<Rightarrow> int \<Rightarrow> trunc_tuple \<Rightarrow> bool" where
  "small_gap N_BITS trunc_error t \<longleftrightarrow> \<not> big_gap N_BITS trunc_error t"

definition trunc_gap_new :: "bool \<Rightarrow> nat \<Rightarrow> int \<Rightarrow> nat \<Rightarrow> nat \<Rightarrow> int \<Rightarrow> int \<Rightarrow> trunc_tuple result" where
  "trunc_gap_new prime_field N_BITS trunc_error dest_base source_base k m =
     bind_result (trunc_tuple_new N_BITS dest_base source_base k m) (\<lambda>t.
       if prime_field \<and> small_gap N_BITS trunc_error t
       then Inl (runtime_error ''domain too small for chosen truncation error'') else Inr t)"

definition gap_upper :: "int \<Rightarrow> trunc_tuple \<Rightarrow> 'k :: len word \<Rightarrow> 'k word result" where
  "gap_upper trunc_error t msk =
     (if big_gap LENGTH('k) trunc_error t then word_shr msk (tt_m t) else tt_upper t msk)"

definition gap_msb :: "int \<Rightarrow> trunc_tuple \<Rightarrow> 'k :: len word \<Rightarrow> 'k word result" where
  "gap_msb trunc_error t msk =
     (if big_gap LENGTH('k) trunc_error t then Inl assertion_failed else tt_msb t msk)"

subsection \<open>The protocol of one party\<close>

text \<open>A register; \<open>StackedVector\<close> checks the index.\<close>

definition reg_at :: "'s list \<Rightarrow> nat \<Rightarrow> 's result" where
  "reg_at S j = (if j < length S then Inr (S ! j) else Inl out_of_range)"

definition reg_set :: "nat \<Rightarrow> 's \<Rightarrow> 's list \<Rightarrow> 's list result" where
  "reg_set j x S = (if j < length S then Inr (S[j := x]) else Inl out_of_range)"

text \<open>Player 2 generates the masks; \<open>G\<close> is its own generator, \<open>cs\<close> the stream it sends to player 1.\<close>

definition trunc_generate ::
  "(int \<Rightarrow> octet_stream \<Rightarrow> 'k word \<Rightarrow> octet_stream result) \<Rightarrow> (int \<Rightarrow> prng \<Rightarrow> ('k :: len word \<times> prng) result) \<Rightarrow> int
    \<Rightarrow> trunc_tuple \<Rightarrow> nat \<Rightarrow> 'k word rep_input \<times> octet_stream \<times> 'k word rep3 list \<times> prng \<times> prng
    \<Rightarrow> ('k word rep_input \<times> octet_stream \<times> 'k word rep3 list \<times> prng \<times> prng) result" where
  "trunc_generate pack draw trunc_error info i = (\<lambda>(inp, cs, S, H, G).
     bind_result (reg_at S (tt_source_base info + i)) (\<lambda>x.
       if small_gap LENGTH('k) trunc_error info then
         bind_result (draw (- 1) G) (\<lambda>(r, G).
         bind_result (gap_upper trunc_error info r) (\<lambda>u.
         bind_result (rep_input_add_mine pack draw u (- 1) inp) (\<lambda>inp.
         bind_result (gap_msb trunc_error info r) (\<lambda>b.
         bind_result (rep_input_add_mine pack draw b (- 1) inp) (\<lambda>inp.
         bind_result (pack (- 1) cs (r + x ! 0)) (\<lambda>cs. Inr (inp, cs, S, H, G)))))))
       else
         bind_result (draw (- 1) H) (\<lambda>(r, H).
         bind_result (word_shr (- fv_sum x) (tt_m info)) (\<lambda>d.
           let y1 = - d - r
           in bind_result (reg_set (tt_dest_base info + i) [r, y1] S) (\<lambda>S.
              bind_result (pack (- 1) cs y1) (\<lambda>cs. Inr (inp, cs, S, H, G)))))))"

text \<open>Player 1 computes on what it gets from player 2.\<close>

definition trunc_compute ::
  "(int \<Rightarrow> octet_stream \<Rightarrow> 'k word \<Rightarrow> octet_stream result) \<Rightarrow> (int \<Rightarrow> octet_stream \<Rightarrow> ('k word \<times> octet_stream) result)
    \<Rightarrow> (int \<Rightarrow> prng \<Rightarrow> ('k :: len word \<times> prng) result) \<Rightarrow> int \<Rightarrow> trunc_tuple \<Rightarrow> nat
    \<Rightarrow> 'k word rep_input \<times> octet_stream \<times> 'k word rep3 list \<Rightarrow> ('k word rep_input \<times> octet_stream \<times> 'k word rep3 list) result" where
  "trunc_compute pack unpack draw trunc_error info i = (\<lambda>(inp, cs, S).
     bind_result (reg_at S (tt_source_base info + i)) (\<lambda>x.
     bind_result (unpack (- 1) cs) (\<lambda>(t, cs).
       if small_gap LENGTH('k) trunc_error info then
         let c = t + fv_sum x
         in bind_result (gap_upper trunc_error info c) (\<lambda>u.
            bind_result (rep_input_add_mine pack draw u (- 1) inp) (\<lambda>inp.
            bind_result (gap_msb trunc_error info c) (\<lambda>b.
            bind_result (rep_input_add_mine pack draw b (- 1) inp) (\<lambda>inp. Inr (inp, cs, S)))))
       else
         bind_result (word_shr (x ! 1) (tt_m info)) (\<lambda>d.
         bind_result (reg_set (tt_dest_base info + i) [t, d] S) (\<lambda>S. Inr (inp, cs, S))))))"

text \<open>Player 0 truncates its first summand and draws the mask of player 2.\<close>

definition trunc_local ::
  "(int \<Rightarrow> prng \<Rightarrow> ('k :: len word \<times> prng) result) \<Rightarrow> trunc_tuple \<Rightarrow> nat \<Rightarrow> 'k word rep3 list \<times> prng \<Rightarrow> ('k word rep3 list \<times> prng) result" where
  "trunc_local draw info i = (\<lambda>(S, H).
     bind_result (reg_at S (tt_source_base info + i)) (\<lambda>x.
     bind_result (word_shr (x ! 0) (tt_m info)) (\<lambda>d.
     bind_result (draw (- 1) H) (\<lambda>(r, H).
     bind_result (reg_set (tt_dest_base info + i) [d, r] S) (\<lambda>S. Inr (S, H))))))"

text \<open>A loop over the tuples and the elements of the registers.\<close>

definition trunc_loop :: "(trunc_tuple \<Rightarrow> nat \<Rightarrow> 's \<Rightarrow> 's result) \<Rightarrow> trunc_tuple list \<Rightarrow> nat \<Rightarrow> 's \<Rightarrow> 's result" where
  "trunc_loop f infos n s = foldM_result (\<lambda>info. foldM_result (f info) [0..<n]) infos s"

text \<open>The shares of the opened parts, before and after the multiplication of the carry bits.\<close>

definition trunc_prepare ::
  "(int \<Rightarrow> octet_stream \<Rightarrow> 'k word \<Rightarrow> octet_stream result) \<Rightarrow> (int \<Rightarrow> octet_stream \<Rightarrow> ('k word \<times> octet_stream) result)
    \<Rightarrow> (int \<Rightarrow> prng \<Rightarrow> ('k :: len word \<times> prng) result) \<Rightarrow> int \<Rightarrow> trunc_tuple \<Rightarrow> nat
    \<Rightarrow> 'k word rep_input \<times> 'k word rep3 list \<times> 'k word replicated \<Rightarrow> ('k word rep_input \<times> 'k word rep3 list \<times> 'k word replicated) result" where
  "trunc_prepare pack unpack draw trunc_error info i = (\<lambda>(inp, S, st).
     if small_gap LENGTH('k) trunc_error info then
       bind_result (rep_input_finalize unpack draw 1 (- 1) inp) (\<lambda>(c', inp).
       bind_result (rep_input_finalize unpack draw 2 (- 1) inp) (\<lambda>(r', inp).
       bind_result (rep_input_finalize unpack draw 1 (- 1) inp) (\<lambda>(c'', inp).
       bind_result (rep_input_finalize unpack draw 2 (- 1) inp) (\<lambda>(r_msb, inp).
       bind_result (reg_set (tt_dest_base info + i)
           (fv_add (fv_sub c' r') (fv_shl (fv_add r_msb c'') (nat (tt_k info - tt_m info)))) S) (\<lambda>S.
       bind_result (replicated_prepare_mul pack draw r_msb c'' (- 1) st) (\<lambda>st. Inr (inp, S, st)))))))
     else Inr (inp, S, st))"

definition trunc_finish ::
  "(int \<Rightarrow> octet_stream \<Rightarrow> ('k word \<times> octet_stream) result) \<Rightarrow> int \<Rightarrow> int \<Rightarrow> trunc_tuple \<Rightarrow> nat
    \<Rightarrow> 'k :: len word rep3 list \<times> 'k word replicated \<Rightarrow> ('k word rep3 list \<times> 'k word replicated) result" where
  "trunc_finish unpack dl trunc_error info i = (\<lambda>(S, st).
     if small_gap LENGTH('k) trunc_error info then
       bind_result (reg_at S (tt_dest_base info + i)) (\<lambda>y.
       bind_result (replicated_finalize_mul unpack dl (- 1) st) (\<lambda>(z, st).
       bind_result (reg_set (tt_dest_base info + i) (fv_sub y (fv_shl z (nat (tt_k info - tt_m info + 1)))) S) (\<lambda>S. Inr (S, st))))
     else Inr (S, st))"

text \<open>
  The whole protocol. \<open>new\<close> are the generators of the new input object before they are seeded, \<open>G\<close> is the
  generator of player 2, \<open>rcv_cs\<close>, \<open>rcv_inp\<close> and \<open>rcv_mul\<close> what the others send in the three steps.
\<close>

definition replicated_trunc_pr ::
  "block_cipher \<Rightarrow> nat \<Rightarrow> (int \<Rightarrow> octet_stream \<Rightarrow> 'k word \<Rightarrow> octet_stream result)
    \<Rightarrow> (int \<Rightarrow> octet_stream \<Rightarrow> ('k word \<times> octet_stream) result) \<Rightarrow> (int \<Rightarrow> prng \<Rightarrow> ('k :: len word \<times> prng) result) \<Rightarrow> int \<Rightarrow> int
    \<Rightarrow> player \<Rightarrow> prng \<times> prng \<Rightarrow> prng \<Rightarrow> (nat \<Rightarrow> octet list) \<Rightarrow> (nat \<Rightarrow> octet list) \<Rightarrow> (nat \<Rightarrow> octet list)
    \<Rightarrow> trunc_tuple list \<Rightarrow> nat \<Rightarrow> 'k word rep3 list \<Rightarrow> 'k word replicated
    \<Rightarrow> (octet_stream \<times> 'k word rep3 list \<times> 'k word replicated) result" where
  "replicated_trunc_pr E pl pack unpack draw dl trunc_error P new G rcv_cs rcv_inp rcv_mul infos sz S st =
     (let generate = pl_num P = 2;
          compute = pl_num P = 1;
          have_small_gap = list_ex (small_gap LENGTH('k) trunc_error) infos;
          have_big_gap = list_ex (big_gap LENGTH('k) trunc_error) infos
      in if pl_count P \<noteq> 3 then Inl assertion_failed
         else
           bind_result (replicated_branch E pl (rp_prng0 st, rp_prng1 st) new) (\<lambda>(prngs, H0, H1).
           bind_result (rep_input_new P prngs) (\<lambda>inp.
           bind_result
             (if generate then trunc_loop (trunc_generate pack draw trunc_error) infos sz (inp, os_empty, S, H0, G)
              else Inr (if have_small_gap then rep_input_add_other 2 inp else inp, os_empty, S, H0, G)) (\<lambda>(inp, cs, S, H0, _).
           bind_result
             (if compute then
                bind_result (trunc_loop (trunc_compute pack unpack draw trunc_error) infos sz (inp, os_arrive os_empty (rcv_cs 2), S))
                  (\<lambda>(inp, _, S). Inr (inp, S))
              else Inr (inp, S)) (\<lambda>(inp, S).
           bind_result
             (if have_big_gap \<and> \<not> (compute \<or> generate)
              then trunc_loop (trunc_local draw) (filter (big_gap LENGTH('k) trunc_error) infos) sz (S, H1)
              else Inr (S, H1)) (\<lambda>(S, H1).
           let st = st\<lparr>rp_prng0 := H0, rp_prng1 := H1\<rparr>
           in if have_small_gap then
                bind_result (rep_input_exchange rcv_inp (rep_input_add_other 1 inp)) (\<lambda>inp.
                bind_result (trunc_loop (trunc_prepare pack unpack draw trunc_error) infos sz (inp, S, replicated_init_mul st)) (\<lambda>(_, S, st).
                bind_result (replicated_exchange P rcv_mul st) (\<lambda>st.
                bind_result (trunc_loop (trunc_finish unpack dl trunc_error) infos sz (S, st)) (\<lambda>(S, st). Inr (cs, S, st)))))
              else Inr (cs, S, st)))))))"

subsection \<open>The values\<close>

text \<open>Two summands truncated on their own.\<close>

definition trunc_pair :: "nat \<Rightarrow> 'k :: len word \<Rightarrow> 'k word \<Rightarrow> 'k word" where
  "trunc_pair m u s = drop_bit m u - drop_bit m (- s)"

lemma div_shift_cases: "0 < p \<Longrightarrow> (b + X) div p - b div p = X div p \<or> (b + X) div p - b div p = X div p + (1 :: int)"
proof -
  assume p: "0 < p"
  have r: "0 \<le> b mod p + X mod p" "b mod p + X mod p < 2 * p"
    using pos_mod_bound [OF p, of b] pos_mod_bound [OF p, of X] pos_mod_sign [OF p, of b] pos_mod_sign [OF p, of X] by linarith+
  have "(b mod p + X mod p) div p = 0 \<or> (b mod p + X mod p) div p = 1"
  proof (cases "b mod p + X mod p < p")
    case True
    with r show ?thesis by simp
  next
    case False
    then have "(b mod p + X mod p) div p = 1"
      using r by (intro int_div_pos_eq [where r = "b mod p + X mod p - p"]) simp_all
    then show ?thesis by simp
  qed
  then show ?thesis unfolding div_add1_eq [of b X p] by auto
qed

lemma uint_drop_bit: "uint (drop_bit m (u :: 'k :: len word)) = uint u div 2 ^ m"
  unfolding unsigned_drop_bit_eq take_bit_int_eq_self [OF uint_ge_0 uint_lt2p] by (rule drop_bit_eq_div)

lemma of_int_drop_bit: "drop_bit m (u :: 'k :: len word) = word_of_int (uint u div 2 ^ m)"
  by (metis uint_drop_bit word_of_int_uint)

text \<open>The error is at most one in the last place unless the subtraction of the summands wraps around.\<close>

lemma trunc_pair_bounds:
  fixes u s :: "'k :: len word"
  defines "X \<equiv> sint (u + s)"
  assumes "0 \<le> uint u - X" "uint u - X < 2 ^ LENGTH('k)"
  shows "trunc_pair m u s = word_of_int (X div 2 ^ m) \<or> trunc_pair m u s = word_of_int (X div 2 ^ m) + 1"
proof -
  have "- s = word_of_int (uint u - X)" by (simp add: X_def)
  then have v: "uint (- s) = uint u - X" using assms(2,3) by (metis mod_pos_pos_trivial uint_word_of_int)
  define d where "d = ((uint u - X) + X) div 2 ^ m - (uint u - X) div 2 ^ m"
  have "trunc_pair m u s = word_of_int d"
    by (simp add: trunc_pair_def of_int_drop_bit v d_def)
  moreover have "d = X div 2 ^ m \<or> d = X div 2 ^ m + 1"
    unfolding d_def by (rule div_shift_cases) simp
  ultimately show ?thesis by auto
qed

text \<open>Of the values of the first summand, as many fail as the value is large.\<close>

lemma card_uint_less: "0 \<le> X \<Longrightarrow> X \<le> 2 ^ LENGTH('k) \<Longrightarrow> card {u :: 'k :: len word. uint u < X} = nat X"
proof -
  assume X: "0 \<le> X" "X \<le> 2 ^ LENGTH('k)"
  have "uint ` {u :: 'k word. uint u < X} = {0..<X}"
  proof (intro set_eqI iffI)
    fix y assume "y \<in> {0..<X}"
    then have "y = uint (word_of_int y :: 'k word)" "y < X" using X(2) by (simp_all add: uint_word_of_int)
    then show "y \<in> uint ` {u :: 'k word. uint u < X}" by (metis (mono_tags) imageI mem_Collect_eq)
  qed auto
  moreover have "inj_on uint {u :: 'k word. uint u < X}" by (intro inj_onI) (metis word_of_int_uint)
  ultimately show ?thesis using card_image by fastforce
qed

lemma card_trunc_fails:
  assumes "\<bar>X\<bar> \<le> 2 ^ LENGTH('k)"
  shows "card {u :: 'k :: len word. \<not> (0 \<le> uint u - X \<and> uint u - X < 2 ^ LENGTH('k))} = nat \<bar>X\<bar>"
proof (cases "0 \<le> X")
  case True
  have "uint u < 2 ^ LENGTH('k)" for u :: "'k word" by (rule uint_lt2p)
  then have "{u :: 'k word. \<not> (0 \<le> uint u - X \<and> uint u - X < 2 ^ LENGTH('k))} = {u. uint u < X}"
    using True by (smt (verit, best) Collect_cong)
  then show ?thesis using True assms by (simp add: card_uint_less)
next
  case False
  let ?B = "2 ^ LENGTH('k) + X"
  have "X \<le> uint u" for u :: "'k word" using False uint_ge_0 [of u] by linarith
  then have "{u :: 'k word. \<not> (0 \<le> uint u - X \<and> uint u - X < 2 ^ LENGTH('k))} = UNIV - {u. uint u < ?B}"
    by auto
  then have "card {u :: 'k word. \<not> (0 \<le> uint u - X \<and> uint u - X < 2 ^ LENGTH('k))} = 2 ^ LENGTH('k) - nat ?B"
    using card_uint_less [where 'k = 'k, of ?B] False assms by (simp add: card_Diff_subset card_word)
  also have "\<dots> = nat \<bar>X\<bar>" using False assms by (simp add: nat_diff_distrib flip: nat_numeral nat_power_eq)
  finally show ?thesis .
qed

text \<open>The lower bits and the bit above them, opened under a mask.\<close>

definition low_upper :: "nat \<Rightarrow> nat \<Rightarrow> 'k :: len word \<Rightarrow> 'k word" where
  "low_upper k m w = drop_bit m (take_bit k w)"

definition low_msb :: "nat \<Rightarrow> 'k :: len word \<Rightarrow> 'k word" where
  "low_msb k w = take_bit 1 (drop_bit k w)"

lemma tt_upper_low:
  assumes "tt_k t = int k" "tt_m t = int m" "tt_n_shift t = int LENGTH('k) - 1 - int k" "k \<le> LENGTH('k)"
  shows "tt_upper t w = Inr (low_upper k m (w :: 'k :: len word))"
proof -
  have n: "nat (tt_n_shift t + 1) = LENGTH('k) - k" "nat (tt_n_shift t + tt_m t + 1) = LENGTH('k) - k + m"
    "\<not> tt_n_shift t + 1 < 0" "\<not> tt_n_shift t + tt_m t + 1 < 0"
    using assms by simp_all
  have "drop_bit (LENGTH('k) - k + m) (push_bit (LENGTH('k) - k) w) = drop_bit m (take_bit k w)"
    by (rule bit_word_eqI) (use assms(4) in \<open>auto simp: bit_simps\<close>)
  then show ?thesis unfolding tt_upper_def word_shl_def word_shr_def low_upper_def using n by simp
qed

lemma tt_msb_low:
  assumes "tt_n_shift t = int LENGTH('k) - 1 - int k" "k < LENGTH('k)"
  shows "tt_msb t w = Inr (low_msb k (w :: 'k :: len word))"
proof -
  have n: "nat (tt_n_shift t) = LENGTH('k) - 1 - k" "\<not> tt_n_shift t < 0" "nat (int LENGTH('k) - 1) = LENGTH('k) - 1"
    "\<not> int LENGTH('k) - 1 < 0"
    using assms by simp_all
  have "drop_bit (LENGTH('k) - 1) (push_bit (LENGTH('k) - 1 - k) w) = take_bit 1 (drop_bit k w)"
  proof (rule bit_word_eqI)
    fix n assume "n < LENGTH('k)"
    then show "bit (drop_bit (LENGTH('k) - 1) (push_bit (LENGTH('k) - 1 - k) w)) n = bit (take_bit 1 (drop_bit k w)) n"
      using assms(2) by (cases n) (auto simp: bit_simps even_drop_bit_iff_not_bit)
  qed
  then show ?thesis unfolding tt_msb_def word_shl_def word_shr_def low_msb_def using n by simp
qed

lemma uint_low_upper: "k \<le> LENGTH('k) \<Longrightarrow> uint (low_upper k m (w :: 'k :: len word)) = uint w mod 2 ^ k div 2 ^ m"
  unfolding low_upper_def uint_drop_bit unsigned_take_bit_eq by (simp add: take_bit_eq_mod)

lemma uint_low_msb: "uint (low_msb k (w :: 'k :: len word)) = uint w div 2 ^ k mod 2"
  unfolding low_msb_def unsigned_take_bit_eq uint_drop_bit by (simp add: take_bit_eq_mod)

text \<open>The carry of the lower bits is the exclusive or of the two bits above them.\<close>

lemma low_carry:
  fixes r x :: "'k :: len word"
  assumes "k < LENGTH('k)" "uint x < 2 ^ k"
  defines "c \<equiv> r + x" and "R \<equiv> uint r mod 2 ^ k"
  shows "uint (low_msb k r) \<noteq> uint (low_msb k c) \<longleftrightarrow> 2 ^ k \<le> R + uint x"
    and "uint c mod 2 ^ k = R + uint x - (if 2 ^ k \<le> R + uint x then 2 ^ k else 0)"
proof -
  let ?p = "2 ^ k :: int"
  have X: "0 \<le> uint x" "uint x < ?p" using assms(2) by simp_all
  have R: "0 \<le> R" "R < ?p" by (simp_all add: R_def)
  have d: "(2 * ?p) dvd 2 ^ LENGTH('k)"
    using assms(1) by (metis Suc_leI le_imp_power_dvd power_Suc)
  have "uint c = (uint r + uint x) mod 2 ^ LENGTH('k)" by (simp add: c_def uint_word_ariths)
  then have c2: "uint c mod (2 * ?p) = (uint r + uint x) mod (2 * ?p)" using d by (simp add: mod_mod_cancel)
  define b where "b = uint r div ?p mod 2"
  have b: "b = 0 \<or> b = 1" by (auto simp: b_def)
  have r2: "uint r mod (2 * ?p) = R + b * ?p"
    by (simp add: R_def b_def mult.commute [of 2] zmod_zmult2_eq) 
  have sum: "uint c mod (2 * ?p) = (R + uint x + b * ?p) mod (2 * ?p)"
    unfolding c2 by (metis (no_types, opaque_lifting) add.assoc add.commute mod_add_left_eq r2)
  have split: "uint c mod (2 * ?p) = ?p * (uint c div ?p mod 2) + uint c mod ?p"
    by (simp add: mult.commute [of 2] zmod_zmult2_eq)
  have low: "uint c mod ?p = (R + uint x) mod ?p"
  proof -
    have "uint c mod ?p = uint c mod (2 * ?p) mod ?p" by (simp add: mod_mod_cancel)
    also have "\<dots> = (R + uint x + b * ?p) mod ?p" unfolding sum by (simp add: mod_mod_cancel)
    finally show ?thesis by simp
  qed
  show low': "uint c mod ?p = R + uint x - (if ?p \<le> R + uint x then ?p else 0)"
  proof (cases "?p \<le> R + uint x")
    case True
    then have "(R + uint x) mod ?p = (R + uint x - ?p) mod ?p" by simp
    also have "\<dots> = R + uint x - ?p" using True X R by (intro mod_pos_pos_trivial) linarith+
    finally show ?thesis using True low by simp
  next
    case False
    then show ?thesis using low X R by simp
  qed
  have "(R + uint x + b * ?p) mod (2 * ?p) = R + uint x + b * ?p - (if 2 * ?p \<le> R + uint x + b * ?p then 2 * ?p else 0)"
  proof (cases "2 * ?p \<le> R + uint x + b * ?p")
    case True
    then have "(R + uint x + b * ?p) mod (2 * ?p) = (R + uint x + b * ?p - 2 * ?p) mod (2 * ?p)" by simp
    also have "\<dots> = R + uint x + b * ?p - 2 * ?p" using True X R b by (intro mod_pos_pos_trivial) auto
    finally show ?thesis using True by simp
  next
    case False
    then show ?thesis using X R b by (auto intro!: mod_pos_pos_trivial)
  qed
  then have "?p * (uint c div ?p mod 2) = b * ?p + (if ?p \<le> R + uint x then ?p else 0)
      - (if 2 * ?p \<le> R + uint x + b * ?p then 2 * ?p else 0)"
    using split sum low' by simp
  then show "uint (low_msb k r) \<noteq> uint (low_msb k c) \<longleftrightarrow> ?p \<le> R + uint x"
    using b X R unfolding uint_low_msb b_def [symmetric] by (auto split: if_splits)
qed

text \<open>What is computed with a small gap, in the clear: always within one of the quotient.\<close>

definition trunc_carry :: "nat \<Rightarrow> nat \<Rightarrow> 'k :: len word \<Rightarrow> 'k word \<Rightarrow> 'k word" where
  "trunc_carry k m r c =
     low_upper k m c - low_upper k m r + push_bit (k - m) (low_msb k r + low_msb k c) - push_bit (k - m + 1) (low_msb k r * low_msb k c)"

lemma trunc_carry_bounds:
  fixes r x :: "'k :: len word"
  assumes k: "m \<le> k" "k < LENGTH('k)" "uint x < 2 ^ k"
  shows "trunc_carry k m r (r + x) = drop_bit m x \<or> trunc_carry k m r (r + x) = drop_bit m x + 1"
proof -
  define R where "R = uint r mod 2 ^ k"
  define d :: int where "d = (if 2 ^ k \<le> R + uint x then 1 else 0)"
  note C = low_carry [OF k(2,3), of r, folded R_def]
  let ?br = "low_msb k r" and ?bc = "low_msb k (r + x)"
  have bits: "b = 0 \<or> b = 1" if "uint b = i mod 2" for b :: "'k word" and i
    using that by (metis mod_2_eq_odd of_bool_def uint_0_iff uint_1_eq word_uint_eq_iff)
  have "?br = 0 \<or> ?br = 1" "?bc = 0 \<or> ?bc = 1" using bits uint_low_msb by blast+
  moreover have "(?br \<noteq> ?bc) = (d = 1)" using C(1) by (simp add: d_def word_uint_eq_iff)
  ultimately have flip: "push_bit (k - m) (?br + ?bc) - push_bit (k - m + 1) (?br * ?bc) = word_of_int (d * 2 ^ (k - m))"
    by (auto simp: push_bit_eq_mult d_def split: if_splits)
  have pk: "(2 :: int) ^ k = 2 ^ (k - m) * 2 ^ m" using k(1) by (simp flip: power_add)
  have "uint (low_upper k m (r + x)) = (R + uint x - d * 2 ^ k) div 2 ^ m" "uint (low_upper k m r) = R div 2 ^ m"
    using C(2) k(2) by (simp_all add: uint_low_upper d_def R_def)
  moreover have "(R + uint x - d * 2 ^ k) div 2 ^ m = (R + uint x) div 2 ^ m - d * 2 ^ (k - m)"
    using div_mult_self2 [of "2 ^ m" "R + uint x" "- (d * 2 ^ (k - m))"] by (simp add: pk algebra_simps)
  ultimately have up: "low_upper k m (r + x) = word_of_int ((R + uint x) div 2 ^ m - d * 2 ^ (k - m))"
    "low_upper k m r = word_of_int (R div 2 ^ m)"
    by (metis word_of_int_uint)+
  define e where "e = (R + uint x) div 2 ^ m - R div 2 ^ m"
  have "trunc_carry k m r (r + x) = low_upper k m (r + x) - low_upper k m r + word_of_int (d * 2 ^ (k - m))"
    unfolding trunc_carry_def flip [symmetric] by simp
  also have "\<dots> = word_of_int e" unfolding up by (simp add: e_def)
  finally have "trunc_carry k m r (r + x) = word_of_int e" .
  moreover have "e = uint x div 2 ^ m \<or> e = uint x div 2 ^ m + 1"
    unfolding e_def by (rule div_shift_cases) simp
  moreover have "drop_bit m x = word_of_int (uint x div 2 ^ m)" by (rule of_int_drop_bit)
  ultimately show ?thesis by auto
qed

end
