(* ===== verification/Rep3TruncRun.thy ===== *)
theory Rep3TruncRun
  imports Rep3Trunc
begin

section \<open>The three parties truncate: a big gap\<close>

text \<open>
  The loops of \<open>Replicated::trunc_pr\<close> over one tuple, for the case in which the values are far smaller than
  the ring. Every loop reads a source register, has a value for the destination and moves on a state of its
  own (a generator, a stream); \<open>reg_loop\<close> is what such a loop does. The three parties then hold shares of
  \<open>trunc_pair\<close> of the summands.
\<close>

subsection \<open>Loops over registers\<close>

definition write_regs :: "nat \<Rightarrow> 's list \<Rightarrow> 's list \<Rightarrow> 's list" where
  "write_regs dst vs S = map (\<lambda>j. if dst \<le> j \<and> j < dst + length vs then vs ! (j - dst) else S ! j) [0..<length S]"

lemma length_write_regs [simp]: "length (write_regs dst vs S) = length S"
  by (simp add: write_regs_def)

lemma nth_write_regs:
  "j < length S \<Longrightarrow> write_regs dst vs S ! j = (if dst \<le> j \<and> j < dst + length vs then vs ! (j - dst) else S ! j)"
  by (simp add: write_regs_def)

lemma write_regs_Nil [simp]: "write_regs dst [] S = S"
  by (intro nth_equalityI) (auto simp: nth_write_regs)

lemma write_regs_snoc: "dst + length vs < length S \<Longrightarrow> write_regs dst (vs @ [v]) S = (write_regs dst vs S)[dst + length vs := v]"
  by (intro nth_equalityI) (auto simp: nth_write_regs nth_list_update nth_append)

text \<open>A destination never hits a source that is still to be read.\<close>

definition regs_apart :: "nat \<Rightarrow> nat \<Rightarrow> nat \<Rightarrow> bool" where
  "regs_apart n src dst \<longleftrightarrow> dst \<le> src \<or> src + n \<le> dst"

lemma reg_loop:
  assumes step: "\<And>i S. i < n \<Longrightarrow> length S = length S0 \<Longrightarrow> S ! (src + i) = S0 ! (src + i)
      \<Longrightarrow> step i (mk S (s i)) = Inr (mk (S[dst + i := v i]) (s (Suc i)))"
    and regs: "src + n \<le> length S0" "dst + n \<le> length S0" "regs_apart n src dst"
  shows "foldM_result step [0..<n] (mk S0 (s 0)) = Inr (mk (write_regs dst (map v [0..<n]) S0) (s n))"
proof -
  have "foldM_result step [0..<k] (mk S0 (s 0)) = Inr (mk (write_regs dst (map v [0..<k]) S0) (s k))" if "k \<le> n" for k
    using that
  proof (induction k)
    case (Suc k)
    let ?S = "write_regs dst (map v [0..<k]) S0"
    have "?S ! (src + k) = S0 ! (src + k)"
      using Suc.prems regs by (auto simp: nth_write_regs regs_apart_def)
    then have "step k (mk ?S (s k)) = Inr (mk (?S[dst + k := v k]) (s (Suc k)))"
      using step Suc.prems by simp
    moreover have "?S[dst + k := v k] = write_regs dst (map v [0..<Suc k]) S0"
      using write_regs_snoc [of dst "map v [0..<k]" S0 "v k"] Suc.prems regs(2) by simp
    ultimately show ?case using Suc by (simp add: foldM_result_append)
  qed simp
  then show ?thesis by simp
qed

text \<open>The states that a loop goes through.\<close>

lemma bounded_choice:
  assumes "P 0 s" and step: "\<And>i s. i < n \<Longrightarrow> P i s \<Longrightarrow> \<exists>s'. Q i s s' \<and> P (Suc i) s'"
  shows "\<exists>f. f 0 = s \<and> (\<forall>i < n. Q i (f i) (f (Suc i))) \<and> P n (f n)"
proof -
  have "\<exists>f. f 0 = s \<and> (\<forall>i < k. Q i (f i) (f (Suc i))) \<and> P k (f k)" if "k \<le> n" for k
    using that
  proof (induction k)
    case 0
    show ?case using assms(1) by (intro exI [of _ "\<lambda>_. s"]) simp
  next
    case (Suc k)
    then obtain f where f: "f 0 = s" "\<forall>i < k. Q i (f i) (f (Suc i))" "P k (f k)" by auto
    from step [OF _ f(3)] Suc.prems obtain s' where "Q k (f k) s'" "P (Suc k) s'" by auto
    with f show ?case by (intro exI [of _ "f(Suc k := s')"]) (auto simp: less_Suc_eq)
  qed
  then show ?thesis by simp
qed

lemma pack_family:
  assumes C: "codec pack unpack enc (\<lambda>_. True)" and "os_writable os"
  shows "\<exists>cs. cs 0 = os \<and> (\<forall>i < n. pack (cs i) (y i) = Inr (cs (Suc i))) \<and> os_extends os (concat (map enc (map y [0..<n]))) (cs n)"
proof -
  let ?P = "\<lambda>i cs. os_extends os (concat (map enc (map y [0..<i]))) cs"
  have "\<exists>cs'. pack cs (y i) = Inr cs' \<and> ?P (Suc i) cs'" if "?P i cs" for i cs
    using codec.pack_extends [OF C _ os_extends_writable [OF that], of "y i"] os_extends_trans [OF that] by fastforce
  moreover have "?P 0 os" using assms(2) by (simp add: os_extends_refl)
  ultimately show ?thesis using bounded_choice [where P = ?P and Q = "\<lambda>i cs cs'. pack cs (y i) = Inr cs'"] by blast
qed

lemma unpack_family:
  assumes C: "codec pack unpack enc (\<lambda>_. True)" and "os_ready os" "os_unread os = concat (map enc (map y [0..<n]))"
  shows "\<exists>cs. cs 0 = os \<and> (\<forall>i < n. unpack (cs i) = Inr (y i, cs (Suc i)))"
proof -
  let ?P = "\<lambda>i cs. os_ready cs \<and> os_unread cs = concat (map enc (map y [i..<n]))"
  have "\<exists>cs'. unpack cs = Inr (y i, cs') \<and> ?P (Suc i) cs'" if i: "i < n" "?P i cs" for i cs
  proof -
    have "os_unread cs = enc (y i) @ concat (map enc (map y [Suc i..<n]))" using i by (simp add: upt_conv_Cons)
    from codec.unpack_enc [OF C _ _ this] i obtain cs' where "unpack cs = Inr (y i, cs')" "os_advanced (length (enc (y i))) cs cs'"
      by auto
    then show ?thesis
      using i os_advanced_ready os_advanced_unread [of "length (enc (y i))" cs cs'] by (auto simp: upt_conv_Cons)
  qed
  moreover have "?P 0 os" using assms(2,3) by simp
  ultimately have "\<exists>cs. cs 0 = os \<and> (\<forall>i < n. unpack (cs i) = Inr (y i, cs (Suc i))) \<and> ?P n (cs n)"
    using bounded_choice [where P = ?P and Q = "\<lambda>i cs cs'. unpack cs = Inr (y i, cs')"] by blast
  then show ?thesis by blast
qed

context shared_source begin

lemma linked_family:
  assumes "linked (n + m) G H"
  shows "\<exists>r g h. g 0 = G \<and> h 0 = H \<and> (\<forall>i < n. draw b (g i) = Inr (r i, g (Suc i)) \<and> draw b (h i) = Inr (r i, h (Suc i)))
    \<and> linked m (g n) (h n)"
proof -
  let ?P = "\<lambda>i (g, h). linked (n - i + m) g h"
  let ?Q = "\<lambda>i s s'. \<exists>r. draw b (fst s) = Inr (r, fst s') \<and> draw b (snd s) = Inr (r, snd s')"
  have step: "\<exists>s'. ?Q i s s' \<and> ?P (Suc i) s'" if "i < n" "?P i s" for i s
  proof -
    have "linked (Suc (n - Suc i + m)) (fst s) (snd s)" using that by (simp add: split_beta Suc_diff_Suc)
    from linked_draw [OF this, of b] show ?thesis by fastforce
  qed
  have start: "?P 0 (G, H)" using assms by simp
  have "\<exists>f. f 0 = (G, H) \<and> (\<forall>i < n. ?Q i (f i) (f (Suc i))) \<and> ?P n (f n)"
    by (rule bounded_choice [where P = ?P and Q = ?Q, OF start]) (rule step)
  then obtain f where f: "f 0 = (G, H)" "\<forall>i < n. ?Q i (f i) (f (Suc i))" "?P n (f n)" by (elim exE conjE)
  define r where "r = (\<lambda>i. fst (projr (draw b (fst (f i)))))"
  have "draw b (fst (f i)) = Inr (r i, fst (f (Suc i))) \<and> draw b (snd (f i)) = Inr (r i, snd (f (Suc i)))" if "i < n" for i
  proof -
    from f(2) that obtain x where "draw b (fst (f i)) = Inr (x, fst (f (Suc i)))" "draw b (snd (f i)) = Inr (x, snd (f (Suc i)))"
      by blast
    then show ?thesis by (simp add: r_def)
  qed
  then show ?thesis
    using f(1,3) by (intro exI [of _ r] exI [of _ "\<lambda>i. fst (f i)"] exI [of _ "\<lambda>i. snd (f i)"]) (simp add: split_beta)
qed

end

subsection \<open>The parties\<close>

lemma upt_one: "trunc_loop f [info] n s = foldM_result (f info) [0..<n] s"
  by (cases "foldM_result (f info) [0..<n] s") (simp_all add: trunc_loop_def)

lemma generate_big:
  fixes S0 :: "'k :: len word rep3 list"
  assumes big: "\<not> small_gap LENGTH('k) te info" "tt_m info = int m" "tt_source_base info = src" "tt_dest_base info = dst"
    and regs: "src + n \<le> length S0" "dst + n \<le> length S0" "regs_apart n src dst"
    and D: "\<And>i. i < n \<Longrightarrow> draw (- 1) (h i) = Inr (r i, h (Suc i))"
    and y: "\<And>i. i < n \<Longrightarrow> y i = - drop_bit m (- fv_sum (S0 ! (src + i))) - r i"
    and cs: "\<And>i. i < n \<Longrightarrow> pack (- 1) (cs i) (y i) = Inr (cs (Suc i))"
  shows "trunc_loop (trunc_generate pack draw te) [info] n (inp, cs 0, S0, h 0, G)
    = Inr (inp, cs n, write_regs dst (map (\<lambda>i. [r i, y i]) [0..<n]) S0, h n, G)"
proof -
  have "trunc_generate pack draw te info i (inp, cs i, S, h i, G) = Inr (inp, cs (Suc i), S[dst + i := [r i, y i]], h (Suc i), G)"
    if "i < n" "length S = length S0" "S ! (src + i) = S0 ! (src + i)" for i S
    using that big regs(1,2) D y cs by (simp add: trunc_generate_def reg_at_def reg_set_def word_shr_def)
  then show ?thesis
    unfolding upt_one
    using reg_loop [where mk = "\<lambda>S (cs, h). (inp, cs, S, h, G)" and s = "\<lambda>i. (cs i, h i)" and v = "\<lambda>i. [r i, y i]" and n = n
        and dst = dst and src = src and step = "trunc_generate pack draw te info", OF _ regs] by simp
qed

lemma compute_big:
  fixes S0 :: "'k :: len word rep3 list"
  assumes big: "\<not> small_gap LENGTH('k) te info" "tt_m info = int m" "tt_source_base info = src" "tt_dest_base info = dst"
    and regs: "src + n \<le> length S0" "dst + n \<le> length S0" "regs_apart n src dst"
    and cs: "\<And>i. i < n \<Longrightarrow> unpack (- 1) (cs i) = Inr (y i, cs (Suc i))"
  shows "trunc_loop (trunc_compute pack unpack draw te) [info] n (inp, cs 0, S0)
    = Inr (inp, cs n, write_regs dst (map (\<lambda>i. [y i, drop_bit m (S0 ! (src + i) ! 1)]) [0..<n]) S0)"
proof -
  have "trunc_compute pack unpack draw te info i (inp, cs i, S) = Inr (inp, cs (Suc i), S[dst + i := [y i, drop_bit m (S0 ! (src + i) ! 1)]])"
    if "i < n" "length S = length S0" "S ! (src + i) = S0 ! (src + i)" for i S
    using that big regs(1,2) cs by (simp add: trunc_compute_def reg_at_def reg_set_def word_shr_def)
  then show ?thesis
    unfolding upt_one
    using reg_loop [where mk = "\<lambda>S cs. (inp, cs, S)" and s = cs and v = "\<lambda>i. [y i, drop_bit m (S0 ! (src + i) ! 1)]" and n = n
        and dst = dst and src = src and step = "trunc_compute pack unpack draw te info", OF _ regs] by simp
qed

lemma local_big:
  fixes S0 :: "'k :: len word rep3 list"
  assumes big: "tt_m info = int m" "tt_source_base info = src" "tt_dest_base info = dst"
    and regs: "src + n \<le> length S0" "dst + n \<le> length S0" "regs_apart n src dst"
    and D: "\<And>i. i < n \<Longrightarrow> draw (- 1) (h i) = Inr (r i, h (Suc i))"
  shows "trunc_loop (trunc_local draw) [info] n (S0, h 0)
    = Inr (write_regs dst (map (\<lambda>i. [drop_bit m (S0 ! (src + i) ! 0), r i]) [0..<n]) S0, h n)"
proof -
  have "trunc_local draw info i (S, h i) = Inr (S[dst + i := [drop_bit m (S0 ! (src + i) ! 0), r i]], h (Suc i))"
    if "i < n" "length S = length S0" "S ! (src + i) = S0 ! (src + i)" for i S
    using that big regs(1,2) D by (simp add: trunc_local_def reg_at_def reg_set_def word_shr_def)
  then show ?thesis
    unfolding upt_one
    using reg_loop [where mk = "\<lambda>S h. (S, h)" and s = h and v = "\<lambda>i. [drop_bit m (S0 ! (src + i) ! 0), r i]" and n = n
        and dst = dst and src = src and step = "trunc_local draw info", OF _ regs] by simp
qed

text \<open>One party without loops of its own: what \<open>trunc_pr\<close> does apart from them.\<close>

lemma trunc_pr_big:
  assumes big: "big_gap LENGTH('k) te info" and P: "pl_num P < 3" "pl_count P = 3"
    and B: "replicated_branch E pl (rp_prng0 st, rp_prng1 st) new = Inr (prngs, H0, H1)"
    and gen: "pl_num P = 2 \<Longrightarrow> (\<And>inp. trunc_loop (trunc_generate pack draw te) [info] n (inp, os_empty, S, H0, G) = Inr (inp, cs, S', H0', G'))"
    and com: "pl_num P = 1 \<Longrightarrow> (\<And>inp. trunc_loop (trunc_compute pack unpack draw te) [info] n (inp, os_arrive os_empty (rcv_cs 2), S)
      = Inr (inp, cs', S'))"
    and loc: "pl_num P = 0 \<Longrightarrow> trunc_loop (trunc_local draw) [info] n (S, H1) = Inr (S', H1')"
  shows "\<exists>cs st'. replicated_trunc_pr E pl pack unpack draw dl te P new G rcv_cs rcv_inp rcv_mul [info] n
      (S :: 'k :: len word rep3 list) st = Inr (cs, S', st')"
    and "pl_num P = 2 \<Longrightarrow> \<exists>st'. replicated_trunc_pr E pl pack unpack draw dl te P new G rcv_cs rcv_inp rcv_mul [info] n
      (S :: 'k :: len word rep3 list) st = Inr (cs, S', st')"
proof -
  have ns: "\<not> small_gap LENGTH('k) te info" using big by (simp add: small_gap_def)
  obtain inp :: "'k word rep_input" where inp: "rep_input_new P prngs = Inr inp"
    using rep_input_new_fresh [OF P, of prngs] by blast
  have "pl_num P = 0 \<or> pl_num P = 1 \<or> pl_num P = 2" using P(1) by linarith
  then show "\<exists>cs st'. replicated_trunc_pr E pl pack unpack draw dl te P new G rcv_cs rcv_inp rcv_mul [info] n S st = Inr (cs, S', st')"
    using gen com loc by (auto simp: replicated_trunc_pr_def Let_def P(2) B inp ns big)
  show "\<exists>st'. replicated_trunc_pr E pl pack unpack draw dl te P new G rcv_cs rcv_inp rcv_mul [info] n S st = Inr (cs, S', st')"
    if "pl_num P = 2"
    using gen that by (simp add: replicated_trunc_pr_def Let_def P(2) B inp ns big)
qed

text \<open>
  All three. Whatever the other messages are, party 2 sends its masked summands to party 1, and the
  destination registers hold shares of the truncated pair.
\<close>

lemma all_trunc_big:
  fixes S :: "nat \<Rightarrow> 'k :: len word rep3 list" and c :: "nat \<Rightarrow> octet list" and G :: "nat \<Rightarrow> prng" and dl :: int
    and rcv_inp rcv_mul :: "nat \<Rightarrow> nat \<Rightarrow> octet list"
  assumes D: "shared_source draw linked" and C: "codec (pack (- 1)) (unpack (- 1)) enc (\<lambda>_. True)"
    and big: "big_gap LENGTH('k) te info" "tt_m info = int m" "tt_source_base info = src" "tt_dest_base info = dst"
    and regs: "\<And>i. i < 3 \<Longrightarrow> src + n \<le> length (S i) \<and> dst + n \<le> length (S i)" "regs_apart n src dst"
    and V: "\<And>j. j < n \<Longrightarrow> replicated3 (\<lambda>i. S i ! (src + j)) (x j)"
    and B: "\<And>i. i < 3 \<Longrightarrow> replicated_branch E pl (rp_prng0 (st i), rp_prng1 (st i)) (new i) = Inr (prngs i, H0 i, H1 i)"
    and L: "linked (n + l) (H0 2) (H1 0)" and len: "\<And>z. length (enc z) = w" "n * w < 2 ^ 64"
  defines "run \<equiv> \<lambda>i rcv. replicated_trunc_pr E pl pack unpack draw dl te \<lparr>pl_num = i, pl_count = 3, pl_ctx = c i\<rparr> (new i) (G i) rcv
      (rcv_inp i) (rcv_mul i) [info] n (S i) (st i)"
  shows "\<exists>Z cs. (\<forall>i < 3. length (Z i) = n) \<and> (\<forall>rcv. \<exists>st'. run 2 rcv = Inr (cs, write_regs dst (Z 2) (S 2), st'))
    \<and> (\<forall>i < 2. \<forall>rcv. rcv 2 = os_data cs \<longrightarrow> (\<exists>cs' st'. run i rcv = Inr (cs', write_regs dst (Z i) (S i), st')))
    \<and> (\<forall>j < n. replicated3 (\<lambda>i. Z i ! j) (trunc_pair m (S 0 ! (src + j) ! 0) (fv_sum (S 2 ! (src + j)))))"
proof -
  have ns: "\<not> small_gap LENGTH('k) te info" using big(1) by (simp add: small_gap_def)
  let ?P = "\<lambda>i. \<lparr>pl_num = i, pl_count = 3, pl_ctx = c i\<rparr>"
  obtain r g h where r: "g 0 = H0 2" "h 0 = H1 0" "\<And>i. i < n \<Longrightarrow> draw (- 1) (g i) = Inr (r i, g (Suc i))"
    "\<And>i. i < n \<Longrightarrow> draw (- 1) (h i) = Inr (r i, h (Suc i))"
    using shared_source.linked_family [OF D L, of "- 1"] by blast
  define y where "y = (\<lambda>i. - drop_bit m (- fv_sum (S 2 ! (src + i))) - r i)"
  let ?bs = "concat (map enc (map y [0..<n]))"
  have w: "os_writable os_empty" "os_data os_empty = []" by (simp_all add: os_writable_def os_empty_def os_new_def os_len_def BitBuffer_def)
  obtain cs where cs: "cs 0 = os_empty" "\<And>i. i < n \<Longrightarrow> pack (- 1) (cs i) (y i) = Inr (cs (Suc i))" "os_extends os_empty ?bs (cs n)"
    using pack_family [OF C w(1), of n y] by blast
  have data: "os_data (cs n) = ?bs" using cs(3) w(2) by (simp add: os_extends_def)
  let ?Z = "\<lambda>i :: nat. if i = 2 then map (\<lambda>j. [r j, y j]) [0..<n]
      else if i = 1 then map (\<lambda>j. [y j, drop_bit m (S 1 ! (src + j) ! 1)]) [0..<n]
      else map (\<lambda>j. [drop_bit m (S 0 ! (src + j) ! 0), r j]) [0..<n]"
  have 2: "\<exists>st'. run 2 rcv = Inr (cs n, write_regs dst (?Z 2) (S 2), st')" for rcv
  proof -
    have "trunc_loop (trunc_generate pack draw te) [info] n (inp, os_empty, S 2, H0 2, G 2)
        = Inr (inp, cs n, write_regs dst (?Z 2) (S 2), g n, G 2)" for inp
      using generate_big [where pack = pack and draw = draw and h = g and r = r and y = y and cs = cs, OF ns big(2-4) _ _ regs(2)] regs(1) [of 2] r cs(1,2)
      by (simp add: y_def)
    then show ?thesis
      unfolding run_def by (intro trunc_pr_big(2) [OF big(1)]) (simp_all add: B)
  qed
  have 1: "\<exists>cs' st'. run 1 rcv = Inr (cs', write_regs dst (?Z 1) (S 1), st')" if R: "rcv 2 = os_data (cs n)" for rcv
  proof -
    have "length ?bs = n * w" using len(1) by (simp add: length_concat comp_def sum_list_triv)
    then have "os_ready (os_arrive os_empty (rcv 2))" "os_unread (os_arrive os_empty (rcv 2)) = ?bs"
      using len(2) by (simp_all add: R data)
    then obtain ds where ds: "ds 0 = os_arrive os_empty (rcv 2)" "\<And>i. i < n \<Longrightarrow> unpack (- 1) (ds i) = Inr (y i, ds (Suc i))"
      using unpack_family [OF C, of _ y n] by blast
    then have "trunc_loop (trunc_compute pack unpack draw te) [info] n (inp, os_arrive os_empty (rcv 2), S 1)
        = Inr (inp, ds n, write_regs dst (?Z 1) (S 1))" for inp
      using compute_big [where unpack = unpack and y = y and cs = ds, OF ns big(2-4) _ _ regs(2)] regs(1) [of 1] by simp
    then show ?thesis
      unfolding run_def by (intro trunc_pr_big(1) [OF big(1)]) (simp_all add: B)
  qed
  have 0: "\<exists>cs' st'. run 0 rcv = Inr (cs', write_regs dst (?Z 0) (S 0), st')" for rcv
  proof -
    have "trunc_loop (trunc_local draw) [info] n (S 0, H1 0) = Inr (write_regs dst (?Z 0) (S 0), h n)"
      using local_big [where draw = draw and h = h and r = r, OF big(2-4) _ _ regs(2)] regs(1) [of 0] r by simp
    then show ?thesis
      unfolding run_def by (intro trunc_pr_big(1) [OF big(1)]) (simp_all add: B)
  qed
  have "replicated3 (\<lambda>i. ?Z i ! j) (trunc_pair m (S 0 ! (src + j) ! 0) (fv_sum (S 2 ! (src + j))))" if "j < n" for j
    using V [OF that] that by (simp add: replicated3_iff trunc_pair_def y_def)
  moreover have "\<exists>cs' st'. run i rcv = Inr (cs', write_regs dst (?Z i) (S i), st')" if "i < 2" "rcv 2 = os_data (cs n)" for i rcv
  proof -
    have "i = 0 \<or> i = 1" using that(1) by linarith
    then show ?thesis using 0 1 [where rcv = rcv, OF that(2)] by blast
  qed
  moreover have "\<forall>i < 3. length (?Z i) = n" by simp
  ultimately show ?thesis using 2 by (intro exI [of _ ?Z] exI [of _ "cs n"] conjI) blast+
qed

end
