(* ===== verification/Rep3Open.thy ===== *)
theory Rep3Open
  imports Rep3Run
begin

section \<open>Opening replicated shares (Protocols/ReplicatedMC, Protocols/MaliciousRepMC)\<close>

text \<open>
  Every party sends its first summand to the previous party, who has the two others. Against a party that
  sends wrong summands, \<open>HashMaliciousRepMC\<close> hashes what was opened and compares the hashes;
  \<open>CommMaliciousRepMC\<close> compares what both other parties say. \<open>H\<close> is the hash function of libsodium; the
  context of a hash is what it has been fed. The lemmas at the end show what the check establishes when one
  party sends whatever it wants.
\<close>

subsection \<open>ReplicatedMC\<close>

text \<open>\<open>rm_base\<close> is the object's part of class \<open>MAC_Check_Base\<close>.\<close>

record 'a rep_mc =
  rm_base :: "('a rep3, 'a) mac_check"
  rm_o :: octet_stream
  rm_to_send :: octet_stream

definition rep_mc_new :: "('a rep3, 'a) mac_check \<Rightarrow> 'a rep_mc" where
  "rep_mc_new base = \<lparr>rm_base = base, rm_o = os_empty, rm_to_send = os_empty\<rparr>"

text \<open>\<open>sz\<close> is the size of an element.\<close>

definition rep_mc_prepare ::
  "(octet_stream \<Rightarrow> 'a \<Rightarrow> octet_stream result) \<Rightarrow> nat \<Rightarrow> 'a rep3 list \<Rightarrow> 'a rep_mc \<Rightarrow> 'a rep_mc result" where
  "rep_mc_prepare pack sz S mc =
     (let o' = os_reset_write_head (rm_o mc);
          to_send = os_reserve (length S * sz) (os_reset_write_head (rm_to_send mc))
      in bind_result (foldM_result (\<lambda>x os. pack os (x ! 0)) S to_send) (\<lambda>to_send.
           Inr (mc\<lparr>rm_o := o', rm_to_send := to_send,
             rm_base := (rm_base mc)\<lparr>mc_values_opened := mc_values_opened (rm_base mc) + length S\<rparr>\<rparr>)))"

fun rep_mc_sums ::
  "(octet_stream \<Rightarrow> ('a :: comm_ring_1 \<times> octet_stream) result) \<Rightarrow> 'a rep3 list \<Rightarrow> octet_stream \<Rightarrow> ('a list \<times> octet_stream) result" where
  "rep_mc_sums unpack [] os = Inr ([], os)"
| "rep_mc_sums unpack (s # S) os =
     bind_result (unpack os) (\<lambda>(tmp, os).
     bind_result (rep_mc_sums unpack S os) (\<lambda>(values, os). Inr ((fv_sum s + tmp) # values, os)))"

definition rep_mc_finalize ::
  "(octet_stream \<Rightarrow> ('a :: comm_ring_1 \<times> octet_stream) result) \<Rightarrow> 'a rep3 list \<Rightarrow> 'a rep_mc \<Rightarrow> ('a list \<times> 'a rep_mc) result" where
  "rep_mc_finalize unpack S mc = bind_result (rep_mc_sums unpack S (rm_o mc)) (\<lambda>(values, os). Inr (values, mc\<lparr>rm_o := os\<rparr>))"

definition rep_mc_POpen ::
  "(octet_stream \<Rightarrow> 'a \<Rightarrow> octet_stream result) \<Rightarrow> (octet_stream \<Rightarrow> ('a :: comm_ring_1 \<times> octet_stream) result) \<Rightarrow> nat
    \<Rightarrow> player \<Rightarrow> (nat \<Rightarrow> octet list) \<Rightarrow> 'a rep3 list \<Rightarrow> 'a rep_mc \<Rightarrow> ('a list \<times> 'a rep_mc) result" where
  "rep_mc_POpen pack unpack sz P rcv S mc =
     bind_result (rep_mc_prepare pack sz S mc) (\<lambda>mc.
     bind_result (pass_around P rcv (rm_to_send mc) (rm_o mc) (- 1)) (\<lambda>o'.
       rep_mc_finalize unpack S (mc\<lparr>rm_o := o'\<rparr>)))"

definition rep_mc_POpen_Begin ::
  "(octet_stream \<Rightarrow> 'a \<Rightarrow> octet_stream result) \<Rightarrow> nat \<Rightarrow> player \<Rightarrow> 'a rep3 list \<Rightarrow> 'a rep_mc
    \<Rightarrow> ((nat \<times> octet_stream) \<times> 'a rep_mc) result" where
  "rep_mc_POpen_Begin pack sz P S mc =
     bind_result (rep_mc_prepare pack sz S mc) (\<lambda>mc. Inr (send_relative_one P (- 1) (rm_to_send mc), mc))"

definition rep_mc_POpen_End ::
  "(octet_stream \<Rightarrow> ('a :: comm_ring_1 \<times> octet_stream) result) \<Rightarrow> player \<Rightarrow> (nat \<Rightarrow> octet list) \<Rightarrow> 'a rep3 list \<Rightarrow> 'a rep_mc
    \<Rightarrow> ('a list \<times> 'a rep_mc) result" where
  "rep_mc_POpen_End unpack P rcv S mc = rep_mc_finalize unpack S (mc\<lparr>rm_o := receive_relative_one P rcv 1 (rm_o mc)\<rparr>)"

definition rep_mc_exchange ::
  "(octet_stream \<Rightarrow> 'a \<Rightarrow> octet_stream result) \<Rightarrow> nat \<Rightarrow> player \<Rightarrow> (nat \<Rightarrow> octet list) \<Rightarrow> 'a rep_mc \<Rightarrow> 'a rep_mc result" where
  "rep_mc_exchange pack sz P rcv mc =
     bind_result (rep_mc_prepare pack sz (pv_data (mc_secrets (rm_base mc))) mc) (\<lambda>mc.
     bind_result (pass_around P rcv (rm_to_send mc) (rm_o mc) (- 1)) (\<lambda>o'. Inr (mc\<lparr>rm_o := o'\<rparr>)))"

definition rep_mc_finalize_raw ::
  "(octet_stream \<Rightarrow> ('a :: comm_ring_1 \<times> octet_stream) result) \<Rightarrow> 'a rep_mc \<Rightarrow> ('a \<times> 'a rep_mc) result" where
  "rep_mc_finalize_raw unpack mc =
     bind_result (pv_next (mc_secrets (rm_base mc))) (\<lambda>(s, v).
     bind_result (unpack (rm_o mc)) (\<lambda>(t, os).
       Inr (fv_sum s + t, mc\<lparr>rm_base := (rm_base mc)\<lparr>mc_secrets := v\<rparr>, rm_o := os\<rparr>)))"

subsection \<open>HashMaliciousRepMC\<close>

record 'a hash_mc = "'a rep_mc" +
  hm_hash :: "octet list"
  hm_os :: octet_stream
  hm_needs_checking :: bool

definition hash_mc_reset :: "'a hash_mc \<Rightarrow> 'a hash_mc" where
  "hash_mc_reset mc = mc\<lparr>hm_hash := [], hm_needs_checking := False\<rparr>"

definition hash_mc_new :: "('a rep3, 'a) mac_check \<Rightarrow> 'a hash_mc" where
  "hash_mc_new base = hash_mc_reset (rep_mc.extend (rep_mc_new base) \<lparr>hm_hash = [], hm_os = os_empty, hm_needs_checking = False\<rparr>)"

text \<open>The destructor ends the program when a check is missing.\<close>

definition hash_mc_destroy :: "'a hash_mc \<Rightarrow> unit result" where
  "hash_mc_destroy mc = (if hm_needs_checking mc then Inl process_exit else Inr ())"

definition hash_mc_update :: "'a hash_mc \<Rightarrow> 'a hash_mc result" where
  "hash_mc_update mc =
     bind_result (os_get_data (hm_os mc)) (\<lambda>bs. Inr (mc\<lparr>hm_hash := hm_hash mc @ bs, hm_needs_checking := True\<rparr>))"

definition hash_mc_finalize ::
  "(octet_stream \<Rightarrow> 'a \<Rightarrow> octet_stream result) \<Rightarrow> nat \<Rightarrow> 'a list \<Rightarrow> 'a hash_mc \<Rightarrow> 'a hash_mc result" where
  "hash_mc_finalize pack sz values mc =
     bind_result (os_store_all pack (os_reserve (length values * sz) (os_reset_write_head (hm_os mc))) values) (\<lambda>os.
       hash_mc_update (mc\<lparr>hm_os := os\<rparr>))"

text \<open>The inherited part is opened by \<open>ReplicatedMC\<close>.\<close>

definition hash_mc_with :: "'a hash_mc \<Rightarrow> 'a rep_mc \<Rightarrow> 'a hash_mc" where
  "hash_mc_with mc b = rep_mc.extend b \<lparr>hm_hash = hm_hash mc, hm_os = hm_os mc, hm_needs_checking = hm_needs_checking mc\<rparr>"

definition hash_mc_POpen ::
  "(octet_stream \<Rightarrow> 'a \<Rightarrow> octet_stream result) \<Rightarrow> (octet_stream \<Rightarrow> ('a :: comm_ring_1 \<times> octet_stream) result) \<Rightarrow> nat
    \<Rightarrow> player \<Rightarrow> (nat \<Rightarrow> octet list) \<Rightarrow> 'a rep3 list \<Rightarrow> 'a hash_mc \<Rightarrow> ('a list \<times> 'a hash_mc) result" where
  "hash_mc_POpen pack unpack sz P rcv S mc =
     bind_result (rep_mc_POpen pack unpack sz P rcv S (rep_mc.truncate mc)) (\<lambda>(values, b).
     bind_result (hash_mc_finalize pack sz values (hash_mc_with mc b)) (\<lambda>mc. Inr (values, mc)))"

definition hash_mc_POpen_End ::
  "(octet_stream \<Rightarrow> 'a \<Rightarrow> octet_stream result) \<Rightarrow> (octet_stream \<Rightarrow> ('a :: comm_ring_1 \<times> octet_stream) result) \<Rightarrow> nat
    \<Rightarrow> player \<Rightarrow> (nat \<Rightarrow> octet list) \<Rightarrow> 'a rep3 list \<Rightarrow> 'a hash_mc \<Rightarrow> ('a list \<times> 'a hash_mc) result" where
  "hash_mc_POpen_End pack unpack sz P rcv S mc =
     bind_result (rep_mc_POpen_End unpack P rcv S (rep_mc.truncate mc)) (\<lambda>(values, b).
     bind_result (hash_mc_finalize pack sz values (hash_mc_with mc b)) (\<lambda>mc. Inr (values, mc)))"

definition hash_mc_finalize_raw ::
  "(octet_stream \<Rightarrow> 'a \<Rightarrow> octet_stream result) \<Rightarrow> (octet_stream \<Rightarrow> ('a :: comm_ring_1 \<times> octet_stream) result)
    \<Rightarrow> 'a hash_mc \<Rightarrow> ('a \<times> 'a hash_mc) result" where
  "hash_mc_finalize_raw pack unpack mc =
     bind_result (rep_mc_finalize_raw unpack (rep_mc.truncate mc)) (\<lambda>(res, b).
     bind_result (pack (os_reset_write_head (hm_os mc)) res) (\<lambda>os.
     bind_result (hash_mc_update ((hash_mc_with mc b)\<lparr>hm_os := os\<rparr>)) (\<lambda>mc. Inr (res, mc))))"

text \<open>The parties' hashes of everything opened since the last check.\<close>

definition hash_mc_Check ::
  "(octet list \<Rightarrow> octet list) \<Rightarrow> player \<Rightarrow> (nat \<Rightarrow> octet list) \<Rightarrow> 'a hash_mc \<Rightarrow> ('a hash_mc \<times> player) result" where
  "hash_mc_Check H P rcv mc =
     (if hm_needs_checking mc then
        bind_result (Broadcast_Receive P rcv (own_slot P (os_of_bytes (H (hm_hash mc))))) (\<lambda>(os, P).
          if list_all (\<lambda>i. os_equals (os ! i) (os ! pl_num P)) [0..<pl_count P] then Inr (hash_mc_reset mc, P)
          else Inl mac_fail)
      else Inr (mc, P))"

text \<open>The three summands of every share, numbered alike by all parties: the third follows from the value.\<close>

definition check_summands :: "nat \<Rightarrow> 'a :: comm_ring_1 \<Rightarrow> 'a rep3 \<Rightarrow> 'a list" where
  "check_summands my_num value share =
     map (\<lambda>i. let j = (i + my_num) mod 3 in if j < 2 then share ! j else value - fv_sum share) [0..<3]"

definition hash_mc_CheckFor ::
  "(octet_stream \<Rightarrow> 'a \<Rightarrow> octet_stream result) \<Rightarrow> (octet list \<Rightarrow> octet list) \<Rightarrow> player \<Rightarrow> (nat \<Rightarrow> octet list)
    \<Rightarrow> 'a :: comm_ring_1 \<Rightarrow> 'a rep3 list \<Rightarrow> 'a hash_mc \<Rightarrow> ('a hash_mc \<times> player) result" where
  "hash_mc_CheckFor pack H P rcv value check_shares mc =
     bind_result (foldM_result (\<lambda>share os. os_store_all pack os (check_summands (pl_num P) value share)) check_shares
         (os_reset_write_head (hm_os mc))) (\<lambda>os.
     bind_result (hash_mc_update (mc\<lparr>hm_os := os\<rparr>)) (hash_mc_Check H P rcv))"

subsection \<open>CommMaliciousRepMC\<close>

text \<open>Both summands are sent, each to the party that lacks it; \<open>os ! 0\<close> and \<open>os ! 1\<close> are the two streams.\<close>

definition comm_mc_POpen_Begin ::
  "(octet_stream \<Rightarrow> 'a \<Rightarrow> octet_stream result) \<Rightarrow> player \<Rightarrow> (nat \<Rightarrow> octet list) \<Rightarrow> 'a rep3 list
    \<Rightarrow> octet_stream \<times> octet_stream \<Rightarrow> (octet_stream \<times> octet_stream) result" where
  "comm_mc_POpen_Begin pack P rcv S oss =
     bind_result (foldM_result (\<lambda>x (os0, os1).
         bind_result (pack os1 (x ! 0)) (\<lambda>os1. bind_result (pack os0 (x ! 1)) (\<lambda>os0. Inr (os0, os1)))) S
         (os_reset_write_head (fst oss), os_reset_write_head (snd oss))) (\<lambda>(os0, os1).
     bind_result (pass_around P rcv os0 os0 1) (\<lambda>os0.
     bind_result (pass_around P rcv os1 os1 2) (\<lambda>os1. Inr (os0, os1))))"

definition comm_mc_POpen_End ::
  "(octet_stream \<Rightarrow> ('a :: comm_ring_1 \<times> octet_stream) result) \<Rightarrow> 'a rep3 list \<Rightarrow> octet_stream \<times> octet_stream
    \<Rightarrow> ('a list \<times> octet_stream) result" where
  "comm_mc_POpen_End unpack S oss =
     (if \<not> os_equals (fst oss) (snd oss) then Inl mac_fail else rep_mc_sums unpack S (fst oss))"

definition comm_mc_POpen ::
  "(octet_stream \<Rightarrow> 'a \<Rightarrow> octet_stream result) \<Rightarrow> (octet_stream \<Rightarrow> ('a :: comm_ring_1 \<times> octet_stream) result) \<Rightarrow> player
    \<Rightarrow> (nat \<Rightarrow> octet list) \<Rightarrow> 'a rep3 list \<Rightarrow> octet_stream \<times> octet_stream \<Rightarrow> ('a list \<times> octet_stream) result" where
  "comm_mc_POpen pack unpack P rcv S oss =
     bind_result (comm_mc_POpen_Begin pack P rcv S oss) (comm_mc_POpen_End unpack S)"

subsection \<open>What is opened\<close>

text \<open>What a party sends when it opens \<open>S\<close>.\<close>

definition rep_open_message :: "('a \<Rightarrow> octet list) \<Rightarrow> 'a rep3 list \<Rightarrow> octet list" where
  "rep_open_message enc S = concat (map (\<lambda>s. enc (s ! 0)) S)"

lemma pack_first_extends:
  assumes C: "codec pack unpack enc (\<lambda>_. True)"
  shows "os_writable os \<Longrightarrow> \<exists>os'. foldM_result (\<lambda>x os. pack os (x ! 0)) S os = Inr os' \<and> os_extends os (rep_open_message enc S) os'"
proof (induction S arbitrary: os)
  case (Cons s S)
  obtain os1 where 1: "pack os (s ! 0) = Inr os1" "os_extends os (enc (s ! 0)) os1"
    using codec.pack_extends [OF C] Cons.prems by blast
  obtain os2 where "foldM_result (\<lambda>x os. pack os (x ! 0)) S os1 = Inr os2" "os_extends os1 (rep_open_message enc S) os2"
    using Cons.IH [OF os_extends_writable [OF 1(2)]] by blast
  with 1 show ?case by (auto simp: rep_open_message_def intro: os_extends_trans)
qed (simp add: rep_open_message_def os_extends_refl)

lemma os_reserve_writable: "os_writable os \<Longrightarrow> os_writable (os_reserve l os) \<and> os_data (os_reserve l os) = os_data os"
  by (auto simp: os_writable_def os_reserve_def os_resize_precise_def os_len_def Let_def)

lemma os_reset_writable: "os_writable (os_reset_write_head os) \<and> os_data (os_reset_write_head os) = []"
  by (simp add: os_writable_def os_reset_write_head_def os_reset_read_head_def os_len_def)

lemma rep_mc_prepare_ok:
  assumes C: "codec pack unpack enc (\<lambda>_. True)"
  shows "\<exists>to_send. rep_mc_prepare pack sz S mc = Inr (mc\<lparr>rm_o := os_reset_write_head (rm_o mc), rm_to_send := to_send,
      rm_base := (rm_base mc)\<lparr>mc_values_opened := mc_values_opened (rm_base mc) + length S\<rparr>\<rparr>)
    \<and> os_data to_send = rep_open_message enc S \<and> bb_n (os_wbits to_send) = 0"
proof -
  let ?os = "os_reserve (length S * sz) (os_reset_write_head (rm_to_send mc))"
  have "os_writable ?os" "os_data ?os = []" using os_reset_writable os_reserve_writable by metis+
  from pack_first_extends [OF C this(1), of S] this(2) show ?thesis
    by (auto simp: rep_mc_prepare_def Let_def os_extends_def)
qed

lemma rep_mc_sums_enc:
  assumes C: "codec pack unpack enc (\<lambda>_. True)"
  shows "length S = length ts \<Longrightarrow> os_ready os \<Longrightarrow> os_unread os = concat (map enc ts)
    \<Longrightarrow> \<exists>os'. rep_mc_sums unpack S os = Inr (map2 (\<lambda>s t. fv_sum s + t) S ts, os')"
proof (induction S ts arbitrary: os rule: list_induct2)
  case (Cons s S t ts)
  obtain os1 where 1: "unpack os = Inr (t, os1)" "os_advanced (length (enc t)) os os1"
    using codec.unpack_enc [OF C _ Cons.prems(1), of t "concat (map enc ts)"] Cons.prems(2) by auto
  have "os_ready os1" "os_unread os1 = concat (map enc ts)"
    using os_advanced_ready [OF 1(2) Cons.prems(1)] os_advanced_unread [OF 1(2)] Cons.prems(2) by simp_all
  from Cons.IH [OF this] 1 show ?case by auto
qed simp

text \<open>A party opens the sums of its own summands and the ones it is sent.\<close>

lemma rep_mc_POpen_ok:
  assumes C: "codec pack unpack enc (\<lambda>_. True)" and len: "length S = length ts"
    and R: "rcv (next3 i) = concat (map enc ts)" "length (rcv (next3 i)) < 2 ^ 64" "length (rep_open_message enc S) < 2 ^ 32"
  shows "\<exists>mc'. rep_mc_POpen pack unpack sz \<lparr>pl_num = i, pl_count = 3, pl_ctx = c\<rparr> rcv S mc = Inr (map2 (\<lambda>s t. fv_sum s + t) S ts, mc')"
proof -
  let ?P = "\<lparr>pl_num = i, pl_count = 3, pl_ctx = c\<rparr>"
  obtain mc1 where mc1: "rep_mc_prepare pack sz S mc = Inr mc1" "os_data (rm_to_send mc1) = rep_open_message enc S" "bb_n (os_wbits (rm_to_send mc1)) = 0"
    using rep_mc_prepare_ok [OF C, of sz S mc] by auto
  let ?o = "os_exchanged (rm_to_send mc1) (rm_o mc1) (rcv (next3 i))"
  have "pass_around ?P rcv (rm_to_send mc1) (rm_o mc1) (- 1) = Inr ?o"
    using mc1 R(3) pass_around_ok [of "rm_to_send mc1" ?P rcv "rm_o mc1" "- 1"] by (simp add: os_len_def get_player_three_next)
  moreover obtain os' where "rep_mc_sums unpack S ?o = Inr (map2 (\<lambda>s t. fv_sum s + t) S ts, os')"
    using rep_mc_sums_enc [OF C len, of ?o] R(1,2) by auto
  ultimately show ?thesis
    using mc1(1) by (simp add: rep_mc_POpen_def rep_mc_finalize_def)
qed

text \<open>The values opened when all follow the protocol.\<close>

lemma opened_values:
  assumes "\<And>k. k < m \<Longrightarrow> replicated3 (\<lambda>i. S i ! k) (x k)" "\<And>i. i < 3 \<Longrightarrow> length (S i) = m" "i < 3"
  shows "map2 (\<lambda>s t. fv_sum s + t) (S i) (map (\<lambda>s. s ! 0) (S (next3 i))) = map x [0..<m]"
proof (rule nth_equalityI)
  have n: "next3 i < 3" by (simp add: next3_def)
  show "length (map2 (\<lambda>s t. fv_sum s + t) (S i) (map (\<lambda>s. s ! 0) (S (next3 i)))) = length (map x [0..<m])"
    using assms(2) [OF assms(3)] assms(2) [OF n] by simp
  fix k assume "k < length (map2 (\<lambda>s t. fv_sum s + t) (S i) (map (\<lambda>s. s ! 0) (S (next3 i))))"
  then have "k < m" "k < length (S i)" "k < length (S (next3 i))" using assms(2) [OF assms(3)] assms(2) [OF n] by simp_all
  then show "map2 (\<lambda>s t. fv_sum s + t) (S i) (map (\<lambda>s. s ! 0) (S (next3 i))) ! k = map x [0..<m] ! k"
    using replicated3_sum [OF assms(1) assms(3)] by simp
qed

lemma all_open:
  assumes C: "codec pack unpack enc (\<lambda>_. True)" and V: "\<And>k. k < m \<Longrightarrow> replicated3 (\<lambda>i. S i ! k) (x k)"
    and len: "\<And>i. i < 3 \<Longrightarrow> length (S i) = m" "\<And>z. length (enc z) = w" "m * w < 2 ^ 32" and i: "i < 3"
    and R: "rcv (next3 i) = rep_open_message enc (S (next3 i))"
  shows "\<exists>mc'. rep_mc_POpen pack unpack sz \<lparr>pl_num = i, pl_count = 3, pl_ctx = c\<rparr> rcv (S i) mc = Inr (map x [0..<m], mc')"
proof -
  have n: "next3 i < 3" by (simp add: next3_def)
  have bytes: "length (rep_open_message enc (S j)) = m * w" if "j < 3" for j
    using len(1) [OF that] len(2) by (simp add: rep_open_message_def length_concat comp_def sum_list_triv)
  have "rcv (next3 i) = concat (map enc (map (\<lambda>s. s ! 0) (S (next3 i))))"
    using R by (simp add: rep_open_message_def comp_def)
  from rep_mc_POpen_ok [where rcv = rcv and i = i, OF C _ this, of "S i" sz c mc] show ?thesis
    using len(1) [OF i] len(1) [OF n] bytes [OF i] bytes [OF n] R len(3) opened_values [OF V len(1) i] by simp
qed

subsection \<open>What the check establishes\<close>

text \<open>Encodings are injective: they are read back.\<close>

lemma codec_concat_inject:
  assumes C: "codec pack unpack enc (\<lambda>_. True)" and "length u = length v" "length (concat (map enc u)) < 2 ^ 64"
    and eq: "concat (map enc u) = concat (map enc v)"
  shows "u = v"
proof -
  let ?os = "os_empty\<lparr>os_data := concat (map enc u)\<rparr>"
  have r: "os_ready ?os" "os_unread ?os = concat (map enc u) @ []" "os_unread ?os = concat (map enc v) @ []"
    using assms(3) eq by (simp_all add: os_ready_def os_unread_def os_empty_def os_new_def os_len_def)
  obtain os1 where "os_get_all unpack (length u) ?os = Inr (u, os1)"
    using codec.get_all_enc [OF C _ r(1,2) refl] by (auto simp: list_all_length)
  moreover obtain os2 where "os_get_all unpack (length u) ?os = Inr (v, os2)"
    using codec.get_all_enc [OF C _ r(1,3) assms(2)] by (auto simp: list_all_length)
  ultimately show ?thesis by simp
qed

lemma os_store_all_data:
  assumes C: "codec pack unpack enc (\<lambda>_. True)" and "os_writable os" "os_store_all pack os v = Inr os'"
  shows "os_data os' = os_data os @ concat (map enc v) \<and> bb_n (os_wbits os') = 0"
  using codec.store_all_extends [OF C _ assms(2), of v] assms(3) by (auto simp: os_extends_def list_all_length)

lemma hash_mc_POpen_InrD:
  assumes C: "codec pack unpack enc (\<lambda>_. True)" and "hash_mc_POpen pack unpack sz P rcv S mc = Inr (values, mc')"
  shows "(\<exists>b. rep_mc_POpen pack unpack sz P rcv S (rep_mc.truncate mc) = Inr (values, b))
    \<and> hm_hash mc' = hm_hash mc @ concat (map enc values) \<and> hm_needs_checking mc'"
proof -
  obtain b where b: "rep_mc_POpen pack unpack sz P rcv S (rep_mc.truncate mc) = Inr (values, b)"
    and fin: "hash_mc_finalize pack sz values (hash_mc_with mc b) = Inr mc'"
    using assms(2) by (auto simp: hash_mc_POpen_def bind_result_Inr_iff)
  let ?os = "os_reserve (length values * sz) (os_reset_write_head (hm_os mc))"
  have w: "os_writable ?os" "os_data ?os = []" using os_reset_writable os_reserve_writable by metis+
  have "hm_os (hash_mc_with mc b) = hm_os mc" "hm_hash (hash_mc_with mc b) = hm_hash mc"
    by (simp_all add: hash_mc_with_def rep_mc.defs)
  with fin obtain os where os: "os_store_all pack ?os values = Inr os"
    and "hash_mc_update ((hash_mc_with mc b)\<lparr>hm_os := os\<rparr>) = Inr mc'"
    by (auto simp: hash_mc_finalize_def bind_result_Inr_iff)
  then show ?thesis
    using b os_store_all_data [OF C w(1) os] w(2)
    by (auto simp: hash_mc_update_def os_get_data_def bind_result_Inr_iff hash_mc_with_def rep_mc.defs)
qed

text \<open>A check that passes has compared the own hash with the others'.\<close>

lemma hash_mc_Check_InrD:
  assumes "hash_mc_Check H P rcv mc = Inr res" "hm_needs_checking mc" "pl_num P < pl_count P" "j < pl_count P" "j \<noteq> pl_num P"
  shows "rcv j = H (hm_hash mc)"
proof -
  let ?own = "own_slot P (os_of_bytes (H (hm_hash mc)))"
  obtain os P' where B: "Broadcast_Receive P rcv ?own = Inr (os, P')"
    and eq: "list_all (\<lambda>i. os_equals (os ! i) (os ! pl_num P')) [0..<pl_count P']"
    using assms(1,2) by (auto simp: hash_mc_Check_def bind_result_Inr_iff split: if_splits)
  have D: "os_data (os ! j) = rcv j"
    using Broadcast_Receive_InrD [OF B] assms(3-5) by auto
  have own: "os ! pl_num P = ?own ! pl_num P"
    using B assms(3-5) by (auto simp: Broadcast_Receive_def unchecked_broadcast_def Broadcast_Receive_no_stats_def
        bind_result_Inr_iff Let_def split: if_splits)
  have "os_data (os ! j) = os_data (os ! pl_num P)"
    using eq assms(4) Broadcast_Receive_player [OF B] by (auto simp: list_all_iff os_equals_def split: if_splits)
  moreover have "os_data (?own ! pl_num P) = H (hm_hash mc)"
    using assms(3) by (simp add: own_slot_def)
  ultimately show ?thesis using D own by simp
qed

lemma rep_mc_sums_length: "rep_mc_sums unpack S os = Inr (v, os') \<Longrightarrow> length v = length S"
  by (induction S arbitrary: os v os') (auto simp: bind_result_Inr_iff)

lemma rep_mc_POpen_length: "rep_mc_POpen pack unpack sz P rcv S mc = Inr (v, mc') \<Longrightarrow> length v = length S"
  by (auto simp: rep_mc_POpen_def rep_mc_finalize_def bind_result_Inr_iff dest: rep_mc_sums_length)

lemma hash_mc_new_hash [simp]: "hm_hash (hash_mc_new base) = []"
  by (simp add: hash_mc_new_def hash_mc_reset_def rep_mc.defs)

text \<open>
  Parties \<open>a\<close> and \<open>a + 1\<close> follow the protocol, the third sends whatever it wants. When the check of one passes,
  both have opened the shared values, or two messages with the same hash have been found.
\<close>

lemma open_check_sound:
  assumes C: "codec pack unpack enc (\<lambda>_. True)" and V: "\<And>k. k < m \<Longrightarrow> replicated3 (\<lambda>i. S i ! k) (x k)"
    and len: "\<And>i. i < 3 \<Longrightarrow> length (S i) = m" "\<And>z. length (enc z) = w" "m * w < 2 ^ 32" and a: "a < 3"
    and run: "\<And>j. j \<in> {a, next3 a} \<Longrightarrow> hash_mc_POpen pack unpack sz \<lparr>pl_num = j, pl_count = 3, pl_ctx = c j\<rparr> (rcv j) (S j)
        (hash_mc_new (base j)) = Inr (v j, MC j)"
    and honest: "rcv a (next3 a) = rep_open_message enc (S (next3 a))"
    and check: "hash_mc_Check H \<lparr>pl_num = i, pl_count = 3, pl_ctx = c'\<rparr> rcvc (MC i) = Inr res" "rcvc j = H (hm_hash (MC j))"
    and ij: "{i, j} = {a, next3 a}" "i \<noteq> j"
  shows "v a = map x [0..<m] \<and> (v (next3 a) = map x [0..<m]
    \<or> (\<exists>s t. s \<noteq> t \<and> H s = H t \<and> s = concat (map enc (v (next3 a))) \<and> t = concat (map enc (map x [0..<m]))))"
proof -
  let ?xs = "map x [0..<m]" and ?b = "next3 a"
  have b: "?b < 3" by (simp add: next3_def)
  have ij3: "i < 3" "j < 3" "i \<in> {a, ?b}" "j \<in> {a, ?b}" using ij a b by (auto simp: doubleton_eq_iff)
  note I = hash_mc_POpen_InrD [OF C run]
  obtain mc' where "rep_mc_POpen pack unpack sz \<lparr>pl_num = a, pl_count = 3, pl_ctx = c a\<rparr> (rcv a) (S a)
      (rep_mc.truncate (hash_mc_new (base a))) = Inr (?xs, mc')"
    using all_open [where rcv = "rcv a" and x = x, OF C V len a honest] by blast
  then have va: "v a = ?xs" using I [of a] by auto
  have "length (v ?b) = m"
    using I [of ?b] len(1) [OF b] by (auto dest: rep_mc_POpen_length)
  then have lb: "length (v ?b) = length ?xs" "length (concat (map enc (v ?b))) < 2 ^ 64"
    using len(2,3) by (simp_all add: length_concat comp_def sum_list_triv)
  have h: "hm_hash (MC k) = concat (map enc (v k))" "hm_needs_checking (MC k)" if "k \<in> {a, ?b}" for k
    using I [OF that] by simp_all
  have "rcvc j = H (hm_hash (MC i))"
    using hash_mc_Check_InrD [OF check(1) h(2) [OF ij3(3)], of j] ij(2) ij3 by simp
  then have "H (concat (map enc (v i))) = H (concat (map enc (v j)))"
    using check(2) h(1) [OF ij3(3)] h(1) [OF ij3(4)] by simp
  then have "H (concat (map enc (v ?b))) = H (concat (map enc ?xs))"
    using ij by (auto simp: doubleton_eq_iff va)
  then show ?thesis
    using va codec_concat_inject [OF C lb] by blast
qed

text \<open>When all follow the protocol, the values are opened and the check passes.\<close>

lemma hash_mc_POpen_ok:
  assumes C: "codec pack unpack enc (\<lambda>_. True)" and V: "\<And>k. k < m \<Longrightarrow> replicated3 (\<lambda>i. S i ! k) (x k)"
    and len: "\<And>i. i < 3 \<Longrightarrow> length (S i) = m" "\<And>z. length (enc z) = w" "m * w < 2 ^ 32" and i: "i < 3"
    and R: "rcv (next3 i) = rep_open_message enc (S (next3 i))"
  shows "\<exists>mc'. hash_mc_POpen pack unpack sz \<lparr>pl_num = i, pl_count = 3, pl_ctx = c\<rparr> rcv (S i) mc = Inr (map x [0..<m], mc')"
proof -
  obtain b where b: "rep_mc_POpen pack unpack sz \<lparr>pl_num = i, pl_count = 3, pl_ctx = c\<rparr> rcv (S i) (rep_mc.truncate mc) = Inr (map x [0..<m], b)"
    using all_open [where rcv = rcv and x = x, OF C V len i R] by blast
  let ?os = "os_reserve (length (map x [0..<m]) * sz) (os_reset_write_head (hm_os mc))"
  have w: "os_writable ?os" using os_reset_writable os_reserve_writable by metis
  obtain os' where os': "os_store_all pack ?os (map x [0..<m]) = Inr os'" "os_extends ?os (concat (map enc (map x [0..<m]))) os'"
    using codec.store_all_extends [OF C _ w, of "map x [0..<m]"] by (auto simp: list_all_length)
  then have "bb_n (os_wbits os') = 0" by (simp add: os_extends_def)
  then have "\<exists>mc'. hash_mc_finalize pack sz (map x [0..<m]) (hash_mc_with mc b) = Inr mc'"
    using os'(1) by (simp add: hash_mc_finalize_def hash_mc_update_def os_get_data_def hash_mc_with_def rep_mc.defs)
  then show ?thesis using b by (auto simp: hash_mc_POpen_def)
qed

lemma hash_mc_Check_ok:
  assumes "pl_num P < pl_count P" "length (H (hm_hash mc)) < 2 ^ 32" "\<And>j. j < pl_count P \<Longrightarrow> j \<noteq> pl_num P \<Longrightarrow> rcv j = H (hm_hash mc)"
  shows "\<exists>res. hash_mc_Check H P rcv mc = Inr res"
proof -
  let ?os = "os_of_bytes (H (hm_hash mc))"
  have os: "os_data ?os = H (hm_hash mc)" "bb_n (os_wbits ?os) = 0" by simp_all
  obtain v where v: "Broadcast_Receive P rcv (own_slot P ?os) = Inr (v, P\<lparr>pl_ctx := pl_ctx P @ concat (map os_data v)\<rparr>)"
    "v ! pl_num P = ?os" "\<forall>j < pl_count P. j \<noteq> pl_num P \<longrightarrow> os_data (v ! j) = rcv j \<and> os_ptr (v ! j) = 0"
    using Broadcast_Receive_ok [OF own_slot_simps(1) assms(1) own_slot_bits [OF os(2)], of rcv] os(1) assms(1,2) by (auto simp: os_len_def)
  have "os_data (v ! j) = H (hm_hash mc)" if "j < pl_count P" for j
    using assms(3) [OF that] v(2,3) os(1) that by (cases "j = pl_num P") auto
  then have "list_all (\<lambda>i. os_equals (v ! i) (v ! pl_num P)) [0..<pl_count P]"
    using assms(1) by (simp add: list_all_iff os_equals_def os_len_def)
  then show ?thesis using v(1) by (simp add: hash_mc_Check_def)
qed

end
