(* ===== verification/Spdz.thy ===== *)
theory Spdz
  imports Beaver
begin

section \<open>SPDZ and SPDZ2k: opening, multiplying, checking\<close>

text \<open>
  The properties of the online phase with MACs: what opened values and products are, that the check passes
  on them, and what the check finds otherwise. The first part is the soundness argument, the second an
  example environment for the witnesses.
\<close>

subsection \<open>Soundness of the random combination\<close>

lemma sum_one_coefficient:
  assumes "length hs = m" "length hs' = m" "i < m" "\<forall>j<m. j \<noteq> i \<longrightarrow> hs ! j = hs' ! j"
  shows "(\<Sum>j < m. cv (hs' ! j) * e j :: 'a :: comm_ring_1) = (\<Sum>j < m. cv (hs ! j) * e j) - cv (hs ! i) * e i + cv (hs' ! i) * e i"
proof -
  have "(\<Sum>j \<in> {..<m} - {i}. cv (hs' ! j) * e j) = (\<Sum>j \<in> {..<m} - {i}. cv (hs ! j) * e j)"
    using assms(4) by (intro sum.cong) auto
  then show ?thesis
    using assms(3) by (simp add: sum.remove [of "{..<m}" i])
qed

lemma check_run_lengths: "check_run cv env enc ss ra rb A M hs P mc \<Longrightarrow> length hs = mc_popen_cnt mc"
  by (auto simp: check_run_def dest: length_draws)

subsection \<open>An example environment\<close>

definition ex_hash :: hash where
  "ex_hash bs = replicate 16 (of_nat (length bs))"

definition ex_cipher :: block_cipher where
  "ex_cipher key b = map ((XOR) (key ! 0)) b"

text \<open>The second party contributes the byte \<open>v\<close>.\<close>

definition ex_seeds :: "octet \<Rightarrow> nat \<Rightarrow> octet list" where
  "ex_seeds v i = (if i = 0 then map (keystream ex_cipher (replicate SEED_SIZE 1)) [0..<SEED_SIZE] else replicate SEED_SIZE v)"

definition ex_random :: "nat \<Rightarrow> octet list" where
  "ex_random i = replicate SEED_SIZE 7"

text \<open>Two parties; the coefficients are drawn from the shared generator as bytes.\<close>

definition ex_env_with :: "(prng \<Rightarrow> ('u \<times> prng) result) \<Rightarrow> octet \<Rightarrow> (nat \<Rightarrow> octet list) \<Rightarrow> ('u, 16 word) check_env" where
  "ex_env_with rz v ms = \<lparr>ce_E = ex_cipher, ce_pl = 1, ce_H = ex_hash, ce_entropy = replicate SEED_SIZE 1, ce_G = prng_new [] [] [],
     ce_rnd_seed = ex_random 0, ce_rcvc_seed = comm_msg ex_hash (ex_seeds v) ex_random, ce_rcvo_seed = open_msg (ex_seeds v) ex_random,
     ce_rnd = ex_random 0, ce_rcvc = comm_msg ex_hash ms ex_random, ce_rcvo = open_msg ms ex_random,
     ce_pack = zw_pack, ce_unpack = zw_get, ce_randomize = rz\<rparr>"

definition ex_env :: "octet \<Rightarrow> (nat \<Rightarrow> octet list) \<Rightarrow> (8 word, 16 word) check_env" where
  "ex_env = ex_env_with (prng_get_uchar ex_cipher 1)"

definition ex_player :: player where
  "ex_player = \<lparr>pl_num = 0, pl_count = 2, pl_ctx = []\<rparr>"

definition ex_enc :: "16 word \<Rightarrow> octet list" where
  "ex_enc w = le_bytes (z2_N_BYTES LENGTH(16)) (unat w)"

lemma ex_codec: "codec zw_pack zw_get ex_enc (\<lambda>_. True)"
  unfolding ex_enc_def [abs_def] by (rule zw_codec.codec_axioms)

lemma ex_setup: "(\<And>i. length (ms i) + 20 < 2 ^ 32) \<Longrightarrow> commit_setup ex_hash ms ex_random ex_player"
  by (simp add: commit_setup_def ex_hash_def ex_random_def ex_player_def generichash_BYTES_MIN_def)

lemma ex_seed_honest: "seed_honest (ex_env_with rz v ms) (ex_seeds v) ex_random ex_player"
  using ex_setup [of "ex_seeds v"]
  by (simp add: seed_honest_def ex_env_with_def ex_seeds_def ex_player_def cipher_ok_def ex_cipher_def SEED_SIZE_def AES_BLK_SIZE_def)

lemma ex_final_honest: "(\<And>i. length (ms i) + 20 < 2 ^ 32) \<Longrightarrow> final_honest (ex_env_with rz v ms) ms ex_random ex_player"
  using ex_setup [of ms] by (simp add: final_honest_def ex_env_with_def ex_player_def)

text \<open>The first coefficients drawn.\<close>

definition ex_coefficients :: "octet \<Rightarrow> nat \<Rightarrow> 8 word list" where
  "ex_coefficients v m = map (keystream ex_cipher (seed_xor 2 (ex_seeds v) SEED_SIZE)) [0..<m]"

lemma draws_uchar: "draws (prng_get_uchar E pl) n G = prng_get_uchars E pl n G"
proof (induction n arbitrary: G)
  case (Suc n)
  then show ?case by (cases "prng_get_uchar E pl G") auto
qed simp

lemma length_seed_xor: "(\<And>i. i < n \<Longrightarrow> length (ss i) = len) \<Longrightarrow> length (seed_xor n ss len) = len"
  unfolding seed_xor_def by (induction n) simp_all

lemma ex_draws:
  assumes "m \<le> 16"
  shows "\<exists>G G'. prng_SetSeed (ce_E (ex_env v ms)) (ce_pl (ex_env v ms)) (seed_xor (pl_count ex_player) (ex_seeds v) SEED_SIZE) (ce_G (ex_env v ms)) = Inr G
    \<and> draws (ce_randomize (ex_env v ms)) m G = Inr (ex_coefficients v m, G')"
proof -
  have len: "length (seed_xor 2 (ex_seeds v) SEED_SIZE) = SEED_SIZE" by (rule length_seed_xor) (simp add: ex_seeds_def)
  obtain G where G: "prng_SetSeed ex_cipher 1 (seed_xor 2 (ex_seeds v) SEED_SIZE) (prng_new [] [] []) = Inr G"
    "prng_at ex_cipher 1 (seed_xor 2 (ex_seeds v) SEED_SIZE) 0 G"
    using prng_SetSeed_at [of 1 ex_cipher "seed_xor 2 (ex_seeds v) SEED_SIZE"] len by auto
  have "(0 + m) div 16 + 1 \<le> (2 :: nat) ^ 64" using assms by (cases "m = 16") simp_all
  then obtain G' where "prng_get_uchars ex_cipher 1 m G = Inr (ex_coefficients v m, G')"
    using prng_get_uchars_at [OF _ _ G(2), of m] by (auto simp: ex_cipher_def ex_coefficients_def)
  with G(1) show ?thesis by (auto simp: ex_env_def ex_env_with_def ex_player_def draws_uchar)
qed

lemma ex_coefficient: "ex_coefficients v 1 = [1 XOR v]"
proof -
  have "ex_seeds v 0 ! 0 = 1"
    by (simp add: ex_seeds_def SEED_SIZE_def AES_BLK_SIZE_def keystream_def ex_cipher_def ctr_block_def le_bytes_0 nth_append)
  moreover have "length (ex_seeds v 0) = SEED_SIZE" "length (ex_seeds v 1) = SEED_SIZE" "ex_seeds v 1 ! 0 = v"
    by (simp_all add: ex_seeds_def SEED_SIZE_def AES_BLK_SIZE_def)
  moreover have "[0..<2] = [0, Suc 0]" by (simp add: numeral_2_eq_2)
  ultimately have "seed_xor 2 (ex_seeds v) SEED_SIZE ! 0 = 1 XOR v"
    by (simp add: seed_xor_def SEED_SIZE_def AES_BLK_SIZE_def)
  then show ?thesis
    by (simp add: ex_coefficients_def keystream_def ex_cipher_def ctr_block_def le_bytes_0 nth_append)
qed

text \<open>An example state with one value, the key 5 at the first and 6 at the second party.\<close>

definition ex_state :: "16 word \<Rightarrow> 16 word \<Rightarrow> ('s, 16 word) mac_check" where
  "ex_state val mac = (tree_mac_check_new 5 10 10 0)\<lparr>mc_popen_cnt := 1, mc_vals := [val], mc_macs := [mac]\<rparr>"

definition ex_keys :: "nat \<Rightarrow> 16 word" where
  "ex_keys j = (if j = 0 then 5 else 6)"

definition ex_macs :: "16 word \<Rightarrow> 16 word \<Rightarrow> nat \<Rightarrow> 16 word list" where
  "ex_macs mac mac' j = (if j = 0 then [mac] else [mac'])"

definition ex_finals :: "octet \<Rightarrow> 16 word \<Rightarrow> 16 word \<Rightarrow> 16 word \<Rightarrow> nat \<Rightarrow> octet list" where
  "ex_finals v val mac mac' j =
     ex_enc (mac_share_error ucast (ex_coefficients v 1) 1 (ex_keys j) (ex_macs mac mac' j) [val])"

lemma ex_check_run:
  "check_run ucast (ex_env v (ex_finals v val mac mac')) ex_enc (ex_seeds v) ex_random ex_random ex_keys (ex_macs mac mac')
     (ex_coefficients v 1) ex_player (ex_state val mac)"
proof -
  have final: "final_honest (ex_env v (ex_finals v val mac mac')) (ex_finals v val mac mac') ex_random ex_player"
    unfolding ex_env_def by (rule ex_final_honest) (simp add: ex_finals_def ex_enc_def z2_N_BYTES_def)
  show ?thesis
    unfolding check_run_def
    using ex_codec ex_seed_honest [of "prng_get_uchar ex_cipher 1" v "ex_finals v val mac mac'"] final ex_draws [of 1 v "ex_finals v val mac mac'"]
    by (simp add: mac_check_ready_def ex_state_def tree_mac_check_new_def ex_keys_def ex_macs_def ex_finals_def [abs_def])
      (simp add: ex_env_def ex_env_with_def ex_player_def)
qed

lemma ex_error: "mac_error (pl_count ex_player) ex_keys (ex_macs mac mac') (mc_vals (ex_state val mac)) 0 = mac + mac' - val * 11"
  by (simp add: mac_error_def ex_player_def ex_keys_def ex_macs_def ex_state_def tree_mac_check_new_def numeral_2_eq_2)

text \<open>An example of a round of openings, of two parties with fresh states.\<close>

definition ex_rcv :: "(nat \<Rightarrow> 16 word share list) \<Rightarrow> nat \<times> nat \<Rightarrow> nat \<Rightarrow> octet list" where
  "ex_rcv f ph i = enc_values (\<lambda>_. ex_enc) (replicate (length (f 0)) (- 1)) (tree_partial 10 2 0 (\<lambda>j. map get_share (f j)) i)"

definition ex_rcvb :: "(nat \<Rightarrow> 16 word share list) \<Rightarrow> nat \<Rightarrow> octet list" where
  "ex_rcvb f i = enc_values (\<lambda>_. ex_enc) (replicate (length (f 0)) (- 1)) (tree_total 2 (length (f 0)) (\<lambda>j. map get_share (f j)))"

definition ex_states :: "nat \<Rightarrow> (16 word share, 16 word) mac_check" where
  "ex_states j = tree_mac_check_new (ex_keys j) 10 10 0"

lemma length_ex_enc: "length (enc_values (\<lambda>_. ex_enc) lens vs) = 2 * length vs"
  by (induction vs arbitrary: lens) (simp_all add: ex_enc_def z2_N_BYTES_def)

lemma ex_open_honest:
  assumes "\<And>j. length (f j) = m" "0 < m" "m < 1000" "j < 2"
  shows "open_honest (\<lambda>_. ex_enc) \<lparr>pl_num = j, pl_count = 2, pl_ctx = []\<rparr> f (ex_rcv f) (ex_rcvb f) (ex_states j)"
  using assms
  by (simp add: open_honest_def tree_honest_def ex_states_def tree_mac_check_new_def mac_check_ready_def POPEN_MAX_def
      ex_rcv_def ex_rcvb_def length_ex_enc)

lemma ex_len_codec: "len_codec (\<lambda>_. zw_pack) (\<lambda>_. zw_get) (\<lambda>_. ex_enc)"
  unfolding len_codec_def by (intro allI ex_codec)

lemma ex_states_authentic: "states_authentic 2 ex_keys ex_states"
  by (simp add: states_authentic_def mac_check_ready_def ex_states_def tree_mac_check_new_def)

definition ex_share :: "16 word \<Rightarrow> nat \<Rightarrow> 16 word share" where
  "ex_share x j = share_constant x j (ex_keys j)"

lemma ex_authentic: "authentic 2 ex_keys (ex_share x) x"
  using spdz.holds_const [of 2 ex_keys x] by (simp add: ex_share_def [abs_def])

subsection \<open>Properties\<close>

text \<open>C22: The check of SPDZ2k: when all parties follow it, whatever values and MACs they hold, it passes and clears the
  state exactly when the errors of the values, combined with the coefficients drawn from the shared seed, add up to 0,
  and throws \<open>mac_fail\<close> otherwise.\<close>

theorem z2k_check_decides:
  assumes "check_run cv env enc ss ra rb A M hs P mc"
  shows "\<exists>c. z2k_Check cv True env P mc
    = (if (\<Sum>i < mc_popen_cnt mc. cv (hs ! i) * mac_error (pl_count P) A M (mc_vals mc) i) = 0
       then Inr (mac_check_erase mc, P\<lparr>pl_ctx := c\<rparr>) else Inl mac_fail)"
  by (rule z2k_Check_decides [OF assms])

theorem z2k_check_decides_witness:
  "(\<exists>c. z2k_Check ucast True (ex_env 9 (ex_finals 9 7 40 37)) ex_player (ex_state 7 40 :: (unit, 16 word) mac_check)
      = Inr (mac_check_erase (ex_state 7 40), ex_player\<lparr>pl_ctx := c\<rparr>))
    \<and> z2k_Check ucast True (ex_env 9 (ex_finals 9 7 40 38)) ex_player (ex_state 7 40 :: (unit, 16 word) mac_check) = Inl mac_fail"
proof -
  have cnt: "mc_popen_cnt (ex_state val mac :: (unit, 16 word) mac_check) = 1" for val mac
    by (simp add: ex_state_def tree_mac_check_new_def)
  have "(1 :: octet) XOR 9 = 8" by simp
  then have co: "ex_coefficients 9 1 = [8]" using ex_coefficient [of 9] by (simp only:)
  show ?thesis
    using z2k_check_decides [OF ex_check_run [where 'a = unit], of 9 7 40 37] z2k_check_decides [OF ex_check_run [where 'a = unit], of 9 7 40 38]
    unfolding cnt co by (simp add: ex_error)
qed

text \<open>C23: Soundness of the check of SPDZ2k, with values of \<open>k\<close> bits in a ring that has \<open>k\<close> bits more than the coefficients: if
  the error of a value is not a multiple of \<open>2 ^ (k + 1)\<close>, then of any two runs of the check whose coefficients
  differ in that of this value only, at least one throws \<open>mac_fail\<close>.\<close>

theorem z2k_check_sound:
  fixes env env' :: "('s :: len word, 'w :: len word) check_env"
  assumes "LENGTH('w) = LENGTH('s) + k"
    and "check_run ucast env enc ss ra rb A M hs P mc" "check_run ucast env' enc ss' ra' rb' A M hs' P mc"
    and "i < mc_popen_cnt mc" "hs ! i \<noteq> hs' ! i" "\<forall>j<mc_popen_cnt mc. j \<noteq> i \<longrightarrow> hs ! j = hs' ! j"
    and "\<not> 2 ^ Suc k dvd unat (mac_error (pl_count P) A M (mc_vals mc) i)"
  shows "z2k_Check ucast True env P mc = Inl mac_fail \<or> z2k_Check ucast True env' P mc = Inl mac_fail"
proof -
  let ?e = "mac_error (pl_count P) A M (mc_vals mc)" and ?m = "mc_popen_cnt mc"
  let ?S = "\<lambda>hs. \<Sum>j < ?m. ucast ((hs :: 's word list) ! j) * ?e j"
  have eq: "?S hs' = ?S hs - ucast (hs ! i) * ?e i + ucast (hs' ! i) * ?e i"
    by (rule sum_one_coefficient [OF check_run_lengths [OF assms(2)] check_run_lengths [OF assms(3)] assms(4,6)])
  have "?S hs \<noteq> 0 \<or> ?S hs' \<noteq> 0"
  proof (rule ccontr)
    assume "\<not> (?S hs \<noteq> 0 \<or> ?S hs' \<noteq> 0)"
    then have "ucast (hs ! i) * ?e i + - (ucast (hs ! i) * ?e i) = 0" "ucast (hs' ! i) * ?e i + - (ucast (hs ! i) * ?e i) = 0"
      using eq by (simp_all add: algebra_simps)
    with assms(5,7) coefficient_unique_word [OF assms(1), of "hs ! i" "?e i" _ "hs' ! i"] show False by blast
  qed
  then show ?thesis
    using z2k_Check_decides [OF assms(2)] z2k_Check_decides [OF assms(3)] by auto
qed

theorem z2k_check_sound_witness:
  "z2k_Check ucast True (ex_env 9 (ex_finals 9 7 40 38)) ex_player (ex_state 7 40 :: (unit, 16 word) mac_check) = Inl mac_fail
    \<or> z2k_Check ucast True (ex_env 5 (ex_finals 5 7 40 38)) ex_player (ex_state 7 40 :: (unit, 16 word) mac_check) = Inl mac_fail"
proof (rule z2k_check_sound [OF _ ex_check_run ex_check_run, where k = 8 and i = 0])
  have "(1 :: octet) XOR 9 = 8" "(1 :: octet) XOR 5 = 4" by simp_all
  then have "ex_coefficients 9 1 = [8]" "ex_coefficients 5 1 = [4]"
    using ex_coefficient [of 9] ex_coefficient [of 5] by (simp_all only:)
  then show "ex_coefficients 9 1 ! 0 \<noteq> ex_coefficients 5 1 ! 0" by simp
  have "40 + 38 - 7 * 11 = (1 :: 16 word)" by simp
  then show "\<not> 2 ^ Suc 8 dvd unat (mac_error (pl_count ex_player) ex_keys (ex_macs 40 38) (mc_vals (ex_state 7 40 :: (unit, 16 word) mac_check)) 0)"
    unfolding ex_error by simp
qed (simp_all add: ex_state_def tree_mac_check_new_def)

text \<open>C24: The check of SPDZ: with fewer than ten values every single error is found, with more the check decides on the
  random combination; a failure is the exception \<open>mac_fail\<close>, success clears the state.\<close>

theorem mac_check_decides:
  assumes "sec \<le> len"
    and "if mc_popen_cnt mc < 10 then check_run_each env enc rs A M P mc else check_run id env enc ss ra rb A M hs P mc"
  shows "\<exists>c. mac_check_Check True len sec True env P mc
    = (if (if mc_popen_cnt mc < 10 then \<forall>i < mc_popen_cnt mc. mac_error (pl_count P) A M (mc_vals mc) i = 0
           else (\<Sum>i < mc_popen_cnt mc. hs ! i * mac_error (pl_count P) A M (mc_vals mc) i) = 0)
       then Inr (mac_check_erase mc, P\<lparr>pl_ctx := c\<rparr>) else Inl mac_fail)"
  using assms mac_check_each_decides [of env enc rs A M P mc sec len] mac_check_combined_decides [of env enc ss ra rb A M hs P mc sec len]
  by (cases "mc_popen_cnt mc < 10") simp_all

theorem mac_check_decides_witness:
  "mac_check_Check True 40 40 True
      (ex_env_with (\<lambda>G. Inr (0, G)) 9 (\<lambda>j. concat (map ex_enc (map (\<lambda>i. 7 * ex_keys j - ex_macs 40 38 j ! i) [0..<1]))))
      ex_player (ex_state 7 40 :: (unit, 16 word) mac_check) = Inl mac_fail"
proof -
  let ?mc = "ex_state 7 40 :: (unit, 16 word) mac_check"
  let ?ms = "\<lambda>j. concat (map ex_enc (map (\<lambda>i. 7 * ex_keys j - ex_macs 40 38 j ! i) [0..<1]))"
  have mc: "mc_popen_cnt ?mc = 1" "mc_vals ?mc = [7]" by (simp_all add: ex_state_def tree_mac_check_new_def)
  have "final_honest (ex_env_with (\<lambda>G. Inr (0, G)) 9 ?ms) ?ms ex_random ex_player"
    by (rule ex_final_honest) (simp add: ex_enc_def z2_N_BYTES_def)
  then have "check_run_each (ex_env_with (\<lambda>G. Inr (0, G)) 9 ?ms) ex_enc ex_random ex_keys (ex_macs 40 38) ex_player ?mc"
    using ex_codec by (simp add: check_run_each_def mac_check_ready_def ex_state_def tree_mac_check_new_def)
      (simp add: ex_env_with_def ex_player_def ex_keys_def ex_macs_def)
  then have "if mc_popen_cnt ?mc < 10
      then check_run_each (ex_env_with (\<lambda>G. Inr (0, G)) 9 ?ms) ex_enc ex_random ex_keys (ex_macs 40 38) ex_player ?mc
      else check_run id (ex_env_with (\<lambda>G. Inr (0, G)) 9 ?ms) ex_enc ex_seeds' ex_random ex_random ex_keys (ex_macs 40 38) [] ex_player ?mc"
    for ex_seeds' by (simp add: mc)
  from mac_check_decides [OF order_refl this, of 40]
  obtain c where "mac_check_Check True 40 40 True (ex_env_with (\<lambda>G. Inr (0, G)) 9 ?ms) ex_player ?mc
      = (if \<forall>i < 1. mac_error (pl_count ex_player) ex_keys (ex_macs 40 38) (mc_vals ?mc) i = 0
         then Inr (mac_check_erase ?mc, ex_player\<lparr>pl_ctx := c\<rparr>) else Inl mac_fail)"
    unfolding mc by auto
  moreover have "\<not> (\<forall>i < 1. mac_error (pl_count ex_player) ex_keys (ex_macs 40 38) (mc_vals ?mc) i = 0)"
    using ex_error [where 'a = unit, of 40 38 7] by auto
  ultimately show ?thesis by (simp only: if_False)
qed



text \<open>C26: Beaver multiplication: when all parties are honest, from authentic shares of the factors and authentic triples every
  party obtains its share of every product; the products are authentic, and what is kept for the check has no error.\<close>

theorem beaver_multiply_correct:
  assumes "len_codec pack unpack enc" "0 < n" "states_authentic n A MC" "beaver_inputs n A m X T x y a b"
    and "\<And>j. j < n \<Longrightarrow> open_honest enc \<lparr>pl_num = j, pl_count = n, pl_ctx = c j\<rparr> (\<lambda>j. concat (map2 (masks (-)) (T j) (X j))) rcv rcvb (MC j)"
  shows "\<exists>Z MC'. (\<forall>j<n. \<exists>st'. beaver_multiply (tree_ops True pack unpack rcv rcvb Check) (+) (-) share_mul
        (\<lambda>v. share_constant v j (A j)) dl (T j) (X j) \<lparr>pl_num = j, pl_count = n, pl_ctx = c j\<rparr> (st j) (MC j)
        = Inr (Z j, st', MC' j, \<lparr>pl_num = j, pl_count = n, pl_ctx = c j\<rparr>))
    \<and> (\<forall>k<m. authentic n A (\<lambda>j. Z j ! k) (x k * y k)) \<and> states_authentic n A MC'"
  by (rule beaver_multiply_ok [OF assms])

theorem beaver_multiply_correct_witness:
  "\<exists>f Z MC'. (\<forall>j<2. \<exists>st'. beaver_multiply (tree_ops True (\<lambda>_. zw_pack) (\<lambda>_. zw_get) (ex_rcv f) (ex_rcvb f) (\<lambda>P mc. Inl not_implemented))
        (+) (-) share_mul (\<lambda>v. share_constant v j (ex_keys j)) 1 [(ex_share 2 j, ex_share 3 j, ex_share 6 j)] [(ex_share 5 j, ex_share 7 j)]
        \<lparr>pl_num = j, pl_count = 2, pl_ctx = []\<rparr> beaver_new (ex_states j)
        = Inr (Z j, st', MC' j, \<lparr>pl_num = j, pl_count = 2, pl_ctx = []\<rparr>))
    \<and> authentic 2 ex_keys (\<lambda>j. Z j ! 0) 35"
proof -
  let ?X = "\<lambda>j. [(ex_share 5 j, ex_share 7 j)]" and ?T = "\<lambda>j. [(ex_share 2 j, ex_share 3 j, ex_share 6 j)]"
  let ?f = "\<lambda>j. concat (map2 (masks (-)) (?T j) (?X j))"
  have I: "beaver_inputs 2 ex_keys 1 ?X ?T (\<lambda>_. 5) (\<lambda>_. 7) (\<lambda>_. 2) (\<lambda>_. 3)"
    using ex_authentic by (simp add: beaver_inputs_def)
  define f where "f = ?f"
  have "open_honest (\<lambda>_. ex_enc) \<lparr>pl_num = j, pl_count = 2, pl_ctx = []\<rparr> ?f (ex_rcv f) (ex_rcvb f) (ex_states j)" if "j < 2" for j
    unfolding f_def by (rule ex_open_honest [OF _ _ _ that, where m = 2]) (simp_all add: masks_def)
  from beaver_multiply_correct [OF ex_len_codec zero_less_numeral ex_states_authentic I this, of "\<lambda>P mc. Inl not_implemented" 1 "\<lambda>_. beaver_new"]
  show ?thesis by - (drule meta_mp, assumption, elim exE conjE, intro exI [of _ f] exI conjI, assumption, simp)
qed

end
