(* ===== verification/Rep3.thy ===== *)
theory Rep3
  imports Rep3TruncRun Rep3Open Spdz
begin

section \<open>Replicated secret sharing over rings: the protocols together\<close>

text \<open>
  The locales of the replicated protocols are interpreted on the program's own generators and encoding:
  ring elements read off the key streams of \<open>Tools/random\<close> and packed as by \<open>Math/Z2k\<close>. The properties are
  those of the three parties together, from the seeds that they send each other.
\<close>

subsection \<open>The generators\<close>

text \<open>\<open>T::randomize\<close> of a ring element reads whole bytes, whatever the number of bits asked for.\<close>

definition zw_draw :: "block_cipher \<Rightarrow> nat \<Rightarrow> int \<Rightarrow> prng \<Rightarrow> ('k :: len word \<times> prng) result" where
  "zw_draw E pl n G = bind_result (prng_get_z2 E pl LENGTH('k) G) (\<lambda>(a, G). Inr (z2_word a, G))"

text \<open>Two generators at the same byte of one key stream, with \<open>m\<close> elements of \<open>N\<close> bytes left before the counter ends.\<close>

definition zw_linked :: "block_cipher \<Rightarrow> nat \<Rightarrow> nat \<Rightarrow> nat \<Rightarrow> prng \<Rightarrow> prng \<Rightarrow> bool" where
  "zw_linked E pl N m G H \<longleftrightarrow> cipher_ok E \<and> 0 < pl
     \<and> (\<exists>key k. prng_at E pl key k G \<and> prng_at E pl key k H \<and> (k + m * N) div 16 + pl \<le> 2 ^ 64)"

lemma zw_linked_draw:
  assumes "zw_linked E pl (z2_N_BYTES LENGTH('k)) (Suc m) G H"
  shows "\<exists>(x :: 'k :: len word) G' H'. zw_draw E pl n G = Inr (x, G') \<and> zw_draw E pl n H = Inr (x, H')
    \<and> zw_linked E pl (z2_N_BYTES LENGTH('k)) m G' H'"
proof -
  let ?N = "z2_N_BYTES LENGTH('k)"
  obtain key k where k: "cipher_ok E" "0 < pl" "prng_at E pl key k G" "prng_at E pl key k H" "(k + Suc m * ?N) div 16 + pl \<le> 2 ^ 64"
    using assms by (auto simp: zw_linked_def)
  have E: "length (E key b) = 16" if "length b = 16" for b
    using k(1) that by (simp add: cipher_ok_def AES_BLK_SIZE_def)
  have "(k + ?N) div 16 \<le> (k + Suc m * ?N) div 16" by (intro div_le_mono) simp
  then have b: "(k + ?N) div 16 + pl \<le> 2 ^ 64" using k(5) by linarith
  obtain G' where G': "prng_get_z2 E pl LENGTH('k) G = Inr (keystream_z2 E key LENGTH('k) k, G')" "prng_at E pl key (k + ?N) G'"
    using prng_get_z2_at [OF k(3) E k(2) b] by blast
  obtain H' where H': "prng_get_z2 E pl LENGTH('k) H = Inr (keystream_z2 E key LENGTH('k) k, H')" "prng_at E pl key (k + ?N) H'"
    using prng_get_z2_at [OF k(4) E k(2) b] by blast
  have "zw_linked E pl ?N m G' H'"
    using k(1,2,5) G'(2) H'(2) unfolding zw_linked_def by (auto simp: add.assoc intro!: exI [of _ key] exI [of _ "k + ?N"])
  then show ?thesis using G'(1) H'(1) by (simp add: zw_draw_def)
qed

interpretation rep: shared_source "zw_draw E pl :: int \<Rightarrow> prng \<Rightarrow> ('k :: len word \<times> prng) result"
  "zw_linked E pl (z2_N_BYTES LENGTH('k))" for E pl
  by unfold_locales (rule zw_linked_draw)

text \<open>Generator 0 of every party stands where generator 1 of the next one does.\<close>

definition gens_agree :: "block_cipher \<Rightarrow> nat \<Rightarrow> nat \<Rightarrow> (nat \<Rightarrow> prng \<times> prng) \<Rightarrow> bool" where
  "gens_agree E pl k g \<longleftrightarrow> (\<forall>i < 3. \<exists>key. prng_at E pl key k (fst (g i)) \<and> prng_at E pl key k (snd (g (next3 i))))"

lemma gens_agree_linked:
  "gens_agree E pl k g \<Longrightarrow> cipher_ok E \<Longrightarrow> 0 < pl \<Longrightarrow> (k + m * N) div 16 + pl \<le> 2 ^ 64 \<Longrightarrow> i < 3
    \<Longrightarrow> zw_linked E pl N m (fst (g i)) (snd (g (next3 i)))"
  unfolding gens_agree_def zw_linked_def by blast

lemma prng_InitSeed_seed: "prng_InitSeed E pl G = Inr G' \<Longrightarrow> pr_seed G' = pr_seed G"
  by (auto simp: prng_InitSeed_def prng_hash_def split: if_splits)

text \<open>The set-up: what party \<open>i\<close> sends is what the next one seeds its generator 1 with.\<close>

definition rep3_set_up ::
  "block_cipher \<Rightarrow> nat \<Rightarrow> (nat \<Rightarrow> octet list) \<Rightarrow> (nat \<Rightarrow> octet list) \<Rightarrow> (nat \<Rightarrow> octet_stream) \<Rightarrow> (nat \<Rightarrow> prng \<times> prng) \<Rightarrow> bool" where
  "rep3_set_up E pl c entropy os g \<longleftrightarrow> (\<forall>i < 3. \<exists>G0 G1. replicated_base E pl True \<lparr>pl_num = i, pl_count = 3, pl_ctx = c i\<rparr>
     (entropy i) (\<lambda>j. os_data (os j)) G0 G1 = Inr ((next3 i, os i), g i))"

lemma os_data_append_empty [simp]: "os_data (os_append os_empty bs) = bs"
  using os_append_extends [of os_empty bs] by (simp add: os_extends_def os_writable_def os_empty_def os_new_def os_len_def BitBuffer_def)

lemma os_data_arrive [simp]: "os_data (os_arrive os bs) = bs"
  by (simp add: os_arrive_def os_reset_read_head_def)

lemma modulo_three: "i < 3 \<Longrightarrow> nat (positive_modulo (int i - 1) 3) = prev3 i" "i < 3 \<Longrightarrow> nat (positive_modulo (int i + 1) 3) = next3 i"
  using next3_cases [of i] by (auto simp: positive_modulo_mod)

lemma rep3_set_up_agree:
  assumes "rep3_set_up E pl c entropy os g" "0 < pl" "pl \<le> 256"
  shows "gens_agree E pl 0 g"
proof -
  have one: "prng_at E pl (take SEED_SIZE (entropy i)) 0 (fst (g i)) \<and> os_data (os i) = take SEED_SIZE (entropy i)
      \<and> prng_at E pl (take SEED_SIZE (os_data (os (prev3 i)))) 0 (snd (g i))" if i: "i < 3" for i
  proof -
    let ?P = "\<lparr>pl_num = i, pl_count = 3, pl_ctx = c i\<rparr>"
    obtain G0 G1 where B: "replicated_base E pl True ?P (entropy i) (\<lambda>j. os_data (os j)) G0 G1 = Inr ((next3 i, os i), g i)"
      using assms(1) i by (auto simp: rep3_set_up_def)
    obtain H0 where H0: "prng_ReSeed E pl (entropy i) G0 = Inr H0" "prng_at E pl (take SEED_SIZE (entropy i)) 0 H0"
      using prng_InitSeed_at [OF assms(2,3), of E "G0\<lparr>pr_seed := take SEED_SIZE (entropy i)\<rparr>"] by (auto simp: prng_ReSeed_def)
    have s: "pr_seed H0 = take SEED_SIZE (entropy i)"
      using prng_InitSeed_seed H0(1) by (fastforce simp: prng_ReSeed_def)
    let ?bs = "os_data (os (prev3 i))"
    obtain H1 where H1: "prng_SetSeed E pl ?bs G1 = Inr H1" "prng_at E pl (take SEED_SIZE ?bs) 0 H1"
      using prng_SetSeed_at [OF assms(2,3)] by blast
    have "g i = (H0, H1) \<and> os_data (os i) = take SEED_SIZE (entropy i)"
      using B H0(1) H1(1)
      using os_data_append_empty [of "take SEED_SIZE (entropy i)"]
      by (auto simp: replicated_base_def Let_def s receive_relative_one_def modulo_three [OF i] send_relative_one_def
          simp del: os_data_append_empty split: if_splits)
    then show ?thesis using H0(2) H1(2) by simp
  qed
  show ?thesis
    unfolding gens_agree_def
  proof (intro allI impI)
    fix i :: nat assume i: "i < 3"
    have "next3 i < 3" "prev3 (next3 i) = i" using next3_cases [OF i] by auto
    then show "\<exists>key. prng_at E pl key 0 (fst (g i)) \<and> prng_at E pl key 0 (snd (g (next3 i)))"
      using one [OF i] one [of "next3 i"] by auto
  qed
qed

text \<open>Branching: new generators that agree, and the old ones still do.\<close>

lemma prng_SetSeed_from_at:
  assumes "prng_at E pl key k src" "cipher_ok E" "0 < pl" "pl \<le> 256" "(k + SEED_SIZE) div 16 + pl \<le> 2 ^ 64"
  shows "\<exists>G' src'. prng_SetSeed_from E pl src G = Inr (G', src')
    \<and> prng_at E pl (take SEED_SIZE (map (keystream E key) [k..<k + SEED_SIZE])) 0 G' \<and> prng_at E pl key (k + SEED_SIZE) src'"
proof -
  have E: "length (E key b) = 16" if "length b = 16" for b
    using assms(2) that by (simp add: cipher_ok_def AES_BLK_SIZE_def)
  obtain src' where "prng_get_octets E pl src SEED_SIZE = Inr (map (keystream E key) [k..<k + SEED_SIZE], src')"
    "prng_at E pl key (k + SEED_SIZE) src'"
    using prng_get_octets_at [OF assms(1) E assms(3,5)] by blast
  moreover obtain G' where "prng_SetSeed E pl (map (keystream E key) [k..<k + SEED_SIZE]) G = Inr G'"
    "prng_at E pl (take SEED_SIZE (map (keystream E key) [k..<k + SEED_SIZE])) 0 G'"
    using prng_SetSeed_at [OF assms(3,4)] by blast
  ultimately show ?thesis by (simp add: prng_SetSeed_from_def)
qed

lemma gens_agree_branch:
  assumes A: "gens_agree E pl k g" "cipher_ok E" "0 < pl" "pl \<le> 256" "(k + SEED_SIZE) div 16 + pl \<le> 2 ^ 64"
  shows "\<exists>b H0 H1. (\<forall>i < 3. replicated_branch E pl (g i) (new i) = Inr (b i, H0 i, H1 i))
    \<and> gens_agree E pl 0 b \<and> gens_agree E pl (k + SEED_SIZE) (\<lambda>i. (H0 i, H1 i))"
proof -
  from A(1) have "\<forall>i. \<exists>key. i < 3 \<longrightarrow> prng_at E pl key k (fst (g i)) \<and> prng_at E pl key k (snd (g (next3 i)))"
    unfolding gens_agree_def by blast
  then obtain key where key: "\<And>i. i < 3 \<Longrightarrow> prng_at E pl (key i) k (fst (g i)) \<and> prng_at E pl (key i) k (snd (g (next3 i)))"
    using choice by metis
  let ?s = "\<lambda>i. take SEED_SIZE (map (keystream E (key i)) [k..<k + SEED_SIZE])"
  define N0 where "N0 = (\<lambda>i. projr (prng_SetSeed_from E pl (fst (g i)) (fst (new i))))"
  define N1 where "N1 = (\<lambda>i. projr (prng_SetSeed_from E pl (snd (g i)) (snd (new i))))"
  have 0: "prng_SetSeed_from E pl (fst (g i)) (fst (new i)) = Inr (N0 i) \<and> prng_at E pl (?s i) 0 (fst (N0 i))
      \<and> prng_at E pl (key i) (k + SEED_SIZE) (snd (N0 i))" if "i < 3" for i
    using prng_SetSeed_from_at [OF conjunct1 [OF key [OF that]] A(2-5), of "fst (new i)"] by (auto simp: N0_def)
  have 1: "prng_SetSeed_from E pl (snd (g i)) (snd (new i)) = Inr (N1 i) \<and> prng_at E pl (?s (prev3 i)) 0 (fst (N1 i))
      \<and> prng_at E pl (key (prev3 i)) (k + SEED_SIZE) (snd (N1 i))" if "i < 3" for i
  proof -
    have "prev3 i < 3" "next3 (prev3 i) = i" using next3_cases [OF that] by auto
    with key have "prng_at E pl (key (prev3 i)) k (snd (g i))" by metis
    from prng_SetSeed_from_at [OF this A(2-5), of "snd (new i)"] show ?thesis by (auto simp: N1_def)
  qed
  have run: "replicated_branch E pl (g i) (new i) = Inr ((fst (N0 i), fst (N1 i)), snd (N0 i), snd (N1 i))" if "i < 3" for i
    using 0 [OF that] 1 [OF that] by (simp add: replicated_branch_def replicated_base_from_def split_beta)
  have n: "next3 i < 3 \<and> prev3 (next3 i) = i" if "i < 3" for i using next3_cases [OF that] by auto
  have "gens_agree E pl 0 (\<lambda>i. (fst (N0 i), fst (N1 i)))" "gens_agree E pl (k + SEED_SIZE) (\<lambda>i. (snd (N0 i), snd (N1 i)))"
    unfolding gens_agree_def using 0 1 n by (metis fst_conv snd_conv)+
  then show ?thesis using run by (intro exI [of _ "\<lambda>i. (fst (N0 i), fst (N1 i))"] exI [of _ "\<lambda>i. snd (N0 i)"] exI [of _ "\<lambda>i. snd (N1 i)"]) simp
qed

subsection \<open>Properties\<close>

text \<open>The encoding of ring elements, of a fixed length.\<close>

lemma zw_rep_codec: "codec ((\<lambda>_ :: int. zw_pack) n) ((\<lambda>_ :: int. zw_get) n) (\<lambda>w :: 'k :: len word. le_bytes (z2_N_BYTES LENGTH('k)) (unat w)) (\<lambda>_. True)"
  by (rule zw_codec.codec_axioms)

lemma budget: "m * N < 2 ^ 32 \<Longrightarrow> pl \<le> 256 \<Longrightarrow> k \<le> 2 ^ 32 \<Longrightarrow> (k + m * N) div 16 + pl \<le> (2 :: nat) ^ 64"
proof -
  assume a: "m * N < 2 ^ 32" "pl \<le> 256" "k \<le> 2 ^ 32"
  have "(k + m * N) div 16 \<le> k + m * N" by (rule div_le_dividend)
  with a show ?thesis by simp
qed

lemma set_up_linked:
  assumes "rep3_set_up E pl c entropy os g" "cipher_ok E" "0 < pl" "pl \<le> 256" "m * N < 2 ^ 32"
  shows "parties_linked (zw_linked E pl N) m (\<lambda>i. replicated_new (g i))"
proof -
  have "(0 + m * N) div 16 + pl \<le> 2 ^ 64" by (rule budget) (use assms in simp_all)
  from gens_agree_linked [OF rep3_set_up_agree [OF assms(1,3,4)] assms(2,3) this] show ?thesis
    by (simp add: parties_linked_def replicated_new_def protocol_base.defs)
qed

text \<open>A set-up with any seeds exists.\<close>

lemma rep3_set_up_exists:
  assumes "\<And>i. i < 3 \<Longrightarrow> SEED_SIZE \<le> length (entropy i)" "0 < pl" "pl \<le> 256"
  shows "\<exists>os g. rep3_set_up E pl c entropy os g"
proof -
  define os where "os = (\<lambda>i. os_append os_empty (take SEED_SIZE (entropy i)))"
  have "\<exists>G0 G1 gi. replicated_base E pl True \<lparr>pl_num = i, pl_count = 3, pl_ctx = c i\<rparr> (entropy i) (\<lambda>j. os_data (os j)) G0 G1
      = Inr ((next3 i, os i), gi)" if i: "i < 3" for i
  proof -
    let ?G = "prng_new [] [] []" and ?P = "\<lparr>pl_num = i, pl_count = 3, pl_ctx = c i\<rparr>"
    have p: "prev3 i < 3" by (simp add: prev3_def)
    obtain H0 where H0: "prng_ReSeed E pl (entropy i) ?G = Inr H0"
      using prng_InitSeed_at [OF assms(2,3), of E "?G\<lparr>pr_seed := take SEED_SIZE (entropy i)\<rparr>"] by (auto simp: prng_ReSeed_def)
    have s: "pr_seed H0 = take SEED_SIZE (entropy i)"
      using prng_InitSeed_seed H0 by (fastforce simp: prng_ReSeed_def)
    obtain H1 where H1: "prng_SetSeed E pl (take SEED_SIZE (entropy (prev3 i))) ?G = Inr H1"
      using prng_SetSeed_at [OF assms(2,3)] by blast
    have "replicated_base E pl True ?P (entropy i) (\<lambda>j. os_data (os j)) ?G ?G = Inr ((next3 i, os i), H0, H1)"
      using H0 H1 assms(1) [OF p]
      by (simp add: replicated_base_def Let_def s receive_relative_one_def send_relative_one_def modulo_three [OF i] os_len_def os_def)
    then show ?thesis by blast
  qed
  then have "\<forall>i. \<exists>gi. i < 3 \<longrightarrow> (\<exists>G0 G1. replicated_base E pl True \<lparr>pl_num = i, pl_count = 3, pl_ctx = c i\<rparr> (entropy i)
      (\<lambda>j. os_data (os j)) G0 G1 = Inr ((next3 i, os i), gi))" by blast
  from choice [OF this] show ?thesis unfolding rep3_set_up_def by blast
qed

text \<open>C27: Three parties that set up their pairwise generators by \<open>ReplicatedBase\<close> and multiply any number of pairs of
  shared ring elements in one round (\<open>init_mul\<close>, \<open>prepare_mul\<close>, \<open>exchange\<close>, \<open>finalize_mul\<close> of \<open>Replicated\<close>) all
  succeed and end with replicated shares of the products.\<close>

theorem replicated_multiply_correct:
  fixes X :: "nat \<Rightarrow> ('k :: len word rep3 \<times> 'k word rep3) list"
  assumes "rep3_set_up E pl c entropy os g" "cipher_ok E" "0 < pl" "pl \<le> 256"
    and "\<And>i. i < 3 \<Longrightarrow> length (X i) = m" "m * z2_N_BYTES LENGTH('k) < 2 ^ 32"
    and "\<And>k. k < m \<Longrightarrow> replicated3 (\<lambda>i. fst (X i ! k)) (x k)" "\<And>k. k < m \<Longrightarrow> replicated3 (\<lambda>i. snd (X i ! k)) (y k)"
  shows "\<exists>Z S'. (\<forall>i < 3. rep_multiply (\<lambda>_. zw_pack) (\<lambda>_. zw_get) (zw_draw E pl) dl \<lparr>pl_num = i, pl_count = 3, pl_ctx = c i\<rparr>
        (\<lambda>j. rep_message (\<lambda>_. zw_pack) (zw_draw E pl) (X j) (replicated_new (g j))) (X i) (replicated_new (g i)) = Inr (Z i, S' i))
    \<and> (\<forall>k < m. replicated3 (\<lambda>i. Z i ! k) (x k * y k))"
proof -
  have "parties_linked (zw_linked E pl (z2_N_BYTES LENGTH('k))) (m + 0) (\<lambda>i. replicated_new (g i) :: 'k word replicated)"
    using set_up_linked [OF assms(1-4,6)] by simp
  from rep.all_multiply [where pack = "\<lambda>_. zw_pack" and unpack = "\<lambda>_. zw_get", OF zw_rep_codec this assms(5,7,8) _ assms(6), of dl c]
  show ?thesis by auto
qed

definition ex_rep3 :: "'a :: comm_ring_1 \<Rightarrow> 'a \<Rightarrow> 'a \<Rightarrow> nat \<Rightarrow> 'a rep3" where
  "ex_rep3 a b c i = (if i = 0 then [a, c] else if i = 1 then [b, a] else [c, b])"

lemma ex_rep3_replicated: "replicated3 (ex_rep3 a b c) (a + b + c)"
  by (simp add: replicated3_iff ex_rep3_def)

lemma ex_cipher_ok: "cipher_ok ex_cipher"
  by (simp add: cipher_ok_def ex_cipher_def AES_BLK_SIZE_def)

theorem replicated_multiply_correct_witness:
  "\<exists>os g Z S'. rep3_set_up ex_cipher 8 (\<lambda>_. []) (\<lambda>i. replicate 16 (of_nat i)) os g
    \<and> (\<forall>i < 3. rep_multiply (\<lambda>_. zw_pack) (\<lambda>_. zw_get) (zw_draw ex_cipher 8) 1 \<lparr>pl_num = i, pl_count = 3, pl_ctx = []\<rparr>
        (\<lambda>j. rep_message (\<lambda>_. zw_pack) (zw_draw ex_cipher 8) [(ex_rep3 1 2 3 j, ex_rep3 4 5 (6 :: 64 word) j)] (replicated_new (g j)))
        [(ex_rep3 1 2 3 i, ex_rep3 4 5 6 i)] (replicated_new (g i)) = Inr (Z i, S' i))
    \<and> replicated3 (\<lambda>i. Z i ! 0) (90 :: 64 word)"
proof -
  obtain os g where s: "rep3_set_up ex_cipher 8 (\<lambda>_. []) (\<lambda>i. replicate 16 (of_nat i)) os g"
    using rep3_set_up_exists [of "\<lambda>i. replicate 16 (of_nat i)" 8 ex_cipher "\<lambda>_. []"] by (auto simp: SEED_SIZE_def AES_BLK_SIZE_def)
  have r: "replicated3 (ex_rep3 1 2 3) (6 :: 64 word)" "replicated3 (ex_rep3 4 5 6) (15 :: 64 word)"
    using ex_rep3_replicated [of 1 2 3] ex_rep3_replicated [of 4 5 6] by simp_all
  from replicated_multiply_correct [OF s ex_cipher_ok, where X = "\<lambda>i. [(ex_rep3 1 2 3 i, ex_rep3 4 5 6 i)]" and m = 1
      and x = "\<lambda>_. 6" and y = "\<lambda>_. 15 :: 64 word" and dl = 1] r
  have "\<exists>Z S'. (\<forall>i < 3. rep_multiply (\<lambda>_. zw_pack) (\<lambda>_. zw_get) (zw_draw ex_cipher 8) 1 \<lparr>pl_num = i, pl_count = 3, pl_ctx = []\<rparr>
        (\<lambda>j. rep_message (\<lambda>_. zw_pack) (zw_draw ex_cipher 8) [(ex_rep3 1 2 3 j, ex_rep3 4 5 (6 :: 64 word) j)] (replicated_new (g j)))
        [(ex_rep3 1 2 3 i, ex_rep3 4 5 6 i)] (replicated_new (g i)) = Inr (Z i, S' i))
    \<and> (\<forall>k < 1. replicated3 (\<lambda>i. Z i ! k) (6 * 15 :: 64 word))"
    by (simp add: z2_N_BYTES_def)
  then obtain Z S' where "\<forall>i < 3. rep_multiply (\<lambda>_. zw_pack) (\<lambda>_. zw_get) (zw_draw ex_cipher 8) 1 \<lparr>pl_num = i, pl_count = 3, pl_ctx = []\<rparr>
        (\<lambda>j. rep_message (\<lambda>_. zw_pack) (zw_draw ex_cipher 8) [(ex_rep3 1 2 3 j, ex_rep3 4 5 (6 :: 64 word) j)] (replicated_new (g j)))
        [(ex_rep3 1 2 3 i, ex_rep3 4 5 6 i)] (replicated_new (g i)) = Inr (Z i, S' i)"
    "replicated3 (\<lambda>i. Z i ! 0) (6 * 15 :: 64 word)" by (elim exE conjE) blast
  then show ?thesis using s by (intro exI [of _ os] exI [of _ g] exI [of _ Z] exI [of _ S']) simp
qed

text \<open>C29: Inputs of one party: after the set-up each party branches new generators for its input object
  (\<open>ReplicatedInput\<close>), player \<open>p\<close> adds its values, the others expect them; in one exchange all end with replicated shares of the
  values, of which one is sent and the others are drawn.\<close>

theorem rep_input_correct:
  fixes xs :: "'k :: len word list"
  assumes "rep3_set_up E pl c entropy os g" "cipher_ok E" "0 < pl" "pl \<le> 256" "p < 3"
    and "length xs * z2_N_BYTES LENGTH('k) < 2 ^ 32" "\<And>i. i < 3 \<Longrightarrow> length (ys i) = length xs" "ys p = xs"
  shows "\<exists>b H S Z S'. (\<forall>i < 3. replicated_branch E pl (g i) (new i) = Inr (b i, H i)
        \<and> rep_input_new \<lparr>pl_num = i, pl_count = 3, pl_ctx = c i\<rparr> (b i) = Inr (S i)
        \<and> rep_input_round (\<lambda>_. zw_pack) (\<lambda>_. zw_get) (zw_draw E pl) p
            (\<lambda>j. rep_input_message (\<lambda>_. zw_pack) (zw_draw E pl) p xs (S j)) (ys i) (S i) = Inr (Z i, S' i))
    \<and> (\<forall>k < length xs. replicated3 (\<lambda>i. Z i ! k) (xs ! k))"
proof -
  have "(0 + 1 * SEED_SIZE) div 16 + pl \<le> 2 ^ 64" by (rule budget) (use assms(4) in \<open>simp_all add: SEED_SIZE_def AES_BLK_SIZE_def\<close>)
  then have "(0 + SEED_SIZE) div 16 + pl \<le> 2 ^ 64" by simp
  from gens_agree_branch [OF rep3_set_up_agree [OF assms(1,3,4)] assms(2-4) this, of new]
  obtain b H0 H1 where b: "\<And>i. i < 3 \<Longrightarrow> replicated_branch E pl (g i) (new i) = Inr (b i, H0 i, H1 i)" "gens_agree E pl 0 b" by blast
  have "\<forall>i. \<exists>st. i < 3 \<longrightarrow> rep_input_new \<lparr>pl_num = i, pl_count = 3, pl_ctx = c i\<rparr> (b i) = Inr st \<and> fresh_input i st
      \<and> ri_prng0 st = fst (b i) \<and> ri_prng1 st = snd (b i)"
  proof
    fix i
    show "\<exists>st. i < 3 \<longrightarrow> rep_input_new \<lparr>pl_num = i, pl_count = 3, pl_ctx = c i\<rparr> (b i) = Inr st \<and> fresh_input i st
        \<and> ri_prng0 st = fst (b i) \<and> ri_prng1 st = snd (b i)"
      using rep_input_new_fresh [of "\<lparr>pl_num = i, pl_count = 3, pl_ctx = c i\<rparr>" "b i"] by auto
  qed
  from choice [OF this] obtain S :: "nat \<Rightarrow> 'k word rep_input" where S: "\<And>i. i < 3 \<Longrightarrow>
      rep_input_new \<lparr>pl_num = i, pl_count = 3, pl_ctx = c i\<rparr> (b i) = Inr (S i) \<and> fresh_input i (S i)
      \<and> ri_prng0 (S i) = fst (b i) \<and> ri_prng1 (S i) = snd (b i)" by blast
  have n: "next3 p < 3" by (simp add: next3_def)
  have "(0 + length xs * z2_N_BYTES LENGTH('k)) div 16 + pl \<le> 2 ^ 64" by (rule budget) (use assms(4,6) in simp_all)
  from gens_agree_linked [OF b(2) assms(2,3) this assms(5)]
  have L: "zw_linked E pl (z2_N_BYTES LENGTH('k)) (length xs + 0) (ri_prng0 (S p)) (ri_prng1 (S (next3 p)))"
    using S [OF assms(5)] S [OF n] by simp
  let ?rcv = "\<lambda>j. rep_input_message (\<lambda>_. zw_pack) (zw_draw E pl) p xs (S j)"
  have F: "\<And>i. i < 3 \<Longrightarrow> fresh_input i (S i)" using S by blast
  have "?rcv p = rep_input_message (\<lambda>_. zw_pack) (zw_draw E pl) p xs (S p)" by simp
  then obtain Z S' where "\<forall>i < 3. rep_input_round (\<lambda>_. zw_pack) (\<lambda>_. zw_get) (zw_draw E pl) p ?rcv (ys i) (S i) = Inr (Z i, S' i)"
    "\<forall>k < length xs. replicated3 (\<lambda>i. Z i ! k) (xs ! k)"
    using rep.all_input [where pack = "\<lambda>_. zw_pack" and unpack = "\<lambda>_. zw_get" and S = S and xs = xs and n = 0
        and E = E and pl = pl and ys = ys and rcv = ?rcv, OF zw_rep_codec F assms(5) L _ assms(6-8)] by auto
  then have "\<forall>i < 3. replicated_branch E pl (g i) (new i) = Inr (b i, H0 i, H1 i)
        \<and> rep_input_new \<lparr>pl_num = i, pl_count = 3, pl_ctx = c i\<rparr> (b i) = Inr (S i)
        \<and> rep_input_round (\<lambda>_. zw_pack) (\<lambda>_. zw_get) (zw_draw E pl) p ?rcv (ys i) (S i) = Inr (Z i, S' i)"
    using b(1) S by simp
  with \<open>\<forall>k < length xs. replicated3 (\<lambda>i. Z i ! k) (xs ! k)\<close> show ?thesis
    by (intro exI [of _ b] exI [of _ "\<lambda>i. (H0 i, H1 i)"] exI [of _ S] exI [of _ Z] exI [of _ S'] conjI)
qed

theorem rep_input_correct_witness:
  "\<exists>os g b H S Z S'. rep3_set_up ex_cipher 8 (\<lambda>_. []) (\<lambda>i. replicate 16 (of_nat i)) os g
    \<and> (\<forall>i < 3. replicated_branch ex_cipher 8 (g i) (prng_new [] [] [], prng_new [] [] []) = Inr (b i, H i)
        \<and> rep_input_new \<lparr>pl_num = i, pl_count = 3, pl_ctx = []\<rparr> (b i) = Inr (S i)
        \<and> rep_input_round (\<lambda>_. zw_pack) (\<lambda>_. zw_get) (zw_draw ex_cipher 8) 1
            (\<lambda>j. rep_input_message (\<lambda>_. zw_pack) (zw_draw ex_cipher 8) 1 [41, 42] (S j)) [41, 42] (S i) = Inr (Z i, S' i))
    \<and> replicated3 (\<lambda>i. Z i ! 1) (42 :: 64 word)"
proof -
  obtain os g where s: "rep3_set_up ex_cipher 8 (\<lambda>_. []) (\<lambda>i. replicate 16 (of_nat i)) os g"
    using rep3_set_up_exists [of "\<lambda>i. replicate 16 (of_nat i)" 8 ex_cipher "\<lambda>_. []"] by (auto simp: SEED_SIZE_def AES_BLK_SIZE_def)
  from rep_input_correct [OF s ex_cipher_ok, where p = 1 and xs = "[41, 42 :: 64 word]" and ys = "\<lambda>_. [41, 42]"
      and new = "\<lambda>_. (prng_new [] [] [], prng_new [] [] [])"]
  have "\<exists>b H S Z S'. (\<forall>i < 3. replicated_branch ex_cipher 8 (g i) (prng_new [] [] [], prng_new [] [] []) = Inr (b i, H i)
        \<and> rep_input_new \<lparr>pl_num = i, pl_count = 3, pl_ctx = []\<rparr> (b i) = Inr (S i)
        \<and> rep_input_round (\<lambda>_. zw_pack) (\<lambda>_. zw_get) (zw_draw ex_cipher 8) 1
            (\<lambda>j. rep_input_message (\<lambda>_. zw_pack) (zw_draw ex_cipher 8) 1 [41, 42] (S j)) [41, 42] (S i) = Inr (Z i, S' i))
    \<and> (\<forall>k < length [41, 42 :: 64 word]. replicated3 (\<lambda>i. Z i ! k) ([41, 42 :: 64 word] ! k))"
    by (simp add: z2_N_BYTES_def)
  then obtain b H S Z S' where run: "\<forall>i < 3. replicated_branch ex_cipher 8 (g i) (prng_new [] [] [], prng_new [] [] []) = Inr (b i, H i)
        \<and> rep_input_new \<lparr>pl_num = i, pl_count = 3, pl_ctx = []\<rparr> (b i) = Inr (S i)
        \<and> rep_input_round (\<lambda>_. zw_pack) (\<lambda>_. zw_get) (zw_draw ex_cipher 8) 1
            (\<lambda>j. rep_input_message (\<lambda>_. zw_pack) (zw_draw ex_cipher 8) 1 [41, 42] (S j)) [41, 42] (S i) = Inr (Z i, S' i)"
    and Z: "\<forall>k < length [41, 42 :: 64 word]. replicated3 (\<lambda>i. Z i ! k) ([41, 42 :: 64 word] ! k)" by (elim exE conjE)
  from Z [rule_format, of 1] have "replicated3 (\<lambda>i. Z i ! 1) (42 :: 64 word)" by simp
  with s run show ?thesis
    by (intro exI [of _ os] exI [of _ g] exI [of _ b] exI [of _ H] exI [of _ S] exI [of _ Z] exI [of _ S'] conjI)
qed

text \<open>C28: Opening with \<open>HashMaliciousRepMC\<close>: parties \<open>a\<close> and \<open>a + 1\<close> follow the protocol, the third sends whatever it wants, before
  and in the check. When the check of one of the two passes, \<open>a\<close> has opened the shared values, and so has \<open>a + 1\<close> unless two
  messages with the same hash have been found.\<close>

theorem rep_open_sound:
  fixes S :: "nat \<Rightarrow> 'k :: len word rep3 list"
  defines "enc \<equiv> \<lambda>w :: 'k word. le_bytes (z2_N_BYTES LENGTH('k)) (unat w)"
  assumes "\<And>k. k < m \<Longrightarrow> replicated3 (\<lambda>i. S i ! k) (x k)" "\<And>i. i < 3 \<Longrightarrow> length (S i) = m" "m * z2_N_BYTES LENGTH('k) < 2 ^ 32"
    and "a < 3" "\<And>j. j \<in> {a, next3 a} \<Longrightarrow> hash_mc_POpen zw_pack zw_get sz \<lparr>pl_num = j, pl_count = 3, pl_ctx = c j\<rparr> (rcv j) (S j)
        (hash_mc_new (base j)) = Inr (v j, MC j)"
    and "rcv a (next3 a) = rep_open_message enc (S (next3 a))"
    and "hash_mc_Check H \<lparr>pl_num = i, pl_count = 3, pl_ctx = c'\<rparr> rcvc (MC i) = Inr res" "rcvc j = H (hm_hash (MC j))"
    and "{i, j} = {a, next3 a}" "i \<noteq> j"
  shows "v a = map x [0..<m] \<and> (v (next3 a) = map x [0..<m]
    \<or> (\<exists>s t. s \<noteq> t \<and> H s = H t \<and> s = concat (map enc (v (next3 a))) \<and> t = concat (map enc (map x [0..<m]))))"
  using open_check_sound [where pack = zw_pack and unpack = zw_get and enc = enc and S = S and x = x and m = m and w = "z2_N_BYTES LENGTH('k)",
      OF _ assms(2,3) _ assms(4-11)] zw_codec.codec_axioms
  unfolding enc_def by simp

lemma hash_mc_POpen_hash:
  "hash_mc_POpen zw_pack zw_get sz P rcv S mc = Inr (v, mc')
    \<Longrightarrow> hm_hash mc' = hm_hash mc @ concat (map (\<lambda>w :: 'k :: len word. le_bytes (z2_N_BYTES LENGTH('k)) (unat w)) v)"
  using hash_mc_POpen_InrD [OF zw_codec.codec_axioms] by blast

definition ex_open_rcv :: "nat \<Rightarrow> octet list" where
  "ex_open_rcv i = rep_open_message (\<lambda>w :: 64 word. le_bytes (z2_N_BYTES LENGTH(64)) (unat w)) [ex_rep3 1 2 3 i]"

definition ex_hash_mc :: "64 word hash_mc" where
  "ex_hash_mc = hash_mc_new (tree_mac_check_new 0 10 10 0)"

theorem rep_open_sound_witness:
  "\<exists>v MC res. (\<forall>j \<in> {0, 1}. hash_mc_POpen zw_pack zw_get 8 \<lparr>pl_num = j, pl_count = 3, pl_ctx = []\<rparr> ex_open_rcv [ex_rep3 1 2 3 j] ex_hash_mc
        = Inr (v j, MC j)) \<and> hash_mc_Check (take 32) \<lparr>pl_num = 1, pl_count = 3, pl_ctx = []\<rparr> (\<lambda>j. take 32 (hm_hash (MC 0))) (MC 1) = Inr res
      \<and> v 0 = [6 :: 64 word]"
proof -
  let ?S = "\<lambda>i. [ex_rep3 1 2 (3 :: 64 word) i]" and ?H = "take 32 :: hash"
  have V: "replicated3 (\<lambda>i. ?S i ! k) 6" if "k < 1" for k
    using ex_rep3_replicated [of 1 2 "3 :: 64 word"] that by simp
  have "\<exists>mc'. hash_mc_POpen zw_pack zw_get 8 \<lparr>pl_num = j, pl_count = 3, pl_ctx = []\<rparr> ex_open_rcv (?S j) ex_hash_mc = Inr ([6], mc')"
    if "j < 3" for j
    using hash_mc_POpen_ok [OF zw_codec.codec_axioms, where S = ?S and m = 1 and x = "\<lambda>_. 6" and i = j and w = 8 and rcv = ex_open_rcv] V that
    by (simp add: ex_open_rcv_def z2_N_BYTES_def)
  then obtain MC where MC: "\<And>j. j < 3 \<Longrightarrow>
      hash_mc_POpen zw_pack zw_get 8 \<lparr>pl_num = j, pl_count = 3, pl_ctx = []\<rparr> ex_open_rcv (?S j) ex_hash_mc = Inr ([6], MC j)"
    by metis
  have h: "hm_hash (MC j) = hm_hash (MC 0)" if "j < 3" for j
    using hash_mc_POpen_hash [OF MC [OF that]] hash_mc_POpen_hash [OF MC [of 0]] by simp
  obtain res where res: "hash_mc_Check ?H \<lparr>pl_num = 1, pl_count = 3, pl_ctx = []\<rparr> (\<lambda>j. ?H (hm_hash (MC 0))) (MC 1) = Inr res"
    using hash_mc_Check_ok [of "\<lparr>pl_num = 1, pl_count = 3, pl_ctx = []\<rparr>" ?H "MC 1" "\<lambda>j. ?H (hm_hash (MC 0))"] h [of 1]
    by (auto simp: min_less_iff_disj)
  have "[6 :: 64 word] = map (\<lambda>_. 6) [0..<1]"
    using rep_open_sound [where S = ?S and x = "\<lambda>_. 6" and m = 1 and a = 0 and sz = 8 and c = "\<lambda>_. []" and rcv = "\<lambda>_. ex_open_rcv"
        and base = "\<lambda>_. tree_mac_check_new 0 10 10 0" and v = "\<lambda>_. [6]" and MC = MC and H = ?H and i = 1 and j = 0 and res = res
        and rcvc = "\<lambda>j. ?H (hm_hash (MC 0))" and c' = "[]"] V MC res
    by (auto simp: ex_hash_mc_def ex_open_rcv_def z2_N_BYTES_def)
  then show ?thesis
    using MC res by (intro exI [of _ "\<lambda>_. [6]"] exI [of _ MC] exI [of _ res]) simp
qed

text \<open>C30: Probabilistic truncation with a big gap (\<open>Replicated::trunc_pr\<close>): after the set-up, with what party 2 sends to party 1, all
  parties succeed and the destination registers hold shares of the value shifted to the right by \<open>m\<close> bits, as a signed number
  and up to one in the last place, unless the first summand wraps around with the value; of the values of that summand,
  a share of at most 2 to the minus \<open>trunc_error\<close> does.\<close>

theorem trunc_pr_bounds:
  fixes S :: "nat \<Rightarrow> 'k :: len word rep3 list" and new :: "nat \<Rightarrow> prng \<times> prng" and G :: "nat \<Rightarrow> prng" and dl :: int
    and rcv_inp rcv_mul :: "nat \<Rightarrow> nat \<Rightarrow> octet list"
  assumes "rep3_set_up E pl c entropy os g" "cipher_ok E" "0 < pl" "pl \<le> 256"
    and "trunc_gap_new False LENGTH('k) te dst src k (int m) = Inr info" "big_gap LENGTH('k) te info" "0 \<le> te"
    and "\<And>i. i < 3 \<Longrightarrow> src + n \<le> length (S i) \<and> dst + n \<le> length (S i)" "regs_apart n src dst" "n * z2_N_BYTES LENGTH('k) < 2 ^ 32"
    and "\<And>j. j < n \<Longrightarrow> replicated3 (\<lambda>i. S i ! (src + j)) (x j)" "\<And>j. j < n \<Longrightarrow> \<bar>sint (x j)\<bar> \<le> 2 ^ nat k"
  defines "run \<equiv> \<lambda>i rcv. replicated_trunc_pr E pl (\<lambda>_. zw_pack) (\<lambda>_. zw_get) (zw_draw E pl) dl te
      \<lparr>pl_num = i, pl_count = 3, pl_ctx = c i\<rparr> (new i) (G i) rcv (rcv_inp i) (rcv_mul i) [info] n (S i) (replicated_new (g i))"
    and "fails \<equiv> \<lambda>j u. \<not> (0 \<le> uint u - sint (x j) \<and> uint u - sint (x j) < 2 ^ LENGTH('k))"
  shows "\<exists>Z cs t. (\<forall>i < 3. length (Z i) = n) \<and> (\<forall>rcv. \<exists>st'. run 2 rcv = Inr (cs, write_regs dst (Z 2) (S 2), st'))
    \<and> (\<forall>i < 2. \<forall>rcv. rcv 2 = os_data cs \<longrightarrow> (\<exists>cs' st'. run i rcv = Inr (cs', write_regs dst (Z i) (S i), st')))
    \<and> (\<forall>j < n. replicated3 (\<lambda>i. Z i ! j) (t j)
        \<and> (fails j (S 0 ! (src + j) ! 0) \<or> t j = word_of_int (sint (x j) div 2 ^ m) \<or> t j = word_of_int (sint (x j) div 2 ^ m) + 1)
        \<and> card {u :: 'k word. fails j u} * 2 ^ nat te \<le> 2 ^ LENGTH('k))"
proof -
  have info: "tt_m info = int m" "tt_source_base info = src" "tt_dest_base info = dst" "tt_k info = k" "0 < k"
    using assms(5) by (auto simp: trunc_gap_new_def trunc_tuple_new_def split: if_splits)
  have "(0 + 1 * SEED_SIZE) div 16 + pl \<le> 2 ^ 64" by (rule budget) (use assms(4) in \<open>simp_all add: SEED_SIZE_def AES_BLK_SIZE_def\<close>)
  then have "(0 + SEED_SIZE) div 16 + pl \<le> 2 ^ 64" by simp
  from gens_agree_branch [OF rep3_set_up_agree [OF assms(1,3,4)] assms(2-4) this, of new]
  obtain b H0 H1 where b: "\<And>i. i < 3 \<Longrightarrow> replicated_branch E pl (g i) (new i) = Inr (b i, H0 i, H1 i)"
    "gens_agree E pl (0 + SEED_SIZE) (\<lambda>i. (H0 i, H1 i))" by blast
  have B: "replicated_branch E pl (rp_prng0 (replicated_new (g i) :: 'k word replicated), rp_prng1 (replicated_new (g i) :: 'k word replicated)) (new i)
      = Inr (b i, H0 i, H1 i)" if "i < 3" for i
    using b(1) [OF that] by (simp add: replicated_new_def protocol_base.defs)
  have "(0 + SEED_SIZE + n * z2_N_BYTES LENGTH('k)) div 16 + pl \<le> 2 ^ 64"
    by (rule budget) (use assms(4,10) in \<open>simp_all add: SEED_SIZE_def AES_BLK_SIZE_def\<close>)
  from gens_agree_linked [OF b(2) assms(2,3) this, of 2]
  have L: "zw_linked E pl (z2_N_BYTES LENGTH('k)) (n + 0) (H0 2) (H1 0)" by simp
  have "n * z2_N_BYTES LENGTH('k) < 2 ^ 64" using assms(10) by simp
  from all_trunc_big [where pack = "\<lambda>_. zw_pack" and unpack = "\<lambda>_. zw_get" and st = "\<lambda>i. replicated_new (g i)" and new = new and S = S
      and src = src and dst = dst and x = x and c = c and G = G and dl = dl and rcv_inp = rcv_inp and rcv_mul = rcv_mul,
      OF rep.shared_source_axioms zw_rep_codec assms(6) info(1-3) assms(8,9,11) B L _ this]
  obtain Z cs where Z: "\<forall>i < 3. length (Z i) = n" "\<forall>rcv. \<exists>st'. run 2 rcv = Inr (cs, write_regs dst (Z 2) (S 2), st')"
    "\<forall>i < 2. \<forall>rcv. rcv 2 = os_data cs \<longrightarrow> (\<exists>cs' st'. run i rcv = Inr (cs', write_regs dst (Z i) (S i), st'))"
    "\<forall>j < n. replicated3 (\<lambda>i. Z i ! j) (trunc_pair m (S 0 ! (src + j) ! 0) (fv_sum (S 2 ! (src + j))))"
    by (auto simp: run_def)
  let ?t = "\<lambda>j. trunc_pair m (S 0 ! (src + j) ! 0) (fv_sum (S 2 ! (src + j)))"
  have "fails j (S 0 ! (src + j) ! 0) \<or> ?t j = word_of_int (sint (x j) div 2 ^ m) \<or> ?t j = word_of_int (sint (x j) div 2 ^ m) + 1"
    if "j < n" for j
  proof -
    have "S 0 ! (src + j) ! 0 + fv_sum (S 2 ! (src + j)) = x j"
      using replicated3_sum [OF assms(11) [OF that], of 2] by (simp add: add.commute)
    then show ?thesis
      using trunc_pair_bounds [of "S 0 ! (src + j) ! 0" "fv_sum (S 2 ! (src + j))" m] unfolding fails_def by auto
  qed
  moreover have "card {u :: 'k word. fails j u} * 2 ^ nat te \<le> 2 ^ LENGTH('k)" if "j < n" for j
  proof -
    have e: "nat k + nat te \<le> LENGTH('k)" using assms(6,7) info(4,5) by (simp add: big_gap_def)
    have X: "nat \<bar>sint (x j)\<bar> \<le> 2 ^ nat k" using assms(12) [OF that] by (simp add: nat_le_iff)
    have "(2 :: int) ^ nat k \<le> 2 ^ LENGTH('k)" using e by (intro power_increasing) simp_all
    then have "card {u :: 'k word. fails j u} = nat \<bar>sint (x j)\<bar>"
      unfolding fails_def using order_trans [OF assms(12) [OF that]] by (intro card_trunc_fails) blast
    also have "nat \<bar>sint (x j)\<bar> * 2 ^ nat te \<le> 2 ^ nat k * 2 ^ nat te" using X by simp
    also have "\<dots> \<le> 2 ^ LENGTH('k)" using e by (simp flip: power_add)
    finally show ?thesis by simp
  qed
  ultimately show ?thesis using Z by (intro exI [of _ Z] exI [of _ cs] exI [of _ ?t]) simp
qed

definition ex_trunc_regs :: "nat \<Rightarrow> 64 word rep3 list" where
  "ex_trunc_regs i = [ex_rep3 4096 904 (- 4000) i, ex_rep3 0 0 0 i]"

definition ex_trunc_info :: trunc_tuple where
  "ex_trunc_info = \<lparr>tt_dest_base = 1, tt_source_base = 0, tt_k = 20, tt_m = 3, tt_n_shift = 43\<rparr>"

definition ex_trunc_run :: "(nat \<Rightarrow> prng \<times> prng) \<Rightarrow> nat \<Rightarrow> (nat \<Rightarrow> octet list) \<Rightarrow> (octet_stream \<times> 64 word rep3 list \<times> 64 word replicated) result" where
  "ex_trunc_run g i rcv = replicated_trunc_pr ex_cipher 8 (\<lambda>_. zw_pack) (\<lambda>_. zw_get) (zw_draw ex_cipher 8) 1 40
     \<lparr>pl_num = i, pl_count = 3, pl_ctx = []\<rparr> (prng_new [] [] [], prng_new [] [] []) (prng_new [] [] []) rcv (\<lambda>_. []) (\<lambda>_. [])
     [ex_trunc_info] 1 (ex_trunc_regs i) (replicated_new (g i))"

theorem trunc_pr_bounds_witness:
  "\<exists>os g Z cs t. rep3_set_up ex_cipher 8 (\<lambda>_. []) (\<lambda>i. replicate 16 (of_nat i)) os g
    \<and> (\<forall>rcv. \<exists>st'. ex_trunc_run g 2 rcv = Inr (cs, write_regs 1 (Z 2) (ex_trunc_regs 2), st'))
    \<and> (\<forall>i < 2. \<forall>rcv. rcv 2 = os_data cs \<longrightarrow> (\<exists>cs' st'. ex_trunc_run g i rcv = Inr (cs', write_regs 1 (Z i) (ex_trunc_regs i), st')))
    \<and> replicated3 (\<lambda>i. Z i ! 0) t \<and> (t = 125 \<or> t = 126)"
proof -
  obtain os g where s: "rep3_set_up ex_cipher 8 (\<lambda>_. []) (\<lambda>i. replicate 16 (of_nat i)) os g"
    using rep3_set_up_exists [of "\<lambda>i. replicate 16 (of_nat i)" 8 ex_cipher "\<lambda>_. []"] by (auto simp: SEED_SIZE_def AES_BLK_SIZE_def)
  have info: "trunc_gap_new False LENGTH(64) 40 1 0 20 (int 3) = Inr ex_trunc_info"
    by (simp add: trunc_gap_new_def trunc_tuple_new_def ex_trunc_info_def)
  have big: "big_gap LENGTH(64) 40 ex_trunc_info" by (simp add: big_gap_def ex_trunc_info_def)
  have V: "replicated3 (\<lambda>i. ex_trunc_regs i ! (0 + j)) 1000" if "j < 1" for j
    using ex_rep3_replicated [of 4096 904 "- 4000 :: 64 word"] that by (simp add: ex_trunc_regs_def)
  have x: "sint (1000 :: 64 word) = 1000" by simp
  obtain Z cs t where "\<forall>rcv. \<exists>st'. ex_trunc_run g 2 rcv = Inr (cs, write_regs 1 (Z 2) (ex_trunc_regs 2), st')"
    "\<forall>i < 2. \<forall>rcv. rcv 2 = os_data cs \<longrightarrow> (\<exists>cs' st'. ex_trunc_run g i rcv = Inr (cs', write_regs 1 (Z i) (ex_trunc_regs i), st'))"
    and t: "\<forall>j < 1. replicated3 (\<lambda>i. Z i ! j) (t j)
      \<and> (\<not> (0 \<le> uint (ex_trunc_regs 0 ! (0 + j) ! 0) - 1000 \<and> uint (ex_trunc_regs 0 ! (0 + j) ! 0) - 1000 < 2 ^ LENGTH(64))
        \<or> t j = word_of_int (1000 div 2 ^ 3) \<or> t j = word_of_int (1000 div 2 ^ 3) + 1)"
    using trunc_pr_bounds [OF s ex_cipher_ok _ _ info big, where S = ex_trunc_regs and n = 1 and x = "\<lambda>_. 1000" and dl = 1
        and new = "\<lambda>_. (prng_new [] [] [], prng_new [] [] [])" and G = "\<lambda>_. prng_new [] [] []" and rcv_inp = "\<lambda>_ _. []" and rcv_mul = "\<lambda>_ _. []"] V
    unfolding x ex_trunc_run_def [symmetric]
    by (auto simp: z2_N_BYTES_def ex_trunc_regs_def regs_apart_def)
  moreover from t have "replicated3 (\<lambda>i. Z i ! 0) (t 0)" "t 0 = 125 \<or> t 0 = 126"
    by (auto simp: ex_trunc_regs_def ex_rep3_def)
  ultimately show ?thesis using s by (intro exI [of _ os] exI [of _ g] exI [of _ Z] exI [of _ cs] exI [of _ "t 0"]) simp
qed

end
