(* ===== verification/Waksman.thy ===== *)
theory Waksman
  imports Prelude "HOL-Library.Log_Nat"
begin

section \<open>Permutation networks (Tools/Waksman.h, Tools/Waksman.cpp)\<close>

text \<open>
  A Waksman network of \<open>2 ^ k\<close> inputs consists of a column of switches, two networks of half the size and another
  column of switches. \<open>configure\<close> computes the switches that realise a permutation by walking along the cycles of
  constraints between the columns. An \<open>int\<close> that is \<open>-1\<close> or an index is an option here, \<open>None\<close> stands for \<open>-1\<close>;
  the loops, which need not end on an argument that is no permutation, are partial functions.
\<close>

subsection \<open>The shape of a network\<close>

text \<open>The integer part of the logarithm; a double is precise enough for the numbers of an \<open>int\<close>.\<close>

fun int_log2 :: "nat \<Rightarrow> nat" where
  "int_log2 n = (if n \<le> 1 then 0 else Suc (int_log2 (n div 2)))"

declare int_log2.simps [simp del]

record waksman =
  wk_n_elements :: nat
  wk_nr :: nat

definition waksman_new :: "nat \<Rightarrow> waksman result" where
  "waksman_new n =
     (if n = 0 then Inl undefined_behaviour
      else if n = 2 ^ int_log2 n then Inr \<lparr>wk_n_elements = n, wk_nr = int_log2 n\<rparr> else Inl assertion_failed)"

definition n_rounds :: "waksman \<Rightarrow> nat" where
  "n_rounds w = wk_nr w"

definition matters :: "waksman \<Rightarrow> nat \<Rightarrow> nat \<Rightarrow> bool" where
  "matters w i j = (let block = wk_n_elements w div 2 ^ i in block = 2 \<or> j mod block \<noteq> block div 2)"

definition is_double :: "waksman \<Rightarrow> nat \<Rightarrow> nat \<Rightarrow> bool" where
  "is_double w i j \<longleftrightarrow> i = wk_nr w - 1 \<and> j mod 2 = 1"

definition n_bits :: "waksman \<Rightarrow> nat" where
  "n_bits w = wk_nr w * wk_n_elements w - wk_n_elements w + 1"

subsection \<open>Configuration\<close>

record wk_state =
  wk_I :: "bool list"
  wk_O :: "bool option list"
  wk_p0 :: "nat option list"
  wk_p1 :: "nat option list"

definition wk_start :: "nat \<Rightarrow> wk_state" where
  "wk_start n = \<lparr>wk_I = replicate (n div 2) False, wk_O = replicate (n div 2) None,
     wk_p0 = replicate (n div 2) None, wk_p1 = replicate (n div 2) None\<rparr>"

definition wk_inverse :: "nat list \<Rightarrow> nat list" where
  "wk_inverse perm = foldl (\<lambda>inv i. inv[perm ! i := i]) (replicate (length perm) 0) [0..<length perm]"

text \<open>The other one of a pair: \<open>if (i % 2 == 1) i--; else i++\<close>.\<close>

definition partner :: "nat \<Rightarrow> nat" where
  "partner i = (if i mod 2 = 1 then i - 1 else i + 1)"

text \<open>One round of the inner loop, which returns the next \<open>j\<close>.\<close>

definition wk_visit :: "nat list \<Rightarrow> nat list \<Rightarrow> nat \<Rightarrow> wk_state \<Rightarrow> (nat \<times> wk_state) result" where
  "wk_visit perm inv_perm j st =
     (let m = length perm div 2 in
      if length inv_perm \<le> j then Inl out_of_range else
      let i = inv_perm ! j in
      if m \<le> i div 2 \<or> m \<le> j div 2 then Inl out_of_range else
      let st = st\<lparr>wk_p0 := (wk_p0 st)[i div 2 := Some (j div 2)], wk_I := (wk_I st)[i div 2 := (i mod 2 = 1)],
                  wk_O := (wk_O st)[j div 2 := Some (j mod 2 = 1)]\<rparr>;
          i = partner i in
      if length perm \<le> i then Inl out_of_range else
      Inr (partner (perm ! i), st\<lparr>wk_p1 := (wk_p1 st)[i div 2 := Some (perm ! i div 2)]\<rparr>))"

partial_function (option) wk_cycle :: "nat list \<Rightarrow> nat list \<Rightarrow> nat \<Rightarrow> nat \<Rightarrow> wk_state \<Rightarrow> wk_state result option" where
  "wk_cycle perm inv_perm j0 j st =
     (case wk_visit perm inv_perm j st of
        Inl e \<Rightarrow> Some (Inl e)
      | Inr (j, st) \<Rightarrow> if j = j0 then Some (Inr st) else wk_cycle perm inv_perm j0 j st)"

partial_function (option) wk_loop :: "nat list \<Rightarrow> nat list \<Rightarrow> wk_state \<Rightarrow> wk_state result option" where
  "wk_loop perm inv_perm st =
     (case List.find (\<lambda>k. wk_O st ! k = None) [0..<length (wk_O st)] of
        None \<Rightarrow> Some (Inr st)
      | Some k \<Rightarrow>
          Option.bind (wk_cycle perm inv_perm (2 * k) (2 * k) (st\<lparr>wk_O := (wk_O st)[k := Some False]\<rparr>)) (\<lambda>r.
          case r of
            Inl e \<Rightarrow> Some (Inl e)
          | Inr st \<Rightarrow> if None \<notin> set (wk_p1 st) \<and> None \<notin> set (wk_p0 st) then Some (Inr st)
                      else wk_loop perm inv_perm st))"

text \<open>The rows of the result; a \<open>char\<close> that is \<open>-1\<close> becomes \<open>true\<close>.\<close>

definition wk_rows :: "wk_state \<Rightarrow> bool list list \<Rightarrow> bool list list \<Rightarrow> bool list list" where
  "wk_rows st c0 c1 = (wk_I st @ map (\<lambda>b. b \<noteq> Some False) (wk_O st)) # map2 (@) c0 c1"

text \<open>An index of \<open>-1\<close> or beyond the end in \<open>inv_perm[perm[i]]\<close> is undefined.\<close>

definition wk_indices :: "nat option list \<Rightarrow> nat list result" where
  "wk_indices perm = (if \<forall>x \<in> set perm. case x of None \<Rightarrow> False | Some i \<Rightarrow> i < length perm then Inr (map the perm)
     else Inl undefined_behaviour)"

partial_function (option) waksman_configure :: "nat option list \<Rightarrow> bool list list result option" where
  "waksman_configure perm0 =
     (if length perm0 \<le> 1 then Some (Inl assertion_failed)
      else if length perm0 = 2 then Some (Inr [[perm0 ! 0 = Some 1, perm0 ! 0 = Some 1]])
      else case wk_indices perm0 of
        Inl e \<Rightarrow> Some (Inl e)
      | Inr perm \<Rightarrow>
          Option.bind (wk_loop perm (wk_inverse perm) (wk_start (length perm))) (\<lambda>r. case r of Inl e \<Rightarrow> Some (Inl e) | Inr st \<Rightarrow>
          Option.bind (waksman_configure (wk_p0 st)) (\<lambda>r. case r of Inl e \<Rightarrow> Some (Inl e) | Inr c0 \<Rightarrow>
          Option.bind (waksman_configure (wk_p1 st)) (\<lambda>r. case r of Inl e \<Rightarrow> Some (Inl e) | Inr c1 \<Rightarrow>
          if length c0 \<noteq> length c1 then Some (Inl assertion_failed)
          else case waksman_new (length perm) of
            Inl e \<Rightarrow> Some (Inl e)
          | Inr w \<Rightarrow> if length (wk_rows st c0 c1) = n_rounds w then Some (Inr (wk_rows st c0 c1)) else Some (Inl assertion_failed)))))"

subsection \<open>Cycles\<close>

text \<open>
  A locale for the cycles the configuration walks along: \<open>swp\<close> exchanges partners, \<open>prm\<close> is a permutation with the inverse
  \<open>inv_prm\<close>. One round goes from an output of a switch in the last column to its partner's, back through the
  permutation and over a switch in the first column.
\<close>

locale partner_cycles =
  fixes swp :: "nat \<Rightarrow> nat" and prm inv_prm :: "nat \<Rightarrow> nat" and n :: nat
  assumes swp_swp [simp]: "swp (swp x) = x"
    and swp_neq [simp]: "swp x \<noteq> x"
    and prm_inv [simp]: "prm (inv_prm x) = x"
    and inv_prm [simp]: "inv_prm (prm x) = x"
    and swp_less: "x < n \<Longrightarrow> swp x < n"
    and prm_less: "x < n \<Longrightarrow> prm x < n"
    and inv_less: "x < n \<Longrightarrow> inv_prm x < n"
begin

definition crossing :: "nat \<Rightarrow> nat" where
  "crossing x = prm (swp (inv_prm x))"

definition fwd :: "nat \<Rightarrow> nat" where
  "fwd x = swp (crossing x)"

definition bwd :: "nat \<Rightarrow> nat" where
  "bwd x = crossing (swp x)"

lemma crossing_crossing [simp]: "crossing (crossing x) = x"
  by (simp add: crossing_def)

lemma crossing_neq [simp]: "crossing x \<noteq> x"
  using swp_neq [of "inv_prm x"] by (metis crossing_def inv_prm)

lemma fwd_bwd [simp]: "fwd (bwd x) = x" "bwd (fwd x) = x"
  by (simp_all add: fwd_def bwd_def)

lemma bwd_swp [simp]: "bwd (swp x) = swp (fwd x)" "fwd (swp x) = swp (bwd x)"
  by (simp_all add: fwd_def bwd_def)

lemma swp_fwd: "swp (fwd x) = crossing x"
  by (simp add: fwd_def)

lemma bwd_pow: "(bwd ^^ k) ((fwd ^^ k) x) = x"
  by (induction k arbitrary: x) (simp_all add: funpow_swap1)

lemma bwd_pow_swp: "(bwd ^^ k) (swp x) = swp ((fwd ^^ k) x)"
  by (induction k) simp_all

text \<open>A cycle never meets the partner of one of its elements.\<close>

lemma fwd_pow_neq_swp: "(fwd ^^ k) x \<noteq> swp x"
proof
  assume E: "(fwd ^^ k) x = swp x"
  obtain l where "k = l + l \<or> k = Suc (l + l)"
    by (metis add_Suc_right even_Suc evenE mult_2 oddE Suc_eq_plus1)
  then show False
  proof
    assume k: "k = l + l"
    have "(fwd ^^ l) x = (bwd ^^ l) ((fwd ^^ l) ((fwd ^^ l) x))" by (simp add: bwd_pow)
    also have "\<dots> = (bwd ^^ l) (swp x)" using E by (simp add: k funpow_add)
    finally show False using swp_neq by (metis bwd_pow_swp)
  next
    assume k: "k = Suc (l + l)"
    have "(fwd ^^ Suc l) x = (bwd ^^ l) ((fwd ^^ l) ((fwd ^^ Suc l) x))" by (simp only: bwd_pow)
    also have "(fwd ^^ l) ((fwd ^^ Suc l) x) = (fwd ^^ k) x" unfolding k by (metis add_Suc_right comp_apply funpow_add)
    also have "(bwd ^^ l) \<dots> = swp ((fwd ^^ l) x)" by (simp only: E bwd_pow_swp)
    finally have "swp (fwd ((fwd ^^ l) x)) = swp (swp ((fwd ^^ l) x))" by simp
    then show False by (simp only: swp_fwd swp_swp crossing_neq)
  qed
qed

lemma fwd_less: "x < n \<Longrightarrow> fwd x < n"
  by (simp add: fwd_def crossing_def swp_less prm_less inv_less)

lemma fwd_pow_less: "x < n \<Longrightarrow> (fwd ^^ k) x < n"
  by (induction k) (simp_all add: fwd_less)

lemma inj_fwd: "inj fwd"
  by (metis injI fwd_bwd(2))

lemma cycle_closes: "x < n \<Longrightarrow> \<exists>k > 0. (fwd ^^ k) x = x"
proof -
  assume "x < n"
  then have "{y. \<exists>k. y = (fwd ^^ k) x} \<subseteq> {..<n}" by (auto simp: fwd_pow_less)
  then have "finite {y. \<exists>k. y = (fwd ^^ k) x}" using finite_subset by blast
  from funpow_inj_finite [OF inj_fwd this] show ?thesis by blast
qed

text \<open>Sets of visited elements, after complete cycles.\<close>

definition closed :: "nat set \<Rightarrow> bool" where
  "closed V \<longleftrightarrow> V \<subseteq> {..<n} \<and> (\<forall>x \<in> V. fwd x \<in> V \<and> bwd x \<in> V \<and> swp x \<notin> V)"

definition orbit :: "nat \<Rightarrow> nat set" where
  "orbit x = {y. \<exists>k. y = (fwd ^^ k) x}"

lemma orbit_self [simp]: "x \<in> orbit x"
  unfolding orbit_def by (metis (mono_tags) funpow_0 mem_Collect_eq)

lemma orbit_fwd: "y \<in> orbit x \<Longrightarrow> fwd y \<in> orbit x"
proof -
  assume "y \<in> orbit x"
  then obtain k where "y = (fwd ^^ k) x" by (auto simp: orbit_def)
  then have "fwd y = (fwd ^^ Suc k) x" by simp
  then show ?thesis unfolding orbit_def by blast
qed

lemma closed_orbit: "x < n \<Longrightarrow> closed (orbit x)"
proof -
  assume x: "x < n"
  have bwd: "bwd y \<in> orbit x" if y: "y \<in> orbit x" for y
  proof -
    obtain k where k: "y = (fwd ^^ k) x" using y by (auto simp: orbit_def)
    obtain p where p: "0 < p" "(fwd ^^ p) x = x" using cycle_closes [OF x] by blast
    from k p have "y = (fwd ^^ (k + p)) x" by (simp add: funpow_add)
    also have "\<dots> = fwd ((fwd ^^ (k + p - 1)) x)" using p(1) by (cases "k + p") simp_all
    finally have "bwd y = (fwd ^^ (k + p - 1)) x" by simp
    then show ?thesis by (auto simp: orbit_def)
  qed
  have "swp y \<notin> orbit x" if y: "y \<in> orbit x" for y
  proof
    assume "swp y \<in> orbit x"
    then obtain k l where kl: "y = (fwd ^^ k) x" "swp y = (fwd ^^ l) x" using y by (auto simp: orbit_def)
    show False
    proof (cases "k \<le> l")
      case True
      then have "swp y = (fwd ^^ (l - k)) y" using kl by (metis comp_apply funpow_add le_add_diff_inverse2)
      then show False by (metis fwd_pow_neq_swp)
    next
      case False
      then have "y = (fwd ^^ (k - l)) (swp y)" using kl by (metis comp_apply funpow_add le_add_diff_inverse2 nat_le_linear)
      then show False by (metis fwd_pow_neq_swp swp_swp)
    qed
  qed
  then show ?thesis
    using bwd fwd_pow_less [OF x] orbit_fwd by (auto simp: closed_def orbit_def)
qed

lemma closed_empty: "closed {}"
  by (simp add: closed_def)

lemma closed_pow: "closed V \<Longrightarrow> (fwd ^^ k) x \<in> V \<Longrightarrow> x \<in> V"
  by (induction k) (auto, metis closed_def fwd_bwd(2))

lemma closed_swp_pow: "closed V \<Longrightarrow> swp ((fwd ^^ k) x) \<in> V \<Longrightarrow> swp x \<in> V"
  by (induction k) (auto, metis bwd_swp(1) closed_def fwd_bwd(1))

text \<open>A new cycle keeps its distance from the old ones.\<close>

lemma closed_insert_cycle:
  assumes "closed V" "x < n" "x \<notin> V" "swp x \<notin> V"
  shows "closed (V \<union> orbit x)" "V \<inter> orbit x = {}" "swp ` V \<inter> orbit x = {}"
proof -
  show d: "V \<inter> orbit x = {}" using closed_pow [OF assms(1)] assms(3) by (auto simp: orbit_def)
  have d': "swp y \<notin> V" if "y \<in> orbit x" for y
    using that closed_swp_pow [OF assms(1)] assms(4) by (auto simp: orbit_def)
  show d2: "swp ` V \<inter> orbit x = {}"
  proof (rule equals0I)
    fix y assume "y \<in> swp ` V \<inter> orbit x"
    then obtain z where "z \<in> V" "y = swp z" "y \<in> orbit x" by blast
    then show False using d' [of "swp z"] by simp
  qed
  show "closed (V \<union> orbit x)"
    using assms(1) closed_orbit [OF assms(2)] d' d2
    by (auto simp: closed_def)
qed

end

subsection \<open>The cycles of a permutation\<close>

definition is_perm :: "nat list \<Rightarrow> bool" where
  "is_perm xs \<longleftrightarrow> distinct xs \<and> set xs = {..<length xs}"

definition even_perm :: "nat list \<Rightarrow> bool" where
  "even_perm xs \<longleftrightarrow> is_perm xs \<and> even (length xs)"

lemma is_permI: "(\<And>i. i < length xs \<Longrightarrow> xs ! i < length xs) \<Longrightarrow> distinct xs \<Longrightarrow> is_perm xs"
  by (auto simp: is_perm_def set_conv_nth intro!: card_subset_eq) (metis (no_types, lifting) card_lessThan card_subset_eq distinct_card finite_lessThan in_set_conv_nth lessThan_iff subsetI)

lemma is_perm_nth: "is_perm xs \<Longrightarrow> i < length xs \<Longrightarrow> xs ! i < length xs"
  by (metis is_perm_def lessThan_iff nth_mem)

lemma length_wk_inverse [simp]: "length (wk_inverse perm) = length perm"
proof -
  have "length (foldl (\<lambda>inv i. inv[perm ! i := i]) inv ks) = length inv" for inv ks
    by (induction ks arbitrary: inv) simp_all
  then show ?thesis by (simp add: wk_inverse_def)
qed

lemma wk_inverse_nth:
  assumes "is_perm perm" "i < length perm"
  shows "wk_inverse perm ! (perm ! i) = i"
proof -
  have "k \<le> length perm \<Longrightarrow> i < k \<Longrightarrow> foldl (\<lambda>inv i. inv[perm ! i := i]) (replicate (length perm) 0) [0..<k] ! (perm ! i) = i
      \<and> length (foldl (\<lambda>inv i. inv[perm ! i := i]) (replicate (length perm) 0) [0..<k]) = length perm" for k i
  proof (induction k arbitrary: i)
    case (Suc k)
    have L: "length (foldl (\<lambda>inv i. inv[perm ! i := i]) (replicate (length perm) 0) [0..<k]) = length perm"
      by (induction k) simp_all
    show ?case
    proof (cases "i = k")
      case True
      then show ?thesis using L is_perm_nth [OF assms(1), of k] Suc.prems by simp
    next
      case False
      then have "perm ! i \<noteq> perm ! k" using assms(1) Suc.prems by (simp add: is_perm_def nth_eq_iff_index_eq)
      then show ?thesis using Suc.IH [of i] Suc.prems False L by simp
    qed
  qed simp
  from this [of "length perm" i] assms(2) show ?thesis by (simp add: wk_inverse_def)
qed

lemma wk_inverse_less: "is_perm perm \<Longrightarrow> j < length perm \<Longrightarrow> wk_inverse perm ! j < length perm"
  and nth_wk_inverse: "is_perm perm \<Longrightarrow> j < length perm \<Longrightarrow> perm ! (wk_inverse perm ! j) = j"
proof -
  assume P: "is_perm perm" "j < length perm"
  then obtain i where "i < length perm" "j = perm ! i" by (metis in_set_conv_nth is_perm_def lessThan_iff)
  then show "wk_inverse perm ! j < length perm" "perm ! (wk_inverse perm ! j) = j" using wk_inverse_nth [OF P(1)] by auto
qed

definition wk_size :: "nat list \<Rightarrow> nat" where
  "wk_size perm = (if even_perm perm then length perm else 0)"

definition wk_prm :: "nat list \<Rightarrow> nat \<Rightarrow> nat" where
  "wk_prm perm i = (if i < wk_size perm then perm ! i else i)"

definition wk_inv_prm :: "nat list \<Rightarrow> nat \<Rightarrow> nat" where
  "wk_inv_prm perm j = (if j < wk_size perm then wk_inverse perm ! j else j)"

lemma partner_partner [simp]: "partner (partner i) = i"
  and partner_neq [simp]: "partner i \<noteq> i"
  and partner_div [simp]: "partner i div 2 = i div 2"
  and partner_odd [simp]: "odd (partner i) \<longleftrightarrow> even i"
  unfolding partner_def by presburger+

lemma partner_less: "even n \<Longrightarrow> i < n \<Longrightarrow> partner i < n"
  by (auto simp: partner_def) presburger

lemma same_pair: "i div 2 = j div 2 \<longleftrightarrow> i = j \<or> i = partner (j :: nat)"
  by (auto simp: partner_def) presburger+

lemma pair_eq: "2 * (i div 2) + of_bool (odd i) = i"
  and partner_eq: "2 * (i div 2) + of_bool (even i) = partner i"
proof -
  show "2 * (i div 2) + of_bool (odd i) = i" by (cases "odd i") simp_all
  show "2 * (i div 2) + of_bool (even i) = partner i" unfolding partner_def by (cases "odd i"; simp; presburger)
qed

lemma half_less: "even n \<Longrightarrow> j < n \<Longrightarrow> j div 2 < n div (2 :: nat)"
  by presburger

lemma wk_prm_less: "i < wk_size perm \<Longrightarrow> wk_prm perm i < wk_size perm"
  and wk_inv_prm_less: "i < wk_size perm \<Longrightarrow> wk_inv_prm perm i < wk_size perm"
  by (auto simp: wk_prm_def wk_inv_prm_def wk_size_def even_perm_def is_perm_nth wk_inverse_less split: if_splits)

interpretation wk: partner_cycles partner "wk_prm perm" "wk_inv_prm perm" "wk_size perm"
proof
  fix x
  show "wk_prm perm (wk_inv_prm perm x) = x"
    by (cases "even_perm perm") (auto simp: wk_prm_def wk_inv_prm_def wk_size_def even_perm_def wk_inverse_less nth_wk_inverse)
  show "wk_inv_prm perm (wk_prm perm x) = x"
    by (cases "even_perm perm") (auto simp: wk_prm_def wk_inv_prm_def wk_size_def even_perm_def is_perm_nth wk_inverse_nth)
  show "x < wk_size perm \<Longrightarrow> partner x < wk_size perm"
    by (cases "even_perm perm") (auto simp: wk_size_def even_perm_def partner_less)
qed (simp_all add: wk_prm_less wk_inv_prm_less)

abbreviation wk_fwd :: "nat list \<Rightarrow> nat \<Rightarrow> nat" where
  "wk_fwd perm \<equiv> partner_cycles.fwd partner (wk_prm perm) (wk_inv_prm perm)"

abbreviation wk_closed :: "nat list \<Rightarrow> nat set \<Rightarrow> bool" where
  "wk_closed perm \<equiv> partner_cycles.closed partner (wk_prm perm) (wk_inv_prm perm) (wk_size perm)"

abbreviation wk_orbit :: "nat list \<Rightarrow> nat \<Rightarrow> nat set" where
  "wk_orbit perm \<equiv> partner_cycles.orbit partner (wk_prm perm) (wk_inv_prm perm)"

subsection \<open>The state during the configuration\<close>

text \<open>What the state says about the visited elements \<open>V\<close>; no other entry is set but the last column's of \<open>W\<close>.\<close>

definition wk_entry :: "nat list \<Rightarrow> wk_state \<Rightarrow> nat \<Rightarrow> bool" where
  "wk_entry perm st j \<longleftrightarrow> (let i = wk_inv_prm perm j in
     wk_I st ! (i div 2) = odd i \<and> wk_O st ! (j div 2) = Some (odd j) \<and> wk_p0 st ! (i div 2) = Some (j div 2)
     \<and> wk_p1 st ! (i div 2) = Some (wk_prm perm (partner i) div 2))"

definition wk_ok :: "nat list \<Rightarrow> nat set \<Rightarrow> nat set \<Rightarrow> wk_state \<Rightarrow> bool" where
  "wk_ok perm V W st \<longleftrightarrow>
     length (wk_I st) = length perm div 2 \<and> length (wk_O st) = length perm div 2
     \<and> length (wk_p0 st) = length perm div 2 \<and> length (wk_p1 st) = length perm div 2
     \<and> (\<forall>j \<in> V. wk_entry perm st j)
     \<and> (\<forall>k < length perm div 2. wk_O st ! k = None \<longleftrightarrow> 2 * k \<notin> W \<and> partner (2 * k) \<notin> W)
     \<and> (\<forall>x < length perm div 2. wk_p0 st ! x \<noteq> None \<longrightarrow> (\<exists>j \<in> V. wk_inv_prm perm j div 2 = x))"

lemma wk_ok_start: "wk_ok perm {} {} (wk_start (length perm))"
  by (simp add: wk_ok_def wk_start_def)

lemma wk_visit_ok:
  assumes "even_perm perm" "j < length perm" "wk_ok perm V W st" "partner j \<notin> V" "partner (wk_fwd perm j) \<notin> V"
  shows "\<exists>st'. wk_visit perm (wk_inverse perm) j st = Inr (wk_fwd perm j, st') \<and> wk_ok perm (insert j V) (insert j W) st'"
proof -
  define i where "i = wk_inverse perm ! j"
  have P: "is_perm perm" "even (length perm)" using assms(1) by (simp_all add: even_perm_def)
  have i: "i < length perm" "perm ! i = j" using wk_inverse_less [OF P(1) assms(2)] nth_wk_inverse [OF P(1) assms(2)] by (simp_all add: i_def)
  have ij: "wk_inv_prm perm j = i" using assms(1,2) by (simp add: wk_inv_prm_def wk_size_def i_def)
  have i': "partner i < length perm" using P(2) i(1) by (rule partner_less)
  have pi': "wk_prm perm (partner i) = perm ! partner i" using assms(1) i' by (simp add: wk_prm_def wk_size_def)
  have fwd: "wk_fwd perm j = partner (perm ! partner i)"
    by (simp add: wk.fwd_def wk.crossing_def ij pi')
  have bounds: "i div 2 < length perm div 2" "j div 2 < length perm div 2" using i(1) assms(2) P(2) by presburger+
  let ?st = "st\<lparr>wk_p0 := (wk_p0 st)[i div 2 := Some (j div 2)], wk_I := (wk_I st)[i div 2 := (i mod 2 = 1)],
      wk_O := (wk_O st)[j div 2 := Some (j mod 2 = 1)], wk_p1 := (wk_p1 st)[i div 2 := Some (perm ! partner i div 2)]\<rparr>"
  have "wk_visit perm (wk_inverse perm) j st = Inr (wk_fwd perm j, ?st)"
    using bounds i' assms(2) by (simp add: wk_visit_def Let_def i_def [symmetric] fwd not_le)
  moreover have "wk_entry perm ?st j"
    using assms(3) bounds by (simp add: wk_entry_def Let_def ij pi' wk_ok_def odd_iff_mod_2_eq_one)
  moreover have "wk_entry perm ?st v" if v: "v \<in> V" "v \<noteq> j" for v
  proof -
    have "v div 2 \<noteq> j div 2" using v assms(4) by (auto simp: same_pair)
    moreover have "wk_inv_prm perm v div 2 \<noteq> i div 2"
    proof
      assume "wk_inv_prm perm v div 2 = i div 2"
      then have "wk_inv_prm perm v = wk_inv_prm perm j \<or> wk_inv_prm perm v = partner i" by (simp add: same_pair ij)
      then have "v = j \<or> v = wk_prm perm (partner i)" by (metis wk.prm_inv)
      then show False using v assms(5) fwd pi' by auto
    qed
    ultimately show ?thesis using v assms(3) by (simp add: wk_entry_def Let_def wk_ok_def)
  qed
  moreover have "wk_O ?st ! k = None \<longleftrightarrow> 2 * k \<notin> insert j W \<and> partner (2 * k) \<notin> insert j W" if "k < length perm div 2" for k
  proof (cases "k = j div 2")
    case True
    then have "2 * k = j \<or> partner (2 * k) = j" unfolding partner_def by presburger
    then show ?thesis using True assms(3) bounds by (auto simp: wk_ok_def)
  next
    case False
    then have "2 * k \<noteq> j" "partner (2 * k) \<noteq> j" unfolding partner_def by presburger+
    then show ?thesis using False that assms(3) by (simp add: wk_ok_def)
  qed
  moreover have "\<exists>v \<in> insert j V. wk_inv_prm perm v div 2 = x" if "x < length perm div 2" "wk_p0 ?st ! x \<noteq> None" for x
    using that assms(3) ij by (cases "x = i div 2") (auto simp: wk_ok_def)
  ultimately show ?thesis using assms(3) by (intro exI [of _ ?st]) (auto simp: wk_ok_def)
qed

lemma wk_cycle_ok:
  assumes "even_perm perm" "wk_closed perm V" "j0 < length perm" "j0 \<notin> V" "partner j0 \<notin> V" "wk_ok perm V (insert j0 V) st"
  shows "\<exists>st'. wk_cycle perm (wk_inverse perm) j0 j0 st = Some (Inr st') \<and> wk_ok perm (V \<union> wk_orbit perm j0) (V \<union> wk_orbit perm j0) st'"
proof -
  let ?f = "wk_fwd perm" and ?U = "V \<union> wk_orbit perm j0"
  have n: "wk_size perm = length perm" using assms(1) by (simp add: wk_size_def)
  have U: "wk_closed perm ?U" using wk.closed_insert_cycle(1) [OF assms(2) _ assms(4,5)] assms(3) n by simp
  define N where "N = (LEAST k. 0 < k \<and> (?f ^^ k) j0 = j0)"
  have "\<exists>k > 0. (?f ^^ k) j0 = j0" using wk.cycle_closes [of j0 perm] assms(3) n by simp
  then have N: "0 < N" "(?f ^^ N) j0 = j0" unfolding N_def by (metis (mono_tags, lifting) LeastI)+
  have N_least: "(?f ^^ t) j0 \<noteq> j0" if "0 < t" "t < N" for t
    using that not_less_Least unfolding N_def by blast
  define orb where "orb t = (\<lambda>s. (?f ^^ s) j0) ` {..<t}" for t
  have orb_Suc: "orb (Suc t) = insert ((?f ^^ t) j0) (orb t)" for t by (auto simp: orb_def less_Suc_eq)
  have orb_sub: "orb t \<subseteq> wk_orbit perm j0" for t by (auto simp: orb_def wk.orbit_def)
  have "(?f ^^ k) j0 \<in> orb N" for k
  proof -
    have "(?f ^^ k) j0 = (?f ^^ (k mod N)) j0" using N(2) by (metis funpow_mod_eq)
    then show ?thesis using N(1) by (auto simp: orb_def)
  qed
  then have orb_N: "orb N = wk_orbit perm j0" using orb_sub by (auto simp: wk.orbit_def)
  have step: "t < N \<Longrightarrow> wk_ok perm (V \<union> orb t) (insert j0 (V \<union> orb t)) st \<Longrightarrow>
      \<exists>st'. wk_cycle perm (wk_inverse perm) j0 ((?f ^^ t) j0) st = Some (Inr st') \<and> wk_ok perm ?U ?U st'" for t st
  proof (induction "N - t" arbitrary: t st)
    case (Suc d)
    let ?j = "(?f ^^ t) j0"
    have j: "?j < length perm" using wk.fwd_pow_less [of j0 perm] assms(3) n by simp
    have "?j \<in> ?U" by (auto simp: wk.orbit_def)
    with U have "partner ?j \<notin> ?U" "partner (?f ?j) \<notin> ?U" unfolding wk.closed_def by blast+
    then have free: "partner ?j \<notin> V \<union> orb t" "partner (?f ?j) \<notin> V \<union> orb t" using orb_sub by blast+
    obtain st' where st': "wk_visit perm (wk_inverse perm) ?j st = Inr (?f ?j, st')"
      "wk_ok perm (V \<union> orb (Suc t)) (insert j0 (V \<union> orb (Suc t))) st'"
      using wk_visit_ok [OF assms(1) j Suc.prems(2) free] by (auto simp: orb_Suc insert_commute)
    show ?case
    proof (cases "Suc t < N")
      case True
      then have "?f ?j \<noteq> j0" using N_least [of "Suc t"] by simp
      moreover have "\<exists>st''. wk_cycle perm (wk_inverse perm) j0 (?f ?j) st' = Some (Inr st'') \<and> wk_ok perm ?U ?U st''"
        using Suc.hyps(1) [OF _ True st'(2)] Suc.hyps(2) by simp
      ultimately show ?thesis using st'(1) by (simp add: wk_cycle.simps [of _ _ _ ?j])
    next
      case False
      then have t: "Suc t = N" using Suc.prems(1) by simp
      then have "?f ?j = j0" using N(2) by (metis comp_apply funpow.simps(2))
      moreover have "wk_ok perm ?U ?U st'" using st'(2) t orb_N by (simp add: insert_absorb)
      ultimately show ?thesis using st'(1) by (simp add: wk_cycle.simps [of _ _ _ ?j])
    qed
  qed simp
  from step [of 0 st] N(1) assms(6) show ?thesis by (simp add: orb_def)
qed

lemma wk_covered:
  assumes "even_perm perm" "wk_closed perm V" "wk_ok perm V V st" "j < length perm" "j \<notin> V" "partner j \<notin> V"
  shows "wk_O st ! (j div 2) = None" "None \<in> set (wk_p0 st)"
proof -
  have b: "j div 2 < length perm div 2" using assms(1,4) by (simp add: even_perm_def half_less)
  have "2 * (j div 2) \<in> {j, partner j}" "partner (2 * (j div 2)) \<in> {j, partner j}" unfolding partner_def by (simp, presburger)+
  then show "wk_O st ! (j div 2) = None" using assms(3,5,6) b by (auto simp: wk_ok_def)
  have n: "wk_size perm = length perm" using assms(1) by (simp add: wk_size_def)
  let ?x = "wk_inv_prm perm j div 2"
  have x: "?x < length perm div 2" using wk_inv_prm_less [of j perm] assms(1,4) unfolding n by (simp add: even_perm_def half_less)
  have "wk_p0 st ! ?x = None"
  proof (rule ccontr)
    assume "wk_p0 st ! ?x \<noteq> None"
    then obtain v where v: "v \<in> V" "wk_inv_prm perm v div 2 = ?x" using assms(3) x by (auto simp: wk_ok_def)
    then have "wk_inv_prm perm j = wk_inv_prm perm v \<or> wk_inv_prm perm j = partner (wk_inv_prm perm v)" by (metis same_pair)
    then have "j = v \<or> j = partner (wk_fwd perm v)" by (metis wk.crossing_def wk.swp_fwd wk.prm_inv)
    then have "j \<in> V \<or> partner j \<in> V" using v(1) assms(2) by (auto simp: wk.closed_def)
    then show False using assms(5,6) by blast
  qed
  then show "None \<in> set (wk_p0 st)" using x assms(3) by (auto simp: wk_ok_def in_set_conv_nth)
qed

lemma wk_loop_ok:
  assumes "even_perm perm" "perm \<noteq> []"
  shows "wk_closed perm V \<Longrightarrow> wk_ok perm V V st \<Longrightarrow> V = {} \<or> 0 \<in> V \<Longrightarrow>
    \<exists>st' V'. wk_loop perm (wk_inverse perm) st = Some (Inr st') \<and> wk_closed perm V' \<and> wk_ok perm V' V' st'
      \<and> 0 \<in> V' \<and> (\<forall>j < length perm. j \<in> V' \<or> partner j \<in> V')"
proof (induction "length perm - card V" arbitrary: V st rule: less_induct)
  case less
  have n: "wk_size perm = length perm" using assms(1) by (simp add: wk_size_def)
  have ev: "even (length perm)" "0 < length perm div 2" using assms half_less [of "length perm" 0] by (simp_all add: even_perm_def)
  have O: "length (wk_O st) = length perm div 2" using less.prems(2) by (simp add: wk_ok_def)
  show ?case
  proof (cases "List.find (\<lambda>k. wk_O st ! k = None) [0..<length (wk_O st)]")
    case None
    then have full: "wk_O st ! k \<noteq> None" if "k < length perm div 2" for k using that O by (auto simp: find_None_iff)
    have all: "\<forall>j < length perm. j \<in> V \<or> partner j \<in> V"
    proof (intro allI impI)
      fix j assume j: "j < length perm"
      then have "j div 2 < length perm div 2" using ev(1) by presburger
      then show "j \<in> V \<or> partner j \<in> V" using wk_covered(1) [OF assms(1) less.prems(1,2) j] full by blast
    qed
    moreover have "0 \<in> V" using full [of 0] ev(2) less.prems(2,3) by (auto simp: wk_ok_def)
    ultimately show ?thesis using None less.prems by (auto simp: wk_loop.simps)
  next
    case (Some k)
    then have k: "k < length perm div 2" "wk_O st ! k = None" and least: "\<forall>l < k. wk_O st ! l \<noteq> None"
      using O by (auto simp: find_Some_iff)
    let ?j = "2 * k" and ?st = "st\<lparr>wk_O := (wk_O st)[k := Some False]\<rparr>" and ?V = "V \<union> wk_orbit perm (2 * k)"
    have j: "?j < length perm" using k(1) by simp
    have new: "?j \<notin> V" "partner ?j \<notin> V" using k less.prems(2) by (auto simp: wk_ok_def)
    have "k \<noteq> v div 2" "wk_entry perm st v" if "v \<in> V" for v
      using that less.prems(2) k(2) by (auto simp: wk_ok_def wk_entry_def Let_def)
    then have "wk_entry perm ?st v" if "v \<in> V" for v
      using that by (simp add: wk_entry_def Let_def)
    then have "wk_ok perm V (insert ?j V) ?st"
      using less.prems(2) k(1) by (auto simp: wk_ok_def nth_list_update partner_def)
    from wk_cycle_ok [OF assms(1) less.prems(1) j new this] obtain st' where
      st': "wk_cycle perm (wk_inverse perm) ?j ?j ?st = Some (Inr st')" "wk_ok perm ?V ?V st'" by blast
    have V: "wk_closed perm ?V" using wk.closed_insert_cycle(1) [OF less.prems(1) _ new] j n by simp
    have zero: "0 \<in> ?V"
    proof (cases "V = {}")
      case True
      then have "wk_O st ! 0 = None" using less.prems(2) ev(2) by (simp add: wk_ok_def)
      then have "k = 0" using least by auto
      then show ?thesis by simp
    qed (use less.prems(3) in simp)
    show ?thesis
    proof (cases "None \<notin> set (wk_p1 st') \<and> None \<notin> set (wk_p0 st')")
      case True
      then have "\<forall>j < length perm. j \<in> ?V \<or> partner j \<in> ?V" using wk_covered(2) [OF assms(1) V st'(2)] by blast
      then show ?thesis
        using True Some st' V zero by (intro exI [of _ st'] exI [of _ ?V]) (simp add: wk_loop.simps)
    next
      case False
      have "V \<subset> ?V" using new(1) wk.orbit_self [of ?j perm] by blast
      have "?V \<subseteq> {..<wk_size perm}" using V unfolding wk.closed_def by blast
      then have sub: "?V \<subseteq> {..<length perm}" unfolding n .
      note \<open>V \<subset> ?V\<close>
      moreover note sub
      ultimately have "card V < card ?V" by (meson finite_lessThan finite_subset psubset_card_mono)
      moreover have "card ?V \<le> length perm" using card_mono [OF _ sub] by simp
      ultimately have "length perm - card ?V < length perm - card V" by linarith
      from less.hyps [OF this V st'(2)] zero obtain st'' V'' where
        "wk_loop perm (wk_inverse perm) st' = Some (Inr st'')" "wk_closed perm V''" "wk_ok perm V'' V'' st''"
        "0 \<in> V''" "\<forall>j < length perm. j \<in> V'' \<or> partner j \<in> V''" by blast
      then show ?thesis
        using False Some st'(1) by (intro exI [of _ st''] exI [of _ V'']) (auto simp: wk_loop.simps [of _ _ st])
    qed
  qed
qed

subsection \<open>What the configuration achieves in one column\<close>

definition wk_bit :: "bool option list \<Rightarrow> nat \<Rightarrow> bool" where
  "wk_bit os k \<longleftrightarrow> os ! k \<noteq> Some False"

lemma wk_visited_half:
  assumes "even_perm perm" "wk_closed perm V" "\<forall>j < length perm. j \<in> V \<or> partner j \<in> V" "x < length perm div 2"
  shows "\<exists>j \<in> V. wk_inv_prm perm j div 2 = x"
proof -
  let ?j = "wk_prm perm (2 * x)"
  have "?j < length perm" using wk_prm_less [of "2 * x" perm] assms(1,4) by (simp add: wk_size_def)
  with assms(3) consider "?j \<in> V" | "partner ?j \<in> V" by blast
  then show ?thesis
  proof cases
    case 1
    then show ?thesis by (intro bexI [of _ ?j]) simp_all
  next
    case 2
    then have "partner_cycles.crossing partner (wk_prm perm) (wk_inv_prm perm) ?j \<in> V"
      using assms(2) unfolding wk.closed_def by (metis partner_partner wk.bwd_def)
    then show ?thesis by (rule rev_bexI) (simp add: wk.crossing_def)
  qed
qed

lemma wk_halves:
  assumes "even_perm perm" "wk_closed perm V" "wk_ok perm V W st" "\<forall>j < length perm. j \<in> V \<or> partner j \<in> V"
  shows "\<exists>p0 p1. wk_p0 st = map Some p0 \<and> wk_p1 st = map Some p1 \<and> is_perm p0 \<and> is_perm p1
    \<and> length p0 = length perm div 2 \<and> length p1 = length perm div 2
    \<and> (\<forall>x < length perm div 2. perm ! (2 * x + of_bool (wk_I st ! x)) = 2 * p0 ! x + of_bool (wk_bit (wk_O st) (p0 ! x))
        \<and> perm ! (2 * x + of_bool (\<not> wk_I st ! x)) = 2 * p1 ! x + of_bool (\<not> wk_bit (wk_O st) (p1 ! x)))"
proof -
  let ?m = "length perm div 2"
  have n: "wk_size perm = length perm" using assms(1) by (simp add: wk_size_def)
  have ev: "even (length perm)" "is_perm perm" using assms(1) by (simp_all add: even_perm_def)
  obtain J where J: "\<And>x. x < ?m \<Longrightarrow> J x \<in> V \<and> wk_inv_prm perm (J x) div 2 = x"
    using wk_visited_half [OF assms(1,2,4)] by metis
  have sub: "j < length perm" "wk_fwd perm j \<in> V" "partner j \<notin> V" if "j \<in> V" for j
    using assms(2) that n unfolding wk.closed_def by auto
  have pr: "wk_prm perm i = perm ! i" if "i < length perm" for i using that n by (simp add: wk_prm_def)
  have entry: "wk_entry perm st (J x)" if "x < ?m" for x using J [OF that] assms(3) by (simp add: wk_ok_def)
  define p0 where "p0 = map (\<lambda>x. J x div 2) [0..<?m]"
  define p1 where "p1 = map (\<lambda>x. wk_fwd perm (J x) div 2) [0..<?m]"
  have crossing: "wk_prm perm (partner (wk_inv_prm perm j)) = partner (wk_fwd perm j)" for j
    by (simp add: wk.fwd_def wk.crossing_def)
  have len: "length (wk_p0 st) = ?m" "length (wk_p1 st) = ?m" using assms(3) by (simp_all add: wk_ok_def)
  have "wk_p0 st = map Some p0" "wk_p1 st = map Some p1"
    using J entry len by (auto intro!: nth_equalityI simp: p0_def p1_def wk_entry_def Let_def crossing)
  moreover have less: "J x div 2 < ?m" "wk_fwd perm (J x) div 2 < ?m" if "x < ?m" for x
    using J [OF that] sub half_less [OF ev(1)] by blast+
  have inj: "x = y" if "x < ?m" "y < ?m" "J x div 2 = J y div 2 \<or> wk_fwd perm (J x) div 2 = wk_fwd perm (J y) div 2" for x y
  proof -
    have "J x = J y \<or> J x = partner (J y) \<or> wk_fwd perm (J x) = wk_fwd perm (J y) \<or> wk_fwd perm (J x) = partner (wk_fwd perm (J y))"
      using that(3) by (auto simp: same_pair)
    then have "J x = J y" using J [OF that(1)] J [OF that(2)] sub by (metis wk.fwd_bwd(2))
    then show ?thesis using J that by metis
  qed
  have "is_perm p0" by (rule is_permI) (auto simp: p0_def distinct_map inj_on_def less dest: inj)
  moreover have "is_perm p1" by (rule is_permI) (auto simp: p1_def distinct_map inj_on_def less dest: inj)
  moreover have "perm ! (2 * x + of_bool (wk_I st ! x)) = 2 * p0 ! x + of_bool (wk_bit (wk_O st) (p0 ! x))
      \<and> perm ! (2 * x + of_bool (\<not> wk_I st ! x)) = 2 * p1 ! x + of_bool (\<not> wk_bit (wk_O st) (p1 ! x))" if x: "x < ?m" for x
  proof -
    let ?i = "wk_inv_prm perm (J x)" and ?f = "wk_fwd perm (J x)"
    have JV: "J x \<in> V" "?i div 2 = x" "J x < length perm" using J [OF x] sub by auto
    have I: "wk_I st ! x = odd ?i" "wk_O st ! (J x div 2) = Some (odd (J x))"
      using entry [OF x] JV(2) by (simp_all add: wk_entry_def Let_def)
    have i: "2 * x + of_bool (odd ?i) = ?i" "2 * x + of_bool (\<not> odd ?i) = partner ?i"
      using pair_eq [of ?i] partner_eq [of ?i] JV(2) by simp_all
    have "?i < length perm" using wk_inv_prm_less [of "J x" perm] JV(3) n by simp
    then have prm: "perm ! ?i = J x" "perm ! partner ?i = partner ?f"
      using pr partner_less [OF ev(1)] crossing [of "J x"] by (metis wk.prm_inv)+
    have O: "wk_O st ! (?f div 2) = Some (odd ?f)"
      using assms(3) sub(2) [OF JV(1)] by (simp add: wk_ok_def wk_entry_def Let_def)
    have "J x = 2 * (J x div 2) + of_bool (odd (J x))" "partner ?f = 2 * (?f div 2) + of_bool (even ?f)"
      by (simp_all only: pair_eq partner_eq)
    then show ?thesis
      using x I O i prm by (simp add: p0_def p1_def wk_bit_def)
  qed
  ultimately show ?thesis by (intro exI [of _ p0] exI [of _ p1]) (simp add: p0_def p1_def)
qed

subsection \<open>Configurations and what they do\<close>

text \<open>
  The input that a network of \<open>2 ^ (k + 1)\<close> elements, at column \<open>d\<close> and position \<open>s\<close> of the configuration, moves to its output
  \<open>i\<close>: back through the switch of the last column into one of the two inner networks and through a switch of the first.
\<close>

fun wk_source :: "bool list list \<Rightarrow> nat \<Rightarrow> nat \<Rightarrow> nat \<Rightarrow> nat \<Rightarrow> nat" where
  "wk_source cfg d s 0 i = (if cfg ! d ! s then 1 - i else i)"
| "wk_source cfg d s (Suc k) i =
     (let m = 2 ^ (k + 1); first = (odd i = cfg ! d ! (s + i div 2));
          y = wk_source cfg (d + 1) (if first then s else s + m) k (i div 2)
      in 2 * y + of_bool (cfg ! d ! (s + m + y) = first))"

definition wk_config_ok :: "nat \<Rightarrow> bool list list \<Rightarrow> bool" where
  "wk_config_ok k cfg \<longleftrightarrow> length cfg = k + 1 \<and> (\<forall>row \<in> set cfg. length row = 2 ^ (k + 1))
     \<and> (\<forall>d \<le> k. \<forall>j < 2 ^ (k + 1). \<not> matters \<lparr>wk_n_elements = 2 ^ (k + 1), wk_nr = k + 1\<rparr> d j \<longrightarrow> \<not> cfg ! d ! j)
     \<and> (\<forall>j < 2 ^ (k + 1). odd j \<longrightarrow> cfg ! k ! j = cfg ! k ! (j - 1))"

lemma int_log2_power [simp]: "int_log2 (2 ^ k) = k"
proof (induction k)
  case (Suc k)
  have "\<not> (2 :: nat) ^ Suc k \<le> 1" using one_less_power [of "2 :: nat" "Suc k"] by linarith
  then show ?case using Suc by (subst int_log2.simps) simp
qed (simp add: int_log2.simps)

lemma waksman_new_power [simp]: "waksman_new (2 ^ k) = Inr \<lparr>wk_n_elements = 2 ^ k, wk_nr = k\<rparr>"
  by (simp add: waksman_new_def)

lemma wk_source_less: "i < 2 ^ (k + 1) \<Longrightarrow> wk_source cfg d s k i < 2 ^ (k + 1)"
proof (induction k arbitrary: d s i)
  case (Suc k)
  have "i div 2 < 2 ^ (k + 1)" using Suc.prems by simp
  then have "wk_source cfg (d + 1) t k (i div 2) < 2 ^ (k + 1)" for t by (rule Suc.IH)
  from this [of s] this [of "s + 2 ^ (k + 1)"] show ?case by (auto simp: Let_def)
qed (simp, linarith)

lemma wk_source_cong:
  assumes "\<And>e j. e \<le> k \<Longrightarrow> j < 2 ^ (k + 1) \<Longrightarrow> cfg ! (d + e) ! (s + j) = cfg' ! (d' + e) ! (s' + j)" "i < 2 ^ (k + 1)"
  shows "wk_source cfg d s k i = wk_source cfg' d' s' k i"
  using assms
proof (induction k arbitrary: d s d' s' i)
  case 0
  then show ?case using 0(1) [of 0 0] by simp
next
  case (Suc k)
  let ?m = "2 ^ (k + 1) :: nat"
  have i: "i div 2 < ?m" using Suc.prems(2) by simp
  have row: "cfg ! d ! (s + j) = cfg' ! d' ! (s' + j)" if "j < 2 ^ (Suc k + 1)" for j
    using Suc.prems(1) [of 0 j] that by simp
  have "wk_source cfg (d + 1) s k (i div 2) = wk_source cfg' (d' + 1) s' k (i div 2)"
    using Suc.prems(1) [of "Suc _"] i by (intro Suc.IH) simp_all
  moreover have "wk_source cfg (d + 1) (s + ?m) k (i div 2) = wk_source cfg' (d' + 1) (s' + ?m) k (i div 2)"
    using Suc.prems(1) [of "Suc _" "?m + _"] i by (intro Suc.IH) (simp_all add: add.assoc)
  moreover have "wk_source cfg' (d' + 1) t k (i div 2) < ?m" for t using wk_source_less [OF i] .
  then have "cfg ! d ! (s + ?m + wk_source cfg' (d' + 1) t k (i div 2)) = cfg' ! d' ! (s' + ?m + wk_source cfg' (d' + 1) t k (i div 2))" for t
    using row [of "?m + wk_source cfg' (d' + 1) t k (i div 2)"] by (simp add: add.assoc)
  ultimately show ?case
    using row [of "i div 2"] i by (simp add: Let_def)
qed

lemma wk_rows_nth:
  assumes "length (wk_I st) = m" "length (wk_O st) = m" "length c0 = length c1"
    and "\<forall>row \<in> set c0. length row = m" "\<forall>row \<in> set c1. length row = m"
  shows "x < m \<Longrightarrow> wk_rows st c0 c1 ! 0 ! x = wk_I st ! x" "x < m \<Longrightarrow> wk_rows st c0 c1 ! 0 ! (m + x) = wk_bit (wk_O st) x"
    "d < length c0 \<Longrightarrow> x < m \<Longrightarrow> wk_rows st c0 c1 ! Suc d ! x = c0 ! d ! x"
    "d < length c0 \<Longrightarrow> x < m \<Longrightarrow> wk_rows st c0 c1 ! Suc d ! (m + x) = c1 ! d ! x"
    "length (wk_rows st c0 c1) = Suc (length c0)"
    "row \<in> set (wk_rows st c0 c1) \<Longrightarrow> length row = 2 * m"
proof -
  have len: "length (c0 ! d) = m" "length (c1 ! d) = m" if "d < length c0" for d using that assms(3-5) by simp_all
  show "x < m \<Longrightarrow> wk_rows st c0 c1 ! 0 ! x = wk_I st ! x" "x < m \<Longrightarrow> wk_rows st c0 c1 ! 0 ! (m + x) = wk_bit (wk_O st) x"
    "d < length c0 \<Longrightarrow> x < m \<Longrightarrow> wk_rows st c0 c1 ! Suc d ! x = c0 ! d ! x"
    "d < length c0 \<Longrightarrow> x < m \<Longrightarrow> wk_rows st c0 c1 ! Suc d ! (m + x) = c1 ! d ! x"
    "length (wk_rows st c0 c1) = Suc (length c0)"
    using assms(1-3) len by (simp_all add: wk_rows_def wk_bit_def nth_append)
  show "row \<in> set (wk_rows st c0 c1) \<Longrightarrow> length row = 2 * m"
    using assms(1-3) len by (auto simp: wk_rows_def in_set_zip)
qed

lemma wk_config_ok_rows:
  assumes "wk_config_ok k c0" "wk_config_ok k c1" "length (wk_I st) = 2 ^ (k + 1)" "length (wk_O st) = 2 ^ (k + 1)"
    and "wk_O st ! 0 = Some False"
  shows "wk_config_ok (Suc k) (wk_rows st c0 c1)"
proof -
  let ?m = "2 ^ (k + 1) :: nat" and ?c = "wk_rows st c0 c1"
  have len: "length c0 = k + 1" "length c1 = k + 1" "\<forall>row \<in> set c0. length row = ?m" "\<forall>row \<in> set c1. length row = ?m"
    using assms(1,2) by (simp_all add: wk_config_ok_def)
  note nth = wk_rows_nth [OF assms(3,4) _ len(3,4)]
  have inner: "?c ! Suc d ! j = (if j < ?m then c0 ! d ! j else c1 ! d ! (j - ?m))" if "d \<le> k" "j < 2 * ?m" for d j
  proof (cases "j < ?m")
    case False
    then have "?m + (j - ?m) = j" "j - ?m < ?m" using that(2) by simp_all
    then show ?thesis using nth(4) [of d "j - ?m"] len that(1) False by simp
  qed (use nth(3) [of d j] len that in simp)
  have "\<not> ?c ! d ! j" if "d \<le> Suc k" "j < 2 * ?m" "\<not> matters \<lparr>wk_n_elements = 2 * ?m, wk_nr = Suc k + 1\<rparr> d j" for d j
  proof (cases d)
    case 0
    then have "j = ?m" using that by (auto simp: matters_def Let_def split: if_splits)
    then show ?thesis using nth(2) [of 0] len 0 assms(5) by (simp add: wk_bit_def)
  next
    case (Suc e)
    then have e: "e \<le> k" using that(1) by simp
    let ?b = "?m div 2 ^ e"
    have b: "2 * ?m div 2 ^ d = ?b" using Suc by simp
    have nm: "?b \<noteq> 2" "j mod ?b = ?b div 2" using that(3) b by (simp_all add: matters_def Let_def)
    have "?b dvd ?m" using e by (metis dvd_def dvd_div_mult_self le_imp_power_dvd mult.commute le_Suc_eq Suc_eq_plus1)
    then have "(j - ?m) mod ?b = j mod ?b" if "?m \<le> j" using that by (metis le_add_diff_inverse2 mod_add_self2 dvd_def mod_mult_self2)
    then show ?thesis
      using inner [OF e that(2)] e nm that(2) assms(1,2) Suc by (auto simp: wk_config_ok_def matters_def Let_def)
  qed
  moreover have "?c ! Suc k ! j = ?c ! Suc k ! (j - 1)" if "j < 2 * ?m" "odd j" for j
  proof -
    have odd: "odd (j - ?m)" if "?m \<le> j" using that \<open>odd j\<close> by simp
    have "j - 1 < ?m \<longleftrightarrow> j < ?m" using \<open>odd j\<close> by (cases "j = ?m") auto
    moreover have "j - 1 - ?m = (j - ?m) - 1" by simp
    ultimately show ?thesis
      using inner [of k j] inner [of k "j - 1"] that assms(1,2) odd by (simp add: wk_config_ok_def)
  qed
  ultimately show ?thesis
    using nth(5,6) len by (simp add: wk_config_ok_def)
qed

lemma wk_config_ok_base: "wk_config_ok 0 [[b, b]]"
  by (auto simp: wk_config_ok_def matters_def Let_def nth_Cons' numeral_2_eq_2 less_Suc_eq)

lemma wk_indices_Some: "is_perm perm \<Longrightarrow> wk_indices (map Some perm) = Inr perm"
  by (auto simp: wk_indices_def is_perm_def comp_def)

lemma wk_source_rows:
  assumes "wk_config_ok k c0" "wk_config_ok k c1" "length (wk_I st) = 2 ^ (k + 1)" "length (wk_O st) = 2 ^ (k + 1)"
    and "i < 2 * 2 ^ (k + 1)"
  shows "wk_source (wk_rows st c0 c1) 0 0 (Suc k) i =
    (if odd i = wk_I st ! (i div 2) then 2 * wk_source c0 0 0 k (i div 2) + of_bool (wk_bit (wk_O st) (wk_source c0 0 0 k (i div 2)))
     else 2 * wk_source c1 0 0 k (i div 2) + of_bool (\<not> wk_bit (wk_O st) (wk_source c1 0 0 k (i div 2))))"
proof -
  let ?m = "2 ^ (k + 1) :: nat" and ?c = "wk_rows st c0 c1" and ?x = "i div 2"
  have len: "length c0 = k + 1" "length c1 = k + 1" "\<forall>row \<in> set c0. length row = ?m" "\<forall>row \<in> set c1. length row = ?m"
    using assms(1,2) by (simp_all add: wk_config_ok_def)
  note nth = wk_rows_nth [OF assms(3,4) _ len(3,4)]
  have x: "?x < ?m" using assms(5) by simp
  have inner: "wk_source ?c 1 0 k ?x = wk_source c0 0 0 k ?x" "wk_source ?c 1 ?m k ?x = wk_source c1 0 0 k ?x"
    using nth(3,4) len x by (auto intro!: wk_source_cong)
  show ?thesis
    using nth(1) [of ?x] nth(2) [OF _ wk_source_less] len x inner by (simp add: Let_def)
qed

lemma waksman_configure_ok:
  "is_perm perm \<Longrightarrow> length perm = 2 ^ (k + 1) \<Longrightarrow> \<exists>cfg. waksman_configure (map Some perm) = Some (Inr cfg) \<and> wk_config_ok k cfg
     \<and> (\<forall>i < length perm. wk_source cfg 0 0 k i = perm ! i)"
proof (induction k arbitrary: perm)
  case 0
  have "length perm = Suc (Suc 0)" using 0(2) by simp
  then obtain a b where p: "perm = [a, b]" by (metis Suc_length_conv length_0_conv)
  have "{a, b} = {..<2}" "a \<noteq> b" using 0(1) by (simp_all add: p is_perm_def)
  then have "a < 2" "b < 2" "a \<noteq> b" by auto
  then have ab: "a = 0 \<and> b = 1 \<or> a = 1 \<and> b = 0" by linarith
  have "waksman_configure (map Some perm) = Some (Inr [[a = 1, a = 1]])" "\<forall>i < length perm. wk_source [[a = 1, a = 1]] 0 0 0 i = perm ! i"
    by (subst waksman_configure.simps) (use ab in \<open>auto simp: p less_Suc_eq nth_Cons'\<close>)
  then show ?case using wk_config_ok_base [of "a = 1"] by blast
next
  case (Suc k)
  let ?m = "2 ^ (k + 1) :: nat"
  have n: "length perm = 2 * ?m" "2 < length perm" using Suc.prems(2) one_less_power [of "2 :: nat" "k + 1"] by auto
  have ev: "even_perm perm" using Suc.prems n by (simp add: even_perm_def)
  have ne: "perm \<noteq> []" using n by auto
  obtain st V where st: "wk_loop perm (wk_inverse perm) (wk_start (length perm)) = Some (Inr st)" "wk_closed perm V" "wk_ok perm V V st"
    "0 \<in> V" "\<forall>j < length perm. j \<in> V \<or> partner j \<in> V"
    using wk_loop_ok [OF ev ne wk.closed_empty wk_ok_start] by blast
  obtain p0 p1 where p: "wk_p0 st = map Some p0" "wk_p1 st = map Some p1" "is_perm p0" "is_perm p1" "length p0 = ?m" "length p1 = ?m"
    and route: "\<And>x. x < ?m \<Longrightarrow> perm ! (2 * x + of_bool (wk_I st ! x)) = 2 * p0 ! x + of_bool (wk_bit (wk_O st) (p0 ! x))
        \<and> perm ! (2 * x + of_bool (\<not> wk_I st ! x)) = 2 * p1 ! x + of_bool (\<not> wk_bit (wk_O st) (p1 ! x))"
    using wk_halves [OF ev st(2,3,5)] n by auto
  obtain c0 c1 where c: "waksman_configure (wk_p0 st) = Some (Inr c0)" "wk_config_ok k c0" "\<forall>i < ?m. wk_source c0 0 0 k i = p0 ! i"
    "waksman_configure (wk_p1 st) = Some (Inr c1)" "wk_config_ok k c1" "\<forall>i < ?m. wk_source c1 0 0 k i = p1 ! i"
    using Suc.IH [OF p(3,5)] Suc.IH [OF p(4,6)] p by metis
  have len: "length (wk_I st) = ?m" "length (wk_O st) = ?m" using st(3) n by (simp_all add: wk_ok_def)
  have "wk_O st ! 0 = Some False" using st(3,4) by (auto simp: wk_ok_def wk_entry_def Let_def)
  note ok = wk_config_ok_rows [OF c(2,5) len this]
  have "wk_source (wk_rows st c0 c1) 0 0 (Suc k) i = perm ! i" if i: "i < length perm" for i
  proof -
    have x: "i div 2 < ?m" using i n by simp
    have "perm ! i = perm ! (2 * (i div 2) + of_bool (odd i))" by (simp only: pair_eq)
    also have "\<dots> = wk_source (wk_rows st c0 c1) 0 0 (Suc k) i"
      using route [OF x] c(3,6) x i n
      by (cases "odd i = wk_I st ! (i div 2)") (simp_all add: wk_source_rows [OF c(2,5) len] del: wk_source.simps)
    finally show ?thesis ..
  qed
  moreover have "waksman_configure (map Some perm) = Some (Inr (wk_rows st c0 c1))"
  proof -
    have "length c0 = length c1" "length (wk_rows st c0 c1) = Suc k + 1" using c(2,5) ok by (simp_all add: wk_config_ok_def)
    moreover have "waksman_new (length perm) = Inr \<lparr>wk_n_elements = length perm, wk_nr = Suc k + 1\<rparr>"
      unfolding Suc.prems(2) by (rule waksman_new_power)
    ultimately show ?thesis
      using n(2) st(1) c(1,4) wk_indices_Some [OF Suc.prems(1)]
      by (subst waksman_configure.simps) (simp add: n_rounds_def)
  qed
  ultimately show ?case using ok by blast
qed

subsection \<open>Properties\<close>

text \<open>C31: \<open>configure\<close> ends on every permutation of a power of two of at least two elements, fails no assertion, and returns the bits of
  a network that carries out the permutation: what arrives at output \<open>i\<close> is the input \<open>perm[i]\<close>. The switches left out of the
  network are off, those of the innermost column come twice.\<close>

theorem waksman_configure_correct:
  assumes "is_perm perm" "length perm = 2 ^ (k + 1)"
  shows "\<exists>cfg. waksman_configure (map Some perm) = Some (Inr cfg) \<and> wk_config_ok k cfg
    \<and> (\<forall>i < length perm. wk_source cfg 0 0 k i = perm ! i)"
  using assms by (rule waksman_configure_ok)

theorem waksman_configure_correct_witness:
  "\<exists>cfg. waksman_configure (map Some [2, 0, 3, 1]) = Some (Inr cfg) \<and> wk_config_ok 1 cfg
    \<and> (\<forall>i < length [2, 0, 3, 1 :: nat]. wk_source cfg 0 0 1 i = [2, 0, 3, 1] ! i)"
proof -
  have "is_perm [2, 0, 3, 1]" "length [2, 0, 3, 1 :: nat] = 2 ^ (1 + 1)" by (auto simp: is_perm_def)
  from waksman_configure_correct [OF this] show ?thesis .
qed

end
