(* ===== verification/ShuffleNet.thy ===== *)
theory ShuffleNet
  imports Waksman
begin

section \<open>The rounds of a shuffle (Protocols/SecureShuffle.hpp)\<close>

text \<open>
  A list of shared values goes through a permutation network whose switches are shared bits; every column is one round of
  multiplications. The template parameter \<open>T\<close> with its operators, the protocol and the opening are a record of functions. All parties
  run the same steps whatever their shares are, so the model has them run together: a value of type \<open>'t\<close> is the shares of all
  parties of one value, an operation of the protocol is what it does at all of them. A list of units of several values is flat.
\<close>

subsection \<open>State and protocol\<close>

text \<open>
  \<open>init_mul\<close>, \<open>prepare_mul\<close> for every pair, \<open>exchange\<close>, \<open>finalize_mul\<close> for every product are one function; the
  same goes for opening, for the input of one player and for the sum of products, which is computed by a protocol of its own and
  then checked. \<open>'s\<close> is the state of the protocol, \<open>'a\<close> the type of clear values.
\<close>

record ('t, 'a, 's) shuffle_ops =
  so_malicious :: bool
  so_zero :: 't
  so_one :: 't
  so_add :: "'t \<Rightarrow> 't \<Rightarrow> 't"
  so_sub :: "'t \<Rightarrow> 't \<Rightarrow> 't"
  so_muls :: "('t \<times> 't) list \<Rightarrow> 's \<Rightarrow> ('t list \<times> 's) result"
  so_opens :: "'t list \<Rightarrow> 's \<Rightarrow> ('a list \<times> 's) result"
  so_inputs :: "nat \<Rightarrow> 'a list \<Rightarrow> 's \<Rightarrow> ('t list \<times> 's) result"
  so_dotprod :: "('t \<times> 't) list \<Rightarrow> 's \<Rightarrow> ('t \<times> 's) result"
  so_check :: "'s \<Rightarrow> 's result"
  so_relevant :: "nat list"

record 't shuffle =
  sh_to_shuffle :: "'t list"
  sh_config :: "'t list list"
  sh_tmp :: "'t list"
  sh_unit_size :: nat
  sh_n_shuffle :: nat
  sh_exact :: bool
  sh_stats :: "nat \<Rightarrow> nat"

definition shuffle_new :: "'t shuffle" where
  "shuffle_new = \<lparr>sh_to_shuffle = [], sh_config = [], sh_tmp = [], sh_unit_size = 0, sh_n_shuffle = 0, sh_exact = False, sh_stats = \<lambda>_. 0\<rparr>"

subsection \<open>One round\<close>

text \<open>The positions of the \<open>k\<close>-th switch of a column: inputs, outputs, bit.\<close>

record switch =
  sw_in1 :: nat
  sw_in2 :: nat
  sw_out1 :: nat
  sw_out2 :: nat
  sw_bit :: nat

definition round_switch :: "nat \<Rightarrow> nat \<Rightarrow> bool \<Rightarrow> bool \<Rightarrow> nat \<Rightarrow> switch" where
  "round_switch n depth inwards reverse k =
     (let size = n div (2 * 2 ^ depth); outwards = (\<not> inwards);
          j = k mod size; i = k div size; base = 2 * i * size;
          in1 = base + j + j * of_bool inwards; out1 = base + j + j * of_bool outwards
      in \<lparr>sw_in1 = in1, sw_in2 = in1 + of_bool inwards + size * of_bool outwards,
          sw_out1 = out1, sw_out2 = out1 + of_bool outwards + size * of_bool inwards,
          sw_bit = base + j + size * of_bool (outwards \<noteq> reverse)\<rparr>)"

text \<open>What is multiplied, in the order of preparation; the switches that matter only.\<close>

definition round_products :: "('t, 'a, 's) shuffle_ops \<Rightarrow> waksman \<Rightarrow> nat \<Rightarrow> bool \<Rightarrow> bool \<Rightarrow> nat \<Rightarrow> 't list \<Rightarrow> 't list \<Rightarrow> ('t \<times> 't) list" where
  "round_products ops w depth inwards reverse u row ts =
     concat (map (\<lambda>k. let sw = round_switch (wk_n_elements w) depth inwards reverse k in
       if matters w depth (sw_bit sw)
       then map (\<lambda>l. (row ! sw_bit sw, so_sub ops (ts ! (sw_in1 sw * u + l)) (ts ! (sw_in2 sw * u + l)))) [0..<u] else [])
       [0..<wk_n_elements w div 2])"

text \<open>The loop that writes the outputs, which takes the products in the same order.\<close>

definition round_write :: "('t, 'a, 's) shuffle_ops \<Rightarrow> waksman \<Rightarrow> nat \<Rightarrow> bool \<Rightarrow> bool \<Rightarrow> nat \<Rightarrow> 't list \<Rightarrow> nat \<times> nat
    \<Rightarrow> 't list \<times> 't list \<Rightarrow> ('t list \<times> 't list) result" where
  "round_write ops w depth inwards reverse u ts = (\<lambda>(k, l) (tmp, products).
     (let sw = round_switch (wk_n_elements w) depth inwards reverse k in
      bind_result (if matters w depth (sw_bit sw) then (case products of [] \<Rightarrow> Inl undefined_behaviour | d # ds \<Rightarrow> Inr (d, ds))
          else Inr (so_zero ops, products)) (\<lambda>(diff, products).
      Inr (tmp[sw_out1 sw * u + l := so_sub ops (ts ! (sw_in1 sw * u + l)) diff,
               sw_out2 sw * u + l := so_add ops (ts ! (sw_in2 sw * u + l)) diff], products))))"

definition waksman_round :: "('t, 'a, 's) shuffle_ops \<Rightarrow> nat \<Rightarrow> bool \<Rightarrow> bool \<Rightarrow> 't shuffle \<times> 's \<Rightarrow> ('t shuffle \<times> 's) result" where
  "waksman_round ops depth inwards reverse = (\<lambda>(sh, s).
     (let ts = sh_to_shuffle sh; u = sh_unit_size sh; n = length ts div u in
      if length (sh_config sh) \<le> depth then Inl out_of_range
      else if length (sh_config sh ! depth) \<noteq> n then Inl assertion_failed
      else bind_result (waksman_new n) (\<lambda>w.
        bind_result (so_muls ops (round_products ops w depth inwards reverse u (sh_config sh ! depth) ts) s) (\<lambda>(products, s).
        bind_result (foldM_result (round_write ops w depth inwards reverse u ts) (List.product [0..<n div 2] [0..<u])
            (vec_resize (so_zero ops) (length ts) (sh_tmp sh), products)) (\<lambda>(tmp, _).
          Inr (sh\<lparr>sh_to_shuffle := tmp, sh_tmp := ts\<rparr>, s))))))"

definition iter_waksman :: "('t, 'a, 's) shuffle_ops \<Rightarrow> bool \<Rightarrow> 't shuffle \<times> 's \<Rightarrow> ('t shuffle \<times> 's) result" where
  "iter_waksman ops reverse = (\<lambda>(sh, s).
     (let L = int_log2 (length (sh_to_shuffle sh) div sh_unit_size sh) in
      foldM_result (\<lambda>(depth, inwards). waksman_round ops depth inwards reverse)
        (map (\<lambda>d. (d, True)) [0..<L] @ map (\<lambda>d. (d, False)) (rev [0..<L - 1])) (sh, s)))"

subsection \<open>Where an output comes from\<close>

text \<open>The first output of a switch of an inward round: \<open>k\<close> and the sizes of the blocks before it.\<close>

definition spread :: "nat \<Rightarrow> nat \<Rightarrow> nat" where
  "spread sz k = k + k div sz * sz"

lemma spread_div: "0 < sz \<Longrightarrow> spread sz k div sz = 2 * (k div sz)"
  and spread_mod: "spread sz k mod sz = k mod sz"
  by (simp_all add: spread_def)

lemma spread_inj: "0 < sz \<Longrightarrow> spread sz k = spread sz k' \<Longrightarrow> k = k'"
  by (metis div_mod_decomp nonzero_mult_div_cancel_left spread_div spread_mod zero_neq_numeral)

lemma spread_next: "0 < sz \<Longrightarrow> spread sz k + sz \<noteq> spread sz k'"
proof
  assume "0 < sz" "spread sz k + sz = spread sz k'"
  then have "Suc (2 * (k div sz)) = 2 * (k' div sz)" using spread_div [of sz k] spread_div [of sz k'] by (metis Suc_eq_plus1 div_add_self2 less_not_refl)
  then show False by (simp only: Suc_double_not_eq_double)
qed

lemma spread_eq: "2 * (k div sz) * sz + k mod sz = spread sz k" "2 * (k mod sz) + 2 * (k div sz) * sz = 2 * k" "spread sz k + k mod sz = 2 * k"
proof -
  have "k div sz * sz + k mod sz = k" "2 * (k div sz) * sz = 2 * (k div sz * sz)" by simp_all
  then show "2 * (k div sz) * sz + k mod sz = spread sz k" "2 * (k mod sz) + 2 * (k div sz) * sz = 2 * k" "spread sz k + k mod sz = 2 * k" unfolding spread_def by linarith+
qed

lemma round_switch_inwards:
  "round_switch n d True r k = (let sz = n div (2 * 2 ^ d) in \<lparr>sw_in1 = 2 * k, sw_in2 = 2 * k + 1, sw_out1 = spread sz k,
     sw_out2 = spread sz k + sz, sw_bit = spread sz k + sz * of_bool r\<rparr>)"
  by (simp add: round_switch_def Let_def spread_eq)

lemma round_switch_outwards:
  "round_switch n d False r k = (let sz = n div (2 * 2 ^ d) in \<lparr>sw_in1 = spread sz k, sw_in2 = spread sz k + sz, sw_out1 = 2 * k,
     sw_out2 = 2 * k + 1, sw_bit = spread sz k + sz * of_bool (\<not> r)\<rparr>)"
  by (simp add: round_switch_def Let_def spread_eq)

definition round_source :: "(nat \<Rightarrow> bool) \<Rightarrow> nat \<Rightarrow> nat \<Rightarrow> bool \<Rightarrow> bool \<Rightarrow> nat \<Rightarrow> nat" where
  "round_source row n d inwards r p = (let sz = n div (2 * 2 ^ d) in
     if inwards then let k = p div (2 * sz) * sz + p mod sz in 2 * k + of_bool (row (spread sz k + sz * of_bool r) \<noteq> odd (p div sz))
     else let k = p div 2 in spread sz k + sz * of_bool (row (spread sz k + sz * of_bool (\<not> r)) \<noteq> odd p))"

lemma block_size:
  fixes n :: nat
  assumes "n = 2 ^ (k + 1)" "d \<le> k"
  shows "n div (2 * 2 ^ d) = 2 ^ (k - d)" "n = 2 * 2 ^ d * 2 ^ (k - d)" "0 < n div (2 * 2 ^ d)"
proof -
  have "(2 :: nat) ^ d * 2 ^ (k - d) = 2 ^ k" using assms(2) by (simp flip: power_add)
  then show n: "n = 2 * 2 ^ d * 2 ^ (k - d)" using assms(1) by simp
  then show "n div (2 * 2 ^ d) = 2 ^ (k - d)" "0 < n div (2 * 2 ^ d)" by simp_all
qed

lemma spread_bound:
  assumes "i < b * sz"
  shows "spread sz i + sz < 2 * b * sz" "i div sz < b"
proof -
  show b: "i div sz < b" using assms by (simp add: less_mult_imp_div_less)
  have "2 * (i div sz) * sz + 2 * sz \<le> 2 * b * sz" using mult_le_mono1 [OF Suc_leI [OF b], of "2 * sz"] by (simp add: algebra_simps)
  moreover have "i mod sz < sz" using assms by (cases "sz = 0") auto
  ultimately show "spread sz i + sz < 2 * b * sz" using spread_eq(1) [of i sz] by linarith
qed

lemma spread_half:
  assumes "0 < sz"
  shows "spread sz k div (2 * sz) * sz + spread sz k mod sz = k" "(spread sz k + sz) div (2 * sz) * sz + spread sz k mod sz = k"
    "(spread sz k + sz) div sz = Suc (2 * (k div sz))"
proof -
  show "(spread sz k + sz) div sz = Suc (2 * (k div sz))" using assms by (simp add: spread_div)
  then show "spread sz k div (2 * sz) * sz + spread sz k mod sz = k" "(spread sz k + sz) div (2 * sz) * sz + spread sz k mod sz = k"
    using assms by (simp_all add: div_mult2_eq mult.commute [of 2] spread_div spread_mod)
qed

text \<open>Every position is an output of exactly one switch.\<close>

lemma round_source_outputs:
  assumes "n = 2 ^ (k + 1)" "d \<le> k" "i < n div 2" and sw: "sw = round_switch n d inwards r i"
  shows "round_source row n d inwards r (sw_out1 sw) = (if row (sw_bit sw) then sw_in2 sw else sw_in1 sw)"
    "round_source row n d inwards r (sw_out2 sw) = (if row (sw_bit sw) then sw_in1 sw else sw_in2 sw)"
    "sw_in1 sw < n" "sw_in2 sw < n" "sw_out1 sw < n" "sw_out2 sw < n" "sw_bit sw < n"
proof -
  define sz where "sz = n div (2 * 2 ^ d)"
  have sz: "0 < sz" "n = 2 * 2 ^ d * sz" using block_size [OF assms(1,2)] by (simp_all add: sz_def)
  then have i: "i < 2 ^ d * sz" using assms(3) by simp
  have b: "spread sz i + sz < n" "2 * i + 1 < n" using spread_bound [OF i] sz(2) i by simp_all
  have "round_source row n d inwards r (sw_out1 sw) = (if row (sw_bit sw) then sw_in2 sw else sw_in1 sw)
      \<and> round_source row n d inwards r (sw_out2 sw) = (if row (sw_bit sw) then sw_in1 sw else sw_in2 sw)
      \<and> sw_in1 sw < n \<and> sw_in2 sw < n \<and> sw_out1 sw < n \<and> sw_out2 sw < n \<and> sw_bit sw < n"
  proof (cases inwards)
    case True
    then have sw': "sw = \<lparr>sw_in1 = 2 * i, sw_in2 = 2 * i + 1, sw_out1 = spread sz i, sw_out2 = spread sz i + sz, sw_bit = spread sz i + sz * of_bool r\<rparr>"
      using sw by (simp only: round_switch_inwards Let_def sz_def)
    show ?thesis
      using b sz(1) True unfolding sw' round_source_def sz_def [symmetric] Let_def
      by (cases r) (simp_all add: spread_half spread_div)
  next
    case False
    then have sw': "sw = \<lparr>sw_in1 = spread sz i, sw_in2 = spread sz i + sz, sw_out1 = 2 * i, sw_out2 = 2 * i + 1, sw_bit = spread sz i + sz * of_bool (\<not> r)\<rparr>"
      using sw by (simp only: round_switch_outwards Let_def sz_def)
    show ?thesis
      using b sz(1) False unfolding sw' round_source_def sz_def [symmetric] Let_def
      by (cases r) simp_all
  qed
  then show "round_source row n d inwards r (sw_out1 sw) = (if row (sw_bit sw) then sw_in2 sw else sw_in1 sw)"
    "round_source row n d inwards r (sw_out2 sw) = (if row (sw_bit sw) then sw_in1 sw else sw_in2 sw)"
    "sw_in1 sw < n" "sw_in2 sw < n" "sw_out1 sw < n" "sw_out2 sw < n" "sw_bit sw < n"
    by simp_all
qed

lemma round_source_less:
  assumes "n = 2 ^ (k + 1)" "d \<le> k" "p < n"
  shows "\<exists>i < n div 2. p = sw_out1 (round_switch n d inwards r i) \<or> p = sw_out2 (round_switch n d inwards r i)"
proof (cases inwards)
  case False
  have "p div 2 < n div 2" "p = 2 * (p div 2) \<or> p = 2 * (p div 2) + 1" using assms(1,3) by auto
  then show ?thesis using False by (intro exI [of _ "p div 2"]) (simp add: round_switch_outwards Let_def)
next
  case True
  define sz where "sz = n div (2 * 2 ^ d)"
  have sz: "0 < sz" "n = 2 * 2 ^ d * sz" using block_size [OF assms(1,2)] by (simp_all add: sz_def)
  define i where "i = p div sz div 2 * sz + p mod sz"
  have q: "p div sz < 2 * 2 ^ d" using assms(3) sz by (simp add: less_mult_imp_div_less)
  have "i < Suc (p div sz div 2) * sz" using sz(1) by (simp add: i_def)
  also have "\<dots> \<le> 2 ^ d * sz" using q by (intro mult_le_mono1) linarith
  finally have "i < n div 2" using sz(2) by simp
  have "i div sz = p div sz div 2" "i mod sz = p mod sz" using sz(1) by (simp_all add: i_def)
  then have "spread sz i = 2 * (p div sz div 2) * sz + p mod sz" using spread_eq(1) [of i sz] by simp
  moreover have "p = p div sz * sz + p mod sz" by simp
  moreover have "a = 2 * (a div 2) \<or> a = 2 * (a div 2) + 1" for a :: nat by presburger
  ultimately have "p = spread sz i \<or> p = spread sz i + sz"
    by (metis add.assoc add.commute add_mult_distrib mult_1)
  then show ?thesis using True \<open>i < n div 2\<close> by (intro exI [of _ i]) (simp add: round_switch_inwards Let_def sz_def [symmetric])
qed

subsection \<open>All rounds\<close>

text \<open>Where an output of a sequence of rounds comes from; the rounds from depth \<open>d\<close> on, inwards and outwards.\<close>

definition path :: "bool list list \<Rightarrow> nat \<Rightarrow> bool \<Rightarrow> (nat \<times> bool) list \<Rightarrow> nat \<Rightarrow> nat" where
  "path cfg n r = foldr (\<lambda>(d, inwards). round_source (\<lambda>j. cfg ! d ! j) n d inwards r)"

definition rounds_from :: "nat \<Rightarrow> nat \<Rightarrow> (nat \<times> bool) list" where
  "rounds_from d k = map (\<lambda>d. (d, True)) [d..<k + 1] @ map (\<lambda>d. (d, False)) (rev [d..<k])"

lemma path_base: "path cfg n r (rounds_from k k) p = round_source (\<lambda>j. cfg ! k ! j) n k True r p"
  by (simp add: path_def rounds_from_def)

lemma path_step:
  "d < k \<Longrightarrow> path cfg n r (rounds_from d k) p =
    round_source (\<lambda>j. cfg ! d ! j) n d True r (path cfg n r (rounds_from (Suc d) k) (round_source (\<lambda>j. cfg ! d ! j) n d False r p))"
  by (simp add: path_def rounds_from_def upt_conv_Cons)

lemma round_source_bound:
  assumes "n = 2 ^ (k + 1)" "d \<le> k" "p < n"
  shows "round_source row n d inwards r p < n"
  using round_source_less [OF assms, of inwards r] round_source_outputs(1,2) [where inwards = inwards and r = r and row = row, OF assms(1,2) _ refl]
    round_source_outputs(3,4) [where inwards = inwards and r = r, OF assms(1,2) _ refl]
  by (auto split: if_splits)

lemma spread_decode:
  assumes "0 < sz"
  shows "(spread sz k + sz * of_bool b) div (2 * sz) * sz + (spread sz k + sz * of_bool b) mod sz = k"
    "odd ((spread sz k + sz * of_bool b) div sz) \<longleftrightarrow> b"
  using spread_half [OF assms, of k] assms by (cases b; simp add: spread_div)+

lemma spread_encode:
  assumes "0 < sz"
  shows "spread sz (p div (2 * sz) * sz + p mod sz) + sz * of_bool (odd (p div sz)) = p"
proof -
  let ?k = "p div (2 * sz) * sz + p mod sz"
  have "?k div sz = p div sz div 2" "?k mod sz = p mod sz" using assms by (simp_all add: div_mult2_eq mult.commute [of 2])
  then have "spread sz ?k = 2 * (p div sz div 2) * sz + p mod sz" using spread_eq(1) [of ?k sz] by simp
  moreover have "(2 * (p div sz div 2) + of_bool (odd (p div sz))) * sz + p mod sz = p" by (simp only: pair_eq) simp
  ultimately show ?thesis by (simp add: algebra_simps)
qed

lemma round_source_inverse:
  assumes "n = 2 ^ (k + 1)" "d \<le> k"
  shows "round_source row n d True r (round_source row n d False (\<not> r) p) = p"
    and "round_source row n d False (\<not> r) (round_source row n d True r p) = p"
proof -
  define sz where "sz = n div (2 * 2 ^ d)"
  have sz: "0 < sz" using block_size [OF assms] by (simp add: sz_def)
  let ?k = "p div (2 * sz) * sz + p mod sz"
  define X where "X k = row (spread sz k + sz * of_bool r)" for k
  have False': "round_source row n d False (\<not> r) q = spread sz (q div 2) + sz * of_bool (X (q div 2) \<noteq> odd q)" for q
    by (simp add: round_source_def Let_def sz_def [symmetric] X_def)
  have True': "round_source row n d True r q = 2 * (q div (2 * sz) * sz + q mod sz) + of_bool (X (q div (2 * sz) * sz + q mod sz) \<noteq> odd (q div sz))" for q
    by (simp add: round_source_def Let_def sz_def [symmetric] X_def)
  have eq: "(a \<noteq> (a \<noteq> b)) = b" for a b by blast
  show "round_source row n d True r (round_source row n d False (\<not> r) p) = p"
    unfolding True' False' spread_decode [OF sz] eq pair_eq ..
  have half: "(2 * a + of_bool b) div 2 = a" "odd (2 * a + of_bool b) = b" for a :: nat and b by (cases b; simp)+
  show "round_source row n d False (\<not> r) (round_source row n d True r p) = p"
    unfolding False' True' half eq by (rule spread_encode [OF sz])
qed

text \<open>The innermost column is its own inverse because its bits are doubled.\<close>

lemma round_source_innermost:
  assumes "wk_config_ok k cfg" "n = 2 ^ (k + 1)" "p < n"
  shows "round_source (\<lambda>j. cfg ! k ! j) n k True r p = 2 * (p div 2) + of_bool (cfg ! k ! (2 * (p div 2)) \<noteq> odd p)"
proof -
  have sz: "n div (2 * 2 ^ k) = 1" using block_size(1) [OF assms(2), of k] by simp
  have "p div 2 < 2 ^ k" using assms(2,3) by simp
  then have "2 * (p div 2) + 1 < 2 ^ (k + 1)" by simp
  then have "cfg ! k ! (2 * (p div 2) + 1) = cfg ! k ! (2 * (p div 2))" using assms(1) by (simp add: wk_config_ok_def)
  moreover have "spread 1 (p div 2) = 2 * (p div 2)" by (simp add: spread_def)
  ultimately show ?thesis unfolding round_source_def sz Let_def by (cases r) simp_all
qed

lemma path_bound: "n = 2 ^ (k + 1) \<Longrightarrow> d \<le> k \<Longrightarrow> p < n \<Longrightarrow> path cfg n r (rounds_from d k) p < n"
proof (induction "k - d" arbitrary: d p)
  case 0
  then show ?case by (simp add: path_base round_source_bound)
next
  case (Suc x)
  have "path cfg n r (rounds_from (Suc d) k) (round_source (\<lambda>j. cfg ! d ! j) n d False r p) < n"
    using Suc.hyps(2) Suc.prems by (intro Suc.hyps(1)) (simp_all add: round_source_bound)
  then show ?case using Suc.hyps(2) Suc.prems by (simp add: path_step round_source_bound)
qed

lemma path_inverse:
  assumes "wk_config_ok k cfg" "n = 2 ^ (k + 1)"
  shows "d \<le> k \<Longrightarrow> p < n \<Longrightarrow> path cfg n (\<not> r) (rounds_from d k) (path cfg n r (rounds_from d k) p) = p"
proof (induction "k - d" arbitrary: d p)
  case 0
  then have d: "d = k" by simp
  let ?b = "cfg ! k ! (2 * (p div 2))"
  have "(2 * (p div 2) + of_bool c) div 2 = p div 2" "odd (2 * (p div 2) + of_bool c) = c" for c by (cases c; simp)+
  moreover have "(a \<noteq> (a \<noteq> b)) = b" for a b by blast
  moreover have "round_source (\<lambda>j. cfg ! k ! j) n k True r p < n" using round_source_bound [OF assms(2) _ 0(3)] by simp
  ultimately show ?case
    using 0(3) by (simp add: d path_base round_source_innermost [OF assms] pair_eq)
next
  case (Suc x)
  let ?out = "round_source (\<lambda>j. cfg ! d ! j) n d False" and ?in = "round_source (\<lambda>j. cfg ! d ! j) n d True" and ?in_path = "path cfg n r (rounds_from (Suc d) k)"
  have dk: "d < k" "Suc d \<le> k" "x = k - Suc d" using Suc.hyps(2) by simp_all
  have out: "?out r p < n" using round_source_bound [OF assms(2) _ Suc.prems(2)] dk by simp
  have "path cfg n (\<not> r) (rounds_from d k) (path cfg n r (rounds_from d k) p)
      = ?in (\<not> r) (path cfg n (\<not> r) (rounds_from (Suc d) k) (?out (\<not> r) (?in r (?in_path (?out r p)))))"
    by (simp only: path_step [OF dk(1)])
  also have "\<dots> = ?in (\<not> r) (path cfg n (\<not> r) (rounds_from (Suc d) k) (?in_path (?out r p)))"
    using round_source_inverse(2) [OF assms(2), of d] dk by simp
  also have "\<dots> = ?in (\<not> r) (?out r p)" using Suc.hyps(1) [OF dk(3,2) out] by simp
  also have "\<dots> = p" using round_source_inverse(1) [OF assms(2), of d _ "\<not> r"] dk by simp
  finally show ?case .
qed

text \<open>In reverse mode the rounds do what the recursive network does.\<close>

lemma path_source:
  assumes "wk_config_ok k cfg" "n = 2 ^ (k + 1)"
  shows "d \<le> k \<Longrightarrow> i < 2 ^ (k - d + 1) \<Longrightarrow> s = b * 2 ^ (k - d + 1) \<Longrightarrow> s < n \<Longrightarrow>
    path cfg n True (rounds_from d k) (s + i) = s + wk_source cfg d s (k - d) i"
proof (induction "k - d" arbitrary: d s b i)
  case 0
  then have d: "d = k" and i: "i < 2" and s: "s = 2 * b" by simp_all
  have "s + i < n" using 0(5) assms(2) i s by simp
  then have "path cfg n True (rounds_from k k) (s + i) = s + of_bool (cfg ! k ! s \<noteq> odd i)"
    using i s by (simp add: path_base round_source_innermost [OF assms])
  then show ?case using i by (auto simp: d less_2_cases_iff)
next
  case (Suc x)
  define m :: nat where "m = 2 ^ (k - d)"
  have dk: "d < k" "Suc d \<le> k" "x = k - Suc d" "k - d = Suc (k - Suc d)" using Suc.hyps(2) by simp_all
  have m: "0 < m" "n div (2 * 2 ^ d) = m" "2 ^ (k - d + 1) = 2 * m" "2 ^ (k - Suc d + 1) = m"
    using block_size(1) [OF assms(2) Suc.prems(1)] dk(4) by (simp_all add: m_def)
  have i: "i div 2 < m" using Suc.prems(2) m by simp
  have s: "s = 2 * b * m" using Suc.prems(3) m by simp
  let ?first = "odd i = cfg ! d ! (s + i div 2)"
  define y where "y = wk_source cfg (Suc d) (if ?first then s else s + m) (k - Suc d) (i div 2)"
  have y: "y < m" unfolding y_def using wk_source_less [of "i div 2" "k - Suc d"] i m by simp
  have "(s + i) div 2 = b * m + i div 2" by (simp add: s)
  then have "round_source (\<lambda>j. cfg ! d ! j) n d False True (s + i) = (if ?first then s else s + m) + i div 2"
  proof -
    have "spread m ((s + i) div 2) = s + i div 2" "odd (s + i) = odd i" using i by (simp_all add: \<open>(s + i) div 2 = _\<close>) (simp_all add: spread_def s)
    then have "round_source (\<lambda>j. cfg ! d ! j) n d False True (s + i) = s + i div 2 + m * of_bool (cfg ! d ! (s + i div 2) \<noteq> odd i)"
      by (simp only: round_source_def m(2) Let_def if_False not_True_eq_False of_bool_eq mult_0_right add_0_right)
    then show ?thesis by (cases "odd i = cfg ! d ! (s + i div 2)") auto
  qed
  moreover have "path cfg n True (rounds_from (Suc d) k) ((if ?first then s else s + m) + i div 2) = (if ?first then s else s + m) + y"
  proof -
    have "s = (2 * b) * 2 ^ (k - Suc d + 1)" "s + m = (2 * b + 1) * 2 ^ (k - Suc d + 1)" unfolding m by (simp_all add: s algebra_simps)
    then have "\<exists>b'. s = b' * 2 ^ (k - Suc d + 1)" "\<exists>b'. s + m = b' * 2 ^ (k - Suc d + 1)" by blast+
    then have "\<exists>b'. (if ?first then s else s + m) = b' * 2 ^ (k - Suc d + 1)" by (simp only: split: if_split) blast
    then obtain b' where "(if ?first then s else s + m) = b' * 2 ^ (k - Suc d + 1)" ..
    moreover have "(if ?first then s else s + m) < n"
    proof -
      have "n = 2 ^ d * (2 * m)" using block_size(2) [OF assms(2) Suc.prems(1)] by (simp add: m_def)
      moreover from this have "b < 2 ^ d" using Suc.prems(4) m(1) by (simp add: s)
      then have "Suc b * (2 * m) \<le> 2 ^ d * (2 * m)" by (intro mult_le_mono1) simp
      ultimately have "s + m < n" using m(1) by (simp add: s)
      then show ?thesis using Suc.prems(4) by simp
    qed
    moreover have "i div 2 < 2 ^ (k - Suc d + 1)" using i m(4) by simp
    ultimately show ?thesis unfolding y_def by (intro Suc.hyps(1) [OF dk(3,2)])
  qed
  moreover have "round_source (\<lambda>j. cfg ! d ! j) n d True True ((if ?first then s else s + m) + y)
      = s + 2 * y + of_bool (cfg ! d ! (s + m + y) = ?first)"
  proof -
    let ?q = "(if ?first then s else s + m) + y"
    have q: "?q = (2 * b + of_bool (\<not> ?first)) * m + y"
    proof -
      have "(if c then s else s + m) = (2 * b + of_bool (\<not> c)) * m" for c by (cases c) (simp_all add: s algebra_simps)
      from this [of ?first] show ?thesis by (simp only:)
    qed
    have half: "(2 * b + of_bool c) div 2 = b" "odd (2 * b + of_bool c) = c" for c by (cases c; simp)+
    have "?q div m = 2 * b + of_bool (\<not> ?first)" "?q mod m = y" unfolding q using y by simp_all
    then have D: "odd (?q div m) \<longleftrightarrow> \<not> ?first" "?q div (2 * m) * m + ?q mod m = b * m + y"
      by (simp_all only: half div_mult2_eq mult.commute [of 2 m])
    have "spread m (b * m + y) = s + y" "2 * (b * m + y) = s + 2 * y" using y by (simp_all add: spread_def s)
    then show ?thesis
      unfolding round_source_def m(2) Let_def D by (cases "odd i"; cases "cfg ! d ! (s + i div 2)") (simp_all add: add.commute add.left_commute)
  qed
  moreover have "wk_source cfg d s (k - d) i = 2 * y + of_bool (cfg ! d ! (s + m + y) = ?first)"
    unfolding dk(4) wk_source.simps(2) Let_def m(4) y_def by (simp only: Suc_eq_plus1)
  ultimately show ?case
    by (simp only: path_step [OF dk(1)] add.assoc)
qed

lemma unit_index: "p < n \<Longrightarrow> l < u \<Longrightarrow> p * u + l < n * (u :: nat)"
  using mult_le_mono1 [of "Suc p" n u] by simp

lemma unit_index_inj: "l < u \<Longrightarrow> l' < u \<Longrightarrow> p * u + l = p' * u + l' \<Longrightarrow> p = p' \<and> l = (l' :: nat)"
  by (metis add.commute div_mult_self1_is_m div_mult_self3 mod_less mod_mult_self3 add_cancel_right_left bot_nat_0.not_eq_extremum div_less less_nat_zero_code)

subsection \<open>Rounds on shared values\<close>

text \<open>
  What the rounds need of the protocol: linear operations on what is shared, a multiplication that succeeds while the protocol is
  \<open>ready\<close> for so many products.
\<close>

locale shuffle_protocol =
  fixes ops :: "('t, 'b :: comm_ring_1, 's) shuffle_ops" and holds :: "'t \<Rightarrow> 'b :: comm_ring_1 \<Rightarrow> bool" and ready :: "nat \<Rightarrow> 's \<Rightarrow> bool"
  assumes holds_zero: "holds (so_zero ops) 0"
    and holds_add: "holds x a \<Longrightarrow> holds y b \<Longrightarrow> holds (so_add ops x y) (a + b)"
    and holds_sub: "holds x a \<Longrightarrow> holds y b \<Longrightarrow> holds (so_sub ops x y) (a - b)"
    and ready_mono: "ready m s \<Longrightarrow> m' \<le> m \<Longrightarrow> ready m' s"
    and muls: "ready (length ps + r) s \<Longrightarrow> (\<And>i. i < length ps \<Longrightarrow> holds (fst (ps ! i)) (f i) \<and> holds (snd (ps ! i)) (g i)) \<Longrightarrow>
      \<exists>zs s'. so_muls ops ps s = Inr (zs, s') \<and> length zs = length ps \<and> ready r s' \<and> (\<forall>i < length ps. holds (zs ! i) (f i * g i))"
begin

lemma round_write_ok:
  fixes bit :: "nat \<Rightarrow> bool" and val :: "nat \<Rightarrow> 'b" and w :: waksman and d u :: nat and inwards r :: bool and ts :: "'t list"
  defines "sw \<equiv> \<lambda>x. round_switch (wk_n_elements w) d inwards r (fst x)"
  defines "p1 \<equiv> \<lambda>x. sw_out1 (sw x) * u + snd x" and "p2 \<equiv> \<lambda>x. sw_out2 (sw x) * u + snd x"
    and "v1 \<equiv> \<lambda>x. val (sw_in1 (sw x) * u + snd x)" and "v2 \<equiv> \<lambda>x. val (sw_in2 (sw x) * u + snd x)"
    and "run \<equiv> \<lambda>x. matters w d (sw_bit (sw x))" and "b \<equiv> \<lambda>x. bit (sw_bit (sw x))"
  assumes "\<And>x. x \<in> set xs \<Longrightarrow> p1 x < length tmp \<and> p2 x < length tmp \<and> (\<not> run x \<longrightarrow> \<not> b x)
      \<and> holds (ts ! (sw_in1 (sw x) * u + snd x)) (v1 x) \<and> holds (ts ! (sw_in2 (sw x) * u + snd x)) (v2 x)"
    and "distinct xs" "\<And>x y. x \<in> set xs \<Longrightarrow> y \<in> set xs \<Longrightarrow> p1 x \<noteq> p2 y \<and> (x \<noteq> y \<longrightarrow> p1 x \<noteq> p1 y \<and> p2 x \<noteq> p2 y)"
    and "length ds = length (filter run xs)" "\<And>i. i < length ds \<Longrightarrow> holds (ds ! i) (of_bool (b (filter run xs ! i)) * (v1 (filter run xs ! i) - v2 (filter run xs ! i)))"
  shows "\<exists>tmp'. foldM_result (round_write ops w d inwards r u ts) xs (tmp, ds) = Inr (tmp', []) \<and> length tmp' = length tmp
    \<and> (\<forall>x \<in> set xs. holds (tmp' ! p1 x) (if b x then v2 x else v1 x) \<and> holds (tmp' ! p2 x) (if b x then v1 x else v2 x))
    \<and> (\<forall>q. q \<notin> p1 ` set xs \<union> p2 ` set xs \<longrightarrow> tmp' ! q = tmp ! q)"
  using assms(8-)
proof (induction xs arbitrary: tmp ds)
  case (Cons x xs)
  let ?i1 = "ts ! (sw_in1 (sw x) * u + snd x)" and ?i2 = "ts ! (sw_in2 (sw x) * u + snd x)"
  have x: "p1 x < length tmp" "p2 x < length tmp" "\<not> run x \<longrightarrow> \<not> b x" "holds ?i1 (v1 x)" "holds ?i2 (v2 x)"
    using Cons.prems(1) [of x] by simp_all
  obtain diff rest where diff: "(if run x then (case ds of [] \<Rightarrow> Inl undefined_behaviour | d # ds \<Rightarrow> Inr (d, ds)) else Inr (so_zero ops, ds)) = Inr (diff, rest)"
    "holds diff (of_bool (b x) * (v1 x - v2 x))" "length rest = length (filter run xs)"
    "\<And>i. i < length rest \<Longrightarrow> holds (rest ! i) (of_bool (b (filter run xs ! i)) * (v1 (filter run xs ! i) - v2 (filter run xs ! i)))"
  proof (cases "run x")
    case True
    then obtain d' ds' where ds: "ds = d' # ds'" using Cons.prems(4) by (cases ds) auto
    show thesis
      using True Cons.prems(4) Cons.prems(5) [of 0] Cons.prems(5) [of "Suc _"] by (intro that [of d' ds']) (auto simp: ds)
  next
    case False
    then show thesis using Cons.prems(4,5) x(3) holds_zero by (intro that [of "so_zero ops" ds]) auto
  qed
  define o1 where "o1 = so_sub ops ?i1 diff"
  define o2 where "o2 = so_add ops ?i2 diff"
  have o: "holds o1 (if b x then v2 x else v1 x)" "holds o2 (if b x then v1 x else v2 x)"
    using holds_sub [OF x(4) diff(2)] holds_add [OF x(5) diff(2)] by (cases "b x"; simp add: o1_def o2_def)+
  let ?tmp = "tmp[p1 x := o1, p2 x := o2]"
  have step: "foldM_result (round_write ops w d inwards r u ts) (x # xs) (tmp, ds) = foldM_result (round_write ops w d inwards r u ts) xs (?tmp, rest)"
    using diff(1) by (cases x) (simp add: round_write_def Let_def run_def sw_def p1_def p2_def o1_def o2_def)
  have "\<exists>tmp'. foldM_result (round_write ops w d inwards r u ts) xs (?tmp, rest) = Inr (tmp', []) \<and> length tmp' = length ?tmp
    \<and> (\<forall>x \<in> set xs. holds (tmp' ! p1 x) (if b x then v2 x else v1 x) \<and> holds (tmp' ! p2 x) (if b x then v1 x else v2 x))
    \<and> (\<forall>q. q \<notin> p1 ` set xs \<union> p2 ` set xs \<longrightarrow> tmp' ! q = ?tmp ! q)"
  proof (rule Cons.IH)
    show "distinct xs" using Cons.prems(2) by simp
  qed (use Cons.prems(1,3) diff(3,4) in auto)
  then obtain tmp' where tmp': "foldM_result (round_write ops w d inwards r u ts) xs (?tmp, rest) = Inr (tmp', [])" "length tmp' = length tmp"
    "\<forall>x \<in> set xs. holds (tmp' ! p1 x) (if b x then v2 x else v1 x) \<and> holds (tmp' ! p2 x) (if b x then v1 x else v2 x)"
    "\<forall>q. q \<notin> p1 ` set xs \<union> p2 ` set xs \<longrightarrow> tmp' ! q = ?tmp ! q" by auto
  have "p1 x \<notin> p1 ` set xs \<union> p2 ` set xs" "p2 x \<notin> p1 ` set xs \<union> p2 ` set xs" "p1 x \<noteq> p2 x"
    using Cons.prems(2) Cons.prems(3) [of x] Cons.prems(3) [of _ x] by fastforce+
  then have "tmp' ! p1 x = o1" "tmp' ! p2 x = o2" using tmp'(4) x(1,2) by simp_all
  then show ?case using step tmp' o by (intro exI [of _ tmp']) auto
qed simp

lemma round_products_filter:
  "round_products ops w d inwards r u row ts =
    map (\<lambda>x. let sw = round_switch (wk_n_elements w) d inwards r (fst x) in
        (row ! sw_bit sw, so_sub ops (ts ! (sw_in1 sw * u + snd x)) (ts ! (sw_in2 sw * u + snd x))))
      (filter (\<lambda>x. matters w d (sw_bit (round_switch (wk_n_elements w) d inwards r (fst x)))) (List.product [0..<wk_n_elements w div 2] [0..<u]))"
proof -
  have "concat (map (\<lambda>k. if P k then map (f k) ls else []) ks) = map (\<lambda>x. f (fst x) (snd x)) (filter (\<lambda>x. P (fst x)) (List.product ks ls))"
    for P and f :: "nat \<Rightarrow> nat \<Rightarrow> 't \<times> 't" and ks ls
    by (induction ks) (simp_all add: comp_def)
  from this [where P = "\<lambda>k. matters w d (sw_bit (round_switch (wk_n_elements w) d inwards r k))"] show ?thesis
    by (simp add: round_products_def Let_def)
qed

text \<open>The shared configuration: shares of the bits that matter.\<close>

definition config_shared :: "nat \<Rightarrow> bool list list \<Rightarrow> 't list list \<Rightarrow> bool" where
  "config_shared k cfg config \<longleftrightarrow> wk_config_ok k cfg \<and> length config = k + 1
     \<and> (\<forall>d \<le> k. length (config ! d) = 2 ^ (k + 1)
         \<and> (\<forall>j < 2 ^ (k + 1). matters \<lparr>wk_n_elements = 2 ^ (k + 1), wk_nr = k + 1\<rparr> d j \<longrightarrow> holds (config ! d ! j) (of_bool (cfg ! d ! j))))"

definition units_shared :: "nat \<Rightarrow> nat \<Rightarrow> (nat \<Rightarrow> nat \<Rightarrow> 'b) \<Rightarrow> 't list \<Rightarrow> bool" where
  "units_shared n u val ts \<longleftrightarrow> length ts = n * u \<and> (\<forall>p < n. \<forall>l < u. holds (ts ! (p * u + l)) (val p l))"

lemma waksman_round_ok:
  assumes "d \<le> k" "0 < u" "sh_unit_size sh = u" "config_shared k cfg (sh_config sh)" "units_shared (2 ^ (k + 1)) u val (sh_to_shuffle sh)"
    and "ready (2 ^ k * u + m) s"
  shows "\<exists>sh' s'. waksman_round ops d inwards r (sh, s) = Inr (sh', s') \<and> ready m s' \<and> sh_unit_size sh' = u \<and> sh_config sh' = sh_config sh
    \<and> sh_n_shuffle sh' = sh_n_shuffle sh \<and> sh_exact sh' = sh_exact sh \<and> sh_stats sh' = sh_stats sh
    \<and> units_shared (2 ^ (k + 1)) u (\<lambda>p. val (round_source (\<lambda>j. cfg ! d ! j) (2 ^ (k + 1)) d inwards r p)) (sh_to_shuffle sh')"
proof -
  define n :: nat where "n = 2 ^ (k + 1)"
  define w where "w = \<lparr>wk_n_elements = n, wk_nr = k + 1\<rparr>"
  define sw where "sw i = round_switch n d inwards r i" for i
  define xs where "xs = List.product [0..<n div 2] [0..<u]"
  define run where "run = (\<lambda>x :: nat \<times> nat. matters w d (sw_bit (sw (fst x))))"
  let ?ts = "sh_to_shuffle sh" and ?row = "sh_config sh ! d"
  define v where "v q = val (q div u) (q mod u)" for q
  have ts: "length ?ts = n * u" and row: "length (sh_config sh) = k + 1" "length ?row = n" "wk_config_ok k cfg"
    using assms(1,4,5) by (simp_all add: units_shared_def config_shared_def n_def)
  have sw_less: "sw_in1 (sw i) < n" "sw_in2 (sw i) < n" "sw_out1 (sw i) < n" "sw_out2 (sw i) < n" "sw_bit (sw i) < n" if "i < n div 2" for i
    using round_source_outputs(3-7) [OF n_def assms(1) that refl] by (simp_all add: sw_def)
  have v: "holds (?ts ! (p * u + l)) (v (p * u + l))" "v (p * u + l) = val p l" if "p < n" "l < u" for p l
    using assms(5) that by (simp_all add: units_shared_def n_def v_def)
  have row_holds: "holds (?row ! j) (of_bool (cfg ! d ! j))" if "j < n" "matters w d j" for j
    using assms(1,4) that by (simp add: config_shared_def w_def n_def)
  have x: "fst x < n div 2" "snd x < u" if "x \<in> set xs" for x using that by (auto simp: xs_def)
  have n2: "n div 2 = 2 ^ k" by (simp add: n_def)
  let ?ps = "round_products ops w d inwards r u ?row ?ts"
  let ?pair = "\<lambda>x. (?row ! sw_bit (sw (fst x)), so_sub ops (?ts ! (sw_in1 (sw (fst x)) * u + snd x)) (?ts ! (sw_in2 (sw (fst x)) * u + snd x)))"
  let ?b = "\<lambda>x :: nat \<times> nat. cfg ! d ! sw_bit (sw (fst x))"
    and ?d = "\<lambda>x. v (sw_in1 (sw (fst x)) * u + snd x) - v (sw_in2 (sw (fst x)) * u + snd x)"
  have ps: "?ps = map ?pair (filter run xs)"
    by (simp add: round_products_filter w_def n_def run_def sw_def xs_def Let_def)
  have "length (filter run xs) \<le> length xs" by simp
  then have "length ?ps \<le> 2 ^ k * u" by (simp add: ps xs_def n2)
  then have rdy: "ready (length ?ps + m) s" by (intro ready_mono [OF assms(6)]) simp
  have "holds (fst (?ps ! i)) (of_bool (?b (filter run xs ! i))) \<and> holds (snd (?ps ! i)) (?d (filter run xs ! i))" if i: "i < length ?ps" for i
  proof -
    have y: "filter run xs ! i \<in> set xs" "run (filter run xs ! i)" using i nth_mem [of i "filter run xs"] by (auto simp: ps)
    let ?y = "filter run xs ! i"
    have "holds (fst (?pair ?y)) (of_bool (?b ?y))" using y row_holds [OF sw_less(5) [OF x(1) [OF y(1)]]] by (simp add: run_def)
    moreover have "holds (snd (?pair ?y)) (?d ?y)"
      using v(1) [OF sw_less(1) x(2)] v(1) [OF sw_less(2) x(2)] x(1) y(1) by (simp add: holds_sub)
    ultimately show ?thesis using i by (simp add: ps)
  qed
  from muls [OF rdy this] obtain zs s' where zs: "so_muls ops ?ps s = Inr (zs, s')" "length zs = length ?ps" "ready m s'"
    "\<forall>i < length ?ps. holds (zs ! i) (of_bool (?b (filter run xs ! i)) * ?d (filter run xs ! i))" by blast
  have pos: "sw_out1 (sw i) = sw_out1 (sw j) \<longrightarrow> i = j" "sw_out2 (sw i) = sw_out2 (sw j) \<longrightarrow> i = j" "sw_out1 (sw i) \<noteq> sw_out2 (sw j)" for i j
  proof -
    have sz: "0 < n div (2 * 2 ^ d)" using block_size [OF n_def assms(1)] by simp
    have "2 * i \<noteq> Suc (2 * j)" by presburger
    then show "sw_out1 (sw i) = sw_out1 (sw j) \<longrightarrow> i = j" "sw_out2 (sw i) = sw_out2 (sw j) \<longrightarrow> i = j" "sw_out1 (sw i) \<noteq> sw_out2 (sw j)"
      using spread_inj [OF sz] spread_next [OF sz, of j i]
      by (cases inwards; auto simp: sw_def round_switch_inwards round_switch_outwards Let_def)+
  qed
  let ?tmp = "vec_resize (so_zero ops) (length ?ts) (sh_tmp sh)"
  have "\<exists>tmp'. foldM_result (round_write ops w d inwards r u ?ts) xs (?tmp, zs) = Inr (tmp', []) \<and> length tmp' = length ?tmp
    \<and> (\<forall>x \<in> set xs. holds (tmp' ! (sw_out1 (sw (fst x)) * u + snd x)) (if ?b x then v (sw_in2 (sw (fst x)) * u + snd x) else v (sw_in1 (sw (fst x)) * u + snd x))
        \<and> holds (tmp' ! (sw_out2 (sw (fst x)) * u + snd x)) (if ?b x then v (sw_in1 (sw (fst x)) * u + snd x) else v (sw_in2 (sw (fst x)) * u + snd x)))"
  proof -
    have sw': "round_switch (wk_n_elements w) d inwards r i = sw i" for i by (simp add: w_def sw_def)
    note W = round_write_ok [where w = w and d = d and u = u and inwards = inwards and r = r and ts = "?ts" and val = v
        and bit = "\<lambda>j. cfg ! d ! j" and xs = xs and tmp = ?tmp and ds = zs, unfolded sw']
    have ex: "\<exists>t. A t \<and> B t \<and> C t \<and> D t \<Longrightarrow> \<exists>t. A t \<and> B t \<and> C t" for A B C D :: "'t list \<Rightarrow> bool" by blast
    show ?thesis
    proof (rule ex, rule W)
      fix x assume "x \<in> set xs"
      note b = sw_less [OF x(1) [OF this]] x(2) [OF this]
      have "\<not> matters w d (sw_bit (sw (fst x))) \<longrightarrow> \<not> ?b x"
        using row(3) assms(1) b(5) by (simp add: wk_config_ok_def w_def n_def)
      then show "sw_out1 (sw (fst x)) * u + snd x < length ?tmp \<and> sw_out2 (sw (fst x)) * u + snd x < length ?tmp
          \<and> (\<not> matters w d (sw_bit (sw (fst x))) \<longrightarrow> \<not> ?b x)
          \<and> holds (?ts ! (sw_in1 (sw (fst x)) * u + snd x)) (v (sw_in1 (sw (fst x)) * u + snd x))
          \<and> holds (?ts ! (sw_in2 (sw (fst x)) * u + snd x)) (v (sw_in2 (sw (fst x)) * u + snd x))"
        using b ts v(1) unit_index by simp
    next
      show "distinct xs" by (simp add: xs_def distinct_product)
    next
      fix x y assume xy: "x \<in> set xs" "y \<in> set xs"
      show "sw_out1 (sw (fst x)) * u + snd x \<noteq> sw_out2 (sw (fst y)) * u + snd y
          \<and> (x \<noteq> y \<longrightarrow> sw_out1 (sw (fst x)) * u + snd x \<noteq> sw_out1 (sw (fst y)) * u + snd y
                \<and> sw_out2 (sw (fst x)) * u + snd x \<noteq> sw_out2 (sw (fst y)) * u + snd y)"
        using unit_index_inj [OF x(2) [OF xy(1)] x(2) [OF xy(2)]] pos by (metis prod.collapse)
    qed (use zs(2,4) in \<open>simp_all add: ps run_def\<close>)
  qed
  then obtain tmp' where tmp': "foldM_result (round_write ops w d inwards r u ?ts) xs (?tmp, zs) = Inr (tmp', [])" "length tmp' = length ?tmp"
    "\<And>x. x \<in> set xs \<Longrightarrow> holds (tmp' ! (sw_out1 (sw (fst x)) * u + snd x)) (if ?b x then v (sw_in2 (sw (fst x)) * u + snd x) else v (sw_in1 (sw (fst x)) * u + snd x))
        \<and> holds (tmp' ! (sw_out2 (sw (fst x)) * u + snd x)) (if ?b x then v (sw_in1 (sw (fst x)) * u + snd x) else v (sw_in2 (sw (fst x)) * u + snd x))"
    by blast
  have "holds (tmp' ! (p * u + l)) (val (round_source (\<lambda>j. cfg ! d ! j) n d inwards r p) l)" if pl: "p < n" "l < u" for p l
  proof -
    obtain i where i: "i < n div 2" "p = sw_out1 (sw i) \<or> p = sw_out2 (sw i)"
      using round_source_less [OF n_def assms(1) pl(1)] by (auto simp: sw_def)
    have "(i, l) \<in> set xs" using i pl by (simp add: xs_def)
    from tmp'(3) [OF this] show ?thesis
      using i(2) round_source_outputs(1,2) [OF n_def assms(1) i(1) sw_def, of "\<lambda>j. cfg ! d ! j"] v(2) [OF sw_less(1) [OF i(1)] pl(2)] v(2) [OF sw_less(2) [OF i(1)] pl(2)]
      by (auto split: if_splits)
  qed
  then have units: "units_shared n u (\<lambda>p. val (round_source (\<lambda>j. cfg ! d ! j) n d inwards r p)) tmp'"
    using tmp'(2) ts by (simp add: units_shared_def)
  have "length ?ts div u = n" using ts assms(2) by simp
  moreover have "waksman_new n = Inr w" unfolding w_def n_def by (rule waksman_new_power)
  ultimately have "waksman_round ops d inwards r (sh, s) = Inr (sh\<lparr>sh_to_shuffle := tmp', sh_tmp := ?ts\<rparr>, s')"
    using row(1,2) assms(1,3) zs(1) tmp'(1) by (simp add: waksman_round_def Let_def xs_def n_def)
  then show ?thesis
    using zs(3) units assms(3) unfolding n_def
    by (intro exI [of _ "sh\<lparr>sh_to_shuffle := tmp', sh_tmp := ?ts\<rparr>"] exI [of _ s']) simp
qed

text \<open>What a round keeps of the object.\<close>

definition same_setting :: "'t shuffle \<Rightarrow> 't shuffle \<Rightarrow> bool" where
  "same_setting sh sh' \<longleftrightarrow> sh_unit_size sh' = sh_unit_size sh \<and> sh_config sh' = sh_config sh \<and> sh_n_shuffle sh' = sh_n_shuffle sh
     \<and> sh_exact sh' = sh_exact sh \<and> sh_stats sh' = sh_stats sh"

lemma rounds_ok:
  assumes "0 < u" "\<forall>x \<in> set rs. fst x \<le> k"
  shows "sh_unit_size sh = u \<Longrightarrow> config_shared k cfg (sh_config sh) \<Longrightarrow> units_shared (2 ^ (k + 1)) u val (sh_to_shuffle sh) \<Longrightarrow>
    ready (length rs * (2 ^ k * u) + m) s \<Longrightarrow>
    \<exists>sh' s'. foldM_result (\<lambda>(d, inwards). waksman_round ops d inwards r) rs (sh, s) = Inr (sh', s') \<and> ready m s' \<and> same_setting sh sh'
      \<and> units_shared (2 ^ (k + 1)) u (\<lambda>p. val (path cfg (2 ^ (k + 1)) r rs p)) (sh_to_shuffle sh')"
  using assms(2)
proof (induction rs arbitrary: sh s val)
  case Nil
  then show ?case by (simp add: path_def same_setting_def)
next
  case (Cons x rs)
  obtain d inwards where x: "x = (d, inwards)" "d \<le> k" using Cons.prems(5) by (cases x) simp
  have "ready (2 ^ k * u + (length rs * (2 ^ k * u) + m)) s" using Cons.prems(4) by (simp add: add.assoc)
  from waksman_round_ok [OF x(2) assms(1) Cons.prems(1-3) this, of inwards r] obtain sh1 s1 where
    1: "waksman_round ops d inwards r (sh, s) = Inr (sh1, s1)" "ready (length rs * (2 ^ k * u) + m) s1" "sh_unit_size sh1 = u"
      "sh_config sh1 = sh_config sh" "sh_n_shuffle sh1 = sh_n_shuffle sh" "sh_exact sh1 = sh_exact sh" "sh_stats sh1 = sh_stats sh"
      "units_shared (2 ^ (k + 1)) u (\<lambda>p. val (round_source (\<lambda>j. cfg ! d ! j) (2 ^ (k + 1)) d inwards r p)) (sh_to_shuffle sh1)"
    by (elim exE conjE) blast
  have "config_shared k cfg (sh_config sh1)" using Cons.prems(2) 1(4) by simp
  from Cons.IH [OF 1(3) this 1(8,2)] Cons.prems(5) obtain sh2 s2 where
    "foldM_result (\<lambda>(d, inwards). waksman_round ops d inwards r) rs (sh1, s1) = Inr (sh2, s2)" "ready m s2" "same_setting sh1 sh2"
    "units_shared (2 ^ (k + 1)) u (\<lambda>p. val (path cfg (2 ^ (k + 1)) r (x # rs) p)) (sh_to_shuffle sh2)"
    by (auto simp: path_def x)
  then show ?case using 1 Cons.prems(1) by (intro exI [of _ sh2] exI [of _ s2]) (simp add: x same_setting_def)
qed

lemma iter_waksman_ok:
  assumes "0 < u" "sh_unit_size sh = u" "config_shared k cfg (sh_config sh)" "units_shared (2 ^ (k + 1)) u val (sh_to_shuffle sh)"
    and "ready ((2 * k + 1) * (2 ^ k * u) + m) s"
  shows "\<exists>sh' s'. iter_waksman ops r (sh, s) = Inr (sh', s') \<and> ready m s' \<and> same_setting sh sh'
    \<and> units_shared (2 ^ (k + 1)) u (\<lambda>p. val (path cfg (2 ^ (k + 1)) r (rounds_from 0 k) p)) (sh_to_shuffle sh')"
proof -
  have "length (sh_to_shuffle sh) div u = 2 ^ (k + 1)" using assms(1,4) by (simp add: units_shared_def)
  then have "iter_waksman ops r (sh, s) = foldM_result (\<lambda>(d, inwards). waksman_round ops d inwards r) (rounds_from 0 k) (sh, s)"
    using int_log2_power [of "k + 1"] by (simp only: iter_waksman_def split Let_def assms(2) rounds_from_def diff_add_inverse2)
  moreover have "length (rounds_from 0 k) = 2 * k + 1" "\<forall>x \<in> set (rounds_from 0 k). fst x \<le> k" by (auto simp: rounds_from_def)
  ultimately show ?thesis using rounds_ok [OF assms(1) _ assms(2-4), of "rounds_from 0 k" m s r] assms(5) by simp
qed

end

end
