(* ===== verification/SecureShuffle.thy ===== *)
theory SecureShuffle
  imports ShuffleNet Prng
begin

section \<open>Secure shuffles (Protocols/SecureShuffle.hpp)\<close>

text \<open>
  A shuffle is a permutation network for each of the relevant players, configured by a random permutation of the player and shared
  among all. The registers \<open>a\<close> are the list of the visible ones, whose \<open>operator[]\<close> throws; the permutations come from generators
  with fresh seeds, one for each use, which are arguments.
\<close>

subsection \<open>Random permutations\<close>

text \<open>\<open>1 << int(ceil(log2(n)))\<close>, for \<open>n > 0\<close>; the logarithm of 0 is infinite and has no integer part.\<close>

definition pow2_ceil :: "nat \<Rightarrow> nat" where
  "pow2_ceil n = (if n \<le> 1 then 1 else 2 ^ (int_log2 (n - 1) + 1))"

definition swap_at :: "nat \<Rightarrow> nat \<Rightarrow> 'a list \<Rightarrow> 'a list" where
  "swap_at i j xs = xs[i := xs ! j, j := xs ! i]"

definition generate_random_permutation :: "block_cipher \<Rightarrow> nat \<Rightarrow> nat \<Rightarrow> prng \<Rightarrow> nat list io" where
  "generate_random_permutation E pl n G =
     bind_io (if n = 0 then Some (Inl undefined_behaviour) else foldM_io (\<lambda>i (perm, G). bind_io (prng_get_uint_upper E pl (of_nat (n - i)) G) (\<lambda>(j, G).
         Some (Inr (swap_at i (i + unat j) perm, G)))) [0..<n] ([0..<pow2_ceil n], G))
       (\<lambda>(perm, G). Some (Inr perm))"

subsection \<open>Configuration\<close>

text \<open>The bits the configuring player inputs, with the assertions on the others.\<close>

definition config_input :: "waksman \<Rightarrow> bool list list \<Rightarrow> nat \<times> nat \<Rightarrow> bool list \<Rightarrow> bool list result" where
  "config_input w bits = (\<lambda>(i, j) acc.
     if matters w i j \<and> \<not> is_double w i j then Inr (acc @ [bits ! i ! j])
     else if is_double w i j then (if bits ! i ! j = bits ! i ! (j - 1) then Inr acc else Inl assertion_failed)
     else (if \<not> bits ! i ! j then Inr acc else Inl assertion_failed))"

definition config_inputs :: "waksman \<Rightarrow> bool list list \<Rightarrow> bool list result" where
  "config_inputs w bits = foldM_result (config_input w bits) (concat (map (\<lambda>i. map (Pair i) [0..<length (bits ! i)]) [0..<length bits])) []"

text \<open>The shared configuration from the inputs; the pairs are for the check that they are bits.\<close>

definition config_entry :: "('t, 'a, 's) shuffle_ops \<Rightarrow> waksman \<Rightarrow> nat \<Rightarrow> nat \<Rightarrow> 't list \<times> 't list \<times> ('t \<times> 't) list
    \<Rightarrow> ('t list \<times> 't list \<times> ('t \<times> 't) list) result" where
  "config_entry ops w i j = (\<lambda>(row, inputs, pairs).
     if matters w i j \<and> \<not> is_double w i j then
       (case inputs of [] \<Rightarrow> Inl undefined_behaviour
        | b # bs \<Rightarrow> Inr (row @ [b], bs, if so_malicious ops then pairs @ [(b, so_sub ops (so_one ops) b)] else pairs))
     else if is_double w i j then (if row = [] then Inl undefined_behaviour else Inr (row @ [last row], inputs, pairs))
     else Inr (row @ [so_zero ops], inputs, pairs))"

definition config_row :: "('t, 'a, 's) shuffle_ops \<Rightarrow> waksman \<Rightarrow> nat \<Rightarrow> 't list list \<times> 't list \<times> ('t \<times> 't) list
    \<Rightarrow> ('t list list \<times> 't list \<times> ('t \<times> 't) list) result" where
  "config_row ops w i = (\<lambda>(config, inputs, pairs).
     bind_result (foldM_result (config_entry ops w i) [0..<wk_n_elements w] ([], inputs, pairs)) (\<lambda>(row, inputs, pairs).
     Inr (config @ [row], inputs, pairs)))"

definition config_check :: "('t, 'a :: zero, 's) shuffle_ops \<Rightarrow> ('t \<times> 't) list \<Rightarrow> 's \<Rightarrow> 's result" where
  "config_check ops pairs s =
     (if so_malicious ops then
        bind_result (so_dotprod ops pairs s) (\<lambda>(dot, s).
        bind_result (so_opens ops [dot] s) (\<lambda>(v, s).
        if v = [0] then so_check ops s else Inl assertion_failed))
      else Inr s)"

text \<open>
  \<open>configure\<close>: the configuring player inputs its bits, everybody else expects \<open>n_bits\<close> of them. An assertion that fails at the
  configuring player ends the run.
\<close>

definition shuffle_configure :: "('t, 'a :: zero_neq_one, 's) shuffle_ops \<Rightarrow> nat \<Rightarrow> nat list \<Rightarrow> nat \<Rightarrow> 't shuffle \<times> 's \<Rightarrow> ('t shuffle \<times> 's) io" where
  "shuffle_configure ops config_player perm n = (\<lambda>(sh, s).
     bind_io (Some (if n = 0 then Inl undefined_behaviour else waksman_new (pow2_ceil n))) (\<lambda>w.
     bind_io (waksman_configure (map Some perm)) (\<lambda>bits.
     bind_io (Some (config_inputs w bits)) (\<lambda>inputs.
     bind_io (Some (so_inputs ops config_player (map of_bool inputs) s)) (\<lambda>(shares, s).
     bind_io (Some (foldM_result (config_row ops w) [0..<n_rounds w] ([], shares, []))) (\<lambda>(config, _, pairs).
     bind_io (Some (config_check ops pairs s)) (\<lambda>s.
     Some (Inr (sh\<lparr>sh_config := config\<rparr>, s)))))))))"

subsection \<open>Before and after\<close>

definition read_reg :: "'t list \<Rightarrow> nat \<Rightarrow> 't result" where
  "read_reg a i = (if i < length a then Inr (a ! i) else Inl out_of_range)"

definition write_reg :: "nat \<Rightarrow> 't \<Rightarrow> 't list \<Rightarrow> 't list result" where
  "write_reg i x a = (if i < length a then Inr (a[i := x]) else Inl out_of_range)"

text \<open>Protocols with active security do not copy to a padded array, but mark the real elements by an indicator bit.\<close>

definition shuffle_pre :: "('t, 'a, 's) shuffle_ops \<Rightarrow> 't list \<Rightarrow> nat \<Rightarrow> nat \<Rightarrow> 't shuffle \<Rightarrow> 't shuffle result" where
  "shuffle_pre ops a n input_base sh =
     (let u = sh_unit_size sh; ns = n div u; np = pow2_ceil ns; exact = (np = ns \<or> \<not> so_malicious ops);
          sh = sh\<lparr>sh_n_shuffle := ns, sh_exact := exact\<rparr> in
      if u = 0 then Inl undefined_behaviour
      else if u * ns \<noteq> n then Inl assertion_failed
      else if ns = 0 then Inl undefined_behaviour
      else if exact then
        bind_result (foldM_result (\<lambda>i ts. bind_result (read_reg a (input_base + i)) (\<lambda>x. Inr (ts[i := x])))
            [0..<n] (vec_resize (so_zero ops) (np * u) [])) (\<lambda>ts.
        Inr (sh\<lparr>sh_to_shuffle := ts\<rparr>))
      else
        bind_result (foldM_result (\<lambda>i ts.
            bind_result (foldM_result (\<lambda>j ts. bind_result (read_reg a (input_base + i * u + j)) (\<lambda>x. Inr (ts[i * (u + 1) + j := x]))) [0..<u] ts) (\<lambda>ts.
            Inr (ts[i * (u + 1) + u := so_one ops])))
            [0..<ns] (vec_resize (so_zero ops) ((u + 1) * np) [])) (\<lambda>ts.
        Inr (sh\<lparr>sh_to_shuffle := ts, sh_unit_size := u + 1\<rparr>)))"

text \<open>Writing the units whose indicator is 1, in order.\<close>

definition post_unit :: "nat \<Rightarrow> nat \<Rightarrow> 't list \<Rightarrow> nat \<times> 'a :: one \<Rightarrow> nat \<times> 't list \<Rightarrow> (nat \<times> 't list) result" where
  "post_unit output_base u ts = (\<lambda>(i, bit) (i_shuffle, a).
     if bit = 1 then
       bind_result (foldM_result (\<lambda>j a. bind_result (read_reg ts (i * (u + 1) + j)) (\<lambda>x. write_reg (output_base + i_shuffle * u + j) x a)) [0..<u] a) (\<lambda>a.
       Inr (i_shuffle + 1, a))
     else Inr (i_shuffle, a))"

definition shuffle_post :: "('t, 'a :: one, 's) shuffle_ops \<Rightarrow> nat \<Rightarrow> nat \<Rightarrow> 't list \<Rightarrow> 't shuffle \<times> 's \<Rightarrow> ('t list \<times> 's) result" where
  "shuffle_post ops n output_base a = (\<lambda>(sh, s).
     (let ts = sh_to_shuffle sh; su = sh_unit_size sh in
      if sh_exact sh then
        bind_result (foldM_result (\<lambda>i a. bind_result (read_reg ts i) (\<lambda>x. write_reg (output_base + i) x a)) [0..<n] a) (\<lambda>a. Inr (a, s))
      else
        bind_result (so_opens ops (map (\<lambda>i. ts ! ((i + 1) * su - 1)) [0..<length ts div su]) s) (\<lambda>(bits, s).
        bind_result (foldM_result (post_unit output_base (su - 1) ts) (zip [0..<sh_n_shuffle sh] bits) (0, a)) (\<lambda>(i_shuffle, a).
        if i_shuffle = sh_n_shuffle sh then Inr (a, s) else Inl (runtime_error ''incorrect shuffle'')))))"

subsection \<open>Shuffles\<close>

definition apply_configs :: "('t, 'a, 's) shuffle_ops \<Rightarrow> bool \<Rightarrow> 't list list list \<Rightarrow> 't shuffle \<times> 's \<Rightarrow> ('t shuffle \<times> 's) result" where
  "apply_configs ops reverse configs =
     foldM_result (\<lambda>config (sh, s). iter_waksman ops reverse (sh\<lparr>sh_config := config\<rparr>, s)) (if reverse then rev configs else configs)"

definition shuffle_apply :: "('t, 'a :: one, 's) shuffle_ops \<Rightarrow> 't list \<Rightarrow> nat \<Rightarrow> nat \<Rightarrow> nat \<Rightarrow> nat \<Rightarrow> 't list list list \<Rightarrow> bool
    \<Rightarrow> 't shuffle \<times> 's \<Rightarrow> ('t list \<times> 't shuffle \<times> 's) result" where
  "shuffle_apply ops a n unit_size output_base input_base configs reverse = (\<lambda>(sh, s).
     (let sh = sh\<lparr>sh_unit_size := unit_size, sh_stats := (sh_stats sh)(n div unit_size := sh_stats sh (n div unit_size) + unit_size)\<rparr> in
      bind_result (shuffle_pre ops a n input_base sh) (\<lambda>sh.
      if length configs \<noteq> length (so_relevant ops) then Inl assertion_failed else
      bind_result (apply_configs ops reverse configs (sh, s)) (\<lambda>(sh, s).
      bind_result (shuffle_post ops n output_base a (sh, s)) (\<lambda>(a, s).
      Inr (a, sh, s))))))"

text \<open>The store of shuffles.\<close>

definition store_add :: "'c list list \<Rightarrow> nat \<times> 'c list list" where
  "store_add store = (length store, store @ [[]])"

definition store_get :: "'c list list \<Rightarrow> nat \<Rightarrow> 'c list result" where
  "store_get store handle = (if handle < length store then Inr (store ! handle) else Inl out_of_range)"

definition store_del :: "nat \<Rightarrow> 'c list list \<Rightarrow> 'c list list result" where
  "store_del handle store = (if handle < length store then Inr (store[handle := []]) else Inl out_of_range)"

text \<open>\<open>generate\<close>: \<open>Gs\<close> are the freshly seeded generators of the relevant players.\<close>

definition generate_one :: "block_cipher \<Rightarrow> nat \<Rightarrow> ('t, 'a :: zero_neq_one, 's) shuffle_ops \<Rightarrow> nat \<Rightarrow> nat \<times> prng
    \<Rightarrow> 't list list list \<times> 't shuffle \<times> 's \<Rightarrow> ('t list list list \<times> 't shuffle \<times> 's) io" where
  "generate_one E pl ops n_shuffle = (\<lambda>(player, G) (configs, sh, s).
     bind_io (generate_random_permutation E pl n_shuffle G) (\<lambda>perm.
     bind_io (shuffle_configure ops player perm n_shuffle (sh, s)) (\<lambda>(sh, s).
     Some (Inr (configs @ [sh_config sh], sh, s)))))"

definition shuffle_generate :: "block_cipher \<Rightarrow> nat \<Rightarrow> ('t, 'a :: zero_neq_one, 's) shuffle_ops \<Rightarrow> nat \<Rightarrow> prng list \<Rightarrow> 't list list list list
    \<Rightarrow> 't shuffle \<times> 's \<Rightarrow> (nat \<times> 't list list list list \<times> 't shuffle \<times> 's) io" where
  "shuffle_generate E pl ops n_shuffle Gs store = (\<lambda>(sh, s).
     (case store_add store of (res, store) \<Rightarrow>
      bind_io (foldM_io (generate_one E pl ops n_shuffle) (zip (so_relevant ops) Gs) ([], sh, s)) (\<lambda>(configs, sh, s).
      Some (Inr (res, store[res := configs], sh, s)))))"

text \<open>A shuffle that is not stored: the constructor with registers.\<close>

definition player_round :: "block_cipher \<Rightarrow> nat \<Rightarrow> ('t, 'a :: zero_neq_one, 's) shuffle_ops \<Rightarrow> nat \<times> prng \<Rightarrow> 't shuffle \<times> 's \<Rightarrow> ('t shuffle \<times> 's) io" where
  "player_round E pl ops = (\<lambda>(player, G) (sh, s).
     bind_io (generate_random_permutation E pl (sh_n_shuffle sh) G) (\<lambda>perm.
     bind_io (shuffle_configure ops player perm (sh_n_shuffle sh) (sh, s)) (\<lambda>(sh, s).
     Some (iter_waksman ops False (sh, s)))))"

definition shuffle_once :: "block_cipher \<Rightarrow> nat \<Rightarrow> ('t, 'a :: zero_neq_one, 's) shuffle_ops \<Rightarrow> 't list \<Rightarrow> nat \<Rightarrow> nat \<Rightarrow> nat \<Rightarrow> nat \<Rightarrow> prng list
    \<Rightarrow> 's \<Rightarrow> ('t list \<times> 't shuffle \<times> 's) io" where
  "shuffle_once E pl ops a n unit_size output_base input_base Gs s =
     bind_io (Some (shuffle_pre ops a n input_base (shuffle_new\<lparr>sh_unit_size := unit_size\<rparr>))) (\<lambda>sh.
     bind_io (foldM_io (player_round E pl ops) (zip (so_relevant ops) Gs) (sh, s)) (\<lambda>(sh, s).
     bind_io (Some (shuffle_post ops n output_base a (sh, s))) (\<lambda>(a, s).
     Some (Inr (a, sh, s)))))"

subsection \<open>Random permutations are permutations\<close>

lemma swap_at_perm:
  assumes "is_perm xs" "i < length xs" "j < length xs"
  shows "is_perm (swap_at i j xs)" "length (swap_at i j xs) = length xs" "k \<noteq> i \<Longrightarrow> k \<noteq> j \<Longrightarrow> swap_at i j xs ! k = xs ! k"
  using assms by (simp_all add: swap_at_def is_perm_def distinct_swap set_swap)

lemma pow2_ceil_ge: "n \<le> pow2_ceil n"
proof -
  have "m < 2 ^ (int_log2 m + 1)" for m
  proof (induction m rule: int_log2.induct)
    case (1 m)
    show ?case
    proof (cases "m \<le> 1")
      case False
      then have "m div 2 < 2 ^ (int_log2 (m div 2) + 1)" using 1 by simp
      then show ?thesis using False by (subst int_log2.simps) simp
    qed (simp add: int_log2.simps)
  qed
  from this [of "n - 1"] show ?thesis by (auto simp: pow2_ceil_def)
qed

lemma generate_random_permutation_perm:
  assumes "generate_random_permutation E pl n G = Some (Inr perm)" "n < 2 ^ 31"
  shows "is_perm perm" "length perm = pow2_ceil n" "n \<le> i \<Longrightarrow> i < length perm \<Longrightarrow> perm ! i = i"
proof -
  let ?step = "\<lambda>i (perm, G). bind_io (prng_get_uint_upper E pl (of_nat (n - i)) G) (\<lambda>(j, G). Some (Inr (swap_at i (i + unat j) perm, G)))"
  define P where "P = (\<lambda>(p, G :: prng). is_perm p \<and> length p = pow2_ceil n \<and> (\<forall>i < length p. n \<le> i \<longrightarrow> p ! i = i))"
  obtain G' where run: "foldM_io ?step [0..<n] ([0..<pow2_ceil n], G) = Some (Inr (perm, G'))"
    using assms(1) by (auto simp: generate_random_permutation_def bind_io_Inr_iff split: if_splits)
  have "P (perm, G')"
  proof (rule foldM_io_invariant [where P = "\<lambda>_. P", OF run])
    fix m s s' assume m: "m < n" and s: "P s" and st: "?step m s = Some (Inr s')"
    obtain q H where qH: "s = (q, H)" by (cases s)
    from st obtain j H' where j: "prng_get_uint_upper E pl (of_nat (n - m)) H = Some (Inr (j, H'))" "s' = (swap_at m (m + unat j) q, H')"
      by (auto simp: qH bind_io_Inr_iff)
    have "unat (of_nat (n - m) :: 32 word) = n - m" using assms(2) by (simp add: unat_of_nat)
    then have "m + unat j < n" using prng_get_uint_upper_less [OF j(1)] m by (simp add: word_less_nat_alt)
    then have "m < length q" "m + unat j < length q" "m + unat j < n" using s pow2_ceil_ge [of n] m by (simp_all add: P_def qH)
    then show "P s'" using swap_at_perm [of q m "m + unat j"] s m by (auto simp: j(2) P_def qH)
  qed (auto simp: P_def is_perm_def)
  then show "is_perm perm" "length perm = pow2_ceil n" "n \<le> i \<Longrightarrow> i < length perm \<Longrightarrow> perm ! i = i" by (simp_all add: P_def)
qed

subsection \<open>The configuration is shared\<close>

abbreviation wk_of :: "nat \<Rightarrow> waksman" where
  "wk_of k \<equiv> \<lparr>wk_n_elements = 2 ^ (k + 1), wk_nr = k + 1\<rparr>"

text \<open>The columns of a row whose bits are input.\<close>

definition config_cols :: "nat \<Rightarrow> nat \<Rightarrow> nat list" where
  "config_cols k i = filter (\<lambda>j. matters (wk_of k) i j \<and> \<not> is_double (wk_of k) i j) [0..<2 ^ (k + 1)]"

lemma config_inputs_ok:
  assumes "wk_config_ok k cfg"
  shows "config_inputs (wk_of k) cfg = Inr (concat (map (\<lambda>i. map (\<lambda>j. cfg ! i ! j) (config_cols k i)) [0..<k + 1]))"
proof -
  let ?sel = "\<lambda>(i, j). matters (wk_of k) i j \<and> \<not> is_double (wk_of k) i j"
  have fold: "(\<forall>x \<in> set xs. fst x \<le> k \<and> snd x < 2 ^ (k + 1)) \<Longrightarrow>
      foldM_result (config_input (wk_of k) cfg) xs acc = Inr (acc @ map (\<lambda>(i, j). cfg ! i ! j) (filter ?sel xs))" for xs acc
  proof (induction xs arbitrary: acc)
    case (Cons x xs)
    obtain i j where x: "x = (i, j)" "i \<le> k" "j < 2 ^ (k + 1)" using Cons.prems by (cases x) auto
    have "is_double (wk_of k) i j \<Longrightarrow> cfg ! i ! j = cfg ! i ! (j - 1)" "\<not> matters (wk_of k) i j \<Longrightarrow> \<not> cfg ! i ! j"
      using assms x(2,3) by (auto simp: wk_config_ok_def is_double_def odd_iff_mod_2_eq_one)
    then show ?case using Cons x(1) by (auto simp: config_input_def)
  qed simp
  have len: "length cfg = k + 1" "\<And>i. i < k + 1 \<Longrightarrow> length (cfg ! i) = 2 ^ (k + 1)" using assms by (simp_all add: wk_config_ok_def)
  have xs: "concat (map (\<lambda>i. map (Pair i) [0..<length (cfg ! i)]) [0..<length cfg]) = concat (map (\<lambda>i. map (Pair i) [0..<2 ^ (k + 1)]) [0..<k + 1])"
    using len by (intro arg_cong [of _ _ concat] map_cong) auto
  have "map (\<lambda>(i, j). cfg ! i ! j) (filter ?sel (concat (map (\<lambda>i. map (Pair i) [0..<2 ^ (k + 1)]) is)))
      = concat (map (\<lambda>i. map (\<lambda>j. cfg ! i ! j) (config_cols k i)) is)" for "is"
    by (induction "is") (simp_all add: config_cols_def filter_map comp_def)
  then show ?thesis unfolding config_inputs_def xs by (subst fold) (auto simp: less_Suc_eq_le simp del: upt_Suc)
qed

lemma card_residues:
  fixes B c q :: nat
  assumes "c < B"
  shows "card {j. j < q * B \<and> j mod B = c} = q"
proof -
  have "{j. j < q * B \<and> j mod B = c} = (\<lambda>b. b * B + c) ` {..<q}"
  proof (intro subset_antisym subsetI)
    fix j assume "j \<in> {j. j < q * B \<and> j mod B = c}"
    then have "j div B < q" "j = j div B * B + c" using less_mult_imp_div_less [of j q B] div_mult_mod_eq [of j B] by simp_all
    then show "j \<in> (\<lambda>b. b * B + c) ` {..<q}" by blast
  qed (use assms unit_index in auto)
  moreover have "inj_on (\<lambda>b. b * B + c) {..<q}" using assms by (auto simp: inj_on_def)
  ultimately show ?thesis by (simp add: card_image)
qed

lemma length_config_cols:
  "i < k \<Longrightarrow> length (config_cols k i) + 2 ^ i = 2 ^ (k + 1)" "length (config_cols k k) = 2 ^ k"
proof -
  have len: "length (config_cols k i) + card {j. j < 2 ^ (k + 1) \<and> \<not> (matters (wk_of k) i j \<and> \<not> is_double (wk_of k) i j)} = 2 ^ (k + 1)" for i
  proof -
    let ?P = "\<lambda>j. matters (wk_of k) i j \<and> \<not> is_double (wk_of k) i j"
    have "{j. j < 2 ^ (k + 1) \<and> \<not> ?P j} = set (filter (\<lambda>j. \<not> ?P j) [0..<2 ^ (k + 1)])" by auto
    then have "card {j. j < 2 ^ (k + 1) \<and> \<not> ?P j} = length (filter (\<lambda>j. \<not> ?P j) [0..<2 ^ (k + 1)])" by (simp only: distinct_card distinct_filter distinct_upt)
    then show ?thesis using sum_length_filter_compl [of ?P "[0..<2 ^ (k + 1)]"] by (simp add: config_cols_def)
  qed
  show "length (config_cols k k) = 2 ^ k"
  proof -
    have "{j. j < 2 ^ (k + 1) \<and> \<not> (matters (wk_of k) k j \<and> \<not> is_double (wk_of k) k j)} = {j. j < 2 ^ k * 2 \<and> j mod 2 = 1}"
      by (auto simp: matters_def is_double_def Let_def)
    then show ?thesis using len [of k] card_residues [of 1 2 "2 ^ k"] by simp
  qed
  assume i: "i < k"
  define B :: nat where "B = 2 ^ (k - i)"
  have B: "(2 :: nat) ^ (k + 1) = 2 ^ i * (2 * B)" "2 \<le> B"
    using i block_size(2) [OF refl, of i k] self_le_power [of 2 "k - i"] by (simp_all add: B_def mult_ac)
  have "{j. j < 2 ^ (k + 1) \<and> \<not> (matters (wk_of k) i j \<and> \<not> is_double (wk_of k) i j)} = {j. j < 2 ^ i * (2 * B) \<and> j mod (2 * B) = B}"
    unfolding B(1) using i B(2) by (auto simp: matters_def is_double_def Let_def)
  then show "length (config_cols k i) + 2 ^ i = 2 ^ (k + 1)" using len [of i] card_residues [of B "2 * B" "2 ^ i"] B(2) by simp
qed

text \<open>As many bits are input as the other players expect.\<close>

lemma config_inputs_length:
  assumes "wk_config_ok k cfg" "config_inputs (wk_of k) cfg = Inr bits"
  shows "length bits = n_bits (wk_of k)"
proof -
  have "sum_list (map (\<lambda>i. length (config_cols k i)) [0..<m]) + 2 ^ m = m * 2 ^ (k + 1) + 1" if "m \<le> k" for m
    using that
  proof (induction m)
    case (Suc m)
    then show ?case using length_config_cols(1) [of m k] by simp
  qed simp
  from this [of k] have "sum_list (map (\<lambda>i. length (config_cols k i)) [0..<k + 1]) = k * 2 ^ (k + 1) + 1"
    by (simp add: length_config_cols(2))
  moreover have "length bits = sum_list (map (\<lambda>i. length (config_cols k i)) [0..<k + 1])"
    using assms(2) unfolding config_inputs_ok [OF assms(1)] by (auto simp: length_concat comp_def simp del: upt_Suc)
  ultimately show ?thesis by (simp add: n_bits_def)
qed

lemma filter_upt_nth: "P j \<Longrightarrow> j < n \<Longrightarrow> length (filter P [0..<j]) < length (filter P [0..<n]) \<and> filter P [0..<n] ! length (filter P [0..<j]) = j"
proof -
  assume "P j" "j < n"
  then have "[0..<n] = [0..<j] @ j # [Suc j..<n]" using upt_add_eq_append [of 0 j "n - j"] by (simp add: upt_conv_Cons)
  then show ?thesis using \<open>P j\<close> by (simp add: nth_append)
qed

context shuffle_protocol begin

lemma config_row_ok:
  assumes "wk_config_ok k cfg" "i \<le> k" "length ss = length (config_cols k i)" "\<And>x. x < length ss \<Longrightarrow> holds (ss ! x) (of_bool (cfg ! i ! (config_cols k i ! x)))"
  shows "\<exists>row pairs'. config_row ops (wk_of k) i (config, ss @ rest, pairs) = Inr (config @ [row], rest, pairs') \<and> length row = 2 ^ (k + 1)
    \<and> (\<forall>j < 2 ^ (k + 1). matters (wk_of k) i j \<longrightarrow> holds (row ! j) (of_bool (cfg ! i ! j)))"
proof -
  let ?sel = "\<lambda>j. matters (wk_of k) i j \<and> \<not> is_double (wk_of k) i j"
  let ?taken = "\<lambda>j. length (filter ?sel [0..<j])"
  define P where "P j = (\<lambda>(row, inputs, _ :: ('t \<times> 't) list). length row = j \<and> inputs = drop (?taken j) ss @ rest
    \<and> (\<forall>x < j. matters (wk_of k) i x \<longrightarrow> holds (row ! x) (of_bool (cfg ! i ! x))))" for j
  have "\<exists>s'. foldM_result (config_entry ops (wk_of k) i) [0..<2 ^ (k + 1)] ([], ss @ rest, pairs) = Inr s' \<and> P (2 ^ (k + 1)) s'"
  proof (rule foldM_result_upt)
    fix j s assume j: "j < 2 ^ (k + 1)" and "P j s"
    then obtain row prs where s: "s = (row, drop (?taken j) ss @ rest, prs)" "length row = j"
      "\<forall>x < j. matters (wk_of k) i x \<longrightarrow> holds (row ! x) (of_bool (cfg ! i ! x))" by (cases s) (auto simp: P_def)
    consider (sel) "?sel j" | (double) "is_double (wk_of k) i j" | (no) "\<not> matters (wk_of k) i j" "\<not> is_double (wk_of k) i j" by blast
    then show "\<exists>s'. config_entry ops (wk_of k) i j s = Inr s' \<and> P (Suc j) s'"
    proof cases
      case sel
      from filter_upt_nth [of ?sel, OF this j] have t: "?taken j < length ss" "config_cols k i ! ?taken j = j"
        using assms(3) by (simp_all add: config_cols_def)
      then have "drop (?taken j) ss = ss ! ?taken j # drop (Suc (?taken j)) ss" by (simp add: Cons_nth_drop_Suc)
      then show ?thesis using sel s assms(4) [OF t(1)] t(2) by (auto simp: config_entry_def P_def nth_append less_Suc_eq)
    next
      case double
      then have d: "i = k" "odd j" by (simp_all add: is_double_def odd_iff_mod_2_eq_one)
      then have "cfg ! i ! j = cfg ! i ! (j - 1)" using assms(1) j by (simp add: wk_config_ok_def)
      moreover have "matters (wk_of k) i (j - 1)" using d(1) by (simp add: matters_def Let_def)
      moreover have "0 < j" using d(2) by (cases j) auto
      ultimately show ?thesis using double s by (auto simp: config_entry_def P_def nth_append less_Suc_eq last_conv_nth)
    next
      case no
      then show ?thesis using s by (auto simp: config_entry_def P_def nth_append less_Suc_eq)
    qed
  qed (simp add: P_def)
  then obtain row inputs prs where "foldM_result (config_entry ops (wk_of k) i) [0..<2 ^ (k + 1)] ([], ss @ rest, pairs) = Inr (row, inputs, prs)"
    "P (2 ^ (k + 1)) (row, inputs, prs)" by (metis prod_cases3)
  moreover from this(2) have "inputs = rest" using assms(3) by (simp add: P_def config_cols_def)
  ultimately show ?thesis by (auto simp: config_row_def P_def)
qed

lemma config_rows_ok:
  assumes "wk_config_ok k cfg" "length ts = length (concat (map (config_cols k) [0..<k + 1]))"
    and "\<And>x. x < length ts \<Longrightarrow> holds (ts ! x) (of_bool (concat (map (\<lambda>i. map (\<lambda>j. cfg ! i ! j) (config_cols k i)) [0..<k + 1]) ! x))"
  shows "\<exists>config pairs. foldM_result (config_row ops (wk_of k)) [0..<k + 1] ([], ts, []) = Inr (config, [], pairs) \<and> config_shared k cfg config"
proof -
  let ?bits = "\<lambda>m. concat (map (\<lambda>i. map (\<lambda>j. cfg ! i ! j) (config_cols k i)) [m..<k + 1])"
  define P where "P m = (\<lambda>(config, inputs, _ :: ('t \<times> 't) list). length config = m \<and> length inputs = length (?bits m)
    \<and> (\<forall>x < length inputs. holds (inputs ! x) (of_bool (?bits m ! x)))
    \<and> (\<forall>d < m. length (config ! d) = 2 ^ (k + 1) \<and> (\<forall>j < 2 ^ (k + 1). matters (wk_of k) d j \<longrightarrow> holds (config ! d ! j) (of_bool (cfg ! d ! j)))))" for m
  have "\<exists>s'. foldM_result (config_row ops (wk_of k)) [0..<k + 1] ([], ts, []) = Inr s' \<and> P (k + 1) s'"
  proof (rule foldM_result_upt)
    show "P 0 ([], ts, [])" using assms(2,3) by (simp add: P_def length_concat comp_def)
  next
    fix i s assume i: "i < k + 1" and "P i s"
    then obtain config inputs prs where s: "s = (config, inputs, prs)" "length config = i" "length inputs = length (?bits i)"
      "\<forall>x < length inputs. holds (inputs ! x) (of_bool (?bits i ! x))"
      "\<forall>d < i. length (config ! d) = 2 ^ (k + 1) \<and> (\<forall>j < 2 ^ (k + 1). matters (wk_of k) d j \<longrightarrow> holds (config ! d ! j) (of_bool (cfg ! d ! j)))"
      by (cases s) (auto simp: P_def)
    let ?c = "length (config_cols k i)"
    have bits: "?bits i = map (\<lambda>j. cfg ! i ! j) (config_cols k i) @ ?bits (Suc i)" using i by (simp add: upt_conv_Cons del: upt_Suc)
    have c: "?c \<le> length inputs" using s(3) unfolding bits by simp
    have "\<exists>row pairs'. config_row ops (wk_of k) i (config, take ?c inputs @ drop ?c inputs, prs) = Inr (config @ [row], drop ?c inputs, pairs') \<and> length row = 2 ^ (k + 1)
      \<and> (\<forall>j < 2 ^ (k + 1). matters (wk_of k) i j \<longrightarrow> holds (row ! j) (of_bool (cfg ! i ! j)))"
    proof (rule config_row_ok [OF assms(1)])
      fix x assume "x < length (take ?c inputs)"
      then show "holds (take ?c inputs ! x) (of_bool (cfg ! i ! (config_cols k i ! x)))" using s(4) unfolding bits by (auto simp: nth_append)
    qed (use i c in auto)
    then obtain row pairs' where row: "config_row ops (wk_of k) i s = Inr (config @ [row], drop ?c inputs, pairs')" "length row = 2 ^ (k + 1)"
      "\<forall>j < 2 ^ (k + 1). matters (wk_of k) i j \<longrightarrow> holds (row ! j) (of_bool (cfg ! i ! j))" by (auto simp: s(1))
    have "P (Suc i) (config @ [row], drop ?c inputs, pairs')"
    proof -
      have "holds (drop ?c inputs ! x) (of_bool (?bits (Suc i) ! x))" if "x < length inputs - ?c" for x
        using s(4) [rule_format, of "?c + x"] that unfolding bits by (simp add: nth_append)
      then show ?thesis using s(2,3,5) row(2,3) unfolding P_def bits by (auto simp: nth_append less_Suc_eq)
    qed
    then show "\<exists>s'. config_row ops (wk_of k) i s = Inr s' \<and> P (Suc i) s'" using row(1) by blast
  qed
  then obtain config inputs prs where "foldM_result (config_row ops (wk_of k)) [0..<k + 1] ([], ts, []) = Inr (config, inputs, prs)"
    "P (k + 1) (config, inputs, prs)" by (metis prod_cases3)
  moreover from this(2) have "inputs = []" "config_shared k cfg config" using assms(1) by (auto simp: P_def config_shared_def less_Suc_eq_le)
  ultimately show ?thesis by blast
qed

end

subsection \<open>Applying a shuffle\<close>

text \<open>The unit that ends at a position, for the permutations of all players.\<close>

definition shuffle_source :: "nat list list \<Rightarrow> bool \<Rightarrow> nat \<Rightarrow> nat" where
  "shuffle_source perms reverse =
     (if reverse then foldr (\<lambda>perm q. perm ! q) (rev perms) else foldr (\<lambda>perm q. wk_inverse perm ! q) perms)"

text \<open>A permutation of \<open>2 ^ (k + 1)\<close> positions that leaves those from \<open>N\<close> on where they are.\<close>

definition unit_perm :: "nat \<Rightarrow> nat \<Rightarrow> nat list \<Rightarrow> bool" where
  "unit_perm k N perm \<longleftrightarrow> is_perm perm \<and> length perm = 2 ^ (k + 1) \<and> N \<le> 2 ^ (k + 1) \<and> (\<forall>i < 2 ^ (k + 1). N \<le> i \<longrightarrow> perm ! i = i)"

lemma unit_perm_less:
  assumes "unit_perm k N perm" "i < N"
  shows "perm ! i < N" "wk_inverse perm ! i < N" "perm ! (wk_inverse perm ! i) = i" "wk_inverse perm ! (perm ! i) = i"
proof -
  have P: "is_perm perm" "i < length perm" "N \<le> length perm" and fix': "\<And>j. j < length perm \<Longrightarrow> N \<le> j \<Longrightarrow> perm ! j = j"
    using assms by (simp_all add: unit_perm_def)
  show inv: "perm ! (wk_inverse perm ! i) = i" "wk_inverse perm ! (perm ! i) = i" using nth_wk_inverse [OF P(1,2)] wk_inverse_nth [OF P(1,2)] by simp_all
  show "perm ! i < N"
  proof (rule ccontr)
    assume "\<not> perm ! i < N"
    then have "perm ! (perm ! i) = perm ! i" using fix' is_perm_nth [OF P(1,2)] by simp
    then have "perm ! i = i" using wk_inverse_nth [OF P(1)] is_perm_nth [OF P(1,2)] inv(2) by metis
    then show False using assms(2) \<open>\<not> perm ! i < N\<close> by simp
  qed
  show "wk_inverse perm ! i < N"
    using fix' [of "wk_inverse perm ! i"] inv(1) wk_inverse_less [OF P(1,2)] assms(2) by (metis not_le)
qed

lemma shuffle_source_less: "list_all (unit_perm k N) perms \<Longrightarrow> p < N \<Longrightarrow> shuffle_source perms r p < N"
proof -
  have fwd: "list_all (unit_perm k N) ps \<Longrightarrow> p < N \<Longrightarrow> foldr (\<lambda>perm q. perm ! q) ps p < N \<and> foldr (\<lambda>perm q. wk_inverse perm ! q) ps p < N" for ps
    by (induction ps) (auto simp: unit_perm_less)
  show "list_all (unit_perm k N) perms \<Longrightarrow> p < N \<Longrightarrow> shuffle_source perms r p < N"
    using fwd [of perms] fwd [of "rev perms"] by (simp add: shuffle_source_def)
qed

lemma shuffle_source_inverse: "list_all (unit_perm k N) perms \<Longrightarrow> p < N \<Longrightarrow> shuffle_source perms r (shuffle_source perms (\<not> r) p) = p"
proof (induction perms arbitrary: p)
  case (Cons perm perms)
  have P: "unit_perm k N perm" "list_all (unit_perm k N) perms" using Cons.prems(1) by simp_all
  have step: "shuffle_source (perm # perms) True p = shuffle_source perms True (perm ! p)"
    "shuffle_source (perm # perms) False p = wk_inverse perm ! shuffle_source perms False p" for p
    by (simp_all add: shuffle_source_def)
  show ?case
  proof (cases r)
    case True
    then show ?thesis
      using Cons.IH [OF P(2) Cons.prems(2)] unit_perm_less [OF P(1) shuffle_source_less [OF P(2) Cons.prems(2), of False]] by (simp add: step)
  next
    case False
    then show ?thesis
      using Cons.IH [OF P(2) unit_perm_less(1) [OF P(1) Cons.prems(2)]] unit_perm_less(4) [OF P(1) Cons.prems(2)] by (simp add: step)
  qed
qed (simp add: shuffle_source_def)

context shuffle_protocol begin

text \<open>Units in registers.\<close>

definition regs_shared :: "nat \<Rightarrow> nat \<Rightarrow> nat \<Rightarrow> (nat \<Rightarrow> nat \<Rightarrow> 'b) \<Rightarrow> 't list \<Rightarrow> bool" where
  "regs_shared base N u val a \<longleftrightarrow> base + N * u \<le> length a \<and> (\<forall>p < N. \<forall>l < u. holds (a ! (base + (p * u + l))) (val p l))"

text \<open>The shares of a configuration that realises a permutation.\<close>

definition realises :: "nat \<Rightarrow> nat list \<Rightarrow> 't list list \<Rightarrow> bool" where
  "realises k perm config \<longleftrightarrow> is_perm perm \<and> length perm = 2 ^ (k + 1)
     \<and> (\<exists>cfg. waksman_configure (map Some perm) = Some (Inr cfg) \<and> config_shared k cfg config)"

lemma realises_path:
  assumes "is_perm perm" "length perm = 2 ^ (k + 1)" "waksman_configure (map Some perm) = Some (Inr cfg)" "wk_config_ok k cfg" "p < 2 ^ (k + 1)"
  shows "path cfg (2 ^ (k + 1)) r (rounds_from 0 k) p = (if r then perm ! p else wk_inverse perm ! p)"
proof -
  have src: "path cfg (2 ^ (k + 1)) True (rounds_from 0 k) q = perm ! q" if "q < 2 ^ (k + 1)" for q
    using path_source [OF assms(4) refl, of 0 q 0 0] waksman_configure_ok [OF assms(1,2)] assms(2,3) that by auto
  have "wk_inverse perm ! p < 2 ^ (k + 1)" "perm ! (wk_inverse perm ! p) = p"
    using wk_inverse_less [OF assms(1)] nth_wk_inverse [OF assms(1)] assms(2,5) by simp_all
  then have "path cfg (2 ^ (k + 1)) False (rounds_from 0 k) p = wk_inverse perm ! p"
    using path_inverse [OF assms(4) refl, of 0 "wk_inverse perm ! p" True] src by simp
  then show ?thesis using src [OF assms(5)] by (cases r) simp_all
qed

lemma apply_config_ok:
  assumes "realises k perm config" "0 < u" "sh_unit_size sh = u" "units_shared (2 ^ (k + 1)) u val (sh_to_shuffle sh)"
    and "ready ((2 * k + 1) * (2 ^ k * u) + m) s"
  shows "\<exists>sh' s'. iter_waksman ops r (sh\<lparr>sh_config := config\<rparr>, s) = Inr (sh', s') \<and> ready m s' \<and> sh_unit_size sh' = u
    \<and> sh_n_shuffle sh' = sh_n_shuffle sh \<and> sh_exact sh' = sh_exact sh
    \<and> units_shared (2 ^ (k + 1)) u (\<lambda>p. val (if r then perm ! p else wk_inverse perm ! p)) (sh_to_shuffle sh')"
proof -
  obtain cfg where cfg: "is_perm perm" "length perm = 2 ^ (k + 1)" "waksman_configure (map Some perm) = Some (Inr cfg)" "config_shared k cfg config"
    using assms(1) by (auto simp: realises_def)
  have ok: "wk_config_ok k cfg" using cfg(4) by (simp add: config_shared_def)
  have "\<exists>sh' s'. iter_waksman ops r (sh\<lparr>sh_config := config\<rparr>, s) = Inr (sh', s') \<and> ready m s' \<and> same_setting (sh\<lparr>sh_config := config\<rparr>) sh'
    \<and> units_shared (2 ^ (k + 1)) u (\<lambda>p. val (path cfg (2 ^ (k + 1)) r (rounds_from 0 k) p)) (sh_to_shuffle sh')"
    using assms(2-5) cfg(4) by (intro iter_waksman_ok) simp_all
  then show ?thesis
    using realises_path [OF cfg(1-3) ok] assms(3) by (auto simp: same_setting_def units_shared_def)
qed

lemma apply_configs_ok:
  assumes "0 < u"
  shows "list_all2 (realises k) perms configs \<Longrightarrow> sh_unit_size sh = u \<Longrightarrow> units_shared (2 ^ (k + 1)) u val (sh_to_shuffle sh) \<Longrightarrow>
    ready (length configs * ((2 * k + 1) * (2 ^ k * u)) + m) s \<Longrightarrow>
    \<exists>sh' s'. foldM_result (\<lambda>config (sh, s). iter_waksman ops r (sh\<lparr>sh_config := config\<rparr>, s)) configs (sh, s) = Inr (sh', s') \<and> ready m s' \<and> sh_unit_size sh' = u
      \<and> sh_n_shuffle sh' = sh_n_shuffle sh \<and> sh_exact sh' = sh_exact sh
      \<and> units_shared (2 ^ (k + 1)) u (\<lambda>p. val (foldr (\<lambda>perm q. if r then perm ! q else wk_inverse perm ! q) perms p)) (sh_to_shuffle sh')"
proof (induction perms configs arbitrary: sh s val rule: list_all2_induct)
  case (Cons perm perms config configs)
  have "ready ((2 * k + 1) * (2 ^ k * u) + (length configs * ((2 * k + 1) * (2 ^ k * u)) + m)) s" using Cons.prems(3) by (simp add: add.assoc)
  from apply_config_ok [OF Cons.hyps(1) assms Cons.prems(1,2) this, of r] obtain sh1 s1 where
    1: "iter_waksman ops r (sh\<lparr>sh_config := config\<rparr>, s) = Inr (sh1, s1)" "ready (length configs * ((2 * k + 1) * (2 ^ k * u)) + m) s1" "sh_unit_size sh1 = u"
      "sh_n_shuffle sh1 = sh_n_shuffle sh" "sh_exact sh1 = sh_exact sh"
      "units_shared (2 ^ (k + 1)) u (\<lambda>p. val (if r then perm ! p else wk_inverse perm ! p)) (sh_to_shuffle sh1)"
    by (elim exE conjE) blast
  from Cons.IH [OF 1(3,6,2)] 1 show ?case by auto
qed simp

lemma shuffle_pre_ok:
  assumes "\<not> so_malicious ops \<or> pow2_ceil N = N" "0 < u" "0 < N" "sh_unit_size sh = u" "regs_shared base N u val a"
  shows "\<exists>sh'. shuffle_pre ops a (N * u) base sh = Inr sh' \<and> sh_unit_size sh' = u \<and> sh_n_shuffle sh' = N \<and> sh_exact sh'
    \<and> units_shared (pow2_ceil N) u (\<lambda>p l. if p < N then val p l else 0) (sh_to_shuffle sh')"
proof -
  let ?np = "pow2_ceil N"
  let ?step = "\<lambda>i ts. bind_result (read_reg a (base + i)) (\<lambda>x. Inr (ts[i := x]))"
  define P where "P m ts \<longleftrightarrow> length ts = ?np * u \<and> (\<forall>i < ?np * u. ts ! i = (if i < m then a ! (base + i) else so_zero ops))" for m ts
  have le: "N * u \<le> ?np * u" using pow2_ceil_ge by (rule mult_le_mono1)
  have "\<exists>ts. foldM_result ?step [0..<N * u] (vec_resize (so_zero ops) (?np * u) []) = Inr ts \<and> P (N * u) ts"
  proof (rule foldM_result_upt)
    fix i ts assume "i < N * u" "P i ts"
    then show "\<exists>ts'. ?step i ts = Inr ts' \<and> P (Suc i) ts'"
      using assms(5) le by (auto simp: read_reg_def regs_shared_def P_def nth_list_update less_Suc_eq)
  qed (simp add: P_def vec_resize_def)
  then obtain ts where ts: "foldM_result ?step [0..<N * u] (vec_resize (so_zero ops) (?np * u) []) = Inr ts" "P (N * u) ts" by blast
  have idx: "p * u + l < N * u \<longleftrightarrow> p < N" if "l < u" for p l
  proof (cases "p < N")
    case False
    then have "N * u \<le> p * u" by simp
    then show ?thesis using False by linarith
  qed (use that unit_index in simp)
  have "units_shared ?np u (\<lambda>p l. if p < N then val p l else 0) ts"
    using ts(2) assms(5) unit_index holds_zero by (auto simp: units_shared_def P_def regs_shared_def idx)
  moreover have "N * u div u = N" using assms(2) by simp
  ultimately show ?thesis
    using assms(1-4) ts(1) by (auto simp: shuffle_pre_def Let_def mult.commute [of u])
qed

lemma shuffle_post_ok:
  assumes "sh_exact sh" "units_shared np u val (sh_to_shuffle sh)" "N \<le> np" "base + N * u \<le> length a"
  shows "\<exists>a'. shuffle_post ops (N * u) base a (sh, s) = Inr (a', s) \<and> regs_shared base N u val a' \<and> length a' = length a
    \<and> (\<forall>i. i < base \<or> base + N * u \<le> i \<longrightarrow> a' ! i = a ! i)"
proof -
  let ?ts = "sh_to_shuffle sh"
  let ?step = "\<lambda>i a. bind_result (read_reg ?ts i) (\<lambda>x. write_reg (base + i) x a)"
  define P where "P m b \<longleftrightarrow> length b = length a \<and> (\<forall>i < m. b ! (base + i) = ?ts ! i) \<and> (\<forall>i. i < base \<or> base + m \<le> i \<longrightarrow> b ! i = a ! i)" for m b
  have le: "N * u \<le> length ?ts" using assms(2) mult_le_mono1 [OF assms(3)] by (simp add: units_shared_def)
  have "\<exists>b. foldM_result ?step [0..<N * u] a = Inr b \<and> P (N * u) b"
  proof (rule foldM_result_upt)
    fix i b assume "i < N * u" "P i b"
    then show "\<exists>b'. ?step i b = Inr b' \<and> P (Suc i) b'"
      using assms(4) le by (auto simp: read_reg_def write_reg_def P_def nth_list_update less_Suc_eq)
  qed (simp add: P_def)
  then obtain b where b: "foldM_result ?step [0..<N * u] a = Inr b" "P (N * u) b" by blast
  then have "shuffle_post ops (N * u) base a (sh, s) = Inr (b, s)" using assms(1) by (simp add: shuffle_post_def)
  moreover have "regs_shared base N u val b"
    using b(2) assms(2-4) unit_index by (auto simp: regs_shared_def P_def units_shared_def)
  ultimately show ?thesis using b(2) by (auto simp: P_def)
qed

lemma shuffle_apply_ok:
  assumes "\<not> so_malicious ops \<or> pow2_ceil N = N" "0 < u" "0 < N" "pow2_ceil N = 2 ^ (k + 1)"
    and "length configs = length (so_relevant ops)" "list_all2 (realises k) perms configs" "list_all (unit_perm k N) perms"
    and "regs_shared inp N u val a" "outp + N * u \<le> length a"
    and "ready (length configs * ((2 * k + 1) * (2 ^ k * u)) + m) s"
  shows "\<exists>a' sh' s'. shuffle_apply ops a (N * u) u outp inp configs r (sh, s) = Inr (a', sh', s') \<and> ready m s' \<and> length a' = length a
    \<and> regs_shared outp N u (\<lambda>p. val (shuffle_source perms r p)) a' \<and> (\<forall>i. i < outp \<or> outp + N * u \<le> i \<longrightarrow> a' ! i = a ! i)"
proof -
  let ?sh = "sh\<lparr>sh_unit_size := u, sh_stats := (sh_stats sh)(N * u div u := sh_stats sh (N * u div u) + u)\<rparr>"
  obtain sh1 where 1: "shuffle_pre ops a (N * u) inp ?sh = Inr sh1" "sh_unit_size sh1 = u" "sh_exact sh1"
    "units_shared (2 ^ (k + 1)) u (\<lambda>p l. if p < N then val p l else 0) (sh_to_shuffle sh1)"
    using shuffle_pre_ok [OF assms(1-3), of ?sh inp val a] assms(4,8) by auto
  let ?perms = "if r then rev perms else perms" and ?configs = "if r then rev configs else configs"
  have "list_all2 (realises k) ?perms ?configs" "length ?configs = length configs" using assms(6) by simp_all
  with apply_configs_ok [OF assms(2) _ 1(2,4), of ?perms ?configs m s r] assms(10) obtain sh2 s2 where
    2: "apply_configs ops r configs (sh1, s) = Inr (sh2, s2)" "ready m s2" "sh_unit_size sh2 = u" "sh_exact sh2 = sh_exact sh1"
    "units_shared (2 ^ (k + 1)) u (\<lambda>p. (\<lambda>p l. if p < N then val p l else 0) (foldr (\<lambda>perm q. if r then perm ! q else wk_inverse perm ! q) ?perms p)) (sh_to_shuffle sh2)"
    by (auto simp: apply_configs_def)
  have src: "foldr (\<lambda>perm q. if r then perm ! q else wk_inverse perm ! q) ?perms p = shuffle_source perms r p" for p
    by (cases r) (simp_all add: shuffle_source_def)
  have le: "N \<le> 2 ^ (k + 1)" using pow2_ceil_ge [of N] assms(4) by simp
  have "sh_exact sh2" using 1(3) 2(4) by simp
  from shuffle_post_ok [OF this 2(5) [unfolded src] le assms(9), of s2] obtain a' where
    3: "shuffle_post ops (N * u) outp a (sh2, s2) = Inr (a', s2)" "length a' = length a" "\<forall>i. i < outp \<or> outp + N * u \<le> i \<longrightarrow> a' ! i = a ! i"
    "regs_shared outp N u (\<lambda>p. (\<lambda>p l. if p < N then val p l else 0) (shuffle_source perms r p)) a'" by blast
  have "regs_shared outp N u (\<lambda>p. val (shuffle_source perms r p)) a'"
    using 3(4) shuffle_source_less [OF assms(7)] by (simp add: regs_shared_def)
  then show ?thesis using 1(1) 2(1,2) 3(1-3) assms(5) by (auto simp: shuffle_apply_def Let_def)
qed

end

subsection \<open>Generating a shuffle\<close>

text \<open>With input, for protocols with passive security.\<close>

locale shuffle_inputs = shuffle_protocol ops holds ready
  for ops :: "('t, 'b :: comm_ring_1, 's) shuffle_ops" and holds :: "'t \<Rightarrow> 'b \<Rightarrow> bool" and ready :: "nat \<Rightarrow> 's \<Rightarrow> bool" +
  assumes semi: "\<not> so_malicious ops"
    and inputs: "ready (length vs + r) s \<Longrightarrow> p \<in> set (so_relevant ops) \<Longrightarrow>
      \<exists>ts s'. so_inputs ops p vs s = Inr (ts, s') \<and> length ts = length vs \<and> ready r s' \<and> (\<forall>i < length vs. holds (ts ! i) (vs ! i))"
begin

lemma shuffle_configure_ok:
  assumes "0 < N" "pow2_ceil N = 2 ^ (k + 1)" "is_perm perm" "length perm = 2 ^ (k + 1)" "p \<in> set (so_relevant ops)" "ready (k * 2 ^ (k + 1) + 1 + m) s"
  shows "\<exists>config s'. shuffle_configure ops p perm N (sh, s) = Some (Inr (sh\<lparr>sh_config := config\<rparr>, s')) \<and> ready m s' \<and> realises k perm config"
proof -
  obtain cfg where cfg: "waksman_configure (map Some perm) = Some (Inr cfg)" "wk_config_ok k cfg"
    using waksman_configure_ok [OF assms(3,4)] by blast
  let ?bits = "concat (map (\<lambda>i. map (\<lambda>j. cfg ! i ! j) (config_cols k i)) [0..<k + 1])"
  have bits: "config_inputs (wk_of k) cfg = Inr ?bits" "length ?bits = n_bits (wk_of k)"
    using config_inputs_ok [OF cfg(2)] config_inputs_length [OF cfg(2)] by blast+
  then have len: "length ?bits = k * 2 ^ (k + 1) + 1" by (simp add: n_bits_def)
  have "ready (length (map (of_bool :: bool \<Rightarrow> 'b) ?bits) + m) s" using assms(6) len by (simp del: upt_Suc)
  from inputs [OF this assms(5)] obtain ts s' where
    ts: "so_inputs ops p (map of_bool ?bits) s = Inr (ts, s')" "length ts = length ?bits" "ready m s'"
      "\<forall>i < length ?bits. holds (ts ! i) (map of_bool ?bits ! i)" by (auto simp del: upt_Suc)
  have "length ts = length (concat (map (config_cols k) [0..<k + 1]))"
    unfolding ts(2) by (simp add: length_concat comp_def del: upt_Suc)
  from config_rows_ok [OF cfg(2) this] ts(2,4) obtain config pairs where
    "foldM_result (config_row ops (wk_of k)) [0..<k + 1] ([], ts, []) = Inr (config, [], pairs)" "config_shared k cfg config"
    by (auto simp del: upt_Suc)
  then have "shuffle_configure ops p perm N (sh, s) = Some (Inr (sh\<lparr>sh_config := config\<rparr>, s'))"
    using assms(1) bits(1) ts(1) cfg(1) semi unfolding shuffle_configure_def assms(2) waksman_new_power
    by (simp add: n_rounds_def config_check_def del: upt_Suc)
  then show ?thesis using ts(3) assms(3,4) cfg(1) \<open>config_shared k cfg config\<close> by (auto simp: realises_def)
qed

lemma shuffle_generate_ok:
  assumes "0 < N" "pow2_ceil N = 2 ^ (k + 1)" "N < 2 ^ 31" "length Gs = length (so_relevant ops)"
    and "\<forall>G \<in> set Gs. \<exists>perm. generate_random_permutation E pl N G = Some (Inr perm)"
    and "ready (length Gs * (k * 2 ^ (k + 1) + 1) + m) s"
  shows "\<exists>configs sh' s' perms. shuffle_generate E pl ops N Gs store (sh, s) = Some (Inr (length store, store @ [configs], sh', s')) \<and> ready m s'
    \<and> length configs = length (so_relevant ops) \<and> list_all2 (realises k) perms configs \<and> list_all (unit_perm k N) perms"
proof -
  have run: "set xs \<subseteq> set (so_relevant ops) \<times> set Gs \<Longrightarrow> ready (length xs * (k * 2 ^ (k + 1) + 1) + m) s \<Longrightarrow>
      \<exists>configs sh' s' perms. foldM_io (generate_one E pl ops N) xs (configs0, sh, s) = Some (Inr (configs0 @ configs, sh', s')) \<and> ready m s'
        \<and> length configs = length xs \<and> list_all2 (realises k) perms configs \<and> list_all (unit_perm k N) perms" for xs configs0 sh s
  proof (induction xs arbitrary: configs0 sh s)
    case Nil
    then show ?case by (intro exI [of _ "[]"] exI [of _ sh] exI [of _ s]) simp
  next
    case (Cons x xs)
    obtain p G where x: "x = (p, G)" "p \<in> set (so_relevant ops)" "G \<in> set Gs" using Cons.prems(1) by (cases x) auto
    obtain perm where perm: "generate_random_permutation E pl N G = Some (Inr perm)" using bspec [OF assms(5) x(3)] by blast
    note P = generate_random_permutation_perm [OF perm assms(3)]
    have "ready (k * 2 ^ (k + 1) + 1 + (length xs * (k * 2 ^ (k + 1) + 1) + m)) s" using Cons.prems(2) by (simp add: algebra_simps)
    from shuffle_configure_ok [OF assms(1,2) P(1) _ x(2) this, of sh] P(2) assms(2) obtain config s1 where
      1: "shuffle_configure ops p perm N (sh, s) = Some (Inr (sh\<lparr>sh_config := config\<rparr>, s1))" "ready (length xs * (k * 2 ^ (k + 1) + 1) + m) s1"
        "realises k perm config" by auto
    from Cons.IH [OF _ 1(2), of "configs0 @ [config]" "sh\<lparr>sh_config := config\<rparr>"] Cons.prems(1) obtain configs sh' s' perms where
      2: "foldM_io (generate_one E pl ops N) xs (configs0 @ [config], sh\<lparr>sh_config := config\<rparr>, s1) = Some (Inr (configs0 @ config # configs, sh', s'))"
        "ready m s'" "length configs = length xs" "list_all2 (realises k) perms configs" "list_all (unit_perm k N) perms" by auto
    have "unit_perm k N perm" using P assms(2) pow2_ceil_ge [of N] by (simp add: unit_perm_def)
    then show ?case using 1 2 perm
      by (intro exI [of _ "config # configs"] exI [of _ sh'] exI [of _ s'] exI [of _ "perm # perms"]) (simp add: x generate_one_def)
  qed
  have "set (zip (so_relevant ops) Gs) \<subseteq> set (so_relevant ops) \<times> set Gs" by (auto dest: set_zip_leftD set_zip_rightD)
  from run [OF this, of s "[]" sh] assms(4,6) obtain configs sh' s' perms where
    "foldM_io (generate_one E pl ops N) (zip (so_relevant ops) Gs) ([], sh, s) = Some (Inr (configs, sh', s'))" "ready m s'"
    "length configs = length (so_relevant ops)" "list_all2 (realises k) perms configs" "list_all (unit_perm k N) perms" by auto
  then show ?thesis
    by (intro exI [of _ configs] exI [of _ sh'] exI [of _ s'] exI [of _ perms]) (simp add: shuffle_generate_def store_add_def)
qed

end

end
