(* ===== verification/Rep3Shuffle.thy ===== *)
theory Rep3Shuffle
  imports Rep3 SecureShuffle
begin

section \<open>Secure shuffles among three parties\<close>

text \<open>
  The shuffle of \<open>SecureShuffle\<close> over replicated shares: the multiplication of \<open>Replicated\<close>, the input of \<open>Rep3Input\<close>, run by
  the three parties on each other's messages. The locale \<open>shuffle_inputs\<close> is interpreted on them.
\<close>

subsection \<open>What an input round leaves alone\<close>

definition input_frame :: "nat \<Rightarrow> 'a rep_input \<Rightarrow> 'a rep_input \<Rightarrow> bool" where
  "input_frame p st st' \<longleftrightarrow> ri_P st' = ri_P st \<and> length (ri_expect st') = length (ri_expect st)
     \<and> (if p = pl_num (ri_P st) then ri_prng1 st' = ri_prng1 st
        else ri_prng0 st' = ri_prng0 st \<and> (int p - int (pl_num (ri_P st)) = 1 \<or> int p - int (pl_num (ri_P st)) = - 2 \<longrightarrow> ri_prng1 st' = ri_prng1 st))"

lemma input_frame_refl [simp]: "input_frame p st st"
  by (simp add: input_frame_def)

lemma input_frame_trans: "input_frame p a b \<Longrightarrow> input_frame p b c \<Longrightarrow> input_frame p a c"
  by (auto simp: input_frame_def split: if_splits)

lemma prepare_frame: "rep_input_prepare pack draw p xs st = Inr st' \<Longrightarrow> input_frame p st st'"
proof (induction xs arbitrary: st)
  case (Cons x xs)
  then obtain st1 where "(if p = pl_num (ri_P st) then rep_input_add_mine pack draw x (- 1) st else Inr (rep_input_add_other p st)) = Inr st1"
    "rep_input_prepare pack draw p xs st1 = Inr st'" by (auto simp: bind_result_Inr_iff)
  moreover from this(1) have "input_frame p st st1"
    by (auto simp: input_frame_def rep_input_add_mine_def rep_input_add_other_def bind_result_Inr_iff split: if_splits)
  ultimately show ?case using Cons.IH input_frame_trans by blast
qed simp

lemma exchange_frame: "rep_input_exchange rcv st = Inr st' \<Longrightarrow> input_frame p st st'"
  by (auto simp: rep_input_exchange_def Let_def input_frame_def bind_result_Inr_iff split: if_splits)

lemma collect_frame: "rep_input_collect unpack draw p n st = Inr (ss, st') \<Longrightarrow> input_frame p st st'"
proof (induction n arbitrary: st ss)
  case (Suc n)
  then obtain s st1 ss1 where 1: "rep_input_finalize unpack draw p (- 1) st = Inr (s, st1)" "rep_input_collect unpack draw p n st1 = Inr (ss1, st')"
    by (auto simp: bind_result_Inr_iff)
  have "input_frame p st st1"
    using 1(1) by (auto simp: rep_input_finalize_def rep_input_finalize_mine_def rep_input_finalize_other_def Let_def input_frame_def
        bind_result_Inr_iff split: if_splits)
  then show ?case using Suc.IH [OF 1(2)] input_frame_trans by blast
qed simp

lemma round_frame:
  assumes "rep_input_round pack unpack draw p rcv xs st = Inr (ss, st')"
  shows "input_frame p st st'"
proof -
  from assms obtain st1 st2 where 1: "rep_input_prepare pack draw p xs st = Inr st1" "rep_input_exchange rcv st1 = Inr st2"
    "rep_input_collect unpack draw p (length xs) st2 = Inr (ss, st')"
    unfolding rep_input_round_def bind_result_Inr_iff by (elim exE conjE)
  show ?thesis
    by (rule input_frame_trans [OF prepare_frame [OF 1(1)] input_frame_trans [OF exchange_frame [OF 1(2)] collect_frame [OF 1(3)]]])
qed

lemma list_of_three: "length xs = 3 \<Longrightarrow> xs = [xs ! 0, xs ! 1, xs ! 2]"
  by (rule nth_equalityI) (auto simp: less_Suc_eq numeral_3_eq_3 numeral_2_eq_2)

lemma rep_input_reset_all_fresh:
  assumes "pl_num (ri_P st) < 3" "pl_count (ri_P st) = 3" "length (ri_expect st) = 3"
  shows "\<exists>st'. rep_input_reset_all (ri_P st) st = Inr st' \<and> fresh_input (pl_num (ri_P st)) st' \<and> ri_P st' = ri_P st
    \<and> ri_prng0 st' = ri_prng0 st \<and> ri_prng1 st' = ri_prng1 st"
proof -
  let ?b = "take 3 (ri_base_os st) @ replicate (3 - length (ri_base_os st)) os_empty"
  have "length ?b = 3" by simp
  then obtain a b c where b: "?b = [a, b, c]" using list_of_three by blast
  obtain x y z where e: "ri_expect st = [x, y, z]" using assms(3) list_of_three by blast
  let ?o = "map os_reset_write_head (take 2 (ri_os st) @ replicate (2 - length (ri_os st)) os_empty)"
  have o: "length ?o = 2" "os_writable (?o ! 1)" "os_data (?o ! 1) = []"
    by (simp_all add: nth_append reset_streams)
  from assms(1) consider "pl_num (ri_P st) = 0" | "pl_num (ri_P st) = 1" | "pl_num (ri_P st) = 2" by linarith
  then show ?thesis
    using o
    by cases (simp_all add: rep_input_reset_all_def upt_three rep_input_reset_def input_base_reset_def Let_def assms(2) b e
        fresh_input_def All_less_Suc reset_streams numeral_3_eq_3 numeral_2_eq_2 pv_clear_def pv_reset_def pv_new_def)
qed

subsection \<open>The three parties together\<close>

text \<open>One step of all three, which fails when it does at one of them.\<close>

definition run3 :: "(nat \<Rightarrow> 'x result) \<Rightarrow> (nat \<Rightarrow> 'x) result" where
  "run3 f = bind_result (f 0) (\<lambda>x0. bind_result (f 1) (\<lambda>x1. bind_result (f 2) (\<lambda>x2.
     Inr (\<lambda>i. if i = 0 then x0 else if i = 1 then x1 else x2))))"

lemma run3_ok: "(\<And>i. i < 3 \<Longrightarrow> f i = Inr (x i)) \<Longrightarrow> \<exists>y. run3 f = Inr y \<and> (\<forall>i < 3. y i = x i)"
  by (auto simp: run3_def less_Suc_eq numeral_3_eq_3 numeral_2_eq_2)

definition party3 :: "(nat \<Rightarrow> octet list) \<Rightarrow> nat \<Rightarrow> player" where
  "party3 c i = \<lparr>pl_num = i, pl_count = 3, pl_ctx = c i\<rparr>"

lemma party3_simps [simp]: "pl_num (party3 c i) = i" "pl_count (party3 c i) = 3"
  by (simp_all add: party3_def)

text \<open>What a list of shares of all parties is at one of them, and back.\<close>

definition at_party :: "nat \<Rightarrow> ((nat \<Rightarrow> 'a) \<times> (nat \<Rightarrow> 'a)) list \<Rightarrow> ('a \<times> 'a) list" where
  "at_party i ps = map (\<lambda>(x, y). (x i, y i)) ps"

definition of_parties :: "nat \<Rightarrow> (nat \<Rightarrow> 'a list) \<Rightarrow> (nat \<Rightarrow> 'a) list" where
  "of_parties m Z = map (\<lambda>k i. Z i ! k) [0..<m]"

lemma at_party_simps [simp]: "length (at_party i ps) = length ps"
  "k < length ps \<Longrightarrow> at_party i ps ! k = (fst (ps ! k) i, snd (ps ! k) i)"
  by (simp_all add: at_party_def split_beta)

lemma of_parties_simps [simp]: "length (of_parties m Z) = m" "k < m \<Longrightarrow> of_parties m Z ! k = (\<lambda>i. Z i ! k)"
  by (simp_all add: of_parties_def)

definition rep3_muls :: "block_cipher \<Rightarrow> nat \<Rightarrow> int \<Rightarrow> (nat \<Rightarrow> octet list) \<Rightarrow> ((nat \<Rightarrow> 'k :: len word rep3) \<times> (nat \<Rightarrow> 'k word rep3)) list
    \<Rightarrow> (nat \<Rightarrow> 'k word replicated) \<times> (nat \<Rightarrow> 'k word rep_input) \<Rightarrow> ((nat \<Rightarrow> 'k word rep3) list \<times> (nat \<Rightarrow> 'k word replicated) \<times> (nat \<Rightarrow> 'k word rep_input)) result" where
  "rep3_muls E pl dl c ps = (\<lambda>(S, I).
     bind_result (run3 (\<lambda>i. rep_multiply (\<lambda>_. zw_pack) (\<lambda>_. zw_get) (zw_draw E pl) dl (party3 c i)
         (\<lambda>j. rep_message (\<lambda>_. zw_pack) (zw_draw E pl) (at_party j ps) (S j)) (at_party i ps) (S i))) (\<lambda>R.
     Inr (of_parties (length ps) (\<lambda>i. fst (R i)), \<lambda>i. snd (R i), I)))"

definition rep3_inputs :: "block_cipher \<Rightarrow> nat \<Rightarrow> (nat \<Rightarrow> octet list) \<Rightarrow> nat \<Rightarrow> 'k :: len word list
    \<Rightarrow> (nat \<Rightarrow> 'k word replicated) \<times> (nat \<Rightarrow> 'k word rep_input) \<Rightarrow> ((nat \<Rightarrow> 'k word rep3) list \<times> (nat \<Rightarrow> 'k word replicated) \<times> (nat \<Rightarrow> 'k word rep_input)) result" where
  "rep3_inputs E pl c p vs = (\<lambda>(S, I).
     (let xs = \<lambda>i. if i = p then vs else replicate (length vs) 0 in
      bind_result (run3 (\<lambda>i. rep_input_reset_all (party3 c i) (I i))) (\<lambda>I.
      bind_result (run3 (\<lambda>i. rep_input_round (\<lambda>_. zw_pack) (\<lambda>_. zw_get) (zw_draw E pl) p
          (\<lambda>j. rep_input_message (\<lambda>_. zw_pack) (zw_draw E pl) p (xs j) (I j)) (xs i) (I i))) (\<lambda>R.
      Inr (of_parties (length vs) (\<lambda>i. fst (R i)), S, \<lambda>i. snd (R i))))))"

text \<open>
  Opening, sums of products and the check are not run by a shuffle with passive security. The relevant players are
  the first \<open>threshold + 1\<close>, and the threshold of three parties is 1.
\<close>

definition rep3_shuffle_ops :: "block_cipher \<Rightarrow> nat \<Rightarrow> int \<Rightarrow> (nat \<Rightarrow> octet list)
    \<Rightarrow> (nat \<Rightarrow> 'k :: len word rep3, 'k word, (nat \<Rightarrow> 'k word replicated) \<times> (nat \<Rightarrow> 'k word rep_input)) shuffle_ops" where
  "rep3_shuffle_ops E pl dl c = \<lparr>so_malicious = False, so_zero = \<lambda>_. [0, 0], so_one = rep3_constant 1,
     so_add = \<lambda>x y i. fv_add (x i) (y i), so_sub = \<lambda>x y i. fv_sub (x i) (y i),
     so_muls = rep3_muls E pl dl c, so_opens = \<lambda>_ _. Inl not_implemented, so_inputs = rep3_inputs E pl c,
     so_dotprod = \<lambda>_ _. Inl not_implemented, so_check = Inr, so_relevant = [0, 1]\<rparr>"

lemma rep3_shuffle_ops_simps [simp]:
  "so_malicious (rep3_shuffle_ops E pl dl c) = False" "so_relevant (rep3_shuffle_ops E pl dl c) = [0, 1]"
  by (simp_all add: rep3_shuffle_ops_def)

text \<open>All generators stand where their partners do, with \<open>m\<close> elements left.\<close>

definition rep3_ready :: "block_cipher \<Rightarrow> nat \<Rightarrow> (nat \<Rightarrow> octet list) \<Rightarrow> nat \<Rightarrow> (nat \<Rightarrow> 'k :: len word replicated) \<times> (nat \<Rightarrow> 'k word rep_input) \<Rightarrow> bool" where
  "rep3_ready E pl c m = (\<lambda>(S, I).
     parties_linked (zw_linked E pl (z2_N_BYTES LENGTH('k))) m S \<and> m * z2_N_BYTES LENGTH('k) < 2 ^ 32
     \<and> (\<forall>i < 3. zw_linked E pl (z2_N_BYTES LENGTH('k)) m (ri_prng0 (I i)) (ri_prng1 (I (next3 i)))
          \<and> ri_P (I i) = party3 c i \<and> length (ri_expect (I i)) = 3))"

lemma zw_linked_mono:
  assumes "zw_linked E pl N m G H" "m' \<le> m"
  shows "zw_linked E pl N m' G H"
proof -
  obtain key k where k: "cipher_ok E" "0 < pl" "prng_at E pl key k G" "prng_at E pl key k H" "(k + m * N) div 16 + pl \<le> 2 ^ 64"
    using assms(1) by (auto simp: zw_linked_def)
  have "(k + m' * N) div 16 \<le> (k + m * N) div 16" using assms(2) by (intro div_le_mono) simp
  with k(5) have "(k + m' * N) div 16 + pl \<le> 2 ^ 64" by linarith
  with k(1-4) show ?thesis by (auto simp: zw_linked_def)
qed

lemma rep3_ready_mono:
  assumes "rep3_ready E pl c m (s :: (nat \<Rightarrow> 'k :: len word replicated) \<times> (nat \<Rightarrow> 'k word rep_input))" "m' \<le> m"
  shows "rep3_ready E pl c m' s"
proof -
  have "m' * z2_N_BYTES LENGTH('k) \<le> m * z2_N_BYTES LENGTH('k)" using assms(2) by simp
  moreover have "m * z2_N_BYTES LENGTH('k) < 2 ^ 32" using assms(1) by (auto simp: rep3_ready_def)
  ultimately have "m' * z2_N_BYTES LENGTH('k) < 2 ^ 32" by (rule le_less_trans)
  then show ?thesis
    using assms zw_linked_mono [OF _ assms(2)] by (cases s) (simp add: rep3_ready_def parties_linked_def)
qed

lemma rep3_muls_ok:
  fixes ps :: "((nat \<Rightarrow> 'k :: len word rep3) \<times> (nat \<Rightarrow> 'k word rep3)) list"
  assumes "rep3_ready E pl c (length ps + r) s"
    and V: "\<And>k. k < length ps \<Longrightarrow> replicated3 (fst (ps ! k)) (f k) \<and> replicated3 (snd (ps ! k)) (g k)"
  shows "\<exists>zs s'. rep3_muls E pl dl c ps s = Inr (zs, s') \<and> length zs = length ps \<and> rep3_ready E pl c r s'
    \<and> (\<forall>k < length ps. replicated3 (zs ! k) (f k * g k))"
proof -
  let ?w = "z2_N_BYTES LENGTH('k)" and ?m = "length ps"
  obtain S I where s: "s = (S, I)" by (cases s)
  have R: "parties_linked (zw_linked E pl ?w) (?m + r) S" "(?m + r) * ?w < 2 ^ 32"
    using assms(1) by (simp_all add: rep3_ready_def s)
  have b: "?m * ?w < 2 ^ 32" using R(2) by (simp add: algebra_simps)
  have v: "replicated3 (\<lambda>i. fst (at_party i ps ! k)) (f k)" "replicated3 (\<lambda>i. snd (at_party i ps ! k)) (g k)" if "k < ?m" for k
    using V [OF that] that by simp_all
  have "\<exists>Z S'. (\<forall>i < 3. rep_multiply (\<lambda>_. zw_pack) (\<lambda>_. zw_get) (zw_draw E pl) dl \<lparr>pl_num = i, pl_count = 3, pl_ctx = c i\<rparr>
        (\<lambda>j. rep_message (\<lambda>_. zw_pack) (zw_draw E pl) (at_party j ps) (S j)) (at_party i ps) (S i) = Inr (Z i, S' i) \<and> length (Z i) = ?m)
      \<and> (\<forall>k < ?m. replicated3 (\<lambda>i. Z i ! k) (f k * g k)) \<and> parties_linked (zw_linked E pl ?w) r S'"
    using v by (intro rep.all_multiply [OF zw_rep_codec R(1) at_party_simps(1) _ _ length_le_bytes b])
  then obtain Z S' where
    1: "\<forall>i < 3. rep_multiply (\<lambda>_. zw_pack) (\<lambda>_. zw_get) (zw_draw E pl) dl (party3 c i)
          (\<lambda>j. rep_message (\<lambda>_. zw_pack) (zw_draw E pl) (at_party j ps) (S j)) (at_party i ps) (S i) = Inr (Z i, S' i) \<and> length (Z i) = ?m"
      "\<forall>k < ?m. replicated3 (\<lambda>i. Z i ! k) (f k * g k)" "parties_linked (zw_linked E pl ?w) r S'"
    unfolding party3_def by blast
  from 1(1) run3_ok [of "\<lambda>i. rep_multiply (\<lambda>_. zw_pack) (\<lambda>_. zw_get) (zw_draw E pl) dl (party3 c i)
          (\<lambda>j. rep_message (\<lambda>_. zw_pack) (zw_draw E pl) (at_party j ps) (S j)) (at_party i ps) (S i)" "\<lambda>i. (Z i, S' i)"] obtain R where
    2: "run3 (\<lambda>i. rep_multiply (\<lambda>_. zw_pack) (\<lambda>_. zw_get) (zw_draw E pl) dl (party3 c i)
          (\<lambda>j. rep_message (\<lambda>_. zw_pack) (zw_draw E pl) (at_party j ps) (S j)) (at_party i ps) (S i)) = Inr R" "\<forall>i < 3. R i = (Z i, S' i)" by blast
  have "replicated3 (\<lambda>i. fst (R i) ! k) (f k * g k)" if "k < ?m" for k
    using 1(2) that 2(2) by (simp add: replicated3_iff)
  moreover have "rep3_ready E pl c r (\<lambda>i. snd (R i), I)"
    using rep3_ready_mono [OF assms(1), of r] 1(3) 2(2) by (simp add: rep3_ready_def s parties_linked_iff)
  ultimately show ?thesis using 2(1) by (simp add: rep3_muls_def s)
qed

lemma rep3_inputs_ok:
  fixes vs :: "'k :: len word list"
  assumes "rep3_ready E pl c (length vs + r) s" "p < 3"
  shows "\<exists>ts s'. rep3_inputs E pl c p vs s = Inr (ts, s') \<and> length ts = length vs \<and> rep3_ready E pl c r s'
    \<and> (\<forall>k < length vs. replicated3 (ts ! k) (vs ! k))"
proof -
  let ?w = "z2_N_BYTES LENGTH('k)" and ?xs = "\<lambda>i. if i = p then vs else replicate (length vs) 0"
  obtain S I where s: "s = (S, I)" by (cases s)
  have R: "(length vs + r) * ?w < 2 ^ 32" "\<And>i. i < 3 \<Longrightarrow> ri_P (I i) = party3 c i" "\<And>i. i < 3 \<Longrightarrow> length (ri_expect (I i)) = 3"
    "\<And>i. i < 3 \<Longrightarrow> zw_linked E pl ?w (length vs + r) (ri_prng0 (I i)) (ri_prng1 (I (next3 i)))"
    using assms(1) by (simp_all add: rep3_ready_def s)
  have b: "length vs * ?w < 2 ^ 32" using R(1) by (simp add: algebra_simps)
  have "\<forall>i. \<exists>st. i < 3 \<longrightarrow> rep_input_reset_all (party3 c i) (I i) = Inr st \<and> fresh_input i st \<and> ri_P st = party3 c i
      \<and> ri_prng0 st = ri_prng0 (I i) \<and> ri_prng1 st = ri_prng1 (I i)"
  proof
    fix i
    show "\<exists>st. i < 3 \<longrightarrow> rep_input_reset_all (party3 c i) (I i) = Inr st \<and> fresh_input i st \<and> ri_P st = party3 c i
      \<and> ri_prng0 st = ri_prng0 (I i) \<and> ri_prng1 st = ri_prng1 (I i)"
      using rep_input_reset_all_fresh [of "I i"] R(2,3) [of i] by (cases "i < 3") simp_all
  qed
  then obtain I0 where I0: "\<And>i. i < 3 \<Longrightarrow> rep_input_reset_all (party3 c i) (I i) = Inr (I0 i)" "\<And>i. i < 3 \<Longrightarrow> fresh_input i (I0 i)"
    "\<And>i. i < 3 \<Longrightarrow> ri_P (I0 i) = party3 c i" "\<And>i. i < 3 \<Longrightarrow> ri_prng0 (I0 i) = ri_prng0 (I i) \<and> ri_prng1 (I0 i) = ri_prng1 (I i)"
    using choice [of "\<lambda>i st. i < 3 \<longrightarrow> rep_input_reset_all (party3 c i) (I i) = Inr st \<and> fresh_input i st \<and> ri_P st = party3 c i
      \<and> ri_prng0 st = ri_prng0 (I i) \<and> ri_prng1 st = ri_prng1 (I i)"] by blast
  obtain I1 where I1: "run3 (\<lambda>i. rep_input_reset_all (party3 c i) (I i)) = Inr I1" "\<And>i. i < 3 \<Longrightarrow> I1 i = I0 i"
    using run3_ok [of "\<lambda>i. rep_input_reset_all (party3 c i) (I i)" I0] I0(1) by auto
  have F: "fresh_input i (I1 i)" if "i < 3" for i using I0(2) I1(2) that by simp
  have n: "next3 i < 3" for i by (simp add: next3_def)
  have L: "zw_linked E pl ?w (length vs + r) (ri_prng0 (I1 i)) (ri_prng1 (I1 (next3 i)))" if "i < 3" for i
    using R(4) [OF that] I0(4) [OF that] I0(4) [OF n [of i]] I1(2) [OF that] I1(2) [OF n [of i]] by simp
  let ?rcv = "\<lambda>j. rep_input_message (\<lambda>_. zw_pack) (zw_draw E pl) p (?xs j) (I1 j)"
  have "?rcv p = rep_input_message (\<lambda>_. zw_pack) (zw_draw E pl) p vs (I1 p)" by simp
  note all = rep.all_input [where pack = "\<lambda>_. zw_pack" and unpack = "\<lambda>_. zw_get" and ys = ?xs and rcv = ?rcv,
      OF zw_rep_codec F assms(2) L [OF assms(2)] length_le_bytes b _ _ this]
  have "\<exists>Z S'. (\<forall>i < 3. rep_input_round (\<lambda>_. zw_pack) (\<lambda>_. zw_get) (zw_draw E pl) p ?rcv (?xs i) (I1 i) = Inr (Z i, S' i))
    \<and> (\<forall>k < length vs. replicated3 (\<lambda>i. Z i ! k) (vs ! k)) \<and> zw_linked E pl ?w r (ri_prng0 (S' p)) (ri_prng1 (S' (next3 p)))"
    by (rule all) simp_all
  then obtain Z S' where Z: "\<And>i. i < 3 \<Longrightarrow> rep_input_round (\<lambda>_. zw_pack) (\<lambda>_. zw_get) (zw_draw E pl) p ?rcv (?xs i) (I1 i) = Inr (Z i, S' i)"
    "\<forall>k < length vs. replicated3 (\<lambda>i. Z i ! k) (vs ! k)" "zw_linked E pl ?w r (ri_prng0 (S' p)) (ri_prng1 (S' (next3 p)))" by blast
  obtain R1 where R1: "run3 (\<lambda>i. rep_input_round (\<lambda>_. zw_pack) (\<lambda>_. zw_get) (zw_draw E pl) p ?rcv (?xs i) (I1 i)) = Inr R1" "\<And>i. i < 3 \<Longrightarrow> R1 i = (Z i, S' i)"
    using run3_ok [of "\<lambda>i. rep_input_round (\<lambda>_. zw_pack) (\<lambda>_. zw_get) (zw_draw E pl) p ?rcv (?xs i) (I1 i)" "\<lambda>i. (Z i, S' i)"] Z(1) by auto
  have fr: "input_frame p (I1 i) (S' i)" if "i < 3" for i using round_frame [OF Z(1) [OF that]] .
  have keep: "ri_P (S' i) = party3 c i \<and> length (ri_expect (S' i)) = 3" if "i < 3" for i
    using fr [OF that] I1(2) [OF that] I0(3) [OF that] F [OF that] by (simp add: input_frame_def fresh_input_def)
  have "zw_linked E pl ?w r (ri_prng0 (S' i)) (ri_prng1 (S' (next3 i)))" if i: "i < 3" for i
  proof (cases "i = p")
    case False
    have P: "pl_num (ri_P (I1 i)) = i" "pl_num (ri_P (I1 (next3 i))) = next3 i"
      using I1(2) [OF i] I0(3) [OF i] I1(2) [OF n [of i]] I0(3) [OF n [of i]] by simp_all
    have "ri_prng0 (S' i) = ri_prng0 (I1 i)" using fr [OF i] False P(1) by (simp add: input_frame_def)
    moreover have "p = next3 i \<or> int p - int (next3 i) = 1 \<or> int p - int (next3 i) = - 2"
      using next3_cases [OF i] assms(2) False by auto
    then have "ri_prng1 (S' (next3 i)) = ri_prng1 (I1 (next3 i))" using fr [OF n [of i]] P(2) by (auto simp: input_frame_def split: if_splits)
    ultimately show ?thesis using zw_linked_mono [OF L [OF i], of r] by simp
  qed (use Z(3) in simp)
  then have "rep3_ready E pl c r (S, \<lambda>i. snd (R1 i))"
    using rep3_ready_mono [OF assms(1), of r] keep R1(2) n by (simp add: rep3_ready_def s)
  moreover have "replicated3 (\<lambda>i. fst (R1 i) ! k) (vs ! k)" if "k < length vs" for k
    using Z(2) that R1(2) by (simp add: replicated3_iff)
  ultimately show ?thesis using I1(1) R1(1) by (simp add: rep3_inputs_def s Let_def)
qed

subsection \<open>The interpretation\<close>

interpretation r3shuffle: shuffle_inputs "rep3_shuffle_ops E pl dl c" replicated3
  "rep3_ready E pl c :: nat \<Rightarrow> (nat \<Rightarrow> 'k :: len word replicated) \<times> (nat \<Rightarrow> 'k word rep_input) \<Rightarrow> bool" for E pl dl c
proof unfold_locales
  show "replicated3 (so_zero (rep3_shuffle_ops E pl dl c)) (0 :: 'k word)" by (simp add: rep3_shuffle_ops_def replicated3_iff)
next
  fix x y and a b :: "'k word" assume "replicated3 x a" "replicated3 y b"
  then show "replicated3 (so_add (rep3_shuffle_ops E pl dl c) x y) (a + b)" "replicated3 (so_sub (rep3_shuffle_ops E pl dl c) x y) (a - b)"
    using rep3.holds_add rep3.holds_sub by (simp_all add: rep3_shuffle_ops_def)
next
  fix m m' and s :: "(nat \<Rightarrow> 'k :: len word replicated) \<times> (nat \<Rightarrow> 'k word rep_input)"
  show "rep3_ready E pl c m s \<Longrightarrow> m' \<le> m \<Longrightarrow> rep3_ready E pl c m' s" by (rule rep3_ready_mono)
next
  fix ps :: "((nat \<Rightarrow> 'k :: len word rep3) \<times> (nat \<Rightarrow> 'k word rep3)) list" and r f g
    and s :: "(nat \<Rightarrow> 'k word replicated) \<times> (nat \<Rightarrow> 'k word rep_input)"
  assume "rep3_ready E pl c (length ps + r) s" "\<And>i. i < length ps \<Longrightarrow> replicated3 (fst (ps ! i)) (f i :: 'k word) \<and> replicated3 (snd (ps ! i)) (g i)"
  from rep3_muls_ok [OF this, where dl = dl]
  show "\<exists>zs s'. so_muls (rep3_shuffle_ops E pl dl c) ps s = Inr (zs, s') \<and> length zs = length ps \<and> rep3_ready E pl c r s'
      \<and> (\<forall>i < length ps. replicated3 (zs ! i) (f i * g i))"
    by (simp add: rep3_shuffle_ops_def)
next
  fix vs :: "'k :: len word list" and r p and s :: "(nat \<Rightarrow> 'k word replicated) \<times> (nat \<Rightarrow> 'k word rep_input)"
  assume "rep3_ready E pl c (length vs + r) s" "p \<in> set (so_relevant (rep3_shuffle_ops E pl dl c))"
  then show "\<exists>ts s'. so_inputs (rep3_shuffle_ops E pl dl c) p vs s = Inr (ts, s') \<and> length ts = length vs \<and> rep3_ready E pl c r s'
      \<and> (\<forall>i < length vs. replicated3 (ts ! i) (vs ! i :: 'k word))"
    using rep3_inputs_ok [of E pl c vs r s p] by (auto simp: rep3_shuffle_ops_def)
qed simp

subsection \<open>From the set-up\<close>

text \<open>After the set-up, with an input object on generators of its own, everything is ready.\<close>

lemma set_up_ready:
  assumes "rep3_set_up E pl c entropy os g" "cipher_ok E" "0 < pl" "pl \<le> 256" "m * z2_N_BYTES LENGTH('k) < 2 ^ 32"
  shows "\<exists>b H I. (\<forall>i < 3. replicated_branch E pl (g i) (new i) = Inr (b i, H i) \<and> rep_input_new (party3 c i) (b i) = Inr (I i))
    \<and> rep3_ready E pl c m (\<lambda>i. replicated_new (H i), I :: nat \<Rightarrow> 'k :: len word rep_input)"
proof -
  let ?w = "z2_N_BYTES LENGTH('k)"
  have "(0 + SEED_SIZE) div 16 + pl \<le> 2 ^ 64" using assms(4) by (simp add: SEED_SIZE_def AES_BLK_SIZE_def)
  from gens_agree_branch [OF rep3_set_up_agree [OF assms(1,3,4)] assms(2-4) this, of new] obtain b H0 H1 where
    B: "\<And>i. i < 3 \<Longrightarrow> replicated_branch E pl (g i) (new i) = Inr (b i, H0 i, H1 i)" "gens_agree E pl 0 b" "gens_agree E pl SEED_SIZE (\<lambda>i. (H0 i, H1 i))"
    by auto
  have n: "(0 + m * ?w) div 16 + pl \<le> 2 ^ 64" "(SEED_SIZE + m * ?w) div 16 + pl \<le> 2 ^ 64"
    by (rule budget [OF assms(5,4)], simp add: SEED_SIZE_def AES_BLK_SIZE_def)+
  define I :: "nat \<Rightarrow> 'k word rep_input" where "I = (\<lambda>i. projr (rep_input_new (party3 c i) (b i)))"
  have I: "rep_input_new (party3 c i) (b i) = Inr (I i) \<and> ri_prng0 (I i) = fst (b i) \<and> ri_prng1 (I i) = snd (b i)
      \<and> ri_P (I i) = party3 c i \<and> length (ri_expect (I i)) = 3" if "i < 3" for i
  proof -
    let ?st = "\<lparr>ri_P = party3 c i, ri_shares = pv_new, ri_os = [], ri_prng0 = fst (b i), ri_prng1 = snd (b i),
       ri_expect = replicate 3 False, ri_base_os = [], ri_values_input = 0\<rparr> :: 'k word rep_input"
    from rep_input_reset_all_fresh [of ?st] that show ?thesis
      by (auto simp: I_def rep_input_new_def fresh_input_def)
  qed
  have "next3 i < 3" for i by (simp add: next3_def)
  then have "rep3_ready E pl c m (\<lambda>i. replicated_new (H0 i, H1 i), I)"
    using I assms(5) gens_agree_linked [OF B(2) assms(2,3) n(1)] gens_agree_linked [OF B(3) assms(2,3) n(2)]
    by (simp add: rep3_ready_def parties_linked_def replicated_new_def protocol_base.defs)
  with I B(1) show ?thesis by (intro exI [of _ b] exI [of _ "\<lambda>i. (H0 i, H1 i)"] exI [of _ I]) simp
qed

subsection \<open>Properties\<close>

lemma pow2_ceil_exponent: "1 < N \<Longrightarrow> \<exists>k. pow2_ceil N = 2 ^ (k + 1)"
  by (simp add: pow2_ceil_def)

lemma shuffle_source_bij: "list_all (unit_perm k N) perms \<Longrightarrow> bij_betw (shuffle_source perms r) {..<N} {..<N}"
  using shuffle_source_less shuffle_source_inverse [of k N perms _ r] shuffle_source_inverse [of k N perms _ "\<not> r"]
  by (intro bij_betw_byWitness [where f' = "shuffle_source perms (\<not> r)"]) auto

text \<open>The permutation is drawn whenever the loop of \<open>get_uint\<close> ends; for two elements at the first try.\<close>

lemma generate_random_permutation_two:
  assumes "pr_cnt G + 2 \<le> RAND_SIZE pl"
  shows "\<exists>perm. generate_random_permutation E pl 2 G = Some (Inr perm)"
proof -
  let ?H = "\<lambda>m. G\<lparr>pr_cnt := pr_cnt G + m\<rparr>"
  have sg: "(2 :: 32 word) \<le>s 0 \<longleftrightarrow> False" "(1 :: 32 word) \<le>s 0 \<longleftrightarrow> False" "(2 :: 32 word) <s 255 \<longleftrightarrow> True" "(1 :: 32 word) <s 255 \<longleftrightarrow> True"
    by code_simp+
  have up: "[0..<2] = [0, 1 :: nat]" by (simp add: upt_rec)
  have 1: "prng_uint_draw E pl True G = Inr (ucast (pr_random G ! pr_cnt G), ?H 1)"
    "prng_uint_draw E pl True (?H 1) = Inr (ucast (pr_random G ! (pr_cnt G + 1)), ?H 2)"
    using assms by (simp_all add: prng_uint_draw_def prng_get_uchar_def)
  have "\<exists>j. prng_get_uint_upper E pl 2 G = Some (Inr (j, ?H 1))" "\<exists>j. prng_get_uint_upper E pl 1 (?H 1) = Some (Inr (j, ?H 2))"
    unfolding prng_get_uint_upper_def sg by (simp_all add: 1 del: One_nat_def add_Suc_right)
  then obtain i j where "prng_get_uint_upper E pl 2 G = Some (Inr (i, ?H 1))" "prng_get_uint_upper E pl 1 (?H 1) = Some (Inr (j, ?H 2))" by blast
  then show ?thesis by (simp add: generate_random_permutation_def up)
qed

text \<open>C32: A shuffle of any number \<open>N > 1\<close> of units of shared values among three parties: each of the two relevant players draws a
  permutation and inputs the switches of its network, all parties apply the two networks by multiplications; the units at the output are
  shares of those at the input in the order of a permutation, the other registers are as they were.\<close>

theorem secure_shuffle_permutes:
  fixes val :: "nat \<Rightarrow> nat \<Rightarrow> 'k :: len word"
  assumes "1 < N" "N < 2 ^ 31" "0 < u" "pow2_ceil N = 2 ^ (k + 1)"
    and "length Gs = 2" "\<forall>G \<in> set Gs. \<exists>perm. generate_random_permutation E pl N G = Some (Inr perm)"
    and "rep3_ready E pl c (2 * (k * 2 ^ (k + 1) + 1) + 2 * ((2 * k + 1) * (2 ^ k * u)) + m) s"
    and "inp + N * u \<le> length a" "outp + N * u \<le> length a"
    and "\<And>p l. p < N \<Longrightarrow> l < u \<Longrightarrow> replicated3 (a ! (inp + (p * u + l))) (val p l)"
  shows "\<exists>configs sh1 s1 b sh2 s2 \<pi>.
      shuffle_generate E pl (rep3_shuffle_ops E pl dl c) N Gs store (sh, s) = Some (Inr (length store, store @ [configs], sh1, s1))
    \<and> shuffle_apply (rep3_shuffle_ops E pl dl c) a (N * u) u outp inp configs False (sh1, s1) = Inr (b, sh2, s2)
    \<and> bij_betw \<pi> {..<N} {..<N} \<and> (\<forall>p < N. \<forall>l < u. replicated3 (b ! (outp + (p * u + l))) (val (\<pi> p) l))
    \<and> length b = length a \<and> (\<forall>i. i < outp \<or> outp + N * u \<le> i \<longrightarrow> b ! i = a ! i) \<and> rep3_ready E pl c m s2"
proof -
  let ?ops = "rep3_shuffle_ops E pl dl c :: (nat \<Rightarrow> 'k word rep3, 'k word, _) shuffle_ops" and ?n = "2 * ((2 * k + 1) * (2 ^ k * u))"
  have R: "r3shuffle.regs_shared inp N u val a" using assms(8,10) unfolding r3shuffle.regs_shared_def by blast
  have r: "rep3_ready E pl c (length Gs * (k * 2 ^ (k + 1) + 1) + (?n + m)) s" using assms(5,7) by (simp add: add.assoc)
  have N: "0 < N" "length Gs = length (so_relevant ?ops)" using assms(1,5) by simp_all
  obtain configs sh1 s1 perms where 1: "shuffle_generate E pl ?ops N Gs store (sh, s) = Some (Inr (length store, store @ [configs], sh1, s1))"
    "rep3_ready E pl c (?n + m) s1" "length configs = length (so_relevant ?ops)" "list_all2 (r3shuffle.realises k) perms configs" "list_all (unit_perm k N) perms"
    using r3shuffle.shuffle_generate_ok [OF N(1) assms(4,2) N(2) assms(6) r, of store sh] by (elim exE conjE) blast
  have c2: "length configs = 2" using 1(3) by simp
  have r': "rep3_ready E pl c (length configs * ((2 * k + 1) * (2 ^ k * u)) + m) s1" unfolding c2 by (rule 1(2))
  obtain b sh2 s2 where 2: "shuffle_apply ?ops a (N * u) u outp inp configs False (sh1, s1) = Inr (b, sh2, s2)" "rep3_ready E pl c m s2" "length b = length a"
    "r3shuffle.regs_shared outp N u (\<lambda>p. val (shuffle_source perms False p)) b" "\<forall>i. i < outp \<or> outp + N * u \<le> i \<longrightarrow> b ! i = a ! i"
    using r3shuffle.shuffle_apply_ok [OF disjI1 assms(3) N(1) assms(4) 1(3-5) R assms(9) r', of False sh1] by auto
  show ?thesis
    using 1(1) 2 shuffle_source_bij [OF 1(5)]
    by (intro exI [of _ configs] exI [of _ sh1] exI [of _ s1] exI [of _ b] exI [of _ sh2] exI [of _ s2] exI [of _ "shuffle_source perms False"])
      (simp add: r3shuffle.regs_shared_def)
qed

text \<open>The example: two values.\<close>

lemma ex_shuffle_ready:
  "\<exists>G (s :: (nat \<Rightarrow> 64 word replicated) \<times> (nat \<Rightarrow> 64 word rep_input)). prng_ReSeed ex_cipher 8 (replicate 16 7) (prng_new [] [] []) = Inr G
    \<and> (\<exists>perm. generate_random_permutation ex_cipher 8 2 G = Some (Inr perm)) \<and> rep3_ready ex_cipher 8 (\<lambda>_. []) 6 s"
proof -
  obtain os g where s: "rep3_set_up ex_cipher 8 (\<lambda>_. []) (\<lambda>i. replicate 16 (of_nat i)) os g"
    using rep3_set_up_exists [of "\<lambda>i. replicate 16 (of_nat i)" 8 ex_cipher "\<lambda>_. []"] by (auto simp: SEED_SIZE_def AES_BLK_SIZE_def)
  obtain s where "rep3_ready ex_cipher 8 (\<lambda>_. []) 6 (s :: (nat \<Rightarrow> 64 word replicated) \<times> (nat \<Rightarrow> 64 word rep_input))"
    using set_up_ready [OF s ex_cipher_ok, where m = 6 and 'k = 64 and new = "\<lambda>_. (prng_new [] [] [], prng_new [] [] [])"]
    by (auto simp: z2_N_BYTES_def)
  moreover obtain G where G: "prng_ReSeed ex_cipher 8 (replicate 16 7) (prng_new [] [] []) = Inr G" "prng_at ex_cipher 8 (take SEED_SIZE (replicate 16 7)) 0 G"
    using prng_InitSeed_at [of 8 ex_cipher "(prng_new [] [] [])\<lparr>pr_seed := take SEED_SIZE (replicate 16 7)\<rparr>"] by (auto simp: prng_ReSeed_def)
  moreover have "pr_cnt G + 2 \<le> RAND_SIZE 8" using G(2) by (auto simp: prng_at_def RAND_SIZE_def AES_BLK_SIZE_def)
  ultimately show ?thesis using generate_random_permutation_two [of G 8 ex_cipher] by blast
qed

theorem secure_shuffle_permutes_witness:
  "\<exists>G s configs sh1 s1 b sh2 s2 \<pi>. shuffle_generate ex_cipher 8 (rep3_shuffle_ops ex_cipher 8 1 (\<lambda>_. [])) 2 [G, G] [] (shuffle_new, s) = Some (Inr (0, [configs], sh1, s1))
    \<and> shuffle_apply (rep3_shuffle_ops ex_cipher 8 1 (\<lambda>_. [])) [rep3_constant 41, rep3_constant 42] 2 1 0 0 configs False (sh1, s1) = Inr (b, sh2, s2)
    \<and> bij_betw \<pi> {..<2} {..<2 :: nat} \<and> (\<forall>p < 2. replicated3 (b ! p) ([41, 42 :: 64 word] ! \<pi> p))"
proof -
  obtain G and s :: "(nat \<Rightarrow> 64 word replicated) \<times> (nat \<Rightarrow> 64 word rep_input)" where
    G: "\<exists>perm. generate_random_permutation ex_cipher 8 2 G = Some (Inr perm)" "rep3_ready ex_cipher 8 (\<lambda>_. []) 6 s" using ex_shuffle_ready by blast
  have p: "pow2_ceil 2 = 2 ^ (0 + 1)" by code_simp
  have r: "replicated3 ([rep3_constant 41, rep3_constant 42] ! q) ([41, 42 :: 64 word] ! q)" if "q < 2" for q
    using that rep3.holds_const by (auto simp: less_Suc_eq numeral_2_eq_2)
  from secure_shuffle_permutes [of 2 1 0 "[G, G]" ex_cipher 8 "\<lambda>_. []" 2 s 0 "[rep3_constant 41, rep3_constant 42]" 0 "\<lambda>q _. [41, 42] ! q" 1 "[]" shuffle_new,
      OF _ _ _ p] G r
  obtain configs sh1 s1 b sh2 s2 \<pi> where
    "shuffle_generate ex_cipher 8 (rep3_shuffle_ops ex_cipher 8 1 (\<lambda>_. [])) 2 [G, G] [] (shuffle_new, s) = Some (Inr (length [], [] @ [configs], sh1, s1))"
    "shuffle_apply (rep3_shuffle_ops ex_cipher 8 1 (\<lambda>_. [])) [rep3_constant 41, rep3_constant 42] (2 * 1) 1 0 0 configs False (sh1, s1) = Inr (b, sh2, s2)"
    "bij_betw \<pi> {..<2} {..<2 :: nat}" "\<forall>p < 2. \<forall>l < 1. replicated3 (b ! (0 + (p * 1 + l))) ([41, 42 :: 64 word] ! \<pi> p)"
    by (simp del: One_nat_def) (elim exE conjE, blast)
  then show ?thesis
    by (intro exI [of _ G] exI [of _ s] exI [of _ configs] exI [of _ sh1] exI [of _ s1] exI [of _ b] exI [of _ sh2] exI [of _ s2] exI [of _ \<pi>]) simp
qed

text \<open>C33: A stored shuffle applied and then applied in reverse, from the output registers to any others: these end with shares of what
  the input registers shared.\<close>

theorem secure_shuffle_inverse:
  fixes val :: "nat \<Rightarrow> nat \<Rightarrow> 'k :: len word"
  assumes "1 < N" "N < 2 ^ 31" "0 < u" "pow2_ceil N = 2 ^ (k + 1)"
    and "length Gs = 2" "\<forall>G \<in> set Gs. \<exists>perm. generate_random_permutation E pl N G = Some (Inr perm)"
    and "rep3_ready E pl c (2 * (k * 2 ^ (k + 1) + 1) + 4 * ((2 * k + 1) * (2 ^ k * u)) + m) s"
    and "inp + N * u \<le> length a" "outp + N * u \<le> length a" "dest + N * u \<le> length a"
    and "\<And>p l. p < N \<Longrightarrow> l < u \<Longrightarrow> replicated3 (a ! (inp + (p * u + l))) (val p l)"
  shows "\<exists>store' configs sh1 s1 b sh2 s2 d sh3 s3.
      shuffle_generate E pl (rep3_shuffle_ops E pl dl c) N Gs store (sh, s) = Some (Inr (length store, store', sh1, s1))
    \<and> store_get store' (length store) = Inr configs
    \<and> shuffle_apply (rep3_shuffle_ops E pl dl c) a (N * u) u outp inp configs False (sh1, s1) = Inr (b, sh2, s2)
    \<and> shuffle_apply (rep3_shuffle_ops E pl dl c) b (N * u) u dest outp configs True (sh2, s2) = Inr (d, sh3, s3)
    \<and> (\<forall>p < N. \<forall>l < u. replicated3 (d ! (dest + (p * u + l))) (val p l)) \<and> rep3_ready E pl c m s3"
proof -
  let ?ops = "rep3_shuffle_ops E pl dl c :: (nat \<Rightarrow> 'k word rep3, 'k word, _) shuffle_ops" and ?n = "2 * ((2 * k + 1) * (2 ^ k * u))"
  have R: "r3shuffle.regs_shared inp N u val a" using assms(8,11) unfolding r3shuffle.regs_shared_def by blast
  have r: "rep3_ready E pl c (length Gs * (k * 2 ^ (k + 1) + 1) + (?n + (?n + m))) s" using assms(5,7) by (simp add: algebra_simps)
  have N: "0 < N" "length Gs = length (so_relevant ?ops)" using assms(1,5) by simp_all
  obtain configs sh1 s1 perms where 1: "shuffle_generate E pl ?ops N Gs store (sh, s) = Some (Inr (length store, store @ [configs], sh1, s1))"
    "rep3_ready E pl c (?n + (?n + m)) s1" "length configs = length (so_relevant ?ops)" "list_all2 (r3shuffle.realises k) perms configs" "list_all (unit_perm k N) perms"
    using r3shuffle.shuffle_generate_ok [OF N(1) assms(4,2) N(2) assms(6) r, of store sh] by (elim exE conjE) blast
  have c2: "length configs = 2" using 1(3) by simp
  have r': "rep3_ready E pl c (length configs * ((2 * k + 1) * (2 ^ k * u)) + (?n + m)) s1" unfolding c2 by (rule 1(2))
  obtain b sh2 s2 where 2: "shuffle_apply ?ops a (N * u) u outp inp configs False (sh1, s1) = Inr (b, sh2, s2)" "rep3_ready E pl c (?n + m) s2" "length b = length a"
    "r3shuffle.regs_shared outp N u (\<lambda>p. val (shuffle_source perms False p)) b"
    using r3shuffle.shuffle_apply_ok [OF disjI1 assms(3) N(1) assms(4) 1(3-5) R assms(9) r', of False sh1] by auto
  have d: "dest + N * u \<le> length b" "rep3_ready E pl c (length configs * ((2 * k + 1) * (2 ^ k * u)) + m) s2"
    unfolding c2 2(3) by (rule assms(10), rule 2(2))
  obtain d sh3 s3 where 3: "shuffle_apply ?ops b (N * u) u dest outp configs True (sh2, s2) = Inr (d, sh3, s3)" "rep3_ready E pl c m s3"
    "r3shuffle.regs_shared dest N u (\<lambda>p. val (shuffle_source perms False (shuffle_source perms True p))) d"
    using r3shuffle.shuffle_apply_ok [OF disjI1 assms(3) N(1) assms(4) 1(3-5) 2(4) d, of True sh2] by auto
  have "replicated3 (d ! (dest + (p * u + l))) (val p l)" if "p < N" "l < u" for p l
    using 3(3) that shuffle_source_inverse [OF 1(5) that(1), of False] by (auto simp: r3shuffle.regs_shared_def)
  then show ?thesis using 1(1) 2(1) 3(1,2)
    by (intro exI [of _ "store @ [configs]"] exI [of _ configs] exI [of _ sh1] exI [of _ s1] exI [of _ b] exI [of _ sh2] exI [of _ s2] exI [of _ d] exI [of _ sh3]
        exI [of _ s3]) (simp add: store_get_def)
qed

theorem secure_shuffle_inverse_witness:
  "\<exists>G s store' configs sh1 s1 b sh2 s2 d sh3 s3. shuffle_generate ex_cipher 8 (rep3_shuffle_ops ex_cipher 8 1 (\<lambda>_. [])) 2 [G, G] [] (shuffle_new, s) = Some (Inr (0, store', sh1, s1))
    \<and> store_get store' 0 = Inr configs
    \<and> shuffle_apply (rep3_shuffle_ops ex_cipher 8 1 (\<lambda>_. [])) [rep3_constant 41, rep3_constant 42] 2 1 0 0 configs False (sh1, s1) = Inr (b, sh2, s2)
    \<and> shuffle_apply (rep3_shuffle_ops ex_cipher 8 1 (\<lambda>_. [])) b 2 1 0 0 configs True (sh2, s2) = Inr (d, sh3, s3)
    \<and> (\<forall>p < 2. replicated3 (d ! p) ([41, 42 :: 64 word] ! p))"
proof -
  obtain G and s :: "(nat \<Rightarrow> 64 word replicated) \<times> (nat \<Rightarrow> 64 word rep_input)" where
    G: "\<exists>perm. generate_random_permutation ex_cipher 8 2 G = Some (Inr perm)" "rep3_ready ex_cipher 8 (\<lambda>_. []) 6 s" using ex_shuffle_ready by blast
  have p: "pow2_ceil 2 = 2 ^ (0 + 1)" by code_simp
  have r: "replicated3 ([rep3_constant 41, rep3_constant 42] ! q) ([41, 42 :: 64 word] ! q)" if "q < 2" for q
    using that rep3.holds_const by (auto simp: less_Suc_eq numeral_2_eq_2)
  from secure_shuffle_inverse [of 2 1 0 "[G, G]" ex_cipher 8 "\<lambda>_. []" 0 s 0 "[rep3_constant 41, rep3_constant 42]" 0 0 "\<lambda>q _. [41, 42] ! q" 1 "[]" shuffle_new,
      OF _ _ _ p] G r
  obtain store' configs sh1 s1 b sh2 s2 d sh3 s3 where
    "shuffle_generate ex_cipher 8 (rep3_shuffle_ops ex_cipher 8 1 (\<lambda>_. [])) 2 [G, G] [] (shuffle_new, s) = Some (Inr (length [], store', sh1, s1))"
    "store_get store' (length []) = Inr configs"
    "shuffle_apply (rep3_shuffle_ops ex_cipher 8 1 (\<lambda>_. [])) [rep3_constant 41, rep3_constant 42] (2 * 1) 1 0 0 configs False (sh1, s1) = Inr (b, sh2, s2)"
    "shuffle_apply (rep3_shuffle_ops ex_cipher 8 1 (\<lambda>_. [])) b (2 * 1) 1 0 0 configs True (sh2, s2) = Inr (d, sh3, s3)"
    "\<forall>p < 2. \<forall>l < 1. replicated3 (d ! (0 + (p * 1 + l))) ([41, 42 :: 64 word] ! p)"
    by (simp del: One_nat_def) (elim exE conjE, blast)
  then show ?thesis
    by (intro exI [of _ G] exI [of _ s] exI [of _ store'] exI [of _ configs] exI [of _ sh1] exI [of _ s1] exI [of _ b] exI [of _ sh2] exI [of _ s2] exI [of _ d]
        exI [of _ sh3] exI [of _ s3]) simp
qed

end
