(* ===== verification/WaitQueue.thy ===== *)
theory WaitQueue
  imports Prelude
begin

section \<open>Queues between threads (Tools/WaitQueue.h) and fair schedules\<close>

text \<open>
  A queue with a mutex and a condition variable, at the granularity at which threads interleave: a thread that
  runs an operation is at one of its program counters, and one step is what it does between two points at which
  another thread can interfere. \<open>None\<close> is a thread that is blocked. A signal wakes one of the waiting threads,
  which one is the argument \<open>pick\<close>; a spurious wake-up is a step of its own. The invariant \<open>spsc\<close> is for a
  queue with one producer and one consumer. The locale \<open>fair_progress\<close> has what a system of threads needs to
  reach its end under every fair schedule of the events that are allowed.
\<close>

subsection \<open>State and primitives\<close>

record 'a wait_queue =
  wq_mutex :: "nat option"    \<comment> \<open>the thread that holds it\<close>
  wq_waiting :: "nat list"    \<comment> \<open>threads blocked on the condition variable\<close>
  wq_queue :: "'a list"
  wq_running :: bool

definition wait_queue_new :: "'a wait_queue" where
  "wait_queue_new = \<lparr>wq_mutex = None, wq_waiting = [], wq_queue = [], wq_running = True\<rparr>"

definition wq_lock :: "nat \<Rightarrow> 'a wait_queue \<Rightarrow> 'a wait_queue option" where
  "wq_lock t q = (if wq_mutex q = None then Some (q\<lparr>wq_mutex := Some t\<rparr>) else None)"

definition wq_unlock :: "'a wait_queue \<Rightarrow> 'a wait_queue" where
  "wq_unlock q = q\<lparr>wq_mutex := None\<rparr>"

text \<open>\<open>pthread_cond_wait\<close> gives up the mutex and takes it again before it returns.\<close>

definition wq_wait :: "nat \<Rightarrow> 'a wait_queue \<Rightarrow> 'a wait_queue" where
  "wq_wait t q = q\<lparr>wq_mutex := None, wq_waiting := wq_waiting q @ [t]\<rparr>"

definition wq_wake :: "nat \<Rightarrow> 'a wait_queue \<Rightarrow> 'a wait_queue option" where
  "wq_wake t q = (if t \<in> set (wq_waiting q) then None else wq_lock t q)"

definition wq_signal :: "(nat list \<Rightarrow> nat) \<Rightarrow> 'a wait_queue \<Rightarrow> 'a wait_queue" where
  "wq_signal pick q =
     (if wq_waiting q = [] then q else q\<lparr>wq_waiting := remove1 (pick (wq_waiting q)) (wq_waiting q)\<rparr>)"

definition wq_spurious :: "nat \<Rightarrow> 'a wait_queue \<Rightarrow> 'a wait_queue" where
  "wq_spurious t q = q\<lparr>wq_waiting := remove1 t (wq_waiting q)\<rparr>"

subsection \<open>Operations\<close>

datatype push_pc = PushLock | PushBody | PushSignal | PushUnlock | PushEnd

text \<open>\<open>push\<close> and \<open>stop\<close> differ in what they do to the queue between lock and signal.\<close>

definition wq_push_body :: "'a \<Rightarrow> 'a wait_queue \<Rightarrow> 'a wait_queue" where
  "wq_push_body value q = q\<lparr>wq_queue := wq_queue q @ [value]\<rparr>"

definition wq_stop_body :: "'a wait_queue \<Rightarrow> 'a wait_queue" where
  "wq_stop_body q = q\<lparr>wq_running := False\<rparr>"

fun wq_push_step :: "(nat list \<Rightarrow> nat) \<Rightarrow> nat \<Rightarrow> ('a wait_queue \<Rightarrow> 'a wait_queue) \<Rightarrow> push_pc \<Rightarrow> 'a wait_queue
    \<Rightarrow> (push_pc \<times> 'a wait_queue) option" where
  "wq_push_step pick t body PushLock q = map_option (Pair PushBody) (wq_lock t q)"
| "wq_push_step pick t body PushBody q = Some (PushSignal, body q)"
| "wq_push_step pick t body PushSignal q = Some (PushUnlock, wq_signal pick q)"
| "wq_push_step pick t body PushUnlock q = Some (PushEnd, wq_unlock q)"
| "wq_push_step pick t body PushEnd q = None"

text \<open>The option is what has been assigned to the argument \<open>value\<close>, if anything.\<close>

datatype 'a pop_pc = PopLock | PopTest | PopWait | PopBody | PopUnlock "'a option" | PopEnd "'a option"

text \<open>\<open>front\<close> and \<open>pop_front\<close> of an empty \<open>deque\<close> are undefined.\<close>

definition wq_pop_body :: "'a wait_queue \<Rightarrow> ('a option \<times> 'a wait_queue) result" where
  "wq_pop_body q =
     (if wq_running q then (case wq_queue q of [] \<Rightarrow> Inl undefined_behaviour | x # xs \<Rightarrow> Inr (Some x, q\<lparr>wq_queue := xs\<rparr>))
      else Inr (None, q))"

definition wq_pop_dont_stop_body :: "'a wait_queue \<Rightarrow> ('a option \<times> 'a wait_queue) result" where
  "wq_pop_dont_stop_body q = (case wq_queue q of [] \<Rightarrow> Inr (None, q) | x # xs \<Rightarrow> Inr (Some x, q\<lparr>wq_queue := xs\<rparr>))"

fun wq_pop_step :: "nat \<Rightarrow> ('a wait_queue \<Rightarrow> ('a option \<times> 'a wait_queue) result) \<Rightarrow> 'a pop_pc \<Rightarrow> 'a wait_queue
    \<Rightarrow> ('a pop_pc \<times> 'a wait_queue) result option" where
  "wq_pop_step t body PopLock q = map_option (\<lambda>q. Inr (PopTest, q)) (wq_lock t q)"
| "wq_pop_step t body PopTest q =
     Some (Inr (if wq_running q \<and> length (wq_queue q) = 0 then (PopWait, wq_wait t q) else (PopBody, q)))"
| "wq_pop_step t body PopWait q = map_option (\<lambda>q. Inr (PopBody, q)) (wq_wake t q)"
| "wq_pop_step t body PopBody q = Some (bind_result (body q) (\<lambda>(v, q). Inr (PopUnlock v, q)))"
| "wq_pop_step t body (PopUnlock v) q = Some (Inr (PopEnd v, wq_unlock q))"
| "wq_pop_step t body (PopEnd v) q = None"

text \<open>What the three variants return; \<open>pop\<close> reads \<open>running\<close> once more, without the mutex.\<close>

definition wq_pop_returns :: "'a wait_queue \<Rightarrow> bool" where
  "wq_pop_returns q = wq_running q"

definition wq_pop_value :: "'a option \<Rightarrow> 'a \<Rightarrow> 'a wait_queue \<Rightarrow> 'a result" where
  "wq_pop_value v res q = (if wq_pop_returns q then Inr (case v of None \<Rightarrow> res | Some x \<Rightarrow> x) else Inl assertion_failed)"

definition wq_pop_dont_stop_returns :: "'a option \<Rightarrow> bool" where
  "wq_pop_dont_stop_returns v \<longleftrightarrow> v \<noteq> None"

subsection \<open>One producer and one consumer\<close>

text \<open>A thread that is not in an operation on the queue counts as being at the end of one.\<close>

fun push_critical :: "push_pc \<Rightarrow> bool" where
  "push_critical PushLock = False" | "push_critical PushBody = True" | "push_critical PushSignal = True"
| "push_critical PushUnlock = True" | "push_critical PushEnd = False"

fun pop_critical :: "'a pop_pc \<Rightarrow> bool" where
  "pop_critical PopLock = False" | "pop_critical PopTest = True" | "pop_critical PopWait = False"
| "pop_critical PopBody = True" | "pop_critical (PopUnlock v) = True" | "pop_critical (PopEnd v) = False"

definition wakes_one :: "(nat list \<Rightarrow> nat) \<Rightarrow> bool" where
  "wakes_one pick \<longleftrightarrow> (\<forall>ws. ws \<noteq> [] \<longrightarrow> pick ws \<in> set ws)"

definition spsc :: "nat \<Rightarrow> nat \<Rightarrow> push_pc \<Rightarrow> 'a pop_pc \<Rightarrow> 'a wait_queue \<Rightarrow> bool" where
  "spsc p c ppc cpc q \<longleftrightarrow> p \<noteq> c \<and> \<not> (push_critical ppc \<and> pop_critical cpc)
     \<and> wq_mutex q = (if push_critical ppc then Some p else if pop_critical cpc then Some c else None)
     \<and> (wq_waiting q = [] \<or> wq_waiting q = [c] \<and> cpc = PopWait)
     \<and> (cpc = PopWait \<longrightarrow> wq_waiting q = [c] \<longrightarrow> wq_queue q = [] \<and> wq_running q \<or> ppc = PushSignal)
     \<and> (cpc = PopWait \<longrightarrow> wq_waiting q = [] \<longrightarrow> wq_queue q \<noteq> [] \<or> \<not> wq_running q)
     \<and> (cpc = PopBody \<longrightarrow> wq_queue q \<noteq> [] \<or> \<not> wq_running q)
     \<and> (ppc = PushSignal \<longrightarrow> wq_queue q \<noteq> [] \<or> \<not> wq_running q)"

lemma spsc_new: "p \<noteq> c \<Longrightarrow> spsc p c PushEnd (PopEnd v) wait_queue_new"
  by (simp add: spsc_def wait_queue_new_def)

lemma spsc_idle [simp]:
  "spsc p c PushLock cpc q \<longleftrightarrow> spsc p c PushEnd cpc q"
  "spsc p c ppc PopLock q \<longleftrightarrow> spsc p c ppc (PopEnd None) q"
  "spsc p c ppc (PopEnd (Some v)) q \<longleftrightarrow> spsc p c ppc (PopEnd None) q"
  by (auto simp: spsc_def)

lemma wakes_one_single: "wakes_one pick \<Longrightarrow> pick [c] = c"
  by (force simp: wakes_one_def)

lemma spsc_push:
  assumes "spsc p c ppc cpc q" "wakes_one pick" "wq_push_step pick p body ppc q = Some (ppc', q')"
    and body: "(\<exists>x. body = wq_push_body x) \<or> body = wq_stop_body"
  shows "spsc p c ppc' cpc q'"
  using assms(1-3) body
  by (cases ppc) (auto simp: spsc_def wq_lock_def wq_unlock_def wq_signal_def wakes_one_single wq_push_body_def wq_stop_body_def split: if_splits)

lemma spsc_pop:
  assumes "spsc p c ppc cpc q" "wq_pop_step c wq_pop_body cpc q = Some r"
  shows "\<exists>cpc' q'. r = Inr (cpc', q') \<and> spsc p c ppc cpc' q'"
proof -
  have "case r of Inl e \<Rightarrow> False | Inr (cpc', q') \<Rightarrow> spsc p c ppc cpc' q'"
    using assms
    by (cases cpc) (auto simp: spsc_def wq_lock_def wq_unlock_def wq_wait_def wq_wake_def wq_pop_body_def split: if_splits list.splits)
  then show ?thesis by (auto split: sum.splits)
qed

text \<open>A producer is blocked only by a consumer that is about to leave, a consumer also by an empty queue.\<close>

lemma push_enabled: "spsc p c ppc cpc q \<Longrightarrow> ppc \<noteq> PushEnd \<Longrightarrow> \<not> pop_critical cpc \<Longrightarrow> wq_push_step pick p body ppc q \<noteq> None"
  by (cases ppc) (auto simp: spsc_def wq_lock_def)

lemma push_critical_enabled: "push_critical ppc \<Longrightarrow> wq_push_step pick p body ppc q \<noteq> None"
  by (cases ppc) auto

lemma pop_enabled:
  "spsc p c ppc cpc q \<Longrightarrow> (\<And>v. cpc \<noteq> PopEnd v) \<Longrightarrow> \<not> push_critical ppc \<Longrightarrow> wq_queue q \<noteq> [] \<or> \<not> wq_running q \<or> cpc \<noteq> PopWait
    \<Longrightarrow> wq_pop_step c body cpc q \<noteq> None"
  by (cases cpc) (auto simp: spsc_def wq_lock_def wq_wake_def split: if_splits)

lemma pop_critical_enabled: "pop_critical cpc \<Longrightarrow> wq_pop_step c body cpc q \<noteq> None"
  by (cases cpc) auto

text \<open>
  The wait is not repeated when it returns with nothing in the queue: a spurious wake-up, which POSIX allows, or a
  second consumer that comes first makes \<open>pop\<close> read the front of an empty queue.
\<close>

lemma pop_spurious_unsafe:
  assumes "wq_mutex q = None" "wq_waiting q = []" "wq_queue q = []" "wq_running q"
  shows "\<exists>q1 q2 q3. wq_pop_step c wq_pop_body PopLock q = Some (Inr (PopTest, q1))
    \<and> wq_pop_step c wq_pop_body PopTest q1 = Some (Inr (PopWait, q2))
    \<and> wq_pop_step c wq_pop_body PopWait (wq_spurious c q2) = Some (Inr (PopBody, q3))
    \<and> wq_pop_step c wq_pop_body PopBody q3 = Some (Inl undefined_behaviour)"
  using assms by (simp add: wq_lock_def wq_wait_def wq_wake_def wq_spurious_def wq_pop_body_def)

subsection \<open>Fair schedules\<close>

text \<open>A scheduled thread takes its next step if it is not blocked.\<close>

fun scheduled :: "('t \<Rightarrow> 's \<Rightarrow> 's result option) \<Rightarrow> (nat \<Rightarrow> 't) \<Rightarrow> nat \<Rightarrow> 's \<Rightarrow> 's result" where
  "scheduled step \<sigma> 0 s = Inr s"
| "scheduled step \<sigma> (Suc n) s =
     bind_result (scheduled step \<sigma> n s) (\<lambda>s. case step (\<sigma> n) s of None \<Rightarrow> Inr s | Some r \<Rightarrow> r)"

definition fair :: "'t set \<Rightarrow> (nat \<Rightarrow> 't) \<Rightarrow> bool" where
  "fair T \<sigma> \<longleftrightarrow> (\<forall>t \<in> T. \<forall>n. \<exists>m \<ge> n. \<sigma> m = t)"

locale fair_progress =
  fixes step :: "'t \<Rightarrow> 's \<Rightarrow> 's result option" and threads :: "'t set" and allowed :: "'t set" and inv :: "'s \<Rightarrow> bool"
    and final :: "'s \<Rightarrow> bool" and left :: "'s \<Rightarrow> nat"
  assumes step_inv: "inv s \<Longrightarrow> t \<in> allowed \<Longrightarrow> step t s = Some r \<Longrightarrow> \<exists>s'. r = Inr s' \<and> inv s' \<and> left s' < left s"
    and progress: "inv s \<Longrightarrow> \<not> final s \<Longrightarrow> \<exists>t \<in> threads. step t s \<noteq> None"
begin

lemma scheduled_inv: "inv s \<Longrightarrow> range \<sigma> \<subseteq> allowed \<Longrightarrow> \<exists>s'. scheduled step \<sigma> n s = Inr s' \<and> inv s' \<and> left s' \<le> left s"
proof (induction n)
  case (Suc n)
  then obtain s' where s': "scheduled step \<sigma> n s = Inr s'" "inv s'" "left s' \<le> left s" by blast
  show ?case
  proof (cases "step (\<sigma> n) s'")
    case None
    then show ?thesis using s' by simp
  next
    case (Some r)
    have "\<sigma> n \<in> allowed" using Suc.prems by auto
    from step_inv [OF s'(2) this Some] s' Some show ?thesis by auto
  qed
qed simp

text \<open>As long as the end is not reached, some step is taken sooner or later.\<close>

lemma left_decreases:
  assumes "fair threads \<sigma>" "range \<sigma> \<subseteq> allowed" "scheduled step \<sigma> n s0 = Inr s" "inv s" "\<not> final s"
  shows "\<exists>m s'. scheduled step \<sigma> m s0 = Inr s' \<and> inv s' \<and> left s' < left s"
proof -
  obtain t where t: "t \<in> threads" "step t s \<noteq> None" using progress assms(4,5) by blast
  obtain m where m: "n \<le> m" "\<sigma> m = t" using assms(1) t(1) by (auto simp: fair_def)
  have "scheduled step \<sigma> (n + k) s0 = Inr s \<or> (\<exists>s'. scheduled step \<sigma> (n + k) s0 = Inr s' \<and> inv s' \<and> left s' < left s)" for k
  proof (induction k)
    case (Suc k)
    show ?case
    proof (cases "step (\<sigma> (n + k)) (projr (scheduled step \<sigma> (n + k) s0))")
      case None
      then show ?thesis using Suc by auto
    next
      case (Some r)
      have "\<sigma> (n + k) \<in> allowed" using assms(2) by auto
      then show ?thesis using Suc Some step_inv [of s "\<sigma> (n + k)" r] step_inv [OF _ _ Some] assms(4) by fastforce
    qed
  qed (use assms(3) in simp)
  from this [of "m - n"] m(1)
  have "scheduled step \<sigma> m s0 = Inr s \<or> (\<exists>s'. scheduled step \<sigma> m s0 = Inr s' \<and> inv s' \<and> left s' < left s)" by simp
  then show ?thesis
  proof
    assume "scheduled step \<sigma> m s0 = Inr s"
    moreover obtain r where r: "step t s = Some r" using t(2) by blast
    ultimately have "\<exists>s'. scheduled step \<sigma> (Suc m) s0 = Inr s' \<and> inv s' \<and> left s' < left s"
      using step_inv [OF assms(4) _ r] m(2) assms(2) by auto
    then show ?thesis by blast
  qed blast
qed

lemma eventually_final:
  assumes "fair threads \<sigma>" "inv s0" "range \<sigma> \<subseteq> allowed"
  shows "\<exists>n s. scheduled step \<sigma> n s0 = Inr s \<and> inv s \<and> final s"
proof -
  have "\<exists>n s. scheduled step \<sigma> n s0 = Inr s \<and> inv s \<and> final s" if "scheduled step \<sigma> n s0 = Inr s" "inv s" for n s
    using that
  proof (induction "left s" arbitrary: n s rule: less_induct)
    case less
    show ?case
    proof (cases "final s")
      case False
      then show ?thesis using left_decreases [OF assms(1,3) less.prems] less.hyps by blast
    qed (use less.prems in blast)
  qed
  from this [of 0 s0] assms(2) show ?thesis by simp
qed

end

end
