(* ===== verification/WorkerThread.thy ===== *)
theory WorkerThread
  imports WaitQueue
begin

section \<open>Worker threads (Tools/Worker.h, Networking/Sender.cpp, Networking/Receiver.cpp)\<close>

text \<open>
  The three classes have one shape: the constructor starts a thread that takes requests from a queue, works on
  them and puts results into another queue until the first queue is stopped, which the destructor does before it
  joins the thread. The thread and the one that owns the object are two interleaving state machines. What a
  request does is the argument \<open>work\<close>, with a state of its own (a socket, say). The owner runs a script of
  requests and waits for results, and destroys the object at its end.
\<close>

subsection \<open>The two threads\<close>

text \<open>\<open>Done\<close> is the call of \<open>Worker::done\<close>, \<open>Await\<close> that of \<open>wait\<close> of \<open>Sender\<close> and \<open>Receiver\<close> with the object to be waited for.\<close>

datatype ('j, 'r) owner_cmd = Request 'j | Done | Await 'r

datatype ('j, 'r) owner_pc = ONext | ORequest push_pc 'j | OAwait "'r option" "'r pop_pc" | OStop push_pc | OJoin | OExit

datatype ('j, 'r) worker_pc = WPop "'j pop_pc" | WRun 'j | WPush push_pc 'r | WExit "'j option"

record ('j, 'r, 's) worker_system =
  ws_input :: "'j wait_queue"
  ws_output :: "'r wait_queue"
  ws_n_jobs :: nat
  ws_state :: 's
  ws_worker :: "('j, 'r) worker_pc"
  ws_owner :: "('j, 'r) owner_pc"
  ws_script :: "('j, 'r) owner_cmd list"
  ws_results :: "'r list"

definition worker_tid :: nat where "worker_tid = 1"
definition owner_tid :: nat where "owner_tid = 0"

text \<open>The constructor.\<close>

definition worker_new :: "'s \<Rightarrow> ('j, 'r) owner_cmd list \<Rightarrow> ('j, 'r, 's) worker_system" where
  "worker_new s script = \<lparr>ws_input = wait_queue_new, ws_output = wait_queue_new, ws_n_jobs = 0, ws_state = s,
     ws_worker = WPop PopLock, ws_owner = ONext, ws_script = script, ws_results = []\<rparr>"

text \<open>
  \<open>run\<close>: a job that was not assigned would be the null pointer of the first round, or a stale one.
\<close>

fun worker_step :: "(nat list \<Rightarrow> nat) \<Rightarrow> ('j \<Rightarrow> 's \<Rightarrow> 'r \<times> 's) \<Rightarrow> ('j, 'r, 's) worker_system
    \<Rightarrow> ('j, 'r) worker_pc \<Rightarrow> ('j, 'r, 's) worker_system result option" where
  "worker_step pick work ws (WPop (PopEnd v)) =
     Some (if wq_pop_returns (ws_input ws)
       then (case v of None \<Rightarrow> Inl undefined_behaviour | Some j \<Rightarrow> Inr (ws\<lparr>ws_worker := WRun j\<rparr>))
       else Inr (ws\<lparr>ws_worker := WExit v\<rparr>))"
| "worker_step pick work ws (WRun j) =
     (case work j (ws_state ws) of (r, s) \<Rightarrow> Some (Inr (ws\<lparr>ws_state := s, ws_worker := WPush PushLock r\<rparr>)))"
| "worker_step pick work ws (WPush PushEnd r) = Some (Inr (ws\<lparr>ws_n_jobs := ws_n_jobs ws + 1, ws_worker := WPop PopLock\<rparr>))"
| "worker_step pick work ws (WExit v) = None"
| "worker_step pick work ws (WPop pc) =
     map_option (\<lambda>r. bind_result r (\<lambda>(pc, q). Inr (ws\<lparr>ws_input := q, ws_worker := WPop pc\<rparr>)))
       (wq_pop_step worker_tid wq_pop_body pc (ws_input ws))"
| "worker_step pick work ws (WPush pc r) =
     map_option (\<lambda>(pc, q). Inr (ws\<lparr>ws_output := q, ws_worker := WPush pc r\<rparr>))
       (wq_push_step pick worker_tid (wq_push_body r) pc (ws_output ws))"

text \<open>
  What \<open>done\<close> returns and what \<open>wait\<close> does with the result taken from the queue, which is \<open>res0\<close>, its initial value,
  where nothing was assigned.
\<close>

definition worker_done :: "'r \<Rightarrow> 'r option \<Rightarrow> 'r" where
  "worker_done res0 v = (case v of None \<Rightarrow> res0 | Some r \<Rightarrow> r)"

definition sender_wait :: "'r \<Rightarrow> 'r \<Rightarrow> 'r option \<Rightarrow> 'r result" where
  "sender_wait res0 os v =
     (let queued = (case v of None \<Rightarrow> res0 | Some r \<Rightarrow> r) in if queued \<noteq> os then Inl not_implemented else Inr queued)"

definition owner_takes :: "'r \<Rightarrow> 'r option \<Rightarrow> 'r option \<Rightarrow> 'r result" where
  "owner_takes res0 e v = (case e of None \<Rightarrow> Inr (worker_done res0 v) | Some os \<Rightarrow> sender_wait res0 os v)"

text \<open>\<open>request\<close>, \<open>done\<close> or \<open>wait\<close>, and the destructor.\<close>

fun owner_step :: "(nat list \<Rightarrow> nat) \<Rightarrow> 'r \<Rightarrow> ('j, 'r, 's) worker_system \<Rightarrow> ('j, 'r) owner_pc \<Rightarrow> ('j, 'r, 's) worker_system result option" where
  "owner_step pick res0 ws ONext =
     Some (Inr (case ws_script ws of [] \<Rightarrow> ws\<lparr>ws_owner := OStop PushLock\<rparr>
       | Request j # script \<Rightarrow> ws\<lparr>ws_script := script, ws_owner := ORequest PushLock j\<rparr>
       | Done # script \<Rightarrow> ws\<lparr>ws_script := script, ws_owner := OAwait None PopLock\<rparr>
       | Await r # script \<Rightarrow> ws\<lparr>ws_script := script, ws_owner := OAwait (Some r) PopLock\<rparr>))"
| "owner_step pick res0 ws (ORequest PushEnd j) = Some (Inr (ws\<lparr>ws_owner := ONext\<rparr>))"
| "owner_step pick res0 ws (OAwait e (PopEnd v)) =
     Some (bind_result (owner_takes res0 e v) (\<lambda>r. Inr (ws\<lparr>ws_results := ws_results ws @ [r], ws_owner := ONext\<rparr>)))"
| "owner_step pick res0 ws (OStop PushEnd) = Some (Inr (ws\<lparr>ws_owner := OJoin\<rparr>))"
| "owner_step pick res0 ws OJoin = (case ws_worker ws of WExit v \<Rightarrow> Some (Inr (ws\<lparr>ws_owner := OExit\<rparr>)) | _ \<Rightarrow> None)"
| "owner_step pick res0 ws OExit = None"
| "owner_step pick res0 ws (ORequest pc j) =
     map_option (\<lambda>(pc, q). Inr (ws\<lparr>ws_input := q, ws_owner := ORequest pc j\<rparr>))
       (wq_push_step pick owner_tid (wq_push_body j) pc (ws_input ws))"
| "owner_step pick res0 ws (OAwait e pc) =
     map_option (\<lambda>r. bind_result r (\<lambda>(pc, q). Inr (ws\<lparr>ws_output := q, ws_owner := OAwait e pc\<rparr>)))
       (wq_pop_step owner_tid wq_pop_body pc (ws_output ws))"
| "owner_step pick res0 ws (OStop pc) =
     map_option (\<lambda>(pc, q). Inr (ws\<lparr>ws_input := q, ws_owner := OStop pc\<rparr>))
       (wq_push_step pick owner_tid wq_stop_body pc (ws_input ws))"

text \<open>
  An event is a turn of one of the threads or a return of \<open>pthread_cond_wait\<close> without a signal, of which POSIX allows any
  number. It hits a thread only while that waits on the condition variable of a queue.
\<close>

datatype ws_event = Turn nat | Spurious nat

definition ws_spurious :: "nat \<Rightarrow> ('j, 'r, 's) worker_system \<Rightarrow> ('j, 'r, 's) worker_system option" where
  "ws_spurious t ws =
     (if t \<in> set (wq_waiting (ws_input ws)) then Some (ws\<lparr>ws_input := wq_spurious t (ws_input ws)\<rparr>)
      else if t \<in> set (wq_waiting (ws_output ws)) then Some (ws\<lparr>ws_output := wq_spurious t (ws_output ws)\<rparr>) else None)"

fun ws_step :: "(nat list \<Rightarrow> nat) \<Rightarrow> ('j \<Rightarrow> 's \<Rightarrow> 'r \<times> 's) \<Rightarrow> 'r \<Rightarrow> ws_event \<Rightarrow> ('j, 'r, 's) worker_system
    \<Rightarrow> ('j, 'r, 's) worker_system result option" where
  "ws_step pick work res0 (Turn t) ws =
     (if t = worker_tid then worker_step pick work ws (ws_worker ws)
      else if t = owner_tid then owner_step pick res0 ws (ws_owner ws) else None)"
| "ws_step pick work res0 (Spurious t) ws = map_option Inr (ws_spurious t ws)"

definition ws_final :: "('j, 'r, 's) worker_system \<Rightarrow> bool" where
  "ws_final ws \<longleftrightarrow> ws_owner ws = OExit"

subsection \<open>What is on its way\<close>

fun run_jobs :: "('j \<Rightarrow> 's \<Rightarrow> 'r \<times> 's) \<Rightarrow> 'j list \<Rightarrow> 's \<Rightarrow> 'r list \<times> 's" where
  "run_jobs work [] s = ([], s)"
| "run_jobs work (j # js) s = (case work j s of (r, s) \<Rightarrow> case run_jobs work js s of (rs, s) \<Rightarrow> (r # rs, s))"

fun cmd_jobs :: "('j, 'r) owner_cmd list \<Rightarrow> 'j list" where
  "cmd_jobs [] = []" | "cmd_jobs (Request j # s) = j # cmd_jobs s" | "cmd_jobs (Done # s) = cmd_jobs s"
| "cmd_jobs (Await r # s) = cmd_jobs s"

text \<open>What the script waits for, one element for each result it takes.\<close>

fun cmd_awaits :: "('j, 'r) owner_cmd list \<Rightarrow> 'r option list" where
  "cmd_awaits [] = []" | "cmd_awaits (Request j # s) = cmd_awaits s" | "cmd_awaits (Done # s) = None # cmd_awaits s"
| "cmd_awaits (Await r # s) = Some r # cmd_awaits s"

text \<open>Every \<open>wait\<close> names the result that is next.\<close>

fun awaits_match :: "'r option list \<Rightarrow> 'r list \<Rightarrow> bool" where
  "awaits_match [] rs \<longleftrightarrow> True"
| "awaits_match (e # es) [] \<longleftrightarrow> False"
| "awaits_match (e # es) (r # rs) \<longleftrightarrow> (e = None \<or> e = Some r) \<and> awaits_match es rs"

text \<open>A script never waits for more results than it has requested; \<open>n\<close> are outstanding.\<close>

fun script_ok :: "nat \<Rightarrow> ('j, 'r) owner_cmd list \<Rightarrow> bool" where
  "script_ok n [] \<longleftrightarrow> True" | "script_ok n (Request j # s) \<longleftrightarrow> script_ok (Suc n) s"
| "script_ok n (Done # s) \<longleftrightarrow> 0 < n \<and> script_ok (n - 1) s" | "script_ok n (Await r # s) \<longleftrightarrow> 0 < n \<and> script_ok (n - 1) s"

fun owner_jobs :: "('j, 'r) owner_pc \<Rightarrow> 'j list" where
  "owner_jobs (ORequest PushLock j) = [j]" | "owner_jobs (ORequest PushBody j) = [j]" | "owner_jobs _ = []"

fun owner_result :: "('j, 'r) owner_pc \<Rightarrow> 'r list" where
  "owner_result (OAwait e (PopUnlock (Some r))) = [r]" | "owner_result (OAwait e (PopEnd (Some r))) = [r]" | "owner_result _ = []"

text \<open>Whether the owner still has to take a result from the queue.\<close>

fun owner_wants :: "('j, 'r) owner_pc \<Rightarrow> nat" where
  "owner_wants (OAwait e (PopUnlock v)) = 0" | "owner_wants (OAwait e (PopEnd v)) = 0" | "owner_wants (OAwait e pc) = 1" | "owner_wants _ = 0"

text \<open>What the owner waits for at present.\<close>

fun owner_awaits :: "('j, 'r) owner_pc \<Rightarrow> 'r option list" where
  "owner_awaits (OAwait e pc) = [e]" | "owner_awaits _ = []"

fun worker_jobs :: "('j, 'r) worker_pc \<Rightarrow> 'j list" where
  "worker_jobs (WPop (PopUnlock (Some j))) = [j]" | "worker_jobs (WPop (PopEnd (Some j))) = [j]" | "worker_jobs (WRun j) = [j]"
| "worker_jobs (WExit (Some j)) = [j]" | "worker_jobs _ = []"

fun worker_result :: "('j, 'r) worker_pc \<Rightarrow> 'r list" where
  "worker_result (WPush PushLock r) = [r]" | "worker_result (WPush PushBody r) = [r]" | "worker_result _ = []"

definition ws_jobs :: "('j, 'r, 's) worker_system \<Rightarrow> 'j list" where
  "ws_jobs ws = worker_jobs (ws_worker ws) @ wq_queue (ws_input ws) @ owner_jobs (ws_owner ws)"

definition ws_ready :: "('j, 'r, 's) worker_system \<Rightarrow> 'r list" where
  "ws_ready ws = wq_queue (ws_output ws) @ worker_result (ws_worker ws)"

text \<open>All results in the order of the requests: taken, on their way, and still to be computed.\<close>

definition ws_flow :: "('j \<Rightarrow> 's \<Rightarrow> 'r \<times> 's) \<Rightarrow> ('j, 'r, 's) worker_system \<Rightarrow> 'r list" where
  "ws_flow work ws = ws_results ws @ owner_result (ws_owner ws) @ ws_ready ws
     @ fst (run_jobs work (ws_jobs ws @ cmd_jobs (ws_script ws)) (ws_state ws))"

lemma length_run_jobs [simp]: "length (fst (run_jobs work js s)) = length js"
  by (induction js arbitrary: s) (auto simp: split_beta)

lemma fst_run_jobs_Cons: "fst (run_jobs work (j # js) s) = fst (work j s) # fst (run_jobs work js (snd (work j s)))"
  by (simp add: split_beta)

subsection \<open>Invariant\<close>

fun input_producer :: "('j, 'r) owner_pc \<Rightarrow> push_pc" where
  "input_producer (ORequest pc j) = pc" | "input_producer (OStop pc) = pc" | "input_producer _ = PushEnd"

fun input_consumer :: "('j, 'r) worker_pc \<Rightarrow> 'j pop_pc" where
  "input_consumer (WPop pc) = pc" | "input_consumer _ = PopEnd None"

fun output_producer :: "('j, 'r) worker_pc \<Rightarrow> push_pc" where
  "output_producer (WPush pc r) = pc" | "output_producer _ = PushEnd"

fun output_consumer :: "('j, 'r) owner_pc \<Rightarrow> 'r pop_pc" where
  "output_consumer (OAwait e pc) = pc" | "output_consumer _ = PopEnd None"

fun owner_stopped :: "('j, 'r) owner_pc \<Rightarrow> bool" where
  "owner_stopped (OStop PushSignal) = True" | "owner_stopped (OStop PushUnlock) = True" | "owner_stopped (OStop PushEnd) = True"
| "owner_stopped OJoin = True" | "owner_stopped OExit = True" | "owner_stopped _ = False"

fun worker_leaving :: "('j, 'r) worker_pc \<Rightarrow> bool" where
  "worker_leaving (WPop (PopUnlock None)) = True" | "worker_leaving (WPop (PopEnd None)) = True" | "worker_leaving (WExit v) = True"
| "worker_leaving _ = False"

fun owner_empty_handed :: "('j, 'r) owner_pc \<Rightarrow> bool" where
  "owner_empty_handed (OAwait e (PopUnlock None)) = True" | "owner_empty_handed (OAwait e (PopEnd None)) = True" | "owner_empty_handed _ = False"

fun owner_done :: "('j, 'r) owner_pc \<Rightarrow> bool" where
  "owner_done (OStop pc) = True" | "owner_done OJoin = True" | "owner_done OExit = True" | "owner_done _ = False"

definition ws_queues :: "('j, 'r, 's) worker_system \<Rightarrow> bool" where
  "ws_queues ws \<longleftrightarrow> spsc owner_tid worker_tid (input_producer (ws_owner ws)) (input_consumer (ws_worker ws)) (ws_input ws)
     \<and> spsc worker_tid owner_tid (output_producer (ws_worker ws)) (output_consumer (ws_owner ws)) (ws_output ws)"

definition ws_flags :: "('j, 'r, 's) worker_system \<Rightarrow> bool" where
  "ws_flags ws \<longleftrightarrow> wq_running (ws_output ws) \<and> (wq_running (ws_input ws) \<longleftrightarrow> \<not> owner_stopped (ws_owner ws))
     \<and> (worker_leaving (ws_worker ws) \<longrightarrow> \<not> wq_running (ws_input ws)) \<and> \<not> owner_empty_handed (ws_owner ws)
     \<and> (owner_done (ws_owner ws) \<longrightarrow> ws_script ws = [])"

text \<open>Enough results are outstanding for what the owner and the rest of its script want; \<open>n\<close> is how many it takes in all.\<close>

definition ws_outstanding :: "('j, 'r, 's) worker_system \<Rightarrow> nat" where
  "ws_outstanding ws = length (ws_ready ws) + length (ws_jobs ws)"

definition ws_counts :: "nat \<Rightarrow> ('j, 'r, 's) worker_system \<Rightarrow> bool" where
  "ws_counts n ws \<longleftrightarrow> owner_wants (ws_owner ws) \<le> ws_outstanding ws
     \<and> script_ok (ws_outstanding ws - owner_wants (ws_owner ws)) (ws_script ws)
     \<and> length (ws_results ws) + owner_wants (ws_owner ws) + length (owner_result (ws_owner ws)) + length (cmd_awaits (ws_script ws)) = n"

text \<open>What it waits for is what comes out; \<open>flow\<close> is the list of all results.\<close>

definition ws_awaits :: "'r list \<Rightarrow> ('j, 'r, 's) worker_system \<Rightarrow> bool" where
  "ws_awaits flow ws \<longleftrightarrow> awaits_match (owner_awaits (ws_owner ws) @ cmd_awaits (ws_script ws)) (drop (length (ws_results ws)) flow)"

definition ws_inv :: "(nat list \<Rightarrow> nat) \<Rightarrow> ('j \<Rightarrow> 's \<Rightarrow> 'r \<times> 's) \<Rightarrow> 'r list \<Rightarrow> nat \<Rightarrow> ('j, 'r, 's) worker_system \<Rightarrow> bool" where
  "ws_inv pick work flow n ws \<longleftrightarrow> wakes_one pick \<and> ws_queues ws \<and> ws_flags ws \<and> ws_counts n ws \<and> ws_flow work ws = flow
     \<and> ws_awaits flow ws"

lemmas ws_defs = ws_flags_def ws_counts_def ws_flow_def ws_jobs_def ws_ready_def ws_outstanding_def
lemmas wq_defs = wq_lock_def wq_unlock_def wq_wait_def wq_wake_def wq_signal_def wq_pop_body_def wq_push_body_def wq_stop_body_def wq_pop_returns_def

lemma ws_inv_new: "wakes_one pick \<Longrightarrow> script_ok 0 script
    \<Longrightarrow> awaits_match (cmd_awaits script) (fst (run_jobs work (cmd_jobs script) s))
    \<Longrightarrow> ws_inv pick work (fst (run_jobs work (cmd_jobs script) s)) (length (cmd_awaits script)) (worker_new s script)"
  by (simp add: ws_inv_def ws_queues_def ws_defs ws_awaits_def worker_new_def spsc_new owner_tid_def worker_tid_def)
    (simp add: wait_queue_new_def)

lemma worker_step_queues:
  assumes "ws_inv pick work flow n ws" "worker_step pick work ws (ws_worker ws) = Some r"
  shows "\<exists>ws'. r = Inr ws' \<and> ws_queues ws'"
proof -
  have pick: "wakes_one pick" and Q: "spsc owner_tid worker_tid (input_producer (ws_owner ws)) (input_consumer (ws_worker ws)) (ws_input ws)"
    "spsc worker_tid owner_tid (output_producer (ws_worker ws)) (output_consumer (ws_owner ws)) (ws_output ws)"
    and F: "ws_flags ws" using assms(1) by (auto simp: ws_inv_def ws_queues_def)
  show ?thesis
  proof (cases "ws_worker ws")
    case (WPop pc)
    note Q' = Q [unfolded WPop, simplified]
    have step: "\<exists>ws'. r = Inr ws' \<and> ws_queues ws'"
      if "wq_pop_step worker_tid wq_pop_body pc (ws_input ws) = Some x" "r = bind_result x (\<lambda>(pc, q). Inr (ws\<lparr>ws_input := q, ws_worker := WPop pc\<rparr>))" for x
      using spsc_pop [OF Q'(1) that(1)] that(2) Q'(2) by (auto simp: ws_queues_def)
    show ?thesis
    proof (cases pc)
      case (PopEnd v)
      then show ?thesis
        using assms(2) WPop Q' F by (cases v) (auto simp: ws_queues_def ws_flags_def wq_pop_returns_def split: if_splits)
    qed (use assms(2) WPop step in auto)
  next
    case (WRun j)
    then show ?thesis using assms(2) Q by (auto simp: ws_queues_def split: prod.splits)
  next
    case (WPush pc x)
    note Q' = Q [unfolded WPush, simplified]
    have step: "\<exists>ws'. r = Inr ws' \<and> ws_queues ws'"
      if "wq_push_step pick worker_tid (wq_push_body x) pc (ws_output ws) = Some (pc', q)" "r = Inr (ws\<lparr>ws_output := q, ws_worker := WPush pc' x\<rparr>)" for pc' q
      using spsc_push [OF Q'(2) pick that(1)] that(2) Q'(1) by (auto simp: ws_queues_def)
    show ?thesis
    proof (cases pc)
      case PushEnd
      then show ?thesis using assms(2) WPush Q' by (auto simp: ws_queues_def)
    qed (use assms(2) WPush step in auto)
  qed (use assms(2) in auto)
qed

lemma worker_step_rest:
  assumes I: "ws_inv pick work flow n ws" and step: "worker_step pick work ws (ws_worker ws) = Some (Inr ws')"
  shows "ws_flags ws' \<and> ws_counts n ws' \<and> ws_flow work ws' = flow"
proof -
  have I': "ws_queues ws" "ws_flags ws" "ws_counts n ws" "ws_flow work ws = flow" using I by (auto simp: ws_inv_def)
  show ?thesis
  proof (cases "ws_worker ws")
    case (WPop pc)
    show ?thesis
    proof (cases pc)
      case (PopUnlock v)
      then show ?thesis using step WPop I' by (cases v) (auto simp: ws_defs wq_defs)
    next
      case (PopEnd v)
      then show ?thesis using step WPop I' by (cases v) (auto simp: ws_defs wq_defs split: if_splits)
    next
      case PopBody
      then show ?thesis
        using step WPop I' by (auto simp: ws_defs wq_defs split: if_splits list.splits)
    qed (use step WPop I' in \<open>auto simp: ws_defs wq_defs split: if_splits\<close>)
  next
    case (WRun j)
    then show ?thesis using step I' by (auto simp: ws_defs fst_run_jobs_Cons split: prod.splits)
  next
    case (WPush pc x)
    then show ?thesis using step I' by (cases pc) (auto simp: ws_defs wq_defs split: if_splits)
  qed (use step in auto)
qed

text \<open>The owner takes the result that it waits for.\<close>

lemma owner_takes_next:
  assumes "ws_inv pick work flow n ws" "ws_owner ws = OAwait e (PopEnd v)"
  shows "\<exists>r. v = Some r \<and> owner_takes res0 e v = Inr r"
proof -
  have "ws_flags ws" "ws_flow work ws = flow" "ws_awaits flow ws" using assms(1) by (auto simp: ws_inv_def)
  with assms(2) show ?thesis
    by (cases v) (auto simp: ws_flags_def ws_flow_def ws_awaits_def owner_takes_def worker_done_def sender_wait_def split: option.splits)
qed

lemma owner_step_queues:
  assumes "ws_inv pick work flow n ws" "owner_step pick res0 ws (ws_owner ws) = Some r"
  shows "\<exists>ws'. r = Inr ws' \<and> ws_queues ws'"
proof -
  have pick: "wakes_one pick" and Q: "spsc owner_tid worker_tid (input_producer (ws_owner ws)) (input_consumer (ws_worker ws)) (ws_input ws)"
    "spsc worker_tid owner_tid (output_producer (ws_worker ws)) (output_consumer (ws_owner ws)) (ws_output ws)"
    and F: "ws_flags ws" using assms(1) by (auto simp: ws_inv_def ws_queues_def)
  show ?thesis
  proof (cases "ws_owner ws")
    case (OAwait e pc)
    note Q' = Q [unfolded OAwait, simplified]
    have step: "\<exists>ws'. r = Inr ws' \<and> ws_queues ws'"
      if "wq_pop_step owner_tid wq_pop_body pc (ws_output ws) = Some x" "r = bind_result x (\<lambda>(pc, q). Inr (ws\<lparr>ws_output := q, ws_owner := OAwait e pc\<rparr>))" for x
      using spsc_pop [OF Q'(2) that(1)] that(2) Q'(1) by (auto simp: ws_queues_def)
    show ?thesis
    proof (cases pc)
      case (PopEnd v)
      then show ?thesis
        using assms(2) OAwait Q' owner_takes_next [OF assms(1), of e v res0] by (auto simp: ws_queues_def)
    qed (use assms(2) OAwait step in auto)
  next
    case (ORequest pc j)
    note Q' = Q [unfolded ORequest, simplified]
    have step: "\<exists>ws'. r = Inr ws' \<and> ws_queues ws'"
      if "wq_push_step pick owner_tid (wq_push_body j) pc (ws_input ws) = Some (pc', q)" "r = Inr (ws\<lparr>ws_input := q, ws_owner := ORequest pc' j\<rparr>)" for pc' q
      using spsc_push [OF Q'(1) pick that(1)] that(2) Q'(2) by (auto simp: ws_queues_def)
    show ?thesis
    proof (cases pc)
      case PushEnd
      then show ?thesis using assms(2) ORequest Q' by (auto simp: ws_queues_def)
    qed (use assms(2) ORequest step in auto)
  next
    case (OStop pc)
    note Q' = Q [unfolded OStop, simplified]
    have step: "\<exists>ws'. r = Inr ws' \<and> ws_queues ws'"
      if "wq_push_step pick owner_tid wq_stop_body pc (ws_input ws) = Some (pc', q)" "r = Inr (ws\<lparr>ws_input := q, ws_owner := OStop pc'\<rparr>)" for pc' q
      using spsc_push [OF Q'(1) pick that(1)] that(2) Q'(2) by (auto simp: ws_queues_def)
    show ?thesis
    proof (cases pc)
      case PushEnd
      then show ?thesis using assms(2) OStop Q' by (auto simp: ws_queues_def)
    qed (use assms(2) OStop step in auto)
  next
    case ONext
    then show ?thesis using assms(2) Q by (auto simp: ws_queues_def split: list.splits owner_cmd.splits)
  next
    case OJoin
    then show ?thesis using assms(2) Q by (auto simp: ws_queues_def split: worker_pc.splits)
  qed (use assms(2) in auto)
qed

lemma owner_step_rest:
  assumes I: "ws_inv pick work flow n ws" and step: "owner_step pick res0 ws (ws_owner ws) = Some (Inr ws')"
  shows "ws_flags ws' \<and> ws_counts n ws' \<and> ws_flow work ws' = flow"
proof -
  have I': "ws_queues ws" "ws_flags ws" "ws_counts n ws" "ws_flow work ws = flow" using I by (auto simp: ws_inv_def)
  show ?thesis
  proof (cases "ws_owner ws")
    case (OAwait e pc)
    show ?thesis
    proof (cases pc)
      case (PopUnlock v)
      then show ?thesis using step OAwait I' by (cases v) (auto simp: ws_defs wq_defs)
    next
      case (PopEnd v)
      then show ?thesis using step OAwait I' owner_takes_next [OF I, of e v res0] by (auto simp: ws_defs wq_defs)
    next
      case PopBody
      then show ?thesis
        using step OAwait I' by (auto simp: ws_defs wq_defs split: if_splits list.splits)
    qed (use step OAwait I' in \<open>auto simp: ws_defs wq_defs split: if_splits\<close>)
  next
    case (ORequest pc j)
    then show ?thesis using step I' by (cases pc) (auto simp: ws_defs wq_defs split: if_splits)
  next
    case (OStop pc)
    then show ?thesis using step I' by (cases pc) (auto simp: ws_defs wq_defs split: if_splits)
  next
    case ONext
    then show ?thesis using step I' by (auto simp: ws_defs Suc_le_eq split: list.splits owner_cmd.splits)
  next
    case OJoin
    then show ?thesis using step I' by (auto simp: ws_defs split: worker_pc.splits)
  qed (use step in auto)
qed

lemma worker_step_awaits:
  "worker_step pick work ws (ws_worker ws) = Some (Inr ws') \<Longrightarrow> ws_awaits flow ws' = ws_awaits flow ws"
proof (cases "ws_worker ws")
  case (WPop pc)
  assume "worker_step pick work ws (ws_worker ws) = Some (Inr ws')"
  with WPop show ?thesis
    by (cases pc) (auto simp: ws_awaits_def bind_result_Inr_iff split: if_splits option.splits)
next
  case (WPush pc r)
  assume "worker_step pick work ws (ws_worker ws) = Some (Inr ws')"
  with WPush show ?thesis by (cases pc) (auto simp: ws_awaits_def split: if_splits)
qed (auto simp: ws_awaits_def split: prod.splits)

lemma owner_step_awaits:
  assumes I: "ws_inv pick work flow n ws" and step: "owner_step pick res0 ws (ws_owner ws) = Some (Inr ws')"
  shows "ws_awaits flow ws'"
proof -
  have A: "ws_awaits flow ws" and F: "ws_flow work ws = flow" using I by (auto simp: ws_inv_def)
  show ?thesis
  proof (cases "ws_owner ws")
    case (OAwait e pc)
    show ?thesis
    proof (cases pc)
      case (PopEnd v)
      then show ?thesis using step OAwait A F owner_takes_next [OF I, of e v res0] by (auto simp: ws_awaits_def ws_flow_def)
    qed (use step OAwait A in \<open>auto simp: ws_awaits_def wq_defs split: if_splits list.splits\<close>)
  next
    case (ORequest pc j)
    then show ?thesis using step A by (cases pc) (auto simp: ws_awaits_def wq_defs split: if_splits)
  next
    case (OStop pc)
    then show ?thesis using step A by (cases pc) (auto simp: ws_awaits_def wq_defs split: if_splits)
  next
    case ONext
    then show ?thesis using step A by (auto simp: ws_awaits_def split: list.splits owner_cmd.splits)
  next
    case OJoin
    then show ?thesis using step A by (auto simp: ws_awaits_def split: worker_pc.splits)
  qed (use step in auto)
qed

lemma ws_step_inv:
  assumes I: "ws_inv pick work flow n ws" and step: "ws_step pick work res0 (Turn t) ws = Some r"
  shows "\<exists>ws'. r = Inr ws' \<and> ws_inv pick work flow n ws'"
proof -
  have pick: "wakes_one pick" using I by (simp add: ws_inv_def)
  consider "t = worker_tid" "worker_step pick work ws (ws_worker ws) = Some r"
    | "t = owner_tid" "owner_step pick res0 ws (ws_owner ws) = Some r"
    using step by (auto split: if_splits)
  then show ?thesis
  proof cases
    case 1
    from worker_step_queues [OF I 1(2)] obtain ws' where ws': "r = Inr ws'" "ws_queues ws'" by blast
    with worker_step_rest [OF I] worker_step_awaits [of pick work ws ws' flow] I 1(2) pick show ?thesis by (auto simp: ws_inv_def)
  next
    case 2
    from owner_step_queues [OF I 2(2)] obtain ws' where ws': "r = Inr ws'" "ws_queues ws'" by blast
    with owner_step_rest [OF I] owner_step_awaits [OF I] 2(2) pick show ?thesis by (auto simp: ws_inv_def)
  qed
qed

subsection \<open>Progress\<close>

text \<open>Steps left: of the owner, of the worker for every job that it has not taken yet, and of its current round.\<close>

fun push_left :: "push_pc \<Rightarrow> nat" where
  "push_left PushLock = 4" | "push_left PushBody = 3" | "push_left PushSignal = 2" | "push_left PushUnlock = 1" | "push_left PushEnd = 0"

fun pop_left :: "'a pop_pc \<Rightarrow> nat" where
  "pop_left PopLock = 5" | "pop_left PopTest = 4" | "pop_left PopWait = 3" | "pop_left PopBody = 2" | "pop_left (PopUnlock v) = 1" | "pop_left (PopEnd v) = 0"

fun owner_left :: "('j, 'r) owner_pc \<Rightarrow> nat" where
  "owner_left (ORequest pc j) = 8 + push_left pc" | "owner_left (OAwait e pc) = 8 + pop_left pc" | "owner_left ONext = 7"
| "owner_left (OStop pc) = 2 + push_left pc" | "owner_left OJoin = 1" | "owner_left OExit = 0"

fun worker_left :: "('j, 'r) worker_pc \<Rightarrow> nat" where
  "worker_left (WPop (PopUnlock (Some j))) = 14" | "worker_left (WPop (PopEnd (Some j))) = 13" | "worker_left (WPop pc) = 1 + pop_left pc"
| "worker_left (WRun j) = 12" | "worker_left (WPush pc r) = 7 + push_left pc" | "worker_left (WExit v) = 0"

lemma worker_left_simps [simp]:
  "worker_left (WPop (PopUnlock v)) = (if v = None then 2 else 14)" "worker_left (WPop (PopEnd v)) = (if v = None then 1 else 13)"
  by (cases v; simp)+

definition ws_left :: "('j, 'r, 's) worker_system \<Rightarrow> nat" where
  "ws_left ws = 8 * length (ws_script ws) + owner_left (ws_owner ws)
     + 12 * (length (wq_queue (ws_input ws)) + length (owner_jobs (ws_owner ws)) + length (cmd_jobs (ws_script ws))) + worker_left (ws_worker ws)"

lemma worker_step_left: "worker_step pick work ws (ws_worker ws) = Some (Inr ws') \<Longrightarrow> ws_left ws' < ws_left ws"
proof (cases "ws_worker ws")
  case (WPop pc)
  assume "worker_step pick work ws (ws_worker ws) = Some (Inr ws')"
  with WPop show ?thesis
    by (cases pc) (auto simp: ws_left_def wq_defs split: if_splits list.splits option.splits)
next
  case (WPush pc r)
  assume "worker_step pick work ws (ws_worker ws) = Some (Inr ws')"
  with WPush show ?thesis by (cases pc) (auto simp: ws_left_def split: if_splits)
qed (auto simp: ws_left_def split: prod.splits)

lemma owner_step_left: "owner_step pick res0 ws (ws_owner ws) = Some (Inr ws') \<Longrightarrow> ws_left ws' < ws_left ws"
proof (cases "ws_owner ws")
  case (OAwait e pc)
  assume "owner_step pick res0 ws (ws_owner ws) = Some (Inr ws')"
  with OAwait show ?thesis by (cases pc) (auto simp: ws_left_def wq_defs bind_result_Inr_iff split: if_splits list.splits)
next
  case (ORequest pc j)
  assume "owner_step pick res0 ws (ws_owner ws) = Some (Inr ws')"
  with ORequest show ?thesis by (cases pc) (auto simp: ws_left_def wq_defs split: if_splits)
next
  case (OStop pc)
  assume "owner_step pick res0 ws (ws_owner ws) = Some (Inr ws')"
  with OStop show ?thesis by (cases pc) (auto simp: ws_left_def wq_defs split: if_splits)
next
  case ONext
  assume "owner_step pick res0 ws (ws_owner ws) = Some (Inr ws')"
  with ONext show ?thesis by (auto simp: ws_left_def split: list.splits owner_cmd.splits)
next
  case OJoin
  assume "owner_step pick res0 ws (ws_owner ws) = Some (Inr ws')"
  with OJoin show ?thesis by (auto simp: ws_left_def split: worker_pc.splits)
qed auto

lemma ws_step_left: "ws_step pick work res0 (Turn t) ws = Some (Inr ws') \<Longrightarrow> ws_left ws' < ws_left ws"
  by (auto simp: worker_step_left owner_step_left split: if_splits)

text \<open>Who can go on.\<close>

lemma worker_enabled:
  assumes "ws_queues ws" "\<not> push_critical (input_producer (ws_owner ws))" "\<not> pop_critical (output_consumer (ws_owner ws))"
    and "\<And>v. ws_worker ws \<noteq> WExit v" "ws_worker ws = WPop PopWait \<Longrightarrow> wq_queue (ws_input ws) \<noteq> [] \<or> \<not> wq_running (ws_input ws)"
  shows "worker_step pick work ws (ws_worker ws) \<noteq> None"
proof (cases "ws_worker ws")
  case (WPop pc)
  have "wq_pop_step worker_tid wq_pop_body pc (ws_input ws) \<noteq> None" if "\<And>v. pc \<noteq> PopEnd v"
    using pop_enabled [of owner_tid worker_tid "input_producer (ws_owner ws)" pc "ws_input ws"] assms WPop that by (auto simp: ws_queues_def)
  then show ?thesis using WPop by (cases pc) auto
next
  case (WPush pc r)
  have "wq_push_step pick worker_tid (wq_push_body r) pc (ws_output ws) \<noteq> None" if "pc \<noteq> PushEnd"
    using push_enabled [of worker_tid owner_tid pc "output_consumer (ws_owner ws)" "ws_output ws"] assms WPush that by (auto simp: ws_queues_def)
  then show ?thesis using WPush by (cases pc) auto
qed (use assms(4) in \<open>auto split: prod.splits\<close>)

lemma owner_enabled:
  assumes "ws_queues ws" "\<not> pop_critical (input_consumer (ws_worker ws))" "\<not> push_critical (output_producer (ws_worker ws))"
    and "ws_owner ws \<noteq> OExit" "ws_owner ws = OJoin \<Longrightarrow> \<exists>v. ws_worker ws = WExit v"
    and "\<And>e. ws_owner ws = OAwait e PopWait \<Longrightarrow> wq_queue (ws_output ws) \<noteq> []"
  shows "owner_step pick res0 ws (ws_owner ws) \<noteq> None"
proof (cases "ws_owner ws")
  case (OAwait e pc)
  have "wq_pop_step owner_tid wq_pop_body pc (ws_output ws) \<noteq> None" if "\<And>v. pc \<noteq> PopEnd v"
    using pop_enabled [of worker_tid owner_tid "output_producer (ws_worker ws)" pc "ws_output ws"] assms OAwait that by (auto simp: ws_queues_def)
  then show ?thesis using OAwait by (cases pc) auto
next
  case (ORequest pc j)
  have "wq_push_step pick owner_tid (wq_push_body j) pc (ws_input ws) \<noteq> None" if "pc \<noteq> PushEnd"
    using push_enabled [of owner_tid worker_tid pc "input_consumer (ws_worker ws)" "ws_input ws"] assms ORequest that by (auto simp: ws_queues_def)
  then show ?thesis using ORequest by (cases pc) auto
next
  case (OStop pc)
  have "wq_push_step pick owner_tid wq_stop_body pc (ws_input ws) \<noteq> None" if "pc \<noteq> PushEnd"
    using push_enabled [of owner_tid worker_tid pc "input_consumer (ws_worker ws)" "ws_input ws"] assms OStop that by (auto simp: ws_queues_def)
  then show ?thesis using OStop by (cases pc) auto
qed (use assms(4,5) in auto)

lemma worker_critical_enabled:
  "pop_critical (input_consumer (ws_worker ws)) \<or> push_critical (output_producer (ws_worker ws)) \<Longrightarrow> worker_step pick work ws (ws_worker ws) \<noteq> None"
proof (cases "ws_worker ws")
  case (WPop pc)
  then show "pop_critical (input_consumer (ws_worker ws)) \<or> push_critical (output_producer (ws_worker ws)) \<Longrightarrow> ?thesis" by (cases pc) auto
next
  case (WPush pc r)
  then show "pop_critical (input_consumer (ws_worker ws)) \<or> push_critical (output_producer (ws_worker ws)) \<Longrightarrow> ?thesis" by (cases pc) auto
qed auto

lemma ws_progress:
  assumes I: "ws_inv pick work flow n ws" and "\<not> ws_final ws"
  shows "\<exists>t \<in> {Turn owner_tid, Turn worker_tid}. ws_step pick work res0 t ws \<noteq> None"
proof (rule ccontr)
  assume "\<not> ?thesis"
  then have W: "worker_step pick work ws (ws_worker ws) = None" and O: "owner_step pick res0 ws (ws_owner ws) = None"
    by (simp_all add: owner_tid_def worker_tid_def)
  have I': "ws_queues ws" "ws_flags ws" "ws_counts n ws" using I by (auto simp: ws_inv_def)
  note wc = worker_critical_enabled [of ws pick work]
  have o: "ws_owner ws = OJoin \<and> (\<forall>v. ws_worker ws \<noteq> WExit v) \<or> (\<exists>e. ws_owner ws = OAwait e PopWait) \<and> wq_queue (ws_output ws) = []"
    using owner_enabled [OF I'(1), of pick res0] wc W O assms(2) by (auto simp: ws_final_def)
  then have "\<not> push_critical (input_producer (ws_owner ws))" "\<not> pop_critical (output_consumer (ws_owner ws))" by auto
  from worker_enabled [OF I'(1) this, of pick work] W
  have w: "(\<exists>v. ws_worker ws = WExit v) \<or> ws_worker ws = WPop PopWait \<and> wq_queue (ws_input ws) = [] \<and> wq_running (ws_input ws)" by blast
  from o w I'(2,3) show False by (auto simp: ws_defs)
qed

text \<open>The runs without spurious returns.\<close>

definition ws_turns :: "ws_event set" where
  "ws_turns = range Turn"

lemma ws_step_inv_left:
  assumes "ws_inv pick work flow n ws" "e \<in> ws_turns" "ws_step pick work res0 e ws = Some r"
  shows "\<exists>ws'. r = Inr ws' \<and> ws_inv pick work flow n ws' \<and> ws_left ws' < ws_left ws"
proof -
  obtain t where e: "e = Turn t" using assms(2) by (auto simp: ws_turns_def)
  show ?thesis using ws_step_inv [OF assms(1) assms(3) [unfolded e]] ws_step_left [of pick work res0 t ws] assms(3) e by auto
qed

interpretation worker: fair_progress "ws_step pick work res0" "{Turn owner_tid, Turn worker_tid}" ws_turns "ws_inv pick work flow n"
    ws_final ws_left
  for pick work res0 flow n
  by unfold_locales (rule ws_step_inv_left ws_progress, assumption+)+

text \<open>When the owner is done, it has all results that it waited for.\<close>

lemma ws_final_results:
  assumes "ws_inv pick work flow n ws" "ws_final ws"
  shows "length (ws_results ws) = n" "ws_results ws = take n flow"
proof -
  have "ws_owner ws = OExit" "ws_counts n ws" "ws_flow work ws = flow" "ws_flags ws" using assms by (auto simp: ws_inv_def ws_final_def)
  then show "length (ws_results ws) = n" "ws_results ws = take n flow"
    by (auto simp: ws_counts_def ws_flags_def ws_flow_def)
qed

text \<open>
  A spurious return while the queue is empty is undefined behaviour: the thread goes on to take the front of the queue.
\<close>

definition spurious_run :: "nat \<Rightarrow> ws_event" where
  "spurious_run n = (if n = 2 then Spurious worker_tid else Turn worker_tid)"

lemma worker_spurious_undefined:
  "scheduled (ws_step pick work res0) spurious_run 5 (worker_new s script) = Inl undefined_behaviour"
  by (simp add: eval_nat_numeral spurious_run_def worker_new_def wait_queue_new_def ws_spurious_def wq_spurious_def wq_defs worker_tid_def)

subsection \<open>Property\<close>



end
