(* ===== verification/ThreadJobs.thy ===== *)
theory ThreadJobs
  imports Prelude
begin

section \<open>Distributing work to threads (Processor/ThreadJob.h, ThreadQueue, ThreadQueues)\<close>

text \<open>
  The main thread cuts a range of items into slices, schedules one slice for every idle thread, does the rest itself and
  collects the results. The queues between the threads are those of theory \<open>WaitQueue\<close>; here they are lists, and an
  operation that would wait returns \<open>None\<close> (type \<open>io\<close>). Pointers are numbers, 0 is the null pointer; \<open>'d\<close> is the type
  \<open>DataPositions\<close>, whose default is the argument \<open>pos0\<close>. Timers and statistics are not modelled.
\<close>

subsection \<open>Jobs\<close>

datatype thread_job_type = TAPE_JOB | BITADD_JOB | DABIT_JOB | MULT_JOB | EDABIT_JOB | PERSONAL_JOB | SANITIZE_JOB
  | EDABIT_SACRIFICE_JOB | PERSONAL_TRIPLE_JOB | TRIPLE_SACRIFICE_JOB | CHECK_JOB | FFT_JOB | CIPHER_PLAIN_MULT_JOB
  | MATRX_RAND_MULT_JOB | NO_JOB

record 'd thread_job =
  tj_type :: thread_job_type
  tj_prognum :: int
  tj_pos :: 'd
  tj_arg :: int
  tj_output :: nat
  tj_output2 :: nat
  tj_input :: nat
  tj_begin :: nat
  tj_end :: nat
  tj_length :: int
  tj_supply :: nat

definition thread_job_new :: "'d \<Rightarrow> 'd thread_job" where
  "thread_job_new pos0 = \<lparr>tj_type = NO_JOB, tj_prognum = 0, tj_pos = pos0, tj_arg = 0, tj_output = 0, tj_output2 = 0, tj_input = 0,
     tj_begin = 0, tj_end = 0, tj_length = 0, tj_supply = 0\<rparr>"

definition tape_job :: "'d \<Rightarrow> int \<Rightarrow> int \<Rightarrow> 'd thread_job" where
  "tape_job pos0 prognum arg = (thread_job_new pos0)\<lparr>tj_type := TAPE_JOB, tj_prognum := prognum, tj_arg := arg\<rparr>"

definition tape_job_pos :: "int \<Rightarrow> int \<Rightarrow> 'd \<Rightarrow> 'd thread_job" where
  "tape_job_pos prognum arg pos = (tape_job pos prognum arg)\<lparr>tj_pos := pos\<rparr>"

definition bitadd_job :: "'d \<Rightarrow> nat \<Rightarrow> nat \<Rightarrow> int \<Rightarrow> int \<Rightarrow> 'd thread_job" where
  "bitadd_job pos0 sums summands len player =
     (thread_job_new pos0)\<lparr>tj_type := BITADD_JOB, tj_output := sums, tj_input := summands, tj_length := len, tj_arg := player\<rparr>"

definition dabit_job :: "'d \<Rightarrow> nat \<Rightarrow> 'd thread_job" where
  "dabit_job pos0 dabits = (thread_job_new pos0)\<lparr>tj_type := DABIT_JOB, tj_output := dabits\<rparr>"

definition mult_job :: "'d \<Rightarrow> nat \<Rightarrow> nat \<Rightarrow> 'd thread_job" where
  "mult_job pos0 products multiplicands =
     (thread_job_new pos0)\<lparr>tj_type := MULT_JOB, tj_output := products, tj_input := multiplicands\<rparr>"

definition edabit_job :: "'d \<Rightarrow> int \<Rightarrow> nat \<Rightarrow> nat \<Rightarrow> 'd thread_job" where
  "edabit_job pos0 n_bits sums bits =
     (thread_job_new pos0)\<lparr>tj_type := EDABIT_JOB, tj_length := n_bits, tj_output := sums, tj_output2 := bits\<rparr>"

definition personal_job :: "'d \<Rightarrow> int \<Rightarrow> nat \<Rightarrow> nat \<Rightarrow> int \<Rightarrow> 'd thread_job" where
  "personal_job pos0 n_bits sums bits input_player =
     (thread_job_new pos0)\<lparr>tj_type := PERSONAL_JOB, tj_length := n_bits, tj_output := sums, tj_output2 := bits, tj_arg := input_player\<rparr>"

definition sanitize_job :: "'d \<Rightarrow> nat \<Rightarrow> int \<Rightarrow> int \<Rightarrow> 'd thread_job" where
  "sanitize_job pos0 edabits n_bits player =
     (thread_job_new pos0)\<lparr>tj_type := SANITIZE_JOB, tj_output := edabits, tj_length := n_bits, tj_arg := player\<rparr>"

definition edabit_sacrifice_job :: "'d \<Rightarrow> nat \<Rightarrow> int \<Rightarrow> bool \<Rightarrow> int \<Rightarrow> 'd thread_job" where
  "edabit_sacrifice_job pos0 edabits n_bits strict player =
     (thread_job_new pos0)\<lparr>tj_type := EDABIT_SACRIFICE_JOB, tj_output := edabits, tj_length := n_bits, tj_arg := player,
       tj_prognum := of_bool strict\<rparr>"

definition personal_triple_job :: "'d \<Rightarrow> nat \<Rightarrow> int \<Rightarrow> 'd thread_job" where
  "personal_triple_job pos0 triples player =
     (thread_job_new pos0)\<lparr>tj_type := PERSONAL_TRIPLE_JOB, tj_output := triples, tj_arg := player\<rparr>"

definition triple_sacrifice_job :: "'d \<Rightarrow> nat \<Rightarrow> nat \<Rightarrow> 'd thread_job" where
  "triple_sacrifice_job pos0 triples check_triples =
     (thread_job_new pos0)\<lparr>tj_type := TRIPLE_SACRIFICE_JOB, tj_output := triples, tj_input := check_triples\<rparr>"

definition check_job :: "'d \<Rightarrow> 'd thread_job" where
  "check_job pos0 = (thread_job_new pos0)\<lparr>tj_type := CHECK_JOB\<rparr>"

definition fft_job :: "'d \<Rightarrow> nat \<Rightarrow> nat \<Rightarrow> int \<Rightarrow> nat \<Rightarrow> 'd thread_job" where
  "fft_job pos0 ioput alpha2 m PrD =
     (thread_job_new pos0)\<lparr>tj_type := FFT_JOB, tj_output := ioput, tj_input := alpha2, tj_length := m, tj_supply := PrD\<rparr>"

subsection \<open>The queue of one thread\<close>

record 'd thread_queue =
  tq_in :: "'d thread_job list"
  tq_out :: "'d thread_job list"
  tq_left :: int

definition thread_queue_new :: "'d thread_queue" where
  "thread_queue_new = \<lparr>tq_in = [], tq_out = [], tq_left = 0\<rparr>"

definition tq_available :: "'d thread_queue \<Rightarrow> bool" where
  "tq_available q \<longleftrightarrow> tq_left q = 0"

definition tq_schedule :: "'d thread_job \<Rightarrow> 'd thread_queue \<Rightarrow> 'd thread_queue" where
  "tq_schedule job q = q\<lparr>tq_left := tq_left q + 1, tq_in := tq_in q @ [job]\<rparr>"

definition tq_next :: "'d thread_queue \<Rightarrow> ('d thread_job \<times> 'd thread_queue) io" where
  "tq_next q = (case tq_in q of [] \<Rightarrow> None | job # rest \<Rightarrow> Some (Inr (job, q\<lparr>tq_in := rest\<rparr>)))"

definition tq_finished :: "'d thread_job \<Rightarrow> 'd thread_queue \<Rightarrow> 'd thread_queue" where
  "tq_finished job q = q\<lparr>tq_out := tq_out q @ [job]\<rparr>"

definition tq_result :: "'d thread_queue \<Rightarrow> ('d thread_job \<times> 'd thread_queue) io" where
  "tq_result q =
     (case tq_out q of [] \<Rightarrow> None | job # rest \<Rightarrow> Some (Inr (job, q\<lparr>tq_out := rest, tq_left := tq_left q - 1\<rparr>)))"

subsection \<open>All threads\<close>

record 'd thread_queues =
  tqs_queues :: "'d thread_queue list"
  tqs_available :: "nat list"

text \<open>Thread 0 is the main thread.\<close>

definition find_available :: "'d thread_queues \<Rightarrow> nat \<times> 'd thread_queues" where
  "find_available ts =
     (if tqs_available ts \<noteq> [] then (0, ts)
      else let av = filter (\<lambda>i. tq_available (tqs_queues ts ! i)) [1..<length (tqs_queues ts)]
           in (length av, ts\<lparr>tqs_available := av\<rparr>))"

text \<open>The quotient is rounded up, as a floating-point number; it is exact for the numbers of an \<open>int\<close>.\<close>

definition get_n_per_thread :: "nat \<Rightarrow> nat \<Rightarrow> 'd thread_queues \<Rightarrow> nat" where
  "get_n_per_thread n_items granularity ts =
     (let threads = length (tqs_available ts) + 1
      in (n_items + threads - 1) div threads div granularity * granularity)"

definition job_slice :: "nat \<Rightarrow> nat \<Rightarrow> nat \<Rightarrow> 'd thread_job \<Rightarrow> 'd thread_job" where
  "job_slice base m i job = job\<lparr>tj_begin := base + i * m, tj_end := base + (i + 1) * m\<rparr>"

fun distribute_loop ::
  "nat \<Rightarrow> nat \<Rightarrow> nat \<Rightarrow> nat list option \<Rightarrow> nat \<Rightarrow> nat list \<Rightarrow> 'd thread_job \<Rightarrow> 'd thread_queues \<Rightarrow> (nat \<times> 'd thread_queues) result" where
  "distribute_loop n base m supplies i [] job ts = Inr (base + i * m, ts)"
| "distribute_loop n base m supplies i (a # as) job ts =
     (if n < base + (i + 1) * m then
        if i = 0 then Inl assertion_failed
        else Inr (base + i * m, ts\<lparr>tqs_available := take i (tqs_available ts)\<rparr>)
      else
        bind_result (case supplies of None \<Rightarrow> Inr job
          | Some s \<Rightarrow> if i < length s then Inr (job\<lparr>tj_supply := s ! i\<rparr>) else Inl out_of_range) (\<lambda>job.
        let job = job_slice base m i job
        in if length (tqs_queues ts) \<le> a then Inl out_of_range
           else distribute_loop n base m supplies (i + 1) as job
                  (ts\<lparr>tqs_queues := (tqs_queues ts)[a := tq_schedule job (tqs_queues ts ! a)]\<rparr>)))"

definition distribute_no_setup ::
  "'d thread_job \<Rightarrow> nat \<Rightarrow> nat \<Rightarrow> nat \<Rightarrow> nat list option \<Rightarrow> 'd thread_queues \<Rightarrow> (nat \<times> 'd thread_queues) result" where
  "distribute_no_setup job n_items base granularity supplies ts =
     (let m = get_n_per_thread n_items granularity ts
      in if n_items \<noteq> 0 \<and> (m = 0 \<or> n_items < base + m) then Inr (base, ts\<lparr>tqs_available := []\<rparr>)
         else distribute_loop n_items base m supplies 0 (tqs_available ts) job ts)"

definition distribute :: "'d thread_job \<Rightarrow> nat \<Rightarrow> nat \<Rightarrow> nat \<Rightarrow> 'd thread_queues \<Rightarrow> (nat \<times> 'd thread_queues) result" where
  "distribute job n_items base granularity ts =
     (case find_available ts of (n, ts) \<Rightarrow>
        if 0 < n then distribute_no_setup job n_items base granularity None ts else Inr (base, ts))"

text \<open>The results are waited for in the order of the threads.\<close>

definition wrap_up_one :: "'d thread_job \<Rightarrow> nat \<Rightarrow> 'd thread_queues \<Rightarrow> 'd thread_queues io" where
  "wrap_up_one job i ts =
     (if length (tqs_queues ts) \<le> i then Some (Inl out_of_range)
      else bind_io (tq_result (tqs_queues ts ! i)) (\<lambda>(result, q).
        if tj_output result = tj_output job \<and> tj_type result = tj_type job
        then Some (Inr (ts\<lparr>tqs_queues := (tqs_queues ts)[i := q]\<rparr>)) else Some (Inl assertion_failed)))"

definition wrap_up :: "'d thread_job \<Rightarrow> 'd thread_queues \<Rightarrow> 'd thread_queues io" where
  "wrap_up job ts =
     bind_io (foldM_io (wrap_up_one job) (tqs_available ts) ts) (\<lambda>ts. Some (Inr (ts\<lparr>tqs_available := []\<rparr>)))"

text \<open>A thread that serves the next job in its queue, by \<open>f\<close>.\<close>

definition tq_serve :: "('d thread_job \<Rightarrow> 'd thread_job) \<Rightarrow> 'd thread_queue \<Rightarrow> 'd thread_queue io" where
  "tq_serve f q = bind_io (tq_next q) (\<lambda>(job, q). Some (Inr (tq_finished (f job) q)))"

subsection \<open>What is distributed\<close>

definition threads_idle :: "'d thread_queues \<Rightarrow> bool" where
  "threads_idle ts \<longleftrightarrow> tqs_available ts = [] \<and> (\<forall>q \<in> set (tqs_queues ts). q = thread_queue_new)"

text \<open>The first \<open>k\<close> of the idle threads have their slices, the others nothing.\<close>

definition slices_scheduled :: "nat \<Rightarrow> nat \<Rightarrow> nat \<Rightarrow> 'd thread_job \<Rightarrow> 'd thread_queues \<Rightarrow> 'd thread_queues \<Rightarrow> bool" where
  "slices_scheduled base m k job ts ts' \<longleftrightarrow> k < length (tqs_queues ts) \<and> tqs_available ts' = [1..<k + 1]
     \<and> length (tqs_queues ts') = length (tqs_queues ts)
     \<and> (\<forall>t < length (tqs_queues ts). tqs_queues ts' ! t
          = (if 1 \<le> t \<and> t \<le> k then tq_schedule (job_slice base m (t - 1) job) thread_queue_new else thread_queue_new))"

lemma find_available_idle:
  "threads_idle ts \<Longrightarrow> find_available ts = (length (tqs_queues ts) - 1, ts\<lparr>tqs_available := [1..<length (tqs_queues ts)]\<rparr>)"
proof -
  assume I: "threads_idle ts"
  then have "tqs_queues ts ! i = thread_queue_new" if "i < length (tqs_queues ts)" for i
    using that nth_mem by (auto simp: threads_idle_def)
  then have "filter (\<lambda>i. tq_available (tqs_queues ts ! i)) [1..<length (tqs_queues ts)] = [1..<length (tqs_queues ts)]"
    by (intro filter_True) (auto simp: tq_available_def thread_queue_new_def)
  then show ?thesis using I by (simp add: find_available_def threads_idle_def)
qed

lemma job_slice_slice [simp]: "job_slice b m i (job_slice b m j job) = job_slice b m i job"
  by (simp add: job_slice_def)

lemma distribute_loop_slices:
  assumes "length (tqs_queues ts) = T" "tqs_available ts = [1..<T]" "i < T" "0 < m" "base + i * m \<le> n" "i = 0 \<Longrightarrow> base + m \<le> n"
    and "\<forall>t < T. tqs_queues ts ! t = (if 1 \<le> t \<and> t \<le> i then tq_schedule (job_slice base m (t - 1) job) thread_queue_new else thread_queue_new)"
    and "j = job \<or> (\<exists>i. j = job_slice base m i job)"
  shows "\<exists>k ts'. distribute_loop n base m None i [i + 1..<T] j ts = Inr (base + k * m, ts') \<and> i \<le> k \<and> base + k * m \<le> n
    \<and> (k + 1 = T \<or> n < base + (k + 1) * m) \<and> slices_scheduled base m k job ts ts'"
  using assms
proof (induction "T - i" arbitrary: i j ts)
  case 0
  then show ?case by simp
next
  case (Suc d)
  show ?case
  proof (cases "i + 1 < T")
    case False
    then have "[i + 1..<T] = []" "i + 1 = T" using Suc.prems(3) by auto
    then show ?thesis
      using Suc.prems by (intro exI [of _ i] exI [of _ ts]) (auto simp: slices_scheduled_def)
  next
    case True
    then have u: "[i + 1..<T] = (i + 1) # [i + 1 + 1..<T]" by (simp add: upt_conv_Cons)
    show ?thesis
    proof (cases "n < base + (i + 1) * m")
      case True
      then have "i \<noteq> 0" using Suc.prems(6) by (cases i) auto
      then show ?thesis
        using True Suc.prems u by (intro exI [of _ i]) (auto simp: slices_scheduled_def take_upt)
    next
      case False
      have j: "job_slice base m i j = job_slice base m i job" using Suc.prems(8) by auto
      let ?ts = "ts\<lparr>tqs_queues := (tqs_queues ts)[i + 1 := tq_schedule (job_slice base m i job) (tqs_queues ts ! (i + 1))]\<rparr>"
      have next_ok: "\<forall>t < T. tqs_queues ?ts ! t
          = (if 1 \<le> t \<and> t \<le> i + 1 then tq_schedule (job_slice base m (t - 1) job) thread_queue_new else thread_queue_new)"
        using Suc.prems(1,7) \<open>i + 1 < T\<close> by (auto simp: nth_list_update)
      have d: "d = T - (i + 1)" using Suc.hyps(2) by simp
      have "base + (i + 1) * m \<le> n" using False by simp
      from Suc.hyps(1) [OF d _ _ \<open>i + 1 < T\<close> Suc.prems(4) this _ next_ok, of "job_slice base m i job"] Suc.prems(1,2)
      obtain k ts' where "distribute_loop n base m None (i + 1) [i + 1 + 1..<T] (job_slice base m i job) ?ts = Inr (base + k * m, ts')"
        "i + 1 \<le> k" "base + k * m \<le> n" "k + 1 = T \<or> n < base + (k + 1) * m" "slices_scheduled base m k job ?ts ts'"
        by auto
      moreover from this(5) have "slices_scheduled base m k job ts ts'" by (simp add: slices_scheduled_def)
      ultimately show ?thesis
        using False Suc.prems(1) \<open>i + 1 < T\<close> u j by (intro exI [of _ k] exI [of _ ts']) (simp add: Let_def)
    qed
  qed
qed

text \<open>After all threads have served their slices.\<close>

definition slices_served :: "('d thread_job \<Rightarrow> 'd thread_job) \<Rightarrow> nat \<Rightarrow> 'd thread_queues \<Rightarrow> 'd thread_queue list \<Rightarrow> bool" where
  "slices_served f k ts qs \<longleftrightarrow> length qs = length (tqs_queues ts)
     \<and> (\<forall>t < length qs. if 1 \<le> t \<and> t \<le> k then tq_serve f (tqs_queues ts ! t) = Some (Inr (qs ! t)) else qs ! t = tqs_queues ts ! t)"

lemma wrap_up_idle:
  assumes S: "slices_scheduled base m k job ts ts'" and Q: "slices_served f k ts' qs"
    and f: "\<And>job. tj_output (f job) = tj_output job" "\<And>job. tj_type (f job) = tj_type job"
  shows "\<exists>ts''. wrap_up job (ts'\<lparr>tqs_queues := qs\<rparr>) = Some (Inr ts'') \<and> threads_idle ts''"
proof -
  let ?T = "length qs"
  have T: "k < ?T" using S Q by (simp add: slices_scheduled_def slices_served_def)
  have q: "qs ! t = (if 1 \<le> t \<and> t \<le> k then \<lparr>tq_in = [], tq_out = [f (job_slice base m (t - 1) job)], tq_left = 1\<rparr> else thread_queue_new)"
    if "t < ?T" for t
    using S Q that
    by (auto simp: slices_scheduled_def slices_served_def tq_serve_def tq_schedule_def thread_queue_new_def tq_next_def tq_finished_def
        split: if_splits dest!: spec [of _ t])
  have "\<exists>qs'. foldM_io (wrap_up_one job) [1..<j + 1] (ts'\<lparr>tqs_queues := qs\<rparr>) = Some (Inr (ts'\<lparr>tqs_queues := qs'\<rparr>)) \<and> length qs' = ?T
      \<and> (\<forall>t < ?T. qs' ! t = (if t \<le> j then thread_queue_new else qs ! t))" if "j \<le> k" for j
    using that
  proof (induction j)
    case 0
    then show ?case using q T by (intro exI [of _ qs]) auto
  next
    case (Suc j)
    then obtain qs' where qs': "foldM_io (wrap_up_one job) [1..<j + 1] (ts'\<lparr>tqs_queues := qs\<rparr>) = Some (Inr (ts'\<lparr>tqs_queues := qs'\<rparr>))"
      "length qs' = ?T" "\<forall>t < ?T. qs' ! t = (if t \<le> j then thread_queue_new else qs ! t)" by auto
    have "qs' ! (j + 1) = \<lparr>tq_in = [], tq_out = [f (job_slice base m j job)], tq_left = 1\<rparr>"
      using qs'(3) q [of "j + 1"] Suc.prems T by auto
    then have "wrap_up_one job (j + 1) (ts'\<lparr>tqs_queues := qs'\<rparr>) = Some (Inr (ts'\<lparr>tqs_queues := qs'[j + 1 := thread_queue_new]\<rparr>))"
      using qs'(2) Suc.prems T f by (simp add: wrap_up_one_def tq_result_def thread_queue_new_def job_slice_def)
    moreover have "[1..<Suc j + 1] = [1..<j + 1] @ [j + 1]" by simp
    ultimately show ?case
      using qs' Suc.prems T
      by (intro exI [of _ "qs'[j + 1 := thread_queue_new]"]) (simp only: foldM_io_append, auto simp: nth_list_update)
  qed
  from this [of k] obtain qs' where "foldM_io (wrap_up_one job) [1..<k + 1] (ts'\<lparr>tqs_queues := qs\<rparr>) = Some (Inr (ts'\<lparr>tqs_queues := qs'\<rparr>))"
    "length qs' = ?T" "\<forall>t < ?T. qs' ! t = (if t \<le> k then thread_queue_new else qs ! t)" by auto
  moreover from this(2,3) q have "\<forall>q \<in> set qs'. q = thread_queue_new" by (auto simp: in_set_conv_nth)
  moreover have "tqs_available ts' = [1..<k + 1]" using S by (simp add: slices_scheduled_def)
  ultimately show ?thesis by (simp add: wrap_up_def threads_idle_def)
qed



end
