(* ===== verification/Opcodes.thy ===== *)
theory Opcodes
  imports Prelude
begin

section \<open>Opcodes (Processor/Instruction.h, GC/Instruction.h)\<close>

text \<open>The enumerations, by the names of the source; \<open>SECRET_WRITE\<close> and \<open>CLEAR_WRITE\<close> are the classes of the binary instructions.\<close>

abbreviation (input) CISC :: nat where "CISC \<equiv> 0"
abbreviation (input) LDI :: nat where "LDI \<equiv> 0x1"
abbreviation (input) LDSI :: nat where "LDSI \<equiv> 0x2"
abbreviation (input) LDMC :: nat where "LDMC \<equiv> 0x3"
abbreviation (input) LDMS :: nat where "LDMS \<equiv> 0x4"
abbreviation (input) STMC :: nat where "STMC \<equiv> 0x5"
abbreviation (input) STMS :: nat where "STMS \<equiv> 0x6"
abbreviation (input) LDMCI :: nat where "LDMCI \<equiv> 0x7"
abbreviation (input) LDMSI :: nat where "LDMSI \<equiv> 0x8"
abbreviation (input) STMCI :: nat where "STMCI \<equiv> 0x9"
abbreviation (input) STMSI :: nat where "STMSI \<equiv> 0xa"
abbreviation (input) MOVC :: nat where "MOVC \<equiv> 0xb"
abbreviation (input) MOVS :: nat where "MOVS \<equiv> 0xc"
abbreviation (input) PROTECTMEMS :: nat where "PROTECTMEMS \<equiv> 0xd"
abbreviation (input) PROTECTMEMC :: nat where "PROTECTMEMC \<equiv> 0xe"
abbreviation (input) PROTECTMEMINT :: nat where "PROTECTMEMINT \<equiv> 0xf"
abbreviation (input) LDMINT :: nat where "LDMINT \<equiv> 0xca"
abbreviation (input) STMINT :: nat where "STMINT \<equiv> 0xcb"
abbreviation (input) LDMINTI :: nat where "LDMINTI \<equiv> 0xcc"
abbreviation (input) STMINTI :: nat where "STMINTI \<equiv> 0xcd"
abbreviation (input) PUSHINT :: nat where "PUSHINT \<equiv> 0xce"
abbreviation (input) POPINT :: nat where "POPINT \<equiv> 0xcf"
abbreviation (input) MOVINT :: nat where "MOVINT \<equiv> 0xd0"
abbreviation (input) LDTN :: nat where "LDTN \<equiv> 0x10"
abbreviation (input) LDARG :: nat where "LDARG \<equiv> 0x11"
abbreviation (input) REQBL :: nat where "REQBL \<equiv> 0x12"
abbreviation (input) STARG :: nat where "STARG \<equiv> 0x13"
abbreviation (input) TIME :: nat where "TIME \<equiv> 0x14"
abbreviation (input) START :: nat where "START \<equiv> 0x15"
abbreviation (input) STOP :: nat where "STOP \<equiv> 0x16"
abbreviation (input) USE :: nat where "USE \<equiv> 0x17"
abbreviation (input) USE_INP :: nat where "USE_INP \<equiv> 0x18"
abbreviation (input) RUN_TAPE :: nat where "RUN_TAPE \<equiv> 0x19"
abbreviation (input) JOIN_TAPE :: nat where "JOIN_TAPE \<equiv> 0x1a"
abbreviation (input) CRASH :: nat where "CRASH \<equiv> 0x1b"
abbreviation (input) USE_PREP :: nat where "USE_PREP \<equiv> 0x1c"
abbreviation (input) STARTGRIND :: nat where "STARTGRIND \<equiv> 0x1d"
abbreviation (input) STOPGRIND :: nat where "STOPGRIND \<equiv> 0x1e"
abbreviation (input) NPLAYERS :: nat where "NPLAYERS \<equiv> 0xe2"
abbreviation (input) THRESHOLD :: nat where "THRESHOLD \<equiv> 0xe3"
abbreviation (input) PLAYERID :: nat where "PLAYERID \<equiv> 0xe4"
abbreviation (input) USE_EDABIT :: nat where "USE_EDABIT \<equiv> 0xe5"
abbreviation (input) USE_MATMUL :: nat where "USE_MATMUL \<equiv> 0x1f"
abbreviation (input) ACTIVE :: nat where "ACTIVE \<equiv> 0xe9"
abbreviation (input) CMDLINEARG :: nat where "CMDLINEARG \<equiv> 0xeb"
abbreviation (input) CALL_TAPE :: nat where "CALL_TAPE \<equiv> 0xec"
abbreviation (input) CALL_ARG :: nat where "CALL_ARG \<equiv> 0xed"
abbreviation (input) ADDC :: nat where "ADDC \<equiv> 0x20"
abbreviation (input) ADDS :: nat where "ADDS \<equiv> 0x21"
abbreviation (input) ADDM :: nat where "ADDM \<equiv> 0x22"
abbreviation (input) ADDCI :: nat where "ADDCI \<equiv> 0x23"
abbreviation (input) ADDSI :: nat where "ADDSI \<equiv> 0x24"
abbreviation (input) SUBC :: nat where "SUBC \<equiv> 0x25"
abbreviation (input) SUBS :: nat where "SUBS \<equiv> 0x26"
abbreviation (input) SUBML :: nat where "SUBML \<equiv> 0x27"
abbreviation (input) SUBMR :: nat where "SUBMR \<equiv> 0x28"
abbreviation (input) SUBCI :: nat where "SUBCI \<equiv> 0x29"
abbreviation (input) SUBSI :: nat where "SUBSI \<equiv> 0x2a"
abbreviation (input) SUBCFI :: nat where "SUBCFI \<equiv> 0x2b"
abbreviation (input) SUBSFI :: nat where "SUBSFI \<equiv> 0x2c"
abbreviation (input) PREFIXSUMS :: nat where "PREFIXSUMS \<equiv> 0x2d"
abbreviation (input) PICKS :: nat where "PICKS \<equiv> 0x2e"
abbreviation (input) CONCATS :: nat where "CONCATS \<equiv> 0x2f"
abbreviation (input) ZIPS :: nat where "ZIPS \<equiv> 0x3f"
abbreviation (input) MULC :: nat where "MULC \<equiv> 0x30"
abbreviation (input) MULM :: nat where "MULM \<equiv> 0x31"
abbreviation (input) MULCI :: nat where "MULCI \<equiv> 0x32"
abbreviation (input) MULSI :: nat where "MULSI \<equiv> 0x33"
abbreviation (input) DIVC :: nat where "DIVC \<equiv> 0x34"
abbreviation (input) DIVCI :: nat where "DIVCI \<equiv> 0x35"
abbreviation (input) MODC :: nat where "MODC \<equiv> 0x36"
abbreviation (input) MODCI :: nat where "MODCI \<equiv> 0x37"
abbreviation (input) LEGENDREC :: nat where "LEGENDREC \<equiv> 0x38"
abbreviation (input) DIGESTC :: nat where "DIGESTC \<equiv> 0x39"
abbreviation (input) INV2M :: nat where "INV2M \<equiv> 0x3a"
abbreviation (input) FLOORDIVC :: nat where "FLOORDIVC \<equiv> 0x3b"
abbreviation (input) OPEN :: nat where "OPEN \<equiv> 0xa5"
abbreviation (input) MULS :: nat where "MULS \<equiv> 0xa6"
abbreviation (input) MULRS :: nat where "MULRS \<equiv> 0xa7"
abbreviation (input) DOTPRODS :: nat where "DOTPRODS \<equiv> 0xa8"
abbreviation (input) TRUNC_PR :: nat where "TRUNC_PR \<equiv> 0xa9"
abbreviation (input) MATMULS :: nat where "MATMULS \<equiv> 0xaa"
abbreviation (input) MATMULSM :: nat where "MATMULSM \<equiv> 0xab"
abbreviation (input) CONV2DS :: nat where "CONV2DS \<equiv> 0xac"
abbreviation (input) CHECK :: nat where "CHECK \<equiv> 0xaf"
abbreviation (input) PRIVATEOUTPUT :: nat where "PRIVATEOUTPUT \<equiv> 0xad"
abbreviation (input) SECSHUFFLE :: nat where "SECSHUFFLE \<equiv> 0xfa"
abbreviation (input) GENSECSHUFFLE :: nat where "GENSECSHUFFLE \<equiv> 0xfb"
abbreviation (input) APPLYSHUFFLE :: nat where "APPLYSHUFFLE \<equiv> 0xfc"
abbreviation (input) DELSHUFFLE :: nat where "DELSHUFFLE \<equiv> 0xfd"
abbreviation (input) INVPERM :: nat where "INVPERM \<equiv> 0xfe"
abbreviation (input) TRIPLE :: nat where "TRIPLE \<equiv> 0x50"
abbreviation (input) BIT :: nat where "BIT \<equiv> 0x51"
abbreviation (input) SQUARE :: nat where "SQUARE \<equiv> 0x52"
abbreviation (input) INV :: nat where "INV \<equiv> 0x53"
abbreviation (input) INPUTMASK :: nat where "INPUTMASK \<equiv> 0x56"
abbreviation (input) INPUTMASKREG :: nat where "INPUTMASKREG \<equiv> 0x5c"
abbreviation (input) PREP :: nat where "PREP \<equiv> 0x57"
abbreviation (input) DABIT :: nat where "DABIT \<equiv> 0x58"
abbreviation (input) EDABIT :: nat where "EDABIT \<equiv> 0x59"
abbreviation (input) SEDABIT :: nat where "SEDABIT \<equiv> 0x5a"
abbreviation (input) RANDOMS :: nat where "RANDOMS \<equiv> 0x5b"
abbreviation (input) RANDOMFULLS :: nat where "RANDOMFULLS \<equiv> 0x5d"
abbreviation (input) INPUT :: nat where "INPUT \<equiv> 0x60"
abbreviation (input) INPUTFIX :: nat where "INPUTFIX \<equiv> 0xf0"
abbreviation (input) INPUTFLOAT :: nat where "INPUTFLOAT \<equiv> 0xf1"
abbreviation (input) INPUTMIXED :: nat where "INPUTMIXED \<equiv> 0xf2"
abbreviation (input) INPUTMIXEDREG :: nat where "INPUTMIXEDREG \<equiv> 0xf3"
abbreviation (input) RAWINPUT :: nat where "RAWINPUT \<equiv> 0xf4"
abbreviation (input) INPUTPERSONAL :: nat where "INPUTPERSONAL \<equiv> 0xf5"
abbreviation (input) SENDPERSONAL :: nat where "SENDPERSONAL \<equiv> 0xf6"
abbreviation (input) STARTINPUT :: nat where "STARTINPUT \<equiv> 0x61"
abbreviation (input) STOPINPUT :: nat where "STOPINPUT \<equiv> 0x62"
abbreviation (input) READSOCKETC :: nat where "READSOCKETC \<equiv> 0x63"
abbreviation (input) READSOCKETS :: nat where "READSOCKETS \<equiv> 0x64"
abbreviation (input) WRITESOCKETC :: nat where "WRITESOCKETC \<equiv> 0x65"
abbreviation (input) WRITESOCKETS :: nat where "WRITESOCKETS \<equiv> 0x66"
abbreviation (input) READSOCKETINT :: nat where "READSOCKETINT \<equiv> 0x69"
abbreviation (input) WRITESOCKETINT :: nat where "WRITESOCKETINT \<equiv> 0x6a"
abbreviation (input) WRITESOCKETSHARE :: nat where "WRITESOCKETSHARE \<equiv> 0x6b"
abbreviation (input) LISTEN :: nat where "LISTEN \<equiv> 0x6c"
abbreviation (input) ACCEPTCLIENTCONNECTION :: nat where "ACCEPTCLIENTCONNECTION \<equiv> 0x6d"
abbreviation (input) CLOSECLIENTCONNECTION :: nat where "CLOSECLIENTCONNECTION \<equiv> 0x6e"
abbreviation (input) INITCLIENTCONNECTION :: nat where "INITCLIENTCONNECTION \<equiv> 0x6f"
abbreviation (input) ANDC :: nat where "ANDC \<equiv> 0x70"
abbreviation (input) XORC :: nat where "XORC \<equiv> 0x71"
abbreviation (input) ORC :: nat where "ORC \<equiv> 0x72"
abbreviation (input) ANDCI :: nat where "ANDCI \<equiv> 0x73"
abbreviation (input) XORCI :: nat where "XORCI \<equiv> 0x74"
abbreviation (input) ORCI :: nat where "ORCI \<equiv> 0x75"
abbreviation (input) NOTC :: nat where "NOTC \<equiv> 0x76"
abbreviation (input) SHLC :: nat where "SHLC \<equiv> 0x80"
abbreviation (input) SHRC :: nat where "SHRC \<equiv> 0x81"
abbreviation (input) SHLCI :: nat where "SHLCI \<equiv> 0x82"
abbreviation (input) SHRCI :: nat where "SHRCI \<equiv> 0x83"
abbreviation (input) SHRSI :: nat where "SHRSI \<equiv> 0x84"
abbreviation (input) JMP :: nat where "JMP \<equiv> 0x90"
abbreviation (input) JMPNZ :: nat where "JMPNZ \<equiv> 0x91"
abbreviation (input) JMPEQZ :: nat where "JMPEQZ \<equiv> 0x92"
abbreviation (input) EQZC :: nat where "EQZC \<equiv> 0x93"
abbreviation (input) LTZC :: nat where "LTZC \<equiv> 0x94"
abbreviation (input) LTC :: nat where "LTC \<equiv> 0x95"
abbreviation (input) GTC :: nat where "GTC \<equiv> 0x96"
abbreviation (input) EQC :: nat where "EQC \<equiv> 0x97"
abbreviation (input) JMPI :: nat where "JMPI \<equiv> 0x98"
abbreviation (input) BITDECINT :: nat where "BITDECINT \<equiv> 0x99"
abbreviation (input) LDINT :: nat where "LDINT \<equiv> 0x9a"
abbreviation (input) ADDINT :: nat where "ADDINT \<equiv> 0x9b"
abbreviation (input) SUBINT :: nat where "SUBINT \<equiv> 0x9c"
abbreviation (input) MULINT :: nat where "MULINT \<equiv> 0x9d"
abbreviation (input) DIVINT :: nat where "DIVINT \<equiv> 0x9e"
abbreviation (input) PRINTINT :: nat where "PRINTINT \<equiv> 0x9f"
abbreviation (input) INCINT :: nat where "INCINT \<equiv> 0xd1"
abbreviation (input) SHUFFLE :: nat where "SHUFFLE \<equiv> 0xd2"
abbreviation (input) CONVINT :: nat where "CONVINT \<equiv> 0xc0"
abbreviation (input) CONVMODP :: nat where "CONVMODP \<equiv> 0xc1"
abbreviation (input) PRINTMEM :: nat where "PRINTMEM \<equiv> 0xb0"
abbreviation (input) PRINTREG :: nat where "PRINTREG \<equiv> 0xb1"
abbreviation (input) RAND :: nat where "RAND \<equiv> 0xb2"
abbreviation (input) PRINTREGPLAIN :: nat where "PRINTREGPLAIN \<equiv> 0xb3"
abbreviation (input) PRINTREGPLAINS :: nat where "PRINTREGPLAINS \<equiv> 0xea"
abbreviation (input) PRINTCHR :: nat where "PRINTCHR \<equiv> 0xb4"
abbreviation (input) PRINTSTR :: nat where "PRINTSTR \<equiv> 0xb5"
abbreviation (input) PUBINPUT :: nat where "PUBINPUT \<equiv> 0xb6"
abbreviation (input) RAWOUTPUT :: nat where "RAWOUTPUT \<equiv> 0xb7"
abbreviation (input) STARTPRIVATEOUTPUT :: nat where "STARTPRIVATEOUTPUT \<equiv> 0xb8"
abbreviation (input) STOPPRIVATEOUTPUT :: nat where "STOPPRIVATEOUTPUT \<equiv> 0xb9"
abbreviation (input) PRINTCHRINT :: nat where "PRINTCHRINT \<equiv> 0xba"
abbreviation (input) PRINTSTRINT :: nat where "PRINTSTRINT \<equiv> 0xbb"
abbreviation (input) PRINTFLOATPLAIN :: nat where "PRINTFLOATPLAIN \<equiv> 0xbc"
abbreviation (input) WRITEFILESHARE :: nat where "WRITEFILESHARE \<equiv> 0xbd"
abbreviation (input) READFILESHARE :: nat where "READFILESHARE \<equiv> 0xbe"
abbreviation (input) CONDPRINTSTR :: nat where "CONDPRINTSTR \<equiv> 0xbf"
abbreviation (input) PRINTFLOATPREC :: nat where "PRINTFLOATPREC \<equiv> 0xe0"
abbreviation (input) CONDPRINTPLAIN :: nat where "CONDPRINTPLAIN \<equiv> 0xe1"
abbreviation (input) INTOUTPUT :: nat where "INTOUTPUT \<equiv> 0xe6"
abbreviation (input) FLOATOUTPUT :: nat where "FLOATOUTPUT \<equiv> 0xe7"
abbreviation (input) FIXINPUT :: nat where "FIXINPUT \<equiv> 0xe8"
abbreviation (input) GLDI :: nat where "GLDI \<equiv> 0x101"
abbreviation (input) GLDSI :: nat where "GLDSI \<equiv> 0x102"
abbreviation (input) GLDMC :: nat where "GLDMC \<equiv> 0x103"
abbreviation (input) GLDMS :: nat where "GLDMS \<equiv> 0x104"
abbreviation (input) GSTMC :: nat where "GSTMC \<equiv> 0x105"
abbreviation (input) GSTMS :: nat where "GSTMS \<equiv> 0x106"
abbreviation (input) GLDMCI :: nat where "GLDMCI \<equiv> 0x107"
abbreviation (input) GLDMSI :: nat where "GLDMSI \<equiv> 0x108"
abbreviation (input) GSTMCI :: nat where "GSTMCI \<equiv> 0x109"
abbreviation (input) GSTMSI :: nat where "GSTMSI \<equiv> 0x10a"
abbreviation (input) GMOVC :: nat where "GMOVC \<equiv> 0x10b"
abbreviation (input) GMOVS :: nat where "GMOVS \<equiv> 0x10c"
abbreviation (input) GPROTECTMEMS :: nat where "GPROTECTMEMS \<equiv> 0x10d"
abbreviation (input) GPROTECTMEMC :: nat where "GPROTECTMEMC \<equiv> 0x10e"
abbreviation (input) GREQBL :: nat where "GREQBL \<equiv> 0x112"
abbreviation (input) GUSE_PREP :: nat where "GUSE_PREP \<equiv> 0x11c"
abbreviation (input) GADDC :: nat where "GADDC \<equiv> 0x120"
abbreviation (input) GADDS :: nat where "GADDS \<equiv> 0x121"
abbreviation (input) GADDM :: nat where "GADDM \<equiv> 0x122"
abbreviation (input) GADDCI :: nat where "GADDCI \<equiv> 0x123"
abbreviation (input) GADDSI :: nat where "GADDSI \<equiv> 0x124"
abbreviation (input) GSUBC :: nat where "GSUBC \<equiv> 0x125"
abbreviation (input) GSUBS :: nat where "GSUBS \<equiv> 0x126"
abbreviation (input) GSUBML :: nat where "GSUBML \<equiv> 0x127"
abbreviation (input) GSUBMR :: nat where "GSUBMR \<equiv> 0x128"
abbreviation (input) GSUBCI :: nat where "GSUBCI \<equiv> 0x129"
abbreviation (input) GSUBSI :: nat where "GSUBSI \<equiv> 0x12a"
abbreviation (input) GSUBCFI :: nat where "GSUBCFI \<equiv> 0x12b"
abbreviation (input) GSUBSFI :: nat where "GSUBSFI \<equiv> 0x12c"
abbreviation (input) GMULC :: nat where "GMULC \<equiv> 0x130"
abbreviation (input) GMULM :: nat where "GMULM \<equiv> 0x131"
abbreviation (input) GMULCI :: nat where "GMULCI \<equiv> 0x132"
abbreviation (input) GMULSI :: nat where "GMULSI \<equiv> 0x133"
abbreviation (input) GDIVC :: nat where "GDIVC \<equiv> 0x134"
abbreviation (input) GDIVCI :: nat where "GDIVCI \<equiv> 0x135"
abbreviation (input) GMULBITC :: nat where "GMULBITC \<equiv> 0x136"
abbreviation (input) GMULBITM :: nat where "GMULBITM \<equiv> 0x137"
abbreviation (input) GOPEN :: nat where "GOPEN \<equiv> 0x1a5"
abbreviation (input) GMULS :: nat where "GMULS \<equiv> 0x1a6"
abbreviation (input) GMULRS :: nat where "GMULRS \<equiv> 0x1a7"
abbreviation (input) GDOTPRODS :: nat where "GDOTPRODS \<equiv> 0x1a8"
abbreviation (input) GSECSHUFFLE :: nat where "GSECSHUFFLE \<equiv> 0x1fa"
abbreviation (input) GTRIPLE :: nat where "GTRIPLE \<equiv> 0x150"
abbreviation (input) GBIT :: nat where "GBIT \<equiv> 0x151"
abbreviation (input) GSQUARE :: nat where "GSQUARE \<equiv> 0x152"
abbreviation (input) GINV :: nat where "GINV \<equiv> 0x153"
abbreviation (input) GBITTRIPLE :: nat where "GBITTRIPLE \<equiv> 0x154"
abbreviation (input) GBITGF2NTRIPLE :: nat where "GBITGF2NTRIPLE \<equiv> 0x155"
abbreviation (input) GINPUTMASK :: nat where "GINPUTMASK \<equiv> 0x156"
abbreviation (input) GPREP :: nat where "GPREP \<equiv> 0x157"
abbreviation (input) GINPUT :: nat where "GINPUT \<equiv> 0x160"
abbreviation (input) GSTARTINPUT :: nat where "GSTARTINPUT \<equiv> 0x161"
abbreviation (input) GSTOPINPUT :: nat where "GSTOPINPUT \<equiv> 0x162"
abbreviation (input) GREADSOCKETS :: nat where "GREADSOCKETS \<equiv> 0x164"
abbreviation (input) GWRITESOCKETS :: nat where "GWRITESOCKETS \<equiv> 0x166"
abbreviation (input) GRAWINPUT :: nat where "GRAWINPUT \<equiv> 0x1f4"
abbreviation (input) GANDC :: nat where "GANDC \<equiv> 0x170"
abbreviation (input) GXORC :: nat where "GXORC \<equiv> 0x171"
abbreviation (input) GORC :: nat where "GORC \<equiv> 0x172"
abbreviation (input) GANDCI :: nat where "GANDCI \<equiv> 0x173"
abbreviation (input) GXORCI :: nat where "GXORCI \<equiv> 0x174"
abbreviation (input) GORCI :: nat where "GORCI \<equiv> 0x175"
abbreviation (input) GNOTC :: nat where "GNOTC \<equiv> 0x176"
abbreviation (input) GSHLCI :: nat where "GSHLCI \<equiv> 0x182"
abbreviation (input) GSHRCI :: nat where "GSHRCI \<equiv> 0x183"
abbreviation (input) GSHRSI :: nat where "GSHRSI \<equiv> 0x184"
abbreviation (input) GBITDEC :: nat where "GBITDEC \<equiv> 0x18a"
abbreviation (input) GBITCOM :: nat where "GBITCOM \<equiv> 0x18b"
abbreviation (input) GCONVINT :: nat where "GCONVINT \<equiv> 0x1c0"
abbreviation (input) GCONVGF2N :: nat where "GCONVGF2N \<equiv> 0x1c1"
abbreviation (input) GPRINTMEM :: nat where "GPRINTMEM \<equiv> 0x1b0"
abbreviation (input) GPRINTREG :: nat where "GPRINTREG \<equiv> 0x1b1"
abbreviation (input) GPRINTREGPLAIN :: nat where "GPRINTREGPLAIN \<equiv> 0x1b3"
abbreviation (input) GPRINTREGPLAINS :: nat where "GPRINTREGPLAINS \<equiv> 0x1ea"
abbreviation (input) GRAWOUTPUT :: nat where "GRAWOUTPUT \<equiv> 0x1b7"
abbreviation (input) GSTARTPRIVATEOUTPUT :: nat where "GSTARTPRIVATEOUTPUT \<equiv> 0x1b8"
abbreviation (input) GSTOPPRIVATEOUTPUT :: nat where "GSTOPPRIVATEOUTPUT \<equiv> 0x1b9"
abbreviation (input) INITSECURESOCKET :: nat where "INITSECURESOCKET \<equiv> 0x1ba"
abbreviation (input) RESPSECURESOCKET :: nat where "RESPSECURESOCKET \<equiv> 0x1bb"
abbreviation (input) SECRET_WRITE :: nat where "SECRET_WRITE \<equiv> 0x200"
abbreviation (input) XORS :: nat where "XORS \<equiv> 0x200"
abbreviation (input) XORM :: nat where "XORM \<equiv> 0x201"
abbreviation (input) ANDRS :: nat where "ANDRS \<equiv> 0x202"
abbreviation (input) BITDECS :: nat where "BITDECS \<equiv> 0x203"
abbreviation (input) BITCOMS :: nat where "BITCOMS \<equiv> 0x204"
abbreviation (input) CONVSINT :: nat where "CONVSINT \<equiv> 0x205"
abbreviation (input) LDMSDI :: nat where "LDMSDI \<equiv> 0x206"
abbreviation (input) STMSDI :: nat where "STMSDI \<equiv> 0x207"
abbreviation (input) LDMSD :: nat where "LDMSD \<equiv> 0x208"
abbreviation (input) STMSD :: nat where "STMSD \<equiv> 0x209"
abbreviation (input) LDBITS :: nat where "LDBITS \<equiv> 0x20a"
abbreviation (input) ANDS :: nat where "ANDS \<equiv> 0x20b"
abbreviation (input) TRANS :: nat where "TRANS \<equiv> 0x20c"
abbreviation (input) BITB :: nat where "BITB \<equiv> 0x20d"
abbreviation (input) ANDM :: nat where "ANDM \<equiv> 0x20e"
abbreviation (input) NOTS :: nat where "NOTS \<equiv> 0x20f"
abbreviation (input) LDMSB :: nat where "LDMSB \<equiv> 0x240"
abbreviation (input) STMSB :: nat where "STMSB \<equiv> 0x241"
abbreviation (input) LDMSBI :: nat where "LDMSBI \<equiv> 0x242"
abbreviation (input) STMSBI :: nat where "STMSBI \<equiv> 0x243"
abbreviation (input) MOVSB :: nat where "MOVSB \<equiv> 0x244"
abbreviation (input) INPUTB :: nat where "INPUTB \<equiv> 0x246"
abbreviation (input) INPUTBVEC :: nat where "INPUTBVEC \<equiv> 0x247"
abbreviation (input) SPLIT :: nat where "SPLIT \<equiv> 0x248"
abbreviation (input) CONVCBIT2S :: nat where "CONVCBIT2S \<equiv> 0x249"
abbreviation (input) ANDRSVEC :: nat where "ANDRSVEC \<equiv> 0x24a"
abbreviation (input) CLEAR_WRITE :: nat where "CLEAR_WRITE \<equiv> 0x210"
abbreviation (input) XORCBI :: nat where "XORCBI \<equiv> 0x210"
abbreviation (input) BITDECC :: nat where "BITDECC \<equiv> 0x211"
abbreviation (input) NOTCB :: nat where "NOTCB \<equiv> 0x212"
abbreviation (input) CONVCINT :: nat where "CONVCINT \<equiv> 0x213"
abbreviation (input) REVEAL :: nat where "REVEAL \<equiv> 0x214"
abbreviation (input) STMSDCI :: nat where "STMSDCI \<equiv> 0x215"
abbreviation (input) LDMCB :: nat where "LDMCB \<equiv> 0x217"
abbreviation (input) STMCB :: nat where "STMCB \<equiv> 0x218"
abbreviation (input) XORCB :: nat where "XORCB \<equiv> 0x219"
abbreviation (input) ADDCB :: nat where "ADDCB \<equiv> 0x21a"
abbreviation (input) ADDCBI :: nat where "ADDCBI \<equiv> 0x21b"
abbreviation (input) MULCBI :: nat where "MULCBI \<equiv> 0x21c"
abbreviation (input) SHRCBI :: nat where "SHRCBI \<equiv> 0x21d"
abbreviation (input) SHLCBI :: nat where "SHLCBI \<equiv> 0x21e"
abbreviation (input) CONVCINTVEC :: nat where "CONVCINTVEC \<equiv> 0x21f"
abbreviation (input) LDMCBI :: nat where "LDMCBI \<equiv> 0x258"
abbreviation (input) STMCBI :: nat where "STMCBI \<equiv> 0x259"
abbreviation (input) PRINTREGSIGNED :: nat where "PRINTREGSIGNED \<equiv> 0x220"
abbreviation (input) PRINTREGB :: nat where "PRINTREGB \<equiv> 0x221"
abbreviation (input) PRINTREGPLAINB :: nat where "PRINTREGPLAINB \<equiv> 0x222"
abbreviation (input) PRINTFLOATPLAINB :: nat where "PRINTFLOATPLAINB \<equiv> 0x223"
abbreviation (input) CONDPRINTSTRB :: nat where "CONDPRINTSTRB \<equiv> 0x224"
abbreviation (input) CONVCBIT :: nat where "CONVCBIT \<equiv> 0x230"
abbreviation (input) CONVCBITVEC :: nat where "CONVCBITVEC \<equiv> 0x231"

end
