(* ===== verification/Bytecode.thy ===== *)
theory Bytecode
  imports Opcodes
begin

section \<open>Bytecode (Tools/parse.h, Processor/Instruction, Processor/Program)\<close>

text \<open>
  A tape is a sequence of instructions, each a word with opcode and vector size and operands whose number and kind depend
  on the opcode. The stream is the list of bytes left. A read past its end sets the failure bit, the values it leaves are
  indeterminate, and some exception follows, at the latest in \<open>Program::parse\<close>: this is \<open>parse_failure\<close>.
\<close>

subsection \<open>Numbers\<close>

definition read_octets :: "nat \<Rightarrow> octet list \<Rightarrow> (octet list \<times> octet list) result" where
  "read_octets n s = (if length s < n then Inl parse_failure else Inr (take n s, drop n s))"

definition get_int :: "octet list \<Rightarrow> (32 word \<times> octet list) result" where
  "get_int s = bind_result (read_octets 4 s) (\<lambda>(bs, s). Inr (of_nat (le_val (rev bs)), s))"

definition get_long :: "octet list \<Rightarrow> (64 word \<times> octet list) result" where
  "get_long s = bind_result (read_octets 8 s) (\<lambda>(bs, s). Inr (of_nat (le_val (rev bs)), s))"

fun get_ints :: "nat \<Rightarrow> octet list \<Rightarrow> (32 word list \<times> octet list) result" where
  "get_ints 0 s = Inr ([], s)"
| "get_ints (Suc k) s = bind_result (get_int s) (\<lambda>(w, s). bind_result (get_ints k s) (\<lambda>(ws, s). Inr (w # ws, s)))"

text \<open>A negative size makes \<open>resize\<close> throw.\<close>

definition get_vector :: "32 word \<Rightarrow> octet list \<Rightarrow> (32 word list \<times> octet list) result" where
  "get_vector m s = (if sint m < 0 then Inl length_error else get_ints (unat m) s)"

definition get_string :: "octet list \<Rightarrow> (octet list \<times> octet list) result" where
  "get_string s = bind_result (get_int s) (\<lambda>(n, s). read_octets (unat n) s)"

text \<open>Registers read without a change of the byte order.\<close>

definition get_raw :: "nat \<Rightarrow> octet list \<Rightarrow> (32 word list \<times> octet list) result" where
  "get_raw k s = bind_result (read_octets (4 * k) s) (\<lambda>(bs, s). Inr (map (\<lambda>j. of_nat (le_val (take 4 (drop (4 * j) bs)))) [0..<k], s))"

subsection \<open>Instructions\<close>

record instr =
  in_opcode :: nat
  in_size :: "32 word"
  in_r :: "32 word list"
  in_n :: "64 word"
  in_start :: "32 word list"
  in_str :: "octet list"

definition instr_new :: instr where
  "instr_new = \<lparr>in_opcode = 0, in_size = 0, in_r = [0, 0, 0, 0], in_n = 0, in_start = [], in_str = []\<rparr>"

text \<open>
  The statements that \<open>parse_operands\<close> is made of: \<open>Ints k\<close> is \<open>get_ints(r, s, k)\<close>, \<open>Reg i\<close> is \<open>r[i] = get_int(s)\<close>,
  \<open>IntN\<close> and \<open>LongN\<close> assign to \<open>n\<close>, \<open>VarArgs k\<close> is \<open>num_var_args = get_int(s) - k\<close>, \<open>Vector\<close> and \<open>VectorVar\<close> are \<open>get_vector\<close>
  with a constant and with this number, \<open>RawRegs\<close> is \<open>s.read((char*)r, sizeof(r))\<close>.
\<close>

datatype operand =
    Ints nat
  | Reg nat
  | IntN
  | LongN
  | VarArgs int
  | Vector nat
  | VectorVar
  | RawRegs
  | Str
  | Throws string
  | ReqBl
  | GreqBl
  | Active

text \<open>What the machine and the binary field contribute: \<open>reqbl\<close>, \<open>active\<close>, the degree of the field.\<close>

record vm_hooks =
  hk_reqbl :: "int \<Rightarrow> unit result"
  hk_active :: "int \<Rightarrow> unit result"
  hk_degree :: int

definition int_of_n :: "64 word \<Rightarrow> int" where
  "int_of_n n = sint (ucast n :: 32 word)"

fun parse_operand :: "vm_hooks \<Rightarrow> operand \<Rightarrow> 32 word \<times> instr \<times> octet list \<Rightarrow> (32 word \<times> instr \<times> octet list) result" where
  "parse_operand hk (Ints k) (v, i, s) = bind_result (get_ints k s) (\<lambda>(ws, s). Inr (v, i\<lparr>in_r := ws @ drop k (in_r i)\<rparr>, s))"
| "parse_operand hk (Reg j) (v, i, s) = bind_result (get_int s) (\<lambda>(w, s). Inr (v, i\<lparr>in_r := (in_r i)[j := w]\<rparr>, s))"
| "parse_operand hk IntN (v, i, s) = bind_result (get_int s) (\<lambda>(w, s). Inr (v, i\<lparr>in_n := scast w\<rparr>, s))"
| "parse_operand hk LongN (v, i, s) = bind_result (get_long s) (\<lambda>(w, s). Inr (v, i\<lparr>in_n := w\<rparr>, s))"
| "parse_operand hk (VarArgs k) (v, i, s) = bind_result (get_int s) (\<lambda>(w, s). Inr (w - of_int k, i, s))"
| "parse_operand hk (Vector m) (v, i, s) = bind_result (get_vector (of_nat m) s) (\<lambda>(ws, s). Inr (v, i\<lparr>in_start := ws\<rparr>, s))"
| "parse_operand hk VectorVar (v, i, s) = bind_result (get_vector v s) (\<lambda>(ws, s). Inr (v, i\<lparr>in_start := ws\<rparr>, s))"
| "parse_operand hk RawRegs (v, i, s) = bind_result (get_raw 4 s) (\<lambda>(ws, s). Inr (v, i\<lparr>in_r := ws\<rparr>, s))"
| "parse_operand hk Str (v, i, s) = bind_result (get_string s) (\<lambda>(bs, s). Inr (v, i\<lparr>in_str := bs\<rparr>, s))"
| "parse_operand hk (Throws msg) (v, i, s) = Inl (runtime_error msg)"
| "parse_operand hk ReqBl (v, i, s) = bind_result (hk_reqbl hk (int_of_n (in_n i))) (\<lambda>_. Inr (v, i, s))"
| "parse_operand hk GreqBl (v, i, s) =
     (if in_n i \<noteq> 0 \<and> hk_degree hk < int_of_n (in_n i) then Inl (processor_error ''Tape requires prime of bit length'') else Inr (v, i, s))"
| "parse_operand hk Active (v, i, s) = bind_result (hk_active hk (int_of_n (in_n i))) (\<lambda>_. Inr (v, i, s))"

text \<open>The cases of the switch, in the order of the source.\<close>

definition operand_cases_1 :: "(nat list \<times> operand list) list" where
  "operand_cases_1 =
   [([ADDC, ADDCB, ADDS, ADDM, SUBC, SUBS, SUBML, SUBMR, MULC, MULM, DIVC, MODC, FLOORDIVC, TRIPLE, ANDC, XORC, ORC, SHLC,
     SHRC, GADDC, GADDS, GADDM, GSUBC, GSUBS, GSUBML, GSUBMR, GMULC, GMULM, GDIVC, GTRIPLE, GANDC, GXORC, GORC, LTC, GTC,
     EQC, ADDINT, SUBINT, MULINT, DIVINT, CONDPRINTPLAIN, INPUTMASKREG, ZIPS],
      [Ints 3]),
    ([LDMCI, LDMSI, STMCI, STMSI, LDMSBI, STMSBI, LDMCBI, STMCBI, MOVC, MOVS, MOVINT, LDMINTI, STMINTI, LEGENDREC, SQUARE,
     INV, GINV, CONVINT, GLDMCI, GLDMSI, GSTMCI, GSTMSI, GMOVC, GMOVS, GSQUARE, GNOTC, GCONVINT, GCONVGF2N, LTZC, EQZC,
     RAND, DABIT, SHUFFLE, ACCEPTCLIENTCONNECTION, PREFIXSUMS, CMDLINEARG],
      [Ints 2]),
    ([BIT, BITB, RANDOMFULLS, PRINTREGPLAIN, PRINTREGPLAINB, PRINTREGPLAINS, LDTN, LDARG, STARG, JMPI, GBIT, GPRINTREGPLAIN,
     GPRINTREGPLAINS, JOIN_TAPE, PUSHINT, POPINT, PUBINPUT, RAWOUTPUT, GRAWOUTPUT, PRINTINT, NPLAYERS, THRESHOLD, PLAYERID,
     LISTEN, CLOSECLIENTCONNECTION, CRASH, DELSHUFFLE],
      [Reg 0])]"

definition operand_cases_2 :: "(nat list \<times> operand list) list" where
  "operand_cases_2 =
   [([ADDCI, ADDCBI, ADDSI, SUBCI, SUBSI, SUBCFI, SUBSFI, MULCI, MULCBI, MULSI, DIVCI, MODCI, ANDCI, XORCI, XORCBI, ORCI,
     SHLCI, SHRCI, SHRSI, SHLCBI, SHRCBI, NOTC, CONVMODP, GADDCI, GADDSI, GSUBCI, GSUBSI, GSUBCFI, GSUBSFI, GMULCI, GMULSI,
     GDIVCI, GANDCI, GXORCI, GORCI, GSHLCI, GSHRCI, GSHRSI, DIGESTC, INPUTMASK, GINPUTMASK, SECSHUFFLE, GSECSHUFFLE],
      [Ints 2, IntN]),
    ([PICKS],
      [Ints 3, IntN]),
    ([USE, USE_INP, USE_EDABIT],
      [Ints 2, LongN]),
    ([STARTPRIVATEOUTPUT, GSTARTPRIVATEOUTPUT, STOPPRIVATEOUTPUT, GSTOPPRIVATEOUTPUT],
      [Throws ''two-stage private output not supported any more'']),
    ([USE_MATMUL],
      [Ints 3, LongN]),
    ([LDI, LDSI, JMPNZ, JMPEQZ, GLDI, GLDSI, PRINTREG, PRINTREGB, GPRINTREG, LDINT, INV2M, CONDPRINTSTR, CONDPRINTSTRB,
     RANDOMS, GENSECSHUFFLE, CALL_ARG],
      [Reg 0, IntN]),
    ([LDMC, LDMS, STMC, STMS, LDMSB, STMSB, LDMCB, STMCB, LDMINT, STMINT, GLDMC, GLDMS, GSTMC, GSTMS],
      [Reg 0, LongN]),
    ([PRINTSTR, PRINTCHR, JMP, START, STOP, PRINTFLOATPREC],
      [IntN]),
    ([TIME, STARTGRIND, STOPGRIND, CHECK],
      []),
    ([PRINTFLOATPLAIN, PRINTFLOATPLAINB, APPLYSHUFFLE],
      [Vector 5]),
    ([INCINT],
      [Reg 0, Reg 1, IntN, Vector 2]),
    ([INVPERM],
      [Vector 2])]"

definition operand_cases_3 :: "(nat list \<times> operand list) list" where
  "operand_cases_3 =
   [([MULS, GMULS, MULRS, GMULRS, DOTPRODS, GDOTPRODS, INPUT, GINPUT, INPUTFIX, INPUTFLOAT, INPUTMIXED, INPUTMIXEDREG,
     RAWINPUT, GRAWINPUT, INPUTPERSONAL, SENDPERSONAL, PRIVATEOUTPUT, TRUNC_PR, RUN_TAPE, CONV2DS, MATMULS],
      [VarArgs 0, VectorVar]),
    ([MATMULSM],
      [VarArgs 0, VectorVar]),
    ([READFILESHARE, CALL_TAPE],
      [VarArgs 2, Reg 0, Reg 1, VectorVar]),
    ([READSOCKETC, READSOCKETS, READSOCKETINT],
      [VarArgs 2, Reg 0, IntN, VectorVar]),
    ([WRITESOCKETC, WRITESOCKETS, WRITESOCKETSHARE, WRITESOCKETINT],
      [VarArgs 3, Reg 0, Reg 1, IntN, VectorVar]),
    ([INITCLIENTCONNECTION],
      [Ints 3, Str]),
    ([INITSECURESOCKET, RESPSECURESOCKET],
      [Throws ''VM-controlled encryption not supported any more'']),
    ([STARTINPUT, GSTARTINPUT, STOPINPUT, GSTOPINPUT],
      [Throws ''two-stage input not supported any more'']),
    ([PRINTMEM, GPRINTMEM],
      [Throws ''memory printing not supported any more'']),
    ([PRINTCHRINT, PRINTSTRINT],
      [Throws ''run-time printing not supported any more'']),
    ([PROTECTMEMS, PROTECTMEMC, GPROTECTMEMS, GPROTECTMEMC, PROTECTMEMINT],
      [Throws ''memory protection not supported any more'']),
    ([GBITTRIPLE, GBITGF2NTRIPLE, GMULBITC, GMULBITM],
      [Throws ''GF(2^n) bit operations not supported any more'']),
    ([GBITDEC, GBITCOM],
      [VarArgs 2, Reg 0, IntN, VectorVar]),
    ([BITDECINT, EDABIT, SEDABIT, WRITEFILESHARE, CONCATS],
      [VarArgs 1, Reg 0, VectorVar]),
    ([PREP, GPREP, CISC],
      [VarArgs 1, RawRegs, VectorVar]),
    ([USE_PREP, GUSE_PREP],
      [RawRegs, LongN]),
    ([REQBL],
      [IntN, ReqBl]),
    ([GREQBL],
      [IntN, GreqBl]),
    ([ACTIVE],
      [IntN, Active]),
    ([XORM, ANDM, XORCB, FIXINPUT],
      [IntN, Ints 3]),
    ([LDBITS],
      [Ints 2, IntN])]"

definition operand_cases_4 :: "(nat list \<times> operand list) list" where
  "operand_cases_4 =
   [([BITDECS, BITCOMS, BITDECC, CONVCINTVEC],
      [VarArgs 1, Ints 1, VectorVar]),
    ([CONVCINT, CONVCBIT],
      [Ints 2]),
    ([CONVSINT, CONVCBITVEC, CONVCBIT2S, NOTS, NOTCB, MOVSB],
      [IntN, Ints 2]),
    ([LDMSDI, STMSDI, LDMSD, STMSD, STMSDCI, XORS, ANDRS, ANDRSVEC, ANDS, INPUTB, INPUTBVEC, REVEAL],
      [VarArgs 0, VectorVar]),
    ([PRINTREGSIGNED, INTOUTPUT],
      [IntN, Ints 1]),
    ([FLOATOUTPUT],
      [IntN, Vector 4]),
    ([OPEN, GOPEN, TRANS],
      [VarArgs 1, IntN, VectorVar]),
    ([SPLIT],
      [VarArgs 2, IntN, Ints 1, VectorVar])]"

definition operand_table :: "(nat list \<times> operand list) list" where
  "operand_table = operand_cases_1 @ operand_cases_2 @ operand_cases_3 @ operand_cases_4"

definition operand_format :: "nat \<Rightarrow> operand list option" where
  "operand_format opcode = map_option snd (List.find (\<lambda>(labels, _). opcode \<in> set labels) operand_table)"

definition parse_operands :: "vm_hooks \<Rightarrow> instr \<Rightarrow> octet list \<Rightarrow> (instr \<times> octet list) result" where
  "parse_operands hk i s =
     (case operand_format (in_opcode i) of
        None \<Rightarrow> Inl (processor_error ''Invalid instruction'')
      | Some ops \<Rightarrow> bind_result (foldM_result (parse_operand hk) ops (0, i, s)) (\<lambda>(_, i, s). Inr (i, s)))"

text \<open>\<open>BaseInstruction::parse\<close>, on the object of the previous instruction.\<close>

definition parse_instr :: "vm_hooks \<Rightarrow> instr \<Rightarrow> octet list \<Rightarrow> (instr \<times> octet list) result" where
  "parse_instr hk prev s =
     bind_result (get_long s) (\<lambda>(code, s).
       let size = ucast (drop_bit 10 code) :: 32 word;
           i = prev\<lparr>in_n := 0, in_start := [], in_r := [0, 0, 0, 0], in_size := if size = 0 then 1 else size,
                   in_opcode := unat (take_bit 10 code)\<rparr>
       in parse_operands hk i s)"


lemma get_int_length: "get_int s = Inr (w, s') \<Longrightarrow> length s = length s' + 4"
  by (auto simp: get_int_def read_octets_def bind_result_Inr_iff split: if_splits)

lemma get_long_length: "get_long s = Inr (w, s') \<Longrightarrow> length s = length s' + 8"
  by (auto simp: get_long_def read_octets_def bind_result_Inr_iff split: if_splits)

lemma get_ints_length: "get_ints k s = Inr (ws, s') \<Longrightarrow> length s' \<le> length s"
  by (induction k arbitrary: s ws s') (auto simp: bind_result_Inr_iff dest!: get_int_length, fastforce)

lemma parse_operand_length: "parse_operand hk op (v, i, s) = Inr (v', i', s') \<Longrightarrow> length s' \<le> length s"
  by (cases op) (auto simp: bind_result_Inr_iff get_vector_def get_string_def get_raw_def read_octets_def
      dest!: get_int_length get_long_length get_ints_length split: if_splits)

lemma parse_operands_length:
  assumes "parse_operands hk i s = Inr (i', s')"
  shows "length s' \<le> length s"
proof -
  have "foldM_result (parse_operand hk) ops (v, j, t) = Inr (v', j', t') \<Longrightarrow> length t' \<le> length t" for ops v j t v' j' t'
  proof (induction ops arbitrary: v j t)
    case (Cons op ops)
    then obtain v1 j1 t1 where 1: "parse_operand hk op (v, j, t) = Inr (v1, j1, t1)" "foldM_result (parse_operand hk) ops (v1, j1, t1) = Inr (v', j', t')"
      by (auto simp: bind_result_Inr_iff)
    show ?case using Cons.IH [OF 1(2)] parse_operand_length [OF 1(1)] by simp
  qed simp
  then show ?thesis using assms by (auto simp: parse_operands_def bind_result_Inr_iff split: option.splits)
qed

lemma parse_instr_length: "parse_instr hk prev s = Inr (i, s') \<Longrightarrow> length s' < length s"
  by (auto simp: parse_instr_def bind_result_Inr_iff Let_def dest!: get_long_length parse_operands_length)

text \<open>The loop of \<open>Program::parse\<close>.\<close>

function parse_instrs :: "vm_hooks \<Rightarrow> instr \<Rightarrow> octet list \<Rightarrow> instr list result" where
  "parse_instrs hk prev s =
     (if s = [] then Inr []
      else case parse_instr hk prev s of
        Inl e \<Rightarrow> Inl e
      | Inr (i, s) \<Rightarrow> bind_result (parse_instrs hk i s) (\<lambda>is. Inr (i # is)))"
  by pat_completeness auto

termination
  by (relation "measure (\<lambda>(hk, prev, s). length s)") (auto dest: parse_instr_length)

declare parse_instrs.simps [simp del]

end
