(* ===== verification/DataUsage.thy ===== *)
theory DataUsage
  imports Bytecode "HOL-Library.AList"
begin

section \<open>Preprocessing a tape uses (Processor/DataPositions, Instruction::get_offline_data_usage)\<close>

text \<open>
  A tape announces how much preprocessing of every kind it needs, and the online phase counts what it takes. The counters are
  \<open>long long\<close>, whose sums wrap around here. A \<open>map\<close> is an association list with distinct keys.
\<close>

subsection \<open>Counters\<close>

abbreviation (input) DATA_INT :: nat where "DATA_INT \<equiv> 0"
abbreviation (input) DATA_GF2N :: nat where "DATA_GF2N \<equiv> 1"
abbreviation (input) N_DATA_FIELD_TYPE :: nat where "N_DATA_FIELD_TYPE \<equiv> 3"
abbreviation (input) N_DTYPE :: nat where "N_DTYPE \<equiv> 8"

type_synonym data_tag = "32 word list"

text \<open>\<open>strncpy\<close> of twelve characters: those up to the first zero, then zeros.\<close>

definition data_tag :: "32 word list \<Rightarrow> data_tag" where
  "data_tag r =
     (let cs = takeWhile (\<lambda>c. c \<noteq> 0) (concat (map (\<lambda>w. le_bytes 4 (unat w)) (take 3 r)));
          t = cs @ replicate (12 - length cs) 0
      in map (\<lambda>j. of_nat (le_val (take 4 (drop (4 * j) t)))) [0..<3])"

record data_positions =
  dp_files :: "64 word list list"
  dp_inputs :: "64 word list list"
  dp_extended :: "(data_tag \<times> 64 word) list list"
  dp_edabits :: "((bool \<times> 32 word) \<times> 64 word) list"
  dp_matmuls :: "(32 word list \<times> 64 word) list"

definition dp_set_num_players :: "nat \<Rightarrow> data_positions \<Rightarrow> data_positions" where
  "dp_set_num_players n dp =
     dp\<lparr>dp_files := replicate N_DATA_FIELD_TYPE (replicate N_DTYPE 0),
        dp_inputs := vec_resize (replicate N_DATA_FIELD_TYPE 0) n (dp_inputs dp)\<rparr>"

definition dp_new :: "nat \<Rightarrow> data_positions" where
  "dp_new n = dp_set_num_players n
     \<lparr>dp_files = [], dp_inputs = [], dp_extended = replicate N_DATA_FIELD_TYPE [], dp_edabits = [], dp_matmuls = []\<rparr>"

definition dp_reset :: "data_positions \<Rightarrow> data_positions" where
  "dp_reset dp = dp_new (length (dp_inputs dp))"

text \<open>\<open>m[k]\<close> of a map makes an entry with the value 0 when there is none.\<close>

definition entry :: "('k \<times> 64 word) list \<Rightarrow> 'k \<Rightarrow> 64 word" where
  "entry m k = (case map_of m k of None \<Rightarrow> 0 | Some v \<Rightarrow> v)"

definition upd_entry :: "(64 word \<Rightarrow> 64 word) \<Rightarrow> 'k \<Rightarrow> ('k \<times> 64 word) list \<Rightarrow> ('k \<times> 64 word) list" where
  "upd_entry f k m = AList.update k (f (entry m k)) m"

definition dp_count :: "nat \<Rightarrow> data_tag \<Rightarrow> 32 word \<Rightarrow> data_positions \<Rightarrow> data_positions" where
  "dp_count type tag n dp =
     dp\<lparr>dp_extended := (dp_extended dp)[type := upd_entry (\<lambda>v. v + scast n) tag (dp_extended dp ! type)]\<rparr>"

definition dp_count_edabit :: "bool \<Rightarrow> 32 word \<Rightarrow> data_positions \<Rightarrow> data_positions" where
  "dp_count_edabit strict n_bits dp = dp\<lparr>dp_edabits := upd_entry (\<lambda>v. v + 1) (strict, n_bits) (dp_edabits dp)\<rparr>"

subsection \<open>Sums and differences\<close>

text \<open>\<open>increase\<close> and \<open>operator-=\<close> are the same loops with \<open>+=\<close> and \<open>-=\<close>. Neither touches \<open>matmuls\<close>.\<close>

definition combine_map :: "(64 word \<Rightarrow> 64 word \<Rightarrow> 64 word) \<Rightarrow> ('k \<times> 64 word) list \<Rightarrow> ('k \<times> 64 word) list \<Rightarrow> ('k \<times> 64 word) list" where
  "combine_map f delta m = fold (\<lambda>(k, d). upd_entry (\<lambda>v. f v d) k) delta m"

definition combine_inputs :: "(64 word \<Rightarrow> 64 word \<Rightarrow> 64 word) \<Rightarrow> 64 word list list \<Rightarrow> 64 word list list \<Rightarrow> 64 word list list" where
  "combine_inputs f delta xs =
     (let xs = vec_resize (replicate N_DATA_FIELD_TYPE 0) (max (length xs) (length delta)) xs
      in map2 (map2 f) xs delta @ drop (length delta) xs)"

definition dp_combine :: "(64 word \<Rightarrow> 64 word \<Rightarrow> 64 word) \<Rightarrow> data_positions \<Rightarrow> data_positions \<Rightarrow> data_positions" where
  "dp_combine f delta dp =
     dp\<lparr>dp_files := map2 (map2 f) (dp_files dp) (dp_files delta),
        dp_inputs := combine_inputs f (dp_inputs delta) (dp_inputs dp),
        dp_extended := map2 (combine_map f) (dp_extended delta) (dp_extended dp),
        dp_edabits := combine_map f (dp_edabits delta) (dp_edabits dp)\<rparr>"

definition dp_increase :: "data_positions \<Rightarrow> data_positions \<Rightarrow> data_positions" where
  "dp_increase delta = dp_combine (+) delta"

definition dp_decrease :: "data_positions \<Rightarrow> data_positions \<Rightarrow> data_positions" where
  "dp_decrease delta = dp_combine (-) delta"

definition dp_minus :: "data_positions \<Rightarrow> data_positions \<Rightarrow> data_positions" where
  "dp_minus dp other = dp_decrease other dp"

definition dp_plus :: "data_positions \<Rightarrow> data_positions \<Rightarrow> data_positions" where
  "dp_plus dp other = dp_increase other dp"

subsection \<open>Tests\<close>

definition dp_empty :: "data_positions \<Rightarrow> bool" where
  "dp_empty dp \<longleftrightarrow>
     (\<forall>x\<in>set (dp_files dp). \<forall>y\<in>set x. y = 0) \<and> (\<forall>x\<in>set (dp_inputs dp). \<forall>y\<in>set x. y = 0) \<and>
     (\<forall>x\<in>set (dp_extended dp). x = []) \<and> dp_edabits dp = []"

definition more_entries :: "('k \<times> 64 word) list \<Rightarrow> ('k \<times> 64 word) list \<Rightarrow> bool" where
  "more_entries m other \<longleftrightarrow> (\<exists>(k, v)\<in>set m. case map_of other k of None \<Rightarrow> True | Some w \<Rightarrow> w <s v)"

definition dp_any_more :: "data_positions \<Rightarrow> data_positions \<Rightarrow> bool" where
  "dp_any_more dp other \<longleftrightarrow>
     (\<exists>t\<in>{0..<N_DATA_FIELD_TYPE}.
        (\<exists>d\<in>{0..<N_DTYPE}. dp_files other ! t ! d <s dp_files dp ! t ! d) \<or>
        (\<exists>j\<in>{0..<min (length (dp_inputs dp)) (length (dp_inputs other))}. dp_inputs other ! j ! t <s dp_inputs dp ! j ! t) \<or>
        more_entries (dp_extended dp ! t) (dp_extended other ! t)) \<or>
     (\<exists>(k, v)\<in>set (dp_edabits dp). (case map_of (dp_edabits other) k of None \<Rightarrow> True | Some w \<Rightarrow> w <s v) \<and> 0 <s v)"

definition dp_total_edabits :: "32 word \<Rightarrow> data_positions \<Rightarrow> 64 word" where
  "dp_total_edabits n_bits dp = entry (dp_edabits dp) (False, n_bits) + entry (dp_edabits dp) (True, n_bits)"

subsection \<open>The announcements of a tape\<close>

text \<open>The indices are compared as \<open>int\<close>: a negative one passes. The result says whether the usage is known.\<close>

definition set_nested :: "32 word \<Rightarrow> 32 word \<Rightarrow> 64 word \<Rightarrow> 64 word list list \<Rightarrow> 64 word list list result" where
  "set_nested a b n xss =
     (if sint a < 0 \<or> sint b < 0 then Inl undefined_behaviour
      else Inr (xss[unat a := (xss ! unat a)[unat b := n]]))"

definition get_offline_data_usage :: "instr \<Rightarrow> data_positions \<Rightarrow> (bool \<times> data_positions) result" where
  "get_offline_data_usage i dp =
     (let op = in_opcode i; r = in_r i; n = in_n i; known = \<not> n <s 0
      in if op = USE then
           (if int N_DATA_FIELD_TYPE \<le> sint (r ! 0) \<or> int N_DTYPE \<le> sint (r ! 1) then Inl invalid_program
            else bind_result (set_nested (r ! 0) (r ! 1) n (dp_files dp)) (\<lambda>fs. Inr (known, dp\<lparr>dp_files := fs\<rparr>)))
         else if op = USE_INP then
           (if int N_DATA_FIELD_TYPE \<le> sint (r ! 0) then Inl invalid_program
            else if length (dp_inputs dp) = 1 then Inr (known, dp)
            else if length (dp_inputs dp) \<le> unat (r ! 1) then Inl (processor_error ''Player number too high'')
            else if sint (r ! 0) < 0 then Inl undefined_behaviour
            else Inr (known, dp\<lparr>dp_inputs := (dp_inputs dp)[unat (r ! 1) := (dp_inputs dp ! unat (r ! 1))[unat (r ! 0) := n]]\<rparr>))
         else if op = USE_EDABIT then Inr (known, dp\<lparr>dp_edabits := AList.update (r ! 0 \<noteq> 0, r ! 1) n (dp_edabits dp)\<rparr>)
         else if op = USE_MATMUL then Inr (known, dp\<lparr>dp_matmuls := AList.update (take 3 r) n (dp_matmuls dp)\<rparr>)
         else if op = USE_PREP then
           Inr (known, dp\<lparr>dp_extended := (dp_extended dp)[DATA_INT := AList.update (data_tag r) n (dp_extended dp ! DATA_INT)]\<rparr>)
         else if op = GUSE_PREP then
           Inr (known, dp\<lparr>dp_extended := (dp_extended dp)[DATA_GF2N := AList.update (data_tag r) n (dp_extended dp ! DATA_GF2N)]\<rparr>)
         else Inr (True, dp))"

subsection \<open>What the counters say\<close>

text \<open>A counter by its name; \<open>matmuls\<close> is left out, as the operations do.\<close>

datatype counter = File nat nat | Input nat nat | Extended nat data_tag | Edabit bool "32 word"

fun counter_ok :: "counter \<Rightarrow> bool" where
  "counter_ok (File t d) \<longleftrightarrow> t < N_DATA_FIELD_TYPE \<and> d < N_DTYPE"
| "counter_ok (Input j t) \<longleftrightarrow> t < N_DATA_FIELD_TYPE"
| "counter_ok (Extended t tag) \<longleftrightarrow> t < N_DATA_FIELD_TYPE"
| "counter_ok (Edabit strict n_bits) \<longleftrightarrow> True"

fun dp_get :: "data_positions \<Rightarrow> counter \<Rightarrow> 64 word" where
  "dp_get dp (File t d) = dp_files dp ! t ! d"
| "dp_get dp (Input j t) = (if j < length (dp_inputs dp) then dp_inputs dp ! j ! t else 0)"
| "dp_get dp (Extended t tag) = entry (dp_extended dp ! t) tag"
| "dp_get dp (Edabit strict n_bits) = entry (dp_edabits dp) (strict, n_bits)"

definition keys_distinct :: "('k \<times> 'v) list \<Rightarrow> bool" where
  "keys_distinct m \<longleftrightarrow> distinct (map fst m)"

definition dp_wf :: "data_positions \<Rightarrow> bool" where
  "dp_wf dp \<longleftrightarrow>
     length (dp_files dp) = N_DATA_FIELD_TYPE \<and> (\<forall>x\<in>set (dp_files dp). length x = N_DTYPE) \<and>
     (\<forall>x\<in>set (dp_inputs dp). length x = N_DATA_FIELD_TYPE) \<and>
     length (dp_extended dp) = N_DATA_FIELD_TYPE \<and> (\<forall>m\<in>set (dp_extended dp). keys_distinct m) \<and>
     keys_distinct (dp_edabits dp) \<and> keys_distinct (dp_matmuls dp)"

lemma dp_wf_new: "dp_wf (dp_new n)"
  by (auto simp: dp_wf_def dp_new_def dp_set_num_players_def vec_resize_def keys_distinct_def)

lemma keys_distinct_update: "keys_distinct m \<Longrightarrow> keys_distinct (AList.update k v m)"
  unfolding keys_distinct_def by (rule distinct_update)

lemma entry_upd: "entry (upd_entry f k m) k' = (if k' = k then f (entry m k) else entry m k')"
  by (simp add: upd_entry_def entry_def update_conv)

lemma keys_distinct_upd: "keys_distinct m \<Longrightarrow> keys_distinct (upd_entry f k m)"
  by (simp add: upd_entry_def keys_distinct_update)

text \<open>\<open>f\<close> is addition or subtraction: \<open>f 0 0 = 0\<close> is not needed, a counter without a change is left as it is.\<close>

lemma keys_distinct_combine: "keys_distinct m \<Longrightarrow> keys_distinct (combine_map f delta m)"
  unfolding combine_map_def by (induction delta arbitrary: m) (auto simp: keys_distinct_upd)

lemma entry_combine:
  assumes "keys_distinct delta" "\<And>x. f x 0 = x"
  shows "entry (combine_map f delta m) k = f (entry m k) (entry delta k)"
  using assms(1)
proof (induction delta arbitrary: m)
  case Nil
  then show ?case by (simp add: combine_map_def entry_def assms(2))
next
  case (Cons kd delta)
  obtain k0 d0 where kd: "kd = (k0, d0)" by fastforce
  have "map_of delta k0 = None" using Cons.prems by (simp add: keys_distinct_def kd map_of_eq_None_iff)
  then have "entry delta k0 = 0" by (simp add: entry_def)
  moreover have "entry (kd # delta) k = (if k = k0 then d0 else entry delta k)" by (simp add: kd entry_def)
  ultimately show ?case
    using Cons.IH [of "upd_entry (\<lambda>v. f v d0) k0 m"] Cons.prems
    by (simp add: kd combine_map_def keys_distinct_def entry_upd assms(2))
qed

lemma length_combine_inputs [simp]: "length (combine_inputs f delta xs) = max (length xs) (length delta)"
  by (simp add: combine_inputs_def Let_def)

lemma set_map2: "x \<in> set (map2 f xs ys) \<Longrightarrow> \<exists>y\<in>set xs. \<exists>z\<in>set ys. x = f y z"
  by (auto dest: set_zip_leftD set_zip_rightD)

lemma set_combine_inputs:
  assumes "\<forall>x\<in>set xs. length x = N_DATA_FIELD_TYPE" "\<forall>x\<in>set delta. length x = N_DATA_FIELD_TYPE"
  shows "\<forall>x\<in>set (combine_inputs f delta xs). length x = N_DATA_FIELD_TYPE"
proof -
  define ys where "ys = vec_resize (replicate N_DATA_FIELD_TYPE (0 :: 64 word)) (max (length xs) (length delta)) xs"
  have ys: "\<forall>x\<in>set ys. length x = N_DATA_FIELD_TYPE" using assms(1) by (auto simp: ys_def vec_resize_def dest: in_set_takeD)
  have "\<forall>x\<in>set (map2 (map2 f) ys delta). length x = N_DATA_FIELD_TYPE"
  proof
    fix x assume "x \<in> set (map2 (map2 f) ys delta)"
    from set_map2 [OF this] show "length x = N_DATA_FIELD_TYPE" using ys assms(2) by auto
  qed
  then show ?thesis using ys by (auto simp: combine_inputs_def ys_def [symmetric] dest: in_set_dropD)
qed

lemma nth_combine_inputs:
  assumes "\<forall>x\<in>set xs. length x = N_DATA_FIELD_TYPE" "\<forall>x\<in>set delta. length x = N_DATA_FIELD_TYPE" "\<And>x. f x 0 = x"
    "j < max (length xs) (length delta)" "t < N_DATA_FIELD_TYPE"
  shows "combine_inputs f delta xs ! j ! t =
    f (if j < length xs then xs ! j ! t else 0) (if j < length delta then delta ! j ! t else 0)"
proof -
  define ys where "ys = vec_resize (replicate N_DATA_FIELD_TYPE (0 :: 64 word)) (max (length xs) (length delta)) xs"
  have ys: "ys ! j = (if j < length xs then xs ! j else replicate N_DATA_FIELD_TYPE 0)" "length (ys ! j) = N_DATA_FIELD_TYPE"
    using assms(1,4) by (auto simp: ys_def vec_resize_def nth_append max_def)
  have "combine_inputs f delta xs ! j = (if j < length delta then map2 f (ys ! j) (delta ! j) else ys ! j)"
    using assms(4) by (simp add: combine_inputs_def ys_def [symmetric] nth_append) (simp add: ys_def max_def)
  then show ?thesis
    using ys assms(2,3,5) by (auto simp: nth_replicate)
qed

lemma dp_wf_combine:
  assumes "dp_wf a" "dp_wf b"
  shows "dp_wf (dp_combine f b a)"
proof -
  have "\<forall>x\<in>set (map2 (map2 f) (dp_files a) (dp_files b)). length x = N_DTYPE"
  proof
    fix x assume "x \<in> set (map2 (map2 f) (dp_files a) (dp_files b))"
    from set_map2 [OF this] show "length x = N_DTYPE" using assms by (auto simp: dp_wf_def)
  qed
  moreover have "\<forall>m\<in>set (map2 (combine_map f) (dp_extended b) (dp_extended a)). keys_distinct m"
  proof
    fix m assume "m \<in> set (map2 (combine_map f) (dp_extended b) (dp_extended a))"
    from set_map2 [OF this] show "keys_distinct m" using assms by (auto simp: dp_wf_def keys_distinct_combine)
  qed
  moreover have "\<forall>x\<in>set (combine_inputs f (dp_inputs b) (dp_inputs a)). length x = N_DATA_FIELD_TYPE"
    by (rule set_combine_inputs) (use assms in \<open>simp_all add: dp_wf_def\<close>)
  ultimately show ?thesis
    using assms by (simp add: dp_wf_def dp_combine_def keys_distinct_combine)
qed

lemma dp_get_combine:
  assumes "dp_wf a" "dp_wf b" "\<And>x. f x 0 = x" "counter_ok c"
  shows "dp_get (dp_combine f b a) c = f (dp_get a c) (dp_get b c)"
proof (cases c)
  case (File t d)
  then show ?thesis using assms by (simp add: dp_combine_def dp_wf_def)
next
  case (Input j t)
  have z: "f 0 0 = 0" by (rule assms(3))
  show ?thesis using assms nth_combine_inputs [of "dp_inputs a" "dp_inputs b" f j t]
    by (auto simp: Input dp_combine_def dp_wf_def z)
next
  case (Extended t tag)
  then show ?thesis using assms by (simp add: dp_combine_def dp_wf_def entry_combine)
next
  case (Edabit strict n_bits)
  then show ?thesis using assms by (simp add: dp_combine_def dp_wf_def entry_combine)
qed

text \<open>What \<open>any_more\<close> compares: inputs of players that both have.\<close>

fun compared :: "data_positions \<Rightarrow> counter \<Rightarrow> bool" where
  "compared dp (Input j t) \<longleftrightarrow> j < length (dp_inputs dp)"
| "compared dp _ \<longleftrightarrow> True"

lemma entry_cases: "entry m k = 0 \<or> (k, entry m k) \<in> set m"
  by (auto simp: entry_def split: option.splits dest: map_of_SomeD)

lemma dp_any_more_sound:
  assumes "\<not> dp_any_more a b" "counter_ok c" "compared b c" "0 <s dp_get a c"
  shows "\<not> dp_get b c <s dp_get a c"
proof (cases c)
  case (File t d)
  then show ?thesis using assms(1,2) by (auto simp: dp_any_more_def)
next
  case (Input j t)
  then show ?thesis using assms by (auto simp: dp_any_more_def split: if_splits)
next
  case (Extended t tag)
  then have e: "0 <s entry (dp_extended a ! t) tag" using assms(4) by simp
  then have "(tag, entry (dp_extended a ! t) tag) \<in> set (dp_extended a ! t)" using entry_cases [of "dp_extended a ! t" tag] by auto
  then have "\<exists>w. map_of (dp_extended b ! t) tag = Some w \<and> \<not> w <s entry (dp_extended a ! t) tag"
    using assms(1,2) Extended by (fastforce simp: dp_any_more_def more_entries_def split: option.splits)
  then show ?thesis using Extended by (auto simp: entry_def split: option.splits)
next
  case (Edabit strict n_bits)
  then have e: "0 <s entry (dp_edabits a) (strict, n_bits)" using assms(4) by simp
  then have "((strict, n_bits), entry (dp_edabits a) (strict, n_bits)) \<in> set (dp_edabits a)" using entry_cases [of "dp_edabits a" "(strict, n_bits)"] by auto
  then have "\<exists>w. map_of (dp_edabits b) (strict, n_bits) = Some w \<and> \<not> w <s entry (dp_edabits a) (strict, n_bits)"
    using assms(1) e by (fastforce simp: dp_any_more_def split: option.splits)
  then show ?thesis using Edabit by (auto simp: entry_def split: option.splits)
qed

text \<open>Announcements keep the shape.\<close>

lemma set_nested_lengths:
  assumes "\<forall>x\<in>set xss. length x = k"
  shows "\<forall>x\<in>set (xss[a := (xss ! a)[b := n]]). length x = k"
proof (cases "a < length xss")
  case True
  then have "length ((xss ! a)[b := n]) = k" using assms by simp
  then show ?thesis using assms set_update_subset_insert [of xss a "(xss ! a)[b := n]"] by blast
qed (use assms in \<open>simp add: list_update_beyond\<close>)

lemma set_update_keys:
  assumes "\<forall>m\<in>set ms. keys_distinct m" "t < length ms"
  shows "\<forall>m\<in>set (ms[t := AList.update k v (ms ! t)]). keys_distinct m"
  using assms set_update_subset_insert [of ms t] keys_distinct_update [of "ms ! t" k v] by fastforce

lemma dp_wf_updates:
  assumes "dp_wf dp"
  shows "dp_wf (dp\<lparr>dp_files := (dp_files dp)[a := (dp_files dp ! a)[b := n]]\<rparr>)"
    and "dp_wf (dp\<lparr>dp_inputs := (dp_inputs dp)[a := (dp_inputs dp ! a)[b := n]]\<rparr>)"
    and "t < N_DATA_FIELD_TYPE \<Longrightarrow> dp_wf (dp\<lparr>dp_extended := (dp_extended dp)[t := AList.update k n (dp_extended dp ! t)]\<rparr>)"
    and "dp_wf (dp\<lparr>dp_edabits := AList.update e n (dp_edabits dp)\<rparr>)"
    and "dp_wf (dp\<lparr>dp_matmuls := AList.update r n (dp_matmuls dp)\<rparr>)"
proof -
  note w = assms [unfolded dp_wf_def]
  have "\<forall>x\<in>set ((dp_files dp)[a := (dp_files dp ! a)[b := n]]). length x = N_DTYPE" by (rule set_nested_lengths) (simp add: w)
  then show "dp_wf (dp\<lparr>dp_files := (dp_files dp)[a := (dp_files dp ! a)[b := n]]\<rparr>)" using w by (simp add: dp_wf_def)
  have "\<forall>x\<in>set ((dp_inputs dp)[a := (dp_inputs dp ! a)[b := n]]). length x = N_DATA_FIELD_TYPE" by (rule set_nested_lengths) (simp add: w)
  then show "dp_wf (dp\<lparr>dp_inputs := (dp_inputs dp)[a := (dp_inputs dp ! a)[b := n]]\<rparr>)" using w by (simp add: dp_wf_def)
  show "dp_wf (dp\<lparr>dp_extended := (dp_extended dp)[t := AList.update k n (dp_extended dp ! t)]\<rparr>)" if "t < N_DATA_FIELD_TYPE"
  proof -
    have "\<forall>m\<in>set ((dp_extended dp)[t := AList.update k n (dp_extended dp ! t)]). keys_distinct m"
      by (rule set_update_keys) (use w that in simp_all)
    then show ?thesis using w by (simp add: dp_wf_def)
  qed
qed (use assms in \<open>simp_all add: dp_wf_def keys_distinct_update\<close>)

lemma dp_wf_offline_data_usage:
  assumes "dp_wf dp" "get_offline_data_usage i dp = Inr (known, dp')"
  shows "dp_wf dp'"
  using assms(2) dp_wf_updates [OF assms(1)] assms(1) unfolding get_offline_data_usage_def Let_def
  by (force simp: bind_result_Inr_iff set_nested_def split: if_split_asm)


definition demo_usage :: data_positions where
  "demo_usage = dp_count_edabit True 40 (dp_count 2 [1, 2, 0] 5 (dp_new 2))"


end
