(* ===== verification/RegBounds.thy ===== *)
theory RegBounds
  imports DataUsage "HOL-Library.Signed_Division"
begin

section \<open>Registers and memory a tape uses (Processor/Instruction.hpp, Processor/Program.cpp)\<close>

text \<open>
  Loading a tape computes the number of registers of every type and the size of memory that it needs. An \<open>int\<close> is a
  word of 32 bits, compared with its sign where the source has an \<open>int\<close> and without where it has an \<open>unsigned\<close>; sums wrap around.
  A loop of the source that makes no progress, or reads beyond the arguments, is undefined behaviour.
\<close>

unbundle bit_operations_syntax

subsection \<open>Types of registers\<close>

text \<open>The enumeration \<open>RegType\<close>; \<open>INT\<close> has another name here.\<close>

abbreviation (input) INT_T :: int where "INT_T \<equiv> 0"
abbreviation (input) SBIT :: int where "SBIT \<equiv> 1"
abbreviation (input) CBIT :: int where "CBIT \<equiv> 2"
abbreviation (input) SINT :: int where "SINT \<equiv> 4"
abbreviation (input) CINT :: int where "CINT \<equiv> 5"
abbreviation (input) SGF2N :: int where "SGF2N \<equiv> 6"
abbreviation (input) CGF2N :: int where "CGF2N \<equiv> 7"
abbreviation (input) NONE :: int where "NONE \<equiv> 8"
abbreviation (input) MAX_REG_TYPE :: nat where "MAX_REG_TYPE \<equiv> 9"

definition int_reg_ops :: "nat list" where
  "int_reg_ops =
    [LDMINT, STMINT, LDMINTI, STMINTI, PUSHINT, POPINT, MOVINT, READSOCKETINT, WRITESOCKETINT, INITCLIENTCONNECTION,
     INITSECURESOCKET, RESPSECURESOCKET, LDARG, LDINT, INCINT, SHUFFLE, CONVMODP, GCONVGF2N, RAND, NPLAYERS, THRESHOLD,
     PLAYERID, CONVCBIT, CONVCBITVEC, INTOUTPUT, ACCEPTCLIENTCONNECTION, GENSECSHUFFLE, CMDLINEARG, CALL_TAPE]"

definition none_reg_ops :: "nat list" where
  "none_reg_ops = [PREP, GPREP, USE_PREP, GUSE_PREP, USE_EDABIT, USE_MATMUL, RUN_TAPE]"

definition cint_reg_ops :: "nat list" where
  "cint_reg_ops =
    [LDI, LDMC, STMC, LDMCI, STMCI, MOVC, ADDC, ADDCI, SUBC, SUBCI, SUBCFI, MULC, MULCI, DIVC, DIVCI, MODC, MODCI,
     LEGENDREC, DIGESTC, INV2M, FLOORDIVC, OPEN, ANDC, XORC, ORC, ANDCI, XORCI, ORCI, NOTC, SHLC, SHRC, SHLCI, SHRCI,
     CONVINT, PUBINPUT, FLOATOUTPUT, READSOCKETC, PRIVATEOUTPUT, FIXINPUT]"

definition is_gf2n_instruction :: "nat \<Rightarrow> bool" where
  "is_gf2n_instruction opcode \<longleftrightarrow> opcode AND 0x100 \<noteq> 0"

function get_reg_type :: "nat \<Rightarrow> 64 word \<Rightarrow> int" where
  "get_reg_type opcode n =
     (if opcode AND 0x2B0 = SECRET_WRITE then SBIT
      else if opcode AND 0x2B0 = CLEAR_WRITE then CBIT
      else if opcode \<in> set int_reg_ops then INT_T
      else if opcode \<in> set none_reg_ops then NONE
      else if opcode \<in> set cint_reg_ops then CINT
      else if opcode = CALL_ARG then int_of_n n
      else if is_gf2n_instruction opcode then (if get_reg_type (opcode - 0x100) 0 = CINT then CGF2N else SGF2N)
      else if opcode div 16 = 9 then INT_T
      else SINT)"
  by pat_completeness auto

termination
  by (relation "measure fst") (auto simp: is_gf2n_instruction_def intro!: diff_less Nat.gr0I)

declare get_reg_type.simps [simp del]

subsection \<open>The largest register\<close>

definition DIV_CEIL :: "int \<Rightarrow> int \<Rightarrow> int" where
  "DIV_CEIL n k = (n + k - 1) sdiv k"

definition smax :: "32 word \<Rightarrow> 32 word \<Rightarrow> 32 word" where
  "smax a b = (if a <s b then b else a)"

text \<open>The loop with \<open>skip\<close>, from \<open>i\<close>; \<open>by_bits\<close> is \<open>opcode & 0x200\<close>.\<close>

fun skip_max :: "bool \<Rightarrow> nat \<Rightarrow> nat \<Rightarrow> 32 word list \<Rightarrow> nat list \<Rightarrow> 32 word \<times> 32 word \<Rightarrow> 32 word" where
  "skip_max by_bits skip size_offset start [] (sz, m) = m"
| "skip_max by_bits skip size_offset start (i # is) (sz, m) =
     (let sz = (if size_offset = 0 then sz
                  else if by_bits then of_int (DIV_CEIL (sint (start ! (i - size_offset))) 64) else start ! (i - size_offset))
      in skip_max by_bits skip size_offset start is (sz, max m (start ! i + sz)))"

definition skip_positions :: "nat \<Rightarrow> nat \<Rightarrow> nat \<Rightarrow> nat list" where
  "skip_positions skip offset len = map (\<lambda>j. offset + j * skip) [0..<(len - offset + (skip - 1)) div skip]"

definition skip_max_reg :: "instr \<Rightarrow> nat \<Rightarrow> nat \<Rightarrow> nat \<Rightarrow> 32 word \<Rightarrow> 32 word" where
  "skip_max_reg i skip offset size_offset sz =
     skip_max (in_opcode i AND 0x200 \<noteq> 0) skip size_offset (in_start i) (skip_positions skip offset (length (in_start i))) (sz, 0)"

text \<open>Arguments in groups of \<open>k\<close>; \<open>f\<close> is the value of a group.\<close>

function groups_max :: "nat \<Rightarrow> (32 word list \<Rightarrow> 32 word) \<Rightarrow> 32 word list \<Rightarrow> 32 word \<Rightarrow> 32 word result" where
  "groups_max k f xs res =
     (if xs = [] then Inr res
      else if k = 0 \<or> length xs < k then Inl undefined_behaviour
      else groups_max k f (drop k xs) (smax res (f (take k xs))))"
  by pat_completeness auto

termination
  by (relation "measure (\<lambda>(k, f, xs, res). length xs)") auto

declare groups_max.simps [simp del]

lemma unat_pos: "0 < sint (n :: 32 word) \<Longrightarrow> 0 < unat n"
  by (metis gr0I sint_0 unat_0_iff less_irrefl)

function cisc_max :: "32 word list \<Rightarrow> 32 word \<Rightarrow> 32 word result" where
  "cisc_max xs res =
     (case xs of [] \<Rightarrow> Inr res
      | n # _ \<Rightarrow>
          if int (length xs) < sint n then Inl assertion_failed
          else if sint n \<le> 0 \<or> length xs < 3 then Inl undefined_behaviour
          else cisc_max (drop (unat n) xs) (smax res (xs ! 1 + xs ! 2)))"
  by pat_completeness auto

termination
  by (relation "measure (\<lambda>(xs, res). length xs)") (auto intro!: diff_less unat_pos)

declare cisc_max.simps [simp del]

function dotprods_max :: "32 word list \<Rightarrow> 32 word \<Rightarrow> 32 word result" where
  "dotprods_max xs res =
     (case xs of [] \<Rightarrow> Inr res
      | n # _ \<Rightarrow>
          if int (length xs) < sint n then Inl assertion_failed
          else if sint n \<le> 0 then Inl undefined_behaviour
          else dotprods_max (drop (unat n) xs) (smax res n))"
  by pat_completeness auto

termination
  by (relation "measure (\<lambda>(xs, res). length xs)") (auto intro!: diff_less unat_pos)

declare dotprods_max.simps [simp del]

text \<open>The loop with a prefix; \<open>n_prefix\<close> is a \<open>bool\<close>, so that the 2 or 3 assigned to it is 1.\<close>

function prefix_max :: "32 word list \<Rightarrow> 32 word \<times> 32 word \<Rightarrow> 32 word result" where
  "prefix_max xs (sz, res) =
     (case xs of [] \<Rightarrow> Inr res
      | [_] \<Rightarrow> Inl undefined_behaviour
      | x # y # ys \<Rightarrow>
          let n = sint x - 1; sz = of_int (max (sint sz) (DIV_CEIL (sint y) 64)); rest = y # ys in
          if int (length rest) < n then Inl assertion_failed
          else prefix_max (drop (nat n) rest) (sz, foldl (\<lambda>res z. smax res (z + sz)) res (take (nat n) rest)))"
  by pat_completeness auto

termination
  by (relation "measure (\<lambda>(xs, sz, res). length xs)") auto

declare prefix_max.simps [simp del]

definition conv2ds_group :: "32 word list \<Rightarrow> 32 word" where
  "conv2ds_group g = g ! 0 + g ! 3 * g ! 4 * g ! 14"

fun conv2ds_max :: "nat \<Rightarrow> 32 word list \<Rightarrow> 32 word \<Rightarrow> 32 word result" where
  "conv2ds_max 0 xs res = Inr res"
| "conv2ds_max (Suc k) xs res =
     (if length xs \<le> 4 then Inl undefined_behaviour else if length xs \<le> 14 then Inl out_of_range
      else conv2ds_max k (drop 15 xs) (max res (conv2ds_group xs)))"

definition trans_max :: "instr \<Rightarrow> 32 word result" where
  "trans_max i =
     (let args = in_start i; n_outputs = int_of_n (in_n i); n_inputs = sint (of_int (int (length args) - n_outputs) :: 32 word) in
      if int (length args) < n_outputs then Inl undefined_behaviour
      else if 0 < n_inputs \<and> (n_outputs < 0 \<or> int (length args) \<le> n_outputs) then Inl undefined_behaviour
      else Inr (of_int (foldl max 0 (map (\<lambda>j. sint (args ! j) + DIV_CEIL n_inputs 64) [0..<nat n_outputs]
             @ map (\<lambda>j. sint (args ! nat n_outputs) + DIV_CEIL n_outputs 64) [0..<nat n_inputs]))))"

definition plain_max_reg :: "instr \<Rightarrow> 32 word \<Rightarrow> 32 word" where
  "plain_max_reg i sz = foldl max (foldl max 0 (in_start i)) (in_r i) + sz"

text \<open>The second switch and the loops behind it, for the type of the instruction.\<close>

definition typed_max_reg :: "instr \<Rightarrow> 32 word result" where
  "typed_max_reg i =
     (let op = in_opcode i; size = in_size i; start = in_start i; n_units = of_int (DIV_CEIL (sint (in_n i)) 64) in
      if op = CISC then cisc_max start 0
      else if op = MULS then Inr (skip_max_reg i 4 1 1 size)
      else if op = DOTPRODS then dotprods_max start 0
      else if op = MATMULS then groups_max 6 (\<lambda>g. g ! 0 + g ! 3 * g ! 5) start 0
      else if op = MATMULSM then groups_max 12 (\<lambda>g. g ! 0 + g ! 3 * g ! 5) start 0
      else if op = CONV2DS then conv2ds_max ((length start + 14) div 15) start 0
      else if op = OPEN then Inr (skip_max_reg i 2 0 0 size)
      else if op = LDMSD \<or> op = LDMSDI then Inr (skip_max_reg i 3 0 0 size)
      else if op = STMSD \<or> op = STMSDI then Inr (skip_max_reg i 2 0 0 size)
      else if op = ANDRS \<or> op = XORS \<or> op = ANDS then Inr (skip_max_reg i 4 1 1 size)
      else if op = ANDRSVEC \<or> op = INPUTBVEC then prefix_max start (size, 0)
      else if op = INPUTB then Inr (skip_max_reg i 4 3 2 size)
      else if op = ANDM \<or> op = NOTS \<or> op = NOTCB \<or> op = CONVCBIT2S then Inr (plain_max_reg i n_units)
      else if op = CONVCINTVEC then Inr (plain_max_reg i (of_int (DIV_CEIL (sint size) 64)))
      else if op = REVEAL then Inr (skip_max_reg i 3 1 1 n_units)
      else if op = SPLIT then Inr (skip_max_reg i 1 0 0 (of_int (DIV_CEIL (sint size) 64)))
      else if op = INPUTPERSONAL \<or> op = PRIVATEOUTPUT then Inr (skip_max_reg i 4 2 2 size)
      else if op = SENDPERSONAL then Inr (skip_max_reg i 5 2 2 size)
      else if op = CONVCBITVEC \<or> op \<in> set [READSOCKETS, READSOCKETC, READSOCKETINT, WRITESOCKETSHARE, WRITESOCKETC, WRITESOCKETINT]
        then Inr (plain_max_reg i (ucast (in_n i)))
      else Inr (plain_max_reg i size))"

definition get_max_reg :: "int \<Rightarrow> instr \<Rightarrow> 32 word result" where
  "get_max_reg reg_type i =
     (let op = in_opcode i; size = in_size i; r = in_r i; start = in_start i in
      if op = DABIT then Inr (if reg_type = SBIT then r ! 1 + size else if reg_type = SINT then r ! 0 + size else 0)
      else if op = EDABIT \<or> op = SEDABIT then
        Inr (if reg_type = SBIT then skip_max_reg i 1 0 0 size else if reg_type = SINT then r ! 0 + size else 0)
      else if op = INPUTMASKREG then Inr (if reg_type = SINT then r ! 0 + size else if reg_type = CINT then r ! 1 + size else 0)
      else if op = TRANS then (if reg_type = SBIT then trans_max i else Inr 0)
      else if op = CALL_TAPE then
        groups_max 5 (\<lambda>g. if sint (g ! 1) = reg_type then (if g ! 0 \<noteq> 0 then g ! 3 else g ! 4) + g ! 2 else 0) start 0
      else if get_reg_type op (in_n i) \<noteq> reg_type then Inr 0
      else typed_max_reg i)"

subsection \<open>Memory\<close>

definition direct_memory_ops :: "nat list" where
  "direct_memory_ops = [LDMS, STMS, GLDMS, GSTMS, LDMC, STMC, GLDMC, GSTMC, LDMINT, STMINT, LDMSB, STMSB, LDMCB, STMCB]"

definition is_direct_memory_access :: "nat \<Rightarrow> bool" where
  "is_direct_memory_access opcode \<longleftrightarrow> opcode \<in> set direct_memory_ops"

definition get_mem :: "int \<Rightarrow> instr \<Rightarrow> 64 word" where
  "get_mem reg_type i =
     (if get_reg_type (in_opcode i) (in_n i) = reg_type \<and> is_direct_memory_access (in_opcode i) then in_n i + scast (in_size i) else 0)"

subsection \<open>Programs\<close>

text \<open>The maxima are lists over the types of registers.\<close>

record program =
  pg_p :: "instr list"
  pg_offline_data_used :: data_positions
  pg_max_reg :: "32 word list"
  pg_max_mem :: "64 word list"
  pg_unknown_usage :: bool
  pg_writes_persistence :: bool

text \<open>The body of the loop for one instruction: the loop over the types, and what is before and behind it.\<close>

definition count_regs :: "instr \<Rightarrow> 32 word list \<times> 64 word list \<Rightarrow> (32 word list \<times> 64 word list) result" where
  "count_regs i = (\<lambda>(max_reg, max_mem).
     bind_result (foldM_result (\<lambda>t max_reg. bind_result (get_max_reg (int t) i) (\<lambda>m. Inr (max_reg[t := max (max_reg ! t) m])))
       [0..<MAX_REG_TYPE] max_reg) (\<lambda>max_reg.
     Inr (max_reg, map (\<lambda>t. max (max_mem ! t) (get_mem (int t) i)) [0..<MAX_REG_TYPE])))"

definition count_instr :: "instr \<Rightarrow> program \<Rightarrow> program result" where
  "count_instr i pg =
     bind_result (get_offline_data_usage i (pg_offline_data_used pg)) (\<lambda>(known, used).
     bind_result (count_regs i (pg_max_reg pg, pg_max_mem pg)) (\<lambda>(max_reg, max_mem).
     Inr (pg\<lparr>pg_offline_data_used := used, pg_max_reg := max_reg, pg_max_mem := max_mem,
             pg_unknown_usage := (pg_unknown_usage pg \<or> \<not> known),
             pg_writes_persistence := (pg_writes_persistence pg \<or> in_opcode i = WRITEFILESHARE)\<rparr>)))"

definition compute_constants :: "program \<Rightarrow> program result" where
  "compute_constants pg =
     foldM_result count_instr (pg_p pg) (pg\<lparr>pg_max_reg := replicate MAX_REG_TYPE 0, pg_max_mem := replicate MAX_REG_TYPE 0\<rparr>)"

text \<open>The constructor, whose call of \<open>compute_constants\<close> finds no instruction.\<close>

definition program_new :: "nat \<Rightarrow> program" where
  "program_new nplayers =
     \<lparr>pg_p = [], pg_offline_data_used = dp_new nplayers, pg_max_reg = replicate MAX_REG_TYPE 0, pg_max_mem = replicate MAX_REG_TYPE 0,
      pg_unknown_usage = False, pg_writes_persistence = False\<rparr>"

definition program_parse :: "vm_hooks \<Rightarrow> octet list \<Rightarrow> program \<Rightarrow> program result" where
  "program_parse hk s pg = bind_result (parse_instrs hk instr_new s) (\<lambda>is. compute_constants (pg\<lparr>pg_p := is\<rparr>))"

definition num_reg :: "program \<Rightarrow> int \<Rightarrow> 32 word" where
  "num_reg prog reg_type = pg_max_reg prog ! nat reg_type"

definition direct_mem :: "program \<Rightarrow> int \<Rightarrow> 64 word" where
  "direct_mem prog reg_type = pg_max_mem prog ! nat reg_type"

end
