(* ===== verification/Registers.thy ===== *)
theory Registers
  imports RegBounds
begin

section \<open>Register files and memory of the virtual machine (Tools/CheckVector.h, Processor/Memory)\<close>

text \<open>
  A register file is one vector of which the registers of the current tape are the end, from \<open>start\<close> on; those of its
  callers lie below. \<open>operator[]\<close> checks the index against the vector; a pointer obtained from it is then incremented without
  a check, so that an access beyond the end is undefined behaviour. Running out of memory is not modelled.
\<close>

subsection \<open>Access through pointers\<close>

definition deref :: "'a list \<Rightarrow> nat \<Rightarrow> 'a result" where
  "deref xs p = (if p < length xs then Inr (xs ! p) else Inl undefined_behaviour)"

definition assign :: "nat \<Rightarrow> 'a \<Rightarrow> 'a list \<Rightarrow> 'a list result" where
  "assign p x xs = (if p < length xs then Inr (xs[p := x]) else Inl undefined_behaviour)"

text \<open>The loops of vector instructions: \<open>*dest++ = x\<close>, \<open>*dest++ = f(*op1++)\<close>, \<open>*dest++ = f(*op1++, *op2++)\<close> in one vector.\<close>

definition fill_loop :: "(nat \<Rightarrow> 'a result) \<Rightarrow> nat \<Rightarrow> nat \<Rightarrow> 'a list \<Rightarrow> 'a list result" where
  "fill_loop f d n = foldM_result (\<lambda>k xs. bind_result (f k) (\<lambda>x. assign (d + k) x xs)) [0..<n]"

definition unary_loop :: "('a \<Rightarrow> 'a result) \<Rightarrow> nat \<Rightarrow> nat \<Rightarrow> nat \<Rightarrow> 'a list \<Rightarrow> 'a list result" where
  "unary_loop f d p n = foldM_result (\<lambda>k xs. bind_result (deref xs (p + k)) (\<lambda>a. bind_result (f a) (\<lambda>x. assign (d + k) x xs))) [0..<n]"

definition binary_loop :: "('a \<Rightarrow> 'a \<Rightarrow> 'a result) \<Rightarrow> nat \<Rightarrow> nat \<Rightarrow> nat \<Rightarrow> nat \<Rightarrow> 'a list \<Rightarrow> 'a list result" where
  "binary_loop f d p q n = foldM_result (\<lambda>k xs. bind_result (deref xs (p + k)) (\<lambda>a. bind_result (deref xs (q + k)) (\<lambda>b.
     bind_result (f a b) (\<lambda>x. assign (d + k) x xs)))) [0..<n]"

text \<open>\<open>*dest++ = *source++\<close> from one vector to another.\<close>

definition copy_loop :: "'a list \<Rightarrow> nat \<Rightarrow> nat \<Rightarrow> nat \<Rightarrow> 'a list \<Rightarrow> 'a list result" where
  "copy_loop src p d n = fill_loop (\<lambda>k. deref src (p + k)) d n"

subsection \<open>Register files\<close>

record 'a stacked =
  sv_full :: "'a list"
  sv_start :: nat
  sv_stack :: "nat list"

definition sv_new :: "'a \<Rightarrow> nat \<Rightarrow> 'a stacked" where
  "sv_new x n = \<lparr>sv_full = replicate n x, sv_start = 0, sv_stack = []\<rparr>"

definition sv_size :: "'a stacked \<Rightarrow> nat" where
  "sv_size v = length (sv_full v) - sv_start v"

text \<open>A vector has fewer than \<open>2 ^ 63\<close> elements; \<open>resize\<close> to more throws.\<close>

definition sv_resize :: "'a \<Rightarrow> nat \<Rightarrow> 'a stacked \<Rightarrow> 'a stacked result" where
  "sv_resize x new_size v =
     (if 2 ^ 63 \<le> sv_start v + new_size then Inl length_error
      else Inr (v\<lparr>sv_full := vec_resize x (sv_start v + new_size) (sv_full v)\<rparr>))"

text \<open>The position of \<open>operator[]\<close>, whose argument is a \<open>size_t\<close>: a negative register number wraps around.\<close>

definition sv_index :: "'a stacked \<Rightarrow> 64 word \<Rightarrow> nat" where
  "sv_index v i = unat (of_nat (sv_start v) + i)"

definition sv_ptr :: "32 word \<Rightarrow> 'a stacked \<Rightarrow> nat result" where
  "sv_ptr r v = (let p = sv_index v (scast r) in if p < length (sv_full v) then Inr p else Inl out_of_range)"

definition sv_at :: "32 word \<Rightarrow> 'a stacked \<Rightarrow> 'a result" where
  "sv_at r v = bind_result (sv_ptr r v) (\<lambda>p. Inr (sv_full v ! p))"

definition sv_put :: "32 word \<Rightarrow> 'a \<Rightarrow> 'a stacked \<Rightarrow> 'a stacked result" where
  "sv_put r x v = bind_result (sv_ptr r v) (\<lambda>p. Inr (v\<lparr>sv_full := (sv_full v)[p := x]\<rparr>))"

definition sv_push_back :: "'a \<Rightarrow> 'a stacked \<Rightarrow> 'a stacked" where
  "sv_push_back x v = v\<lparr>sv_full := sv_full v @ [x]\<rparr>"

definition push_stack :: "'a stacked \<Rightarrow> 'a stacked" where
  "push_stack v = v\<lparr>sv_stack := sv_stack v @ [sv_start v], sv_start := length (sv_full v)\<rparr>"

text \<open>Arguments and results of a tape: groups of direction, type, size, destination and source.\<close>

function foldM_groups :: "nat \<Rightarrow> (32 word list \<Rightarrow> 's \<Rightarrow> 's result) \<Rightarrow> 32 word list \<Rightarrow> 's \<Rightarrow> 's result" where
  "foldM_groups k f xs s =
     (if xs = [] then Inr s
      else if k = 0 \<or> length xs < k then Inl undefined_behaviour
      else case f (take k xs) s of Inl e \<Rightarrow> Inl e | Inr s \<Rightarrow> foldM_groups k f (drop k xs) s)"
  by pat_completeness auto

termination
  by (relation "measure (\<lambda>(k, f, xs, s). length xs)") auto

declare foldM_groups.simps [simp del]

definition copy_range :: "nat \<Rightarrow> nat \<Rightarrow> nat \<Rightarrow> 'a list \<Rightarrow> 'a list" where
  "copy_range src dst n xs = take dst xs @ take n (drop src xs) @ drop (dst + n) xs"

text \<open>
  When the registers of the tape are too few, the vector is resized to \<open>start + it[1]\<close>, where \<open>it[1]\<close> is the type. If that is
  fewer than it has the assertion behind fails, if it is more the iterators are invalid.
\<close>

definition push_arg :: "int \<Rightarrow> 32 word list \<Rightarrow> 'a stacked \<Rightarrow> 'a stacked result" where
  "push_arg reg_type g v =
     (if sint (g ! 1) = reg_type \<and> g ! 0 = 0 then
        let n = sint (g ! 2); dest = int (sv_start v) + sint (g ! 3); source = int (last (sv_stack v)) + sint (g ! 4) in
        if sv_stack v = [] then Inl undefined_behaviour
        else if int (length (sv_full v)) < dest + n then
          (if int (length (sv_full v)) < int (sv_start v) + sint (g ! 1) then Inl undefined_behaviour else Inl assertion_failed)
        else if int (sv_start v) < source + n then Inl assertion_failed
        else if dest < 0 \<or> source < 0 \<or> n < 0 \<or> (source < dest \<and> dest < source + n) then Inl undefined_behaviour
        else Inr (v\<lparr>sv_full := copy_range (nat source) (nat dest) (nat n) (sv_full v)\<rparr>)
      else Inr v)"

definition push_args :: "32 word list \<Rightarrow> int \<Rightarrow> 'a stacked \<Rightarrow> 'a stacked result" where
  "push_args args reg_type = foldM_groups 5 (push_arg reg_type) args"

definition pop_arg :: "int \<Rightarrow> 32 word list \<Rightarrow> 'a stacked \<Rightarrow> 'a stacked result" where
  "pop_arg reg_type g v =
     (if sint (g ! 1) = reg_type \<and> g ! 0 \<noteq> 0 then
        let n = sint (g ! 2); source = int (sv_start v) + sint (g ! 4); dest = int (last (sv_stack v)) + sint (g ! 3) in
        if int (length (sv_full v)) < source + n then Inl assertion_failed
        else if int (sv_start v) < dest + n then Inl assertion_failed
        else if dest < 0 \<or> source < 0 \<or> n < 0 \<or> (source < dest \<and> dest < source + n) then Inl undefined_behaviour
        else Inr (v\<lparr>sv_full := copy_range (nat source) (nat dest) (nat n) (sv_full v)\<rparr>)
      else Inr v)"

definition pop_stack :: "32 word list \<Rightarrow> int \<Rightarrow> 'a stacked \<Rightarrow> 'a stacked result" where
  "pop_stack results reg_type v =
     (if sv_stack v = [] then Inl assertion_failed
      else bind_result (foldM_groups 5 (pop_arg reg_type) results v) (\<lambda>v.
        Inr (v\<lparr>sv_full := take (sv_start v) (sv_full v), sv_start := last (sv_stack v), sv_stack := butlast (sv_stack v)\<rparr>)))"

subsection \<open>Memory\<close>

definition mem_ptr :: "64 word \<Rightarrow> 'a list \<Rightarrow> nat result" where
  "mem_ptr n m = (if unat n < length m then Inr (unat n) else Inl memory_overflow)"

definition minimum_size :: "'a \<Rightarrow> nat \<Rightarrow> 'a list \<Rightarrow> 'a list" where
  "minimum_size x n m = (if length m < n then vec_resize x n m else m)"

text \<open>The iterators of an indirect access and the assertion on them.\<close>

definition sv_range :: "instr \<Rightarrow> 32 word \<Rightarrow> 'a stacked \<Rightarrow> nat result" where
  "sv_range i r v =
     (let n = sint (in_size i); p = int (sv_start v) + sint r in
      if n < 0 then Inl undefined_behaviour
      else if int (length (sv_full v)) < p + n then Inl assertion_failed
      else if p < 0 then Inl undefined_behaviour
      else Inr (nat p))"

text \<open>\<open>ix\<close> reads an index; where registers and indices are the same file, from the registers as they are by then.\<close>

definition indirect_read_loop :: "'a list \<Rightarrow> ('a list \<Rightarrow> nat \<Rightarrow> 64 word) \<Rightarrow> nat \<Rightarrow> nat \<Rightarrow> nat \<Rightarrow> 'a list \<Rightarrow> 'a list result" where
  "indirect_read_loop mem ix d p n =
     foldM_result (\<lambda>k xs. bind_result (mem_ptr (ix xs (p + k)) mem) (\<lambda>a. Inr (xs[d + k := mem ! a]))) [0..<n]"

definition indirect_write_loop :: "'a list \<Rightarrow> (nat \<Rightarrow> 64 word) \<Rightarrow> nat \<Rightarrow> nat \<Rightarrow> nat \<Rightarrow> 'a list \<Rightarrow> 'a list result" where
  "indirect_write_loop xs ix d p n =
     foldM_result (\<lambda>k mem. bind_result (mem_ptr (ix (p + k)) mem) (\<lambda>a. Inr (mem[a := xs ! (d + k)]))) [0..<n]"

end
