(* ===== verification/Regint.thy ===== *)
theory Regint
  imports Registers Prng
begin

section \<open>Integer instructions (Processor/instructions.h, Processor/Instruction.cpp)\<close>

text \<open>
  The instructions on the integer registers \<open>Ci\<close>, for \<open>ArithmeticProcessor\<close> and the integer memory \<open>Mi\<close>. Sums, products
  and the difference of \<open>long\<close> wrap around, as do the \<open>int\<close> register numbers; shifts by a negative number or the width and
  more are undefined behaviour, as is the quotient of the least number and -1 a trap.
\<close>

unbundle bit_operations_syntax

subsection \<open>State\<close>

datatype out_item = OutInteger "64 word" | OutPrecision "32 word" | OutChars "octet list"

record arith_proc =
  ap_Ci :: "64 word stacked"
  ap_thread_num :: "32 word"
  ap_arg :: "64 word"
  ap_stacki :: "64 word list"
  ap_shared_prng :: prng
  ap_on :: bool
  ap_out :: "out_item list"

text \<open>\<open>out << x\<close> writes when the output is on.\<close>

definition out_put :: "out_item \<Rightarrow> 'z arith_proc_scheme \<Rightarrow> 'z arith_proc_scheme" where
  "out_put x P = (if ap_on P then P\<lparr>ap_out := ap_out P @ [x]\<rparr> else P)"

definition vec_len :: "instr \<Rightarrow> nat" where
  "vec_len i = nat (sint (in_size i))"

text \<open>\<open>int(n)\<close>.\<close>

definition imm :: "instr \<Rightarrow> 64 word" where
  "imm i = scast (ucast (in_n i) :: 32 word)"

subsection \<open>Loops over the elements of a vector\<close>

definition sv_on :: "('a list \<Rightarrow> 'a list result) \<Rightarrow> 'a stacked \<Rightarrow> 'a stacked result" where
  "sv_on f v = bind_result (f (sv_full v)) (\<lambda>xs. Inr (v\<lparr>sv_full := xs\<rparr>))"

definition vec_fill :: "(nat \<Rightarrow> 'a result) \<Rightarrow> instr \<Rightarrow> 'a stacked \<Rightarrow> 'a stacked result" where
  "vec_fill f i v = bind_result (sv_ptr (in_r i ! 0) v) (\<lambda>d. sv_on (fill_loop f d (vec_len i)) v)"

definition vec_unary :: "('a \<Rightarrow> 'a result) \<Rightarrow> instr \<Rightarrow> 'a stacked \<Rightarrow> 'a stacked result" where
  "vec_unary f i v =
     bind_result (sv_ptr (in_r i ! 0) v) (\<lambda>d. bind_result (sv_ptr (in_r i ! 1) v) (\<lambda>p. sv_on (unary_loop f d p (vec_len i)) v))"

definition vec_binary :: "('a \<Rightarrow> 'a \<Rightarrow> 'a result) \<Rightarrow> instr \<Rightarrow> 'a stacked \<Rightarrow> 'a stacked result" where
  "vec_binary f i v =
     bind_result (sv_ptr (in_r i ! 0) v) (\<lambda>d. bind_result (sv_ptr (in_r i ! 1) v) (\<lambda>p. bind_result (sv_ptr (in_r i ! 2) v) (\<lambda>q.
       sv_on (binary_loop f d p q (vec_len i)) v)))"

text \<open>\<open>LDM*\<close> and \<open>STM*\<close>: between registers and consecutive memory cells.\<close>

definition vec_load :: "instr \<Rightarrow> 'a list \<Rightarrow> 'a stacked \<Rightarrow> 'a stacked result" where
  "vec_load i mem v =
     bind_result (sv_ptr (in_r i ! 0) v) (\<lambda>d. bind_result (mem_ptr (in_n i) mem) (\<lambda>p. sv_on (copy_loop mem p d (vec_len i)) v))"

definition vec_store :: "instr \<Rightarrow> 'a stacked \<Rightarrow> 'a list \<Rightarrow> 'a list result" where
  "vec_store i v mem =
     bind_result (mem_ptr (in_n i) mem) (\<lambda>d. bind_result (sv_ptr (in_r i ! 0) v) (\<lambda>p. copy_loop (sv_full v) p d (vec_len i) mem))"

text \<open>\<open>indirect_read\<close> and \<open>indirect_write\<close>, where the registers are the indices too.\<close>

definition indirect_read_self :: "instr \<Rightarrow> 64 word list \<Rightarrow> 64 word stacked \<Rightarrow> 64 word stacked result" where
  "indirect_read_self i mem v =
     bind_result (sv_range i (in_r i ! 1) v) (\<lambda>p. bind_result (sv_range i (in_r i ! 0) v) (\<lambda>d.
       sv_on (indirect_read_loop mem (!) d p (vec_len i)) v))"

definition indirect_write_self :: "instr \<Rightarrow> 64 word stacked \<Rightarrow> 64 word list \<Rightarrow> 64 word list result" where
  "indirect_write_self i v mem =
     bind_result (sv_range i (in_r i ! 1) v) (\<lambda>p. bind_result (sv_range i (in_r i ! 0) v) (\<lambda>d.
       indirect_write_loop (sv_full v) ((!) (sv_full v)) d p (vec_len i) mem))"

subsection \<open>Operations on numbers\<close>

definition of_truth :: "bool \<Rightarrow> 64 word" where
  "of_truth b = (if b then 1 else 0)"

definition divide_long :: "64 word \<Rightarrow> 64 word \<Rightarrow> 64 word result" where
  "divide_long a b =
     (if b = 0 then Inl division_by_zero
      else if sint a = - (2 ^ 63) \<and> sint b = -1 then Inl arithmetic_trap
      else Inr (of_int (sint a sdiv sint b)))"

text \<open>\<open>base + inc * int(n)\<close> with \<open>inc = (i / start[0]) % start[1]\<close>, all in \<open>int\<close> but the sum.\<close>

definition increment :: "instr \<Rightarrow> 64 word \<Rightarrow> nat \<Rightarrow> 64 word result" where
  "increment i base k =
     (if length (in_start i) < 2 then Inl undefined_behaviour
      else if in_start i ! 0 = 0 \<or> in_start i ! 1 = 0 then Inl arithmetic_trap
      else let inc = (int k sdiv sint (in_start i ! 0)) smod sint (in_start i ! 1)
           in Inr (base + scast (of_int inc * ucast (in_n i) :: 32 word)))"

text \<open>\<open>DIVINT\<close> looks at the divisor first.\<close>

definition vec_divide :: "instr \<Rightarrow> 64 word stacked \<Rightarrow> 64 word stacked result" where
  "vec_divide i v =
     bind_result (sv_ptr (in_r i ! 0) v) (\<lambda>d. bind_result (sv_ptr (in_r i ! 1) v) (\<lambda>p. bind_result (sv_ptr (in_r i ! 2) v) (\<lambda>q.
       sv_on (foldM_result (\<lambda>k xs. bind_result (deref xs (q + k)) (\<lambda>b.
         if b = 0 then Inl division_by_zero
         else bind_result (deref xs (p + k)) (\<lambda>a. bind_result (divide_long a b) (\<lambda>x. assign (d + k) x xs)))) [0..<vec_len i]) v)))"

definition vec_increment :: "instr \<Rightarrow> 64 word stacked \<Rightarrow> 64 word stacked result" where
  "vec_increment i v =
     bind_result (sv_ptr (in_r i ! 0) v) (\<lambda>d. bind_result (sv_at (in_r i ! 1) v) (\<lambda>base.
       sv_on (fill_loop (increment i base) d (vec_len i)) v))"

definition bitdecint :: "instr \<Rightarrow> 64 word stacked \<Rightarrow> 64 word stacked result" where
  "bitdecint i =
     foldM_result (\<lambda>j v. bind_result (sv_at (in_r i ! 0 + of_nat j) v) (\<lambda>a.
       foldM_result (\<lambda>k v. if 64 \<le> k then Inl undefined_behaviour else sv_put (in_start i ! k + of_nat j) (of_truth (bit a k)) v)
         [0..<length (in_start i)] v)) [0..<vec_len i]"

subsection \<open>Randomness\<close>

definition lift_Ci :: "(64 word stacked \<Rightarrow> 64 word stacked result) \<Rightarrow> 'z arith_proc_scheme \<Rightarrow> 'z arith_proc_scheme result" where
  "lift_Ci f P = bind_result (f (ap_Ci P)) (\<lambda>v. Inr (P\<lparr>ap_Ci := v\<rparr>))"

definition shuffle_copy :: "instr \<Rightarrow> 64 word stacked \<Rightarrow> 64 word stacked result" where
  "shuffle_copy i =
     foldM_result (\<lambda>k v. bind_result (sv_at (in_r i ! 1 + of_nat k) v) (\<lambda>x. sv_put (in_r i ! 0 + of_nat k) x v)) [0..<vec_len i]"

definition shuffle_swap :: "32 word \<Rightarrow> 32 word \<Rightarrow> 64 word stacked \<Rightarrow> 64 word stacked result" where
  "shuffle_swap a b v =
     bind_result (sv_at a v) (\<lambda>x. bind_result (sv_at b v) (\<lambda>y. bind_result (sv_put a y v) (sv_put b x)))"

definition exec_shuffle :: "block_cipher \<Rightarrow> nat \<Rightarrow> instr \<Rightarrow> 'z arith_proc_scheme \<Rightarrow> 'z arith_proc_scheme io" where
  "exec_shuffle E pl i P =
     bind_io (Some (lift_Ci (shuffle_copy i) P)) (foldM_io (\<lambda>k P.
       bind_io (prng_get_uint_upper E pl (in_size i - of_nat k) (ap_shared_prng P)) (\<lambda>(j, G).
       Some (lift_Ci (shuffle_swap (in_r i ! 0 + of_nat k) (in_r i ! 0 + of_nat k + j)) (P\<lparr>ap_shared_prng := G\<rparr>)))) [0..<vec_len i])"

text \<open>\<open>get_uint() % (1 << source)\<close>; the modulus is an \<open>int\<close>, converted to \<open>unsigned\<close>.\<close>

definition exec_rand :: "block_cipher \<Rightarrow> nat \<Rightarrow> instr \<Rightarrow> 'z arith_proc_scheme \<Rightarrow> 'z arith_proc_scheme result" where
  "exec_rand E pl i P =
     bind_result (sv_ptr (in_r i ! 0) (ap_Ci P)) (\<lambda>d. bind_result (sv_ptr (in_r i ! 1) (ap_Ci P)) (\<lambda>p.
       foldM_result (\<lambda>k P. bind_result (deref (sv_full (ap_Ci P)) (p + k)) (\<lambda>s.
         if sint s < 0 \<or> 32 \<le> sint s then Inl undefined_behaviour
         else bind_result (prng_get_uint E pl (ap_shared_prng P)) (\<lambda>(u, G).
           lift_Ci (sv_on (assign (d + k) (ucast (u mod push_bit (unat s) 1)))) (P\<lparr>ap_shared_prng := G\<rparr>)))) [0..<vec_len i] P))"

subsection \<open>The stack\<close>

definition popi :: "'z arith_proc_scheme \<Rightarrow> (64 word \<times> 'z arith_proc_scheme) result" where
  "popi P = (if ap_stacki P = [] then Inl undefined_behaviour else Inr (last (ap_stacki P), P\<lparr>ap_stacki := butlast (ap_stacki P)\<rparr>))"

definition exec_popint :: "instr \<Rightarrow> 'z arith_proc_scheme \<Rightarrow> 'z arith_proc_scheme result" where
  "exec_popint i P =
     bind_result (sv_ptr (in_r i ! 0) (ap_Ci P)) (\<lambda>d. foldM_result (\<lambda>k P. bind_result (popi P) (\<lambda>(x, P).
       lift_Ci (sv_on (assign (d + k) x)) P)) [0..<vec_len i] P)"

subsection \<open>The instructions\<close>

text \<open>\<open>execute_regint\<close>, on the processor and the integer memory.\<close>

definition exec_regint :: "block_cipher \<Rightarrow> nat \<Rightarrow> instr \<Rightarrow> 'z arith_proc_scheme \<times> 64 word list \<Rightarrow> ('z arith_proc_scheme \<times> 64 word list) io" where
  "exec_regint E pl i = (\<lambda>(P, mi).
     let op = in_opcode i; n = in_n i; r0 = in_r i ! 0;
         regs = (\<lambda>f. Some (bind_result (lift_Ci (f) P) (\<lambda>P. Inr (P, mi))));
         memory = (\<lambda>f. Some (bind_result (f (ap_Ci P) mi) (\<lambda>mi. Inr (P, mi))));
         proc = (\<lambda>f. Some (bind_result f (\<lambda>P. Inr (P, mi))))
     in if op = LDMINT then regs (vec_load i mi)
        else if op = STMINT then memory (vec_store i)
        else if op = LDMINTI then regs (indirect_read_self i mi)
        else if op = STMINTI then memory (indirect_write_self i)
        else if op = MOVINT then regs (vec_unary Inr i)
        else if op = PUSHINT then proc (bind_result (sv_at r0 (ap_Ci P)) (\<lambda>x. Inr (P\<lparr>ap_stacki := ap_stacki P @ [x]\<rparr>)))
        else if op = POPINT then proc (exec_popint i P)
        else if op = LDTN then regs (vec_fill (\<lambda>_. Inr (scast (ap_thread_num P))) i)
        else if op = LDARG then regs (vec_fill (\<lambda>_. Inr (ap_arg P)) i)
        else if op = STARG then proc (bind_result (sv_at r0 (ap_Ci P)) (\<lambda>x. Inr (P\<lparr>ap_arg := x\<rparr>)))
        else if op = LDINT then regs (vec_fill (\<lambda>_. Inr (imm i)) i)
        else if op = ADDINT then regs (vec_binary (\<lambda>a b. Inr (a + b)) i)
        else if op = SUBINT then regs (vec_binary (\<lambda>a b. Inr (a - b)) i)
        else if op = MULINT then regs (vec_binary (\<lambda>a b. Inr (a * b)) i)
        else if op = DIVINT then regs (vec_divide i)
        else if op = INCINT then regs (vec_increment i)
        else if op = EQZC then regs (vec_unary (\<lambda>a. Inr (of_truth (a = 0))) i)
        else if op = LTZC then regs (vec_unary (\<lambda>a. Inr (of_truth (a <s 0))) i)
        else if op = LTC then regs (vec_binary (\<lambda>a b. Inr (of_truth (a <s b))) i)
        else if op = GTC then regs (vec_binary (\<lambda>a b. Inr (of_truth (b <s a))) i)
        else if op = EQC then regs (vec_binary (\<lambda>a b. Inr (of_truth (a = b))) i)
        else if op = PRINTINT then proc (bind_result (sv_at r0 (ap_Ci P)) (\<lambda>x. Inr (out_put (OutInteger x) P)))
        else if op = PRINTFLOATPREC then proc (Inr (out_put (OutPrecision (ucast n)) P))
        else if op = PRINTSTR then proc (Inr (out_put (OutChars (le_bytes 4 (unat n))) P))
        else if op = PRINTCHR then proc (Inr (out_put (OutChars (le_bytes 1 (unat n))) P))
        else if op = SHUFFLE then bind_io (exec_shuffle E pl i P) (\<lambda>P. Some (Inr (P, mi)))
        else if op = BITDECINT then regs (bitdecint i)
        else if op = RAND then proc (exec_rand E pl i P)
        else Some (Inr (P, mi)))"

end
