(* ===== verification/VmArith.thy ===== *)
theory VmArith
  imports Regint
begin

section \<open>Arithmetic instructions on shares and clear values (Processor/instructions.h)\<close>

text \<open>
  The registers for shares and for clear values of the computation domain (\<open>Procp\<close>) and its memory (\<open>machine.Mp\<close>). The types of shares and clear values are those the machine is
  instantiated with: their operations are the argument \<open>ops\<close>. Preprocessing is drawn from a state of any type.
\<close>

subsection \<open>State and operations\<close>

record ('c, 's, 'd) vm = arith_proc +
  vm_S :: "'s stacked"
  vm_C :: "'c stacked"
  vm_DataF :: 'd
  vm_PC :: "32 word"
  vm_PC_stack :: "32 word list"
  vm_arg_stack :: "64 word list"

record ('c, 's) vm_memory =
  mm_Mi :: "64 word list"
  mm_MS :: "'s list"
  mm_MC :: "'c list"

type_synonym ('c, 's, 'd) vm_state = "('c, 's, 'd) vm \<times> ('c, 's) vm_memory"

text \<open>\<open>so_constant\<close> is \<open>constant(x, my_num, alphai)\<close>; a shift may fail; \<open>so_zero\<close> and \<open>so_czero\<close> are the values of the default constructors.\<close>

record ('c, 's, 'd) share_ops =
  so_of_long :: "64 word \<Rightarrow> 'c"
  so_cadd :: "'c \<Rightarrow> 'c \<Rightarrow> 'c"
  so_csub :: "'c \<Rightarrow> 'c \<Rightarrow> 'c"
  so_cmul :: "'c \<Rightarrow> 'c \<Rightarrow> 'c"
  so_cand :: "'c \<Rightarrow> 'c \<Rightarrow> 'c"
  so_cxor :: "'c \<Rightarrow> 'c \<Rightarrow> 'c"
  so_cor :: "'c \<Rightarrow> 'c \<Rightarrow> 'c"
  so_cshl :: "'c \<Rightarrow> 'c \<Rightarrow> 'c result"
  so_cshr :: "'c \<Rightarrow> 'c \<Rightarrow> 'c result"
  so_cshli :: "'c \<Rightarrow> 64 word \<Rightarrow> 'c result"
  so_cshri :: "'c \<Rightarrow> 64 word \<Rightarrow> 'c result"
  so_constant :: "'c \<Rightarrow> 's"
  so_zero :: 's
  so_czero :: 'c
  so_add :: "'s \<Rightarrow> 's \<Rightarrow> 's"
  so_sub :: "'s \<Rightarrow> 's \<Rightarrow> 's"
  so_mulc :: "'s \<Rightarrow> 'c \<Rightarrow> 's"
  so_triple :: "'d \<Rightarrow> (('s \<times> 's \<times> 's) \<times> 'd) io"
  so_bit :: "'d \<Rightarrow> ('s \<times> 'd) io"
  so_random :: "'d \<Rightarrow> ('s \<times> 'd) io"

subsection \<open>Loops over two vectors\<close>

text \<open>\<open>*dest++ = f(*source++)\<close> and \<open>*dest++ = f(*op1++, *op2++)\<close> with operands in other register files.\<close>

definition vec_from :: "('b \<Rightarrow> 'a result) \<Rightarrow> instr \<Rightarrow> 'b stacked \<Rightarrow> 'a stacked \<Rightarrow> 'a stacked result" where
  "vec_from f i w v =
     bind_result (sv_ptr (in_r i ! 0) v) (\<lambda>d. bind_result (sv_ptr (in_r i ! 1) w) (\<lambda>p.
       sv_on (fill_loop (\<lambda>k. bind_result (deref (sv_full w) (p + k)) f) d (vec_len i)) v))"

definition mixed_loop :: "('a \<Rightarrow> 'b \<Rightarrow> 'a result) \<Rightarrow> 'b list \<Rightarrow> nat \<Rightarrow> nat \<Rightarrow> nat \<Rightarrow> nat \<Rightarrow> 'a list \<Rightarrow> 'a list result" where
  "mixed_loop f ys d p q n = foldM_result (\<lambda>k xs. bind_result (deref xs (p + k)) (\<lambda>a. bind_result (deref ys (q + k)) (\<lambda>b.
     bind_result (f a b) (\<lambda>x. assign (d + k) x xs)))) [0..<n]"

text \<open>\<open>ra\<close> is the operand among the registers that are written, \<open>rb\<close> the other one.\<close>

definition vec_mixed :: "('a \<Rightarrow> 'b \<Rightarrow> 'a result) \<Rightarrow> nat \<Rightarrow> nat \<Rightarrow> instr \<Rightarrow> 'b stacked \<Rightarrow> 'a stacked \<Rightarrow> 'a stacked result" where
  "vec_mixed f ra rb i w v =
     bind_result (sv_ptr (in_r i ! 0) v) (\<lambda>d. bind_result (sv_ptr (in_r i ! ra) v) (\<lambda>p. bind_result (sv_ptr (in_r i ! rb) w) (\<lambda>q.
       sv_on (mixed_loop f (sv_full w) d p q (vec_len i)) v)))"

definition indirect_read :: "instr \<Rightarrow> 'a list \<Rightarrow> 64 word stacked \<Rightarrow> 'a stacked \<Rightarrow> 'a stacked result" where
  "indirect_read i mem ci v =
     bind_result (sv_range i (in_r i ! 1) ci) (\<lambda>p. bind_result (sv_range i (in_r i ! 0) v) (\<lambda>d.
       sv_on (indirect_read_loop mem (\<lambda>_. (!) (sv_full ci)) d p (vec_len i)) v))"

definition indirect_write :: "instr \<Rightarrow> 64 word stacked \<Rightarrow> 'a stacked \<Rightarrow> 'a list \<Rightarrow> 'a list result" where
  "indirect_write i ci v mem =
     bind_result (sv_range i (in_r i ! 1) ci) (\<lambda>p. bind_result (sv_range i (in_r i ! 0) v) (\<lambda>d.
       indirect_write_loop (sv_full v) ((!) (sv_full ci)) d p (vec_len i) mem))"

text \<open>\<open>STMS\<close> looks at the registers first.\<close>

definition vec_store_s :: "instr \<Rightarrow> 'a stacked \<Rightarrow> 'a list \<Rightarrow> 'a list result" where
  "vec_store_s i v mem =
     bind_result (sv_ptr (in_r i ! 0) v) (\<lambda>p. bind_result (mem_ptr (in_n i) mem) (\<lambda>d. copy_loop (sv_full v) p d (vec_len i) mem))"

subsection \<open>Prefix sums and picks\<close>

definition prefix_sums :: "('a \<Rightarrow> 'a \<Rightarrow> 'a) \<Rightarrow> 'a \<Rightarrow> instr \<Rightarrow> 'a stacked \<Rightarrow> 'a stacked result" where
  "prefix_sums add z i v =
     bind_result (sv_ptr (in_r i ! 0) v) (\<lambda>d. bind_result (sv_ptr (in_r i ! 1) v) (\<lambda>p.
       sv_on (\<lambda>xs. bind_result (foldM_result (\<lambda>k (s, xs). bind_result (deref xs (p + k)) (\<lambda>a.
         bind_result (assign (d + k) (add s a) xs) (\<lambda>xs. Inr (add s a, xs)))) [0..<vec_len i] (z, xs)) (\<lambda>(s, xs). Inr xs)) v))"

text \<open>The pointer moves by \<open>int(n)\<close> after every element.\<close>

definition picks :: "instr \<Rightarrow> 'a stacked \<Rightarrow> 'a stacked result" where
  "picks i v =
     bind_result (sv_ptr (in_r i ! 0) v) (\<lambda>d. bind_result (sv_ptr (in_r i ! 1 + in_r i ! 2) v) (\<lambda>p.
       sv_on (foldM_result (\<lambda>k xs. let a = int p + int k * int_of_n (in_n i) in
         if a < 0 then Inl undefined_behaviour
         else bind_result (deref xs (nat a)) (\<lambda>x. assign (d + k) x xs)) [0..<vec_len i]) v))"

subsection \<open>Preprocessing\<close>

definition sv_on_d :: "(nat \<Rightarrow> 'a list \<times> 'd \<Rightarrow> ('a list \<times> 'd) io) \<Rightarrow> nat \<Rightarrow> 'a stacked \<times> 'd \<Rightarrow> ('a stacked \<times> 'd) io" where
  "sv_on_d f n = (\<lambda>(v, df). bind_io (foldM_io f [0..<n] (sv_full v, df)) (\<lambda>(xs, df). Some (Inr (v\<lparr>sv_full := xs\<rparr>, df))))"

definition exec_triple :: "('d \<Rightarrow> (('s \<times> 's \<times> 's) \<times> 'd) io) \<Rightarrow> instr \<Rightarrow> 's stacked \<times> 'd \<Rightarrow> ('s stacked \<times> 'd) io" where
  "exec_triple get_three i = (\<lambda>(v, df).
     bind_io (Some (sv_ptr (in_r i ! 0) v)) (\<lambda>a. bind_io (Some (sv_ptr (in_r i ! 1) v)) (\<lambda>b. bind_io (Some (sv_ptr (in_r i ! 2) v)) (\<lambda>c.
       sv_on_d (\<lambda>k (xs, df). bind_io (get_three df) (\<lambda>((x, y, z), df).
         Some (bind_result (assign (a + k) x xs) (\<lambda>xs. bind_result (assign (b + k) y xs) (\<lambda>xs.
           bind_result (assign (c + k) z xs) (\<lambda>xs. Inr (xs, df))))))) (vec_len i) (v, df)))))"

definition exec_draw :: "('d \<Rightarrow> ('s \<times> 'd) io) \<Rightarrow> instr \<Rightarrow> 's stacked \<times> 'd \<Rightarrow> ('s stacked \<times> 'd) io" where
  "exec_draw get i = (\<lambda>(v, df).
     bind_io (Some (sv_ptr (in_r i ! 0) v)) (\<lambda>d.
       sv_on_d (\<lambda>k (xs, df). bind_io (get df) (\<lambda>(x, df). Some (bind_result (assign (d + k) x xs) (\<lambda>xs. Inr (xs, df)))))
         (vec_len i) (v, df)))"

subsection \<open>Single elements\<close>

text \<open>The cases of \<open>Instruction::execute\<close> that are a loop over elements with the registers and \<open>n\<close> incremented.\<close>

definition exec_ldmc :: "instr \<Rightarrow> 'c list \<Rightarrow> 'c stacked \<Rightarrow> 'c stacked result" where
  "exec_ldmc i mem =
     foldM_result (\<lambda>k v. bind_result (mem_ptr (in_n i + of_nat k) mem) (\<lambda>a. sv_put (in_r i ! 0 + of_nat k) (mem ! a) v)) [0..<vec_len i]"

definition exec_stmc :: "instr \<Rightarrow> 'c stacked \<Rightarrow> 'c list \<Rightarrow> 'c list result" where
  "exec_stmc i v =
     foldM_result (\<lambda>k mem. bind_result (sv_at (in_r i ! 0 + of_nat k) v) (\<lambda>x.
       bind_result (mem_ptr (in_n i + of_nat k) mem) (\<lambda>a. Inr (mem[a := x])))) [0..<vec_len i]"

definition exec_movc :: "instr \<Rightarrow> 'c stacked \<Rightarrow> 'c stacked result" where
  "exec_movc i =
     foldM_result (\<lambda>k v. bind_result (sv_at (in_r i ! 1 + of_nat k) v) (\<lambda>x. sv_put (in_r i ! 0 + of_nat k) x v)) [0..<vec_len i]"

subsection \<open>The instructions\<close>

definition on_S :: "('s stacked \<Rightarrow> 's stacked result) \<Rightarrow> ('c, 's, 'd) vm_state \<Rightarrow> ('c, 's, 'd) vm_state io" where
  "on_S f = (\<lambda>(P, M). Some (bind_result (f (vm_S P)) (\<lambda>v. Inr (P\<lparr>vm_S := v\<rparr>, M))))"

definition on_C :: "('c stacked \<Rightarrow> 'c stacked result) \<Rightarrow> ('c, 's, 'd) vm_state \<Rightarrow> ('c, 's, 'd) vm_state io" where
  "on_C f = (\<lambda>(P, M). Some (bind_result (f (vm_C P)) (\<lambda>v. Inr (P\<lparr>vm_C := v\<rparr>, M))))"

definition on_MS :: "('s stacked \<Rightarrow> 's list \<Rightarrow> 's list result) \<Rightarrow> ('c, 's, 'd) vm_state \<Rightarrow> ('c, 's, 'd) vm_state io" where
  "on_MS f = (\<lambda>(P, M). Some (bind_result (f (vm_S P) (mm_MS M)) (\<lambda>m. Inr (P, M\<lparr>mm_MS := m\<rparr>))))"

definition on_MC :: "('c stacked \<Rightarrow> 'c list \<Rightarrow> 'c list result) \<Rightarrow> ('c, 's, 'd) vm_state \<Rightarrow> ('c, 's, 'd) vm_state io" where
  "on_MC f = (\<lambda>(P, M). Some (bind_result (f (vm_C P) (mm_MC M)) (\<lambda>m. Inr (P, M\<lparr>mm_MC := m\<rparr>))))"

definition on_prep :: "('s stacked \<times> 'd \<Rightarrow> ('s stacked \<times> 'd) io) \<Rightarrow> ('c, 's, 'd) vm_state \<Rightarrow> ('c, 's, 'd) vm_state io" where
  "on_prep f = (\<lambda>(P, M). bind_io (f (vm_S P, vm_DataF P)) (\<lambda>(v, df). Some (Inr (P\<lparr>vm_S := v, vm_DataF := df\<rparr>, M))))"

text \<open>Instructions on shares: those of \<open>ARITHMETIC_INSTRUCTIONS\<close> whose result is one.\<close>

definition share_instr :: "('c, 's, 'd) share_ops \<Rightarrow> instr \<Rightarrow> 'c stacked \<Rightarrow> ('s stacked \<Rightarrow> 's stacked result) option" where
  "share_instr ops i C =
     (let op = in_opcode i; n = so_of_long ops (imm i); const = so_constant ops
      in if op = LDSI then Some (vec_fill (\<lambda>_. Inr (const n)) i)
         else if op = MOVS then Some (vec_unary Inr i)
         else if op = ADDS then Some (vec_binary (\<lambda>a b. Inr (so_add ops a b)) i)
         else if op = ADDM then Some (vec_mixed (\<lambda>a b. Inr (so_add ops a (const b))) 1 2 i C)
         else if op = ADDSI then Some (vec_unary (\<lambda>a. Inr (so_add ops a (const n))) i)
         else if op = SUBS then Some (vec_binary (\<lambda>a b. Inr (so_sub ops a b)) i)
         else if op = SUBSI then Some (vec_unary (\<lambda>a. Inr (so_sub ops a (const n))) i)
         else if op = SUBSFI then Some (vec_unary (\<lambda>a. Inr (so_sub ops (const n) a)) i)
         else if op = SUBML then Some (vec_mixed (\<lambda>a b. Inr (so_sub ops a (const b))) 1 2 i C)
         else if op = SUBMR then Some (vec_mixed (\<lambda>b a. Inr (so_sub ops (const a) b)) 2 1 i C)
         else if op = PREFIXSUMS then Some (prefix_sums (so_add ops) (so_zero ops) i)
         else if op = PICKS then Some (picks i)
         else if op = MULM then Some (vec_mixed (\<lambda>a b. Inr (so_mulc ops a b)) 1 2 i C)
         else if op = MULSI then Some (vec_unary (\<lambda>a. Inr (so_mulc ops a n)) i)
         else None)"

text \<open>Instructions on clear values.\<close>

definition clear_instr :: "('c, 's, 'd) share_ops \<Rightarrow> instr \<Rightarrow> 64 word stacked \<Rightarrow> ('c stacked \<Rightarrow> 'c stacked result) option" where
  "clear_instr ops i Ci =
     (let op = in_opcode i; n = so_of_long ops (imm i)
      in if op = LDI then Some (vec_fill (\<lambda>_. Inr n) i)
         else if op = MOVC then Some (exec_movc i)
         else if op = ADDC then Some (vec_binary (\<lambda>a b. Inr (so_cadd ops a b)) i)
         else if op = ADDCI then Some (vec_unary (\<lambda>a. Inr (so_cadd ops a n)) i)
         else if op = SUBC then Some (vec_binary (\<lambda>a b. Inr (so_csub ops a b)) i)
         else if op = SUBCI then Some (vec_unary (\<lambda>a. Inr (so_csub ops a n)) i)
         else if op = SUBCFI then Some (vec_unary (\<lambda>a. Inr (so_csub ops n a)) i)
         else if op = MULC then Some (vec_binary (\<lambda>a b. Inr (so_cmul ops a b)) i)
         else if op = MULCI then Some (vec_unary (\<lambda>a. Inr (so_cmul ops a n)) i)
         else if op = ANDC then Some (vec_binary (\<lambda>a b. Inr (so_cand ops a b)) i)
         else if op = XORC then Some (vec_binary (\<lambda>a b. Inr (so_cxor ops a b)) i)
         else if op = ORC then Some (vec_binary (\<lambda>a b. Inr (so_cor ops a b)) i)
         else if op = ANDCI then Some (vec_unary (\<lambda>a. Inr (so_cand ops a n)) i)
         else if op = XORCI then Some (vec_unary (\<lambda>a. Inr (so_cxor ops a n)) i)
         else if op = ORCI then Some (vec_unary (\<lambda>a. Inr (so_cor ops a n)) i)
         else if op = SHLC then Some (vec_binary (so_cshl ops) i)
         else if op = SHRC then Some (vec_binary (so_cshr ops) i)
         else if op = SHLCI then Some (vec_unary (\<lambda>a. so_cshli ops a (in_n i)) i)
         else if op = SHRCI then Some (vec_unary (\<lambda>a. so_cshri ops a (in_n i)) i)
         else if op = CONVINT then Some (vec_from (\<lambda>a. Inr (so_of_long ops a)) i Ci)
         else None)"

text \<open>Memory and preprocessing too; \<open>None\<close> for an instruction that is not among these.\<close>

definition exec_arith :: "('c, 's, 'd) share_ops \<Rightarrow> instr \<Rightarrow> ('c, 's, 'd) vm_state \<Rightarrow> ('c, 's, 'd) vm_state io option" where
  "exec_arith ops i s =
     (let op = in_opcode i; (P, M) = s; Ci = ap_Ci P
      in if op = LDMS then Some (on_S (vec_load i (mm_MS M)) s)
         else if op = STMS then Some (on_MS (vec_store_s i) s)
         else if op = LDMSI then Some (on_S (indirect_read i (mm_MS M) Ci) s)
         else if op = STMSI then Some (on_MS (indirect_write i Ci) s)
         else if op = LDMC then Some (on_C (exec_ldmc i (mm_MC M)) s)
         else if op = STMC then Some (on_MC (exec_stmc i) s)
         else if op = LDMCI then Some (on_C (indirect_read i (mm_MC M) Ci) s)
         else if op = STMCI then Some (on_MC (indirect_write i Ci) s)
         else if op = TRIPLE then Some (on_prep (exec_triple (so_triple ops) i) s)
         else if op = BIT then Some (on_prep (exec_draw (so_bit ops) i) s)
         else if op = RANDOMFULLS then Some (on_prep (exec_draw (so_random ops) i) s)
         else case share_instr ops i (vm_C P) of
           Some f \<Rightarrow> Some (on_S f s)
         | None \<Rightarrow> map_option (\<lambda>f. on_C f s) (clear_instr ops i Ci))"

end
