(* ===== verification/VmRun.thy ===== *)
theory VmRun
  imports VmArith
begin

section \<open>Running a tape (Program::execute, Instruction::execute, Processor::call_tape)\<close>

text \<open>
  A tape runs until the program counter leaves it. \<open>CALL_TAPE\<close> runs another tape on new registers behind those of the
  caller, with arguments copied in before and results copied out behind. Whatever the model does not have (openings,
  multiplications, input and output, the binary field and circuits, other threads) is the argument \<open>env_other\<close>.
\<close>

subsection \<open>The machine\<close>

record ('c, 's, 'd) vm_env =
  env_E :: block_cipher
  env_pl :: nat
  env_ops :: "('c, 's, 'd) share_ops"
  env_progs :: "program list"
  env_n_players :: nat
  env_my_num :: nat
  env_threshold :: nat
  env_other :: "instr \<Rightarrow> ('c, 's, 'd) vm_state \<Rightarrow> ('c, 's, 'd) vm_state io"

definition regint_ops :: "nat list" where
  "regint_ops =
    [LDMINT, STMINT, LDMINTI, STMINTI, MOVINT, PUSHINT, POPINT, LDTN, LDARG, STARG, LDINT, ADDINT, SUBINT, MULINT, DIVINT,
     INCINT, EQZC, LTZC, LTC, GTC, EQC, PRINTINT, PRINTFLOATPREC, PRINTSTR, PRINTCHR, SHUFFLE, BITDECINT, RAND]"

text \<open>Opcodes that the loop over the elements does nothing for: they announce what a tape uses.\<close>

definition announce_ops :: "nat list" where
  "announce_ops = [REQBL, GREQBL, ACTIVE, USE, USE_INP, USE_EDABIT, USE_MATMUL, USE_PREP, GUSE_PREP]"

definition control_ops :: "nat list" where
  "control_ops = [JMP, JMPI, JMPNZ, JMPEQZ, CRASH, NPLAYERS, THRESHOLD, PLAYERID]"

subsection \<open>Control flow\<close>

definition jump :: "32 word \<Rightarrow> ('c, 's, 'd) vm \<Rightarrow> ('c, 's, 'd) vm" where
  "jump d P = P\<lparr>vm_PC := vm_PC P + d\<rparr>"

definition write_Ci :: "32 word \<Rightarrow> 64 word \<Rightarrow> ('c, 's, 'd) vm \<Rightarrow> ('c, 's, 'd) vm result" where
  "write_Ci r x P = bind_result (sv_put r x (ap_Ci P)) (\<lambda>v. Inr (P\<lparr>ap_Ci := v\<rparr>))"

text \<open>One round of the loop in \<open>Instruction::execute\<close>, with the first register number as it is by then.\<close>

definition control_step :: "('c, 's, 'd) vm_env \<Rightarrow> instr \<Rightarrow> nat \<Rightarrow> ('c, 's, 'd) vm \<Rightarrow> ('c, 's, 'd) vm result" where
  "control_step env i k P =
     (let op = in_opcode i; r = in_r i ! 0 + of_nat k; n = ucast (in_n i) :: 32 word
      in if op = JMP then Inr (jump n P)
         else if op = JMPI then bind_result (sv_at r (ap_Ci P)) (\<lambda>x. Inr (jump (ucast x) P))
         else if op = JMPNZ then bind_result (sv_at r (ap_Ci P)) (\<lambda>x. Inr (if x \<noteq> 0 then jump n P else P))
         else if op = JMPEQZ then bind_result (sv_at r (ap_Ci P)) (\<lambda>x. Inr (if x = 0 then jump n P else P))
         else if op = CRASH then bind_result (sv_at r (ap_Ci P)) (\<lambda>x. if x \<noteq> 0 then Inl crash_requested else Inr P)
         else if op = NPLAYERS then write_Ci r (of_nat (env_n_players env)) P
         else if op = THRESHOLD then write_Ci r (of_nat (env_threshold env)) P
         else if op = PLAYERID then write_Ci r (of_nat (env_my_num env)) P
         else Inr P)"

definition exec_control :: "('c, 's, 'd) vm_env \<Rightarrow> instr \<Rightarrow> ('c, 's, 'd) vm \<Rightarrow> ('c, 's, 'd) vm result" where
  "exec_control env i P = foldM_result (control_step env i) [0..<vec_len i] P"

text \<open>The switch of \<open>Program::execute\<close>, for any instruction but \<open>CALL_TAPE\<close>.\<close>

definition exec_instr :: "('c, 's, 'd) vm_env \<Rightarrow> instr \<Rightarrow> ('c, 's, 'd) vm_state \<Rightarrow> ('c, 's, 'd) vm_state io" where
  "exec_instr env i s =
     (let (P, M) = s in
      if in_opcode i \<in> set regint_ops then
        bind_io (exec_regint (env_E env) (env_pl env) i (P, mm_Mi M)) (\<lambda>(P, mi). Some (Inr (P, M\<lparr>mm_Mi := mi\<rparr>)))
      else if in_opcode i \<in> set control_ops then Some (bind_result (exec_control env i P) (\<lambda>P. Inr (P, M)))
      else if in_opcode i \<in> set announce_ops then Some (Inr s)
      else case exec_arith (env_ops env) i s of Some m \<Rightarrow> m | None \<Rightarrow> env_other env i s)"

subsection \<open>Frames\<close>

definition vm_reset :: "('c, 's, 'd) share_ops \<Rightarrow> program \<Rightarrow> 32 word \<Rightarrow> ('c, 's, 'd) vm \<Rightarrow> ('c, 's, 'd) vm result" where
  "vm_reset ops prog arg P =
     bind_result (sv_resize (so_zero ops) (unat (num_reg prog SINT)) (vm_S P)) (\<lambda>S.
     bind_result (sv_resize (so_czero ops) (unat (num_reg prog CINT)) (vm_C P)) (\<lambda>C.
     bind_result (sv_resize 0 (unat (num_reg prog INT_T)) (ap_Ci P)) (\<lambda>Ci.
     Inr (P\<lparr>vm_S := S, vm_C := C, ap_Ci := Ci, ap_arg := scast arg\<rparr>))))"

definition vm_push_args :: "32 word list \<Rightarrow> ('c, 's, 'd) vm \<Rightarrow> ('c, 's, 'd) vm result" where
  "vm_push_args args P =
     bind_result (push_args args SINT (vm_S P)) (\<lambda>S. bind_result (push_args args CINT (vm_C P)) (\<lambda>C.
     bind_result (push_args args INT_T (ap_Ci P)) (\<lambda>Ci. Inr (P\<lparr>vm_S := S, vm_C := C, ap_Ci := Ci\<rparr>))))"

definition vm_pop_stack :: "32 word list \<Rightarrow> ('c, 's, 'd) vm \<Rightarrow> ('c, 's, 'd) vm result" where
  "vm_pop_stack args P =
     bind_result (pop_stack args SINT (vm_S P)) (\<lambda>S. bind_result (pop_stack args CINT (vm_C P)) (\<lambda>C.
     bind_result (pop_stack args INT_T (ap_Ci P)) (\<lambda>Ci. Inr (P\<lparr>vm_S := S, vm_C := C, ap_Ci := Ci\<rparr>))))"

text \<open>\<open>call_tape\<close> up to the run of the tape, and after it; \<open>execute\<close> starts at 0.\<close>

definition call_enter :: "('c, 's, 'd) vm_env \<Rightarrow> instr \<Rightarrow> ('c, 's, 'd) vm \<Rightarrow> (program \<times> ('c, 's, 'd) vm) result" where
  "call_enter env i P =
     bind_result (sv_at (in_r i ! 1) (ap_Ci P)) (\<lambda>arg.
       let P = P\<lparr>vm_PC_stack := vm_PC_stack P @ [vm_PC P], vm_arg_stack := vm_arg_stack P @ [ap_arg P],
                 vm_S := push_stack (vm_S P), vm_C := push_stack (vm_C P), ap_Ci := push_stack (ap_Ci P)\<rparr>;
           t = scast (in_r i ! 0) :: 64 word
       in if length (env_progs env) \<le> unat t then Inl out_of_range
          else let tape = env_progs env ! unat t
               in bind_result (vm_reset (env_ops env) tape (ucast arg) P) (\<lambda>P. bind_result (vm_push_args (in_start i) P) (\<lambda>P.
                    Inr (tape, P\<lparr>vm_PC := 0\<rparr>))))"

definition call_leave :: "instr \<Rightarrow> ('c, 's, 'd) vm \<Rightarrow> ('c, 's, 'd) vm result" where
  "call_leave i P =
     bind_result (vm_pop_stack (in_start i) P) (\<lambda>P.
       if vm_PC_stack P = [] \<or> vm_arg_stack P = [] then Inl undefined_behaviour
       else Inr (P\<lparr>vm_PC := last (vm_PC_stack P), vm_PC_stack := butlast (vm_PC_stack P),
                   ap_arg := last (vm_arg_stack P), vm_arg_stack := butlast (vm_arg_stack P)\<rparr>))"

text \<open>A call with a vector size is a call for every element, with the register numbers incremented.\<close>

definition calls :: "instr \<Rightarrow> instr list" where
  "calls i = map (\<lambda>k. i\<lparr>in_r := map (\<lambda>r. r + of_nat k) (in_r i)\<rparr>) [0..<vec_len i]"

subsection \<open>The loop\<close>

definition fetch :: "program \<Rightarrow> ('c, 's, 'd) vm \<Rightarrow> instr option" where
  "fetch prog P = (if unat (vm_PC P) < length (pg_p prog) then Some (pg_p prog ! unat (vm_PC P)) else None)"

definition next_PC :: "('c, 's, 'd) vm_state \<Rightarrow> ('c, 's, 'd) vm_state" where
  "next_PC = (\<lambda>(P, M). (jump 1 P, M))"

text \<open>\<open>pend\<close> are the calls of the current instruction that are left; the value \<open>None\<close> is a tape that does not end.\<close>

partial_function (option) vm_exec :: "('c, 's, 'd) vm_env \<Rightarrow> program \<Rightarrow> instr list \<Rightarrow> ('c, 's, 'd) vm_state \<Rightarrow> ('c, 's, 'd) vm_state result option" where
  "vm_exec env prog pend s =
     (case pend of
        [] \<Rightarrow> (case fetch prog (fst s) of
            None \<Rightarrow> Some (Inr s)
          | Some i \<Rightarrow>
              if in_opcode i = CALL_TAPE then vm_exec env prog (calls i) (next_PC s)
              else (case exec_instr env i (next_PC s) of
                  None \<Rightarrow> None
                | Some (Inl e) \<Rightarrow> Some (Inl e)
                | Some (Inr s) \<Rightarrow> vm_exec env prog [] s))
      | i # pend \<Rightarrow> (case call_enter env i (fst s) of
            Inl e \<Rightarrow> Some (Inl e)
          | Inr (tape, P) \<Rightarrow> Option.bind (vm_exec env tape [] (P, snd s)) (\<lambda>r. case r of
                Inl e \<Rightarrow> Some (Inl e)
              | Inr (P, M) \<Rightarrow> (case call_leave i P of
                    Inl e \<Rightarrow> Some (Inl e)
                  | Inr P \<Rightarrow> vm_exec env prog pend (P, M)))))"

lemma vm_exec_end: "fetch prog (fst s) = None \<Longrightarrow> vm_exec env prog [] s = Some (Inr s)"
  by (subst vm_exec.simps) simp

lemma vm_exec_step:
  "fetch prog (fst s) = Some i \<Longrightarrow> in_opcode i \<noteq> CALL_TAPE \<Longrightarrow> exec_instr env i (next_PC s) = Some (Inr s') \<Longrightarrow>
    vm_exec env prog [] s = vm_exec env prog [] s'"
  by (subst vm_exec.simps) simp

lemma vm_exec_fault:
  "fetch prog (fst s) = Some i \<Longrightarrow> in_opcode i \<noteq> CALL_TAPE \<Longrightarrow> exec_instr env i (next_PC s) = Some (Inl e) \<Longrightarrow>
    vm_exec env prog [] s = Some (Inl e)"
  by (subst vm_exec.simps) simp

definition execute :: "('c, 's, 'd) vm_env \<Rightarrow> program \<Rightarrow> ('c, 's, 'd) vm_state \<Rightarrow> ('c, 's, 'd) vm_state io" where
  "execute env prog = (\<lambda>(P, M). vm_exec env prog [] (P\<lparr>vm_PC := 0\<rparr>, M))"

text \<open>The constructor of \<open>Processor\<close>, for the tape of a thread, and the memory a tape needs.\<close>

definition vm_start :: "('c, 's, 'd) share_ops \<Rightarrow> program \<Rightarrow> 32 word \<Rightarrow> prng \<Rightarrow> 'd \<Rightarrow> bool \<Rightarrow> ('c, 's, 'd) vm result" where
  "vm_start ops prog thread_num shared_prng df on =
     vm_reset ops prog 0
       \<lparr>ap_Ci = sv_new 0 0, ap_thread_num = thread_num, ap_arg = 0, ap_stacki = [], ap_shared_prng = shared_prng, ap_on = on,
        ap_out = [], vm_S = sv_new (so_zero ops) 0, vm_C = sv_new (so_czero ops) 0, vm_DataF = df, vm_PC = 0, vm_PC_stack = [],
        vm_arg_stack = []\<rparr>"

definition memory_for :: "('c, 's, 'd) share_ops \<Rightarrow> program \<Rightarrow> ('c, 's) vm_memory \<Rightarrow> ('c, 's) vm_memory" where
  "memory_for ops prog M =
     M\<lparr>mm_MS := minimum_size (so_zero ops) (unat (direct_mem prog SINT)) (mm_MS M),
       mm_MC := minimum_size (so_czero ops) (unat (direct_mem prog CINT)) (mm_MC M),
       mm_Mi := minimum_size 0 (unat (direct_mem prog INT_T)) (mm_Mi M)\<rparr>"

text \<open>\<open>Machine::load_program\<close> among \<open>nplayers\<close> parties.\<close>

definition load_program :: "('c, 's, 'd) share_ops \<Rightarrow> vm_hooks \<Rightarrow> nat \<Rightarrow> octet list \<Rightarrow> ('c, 's) vm_memory \<Rightarrow> (program \<times> ('c, 's) vm_memory) result" where
  "load_program ops hk nplayers bytes M =
     bind_result (program_parse hk bytes (program_new nplayers)) (\<lambda>prog. Inr (prog, memory_for ops prog M))"

end
