(* ===== verification/VmFrame.thy ===== *)
theory VmFrame
  imports VmRun
begin

section \<open>Frames of the virtual machine\<close>

text \<open>
  An instruction whose registers are not negative changes nothing below the frame of the current tape, so that a call
  leaves the registers of its caller alone except for the results it asks for.
\<close>

subsection \<open>What is kept of a vector\<close>

definition keeps :: "nat \<Rightarrow> 'a list \<Rightarrow> 'a list \<Rightarrow> bool" where
  "keeps b xs ys \<longleftrightarrow> length ys = length xs \<and> take b ys = take b xs"

lemma keeps_refl [simp]: "keeps b xs xs"
  by (simp add: keeps_def)

lemma keeps_trans: "keeps b xs ys \<Longrightarrow> keeps b ys zs \<Longrightarrow> keeps b xs zs"
  by (simp add: keeps_def)

lemma keeps_update: "b \<le> p \<Longrightarrow> keeps b xs (xs[p := x])"
  by (simp add: keeps_def)

lemma keeps_assign: "assign p x xs = Inr ys \<Longrightarrow> b \<le> p \<Longrightarrow> keeps b xs ys"
  by (auto simp: assign_def keeps_update split: if_splits)

lemma foldM_result_rel:
  assumes "foldM_result f xs s = Inr s'" "\<And>s. R s s" "\<And>s t u. R s t \<Longrightarrow> R t u \<Longrightarrow> R s u"
    and "\<And>x s s'. x \<in> set xs \<Longrightarrow> f x s = Inr s' \<Longrightarrow> R s s'"
  shows "R s s'"
  using assms(1,4)
proof (induction xs arbitrary: s)
  case Nil
  then show ?case by (simp add: assms(2))
next
  case (Cons x xs)
  from Cons.prems(1) obtain t where t: "f x s = Inr t" "foldM_result f xs t = Inr s'" by (auto simp: bind_result_Inr_iff)
  show ?case by (rule assms(3) [OF Cons.prems(2) [OF _ t(1)] Cons.IH [OF t(2)]]) (use Cons.prems(2) in auto)
qed

lemma foldM_io_rel:
  assumes "foldM_io f xs s = Some (Inr s')" "\<And>s. R s s" "\<And>s t u. R s t \<Longrightarrow> R t u \<Longrightarrow> R s u"
    and "\<And>x s s'. x \<in> set xs \<Longrightarrow> f x s = Some (Inr s') \<Longrightarrow> R s s'"
  shows "R s s'"
  using assms(1,4)
proof (induction xs arbitrary: s)
  case Nil
  then show ?case by (simp add: assms(2))
next
  case (Cons x xs)
  from Cons.prems(1) obtain t where t: "f x s = Some (Inr t)" "foldM_io f xs t = Some (Inr s')" by (auto simp: bind_io_Inr_iff)
  show ?case by (rule assms(3) [OF Cons.prems(2) [OF _ t(1)] Cons.IH [OF t(2)]]) (use Cons.prems(2) in auto)
qed

lemma foldM_result_keeps:
  assumes "foldM_result f ks xs = Inr ys" "\<And>k xs ys. k \<in> set ks \<Longrightarrow> f k xs = Inr ys \<Longrightarrow> keeps b xs ys"
  shows "keeps b xs ys"
  by (rule foldM_result_rel [where R = "keeps b", OF assms(1) _ _ assms(2)]) (auto intro: keeps_trans)

lemma loop_keeps:
  assumes "b \<le> d"
  shows "fill_loop f d n xs = Inr ys \<Longrightarrow> keeps b xs ys"
    and "unary_loop g d p n xs = Inr ys \<Longrightarrow> keeps b xs ys"
    and "binary_loop h d p q n xs = Inr ys \<Longrightarrow> keeps b xs ys"
    and "mixed_loop m ws d p q n xs = Inr ys \<Longrightarrow> keeps b xs ys"
    and "copy_loop src p d n xs = Inr ys \<Longrightarrow> keeps b xs ys"
    and "indirect_read_loop mem ix d p n xs = Inr ys \<Longrightarrow> keeps b xs ys"
  unfolding fill_loop_def unary_loop_def binary_loop_def mixed_loop_def copy_loop_def indirect_read_loop_def
  by - (erule foldM_result_keeps; insert assms; auto simp: bind_result_Inr_iff intro: keeps_assign keeps_update)+

subsection \<open>Register files\<close>

definition same_frame :: "'a stacked \<Rightarrow> 'a stacked \<Rightarrow> bool" where
  "same_frame v w \<longleftrightarrow> sv_start w = sv_start v \<and> sv_stack w = sv_stack v \<and> keeps (sv_start v) (sv_full v) (sv_full w)"

lemma same_frame_refl [simp]: "same_frame v v"
  by (simp add: same_frame_def)

lemma same_frame_trans: "same_frame u v \<Longrightarrow> same_frame v w \<Longrightarrow> same_frame u w"
  by (auto simp: same_frame_def intro: keeps_trans)

lemma same_frame_start: "same_frame v w \<Longrightarrow> sv_start w = sv_start v"
  by (simp add: same_frame_def)

lemma same_frame_sv_on:
  assumes "sv_on f v = Inr w" "\<And>xs. f (sv_full v) = Inr xs \<Longrightarrow> keeps (sv_start v) (sv_full v) xs"
  shows "same_frame v w"
  using assms by (auto simp: sv_on_def bind_result_Inr_iff same_frame_def)

text \<open>A register number from 0 on is at or above the start of the frame, one below 0 is not.\<close>

lemma sv_index_nonneg:
  assumes "sv_start v < 2 ^ 63" "0 \<le> sint (r :: 32 word)"
  shows "sv_index v (scast r) = sv_start v + nat (sint r)"
proof -
  obtain a where a: "sint r = int a" using assms(2) nonneg_int_cases by blast
  then have "a < 2 ^ 31" using sint_lt [of r] by simp
  then have l: "sv_start v + a < 2 ^ 64" using assms(1) by simp
  have "scast r = (of_nat a :: 64 word)" by (simp add: scast_eq a)
  then have "sv_index v (scast r) = unat (of_nat (sv_start v + a) :: 64 word)" by (simp add: sv_index_def)
  also have "\<dots> = sv_start v + a" unfolding unat_of_nat by (rule mod_less) (use l in simp)
  finally show ?thesis by (simp add: a)
qed

lemma sv_ptr_ge: "sv_ptr r v = Inr p \<Longrightarrow> sv_start v < 2 ^ 63 \<Longrightarrow> 0 \<le> sint r \<Longrightarrow> sv_start v \<le> p"
  by (auto simp: sv_ptr_def Let_def sv_index_nonneg split: if_splits)

lemma sv_range_ge: "sv_range i r v = Inr p \<Longrightarrow> 0 \<le> sint r \<Longrightarrow> sv_start v \<le> p"
  by (auto simp: sv_range_def Let_def split: if_splits)

lemma sv_put_frame: "sv_put r x v = Inr w \<Longrightarrow> sv_start v < 2 ^ 63 \<Longrightarrow> 0 \<le> sint r \<Longrightarrow> same_frame v w"
  by (auto simp: sv_put_def bind_result_Inr_iff same_frame_def intro!: keeps_update sv_ptr_ge)

text \<open>The registers of an instruction: not negative for any element of the vector.\<close>

definition reg_ok :: "instr \<Rightarrow> 32 word \<Rightarrow> bool" where
  "reg_ok i r \<longleftrightarrow> 0 \<le> sint r \<and> sint r + sint (in_size i) \<le> 2 ^ 31"

definition regs_ok :: "instr \<Rightarrow> bool" where
  "regs_ok i \<longleftrightarrow> 4 \<le> length (in_r i) \<and> (\<forall>r\<in>set (in_r i). reg_ok i r) \<and> (\<forall>r\<in>set (in_start i). reg_ok i r)"

lemma reg_ok_element:
  assumes "reg_ok i r" "k < vec_len i"
  shows "sint (r + of_nat k) = sint r + int k"
proof -
  obtain a where a: "sint r = int a" using assms(1) nonneg_int_cases by (auto simp: reg_ok_def)
  have "sint r + sint (in_size i) \<le> 2 ^ 31" "int k < sint (in_size i)" using assms by (auto simp: reg_ok_def vec_len_def)
  then have b: "a + k < 2 ^ 31" using a by simp
  have "r + of_nat k = of_int (sint r) + of_nat k" by simp
  also have "\<dots> = of_nat (a + k)" unfolding a by simp
  finally show ?thesis using sint_of_nat_small(1) [of "a + k", where 'a = 32] b a by simp
qed

lemma reg_ok_nonneg: "reg_ok i r \<Longrightarrow> 0 \<le> sint r" "reg_ok i r \<Longrightarrow> k < vec_len i \<Longrightarrow> 0 \<le> sint (r + of_nat k)"
  by (simp add: reg_ok_def) (simp add: reg_ok_element, simp add: reg_ok_def)

lemma regs_okD:
  "regs_ok i \<Longrightarrow> j < 4 \<Longrightarrow> reg_ok i (in_r i ! j)"
  "regs_ok i \<Longrightarrow> j < length (in_start i) \<Longrightarrow> reg_ok i (in_start i ! j)"
  by (auto simp: regs_ok_def)

lemma unat_size_minus: "k < vec_len i \<Longrightarrow> unat (in_size i - of_nat k) = vec_len i - k"
proof -
  assume k: "k < vec_len i"
  then have p: "0 < sint (in_size i)" by (simp add: vec_len_def)
  then have s: "in_size i = of_nat (vec_len i)" by (simp add: vec_len_def)
  have b: "vec_len i < 2 ^ 31" using p sint_lt [of "in_size i"] by (simp add: vec_len_def)
  have "in_size i - of_nat k = of_nat (vec_len i - k)" using k s by (simp add: of_nat_diff)
  then show ?thesis using sint_of_nat_small(2) [of "vec_len i - k", where 'a = 32] b by simp
qed

lemma regs_ok_0 [simp]: "regs_ok i \<Longrightarrow> 0 \<le> sint (in_r i ! 0)"
  using reg_ok_nonneg(1) regs_okD(1) [of i 0] by simp

subsection \<open>Vector instructions\<close>

lemma vec_frame:
  assumes "sv_start v < 2 ^ 63" "0 \<le> sint (in_r i ! 0)"
  shows "vec_fill f i v = Inr w \<Longrightarrow> same_frame v w"
    and "vec_unary g i v = Inr w \<Longrightarrow> same_frame v w"
    and "vec_binary h i v = Inr w \<Longrightarrow> same_frame v w"
    and "vec_from l i x v = Inr w \<Longrightarrow> same_frame v w"
    and "vec_mixed m ra rb i y v = Inr w \<Longrightarrow> same_frame v w"
    and "vec_load i mem v = Inr w \<Longrightarrow> same_frame v w"
  unfolding vec_fill_def vec_unary_def vec_binary_def vec_from_def vec_mixed_def vec_load_def bind_result_Inr_iff
  by - (elim exE conjE; erule same_frame_sv_on; insert assms; erule loop_keeps [rotated]; blast dest: sv_ptr_ge)+

lemma indirect_frame:
  assumes "0 \<le> sint (in_r i ! 0)"
  shows "indirect_read i mem x v = Inr w \<Longrightarrow> same_frame v w"
    and "indirect_read_self i ms ci = Inr ci' \<Longrightarrow> same_frame ci ci'"
  unfolding indirect_read_def indirect_read_self_def bind_result_Inr_iff
  by - (elim exE conjE; erule same_frame_sv_on; insert assms; erule loop_keeps [rotated]; blast dest: sv_range_ge)+

lemma sv_on_loop_frame:
  assumes "sv_on (foldM_result f ks) v = Inr w" "\<And>k xs ys. k \<in> set ks \<Longrightarrow> f k xs = Inr ys \<Longrightarrow> keeps (sv_start v) xs ys"
  shows "same_frame v w"
  by (rule same_frame_sv_on [OF assms(1)]) (erule foldM_result_keeps, rule assms(2))

lemma vec_frame_more:
  assumes "sv_start v < 2 ^ 63" "0 \<le> sint (in_r i ! 0)"
  shows "vec_divide i v = Inr w \<Longrightarrow> same_frame v w"
    and "vec_increment i v = Inr w \<Longrightarrow> same_frame v w"
proof -
  assume "vec_divide i v = Inr w"
  then obtain d where d: "sv_ptr (in_r i ! 0) v = Inr d" and "\<exists>p q. sv_on (foldM_result (\<lambda>k xs. bind_result (deref xs (q + k)) (\<lambda>b.
         if b = 0 then Inl division_by_zero
         else bind_result (deref xs (p + k)) (\<lambda>a. bind_result (divide_long a b) (\<lambda>x. assign (d + k) x xs)))) [0..<vec_len i]) v = Inr w"
    unfolding vec_divide_def bind_result_Inr_iff by blast
  with sv_ptr_ge [OF d assms] show "same_frame v w"
    by (elim exE) (erule sv_on_loop_frame, auto simp: bind_result_Inr_iff intro: keeps_assign split: if_splits)
next
  assume "vec_increment i v = Inr w"
  with assms show "same_frame v w" unfolding vec_increment_def bind_result_Inr_iff
    by (elim exE conjE) (erule same_frame_sv_on, erule loop_keeps [rotated], blast dest: sv_ptr_ge)
qed

lemma picks_frame:
  assumes "picks i u = Inr u'" "sv_start u < 2 ^ 63" "0 \<le> sint (in_r i ! 0)"
  shows "same_frame u u'"
proof -
  from assms(1) obtain d p where d: "sv_ptr (in_r i ! 0) u = Inr d"
    and r: "sv_on (foldM_result (\<lambda>k xs. let a = int p + int k * int_of_n (in_n i) in
         if a < 0 then Inl undefined_behaviour
         else bind_result (deref xs (nat a)) (\<lambda>x. assign (d + k) x xs)) [0..<vec_len i]) u = Inr u'"
    unfolding picks_def bind_result_Inr_iff by blast
  show ?thesis
    by (rule sv_on_loop_frame [OF r])
      (use sv_ptr_ge [OF d assms(2,3)] in \<open>auto simp: bind_result_Inr_iff Let_def intro: keeps_assign split: if_splits\<close>)
qed

lemma prefix_sums_frame:
  assumes "prefix_sums add z i v = Inr w" "sv_start v < 2 ^ 63" "0 \<le> sint (in_r i ! 0)"
  shows "same_frame v w"
proof -
  from assms(1) obtain d p where d: "sv_ptr (in_r i ! 0) v = Inr d"
    and r: "sv_on (\<lambda>xs. bind_result (foldM_result (\<lambda>k (s, xs). bind_result (deref xs (p + k)) (\<lambda>a.
         bind_result (assign (d + k) (add s a) xs) (\<lambda>xs. Inr (add s a, xs)))) [0..<vec_len i] (z, xs)) (\<lambda>(s, xs). Inr xs)) v = Inr w"
    unfolding prefix_sums_def bind_result_Inr_iff by blast
  note ge = sv_ptr_ge [OF d assms(2,3)]
  show ?thesis
  proof (rule same_frame_sv_on [OF r])
    fix ys
    assume "bind_result (foldM_result (\<lambda>k (s, xs). bind_result (deref xs (p + k)) (\<lambda>a.
         bind_result (assign (d + k) (add s a) xs) (\<lambda>xs. Inr (add s a, xs)))) [0..<vec_len i] (z, sv_full v)) (\<lambda>(s, xs). Inr xs) = Inr ys"
    then obtain s where "foldM_result (\<lambda>k (s, xs). bind_result (deref xs (p + k)) (\<lambda>a.
         bind_result (assign (d + k) (add s a) xs) (\<lambda>xs. Inr (add s a, xs)))) [0..<vec_len i] (z, sv_full v) = Inr (s, ys)"
      by (auto simp: bind_result_Inr_iff)
    then have "keeps (sv_start v) (snd (z, sv_full v)) (snd (s, ys))"
      by (rule foldM_result_rel [where R = "\<lambda>x y. keeps (sv_start v) (snd x) (snd y)"])
        (use ge in \<open>auto simp: bind_result_Inr_iff intro: keeps_trans keeps_assign\<close>)
    then show "keeps (sv_start v) (sv_full v) ys" by simp
  qed
qed

text \<open>A loop over a register file whose rounds keep the frame.\<close>

lemma foldM_frame:
  assumes "foldM_result f ks v = Inr w" "sv_start v < 2 ^ 63"
    and "\<And>k v w. k \<in> set ks \<Longrightarrow> f k v = Inr w \<Longrightarrow> sv_start v < 2 ^ 63 \<Longrightarrow> same_frame v w"
  shows "same_frame v w"
proof -
  have "sv_start v < 2 ^ 63 \<longrightarrow> same_frame v w"
    by (rule foldM_result_rel [where R = "\<lambda>v w. sv_start v < 2 ^ 63 \<longrightarrow> same_frame v w", OF assms(1)])
      (use assms(3) in \<open>auto intro: same_frame_trans dest: same_frame_start\<close>)
  then show ?thesis using assms(2) ..
qed

lemma element_frame:
  assumes "regs_ok i" "sv_start v < 2 ^ 63"
  shows "bitdecint i b = Inr b' \<Longrightarrow> sv_start b < 2 ^ 63 \<Longrightarrow> same_frame b b'"
    and "shuffle_copy i b = Inr b' \<Longrightarrow> sv_start b < 2 ^ 63 \<Longrightarrow> same_frame b b'"
    and "exec_ldmc i mem v = Inr w \<Longrightarrow> same_frame v w"
    and "exec_movc i v = Inr w \<Longrightarrow> same_frame v w"
proof -
  note ok = reg_ok_nonneg(2) [OF regs_okD(1) [OF assms(1)]] reg_ok_nonneg(2) [OF regs_okD(2) [OF assms(1)]]
  show "bitdecint i b = Inr b' \<Longrightarrow> sv_start b < 2 ^ 63 \<Longrightarrow> same_frame b b'" unfolding bitdecint_def
    by (erule (1) foldM_frame) (auto simp: bind_result_Inr_iff elim!: foldM_frame intro!: sv_put_frame ok split: if_splits)
  show "shuffle_copy i b = Inr b' \<Longrightarrow> sv_start b < 2 ^ 63 \<Longrightarrow> same_frame b b'" unfolding shuffle_copy_def
    by (erule (1) foldM_frame) (auto simp: bind_result_Inr_iff intro!: sv_put_frame ok)
  show "exec_ldmc i mem v = Inr w \<Longrightarrow> same_frame v w" unfolding exec_ldmc_def
    by (erule foldM_frame [OF _ assms(2)]) (auto simp: bind_result_Inr_iff intro!: sv_put_frame ok)
  show "exec_movc i v = Inr w \<Longrightarrow> same_frame v w" unfolding exec_movc_def
    by (erule foldM_frame [OF _ assms(2)]) (auto simp: bind_result_Inr_iff intro!: sv_put_frame ok)
qed

subsection \<open>Integer instructions\<close>

definition regint_frame :: "'z arith_proc_scheme \<Rightarrow> 'z arith_proc_scheme \<Rightarrow> bool" where
  "regint_frame P Q \<longleftrightarrow> same_frame (ap_Ci P) (ap_Ci Q) \<and> arith_proc.more Q = arith_proc.more P"

lemma regint_frame_refl [simp]: "regint_frame P P"
  by (simp add: regint_frame_def)

lemma regint_frame_trans: "regint_frame P Q \<Longrightarrow> regint_frame Q R \<Longrightarrow> regint_frame P R"
  by (auto simp: regint_frame_def intro: same_frame_trans)

lemma regint_frame_start: "regint_frame P Q \<Longrightarrow> sv_start (ap_Ci Q) = sv_start (ap_Ci P)"
  by (simp add: regint_frame_def same_frame_def)

lemma lift_Ci_frame:
  "lift_Ci f P = Inr Q \<Longrightarrow> (\<And>w. f (ap_Ci P) = Inr w \<Longrightarrow> same_frame (ap_Ci P) w) \<Longrightarrow> regint_frame P Q"
  by (auto simp: lift_Ci_def bind_result_Inr_iff regint_frame_def)

text \<open>Rounds that change the processor.\<close>

lemma foldM_regint_frame:
  assumes "foldM_result f ks P = Inr Q" "sv_start (ap_Ci P) = b"
    and "\<And>k P Q. k \<in> set ks \<Longrightarrow> f k P = Inr Q \<Longrightarrow> sv_start (ap_Ci P) = b \<Longrightarrow> regint_frame P Q"
  shows "regint_frame P Q"
proof -
  have "sv_start (ap_Ci P) = b \<longrightarrow> regint_frame P Q"
    by (rule foldM_result_rel [where R = "\<lambda>P Q. sv_start (ap_Ci P) = b \<longrightarrow> regint_frame P Q", OF assms(1)])
      (use assms(3) in \<open>auto intro: regint_frame_trans dest: regint_frame_start\<close>)
  then show ?thesis using assms(2) ..
qed

lemma assign_frame: "sv_on (assign p x) v = Inr w \<Longrightarrow> sv_start v \<le> p \<Longrightarrow> same_frame v w"
  by (erule same_frame_sv_on) (erule keeps_assign)

lemma exec_popint_frame:
  assumes "exec_popint i P = Inr Q" "sv_start (ap_Ci P) < 2 ^ 63" "0 \<le> sint (in_r i ! 0)"
  shows "regint_frame P Q"
proof -
  from assms(1) obtain d where d: "sv_ptr (in_r i ! 0) (ap_Ci P) = Inr d"
    and r: "foldM_result (\<lambda>k P. bind_result (popi P) (\<lambda>(x, P). lift_Ci (sv_on (assign (d + k) x)) P)) [0..<vec_len i] P = Inr Q"
    by (auto simp: exec_popint_def bind_result_Inr_iff)
  note ge = sv_ptr_ge [OF d assms(2,3)]
  show ?thesis
  proof (rule foldM_regint_frame [OF r refl])
    fix k P' Q'
    assume "bind_result (popi P') (\<lambda>(x, P). lift_Ci (sv_on (assign (d + k) x)) P) = Inr Q'" and b: "sv_start (ap_Ci P') = sv_start (ap_Ci P)"
    then obtain x where x: "lift_Ci (sv_on (assign (d + k) x)) (P'\<lparr>ap_stacki := butlast (ap_stacki P')\<rparr>) = Inr Q'"
      by (auto simp: bind_result_Inr_iff popi_def split: if_splits)
    have "regint_frame (P'\<lparr>ap_stacki := butlast (ap_stacki P')\<rparr>) Q'"
      by (rule lift_Ci_frame [OF x]) (use ge b in \<open>auto intro: assign_frame\<close>)
    then show "regint_frame P' Q'" by (simp add: regint_frame_def)
  qed
qed

lemma exec_rand_frame:
  assumes "exec_rand E pl i P = Inr Q" "sv_start (ap_Ci P) < 2 ^ 63" "0 \<le> sint (in_r i ! 0)"
  shows "regint_frame P Q"
proof -
  from assms(1) obtain d p where d: "sv_ptr (in_r i ! 0) (ap_Ci P) = Inr d"
    and r: "foldM_result (\<lambda>k P. bind_result (deref (sv_full (ap_Ci P)) (p + k)) (\<lambda>s.
         if sint s < 0 \<or> 32 \<le> sint s then Inl undefined_behaviour
         else bind_result (prng_get_uint E pl (ap_shared_prng P)) (\<lambda>(u, G).
           lift_Ci (sv_on (assign (d + k) (ucast (u mod push_bit (unat s) 1)))) (P\<lparr>ap_shared_prng := G\<rparr>)))) [0..<vec_len i] P = Inr Q"
    unfolding exec_rand_def bind_result_Inr_iff by blast
  note ge = sv_ptr_ge [OF d assms(2,3)]
  show ?thesis
  proof (rule foldM_regint_frame [OF r refl])
    fix k P' Q'
    assume "bind_result (deref (sv_full (ap_Ci P')) (p + k)) (\<lambda>s.
         if sint s < 0 \<or> 32 \<le> sint s then Inl undefined_behaviour
         else bind_result (prng_get_uint E pl (ap_shared_prng P')) (\<lambda>(u, G).
           lift_Ci (sv_on (assign (d + k) (ucast (u mod push_bit (unat s) 1)))) (P'\<lparr>ap_shared_prng := G\<rparr>))) = Inr Q'"
      and b: "sv_start (ap_Ci P') = sv_start (ap_Ci P)"
    then obtain x G where x: "lift_Ci (sv_on (assign (d + k) x)) (P'\<lparr>ap_shared_prng := G\<rparr>) = Inr Q'"
      by (auto simp: bind_result_Inr_iff split: if_splits)
    have "regint_frame (P'\<lparr>ap_shared_prng := G\<rparr>) Q'"
      by (rule lift_Ci_frame [OF x]) (use ge b in \<open>auto intro: assign_frame\<close>)
    then show "regint_frame P' Q'" by (simp add: regint_frame_def)
  qed
qed

text \<open>\<open>SHUFFLE\<close> swaps with an element behind, whose number the generator keeps within the vector.\<close>

lemma shuffle_swap_frame:
  assumes "shuffle_swap a b v = Inr w" "sv_start v < 2 ^ 63" "0 \<le> sint a" "0 \<le> sint b"
  shows "same_frame v w"
proof -
  from assms(1) obtain x y u where "sv_put a y v = Inr u" "sv_put b x u = Inr w"
    by (auto simp: shuffle_swap_def bind_result_Inr_iff)
  then show ?thesis using sv_put_frame same_frame_trans same_frame_start assms(2-4) by metis
qed

lemma exec_shuffle_frame:
  assumes "exec_shuffle E pl i P = Some (Inr Q)" "sv_start (ap_Ci P) < 2 ^ 63" "regs_ok i"
  shows "regint_frame P Q"
proof -
  let ?f = "\<lambda>k P. bind_io (prng_get_uint_upper E pl (in_size i - of_nat k) (ap_shared_prng P)) (\<lambda>(j, G).
       Some (lift_Ci (shuffle_swap (in_r i ! 0 + of_nat k) (in_r i ! 0 + of_nat k + j)) (P\<lparr>ap_shared_prng := G\<rparr>)))"
  from assms(1) obtain P1 where 1: "lift_Ci (shuffle_copy i) P = Inr P1" and 2: "foldM_io ?f [0..<vec_len i] P1 = Some (Inr Q)"
    by (auto simp: exec_shuffle_def bind_io_Inr_iff)
  have fr: "regint_frame P P1" by (rule lift_Ci_frame [OF 1]) (rule element_frame(2) [OF assms(3,2) _ assms(2)])
  have "sv_start (ap_Ci P1) < 2 ^ 63 \<longrightarrow> regint_frame P1 Q"
  proof (rule foldM_io_rel [where R = "\<lambda>P Q. sv_start (ap_Ci P) < 2 ^ 63 \<longrightarrow> regint_frame P Q", OF 2])
    fix k P' Q'
    assume k: "k \<in> set [0..<vec_len i]" and "?f k P' = Some (Inr Q')"
    then obtain j G where j: "prng_get_uint_upper E pl (in_size i - of_nat k) (ap_shared_prng P') = Some (Inr (j, G))"
      and q: "lift_Ci (shuffle_swap (in_r i ! 0 + of_nat k) (in_r i ! 0 + of_nat k + j)) (P'\<lparr>ap_shared_prng := G\<rparr>) = Inr Q'"
      by (auto simp: bind_io_Inr_iff)
    have "unat (in_size i - of_nat k) = vec_len i - k" using k unat_size_minus by simp
    then have "k + unat j < vec_len i" using prng_get_uint_upper_less [OF j] k by (simp add: word_less_nat_alt)
    from reg_ok_nonneg(2) [OF regs_okD(1) [OF assms(3)] this, of 0]
    have n2: "0 \<le> sint (in_r i ! 0 + of_nat k + j)" by (simp add: add.assoc)
    have n1: "0 \<le> sint (in_r i ! 0 + of_nat k)" using reg_ok_nonneg(2) [OF regs_okD(1) [OF assms(3), of 0]] k by simp
    show "sv_start (ap_Ci P') < 2 ^ 63 \<longrightarrow> regint_frame P' Q'"
    proof
      assume "sv_start (ap_Ci P') < 2 ^ 63"
      then have "regint_frame (P'\<lparr>ap_shared_prng := G\<rparr>) Q'"
        by (intro lift_Ci_frame [OF q]) (auto intro: shuffle_swap_frame n1 n2)
      then show "regint_frame P' Q'" by (simp add: regint_frame_def)
    qed
  qed (auto intro: regint_frame_trans dest: regint_frame_start)
  then show ?thesis using fr assms(2) regint_frame_start regint_frame_trans by metis
qed

lemma exec_regint_frame:
  assumes "exec_regint E pl i (P, mi) = Some (Inr (Q, mi'))" "sv_start (ap_Ci P) < 2 ^ 63" "regs_ok i"
  shows "regint_frame P Q"
proof -
  note f = lift_Ci_frame vec_frame [OF assms(2) regs_ok_0 [OF assms(3)]] vec_frame_more [OF assms(2) regs_ok_0 [OF assms(3)]]
    indirect_frame [OF regs_ok_0 [OF assms(3)]] element_frame(1) [OF assms(3,2) _ assms(2)]
    exec_popint_frame [OF _ assms(2) regs_ok_0 [OF assms(3)]] exec_rand_frame [OF _ assms(2) regs_ok_0 [OF assms(3)]]
    exec_shuffle_frame [OF _ assms(2,3)]
  from assms(1) show ?thesis unfolding exec_regint_def Let_def prod.case
    by (elim if_Some_Inr_E) (auto simp: bind_result_Inr_iff bind_io_Inr_iff out_put_def intro: f intro: regint_frame_def [THEN iffD2])
qed

subsection \<open>Arithmetic and control\<close>

definition vm_frame :: "('c, 's, 'd) vm \<Rightarrow> ('c, 's, 'd) vm \<Rightarrow> bool" where
  "vm_frame P Q \<longleftrightarrow> same_frame (ap_Ci P) (ap_Ci Q) \<and> same_frame (vm_S P) (vm_S Q) \<and> same_frame (vm_C P) (vm_C Q) \<and>
     vm_PC_stack Q = vm_PC_stack P \<and> vm_arg_stack Q = vm_arg_stack P"

definition vm_small :: "('c, 's, 'd) vm \<Rightarrow> bool" where
  "vm_small P \<longleftrightarrow> sv_start (ap_Ci P) < 2 ^ 63 \<and> sv_start (vm_S P) < 2 ^ 63 \<and> sv_start (vm_C P) < 2 ^ 63"

lemma vm_frame_refl [simp]: "vm_frame P P"
  by (simp add: vm_frame_def)

lemma vm_frame_trans: "vm_frame P Q \<Longrightarrow> vm_frame Q R \<Longrightarrow> vm_frame P R"
  by (auto simp: vm_frame_def intro: same_frame_trans)

lemma vm_frame_small: "vm_frame P Q \<Longrightarrow> vm_small Q \<longleftrightarrow> vm_small P"
  by (simp add: vm_frame_def vm_small_def same_frame_def)

lemma regint_vm_frame: "regint_frame P Q \<Longrightarrow> vm_frame P Q"
  by (cases P; cases Q) (simp add: regint_frame_def vm_frame_def)

lemma sv_on_d_frame:
  assumes "sv_on_d f n (v, df) = Some (Inr (w, df'))"
    and "\<And>k xs df ys df'. f k (xs, df) = Some (Inr (ys, df')) \<Longrightarrow> keeps (sv_start v) xs ys"
  shows "same_frame v w"
proof -
  from assms(1) obtain ys where r: "foldM_io f [0..<n] (sv_full v, df) = Some (Inr (ys, df'))" and w: "w = v\<lparr>sv_full := ys\<rparr>"
    by (auto simp: sv_on_d_def bind_io_Inr_iff)
  have "keeps (sv_start v) (fst (sv_full v, df)) (fst (ys, df'))"
    by (rule foldM_io_rel [where R = "\<lambda>x y. keeps (sv_start v) (fst x) (fst y)", OF r]) (auto intro: keeps_trans assms(2))
  then show ?thesis by (simp add: w same_frame_def)
qed

lemma prep_frame:
  assumes "sv_start v < 2 ^ 63" "regs_ok i"
  shows "exec_triple g i (v, df) = Some (Inr (w, df')) \<Longrightarrow> same_frame v w"
    and "exec_draw h i (v, df) = Some (Inr (w, df')) \<Longrightarrow> same_frame v w"
proof -
  note ge = sv_ptr_ge [OF _ assms(1) reg_ok_nonneg(1) [OF regs_okD(1) [OF assms(2)]]]
  show "exec_triple g i (v, df) = Some (Inr (w, df')) \<Longrightarrow> same_frame v w"
    unfolding exec_triple_def prod.case bind_io_Inr_iff
  proof (elim exE conjE)
    fix a b c
    assume p: "Some (sv_ptr (in_r i ! 0) v) = Some (Inr a)" "Some (sv_ptr (in_r i ! 1) v) = Some (Inr b)" "Some (sv_ptr (in_r i ! 2) v) = Some (Inr c)"
    have le: "sv_start v \<le> a" "sv_start v \<le> b" "sv_start v \<le> c"
      using ge [of 0] ge [of 1] ge [of 2] p by simp_all
    show "sv_on_d (\<lambda>k (xs, df). bind_io (g df) (\<lambda>((x, y, z), df).
         Some (bind_result (assign (a + k) x xs) (\<lambda>xs. bind_result (assign (b + k) y xs) (\<lambda>xs.
           bind_result (assign (c + k) z xs) (\<lambda>xs. Inr (xs, df))))))) (vec_len i) (v, df) = Some (Inr (w, df')) \<Longrightarrow> same_frame v w"
      by (erule sv_on_d_frame) (use le in \<open>auto simp: bind_io_Inr_iff bind_result_Inr_iff dest!: keeps_assign [where b = "sv_start v"] intro: keeps_trans trans_le_add1\<close>)
  qed
  show "exec_draw h i (v, df) = Some (Inr (w, df')) \<Longrightarrow> same_frame v w"
    unfolding exec_draw_def prod.case bind_io_Inr_iff
    by (elim exE conjE, erule sv_on_d_frame)
      (use ge [of 0] in \<open>auto simp: bind_io_Inr_iff bind_result_Inr_iff intro: keeps_assign trans_le_add1\<close>)
qed

lemma on_frame:
  shows "on_S f (P, M) = Some (Inr (Q, M')) \<Longrightarrow> (\<And>w. f (vm_S P) = Inr w \<Longrightarrow> same_frame (vm_S P) w) \<Longrightarrow> vm_frame P Q"
    and "on_C g (P, M) = Some (Inr (Q, M')) \<Longrightarrow> (\<And>w. g (vm_C P) = Inr w \<Longrightarrow> same_frame (vm_C P) w) \<Longrightarrow> vm_frame P Q"
    and "on_MS m (P, M) = Some (Inr (Q, M')) \<Longrightarrow> vm_frame P Q"
    and "on_MC n (P, M) = Some (Inr (Q, M')) \<Longrightarrow> vm_frame P Q"
    and "on_prep h (P, M) = Some (Inr (Q, M')) \<Longrightarrow> (\<And>w df. h (vm_S P, vm_DataF P) = Some (Inr (w, df)) \<Longrightarrow> same_frame (vm_S P) w) \<Longrightarrow> vm_frame P Q"
  by (auto simp: on_S_def on_C_def on_MS_def on_MC_def on_prep_def bind_result_Inr_iff bind_io_Inr_iff vm_frame_def)

lemma share_instr_frame:
  assumes "share_instr ops i C = Some f" "f v = Inr w" "sv_start v < 2 ^ 63" "regs_ok i"
  shows "same_frame v w"
proof -
  note f = vec_frame [OF assms(3) regs_ok_0 [OF assms(4)]] prefix_sums_frame [OF _ assms(3) regs_ok_0 [OF assms(4)]]
    picks_frame [OF _ assms(3) regs_ok_0 [OF assms(4)]]
  from assms(1) show ?thesis unfolding share_instr_def Let_def
    by (elim if_Some_E) (use assms(2) in \<open>auto intro: f\<close>)
qed

lemma clear_instr_frame:
  assumes "clear_instr ops i Ci = Some f" "f v = Inr w" "sv_start v < 2 ^ 63" "regs_ok i"
  shows "same_frame v w"
proof -
  note f = vec_frame [OF assms(3) regs_ok_0 [OF assms(4)]] element_frame(4) [OF assms(4,3)]
  from assms(1) show ?thesis unfolding clear_instr_def Let_def
    by (elim if_Some_E) (use assms(2) in \<open>auto intro: f\<close>)
qed

lemma exec_arith_frame:
  assumes "exec_arith ops i (P, M) = Some (Some (Inr (Q, M')))" "vm_small P" "regs_ok i"
  shows "vm_frame P Q"
proof -
  have s: "sv_start (vm_S P) < 2 ^ 63" "sv_start (vm_C P) < 2 ^ 63" using assms(2) by (simp_all add: vm_small_def)
  note o = on_frame [of _ P M Q M']
  note f = vec_frame [OF s(1) regs_ok_0 [OF assms(3)]] indirect_frame(1) [OF regs_ok_0 [OF assms(3)]] element_frame(3) [OF assms(3) s(2)]
    prep_frame [OF s(1) assms(3)] share_instr_frame [OF _ _ s(1) assms(3)] clear_instr_frame [OF _ _ s(2) assms(3)]
  from assms(1) show ?thesis unfolding exec_arith_def Let_def prod.case
    by (elim if_Some_E) (auto intro: f elim!: o split: option.splits)
qed

lemma control_step_frame:
  assumes "control_step env i k P = Inr Q" "vm_small P" "regs_ok i" "k < vec_len i"
  shows "vm_frame P Q"
proof -
  have r: "0 \<le> sint (in_r i ! 0 + of_nat k)" using reg_ok_nonneg(2) [OF regs_okD(1) [OF assms(3)] assms(4)] by simp
  have w: "vm_frame P Q" if "write_Ci (in_r i ! 0 + of_nat k) x P = Inr Q" for x
    using that sv_put_frame [OF _ _ r] assms(2) by (auto simp: write_Ci_def bind_result_Inr_iff vm_frame_def vm_small_def)
  have j: "vm_frame P (jump d P)" for d by (simp add: jump_def vm_frame_def)
  from assms(1) show ?thesis
    by (auto simp: control_step_def Let_def bind_result_Inr_iff intro: w j split: if_splits)
qed

lemma exec_control_frame:
  assumes "exec_control env i P = Inr Q" "vm_small P" "regs_ok i"
  shows "vm_frame P Q"
proof -
  have "vm_small P \<longrightarrow> vm_frame P Q"
    by (rule foldM_result_rel [where R = "\<lambda>P Q. vm_small P \<longrightarrow> vm_frame P Q", OF assms(1) [unfolded exec_control_def]])
      (auto intro: vm_frame_trans control_step_frame assms(3) simp: vm_frame_small)
  then show ?thesis using assms(2) ..
qed

text \<open>What is left to the parameter is asked to keep frames too.\<close>

definition other_keeps_frames :: "('c, 's, 'd) vm_env \<Rightarrow> bool" where
  "other_keeps_frames env \<longleftrightarrow>
     (\<forall>i P M Q M'. regs_ok i \<longrightarrow> vm_small P \<longrightarrow> env_other env i (P, M) = Some (Inr (Q, M')) \<longrightarrow> vm_frame P Q)"

lemma exec_instr_frame:
  assumes "exec_instr env i (P, M) = Some (Inr (Q, M'))" "vm_small P" "regs_ok i" "other_keeps_frames env"
  shows "vm_frame P Q"
proof -
  have s: "sv_start (ap_Ci P) < 2 ^ 63" using assms(2) by (simp add: vm_small_def)
  have o: "vm_frame P Q" if "env_other env i (P, M) = Some (Inr (Q, M'))"
    using assms(2-4) that unfolding other_keeps_frames_def by blast
  from assms(1) show ?thesis unfolding exec_instr_def Let_def prod.case
    by (auto simp: bind_io_Inr_iff bind_result_Inr_iff split: if_splits option.splits
        intro: o regint_vm_frame [OF exec_regint_frame] s assms(3) exec_control_frame [OF _ assms(2,3)] exec_arith_frame [OF _ assms(2,3)])
qed

end
