(* ===== verification/VmCall.thy ===== *)
theory VmCall
  imports VmFrame
begin

section \<open>Calls of tapes\<close>

text \<open>
  A call runs a tape in a frame of its own. Whatever the tape does, and the tapes it calls, the caller finds its program counter,
  its argument and its registers as they were, up to the registers that the call names as results.
\<close>

subsection \<open>Groups of arguments\<close>

definition arg_groups :: "nat \<Rightarrow> 'a list \<Rightarrow> 'a list list" where
  "arg_groups k xs = map (\<lambda>j. take k (drop (k * j) xs)) [0..<length xs div k]"

lemma arg_groups_step:
  assumes "0 < k" "k \<le> length xs"
  shows "arg_groups k xs = take k xs # arg_groups k (drop k xs)"
proof -
  have "length xs div k = Suc ((length xs - k) div k)" using assms by (simp add: le_div_geq)
  then show ?thesis by (simp add: arg_groups_def map_upt_Suc add.commute del: upt_Suc)
qed

lemma foldM_groups_result: "foldM_groups k f xs s = Inr s' \<Longrightarrow> foldM_result f (arg_groups k xs) s = Inr s'"
proof (induction k f xs s rule: foldM_groups.induct)
  case (1 k f xs s)
  show ?case
  proof (cases "xs = []")
    case True
    then show ?thesis using "1.prems" by (simp add: arg_groups_def foldM_groups.simps)
  next
    case False
    with "1.prems" have k: "0 < k" "k \<le> length xs" by (auto simp: foldM_groups.simps split: if_splits)
    with False "1.prems" obtain t where t: "f (take k xs) s = Inr t" "foldM_groups k f (drop k xs) t = Inr s'"
      by (subst (asm) foldM_groups.simps) (auto split: sum.splits)
    have "foldM_result f (arg_groups k (drop k xs)) t = Inr s'" by (rule "1.IH" [OF False _ t]) (use k in auto)
    then show ?thesis by (simp add: arg_groups_step [OF k] t(1))
  qed
qed

lemma arg_groups_nth:
  assumes "g \<in> set (arg_groups k xs)" "j < k"
  shows "g ! j \<in> set xs"
proof -
  from assms(1) obtain m where m: "g = take k (drop (k * m) xs)" "m < length xs div k" by (auto simp: arg_groups_def)
  then have "k * m + k \<le> length xs" by (metis Suc_leI mult_Suc_right add.commute div_times_less_eq_dividend le_trans mult.commute mult_le_mono2)
  then have "k * m + j < length xs" using assms(2) by linarith
  then show ?thesis using m(1) assms(2) by simp
qed

subsection \<open>One register file\<close>

lemma length_copy_range: "dst + n \<le> length xs \<Longrightarrow> src + n \<le> length xs \<Longrightarrow> length (copy_range src dst n xs) = length xs"
  by (simp add: copy_range_def)

lemma nth_copy_range_outside:
  assumes "dst + n \<le> length xs" "src + n \<le> length xs" "p < dst \<or> dst + n \<le> p" "p < length xs"
  shows "copy_range src dst n xs ! p = xs ! p"
proof -
  have l: "length (take n (drop src xs)) = n" "length (take dst xs) = dst" using assms(1,2) by simp_all
  show ?thesis
  proof (cases "p < dst")
    case True
    then show ?thesis using assms(1) by (simp add: copy_range_def nth_append l)
  next
    case False
    then have "copy_range src dst n xs ! p = drop (dst + n) xs ! (p - dst - n)"
      using assms(3) unfolding copy_range_def nth_append l by auto
    also have "\<dots> = xs ! p" using False assms by (subst nth_drop) auto
    finally show ?thesis .
  qed
qed

lemma keeps_copy_range: "b \<le> dst \<Longrightarrow> dst + n \<le> length xs \<Longrightarrow> src + n \<le> length xs \<Longrightarrow> keeps b xs (copy_range src dst n xs)"
  by (simp add: keeps_def length_copy_range) (simp add: copy_range_def min_def)

lemma push_arg_frame:
  assumes "push_arg t g v = Inr w" "0 \<le> sint (g ! 3)" "sv_start v \<le> length (sv_full v)"
  shows "same_frame v w"
  using assms by (auto simp: push_arg_def Let_def same_frame_def intro!: keeps_copy_range split: if_splits)

lemma same_frame_length: "same_frame v w \<Longrightarrow> sv_start w = sv_start v \<and> length (sv_full w) = length (sv_full v)"
  by (simp add: same_frame_def keeps_def)

lemma push_args_frame:
  assumes "push_args args t v = Inr w" "\<forall>r\<in>set args. 0 \<le> sint r" "sv_start v \<le> length (sv_full v)"
  shows "same_frame v w"
proof -
  have g: "0 \<le> sint (g ! 3)" if "g \<in> set (arg_groups 5 args)" for g using assms(2) arg_groups_nth [OF that, of 3] by simp
  have "sv_start v \<le> length (sv_full v) \<longrightarrow> same_frame v w"
    by (rule foldM_result_rel [where R = "\<lambda>v w. sv_start v \<le> length (sv_full v) \<longrightarrow> same_frame v w",
          OF foldM_groups_result [OF assms(1) [unfolded push_args_def]]])
      (auto intro: push_arg_frame g same_frame_trans simp: same_frame_length)
  then show ?thesis using assms(3) ..
qed

text \<open>The registers that a call names as results, as numbers in the frame of the caller.\<close>

definition is_result :: "int \<Rightarrow> 32 word list \<Rightarrow> nat \<Rightarrow> bool" where
  "is_result t args r \<longleftrightarrow>
     list_ex (\<lambda>g. sint (g ! 1) = t \<and> g ! 0 \<noteq> 0 \<and> sint (g ! 3) \<le> int r \<and> int r < sint (g ! 3) + sint (g ! 2)) (arg_groups 5 args)"

text \<open>What is left of a register file after a call.\<close>

definition unchanged :: "int \<Rightarrow> 32 word list \<Rightarrow> 'a stacked \<Rightarrow> 'a stacked \<Rightarrow> bool" where
  "unchanged t args v w \<longleftrightarrow> sv_start w = sv_start v \<and> sv_stack w = sv_stack v \<and> length (sv_full w) = length (sv_full v) \<and>
     (\<forall>p<length (sv_full v). sv_start v \<le> p \<and> is_result t args (p - sv_start v) \<or> sv_full w ! p = sv_full v ! p)"

lemma unchanged_same_frame: "unchanged t args v w \<Longrightarrow> sv_start v \<le> length (sv_full v) \<Longrightarrow> same_frame v w"
  by (auto simp: unchanged_def same_frame_def keeps_def intro!: nth_equalityI) (metis less_le_trans not_less)+

text \<open>One result: \<open>s\<close> is the start of the caller's frame, \<open>b\<close> that of the tape.\<close>

lemma pop_arg_unchanged:
  assumes "pop_arg t g v = Inr w" "0 \<le> sint (g ! 3)" "g \<in> set (arg_groups 5 args)"
    and "sv_start v = b" "sv_stack v = st @ [s]" "b \<le> length (sv_full v)"
  shows "sv_start w = b \<and> sv_stack w = st @ [s] \<and> length (sv_full w) = length (sv_full v) \<and>
     (\<forall>p<b. s \<le> p \<and> is_result t args (p - s) \<or> sv_full w ! p = sv_full v ! p)"
proof (cases "sint (g ! 1) = t \<and> g ! 0 \<noteq> 0")
  case False
  then show ?thesis using assms by (auto simp: pop_arg_def)
next
  case True
  define n where "n = sint (g ! 2)"
  define source where "source = int b + sint (g ! 4)"
  define dest where "dest = int s + sint (g ! 3)"
  have w: "w = v\<lparr>sv_full := copy_range (nat source) (nat dest) (nat n) (sv_full v)\<rparr>" and b: "source + n \<le> int (length (sv_full v))"
    "dest + n \<le> int b" "0 \<le> dest" "0 \<le> source" "0 \<le> n"
    using assms(1) True by (auto simp: pop_arg_def Let_def n_def source_def dest_def assms(4,5) not_less split: if_splits)
  have l: "nat dest + nat n \<le> length (sv_full v)" "nat source + nat n \<le> length (sv_full v)" using b assms(6) by linarith+
  have "s \<le> p \<and> is_result t args (p - s) \<or> sv_full w ! p = sv_full v ! p" if p: "p < b" for p
  proof (cases "p < nat dest \<or> nat dest + nat n \<le> p")
    case True
    then show ?thesis using nth_copy_range_outside [OF l True] p assms(6) by (simp add: w)
  next
    case False
    then have "int s + sint (g ! 3) \<le> int p" "int p < int s + sint (g ! 3) + sint (g ! 2)"
      using b by (auto simp: dest_def n_def)
    then have "s \<le> p" "sint (g ! 3) \<le> int (p - s) \<and> int (p - s) < sint (g ! 3) + sint (g ! 2)" using assms(2) by (auto simp: of_nat_diff)
    then show ?thesis using True assms(3) by (auto simp: is_result_def list_ex_iff)
  qed
  then show ?thesis using assms(4,5) length_copy_range [OF l] by (simp add: w)
qed

lemma call_file:
  assumes "sv_resize x n (push_stack v) = Inr v1" "push_args args t v1 = Inr v2" "same_frame v2 v3" "pop_stack args t v3 = Inr w"
    and "\<forall>r\<in>set args. 0 \<le> sint r"
  shows "unchanged t args v w" "sv_start v2 < 2 ^ 63"
proof -
  let ?b = "length (sv_full v)"
  have v1: "sv_start v1 = ?b" "sv_stack v1 = sv_stack v @ [sv_start v]" "take ?b (sv_full v1) = sv_full v" "?b \<le> length (sv_full v1)" "?b < 2 ^ 63"
    using assms(1) by (auto simp: sv_resize_def push_stack_def vec_resize_def split: if_splits)
  have f2: "same_frame v1 v2" by (rule push_args_frame [OF assms(2,5)]) (simp add: v1)
  have v3: "sv_start v3 = ?b" "sv_stack v3 = sv_stack v @ [sv_start v]" "take ?b (sv_full v3) = sv_full v" "?b \<le> length (sv_full v3)"
    using same_frame_trans [OF f2 assms(3)] v1 by (simp_all add: same_frame_def keeps_def)
  show "sv_start v2 < 2 ^ 63" using f2 v1 by (simp add: same_frame_def)
  from assms(4) v3(2) obtain v4 where v4: "foldM_groups 5 (pop_arg t) args v3 = Inr v4"
    and w: "w = v4\<lparr>sv_full := take (sv_start v4) (sv_full v4), sv_start := last (sv_stack v4), sv_stack := butlast (sv_stack v4)\<rparr>"
    by (auto simp: pop_stack_def bind_result_Inr_iff)
  let ?R = "\<lambda>y z. sv_start y = ?b \<and> sv_stack y = sv_stack v1 \<and> ?b \<le> length (sv_full y) \<longrightarrow>
     sv_start z = ?b \<and> sv_stack z = sv_stack v1 \<and> length (sv_full z) = length (sv_full y) \<and>
     (\<forall>p<?b. sv_start v \<le> p \<and> is_result t args (p - sv_start v) \<or> sv_full z ! p = sv_full y ! p)"
  have "?R v3 v4"
  proof (rule foldM_result_rel [where R = ?R, OF foldM_groups_result [OF v4]])
    fix g s s'
    assume g: "g \<in> set (arg_groups 5 args)" and st: "pop_arg t g s = Inr s'"
    have "0 \<le> sint (g ! 3)" using assms(5) arg_groups_nth [OF g, of 3] by simp
    from pop_arg_unchanged [OF st this g] show "?R s s'" by (simp add: v1(2))
  qed (auto, metis+)
  then have r: "sv_start v4 = ?b" "sv_stack v4 = sv_stack v @ [sv_start v]" "length (sv_full v4) = length (sv_full v3)"
    "\<forall>p<?b. sv_start v \<le> p \<and> is_result t args (p - sv_start v) \<or> sv_full v4 ! p = sv_full v3 ! p"
    using v3 v1(2) by simp_all
  have "sv_full v3 ! p = sv_full v ! p" if "p < ?b" for p using that v3(3) by (metis nth_take)
  then show "unchanged t args v w" using r v3(4) by (auto simp: unchanged_def w)
qed

subsection \<open>Running tapes\<close>

definition tape_regs_ok :: "program \<Rightarrow> bool" where
  "tape_regs_ok prog \<longleftrightarrow> (\<forall>i\<in>set (pg_p prog). regs_ok i)"

definition env_regs_ok :: "('c, 's, 'd) vm_env \<Rightarrow> bool" where
  "env_regs_ok env \<longleftrightarrow> other_keeps_frames env \<and> (\<forall>prog\<in>set (env_progs env). tape_regs_ok prog)"

text \<open>What the caller finds after a call.\<close>

definition call_effect :: "32 word list \<Rightarrow> ('c, 's, 'd) vm \<Rightarrow> ('c, 's, 'd) vm \<Rightarrow> bool" where
  "call_effect args P Q \<longleftrightarrow> unchanged INT_T args (ap_Ci P) (ap_Ci Q) \<and> unchanged SINT args (vm_S P) (vm_S Q) \<and>
     unchanged CINT args (vm_C P) (vm_C Q) \<and> vm_PC Q = vm_PC P \<and> ap_arg Q = ap_arg P \<and>
     vm_PC_stack Q = vm_PC_stack P \<and> vm_arg_stack Q = vm_arg_stack P"

definition frames_ok :: "('c, 's, 'd) vm \<Rightarrow> bool" where
  "frames_ok P \<longleftrightarrow> sv_start (ap_Ci P) \<le> length (sv_full (ap_Ci P)) \<and> sv_start (vm_S P) \<le> length (sv_full (vm_S P)) \<and>
     sv_start (vm_C P) \<le> length (sv_full (vm_C P))"

lemma frames_ok_frame: "vm_frame P Q \<Longrightarrow> frames_ok P \<Longrightarrow> frames_ok Q"
  by (simp add: vm_frame_def frames_ok_def same_frame_def keeps_def)

lemma call_effect_frame: "call_effect args P Q \<Longrightarrow> frames_ok P \<Longrightarrow> vm_frame P Q"
  by (auto simp: call_effect_def frames_ok_def vm_frame_def intro: unchanged_same_frame)

lemma call_frames:
  assumes "call_enter env i P = Inr (tape, P1)" "vm_frame P1 P2" "call_leave i P2 = Inr Q" "\<forall>r\<in>set (in_start i). 0 \<le> sint r"
  shows "call_effect (in_start i) P Q"
proof -
  from assms(1) obtain t S1 C1 I1 S2 C2 I2 arg where tape: "tape = env_progs env ! t"
    and r: "sv_resize (so_zero (env_ops env)) (unat (num_reg tape SINT)) (push_stack (vm_S P)) = Inr S1"
      "sv_resize (so_czero (env_ops env)) (unat (num_reg tape CINT)) (push_stack (vm_C P)) = Inr C1"
      "sv_resize 0 (unat (num_reg tape INT_T)) (push_stack (ap_Ci P)) = Inr I1"
    and a: "push_args (in_start i) SINT S1 = Inr S2" "push_args (in_start i) CINT C1 = Inr C2" "push_args (in_start i) INT_T I1 = Inr I2"
    and p: "vm_S P1 = S2" "vm_C P1 = C2" "ap_Ci P1 = I2" "vm_PC_stack P1 = vm_PC_stack P @ [vm_PC P]" "vm_arg_stack P1 = vm_arg_stack P @ [ap_arg P]"
    by (auto simp: call_enter_def vm_reset_def vm_push_args_def bind_result_Inr_iff Let_def split: if_splits)
  from assms(3) obtain S3 C3 I3 where l: "pop_stack (in_start i) SINT (vm_S P2) = Inr S3" "pop_stack (in_start i) CINT (vm_C P2) = Inr C3"
      "pop_stack (in_start i) INT_T (ap_Ci P2) = Inr I3"
    and q: "vm_S Q = S3" "vm_C Q = C3" "ap_Ci Q = I3" "vm_PC Q = last (vm_PC_stack P2)" "ap_arg Q = last (vm_arg_stack P2)"
      "vm_PC_stack Q = butlast (vm_PC_stack P2)" "vm_arg_stack Q = butlast (vm_arg_stack P2)"
    by (auto simp: call_leave_def vm_pop_stack_def bind_result_Inr_iff split: if_splits)
  have f: "same_frame S2 (vm_S P2)" "same_frame C2 (vm_C P2)" "same_frame I2 (ap_Ci P2)"
    "vm_PC_stack P2 = vm_PC_stack P @ [vm_PC P]" "vm_arg_stack P2 = vm_arg_stack P @ [ap_arg P]"
    using assms(2) p by (simp_all add: vm_frame_def)
  show ?thesis
    using call_file(1) [OF r(1) a(1) f(1) l(1) assms(4)] call_file(1) [OF r(2) a(2) f(2) l(2) assms(4)]
      call_file(1) [OF r(3) a(3) f(3) l(3) assms(4)] q f(4,5)
    by (simp add: call_effect_def)
qed

lemma call_enter_ok:
  assumes "call_enter env i P = Inr (tape, Q)" "\<forall>r\<in>set (in_start i). 0 \<le> sint r"
  shows "tape \<in> set (env_progs env)" "vm_small Q" "frames_ok Q"
proof -
  have one: "sv_start v2 < 2 ^ 63 \<and> sv_start v2 \<le> length (sv_full v2)"
    if "sv_resize x n (push_stack v) = Inr v1" "push_args (in_start i) t v1 = Inr v2" for x :: 'x and n v v1 v2 t
  proof -
    have v1: "sv_start v1 < 2 ^ 63" "sv_start v1 \<le> length (sv_full v1)" using that(1) by (auto simp: sv_resize_def push_stack_def split: if_splits)
    show ?thesis using push_args_frame [OF that(2) assms(2) v1(2)] v1 by (simp add: same_frame_def keeps_def)
  qed
  from assms(1) show "tape \<in> set (env_progs env)" "vm_small Q" "frames_ok Q"
    by (auto simp: call_enter_def vm_reset_def vm_push_args_def bind_result_Inr_iff Let_def vm_small_def frames_ok_def
        split: if_splits dest: one)
qed

lemma calls_start: "i' \<in> set (calls i) \<Longrightarrow> in_start i' = in_start i"
  by (auto simp: calls_def)

lemma regs_ok_start: "regs_ok i \<Longrightarrow> \<forall>r\<in>set (in_start i). 0 \<le> sint r"
  by (simp add: regs_ok_def reg_ok_def)

lemma next_PC_frame: "vm_frame P (jump d P)"
  by (simp add: jump_def vm_frame_def)

lemma call_body_E:
  assumes "(case c of Inl e \<Rightarrow> Some (Inl e)
    | Inr (tape, P) \<Rightarrow> Option.bind (f tape P) (\<lambda>r. case r of Inl e \<Rightarrow> Some (Inl e)
        | Inr (P, M) \<Rightarrow> (case l P of Inl e \<Rightarrow> Some (Inl e) | Inr P \<Rightarrow> g P M))) = Some (Inr z)"
  obtains tape P1 P2 M2 P3 where "c = Inr (tape, P1)" "f tape P1 = Some (Inr (P2, M2))" "l P2 = Inr P3" "g P3 M2 = Some (Inr z)"
proof -
  obtain tape P1 where c: "c = Inr (tape, P1)" using assms by (cases c) auto
  then obtain r where r: "f tape P1 = Some r" using assms by (cases "f tape P1") auto
  then obtain P2 M2 where r2: "r = Inr (P2, M2)" using assms c by (cases r) auto
  then obtain P3 where "l P2 = Inr P3" using assms c r by (cases "l P2") auto
  then show thesis using that c r r2 assms by simp
qed

lemma vm_exec_frame:
  fixes env :: "('c, 's, 'd) vm_env"
  assumes "vm_exec env prog pend (P, M) = Some (Inr (Q, M'))" "env_regs_ok env" "tape_regs_ok prog"
    "\<forall>i\<in>set pend. \<forall>r\<in>set (in_start i). 0 \<le> sint r" "vm_small P" "frames_ok P"
  shows "vm_frame P Q"
proof -
  let ?A = "\<lambda>(env :: ('c, 's, 'd) vm_env) prog pend P. env_regs_ok env \<and> tape_regs_ok prog \<and> (\<forall>i\<in>set pend. \<forall>r\<in>set (in_start i). 0 \<le> sint r) \<and> vm_small P \<and> frames_ok P"
  let ?C = "\<lambda>env prog pend s (y :: ('c, 's, 'd) vm_state result). ?A env prog pend (fst s) \<longrightarrow> (\<forall>Q M. y = Inr (Q, M) \<longrightarrow> vm_frame (fst s) Q)"
  have "?C env prog pend (P, M) (Inr (Q, M'))"
  proof (rule vm_exec.raw_induct [where P = ?C, OF _ assms(1)])
    fix f :: "('c, 's, 'd) vm_env \<Rightarrow> program \<Rightarrow> instr list \<Rightarrow> ('c, 's, 'd) vm_state \<Rightarrow> ('c, 's, 'd) vm_state result option"
      and env prog pend s y
    assume IH: "\<And>env prog pend s y. f env prog pend s = Some y \<Longrightarrow> ?C env prog pend s y"
      and body: "(case pend of
        [] \<Rightarrow> (case fetch prog (fst s) of
            None \<Rightarrow> Some (Inr s)
          | Some i \<Rightarrow>
              if in_opcode i = CALL_TAPE then f env prog (calls i) (next_PC s)
              else (case exec_instr env i (next_PC s) of
                  None \<Rightarrow> None
                | Some (Inl e) \<Rightarrow> Some (Inl e)
                | Some (Inr s) \<Rightarrow> f env prog [] s))
      | i # pend \<Rightarrow> (case call_enter env i (fst s) of
            Inl e \<Rightarrow> Some (Inl e)
          | Inr (tape, P) \<Rightarrow> Option.bind (f env tape [] (P, snd s)) (\<lambda>r. case r of
                Inl e \<Rightarrow> Some (Inl e)
              | Inr (P, M) \<Rightarrow> (case call_leave i P of
                    Inl e \<Rightarrow> Some (Inl e)
                  | Inr P \<Rightarrow> f env prog pend (P, M))))) = Some y"
    obtain P M where s: "s = (P, M)" by (cases s)
    show "?C env prog pend s y"
    proof (intro impI allI)
      fix Q M'
      assume A: "?A env prog pend (fst s)" and y: "y = Inr (Q, M')"
      show "vm_frame (fst s) Q"
      proof (cases pend)
        case Nil
        show ?thesis
        proof (cases "fetch prog P")
          case None
          then show ?thesis using body y by (simp add: Nil s)
        next
          case (Some i)
          have i: "regs_ok i" using A Some by (auto simp: tape_regs_ok_def fetch_def split: if_splits)
          have n: "vm_frame P (jump 1 P)" by (rule next_PC_frame)
          show ?thesis
          proof (cases "in_opcode i = CALL_TAPE")
            case True
            then have "f env prog (calls i) (jump 1 P, M) = Some (Inr (Q, M'))" using body y Some by (simp add: Nil s next_PC_def)
            from IH [OF this] have "vm_frame (jump 1 P) Q"
              using A regs_ok_start [OF i] vm_frame_small [OF n] frames_ok_frame [OF n] by (auto simp: s calls_start)
            then show ?thesis using n vm_frame_trans by (simp add: s) blast
          next
            case False
            then obtain P1 M1 where e: "exec_instr env i (jump 1 P, M) = Some (Inr (P1, M1))" and g: "f env prog [] (P1, M1) = Some (Inr (Q, M'))"
              using body y Some by (auto simp: Nil s next_PC_def split: option.splits sum.splits)
            have "vm_frame (jump 1 P) P1" by (rule exec_instr_frame [OF e]) (use A i vm_frame_small [OF n] in \<open>auto simp: env_regs_ok_def s\<close>)
            then have p1: "vm_frame P P1" using n vm_frame_trans by blast
            have "vm_frame P1 Q" using IH [OF g] A vm_frame_small [OF p1] frames_ok_frame [OF p1] by (simp add: s Nil)
            then show ?thesis using p1 vm_frame_trans by (simp add: s) blast
          qed
        qed
      next
        case (Cons i rest)
        from body [unfolded Cons y s list.case fst_conv snd_conv]
        obtain tape P1 P2 M2 P3 where e: "call_enter env i P = Inr (tape, P1)" and r: "f env tape [] (P1, M) = Some (Inr (P2, M2))"
          and l: "call_leave i P2 = Inr P3" and g: "f env prog rest (P3, M2) = Some (Inr (Q, M'))"
          by (rule call_body_E)
        have st: "\<forall>r\<in>set (in_start i). 0 \<le> sint r" using A Cons by simp
        note en = call_enter_ok [OF e st]
        have "vm_frame P1 P2" using IH [OF r] en A by (auto simp: env_regs_ok_def)
        from call_effect_frame [OF call_frames [OF e this l st]] have p3: "vm_frame P P3" using A by (simp add: s)
        have "vm_frame P3 Q" using IH [OF g] A vm_frame_small [OF p3] frames_ok_frame [OF p3] by (simp add: s Cons)
        then show ?thesis using p3 vm_frame_trans by (simp add: s) blast
      qed
    qed
  qed
  then show ?thesis using assms(2-6) by simp
qed


subsection \<open>An example\<close>

definition demo_ops :: "(int, int, unit) share_ops" where
  "demo_ops =
     \<lparr>so_of_long = sint, so_cadd = (+), so_csub = (-), so_cmul = (*), so_cand = (\<lambda>a b. 0), so_cxor = (\<lambda>a b. 0), so_cor = (\<lambda>a b. 0),
      so_cshl = (\<lambda>a b. Inl not_implemented), so_cshr = (\<lambda>a b. Inl not_implemented), so_cshli = (\<lambda>a b. Inl not_implemented),
      so_cshri = (\<lambda>a b. Inl not_implemented), so_constant = id, so_zero = 0, so_czero = 0, so_add = (+), so_sub = (-), so_mulc = (*),
      so_triple = (\<lambda>_. Some (Inl not_implemented)), so_bit = (\<lambda>_. Some (Inl not_implemented)),
      so_random = (\<lambda>_. Some (Inl not_implemented))\<rparr>"

definition demo_env :: "program list \<Rightarrow> (int, int, unit) vm_env" where
  "demo_env progs =
     \<lparr>env_E = (\<lambda>k b. b), env_pl = 1, env_ops = demo_ops, env_progs = progs, env_n_players = 3, env_my_num = 1, env_threshold = 1,
      env_other = (\<lambda>i s. Some (Inl not_implemented))\<rparr>"

definition int_instr :: "nat \<Rightarrow> nat \<Rightarrow> 32 word list \<Rightarrow> 64 word \<Rightarrow> 32 word list \<Rightarrow> instr" where
  "int_instr opcode sz r n start = \<lparr>in_opcode = opcode, in_size = of_nat sz, in_r = r, in_n = n, in_start = start, in_str = []\<rparr>"

definition demo_prng :: prng where
  "demo_prng = prng_new [] [] []"

text \<open>A tape that adds its first register to itself, called with an argument and for a result.\<close>

definition demo_callee :: program where
  "demo_callee = \<lparr>pg_p = [int_instr ADDINT 1 [1, 0, 0, 0] 0 []], pg_offline_data_used = dp_new 2, pg_max_reg = [2, 0, 0, 0, 0, 0, 0, 0, 0],
     pg_max_mem = [0, 0, 0, 0, 0, 0, 0, 0, 0], pg_unknown_usage = False, pg_writes_persistence = False\<rparr>"

definition demo_call :: instr where
  "demo_call = int_instr CALL_TAPE 1 [0, 1, 0, 0] 0 [0, 0, 1, 0, 0, 1, 0, 1, 2, 1]"

definition demo_vm :: "64 word stacked \<Rightarrow> 32 word \<Rightarrow> 32 word list \<Rightarrow> 64 word list \<Rightarrow> 64 word \<Rightarrow> nat list \<Rightarrow> (int, int, unit) vm" where
  "demo_vm Ci PC PCs args arg st =
     \<lparr>ap_Ci = Ci, ap_thread_num = 0, ap_arg = arg, ap_stacki = [], ap_shared_prng = demo_prng, ap_on = True, ap_out = [],
      vm_S = \<lparr>sv_full = [], sv_start = 0, sv_stack = st\<rparr>, vm_C = \<lparr>sv_full = [], sv_start = 0, sv_stack = st\<rparr>, vm_DataF = (),
      vm_PC = PC, vm_PC_stack = PCs, vm_arg_stack = args\<rparr>"

definition demo_memory :: "(int, int) vm_memory" where
  "demo_memory = \<lparr>mm_Mi = [], mm_MS = [], mm_MC = []\<rparr>"

abbreviation (input) "demo_frame xs \<equiv> \<lparr>sv_full = xs, sv_start = 0, sv_stack = []\<rparr>"
abbreviation (input) "demo_frame2 xs \<equiv> \<lparr>sv_full = xs, sv_start = 3, sv_stack = [0]\<rparr>"

lemma demo_call_steps:
  "call_enter (demo_env [demo_callee]) demo_call (demo_vm (demo_frame [21, 9, 8]) 5 [] [] 1 []) =
     Inr (demo_callee, demo_vm (demo_frame2 [21, 9, 8, 21, 0]) 0 [5] [1] 9 [0])"
  "exec_instr (demo_env [demo_callee]) (int_instr ADDINT 1 [1, 0, 0, 0] 0 []) (demo_vm (demo_frame2 [21, 9, 8, 21, 0]) 1 [5] [1] 9 [0], demo_memory) =
     Some (Inr (demo_vm (demo_frame2 [21, 9, 8, 21, 42]) 1 [5] [1] 9 [0], demo_memory))"
  "call_leave demo_call (demo_vm (demo_frame2 [21, 9, 8, 21, 42]) 1 [5] [1] 9 [0]) = Inr (demo_vm (demo_frame [21, 9, 42]) 5 [] [] 1 [])"
proof -
  have r2: "replicate 2 x = [x, x]" for x :: "64 word" by (simp add: numeral_eq_Suc)
  have at: "sv_at (in_r demo_call ! 1) (demo_frame [21, 9, 8]) = Inr (9 :: 64 word)"
    by (simp add: demo_call_def int_instr_def sv_at_def sv_ptr_def sv_index_def)
  have rs: "sv_resize 0 2 (push_stack (demo_frame [21, 9, 8])) = Inr (demo_frame2 [21, 9, 8, 0, 0 :: 64 word])"
    by (simp add: sv_resize_def push_stack_def vec_resize_def r2)
  have pa: "push_args (in_start demo_call) INT_T (demo_frame2 [21, 9, 8, 0, 0]) = Inr (demo_frame2 [21, 9, 8, 21, 0 :: 64 word])"
    by (simp add: push_args_def demo_call_def int_instr_def foldM_groups.simps push_arg_def copy_range_def)
  have empty: "sv_resize z 0 (push_stack \<lparr>sv_full = [], sv_start = 0, sv_stack = []\<rparr>) = Inr \<lparr>sv_full = [], sv_start = 0, sv_stack = [0]\<rparr>"
    "push_args (in_start demo_call) SINT \<lparr>sv_full = [] :: int list, sv_start = 0, sv_stack = [0]\<rparr> = Inr \<lparr>sv_full = [], sv_start = 0, sv_stack = [0]\<rparr>"
    "push_args (in_start demo_call) CINT \<lparr>sv_full = [] :: int list, sv_start = 0, sv_stack = [0]\<rparr> = Inr \<lparr>sv_full = [], sv_start = 0, sv_stack = [0]\<rparr>" for z :: int
    by (simp_all add: sv_resize_def push_stack_def vec_resize_def push_args_def demo_call_def int_instr_def foldM_groups.simps push_arg_def)
  have tape: "in_r demo_call ! 0 = 0" by (simp add: demo_call_def int_instr_def)
  show "call_enter (demo_env [demo_callee]) demo_call (demo_vm (demo_frame [21, 9, 8]) 5 [] [] 1 []) =
     Inr (demo_callee, demo_vm (demo_frame2 [21, 9, 8, 21, 0]) 0 [5] [1] 9 [0])"
    using at rs pa empty
    by (simp add: call_enter_def demo_vm_def vm_reset_def num_reg_def demo_env_def vm_push_args_def demo_callee_def tape)
  show "exec_instr (demo_env [demo_callee]) (int_instr ADDINT 1 [1, 0, 0, 0] 0 []) (demo_vm (demo_frame2 [21, 9, 8, 21, 0]) 1 [5] [1] 9 [0], demo_memory) =
     Some (Inr (demo_vm (demo_frame2 [21, 9, 8, 21, 42]) 1 [5] [1] 9 [0], demo_memory))"
    by (simp add: demo_vm_def exec_instr_def regint_ops_def exec_regint_def int_instr_def lift_Ci_def vec_binary_def sv_ptr_def sv_index_def
       sv_on_def binary_loop_def vec_len_def deref_def assign_def demo_memory_def)
  show "call_leave demo_call (demo_vm (demo_frame2 [21, 9, 8, 21, 42]) 1 [5] [1] 9 [0]) = Inr (demo_vm (demo_frame [21, 9, 42]) 5 [] [] 1 [])"
    by (simp add: call_leave_def demo_call_def demo_vm_def int_instr_def vm_pop_stack_def pop_stack_def foldM_groups.simps pop_arg_def copy_range_def)
qed

lemma demo_callee_runs:
  "vm_exec (demo_env [demo_callee]) demo_callee [] (demo_vm (demo_frame2 [21, 9, 8, 21, 0]) 0 [5] [1] 9 [0], demo_memory) =
     Some (Inr (demo_vm (demo_frame2 [21, 9, 8, 21, 42]) 1 [5] [1] 9 [0], demo_memory))"
proof -
  have f: "fetch demo_callee (demo_vm xs 0 [5] [1] 9 [0]) = Some (int_instr ADDINT 1 [1, 0, 0, 0] 0 [])"
    "fetch demo_callee (demo_vm xs 1 [5] [1] 9 [0]) = None" "in_opcode (int_instr ADDINT 1 [1, 0, 0, 0] 0 []) \<noteq> CALL_TAPE"
    "jump 1 (demo_vm xs 0 [5] [1] 9 [0]) = demo_vm xs 1 [5] [1] 9 [0]" for xs
    by (simp_all add: fetch_def demo_callee_def demo_vm_def int_instr_def jump_def)
  have s: "exec_instr (demo_env [demo_callee]) (int_instr ADDINT 1 [1, 0, 0, 0] 0 []) (next_PC (demo_vm (demo_frame2 [21, 9, 8, 21, 0]) 0 [5] [1] 9 [0], demo_memory)) =
     Some (Inr (demo_vm (demo_frame2 [21, 9, 8, 21, 42]) 1 [5] [1] 9 [0], demo_memory))"
    using demo_call_steps(2) by (simp add: next_PC_def f(4))
  show ?thesis by (subst vm_exec_step [OF _ f(3) s]) (simp_all add: f(1,2) vm_exec_end)
qed

lemma demo_regs_ok: "env_regs_ok (demo_env [demo_callee])" "regs_ok demo_call"
  by (simp_all add: env_regs_ok_def other_keeps_frames_def demo_env_def demo_callee_def tape_regs_ok_def regs_ok_def reg_ok_def demo_call_def int_instr_def)


end
