(* ===== verification/BytecodeRound.thy ===== *)
theory BytecodeRound
  imports Bytecode
begin

section \<open>Bytecode written and read back\<close>

text \<open>
  What the compiler writes for an instruction, statement by statement, and the instructions it can write: those whose
  fields are zero or empty unless the operands set them.
\<close>

subsection \<open>Encoding\<close>

definition be32 :: "32 word \<Rightarrow> octet list" where
  "be32 w = rev (le_bytes 4 (unat w))"

definition be64 :: "64 word \<Rightarrow> octet list" where
  "be64 w = rev (le_bytes 8 (unat w))"

fun enc_operand :: "instr \<Rightarrow> operand \<Rightarrow> octet list" where
  "enc_operand i (Ints k) = concat (map be32 (take k (in_r i)))"
| "enc_operand i (Reg j) = be32 (in_r i ! j)"
| "enc_operand i IntN = be32 (ucast (in_n i))"
| "enc_operand i LongN = be64 (in_n i)"
| "enc_operand i (VarArgs k) = be32 (of_nat (length (in_start i)) + of_int k)"
| "enc_operand i (Vector m) = concat (map be32 (in_start i))"
| "enc_operand i VectorVar = concat (map be32 (in_start i))"
| "enc_operand i RawRegs = concat (map (\<lambda>w. le_bytes 4 (unat w)) (in_r i))"
| "enc_operand i Str = be32 (of_nat (length (in_str i))) @ in_str i"
| "enc_operand i op = []"

text \<open>The fields that an operand sets, taken from \<open>i\<close>.\<close>

fun set_operand :: "instr \<Rightarrow> operand \<Rightarrow> instr \<Rightarrow> instr" where
  "set_operand i (Ints k) acc = acc\<lparr>in_r := take k (in_r i) @ drop k (in_r acc)\<rparr>"
| "set_operand i (Reg j) acc = acc\<lparr>in_r := (in_r acc)[j := in_r i ! j]\<rparr>"
| "set_operand i IntN acc = acc\<lparr>in_n := in_n i\<rparr>"
| "set_operand i LongN acc = acc\<lparr>in_n := in_n i\<rparr>"
| "set_operand i (Vector m) acc = acc\<lparr>in_start := in_start i\<rparr>"
| "set_operand i VectorVar acc = acc\<lparr>in_start := in_start i\<rparr>"
| "set_operand i RawRegs acc = acc\<lparr>in_r := in_r i\<rparr>"
| "set_operand i Str acc = acc\<lparr>in_str := in_str i\<rparr>"
| "set_operand i op acc = acc"

fun operand_ok :: "vm_hooks \<Rightarrow> instr \<Rightarrow> operand \<Rightarrow> bool" where
  "operand_ok hk i (Ints k) = (k \<le> length (in_r i))"
| "operand_ok hk i IntN = (in_n i = scast (ucast (in_n i) :: 32 word))"
| "operand_ok hk i (Vector m) = (length (in_start i) = m \<and> m < 2 ^ 31)"
| "operand_ok hk i VectorVar = (length (in_start i) < 2 ^ 31)"
| "operand_ok hk i RawRegs = (length (in_r i) = 4)"
| "operand_ok hk i Str = (length (in_str i) < 2 ^ 32)"
| "operand_ok hk i (Throws msg) = False"
| "operand_ok hk i ReqBl = (hk_reqbl hk (int_of_n (in_n i)) = Inr ())"
| "operand_ok hk i GreqBl = (in_n i = 0 \<or> int_of_n (in_n i) \<le> hk_degree hk)"
| "operand_ok hk i Active = (hk_active hk (int_of_n (in_n i)) = Inr ())"
| "operand_ok hk i op = True"

definition blank_instr :: "instr \<Rightarrow> instr \<Rightarrow> instr" where
  "blank_instr prev i = prev\<lparr>in_n := 0, in_start := [], in_r := [0, 0, 0, 0], in_size := in_size i, in_opcode := in_opcode i\<rparr>"

definition encode_instr :: "instr \<Rightarrow> octet list" where
  "encode_instr i = be64 (of_nat (in_opcode i + 1024 * unat (in_size i))) @ concat (map (enc_operand i) (the (operand_format (in_opcode i))))"

text \<open>The string of an instruction without one is that of its predecessor, which the parser leaves.\<close>

definition instr_ok :: "vm_hooks \<Rightarrow> instr \<Rightarrow> instr \<Rightarrow> bool" where
  "instr_ok hk prev i \<longleftrightarrow> in_opcode i < 1024 \<and> in_size i \<noteq> 0
     \<and> (case operand_format (in_opcode i) of
          None \<Rightarrow> False
        | Some ops \<Rightarrow> list_all (operand_ok hk i) ops \<and> foldl (\<lambda>acc op. set_operand i op acc) (blank_instr prev i) ops = i)"

fun tape_ok :: "vm_hooks \<Rightarrow> instr \<Rightarrow> instr list \<Rightarrow> bool" where
  "tape_ok hk prev [] = True"
| "tape_ok hk prev (i # is) = (instr_ok hk prev i \<and> tape_ok hk i is)"

definition encode_tape :: "instr list \<Rightarrow> octet list" where
  "encode_tape is = concat (map encode_instr is)"

subsection \<open>Reading what was written\<close>

lemma length_be [simp]: "length (be32 w) = 4" "length (be64 v) = 8"
  by (simp_all add: be32_def be64_def)

lemma get_int_be32 [simp]: "get_int (be32 w @ s) = Inr (w, s)"
proof -
  have "unat w mod 4294967296 = unat w" using unsigned_less [of w, where 'a = nat] by simp
  then show ?thesis by (simp add: get_int_def read_octets_def be32_def le_val_le_bytes)
qed

lemma get_long_be64 [simp]: "get_long (be64 w @ s) = Inr (w, s)"
proof -
  have "unat w mod 18446744073709551616 = unat w" using unsigned_less [of w, where 'a = nat] by simp
  then show ?thesis by (simp add: get_long_def read_octets_def be64_def le_val_le_bytes)
qed

lemma get_ints_be32: "k = length ws \<Longrightarrow> get_ints k (concat (map be32 ws) @ s) = Inr (ws, s)"
  by (induction ws arbitrary: k) simp_all

lemma get_vector_be32:
  assumes "length ws < 2 ^ 31" "m = of_nat (length ws)"
  shows "get_vector m (concat (map be32 ws) @ s) = Inr (ws, s)"
proof -
  have "sint m = int (length ws)" and m: "unat m = length ws"
    using sint_of_nat_small [of "length ws", where 'a = 32] assms by simp_all
  then show ?thesis using get_ints_be32 m by (simp add: get_vector_def)
qed

lemma get_raw_le:
  assumes "k = length ws"
  shows "get_raw k (concat (map (\<lambda>w. le_bytes 4 (unat w)) ws) @ s) = Inr (ws, s)"
proof -
  let ?bs = "concat (map (\<lambda>w :: 32 word. le_bytes 4 (unat w)) ws)"
  have len: "length ?bs = 4 * length ws" by (simp add: length_concat comp_def sum_list_triv)
  have "take 4 (drop (4 * j) ?bs) = le_bytes 4 (unat (ws ! j))" if "j < length ws" for j
    using that
  proof (induction ws arbitrary: j)
    case (Cons w ws)
    then show ?case by (cases j) simp_all
  qed simp
  moreover have "of_nat (unat w mod 4294967296) = w" for w :: "32 word"
  proof -
    have "unat w mod 4294967296 = unat w" using unsigned_less [of w, where 'a = nat] by simp
    then show ?thesis by simp
  qed
  ultimately have "map (\<lambda>j. of_nat (le_val (take 4 (drop (4 * j) ?bs)))) [0..<length ws] = ws"
    by (intro nth_equalityI) (simp_all add: le_val_le_bytes)
  then show ?thesis using assms len by (simp add: get_raw_def read_octets_def)
qed

text \<open>A number of arguments is read before they are, \<open>n\<close> before it is used: of all cases of the switch.\<close>

fun fmt_ok :: "bool \<Rightarrow> bool \<Rightarrow> operand list \<Rightarrow> bool" where
  "fmt_ok counted known [] = True"
| "fmt_ok counted known (op # ops) =
     ((case op of VectorVar \<Rightarrow> counted | ReqBl \<Rightarrow> known | GreqBl \<Rightarrow> known | Active \<Rightarrow> known | _ \<Rightarrow> True)
      \<and> fmt_ok (case op of VarArgs k \<Rightarrow> True | _ \<Rightarrow> counted) (case op of IntN \<Rightarrow> True | LongN \<Rightarrow> True | _ \<Rightarrow> known) ops)"

lemma operand_table_ok: "list_all (\<lambda>(labels, ops). fmt_ok False False ops) operand_table"
  by code_simp

lemma operand_format_ok: "operand_format opcode = Some ops \<Longrightarrow> fmt_ok False False ops"
  using operand_table_ok by (auto simp: operand_format_def find_Some_iff list_all_length split_beta) (metis snd_conv)

lemma parse_operand_enc:
  assumes "operand_ok hk i op" "op = VectorVar \<Longrightarrow> v = of_nat (length (in_start i))"
    and "op = ReqBl \<or> op = GreqBl \<or> op = Active \<Longrightarrow> in_n acc = in_n i"
  shows "parse_operand hk op (v, acc, enc_operand i op @ s)
    = Inr (case op of VarArgs k \<Rightarrow> of_nat (length (in_start i)) | _ \<Rightarrow> v, set_operand i op acc, s)"
proof (cases op)
  case Str
  then have "unat (of_nat (length (in_str i)) :: 32 word) = length (in_str i)" using assms(1) by (simp add: unat_of_nat)
  with Str show ?thesis by (simp add: get_string_def read_octets_def)
qed (use assms in \<open>auto simp: get_ints_be32 get_vector_be32 get_raw_le min_def\<close>)

lemma parse_operands_enc:
  "list_all (operand_ok hk i) ops \<Longrightarrow> fmt_ok counted known ops \<Longrightarrow> (counted \<longrightarrow> v = of_nat (length (in_start i))) \<Longrightarrow> (known \<longrightarrow> in_n acc = in_n i)
    \<Longrightarrow> \<exists>v'. foldM_result (parse_operand hk) ops (v, acc, concat (map (enc_operand i) ops) @ s) = Inr (v', foldl (\<lambda>acc op. set_operand i op acc) acc ops, s)"
proof (induction ops arbitrary: v acc counted known)
  case (Cons op ops)
  let ?v = "case op of VarArgs k \<Rightarrow> of_nat (length (in_start i)) | _ \<Rightarrow> v"
  have ok: "operand_ok hk i op" "list_all (operand_ok hk i) ops" using Cons.prems(1) by simp_all
  have 1: "parse_operand hk op (v, acc, enc_operand i op @ concat (map (enc_operand i) ops) @ s) = Inr (?v, set_operand i op acc, concat (map (enc_operand i) ops) @ s)"
    using Cons.prems(2-4) by (intro parse_operand_enc [OF ok(1)]) auto
  have "(case op of VarArgs k \<Rightarrow> True | _ \<Rightarrow> counted) \<longrightarrow> ?v = of_nat (length (in_start i))" using Cons.prems(3) by (cases op) auto
  moreover have "(case op of IntN \<Rightarrow> True | LongN \<Rightarrow> True | _ \<Rightarrow> known) \<longrightarrow> in_n (set_operand i op acc) = in_n i" using Cons.prems(4) by (cases op) auto
  ultimately show ?case using Cons.IH [OF ok(2), of "case op of VarArgs k \<Rightarrow> True | _ \<Rightarrow> counted" "case op of IntN \<Rightarrow> True | LongN \<Rightarrow> True | _ \<Rightarrow> known" ?v "set_operand i op acc"]
      1 Cons.prems(2) by simp
qed simp

lemma parse_instr_enc:
  assumes "instr_ok hk prev i"
  shows "parse_instr hk prev (encode_instr i @ s) = Inr (i, s)"
proof -
  define c :: "64 word" where "c = of_nat (in_opcode i + 1024 * unat (in_size i))"
  obtain ops where ops: "operand_format (in_opcode i) = Some ops" "list_all (operand_ok hk i) ops"
    "foldl (\<lambda>acc op. set_operand i op acc) (blank_instr prev i) ops = i" and op: "in_opcode i < 1024" "in_size i \<noteq> 0"
    using assms by (auto simp: instr_ok_def split: option.splits)
  have "unat (in_size i) < 2 ^ 32" using unsigned_less [of "in_size i", where 'a = nat] by simp
  then have "in_opcode i + 1024 * unat (in_size i) < 2 ^ 64" using op(1) by simp
  then have c: "unat c = in_opcode i + 1024 * unat (in_size i)" unfolding c_def unat_of_nat by (intro mod_less) simp
  have "unat (take_bit 10 c) = take_bit 10 (unat c)" by (simp only: unsigned_take_bit_eq)
  also have "\<dots> = in_opcode i" using op(1) unfolding c by (simp add: take_bit_eq_mod)
  finally have "unat (take_bit 10 c) = in_opcode i" .
  moreover have "take_bit LENGTH(64) (unat c) = unat c" using unsigned_less [of c, where 'a = nat] by (intro take_bit_nat_eq_self)
  then have "unat (drop_bit 10 c) = drop_bit 10 (unat c)" by (simp only: unsigned_drop_bit_eq)
  then have "unat (drop_bit 10 c) = unat (in_size i)" using op(1) unfolding c by (simp add: drop_bit_eq_div)
  then have "ucast (drop_bit 10 c) = in_size i" by (metis of_nat_unat ucast_id)
  moreover obtain v where "foldM_result (parse_operand hk) ops (0, blank_instr prev i, concat (map (enc_operand i) ops) @ s) = Inr (v, i, s)"
    using parse_operands_enc [OF ops(2) operand_format_ok [OF ops(1)], of 0 "blank_instr prev i" s] ops(3) by auto
  moreover have "encode_instr i = be64 c @ concat (map (enc_operand i) ops)" by (simp only: encode_instr_def c_def ops(1) option.sel)
  ultimately show ?thesis
    using op(2) ops(1) by (simp add: parse_instr_def parse_operands_def Let_def blank_instr_def)
qed

lemma parse_instrs_enc: "tape_ok hk prev is \<Longrightarrow> parse_instrs hk prev (encode_tape is) = Inr is"
proof (induction "is" arbitrary: prev)
  case Nil
  then show ?case by (simp add: encode_tape_def parse_instrs.simps)
next
  case (Cons i "is")
  have "encode_tape (i # is) = encode_instr i @ encode_tape is" by (simp add: encode_tape_def)
  moreover have "encode_instr i @ encode_tape is \<noteq> []" by (simp add: encode_instr_def be64_def flip: length_0_conv)
  ultimately show ?case
    using parse_instr_enc [of hk prev i "encode_tape is"] Cons by (simp add: parse_instrs.simps [of hk prev "_ @ _"])
qed


definition demo_hooks :: vm_hooks where
  "demo_hooks = \<lparr>hk_reqbl = (\<lambda>_. Inr ()), hk_active = (\<lambda>_. Inr ()), hk_degree = 40\<rparr>"

text \<open>A constant, a multiplication of two vectors, a jump backwards.\<close>

definition demo_bytecode :: "instr list" where
  "demo_bytecode =
     [\<lparr>in_opcode = LDINT, in_size = 3, in_r = [2, 0, 0, 0], in_n = 70000, in_start = [], in_str = []\<rparr>,
      \<lparr>in_opcode = MULS, in_size = 1, in_r = [0, 0, 0, 0], in_n = 0, in_start = [3, 6, 0, 3], in_str = []\<rparr>,
      \<lparr>in_opcode = JMP, in_size = 1, in_r = [0, 0, 0, 0], in_n = - 2, in_start = [], in_str = []\<rparr>]"


end
