(* ===== verification/VmType.thy ===== *)
theory VmType
  imports VmCall BytecodeRound
begin

section \<open>Loaded integer programs stay within their registers and memory\<close>

text \<open>
  Loading a tape counts the registers and the memory it uses. The theorem of this file is that the count is enough for
  the integer instructions that are counted as such: the types of registers are right. \<open>LDTN\<close>, \<open>STARG\<close> and \<open>CRASH\<close> are not
  among them, since \<open>get_reg_type\<close> takes them for instructions on shares; nor are those that fail for other reasons.
\<close>

subsection \<open>Outcomes\<close>

text \<open>An operation succeeds with \<open>Q\<close> or throws an error allowed by \<open>A\<close>.\<close>

definition outcome :: "(cpp_error \<Rightarrow> bool) \<Rightarrow> ('a \<Rightarrow> bool) \<Rightarrow> 'a result \<Rightarrow> bool" where
  "outcome A Q m = (case m of Inl e \<Rightarrow> A e | Inr x \<Rightarrow> Q x)"

lemma outcome_simps [simp]:
  "outcome A Q (Inr x) = Q x"
  "outcome A Q (Inl e) = A e"
  by (simp_all add: outcome_def)

lemma outcome_bind: "outcome A Q m \<Longrightarrow> (\<And>x. Q x \<Longrightarrow> outcome A R (f x)) \<Longrightarrow> outcome A R (bind_result m f)"
  by (cases m) simp_all

lemma outcome_foldM:
  assumes "I s" "\<And>x s. x \<in> set xs \<Longrightarrow> I s \<Longrightarrow> outcome A I (f x s)"
  shows "outcome A I (foldM_result f xs s)"
  using assms
proof (induction xs arbitrary: s)
  case (Cons x xs)
  have "outcome A I (foldM_result f xs t)" if "I t" for t using Cons.IH [OF that] Cons.prems(2) by simp
  then show ?case using Cons.prems by (auto intro!: outcome_bind [where Q = I])
qed simp

lemma outcome_mono: "outcome A Q m \<Longrightarrow> (\<And>e. A e \<Longrightarrow> B e) \<Longrightarrow> (\<And>x. Q x \<Longrightarrow> R x) \<Longrightarrow> outcome B R m"
  by (cases m) simp_all

lemma outcome_assign: "p < length xs \<Longrightarrow> length xs = l \<Longrightarrow> outcome A (\<lambda>ys. length ys = l) (assign p x xs)"
  by (simp add: assign_def)

lemma outcome_deref: "p < length xs \<Longrightarrow> outcome A (\<lambda>_. True) (deref xs p)"
  by (simp add: deref_def)

subsection \<open>What loading counts\<close>

lemma foldM_upt_max:
  fixes xs :: "'a :: linorder list"
  assumes "foldM_result (\<lambda>t xs. bind_result (g t) (\<lambda>m. Inr (xs[t := max (xs ! t) m]))) [0..<n] xs = Inr ys" "n \<le> length xs"
  shows "length ys = length xs" "j < length xs \<Longrightarrow> xs ! j \<le> ys ! j" "j < n \<Longrightarrow> \<exists>m. g j = Inr m \<and> m \<le> ys ! j"
proof -
  let ?f = "\<lambda>t xs. bind_result (g t) (\<lambda>m. Inr (xs[t := max (xs ! t) m]))"
  have R: "length zs = length ws \<and> (\<forall>j<length ws. ws ! j \<le> zs ! j)" if "foldM_result ?f ts ws = Inr zs" for ts ws zs
    by (rule foldM_result_rel [where R = "\<lambda>ws zs. length zs = length ws \<and> (\<forall>j<length ws. ws ! j \<le> zs ! j)", OF that])
      (auto simp: bind_result_Inr_iff intro: order_trans, metis max.cobounded1 nth_list_update_eq nth_list_update_neq order_refl)
  show "length ys = length xs" "j < length xs \<Longrightarrow> xs ! j \<le> ys ! j" using R [OF assms(1)] by auto
  show "\<exists>m. g j = Inr m \<and> m \<le> ys ! j" if "j < n"
  proof -
    have "[0..<n] = [0..<j] @ j # [Suc j..<n]" using that upt_add_eq_append [of 0 j "n - j"] by (simp add: upt_conv_Cons)
    then obtain zs m where z: "foldM_result ?f [0..<j] xs = Inr zs" "g j = Inr m" "foldM_result ?f [Suc j..<n] (zs[j := max (zs ! j) m]) = Inr ys"
      using assms(1) by (auto simp: foldM_result_append bind_result_Inr_iff)
    have "j < length zs" using R [OF z(1)] that assms(2) by simp
    then have "max (zs ! j) m \<le> ys ! j" using R [OF z(3)] by (metis length_list_update nth_list_update_eq)
    then show ?thesis using z(2) by auto
  qed
qed

text \<open>The counts of a program are enough for its instructions.\<close>

definition counted_for :: "program \<Rightarrow> instr \<Rightarrow> bool" where
  "counted_for prog i \<longleftrightarrow> (\<forall>t<MAX_REG_TYPE. (\<exists>m. get_max_reg (int t) i = Inr m \<and> m \<le> pg_max_reg prog ! t) \<and>
     get_mem (int t) i \<le> pg_max_mem prog ! t)"

definition counts_grow :: "program \<Rightarrow> program \<Rightarrow> bool" where
  "counts_grow pg pg' \<longleftrightarrow> pg_p pg' = pg_p pg \<and> length (pg_max_reg pg') = length (pg_max_reg pg) \<and>
     (length (pg_max_reg pg) = MAX_REG_TYPE \<longrightarrow> (\<forall>t<MAX_REG_TYPE. pg_max_reg pg ! t \<le> pg_max_reg pg' ! t \<and> pg_max_mem pg ! t \<le> pg_max_mem pg' ! t))"

lemma counts_grow_trans: "counts_grow a b \<Longrightarrow> counts_grow b c \<Longrightarrow> counts_grow a c"
  unfolding counts_grow_def by (auto intro: order_trans)

lemma counted_for_grow: "counted_for a i \<Longrightarrow> counts_grow a b \<Longrightarrow> length (pg_max_reg a) = MAX_REG_TYPE \<Longrightarrow> counted_for b i"
  unfolding counted_for_def counts_grow_def by (meson order_trans)

lemma count_instr_grow:
  assumes "count_instr i pg = Inr pg'"
  shows "counts_grow pg pg'" "length (pg_max_reg pg) = MAX_REG_TYPE \<Longrightarrow> counted_for pg' i"
proof -
  from assms have c: "foldM_result (\<lambda>t max_reg. bind_result (get_max_reg (int t) i) (\<lambda>m. Inr (max_reg[t := max (max_reg ! t) m])))
       [0..<MAX_REG_TYPE] (pg_max_reg pg) = Inr (pg_max_reg pg')"
    and m: "pg_max_mem pg' = map (\<lambda>t. max (pg_max_mem pg ! t) (get_mem (int t) i)) [0..<MAX_REG_TYPE]" and p: "pg_p pg' = pg_p pg"
    by (auto simp: count_instr_def count_regs_def bind_result_Inr_iff)
  have l: "length (pg_max_reg pg') = length (pg_max_reg pg)"
    by (rule foldM_result_rel [where R = "\<lambda>x y. length y = length x", OF c]) (auto simp: bind_result_Inr_iff)
  have mm: "pg_max_mem pg' ! t = max (pg_max_mem pg ! t) (get_mem (int t) i)" if "t < MAX_REG_TYPE" for t
    unfolding m using that by (subst nth_map) simp_all
  show "counts_grow pg pg'" using l p foldM_upt_max(2) [OF c] mm by (simp add: counts_grow_def)
  show "counted_for pg' i" if "length (pg_max_reg pg) = MAX_REG_TYPE"
    using foldM_upt_max(3) [OF c] that mm by (simp add: counted_for_def)
qed

lemma count_instrs_grow:
  assumes "foldM_result count_instr is pg = Inr pg'"
  shows "counts_grow pg pg'"
  by (rule foldM_result_rel [where R = counts_grow, OF assms _ counts_grow_trans count_instr_grow(1)]) (simp add: counts_grow_def)

lemma compute_constants_counts:
  assumes "compute_constants pg = Inr prog"
  shows "pg_p prog = pg_p pg" "\<forall>i\<in>set (pg_p prog). counted_for prog i"
proof -
  let ?pg = "pg\<lparr>pg_max_reg := replicate MAX_REG_TYPE 0, pg_max_mem := replicate MAX_REG_TYPE 0\<rparr>"
  have f: "foldM_result count_instr (pg_p pg) ?pg = Inr prog" using assms by (simp add: compute_constants_def)
  show p: "pg_p prog = pg_p pg" using count_instrs_grow [OF f] by (simp add: counts_grow_def)
  show "\<forall>i\<in>set (pg_p prog). counted_for prog i"
  proof
    fix i assume "i \<in> set (pg_p prog)"
    then obtain as bs where split: "pg_p pg = as @ i # bs" using p by (metis split_list)
    from f obtain pg1 pg2 where c: "foldM_result count_instr as ?pg = Inr pg1" "count_instr i pg1 = Inr pg2" "foldM_result count_instr bs pg2 = Inr prog"
      by (auto simp: split foldM_result_append bind_result_Inr_iff)
    have "length (pg_max_reg pg1) = MAX_REG_TYPE" "length (pg_max_reg pg2) = MAX_REG_TYPE"
      using count_instrs_grow [OF c(1)] count_instr_grow(1) [OF c(2)] by (simp_all add: counts_grow_def)
    then show "counted_for prog i" using count_instr_grow(2) [OF c(2)] counted_for_grow count_instrs_grow [OF c(3)] by blast
  qed
qed

subsection \<open>Typed instructions\<close>

text \<open>The instructions of the theorem: those with integer registers, and those without registers.\<close>

definition typed_reg_ops :: "nat list" where
  "typed_reg_ops =
    [LDMINT, STMINT, LDMINTI, STMINTI, MOVINT, PUSHINT, LDARG, LDINT, ADDINT, SUBINT, MULINT, DIVINT, INCINT, EQZC, LTZC, LTC,
     GTC, EQC, PRINTINT, BITDECINT, JMPI, JMPNZ, JMPEQZ, NPLAYERS, THRESHOLD, PLAYERID]"

definition plain_ops :: "nat list" where
  "plain_ops = [PRINTFLOATPREC, PRINTSTR, PRINTCHR, JMP] @ announce_ops"

definition typed_instr :: "instr \<Rightarrow> bool" where
  "typed_instr i \<longleftrightarrow> in_opcode i \<in> set (typed_reg_ops @ plain_ops) \<and> regs_ok i \<and> 0 < sint (in_size i) \<and>
     (in_opcode i = INCINT \<longrightarrow> length (in_start i) = 2) \<and> (in_opcode i = BITDECINT \<longrightarrow> length (in_start i) \<le> 64) \<and>
     (is_direct_memory_access (in_opcode i) \<longrightarrow> unat (in_n i) + vec_len i < 2 ^ 64)"

text \<open>The errors that depend on the values.\<close>

definition value_fault :: "instr \<Rightarrow> cpp_error \<Rightarrow> bool" where
  "value_fault i e \<longleftrightarrow>
     e = division_by_zero \<and> in_opcode i = DIVINT \<or>
     e = arithmetic_trap \<and> in_opcode i \<in> set [DIVINT, INCINT] \<or>
     e = memory_overflow \<and> in_opcode i \<in> set [LDMINTI, STMINTI]"

lemma typed_reg_type:
  assumes "in_opcode i \<in> set typed_reg_ops"
  shows "get_reg_type (in_opcode i) n = INT_T"
  using assms unfolding typed_reg_ops_def list.set insert_iff empty_iff
  by (elim disjE) (simp_all add: get_reg_type.simps int_reg_ops_def none_reg_ops_def cint_reg_ops_def is_gf2n_instruction_def)

lemma typed_get_max_reg:
  assumes "in_opcode i \<in> set typed_reg_ops"
  shows "get_max_reg t i = Inr (if t = INT_T then plain_max_reg i (in_size i) else 0)"
proof -
  note t = typed_reg_type [OF assms, of "in_n i"]
  show ?thesis
    using assms t unfolding typed_reg_ops_def list.set insert_iff empty_iff
    by (elim disjE) (simp_all add: get_max_reg_def typed_max_reg_def Let_def)
qed

lemma foldl_max_start:
  fixes xs :: "'a :: linorder list"
  shows "m \<le> foldl max m xs"
proof (induction xs arbitrary: m)
  case (Cons x xs)
  from Cons.IH [of "max m x"] show ?case by simp
qed simp

lemma foldl_max_ge:
  fixes xs :: "'a :: linorder list"
  shows "x \<in> set xs \<Longrightarrow> x \<le> foldl max m xs"
proof (induction xs arbitrary: m)
  case (Cons y ys)
  then show ?case using foldl_max_start [of "max m y" ys] by auto
qed simp

lemma foldl_max_in: "foldl max (m :: 'a :: linorder) xs \<in> insert m (set xs)"
  by (induction xs arbitrary: m) (auto simp: max_def)

lemma nat_sum_less: "0 \<le> a \<Longrightarrow> 0 < b \<Longrightarrow> a + b \<le> (2147483648 :: int) \<Longrightarrow> nat a + nat b < 4294967296"
  by linarith

lemma plain_max_reg_ge:
  assumes "regs_ok i" "0 < sint (in_size i)" "r \<in> set (in_r i) \<union> set (in_start i)"
  shows "nat (sint r) + vec_len i \<le> unat (plain_max_reg i (in_size i))"
proof -
  let ?m = "foldl max (foldl max 0 (in_start i)) (in_r i)"
  have le: "r \<le> ?m" using assms(3) by (auto intro: foldl_max_ge order_trans [OF foldl_max_ge foldl_max_start])
  have ok: "reg_ok i r" if "r \<in> set (in_r i) \<union> set (in_start i)" for r using that assms(1) by (auto simp: regs_ok_def)
  have u: "unat r = nat (sint r)" if "reg_ok i r" for r using that uint_lt2p [of r] by (auto simp: reg_ok_def sint_uint_cases split: if_splits)
  have "?m \<in> insert (0 :: 32 word) (set (in_r i) \<union> set (in_start i))" using foldl_max_in [of "foldl max 0 (in_start i)" "in_r i"] foldl_max_in [of 0 "in_start i"] by auto
  moreover have "reg_ok i 0" using sint_lt [of "in_size i"] by (simp add: reg_ok_def)
  ultimately have mok: "reg_ok i ?m" by (metis insertE ok)
  moreover have s: "unat (in_size i) = vec_len i" using assms(2) uint_lt2p [of "in_size i"] by (auto simp: vec_len_def sint_uint_cases split: if_splits)
  ultimately have "unat ?m + unat (in_size i) < 2 ^ 32" using u [OF mok] mok assms(2) s nat_sum_less
    by (simp add: reg_ok_def vec_len_def)
  then have "unat (?m + in_size i) = unat ?m + vec_len i" by (simp add: unat_plus_if' s)
  then show ?thesis using le u [OF ok [OF assms(3)]] by (simp add: plain_max_reg_def word_le_nat_alt)
qed

subsection \<open>Registers and loops in range\<close>

text \<open>\<open>n\<close> registers of the frame are there.\<close>

definition has_regs :: "nat \<Rightarrow> 'a stacked \<Rightarrow> bool" where
  "has_regs n v \<longleftrightarrow> sv_start v < 2 ^ 63 \<and> sv_start v + n \<le> length (sv_full v)"

lemma outcome_sv_ptr:
  assumes "has_regs m v" "0 \<le> sint r" "nat (sint r) + n \<le> m" "0 < n"
  shows "outcome A (\<lambda>p. p + n \<le> length (sv_full v)) (sv_ptr r v)"
  using assms by (simp add: sv_ptr_def has_regs_def sv_index_nonneg)

lemma outcome_sv_range:
  assumes "has_regs m v" "0 \<le> sint r" "nat (sint r) + vec_len i \<le> m" "0 < sint (in_size i)"
  shows "outcome A (\<lambda>p. p + vec_len i \<le> length (sv_full v)) (sv_range i r v)"
proof -
  have "nat (int (sv_start v) + sint r) = sv_start v + nat (sint r)" using assms(2) by (simp add: nat_add_distrib)
  then show ?thesis using assms by (auto simp: sv_range_def has_regs_def vec_len_def Let_def not_less)
qed

lemma outcome_sv_on:
  assumes "outcome A (\<lambda>ys. length ys = length (sv_full v)) (f (sv_full v))" "has_regs m v"
  shows "outcome A (has_regs m) (sv_on f v)"
  unfolding sv_on_def by (rule outcome_bind [OF assms(1)]) (use assms(2) in \<open>simp add: has_regs_def\<close>)

lemma outcome_loops:
  assumes "d + n \<le> length xs"
  shows "(\<And>k. k < n \<Longrightarrow> outcome A (\<lambda>_. True) (f k)) \<Longrightarrow> outcome A (\<lambda>ys. length ys = length xs) (fill_loop f d n xs)"
    and "p + n \<le> length xs \<Longrightarrow> (\<And>a. outcome A (\<lambda>_. True) (g a)) \<Longrightarrow> outcome A (\<lambda>ys. length ys = length xs) (unary_loop g d p n xs)"
    and "p + n \<le> length xs \<Longrightarrow> q + n \<le> length xs \<Longrightarrow> (\<And>a b. outcome A (\<lambda>_. True) (h a b)) \<Longrightarrow>
      outcome A (\<lambda>ys. length ys = length xs) (binary_loop h d p q n xs)"
    and "p + n \<le> length src \<Longrightarrow> outcome A (\<lambda>ys. length ys = length xs) (copy_loop src p d n xs)"
    and "(\<And>a e. mem_ptr a mem = Inl e \<Longrightarrow> A e) \<Longrightarrow> outcome A (\<lambda>ys. length ys = length xs) (indirect_read_loop mem ix d p n xs)"
    and "(\<And>a e. mem_ptr a mem = Inl e \<Longrightarrow> A e) \<Longrightarrow> outcome A (\<lambda>m. length m = length mem) (indirect_write_loop ys jx d p n mem)"
proof -
  have dr: "outcome A (\<lambda>_. True) (deref ys j)" if "j < length ys" for ys :: "'b list" and j using that by (simp add: deref_def)
  show "(\<And>k. k < n \<Longrightarrow> outcome A (\<lambda>_. True) (f k)) \<Longrightarrow> outcome A (\<lambda>ys. length ys = length xs) (fill_loop f d n xs)"
    unfolding fill_loop_def using assms by (auto intro!: outcome_foldM outcome_bind [where Q = "\<lambda>_. True"] outcome_assign)
  show "p + n \<le> length xs \<Longrightarrow> (\<And>a. outcome A (\<lambda>_. True) (g a)) \<Longrightarrow> outcome A (\<lambda>ys. length ys = length xs) (unary_loop g d p n xs)"
    unfolding unary_loop_def using assms
    by (auto intro!: outcome_foldM outcome_bind [where Q = "\<lambda>_. True"] outcome_assign outcome_deref)
  show "p + n \<le> length xs \<Longrightarrow> q + n \<le> length xs \<Longrightarrow> (\<And>a b. outcome A (\<lambda>_. True) (h a b)) \<Longrightarrow>
      outcome A (\<lambda>ys. length ys = length xs) (binary_loop h d p q n xs)"
    unfolding binary_loop_def using assms
    by (auto intro!: outcome_foldM outcome_bind [where Q = "\<lambda>_. True"] outcome_assign outcome_deref)
  show "p + n \<le> length src \<Longrightarrow> outcome A (\<lambda>ys. length ys = length xs) (copy_loop src p d n xs)"
    unfolding copy_loop_def fill_loop_def using assms
    by (auto intro!: outcome_foldM outcome_bind [where Q = "\<lambda>_. True"] outcome_assign outcome_deref)
  assume m: "\<And>a e. mem_ptr a mem = Inl e \<Longrightarrow> A e"
  then have mp: "outcome A (\<lambda>_. True) (mem_ptr a mem)" for a by (cases "mem_ptr a mem") auto
  show "outcome A (\<lambda>ys. length ys = length xs) (indirect_read_loop mem ix d p n xs)"
    unfolding indirect_read_loop_def by (auto intro!: outcome_foldM outcome_bind [OF mp])
  show "outcome A (\<lambda>m. length m = length mem) (indirect_write_loop ys jx d p n mem)"
    unfolding indirect_write_loop_def
    by (rule outcome_foldM) (auto intro!: outcome_bind [where Q = "\<lambda>_. True"] simp: mem_ptr_def intro: m)
qed

lemma if_outcome: "(b \<Longrightarrow> outcome A Q x) \<Longrightarrow> (\<not> b \<Longrightarrow> outcome A Q y) \<Longrightarrow> outcome A Q (if b then x else y)"
  by simp

text \<open>The registers of an instruction are among \<open>m\<close>.\<close>

definition regs_below :: "nat \<Rightarrow> instr \<Rightarrow> bool" where
  "regs_below m i \<longleftrightarrow> 0 < sint (in_size i) \<and> regs_ok i \<and>
     (\<forall>r\<in>set (in_r i) \<union> set (in_start i). nat (sint r) + vec_len i \<le> m)"

lemma regs_belowD:
  assumes "regs_below m i" "j < 4"
  shows "0 \<le> sint (in_r i ! j)" "nat (sint (in_r i ! j)) + vec_len i \<le> m" "0 < vec_len i" "0 < sint (in_size i)"
  using assms regs_okD(1) [of i j] by (auto simp: regs_below_def regs_ok_def reg_ok_def vec_len_def)

lemma regs_below_nth: "regs_below m i \<Longrightarrow> j < 4 \<Longrightarrow> in_r i ! j \<in> set (in_r i) \<union> set (in_start i)"
  by (rule UnI1, rule nth_mem) (simp add: regs_below_def regs_ok_def)

lemma outcome_element:
  assumes "regs_below m i" "r \<in> set (in_r i) \<union> set (in_start i)" "k < vec_len i" "has_regs m v"
  shows "outcome A (\<lambda>_. True) (sv_at (r + of_nat k) v)" "outcome A (has_regs m) (sv_put (r + of_nat k) x v)"
proof -
  have ok: "reg_ok i r" using assms(1,2) by (auto simp: regs_below_def regs_ok_def)
  have s: "sint (r + of_nat k) = sint r + int k" by (rule reg_ok_element [OF ok assms(3)])
  have "nat (sint r) + vec_len i \<le> m" "0 \<le> sint r" using assms(1,2) ok by (auto simp: regs_below_def reg_ok_def)
  then have b: "nat (sint (r + of_nat k)) + 1 \<le> m" "0 \<le> sint (r + of_nat k)"
    using assms(3) by (simp_all add: s nat_add_distrib)
  note p = outcome_sv_ptr [OF assms(4) b(2,1)]
  show "outcome A (\<lambda>_. True) (sv_at (r + of_nat k) v)" unfolding sv_at_def by (rule outcome_bind [OF p]) simp_all
  show "outcome A (has_regs m) (sv_put (r + of_nat k) x v)" unfolding sv_put_def
    by (rule outcome_bind [OF p]) (use assms(4) in \<open>simp_all add: has_regs_def\<close>)
qed

lemma outcome_vec:
  assumes "regs_below m i" "has_regs m v"
  shows "(\<And>k. k < vec_len i \<Longrightarrow> outcome A (\<lambda>_. True) (f k)) \<Longrightarrow> outcome A (has_regs m) (vec_fill f i v)"
    and "(\<And>a. outcome A (\<lambda>_. True) (g a)) \<Longrightarrow> outcome A (has_regs m) (vec_unary g i v)"
    and "(\<And>a b. outcome A (\<lambda>_. True) (h a b)) \<Longrightarrow> outcome A (has_regs m) (vec_binary h i v)"
    and "unat (in_n i) + vec_len i \<le> length mem \<Longrightarrow> outcome A (has_regs m) (vec_load i mem v)"
    and "unat (in_n i) + vec_len i \<le> length mem \<Longrightarrow> outcome A (\<lambda>mem'. length mem' = length mem) (vec_store i v mem)"
proof -
  have p: "outcome A (\<lambda>p. p + vec_len i \<le> length (sv_full v)) (sv_ptr (in_r i ! j) v)" if "j < 4" for j
    by (rule outcome_sv_ptr [OF assms(2) regs_belowD(1-3) [OF assms(1) that]])
  note l = outcome_sv_on [OF _ assms(2)] outcome_loops
  note b = outcome_bind [OF p [of 0]] outcome_bind [OF p [of 1]] outcome_bind [OF p [of "Suc 0"]] outcome_bind [OF p [of 2]]
  show "(\<And>k. k < vec_len i \<Longrightarrow> outcome A (\<lambda>_. True) (f k)) \<Longrightarrow> outcome A (has_regs m) (vec_fill f i v)"
    unfolding vec_fill_def by (auto intro!: b l)
  show "(\<And>a. outcome A (\<lambda>_. True) (g a)) \<Longrightarrow> outcome A (has_regs m) (vec_unary g i v)"
    unfolding vec_unary_def by (auto intro!: b l)
  show "(\<And>a b. outcome A (\<lambda>_. True) (h a b)) \<Longrightarrow> outcome A (has_regs m) (vec_binary h i v)"
    unfolding vec_binary_def by (auto intro!: b l)
  assume n: "unat (in_n i) + vec_len i \<le> length mem"
  then have mp: "mem_ptr (in_n i) mem = Inr (unat (in_n i))" using regs_belowD(3) [OF assms(1), of 0] by (simp add: mem_ptr_def)
  show "outcome A (has_regs m) (vec_load i mem v)"
    unfolding vec_load_def mp using n by (auto intro!: b l)
  show "outcome A (\<lambda>mem'. length mem' = length mem) (vec_store i v mem)"
    unfolding vec_store_def mp using n by (auto intro!: b l)
qed

lemma outcome_vec_special:
  assumes "regs_below m i" "has_regs m v"
  shows "in_opcode i = DIVINT \<Longrightarrow> outcome (value_fault i) (has_regs m) (vec_divide i v)"
    and "in_opcode i = INCINT \<Longrightarrow> length (in_start i) = 2 \<Longrightarrow> outcome (value_fault i) (has_regs m) (vec_increment i v)"
    and "in_opcode i = BITDECINT \<Longrightarrow> length (in_start i) \<le> 64 \<Longrightarrow> outcome A (has_regs m) (bitdecint i v)"
    and "in_opcode i = LDMINTI \<Longrightarrow> outcome (value_fault i) (has_regs m) (indirect_read_self i mem v)"
    and "in_opcode i = STMINTI \<Longrightarrow> outcome (value_fault i) (\<lambda>mem'. length mem' = length mem) (indirect_write_self i v mem)"
proof -
  have p: "outcome A (\<lambda>p. p + vec_len i \<le> length (sv_full v)) (sv_ptr (in_r i ! j) v)" if "j < 4" for j A
    by (rule outcome_sv_ptr [OF assms(2) regs_belowD(1-3) [OF assms(1) that]])
  note b = outcome_bind [OF p [of 0]] outcome_bind [OF p [of 1]] outcome_bind [OF p [of "Suc 0"]] outcome_bind [OF p [of 2]]
  note l = outcome_sv_on [OF _ assms(2)]
  show "outcome (value_fault i) (has_regs m) (vec_divide i v)" if op: "in_opcode i = DIVINT"
    unfolding vec_divide_def
  proof (intro outcome_bind [OF p] l outcome_foldM)
    fix d p q k and xs :: "64 word list"
    assume "d + vec_len i \<le> length (sv_full v)" "p + vec_len i \<le> length (sv_full v)" "q + vec_len i \<le> length (sv_full v)"
      "k \<in> set [0..<vec_len i]" "length xs = length (sv_full v)"
    then show "outcome (value_fault i) (\<lambda>ys. length ys = length (sv_full v))
         (bind_result (deref xs (q + k)) (\<lambda>b. if b = 0 then Inl division_by_zero
           else bind_result (deref xs (p + k)) (\<lambda>a. bind_result (divide_long a b) (\<lambda>x. assign (d + k) x xs))))"
      by (simp add: deref_def divide_long_def assign_def value_fault_def op)
  qed simp_all
  show "outcome (value_fault i) (has_regs m) (vec_increment i v)" if op: "in_opcode i = INCINT" "length (in_start i) = 2"
  proof -
    have "outcome (value_fault i) (\<lambda>_. True) (sv_at (in_r i ! 1) v)"
      unfolding sv_at_def by (rule outcome_bind [OF p]) simp_all
    moreover have "outcome (value_fault i) (\<lambda>_. True) (increment i base k)" for base k
      using op by (simp add: increment_def value_fault_def Let_def)
    ultimately show ?thesis unfolding vec_increment_def by (auto intro!: outcome_bind [OF p] l outcome_loops(1) elim: outcome_bind)
  qed
  show "outcome A (has_regs m) (bitdecint i v)" if len: "length (in_start i) \<le> 64"
    unfolding bitdecint_def
  proof (rule outcome_foldM [where I = "has_regs m", OF assms(2)])
    fix j and v' :: "64 word stacked"
    assume j: "j \<in> set [0..<vec_len i]" and v': "has_regs m v'"
    have r0: "in_r i ! 0 \<in> set (in_r i) \<union> set (in_start i)" by (rule regs_below_nth [OF assms(1)]) simp
    show "outcome A (has_regs m) (bind_result (sv_at (in_r i ! 0 + of_nat j) v') (\<lambda>a.
       foldM_result (\<lambda>k v. if 64 \<le> k then Inl undefined_behaviour else sv_put (in_start i ! k + of_nat j) (of_truth (bit a k)) v)
         [0..<length (in_start i)] v'))"
      by (rule outcome_bind [OF outcome_element(1) [OF assms(1) r0 _ v']])
        (use j v' len in \<open>auto intro!: outcome_foldM outcome_element(2) [OF assms(1)]\<close>)
  qed
  have r: "outcome A (\<lambda>p. p + vec_len i \<le> length (sv_full v)) (sv_range i (in_r i ! j) v)" if "j < 4" for j A
    by (rule outcome_sv_range [OF assms(2) regs_belowD(1,2) [OF assms(1) that] regs_belowD(4) [OF assms(1) that]])
  have m: "value_fault i e" if "mem_ptr a mem = Inl e" "in_opcode i = LDMINTI \<or> in_opcode i = STMINTI" for a e
    using that by (auto simp: mem_ptr_def value_fault_def split: if_splits)
  show "outcome (value_fault i) (has_regs m) (indirect_read_self i mem v)" if "in_opcode i = LDMINTI"
    unfolding indirect_read_self_def by (auto intro!: outcome_bind [OF r] l outcome_loops(5) m that)
  show "outcome (value_fault i) (\<lambda>mem'. length mem' = length mem) (indirect_write_self i v mem)" if "in_opcode i = STMINTI"
    unfolding indirect_write_self_def by (auto intro!: outcome_bind [OF r] outcome_loops(6) m that)
qed

subsection \<open>Typed states\<close>

definition outcome_io :: "(cpp_error \<Rightarrow> bool) \<Rightarrow> ('a \<Rightarrow> bool) \<Rightarrow> 'a io \<Rightarrow> bool" where
  "outcome_io A Q m = (case m of None \<Rightarrow> True | Some r \<Rightarrow> outcome A Q r)"

lemma outcome_io_simps [simp]:
  "outcome_io A Q None"
  "outcome_io A Q (Some r) = outcome A Q r"
  by (simp_all add: outcome_io_def)

text \<open>The registers and the memory that the tape was counted to use are there.\<close>

definition typed_state :: "program \<Rightarrow> ('c, 's, 'd) vm_state \<Rightarrow> bool" where
  "typed_state prog = (\<lambda>(P, M). has_regs (unat (num_reg prog INT_T)) (ap_Ci P) \<and> unat (direct_mem prog INT_T) \<le> length (mm_Mi M))"

lemma typed_regs_below:
  assumes "counted_for prog i" "typed_instr i" "in_opcode i \<in> set typed_reg_ops"
  shows "regs_below (unat (num_reg prog INT_T)) i"
proof -
  have t: "regs_ok i" "0 < sint (in_size i)" using assms(2) by (simp_all add: typed_instr_def)
  have "plain_max_reg i (in_size i) \<le> num_reg prog INT_T"
    using assms(1) typed_get_max_reg [OF assms(3)] by (auto simp: counted_for_def num_reg_def dest: spec [where x = 0])
  then have "unat (plain_max_reg i (in_size i)) \<le> unat (num_reg prog INT_T)" by (simp add: word_le_nat_alt)
  then show ?thesis using t plain_max_reg_ge [OF t] unfolding regs_below_def by (meson order_trans)
qed

lemma typed_memory:
  assumes "counted_for prog i" "typed_instr i" "in_opcode i = LDMINT \<or> in_opcode i = STMINT"
  shows "unat (in_n i) + vec_len i \<le> unat (direct_mem prog INT_T)"
proof -
  have d: "is_direct_memory_access (in_opcode i)" using assms(3) by (auto simp: is_direct_memory_access_def direct_memory_ops_def)
  have t: "get_reg_type (in_opcode i) (in_n i) = INT_T"
    by (rule typed_reg_type) (use assms(3) in \<open>auto simp: typed_reg_ops_def\<close>)
  obtain a where a: "sint (in_size i) = int a" using assms(2) nonneg_int_cases [of "sint (in_size i)"] by (auto simp: typed_instr_def)
  then have "scast (in_size i) = (of_nat (vec_len i) :: 64 word)" by (simp add: scast_eq vec_len_def)
  then have "in_n i + scast (in_size i) = of_nat (unat (in_n i) + vec_len i)" by simp
  moreover have "unat (of_nat (unat (in_n i) + vec_len i) :: 64 word) = unat (in_n i) + vec_len i"
    unfolding unat_of_nat by (rule mod_less) (use assms(2) d in \<open>simp add: typed_instr_def\<close>)
  ultimately have "unat (in_n i + scast (in_size i)) = unat (in_n i) + vec_len i" by simp
  moreover have "get_mem INT_T i = in_n i + scast (in_size i)" by (simp add: get_mem_def t d)
  ultimately show ?thesis
    using assms(1) by (auto simp: counted_for_def direct_mem_def word_le_nat_alt dest: spec [where x = 0])
qed

subsection \<open>Steps\<close>

definition regint_ok :: "nat \<Rightarrow> nat \<Rightarrow> 'z arith_proc_scheme \<times> 64 word list \<Rightarrow> bool" where
  "regint_ok m l = (\<lambda>(P, mi). has_regs m (ap_Ci P) \<and> length mi = l)"

lemma outcome_lift_Ci:
  "outcome A (has_regs m) (f (ap_Ci P)) \<Longrightarrow> length mi = l \<Longrightarrow> outcome A (regint_ok m l) (bind_result (lift_Ci f P) (\<lambda>P. Inr (P, mi)))"
  unfolding lift_Ci_def bind_result_assoc by (erule outcome_bind) (simp add: regint_ok_def)

lemma outcome_proc:
  "outcome A (\<lambda>Q. ap_Ci Q = ap_Ci P) p \<Longrightarrow> has_regs m (ap_Ci P) \<Longrightarrow> length mi = l \<Longrightarrow> outcome A (regint_ok m l) (bind_result p (\<lambda>P. Inr (P, mi)))"
  by (erule outcome_bind) (simp add: regint_ok_def)

lemma outcome_memory:
  "outcome A (\<lambda>mi'. length mi' = length mi) p \<Longrightarrow> has_regs m (ap_Ci P) \<Longrightarrow> length mi = l \<Longrightarrow> outcome A (regint_ok m l) (bind_result p (\<lambda>mi. Inr (P, mi)))"
  by (erule outcome_bind) (simp add: regint_ok_def)

lemma typed_exec_regint_regs:
  assumes "regs_below m i" "has_regs m (ap_Ci P)" "typed_instr i" "in_opcode i \<in> set typed_reg_ops"
    and "in_opcode i = LDMINT \<or> in_opcode i = STMINT \<longrightarrow> unat (in_n i) + vec_len i \<le> length mi"
  shows "outcome_io (value_fault i) (regint_ok m (length mi)) (exec_regint E pl i (P, mi))"
proof -
  have at: "outcome A (\<lambda>_. True) (sv_at (in_r i ! 0) (ap_Ci P))" for A
    using outcome_element(1) [OF assms(1) regs_below_nth [OF assms(1), of 0] _ assms(2), of 0] regs_belowD(3) [OF assms(1), of 0] by simp
  have ok: "regint_ok m (length mi) (P, mi)" using assms(2) by (simp add: regint_ok_def)
  have proc: "outcome A (regint_ok m (length mi)) (bind_result (bind_result (sv_at (in_r i ! 0) (ap_Ci P)) g) (\<lambda>P. Inr (P, mi)))"
    if "\<And>x. outcome A (\<lambda>Q. ap_Ci Q = ap_Ci P) (g x)" for g A
    by (rule outcome_proc [OF outcome_bind [OF at that] assms(2) refl])
  note v = proc outcome_vec [OF assms(1,2)] outcome_vec_special [OF assms(1,2)] outcome_lift_Ci outcome_memory [OF _ assms(2)]
  have len: "in_opcode i = INCINT \<longrightarrow> length (in_start i) = 2" "in_opcode i = BITDECINT \<longrightarrow> length (in_start i) \<le> 64"
    using assms(3) by (simp_all add: typed_instr_def)
  show ?thesis
    using assms(4,5) len unfolding typed_reg_ops_def list.set insert_iff empty_iff
    by (elim disjE; simp add: exec_regint_def Let_def ok; auto intro!: v simp: out_put_def)
qed

lemma typed_exec_regint_plain:
  assumes "in_opcode i \<in> set plain_ops" "has_regs m (ap_Ci P)"
  shows "outcome_io (value_fault i) (regint_ok m (length mi)) (exec_regint E pl i (P, mi))"
  using assms unfolding plain_ops_def announce_ops_def set_append list.set Un_iff insert_iff empty_iff
  by (elim disjE) (simp_all add: exec_regint_def Let_def regint_ok_def out_put_def)

lemma typed_control:
  fixes env :: "('c, 's, 'd) vm_env"
  assumes "regs_below m i" "has_regs m (ap_Ci P)" "in_opcode i \<noteq> CRASH"
  shows "outcome A (\<lambda>Q. has_regs m (ap_Ci Q)) (exec_control env i P)"
  unfolding exec_control_def
proof (rule outcome_foldM [where I = "\<lambda>Q. has_regs m (ap_Ci Q)", OF assms(2)])
  fix k and Q :: "('c, 's, 'd) vm"
  assume k: "k \<in> set [0..<vec_len i]" and Q: "has_regs m (ap_Ci Q)"
  note r0 = regs_below_nth [OF assms(1), of 0]
  have at: "outcome A (\<lambda>_. True) (sv_at (in_r i ! 0 + of_nat k) (ap_Ci Q))"
    by (rule outcome_element(1) [OF assms(1) r0 _ Q]) (use k in simp_all)
  have put: "outcome A (\<lambda>R. has_regs m (ap_Ci R)) (write_Ci (in_r i ! 0 + of_nat k) x Q)" for x
    unfolding write_Ci_def by (rule outcome_bind [OF outcome_element(2) [OF assms(1) r0 _ Q]]) (use k in simp_all)
  show "outcome A (\<lambda>Q. has_regs m (ap_Ci Q)) (control_step env i k Q)"
    unfolding control_step_def Let_def
    by (intro if_outcome put outcome_bind [OF at]) (simp_all add: jump_def Q assms(3))
qed

lemma plain_control:
  assumes "has_regs m (ap_Ci P)" "in_opcode i = JMP"
  shows "outcome A (\<lambda>Q. has_regs m (ap_Ci Q)) (exec_control env i P)"
  unfolding exec_control_def
  by (rule outcome_foldM [where I = "\<lambda>Q. has_regs m (ap_Ci Q)", OF assms(1)]) (simp add: control_step_def assms(2) jump_def)

lemma typed_exec_instr:
  assumes "counted_for prog i" "typed_instr i" "typed_state prog s"
  shows "outcome_io (value_fault i) (typed_state prog) (exec_instr env i s)"
proof -
  obtain P M where s: "s = (P, M)" by (cases s)
  let ?m = "unat (num_reg prog INT_T)"
  have st: "has_regs ?m (ap_Ci P)" "unat (direct_mem prog INT_T) \<le> length (mm_Mi M)" using assms(3) by (simp_all add: s typed_state_def)
  have below: "regs_below ?m i" if "in_opcode i \<in> set typed_reg_ops" by (rule typed_regs_below [OF assms(1,2) that])
  have kind: "in_opcode i \<in> set typed_reg_ops \<or> in_opcode i \<in> set plain_ops" using assms(2) by (auto simp: typed_instr_def)
  have mem: "in_opcode i = LDMINT \<or> in_opcode i = STMINT \<longrightarrow> unat (in_n i) + vec_len i \<le> length (mm_Mi M)"
    using typed_memory [OF assms(1,2)] st(2) by (auto intro: order_trans)
  have reg: "outcome_io (value_fault i) (regint_ok ?m (length (mm_Mi M))) (exec_regint (env_E env) (env_pl env) i (P, mm_Mi M))"
    using kind typed_exec_regint_regs [OF below st(1) assms(2) _ mem] typed_exec_regint_plain [OF _ st(1)] by blast
  have cases: "in_opcode i \<in> set regint_ops \<or> in_opcode i \<in> set control_ops \<or> in_opcode i \<in> set announce_ops"
    using kind by (auto simp: typed_reg_ops_def plain_ops_def regint_ops_def control_ops_def)
  have ctl: "outcome (value_fault i) (\<lambda>Q. has_regs ?m (ap_Ci Q)) (exec_control env i P)" if "in_opcode i \<in> set control_ops"
  proof (cases "in_opcode i = JMP")
    case True
    then show ?thesis using plain_control [OF st(1)] by blast
  next
    case False
    then have "in_opcode i \<in> set typed_reg_ops \<and> in_opcode i \<noteq> CRASH"
      using kind that by (auto simp: typed_reg_ops_def plain_ops_def control_ops_def announce_ops_def)
    then show ?thesis using typed_control [OF below st(1)] by blast
  qed
  consider "in_opcode i \<in> set regint_ops" | "in_opcode i \<notin> set regint_ops" "in_opcode i \<in> set control_ops"
    | "in_opcode i \<notin> set regint_ops" "in_opcode i \<notin> set control_ops" "in_opcode i \<in> set announce_ops"
    using cases by blast
  then show ?thesis
  proof cases
    case 1
    then show ?thesis using reg st(2)
      by (auto simp: exec_instr_def s regint_ok_def typed_state_def outcome_io_def outcome_def split: option.splits sum.splits)
  next
    case 2
    then show ?thesis using outcome_bind [OF ctl [OF 2(2)], where R = "typed_state prog" and f = "\<lambda>Q. Inr (Q, M)"] st(2)
      by (simp add: exec_instr_def s typed_state_def)
  next
    case 3
    then show ?thesis using assms(3) by (simp add: exec_instr_def s)
  qed
qed

subsection \<open>Runs\<close>

definition typed_tape :: "instr list \<Rightarrow> bool" where
  "typed_tape is \<longleftrightarrow> (\<forall>i\<in>set is. typed_instr i)"

lemma typed_not_call: "typed_instr i \<Longrightarrow> in_opcode i \<noteq> CALL_TAPE"
  by (auto simp: typed_instr_def typed_reg_ops_def plain_ops_def announce_ops_def)

lemma typed_vm_exec:
  fixes env :: "('c, 's, 'd) vm_env"
  assumes "vm_exec env prog [] s = Some y" "\<forall>i\<in>set (pg_p prog). counted_for prog i" "typed_tape (pg_p prog)" "typed_state prog s"
  shows "outcome (\<lambda>e. \<exists>i\<in>set (pg_p prog). value_fault i e) (typed_state prog) y"
proof -
  let ?C = "\<lambda>(env :: ('c, 's, 'd) vm_env) prog (pend :: instr list) (s :: ('c, 's, 'd) vm_state) (y :: ('c, 's, 'd) vm_state result). pend = [] \<and> (\<forall>i\<in>set (pg_p prog). counted_for prog i) \<and> typed_tape (pg_p prog) \<and> typed_state prog s \<longrightarrow>
    outcome (\<lambda>e. \<exists>i\<in>set (pg_p prog). value_fault i e) (typed_state prog) y"
  have "?C env prog [] s y"
  proof (rule vm_exec.raw_induct [where P = ?C, OF _ assms(1)])
    fix f :: "('c, 's, 'd) vm_env \<Rightarrow> program \<Rightarrow> instr list \<Rightarrow> ('c, 's, 'd) vm_state \<Rightarrow> ('c, 's, 'd) vm_state result option"
      and env prog pend s y
    assume IH: "\<And>env prog pend s y. f env prog pend s = Some y \<Longrightarrow> ?C env prog pend s y"
      and body: "(case pend of
        [] \<Rightarrow> (case fetch prog (fst s) of
            None \<Rightarrow> Some (Inr s)
          | Some i \<Rightarrow>
              if in_opcode i = CALL_TAPE then f env prog (calls i) (next_PC s)
              else (case exec_instr env i (next_PC s) of
                  None \<Rightarrow> None
                | Some (Inl e) \<Rightarrow> Some (Inl e)
                | Some (Inr s) \<Rightarrow> f env prog [] s))
      | i # pend \<Rightarrow> (case call_enter env i (fst s) of
            Inl e \<Rightarrow> Some (Inl e)
          | Inr (tape, P) \<Rightarrow> Option.bind (f env tape [] (P, snd s)) (\<lambda>r. case r of
                Inl e \<Rightarrow> Some (Inl e)
              | Inr (P, M) \<Rightarrow> (case call_leave i P of
                    Inl e \<Rightarrow> Some (Inl e)
                  | Inr P \<Rightarrow> f env prog pend (P, M))))) = Some y"
    show "?C env prog pend s y"
    proof (intro impI, elim conjE)
      assume p: "pend = []" "\<forall>i\<in>set (pg_p prog). counted_for prog i" "typed_tape (pg_p prog)" "typed_state prog s"
      show "outcome (\<lambda>e. \<exists>i\<in>set (pg_p prog). value_fault i e) (typed_state prog) y"
      proof (cases "fetch prog (fst s)")
        case None
        then show ?thesis using body p by auto
      next
        case (Some i)
        then have i: "i \<in> set (pg_p prog)" by (auto simp: fetch_def split: if_splits)
        then have t: "typed_instr i" using p(3) by (simp add: typed_tape_def)
        have "typed_state prog (next_PC s)" using p(4) by (cases s) (simp add: typed_state_def next_PC_def jump_def)
        from typed_exec_instr [OF bspec [OF p(2) i] t this, of env] show ?thesis
          using body Some p IH typed_not_call [OF t] i by (auto simp: outcome_io_def split: option.splits sum.splits)
      qed
    qed
  qed
  then show ?thesis using assms(2-4) by simp
qed


subsection \<open>An example\<close>

text \<open>A vector of two fives, a jump over an instruction, a division by zero.\<close>

definition demo_tape :: "instr list" where
  "demo_tape = [int_instr LDINT 2 [0, 0, 0, 0] 5 [], int_instr JMPEQZ 1 [2, 0, 0, 0] 1 [],
     int_instr LDINT 1 [0, 0, 0, 0] 7 [], int_instr DIVINT 1 [0, 1, 2, 0] 0 []]"

definition demo_prog :: program where
  "demo_prog = \<lparr>pg_p = demo_tape, pg_offline_data_used = dp_new 2, pg_max_reg = [3, 0, 0, 0, 0, 0, 0, 0, 0], pg_max_mem = [0, 0, 0, 0, 0, 0, 0, 0, 0],
     pg_unknown_usage = False, pg_writes_persistence = False\<rparr>"

lemma demo_tape_ok: "tape_ok demo_hooks instr_new demo_tape"
proof -
  have "operand_format LDINT = Some [Reg 0, IntN]" "operand_format JMPEQZ = Some [Reg 0, IntN]" "operand_format DIVINT = Some [Ints 3]"
    by (simp_all add: operand_format_def operand_table_def operand_cases_1_def operand_cases_2_def operand_cases_3_def operand_cases_4_def)
  then show ?thesis by (simp add: demo_tape_def int_instr_def instr_ok_def blank_instr_def instr_new_def)
qed

lemma demo_counts: "compute_constants ((program_new 2)\<lparr>pg_p := demo_tape\<rparr>) = Inr demo_prog"
proof -
  have upt9: "[0..<9] = [0, 1, 2, 3, 4, 5, 6, 7, 8]" by (simp add: upt_conv_Cons)
  have count: "count_regs i ([a, 0, 0, 0, 0, 0, 0, 0, 0], [b, 0, 0, 0, 0, 0, 0, 0, 0])
      = Inr ([max a (plain_max_reg i (in_size i)), 0, 0, 0, 0, 0, 0, 0, 0], [b, 0, 0, 0, 0, 0, 0, 0, 0])"
    if "in_opcode i \<in> set typed_reg_ops" "\<not> is_direct_memory_access (in_opcode i)" for i a b
    using that(2) by (simp add: count_regs_def typed_get_max_reg [OF that(1)] get_mem_def upt9)
  have used: "get_offline_data_usage i dp = Inr (True, dp)" "in_opcode i \<noteq> WRITEFILESHARE" if "in_opcode i \<in> set typed_reg_ops" for i dp
    using that by (auto simp: typed_reg_ops_def get_offline_data_usage_def)
  have "replicate 9 (0 :: 32 word) = [0, 0, 0, 0, 0, 0, 0, 0, 0]" "replicate 9 (0 :: 64 word) = [0, 0, 0, 0, 0, 0, 0, 0, 0]"
    by (simp_all add: numeral_eq_Suc)
  then show ?thesis
    by (simp add: compute_constants_def count_instr_def used demo_tape_def program_new_def int_instr_def count typed_reg_ops_def
        is_direct_memory_access_def direct_memory_ops_def plain_max_reg_def demo_prog_def)
qed

lemma demo_load: "load_program demo_ops demo_hooks 2 (encode_tape demo_tape) demo_memory = Inr (demo_prog, demo_memory)"
  by (simp add: load_program_def program_parse_def parse_instrs_enc demo_tape_ok demo_counts memory_for_def minimum_size_def
      demo_memory_def direct_mem_def demo_prog_def)

lemma demo_start: "vm_start demo_ops demo_prog 0 demo_prng () True = Inr (demo_vm (demo_frame [0, 0, 0]) 0 [] [] 0 [])"
proof -
  have "replicate 3 x = [x, x, x]" for x :: "64 word" by (simp add: numeral_eq_Suc)
  then show ?thesis
    by (simp add: vm_start_def vm_reset_def sv_resize_def sv_new_def demo_vm_def num_reg_def demo_prog_def vec_resize_def demo_ops_def)
qed

lemma demo_steps:
  "exec_instr (demo_env []) (int_instr LDINT 2 [0, 0, 0, 0] 5 []) (demo_vm (demo_frame [0, 0, 0]) 1 [] [] 0 [], demo_memory) =
     Some (Inr (demo_vm (demo_frame [5, 5, 0]) 1 [] [] 0 [], demo_memory))"
  "exec_instr (demo_env []) (int_instr JMPEQZ 1 [2, 0, 0, 0] 1 []) (demo_vm (demo_frame [5, 5, 0]) 2 [] [] 0 [], demo_memory) =
     Some (Inr (demo_vm (demo_frame [5, 5, 0]) 3 [] [] 0 [], demo_memory))"
  "exec_instr (demo_env []) (int_instr DIVINT 1 [0, 1, 2, 0] 0 []) (demo_vm (demo_frame [5, 5, 0]) 4 [] [] 0 [], demo_memory) =
     Some (Inl division_by_zero)"
  by (simp_all add: demo_vm_def int_instr_def jump_def exec_instr_def regint_ops_def control_ops_def exec_regint_def exec_control_def
      control_step_def demo_env_def upt_conv_Cons lift_Ci_def vec_fill_def vec_divide_def sv_at_def sv_ptr_def sv_index_def sv_on_def
      fill_loop_def assign_def deref_def imm_def vec_len_def demo_memory_def)

lemma demo_runs: "execute (demo_env []) demo_prog (demo_vm (demo_frame [0, 0, 0]) 0 [] [] 0 [], demo_memory) = Some (Inl division_by_zero)"
proof -
  have f: "fetch demo_prog (demo_vm xs 0 [] [] 0 []) = Some (int_instr LDINT 2 [0, 0, 0, 0] 5 [])"
    "fetch demo_prog (demo_vm xs 1 [] [] 0 []) = Some (int_instr JMPEQZ 1 [2, 0, 0, 0] 1 [])"
    "fetch demo_prog (demo_vm xs 3 [] [] 0 []) = Some (int_instr DIVINT 1 [0, 1, 2, 0] 0 [])"
    "jump 1 (demo_vm xs 0 [] [] 0 []) = demo_vm xs 1 [] [] 0 []" "jump 1 (demo_vm xs 1 [] [] 0 []) = demo_vm xs 2 [] [] 0 []"
    "jump 1 (demo_vm xs 3 [] [] 0 []) = demo_vm xs 4 [] [] 0 []" for xs
    by (simp_all add: fetch_def demo_prog_def demo_vm_def demo_tape_def jump_def)
  have o: "in_opcode (int_instr LDINT 2 [0, 0, 0, 0] 5 []) \<noteq> CALL_TAPE" "in_opcode (int_instr JMPEQZ 1 [2, 0, 0, 0] 1 []) \<noteq> CALL_TAPE"
    "in_opcode (int_instr DIVINT 1 [0, 1, 2, 0] 0 []) \<noteq> CALL_TAPE" by (simp_all add: int_instr_def)
  have n: "next_PC (demo_vm xs 0 [] [] 0 [], M) = (demo_vm xs 1 [] [] 0 [], M)" "next_PC (demo_vm xs 1 [] [] 0 [], M) = (demo_vm xs 2 [] [] 0 [], M)"
    "next_PC (demo_vm xs 3 [] [] 0 [], M) = (demo_vm xs 4 [] [] 0 [], M)" for xs and M :: "(int, int) vm_memory"
    by (simp_all add: next_PC_def f)
  have d: "(demo_vm xs 0 [] [] 0 [])\<lparr>vm_PC := 0\<rparr> = demo_vm xs 0 [] [] 0 []" for xs by (simp add: demo_vm_def)
  show ?thesis
    using vm_exec_step [OF _ o(1) demo_steps(1) [folded n(1)], of demo_prog] vm_exec_step [OF _ o(2) demo_steps(2) [folded n(2)], of demo_prog]
      vm_exec_fault [OF _ o(3) demo_steps(3) [folded n(3)], of demo_prog]
    by (simp add: execute_def d f n del: One_nat_def)
qed

lemma demo_typed: "typed_tape (pg_p demo_prog)"
  by (simp add: demo_prog_def demo_tape_def typed_tape_def typed_instr_def regs_ok_def reg_ok_def typed_reg_ops_def plain_ops_def int_instr_def
      is_direct_memory_access_def direct_memory_ops_def)


end
