(* ===== verification/VmPublic.thy ===== *)
theory VmPublic
  imports VmRun
begin

section \<open>Integer instructions do not depend on the rest of the machine\<close>

text \<open>
  The class of the integer instructions is a base of the processor: what they do to it is the same whatever it is extended by.
\<close>

lemma bind_map_sum: "bind_result (map_sum id h m) f = bind_result m (\<lambda>x. f (h x))"
  by (cases m) simp_all

lemma map_sum_bind: "map_sum id h (bind_result m f) = bind_result m (\<lambda>x. map_sum id h (f x))"
  by (cases m) simp_all

lemma foldM_result_map:
  assumes "\<And>k s. f k (h s) = map_sum id h (g k s)"
  shows "foldM_result f ks (h s) = map_sum id h (foldM_result g ks s)"
  by (induction ks arbitrary: s) (simp_all add: assms bind_map_sum map_sum_bind)

definition map_io :: "('a \<Rightarrow> 'b) \<Rightarrow> 'a io \<Rightarrow> 'b io" where
  "map_io h = map_option (map_sum id h)"

lemma map_io_simps [simp]:
  "map_io h (Some r) = Some (map_sum id h r)"
  "map_io h None = None"
  by (simp_all add: map_io_def)

lemma bind_map_io: "bind_io (map_io h m) f = bind_io m (\<lambda>x. f (h x))"
  by (cases m; cases "the m") simp_all

lemma map_io_bind: "map_io h (bind_io m f) = bind_io m (\<lambda>x. map_io h (f x))"
  by (cases m; cases "the m") simp_all

lemma foldM_io_map:
  assumes "\<And>k s. f k (h s) = map_io h (g k s)"
  shows "foldM_io f ks (h s) = map_io h (foldM_io g ks s)"
  by (induction ks arbitrary: s) (simp_all add: assms bind_map_io map_io_bind)

lemma arith_proc_split: "P = arith_proc.extend (arith_proc.truncate P) (arith_proc.more P)"
  by (cases P) (simp add: arith_proc.defs)

lemma extend_simps [simp]:
  "ap_Ci (arith_proc.extend A m) = ap_Ci A" "ap_thread_num (arith_proc.extend A m) = ap_thread_num A"
  "ap_arg (arith_proc.extend A m) = ap_arg A" "ap_stacki (arith_proc.extend A m) = ap_stacki A"
  "ap_shared_prng (arith_proc.extend A m) = ap_shared_prng A" "ap_on (arith_proc.extend A m) = ap_on A"
  "(arith_proc.extend A m)\<lparr>ap_Ci := v\<rparr> = arith_proc.extend (A\<lparr>ap_Ci := v\<rparr>) m"
  "(arith_proc.extend A m)\<lparr>ap_stacki := st\<rparr> = arith_proc.extend (A\<lparr>ap_stacki := st\<rparr>) m"
  "(arith_proc.extend A m)\<lparr>ap_shared_prng := G\<rparr> = arith_proc.extend (A\<lparr>ap_shared_prng := G\<rparr>) m"
  "(arith_proc.extend A m)\<lparr>ap_arg := x\<rparr> = arith_proc.extend (A\<lparr>ap_arg := x\<rparr>) m"
  "out_put y (arith_proc.extend A m) = arith_proc.extend (out_put y A) m"
  by (simp_all add: arith_proc.defs out_put_def)

lemma lift_Ci_extend [simp]: "lift_Ci f (arith_proc.extend A m) = map_sum id (\<lambda>B. arith_proc.extend B m) (lift_Ci f A)"
  by (simp add: lift_Ci_def map_sum_bind)

lemma popi_extend [simp]: "popi (arith_proc.extend A m) = map_sum id (\<lambda>(x, B). (x, arith_proc.extend B m)) (popi A)"
  by (simp add: popi_def)

lemma exec_popint_extend: "exec_popint i (arith_proc.extend A m) = map_sum id (\<lambda>B. arith_proc.extend B m) (exec_popint i A)"
  unfolding exec_popint_def map_sum_bind extend_simps
  by (rule arg_cong [where f = "bind_result _"], rule ext, rule foldM_result_map)
    (simp add: bind_map_sum map_sum_bind case_prod_unfold)

lemma exec_rand_extend: "exec_rand E pl i (arith_proc.extend A m) = map_sum id (\<lambda>B. arith_proc.extend B m) (exec_rand E pl i A)"
  unfolding exec_rand_def map_sum_bind extend_simps
  by (rule arg_cong [where f = "bind_result _"], rule ext, rule arg_cong [where f = "bind_result _"], rule ext, rule foldM_result_map)
    (simp add: map_sum_bind case_prod_unfold if_distrib [of "map_sum id _"] cong: if_cong)

lemma exec_shuffle_extend: "exec_shuffle E pl i (arith_proc.extend A m) = map_io (\<lambda>B. arith_proc.extend B m) (exec_shuffle E pl i A)"
proof -
  let ?f = "\<lambda>k P. bind_io (prng_get_uint_upper E pl (in_size i - of_nat k) (ap_shared_prng P)) (\<lambda>(j, G).
       Some (lift_Ci (shuffle_swap (in_r i ! 0 + of_nat k) (in_r i ! 0 + of_nat k + j)) (P\<lparr>ap_shared_prng := G\<rparr>)))"
  have "foldM_io ?f [0..<vec_len i] (arith_proc.extend B m) = map_io (\<lambda>B. arith_proc.extend B m) (foldM_io ?f [0..<vec_len i] B)" for B
    by (rule foldM_io_map) (simp add: map_io_bind case_prod_unfold)
  then show ?thesis unfolding exec_shuffle_def
    by (cases "lift_Ci (shuffle_copy i) A") simp_all
qed

lemma exec_regint_extend:
  "exec_regint E pl i (arith_proc.extend A m, mi) =
     map_io (\<lambda>(B, mi). (arith_proc.extend B m, mi)) (exec_regint E pl i (A, mi))"
  by (simp add: exec_regint_def Let_def exec_popint_extend exec_rand_extend exec_shuffle_extend bind_map_sum map_sum_bind bind_map_io map_io_bind bind_result_assoc
      if_distrib [of "map_io _"] cong: if_cong)

lemma exec_instr_regint:
  assumes "in_opcode i \<in> set regint_ops"
  shows "exec_instr env i (P, M) = map_io (\<lambda>(B, mi). (arith_proc.extend B (arith_proc.more P), M\<lparr>mm_Mi := mi\<rparr>))
    (exec_regint (env_E env) (env_pl env) i (arith_proc.truncate P, mm_Mi M))"
proof -
  let ?A = "arith_proc.truncate P"
  let ?r = "exec_regint (env_E env) (env_pl env) i (?A, mm_Mi M)"
  have "exec_regint (env_E env) (env_pl env) i (P, mm_Mi M) = map_io (\<lambda>(B, mi). (arith_proc.extend B (arith_proc.more P), mi)) ?r"
    by (subst arith_proc_split [of P]) (rule exec_regint_extend)
  then have "exec_instr env i (P, M) = bind_io ?r (\<lambda>x. Some (Inr (arith_proc.extend (fst x) (arith_proc.more P), M\<lparr>mm_Mi := snd x\<rparr>)))"
    using assms by (simp add: exec_instr_def bind_map_io case_prod_unfold)
  then show ?thesis by (cases ?r; cases "the ?r") (auto simp: case_prod_unfold)
qed

end
