(* ===== verification/VmShare.thy ===== *)
theory VmShare
  imports VmPublic Replicated
begin

section \<open>Local instructions on shares compute on the shared values\<close>

text \<open>
  Every party runs the same instruction on its shares. What a sharing promises to the machine is the locale
  \<open>machine_sharing\<close>: that of \<open>linear_sharing\<close>, the share that a default constructor makes, and that only the shares of the
  parties count. Inside it a machine whose registers hold the values themselves is a specification that the machines of the
  parties refine.
\<close>

subsection \<open>The same operation at every party\<close>

text \<open>\<open>R xs x\<close> relates the states of the parties to that of the specification: they fail alike or succeed in related states.\<close>

definition alike :: "nat \<Rightarrow> ((nat \<Rightarrow> 'x) \<Rightarrow> 'y \<Rightarrow> bool) \<Rightarrow> (nat \<Rightarrow> 'x result) \<Rightarrow> 'y result \<Rightarrow> bool" where
  "alike n R m v = (case v of Inl e \<Rightarrow> \<forall>p<n. m p = Inl e | Inr y \<Rightarrow> \<exists>xs. (\<forall>p<n. m p = Inr (xs p)) \<and> R xs y)"

lemma alike_Inr: "R xs y \<Longrightarrow> alike n R (\<lambda>p. Inr (xs p)) (Inr y)"
  by (auto simp: alike_def)

lemma alike_Inl: "alike n R (\<lambda>p. Inl e) (Inl e)"
  by (simp add: alike_def)

lemma alike_bind:
  assumes "alike n R m v" "\<And>xs y. R xs y \<Longrightarrow> alike n Q (\<lambda>p. f p (xs p)) (g y)"
  shows "alike n Q (\<lambda>p. bind_result (m p) (f p)) (bind_result v g)"
proof (cases v)
  case (Inl e)
  then show ?thesis using assms(1) by (simp add: alike_def)
next
  case (Inr y)
  then obtain xs where m: "\<forall>p<n. m p = Inr (xs p)" and "R xs y" using assms(1) by (auto simp: alike_def)
  from assms(2) [OF this(2)] show ?thesis using m Inr by (auto simp: alike_def split: sum.splits)
qed

lemma alike_same: "(\<And>y. v = Inr y \<Longrightarrow> R (\<lambda>_. y) y) \<Longrightarrow> alike n R (\<lambda>_. v) v"
  by (cases v) (auto simp: alike_def)

lemma alike_foldM:
  assumes "R xs y" "\<And>k xs y. k \<in> set ks \<Longrightarrow> R xs y \<Longrightarrow> alike n R (\<lambda>p. f p k (xs p)) (g k y)"
  shows "alike n R (\<lambda>p. foldM_result (f p) ks (xs p)) (foldM_result g ks y)"
  using assms
proof (induction ks arbitrary: xs y)
  case Nil
  then show ?case by (simp add: alike_Inr)
next
  case (Cons k ks)
  have "alike n R (\<lambda>p. foldM_result (f p) ks (zs p)) (foldM_result g ks z)" if "R zs z" for zs z
    using Cons.IH [OF that] Cons.prems(2) by simp
  then have "alike n R (\<lambda>p. bind_result (f p k (xs p)) (foldM_result (f p) ks)) (bind_result (g k y) (foldM_result g ks))"
    by (rule alike_bind [where R = R, rotated]) (assumption, rule Cons.prems(2) [OF _ Cons.prems(1)], simp)
  then show ?case by simp
qed

lemma alike_cong: "alike n R m v \<Longrightarrow> (\<And>p. p < n \<Longrightarrow> m' p = m p) \<Longrightarrow> alike n R m' v"
  by (auto simp: alike_def split: sum.splits)

subsection \<open>The interface\<close>

text \<open>The operations of the party \<open>p\<close> are those of the others but for its constants.\<close>

definition party_ops :: "('c \<Rightarrow> nat \<Rightarrow> 's) \<Rightarrow> ('c, 's, 'd) share_ops \<Rightarrow> nat \<Rightarrow> ('c, 's, 'd) share_ops" where
  "party_ops const base p = base\<lparr>so_constant := (\<lambda>c. const c p)\<rparr>"

text \<open>The operations of the specification, on values.\<close>

definition value_ops :: "('a :: comm_ring_1, 's, 'd) share_ops \<Rightarrow> ('a, 'a, 'd) share_ops" where
  "value_ops base =
     \<lparr>so_of_long = so_of_long base, so_cadd = so_cadd base, so_csub = so_csub base, so_cmul = so_cmul base, so_cand = so_cand base,
      so_cxor = so_cxor base, so_cor = so_cor base, so_cshl = so_cshl base, so_cshr = so_cshr base, so_cshli = so_cshli base,
      so_cshri = so_cshri base, so_constant = id, so_zero = 0, so_czero = so_czero base, so_add = (+), so_sub = (-),
      so_mulc = (\<lambda>x c. c * x), so_triple = (\<lambda>_. Some (Inl not_implemented)), so_bit = (\<lambda>_. Some (Inl not_implemented)),
      so_random = (\<lambda>_. Some (Inl not_implemented))\<rparr>"

text \<open>Lists and register files of shares, and of the values they stand for.\<close>

definition shares_list :: "nat \<Rightarrow> ((nat \<Rightarrow> 's) \<Rightarrow> 'a \<Rightarrow> bool) \<Rightarrow> (nat \<Rightarrow> 's list) \<Rightarrow> 'a list \<Rightarrow> bool" where
  "shares_list n holds xs ys \<longleftrightarrow> (\<forall>p<n. length (xs p) = length ys) \<and> (\<forall>r<length ys. holds (\<lambda>p. xs p ! r) (ys ! r))"

definition shares_file :: "nat \<Rightarrow> ((nat \<Rightarrow> 's) \<Rightarrow> 'a \<Rightarrow> bool) \<Rightarrow> (nat \<Rightarrow> 's stacked) \<Rightarrow> 'a stacked \<Rightarrow> bool" where
  "shares_file n holds S V \<longleftrightarrow> (\<forall>p<n. sv_start (S p) = sv_start V \<and> sv_stack (S p) = sv_stack V) \<and>
     shares_list n holds (\<lambda>p. sv_full (S p)) (sv_full V)"

text \<open>What is not shared is the same at a party and in the specification; the shares stand for the values of the specification.\<close>

definition same_public :: "('c, 's, 'd) vm_state \<Rightarrow> ('c, 'v, 'e) vm_state \<Rightarrow> bool" where
  "same_public = (\<lambda>(P, M) (V, N). arith_proc.truncate P = arith_proc.truncate V \<and> vm_C P = vm_C V \<and> vm_PC P = vm_PC V
     \<and> mm_Mi M = mm_Mi N \<and> mm_MC M = mm_MC N)"

definition machines :: "nat \<Rightarrow> ((nat \<Rightarrow> 's) \<Rightarrow> 'a \<Rightarrow> bool) \<Rightarrow> (nat \<Rightarrow> ('a, 's, 'd) vm_state) \<Rightarrow> ('a, 'a, 'e) vm_state \<Rightarrow> bool" where
  "machines n holds s v \<longleftrightarrow> (\<forall>p<n. same_public (s p) v) \<and> shares_file n holds (\<lambda>p. vm_S (fst (s p))) (vm_S (fst v))
     \<and> shares_list n holds (\<lambda>p. mm_MS (snd (s p))) (mm_MS (snd v))"

definition party_env :: "('c \<Rightarrow> nat \<Rightarrow> 's) \<Rightarrow> ('c, 's, 'd) vm_env \<Rightarrow> nat \<Rightarrow> ('c, 's, 'd) vm_env" where
  "party_env const env p = env\<lparr>env_ops := party_ops const (env_ops env) p, env_my_num := p\<rparr>"

definition value_env :: "('a :: comm_ring_1, 's, 'd) vm_env \<Rightarrow> ('a, 'a, 'd) vm_env" where
  "value_env env =
     \<lparr>env_E = env_E env, env_pl = env_pl env, env_ops = value_ops (env_ops env), env_progs = env_progs env,
      env_n_players = env_n_players env, env_my_num = 0, env_threshold = env_threshold env,
      env_other = (\<lambda>_ _. Some (Inl not_implemented))\<rparr>"

text \<open>The operations on shares that the machine is instantiated with are those of the sharing.\<close>

definition base_ok :: "('s \<Rightarrow> 's \<Rightarrow> 's) \<Rightarrow> ('s \<Rightarrow> 's \<Rightarrow> 's) \<Rightarrow> ('s \<Rightarrow> 'a \<Rightarrow> 's) \<Rightarrow> 's \<Rightarrow> ('a, 's, 'd) share_ops \<Rightarrow> bool" where
  "base_ok add sub mul zero base \<longleftrightarrow> so_add base = add \<and> so_sub base = sub \<and> so_mulc base = mul \<and> so_zero base = zero"

text \<open>Instructions that need neither the other parties nor preprocessing, and do not tell the parties apart.\<close>

definition local_ops :: "nat list" where
  "local_ops =
    regint_ops @ [JMP, JMPI, JMPNZ, JMPEQZ, CRASH, NPLAYERS, THRESHOLD] @ announce_ops @
    [LDMS, STMS, LDMSI, STMSI, LDMC, STMC, LDMCI, STMCI] @
    [LDSI, MOVS, ADDS, ADDM, ADDSI, SUBS, SUBSI, SUBSFI, SUBML, SUBMR, PREFIXSUMS, PICKS, MULM, MULSI] @
    [LDI, MOVC, ADDC, ADDCI, SUBC, SUBCI, SUBCFI, MULC, MULCI, ANDC, XORC, ORC, ANDCI, XORCI, ORCI, SHLC, SHRC, SHLCI, SHRCI, CONVINT]"

text \<open>Operations that may block.\<close>

definition alike_io :: "nat \<Rightarrow> ((nat \<Rightarrow> 'x) \<Rightarrow> 'y \<Rightarrow> bool) \<Rightarrow> (nat \<Rightarrow> 'x io) \<Rightarrow> 'y io \<Rightarrow> bool" where
  "alike_io n R m v = (case v of None \<Rightarrow> \<forall>p<n. m p = None | Some r \<Rightarrow> \<exists>rs. (\<forall>p<n. m p = Some (rs p)) \<and> alike n R rs r)"

lemma alike_io_Some: "alike n R rs r \<Longrightarrow> alike_io n R (\<lambda>p. Some (rs p)) (Some r)"
  by (auto simp: alike_io_def)

lemma alike_io_cong: "alike_io n R m v \<Longrightarrow> (\<And>p. p < n \<Longrightarrow> m' p = m p) \<Longrightarrow> alike_io n R m' v"
  by (auto simp: alike_io_def split: option.splits)

text \<open>An operation on what is public, with its result put into the machines.\<close>

lemma alike_io_public:
  assumes "\<And>p. p < n \<Longrightarrow> m p = map_io (f p) r" "v = map_io g r" "\<And>x. R (\<lambda>p. f p x) (g x)"
  shows "alike_io n R m v"
proof (cases r)
  case None
  then show ?thesis using assms(1,2) by (simp add: alike_io_def)
next
  case (Some q)
  then show ?thesis
  proof (cases q)
    case (Inl e)
    then show ?thesis using assms(1,2) Some by (auto simp: alike_io_def alike_def intro!: exI [of _ "\<lambda>_. Inl e"])
  next
    case (Inr x)
    then show ?thesis using assms Some by (auto simp: alike_io_def alike_def intro!: exI [of _ "\<lambda>p. Inr (f p x)"])
  qed
qed

locale machine_sharing = linear_sharing n holds add sub mul const
  for n :: nat and holds :: "(nat \<Rightarrow> 's) \<Rightarrow> 'a :: comm_ring_1 \<Rightarrow> bool" and add sub mul const +
  fixes zero :: 's
  assumes holds_zero: "holds (\<lambda>_. zero) 0"
    and holds_cong: "holds f x \<Longrightarrow> (\<And>p. p < n \<Longrightarrow> g p = f p) \<Longrightarrow> holds g x"
    and parties: "0 < n"
begin

abbreviation "lst \<equiv> shares_list n holds"
abbreviation "file \<equiv> shares_file n holds"

lemma lst_length: "lst xs ys \<Longrightarrow> p < n \<Longrightarrow> length (xs p) = length ys"
  by (simp add: shares_list_def)

lemma alike_deref: "lst xs ys \<Longrightarrow> alike n holds (\<lambda>p. deref (xs p) r) (deref ys r)"
  by (auto simp: alike_def deref_def shares_list_def)

lemma lst_update:
  assumes "lst xs ys" "r < length ys \<Longrightarrow> holds f y"
  shows "lst (\<lambda>p. (xs p)[r := f p]) (ys[r := y])"
proof -
  have "holds (\<lambda>p. (xs p)[r := f p] ! j) (ys[r := y] ! j)" if j: "j < length ys" for j
  proof (cases "j = r")
    case True
    then show ?thesis using j assms by (auto intro: holds_cong simp: shares_list_def)
  next
    case False
    then show ?thesis using j assms(1) by (simp add: shares_list_def)
  qed
  then show ?thesis using assms(1) by (simp add: shares_list_def)
qed

lemma alike_assign:
  assumes "lst xs ys" "holds f y"
  shows "alike n lst (\<lambda>p. assign r (f p) (xs p)) (assign r y ys)"
proof (cases "r < length ys")
  case True
  then show ?thesis using lst_update [OF assms(1), of r f y] assms by (auto simp: alike_def assign_def lst_length)
qed (use assms(1) in \<open>auto simp: alike_def assign_def shares_list_def\<close>)

lemma alike_ptr:
  assumes "file S V"
  shows "alike n (\<lambda>xs y. \<forall>p<n. xs p = y) (\<lambda>p. sv_ptr r (S p)) (sv_ptr r V)"
  using assms by (auto simp: alike_def sv_ptr_def sv_index_def shares_file_def shares_list_def Let_def)

lemma alike_sv_on:
  assumes "file S V" "\<And>xs ys. lst xs ys \<Longrightarrow> alike n lst (\<lambda>p. f p (xs p)) (g ys)"
  shows "alike n file (\<lambda>p. sv_on (f p) (S p)) (sv_on g V)"
  unfolding sv_on_def
  by (rule alike_bind [OF assms(2)]) (use assms(1) in \<open>auto intro!: alike_Inr simp: shares_file_def\<close>)

lemma alike_bind_ptr:
  assumes "file S V" "\<And>d. alike n Q (\<lambda>p. f p d) (g d)"
  shows "alike n Q (\<lambda>p. bind_result (sv_ptr r (S p)) (f p)) (bind_result (sv_ptr r V) g)"
proof (rule alike_bind [OF alike_ptr [OF assms(1)]])
  fix xs :: "nat \<Rightarrow> nat" and y
  assume "\<forall>p<n. xs p = y"
  then show "alike n Q (\<lambda>p. f p (xs p)) (g y)" by (auto intro: alike_cong [OF assms(2)])
qed

lemma alike_bind_same:
  assumes "\<And>y. alike n Q (\<lambda>p. f p y) (g y)"
  shows "alike n Q (\<lambda>p. bind_result v (f p)) (bind_result v g)"
proof (cases v)
  case (Inl e)
  then show ?thesis by (simp add: alike_Inl)
next
  case (Inr y)
  then show ?thesis using assms by simp
qed

text \<open>The loops, for operations on an element that respect the sharing.\<close>

lemma alike_loops:
  assumes "lst xs ys"
  shows "holds c v \<Longrightarrow> alike n lst (\<lambda>p. fill_loop (\<lambda>_. Inr (c p)) d l (xs p)) (fill_loop (\<lambda>_. Inr v) d l ys)"
    and "(\<And>f x. holds f x \<Longrightarrow> holds (\<lambda>p. g p (f p)) (g' x)) \<Longrightarrow>
      alike n lst (\<lambda>p. unary_loop (\<lambda>a. Inr (g p a)) d s l (xs p)) (unary_loop (\<lambda>a. Inr (g' a)) d s l ys)"
    and "(\<And>f x e y. holds f x \<Longrightarrow> holds e y \<Longrightarrow> holds (\<lambda>p. h (f p) (e p)) (h' x y)) \<Longrightarrow>
      alike n lst (\<lambda>p. binary_loop (\<lambda>a b. Inr (h a b)) d s t l (xs p)) (binary_loop (\<lambda>a b. Inr (h' a b)) d s t l ys)"
    and "(\<And>f x c. holds f x \<Longrightarrow> holds (\<lambda>p. m p (f p) c) (m' x c)) \<Longrightarrow>
      alike n lst (\<lambda>p. mixed_loop (\<lambda>a b. Inr (m p a b)) zs d s t l (xs p)) (mixed_loop (\<lambda>a b. Inr (m' a b)) zs d s t l ys)"
  unfolding fill_loop_def unary_loop_def binary_loop_def mixed_loop_def
  by (auto intro!: alike_foldM [where R = lst] assms alike_bind [OF alike_deref] alike_bind_same alike_assign)

lemma alike_vec:
  assumes "file S V"
  shows "holds c v \<Longrightarrow> alike n file (\<lambda>p. vec_fill (\<lambda>_. Inr (c p)) i (S p)) (vec_fill (\<lambda>_. Inr v) i V)"
    and "(\<And>f x. holds f x \<Longrightarrow> holds (\<lambda>p. g p (f p)) (g' x)) \<Longrightarrow>
      alike n file (\<lambda>p. vec_unary (\<lambda>a. Inr (g p a)) i (S p)) (vec_unary (\<lambda>a. Inr (g' a)) i V)"
    and "(\<And>f x e y. holds f x \<Longrightarrow> holds e y \<Longrightarrow> holds (\<lambda>p. h (f p) (e p)) (h' x y)) \<Longrightarrow>
      alike n file (\<lambda>p. vec_binary (\<lambda>a b. Inr (h a b)) i (S p)) (vec_binary (\<lambda>a b. Inr (h' a b)) i V)"
    and "(\<And>f x c. holds f x \<Longrightarrow> holds (\<lambda>p. m p (f p) c) (m' x c)) \<Longrightarrow>
      alike n file (\<lambda>p. vec_mixed (\<lambda>a b. Inr (m p a b)) ra rb i C (S p)) (vec_mixed (\<lambda>a b. Inr (m' a b)) ra rb i C V)"
  unfolding vec_fill_def vec_unary_def vec_binary_def vec_mixed_def
  by (auto intro!: alike_bind_ptr [OF assms] alike_bind_same alike_sv_on [OF assms] alike_loops)

lemma alike_prefix_sums:
  assumes "file S V"
  shows "alike n file (\<lambda>p. prefix_sums add zero i (S p)) (prefix_sums (+) 0 i V)"
proof -
  have "alike n lst (\<lambda>p. bind_result (foldM_result (\<lambda>k (s, xs). bind_result (deref xs (q + k)) (\<lambda>a.
         bind_result (assign (d + k) (add s a) xs) (\<lambda>xs. Inr (add s a, xs)))) ks (zero, xs p)) (\<lambda>(s, xs). Inr xs))
      (bind_result (foldM_result (\<lambda>k (s, xs). bind_result (deref xs (q + k)) (\<lambda>a.
         bind_result (assign (d + k) (s + a) xs) (\<lambda>xs. Inr (s + a, xs)))) ks (0, ys)) (\<lambda>(s, xs). Inr xs))"
    if "lst xs ys" for d q ks xs ys
  proof (rule alike_bind)
    let ?R = "\<lambda>sx (s, y). holds (\<lambda>p. fst (sx p)) s \<and> lst (\<lambda>p. snd (sx p)) y"
    show "alike n ?R (\<lambda>p. foldM_result (\<lambda>k (s, xs). bind_result (deref xs (q + k)) (\<lambda>a.
         bind_result (assign (d + k) (add s a) xs) (\<lambda>xs. Inr (add s a, xs)))) ks (zero, xs p))
      (foldM_result (\<lambda>k (s, xs). bind_result (deref xs (q + k)) (\<lambda>a.
         bind_result (assign (d + k) (s + a) xs) (\<lambda>xs. Inr (s + a, xs)))) ks (0, ys))"
    proof (rule alike_foldM)
      show "?R (\<lambda>p. (zero, xs p)) (0, ys)" using that by (simp add: holds_zero)
      fix k sx sy
      assume "?R sx sy"
      then obtain s y where sy: "sy = (s, y)" "holds (\<lambda>p. fst (sx p)) s" "lst (\<lambda>p. snd (sx p)) y" by (cases sy) auto
      have "alike n ?R (\<lambda>p. bind_result (deref (snd (sx p)) (q + k)) (\<lambda>a. bind_result (assign (d + k) (add (fst (sx p)) a) (snd (sx p)))
          (\<lambda>xs. Inr (add (fst (sx p)) a, xs))))
        (bind_result (deref y (q + k)) (\<lambda>a. bind_result (assign (d + k) (s + a) y) (\<lambda>xs. Inr (s + a, xs))))"
        by (intro alike_bind [OF alike_deref [OF sy(3)]] alike_bind [OF alike_assign [OF sy(3)]] alike_Inr) (simp_all add: holds_add sy(2))
      then show "alike n ?R (\<lambda>p. (\<lambda>(s, xs). bind_result (deref xs (q + k)) (\<lambda>a.
         bind_result (assign (d + k) (add s a) xs) (\<lambda>xs. Inr (add s a, xs)))) (sx p))
        ((\<lambda>(s, xs). bind_result (deref xs (q + k)) (\<lambda>a. bind_result (assign (d + k) (s + a) xs) (\<lambda>xs. Inr (s + a, xs)))) sy)"
        by (simp add: sy(1) case_prod_beta)
    qed
  qed (auto simp: case_prod_beta intro!: alike_Inr)
  then show ?thesis unfolding prefix_sums_def by (intro alike_bind_ptr [OF assms] alike_sv_on [OF assms])
qed

lemma alike_picks:
  assumes "file S V"
  shows "alike n file (\<lambda>p. picks i (S p)) (picks i V)"
  unfolding picks_def
  by (intro alike_bind_ptr [OF assms] alike_sv_on [OF assms] alike_foldM)
    (auto simp: Let_def intro!: alike_Inl alike_bind [OF alike_deref] alike_assign)

text \<open>Instructions on shares.\<close>

lemma share_instr_alike:
  assumes "so_add base = add" "so_sub base = sub" "so_mulc base = mul" "so_zero base = zero"
    and "file S V" "share_instr (value_ops base) i C = Some g"
  shows "\<exists>f. (\<forall>p. share_instr (party_ops const base p) i C = Some (f p)) \<and> alike n file (\<lambda>p. f p (S p)) (g V)"
proof -
  note v = alike_vec [OF assms(5)] alike_prefix_sums [OF assms(5)] alike_picks [OF assms(5)]
  note h = holds_add holds_sub holds_mul holds_const [OF parties]
  from assms(6) show ?thesis unfolding share_instr_def Let_def
    by (elim if_Some_E; intro exI [of _ "\<lambda>p. the (share_instr (party_ops const base p) i C)"] conjI allI;
      simp add: share_instr_def Let_def party_ops_def value_ops_def assms(1-4)[symmetric]) (auto simp: value_ops_def assms(1-4) intro!: v h)
qed

text \<open>Memory.\<close>

lemma alike_copy:
  assumes "lst src vals" "lst xs ys"
  shows "alike n lst (\<lambda>p. copy_loop (src p) q d l (xs p)) (copy_loop vals q d l ys)"
  unfolding copy_loop_def fill_loop_def
  by (intro alike_foldM [where R = lst] assms alike_bind [OF alike_deref [OF assms(1)]] alike_assign)

lemma alike_memory:
  assumes "file S V" "lst m w"
  shows "alike n file (\<lambda>p. vec_load i (m p) (S p)) (vec_load i w V)"
    and "alike n lst (\<lambda>p. vec_store_s i (S p) (m p)) (vec_store_s i V w)"
    and "alike n file (\<lambda>p. indirect_read i (m p) ci (S p)) (indirect_read i w ci V)"
    and "alike n lst (\<lambda>p. indirect_write i ci (S p) (m p)) (indirect_write i ci V w)"
proof -
  have l: "lst (\<lambda>p. sv_full (S p)) (sv_full V)" using assms(1) by (simp add: shares_file_def)
  have mp: "alike n (\<lambda>xs y. \<forall>p<n. xs p = y \<and> y < length w) (\<lambda>p. mem_ptr a (m p)) (mem_ptr a w)" for a
    using assms(2) by (auto simp: alike_def mem_ptr_def shares_list_def)
  have range: "alike n (\<lambda>xs y. \<forall>p<n. xs p = y \<and> y + vec_len i \<le> length (sv_full V)) (\<lambda>p. sv_range i r (S p)) (sv_range i r V)" for r
    using assms(1) by (auto simp: alike_def sv_range_def shares_file_def shares_list_def vec_len_def Let_def)
  have bind_mp: "alike n Q (\<lambda>p. bind_result (mem_ptr a (m p)) (f p)) (bind_result (mem_ptr a w) g)"
    if "\<And>b. b < length w \<Longrightarrow> alike n Q (\<lambda>p. f p b) (g b)" for a Q and f :: "nat \<Rightarrow> nat \<Rightarrow> 'x result" and g :: "nat \<Rightarrow> 'y result"
  proof (rule alike_bind [OF mp])
    fix xs :: "nat \<Rightarrow> nat" and y
    assume "\<forall>p<n. xs p = y \<and> y < length w"
    then show "alike n Q (\<lambda>p. f p (xs p)) (g y)" using parties by (auto intro: alike_cong [OF that])
  qed
  have bind_range: "alike n Q (\<lambda>p. bind_result (sv_range i r (S p)) (f p)) (bind_result (sv_range i r V) g)"
    if "\<And>b. b + vec_len i \<le> length (sv_full V) \<Longrightarrow> alike n Q (\<lambda>p. f p b) (g b)" for r Q and f :: "nat \<Rightarrow> nat \<Rightarrow> 'x result" and g :: "nat \<Rightarrow> 'y result"
  proof (rule alike_bind [OF range])
    fix xs :: "nat \<Rightarrow> nat" and y
    assume "\<forall>p<n. xs p = y \<and> y + vec_len i \<le> length (sv_full V)"
    then show "alike n Q (\<lambda>p. f p (xs p)) (g y)" using parties by (auto intro: alike_cong [OF that])
  qed
  show "alike n file (\<lambda>p. vec_load i (m p) (S p)) (vec_load i w V)"
    unfolding vec_load_def by (intro alike_bind_ptr [OF assms(1)] bind_mp alike_sv_on [OF assms(1)] alike_copy assms(2))
  show "alike n lst (\<lambda>p. vec_store_s i (S p) (m p)) (vec_store_s i V w)"
    unfolding vec_store_s_def by (intro alike_bind_ptr [OF assms(1)] bind_mp alike_copy assms(2) l)
  show "alike n file (\<lambda>p. indirect_read i (m p) ci (S p)) (indirect_read i w ci V)"
    unfolding indirect_read_def indirect_read_loop_def
    by (intro alike_bind_same bind_range alike_sv_on [OF assms(1)] alike_foldM [where R = lst] bind_mp alike_Inr lst_update)
      (use assms(2) in \<open>auto simp: shares_list_def\<close>)
  show "alike n lst (\<lambda>p. indirect_write i ci (S p) (m p)) (indirect_write i ci V w)"
    unfolding indirect_write_def indirect_write_loop_def
  proof (intro alike_bind_same bind_range alike_foldM [where R = lst] assms(2))
    fix q d k xs ys
    assume "d + vec_len i \<le> length (sv_full V)" "k \<in> set [0..<vec_len i]" and x: "lst xs ys"
    then have h: "holds (\<lambda>p. sv_full (S p) ! (d + k)) (sv_full V ! (d + k))" using l by (simp add: shares_list_def)
    have mp: "alike n (\<lambda>zs y. \<forall>p<n. zs p = y) (\<lambda>p. mem_ptr a (xs p)) (mem_ptr a ys)" for a
      using x by (auto simp: alike_def mem_ptr_def shares_list_def)
    show "alike n lst (\<lambda>p. bind_result (mem_ptr (sv_full ci ! (q + k)) (xs p)) (\<lambda>a. Inr ((xs p)[a := sv_full (S p) ! (d + k)])))
       (bind_result (mem_ptr (sv_full ci ! (q + k)) ys) (\<lambda>a. Inr (ys[a := sv_full V ! (d + k)])))"
    proof (rule alike_bind [OF mp])
      fix zs :: "nat \<Rightarrow> nat" and y
      assume z: "\<forall>p<n. zs p = y"
      show "alike n lst (\<lambda>p. Inr ((xs p)[zs p := sv_full (S p) ! (d + k)])) (Inr (ys[y := sv_full V ! (d + k)]))"
        by (rule alike_cong [OF alike_Inr [where R = lst, OF lst_update [OF x h]]]) (use z in simp)
    qed
  qed
qed

subsection \<open>Machines\<close>

abbreviation "mach \<equiv> machines n holds"

lemma machD:
  assumes "mach s v" "p < n"
  shows "ap_Ci (fst (s p)) = ap_Ci (fst v)" "vm_C (fst (s p)) = vm_C (fst v)" "vm_PC (fst (s p)) = vm_PC (fst v)"
    "mm_Mi (snd (s p)) = mm_Mi (snd v)" "mm_MC (snd (s p)) = mm_MC (snd v)"
    "arith_proc.truncate (fst (s p)) = arith_proc.truncate (fst v)"
proof -
  have "same_public (s p) v" using assms by (simp add: machines_def)
  then show t: "arith_proc.truncate (fst (s p)) = arith_proc.truncate (fst v)" and "vm_C (fst (s p)) = vm_C (fst v)" "vm_PC (fst (s p)) = vm_PC (fst v)"
    "mm_Mi (snd (s p)) = mm_Mi (snd v)" "mm_MC (snd (s p)) = mm_MC (snd v)"
    by (cases "s p"; cases v; simp add: same_public_def)+
  from t show "ap_Ci (fst (s p)) = ap_Ci (fst v)" by (metis arith_proc.select_convs(1) arith_proc_split extend_simps(1))
qed

lemma alike_on_S:
  assumes "mach s v" "alike n file (\<lambda>p. f p (vm_S (fst (s p)))) (g (vm_S (fst v)))"
  shows "alike_io n mach (\<lambda>p. on_S (f p) (s p)) (on_S g v)"
proof -
  have "alike n mach (\<lambda>p. bind_result (f p (vm_S (fst (s p)))) (\<lambda>S. Inr ((fst (s p))\<lparr>vm_S := S\<rparr>, snd (s p))))
     (bind_result (g (vm_S (fst v))) (\<lambda>S. Inr ((fst v)\<lparr>vm_S := S\<rparr>, snd v)))"
    by (rule alike_bind [OF assms(2)], rule alike_Inr)
      (use assms(1) in \<open>auto simp: machines_def same_public_def case_prod_unfold arith_proc.defs\<close>)
  from alike_io_Some [OF this] show ?thesis by (simp add: on_S_def case_prod_unfold)
qed

lemma alike_on_MS:
  assumes "mach s v" "alike n lst (\<lambda>p. f p (vm_S (fst (s p))) (mm_MS (snd (s p)))) (g (vm_S (fst v)) (mm_MS (snd v)))"
  shows "alike_io n mach (\<lambda>p. on_MS (f p) (s p)) (on_MS g v)"
proof -
  have "alike n mach (\<lambda>p. bind_result (f p (vm_S (fst (s p))) (mm_MS (snd (s p)))) (\<lambda>m. Inr (fst (s p), (snd (s p))\<lparr>mm_MS := m\<rparr>)))
     (bind_result (g (vm_S (fst v)) (mm_MS (snd v))) (\<lambda>m. Inr (fst v, (snd v)\<lparr>mm_MS := m\<rparr>)))"
    by (rule alike_bind [OF assms(2)], rule alike_Inr)
      (use assms(1) in \<open>auto simp: machines_def same_public_def case_prod_unfold\<close>)
  from alike_io_Some [OF this] show ?thesis by (simp add: on_MS_def case_prod_unfold)
qed

lemma alike_on_C:
  assumes "mach s v"
  shows "alike_io n mach (\<lambda>p. on_C f (s p)) (on_C f v)" "alike_io n mach (\<lambda>p. on_MC h (s p)) (on_MC h v)"
proof -
  show "alike_io n mach (\<lambda>p. on_C f (s p)) (on_C f v)"
  proof (rule alike_io_public)
    show "on_C f (s p) = map_io (\<lambda>C. ((fst (s p))\<lparr>vm_C := C\<rparr>, snd (s p))) (Some (f (vm_C (fst v))))" if "p < n" for p
      using machD(2) [OF assms that] by (cases "f (vm_C (fst v))") (simp_all add: on_C_def case_prod_unfold)
    show "on_C f v = map_io (\<lambda>C. ((fst v)\<lparr>vm_C := C\<rparr>, snd v)) (Some (f (vm_C (fst v))))"
      by (cases "f (vm_C (fst v))") (simp_all add: on_C_def case_prod_unfold)
    show "mach (\<lambda>p. ((fst (s p))\<lparr>vm_C := C\<rparr>, snd (s p))) ((fst v)\<lparr>vm_C := C\<rparr>, snd v)" for C
      using assms by (auto simp: machines_def same_public_def case_prod_unfold arith_proc.defs)
  qed
  show "alike_io n mach (\<lambda>p. on_MC h (s p)) (on_MC h v)"
  proof (rule alike_io_public)
    show "on_MC h (s p) = map_io (\<lambda>m. (fst (s p), (snd (s p))\<lparr>mm_MC := m\<rparr>)) (Some (h (vm_C (fst v)) (mm_MC (snd v))))" if "p < n" for p
      using machD [OF assms that] by (cases "h (vm_C (fst v)) (mm_MC (snd v))") (simp_all add: on_MC_def case_prod_unfold)
    show "on_MC h v = map_io (\<lambda>m. (fst v, (snd v)\<lparr>mm_MC := m\<rparr>)) (Some (h (vm_C (fst v)) (mm_MC (snd v))))"
      by (cases "h (vm_C (fst v)) (mm_MC (snd v))") (simp_all add: on_MC_def case_prod_unfold)
    show "mach (\<lambda>p. (fst (s p), (snd (s p))\<lparr>mm_MC := m\<rparr>)) (fst v, (snd v)\<lparr>mm_MC := m\<rparr>)" for m
      using assms by (auto simp: machines_def same_public_def case_prod_unfold)
  qed
qed

lemma clear_instr_alike: "clear_instr (party_ops const base p) i ci = clear_instr (value_ops base) i ci"
  by (simp add: clear_instr_def party_ops_def value_ops_def cong: if_cong)

lemma share_instr_None: "share_instr (value_ops base) i C = None \<Longrightarrow> share_instr (party_ops const base p) i C = None"
  by (simp add: share_instr_def Let_def split: if_splits)

lemma exec_arith_memory:
  "in_opcode i = LDMS \<Longrightarrow> exec_arith ops i t = Some (on_S (vec_load i (mm_MS (snd t))) t)"
  "in_opcode i = STMS \<Longrightarrow> exec_arith ops i t = Some (on_MS (vec_store_s i) t)"
  "in_opcode i = LDMSI \<Longrightarrow> exec_arith ops i t = Some (on_S (indirect_read i (mm_MS (snd t)) (ap_Ci (fst t))) t)"
  "in_opcode i = STMSI \<Longrightarrow> exec_arith ops i t = Some (on_MS (indirect_write i (ap_Ci (fst t))) t)"
  "in_opcode i = LDMC \<Longrightarrow> exec_arith ops i t = Some (on_C (exec_ldmc i (mm_MC (snd t))) t)"
  "in_opcode i = STMC \<Longrightarrow> exec_arith ops i t = Some (on_MC (exec_stmc i) t)"
  "in_opcode i = LDMCI \<Longrightarrow> exec_arith ops i t = Some (on_C (indirect_read i (mm_MC (snd t)) (ap_Ci (fst t))) t)"
  "in_opcode i = STMCI \<Longrightarrow> exec_arith ops i t = Some (on_MC (indirect_write i (ap_Ci (fst t))) t)"
  by (simp_all add: exec_arith_def Let_def case_prod_unfold)

lemma exec_arith_rest:
  assumes "in_opcode i \<notin> set [TRIPLE, BIT, RANDOMFULLS]" "in_opcode i \<notin> set [LDMS, STMS, LDMSI, STMSI, LDMC, STMC, LDMCI, STMCI]"
  shows "exec_arith ops i t = (case share_instr ops i (vm_C (fst t)) of Some f \<Rightarrow> Some (on_S f t)
        | None \<Rightarrow> map_option (\<lambda>f. on_C f t) (clear_instr ops i (ap_Ci (fst t))))"
  using assms by (simp add: exec_arith_def Let_def case_prod_unfold)

lemma exec_arith_alike:
  assumes "base_ok add sub mul zero base" "mach s v" "in_opcode i \<notin> set [TRIPLE, BIT, RANDOMFULLS]" "exec_arith (value_ops base) i v = Some m"
  shows "\<exists>ms. (\<forall>p<n. exec_arith (party_ops const base p) i (s p) = Some (ms p)) \<and> alike_io n mach ms m"
proof -
  have f: "file (\<lambda>p. vm_S (fst (s p))) (vm_S (fst v))" and l: "lst (\<lambda>p. mm_MS (snd (s p))) (mm_MS (snd v))"
    using assms(2) by (simp_all add: machines_def)
  note mem = alike_memory [OF f l]
  have ex: "\<exists>ms. (\<forall>p<n. exec_arith (party_ops const base p) i (s p) = Some (ms p)) \<and> alike_io n mach ms m"
    if "\<And>p. p < n \<Longrightarrow> exec_arith (party_ops const base p) i (s p) = Some (g p)" "alike_io n mach g m" for g
    using that by blast
  note d = machD [OF assms(2)]
  show ?thesis
  proof (cases "in_opcode i \<in> set [LDMS, STMS, LDMSI, STMSI, LDMC, STMC, LDMCI, STMCI]")
    case True
    then consider "in_opcode i = LDMS" | "in_opcode i = STMS" | "in_opcode i = LDMSI" | "in_opcode i = STMSI" | "in_opcode i = LDMC"
      | "in_opcode i = STMC" | "in_opcode i = LDMCI" | "in_opcode i = STMCI" by auto
    then show ?thesis
      using assms(4) d
      by cases (auto simp: exec_arith_memory intro!: ex alike_on_S [OF assms(2)] alike_on_MS [OF assms(2)] alike_on_C [OF assms(2)] mem)
  next
    case False
    note unf = exec_arith_rest [OF assms(3) False]
    show ?thesis
    proof (cases "share_instr (value_ops base) i (vm_C (fst v))")
      case None
      then obtain g where g: "clear_instr (value_ops base) i (ap_Ci (fst v)) = Some g" "m = on_C g v"
        using assms(4) by (auto simp: unf)
      show ?thesis
        by (rule ex) (use None g d alike_on_C(1) [OF assms(2)] in \<open>auto simp: unf share_instr_None clear_instr_alike\<close>)
    next
      case (Some g)
      then have m: "m = on_S g v" using assms(4) by (simp add: unf)
      from share_instr_alike [OF _ _ _ _ f Some] assms(1)
      obtain h where h: "\<forall>p. share_instr (party_ops const base p) i (vm_C (fst v)) = Some (h p)" "alike n file (\<lambda>p. h p (vm_S (fst (s p)))) (g (vm_S (fst v)))"
        unfolding base_ok_def by blast
      show ?thesis
        by (rule ex [of "\<lambda>p. on_S (h p) (s p)"]) (use h(1) d alike_on_S [OF assms(2), of h g, OF h(2)] in \<open>auto simp: unf m\<close>)
    qed
  qed
qed

text \<open>Integer instructions and control flow.\<close>

lemma mach_jump: "mach (\<lambda>p. (P p, M p)) (V, N) \<Longrightarrow> mach (\<lambda>p. (jump d (P p), M p)) (jump d V, N)"
  by (auto simp: machines_def same_public_def jump_def arith_proc.defs)

lemma mach_next_PC: "mach s v \<Longrightarrow> mach (\<lambda>p. next_PC (s p)) (next_PC v)"
  using mach_jump [of "\<lambda>p. fst (s p)" "\<lambda>p. snd (s p)" "fst v" "snd v" 1] by (simp add: next_PC_def case_prod_unfold)

lemma vm_extend: "vm_S (arith_proc.extend B (arith_proc.more P)) = vm_S P" "vm_C (arith_proc.extend B (arith_proc.more P)) = vm_C P"
  "vm_PC (arith_proc.extend B (arith_proc.more P)) = vm_PC P" "arith_proc.truncate (arith_proc.extend B (arith_proc.more P)) = B"
  by (cases P; cases B; simp add: arith_proc.defs)+

lemma exec_regint_alike:
  assumes "mach s v" "in_opcode i \<in> set regint_ops"
  shows "alike_io n mach (\<lambda>p. exec_instr (party_env const env p) i (s p)) (exec_instr (value_env env) i v)"
proof -
  let ?f = "\<lambda>t (B, mi). (arith_proc.extend B (arith_proc.more (fst t)), (snd t)\<lparr>mm_Mi := mi\<rparr>)"
  let ?r = "exec_regint (env_E env) (env_pl env) i (arith_proc.truncate (fst v), mm_Mi (snd v))"
  show ?thesis
  proof (rule alike_io_public [where f = "\<lambda>p. ?f (s p)" and g = "?f v" and r = ?r])
    show "exec_instr (party_env const env p) i (s p) = map_io (?f (s p)) ?r" if "p < n" for p
      using exec_instr_regint [OF assms(2), of "party_env const env p" "fst (s p)" "snd (s p)"] machD [OF assms(1) that]
      by (simp add: party_env_def)
    show "exec_instr (value_env env) i v = map_io (?f v) ?r"
      using exec_instr_regint [OF assms(2), of "value_env env" "fst v" "snd v"] by (simp add: value_env_def)
    show "mach (\<lambda>p. ?f (s p) x) (?f v x)" for x
      using assms(1) by (cases x) (auto simp: machines_def same_public_def case_prod_unfold vm_extend)
  qed
qed

lemma alike_bind_const:
  assumes "\<And>p. p < n \<Longrightarrow> m p = w" "\<And>z. alike n Q (\<lambda>p. f p z) (g z)"
  shows "alike n Q (\<lambda>p. bind_result (m p) (f p)) (bind_result w g)"
  by (rule alike_cong [OF alike_bind_same [OF assms(2)]]) (simp add: assms(1))

lemma exec_control_alike:
  assumes "mach s v" "in_opcode i \<in> set control_ops" "in_opcode i \<noteq> PLAYERID"
  shows "alike_io n mach (\<lambda>p. exec_instr (party_env const env p) i (s p)) (exec_instr (value_env env) i v)"
proof -
  let ?R = "\<lambda>P V. mach (\<lambda>p. (P p, snd (s p))) (V, snd v)"
  have step: "alike n ?R (\<lambda>p. control_step (party_env const env p) i k (P p)) (control_step (value_env env) i k V)" if R: "?R P V" for k P V
  proof -
    have ci: "sv_at r (ap_Ci (P p)) = sv_at r (ap_Ci V)" "sv_put r x (ap_Ci (P p)) = sv_put r x (ap_Ci V)" if "p < n" for r x p
      using machD(1) [OF R that] by simp_all
    have j: "?R (\<lambda>p. jump d (P p)) (jump d V)" for d by (rule mach_jump [OF R])
    have w: "alike n ?R (\<lambda>p. write_Ci r x (P p)) (write_Ci r x V)" for r x
      unfolding write_Ci_def
      by (intro alike_bind_const ci alike_Inr) (use R in \<open>auto simp: machines_def same_public_def arith_proc.defs\<close>)
    show ?thesis
      unfolding control_step_def Let_def party_env_def value_env_def vm_env.simps vm_env.select_convs
      using assms(2,3) unfolding control_ops_def list.set insert_iff empty_iff
      by (elim disjE) (auto intro!: alike_Inr alike_Inl alike_bind_const ci j w R)
  qed
  have c: "alike n ?R (\<lambda>p. exec_control (party_env const env p) i (fst (s p))) (exec_control (value_env env) i (fst v))"
    unfolding exec_control_def
    by (rule alike_foldM [where R = ?R and xs = "\<lambda>p. fst (s p)"]) (use assms(1) in \<open>auto intro: step\<close>)
  have "alike n mach (\<lambda>p. bind_result (exec_control (party_env const env p) i (fst (s p))) (\<lambda>P. Inr (P, snd (s p))))
     (bind_result (exec_control (value_env env) i (fst v)) (\<lambda>V. Inr (V, snd v)))"
    by (rule alike_bind [OF c]) (rule alike_Inr)
  moreover have "in_opcode i \<notin> set regint_ops" using assms(2) by (auto simp: control_ops_def regint_ops_def)
  ultimately show ?thesis using assms(2) by (simp add: exec_instr_def case_prod_unfold Let_def alike_io_Some)
qed

lemma local_ops_cases:
  assumes "in_opcode i \<in> set local_ops"
  obtains "in_opcode i \<in> set regint_ops" | "in_opcode i \<in> set control_ops" "in_opcode i \<noteq> PLAYERID"
    | "in_opcode i \<notin> set regint_ops" "in_opcode i \<notin> set control_ops" "in_opcode i \<in> set announce_ops"
    | "in_opcode i \<notin> set regint_ops" "in_opcode i \<notin> set control_ops" "in_opcode i \<notin> set announce_ops"
      "in_opcode i \<notin> set [TRIPLE, BIT, RANDOMFULLS]" "exec_arith ops i t \<noteq> None"
proof -
  have "exec_arith ops i t \<noteq> None" if "in_opcode i \<notin> set regint_ops" "in_opcode i \<notin> set control_ops" "in_opcode i \<notin> set announce_ops"
    using assms that unfolding local_ops_def set_append Un_iff
    by (elim disjE) (auto simp: control_ops_def exec_arith_def share_instr_def clear_instr_def Let_def case_prod_unfold)
  moreover have "in_opcode i \<noteq> PLAYERID" "in_opcode i \<notin> set [TRIPLE, BIT, RANDOMFULLS]"
    using assms by (auto simp: local_ops_def regint_ops_def announce_ops_def)
  ultimately show thesis using that by metis
qed

lemma exec_instr_alike:
  assumes "base_ok add sub mul zero (env_ops env)" "mach s v" "in_opcode i \<in> set local_ops"
  shows "alike_io n mach (\<lambda>p. exec_instr (party_env const env p) i (s p)) (exec_instr (value_env env) i v)"
proof -
  from assms(3) show ?thesis
  proof (cases rule: local_ops_cases [where ops = "value_ops (env_ops env)" and t = v])
    case 1
    then show ?thesis by (rule exec_regint_alike [OF assms(2)])
  next
    case 2
    then show ?thesis by (rule exec_control_alike [OF assms(2)])
  next
    case 3
    then show ?thesis using alike_io_Some [OF alike_Inr [where R = mach, OF assms(2)]] by (simp add: exec_instr_def case_prod_unfold Let_def)
  next
    case 4
    then obtain m where m: "exec_arith (value_ops (env_ops env)) i v = Some m" by blast
    from exec_arith_alike [OF assms(1,2) 4(4) m] obtain ms
      where ms: "\<forall>p<n. exec_arith (party_ops const (env_ops env) p) i (s p) = Some (ms p)" "alike_io n mach ms m" by blast
    have v: "exec_instr (value_env env) i v = m" using 4 m by (simp add: exec_instr_def value_env_def case_prod_unfold)
    have p: "exec_instr (party_env const env p) i (s p) = ms p" if "p < n" for p
      using 4 ms(1) that by (simp add: exec_instr_def party_env_def case_prod_unfold Let_def)
    show ?thesis unfolding v by (rule alike_io_cong [OF ms(2)]) (rule p)
  qed
qed

lemma vm_exec_alike:
  fixes env :: "('a, 's, 'd) vm_env"
  assumes "vm_exec (value_env env) prog [] v = Some y" "mach s v" "base_ok add sub mul zero (env_ops env)" "\<forall>i\<in>set (pg_p prog). in_opcode i \<in> set local_ops"
  shows "\<exists>ys. (\<forall>p<n. vm_exec (party_env const env p) prog [] (s p) = Some (ys p)) \<and> alike n mach ys y"
proof -
  let ?G = "\<lambda>prog v y. (\<forall>i\<in>set (pg_p prog). in_opcode i \<in> set local_ops) \<longrightarrow> (\<forall>s :: nat \<Rightarrow> ('a, 's, 'd) vm_state. mach s v \<longrightarrow>
      (\<exists>ys. (\<forall>p<n. vm_exec (party_env const env p) prog [] (s p) = Some (ys p)) \<and> alike n mach ys y))"
  let ?C = "\<lambda>ve prog (pend :: instr list) (v :: ('a, 'a, 'd) vm_state) (y :: ('a, 'a, 'd) vm_state result). ve = value_env env \<and> pend = [] \<longrightarrow> ?G prog v y"
  have "?C (value_env env) prog [] v y"
  proof (rule vm_exec.raw_induct [where P = ?C, OF _ assms(1)])
    fix f :: "('a, 'a, 'd) vm_env \<Rightarrow> program \<Rightarrow> instr list \<Rightarrow> ('a, 'a, 'd) vm_state \<Rightarrow> ('a, 'a, 'd) vm_state result option"
      and ve prog pend v y
    assume IH: "\<And>ve prog pend v y. f ve prog pend v = Some y \<Longrightarrow> ?C ve prog pend v y"
      and body: "(case pend of
        [] \<Rightarrow> (case fetch prog (fst v) of
            None \<Rightarrow> Some (Inr v)
          | Some i \<Rightarrow>
              if in_opcode i = CALL_TAPE then f ve prog (calls i) (next_PC v)
              else (case exec_instr ve i (next_PC v) of
                  None \<Rightarrow> None
                | Some (Inl e) \<Rightarrow> Some (Inl e)
                | Some (Inr s) \<Rightarrow> f ve prog [] s))
      | i # pend \<Rightarrow> (case call_enter ve i (fst v) of
            Inl e \<Rightarrow> Some (Inl e)
          | Inr (tape, P) \<Rightarrow> Option.bind (f ve tape [] (P, snd v)) (\<lambda>r. case r of
                Inl e \<Rightarrow> Some (Inl e)
              | Inr (P, M) \<Rightarrow> (case call_leave i P of
                    Inl e \<Rightarrow> Some (Inl e)
                  | Inr P \<Rightarrow> f ve prog pend (P, M))))) = Some y"
    show "?C ve prog pend v y"
    proof (intro impI allI, elim conjE)
      fix s :: "nat \<Rightarrow> ('a, 's, 'd) vm_state"
      assume h: "\<forall>i\<in>set (pg_p prog). in_opcode i \<in> set local_ops" "mach s v" "ve = value_env env" "pend = []"
      have fe: "fetch prog (fst (s p)) = fetch prog (fst v)" if "p < n" for p using machD(3) [OF h(2) that] by (simp add: fetch_def)
      show "\<exists>ys. (\<forall>p<n. vm_exec (party_env const env p) prog [] (s p) = Some (ys p)) \<and> alike n mach ys y"
      proof (cases "fetch prog (fst v)")
        case None
        then have "y = Inr v" using body h by simp
        then show ?thesis using None fe h(2) by (intro exI [of _ "\<lambda>p. Inr (s p)"]) (simp add: vm_exec_end alike_Inr)
      next
        case (Some i)
        then have l: "in_opcode i \<in> set local_ops" using h(1) by (auto simp: fetch_def split: if_splits)
        then have nc: "in_opcode i \<noteq> CALL_TAPE" by (auto simp: local_ops_def regint_ops_def announce_ops_def)
        note a = exec_instr_alike [OF assms(3) mach_next_PC [OF h(2)] l]
        from body Some nc h obtain r where r: "exec_instr (value_env env) i (next_PC v) = Some r" by (auto split: option.splits)
        with a obtain rs where rs: "\<forall>p<n. exec_instr (party_env const env p) i (next_PC (s p)) = Some (rs p)" "alike n mach rs r"
          by (auto simp: alike_io_def)
        show ?thesis
        proof (cases r)
          case (Inl e)
          then have y: "y = Inl e" using body Some nc h r by simp
          show ?thesis
            using rs Inl y fe Some nc by (intro exI [of _ "\<lambda>p. Inl e"]) (auto simp: alike_def intro!: vm_exec_fault)
        next
          case (Inr w)
          then obtain ws where ws: "\<forall>p<n. rs p = Inr (ws p)" "mach ws w" using rs(2) by (auto simp: alike_def)
          have "f ve prog [] w = Some y" using body Some nc h r Inr by simp
          from IH [OF this] h(1,3) ws(2) obtain ys
            where ys: "\<forall>p<n. vm_exec (party_env const env p) prog [] (ws p) = Some (ys p)" "alike n mach ys y" by blast
          have "vm_exec (party_env const env p) prog [] (s p) = vm_exec (party_env const env p) prog [] (ws p)" if "p < n" for p
            by (rule vm_exec_step [OF _ nc]) (use fe [OF that] Some rs(1) ws(1) that in simp_all)
          then show ?thesis using ys by auto
        qed
      qed
    qed
  qed
  then show ?thesis using assms(2,4) by simp
qed

end

subsection \<open>The sharings of the protocols\<close>

lemma authentic_cong:
  assumes "authentic n alphas f x" "\<And>p. p < n \<Longrightarrow> g p = f p"
  shows "authentic n alphas g x"
proof -
  have "(\<Sum>i<n. get_share (g i)) = (\<Sum>i<n. get_share (f i))" "(\<Sum>i<n. get_mac (g i)) = (\<Sum>i<n. get_mac (f i))"
    by (rule sum.cong; simp add: assms(2))+
  then show ?thesis using assms(1) by (simp add: authentic_def)
qed

interpretation spdz_machine: machine_sharing "Suc n" "authentic (Suc n) alphas" "(+)" "(-)" share_mul "\<lambda>c i. share_constant c i (alphas i)" 0
  for n and alphas :: "nat \<Rightarrow> 'a :: comm_ring_1"
proof unfold_locales
  show "authentic (Suc n) alphas (\<lambda>_. 0) 0" by (simp add: authentic_def)
  show "authentic (Suc n) alphas g x" if "authentic (Suc n) alphas f x" "\<And>p. p < Suc n \<Longrightarrow> g p = f p" for f x g
    by (rule authentic_cong [OF that])
qed simp

interpretation semi_machine: machine_sharing "Suc n" "additive (Suc n)" "(+)" "(-) :: 'a :: comm_ring_1 \<Rightarrow> 'a \<Rightarrow> 'a" "(*)" semi_constant 0 for n
proof unfold_locales
  show "additive (Suc n) (\<lambda>_. 0) (0 :: 'a)" by (simp add: additive_def)
  show "additive (Suc n) g x" if "additive (Suc n) f x" "\<And>p. p < Suc n \<Longrightarrow> g p = f p" for f and x :: 'a and g
    using that by (simp add: additive_def)
qed simp

interpretation rep3_machine: machine_sharing 3 "replicated3 :: _ \<Rightarrow> 'a :: comm_ring_1 \<Rightarrow> bool" fv_add fv_sub "\<lambda>v c. fv_mul v (fv_fill 2 c)" rep3_constant "fv_assign_zero 2"
proof unfold_locales
  show "replicated3 (\<lambda>_. fv_assign_zero 2) (0 :: 'a)" by (simp add: replicated3_iff fv_assign_zero_def fv_fill_def)
  show "replicated3 g x" if "replicated3 f x" "\<And>p. p < 3 \<Longrightarrow> g p = f p" for f and x :: 'a and g
    using that by (simp add: replicated3_iff)
qed simp

text \<open>C39: Local computation on shares is the computation on values. Let the parties' machines hold authenticated shares (\<open>Share_\<close>,
  any ring, any number of parties) of what the registers and the memory of a specification machine hold, the rest being the same. Then if
  a tape of instructions that need no communication, with jumps and loops, integer, clear and share arithmetic and memory, ends in the
  specification, it ends at every party: with the same error, or with shares and MAC shares of the specification's values and the same
  public state.\<close>

theorem local_tape_on_shares:
  fixes env :: "('a :: comm_ring_1, 'a share, 'd) vm_env"
  assumes "0 < n" "base_ok (+) (-) share_mul 0 (env_ops env)" "\<forall>i\<in>set (pg_p prog). in_opcode i \<in> set local_ops"
    and "machines n (authentic n alphas) s v" "execute (value_env env) prog v = Some y"
  shows "\<exists>ys. (\<forall>p<n. execute (party_env (\<lambda>c i. share_constant c i (alphas i)) env p) prog (s p) = Some (ys p)) \<and>
    alike n (machines n (authentic n alphas)) ys y"
proof -
  obtain m where n: "n = Suc m" using assms(1) gr0_implies_Suc by blast
  have "machines n (authentic n alphas) (\<lambda>p. ((fst (s p))\<lparr>vm_PC := 0\<rparr>, snd (s p))) ((fst v)\<lparr>vm_PC := 0\<rparr>, snd v)"
    using assms(4) by (auto simp: machines_def same_public_def case_prod_unfold arith_proc.defs)
  from spdz_machine.vm_exec_alike [OF _ this [unfolded n] assms(2,3), of y, folded n] show ?thesis
    using assms(5) by (simp add: execute_def case_prod_unfold)
qed

subsection \<open>An example\<close>

text \<open>Two parties load a constant and double it.\<close>

definition demo_share_ops :: "(int, int share, unit) share_ops" where
  "demo_share_ops =
     \<lparr>so_of_long = sint, so_cadd = (+), so_csub = (-), so_cmul = (*), so_cand = (\<lambda>a b. 0), so_cxor = (\<lambda>a b. 0), so_cor = (\<lambda>a b. 0),
      so_cshl = (\<lambda>a b. Inl not_implemented), so_cshr = (\<lambda>a b. Inl not_implemented), so_cshli = (\<lambda>a b. Inl not_implemented),
      so_cshri = (\<lambda>a b. Inl not_implemented), so_constant = (\<lambda>c. share_constant c 0 3), so_zero = 0, so_czero = 0, so_add = (+),
      so_sub = (-), so_mulc = share_mul, so_triple = (\<lambda>_. Some (Inl not_implemented)), so_bit = (\<lambda>_. Some (Inl not_implemented)),
      so_random = (\<lambda>_. Some (Inl not_implemented))\<rparr>"

definition demo_share_env :: "(int, int share, unit) vm_env" where
  "demo_share_env =
     \<lparr>env_E = (\<lambda>k b. b), env_pl = 1, env_ops = demo_share_ops, env_progs = [], env_n_players = 2, env_my_num = 0, env_threshold = 1,
      env_other = (\<lambda>i s. Some (Inl not_implemented))\<rparr>"

definition share_instr_of :: "nat \<Rightarrow> 32 word list \<Rightarrow> 64 word \<Rightarrow> instr" where
  "share_instr_of opcode r n = \<lparr>in_opcode = opcode, in_size = 1, in_r = r, in_n = n, in_start = [], in_str = []\<rparr>"

definition demo_share_prog :: program where
  "demo_share_prog = \<lparr>pg_p = [share_instr_of LDSI [0, 0, 0, 0] 5, share_instr_of ADDS [1, 0, 0, 0] 0],
     pg_offline_data_used = dp_new 2, pg_max_reg = [0, 0, 0, 0, 2, 0, 0, 0, 0], pg_max_mem = [0, 0, 0, 0, 0, 0, 0, 0, 0], pg_unknown_usage = False, pg_writes_persistence = False\<rparr>"

definition demo_machine :: "'s list \<Rightarrow> 32 word \<Rightarrow> (int, 's, unit) vm_state" where
  "demo_machine S PC =
     (\<lparr>ap_Ci = sv_new 0 0, ap_thread_num = 0, ap_arg = 0, ap_stacki = [], ap_shared_prng = prng_new [] [] [], ap_on = True, ap_out = [],
       vm_S = \<lparr>sv_full = S, sv_start = 0, sv_stack = []\<rparr>, vm_C = sv_new 0 0, vm_DataF = (), vm_PC = PC, vm_PC_stack = [],
       vm_arg_stack = []\<rparr>, \<lparr>mm_Mi = [], mm_MS = [], mm_MC = []\<rparr>)"

lemma demo_values: "execute (value_env demo_share_env) demo_share_prog (demo_machine [0, 0] 0) = Some (Inr (demo_machine [5, 10] 2))"
proof -
  have f: "fetch demo_share_prog (fst (demo_machine xs 0)) = Some (share_instr_of LDSI [0, 0, 0, 0] 5)"
    "fetch demo_share_prog (fst (demo_machine xs 1)) = Some (share_instr_of ADDS [1, 0, 0, 0] 0)"
    "fetch demo_share_prog (fst (demo_machine xs 2)) = None" for xs :: "int list"
    by (simp_all add: fetch_def demo_share_prog_def demo_machine_def)
  have o: "in_opcode (share_instr_of LDSI [0, 0, 0, 0] 5) \<noteq> CALL_TAPE" "in_opcode (share_instr_of ADDS [1, 0, 0, 0] 0) \<noteq> CALL_TAPE"
    by (simp_all add: share_instr_of_def)
  have s: "exec_instr (value_env demo_share_env) (share_instr_of LDSI [0, 0, 0, 0] 5) (next_PC (demo_machine [0, 0] 0)) = Some (Inr (demo_machine [5, 0] 1))"
    "exec_instr (value_env demo_share_env) (share_instr_of ADDS [1, 0, 0, 0] 0) (next_PC (demo_machine [5, 0] 1)) = Some (Inr (demo_machine [5, 10] 2))"
    by (simp_all add: exec_instr_def share_instr_of_def regint_ops_def control_ops_def announce_ops_def exec_arith_def share_instr_def next_PC_def
        jump_def demo_machine_def value_env_def value_ops_def demo_share_env_def demo_share_ops_def on_S_def vec_fill_def vec_binary_def
        fill_loop_def binary_loop_def vec_len_def sv_ptr_def sv_index_def sv_on_def assign_def deref_def imm_def)
  have p: "fst (demo_machine xs 0)\<lparr>vm_PC := 0\<rparr> = fst (demo_machine xs 0)" for xs :: "int list" by (simp add: demo_machine_def)
  show ?thesis
    using vm_exec_step [OF f(1) o(1) s(1)] vm_exec_step [OF f(2) o(2) s(2)] vm_exec_end [OF f(3)]
    by (simp add: execute_def case_prod_unfold p del: One_nat_def)
qed

theorem local_tape_on_shares_witness:
  "\<exists>ys. (\<forall>p<2. execute (party_env (\<lambda>c i. share_constant c i (int i + 3)) demo_share_env p) demo_share_prog (demo_machine [0, 0] 0) = Some (ys p)) \<and>
    alike 2 (machines 2 (authentic 2 (\<lambda>i. int i + 3))) ys (Inr (demo_machine [5, 10] 2))"
proof (rule local_tape_on_shares [OF _ _ _ _ demo_values])
  show "base_ok (+) (-) share_mul 0 (env_ops demo_share_env)" by (simp add: base_ok_def demo_share_env_def demo_share_ops_def)
  show "\<forall>i\<in>set (pg_p demo_share_prog). in_opcode i \<in> set local_ops" by (simp add: demo_share_prog_def share_instr_of_def local_ops_def)
  show "machines 2 (authentic 2 (\<lambda>i. int i + 3)) (\<lambda>_. demo_machine [0, 0] 0) (demo_machine [0, 0] 0)"
    by (auto simp: machines_def same_public_def demo_machine_def shares_file_def shares_list_def authentic_def nth_Cons arith_proc.defs split: nat.splits)
qed simp

end
