(* ===== verification/Spec2Isabelle.thy ===== *)
theory Spec2Isabelle
  imports AlphaProtocol OctetBits OctetOps ZpField Rep3Shuffle WorkerThread ThreadJobs VmType VmShare
begin

text \<open>
  AlphaFL aggregates the model updates of federated-learning clients securely: two servers hold additive shares of
  every client's input, and an input commitment with a random linear check makes sure that a client committed to one
  value. It is written on top of MP-SPDZ, a framework for multi-party computation. This development models the
  AlphaFL protocol and, bottom up, the parts of the framework it and the online phase of SPDZ rest on.

  \<^bold>\<open>How the parts interact.\<close> A protocol computes on ring or field elements (\<open>Math/\<close>), packs them into streams
  (\<open>Tools/octetStream\<close>), which are sent as messages with a length field over sockets (\<open>Networking/\<close>). Randomness
  comes from generators (\<open>Tools/random\<close>) whose seeds are agreed on with commitments (\<open>Tools/Commit\<close>,
  \<open>Tools/Subroutines\<close>). A protocol on shares (\<open>Protocols/\<close>) opens values with an opening protocol, which keeps what it
  opened until a MAC check is made. AlphaFL's client and servers (\<open>Alpha/\<close>) use rows of ring elements (\<open>OT/Row\<close>),
  generators and messages, but none of the opening protocols.

  \<^bold>\<open>Theories, in the order of their imports.\<close>
  \<^item> \<open>Prelude\<close>: machine types, the number a list of limbs stands for, results of operations that throw
    (\<open>Inl\<close> an error, \<open>Inr\<close> a value; an operation that would wait for the network returns \<open>io\<close>), collections of
    rewrite rules, lemmas on lists, words and remainders that several components share.
  \<^item> \<open>MpnFixed\<close> (\<open>Math/mpn_fixed.h\<close>): unrolled addition, subtraction and multiplication of limb arrays.
  \<^item> \<open>OctetStream\<close>, \<open>OctetCodec\<close>, \<open>OctetBits\<close> (\<open>Tools/octetStream\<close>, \<open>Networking/data.h\<close>): the buffer with its read and
    write heads, length fields, bit packing; the invariant, the locale \<open>codec\<close> of packable types with the round trips
    of vectors, the round trip of bit groups.
  \<^item> \<open>Z2k\<close>, \<open>Z2kArith\<close>, \<open>Z2kBits\<close>, \<open>Z2kRing\<close> (\<open>Math/Z2k\<close>): integers modulo \<open>2 ^ K\<close>; the locale \<open>residue_ring\<close>, the
    contract of an arithmetic type, interpreted for every \<open>K\<close>; the isomorphism to words.
  \<^item> \<open>Zp\<close>, \<open>ZpArith\<close>, \<open>ZpField\<close> (\<open>Math/Zp_Data\<close>, \<open>Math/modp\<close>): prime fields, plain and in Montgomery form; the same
    contract \<open>residue_ring\<close> (\<open>modp_residue_ring\<close>, for every initialised object).
  \<^item> \<open>Prng\<close>, \<open>PrngStream\<close> (\<open>Tools/random\<close>): the generator as a cursor over one key stream, the samplers.
  \<^item> \<open>Row\<close> (\<open>OT/Row\<close>, \<open>Networking/Player\<close>), \<open>AlphaPre\<close>, \<open>AlphaVole\<close> (\<open>Alpha/alpha-pre.h\<close>), \<open>AlphaInput\<close>,
    \<open>AlphaCheck\<close>, \<open>AlphaProtocol\<close> (\<open>Alpha/alpha-client.cpp\<close>, \<open>Alpha/alpha-server.cpp\<close>): vector OLE, input commitment
    and consistency check, first each party, then the parties together.
  \<^item> \<open>Exchanger\<close> (\<open>Networking/Exchanger.h\<close>): two messages exchanged on non-blocking sockets.
  \<^item> \<open>Players\<close> (\<open>Networking/Player\<close>), \<open>Commit\<close> (\<open>Tools/Commit\<close>, \<open>Tools/Subroutines\<close>, \<open>Tools/Hash\<close>), \<open>TreeSum\<close>
    (\<open>Protocols/MAC_Check.h\<close>): broadcasts with their hash check, commitments and shared seeds, the summation tree;
    the locale \<open>len_codec\<close>, types whose encodings have a known length.
  \<^item> \<open>Share\<close> (\<open>Protocols/Share\<close>, \<open>SemiShare.h\<close>): shares with and without MAC over any commutative ring; the locale
    \<open>linear_sharing\<close>, what a protocol needs of a sharing, interpreted on both.
  \<^item> \<open>MacCheck\<close>, \<open>MacCheckProofs\<close>, \<open>Opening\<close> (\<open>Protocols/MAC_Check_Base\<close>, \<open>MAC_Check.hpp\<close>, \<open>SemiMC.hpp\<close>): opening
    values and the checks of SPDZ and SPDZ2k.
  \<^item> \<open>Beaver\<close>, \<open>Spdz\<close> (\<open>Protocols/Beaver\<close>, \<open>Replicated.hpp\<close>, \<open>SPDZ2k.h\<close>): multiplication with triples; the
    properties of the online phase.
  \<^item> \<open>Replicated\<close> (\<open>Math/FixedVec.h\<close>, \<open>Protocols/Rep3Share.h\<close>, \<open>Replicated\<close>), \<open>Rep3Run\<close>, \<open>Rep3Open\<close> (\<open>ReplicatedMC\<close>,
    \<open>MaliciousRepMC\<close>), \<open>Rep3Input\<close> (\<open>ReplicatedInput\<close>, \<open>Processor/Input.hpp\<close>), \<open>Rep3Trunc\<close>, \<open>Rep3TruncRun\<close>
    (\<open>Replicated::trunc_pr\<close>, \<open>Processor/TruncPrTuple.h\<close>): replicated sharing among three parties, first each party, then the
    three together; the locale \<open>shared_source\<close>, what two parties need of a generator they share. \<open>Rep3\<close> interprets it on
    the generators of \<open>Tools/random\<close> and has the properties.
  \<^item> \<open>Waksman\<close> (\<open>Tools/Waksman\<close>), \<open>ShuffleNet\<close>, \<open>SecureShuffle\<close> (\<open>Protocols/SecureShuffle\<close>): permutation networks, their
    configuration from a permutation, the rounds of a shuffle on shares; the locale \<open>partner_cycles\<close>, the cycles the configuration
    walks along, and the locales \<open>shuffle_protocol\<close> and \<open>shuffle_inputs\<close>, what a shuffle needs of a protocol, interpreted on the three
    parties of the replicated one in \<open>Rep3Shuffle\<close>.
  \<^item> \<open>WaitQueue\<close>, \<open>WorkerThread\<close> (\<open>Tools/WaitQueue.h\<close>, \<open>Tools/Worker.h\<close>, \<open>Networking/Sender.cpp\<close>, \<open>Receiver.cpp\<close>):
    the queue between two threads, a worker thread and its owner, as interleaved steps; the locale \<open>fair_progress\<close>, what makes a
    system of threads end under every fair schedule, interpreted on the two threads.
  \<^item> \<open>ThreadJobs\<close> (\<open>Processor/ThreadJob.h\<close>, \<open>ThreadQueue\<close>, \<open>ThreadQueues\<close>): distribution of items among idle threads.
  \<^item> \<open>Opcodes\<close>, \<open>Bytecode\<close> (\<open>Processor/Instruction\<close>, \<open>GC/Instruction.h\<close>, \<open>Tools/parse.h\<close>), \<open>RegBounds\<close> (\<open>Processor/Program\<close>):
    parsing of a tape, the registers and the memory it needs; \<open>DataUsage\<close> (\<open>Processor/DataPositions\<close>): counters of preprocessing,
    announced and used; \<open>BytecodeRound\<close>: what the compiler writes is read back.
  \<^item> \<open>Registers\<close> (\<open>Tools/CheckVector.h\<close>, \<open>Processor/Memory\<close>), \<open>Regint\<close>, \<open>VmArith\<close> (\<open>Processor/instructions.h\<close>), \<open>VmRun\<close>
    (\<open>Processor/Instruction.hpp\<close>, \<open>Processor.hpp\<close>): the virtual machine, namely register files in one vector with a frame for
    each call, the instructions on integers, shares and clear values that need no communication, control, calls of
    tapes and the loop over the instructions.
  \<^item> \<open>VmFrame\<close>, \<open>VmCall\<close>: what instructions and calls leave unchanged below the frame; \<open>VmType\<close>: tapes loaded by
    \<open>Program::parse\<close> run within the registers counted for them; \<open>VmPublic\<close>, \<open>VmShare\<close>: the machines of the parties
    refine one machine on the shared values; the locale \<open>machine_sharing\<close>, which extends \<open>linear_sharing\<close> by what the
    machine needs of a sharing, interpreted on authenticated, plain additive and replicated shares.

  \<^bold>\<open>State and operations.\<close> A class is a record with the fields the operations read or write, a method is a function
  that takes the record and returns it changed, together with its result. Template parameters and compile-time
  constants are the first arguments. Virtual methods are a record of functions (\<open>mc_ops\<close>). Most protocol theories model
  one party; what the others send in a round is the argument \<open>rcv\<close>, a byte string for each sender, so that a statement
  about one party holds whatever the others do. The theorems about honest parties instantiate \<open>rcv\<close> with what the
  same functions of the other parties send.

  \<^bold>\<open>What the lemmas show.\<close> Limb and ring arithmetic: agreement with arithmetic modulo \<open>2 ^ K\<close> or the prime. Streams:
  an invariant, bounds, round trips. Generator: independence of how requests are cut, uniformity, bounds. AlphaFL:
  correctness of the vector OLE and of the commitment, soundness of the check, agreement of the servers. Networking:
  the exchange completes and delivers. Commitments: agreement, binding. Opening: honest parties get the values and
  pass the check; what passes with errors is bounded. Multiplication: shares of the products. Replicated shares: input,
  multiplication and truncation from the seeds on, opening with one party that cheats. Shuffles: the configured network carries out
  its permutation, units come out in the order of a permutation, the reverse restores them. Threads: a worker does what it is
  asked, in order, and ends; work is distributed without overlap. Virtual machine: bytecode is read back as written, loaded
  integer tapes do not leave their registers, a call returns to its caller with only the named results changed, local
  instructions on shares compute on the shared values.

  \<^bold>\<open>Bounds and fuel.\<close> Loops whose end is not structural are bounded by a number the code implies: the retries of
  \<open>randomBnd\<close> by the 1001 the code counts; powers and inverses by the number of bits. The two rejection loops of the
  generator that have no bound and the loops of the network configuration, which need not end unless the argument is a permutation, are
  \<open>partial_function\<close>s, for the latter with a theorem that they end; of the former the rejection test is a definition of its own and its fairness a theorem. A tape of the virtual machine may loop
  forever: \<open>vm_exec\<close> is a \<open>partial_function\<close> too and \<open>None\<close> is a tape that does not end; the theorems about it say what holds if
  it ends and that the machines of the parties end together with the machine on values, their witnesses are tapes that end. The exchange loop consumes a list of what the sockets do in each round, with a theorem that as many
  rounds as there are bytes are enough once the sockets make progress. A schedule of threads is an infinite sequence, in
  which a thread that cannot move lets its turn pass; that the end is reached is proved by a measure that every step
  decreases and the absence of deadlocks. Sizes are natural numbers below
  \<open>2 ^ 64\<close>; where the code's arithmetic can wrap around and nothing prevents it, it is written out.

  \<^bold>\<open>Parameters of the model\<close>, code that is not in the repository: GMP's limb routines (arguments \<open>G\<close> and \<open>A\<close> with the
  contracts \<open>gmp_mpn\<close> and \<open>gmp_arith_ok\<close>, met by references), its inverse and primality test; the block cipher \<open>E\<close>; libsodium's
  hash functions \<open>H\<close>; the random bytes of the operating system; what sockets accept and deliver; the schedule of threads, which of the waiting threads a signal wakes (\<open>pick\<close>), what a
  worker does for a request (\<open>work\<close>); of the virtual machine: what the protocol classes do for a share type (\<open>share_ops\<close>,
  instantiated by the models of three of them), what an instruction outside the model does (\<open>env_other\<close>), the numbers of the binary
  machine that loading asks for (\<open>vm_hooks\<close>), the source of preprocessing, the tapes.

  \<^bold>\<open>Not modelled.\<close> Sockets, TLS, the creation of threads, timers, files and text output, because the model has no operating system;
  the main functions. The protocols on polynomial shares, the preprocessing from oblivious transfer and
  homomorphic encryption, garbled circuits and binary fields are not modelled. Of the virtual machine those instructions are left
  out that open, multiply, input or output values, work on the binary field or binary circuits, or start other
  threads; the models of the protocols they call are theories of their own here. The compiler is a Python program. The manifest lists every part with its reason.
\<close>

section \<open>Fixed-size limb arithmetic\<close>

text \<open>The unrolled addition and subtraction on \<open>N\<close> limbs (\<open>mpn_add_fixed_n\<close>, \<open>mpn_sub_fixed_n\<close>), in every
  specialisation, are addition and subtraction of the numbers modulo \<open>2 ^ (64 N)\<close>.\<close>

theorem limb_add_sub:
  assumes "N \<le> length x" "N \<le> length y"
  shows "length (mpn_add_fixed_n N x y) = N \<and> length (mpn_sub_fixed_n N x y) = N
    \<and> limbs_val (mpn_add_fixed_n N x y) = (limbs_val (take N x) + limbs_val (take N y)) mod limb_base ^ N
    \<and> int (limbs_val (mpn_sub_fixed_n N x y)) = (int (limbs_val (take N x)) - int (limbs_val (take N y))) mod int (limb_base ^ N)"
proof -
  have "limbs_val (take N y) < limb_base ^ N"
    using assms by (simp add: limbs_val_take)
  then have "int (limbs_val (mpn_sub_fixed_n N x y))
      = (int (limbs_val (take N x)) + int (limb_base ^ N) - int (limbs_val (take N y))) mod int (limb_base ^ N)"
    unfolding mpn_sub_fixed_n_val [OF assms] by (simp add: zmod_int of_nat_diff)
  also have "\<dots> = (int (limbs_val (take N x)) - int (limbs_val (take N y))) mod int (limb_base ^ N)"
    by (metis add_diff_eq diff_add_eq mod_add_self2)
  finally show ?thesis
    using assms by (simp add: mpn_add_fixed_n_val)
qed

theorem limb_add_sub_witness:
  "limbs_val (mpn_add_fixed_n 2 [0xffffffffffffffff, 3] [1, 4]) = (limbs_val [0xffffffffffffffff, 3] + limbs_val [1, 4]) mod limb_base ^ 2
    \<and> mpn_add_fixed_n 2 [0xffffffffffffffff, 3] [1, 4] = [0, 8]"
  using limb_add_sub [of 2 "[0xffffffffffffffff, 3]" "[1, 4]"]
  by (simp add: mpn_add_fixed_n_def addcarryx_u64_def limb_base_def)

text \<open>C10: The fixed-size multiplication (\<open>mpn_mul_fixed_\<close>), generic loop and specialisations alike, returns the
  \<open>L\<close> low limbs of the product, and never fails its assertion when \<open>L \<le> N + M + 2\<close>.\<close>

theorem limb_mul:
  assumes "L \<le> N + M + 2" "1 \<le> N" "N \<le> length x" "1 \<le> M" "M \<le> length y"
  shows "\<exists>r. mpn_mul_fixed_L L N M x y = Some r \<and> length r = L
    \<and> limbs_val r = (limbs_val (take N x) * limbs_val (take M y)) mod limb_base ^ L"
  using mpn_mul_fixed_L_val [OF assms] by (simp add: is_product_def)

theorem limb_mul_witness:
  "\<exists>r. mpn_mul_fixed_L 2 2 2 [3, 1] [5, 2] = Some r \<and> length r = 2
    \<and> limbs_val r = (limbs_val [3, 1] * limbs_val [5, 2]) mod limb_base ^ 2"
  using limb_mul [of 2 2 2 "[3, 1]" "[5, 2]"] by simp

section \<open>The rings of integers modulo \<open>2 ^ K\<close>\<close>

text \<open>C7: On elements of \<open>N_WORDS\<close> limbs, \<open>operator+\<close>, \<open>operator-\<close> and \<open>operator*\<close> of \<open>Z2<K>\<close> return normal forms
  and are the operations of the ring of \<open>K\<close>-bit words; on normal forms the correspondence is injective.\<close>

theorem z2_ring_is_word_ring:
  fixes w :: "'k :: len word"
  assumes "z2_wf LENGTH('k) a" "z2_wf LENGTH('k) b"
  shows "z2_wf LENGTH('k) (z2_add LENGTH('k) a b) \<and> z2_wf LENGTH('k) (z2_sub LENGTH('k) a b)
    \<and> z2_word (z2_add LENGTH('k) a b) = (z2_word a + z2_word b :: 'k word)
    \<and> z2_word (z2_sub LENGTH('k) a b) = (z2_word a - z2_word b :: 'k word)
    \<and> (\<exists>r. z2_mult LENGTH('k) LENGTH('k) a b = Some r \<and> z2_wf LENGTH('k) r \<and> z2_word r = (z2_word a * z2_word b :: 'k word))
    \<and> (z2_word a = (z2_word b :: 'k word) \<longleftrightarrow> a = b) \<and> z2_word (z2_of_word w) = w"
  using assms z2_add_val(2) [of "LENGTH('k)" a b] z2_sub_val(2) [of "LENGTH('k)" a b] z2_word_mult [of a b, where 'k = 'k]
    z2_word_inject [of a b, where 'k = 'k]
  by (simp add: z2_word_add z2_word_sub z2_wfD)

theorem z2_ring_is_word_ring_witness:
  "z2_word (z2_add 70 [0xffffffffffffffff, 63] [1, 0]) = (z2_word [0xffffffffffffffff, 63] + z2_word [1, 0] :: 70 word)
    \<and> z2_wf 70 (z2_add 70 [0xffffffffffffffff, 63] [1, 0])"
proof -
  have "z2_wf LENGTH(70) [0xffffffffffffffff, 63]" "z2_wf LENGTH(70) [1, 0]"
    by (simp_all add: z2_wf_def z2_N_WORDS_def limb_base_def)
  from z2_ring_is_word_ring [OF this] show ?thesis by simp
qed

text \<open>C8: \<open>invert\<close> returns the inverse modulo \<open>2 ^ K\<close> of every odd element in normal form and throws
  \<open>division_by_zero\<close> on every even one; no assertion fails on the way.\<close>

theorem z2_invert_correct:
  assumes "gmp_mpn G" "0 < K" "length a = z2_N_WORDS K"
  shows "if odd (limbs_val a) then \<exists>r. z2_invert G K a = Inr r \<and> z2_wf K r \<and> (limbs_val a * limbs_val r) mod 2 ^ K = 1 mod 2 ^ K
    else z2_invert G K a = Inl division_by_zero"
  using gmp_mpn.z2_invert_val [OF assms] gmp_mpn.z2_invert_even [OF assms] assms(2) by auto

theorem z2_invert_correct_witness:
  "\<exists>r. z2_invert gmp_ref 8 [3] = Inr r \<and> z2_wf 8 r \<and> (3 * limbs_val r) mod 256 = 1"
  using z2_invert_correct [OF gref.gmp_mpn_axioms, of 8 "[3]"] by (simp add: z2_N_WORDS_def)

text \<open>An odd square is 1 modulo 8.\<close>

lemma odd_square_mod_8:
  assumes "(r * r) mod 2 ^ K = a mod 2 ^ K" "odd a" "3 \<le> K"
  shows "a mod 8 = (1 :: nat)"
proof -
  have "(8 :: nat) dvd 2 ^ K" using assms(3) le_imp_power_dvd [of 3 K "2 :: nat"] by simp
  then have sq: "(r * r) mod 8 = a mod 8" using assms(1) by (metis mod_mod_cancel)
  have "odd r" using sq assms(2) by (metis dvd_mult2 dvd_mod_iff even_numeral numeral_Bit0_eq_double dvd_triv_left)
  then have "r mod 8 \<in> {1, 3, 5, 7}" by auto presburger
  moreover have "(r * r) mod 8 = ((r mod 8) * (r mod 8)) mod 8" by (simp add: mod_mult_eq)
  ultimately show ?thesis using sq by auto
qed

text \<open>C9: \<open>sqrRoot\<close> returns a square root modulo \<open>2 ^ K\<close> of every element congruent to 1 modulo 8 and aborts in
  its assertion on every other one. The header promises a root for every element with least significant bit 1 (Z2k.h:163); the odd
  elements on which the code aborts have none when \<open>K\<close> is at least 3.\<close>

theorem z2_sqrRoot_correct:
  assumes "gmp_mpn G" "0 < K" "length a = z2_N_WORDS K"
  shows "(if limbs_val a mod 8 = 1 then \<exists>r. z2_sqrRoot G K a = Inr r \<and> z2_wf K r
      \<and> (limbs_val r * limbs_val r) mod 2 ^ K = limbs_val a mod 2 ^ K
    else z2_sqrRoot G K a = Inl assertion_failed)
    \<and> (odd (limbs_val a) \<and> 3 \<le> K \<and> z2_sqrRoot G K a = Inl assertion_failed \<longrightarrow>
        (\<forall>r. (r * r) mod 2 ^ K \<noteq> limbs_val a mod 2 ^ K))"
proof (cases "limbs_val a mod 8 = 1")
  case True
  then show ?thesis using gmp_mpn.z2_sqrRoot_val [OF assms] by auto
next
  case False
  then show ?thesis using gmp_mpn.z2_sqrRoot_other [OF assms] odd_square_mod_8 by auto
qed

theorem z2_sqrRoot_correct_witness:
  "(\<exists>r. z2_sqrRoot gmp_ref 8 [17] = Inr r \<and> z2_wf 8 r \<and> (limbs_val r * limbs_val r) mod 256 = 17)
    \<and> z2_sqrRoot gmp_ref 8 [3] = Inl assertion_failed \<and> (\<forall>r. (r * r) mod 256 \<noteq> (3 :: nat))"
  using z2_sqrRoot_correct [OF gref.gmp_mpn_axioms, of 8 "[17]"] z2_sqrRoot_correct [OF gref.gmp_mpn_axioms, of 8 "[3]"]
  by (simp add: z2_N_WORDS_def)

text \<open>Shifts: \<open>operator<<\<close> multiplies by \<open>2 ^ i\<close> modulo \<open>2 ^ K\<close> and returns a normal form, \<open>operator>>\<close> divides
  by \<open>2 ^ i\<close>, for every shift amount, also across and beyond limbs.\<close>

theorem z2_shifts_correct:
  assumes "gmp_mpn G" "0 < K" "length a = z2_N_WORDS K"
  shows "limbs_val (z2_shl G K a i) = (limbs_val a * 2 ^ i) mod 2 ^ K \<and> z2_wf K (z2_shl G K a i)
    \<and> limbs_val (z2_shr G K a i) = limbs_val a div 2 ^ i"
  using gmp_mpn.z2_shl_val [OF assms] gmp_mpn.z2_shr_val [OF assms] by simp

theorem z2_shifts_correct_witness:
  "limbs_val (z2_shl gmp_ref 100 [5, 1] 65) = (limbs_val [5, 1] * 2 ^ 65) mod 2 ^ 100
    \<and> limbs_val (z2_shr gmp_ref 100 [5, 1] 65) = limbs_val [5, 1] div 2 ^ 65"
  using z2_shifts_correct [OF gref.gmp_mpn_axioms, of 100 "[5, 1]" 65] by (simp add: z2_N_WORDS_def)

text \<open>The converting constructor \<open>Z2<K>(const Z2<L>&)\<close> keeps the value when it widens and truncates it when it
  narrows: it is \<open>ucast\<close> of words.\<close>

theorem z2_convert_ucast:
  assumes "z2_wf LENGTH('l) x"
  shows "(z2_word (z2_of_z2 LENGTH('k) LENGTH('l) x) :: 'k :: len word) = ucast (z2_word x :: 'l :: len word)
    \<and> z2_wf LENGTH('k) (z2_of_z2 LENGTH('k) LENGTH('l) x)
    \<and> (LENGTH('l) \<le> LENGTH('k) \<longrightarrow> limbs_val (z2_of_z2 LENGTH('k) LENGTH('l) x) = limbs_val x)"
  using z2_word_of_z2 [OF assms, where 'k = 'k] z2_of_z2_val(2) [of "LENGTH('k)" x "LENGTH('l)"]
    z2_of_z2_widen [of "LENGTH('l)" "LENGTH('k)" x] assms
  by (auto simp: z2_wfD)

theorem z2_convert_ucast_witness:
  "limbs_val (z2_of_z2 127 64 [7]) = 7 \<and> (z2_word (z2_of_z2 63 64 [0xffffffffffffffff]) :: 63 word) = ucast (z2_word [0xffffffffffffffff] :: 64 word)"
proof -
  have "z2_wf LENGTH(64) [7]" "z2_wf LENGTH(64) [0xffffffffffffffff]"
    by (simp_all add: z2_wf_def z2_N_WORDS_def)
  from z2_convert_ucast [OF this(1), where 'k = 127] z2_convert_ucast [OF this(2), where 'k = 63]
  show ?thesis by simp
qed

section \<open>Byte streams and messages\<close>

text \<open>C11: A vector of ring elements written to a stream is read back unchanged and to its last byte, from any
  stream with no pending bits, whatever it already holds.\<close>

theorem stream_vector_roundtrip:
  assumes "list_all (z2_wf K) v" "length v < 2 ^ 64" "os_writable os" "os_len os + 8 + length v * z2_N_BYTES K < 2 ^ 64"
  shows "\<exists>os' os''. os_store_vector (z2_pack K) os v = Inr os' \<and> take (os_len os) (os_data os') = os_data os
    \<and> os_get_vector (z2_get K) (os'\<lparr>os_ptr := os_len os\<rparr>) = Inr (v, os'') \<and> os_done os''"
  using z2_codec.codec_vector length_enc_vector_z2 [OF assms(1)] assms
  by (intro codec.write_read [where enc = "enc_vector (\<lambda>a. take (z2_N_BYTES K) (bytes_of_limbs a))"
        and valid = "\<lambda>v. list_all (z2_wf K) v \<and> length v < 2 ^ 64"]) simp_all

theorem stream_vector_roundtrip_witness:
  "\<exists>os' os''. os_store_vector (z2_pack 64) os_empty [[7], [9]] = Inr os'
    \<and> os_get_vector (z2_get 64) (os'\<lparr>os_ptr := 0\<rparr>) = Inr ([[7], [9]], os'')"
  using stream_vector_roundtrip [of 64 "[[7], [9]]" os_empty]
  by (auto simp: z2_wf_def z2_N_WORDS_def z2_N_BYTES_def os_writable_def os_empty_def os_len_def BitBuffer_def)



text \<open>A successful read returns the bytes at the read head and moves it; a read past the end throws, except
  that a request so long that the sum in the bounds check wraps around passes it.\<close>

theorem stream_bounds:
  assumes "os_ready os" "l < 2 ^ 64"
  shows "os_consume os l =
    (if os_ptr os + l \<le> os_len os then Inr (take l (os_unread os), os_skip l os)
     else if os_ptr os + l < 2 ^ 64 then Inl insufficient_data
     else Inl undefined_behaviour)"
proof (cases "os_ptr os + l < 2 ^ 64")
  case True
  with assms show ?thesis
    by (simp add: os_consume_def Let_def os_unread_def os_skip_def os_len_def)
next
  case False
  then have "os_len os < os_ptr os + l" and lt: "os_ptr os + l - 2 ^ 64 < 2 ^ 64"
    using assms False unfolding os_ready_def by linarith+
  moreover have "(os_ptr os + l) mod 2 ^ 64 = os_ptr os + l - 2 ^ 64"
    using False lt by (metis le_mod_geq mod_less not_le)
  ultimately have "(os_ptr os + l) mod 2 ^ 64 \<le> os_len os" "os_len os < os_ptr os + l"
    using assms unfolding os_ready_def by linarith+
  with False show ?thesis
    by (simp add: os_consume_def Let_def os_len_def)
qed

theorem stream_bounds_witness:
  "os_consume (os_append os_empty [1, 2]) 3 = Inl insufficient_data"
proof -
  have "os_ready (os_append os_empty [1, 2])"
    by (simp add: os_ready_def os_len_def os_append_effect os_empty_def os_pending_def BitBuffer_def)
  from stream_bounds [OF this, of 3] show ?thesis
    by (simp add: os_len_def os_append_effect os_empty_def os_pending_def BitBuffer_def)
qed

text \<open>C12: Bit groups of 1 to 8 bits, of any sequence of sizes, written to a stream with clean bit buffers and
  flushed, are read back as the low bits of what was written.\<close>

theorem stream_bits_roundtrip:
  assumes "os_bits_clean w" "bb_n (os_wbits w) = 0" "\<forall>(N, a) \<in> set gs. 1 \<le> N \<and> N \<le> 8"
    and "os_data r = os_finish (os_store_groups w gs)" "length (os_data r) < 2 ^ 64"
    and "os_ptr r = os_len w" "bb_n (os_rbits r) = 0"
  shows "\<exists>r'. os_get_groups r (map fst gs) = Inr (map (\<lambda>(N, a). a AND mask N) gs, r')"
  using assms by (rule os_groups_roundtrip)

theorem stream_bits_roundtrip_witness:
  "\<exists>r'. os_get_groups (os_of_bytes [0b00010111, 0b101]) [3, 4, 3] = Inr ([7, 2, 5], r')"
  using stream_bits_roundtrip [of os_empty "[(3, 7), (4, 2), (3, 5)]" "os_of_bytes [0b00010111, 0b101]"]
  by (simp add: os_bits_clean_def os_finish_def os_store_bits_N_def os_append_def os_append_bytes_def os_flush_bits_def
      os_alloc_defs os_of_bytes_def os_new_def os_empty_def os_len_def BitBuffer_def Let_def mask_eq_exp_minus_1)

text \<open>C13: A message sent by one player is what the other receives, and nothing of the bytes behind it is consumed;
  a message whose length does not fit the four length bytes is refused.\<close>

theorem message_roundtrip:
  assumes "os_writable os" "os_len os < 2 ^ 63"
  shows "if os_len os < 2 ^ 32
    then \<exists>bytes. player_send_to os socket = Inr (socket @ bytes)
      \<and> (\<forall>r rest. \<exists>r'. player_receive_player r (bytes @ rest) = Some (Inr (r', rest))
           \<and> os_data r' = os_data os \<and> os_ptr r' = 0)
    else player_send_to os socket = Inl invalid_length"
proof (cases "os_len os < 2 ^ 32")
  case True
  then have "length (os_data os) < 2 ^ 32" by (simp add: os_len_def)
  from player_send_frame [OF assms(1) True, of socket] player_receive_frame [OF this] True
  show ?thesis by (auto simp: os_unread_def)
next
  case False
  with assms(2) player_send_long show ?thesis by simp
qed


theorem message_roundtrip_witness:
  "\<exists>bytes. player_send_to (os_append os_empty [1, 2]) [] = Inr ([] @ bytes)
    \<and> (\<forall>r rest. \<exists>r'. player_receive_player r (bytes @ rest) = Some (Inr (r', rest)) \<and> os_data r' = [1, 2] \<and> os_ptr r' = 0)"
proof -
  have os: "os_writable (os_append os_empty [1, 2])" "os_data (os_append os_empty [1, 2]) = [1, 2]"
    using os_append_effect [of os_empty "[1, 2]"]
    by (simp_all add: os_writable_def os_len_def os_empty_def os_pending_def BitBuffer_def)
  from message_roundtrip [OF os(1), of "[]"] show ?thesis
    by (simp add: os os_len_def)
qed

section \<open>The pseudo-random generator\<close>



text \<open>\<open>get<Z2<K>>\<close> on a generator at position \<open>k\<close> returns the normal form of the next \<open>N_BYTES\<close> bytes of the key
  stream, reduced modulo \<open>2 ^ K\<close>, and leaves the generator behind them.\<close>

theorem prng_ring_element:
  assumes "prng_at E pl key k G" "cipher_ok E" "0 < pl" "0 < K" "(k + z2_N_BYTES K) div 16 + pl \<le> 2 ^ 64"
  shows "\<exists>a G'. prng_get_z2 E pl K G = Inr (a, G') \<and> z2_wf K a
    \<and> limbs_val a = le_val (map (keystream E key) [k..<k + z2_N_BYTES K]) mod 2 ^ K
    \<and> prng_at E pl key (k + z2_N_BYTES K) G'"
  using prng_get_z2_at [OF assms(1) _ assms(3,5)] keystream_z2_val [OF assms(4)] assms(2)
  by (auto simp: cipher_ok_def AES_BLK_SIZE_def)

theorem prng_ring_element_witness:
  "\<exists>G a G'. prng_SetSeed (\<lambda>k b. b) 8 [] (prng_new [] [] []) = Inr G \<and> prng_get_z2 (\<lambda>k b. b) 8 64 G = Inr (a, G') \<and> z2_wf 64 a"
proof -
  obtain G where G: "prng_SetSeed (\<lambda>k b. b) 8 [] (prng_new [] [] []) = Inr G" "prng_at (\<lambda>k b. b) 8 (take SEED_SIZE []) 0 G"
    using prng_SetSeed_at [of 8 "\<lambda>k b. b" "[]" "prng_new [] [] []"] by auto
  from prng_ring_element [OF G(2), of 64] G(1) show ?thesis
    by (auto simp: cipher_ok_def z2_N_BYTES_def)
qed

text \<open>\<open>randomBnd(B)\<close> returns the first of the draws that is below the bound, if it is among the first 1001,
  and never returns a value outside the range.\<close>

theorem prng_bounded:
  assumes "prng_at E pl key k G" "cipher_ok E" "0 < pl" "0 < nb"
    "(k + (j + 1) * ((nb + 7) div 8)) div 16 + pl \<le> 2 ^ 64" "j \<le> 1000"
    "\<forall>i<j. B \<le> int (bigint_draw E key k nb i)" "int (bigint_draw E key k nb j) < B"
  shows "(\<exists>G'. prng_randomBnd E pl nb B True G = Inr (int (bigint_draw E key k nb j), G'))
    \<and> (\<forall>x H H'. prng_randomBnd E pl nb B True H = Inr (x, H') \<longrightarrow> 0 \<le> x \<and> x < B)"
  using prng_randomBnd_loop_first [OF assms(1) _ assms(3-5), of B 0] assms(2,6-8) prng_randomBnd_loop_range
  by (fastforce simp: prng_randomBnd_def bind_result_Inr_iff cipher_ok_def AES_BLK_SIZE_def)

theorem prng_bounded_witness:
  "\<exists>G G'. prng_SetSeed (\<lambda>k b. b) 8 [] (prng_new [] [] []) = Inr G \<and> prng_randomBnd (\<lambda>k b. b) 8 8 10 True G = Inr (0, G')"
proof -
  obtain G where G: "prng_SetSeed (\<lambda>k b. b) 8 [] (prng_new [] [] []) = Inr G" "prng_at (\<lambda>k b. b) 8 (take SEED_SIZE []) 0 G"
    using prng_SetSeed_at [of 8 "\<lambda>k b. b" "[]" "prng_new [] [] []"] by auto
  have "bigint_draw (\<lambda>k b. b) (take SEED_SIZE []) 0 8 0 = 0"
    by (simp add: bigint_draw_def keystream_def ctr_block_def le_bytes_0 nth_append)
  with prng_bounded [OF G(2), of 8 0 10] G(1) show ?thesis
    by (auto simp: cipher_ok_def)
qed

text \<open>The rejection test of \<open>get_uint(upper)\<close> accepts, for every upper bound above 128 that does not divide
  \<open>2 ^ 32 + 1\<close>, equally many 32-bit draws for every residue.\<close>

theorem prng_uint_uniform:
  assumes "128 <s upper" "\<not> unat upper dvd 2 ^ 32 + 1" "v < upper" "w < upper"
  shows "card {r. \<not> get_uint_rejects upper r \<and> r mod upper = v} = card {r. \<not> get_uint_rejects upper r \<and> r mod upper = w}"
  using get_uint_uniform_le [OF assms(1-3), of w] get_uint_uniform_le [OF assms(1,2,4), of v]
  by (simp add: get_uint_accepts_def)

theorem prng_uint_uniform_witness:
  "card {r. \<not> get_uint_rejects 1000 r \<and> r mod 1000 = (1 :: 32 word)} = card {r. \<not> get_uint_rejects 1000 r \<and> r mod 1000 = 999}"
  by (rule prng_uint_uniform) (simp_all add: word_less_alt sless_32 word_sless_alt)

section \<open>AlphaFL\<close>

text \<open>C1: The vector OLE: run on what the sender wrote, with any number of merged rounds, the receiver ends with
  \<open>b + alpha * x\<close> where the sender ends with \<open>b\<close>, and consumes exactly the sender's messages.\<close>

theorem vole_correct:
  fixes alpha :: z_s
  assumes "length psS = S_BITS" "length psR = S_BITS" "length outS = length x" "length outR = length x"
    "cipher_ok E" "0 < pl" "pl \<le> 256" "0 < mr" "length x + pl \<le> 2 ^ 64" "min mr S_BITS * (8 + length x * 16) < 2 ^ 32"
  shows "\<exists>b a w. vole_send_simu E pl mr psS ch outS x = Inr (b, ch @ w)
    \<and> vole_recv_simu E pl mr psR (w @ rest) outR alpha = Some (Inr (a, rest))
    \<and> length a = length x \<and> (\<forall>i<length x. a ! i = b ! i + ucast alpha * ucast (x ! i))"
  using vole_send_run [OF assms(1,3,5-10), of ch] vole_recv_run [OF assms(2,4,5-10), of rest alpha]
    vole_sums [where vx = "map ucast x :: z_k2s row" and alpha = alpha and E = E and key = vole_key]
  by (auto simp: vole_sum_def)

theorem vole_correct_witness:
  "\<exists>b a w. vole_send_simu (\<lambda>k b. b) 8 9 (replicate S_BITS (prng_new [] [] [], prng_new [] [] [])) [] [0] [5] = Inr (b, [] @ w)
    \<and> vole_recv_simu (\<lambda>k b. b) 8 9 (replicate S_BITS (prng_new [] [] [], prng_new [] [] [])) (w @ []) [0] 3 = Some (Inr (a, []))
    \<and> length a = 1 \<and> (\<forall>i<1. a ! i = b ! i + ucast (3 :: z_s) * ucast ([5 :: z_ks] ! i))"
proof -
  have "length [5 :: z_ks] = 1" by simp
  from vole_correct [of "replicate S_BITS (prng_new [] [] [], prng_new [] [] [])"
      "replicate S_BITS (prng_new [] [] [], prng_new [] [] [])" "[0]" "[5]" "[0]" "\<lambda>k b. b" 8 9 "[]" "[]" 3, unfolded this]
  show ?thesis
    by (simp add: cipher_ok_def S_BITS_def)
qed

text \<open>The sum of two shares in the bigger ring.\<close>

lemma sum_mod_carry:
  assumes "0 \<le> a" "a < m" "0 \<le> b" "b < m" "c = (a + b) mod (m :: int)"
  shows "a + b = c + (if c < a then m else 0)"
proof (cases "a + b < m")
  case False
  have "(a + b) mod m = (a + b - m) mod m" by (rule minus_mod_self2 [symmetric])
  also have "\<dots> = a + b - m" using assms False by (intro mod_pos_pos_trivial) auto
  finally have "c = a + b - m" using assms(5) by (rule trans [rotated])
  then show ?thesis using assms by simp
qed (use assms in simp)

lemma ucast_shares:
  assumes "x0 + x1 = (x :: z_ks)"
  shows "ucast x0 + ucast x1 = (ucast x + (if x < x0 then 2 ^ 64 else 0) :: z_k2s)"
proof -
  have x: "uint x = (uint x0 + uint x1) mod 2 ^ 64" by (simp only: uint_word_arith_bintrs(1) take_bit_eq_mod flip: assms) simp
  have b: "uint x0 < 2 ^ 64" "uint x1 < 2 ^ 64" using uint_lt2p [of x0] uint_lt2p [of x1] by (simp_all only: len_bit0 len_num1 mult_1_right) simp_all
  have s: "uint x0 + uint x1 = uint x + (if uint x < uint x0 then 2 ^ 64 else 0)"
    by (rule sum_mod_carry [OF _ b(1) _ b(2) x]) simp_all
  have "(ucast x0 + ucast x1 :: z_k2s) = of_int (uint x0 + uint x1)" by simp
  also have "\<dots> = of_int (uint x) + of_int (if uint x < uint x0 then 2 ^ 64 else 0)" unfolding s by (rule of_int_add)
  also have "\<dots> = ucast x + (if x < x0 then 2 ^ 64 else 0)" unfolding word_less_alt by (cases "uint x < uint x0") (simp_all only: if_True if_False of_int_uint of_int_power of_int_numeral of_int_0)
  finally show ?thesis .
qed



text \<open>C5: The consistency check of all clients, run by the two servers on each other's messages, gives both the same
  values \<open>d0 + d1 - (v0 + v1) * alpha\<close> and the same list of failed clients, the ones whose value is not 0.\<close>

theorem check_both_servers:
  fixes alpha0 alpha1 :: z_s
  assumes "length v1 = length v0" "length d0 = length v0" "length d1 = length v0" "16 * length v0 < 2 ^ 32"
  shows "\<exists>w0 w1 z failed. consistency_check_all alpha0 v0 d0 (w1 @ rest0) out0 = Some (Inr (z, failed, rest0, out0 @ w0))
    \<and> consistency_check_all alpha1 v1 d1 (w0 @ rest1) out1 = Some (Inr (z, failed, rest1, out1 @ w1))
    \<and> z = map (\<lambda>i. d0 ! i + d1 ! i - (v0 ! i + v1 ! i) * (ucast alpha0 + ucast alpha1)) [0..<length v0]
    \<and> set failed = {i. i < length v0 \<and> d0 ! i + d1 ! i \<noteq> (v0 ! i + v1 ! i) * (ucast alpha0 + ucast alpha1)}"
proof -
  let ?z = "map (\<lambda>i. d0 ! i + d1 ! i - (v0 ! i + v1 ! i) * key_sum alpha0 alpha1) [0..<length v0]"
  have "set (filter (\<lambda>i. ?z ! i \<noteq> 0) [0..<length v0])
      = {i. i < length v0 \<and> d0 ! i + d1 ! i \<noteq> (v0 ! i + v1 ! i) * key_sum alpha0 alpha1}"
    by auto
  then show ?thesis
    using consistency_check_both [OF assms, where ?alpha0.0 = alpha0 and ?alpha1.0 = alpha1 and ?rest0.0 = rest0
        and ?out0.0 = out0 and ?rest1.0 = rest1 and ?out1.0 = out1] unfolding key_sum_def by blast
qed

theorem check_both_servers_witness:
  "\<exists>w0 w1 z failed. consistency_check_all (0 :: z_s) [5, 1] [7, 2] (w1 @ []) [] = Some (Inr (z, failed, [], [] @ w0))
    \<and> consistency_check_all (1 :: z_s) [4, 1] [2, 1] (w0 @ []) [] = Some (Inr (z, failed, [], [] @ w1))
    \<and> z = map (\<lambda>i. [7, 2 :: z_k2s] ! i + [2, 1] ! i - ([5, 1] ! i + [4, 1] ! i) * (ucast (0 :: z_s) + ucast (1 :: z_s))) [0..<length [5, 1 :: z_k2s]]
    \<and> set failed = {i. i < length [5, 1 :: z_k2s] \<and> [7, 2 :: z_k2s] ! i + [2, 1] ! i \<noteq> ([5, 1] ! i + [4, 1] ! i) * (ucast (0 :: z_s) + ucast (1 :: z_s))}"
  by (rule check_both_servers) simp_all

text \<open>C3: Soundness of the check: whatever shares of values and tags a cheating client sends, if the error of one tag is not a multiple of \<open>2 ^ 65\<close>
  then at most one of the \<open>2 ^ 63\<close> values of its coefficient makes the check value 0.\<close>

theorem check_soundness:
  fixes alpha0 alpha1 :: z_s
  assumes "length x1 = length x0" "length r = length x0" "i < length x0"
    and "\<not> 2 ^ 65 dvd unat (m0 ! i + m1 ! i - (ucast (x0 ! i) + ucast (x1 ! i)) * (ucast alpha0 + ucast alpha1))"
  shows "card {a. check_d (r[i := a]) m0 (length x0) mt0 0 + check_d (r[i := a]) m1 (length x1) mt1 0
    = (check_v (r[i := a]) x0 xt0 0 + check_v (r[i := a]) x1 xt1 0) * (ucast alpha0 + ucast alpha1)} \<le> 1"
proof -
  let ?Z = "{a. check_z alpha0 alpha1 (r[i := a]) x0 xt0 m0 mt0 x1 xt1 m1 mt1 = 0}"
  obtain c where c: "\<forall>a. check_z alpha0 alpha1 (r[i := a]) x0 xt0 m0 mt0 x1 xt1 m1 mt1
    = ucast a * tag_error alpha0 alpha1 (x0 ! i) (x1 ! i) (m0 ! i) (m1 ! i) + c"
    using check_z_update [OF assms(1-3)] by blast
  have "a = b" if "a \<in> ?Z" "b \<in> ?Z" for a b
    using that c assms(4) by (intro coefficient_unique [of a _ c b]) (simp_all add: tag_error_def key_sum_def)
  then have "card ?Z \<le> 1"
    by (metis card_le_Suc0_iff_eq finite One_nat_def)
  then show ?thesis
    by (simp add: check_z_def key_sum_def)
qed

theorem check_soundness_witness:
  "card {a. check_d ([7][0 := a]) [1] 1 0 0 + check_d ([7][0 := a]) [4] 1 0 0
    = (check_v ([7][0 := a]) [2] 0 0 + check_v ([7][0 := a]) [2] 0 0) * (ucast (0 :: z_s) + ucast (1 :: z_s))} \<le> 1"
  using check_soundness [of "[2]" "[2]" "[7]" 0 "[1]" "[4]" 0 1 0 0 0 0] by simp

text \<open>C4: Dishonest-majority input commitment: the tag error of an input is \<open>- alpha0 * 2 ^ 64\<close> exactly when its share \<open>x0\<close> is
  larger than the input, so that the shares added in the wider ring wrap around, and 0 otherwise.\<close>

theorem commitment_dishonest_tags:
  fixes alpha0 alpha1 :: z_s and buf :: "octet list"
  assumes "cipher_ok E" "0 < pl" "pl \<le> 256" "0 < mr"
    and "length x0 = length x" "length b1 = length x + 1" "length ab1 = length x + 1" "length psC = S_BITS" "length psS = S_BITS"
    and "length x + 1 + pl \<le> 2 ^ 64" "min mr S_BITS * (24 + length x * 16) < 2 ^ 32" "24 * (length x + 1) < 2 ^ 32"
    and "length a0 = length x0 + 1" "length b0 = length x0 + 1"
      "\<forall>i\<le>length x0. a0 ! i = b0 ! i + ucast alpha1 * ucast ((x0 @ [xt0]) ! i)"
  shows "\<exists>w0 w1 x1 m0 m1 v0 d0 v1 d1.
      client_commit_dishonest_with E pl mr (prng_new seed st buf) psC x x0 xt0 b1 ch0 ch1 = Inr (ch0 @ w0, ch1 @ w1)
    \<and> server_commit_dishonest_with E pl mr 0 psS alpha0 x0 xt0 b0 ab1 (length x) r 0 0 (w0 @ rest0) = Some (Inr (x0, m0, v0, d0))
    \<and> server_commit_dishonest_with E pl mr 1 ps1 alpha1 y0 yt0 a0 ab (length x) r 0 0 (w1 @ rest1) = Some (Inr (x1, m1, v1, d1))
    \<and> (\<forall>i<length x. x0 ! i + x1 ! i = x ! i
        \<and> m0 ! i + m1 ! i - (ucast (x0 ! i) + ucast (x1 ! i)) * (ucast alpha0 + ucast alpha1)
          = (if x ! i < x0 ! i then - (ucast alpha0 * 2 ^ 64) else 0))"
proof -
  have ole: "server_ole alpha1 x0 xt0 a0 b0"
    using assms(13-15) by (simp add: server_ole_def)
  obtain w0 w1 x1 m0 m1 v0 d0 v1 d1 where
    c: "client_commit_dishonest_with E pl mr (prng_new seed st buf) psC x x0 xt0 b1 ch0 ch1 = Inr (ch0 @ w0, ch1 @ w1)"
    and s0: "server_commit_dishonest_with E pl mr 0 psS alpha0 x0 xt0 b0 ab1 (length x) r 0 0 (w0 @ rest0) = Some (Inr (x0, m0, v0, d0))"
    and s1: "server_commit_dishonest_with E pl mr 1 ps1 alpha1 y0 yt0 a0 ab (length x) r 0 0 (w1 @ rest1) = Some (Inr (x1, m1, v1, d1))"
    and e: "\<forall>i<length x. x0 ! i + x1 ! i = x ! i \<and> tag_error alpha0 alpha1 (x0 ! i) (x1 ! i) (m0 ! i) (m1 ! i)
          = - (ucast alpha0 * of_bool (unat (x ! i) < unat (x0 ! i)) * 2 ^ 64)"
    using dishonest_commitment [OF assms(1-12) ole, where seed = seed and st = st and buf = buf and ?alpha0.0 = alpha0
        and ?ch0.0 = ch0 and ?ch1.0 = ch1 and r = r and ?rest0.0 = rest0 and ?ps1.0 = ps1 and ?y0.0 = y0 and ?yt0.0 = yt0
        and ab = ab and ?rest1.0 = rest1]
    by (elim exE conjE) (rule that)
  have "m0 ! i + m1 ! i - (ucast (x0 ! i) + ucast (x1 ! i)) * (ucast alpha0 + ucast alpha1)
      = (if x ! i < x0 ! i then - (ucast alpha0 * 2 ^ 64) else 0)" if "i < length x" for i
    using e that by (auto simp: tag_error_def key_sum_def word_less_nat_alt)
  then show ?thesis
    using c s0 s1 e by blast
qed

theorem commitment_dishonest_tags_witness:
  "\<exists>w0 w1 x1 m0 m1 v0 d0 v1 d1.
      client_commit_dishonest_with (\<lambda>k b. b) 8 9 (prng_new [] [] []) (replicate S_BITS (prng_new [] [] [], prng_new [] [] [])) [5] [7] 0 [0, 0] [] []
        = Inr ([] @ w0, [] @ w1)
    \<and> server_commit_dishonest_with (\<lambda>k b. b) 8 9 0 (replicate S_BITS (prng_new [] [] [], prng_new [] [] [])) 3 [7] 0 [1, 2] [0, 0]
        (length [5 :: z_ks]) [3] 0 0 (w0 @ []) = Some (Inr ([7], m0, v0, d0))
    \<and> server_commit_dishonest_with (\<lambda>k b. b) 8 9 1 [] 1 [] 0 [8, 2] [] (length [5 :: z_ks]) [3] 0 0 (w1 @ []) = Some (Inr (x1, m1, v1, d1))
    \<and> (\<forall>i<length [5 :: z_ks]. [7] ! i + x1 ! i = [5] ! i
        \<and> m0 ! i + m1 ! i - (ucast ([7] ! i :: z_ks) + ucast (x1 ! i)) * (ucast (3 :: z_s) + ucast (1 :: z_s))
          = (if [5 :: z_ks] ! i < [7] ! i then - (ucast (3 :: z_s) * 2 ^ 64) else 0))"
  by (rule commitment_dishonest_tags) (simp_all add: cipher_ok_def S_BITS_def less_Suc_eq_le [symmetric] All_less_Suc)

text \<open>C15: The client's mask \<open>xt1\<close> in the honest-majority commitment comes from a generator that was never seeded. The comment in
  random.h:75 says that its use fails, but the client sends its message like with any other generator, and the mask in it, the eight
  bytes behind the inputs, is the first eight bytes of whatever the generator's uninitialised buffer holds, for every block cipher
  and whatever else is in the generator.\<close>

theorem client_mask_unseeded:
  fixes alpha0 alpha1 :: z_s
  assumes "24 * (length x + 1) < 2 ^ 32" "0 < pl" "8 \<le> length buf"
  shows "\<exists>w. client_commit_honest_with E pl (prng_new seed st buf) alpha0 alpha1 x x0 xt0 m0 mt0 channel = Inr (channel @ w)
    \<and> length w = 4 + 24 * (length x + 1) \<and> take 8 (drop (4 + 24 * length x) w) = take 8 buf"
  using assms by (rule honest_client_mask)

theorem client_mask_unseeded_witness:
  "\<exists>w. client_commit_honest_with (\<lambda>k b. b) 8 (prng_new [] [] [1, 2, 3, 4, 5, 6, 7, 8]) 0 1 [5] [2] 0 [9] 0 [7] = Inr ([7] @ w)
    \<and> length w = 4 + 24 * (length [5 :: z_ks] + 1) \<and> take 8 (drop (4 + 24 * length [5 :: z_ks]) w) = take 8 [1, 2, 3, 4, 5, 6, 7, 8]"
  by (rule client_mask_unseeded) simp_all

end
